(* ===== verification/Prelude.thy ===== *)
theory Prelude
  imports Main "HOL-Library.Word" "HOL-Library.Signed_Division" "HOL-Library.Multiset"
    "HOL-Library.AList"
begin

unbundle bit_operations_syntax

text \<open>
  The vocabulary every component shares: the C integer types, the faults a piece of kernel code
  can run into, the result type and its sequencing operator, arrays with checked subscripts, C's
  truncating remainder, a finite store of heap cells with an allocator, and paths through linked
  structures in that store.
\<close>

section \<open>C types\<close>

type_synonym u8 = "8 word"
type_synonym u16 = "16 word"
type_synonym u32 = "32 word"
type_synonym u64 = "64 word"

text \<open>A pointer is its 64-bit value; \<open>0\<close> is \<open>NULL\<close>.\<close>

type_synonym addr = u64

abbreviation (input) NULL :: addr where
  "NULL \<equiv> 0"

text \<open>A conversion to \<open>int32_t\<close> keeps the low 32 bits, read as two's complement.\<close>

definition to_i32 :: "int \<Rightarrow> int" where
  "to_i32 k = signed_take_bit 31 k"

text \<open>String literals as the bytes the compiler emits, without the terminating zero.\<close>

definition str :: "string \<Rightarrow> u8 list" where
  "str s = map of_char s"

section \<open>Faults and results\<close>

text \<open>
  Everything that stops the kernel is a value: a dereference of \<open>NULL\<close>, an access to memory that is
  not an object of the expected kind, a subscript outside its array, a division by zero, a loop that
  would never end, a spinlock taken twice by the same core, and \<^verbatim>\<open>PANIC\<close> with its message.
\<close>

datatype fault =
    NullDeref
  | BadPointer
  | OutOfBounds
  | DivByZero
  | Diverge
  | Deadlock
  | Panic string

type_synonym 'a res = "fault + 'a"

definition bindE :: "'a res \<Rightarrow> ('a \<Rightarrow> 'b res) \<Rightarrow> 'b res" where
  "bindE m f = (case m of Inl e \<Rightarrow> Inl e | Inr x \<Rightarrow> f x)"

named_theorems res_iff \<open>when a sequence of fallible operations ends, and with which result\<close>

lemma bindE_Inl [simp]: "bindE (Inl e) f = Inl e"
  by (simp add: bindE_def)

lemma bindE_Inr [simp]: "bindE (Inr x) f = f x"
  by (simp add: bindE_def)

lemma bindE_eq_Inr [res_iff]: "bindE m f = Inr y \<longleftrightarrow> (\<exists>x. m = Inr x \<and> f x = Inr y)"
  by (cases m) auto

lemma bindE_eq_Inl [res_iff]:
  "bindE m f = Inl e \<longleftrightarrow> m = Inl e \<or> (\<exists>x. m = Inr x \<and> f x = Inl e)"
  by (cases m) auto

lemma bindE_cong [fundef_cong]:
  "m = m' \<Longrightarrow> (\<And>x. m' = Inr x \<Longrightarrow> f x = f' x) \<Longrightarrow> bindE m f = bindE m' f'"
  by (cases m') auto

section \<open>Arrays and C arithmetic\<close>

definition aget :: "'a list \<Rightarrow> int \<Rightarrow> 'a res" where
  "aget xs i = (if 0 \<le> i \<and> i < int (length xs) then Inr (xs ! nat i) else Inl OutOfBounds)"

definition aset :: "'a list \<Rightarrow> int \<Rightarrow> 'a \<Rightarrow> 'a list res" where
  "aset xs i v = (if 0 \<le> i \<and> i < int (length xs) then Inr (xs[nat i := v]) else Inl OutOfBounds)"

text \<open>The C operator \<open>%\<close> on \<open>int\<close> truncates towards zero and traps on a zero divisor.\<close>

definition crem :: "int \<Rightarrow> int \<Rightarrow> int res" where
  "crem a b = (if b = 0 then Inl DivByZero else Inr (a smod b))"

lemma bindE_assoc: "bindE (bindE m f) g = bindE m (\<lambda>x. bindE (f x) g)"
  by (cases m) simp_all

lemma aget_ok [simp]: "0 \<le> i \<Longrightarrow> i < int (length xs) \<Longrightarrow> aget xs i = Inr (xs ! nat i)"
  by (simp add: aget_def)

lemma aset_ok [simp]: "0 \<le> i \<Longrightarrow> i < int (length xs) \<Longrightarrow> aset xs i v = Inr (xs[nat i := v])"
  by (simp add: aset_def)

lemma smod_nonneg: "0 \<le> a \<Longrightarrow> 0 < b \<Longrightarrow> (a :: int) smod b = a mod b"
  by (simp add: signed_modulo_int_def sgn_if)

lemma crem_ok [simp]: "0 \<le> a \<Longrightarrow> 0 < b \<Longrightarrow> crem a b = Inr (a mod b)"
  by (simp add: crem_def smod_nonneg)

lemma to_i32_id: "- (2 ^ 31) \<le> k \<Longrightarrow> k < 2 ^ 31 \<Longrightarrow> to_i32 k = k"
  by (simp add: to_i32_def signed_take_bit_int_eq_self_iff)

lemma str_Nil [simp]: "str [] = []"
  by (simp add: str_def)

section \<open>Naturals, words and ranges\<close>

lemma upt_split: "c \<le> n \<Longrightarrow> [b ..< b + n] = [b ..< b + c] @ [b + c ..< b + c + (n - c)]"
  using upt_add_eq_append[of b "b + c" "n - c"] by (simp add: add.assoc del: upt_add_eq_append)

lemma unat_of_nat_64: "n < 2 ^ 64 \<Longrightarrow> unat (of_nat n :: u64) = n"
  by (simp add: unat_of_nat)

lemma unat_lt_64: "unat (x :: u64) < 2 ^ 64"
  using unsigned_less[of x] by simp

lemma unat_iff_uint:
  "unat x \<le> n \<longleftrightarrow> uint x \<le> int n" "unat x < n \<longleftrightarrow> uint x < int n" "n \<le> unat x \<longleftrightarrow> int n \<le> uint x"
  "n < unat x \<longleftrightarrow> int n < uint x" "unat x = n \<longleftrightarrow> uint x = int n"
  using uint_nat[of x] by linarith+

lemma sint_small: "unat (w :: u64) < 2 ^ 63 \<Longrightarrow> sint w = int (unat w)"
proof -
  assume "unat w < 2 ^ 63"
  then have "uint w < 2 ^ 63" by (simp add: unat_iff_uint)
  moreover have "- (2 ^ 63) \<le> uint w" by (rule order_trans[OF _ uint_nonnegative]) simp
  ultimately show "sint w = int (unat w)" by (simp add: sint_uint signed_take_bit_int_eq_self_iff)
qed

lemma unat_inc: "(i :: 'a :: len word) < k \<Longrightarrow> unat (i + 1) = Suc (unat i)"
proof -
  assume a: "i < k"
  have "unat k < 2 ^ LENGTH('a)" by (rule unsigned_less)
  with a have "unat i + 1 < 2 ^ LENGTH('a)" unfolding word_less_nat_alt by linarith
  then show "unat (i + 1) = Suc (unat i)" by (simp add: unat_word_ariths)
qed

lemma counter_step: "(i :: 'a :: len word) < n \<Longrightarrow> unat n - unat (i + 1) < unat n - unat i"
  by (simp add: unat_inc word_less_nat_alt)

lemma unat_dec: "(i :: 'a :: len word) \<noteq> 0 \<Longrightarrow> unat (i - 1) = unat i - 1"
  by (rule unat_minus_one)

lemma unat_dist_dec: "(i :: 'a :: len word) < k \<Longrightarrow> unat (k - (i + 1)) < unat (k - i)"
  using unat_inc[of i k] inc_le[of i k]
  by (simp add: unat_sub word_less_nat_alt order_less_imp_le)

text \<open>Rounding up to a multiple of \<open>k\<close> the way the sources write it.\<close>

lemma unat_round_up:
  fixes x k :: u64
  assumes "k \<noteq> 0" "unat x + unat k \<le> 2 ^ 64"
  defines "r \<equiv> if x mod k \<noteq> 0 then x + (k - x mod k) else x"
  shows "unat x \<le> unat r" "unat r < unat x + unat k" "unat r mod unat k = 0"
proof -
  have m: "unat (x mod k) = unat x mod unat k" by (rule unat_mod)
  have k: "0 < unat k" using assms(1) by (simp add: unat_gt_0)
  have lt: "unat x mod unat k < unat k" using k by simp
  have d: "unat (k - x mod k) = unat k - unat x mod unat k" using lt by (simp add: unat_sub word_le_nat_alt m less_imp_le)
  have z: "x mod k = 0 \<longleftrightarrow> unat x mod unat k = 0" using m by (metis unat_eq_0)
  have u: "unat (x + (k - x mod k)) = unat x + (unat k - unat x mod unat k)" if "unat x mod unat k \<noteq> 0"
    using that lt d assms(2) by (simp add: unat_word_ariths)
  show "unat x \<le> unat r" "unat r < unat x + unat k" using u z k lt by (auto simp: r_def)
  have "unat x + (unat k - unat x mod unat k) = unat x div unat k * unat k + unat k"
    using lt div_mult_mod_eq[of "unat x" "unat k"] by linarith
  then have "(unat x + (unat k - unat x mod unat k)) mod unat k = 0" by simp
  then show "unat r mod unat k = 0" using u z by (auto simp: r_def)
qed

section \<open>Heap cells\<close>

text \<open>
  Objects of one C type live in a heap of cells. \<open>cells\<close> are the allocated objects by address;
  \<open>avail\<close> is what the allocator will answer to the next calls of \<^verbatim>\<open>malloc\<close>, in order: an address
  together with the stale contents found there. When it is used up \<^verbatim>\<open>malloc\<close> returns \<open>NULL\<close>. A freed
  object keeps its contents and its address becomes available again.
\<close>

record 'n heap =
  cells :: "(addr \<times> 'n) list"
  avail :: "(addr \<times> 'n) list"

abbreviation hmap :: "'n heap \<Rightarrow> addr \<Rightarrow> 'n option" where
  "hmap h \<equiv> map_of (cells h)"

definition hget :: "'n heap \<Rightarrow> addr \<Rightarrow> 'n res" where
  "hget h p = (if p = NULL then Inl NullDeref
               else case hmap h p of None \<Rightarrow> Inl BadPointer | Some n \<Rightarrow> Inr n)"

definition hput :: "'n heap \<Rightarrow> addr \<Rightarrow> 'n \<Rightarrow> 'n heap" where
  "hput h p n = h\<lparr>cells := AList.update p n (cells h)\<rparr>"

text \<open>An assignment through a pointer.\<close>

definition hset :: "'n heap \<Rightarrow> addr \<Rightarrow> ('n \<Rightarrow> 'n) \<Rightarrow> 'n heap res" where
  "hset h p f = bindE (hget h p) (\<lambda>n. Inr (hput h p (f n)))"

definition halloc :: "'n heap \<Rightarrow> addr \<times> 'n heap" where
  "halloc h = (case avail h of
     [] \<Rightarrow> (NULL, h)
   | (p, g) # rest \<Rightarrow> (p, h\<lparr>cells := AList.update p g (cells h), avail := rest\<rparr>))"

definition hfree :: "'n heap \<Rightarrow> addr \<Rightarrow> 'n heap res" where
  "hfree h p = (if p = NULL then Inr h
     else bindE (hget h p) (\<lambda>n.
       Inr (h\<lparr>cells := AList.delete p (cells h), avail := avail h @ [(p, n)]\<rparr>)))"

definition heap_wf :: "'n heap \<Rightarrow> bool" where
  "heap_wf h \<longleftrightarrow> distinct (map fst (cells h)) \<and> distinct (map fst (avail h)) \<and>
     NULL \<notin> fst ` set (cells h) \<and> NULL \<notin> fst ` set (avail h) \<and>
     fst ` set (cells h) \<inter> fst ` set (avail h) = {}"

named_theorems heap_simps \<open>reading the heap after an operation on it\<close>

lemma hget_ok [simp]: "hmap h p = Some n \<Longrightarrow> p \<noteq> NULL \<Longrightarrow> hget h p = Inr n"
  by (simp add: hget_def)

lemma hget_NULL [simp]: "hget h NULL = Inl NullDeref"
  by (simp add: hget_def)

lemma hset_ok [simp]: "hmap h p = Some n \<Longrightarrow> p \<noteq> NULL \<Longrightarrow> hset h p f = Inr (hput h p (f n))"
  by (simp add: hset_def)

lemma hmap_hput [simp, heap_simps]: "hmap (hput h p n) = (hmap h)(p \<mapsto> n)"
  by (simp add: hput_def update_conv')

lemma avail_hput [simp]: "avail (hput h p n) = avail h"
  by (simp add: hput_def)

lemma hput_same: "hmap h p = Some n \<Longrightarrow> hput h p n = h"
proof -
  have "map_of xs p = Some n \<Longrightarrow> AList.update p n xs = xs" for xs by (induction xs) (auto split: if_splits)
  then show "hmap h p = Some n \<Longrightarrow> hput h p n = h" by (simp add: hput_def)
qed

lemma hput_hput [simp]: "hput (hput h p a) p b = hput h p b"
proof -
  have "AList.update p b (AList.update p a xs) = AList.update p b xs" for xs by (induction xs) auto
  then show ?thesis by (simp add: hput_def)
qed

lemma halloc_None [simp]: "avail h = [] \<Longrightarrow> halloc h = (NULL, h)"
  by (simp add: halloc_def)

lemma halloc_Some:
  "avail h = (p, g) # rest \<Longrightarrow>
   halloc h = (p, h\<lparr>cells := AList.update p g (cells h), avail := rest\<rparr>)"
  by (simp add: halloc_def)

lemma hfree_ok:
  "hmap h p = Some n \<Longrightarrow> p \<noteq> NULL \<Longrightarrow>
   hfree h p = Inr (h\<lparr>cells := AList.delete p (cells h), avail := avail h @ [(p, n)]\<rparr>)"
  by (simp add: hfree_def)

lemma hmap_dom: "dom (hmap h) = fst ` set (cells h)"
  by (rule dom_map_of_conv_image_fst)

lemma heap_wf_NULL: "heap_wf h \<Longrightarrow> hmap h NULL = None"
  by (auto simp: heap_wf_def map_of_eq_None_iff)

lemma heap_wf_hput:
  assumes "heap_wf h" "hmap h p \<noteq> None" shows "heap_wf (hput h p n)"
proof -
  have "p \<in> fst ` set (cells h)" using assms(2) by (simp add: map_of_eq_None_iff)
  moreover have "fst ` set (AList.update p n (cells h)) = insert p (fst ` set (cells h))"
    by (simp flip: dom_map_of_conv_image_fst add: update_conv')
  ultimately show ?thesis using assms(1)
    by (auto simp: heap_wf_def hput_def intro: distinct_update)
qed

lemma heap_wf_halloc:
  assumes "heap_wf h" "avail h = (p, g) # rest"
  defines "h' \<equiv> h\<lparr>cells := AList.update p g (cells h), avail := rest\<rparr>"
  shows "p \<noteq> NULL" "hmap h p = None" "hmap h' = (hmap h)(p \<mapsto> g)" "heap_wf h'"
proof -
  have "fst ` set (AList.update p g (cells h)) = insert p (fst ` set (cells h))"
    by (simp flip: dom_map_of_conv_image_fst add: update_conv')
  then show "p \<noteq> NULL" "hmap h p = None" "hmap h' = (hmap h)(p \<mapsto> g)" "heap_wf h'"
    using assms(1,2)
    by (auto simp: heap_wf_def h'_def update_conv' map_of_eq_None_iff intro: distinct_update)
qed

lemma heap_wf_hfree:
  assumes "heap_wf h" "hfree h p = Inr h'"
  shows "heap_wf h'" "hmap h' = (hmap h)(p := None)"
proof -
  have k: "fst ` set (AList.delete p (cells h)) = fst ` set (cells h) - {p}"
    by (auto simp flip: dom_map_of_conv_image_fst simp: delete_conv' split: if_splits)
  show "heap_wf h'"
  proof (cases "p = NULL")
    case True
    then show ?thesis using assms by (simp add: hfree_def)
  next
    case False
    then obtain n where n: "hmap h p = Some n"
        "h' = h\<lparr>cells := AList.delete p (cells h), avail := avail h @ [(p, n)]\<rparr>"
      using assms(2) by (auto simp: hfree_def hget_def split: option.splits)
    have "p \<in> fst ` set (cells h)" using n(1) by (force dest: map_of_SomeD)
    then show ?thesis using assms(1) False k
      by (auto simp: heap_wf_def n(2) delete_keys distinct_removeAll)
  qed
  show "hmap h' = (hmap h)(p := None)" using assms heap_wf_NULL[OF assms(1)]
    by (auto simp: hfree_def hget_def delete_conv' res_iff split: if_splits option.splits)
qed

section \<open>Paths through a linked structure\<close>

text \<open>
  \<open>path nx m p ps q\<close>: following \<open>nx\<close> from \<open>p\<close> in the store \<open>m\<close> visits exactly the cells \<open>ps\<close> and
  arrives at \<open>q\<close>.
\<close>

primrec path :: "('n \<Rightarrow> addr) \<Rightarrow> (addr \<Rightarrow> 'n option) \<Rightarrow> addr \<Rightarrow> addr list \<Rightarrow> addr \<Rightarrow> bool" where
  "path nx m p [] q \<longleftrightarrow> p = q"
| "path nx m p (a # as) q \<longleftrightarrow> p = a \<and> a \<noteq> NULL \<and> (\<exists>n. m a = Some n \<and> path nx m (nx n) as q)"

lemma path_NULL [simp]: "path nx m NULL ps q \<longleftrightarrow> ps = [] \<and> q = NULL"
  by (cases ps) auto

lemma path_append: "path nx m p (as @ bs) q \<longleftrightarrow> (\<exists>r. path nx m p as r \<and> path nx m r bs q)"
  by (induction as arbitrary: p) auto

lemma path_upd: "a \<notin> set ps \<Longrightarrow> path nx (m(a := v)) p ps q = path nx m p ps q"
  by (induction ps arbitrary: p) auto

lemma path_cong: "(\<And>q. q \<in> set ps \<Longrightarrow> m' q = m q) \<Longrightarrow> path nx m' p ps r = path nx m p ps r"
  by (induction ps arbitrary: p) auto

lemma path_dom: "path nx m p ps q \<Longrightarrow> set ps \<subseteq> dom m - {NULL}"
  by (induction ps arbitrary: p) auto

lemma path_non_NULL:
  "p \<noteq> NULL \<Longrightarrow> path nx m p ps NULL \<Longrightarrow> \<exists>n as. ps = p # as \<and> m p = Some n \<and> path nx m (nx n) as NULL"
  by (cases ps) auto

lemma path_unique: "path nx m p as NULL \<Longrightarrow> path nx m p bs NULL \<Longrightarrow> as = bs"
proof (induction as arbitrary: p bs)
  case Nil
  then show ?case by simp
next
  case (Cons a as)
  then show ?case by (cases bs) auto
qed

lemma path_distinct: "path nx m p ps NULL \<Longrightarrow> distinct ps"
proof (induction ps arbitrary: p)
  case Nil
  then show ?case by simp
next
  case (Cons a ps)
  then obtain n where n: "m a = Some n" "path nx m (nx n) ps NULL" "a \<noteq> NULL" by auto
  have "a \<notin> set ps"
  proof
    assume "a \<in> set ps"
    then obtain us vs where ps: "ps = us @ a # vs" by (meson split_list)
    then have "path nx m a (a # vs) NULL" using n(2) by (auto simp: path_append)
    moreover have "path nx m a (a # ps) NULL" using n by auto
    ultimately have "a # vs = a # ps" by (rule path_unique)
    then show False using ps by simp
  qed
  then show ?case using Cons.IH[OF n(2)] by simp
qed

lemma path_length:
  assumes "path nx (hmap h) p ps NULL" shows "length ps \<le> length (cells h)"
proof -
  have "length ps = card (set ps)" using path_distinct[OF assms] by (simp add: distinct_card)
  also have "\<dots> \<le> card (fst ` set (cells h))"
    using path_dom[OF assms] by (intro card_mono) (auto simp: hmap_dom)
  also have "\<dots> \<le> length (cells h)" by (metis card_length length_map list.set_map)
  finally show ?thesis .
qed

end
