(* ===== verification/StdQueue.thy ===== *)
theory StdQueue
  imports Prelude
begin

text \<open>
  The bounded ring buffer of \<^verbatim>\<open>common/src/queue.c\<close>, with its fields as \<^verbatim>\<open>queue_t\<close> has them, and the
  interface its clients rely on: a bounded double-ended queue seen as a list.
\<close>

section \<open>State and operations\<close>

text \<open>
  The \<open>int32_t\<close> fields are integers; \<open>qinv\<close> below keeps every value the operations compute inside
  the range of \<open>int32_t\<close>. \<open>queue\<close> is the array \<^verbatim>\<open>malloc\<close> returned.
\<close>

record queue_t =
  queue :: "u64 list"
  q_size :: int
  ent_cnt :: int
  head :: int
  tail :: int

text \<open>\<open>mem\<close> is what \<^verbatim>\<open>malloc(sz * sizeof(uint64_t))\<close> returns: \<open>None\<close>, or an array of that many words.\<close>

definition queue_init :: "u64 list option \<Rightarrow> queue_t option \<Rightarrow> int \<Rightarrow> int \<times> queue_t option" where
  "queue_init mem qp sz =
     (case qp of
        None \<Rightarrow> (-1, None)
      | Some q \<Rightarrow>
          (case mem of
             None \<Rightarrow> (-1, Some q)
           | Some arr \<Rightarrow>
               (0, Some (q\<lparr>queue := arr, q_size := sz, ent_cnt := 0, head := 0, tail := 0\<rparr>))))"

text \<open>After \<^verbatim>\<open>free(q->queue)\<close> no element of the array may be accessed any more.\<close>

definition queue_fini :: "queue_t option \<Rightarrow> queue_t option" where
  "queue_fini qp = map_option (\<lambda>q. q\<lparr>queue := [], q_size := 0\<rparr>) qp"

definition queue_size :: "queue_t option \<Rightarrow> int" where
  "queue_size qp = (case qp of None \<Rightarrow> 0 | Some q \<Rightarrow> q_size q)"

definition queue_entcnt :: "queue_t option \<Rightarrow> int" where
  "queue_entcnt qp = (case qp of None \<Rightarrow> 0 | Some q \<Rightarrow> ent_cnt q)"

definition queue_full :: "queue_t option \<Rightarrow> bool" where
  "queue_full qp = (queue_entcnt qp = queue_size qp)"

definition queue_tryenqueue :: "queue_t option \<Rightarrow> u64 \<Rightarrow> (bool \<times> queue_t option) res" where
  "queue_tryenqueue qp val =
     (case qp of
        None \<Rightarrow> Inr (False, None)
      | Some q \<Rightarrow>
          (let curTail = tail q in
           bindE (crem (curTail + 1) (q_size q)) (\<lambda>nxt.
             if head q = nxt then Inr (False, Some q)
             else bindE (aset (queue q) curTail val) (\<lambda>arr.
               Inr (True, Some (q\<lparr>queue := arr, tail := nxt, ent_cnt := ent_cnt q + 1\<rparr>))))))"

definition queue_tryenqueue_front :: "queue_t option \<Rightarrow> u64 \<Rightarrow> (bool \<times> queue_t option) res" where
  "queue_tryenqueue_front qp val =
     (case qp of
        None \<Rightarrow> Inr (False, None)
      | Some q \<Rightarrow>
          (let curTail = tail q; curHead = head q in
           bindE (crem (curTail + 1) (q_size q)) (\<lambda>nxt.
             if curHead = nxt then Inr (False, Some q)
             else bindE (if curHead > 0 then crem (curHead - 1) (q_size q) else Inr (q_size q - 1))
               (\<lambda>h. bindE (aset (queue q) h val) (\<lambda>arr.
                  Inr (True, Some (q\<lparr>head := h, queue := arr, ent_cnt := ent_cnt q + 1\<rparr>)))))))"

text \<open>The result carries what is stored through \<open>val\<close>, when something is.\<close>

definition queue_trydequeue :: "queue_t option \<Rightarrow> (u64 option \<times> queue_t option) res" where
  "queue_trydequeue qp =
     (case qp of
        None \<Rightarrow> Inr (None, None)
      | Some q \<Rightarrow>
          (let curHead = head q in
           if curHead = tail q then Inr (None, Some q)
           else bindE (aget (queue q) curHead) (\<lambda>v.
                bindE (aset (queue q) curHead 0) (\<lambda>arr.
                bindE (crem (curHead + 1) (q_size q)) (\<lambda>h.
                  Inr (Some v, Some (q\<lparr>queue := arr, head := h, ent_cnt := ent_cnt q - 1\<rparr>)))))))"

definition queue_peek :: "queue_t option \<Rightarrow> (u64 option) res" where
  "queue_peek qp =
     (case qp of
        None \<Rightarrow> Inr None
      | Some q \<Rightarrow>
          (let curHead = head q in
           if curHead = tail q then Inr None
           else bindE (aget (queue q) curHead) (\<lambda>v. Inr (Some v))))"

section \<open>The ring as a list\<close>

definition qinv :: "queue_t \<Rightarrow> bool" where
  "qinv q \<longleftrightarrow>
     0 < q_size q \<and> q_size q < 2 ^ 31 \<and> int (length (queue q)) = q_size q \<and>
     0 \<le> head q \<and> head q < q_size q \<and> 0 \<le> tail q \<and> tail q < q_size q \<and>
     ent_cnt q = (tail q - head q) mod q_size q"

definition qidx :: "queue_t \<Rightarrow> nat \<Rightarrow> int" where
  "qidx q k = (head q + int k) mod q_size q"

definition qlist :: "queue_t \<Rightarrow> u64 list" where
  "qlist q = map (\<lambda>k. queue q ! nat (qidx q k)) [0..<nat (ent_cnt q)]"

definition qcap :: "queue_t \<Rightarrow> nat" where
  "qcap q = nat (q_size q - 1)"

lemma qinvD:
  assumes "qinv q"
  shows "0 < q_size q" "int (length (queue q)) = q_size q" "0 \<le> head q" "head q < q_size q"
    "0 \<le> tail q" "tail q < q_size q" "ent_cnt q = (tail q - head q) mod q_size q"
  using assms by (auto simp: qinv_def)

lemma length_qlist [simp]: "length (qlist q) = nat (ent_cnt q)"
  by (simp add: qlist_def)

lemma nth_qlist: "k < nat (ent_cnt q) \<Longrightarrow> qlist q ! k = queue q ! nat (qidx q k)"
  by (simp add: qlist_def)

lemma ring_sub_cases:
  fixes h t s :: int
  assumes "0 \<le> h" "h < s" "0 \<le> t" "t < s"
  shows "(t - h) mod s = (if h \<le> t then t - h else t - h + s)"
proof (cases "h \<le> t")
  case True
  with assms show ?thesis by (simp add: mod_pos_pos_trivial)
next
  case False
  have "(t - h) mod s = (t - h + s) mod s" by simp
  also have "\<dots> = t - h + s" using False assms by (intro mod_pos_pos_trivial) auto
  finally show ?thesis using False by simp
qed

lemma ring_add_cases:
  fixes h k s :: int
  assumes "0 \<le> h" "h < s" "0 \<le> k" "k \<le> s"
  shows "(h + k) mod s = (if h + k < s then h + k else h + k - s)"
proof (cases "h + k < s")
  case True
  with assms show ?thesis by (simp add: mod_pos_pos_trivial)
next
  case False
  have "(h + k) mod s = (h + k - s) mod s" by simp
  also have "\<dots> = h + k - s" using False assms by (intro mod_pos_pos_trivial) auto
  finally show ?thesis using False by simp
qed

lemma qinv_ent_cnt:
  assumes "qinv q"
  shows "0 \<le> ent_cnt q" "ent_cnt q < q_size q"
  using qinvD(1,7)[OF assms] by simp_all

lemma qlist_length_le: "qinv q \<Longrightarrow> length (qlist q) \<le> qcap q"
  using qinv_ent_cnt[of q] by (simp add: qcap_def)

text \<open>The only full state is the one in which all slots but one are used.\<close>

lemma qinv_full_iff:
  assumes "qinv q"
  shows "head q = (tail q + 1) mod q_size q \<longleftrightarrow> length (qlist q) = qcap q"
proof -
  have t: "(tail q + 1) mod q_size q = (if tail q + 1 < q_size q then tail q + 1 else 0)"
    using ring_add_cases[of "tail q" "q_size q" 1] qinvD[OF assms] by auto
  have e: "ent_cnt q = (if head q \<le> tail q then tail q - head q else tail q - head q + q_size q)"
    using ring_sub_cases[of "head q" "q_size q" "tail q"] qinvD[OF assms] by simp
  have "length (qlist q) = qcap q \<longleftrightarrow> ent_cnt q = q_size q - 1"
    using qinv_ent_cnt[OF assms] by (auto simp: qcap_def)
  with t e qinvD[OF assms] show ?thesis by (auto split: if_splits)
qed

lemma qidx_bounds:
  assumes "qinv q" shows "0 \<le> qidx q k" "qidx q k < q_size q"
  using qinvD[OF assms] by (auto simp: qidx_def)

lemma qidx_tail:
  assumes "qinv q" shows "qidx q (nat (ent_cnt q)) = tail q"
proof -
  have "qidx q (nat (ent_cnt q)) = (head q + (tail q - head q) mod q_size q) mod q_size q"
    using qinv_ent_cnt[OF assms] qinvD(7)[OF assms] by (simp add: qidx_def)
  also have "\<dots> = tail q" using qinvD[OF assms] by (simp add: mod_add_right_eq)
  finally show ?thesis .
qed

lemma qidx_inj:
  assumes "qinv q" "int k < q_size q" "int l < q_size q" "qidx q k = qidx q l"
  shows "k = l"
  using assms(2-4) qinvD(3,4)[OF assms(1)] ring_add_cases[of "head q" "q_size q" "int k"]
    ring_add_cases[of "head q" "q_size q" "int l"]
  by (auto simp: qidx_def split: if_splits)

section \<open>Each operation on the list\<close>

lemma enqueue_ok:
  fixes v :: u64
  assumes inv: "qinv q" and room: "length (qlist q) < qcap q"
  defines "q' \<equiv> q\<lparr>queue := (queue q)[nat (tail q) := v], tail := (tail q + 1) mod q_size q,
                 ent_cnt := ent_cnt q + 1\<rparr>"
  shows "queue_tryenqueue (Some q) v = Inr (True, Some q')"
    and "qinv q'" and "qlist q' = qlist q @ [v]" and "qcap q' = qcap q"
proof -
  note D = qinvD[OF inv] and E = qinv_ent_cnt[OF inv]
  have nf: "head q \<noteq> (tail q + 1) mod q_size q" using qinv_full_iff[OF inv] room by simp
  show "queue_tryenqueue (Some q) v = Inr (True, Some q')"
    using D nf by (simp add: queue_tryenqueue_def q'_def Let_def)
  have cnt: "ent_cnt q + 1 < q_size q" using room E by (simp add: qcap_def)
  have "((tail q + 1) mod q_size q - head q) mod q_size q = (tail q - head q + 1) mod q_size q"
    by (simp add: mod_simps algebra_simps)
  also have "\<dots> = (ent_cnt q + 1) mod q_size q" using D(7) by (simp add: mod_simps)
  also have "\<dots> = ent_cnt q + 1" using cnt E by simp
  finally show i: "qinv q'" using inv by (auto simp: qinv_def q'_def)
  have at: "qidx q' k = qidx q k" for k by (simp add: qidx_def q'_def)
  have sl: "queue q' ! nat (qidx q k) = (if k = nat (ent_cnt q) then v else queue q ! nat (qidx q k))"
    if "k \<le> nat (ent_cnt q)" for k
  proof (cases "k = nat (ent_cnt q)")
    case True
    then show ?thesis using D qidx_tail[OF inv] by (simp add: q'_def)
  next
    case False
    then have "qidx q k \<noteq> tail q"
      using qidx_inj[OF inv, of k "nat (ent_cnt q)"] qidx_tail[OF inv] that E by auto
    then have "nat (qidx q k) \<noteq> nat (tail q)" using qidx_bounds[OF inv, of k] D by auto
    then show ?thesis using False by (simp add: q'_def)
  qed
  have n: "nat (ent_cnt q') = Suc (nat (ent_cnt q))" using E by (simp add: q'_def nat_add_distrib)
  show "qlist q' = qlist q @ [v]"
    using sl by (simp add: qlist_def n at cong: list.map_cong)
  show "qcap q' = qcap q" by (simp add: qcap_def q'_def)
qed

lemma enqueue_full:
  assumes "qinv q" "length (qlist q) = qcap q"
  shows "queue_tryenqueue (Some q) v = Inr (False, Some q)"
  using assms qinvD[OF assms(1)] qinv_full_iff[OF assms(1)] by (simp add: queue_tryenqueue_def Let_def)

lemma qinv_empty_iff:
  assumes "qinv q"
  shows "head q = tail q \<longleftrightarrow> qlist q = []"
proof -
  have "qlist q = [] \<longleftrightarrow> ent_cnt q = 0"
    using qinv_ent_cnt[OF assms] by (auto simp flip: length_0_conv)
  then show ?thesis
    using qinvD[OF assms] ring_sub_cases[of "head q" "q_size q" "tail q"] by (auto split: if_splits)
qed

lemma dequeue_ok:
  assumes inv: "qinv q" and ne: "qlist q = x # xs"
  defines "q' \<equiv> q\<lparr>queue := (queue q)[nat (head q) := 0], head := (head q + 1) mod q_size q,
                 ent_cnt := ent_cnt q - 1\<rparr>"
  shows "queue_trydequeue (Some q) = Inr (Some x, Some q')"
    and "qinv q'" and "qlist q' = xs" and "qcap q' = qcap q"
proof -
  note D = qinvD[OF inv] and E = qinv_ent_cnt[OF inv]
  have n: "nat (ent_cnt q) = Suc (length xs)" using ne length_qlist[of q] by simp
  have h0: "qidx q 0 = head q" using D by (simp add: qidx_def)
  have x: "x = queue q ! nat (head q)" using nth_qlist[of 0 q] n ne h0 by simp
  have "head q \<noteq> tail q" using qinv_empty_iff[OF inv] ne by simp
  with D x show "queue_trydequeue (Some q) = Inr (Some x, Some q')"
    by (simp add: queue_trydequeue_def q'_def Let_def)
  have "(tail q - (head q + 1) mod q_size q) mod q_size q = (tail q - head q - 1) mod q_size q"
    by (simp add: mod_simps algebra_simps)
  also have "\<dots> = (ent_cnt q - 1) mod q_size q" using D(7) by (simp add: mod_simps)
  also have "\<dots> = ent_cnt q - 1" using n E by simp
  finally show "qinv q'" using inv by (auto simp: qinv_def q'_def)
  have at: "qidx q' k = qidx q (Suc k)" for k by (simp add: qidx_def q'_def mod_simps ac_simps)
  have sl: "queue q' ! nat (qidx q (Suc k)) = xs ! k" if "k < length xs" for k
  proof -
    have "int (Suc k) < q_size q" using that n E by linarith
    then have "qidx q (Suc k) \<noteq> head q" using qidx_inj[OF inv, of "Suc k" 0] h0 D by auto
    then have "nat (qidx q (Suc k)) \<noteq> nat (head q)" using qidx_bounds[OF inv, of "Suc k"] D by auto
    then have "queue q' ! nat (qidx q (Suc k)) = queue q ! nat (qidx q (Suc k))"
      by (simp add: q'_def)
    also have "\<dots> = qlist q ! Suc k" using that n by (simp add: nth_qlist)
    finally show ?thesis by (simp add: ne)
  qed
  have "nat (ent_cnt q') = length xs" using n by (simp add: q'_def)
  then show "qlist q' = xs" using sl by (auto intro: nth_equalityI simp: nth_qlist at)
  show "qcap q' = qcap q" by (simp add: qcap_def q'_def)
qed

lemma dequeue_empty:
  assumes "qinv q" "qlist q = []"
  shows "queue_trydequeue (Some q) = Inr (None, Some q)"
  using assms qinv_empty_iff[OF assms(1)] by (simp add: queue_trydequeue_def Let_def)

lemma enqueue_front_ok:
  fixes v :: u64
  assumes inv: "qinv q" and room: "length (qlist q) < qcap q"
  defines "h \<equiv> (head q - 1) mod q_size q"
  defines "q' \<equiv> q\<lparr>head := h, queue := (queue q)[nat h := v], ent_cnt := ent_cnt q + 1\<rparr>"
  shows "queue_tryenqueue_front (Some q) v = Inr (True, Some q')"
    and "qinv q'" and "qlist q' = v # qlist q" and "qcap q' = qcap q"
proof -
  note D = qinvD[OF inv] and E = qinv_ent_cnt[OF inv]
  have nf: "head q \<noteq> (tail q + 1) mod q_size q" using qinv_full_iff[OF inv] room by simp
  have h: "h = (if head q > 0 then head q - 1 else q_size q - 1)"
    using D zmod_minus1[of "q_size q"] by (cases "head q = 0") (auto simp: h_def)
  have hb: "0 \<le> h" "h < q_size q" using D by (auto simp: h_def)
  show "queue_tryenqueue_front (Some q) v = Inr (True, Some q')"
    using D nf h hb by (auto simp: queue_tryenqueue_front_def q'_def Let_def)
  have cnt: "ent_cnt q + 1 < q_size q" using room E by (simp add: qcap_def)
  have "(tail q - h) mod q_size q = (tail q - head q + 1) mod q_size q"
    by (simp add: h_def mod_simps algebra_simps)
  also have "\<dots> = (ent_cnt q + 1) mod q_size q" using D(7) by (simp add: mod_simps)
  also have "\<dots> = ent_cnt q + 1" using cnt E by simp
  finally have ec: "(tail q - h) mod q_size q = ent_cnt q + 1" .
  show "qinv q'" using inv ec hb by (auto simp: qinv_def q'_def)
  have at: "qidx q' (Suc k) = qidx q k" for k
    using mod_add_left_eq[of "head q - 1" "q_size q" "1 + int k"]
    by (simp add: qidx_def q'_def h_def)
  have at0: "qidx q' 0 = h" using hb by (simp add: qidx_def q'_def)
  have sl: "queue q' ! nat (qidx q k) = qlist q ! k" if "k < nat (ent_cnt q)" for k
  proof -
    have "int (Suc k) < q_size q'" "int 0 < q_size q'" using that cnt E by (auto simp: q'_def)
    note ne = qidx_inj[OF \<open>qinv q'\<close> this]
    have "qidx q k = qidx q' (Suc k)" by (simp add: at)
    also have "\<dots> \<noteq> qidx q' 0" using ne by auto
    finally have "nat (qidx q k) \<noteq> nat h" using qidx_bounds[OF inv, of k] hb at0 by auto
    then show ?thesis using that by (simp add: q'_def nth_qlist)
  qed
  have v0: "queue q' ! nat h = v" using hb D by (simp add: q'_def)
  have n: "nat (ent_cnt q') = Suc (nat (ent_cnt q))" using E by (simp add: q'_def nat_add_distrib)
  show "qlist q' = v # qlist q"
  proof (rule nth_equalityI)
    fix k assume "k < length (qlist q')"
    then show "qlist q' ! k = (v # qlist q) ! k"
      using n sl v0 at0 by (cases k) (auto simp: nth_qlist at)
  qed (simp add: n)
  show "qcap q' = qcap q" by (simp add: qcap_def q'_def)
qed

lemma enqueue_front_full:
  assumes "qinv q" "length (qlist q) = qcap q"
  shows "queue_tryenqueue_front (Some q) v = Inr (False, Some q)"
  using assms qinvD[OF assms(1)] qinv_full_iff[OF assms(1)]
  by (simp add: queue_tryenqueue_front_def Let_def)

lemma peek_ok:
  assumes "qinv q"
  shows "queue_peek (Some q) = Inr (case qlist q of [] \<Rightarrow> None | x # _ \<Rightarrow> Some x)"
proof (cases "qlist q")
  case Nil
  then show ?thesis using qinv_empty_iff[OF assms] by (simp add: queue_peek_def Let_def)
next
  case (Cons x xs)
  have "qidx q 0 = head q" using qinvD[OF assms] by (simp add: qidx_def)
  moreover have "0 < nat (ent_cnt q)" using Cons length_qlist[of q] by simp
  ultimately have "x = queue q ! nat (head q)" using nth_qlist[of 0 q] Cons by simp
  then show ?thesis
    using Cons qinv_empty_iff[OF assms] qinvD[OF assms] by (simp add: queue_peek_def Let_def)
qed

section \<open>The interface: a bounded double-ended queue\<close>

locale bounded_deque =
  fixes enq :: "'q option \<Rightarrow> 'a \<Rightarrow> (bool \<times> 'q option) res"
    and enq_front :: "'q option \<Rightarrow> 'a \<Rightarrow> (bool \<times> 'q option) res"
    and deq :: "'q option \<Rightarrow> ('a option \<times> 'q option) res"
    and contents :: "'q \<Rightarrow> 'a list"
    and cap :: "'q \<Rightarrow> nat"
    and invar :: "'q \<Rightarrow> bool"
  assumes within_cap: "invar q \<Longrightarrow> length (contents q) \<le> cap q"
    and enq_room: "invar q \<Longrightarrow> length (contents q) < cap q \<Longrightarrow>
      \<exists>q'. enq (Some q) x = Inr (True, Some q') \<and> invar q' \<and> contents q' = contents q @ [x] \<and>
           cap q' = cap q"
    and enq_noroom: "invar q \<Longrightarrow> length (contents q) = cap q \<Longrightarrow>
      enq (Some q) x = Inr (False, Some q)"
    and enq_front_room: "invar q \<Longrightarrow> length (contents q) < cap q \<Longrightarrow>
      \<exists>q'. enq_front (Some q) x = Inr (True, Some q') \<and> invar q' \<and>
           contents q' = x # contents q \<and> cap q' = cap q"
    and enq_front_noroom: "invar q \<Longrightarrow> length (contents q) = cap q \<Longrightarrow>
      enq_front (Some q) x = Inr (False, Some q)"
    and deq_some: "invar q \<Longrightarrow> contents q = x # xs \<Longrightarrow>
      \<exists>q'. deq (Some q) = Inr (Some x, Some q') \<and> invar q' \<and> contents q' = xs \<and> cap q' = cap q"
    and deq_none: "invar q \<Longrightarrow> contents q = [] \<Longrightarrow> deq (Some q) = Inr (None, Some q)"
begin

text \<open>What a client that takes an element and puts it (or what is left of it) back relies on.\<close>

lemma deq_then_room:
  assumes "invar q" "contents q = x # xs" "deq (Some q) = Inr (Some x, Some q')"
  shows "invar q'" "contents q' = xs" "cap q' = cap q" "length (contents q') < cap q'"
  using deq_some[OF assms(1,2)] assms within_cap[OF assms(1)] by auto

lemma rotate_step:
  assumes "invar q" "contents q = x # xs"
  shows "\<exists>q1 q2. deq (Some q) = Inr (Some x, Some q1) \<and> enq (Some q1) x = Inr (True, Some q2) \<and>
    invar q2 \<and> contents q2 = xs @ [x] \<and> cap q2 = cap q"
proof -
  from deq_some[OF assms] obtain q1 where d: "deq (Some q) = Inr (Some x, Some q1)" by blast
  note R = deq_then_room[OF assms d]
  from enq_room[OF R(1,4), of x] d R show ?thesis by auto
qed

lemma replace_front_step:
  assumes "invar q" "contents q = x # xs"
  shows "\<exists>q1 q2. deq (Some q) = Inr (Some x, Some q1) \<and> invar q1 \<and> contents q1 = xs \<and>
    cap q1 = cap q \<and> enq_front (Some q1) y = Inr (True, Some q2) \<and>
    invar q2 \<and> contents q2 = y # xs \<and> cap q2 = cap q"
proof -
  from deq_some[OF assms] obtain q1 where d: "deq (Some q) = Inr (Some x, Some q1)" by blast
  note R = deq_then_room[OF assms d]
  from enq_front_room[OF R(1,4), of y] d R show ?thesis by auto
qed

text \<open>First in, first out: what is enqueued comes out after everything that was there before.\<close>

lemma fifo_order:
  assumes "invar q" "contents q = x # xs" "length (contents q) < cap q"
  shows "\<exists>q1 q2. enq (Some q) y = Inr (True, Some q1) \<and> deq (Some q1) = Inr (Some x, Some q2) \<and>
    contents q2 = xs @ [y]"
proof -
  from enq_room[OF assms(1,3), of y] obtain q1 where
    q1: "enq (Some q) y = Inr (True, Some q1)" "invar q1" "contents q1 = x # (xs @ [y])"
    using assms(2) by auto
  from deq_some[OF q1(2,3)] q1(1) show ?thesis by auto
qed

end

interpretation ring: bounded_deque queue_tryenqueue queue_tryenqueue_front queue_trydequeue
  qlist qcap qinv
proof (unfold_locales, goal_cases)
  case (1 q) then show ?case by (rule qlist_length_le)
next
  case (2 q x) then show ?case using enqueue_ok[of q x] by blast
next
  case (3 q x) then show ?case by (rule enqueue_full)
next
  case (4 q x) then show ?case using enqueue_front_ok[of q x] by blast
next
  case (5 q x) then show ?case by (rule enqueue_front_full)
next
  case (6 q x xs) then show ?case using dequeue_ok[of q x xs] by blast
next
  case (7 q) then show ?case by (rule dequeue_empty)
qed

section \<open>Properties\<close>

text \<open>
  C26. Enqueueing on a well-formed ring never faults and behaves as appending to a list of at most
  \<open>q_size - 1\<close> elements: with room, the value becomes the last element and the ring stays well formed;
  without room the call answers false and changes nothing.
\<close>

theorem tryenqueue_refines_append:
  assumes "qinv q"
  shows "\<exists>q'. queue_tryenqueue (Some q) v = Inr (length (qlist q) < qcap q, Some q') \<and> qinv q' \<and>
    qcap q' = qcap q \<and> qlist q' = (if length (qlist q) < qcap q then qlist q @ [v] else qlist q)"
  using ring.enq_room[OF assms, of v] ring.enq_noroom[OF assms, of v] ring.within_cap[OF assms] assms
  by (cases "length (qlist q) < qcap q") auto

definition queue_example :: queue_t where
  "queue_example = \<lparr>queue = [11, 0, 22, 33], q_size = 4, ent_cnt = 3, head = 2, tail = 1\<rparr>"

theorem tryenqueue_refines_append_witness:
  "qinv (queue_example\<lparr>ent_cnt := 2, head := 3\<rparr>) \<and>
   (\<exists>q'. queue_tryenqueue (Some (queue_example\<lparr>ent_cnt := 2, head := 3\<rparr>)) 44 = Inr (True, Some q') \<and>
      qlist q' = [33, 11, 44])"
proof -
  let ?q = "queue_example\<lparr>ent_cnt := 2, head := 3\<rparr>"
  have i: "qinv ?q" by (simp add: qinv_def queue_example_def)
  have l: "qlist ?q = [33, 11]" by (simp add: qlist_def qidx_def queue_example_def upt_rec)
  have c: "qcap ?q = 3" by (simp add: qcap_def queue_example_def)
  show ?thesis using tryenqueue_refines_append[OF i, of 44] i by (auto simp: l c)
qed

text \<open>
  C27. Dequeueing and peeking on a well-formed ring never fault: on an empty ring both answer false
  and nothing changes, otherwise both deliver the first element of the list and dequeueing removes
  exactly that element and frees its slot.
\<close>

theorem trydequeue_refines_tl:
  assumes "qinv q"
  shows "\<exists>q'. queue_trydequeue (Some q) =
      Inr (case qlist q of [] \<Rightarrow> None | x # _ \<Rightarrow> Some x, Some q') \<and>
    queue_peek (Some q) = Inr (case qlist q of [] \<Rightarrow> None | x # _ \<Rightarrow> Some x) \<and>
    qinv q' \<and> qcap q' = qcap q \<and> qlist q' = tl (qlist q)"
  using ring.deq_some[OF assms] ring.deq_none[OF assms] assms
  by (cases "qlist q") (auto simp: peek_ok)

theorem trydequeue_refines_tl_witness:
  "qinv queue_example \<and>
   (\<exists>q'. queue_trydequeue (Some queue_example) = Inr (Some 22, Some q') \<and> qlist q' = [33, 11])"
proof -
  have i: "qinv queue_example" by (simp add: qinv_def queue_example_def)
  have l: "qlist queue_example = [22, 33, 11]"
    by (simp add: qlist_def qidx_def queue_example_def upt_rec)
  show ?thesis using trydequeue_refines_tl[OF i] i by (auto simp: l)
qed

text \<open>
  Enqueueing at the front of a well-formed ring never faults: with room the value becomes the
  first element, so that it is what the next dequeue delivers; without room nothing changes.
\<close>

theorem tryenqueue_front_refines_cons:
  assumes "qinv q"
  shows "\<exists>q'. queue_tryenqueue_front (Some q) v = Inr (length (qlist q) < qcap q, Some q') \<and> qinv q' \<and>
    qcap q' = qcap q \<and> qlist q' = (if length (qlist q) < qcap q then v # qlist q else qlist q)"
  using ring.enq_front_room[OF assms, of v] ring.enq_front_noroom[OF assms, of v]
    ring.within_cap[OF assms] assms
  by (cases "length (qlist q) < qcap q") auto

theorem tryenqueue_front_refines_cons_witness:
  "qinv queue_example \<and>
   (\<exists>q'. queue_tryenqueue_front (Some queue_example) 7 = Inr (False, Some q') \<and> qlist q' = [22, 33, 11])"
proof -
  have i: "qinv queue_example" by (simp add: qinv_def queue_example_def)
  have l: "qlist queue_example = [22, 33, 11]"
    by (simp add: qlist_def qidx_def queue_example_def upt_rec)
  have c: "qcap queue_example = 3" by (simp add: qcap_def queue_example_def)
  show ?thesis using tryenqueue_front_refines_cons[OF i, of 7] i by (auto simp: l c)
qed

text \<open>
  A ring made by \<open>queue_init\<close> over an array of the requested size is well formed and empty and
  holds at most \<open>sz - 1\<close> elements; and \<open>queue_full\<close> answers false in every well-formed state, also
  in the one in which every further enqueue is refused.
\<close>

theorem queue_init_and_full:
  assumes "0 < sz" "sz < 2 ^ 31" "int (length arr) = sz"
  shows "\<exists>q'. queue_init (Some arr) (Some q) sz = (0, Some q') \<and> qinv q' \<and> qlist q' = [] \<and>
      qcap q' = nat sz - 1 \<and>
    (\<forall>r. \<not> (qinv r \<and> queue_full (Some r)))"
proof -
  have nofull: "\<not> (qinv r \<and> queue_full (Some r))" for r
    using qinv_ent_cnt[of r] by (auto simp: queue_full_def queue_entcnt_def queue_size_def)
  show ?thesis using assms nofull
    by (auto simp: queue_init_def qinv_def qlist_def qcap_def nat_diff_distrib)
qed

theorem queue_init_and_full_witness:
  "\<exists>q'. queue_init (Some [5, 6]) (Some queue_example) 2 = (0, Some q') \<and> qinv q' \<and> qlist q' = [] \<and>
     \<not> queue_full (Some q')"
  using queue_init_and_full[of 2 "[5, 6]" queue_example] by auto

end
