(* ===== verification/StdList.thy ===== *)
theory StdList
  imports Prelude
begin

text \<open>
  The doubly linked list of \<^verbatim>\<open>common/src/list.c\<close>. A \<^verbatim>\<open>list_t\<close> remembers the node it accessed last and
  walks from there; the properties show that this cursor never changes what an operation answers.
\<close>

section \<open>State and operations\<close>

record list_node =
  "value" :: u64
  "next" :: addr
  prev :: addr

record list_t =
  nodes :: addr
  last :: addr
  last_accessed_node :: addr
  last_accessed_index :: u64
  entry_count :: u64

datatype list_error = list_error_none | list_error_allocation_failed | list_error_eol | list_error_deleting

type_synonym list_heap = "list_node heap"

definition list_init :: "list_t \<Rightarrow> int \<times> list_t" where
  "list_init t = (0, t\<lparr>nodes := NULL, last := NULL, last_accessed_node := NULL,
                       last_accessed_index := 0, entry_count := 0\<rparr>)"

definition list_append :: "list_heap \<Rightarrow> list_t \<Rightarrow> u64 \<Rightarrow> (list_error \<times> list_heap \<times> list_t) res" where
  "list_append h a val =
     (let (l, h) = halloc h in
      if l = NULL then Inr (list_error_allocation_failed, h, a)
      else bindE (hset h l (\<lambda>n. n\<lparr>prev := last a, value := val, next := NULL\<rparr>)) (\<lambda>h.
           bindE (if last a \<noteq> NULL then hset h (last a) (\<lambda>n. n\<lparr>next := l\<rparr>) else Inr h) (\<lambda>h.
             let a = a\<lparr>last := l\<rparr>;
                 a = (if nodes a = NULL then a\<lparr>nodes := last a\<rparr> else a);
                 a = (if last_accessed_node a = NULL
                      then a\<lparr>last_accessed_node := nodes a, last_accessed_index := 0\<rparr> else a)
             in Inr (list_error_none, h, a\<lparr>entry_count := entry_count a + 1\<rparr>))))"

definition list_len :: "list_t \<Rightarrow> u64" where
  "list_len a = entry_count a"

text \<open>The two loops that move the cursor to \<open>index\<close>.\<close>

function walk_back :: "list_heap \<Rightarrow> addr \<Rightarrow> u64 \<Rightarrow> u64 \<Rightarrow> (addr \<times> u64) res" where
  "walk_back h p i index =
     (if i > index then bindE (hget h p) (\<lambda>n. walk_back h (prev n) (i - 1) index) else Inr (p, i))"
  by pat_completeness auto
termination
proof (relation "measure (\<lambda>(h, p, i, index). unat i)")
  fix h :: list_heap and p i index x
  assume "(index :: u64) < i"
  then have "i \<noteq> 0" by auto
  then show "((h, prev x, i - 1, index), h, p, i, index) \<in> measure (\<lambda>(h, p, i, index). unat i)"
    by (simp add: unat_minus_one unat_gt_0)
qed simp

function walk_forward :: "list_heap \<Rightarrow> addr \<Rightarrow> u64 \<Rightarrow> u64 \<Rightarrow> (addr \<times> u64) res" where
  "walk_forward h p i index =
     (if i < index then bindE (hget h p) (\<lambda>n. walk_forward h (next n) (i + 1) index) else Inr (p, i))"
  by pat_completeness auto
termination
proof (relation "measure (\<lambda>(h, p, i, index). unat (index - i))")
  fix h :: list_heap and p i index x
  assume "(i :: u64) < index"
  then have "unat (index - (i + 1)) < unat (index - i)"
    by (rule unat_dist_dec)
  then show "((h, next x, i + 1, index), h, p, i, index) \<in> measure (\<lambda>(h, p, i, index). unat (index - i))"
    by simp
qed simp

declare walk_back.simps [simp del] walk_forward.simps [simp del]

definition seek :: "list_heap \<Rightarrow> list_t \<Rightarrow> u64 \<Rightarrow> list_t res" where
  "seek h a index =
     bindE (walk_back h (last_accessed_node a) (last_accessed_index a) index) (\<lambda>(p, i).
     bindE (walk_forward h p i index) (\<lambda>(p, i).
       Inr (a\<lparr>last_accessed_node := p, last_accessed_index := i\<rparr>)))"

text \<open>Taking the node under the cursor out of the list and releasing it.\<close>

definition unlink :: "list_heap \<Rightarrow> list_t \<Rightarrow> (list_heap \<times> list_t) res" where
  "unlink h a =
     (let tmp = last_accessed_node a in
      bindE (hget h tmp) (\<lambda>n.
      bindE (if prev n \<noteq> NULL then hset h (prev n) (\<lambda>m. m\<lparr>next := next n\<rparr>) else Inr h) (\<lambda>h.
      bindE (hget h tmp) (\<lambda>n.
      bindE (if next n \<noteq> NULL then hset h (next n) (\<lambda>m. m\<lparr>prev := prev n\<rparr>) else Inr h) (\<lambda>h.
      bindE (hget h tmp) (\<lambda>n.
        let a = (if nodes a = tmp then a\<lparr>nodes := next n\<rparr> else a);
            a = (if last a = tmp then a\<lparr>last := prev n\<rparr> else a);
            a = a\<lparr>last_accessed_node := nodes a, last_accessed_index := 0\<rparr>
        in bindE (hfree h tmp) (\<lambda>h. Inr (h, a\<lparr>entry_count := entry_count a - 1\<rparr>))))))))"

definition list_remove :: "list_heap \<Rightarrow> list_t \<Rightarrow> u64 \<Rightarrow> (list_heap \<times> list_t) res" where
  "list_remove h a index =
     (if entry_count a = 0 \<or> index \<ge> entry_count a then Inr (h, a)
      else
        (let a = (if last_accessed_index a \<ge> entry_count a
                  then a\<lparr>last_accessed_index := 0, last_accessed_node := nodes a\<rparr> else a)
         in bindE (seek h a index) (\<lambda>a. unlink h a)))"

definition list_at :: "list_heap \<Rightarrow> list_t \<Rightarrow> u64 \<Rightarrow> (u64 \<times> list_t) res" where
  "list_at h a index =
     (let a = (if last_accessed_index a \<ge> entry_count a
               then a\<lparr>last_accessed_index := 0, last_accessed_node := nodes a\<rparr> else a)
      in if index \<ge> entry_count a then Inr (NULL, a)
         else
           (let a = (if index = 0 then a\<lparr>last_accessed_index := 0, last_accessed_node := nodes a\<rparr> else a);
                a = (if index = entry_count a - 1
                     then a\<lparr>last_accessed_index := entry_count a - 1, last_accessed_node := last a\<rparr> else a)
            in bindE (seek h a index) (\<lambda>a.
               bindE (hget h (last_accessed_node a)) (\<lambda>n. Inr (value n, a)))))"

definition list_rot_next :: "list_heap \<Rightarrow> list_t \<Rightarrow> (u64 \<times> list_t) res" where
  "list_rot_next h a =
     (if entry_count a \<noteq> 0 then list_at h a ((last_accessed_index a + 1) mod entry_count a)
      else Inr (NULL, a))"

definition list_rot_prev :: "list_heap \<Rightarrow> list_t \<Rightarrow> (u64 \<times> list_t) res" where
  "list_rot_prev h a =
     (if entry_count a \<noteq> 0 then list_at h a ((last_accessed_index a - 1) mod entry_count a)
      else Inr (NULL, a))"

definition list_history :: "list_t \<Rightarrow> u64" where
  "list_history a = last_accessed_index a"

lemma seek_entry_count: "seek h a i = Inr a' \<Longrightarrow> entry_count a' = entry_count a"
  by (auto simp: seek_def res_iff)

lemma unlink_entry_count: "unlink h a = Inr (h', a') \<Longrightarrow> entry_count a' = entry_count a - 1"
  unfolding unlink_def Let_def bindE_eq_Inr by (elim exE conjE) (auto split: if_splits)

lemma list_remove_count:
  assumes "entry_count a \<noteq> 0" "list_remove h a 0 = Inr (h', a')"
  shows "entry_count a' = entry_count a - 1"
proof -
  obtain b c where "seek h b 0 = Inr c" "entry_count b = entry_count a" "unlink h c = Inr (h', a')"
    using assms by (auto simp: list_remove_def res_iff word_le_0_iff Let_def split: if_splits)
  then show ?thesis by (auto dest!: seek_entry_count unlink_entry_count)
qed

function list_fini :: "list_heap \<Rightarrow> list_t \<Rightarrow> (list_heap \<times> list_t) res" where
  "list_fini h a =
     (if list_len a > 0 then bindE (list_remove h a 0) (\<lambda>(h, a). list_fini h a) else Inr (h, a))"
  by pat_completeness auto
termination
proof (relation "measure (\<lambda>(h, a). unat (entry_count a))")
  fix h a x h' a'
  assume "0 < list_len a" "list_remove h a 0 = Inr x" "(h', a') = x"
  then have "entry_count a \<noteq> 0" "entry_count a' = entry_count a - 1"
    using list_remove_count[of a h h' a'] by (auto simp: list_len_def)
  then show "((h', a'), h, a) \<in> measure (\<lambda>(h, a). unat (entry_count a))"
    by (simp add: unat_minus_one unat_gt_0)
qed simp

declare list_fini.simps [simp del]

section \<open>The list in the heap\<close>

text \<open>
  \<open>dll m ns vs\<close>: the cells \<open>ns\<close> hold the values \<open>vs\<close> and are linked in both directions.
\<close>

definition dll :: "(addr \<Rightarrow> list_node option) \<Rightarrow> addr list \<Rightarrow> u64 list \<Rightarrow> bool" where
  "dll m ns vs \<longleftrightarrow> length vs = length ns \<and> distinct ns \<and> NULL \<notin> set ns \<and>
     (\<forall>i < length ns. m (ns ! i) = Some
        \<lparr>value = vs ! i, next = (if Suc i < length ns then ns ! Suc i else NULL),
         prev = (if i = 0 then NULL else ns ! (i - 1))\<rparr>)"

definition list_rep :: "list_heap \<Rightarrow> list_t \<Rightarrow> addr list \<Rightarrow> u64 list \<Rightarrow> bool" where
  "list_rep h a ns vs \<longleftrightarrow> heap_wf h \<and> dll (hmap h) ns vs \<and> length ns < 2 ^ 64 \<and>
     nodes a = (if ns = [] then NULL else hd ns) \<and> last a = (if ns = [] then NULL else List.last ns) \<and>
     entry_count a = of_nat (length ns) \<and>
     (if ns = [] then last_accessed_node a = NULL \<and> last_accessed_index a = 0
      else unat (last_accessed_index a) < length ns \<and>
           last_accessed_node a = ns ! unat (last_accessed_index a))"

lemma dllD:
  assumes "dll m ns vs" "i < length ns"
  shows "m (ns ! i) = Some \<lparr>value = vs ! i, next = (if Suc i < length ns then ns ! Suc i else NULL),
         prev = (if i = 0 then NULL else ns ! (i - 1))\<rparr>" "ns ! i \<noteq> NULL"
  using assms nth_mem[of i ns] unfolding dll_def by fastforce+

lemma walk_back_ok:
  "dll (hmap h) ns vs \<Longrightarrow> unat i < length ns \<Longrightarrow> index \<le> i \<Longrightarrow>
   walk_back h (ns ! unat i) i index = Inr (ns ! unat index, index)"
proof (induction "unat i" arbitrary: i)
  case 0
  then have "i = 0" "index = 0" by (auto simp: word_le_nat_alt unat_eq_0)
  then show ?case by (simp add: walk_back.simps)
next
  case (Suc k)
  show ?case
  proof (cases "index = i")
    case True
    then show ?thesis by (simp add: walk_back.simps)
  next
    case False
    then have lt: "index < i" using Suc.prems by simp
    have "i \<noteq> 0" using Suc.hyps(2) by auto
    then have k: "unat (i - 1) = k" using Suc.hyps(2) by (simp add: unat_dec)
    moreover have "index \<le> i - 1" using lt k Suc.hyps(2)
      by (simp add: word_le_nat_alt word_less_nat_alt)
    ultimately have "walk_back h (ns ! k) (i - 1) index = Inr (ns ! unat index, index)"
      using Suc.hyps(1)[of "i - 1"] Suc.prems Suc.hyps(2) by simp
    moreover have "walk_back h (ns ! unat i) i index = walk_back h (ns ! k) (i - 1) index"
      using lt dllD[OF Suc.prems(1,2)] Suc.hyps(2)[symmetric]
      by (simp add: walk_back.simps[of h "ns ! Suc k" i])
    ultimately show ?thesis by simp
  qed
qed

lemma walk_forward_ok:
  "dll (hmap h) ns vs \<Longrightarrow> unat index < length ns \<Longrightarrow> i \<le> index \<Longrightarrow>
   walk_forward h (ns ! unat i) i index = Inr (ns ! unat index, index)"
proof (induction "unat index - unat i" arbitrary: i)
  case 0
  then have "i = index" by (simp add: word_le_nat_alt word_unat_eq_iff)
  then show ?case by (simp add: walk_forward.simps)
next
  case (Suc k)
  then have lt: "i < index" by (simp add: word_less_nat_alt)
  then have k: "unat (i + 1) = Suc (unat i)" by (rule unat_inc)
  have il: "unat i < length ns" "Suc (unat i) < length ns"
    using lt Suc.prems by (auto simp: word_less_nat_alt)
  have "walk_forward h (ns ! Suc (unat i)) (i + 1) index = Inr (ns ! unat index, index)"
    using Suc.hyps(1)[of "i + 1"] Suc.prems Suc.hyps(2) lt k by (simp add: inc_le)
  then show ?case
    using lt dllD[OF Suc.prems(1) il(1)] il by (subst walk_forward.simps) simp
qed

lemma walk_here [simp]: "walk_forward h p i i = Inr (p, i)" "walk_back h p i i = Inr (p, i)"
  by (simp_all add: walk_forward.simps[of h p i i] walk_back.simps[of h p i i])

lemma seek_ok:
  assumes "dll (hmap h) ns vs" "unat index < length ns"
    "unat (last_accessed_index a) < length ns" "last_accessed_node a = ns ! unat (last_accessed_index a)"
  shows "seek h a index = Inr (a\<lparr>last_accessed_node := ns ! unat index, last_accessed_index := index\<rparr>)"
proof (cases "index \<le> last_accessed_index a")
  case True
  then show ?thesis using assms walk_back_ok[OF assms(1,3) True] by (simp add: seek_def)
next
  case False
  then have "last_accessed_index a \<le> index" "\<not> index < last_accessed_index a" by simp_all
  then show ?thesis using assms walk_forward_ok[OF assms(1,2), of "last_accessed_index a"]
    by (simp add: seek_def walk_back.simps[of h _ "last_accessed_index a" index])
qed

lemma list_rep_empty: "list_rep h a [] [] \<longleftrightarrow> heap_wf h \<and> nodes a = NULL \<and> last a = NULL \<and>
    entry_count a = 0 \<and> last_accessed_node a = NULL \<and> last_accessed_index a = 0"
  by (auto simp: list_rep_def dll_def)

lemma list_repD:
  assumes "list_rep h a ns vs"
  shows "heap_wf h" "dll (hmap h) ns vs" "length ns < 2 ^ 64" "length vs = length ns"
    "unat (entry_count a) = length ns" "\<And>i. i < entry_count a \<longleftrightarrow> unat i < length ns"
    "\<And>i. entry_count a \<le> i \<longleftrightarrow> length ns \<le> unat i"
proof -
  show "heap_wf h" "dll (hmap h) ns vs" "length ns < 2 ^ 64" "length vs = length ns"
    using assms by (auto simp: list_rep_def dll_def)
  then show u: "unat (entry_count a) = length ns"
    using assms by (simp add: list_rep_def unat_of_nat_64)
  show "\<And>i. i < entry_count a \<longleftrightarrow> unat i < length ns" "\<And>i. entry_count a \<le> i \<longleftrightarrow> length ns \<le> unat i"
    using u by (simp_all add: word_less_nat_alt word_le_nat_alt)
qed

lemma list_rep_cursor:
  assumes "list_rep h a ns vs" "ns \<noteq> []"
  shows "unat (last_accessed_index a) < length ns" "last_accessed_node a = ns ! unat (last_accessed_index a)"
    "nodes a = ns ! 0" "last a = ns ! (length ns - 1)"
  using assms by (auto simp: list_rep_def hd_conv_nth last_conv_nth)

lemma list_rep_move:
  assumes "list_rep h a ns vs" "unat i < length ns"
  shows "list_rep h (a\<lparr>last_accessed_node := ns ! unat i, last_accessed_index := i\<rparr>) ns vs"
  using assms by (auto simp: list_rep_def)

lemma list_at_nth:
  assumes "list_rep h a ns vs"
  shows "unat i < length ns \<Longrightarrow>
     list_at h a i = Inr (vs ! unat i, a\<lparr>last_accessed_node := ns ! unat i, last_accessed_index := i\<rparr>)"
   and "length ns \<le> unat i \<Longrightarrow> \<exists>a'. list_at h a i = Inr (NULL, a') \<and> list_rep h a' ns vs"
proof -
  note r = list_repD[OF assms]
  {
    assume i: "unat i < length ns"
    then have ne: "ns \<noteq> []" by auto
    note c = list_rep_cursor[OF assms ne]
    define b where "b = (if i = 0 then a\<lparr>last_accessed_index := 0, last_accessed_node := nodes a\<rparr> else a)"
    define d where "d = (if i = entry_count a - 1
      then b\<lparr>last_accessed_index := entry_count a - 1, last_accessed_node := last a\<rparr> else b)"
    have u1: "unat (entry_count a - 1) = length ns - 1"
      using r(5) ne by (metis length_0_conv unat_0 unat_dec)
    have d: "unat (last_accessed_index d) < length ns" "last_accessed_node d = ns ! unat (last_accessed_index d)"
      using c ne u1 by (auto simp: d_def b_def)
    have "list_at h a i = bindE (seek h d i) (\<lambda>a. bindE (hget h (last_accessed_node a)) (\<lambda>n. Inr (value n, a)))"
      using i c(1) by (simp add: list_at_def r(7) Let_def b_def d_def)
    also have "seek h d i = Inr (a\<lparr>last_accessed_node := ns ! unat i, last_accessed_index := i\<rparr>)"
      using seek_ok[OF r(2) i d] by (simp add: d_def b_def)
    finally show "list_at h a i = Inr (vs ! unat i, a\<lparr>last_accessed_node := ns ! unat i, last_accessed_index := i\<rparr>)"
      using dllD[OF r(2) i] by simp
  }
  {
    assume i: "length ns \<le> unat i"
    show "\<exists>a'. list_at h a i = Inr (NULL, a') \<and> list_rep h a' ns vs"
    proof (cases "ns = []")
      case True
      then have "list_rep h a [] []" using assms r(4) by simp
      then show ?thesis using True r(4) by (simp add: list_at_def list_rep_empty Let_def)
    next
      case False
      then show ?thesis using i assms list_rep_cursor(1)[OF assms False] by (simp add: list_at_def r(7) Let_def)
    qed
  }
qed


lemma halloc_fresh:
  assumes "heap_wf h" "avail h = (p, g) # rest" "dll (hmap h) ns vs"
  shows "p \<notin> set ns"
proof
  assume "p \<in> set ns"
  then obtain i where "i < length ns" "ns ! i = p" by (auto simp: in_set_conv_nth)
  then show False using dllD(1)[OF assms(3), of i] heap_wf_halloc(2)[OF assms(1,2)] by simp
qed

lemma dll_snoc:
  fixes v :: u64
  assumes "dll m ns vs" "p \<notin> set ns" "p \<noteq> NULL" "ns \<noteq> [] \<Longrightarrow> n = the (m (List.last ns))"
  defines "m1 \<equiv> m(p \<mapsto> \<lparr>value = v, next = NULL, prev = (if ns = [] then NULL else List.last ns)\<rparr>)"
  shows "dll (if ns = [] then m1 else m1(List.last ns \<mapsto> n\<lparr>next := p\<rparr>)) (ns @ [p]) (vs @ [v])"
proof (cases "ns = []")
  case True
  then show ?thesis using assms by (auto simp: dll_def)
next
  case False
  define k where "k = length ns - 1"
  have k: "List.last ns = ns ! k" "k < length ns" "length ns = Suc k"
    using False by (auto simp: k_def last_conv_nth)
  have n: "n = \<lparr>value = vs ! k, next = NULL, prev = (if k = 0 then NULL else ns ! (k - 1))\<rparr>"
    using assms(4)[OF False] dllD[OF assms(1) k(2)] k by simp
  have eq: "(ns ! i = ns ! k) = (i = k)" if "i < length ns" for i
    using assms(1) that k(2) by (simp add: dll_def nth_eq_iff_index_eq)
  have pn: "ns ! i \<noteq> p" if "i < length ns" for i using assms(2) that by auto
  have pk: "p \<noteq> ns ! k" using pn[OF k(2)] by simp
  have "((m1)(ns ! k \<mapsto> n\<lparr>next := p\<rparr>)) ((ns @ [p]) ! i) = Some
        \<lparr>value = (vs @ [v]) ! i, next = (if Suc i < length (ns @ [p]) then (ns @ [p]) ! Suc i else NULL),
         prev = (if i = 0 then NULL else (ns @ [p]) ! (i - 1))\<rparr>" if il: "i < Suc (Suc k)" for i
  proof -
    consider "i < k" | "i = k" | "i = Suc k" using il by linarith
    then show ?thesis
    proof cases
      case 1
      then show ?thesis using dllD(1)[OF assms(1), of i] eq[of i] pn[of i] k assms(1)
        by (auto simp: nth_append m1_def dll_def)
    next
      case 2
      then show ?thesis using k assms(1) n by (auto simp: nth_append dll_def)
    next
      case 3
      then show ?thesis using k assms(1) pk by (auto simp: nth_append m1_def dll_def)
    qed
  qed
  then show ?thesis using assms(1-3) False k by (simp add: dll_def)
qed

lemma list_append_fails: "avail h = [] \<Longrightarrow> list_append h a v = Inr (list_error_allocation_failed, h, a)"
  by (simp add: list_append_def)

lemma list_append_rep:
  assumes r: "list_rep h a ns vs" and av: "avail h = (p, g) # rest" and len: "Suc (length ns) < 2 ^ 64"
  shows "\<exists>h' a'. list_append h a v = Inr (list_error_none, h', a') \<and>
           list_rep h' a' (ns @ [p]) (vs @ [v]) \<and> avail h' = rest \<and>
           (\<forall>q. q \<noteq> p \<longrightarrow> q \<notin> set ns \<longrightarrow> hmap h' q = hmap h q)"
proof -
  note R = list_repD[OF r]
  define h1 where "h1 = h\<lparr>cells := AList.update p g (cells h), avail := rest\<rparr>"
  note A = heap_wf_halloc[OF R(1) av, folded h1_def]
  have pf: "p \<notin> set ns" by (rule halloc_fresh[OF R(1) av R(2)])
  have al: "halloc h = (p, h1)" using av by (simp add: halloc_Some h1_def)
  let ?n = "\<lparr>value = v, next = NULL, prev = last a\<rparr>"
  define h2 where "h2 = hput h1 p ?n"
  have s1: "hset h1 p (\<lambda>n. n\<lparr>prev := last a, value := v, next := NULL\<rparr>) = Inr h2"
    using A by (cases g) (simp add: h2_def)
  have w2: "heap_wf h2" "hmap h2 = (hmap h)(p \<mapsto> ?n)" "avail h2 = rest"
    using A heap_wf_hput[OF A(4), of p] by (simp_all add: h2_def h1_def)
  show ?thesis
  proof (cases "ns = []")
    case True
    then have "list_rep h a [] []" using r R(4) by simp
    then have e: "last a = NULL" "nodes a = NULL" "last_accessed_node a = NULL" "entry_count a = 0"
      by (simp_all add: list_rep_empty)
    have "list_append h a v = Inr (list_error_none, h2, a\<lparr>last := p, nodes := p, last_accessed_node := p,
            last_accessed_index := 0, entry_count := 1\<rparr>)"
      using al A(1) s1 e by (simp add: list_append_def)
    then show ?thesis using True w2 e A(1) R(4) by (auto simp: list_rep_def dll_def)
  next
    case False
    note c = list_rep_cursor[OF r False]
    define k where "k = length ns - 1"
    have k: "last a = ns ! k" "k < length ns" "List.last ns = ns ! k" "nodes a \<noteq> NULL" "last_accessed_node a \<noteq> NULL"
      using c False dllD(2)[OF R(2)] by (auto simp: k_def last_conv_nth)
    obtain n where n: "hmap h (ns ! k) = Some n" "ns ! k \<noteq> NULL" using dllD[OF R(2) k(2)] by simp
    have "ns ! k \<noteq> p" using pf k(2) by auto
    then have n2: "hmap h2 (ns ! k) = Some n" using w2(2) n by simp
    define h3 where "h3 = hput h2 (ns ! k) (n\<lparr>next := p\<rparr>)"
    have w3: "heap_wf h3" "hmap h3 = (hmap h2)(ns ! k \<mapsto> n\<lparr>next := p\<rparr>)" "avail h3 = rest"
      using heap_wf_hput[OF w2(1)] n2 w2 by (simp_all add: h3_def)
    have "list_append h a v = Inr (list_error_none, h3, a\<lparr>last := p, entry_count := entry_count a + 1\<rparr>)"
      using al A(1) s1 k n n2 by (simp add: list_append_def h3_def)
    moreover have "dll (hmap h3) (ns @ [p]) (vs @ [v])"
      using dll_snoc[OF R(2) pf A(1), of n v] n False k w3 w2 by simp
    moreover have "unat (last_accessed_index a) < length ns" using c by simp
    ultimately show ?thesis using w3 w2 c False len r k
      by (auto simp: list_rep_def nth_append)
  qed
qed


lemma nth_remove:
  "i < length xs \<Longrightarrow> k < length xs - 1 \<Longrightarrow>
   (take i xs @ drop (Suc i) xs) ! k = xs ! (if k < i then k else Suc k)"
  by (auto simp: nth_append)

lemma dll_remove:
  assumes d: "dll m ns vs" and i: "i < length ns"
    and m': "\<And>k. k < length ns \<Longrightarrow> k \<noteq> i \<Longrightarrow> m' (ns ! k) =
       map_option (\<lambda>n. n\<lparr>next := (if Suc k = i then (if Suc i < length ns then ns ! Suc i else NULL) else next n),
                          prev := (if k = Suc i then (if i = 0 then NULL else ns ! (i - 1)) else prev n)\<rparr>) (m (ns ! k))"
  shows "dll m' (take i ns @ drop (Suc i) ns) (take i vs @ drop (Suc i) vs)"
proof -
  have lv: "length vs = length ns" and dn: "distinct ns" and nn: "NULL \<notin> set ns" using d by (auto simp: dll_def)
  let ?ns = "take i ns @ drop (Suc i) ns" and ?vs = "take i vs @ drop (Suc i) vs"
  have l: "length ?ns = length ns - 1" "length ?vs = length ns - 1" using i lv by auto
  have dis: "distinct ?ns" using dn i
    by (auto simp: set_take_disj_set_drop_if_distinct)
  have z: "NULL \<notin> set ?ns" using nn by (auto dest: in_set_takeD in_set_dropD)
  have "m' (?ns ! k) = Some \<lparr>value = ?vs ! k, next = (if Suc k < length ?ns then ?ns ! Suc k else NULL),
         prev = (if k = 0 then NULL else ?ns ! (k - 1))\<rparr>" if k: "k < length ?ns" for k
  proof -
    define j where "j = (if k < i then k else Suc k)"
    have j: "j < length ns" "j \<noteq> i" using k l i by (auto simp: j_def)
    have e: "?ns ! k = ns ! j" "?vs ! k = vs ! j" using k l i lv by (simp_all add: nth_remove j_def)
    have nx: "Suc k < length ?ns \<Longrightarrow> ?ns ! Suc k = ns ! (if Suc k < i then Suc k else Suc (Suc k))"
      using l i by (simp add: nth_remove)
    have pv: "k \<noteq> 0 \<Longrightarrow> ?ns ! (k - 1) = ns ! (if k - 1 < i then k - 1 else k)"
      using l i k by (simp add: nth_remove)
    consider "Suc k < i" | "Suc k = i" | "k = i" | "i < k" by linarith
    then show ?thesis
    proof cases
      case 1
      then have "Suc k < length ?ns" using l i by linarith
      with 1 show ?thesis unfolding e m'[OF j] dllD(1)[OF d j(1)] using nx pv i by (auto simp: j_def)
    next
      case 2
      then show ?thesis unfolding e m'[OF j] dllD(1)[OF d j(1)] using nx pv l by (auto simp: j_def less_diff_conv)
    next
      case 3
      then show ?thesis unfolding e m'[OF j] dllD(1)[OF d j(1)] using nx pv l by (simp add: j_def less_diff_conv)
    next
      case 4
      then show ?thesis unfolding e m'[OF j] dllD(1)[OF d j(1)] using nx pv l by (auto simp: j_def less_diff_conv)
    qed
  qed
  then show ?thesis using l dis z unfolding dll_def by simp
qed


lemma hset_if:
  "(p \<noteq> NULL \<Longrightarrow> hmap h p = Some n) \<Longrightarrow>
   (if p \<noteq> NULL then hset h p f else Inr h) = Inr (if p \<noteq> NULL then hput h p (f n) else h)"
  by simp

lemma list_rep_removeI:
  assumes r: "list_rep h a ns vs" and i: "i < length ns"
    and d: "dll (hmap h') (take i ns @ drop (Suc i) ns) (take i vs @ drop (Suc i) vs)" and w: "heap_wf h'"
  defines "N \<equiv> if Suc i < length ns then ns ! Suc i else NULL" and "P \<equiv> if i = 0 then NULL else ns ! (i - 1)"
  shows "list_rep h' (a\<lparr>nodes := (if nodes a = ns ! i then N else nodes a), last := (if last a = ns ! i then P else last a),
     last_accessed_node := (if nodes a = ns ! i then N else nodes a), last_accessed_index := 0, entry_count := entry_count a - 1\<rparr>)
     (take i ns @ drop (Suc i) ns) (take i vs @ drop (Suc i) vs)"
proof -
  let ?ns = "take i ns @ drop (Suc i) ns"
  note R = list_repD[OF r]
  have ne: "ns \<noteq> []" using i by auto
  note c = list_rep_cursor[OF r ne]
  have l: "length ?ns = length ns - 1" using i by simp
  have dn: "distinct ns" using R(2) by (simp add: dll_def)
  have e: "(nodes a = ns ! i) = (i = 0)" "(last a = ns ! i) = (i = length ns - 1)"
    using c dn i ne by (auto simp: nth_eq_iff_index_eq)
  have "entry_count a - 1 = of_nat (length ?ns)"
    using r i l by (simp add: list_rep_def of_nat_diff)
  moreover have "(if nodes a = ns ! i then N else nodes a) = (if ?ns = [] then NULL else hd ?ns)"
    using i e c by (cases "i = 0") (auto simp: N_def hd_append hd_drop_conv_nth hd_conv_nth ne)
  moreover have "(if last a = ns ! i then P else last a) = (if ?ns = [] then NULL else List.last ?ns)"
  proof (cases "Suc i < length ns")
    case True
    then have "List.last ?ns = List.last ns" by simp
    then show ?thesis using True e(2) c(4) ne by (auto simp: last_conv_nth)
  next
    case False
    then have "Suc i = length ns" using i by simp
    then show ?thesis using e(2) i by (auto simp: P_def last_conv_nth min_def)
  qed
  moreover have "?ns \<noteq> [] \<Longrightarrow> hd ?ns = ?ns ! 0" by (rule hd_conv_nth)
  ultimately show ?thesis using d w R(3) l i ne unfolding list_rep_def by auto
qed

lemma unlink_rep:
  assumes r: "list_rep h a ns vs" and ne: "ns \<noteq> []"
  defines "i \<equiv> unat (last_accessed_index a)"
  shows "\<exists>h' a' n. unlink h a = Inr (h', a') \<and>
           list_rep h' a' (take i ns @ drop (Suc i) ns) (take i vs @ drop (Suc i) vs) \<and>
           avail h' = avail h @ [(ns ! i, n)] \<and> (\<forall>q. q \<notin> set ns \<longrightarrow> hmap h' q = hmap h q)"
proof -
  note R = list_repD[OF r] and c = list_rep_cursor[OF r ne]
  have i: "i < length ns" using c(1) by (simp add: i_def)
  have dn: "distinct ns" using R(2) by (simp add: dll_def)
  define P where "P = (if i = 0 then NULL else ns ! (i - 1))"
  define N where "N = (if Suc i < length ns then ns ! Suc i else NULL)"
  let ?n = "\<lparr>value = vs ! i, next = N, prev = P\<rparr>"
  note D = dllD[OF R(2)]
  have neq: "P \<noteq> ns ! i" "N \<noteq> ns ! i" "P \<noteq> NULL \<Longrightarrow> P \<noteq> N"
    using i dn D(2) by (auto simp: P_def N_def nth_eq_iff_index_eq)
  define np where "np = the (hmap h P)"
  have np: "P \<noteq> NULL \<Longrightarrow> hmap h P = Some np" using D(1)[of "i - 1"] i by (auto simp: np_def P_def split: if_splits)
  define h1 where "h1 = (if P \<noteq> NULL then hput h P (np\<lparr>next := N\<rparr>) else h)"
  have m1: "hmap h1 = (if P \<noteq> NULL then (hmap h)(P \<mapsto> np\<lparr>next := N\<rparr>) else hmap h)" "avail h1 = avail h" "heap_wf h1"
    using heap_wf_hput[OF R(1), of P] np R(1) by (simp_all add: h1_def)
  have g0: "hmap h (ns ! i) = Some ?n" "ns ! i \<noteq> NULL" using D[OF i] by (simp_all add: P_def N_def)
  have g1: "hmap h1 (ns ! i) = Some ?n" using m1(1) g0 neq by simp
  define nn where "nn = the (hmap h N)"
  have nn: "N \<noteq> NULL \<Longrightarrow> hmap h1 N = Some nn" using D(1)[of "Suc i"] m1(1) neq by (auto simp: nn_def N_def split: if_splits)
  define h2 where "h2 = (if N \<noteq> NULL then hput h1 N (nn\<lparr>prev := P\<rparr>) else h1)"
  have m2: "hmap h2 = (if N \<noteq> NULL then (hmap h1)(N \<mapsto> nn\<lparr>prev := P\<rparr>) else hmap h1)" "avail h2 = avail h" "heap_wf h2"
    using heap_wf_hput[OF m1(3), of N] nn m1 by (simp_all add: h2_def)
  have g2: "hmap h2 (ns ! i) = Some ?n" using m2(1) g1 neq by simp
  obtain h3 where f: "hfree h2 (ns ! i) = Inr h3" and av3: "avail h3 = avail h @ [(ns ! i, ?n)]"
    using hfree_ok[OF g2 g0(2)] m2(2) by simp
  note F = heap_wf_hfree[OF m2(3) f]
  define a3 where "a3 = a\<lparr>nodes := (if nodes a = ns ! i then N else nodes a), last := (if last a = ns ! i then P else last a),
     last_accessed_node := (if nodes a = ns ! i then N else nodes a), last_accessed_index := 0, entry_count := entry_count a - 1\<rparr>"
  have run: "unlink h a = Inr (h3, a3)"
  proof -
    have "hget h (ns ! i) = Inr ?n" "hget h1 (ns ! i) = Inr ?n" "hget h2 (ns ! i) = Inr ?n"
      using g0 g1 g2 by simp_all
    moreover have "P \<noteq> NULL \<Longrightarrow> hset h P (\<lambda>m. m\<lparr>next := N\<rparr>) = Inr h1" "P = NULL \<Longrightarrow> h1 = h"
      "N \<noteq> NULL \<Longrightarrow> hset h1 N (\<lambda>m. m\<lparr>prev := P\<rparr>) = Inr h2" "N = NULL \<Longrightarrow> h2 = h1"
      using np nn by (simp_all add: h1_def h2_def)
    ultimately show ?thesis using f c(2) unfolding unlink_def Let_def a3_def i_def[symmetric]
      by (cases "P = NULL"; cases "N = NULL") (simp_all del: hget_ok hset_ok)
  qed
  have m3: "hmap h3 = (hmap h2)(ns ! i := None)" by (rule F(2))
  have "hmap h3 (ns ! k) = map_option (\<lambda>n. n\<lparr>next := (if Suc k = i then (if Suc i < length ns then ns ! Suc i else NULL) else next n),
      prev := (if k = Suc i then (if i = 0 then NULL else ns ! (i - 1)) else prev n)\<rparr>) (hmap h (ns ! k))"
    if k: "k < length ns" "k \<noteq> i" for k
  proof -
    have P: "(ns ! k = P) = (Suc k = i)" using k dn i D(2)[OF k(1)] by (auto simp: P_def nth_eq_iff_index_eq)
    have N: "(ns ! k = N) = (k = Suc i)" using k dn D(2)[OF k(1)] by (auto simp: N_def nth_eq_iff_index_eq)
    have kk: "ns ! k \<noteq> ns ! i" using k i dn by (simp add: nth_eq_iff_index_eq)
    consider "Suc k = i" | "k = Suc i" | "Suc k \<noteq> i" "k \<noteq> Suc i" by blast
    then show ?thesis
    proof cases
      case 1
      then have "ns ! k = P" "ns ! k \<noteq> N" using P N by auto
      moreover have "Some np = hmap h (ns ! k)" using calculation np D(2)[OF k(1)] by simp
      ultimately have "hmap h3 (ns ! k) = map_option (\<lambda>n. n\<lparr>next := N\<rparr>) (hmap h (ns ! k))"
        using D(2)[OF k(1)] m1(1) m2(1) m3 kk by (metis fun_upd_apply option.simps(9))
      then show ?thesis using 1 D[OF k(1)] by (simp add: N_def)
    next
      case 2
      then have "ns ! k = N" "ns ! k \<noteq> P" using P N by auto
      moreover have "Some nn = hmap h (ns ! k)" using calculation 2 D[OF k(1)] by (simp add: nn_def)
      ultimately have "hmap h3 (ns ! k) = map_option (\<lambda>n. n\<lparr>prev := P\<rparr>) (hmap h (ns ! k))"
        using D(2)[OF k(1)] m2(1) m3 kk by (metis fun_upd_apply option.simps(9))
      then show ?thesis using 2 D[OF k(1)] by (simp add: P_def)
    next
      case 3
      then have "ns ! k \<noteq> N" "ns ! k \<noteq> P" using P N by auto
      then have "hmap h3 (ns ! k) = hmap h (ns ! k)" using m1(1) m2(1) m3 kk by simp
      then show ?thesis using 3 D[OF k(1)] by simp
    qed
  qed
  then have dl: "dll (hmap h3) (take i ns @ drop (Suc i) ns) (take i vs @ drop (Suc i) vs)"
    by (rule dll_remove[OF R(2) i])
  have fr: "hmap h3 q = hmap h q" if "q \<notin> set ns" for q
  proof -
    have "P \<in> insert NULL (set ns)" "N \<in> insert NULL (set ns)" using i by (auto simp: P_def N_def)
    then show ?thesis using that m3 m2(1) m1(1) i g0(2) by auto
  qed
  have "list_rep h3 a3 (take i ns @ drop (Suc i) ns) (take i vs @ drop (Suc i) vs)"
    using list_rep_removeI[OF r i dl F(1)] unfolding a3_def P_def N_def .
  then show ?thesis using run av3 fr by blast
qed


lemma list_remove_rep:
  assumes r: "list_rep h a ns vs" and i: "unat index < length ns"
  shows "\<exists>h' a' n. list_remove h a index = Inr (h', a') \<and>
           list_rep h' a' (take (unat index) ns @ drop (Suc (unat index)) ns)
                          (take (unat index) vs @ drop (Suc (unat index)) vs) \<and>
           avail h' = avail h @ [(ns ! unat index, n)] \<and> (\<forall>q. q \<notin> set ns \<longrightarrow> hmap h' q = hmap h q)"
proof -
  note R = list_repD[OF r]
  have ne: "ns \<noteq> []" using i by auto
  note c = list_rep_cursor[OF r ne]
  let ?a = "a\<lparr>last_accessed_node := ns ! unat index, last_accessed_index := index\<rparr>"
  have "list_remove h a index = unlink h ?a"
    using i ne c(1) R(5) seek_ok[OF R(2) i c(1,2)] by (auto simp: list_remove_def R(7))
  then show ?thesis using unlink_rep[OF list_rep_move[OF r i] ne] by simp
qed

lemma list_remove_none: "list_rep h a ns vs \<Longrightarrow> length ns \<le> unat index \<Longrightarrow> list_remove h a index = Inr (h, a)"
  using list_repD(7)[of h a ns vs index] by (simp add: list_remove_def)

lemma list_fini_rep:
  "list_rep h a ns vs \<Longrightarrow> \<exists>h' a'. list_fini h a = Inr (h', a') \<and> list_rep h' a' [] [] \<and>
     map fst (avail h') = map fst (avail h) @ ns \<and> (\<forall>q. q \<notin> set ns \<longrightarrow> hmap h' q = hmap h q)"
proof (induction ns arbitrary: h a vs)
  case Nil
  then have "vs = []" "entry_count a = 0" using list_repD(4,5)[OF Nil] by (simp_all add: unat_eq_0)
  then show ?case using Nil by (simp add: list_fini.simps[of h a] list_len_def)
next
  case (Cons p ns)
  then have e: "0 < list_len a" "length vs = Suc (length ns)"
    using list_repD(4)[OF Cons.prems] list_repD(6)[OF Cons.prems, of 0] by (simp_all add: list_len_def)
  obtain h1 a1 n where 1: "list_remove h a 0 = Inr (h1, a1)" "list_rep h1 a1 ns (tl vs)"
      "avail h1 = avail h @ [(p, n)]" "\<And>q. q \<notin> set (p # ns) \<Longrightarrow> hmap h1 q = hmap h q"
    using list_remove_rep[OF Cons.prems, of 0] by (auto simp: drop_Suc)
  show ?case using Cons.IH[OF 1(2)] 1(1,3,4) e(1) by (force simp: list_fini.simps[of h a])
qed


lemma list_rot_next_nth:
  assumes "list_rep h a ns vs" "vs \<noteq> []"
  shows "\<exists>a'. list_rot_next h a = Inr (vs ! (Suc (unat (list_history a)) mod length vs), a') \<and> list_rep h a' ns vs"
proof -
  note R = list_repD[OF assms(1)]
  have ne: "ns \<noteq> []" using R(4) assms(2) by auto
  note c = list_rep_cursor[OF assms(1) ne]
  let ?i = "(last_accessed_index a + 1) mod entry_count a"
  have "unat (last_accessed_index a + 1) = Suc (unat (last_accessed_index a))"
    by (rule unat_inc[of _ "entry_count a"]) (use c(1) R(6) in simp)
  then have u: "unat ?i = Suc (unat (list_history a)) mod length ns"
    using R(5) by (simp add: unat_mod list_history_def)
  then have i: "unat ?i < length ns" using ne by simp
  show ?thesis
    using list_at_nth(1)[OF assms(1) i] list_rep_move[OF assms(1) i] u R(4,5) ne by (auto simp: list_rot_next_def)
qed

section \<open>The contract of an indexed sequence\<close>

text \<open>
  What the users of a list rely on when they walk it with \<^verbatim>\<open>for (i = 0; i < list_len(l); i++) list_at(l, i)\<close>:
  reading an element answers the element and keeps the sequence, whatever else it changes.
\<close>

primrec traverse :: "('s \<Rightarrow> u64 \<Rightarrow> (u64 \<times> 's) res) \<Rightarrow> nat \<Rightarrow> u64 \<Rightarrow> 's \<Rightarrow> (u64 list \<times> 's) res" where
  "traverse at 0 i s = Inr ([], s)"
| "traverse at (Suc n) i s =
     bindE (at s i) (\<lambda>(v, s). bindE (traverse at n (i + 1) s) (\<lambda>(vs, s). Inr (v # vs, s)))"

locale sequence =
  fixes seq :: "'s \<Rightarrow> u64 list \<Rightarrow> bool" and at :: "'s \<Rightarrow> u64 \<Rightarrow> (u64 \<times> 's) res" and len :: "'s \<Rightarrow> u64"
  assumes at_nth: "seq s xs \<Longrightarrow> unat i < length xs \<Longrightarrow> \<exists>s'. at s i = Inr (xs ! unat i, s') \<and> seq s' xs"
    and len_ok: "seq s xs \<Longrightarrow> unat (len s) = length xs"
begin

lemma traverse_drop:
  "seq s xs \<Longrightarrow> unat i \<le> length xs \<Longrightarrow> n = length xs - unat i \<Longrightarrow>
   \<exists>s'. traverse at n i s = Inr (drop (unat i) xs, s') \<and> seq s' xs"
proof (induction n arbitrary: i s)
  case 0
  then show ?case by simp
next
  case (Suc n)
  then have i: "unat i < length xs" by simp
  obtain s1 where 1: "at s i = Inr (xs ! unat i, s1)" "seq s1 xs" using at_nth[OF Suc.prems(1) i] by blast
  have "i < len s" using i len_ok[OF Suc.prems(1)] by (simp add: word_less_nat_alt)
  then have u: "unat (i + 1) = Suc (unat i)" by (rule unat_inc)
  have n: "n = length xs - unat (i + 1)" using Suc.prems(3) u by simp
  obtain s2 where "traverse at n (i + 1) s1 = Inr (drop (unat (i + 1)) xs, s2)" "seq s2 xs"
    using Suc.IH[OF 1(2) _ n] i u by auto
  then show ?case using 1 u i by (simp add: Cons_nth_drop_Suc)
qed

lemma traverse_all:
  assumes "seq s xs"
  shows "\<exists>s'. traverse at (unat (len s)) 0 s = Inr (xs, s') \<and> seq s' xs"
  using traverse_drop[OF assms, of 0] len_ok[OF assms] by simp

end

definition list_seq :: "list_heap \<times> list_t \<Rightarrow> u64 list \<Rightarrow> bool" where
  "list_seq s vs \<longleftrightarrow> (\<exists>ns. list_rep (fst s) (snd s) ns vs)"

definition list_at_st :: "list_heap \<times> list_t \<Rightarrow> u64 \<Rightarrow> (u64 \<times> list_heap \<times> list_t) res" where
  "list_at_st s i = bindE (list_at (fst s) (snd s) i) (\<lambda>(v, a). Inr (v, fst s, a))"

interpretation lseq: sequence list_seq list_at_st "list_len \<circ> snd"
proof
  fix s xs and i :: u64
  assume "list_seq s xs" "unat i < length xs"
  then obtain ns where r: "list_rep (fst s) (snd s) ns xs" and i: "unat i < length ns"
    using list_repD(4) unfolding list_seq_def by fastforce
  show "\<exists>s'. list_at_st s i = Inr (xs ! unat i, s') \<and> list_seq s' xs"
    using list_at_nth(1)[OF r i] list_rep_move[OF r i] by (auto simp: list_at_st_def list_seq_def)
next
  fix s xs assume "list_seq s xs"
  then show "unat ((list_len \<circ> snd) s) = length xs"
    unfolding list_seq_def using list_repD(4,5) by (fastforce simp: list_len_def)
qed

section \<open>Properties\<close>

definition ex_list_heap :: list_heap where
  "ex_list_heap = \<lparr>cells = [(16, \<lparr>value = 7, next = 48, prev = 0\<rparr>), (48, \<lparr>value = 9, next = 0, prev = 16\<rparr>)],
                   avail = [(80, \<lparr>value = 1, next = 2, prev = 3\<rparr>)]\<rparr>"

definition ex_list :: list_t where
  "ex_list = \<lparr>nodes = 16, last = 48, last_accessed_node = 16, last_accessed_index = 0, entry_count = 2\<rparr>"

lemma ex_list_rep: "list_rep ex_list_heap ex_list [16, 48] [7, 9]"
  by (auto simp: list_rep_def ex_list_heap_def ex_list_def heap_wf_def dll_def less_Suc_eq)

text \<open>
  \<open>list_append\<close> appends: when the allocator has a node the represented sequence grows by the
  value at its end, the new node being the one the allocator gave, and nothing outside the list
  changes; when the allocator is empty the error is reported and nothing changes at all.
\<close>

theorem list_append_refines_snoc:
  assumes "list_rep h a ns vs" "Suc (length ns) < 2 ^ 64"
  shows "(case avail h of
       [] \<Rightarrow> list_append h a v = Inr (list_error_allocation_failed, h, a)
     | (p, g) # rest \<Rightarrow> \<exists>h' a'. list_append h a v = Inr (list_error_none, h', a') \<and>
           list_rep h' a' (ns @ [p]) (vs @ [v]) \<and> avail h' = rest \<and>
           (\<forall>q. q \<noteq> p \<and> q \<notin> set ns \<longrightarrow> hmap h' q = hmap h q))"
proof (cases "avail h")
  case Nil
  then show ?thesis by (simp add: list_append_fails)
next
  case (Cons x rest)
  then show ?thesis using list_append_rep[OF assms(1) _ assms(2), of "fst x" "snd x" rest v]
    by (auto simp: case_prod_beta)
qed

theorem list_append_refines_snoc_witness:
  "\<exists>h' a'. list_append ex_list_heap ex_list 5 = Inr (list_error_none, h', a') \<and>
     list_rep h' a' [16, 48, 80] [7, 9, 5]"
  using list_append_refines_snoc[OF ex_list_rep, of 5] by (auto simp: ex_list_heap_def)

text \<open>
  The cursor is invisible: \<open>list_at\<close> answers the element at the index or \<open>NULL\<close> past the end, with
  the list unchanged apart from the cursor, so walking the list with \<open>list_at\<close> from 0 to
  \<open>list_len\<close> delivers exactly the represented sequence; \<open>list_rot_next\<close> delivers the element after the
  one accessed last, cyclically.
\<close>

theorem list_at_cursor_transparent:
  assumes "list_rep h a ns vs"
  shows "(\<exists>a'. list_at h a i = Inr (if unat i < length vs then vs ! unat i else NULL, a') \<and> list_rep h a' ns vs) \<and>
    (\<exists>s. traverse list_at_st (unat (list_len a)) 0 (h, a) = Inr (vs, s) \<and> list_seq s vs) \<and>
    (vs \<noteq> [] \<longrightarrow> (\<exists>a'. list_rot_next h a =
          Inr (vs ! (Suc (unat (list_history a)) mod length vs), a') \<and> list_rep h a' ns vs))"
proof (intro conjI impI)
  note R = list_repD[OF assms]
  show "\<exists>a'. list_at h a i = Inr (if unat i < length vs then vs ! unat i else NULL, a') \<and> list_rep h a' ns vs"
    using list_at_nth[OF assms, of i] list_rep_move[OF assms, of i] R(4) by (cases "unat i < length ns") auto
  show "\<exists>s. traverse list_at_st (unat (list_len a)) 0 (h, a) = Inr (vs, s) \<and> list_seq s vs"
    using lseq.traverse_all[of "(h, a)" vs] assms by (auto simp: list_seq_def)
  show "\<exists>a'. list_rot_next h a = Inr (vs ! (Suc (unat (list_history a)) mod length vs), a') \<and> list_rep h a' ns vs"
    if "vs \<noteq> []" using list_rot_next_nth[OF assms that] .
qed

theorem list_at_cursor_transparent_witness:
  "(\<exists>a'. list_at ex_list_heap ex_list 1 = Inr (9, a') \<and> list_rep ex_list_heap a' [16, 48] [7, 9]) \<and>
   (\<exists>s. traverse list_at_st 2 0 (ex_list_heap, ex_list) = Inr ([7, 9], s)) \<and>
   (\<exists>a'. list_rot_next ex_list_heap ex_list = Inr (9, a'))"
  using list_at_cursor_transparent[OF ex_list_rep, of 1]
  by (auto simp: ex_list_def list_len_def list_history_def)

text \<open>
  \<open>list_remove\<close> removes exactly the element at the index and gives its node back to the
  allocator (an index past the end changes nothing), and \<open>list_fini\<close> ends with the empty list, every
  node returned once and in order, and nothing outside the list touched.
\<close>

theorem list_remove_and_fini:
  assumes "list_rep h a ns vs"
  shows "(\<exists>h' a'. list_remove h a i = Inr (h', a') \<and>
           list_rep h' a' (take (unat i) ns @ drop (Suc (unat i)) ns) (take (unat i) vs @ drop (Suc (unat i)) vs) \<and>
           map fst (avail h') = map fst (avail h) @ (if unat i < length ns then [ns ! unat i] else [])) \<and>
     (\<exists>h' a'. list_fini h a = Inr (h', a') \<and> list_rep h' a' [] [] \<and>
           map fst (avail h') = map fst (avail h) @ ns \<and> (\<forall>q. q \<notin> set ns \<longrightarrow> hmap h' q = hmap h q))"
proof (cases "unat i < length ns")
  case True
  then show ?thesis using list_remove_rep[OF assms True] list_fini_rep[OF assms] by auto
next
  case False
  then show ?thesis using list_remove_none[OF assms, of i] list_fini_rep[OF assms] list_repD(4)[OF assms] assms by auto
qed

theorem list_remove_and_fini_witness:
  "(\<exists>h' a'. list_remove ex_list_heap ex_list 0 = Inr (h', a') \<and> list_rep h' a' [48] [9]) \<and>
   (\<exists>h' a'. list_fini ex_list_heap ex_list = Inr (h', a') \<and> map fst (avail h') = [80, 16, 48])"
  using list_remove_and_fini[OF ex_list_rep, of 0] by (auto simp: ex_list_heap_def)

text \<open>
  Stepping backwards from the first element of a three element list answers the first element
  again: \<open>last_accessed_index - 1\<close> wraps to \<open>2 ^ 64 - 1\<close>, which is divisible by three.
\<close>

theorem list_rot_prev_wraps:
  assumes "list_rep h a ns [x, y, z]" "list_history a = 0"
  shows "\<exists>a'. list_rot_prev h a = Inr (x, a')"
proof -
  have l: "length ns = 3" using list_repD(4)[OF assms(1)] by simp
  then have l: "length ns = 3" "entry_count a = 3" using assms(1) by (simp_all add: list_rep_def)
  have "(last_accessed_index a - 1) mod entry_count a = 0"
    using assms(2) l by (simp add: list_history_def word_mod_def unsigned_minus_1_eq_mask mask_eq_exp_minus_1)
  then show ?thesis using list_at_nth(1)[OF assms(1), of 0] l by (simp add: list_rot_prev_def)
qed

end
