(* ===== verification/CMem.thy ===== *)
theory CMem
  imports Prelude
begin

text \<open>
  The memory and string routines of \<^verbatim>\<open>common/src/memory.c\<close>, over a flat memory of bytes. A loop whose
  end depends on the contents of memory (a terminator, a difference) is a partial function: \<open>None\<close>
  means that it never returns. Reads outside the mapped address space are not modelled: every
  address holds a byte.
\<close>

section \<open>Memory\<close>

type_synonym mem = "u64 \<Rightarrow> u8"

text \<open>A little-endian store of an \<^verbatim>\<open>unsigned long\<close>.\<close>

definition store64 :: "mem \<Rightarrow> addr \<Rightarrow> u64 \<Rightarrow> mem" where
  "store64 m p v = m(p := ucast v, p + 1 := ucast (drop_bit 8 v), p + 2 := ucast (drop_bit 16 v),
     p + 3 := ucast (drop_bit 24 v), p + 4 := ucast (drop_bit 32 v), p + 5 := ucast (drop_bit 40 v),
     p + 6 := ucast (drop_bit 48 v), p + 7 := ucast (drop_bit 56 v))"

section \<open>Blocks\<close>

function memset_bytes :: "mem \<Rightarrow> addr \<Rightarrow> u8 \<Rightarrow> u64 \<Rightarrow> mem \<times> addr \<times> u64" where
  "memset_bytes m s8 c8 n =
     (if s8 mod 8 = 0 \<and> n mod 8 = 0 then (m, s8, n)
      else if n = 0 then (m, s8, n)
      else memset_bytes (m(s8 := c8)) (s8 + 1) c8 (n - 1))"
  by pat_completeness auto
termination
  by (relation "measure (\<lambda>(m, s8, c8, n). unat n)") (auto simp: unat_dec unat_gt_0)

partial_function (option) memset_words :: "mem \<Rightarrow> addr \<Rightarrow> u64 \<Rightarrow> u64 \<Rightarrow> mem option" where
  "memset_words m s64 c64 n =
     (if n > 0 then memset_words (store64 m s64 c64) (s64 + 8) c64 (n - 8) else Some m)"

definition memset :: "mem \<Rightarrow> addr \<Rightarrow> 32 word \<Rightarrow> u64 \<Rightarrow> (addr \<times> mem) option" where
  "memset m s c n =
     (let c8 = ucast (c AND 0xFF) :: u64;
          c32 = push_bit 24 c8 OR push_bit 16 c8 OR push_bit 8 c8 OR c8;
          c64 = push_bit 32 c32 OR c32;
          (m, s64, n) = memset_bytes m s (ucast c8) n
      in map_option (\<lambda>m. (s, m)) (memset_words m s64 c64 n))"

function memcpy_loop :: "mem \<Rightarrow> addr \<Rightarrow> addr \<Rightarrow> u64 \<Rightarrow> u64 \<Rightarrow> mem" where
  "memcpy_loop m d s i n = (if i < n then memcpy_loop (m(d + i := m (s + i))) d s (i + 1) n else m)"
  by pat_completeness auto
termination
  by (relation "measure (\<lambda>(m, d, s, i, n). unat (n - i))") (auto intro: unat_dist_dec)

definition memcpy :: "mem \<Rightarrow> addr \<Rightarrow> addr \<Rightarrow> u64 \<Rightarrow> addr \<times> mem" where
  "memcpy m dest src n = (dest, memcpy_loop m dest src 0 n)"

partial_function (option) memcmp :: "mem \<Rightarrow> addr \<Rightarrow> addr \<Rightarrow> u64 \<Rightarrow> int option" where
  "memcmp m s1 s2 n =
     (if m s1 = m s2 then (if n - 1 = 0 then Some 0 else memcmp m (s1 + 1) (s2 + 1) (n - 1))
      else Some (uint (m s1) - uint (m s2)))"

function memmove_down :: "mem \<Rightarrow> addr \<Rightarrow> addr \<Rightarrow> u64 \<Rightarrow> mem" where
  "memmove_down m pd ps n =
     (if n \<noteq> 0 then memmove_down (m(pd - 1 := m (ps - 1))) (pd - 1) (ps - 1) (n - 1) else m)"
  by pat_completeness auto
termination
  by (relation "measure (\<lambda>(m, pd, ps, n). unat n)") (auto simp: unat_dec unat_gt_0)

function memmove_up :: "mem \<Rightarrow> addr \<Rightarrow> addr \<Rightarrow> u64 \<Rightarrow> mem" where
  "memmove_up m pd ps n =
     (if n \<noteq> 0 then memmove_up (m(pd := m ps)) (pd + 1) (ps + 1) (n - 1) else m)"
  by pat_completeness auto
termination
  by (relation "measure (\<lambda>(m, pd, ps, n). unat n)") (auto simp: unat_dec unat_gt_0)

definition memmove :: "mem \<Rightarrow> addr \<Rightarrow> addr \<Rightarrow> u64 \<Rightarrow> addr \<times> mem" where
  "memmove m dest src n =
     (dest, if src < dest then memmove_down m (dest + n) (src + n) n else memmove_up m dest src n)"

section \<open>Strings\<close>

partial_function (option) strlen_loop :: "mem \<Rightarrow> addr \<Rightarrow> u64 \<Rightarrow> u64 option" where
  "strlen_loop m s n = (if m (s + n) \<noteq> 0 then strlen_loop m s (n + 1) else Some n)"

definition strlen :: "mem \<Rightarrow> addr \<Rightarrow> u64 option" where
  "strlen m s = (if s = NULL then Some 0 else strlen_loop m s 0)"

function strnlen_loop :: "mem \<Rightarrow> addr \<Rightarrow> u64 \<Rightarrow> u64 \<Rightarrow> u64" where
  "strnlen_loop m s maxLen n = (if m (s + n) \<noteq> 0 \<and> n < maxLen then strnlen_loop m s maxLen (n + 1) else n)"
  by pat_completeness auto
termination
  by (relation "measure (\<lambda>(m, s, l, n). unat (l - n))") (auto intro: unat_dist_dec)

definition strnlen :: "mem \<Rightarrow> addr \<Rightarrow> u64 \<Rightarrow> u64" where
  "strnlen m s maxLen = (if s = NULL then 0 else strnlen_loop m s maxLen 0)"

function strncmp :: "mem \<Rightarrow> addr \<Rightarrow> addr \<Rightarrow> u64 \<Rightarrow> int" where
  "strncmp m s1 s2 n =
     (if n \<noteq> 0 then if m s1 \<noteq> m s2 then uint (m s1) - uint (m s2) else strncmp m (s1 + 1) (s2 + 1) (n - 1)
      else 0)"
  by pat_completeness auto
termination
  by (relation "measure (\<lambda>(m, s1, s2, n). unat n)") (auto simp: unat_dec unat_gt_0)

text \<open>\<^verbatim>\<open>char\<close> is signed on the target: the difference is taken of the signed values.\<close>

partial_function (option) strcmp :: "mem \<Rightarrow> addr \<Rightarrow> addr \<Rightarrow> int option" where
  "strcmp m s1 s2 =
     (if m s1 = m s2 \<and> m s1 \<noteq> 0 \<and> m s2 \<noteq> 0 then strcmp m (s1 + 1) (s2 + 1)
      else Some (sint (m s1) - sint (m s2)))"

function strncpy_loop :: "mem \<Rightarrow> addr \<Rightarrow> addr \<Rightarrow> u64 \<Rightarrow> u64 \<Rightarrow> mem" where
  "strncpy_loop m d s n i =
     (if i < n \<and> m (s + i) \<noteq> 0 then strncpy_loop (m(d + i := m (s + i))) d s n (i + 1) else m)"
  by pat_completeness auto
termination
  by (relation "measure (\<lambda>(m, d, s, n, i). unat (n - i))") (auto intro: unat_dist_dec)

definition strncpy :: "mem \<Rightarrow> addr \<Rightarrow> addr \<Rightarrow> u64 \<Rightarrow> addr \<times> mem" where
  "strncpy m dest src n = (dest, strncpy_loop m dest src n 0)"

partial_function (option) str_end :: "mem \<Rightarrow> addr \<Rightarrow> addr option" where
  "str_end m dest = (if m dest \<noteq> 0 then str_end m (dest + 1) else Some dest)"

function strncat_loop :: "mem \<Rightarrow> addr \<Rightarrow> addr \<Rightarrow> u64 \<Rightarrow> mem" where
  "strncat_loop m dest src n =
     (if n \<noteq> 0 then
        if m src = 0 then m(dest := m src)
        else strncat_loop (m(dest := m src)) (dest + 1) (src + 1) (n - 1)
      else m(dest := 0))"
  by pat_completeness auto
termination
  by (relation "measure (\<lambda>(m, d, s, n). unat n)") (auto simp: unat_dec unat_gt_0)

definition strncat :: "mem \<Rightarrow> addr \<Rightarrow> addr \<Rightarrow> u64 \<Rightarrow> (addr \<times> mem) option" where
  "strncat m dest src n = map_option (\<lambda>e. (dest, strncat_loop m e src n)) (str_end m dest)"

partial_function (option) strchr_loop :: "mem \<Rightarrow> addr \<Rightarrow> u8 \<Rightarrow> addr option" where
  "strchr_loop m s c = (if m s \<noteq> c \<and> m s \<noteq> 0 then strchr_loop m (s + 1) c else Some s)"

definition strchr :: "mem \<Rightarrow> addr \<Rightarrow> 32 word \<Rightarrow> addr option" where
  "strchr m s ch =
     (if s = NULL then Some NULL
      else map_option (\<lambda>s. if m s = ucast ch then s else NULL) (strchr_loop m s (ucast ch)))"

partial_function (option) strrchr_loop :: "mem \<Rightarrow> addr \<Rightarrow> u8 \<Rightarrow> addr \<Rightarrow> addr option" where
  "strrchr_loop m s c prev_s =
     (let s = s + 1 in
      if m s = 0 then Some prev_s else strrchr_loop m s c (if m s = c then s else prev_s))"

definition strrchr :: "mem \<Rightarrow> addr \<Rightarrow> 32 word \<Rightarrow> addr option" where
  "strrchr m s ch = (if s = NULL then Some NULL else strrchr_loop m s (ucast ch) NULL)"

text \<open>The inner loop of \<open>strstr\<close> skips to the next occurrence of the needle's first byte.\<close>

partial_function (option) strstr_skip :: "mem \<Rightarrow> addr \<Rightarrow> u8 \<Rightarrow> u64 \<Rightarrow> (addr \<times> u64) option" where
  "strstr_skip m haystack c haystack_len =
     (if m haystack \<noteq> 0 \<and> m haystack \<noteq> c then strstr_skip m (haystack + 1) c (haystack_len - 1)
      else Some (haystack, haystack_len))"

partial_function (option) strstr_loop :: "mem \<Rightarrow> addr \<Rightarrow> addr \<Rightarrow> u64 \<Rightarrow> u64 \<Rightarrow> addr option" where
  "strstr_loop m haystack needle haystack_len needle_len =
     Option.bind (strstr_skip m haystack (m needle) haystack_len) (\<lambda>(haystack, haystack_len).
       if m haystack = 0 then Some NULL
       else if haystack_len < needle_len then Some NULL
       else if strncmp m haystack needle needle_len = 0 then Some haystack
       else strstr_loop m (haystack + 1) needle (haystack_len - 1) needle_len)"

definition strstr :: "mem \<Rightarrow> addr \<Rightarrow> addr \<Rightarrow> addr option" where
  "strstr m haystack needle =
     (if needle = NULL then Some NULL
      else if haystack = NULL then Some NULL
      else if m needle = 0 then Some haystack
      else Option.bind (strlen m needle) (\<lambda>needle_len.
           Option.bind (strlen m haystack) (\<lambda>haystack_len.
             strstr_loop m haystack needle haystack_len needle_len)))"

declare memset_bytes.simps [simp del] memcpy_loop.simps [simp del] memmove_down.simps [simp del]
  memmove_up.simps [simp del] strnlen_loop.simps [simp del] strncmp.simps [simp del]
  strncpy_loop.simps [simp del] strncat_loop.simps [simp del]

section \<open>Filling and copying\<close>

definition fill :: "mem \<Rightarrow> addr \<Rightarrow> u8 \<Rightarrow> nat \<Rightarrow> mem" where
  "fill m s b n = (\<lambda>a. if unat (a - s) < n then b else m a)"

definition copied :: "mem \<Rightarrow> addr \<Rightarrow> addr \<Rightarrow> nat \<Rightarrow> mem" where
  "copied m d s n = (\<lambda>a. if unat (a - d) < n then m (s + (a - d)) else m a)"

lemma unat_pred_less:
  fixes x :: u64
  assumes "n < 2 ^ 64"
  shows "unat (x - 1) < n \<longleftrightarrow> x \<noteq> 0 \<and> unat x < Suc n"
proof (cases "x = 0")
  case True
  then show ?thesis using assms by (simp add: unsigned_minus_1_eq_mask mask_eq_exp_minus_1)
next
  case False
  then show ?thesis by (simp add: unat_dec less_Suc_eq_le) (metis Suc_pred less_Suc_eq_le linorder_not_le unat_gt_0 unat_eq_0 neq0_conv)
qed

lemma fill_0 [simp]: "fill m s b 0 = m"
  by (simp add: fill_def)

lemma fill_step: "k < 2 ^ 64 \<Longrightarrow> fill (m(s := b)) (s + 1) b k = fill m s b (Suc k)"
  using unat_pred_less[of k] by (auto simp: fill_def fun_eq_iff diff_diff_add[symmetric])

lemma fill_add: "j + k \<le> 2 ^ 64 \<Longrightarrow> fill (fill m s b j) (s + of_nat j) b k = fill m s b (j + k)"
proof (induction j arbitrary: m s k)
  case 0
  then show ?case by simp
next
  case (Suc j)
  have "fill (fill m s b (Suc j)) (s + of_nat (Suc j)) b k
      = fill (fill (m(s := b)) (s + 1) b j) (s + 1 + of_nat j) b k"
    using Suc.prems by (simp add: fill_step add.assoc)
  also have "\<dots> = fill (m(s := b)) (s + 1) b (j + k)" by (rule Suc.IH) (use Suc.prems in simp)
  also have "\<dots> = fill m s b (Suc (j + k))" using Suc.prems by (simp add: fill_step)
  finally show ?case by simp
qed

lemma memset_bytes_fill:
  "\<exists>k \<le> unat n. memset_bytes m s c n = (fill m s c k, s + of_nat k, n - of_nat k) \<and> (n - of_nat k) mod 8 = 0"
proof (induction m s c n rule: memset_bytes.induct)
  case (1 m s c n)
  show ?case
  proof (cases "(s mod 8 = 0 \<and> n mod 8 = 0) \<or> n = 0")
    case True
    then have "n mod 8 = 0" by auto
    moreover have "memset_bytes m s c n = (m, s, n)" using True by (subst memset_bytes.simps) (simp only: if_True split: if_split, blast)
    ultimately show ?thesis by (intro exI[of _ 0]) simp
  next
    case False
    then have c: "\<not> (s mod 8 = 0 \<and> n mod 8 = 0)" "n \<noteq> 0" by simp_all
    obtain k where k: "k \<le> unat (n - 1)"
        "memset_bytes (m(s := c)) (s + 1) c (n - 1) = (fill (m(s := c)) (s + 1) c k, s + 1 + of_nat k, n - 1 - of_nat k)"
        "(n - 1 - of_nat k) mod 8 = 0" using 1[OF c] by (elim exE conjE) (rule that)
    have n: "unat (n - 1) = unat n - 1" "0 < unat n" using False by (auto simp: unat_dec unat_gt_0)
    have "unat n < 2 ^ LENGTH(64)" by (rule unsigned_less)
    then have "unat n < 2 ^ 64" by simp
    with n have "Suc k \<le> unat n" "k < 2 ^ 64" using k(1) by linarith+
    moreover have "memset_bytes m s c n = memset_bytes (m(s := c)) (s + 1) c (n - 1)"
      using c by (subst memset_bytes.simps) (simp only: if_False)
    ultimately show ?thesis using k fill_step[of k m s c] by (intro exI[of _ "Suc k"]) (simp add: algebra_simps)
  qed
qed

lemma store64_fill: "\<forall>i < 8. ucast (drop_bit (8 * i) c64) = (c :: u8) \<Longrightarrow> store64 m p c64 = fill m p c 8"
proof -
  assume a: "\<forall>i < 8. ucast (drop_bit (8 * i) c64) = c"
  have b: "ucast c64 = c" "ucast (drop_bit 8 c64) = c" "ucast (drop_bit 16 c64) = c" "ucast (drop_bit 24 c64) = c"
    "ucast (drop_bit 32 c64) = c" "ucast (drop_bit 40 c64) = c" "ucast (drop_bit 48 c64) = c" "ucast (drop_bit 56 c64) = c"
    using a[rule_format, of 0] a[rule_format, of 1] a[rule_format, of 2] a[rule_format, of 3]
      a[rule_format, of 4] a[rule_format, of 5] a[rule_format, of 6] a[rule_format, of 7] by simp_all
  show ?thesis
  proof
    fix x
    have "unat (x - p) < 8 \<longleftrightarrow> x - p \<in> {0, 1, 2, 3, 4, 5, 6, 7}"
      by (simp add: word_unat_eq_iff) arith
    also have "\<dots> \<longleftrightarrow> x \<in> {p, p + 1, p + 2, p + 3, p + 4, p + 5, p + 6, p + 7}"
      by (auto simp: diff_eq_eq add.commute)
    finally show "store64 m p c64 x = fill m p c 8 x" using b by (auto simp: store64_def fill_def)
  qed
qed

lemma memset_words_fill:
  assumes "\<forall>i < 8. ucast (drop_bit (8 * i) c64) = (c :: u8)"
  shows "n mod 8 = 0 \<Longrightarrow> memset_words m s c64 n = Some (fill m s c (unat n))"
proof (induction "unat n" arbitrary: n m s rule: less_induct)
  case less
  show ?case
  proof (cases "n = 0")
    case True
    then show ?thesis by (subst memset_words.simps) simp
  next
    case False
    have "unat (n mod 8) = 0" using less.prems by simp
    then have m8: "unat n mod 8 = 0" by (simp only: unat_mod) simp
    then have ge: "8 \<le> unat n" using False by (metis mod_less not_le unat_eq_0)
    then have u: "unat (n - 8) = unat n - 8" by (simp add: unat_sub word_le_nat_alt)
    have "(n - 8) mod 8 = 0" using m8 ge u by (simp add: word_unat_eq_iff unat_mod) (metis le_mod_geq)
    then have "memset_words (store64 m s c64) (s + 8) c64 (n - 8) = Some (fill (fill m s c 8) (s + of_nat 8) c (unat n - 8))"
      using less.hyps[of "n - 8"] u ge by (simp add: store64_fill[OF assms])
    also have "\<dots> = Some (fill m s c (unat n))"
      using ge fill_add[of 8 "unat n - 8" m s c] unat_lt_64[of n] by simp
    finally show ?thesis using False by (subst memset_words.simps) (simp add: word_neq_0_conv)
  qed
qed

lemma bit_repeat_32:
  fixes c8 :: u64
  assumes z: "\<And>k. 8 \<le> k \<Longrightarrow> \<not> bit c8 k"
  defines "c32 \<equiv> push_bit 24 c8 OR push_bit 16 c8 OR push_bit 8 c8 OR c8"
  shows "bit c32 k \<longleftrightarrow> k < 32 \<and> bit c8 (k mod 8)"
proof -
  consider "k < 8" | "8 \<le> k" "k < 16" | "16 \<le> k" "k < 24" | "24 \<le> k" "k < 32" | "32 \<le> k" by linarith
  then show ?thesis
  proof cases
    case 1 then show ?thesis by (simp add: c32_def bit_simps)
  next
    case 2 then have "k mod 8 = k - 8" by (simp add: mod_if)
    then show ?thesis using 2 z[of k] by (simp add: c32_def bit_simps)
  next
    case 3 then have "k mod 8 = k - 16" by (simp add: mod_if)
    then show ?thesis using 3 z[of k] z[of "k - 8"] by (simp add: c32_def bit_simps)
  next
    case 4 then have "k mod 8 = k - 24" by (simp add: mod_if)
    then show ?thesis using 4 z[of k] z[of "k - 8"] z[of "k - 16"] by (simp add: c32_def bit_simps)
  next
    case 5
    then show ?thesis using z[of k] z[of "k - 8"] z[of "k - 16"] z[of "k - 24"] by (simp add: c32_def bit_simps)
  qed
qed

lemma memset_pattern:
  fixes c8 :: u64
  assumes z: "\<And>k. 8 \<le> k \<Longrightarrow> \<not> bit c8 k"
  defines "c32 \<equiv> push_bit 24 c8 OR push_bit 16 c8 OR push_bit 8 c8 OR c8"
  shows "\<forall>i < 8. ucast (drop_bit (8 * i) (push_bit 32 c32 OR c32)) = (ucast c8 :: u8)"
proof (intro allI impI bit_word_eqI)
  fix i j assume i: "(i :: nat) < 8" and "j < LENGTH(8)"
  then have j: "j < 8" by simp
  let ?k = "8 * i + j"
  have "32 \<le> ?k \<Longrightarrow> ?k - 32 = 8 * (i - 4) + j" using j by arith
  then have k: "?k mod 8 = j" "32 \<le> ?k \<Longrightarrow> (?k - 32) mod 8 = j" "?k < 64" using i j by simp_all
  have "bit (ucast (drop_bit (8 * i) (push_bit 32 c32 OR c32)) :: u8) j = bit (push_bit 32 c32 OR c32) ?k"
    using j by (simp add: bit_simps add.commute)
  also have "\<dots> = bit c8 j"
    using bit_repeat_32[OF z, folded c32_def, of ?k] bit_repeat_32[OF z, folded c32_def, of "?k - 32"] k i j
    by (cases "?k < 32") (auto simp: bit_simps)
  finally show "bit (ucast (drop_bit (8 * i) (push_bit 32 c32 OR c32)) :: u8) j = bit (ucast c8 :: u8) j"
    using j by (simp add: bit_simps)
qed

lemma memset_fill: "memset m s c n = Some (s, fill m s (ucast c) (unat n))"
proof -
  let ?c8 = "ucast (c AND 0xFF) :: u64"
  have m: "(0xFF :: 32 word) = mask 8" by (simp add: mask_eq_exp_minus_1)
  have z: "\<not> bit ?c8 k" if "8 \<le> k" for k using that by (simp add: m bit_simps)
  have c: "(ucast ?c8 :: u8) = ucast c" by (rule bit_word_eqI) (auto simp: m bit_simps)
  obtain k where k: "k \<le> unat n" "(n - of_nat k) mod 8 = 0"
      "memset_bytes m s (ucast ?c8) n = (fill m s (ucast ?c8) k, s + of_nat k, n - of_nat k)"
    using memset_bytes_fill[of n m s "ucast ?c8"] by (elim exE conjE) (rule that)
  have n: "unat n < 2 ^ 64" using unat_lt_64[of n] by simp
  then have u: "unat (n - of_nat k) = unat n - k" using k(1) by (simp add: unat_sub word_le_nat_alt unat_of_nat_64)
  let ?c32 = "push_bit 24 ?c8 OR push_bit 16 ?c8 OR push_bit 8 ?c8 OR ?c8"
  have "memset_words (fill m s (ucast ?c8) k) (s + of_nat k) (push_bit 32 ?c32 OR ?c32) (n - of_nat k)
      = Some (fill (fill m s (ucast ?c8) k) (s + of_nat k) (ucast ?c8) (unat n - k))"
    by (rule memset_words_fill[OF memset_pattern[OF z] k(2), unfolded u])
  also have "\<dots> = Some (fill m s (ucast ?c8) (unat n))" using k(1) n by (simp only: fill_add) simp
  finally show ?thesis unfolding memset_def Let_def k(3) prod.case using c by (simp only: option.map)
qed

lemma memmove_up_copied:
  "unat (d - s) = 0 \<or> unat n \<le> unat (d - s) \<Longrightarrow> memmove_up m d s n = copied m d s (unat n)"
proof (induction m d s n rule: memmove_up.induct)
  case (1 m d s n)
  show ?case
  proof (cases "n = 0")
    case True
    then show ?thesis by (subst memmove_up.simps) (simp add: copied_def)
  next
    case False
    have n: "unat (n - 1) = unat n - 1" "0 < unat n" "unat n < 2 ^ 64"
      using False unat_lt_64[of n] by (auto simp: unat_dec unat_gt_0)
    have "memmove_up m d s n = copied (m(d := m s)) (d + 1) (s + 1) (unat n - 1)"
      using 1 False n by (subst memmove_up.simps) (auto simp: diff_diff_add[symmetric] simp del: fun_upd_apply)
    also have "\<dots> = copied m d s (unat n)"
    proof
      fix a
      define x where "x = a - d"
      have a: "a = d + x" by (simp add: x_def)
      have sx: "x \<noteq> 0 \<Longrightarrow> unat x < unat n \<Longrightarrow> s + x \<noteq> d"
        using "1.prems" by (metis add_diff_cancel_left' linorder_not_le unat_eq_0)
      show "copied (m(d := m s)) (d + 1) (s + 1) (unat n - 1) a = copied m d s (unat n) a"
        using n unat_pred_less[of "unat n - 1" x] sx
        by (auto simp: copied_def a diff_diff_add[symmetric])
    qed
    finally show ?thesis .
  qed
qed

lemma memcpy_loop_up: "i \<le> n \<Longrightarrow> memcpy_loop m d s i n = memmove_up m (d + i) (s + i) (n - i)"
proof (induction m d s i n rule: memcpy_loop.induct)
  case (1 m d s i n)
  show ?case
  proof (cases "i = n")
    case True
    then show ?thesis by (simp add: memcpy_loop.simps[of m d s n n] memmove_up.simps[of m _ _ 0])
  next
    case False
    then have "i < n" using 1 by simp
    then have "memcpy_loop m d s i n = memmove_up (m(d + i := m (s + i))) (d + (i + 1)) (s + (i + 1)) (n - (i + 1))"
      using 1 by (subst memcpy_loop.simps) (simp add: inc_le del: fun_upd_apply)
    also have "\<dots> = memmove_up m (d + i) (s + i) (n - i)"
      using \<open>i < n\<close> by (subst (2) memmove_up.simps) (auto simp: algebra_simps)
    finally show ?thesis .
  qed
qed

lemma memmove_down_copied:
  "unat (s - d) = 0 \<or> unat n \<le> unat (s - d) \<Longrightarrow> memmove_down m (d + n) (s + n) n = copied m d s (unat n)"
proof (induction n arbitrary: m rule: measure_induct_rule[of unat])
  case (less n)
  show ?case
  proof (cases "n = 0")
    case True
    then show ?thesis by (subst memmove_down.simps) (simp add: copied_def)
  next
    case False
    have n: "unat (n - 1) = unat n - 1" "0 < unat n"
      using False by (auto simp: unat_dec unat_gt_0)
    let ?m = "m(d + (n - 1) := m (s + (n - 1)))"
    have "memmove_down m (d + n) (s + n) n = memmove_down ?m (d + (n - 1)) (s + (n - 1)) (n - 1)"
      using False by (subst memmove_down.simps) (simp add: algebra_simps)
    also have "\<dots> = copied ?m d s (unat n - 1)"
      using less.IH[of "n - 1" ?m] less.prems n by (auto simp del: fun_upd_apply)
    also have "\<dots> = copied m d s (unat n)"
    proof
      fix a
      define x where "x = a - d"
      have a: "a = d + x" by (simp add: x_def)
      have lt: "unat x < unat n \<longleftrightarrow> unat x < unat n - 1 \<or> x = n - 1"
        using n by (auto simp: word_unat_eq_iff)
      have "unat x < unat n - 1 \<Longrightarrow> s + x \<noteq> d + (n - 1)"
      proof
        assume x: "unat x < unat n - 1" "s + x = d + (n - 1)"
        then have sd: "s - d = (n - 1) - x" by (simp add: algebra_simps)
        have "unat (s - d) = unat n - 1 - unat x" unfolding sd using x(1) n by (simp add: unat_sub word_le_nat_alt)
        then show False using less.prems x(1) by linarith
      qed
      then show "copied ?m d s (unat n - 1) a = copied m d s (unat n) a"
        using lt n by (auto simp: copied_def a)
    qed
    finally show ?thesis .
  qed
qed



section \<open>Strings in memory\<close>

primrec cstr :: "mem \<Rightarrow> addr \<Rightarrow> u8 list \<Rightarrow> bool" where
  "cstr m p [] \<longleftrightarrow> m p = 0"
| "cstr m p (c # cs) \<longleftrightarrow> c \<noteq> 0 \<and> m p = c \<and> cstr m (p + 1) cs"

lemma cstr_nth: "cstr m p s \<Longrightarrow> i < length s \<Longrightarrow> m (p + of_nat i) = s ! i \<and> s ! i \<noteq> 0"
proof (induction s arbitrary: p i)
  case Nil
  then show ?case by simp
next
  case (Cons c s)
  then show ?case using Cons.IH[of "p + 1" "i - 1"] by (cases i) (auto simp: add.assoc)
qed

lemma cstr_end: "cstr m p s \<Longrightarrow> m (p + of_nat (length s)) = 0"
  by (induction s arbitrary: p) (force simp: add.assoc)+

lemma cstr_length: assumes "cstr m p s" shows "length s < 2 ^ 64"
proof (rule ccontr)
  assume "\<not> length s < 2 ^ 64"
  then have l: "length s mod 2 ^ 64 < length s" by (meson linorder_not_le mod_less_divisor order_less_le_trans zero_less_numeral zero_less_power)
  have "(of_nat (length s mod 2 ^ 64) :: u64) = of_nat (length s)"
    by (simp add: word_unat_eq_iff unat_of_nat)
  then show False using cstr_nth[OF assms l] cstr_end[OF assms] by simp
qed

lemma cstr_drop: "cstr m p s \<Longrightarrow> i \<le> length s \<Longrightarrow> cstr m (p + of_nat i) (drop i s)"
proof (induction s arbitrary: p i)
  case Nil
  then show ?case by simp
next
  case (Cons c s)
  then show ?case using Cons.IH[of "p + 1" "i - 1"] by (cases i) (auto simp: add.assoc)
qed

lemma strlen_loop_cstr: "cstr m (p + n) s \<Longrightarrow> strlen_loop m p n = Some (n + of_nat (length s))"
proof (induction s arbitrary: n)
  case Nil
  then show ?case by (subst strlen_loop.simps) simp
next
  case (Cons c s)
  then show ?case using Cons.IH[of "n + 1"] by (subst strlen_loop.simps) (simp add: add.assoc)
qed

lemma strlen_cstr: "cstr m p s \<Longrightarrow> p \<noteq> NULL \<Longrightarrow> strlen m p = Some (of_nat (length s))"
  using strlen_loop_cstr[of m p 0 s] by (simp add: strlen_def)

lemma strcmp_cstr: "cstr m p s \<Longrightarrow> cstr m q t \<Longrightarrow> \<exists>r. strcmp m p q = Some r \<and> (r = 0 \<longleftrightarrow> s = t)"
proof (induction s arbitrary: p q t)
  case Nil
  then show ?case by (cases t; subst strcmp.simps) (auto simp: signed_eq_0_iff)
next
  case (Cons c s)
  then show ?case
  proof (cases "t \<noteq> [] \<and> hd t = c")
    case True
    then obtain t' where t: "t = c # t'" by (cases t) auto
    then obtain r where "strcmp m (p + 1) (q + 1) = Some r" "r = 0 \<longleftrightarrow> s = t'"
      using Cons.IH[of "p + 1" "q + 1" t'] Cons.prems by auto
    then show ?thesis using Cons.prems t by (subst strcmp.simps) simp
  next
    case False
    then have "m p \<noteq> m q" "c # s \<noteq> t" using Cons.prems by (cases t; auto)+
    then show ?thesis by (subst strcmp.simps) (auto dest: signed_word_eqI)
  qed
qed

lemma strncmp_zero: "strncmp m p q n = 0 \<longleftrightarrow> (\<forall>i < unat n. m (p + of_nat i) = m (q + of_nat i))"
proof (induction m p q n rule: strncmp.induct)
  case (1 m p q n)
  show ?case
  proof (cases "n = 0")
    case True
    then show ?thesis by (subst strncmp.simps) simp
  next
    case False
    then have n: "unat n = Suc (unat (n - 1))" by (simp add: unat_dec) (metis Suc_pred unat_gt_0)
    show ?thesis
    proof (cases "m p = m q")
      case True
      then have "strncmp m p q n = strncmp m (p + 1) (q + 1) (n - 1)" using False by (subst strncmp.simps) simp
      also have "\<dots> = 0 \<longleftrightarrow> (\<forall>i < unat (n - 1). m (p + of_nat (Suc i)) = m (q + of_nat (Suc i)))"
        using 1[OF False] True by (simp add: add.assoc)
      finally show ?thesis unfolding n using True by (simp only: All_less_Suc2) simp
    next
      case ne: False
      then have "strncmp m p q n \<noteq> 0" using False by (subst strncmp.simps) (simp add: word_uint_eq_iff)
      moreover have "\<exists>i < unat n. m (p + of_nat i) \<noteq> m (q + of_nat i)" using ne n by (intro exI[of _ 0]) simp
      ultimately show ?thesis by blast
    qed
  qed
qed

lemma strncmp_prefix:
  assumes "cstr m p s" "cstr m q t" "length t \<le> length s"
  shows "strncmp m p q (of_nat (length t)) = 0 \<longleftrightarrow> take (length t) s = t"
proof -
  have "unat (of_nat (length t) :: u64) = length t" using cstr_length[OF assms(2)] by (rule unat_of_nat_64)
  then have "strncmp m p q (of_nat (length t)) = 0 \<longleftrightarrow> (\<forall>i < length t. s ! i = t ! i)"
    using cstr_nth[OF assms(1)] cstr_nth[OF assms(2)] assms(3) by (simp add: strncmp_zero)
  then show ?thesis using assms(3) by (auto simp: list_eq_iff_nth_eq)
qed

text \<open>Where a string occurs in another for the first time.\<close>

fun find_sub :: "u8 list \<Rightarrow> u8 list \<Rightarrow> nat option" where
  "find_sub t s = (if take (length t) s = t then Some 0
                   else case s of [] \<Rightarrow> None | _ # s' \<Rightarrow> map_option Suc (find_sub t s'))"

declare find_sub.simps [simp del]

lemma find_sub_Some: "find_sub t s = Some i \<longleftrightarrow> take (length t) (drop i s) = t \<and> i \<le> length s \<and>
    (\<forall>j < i. take (length t) (drop j s) \<noteq> t)"
proof (induction s arbitrary: i)
  case Nil
  then show ?case by (subst find_sub.simps) auto
next
  case (Cons c s)
  show ?case
  proof (cases "take (length t) (c # s) = t")
    case True
    then show ?thesis by (subst find_sub.simps) (auto intro: ccontr)
  next
    case False
    then have "find_sub t (c # s) = map_option Suc (find_sub t s)" by (subst find_sub.simps) simp
    then show ?thesis using False Cons.IH
      by (cases i) (auto simp: All_less_Suc2)
  qed
qed

lemma find_sub_short: "length s < length t \<Longrightarrow> find_sub t s = None"
proof (induction s)
  case Nil
  then show ?case by (subst find_sub.simps) auto
next
  case (Cons c s)
  then have "take (length t) (c # s) \<noteq> t" by (metis length_take min.absorb_iff2 nless_le linorder_not_le)
  then show ?case using Cons by (subst find_sub.simps) simp
qed

lemma strstr_loop_find:
  assumes "cstr m q t" "t \<noteq> []"
  shows "cstr m p s \<Longrightarrow> strstr_loop m p q (of_nat (length s)) (of_nat (length t))
     = Some (case find_sub t s of Some i \<Rightarrow> p + of_nat i | None \<Rightarrow> NULL)"
proof (induction s arbitrary: p)
  case Nil
  then have "strstr_skip m p (m q) 0 = Some (p, 0)" by (subst strstr_skip.simps) simp
  then show ?case using Nil assms(2) by (subst strstr_loop.simps) (simp add: find_sub.simps)
next
  case (Cons c s)
  obtain d t' where t: "t = d # t'" "m q = d" "d \<noteq> 0" using assms by (cases t) auto
  let ?R = "case find_sub t s of Some i \<Rightarrow> p + 1 + of_nat i | None \<Rightarrow> NULL"
  have IH: "strstr_loop m (p + 1) q (of_nat (length s)) (of_nat (length t)) = Some ?R" using Cons by simp
  have R: "(case find_sub t (c # s) of Some i \<Rightarrow> p + of_nat i | None \<Rightarrow> NULL) =
      (if take (length t) (c # s) = t then p else ?R)"
    by (subst find_sub.simps) (simp split: option.split add: add.assoc)
  show ?case
  proof (cases "c = d")
    case False
    then have "strstr_skip m p (m q) (of_nat (length (c # s))) = strstr_skip m (p + 1) (m q) (of_nat (length s))"
      using Cons.prems t by (subst strstr_skip.simps) simp
    then have "strstr_loop m p q (of_nat (length (c # s))) (of_nat (length t)) = Some ?R"
      unfolding IH[symmetric] by (subst (1 2) strstr_loop.simps) simp
    then show ?thesis using R False t by simp
  next
    case True
    then have sk: "strstr_skip m p (m q) (of_nat (length (c # s))) = Some (p, of_nat (length (c # s)))"
      using Cons.prems t by (subst strstr_skip.simps) simp
    have lt: "(of_nat (length (c # s)) :: u64) < of_nat (length t) \<longleftrightarrow> length (c # s) < length t"
      using cstr_length[OF Cons.prems] cstr_length[OF assms(1)] by (simp add: word_less_nat_alt unat_of_nat_64 del: of_nat_Suc)
    show ?thesis
    proof (cases "length (c # s) < length t")
      case True
      then show ?thesis using sk lt Cons.prems find_sub_short[OF True] by (subst strstr_loop.simps) simp
    next
      case False
      then have "strstr_loop m p q (of_nat (length (c # s))) (of_nat (length t)) =
          (if strncmp m p q (of_nat (length t)) = 0 then Some p
           else strstr_loop m (p + 1) q (of_nat (length s)) (of_nat (length t)))"
        using sk lt Cons.prems by (subst strstr_loop.simps) simp
      then show ?thesis using strncmp_prefix[OF Cons.prems assms(1)] False IH R by simp
    qed
  qed
qed

lemma strstr_find:
  assumes "cstr m p s" "cstr m q t" "p \<noteq> NULL" "q \<noteq> NULL"
  shows "strstr m p q = Some (case find_sub t s of Some i \<Rightarrow> p + of_nat i | None \<Rightarrow> NULL)"
proof (cases "t = []")
  case True
  then show ?thesis using assms by (simp add: strstr_def find_sub.simps[of "[]" s])
next
  case False
  then have "m q \<noteq> 0" using assms(2) by (cases t) auto
  then show ?thesis using assms strstr_loop_find[OF assms(2) False assms(1)]
    by (simp add: strstr_def strlen_cstr)
qed


section \<open>Properties\<close>

text \<open>
  \<open>memset\<close> ends for every argument, returns its first argument, and stores the low byte of \<open>c\<close>
  at exactly the \<open>n\<close> addresses from \<open>s\<close> on, whatever the alignment of \<open>s\<close> and \<open>n\<close> (the range may wrap
  around the end of the address space): the byte loop and the eight-byte loop together are a plain fill.
\<close>

theorem memset_fills:
  "\<exists>m'. memset m s c n = Some (s, m') \<and> (\<forall>a. m' a = (if a - s < n then ucast c else m a))"
  by (simp add: memset_fill fill_def word_less_nat_alt)

text \<open>
  For two ranges that do not wrap around the end of the address space, \<open>memmove\<close> stores in the
  destination what the source held before the call and changes nothing else, however the two overlap;
  \<open>memcpy\<close> does so when the destination does not start strictly inside the source.
\<close>

theorem memmove_moves:
  assumes "unat d + unat n \<le> 2 ^ 64" "unat s + unat n \<le> 2 ^ 64"
  shows "memmove m d s n = (d, \<lambda>a. if a - d < n then m (s + (a - d)) else m a) \<and>
    (d \<le> s \<or> unat s + unat n \<le> unat d \<longrightarrow>
     memcpy m d s n = (d, \<lambda>a. if a - d < n then m (s + (a - d)) else m a))"
proof -
  have c: "copied m d s (unat n) = (\<lambda>a. if a - d < n then m (s + (a - d)) else m a)"
    by (simp add: copied_def word_less_nat_alt)
  have up: "unat (d - s) = 0 \<or> unat n \<le> unat (d - s)" if "d \<le> s \<or> unat s + unat n \<le> unat d"
    using that assms unat_lt_64[of s] unat_lt_64[of d] by (auto simp: unat_sub_if' word_le_nat_alt)
  have down: "unat (s - d) = 0 \<or> unat n \<le> unat (s - d)" if "s < d"
    using that assms unat_lt_64[of s] unat_lt_64[of d] by (auto simp: unat_sub_if' word_less_nat_alt)
  show ?thesis
    using memmove_up_copied[OF up] memmove_down_copied[OF down] memcpy_loop_up[of 0 n m d s]
    by (auto simp: memmove_def memcpy_def c linorder_not_less)
qed

theorem memmove_moves_witness:
  "memmove (\<lambda>a. ucast a) 3 2 4 = (3, \<lambda>a. if a - 3 < 4 then ucast (2 + (a - 3)) else ucast a) \<and>
   memcpy (\<lambda>a. ucast a) 2 3 4 = (2, \<lambda>a. if a - 2 < 4 then ucast (3 + (a - 2)) else ucast a)"
  using memmove_moves[of 3 4 2 "\<lambda>a. ucast a"] memmove_moves[of 2 4 3 "\<lambda>a. ucast a"] by simp

text \<open>
  On terminated strings the string routines return, and \<open>strlen\<close> is the length, \<open>strcmp\<close> is zero
  exactly for equal strings, and \<open>strstr\<close> is the address of the first place where the needle occurs,
  \<open>NULL\<close> when there is none.
\<close>

theorem string_routines_correct:
  assumes "cstr m p s" "cstr m q t" "p \<noteq> NULL" "q \<noteq> NULL"
  shows "strlen m p = Some (of_nat (length s)) \<and>
    (\<exists>r. strcmp m p q = Some r \<and> (r = 0 \<longleftrightarrow> s = t)) \<and>
    (\<exists>a. strstr m p q = Some a \<and>
       (if \<exists>u v. s = u @ t @ v
        then \<exists>u v. s = u @ t @ v \<and> a = p + of_nat (length u) \<and> (\<forall>u' v'. s = u' @ t @ v' \<longrightarrow> length u \<le> length u')
        else a = NULL))"
proof (intro conjI)
  have occ: "(\<exists>u v. s = u @ t @ v \<and> length u = i) \<longleftrightarrow> take (length t) (drop i s) = t \<and> i \<le> length s" for i
  proof
    assume "take (length t) (drop i s) = t \<and> i \<le> length s"
    then have "s = take i s @ t @ drop (length t) (drop i s) \<and> length (take i s) = i"
      by (metis append_take_drop_id length_take min.absorb2)
    then show "\<exists>u v. s = u @ t @ v \<and> length u = i" by blast
  qed auto
  show "strlen m p = Some (of_nat (length s))" using assms by (simp add: strlen_cstr)
  show "\<exists>r. strcmp m p q = Some r \<and> (r = 0 \<longleftrightarrow> s = t)" using assms by (simp add: strcmp_cstr)
  show "\<exists>a. strstr m p q = Some a \<and>
       (if \<exists>u v. s = u @ t @ v
        then \<exists>u v. s = u @ t @ v \<and> a = p + of_nat (length u) \<and> (\<forall>u' v'. s = u' @ t @ v' \<longrightarrow> length u \<le> length u')
        else a = NULL)"
  proof (cases "find_sub t s")
    case None
    have "\<nexists>u v. s = u @ t @ v"
    proof
      assume "\<exists>u v. s = u @ t @ v"
      then have "\<exists>i. take (length t) (drop i s) = t \<and> i \<le> length s" using occ by blast
      then have ex: "\<exists>i. (take (length t) (drop i s) = t \<and> i \<le> length s) \<and> (\<forall>j < i. \<not> (take (length t) (drop j s) = t \<and> j \<le> length s))"
        using exists_least_iff[of "\<lambda>i. take (length t) (drop i s) = t \<and> i \<le> length s"] by blast
      then obtain i where "find_sub t s = Some i" unfolding find_sub_Some by (meson order.trans less_imp_le)
      then show False using None by simp
    qed
    then show ?thesis using None strstr_find[OF assms] by auto
  next
    case (Some i)
    then obtain u v where u: "s = u @ t @ v" "length u = i" using occ[of i] unfolding find_sub_Some by blast
    have "\<forall>u' v'. s = u' @ t @ v' \<longrightarrow> length u \<le> length u'"
      using Some occ unfolding find_sub_Some u(2) by (metis linorder_not_le)
    then show ?thesis using Some u strstr_find[OF assms] by auto
  qed
qed

definition ex_mem :: mem where
  "ex_mem = (\<lambda>_. 0)(16 := 97, 17 := 98, 18 := 97, 19 := 99, 32 := 97, 33 := 99)"

theorem string_routines_correct_witness:
  "strlen ex_mem 16 = Some 4 \<and> strstr ex_mem 16 32 = Some 18"
proof -
  have c: "cstr ex_mem 16 [97, 98, 97, 99]" "cstr ex_mem 32 [97, 99]" by (simp_all add: ex_mem_def)
  have ex: "\<exists>u v. [97, 98, 97, 99 :: u8] = u @ [97, 99] @ v" by (rule exI[of _ "[97, 98]"], rule exI[of _ "[]"]) simp
  obtain a u v where a: "strstr ex_mem 16 32 = Some a" "[97, 98, 97, 99 :: u8] = u @ [97, 99] @ v" "a = 16 + of_nat (length u)"
    using string_routines_correct[OF c, unfolded if_P[OF ex]] by fastforce
  then have "length u = 2" by (auto simp: Cons_eq_append_conv)
  moreover have "strlen ex_mem 16 = Some 4" using string_routines_correct[OF c] by simp
  ultimately show ?thesis using a by simp
qed

text \<open>
  \<open>memcmp\<close> with a length of zero compares memory all the same: the length is decremented before it is
  tested, so equal first bytes send it on and a difference beyond the empty range is reported.
\<close>

theorem memcmp_zero_length: "m p \<noteq> m q \<Longrightarrow> memcmp m p q 0 = Some (uint (m p) - uint (m q)) \<and> memcmp m p q 0 \<noteq> Some 0"
  by (subst (1 2) memcmp.simps) (simp add: word_uint_eq_iff)

text \<open>
  \<open>strncpy\<close> copies characters and nothing more: copying the empty string leaves the destination as it
  was, without a terminator, whatever \<open>n\<close> is. \<open>strrchr\<close> never looks at the first character.
\<close>

theorem strncpy_not_terminated: "m src = 0 \<Longrightarrow> strncpy m dest src n = (dest, m)"
  unfolding strncpy_def by (subst strncpy_loop.simps) simp

theorem strrchr_skips_first: "m (p + 1) = 0 \<Longrightarrow> p \<noteq> NULL \<Longrightarrow> strrchr m p c = Some NULL"
  unfolding strrchr_def by (subst strrchr_loop.simps) simp

end
