(* ===== verification/StdLib.thy ===== *)
theory StdLib
  imports CMem
begin

text \<open>
  The number conversions of \<^verbatim>\<open>common/src/stdlib.c\<close>: \<open>itoa\<close>, \<open>ltoa\<close> and \<open>atoi\<close>, over the byte memory of
  \<^verbatim>\<open>CMem\<close>. A base of one makes the digit loops run forever, which is the value \<open>None\<close>.
\<close>

section \<open>Operations\<close>

text \<open>The character of a digit; \<open>v\<close> is a signed \<^verbatim>\<open>char\<close>.\<close>

definition digit_char :: "u8 \<Rightarrow> u8" where
  "digit_char v = (if sint v \<le> 9 then 48 + v else if sint v \<le> 35 then 97 + (v - 10) else 0)"

text \<open>The loop that stores the digits, least significant first, always followed by a zero byte.\<close>

partial_function (option) digit_loop ::
  "'a::len word \<Rightarrow> 'a word \<Rightarrow> mem \<Rightarrow> addr \<Rightarrow> nat \<Rightarrow> (mem \<times> addr \<times> nat) option" where
  "digit_loop tmp base m iter len =
     (if tmp \<noteq> 0 then
        let v = ucast (tmp mod base);
            m = m(iter := digit_char v);
            iter = iter + 1;
            m = m(iter := 0)
        in digit_loop (tmp div base) base m iter (len + 1)
      else Some (m, iter, len))"

text \<open>The loop that reverses the characters between \<open>start\<close> and \<open>len\<close> in place.\<close>

function rev_loop :: "mem \<Rightarrow> addr \<Rightarrow> nat \<Rightarrow> nat \<Rightarrow> mem" where
  "rev_loop m dst start len =
     (if start < len then
        let t = m (dst + of_nat start);
            m = m(dst + of_nat start := m (dst + of_nat (len - 1)));
            m = m(dst + of_nat (len - 1) := t)
        in rev_loop m dst (start + 1) (len - 1)
      else m)"
  by pat_completeness auto
termination
  by (relation "measure (\<lambda>(m, dst, start, len). len - start)") auto

declare rev_loop.simps [simp del]

definition itoa :: "mem \<Rightarrow> 32 word \<Rightarrow> addr \<Rightarrow> 32 word \<Rightarrow> (addr \<times> mem) option" where
  "itoa m val dst base =
     (if base = 0 then Some (NULL, m)
      else if dst = NULL then Some (NULL, m)
      else if val = 0 then Some (dst, m(dst := 48, dst + 1 := 0))
      else
        (let neg = (sint val < 0 \<and> base = 10);
             tmp = (if neg then - val else val) :: u32
         in Option.bind (digit_loop tmp base m dst 0) (\<lambda>(m, iter, len).
            let (m, iter, len) = (if neg then (m(iter := 45, iter + 1 := 0), iter + 1, len + 1) else (m, iter, len))
            in Some (dst, rev_loop m dst 0 len))))"

definition ltoa :: "mem \<Rightarrow> 64 word \<Rightarrow> addr \<Rightarrow> 32 word \<Rightarrow> (addr \<times> mem) option" where
  "ltoa m val dst base =
     (if base = 0 then Some (NULL, m)
      else if dst = NULL then Some (NULL, m)
      else if val = 0 then Some (dst, m(dst := 48, dst + 1 := 0))
      else
        (let neg = (sint val < 0 \<and> base = 10);
             tmp = (if neg then - val else val) :: u64
         in Option.bind (digit_loop tmp (scast base) m dst 0) (\<lambda>(m, iter, len).
            let (m, iter, len) = (if neg then (m(iter := 45, iter + 1 := 0), iter + 1, len + 1) else (m, iter, len))
            in Some (dst, rev_loop m dst 0 len))))"

partial_function (option) atoi_loop :: "mem \<Rightarrow> addr \<Rightarrow> 32 word \<Rightarrow> 32 word option" where
  "atoi_loop m ptr val =
     (let c = sint (m ptr) in
      if 48 \<le> c \<and> c \<le> 57 then atoi_loop m (ptr + 1) (push_bit 4 (val OR word_of_int (c - 48)))
      else if 97 \<le> c \<and> c \<le> 102 then atoi_loop m (ptr + 1) (push_bit 4 (val OR word_of_int (c - 97 + 10)))
      else if 65 \<le> c \<and> c \<le> 70 then atoi_loop m (ptr + 1) (push_bit 4 (val OR word_of_int (c - 65 + 10)))
      else Some (signed_drop_bit 4 val))"

definition atoi :: "mem \<Rightarrow> addr \<Rightarrow> 32 word \<Rightarrow> 32 word option" where
  "atoi m ptr base = (if base = 16 then atoi_loop m ptr 0 else Some (- 1))"

section \<open>Writing a list of bytes\<close>

definition wr :: "mem \<Rightarrow> addr \<Rightarrow> u8 list \<Rightarrow> mem" where
  "wr m p xs = (\<lambda>a. if unat (a - p) < length xs then xs ! unat (a - p) else m a)"

lemma wr_Nil [simp]: "wr m p [] = m"
  by (simp add: wr_def)

lemma addr_offset: "k < 2 ^ 64 \<Longrightarrow> a = p + of_nat k \<longleftrightarrow> unat (a - p :: u64) = k"
proof
  assume "unat (a - p) = k"
  then have "a - p = of_nat k" by auto
  then show "a = p + of_nat k" by (simp add: diff_eq_eq add.commute)
qed (simp add: unat_of_nat_64)

lemma wr_Cons:
  assumes "length xs < 2 ^ 64"
  shows "wr (m(p := x)) (p + 1) xs = wr m p (x # xs)"
proof
  fix a
  define y where "y = a - p"
  have a: "a = p + y" by (simp add: y_def)
  have d: "p + y - (p + 1) = y - 1" "p + y - p = y" by simp_all
  show "wr (m(p := x)) (p + 1) xs a = wr m p (x # xs) a"
    unfolding wr_def a d using unat_pred_less[OF assms, of y]
    by (cases "y = 0") (simp_all add: nth_Cons' unat_dec unat_eq_0)
qed

lemma wr_read: "i < length xs \<Longrightarrow> length xs \<le> 2 ^ 64 \<Longrightarrow> wr m p xs (p + of_nat i) = xs ! i"
  by (simp add: wr_def unat_of_nat_64)

lemma wr_upd:
  assumes "i < length xs" "length xs \<le> 2 ^ 64"
  shows "(wr m p xs)(p + of_nat i := v) = wr m p (xs[i := v])"
proof
  fix a
  have "a = p + of_nat i \<longleftrightarrow> unat (a - p) = i" using assms by (intro addr_offset) simp
  then show "((wr m p xs)(p + of_nat i := v)) a = wr m p (xs[i := v]) a"
    using assms by (auto simp: wr_def unat_of_nat_64 nth_list_update)
qed

lemma wr_overwrite: "wr (m(p := x)) p (y # ys) = wr m p (y # ys)"
  by (auto simp: wr_def fun_eq_iff)

lemma wr_snoc:
  assumes "length xs < 2 ^ 64"
  shows "(wr m p xs)(p + of_nat (length xs) := v) = wr m p (xs @ [v])"
proof
  fix a
  have "a = p + of_nat (length xs) \<longleftrightarrow> unat (a - p) = length xs" using assms by (rule addr_offset)
  then show "((wr m p xs)(p + of_nat (length xs) := v)) a = wr m p (xs @ [v]) a"
    using assms by (auto simp: wr_def unat_of_nat_64 nth_append)
qed

lemma cstrI:
  "(\<And>i. i < length s \<Longrightarrow> m (p + of_nat i) = s ! i \<and> s ! i \<noteq> 0) \<Longrightarrow> m (p + of_nat (length s)) = 0 \<Longrightarrow> cstr m p s"
proof (induction s arbitrary: p)
  case Nil
  then show ?case by simp
next
  case (Cons c s)
  have "cstr m (p + 1) s"
  proof (rule Cons.IH)
    show "m (p + 1 + of_nat i) = s ! i \<and> s ! i \<noteq> 0" if "i < length s" for i
      using Cons.prems(1)[of "Suc i"] that by (simp add: add.assoc)
    show "m (p + 1 + of_nat (length s)) = 0" using Cons.prems(2) by (simp add: add.assoc)
  qed
  then show ?case using Cons.prems(1)[of 0] by simp
qed

lemma cstr_wr: "0 \<notin> set s \<Longrightarrow> length s < 2 ^ 64 \<Longrightarrow> cstr (wr m p (s @ [0])) p s"
  by (rule cstrI) (auto simp: wr_read nth_append dest: nth_mem)

section \<open>Digits\<close>

fun digits :: "nat \<Rightarrow> nat \<Rightarrow> nat list" where
  "digits b n = (if n = 0 \<or> b < 2 then [] else n mod b # digits b (n div b))"

declare digits.simps [simp del]

lemma digits_0 [simp]: "digits b 0 = []"
  by (simp add: digits.simps)

lemma digits_step: "n \<noteq> 0 \<Longrightarrow> 2 \<le> b \<Longrightarrow> digits b n = n mod b # digits b (n div b)"
  by (simp add: digits.simps[of b n])

lemma digits_length: "2 \<le> b \<Longrightarrow> n < 2 ^ k \<Longrightarrow> length (digits b n) \<le> k"
proof (induction k arbitrary: n)
  case 0
  then show ?case by simp
next
  case (Suc k)
  have "n div b \<le> n div 2" using Suc.prems(1) by (simp add: div_le_mono2)
  also have "\<dots> < 2 ^ k" using Suc.prems(2) by auto
  finally show ?case using Suc by (cases "n = 0") (auto simp: digits_step)
qed

lemma digits_less: "d \<in> set (digits b n) \<Longrightarrow> d < b"
proof (induction b n rule: digits.induct)
  case (1 b n)
  then show ?case by (cases "n = 0 \<or> b < 2") (auto simp: digits.simps[of b n])
qed

lemma digits_value: "2 \<le> b \<Longrightarrow> foldr (\<lambda>d v. d + b * v) (digits b n) 0 = n"
proof (induction b n rule: digits.induct)
  case (1 b n)
  then show ?case by (cases "n = 0") (auto simp: digits_step)
qed

lemma digits_eq_Nil: "2 \<le> b \<Longrightarrow> digits b n = [] \<longleftrightarrow> n = 0"
  by (subst digits.simps) auto

abbreviation chars :: "nat list \<Rightarrow> u8 list" where
  "chars ds \<equiv> map (\<lambda>d. digit_char (of_nat d)) ds"

lemma digit_loop_wr:
  fixes tmp base :: "'a :: len word"
  assumes "2 \<le> unat base"
  shows "length (digits (unat base) (unat tmp)) < 2 ^ 64 - 1 \<Longrightarrow>
    digit_loop tmp base m iter len =
    (let ds = digits (unat base) (unat tmp) in
     Some (if ds = [] then m else wr m iter (chars ds @ [0]), iter + of_nat (length ds), len + length ds))"
proof (induction "unat tmp" arbitrary: tmp m iter len rule: less_induct)
  case less
  show ?case
  proof (cases "tmp = 0")
    case True
    then show ?thesis by (subst digit_loop.simps) simp
  next
    case False
    let ?ds = "digits (unat base) (unat tmp)" and ?ds' = "digits (unat base) (unat (tmp div base))"
    have u: "unat (tmp div base) = unat tmp div unat base" "unat (tmp mod base) = unat tmp mod unat base"
      by (simp_all add: unat_div unat_mod)
    have ds: "?ds = unat tmp mod unat base # ?ds'" using False assms by (simp add: digits_step u unat_eq_0)
    have lt: "unat (tmp div base) < unat tmp" using False assms by (simp add: u unat_gt_0)
    let ?c = "digit_char (of_nat (unat tmp mod unat base))"
    have c: "ucast (tmp mod base) = (of_nat (unat tmp mod unat base) :: u8)"
      unfolding u(2)[symmetric] by simp
    let ?m = "m(iter := ?c, iter + 1 := 0)"
    have "digit_loop tmp base m iter len = digit_loop (tmp div base) base ?m (iter + 1) (len + 1)"
      using False by (subst digit_loop.simps) (simp add: c Let_def)
    also have "\<dots> = Some (if ?ds' = [] then ?m else wr ?m (iter + 1) (chars ?ds' @ [0]),
        iter + 1 + of_nat (length ?ds'), len + 1 + length ?ds')"
      using less.hyps[OF lt, of ?m "iter + 1" "len + 1"] less.prems ds by (simp add: Let_def)
    also have "(if ?ds' = [] then ?m else wr ?m (iter + 1) (chars ?ds' @ [0])) = wr m iter (chars ?ds @ [0])"
    proof (cases "?ds' = []")
      case True
      then show ?thesis using wr_Cons[of "[0]" m iter ?c] wr_Cons[of "[]" "m(iter := ?c)" "iter + 1" 0] ds by simp
    next
      case False
      then have "wr ?m (iter + 1) (chars ?ds' @ [0]) = wr (m(iter := ?c)) (iter + 1) (chars ?ds' @ [0])"
        using wr_overwrite[of "m(iter := ?c)" "iter + 1" 0] by (cases ?ds') simp_all
      also have "\<dots> = wr m iter (?c # chars ?ds' @ [0])" by (rule wr_Cons) (use less.prems ds in simp)
      finally show ?thesis using False ds by simp
    qed
    finally show ?thesis using ds by (simp add: Let_def add.assoc)
  qed
qed

lemma rev_loop_wr:
  "length (a @ xs @ b) \<le> 2 ^ 64 \<Longrightarrow>
   rev_loop (wr m p (a @ xs @ b)) p (length a) (length a + length xs) = wr m p (a @ rev xs @ b)"
proof (induction "length xs" arbitrary: a xs b rule: less_induct)
  case less
  consider "length xs \<le> 1" | x ys z where "xs = x # ys @ [z]"
    by (cases xs; cases "tl xs" rule: rev_cases) auto
  then show ?case
  proof cases
    case 1
    then consider "xs = []" | x where "xs = [x]" by (cases xs) auto
    then show ?thesis
    proof cases
      case 1
      then show ?thesis by (subst rev_loop.simps) simp
    next
      case (2 x)
      let ?w = "wr m p (a @ [x] @ b)"
      have r: "?w (p + of_nat (length a)) = x" using less.prems 2 by (simp add: wr_read)
      have "?w(p + of_nat (length a) := x) = ?w" using r by (rule fun_upd_idem)
      then show ?thesis using 2 r by (subst rev_loop.simps) (simp add: Let_def rev_loop.simps[of _ p "Suc (length a)"])
    qed
  next
    case (2 x ys z)
    let ?l = "a @ xs @ b" and ?i = "length a"
    define j where "j = length a + Suc (length ys)"
    have i: "?i < length ?l" "j < length ?l" "?i + length xs - 1 = j" using 2 by (auto simp: j_def)
    have r: "wr m p ?l (p + of_nat ?i) = x" "wr m p ?l (p + of_nat j) = z"
      using less.prems i 2 wr_read[of ?i ?l m p] wr_read[of j ?l m p] by (simp_all add: nth_append j_def del: of_nat_add of_nat_Suc)
    have upd: "?l[?i := z, j := x] = (a @ [z]) @ ys @ ([x] @ b)"
      using 2 by (simp add: list_update_append j_def)
    have "rev_loop (wr m p ?l) p ?i (?i + length xs) = rev_loop (wr m p (?l[?i := z, j := x])) p (Suc ?i) j"
      using 2 r less.prems i by (subst rev_loop.simps) (simp add: Let_def wr_upd del: of_nat_add of_nat_Suc)
    also have "\<dots> = wr m p ((a @ [z]) @ rev ys @ ([x] @ b))"
      unfolding upd using less.hyps[of ys "a @ [z]" "[x] @ b"] less.prems 2 by (simp add: j_def)
    finally show ?thesis using 2 by simp
  qed
qed

lemma rev_loop_all:
  "length xs < 2 ^ 64 \<Longrightarrow> rev_loop (wr m p (xs @ [c])) p 0 (length xs) = wr m p (rev xs @ [c])"
  using rev_loop_wr[of "[]" xs "[c]" m p] by simp


lemma convert_tail:
  fixes tmp base :: "'a :: len word"
  assumes "2 \<le> unat base" "tmp \<noteq> 0" "LENGTH('a) \<le> 64"
  shows "Option.bind (digit_loop tmp base m dst 0) (\<lambda>(m, iter, len).
      let (m, iter, len) = (if neg then (m(iter := 45, iter + 1 := 0), iter + 1, len + 1) else (m, iter, len))
      in Some (dst, rev_loop m dst 0 len)) =
    Some (dst, wr m dst ((if neg then [45] else []) @ rev (chars (digits (unat base) (unat tmp))) @ [0]))"
proof -
  let ?ds = "digits (unat base) (unat tmp)"
  have "unat tmp < 2 ^ LENGTH('a)" by (rule unsigned_less)
  then have l: "length ?ds \<le> 64" using digits_length[OF assms(1)] assms(3) by (meson order.trans)
  have ne: "?ds \<noteq> []" using assms by (simp add: digits_eq_Nil unat_eq_0)
  have dl: "digit_loop tmp base m dst 0 = Some (wr m dst (chars ?ds @ [0]), dst + of_nat (length ?ds), length ?ds)"
    using digit_loop_wr[OF assms(1), of tmp m dst 0] ne l by (simp add: Let_def)
  have "(wr m dst (chars ?ds @ [0]))(dst + of_nat (length ?ds) := 45, dst + of_nat (length ?ds) + 1 := 0)
      = wr m dst ((chars ?ds @ [45]) @ [0])"
    using wr_upd[of "length ?ds" "chars ?ds @ [0]" m dst 45] wr_snoc[of "chars ?ds @ [45]" m dst 0] l
    by (simp add: list_update_append ac_simps)
  then show ?thesis
    using rev_loop_all[of "chars ?ds" m dst 0] rev_loop_all[of "chars ?ds @ [45]" m dst 0] l
    by (simp add: dl Let_def)
qed

definition num_str :: "nat \<Rightarrow> nat \<Rightarrow> u8 list" where
  "num_str b n = (if n = 0 then [48] else rev (chars (digits b n)))"

definition int_str :: "nat \<Rightarrow> 'a::len word \<Rightarrow> u8 list" where
  "int_str b v = (if b = 10 \<and> sint v < 0 then 45 # num_str 10 (nat (- sint v)) else num_str b (unat v))"

lemma unat_uminus_neg: "sint v < 0 \<Longrightarrow> unat (- v) = nat (- sint (v :: 'a :: len word))"
proof -
  assume n: "sint v < 0"
  have "- (2 ^ (LENGTH('a) - 1)) \<le> sint v" using sint_greater_eq[of v] by simp
  moreover have "(2 :: int) ^ (LENGTH('a) - 1) < 2 ^ LENGTH('a)" by (rule power_strict_increasing) auto
  ultimately have "take_bit LENGTH('a) (- sint v) = - sint v" using n unfolding take_bit_int_eq_self_iff by linarith
  moreover have "- v = word_of_int (- sint v)" by simp
  ultimately have "uint (- v) = - sint v" by (metis uint_word_of_int_eq)
  then show ?thesis by (metis unat_eq_nat_uint)
qed

lemma small_base:
  assumes "b \<le> 36"
  shows "unat (of_nat b :: 32 word) = b" "scast (of_nat b :: 32 word) = (of_nat b :: 64 word)"
    "unat (of_nat b :: 64 word) = b" "(of_nat b :: 32 word) = 10 \<longleftrightarrow> b = 10"
proof -
  show u: "unat (of_nat b :: 32 word) = b" "unat (of_nat b :: 64 word) = b"
    using assms by (simp_all add: unat_of_nat)
  show "(of_nat b :: 32 word) = 10 \<longleftrightarrow> b = 10" using u(1) by (auto simp: word_unat_eq_iff)
  have "sint (of_nat b :: 32 word) = int b"
    using assms by (simp add: sint_uint uint_nat u(1) signed_take_bit_int_eq_self)
  then show "scast (of_nat b :: 32 word) = (of_nat b :: 64 word)" by (simp add: scast_eq)
qed

lemma digit_char_unat:
  assumes "d < 36"
  shows "digit_char (of_nat d) = of_nat (if d < 10 then 48 + d else 87 + d)"
proof -
  have "sint (of_nat d :: u8) = int d"
    using assms by (simp add: sint_uint uint_nat unat_of_nat signed_take_bit_int_eq_self)
  then show ?thesis using assms by (auto simp: digit_char_def)
qed

lemma digit_char_nz: "d < 36 \<Longrightarrow> digit_char (of_nat d) \<noteq> 0"
  by (simp add: digit_char_unat word_unat_eq_iff unat_of_nat unat_add_lem[THEN iffD1] del: of_nat_add)

lemma int_str_props:
  assumes "2 \<le> b" "b \<le> 36"
  shows "0 \<notin> set (int_str b v)"
proof -
  have "0 \<notin> set (num_str b' n)" if "b' \<le> 36" for b' n
  proof -
    have "\<forall>d \<in> set (digits b' n). digit_char (of_nat d) \<noteq> 0"
      using digits_less[of _ b' n] \<open>b' \<le> 36\<close> by (metis digit_char_nz order_less_le_trans)
    then show ?thesis by (auto simp: num_str_def)
  qed
  then show ?thesis using assms by (simp add: int_str_def)
qed

lemma num_str_length: "2 \<le> b \<Longrightarrow> n < 2 ^ 64 \<Longrightarrow> length (num_str b n) \<le> 64"
  using digits_length[of b n 64] by (simp add: num_str_def)

lemma int_str_length: "2 \<le> b \<Longrightarrow> LENGTH('a) \<le> 64 \<Longrightarrow> length (int_str b (v :: 'a :: len word)) < 2 ^ 64"
proof -
  assume b: "2 \<le> b" and l: "LENGTH('a) \<le> 64"
  have u: "unat x < 2 ^ 64" for x :: "'a word"
    using unsigned_less[of x] power_increasing[OF l, of "2 :: nat"] by (meson order_less_le_trans one_le_numeral)
  show ?thesis using num_str_length[OF b u[of v]] num_str_length[of 10, OF _ u[of "- v"]] unat_uminus_neg[of v]
    by (auto simp: int_str_def)
qed

lemma itoa_wr:
  assumes "dst \<noteq> NULL" "2 \<le> b" "b \<le> 36"
  shows "itoa m v dst (of_nat b) = Some (dst, wr m dst (int_str b v @ [0]))"
proof -
  note sb = small_base[OF assms(3)]
  have b0: "(of_nat b :: 32 word) \<noteq> 0" using sb(1) assms(2) by (metis not_numeral_le_zero unat_0)
  have z: "m(dst := 48, dst + 1 := 0) = wr m dst [48, 0]"
    using wr_Cons[of "[0]" m dst 48] wr_Cons[of "[]" "m(dst := 48)" "dst + 1" 0] by simp
  show ?thesis
  proof (cases "v = 0")
    case True
    then show ?thesis using assms b0 z by (simp add: itoa_def int_str_def num_str_def)
  next
    case False
    let ?neg = "sint v < 0 \<and> (of_nat b :: 32 word) = 10"
    let ?t = "if ?neg then - v else v"
    have t: "?t \<noteq> 0" using False by simp
    have s: "(if ?neg then [45] else []) @ rev (chars (digits b (unat ?t))) = int_str b v"
      using sb(4) False t unat_uminus_neg[of v] by (auto simp: int_str_def num_str_def unat_eq_0)
    have "itoa m v dst (of_nat b) = Some (dst, wr m dst ((if ?neg then [45] else []) @ rev (chars (digits b (unat ?t))) @ [0]))"
      using convert_tail[of "of_nat b :: 32 word" ?t m dst ?neg] assms False b0 t sb(1)
      unfolding itoa_def Let_def by simp
    then show ?thesis using s by (metis append.assoc)
  qed
qed

lemma ltoa_wr:
  assumes "dst \<noteq> NULL" "2 \<le> b" "b \<le> 36"
  shows "ltoa m v dst (of_nat b) = Some (dst, wr m dst (int_str b v @ [0]))"
proof -
  note sb = small_base[OF assms(3)]
  have b0: "(of_nat b :: 32 word) \<noteq> 0" using sb(1) assms(2) by (metis not_numeral_le_zero unat_0)
  have z: "m(dst := 48, dst + 1 := 0) = wr m dst [48, 0]"
    using wr_Cons[of "[0]" m dst 48] wr_Cons[of "[]" "m(dst := 48)" "dst + 1" 0] by simp
  show ?thesis
  proof (cases "v = 0")
    case True
    then show ?thesis using assms b0 z by (simp add: ltoa_def int_str_def num_str_def)
  next
    case False
    let ?neg = "sint v < 0 \<and> (of_nat b :: 32 word) = 10"
    let ?t = "if ?neg then - v else v"
    have t: "?t \<noteq> 0" using False by simp
    have s: "(if ?neg then [45] else []) @ rev (chars (digits b (unat ?t))) = int_str b v"
      using sb(4) False t unat_uminus_neg[of v] by (auto simp: int_str_def num_str_def unat_eq_0)
    have "ltoa m v dst (of_nat b) = Some (dst, wr m dst ((if ?neg then [45] else []) @ rev (chars (digits b (unat ?t))) @ [0]))"
      using convert_tail[of "of_nat b :: 64 word" ?t m dst ?neg] assms False b0 t sb(2,3)
      unfolding ltoa_def Let_def by simp
    then show ?thesis using s by (metis append.assoc)
  qed
qed


section \<open>Reading hexadecimal numbers\<close>

definition hex_val :: "u8 \<Rightarrow> nat" where
  "hex_val c = (if 48 \<le> c \<and> c \<le> 57 then unat c - 48 else if 97 \<le> c \<and> c \<le> 102 then unat c - 87 else unat c - 55)"

definition is_hex :: "u8 \<Rightarrow> bool" where
  "is_hex c \<longleftrightarrow> 48 \<le> c \<and> c \<le> 57 \<or> 97 \<le> c \<and> c \<le> 102 \<or> 65 \<le> c \<and> c \<le> 70"

definition hex_value :: "u8 list \<Rightarrow> nat" where
  "hex_value s = foldl (\<lambda>a c. 16 * a + hex_val c) 0 s"

lemma hex_val_less: "is_hex c \<Longrightarrow> hex_val c < 16"
  by (auto simp: is_hex_def hex_val_def word_le_nat_alt)

lemma sint_ascii: "c < 128 \<Longrightarrow> sint (c :: u8) = int (unat c)"
proof -
  assume "c < 128"
  then have "uint c < 128" by (simp add: word_less_def)
  moreover have "0 \<le> uint c" by simp
  ultimately have "signed_take_bit 7 (uint c) = uint c" unfolding signed_take_bit_int_eq_self_iff by (auto intro: order_trans[of "- 128 :: int" 0])
  then have "sint c = uint c" by (simp add: sint_uint)
  then show ?thesis by simp
qed

lemma or_digit: "(d :: nat) < 16 \<Longrightarrow> push_bit 4 (x :: 32 word) OR of_nat d = push_bit 4 x + of_nat d"
proof -
  assume d: "d < 16"
  have "\<not> bit (of_nat d :: 32 word) n" if "4 \<le> n" for n
  proof -
    have "d < 2 ^ n" using d power_increasing[OF that, of "2 :: nat"] by simp
    then have "\<not> bit d n" by (simp add: bit_iff_odd)
    then show ?thesis by (simp add: bit_simps)
  qed
  then have "push_bit 4 x AND of_nat d = 0"
    by (intro bit_word_eqI) (auto simp: bit_simps not_le)
  then show ?thesis by (simp add: disjunctive_add_eq_or)
qed

lemma hex_step: "d < 16 \<Longrightarrow> push_bit 4 (of_nat (16 * k) OR of_nat d :: 32 word) = of_nat (16 * (16 * k + d))"
  using or_digit[of d "of_nat k"] by (simp add: push_bit_eq_mult algebra_simps)

lemma atoi_loop_step:
  assumes "is_hex (m p)"
  shows "atoi_loop m p v = atoi_loop m (p + 1) (push_bit 4 (v OR of_nat (hex_val (m p))))"
proof -
  have "m p < 128" using assms by (auto simp: is_hex_def word_le_nat_alt word_less_nat_alt)
  then obtain x where x: "sint (m p) = int x" "unat (m p) = x" using sint_ascii by blast
  have cmp: "(k \<le> m p) = (unat k \<le> x)" "(m p \<le> k) = (x \<le> unat k)" for k by (simp_all add: word_le_nat_alt x)
  have w: "word_of_int (int x - int k) = (of_nat (x - k) :: 32 word)" if "k \<le> x" for k
    using that by (simp add: of_nat_diff)
  have "48 \<le> x \<and> x \<le> 57 \<or> 97 \<le> x \<and> x \<le> 102 \<or> 65 \<le> x \<and> x \<le> 70" using assms by (simp add: is_hex_def cmp)
  then show ?thesis using w[of 48] w[of 87] w[of 55]
    by (subst atoi_loop.simps) (elim disjE; simp add: x hex_val_def cmp Let_def)
qed

lemma atoi_loop_hex:
  "cstr m p s \<Longrightarrow> \<forall>c \<in> set s. is_hex c \<Longrightarrow>
   atoi_loop m p (of_nat (16 * k)) = Some (signed_drop_bit 4 (of_nat (16 * foldl (\<lambda>a c. 16 * a + hex_val c) k s)))"
proof (induction s arbitrary: p k)
  case Nil
  then show ?case by (subst atoi_loop.simps) simp
next
  case (Cons c s)
  have "atoi_loop m p (of_nat (16 * k)) = atoi_loop m (p + 1) (of_nat (16 * (16 * k + hex_val c)))"
    using Cons.prems atoi_loop_step[of m p] hex_step[OF hex_val_less, of c k] by simp
  then show ?case using Cons.IH[of "p + 1" "16 * k + hex_val c"] Cons.prems by simp
qed

lemma atoi_hex: "cstr m p s \<Longrightarrow> \<forall>c \<in> set s. is_hex c \<Longrightarrow> atoi m p 16 = Some (signed_drop_bit 4 (of_nat (16 * hex_value s)))"
  using atoi_loop_hex[of m p s 0] by (simp add: atoi_def hex_value_def)

lemma shift_back:
  assumes "n < 2 ^ 27"
  shows "signed_drop_bit 4 (of_nat (16 * n) :: 32 word) = of_nat n"
proof -
  have s: "sint (of_nat k :: 32 word) = int k" if "k < 2 ^ 31" for k
    using that by (simp add: sint_uint uint_nat unat_of_nat signed_take_bit_int_eq_self)
  have "sint (signed_drop_bit 4 (of_nat (16 * n) :: 32 word)) = sint (of_nat n :: 32 word)"
    using assms s[of "16 * n"] s[of n] by (simp add: sint_signed_drop_bit_eq drop_bit_eq_div)
  then show ?thesis by (rule signed_word_eqI)
qed

lemma hex_digit: "d < 16 \<Longrightarrow> is_hex (digit_char (of_nat d)) \<and> hex_val (digit_char (of_nat d)) = d"
  by (auto simp: digit_char_unat is_hex_def hex_val_def word_le_nat_alt unat_of_nat simp del: of_nat_add)

lemma num_str_hex: "(\<forall>c \<in> set (num_str 16 n). is_hex c) \<and> hex_value (num_str 16 n) = n"
proof (cases "n = 0")
  case True
  then show ?thesis by (simp add: num_str_def hex_value_def is_hex_def hex_val_def)
next
  case False
  have d: "\<forall>d \<in> set (digits 16 n). is_hex (digit_char (of_nat d)) \<and> hex_val (digit_char (of_nat d)) = d"
    using hex_digit digits_less[of _ 16 n] by blast
  have "hex_value (num_str 16 n) = foldr (\<lambda>d a. 16 * a + hex_val (digit_char (of_nat d))) (digits 16 n) 0"
    using False by (simp add: hex_value_def num_str_def foldl_conv_foldr rev_map foldr_map comp_def)
  also have "\<dots> = foldr (\<lambda>d a. d + 16 * a) (digits 16 n) 0"
    using d by (intro foldr_cong) auto
  also have "\<dots> = n" by (rule digits_value) simp
  finally show ?thesis using False d by (simp add: num_str_def)
qed

section \<open>Properties\<close>

text \<open>
  For every base from 2 to 36 and every value, \<open>itoa\<close> and \<open>ltoa\<close> end and leave in \<open>dst\<close> the
  terminated numeral of the value: its digits most significant first, with a minus sign in front for a
  negative value in base ten (other bases print the unsigned value); no byte after the terminator changes.
\<close>

theorem itoa_ltoa_print:
  assumes "dst \<noteq> NULL" "2 \<le> b" "b \<le> 36"
  shows "(\<exists>m'. itoa m v dst (of_nat b) = Some (dst, m') \<and> cstr m' dst (int_str b v) \<and>
            (\<forall>a. length (int_str b v) < unat (a - dst) \<longrightarrow> m' a = m a)) \<and>
         (\<exists>m'. ltoa m w dst (of_nat b) = Some (dst, m') \<and> cstr m' dst (int_str b w) \<and>
            (\<forall>a. length (int_str b w) < unat (a - dst) \<longrightarrow> m' a = m a))"
proof -
  have "cstr (wr m dst (int_str b x @ [0])) dst (int_str b x) \<and>
      (\<forall>a. length (int_str b x) < unat (a - dst) \<longrightarrow> wr m dst (int_str b x @ [0]) a = m a)"
    if "LENGTH('a) \<le> 64" for x :: "'a :: len word"
    using cstr_wr[OF int_str_props[OF assms(2,3)] int_str_length[OF assms(2) that]] by (simp add: wr_def)
  from this[of v] this[of w] show ?thesis using itoa_wr[OF assms, of m v] ltoa_wr[OF assms, of m w] by simp
qed

theorem itoa_ltoa_print_witness:
  "\<exists>m'. itoa (\<lambda>_. 7) (- 42) 16 (of_nat 10) = Some (16, m') \<and> cstr m' 16 (str ''-42'')"
proof -
  have "int_str 10 (- 42 :: 32 word) = str ''-42''"
    by (simp add: int_str_def num_str_def digits.simps digit_char_def str_def of_char_def)
  then show ?thesis using itoa_ltoa_print[of 16 10 "\<lambda>_. 7" "- 42" 0] by auto
qed

text \<open>
  Printing a number in base 16 and reading it back gives the number for every value below \<open>2 ^ 27\<close>:
  \<open>itoa\<close> with base 16 followed by \<open>atoi\<close> with base 16 is the identity.
\<close>

theorem atoi_itoa_roundtrip:
  assumes "dst \<noteq> NULL" "v < 2 ^ 27"
  shows "\<exists>m'. itoa m v dst 16 = Some (dst, m') \<and> atoi m' dst 16 = Some v"
proof -
  have v: "unat v < 2 ^ 27" using assms(2) by (simp add: word_less_nat_alt)
  have l: "length (num_str 16 (unat v)) < 2 ^ 64" using num_str_length[of 16 "unat v"] v by simp
  have "cstr (wr m dst (num_str 16 (unat v) @ [0])) dst (num_str 16 (unat v))"
    using int_str_props[of 16 v] l by (intro cstr_wr) (simp_all add: int_str_def)
  then have "atoi (wr m dst (num_str 16 (unat v) @ [0])) dst 16 = Some v"
    using atoi_hex[of _ dst "num_str 16 (unat v)"] num_str_hex[of "unat v"] shift_back[OF v] by simp
  then show ?thesis using itoa_wr[of dst 16 m v] assms(1) by (simp add: int_str_def)
qed

theorem atoi_itoa_roundtrip_witness:
  "\<exists>m'. itoa (\<lambda>_. 0) 0xBEEF 16 16 = Some (16, m') \<and> atoi m' 16 16 = Some 0xBEEF"
  using atoi_itoa_roundtrip[of 16 "0xBEEF" "\<lambda>_. 0"] by simp

text \<open>
  The bound is real: \<open>atoi\<close> shifts the value left after every digit and back at the end, which loses the
  leading digit of an eight digit number.
\<close>

theorem atoi_loses_leading_digit: "cstr m p (str ''12345678'') \<Longrightarrow> atoi m p 16 = Some 0x02345678"
proof -
  assume c: "cstr m p (str ''12345678'')"
  have "hex_value (str ''12345678'') = 0x12345678" "\<forall>c \<in> set (str ''12345678''). is_hex c"
    by (simp_all add: hex_value_def hex_val_def is_hex_def str_def of_char_def)
  moreover have "signed_drop_bit 4 (of_nat (16 * 0x12345678) :: 32 word) = 0x02345678"
    by (rule signed_word_eqI) (simp add: sint_signed_drop_bit_eq drop_bit_eq_div)
  ultimately show ?thesis using atoi_hex[OF c] by simp
qed

end
