(* ===== verification/Alloc.thy ===== *)
theory Alloc
  imports Prelude
begin

text \<open>
  The interface between the memory allocators (\<^verbatim>\<open>kernel/src/bootstrap_alloc.c\<close> and
  \<^verbatim>\<open>modules/SysMemory/src/allocator.c\<close>) and the code that calls them.
\<close>

section \<open>The contract of an allocator\<close>

text \<open>
  What every client of \<^verbatim>\<open>malloc\<close> relies on. \<open>owns s bs\<close> relates a state of the allocator to the blocks it
  has handed out and not taken back; \<open>fits\<close> are the sizes a request may have in a state. The blocks of a state
  never overlap, and a request answers \<open>NULL\<close> or a new block of at least the size asked for.
\<close>

type_synonym block = "addr \<times> nat"

definition span_of :: "block \<Rightarrow> nat set" where
  "span_of b = {unat (fst b) ..< unat (fst b) + snd b}"

primrec disjoint_blocks :: "block list \<Rightarrow> bool" where
  "disjoint_blocks [] \<longleftrightarrow> True"
| "disjoint_blocks (b # bs) \<longleftrightarrow> (\<forall>c \<in> set bs. span_of b \<inter> span_of c = {}) \<and> disjoint_blocks bs"

primrec alloc_all :: "('s \<Rightarrow> u64 \<Rightarrow> (addr \<times> 's) res) \<Rightarrow> 's \<Rightarrow> u64 list \<Rightarrow> (addr list \<times> 's) res" where
  "alloc_all f s [] = Inr ([], s)"
| "alloc_all f s (n # ns) = bindE (f s n) (\<lambda>(p, s). bindE (alloc_all f s ns) (\<lambda>(ps, s). Inr (p # ps, s)))"

text \<open>Every request of a sequence fits in the state it finds.\<close>

primrec fit_all :: "('s \<Rightarrow> u64 \<Rightarrow> (addr \<times> 's) res) \<Rightarrow> ('s \<Rightarrow> u64 \<Rightarrow> bool) \<Rightarrow> 's \<Rightarrow> u64 list \<Rightarrow> bool" where
  "fit_all f fits s [] \<longleftrightarrow> True"
| "fit_all f fits s (n # ns) \<longleftrightarrow> fits s n \<and> (case f s n of Inl _ \<Rightarrow> True | Inr r \<Rightarrow> fit_all f fits (snd r) ns)"

lemma fit_all_const: "list_all P ns \<Longrightarrow> fit_all f (\<lambda>_. P) s ns"
  by (induction ns arbitrary: s) (auto split: sum.split)

lemma disjoint_blocks_append:
  "disjoint_blocks (as @ bs) \<longleftrightarrow> disjoint_blocks as \<and> disjoint_blocks bs \<and>
     (\<forall>a \<in> set as. \<forall>b \<in> set bs. span_of a \<inter> span_of b = {})"
  by (induction as) auto

lemma disjoint_blocks_rev: "disjoint_blocks (rev bs) \<longleftrightarrow> disjoint_blocks bs"
  by (induction bs) (auto simp: disjoint_blocks_append Int_commute)

locale allocator =
  fixes owns :: "'s \<Rightarrow> block list \<Rightarrow> bool" and alloc :: "'s \<Rightarrow> u64 \<Rightarrow> (addr \<times> 's) res" and fits :: "'s \<Rightarrow> u64 \<Rightarrow> bool"
  assumes owns_disjoint: "owns s bs \<Longrightarrow> disjoint_blocks bs"
    and alloc_owns: "owns s bs \<Longrightarrow> fits s n \<Longrightarrow> alloc s n = Inr (p, s') \<Longrightarrow>
      if p = NULL then owns s' bs else owns s' ((p, unat n) # bs)"
begin

lemma alloc_all_owns:
  "owns s bs \<Longrightarrow> fit_all alloc fits s ns \<Longrightarrow> alloc_all alloc s ns = Inr (ps, s') \<Longrightarrow> length ps = length ns \<and>
     owns s' (rev (filter (\<lambda>b. fst b \<noteq> NULL) (zip ps (map unat ns))) @ bs)"
proof (induction ns arbitrary: s bs ps)
  case Nil
  then show ?case by simp
next
  case (Cons n ns)
  obtain p s1 ps1 where 1: "alloc s n = Inr (p, s1)" "alloc_all alloc s1 ns = Inr (ps1, s')" "ps = p # ps1"
    using Cons.prems(3) by (auto simp: res_iff)
  define bs1 where "bs1 = (if p = NULL then bs else (p, unat n) # bs)"
  have "owns s1 bs1" using alloc_owns[OF Cons.prems(1) _ 1(1)] Cons.prems(2) by (simp add: bs1_def split: if_splits)
  then have "length ps1 = length ns" "owns s' (rev (filter (\<lambda>b. fst b \<noteq> NULL) (zip ps1 (map unat ns))) @ bs1)"
    using Cons.IH[OF _ _ 1(2)] Cons.prems(2) 1(1) by auto
  then show ?case using 1(3) by (auto simp: bs1_def split: if_splits)
qed

lemma alloc_all_disjoint:
  assumes "owns s bs" "fit_all alloc fits s ns" "alloc_all alloc s ns = Inr (ps, s')"
  shows "disjoint_blocks (filter (\<lambda>b. fst b \<noteq> NULL) (zip ps (map unat ns)) @ bs)"
  using owns_disjoint[of s'] alloc_all_owns[OF assms]
  by (force simp: disjoint_blocks_append disjoint_blocks_rev)

end

text \<open>An allocator whose requests are always answered, if only by \<open>NULL\<close>.\<close>

locale total_allocator = allocator +
  assumes alloc_returns: "owns s bs \<Longrightarrow> fits s n \<Longrightarrow> \<exists>p s'. alloc s n = Inr (p, s')"
begin

lemma alloc_all_returns:
  "owns s bs \<Longrightarrow> fit_all alloc fits s ns \<Longrightarrow> \<exists>ps s'. alloc_all alloc s ns = Inr (ps, s')"
proof (induction ns arbitrary: s bs)
  case Nil
  then show ?case by simp
next
  case (Cons n ns)
  then obtain p s1 where 1: "alloc s n = Inr (p, s1)" using alloc_returns[of s bs n] by auto
  have "owns s1 (if p = NULL then bs else (p, unat n) # bs)"
    using alloc_owns[OF Cons.prems(1) _ 1] Cons.prems(2) by (simp split: if_splits)
  moreover have "fit_all alloc fits s1 ns" using Cons.prems(2) 1 by simp
  ultimately obtain ps s2 where "alloc_all alloc s1 ns = Inr (ps, s2)" using Cons.IH by blast
  then show ?case using 1 by simp
qed

end

text \<open>An allocator that takes blocks back.\<close>

locale heap_allocator = allocator +
  fixes release :: "'a \<Rightarrow> addr \<Rightarrow> 'a res"
  assumes release_owns: "owns s bs \<Longrightarrow> b \<in> set bs \<Longrightarrow>
      \<exists>s'. release s (fst b) = Inr s' \<and> owns s' (filter (\<lambda>c. fst c \<noteq> fst b) bs)"
    and owns_distinct: "owns s bs \<Longrightarrow> distinct (map fst bs)"
begin

lemma alloc_release:
  assumes "owns s bs" "fits s n" "alloc s n = Inr (p, s1)" "p \<noteq> NULL"
  shows "\<exists>s2. release s1 p = Inr s2 \<and> owns s2 bs"
proof -
  have o: "owns s1 ((p, unat n) # bs)" using alloc_owns[OF assms(1-3)] assms(4) by simp
  then have "filter (\<lambda>c. fst c \<noteq> p) bs = bs" using owns_distinct[OF o] by (auto simp: filter_id_conv)
  then show ?thesis using release_owns[OF o, of "(p, unat n)"] by simp
qed

end

end
