(* ===== verification/BootAlloc.thy ===== *)
theory BootAlloc
  imports Alloc CMem
begin

text \<open>
  The kernel's bootstrap allocator, \<^verbatim>\<open>kernel/src/bootstrap_alloc.c\<close>: a bump allocator over a static
  area, the \<open>malloc\<close> and \<open>free\<close> built on it, and the switch to the allocator of a loaded module.

  What the code takes from elsewhere is an argument: the address the linker gives the area, the
  functions that the symbol table resolves \<^verbatim>\<open>"malloc"\<close> and \<^verbatim>\<open>"free"\<close> to (with the state they work on),
  and the virtual to physical translation used when the rest of the area is given away.
\<close>

section \<open>State\<close>

definition BOOTSTRAP_ALLOC_AREA_SIZE :: u64 where
  "BOOTSTRAP_ALLOC_AREA_SIZE = 128 * 1024 * 1024"

type_synonym 'h malloc_fn = "'h \<Rightarrow> u64 \<Rightarrow> (addr \<times> 'h) res"
type_synonym 'h free_fn = "'h \<Rightarrow> addr \<Rightarrow> 'h res"

record 'h bootstrap =
  bootstrap_alloc_area :: addr
  bootstrap_alloc_pos :: u64
  bootstrap_alloc_lock :: bool
  bmem :: mem
  malloc_hndl :: "'h malloc_fn option"
  free_hndl :: "'h free_fn option"
  module_state :: 'h

section \<open>Operations\<close>

definition round16 :: "u64 \<Rightarrow> u64" where
  "round16 s = (if s mod 16 \<noteq> 0 then push_bit 4 (drop_bit 4 s + 1) else s)"

definition bootstrap_malloc :: "'h bootstrap \<Rightarrow> u64 \<Rightarrow> (addr \<times> 'h bootstrap) res" where
  "bootstrap_malloc st s =
     (if s > 0 then
        (let s = round16 s in
         if bootstrap_alloc_lock st then Inl Deadlock
         else
           (let st = st\<lparr>bootstrap_alloc_lock := True\<rparr>;
                (mem, st) =
                  (if bootstrap_alloc_pos st + s < BOOTSTRAP_ALLOC_AREA_SIZE
                   then (bootstrap_alloc_area st + bootstrap_alloc_pos st,
                         st\<lparr>bootstrap_alloc_pos := bootstrap_alloc_pos st + s\<rparr>)
                   else (NULL, st))
            in Inr (mem, st\<lparr>bootstrap_alloc_lock := False\<rparr>)))
      else Inr (NULL, st))"

definition bootstrap_free :: "'h bootstrap \<Rightarrow> addr \<Rightarrow> u64 \<Rightarrow> 'h bootstrap res" where
  "bootstrap_free st mem s =
     (if mem = NULL then Inr st
      else if s = 0 then Inr st
      else
        (let s = round16 s in
         if bootstrap_alloc_lock st then Inl Deadlock
         else
           (let st = st\<lparr>bootstrap_alloc_lock := True\<rparr>;
                st = (if bootstrap_alloc_pos st > s \<and>
                         bootstrap_alloc_area st + (bootstrap_alloc_pos st - s) = mem
                      then st\<lparr>bootstrap_alloc_pos := bootstrap_alloc_pos st - s\<rparr> else st)
            in Inr (st\<lparr>bootstrap_alloc_lock := False\<rparr>))))"

text \<open>Reading back the eight bytes \<open>malloc\<close> stores in front of a block.\<close>

definition load64 :: "mem \<Rightarrow> addr \<Rightarrow> u64" where
  "load64 m p = ucast (m p) OR push_bit 8 (ucast (m (p + 1))) OR push_bit 16 (ucast (m (p + 2)))
     OR push_bit 24 (ucast (m (p + 3))) OR push_bit 32 (ucast (m (p + 4))) OR push_bit 40 (ucast (m (p + 5)))
     OR push_bit 48 (ucast (m (p + 6))) OR push_bit 56 (ucast (m (p + 7)))"

definition kmalloc :: "'h bootstrap \<Rightarrow> u64 \<Rightarrow> (addr \<times> 'h bootstrap) res" where
  "kmalloc st sz =
     (case malloc_hndl st of
        Some f \<Rightarrow> bindE (f (module_state st) sz) (\<lambda>(p, h). Inr (p, st\<lparr>module_state := h\<rparr>))
      | None \<Rightarrow>
          if sz = 0 then Inr (NULL, st)
          else bindE (bootstrap_malloc st (sz + 16)) (\<lambda>(res, st).
            if res = NULL then Inr (res, st)
            else Inr (res + 16, st\<lparr>bmem := store64 (bmem st) res sz\<rparr>)))"

definition kfree :: "'h bootstrap \<Rightarrow> addr \<Rightarrow> 'h bootstrap res" where
  "kfree st ptr =
     (case free_hndl st of
        Some f \<Rightarrow> bindE (f (module_state st) ptr) (\<lambda>h. Inr (st\<lparr>module_state := h\<rparr>))
      | None \<Rightarrow>
          if ptr = NULL then Inr st
          else bootstrap_free st ptr (load64 (bmem st) (ptr - 16) + 16))"

definition realloc :: "'h bootstrap \<Rightarrow> addr \<Rightarrow> u64 \<Rightarrow> (addr \<times> 'h bootstrap) res" where
  "realloc st ptr sz = Inl (Panic ''realloc unimplemented!'')"

text \<open>
  \<open>kernel_free_avl_bootstrap\<close> hands the unused pages of the area to the page allocator. It takes the
  lock and keeps it. \<open>virttophys\<close> and \<open>pagealloc_free\<close> are the resolved functions, \<open>'p\<close> the state the
  latter works on.
\<close>

definition kernel_free_avl_bootstrap ::
  "(addr \<Rightarrow> u64) \<Rightarrow> ('p \<Rightarrow> u64 \<Rightarrow> u64 \<Rightarrow> 'p res) \<Rightarrow> 'h bootstrap \<Rightarrow> 'p \<Rightarrow> ('h bootstrap \<times> 'p) res" where
  "kernel_free_avl_bootstrap virttophys pagealloc_free st p =
     (if bootstrap_alloc_lock st then Inl Deadlock
      else
        (let st = st\<lparr>bootstrap_alloc_lock := True\<rparr>;
             cur_ptr = bootstrap_alloc_pos st;
             cur_ptr = (if cur_ptr mod 4096 \<noteq> 0 then cur_ptr + (4096 - cur_ptr mod 4096) else cur_ptr);
             rem_sz = BOOTSTRAP_ALLOC_AREA_SIZE - cur_ptr
         in bindE (pagealloc_free p (virttophys (bootstrap_alloc_area st + cur_ptr)) rem_sz) (\<lambda>p.
              Inr (st, p))))"

text \<open>
  The symbol table answers with a function of a module, or with the kernel's own weak definition, in
  which case the handler stays unset.
\<close>

datatype 'f symbol = kernel_symbol | module_symbol 'f

definition kernel_updatememhandlers ::
  "'h malloc_fn symbol \<Rightarrow> 'h free_fn symbol \<Rightarrow> 'h bootstrap \<Rightarrow> int \<times> 'h bootstrap" where
  "kernel_updatememhandlers resolved_malloc resolved_free st =
     (0, st\<lparr>malloc_hndl := (case resolved_malloc of kernel_symbol \<Rightarrow> None | module_symbol f \<Rightarrow> Some f),
           free_hndl := (case resolved_free of kernel_symbol \<Rightarrow> None | module_symbol f \<Rightarrow> Some f)\<rparr>)"

section \<open>The bump allocator\<close>

lemma round16_nat: "(k + 15) div 16 * 16 = (if k mod 16 = 0 then k else (k div 16 + 1) * 16)" for k :: nat
proof -
  define q r where "q = k div 16" and "r = k mod 16"
  have k: "k = q * 16 + r" "r < 16" by (simp_all add: q_def r_def)
  have "(k + 15) div 16 = q + (r + 15) div 16" using k(1) by (simp add: add.assoc)
  moreover have "(r + 15) div 16 = (if r = 0 then 0 else 1)" using k(2) by (auto intro: div_nat_eqI)
  ultimately show ?thesis using k by (auto simp: q_def[symmetric] r_def[symmetric])
qed

lemma round16_unat:
  assumes "unat s \<le> 2 ^ 63"
  shows "unat (round16 s) = (unat s + 15) div 16 * 16"
proof -
  have d: "unat (drop_bit 4 s) = unat s div 16" by (simp add: drop_bit_eq_div unat_div)
  have "unat s div 16 < 2 ^ 59 + 1" using assms by simp
  then have e: "unat (drop_bit 4 s + 1) = unat s div 16 + 1" using d by (simp add: unat_word_ariths)
  have "(unat s div 16 + 1) * 16 < 2 ^ 64" using assms by simp
  then have "unat (push_bit 4 (drop_bit 4 s + 1)) = (unat s div 16 + 1) * 16"
    unfolding push_bit_eq_mult unat_word_ariths(2) e by simp
  moreover have "s mod 16 = 0 \<longleftrightarrow> unat s mod 16 = 0"
    by (simp add: word_unat_eq_iff unat_mod)
  ultimately show ?thesis unfolding round16_def round16_nat by simp
qed

definition boot_inv :: "'h bootstrap \<Rightarrow> bool" where
  "boot_inv st \<longleftrightarrow> \<not> bootstrap_alloc_lock st \<and> malloc_hndl st = None \<and> free_hndl st = None \<and>
     bootstrap_alloc_area st \<noteq> NULL \<and> unat (bootstrap_alloc_area st) mod 16 = 0 \<and>
     unat (bootstrap_alloc_area st) + unat BOOTSTRAP_ALLOC_AREA_SIZE \<le> 2 ^ 64 \<and>
     unat (bootstrap_alloc_pos st) mod 16 = 0 \<and> bootstrap_alloc_pos st < BOOTSTRAP_ALLOC_AREA_SIZE"

definition boot_owns :: "'h bootstrap \<Rightarrow> block list \<Rightarrow> bool" where
  "boot_owns st bs \<longleftrightarrow> boot_inv st \<and> disjoint_blocks bs \<and>
     (\<forall>b \<in> set bs. span_of b \<subseteq> {unat (bootstrap_alloc_area st) ..< unat (bootstrap_alloc_area st) + unat (bootstrap_alloc_pos st)})"

lemma area_size: "unat BOOTSTRAP_ALLOC_AREA_SIZE = 2 ^ 27"
  by (simp add: BOOTSTRAP_ALLOC_AREA_SIZE_def)

lemma kmalloc_size:
  assumes "unat sz < 2 ^ 62"
  defines "n \<equiv> (unat sz + 31) div 16 * 16"
  shows "unat (round16 (sz + 16)) = n" "16 + unat sz \<le> n" "n mod 16 = 0" "n < 2 ^ 63"
proof -
  have u: "unat (sz + 16) = unat sz + 16" using assms(1) by (simp add: unat_word_ariths)
  then show "unat (round16 (sz + 16)) = n" using round16_unat[of "sz + 16"] assms by (simp add: n_def add.assoc)
  have "(unat sz + 31) div 16 * 16 + (unat sz + 31) mod 16 = unat sz + 31" by (rule div_mult_mod_eq)
  moreover have "(unat sz + 31) mod 16 < 16" by simp
  ultimately show "16 + unat sz \<le> n" "n < 2 ^ 63" using assms by (simp_all add: n_def)
  show "n mod 16 = 0" by (simp add: n_def)
qed

lemma kmalloc_bump:
  assumes "boot_inv st" "sz \<noteq> 0" "unat sz < 2 ^ 62"
  shows "kmalloc st sz =
    (if unat (bootstrap_alloc_pos st) + unat (round16 (sz + 16)) < 2 ^ 27
     then Inr (bootstrap_alloc_area st + bootstrap_alloc_pos st + 16,
               st\<lparr>bootstrap_alloc_pos := bootstrap_alloc_pos st + round16 (sz + 16),
                  bmem := store64 (bmem st) (bootstrap_alloc_area st + bootstrap_alloc_pos st) sz\<rparr>)
     else Inr (NULL, st))"
proof -
  let ?pos = "bootstrap_alloc_pos st" and ?area = "bootstrap_alloc_area st" and ?n = "round16 (sz + 16)"
  have inv: "\<not> bootstrap_alloc_lock st" "malloc_hndl st = None" "?area \<noteq> NULL" "unat ?area + 2 ^ 27 \<le> 2 ^ 64" "unat ?pos < 2 ^ 27"
    using assms(1) by (auto simp: boot_inv_def area_size word_less_nat_alt)
  have u: "unat (sz + 16) = unat sz + 16" using assms(3) by (simp add: unat_word_ariths)
  then have nz: "0 < sz + 16" by (simp add: word_less_nat_alt)
  have p: "unat (?pos + ?n) = unat ?pos + unat ?n" using inv(5) kmalloc_size(1,4)[OF assms(3)] by (simp add: unat_word_ariths)
  have a: "unat (?area + ?pos) = unat ?area + unat ?pos" using inv(4,5) by (simp add: unat_word_ariths)
  then have "?area + ?pos \<noteq> NULL" using inv(3) by (metis add_is_0 unat_0 unat_eq_0)
  then show ?thesis using inv assms(2) nz p
    by (simp add: kmalloc_def bootstrap_malloc_def Let_def word_less_nat_alt area_size)
qed

lemma boot_owns_kmalloc:
  assumes "boot_owns st bs" "sz \<noteq> 0" "unat sz < 2 ^ 62"
  shows "\<exists>p st'. kmalloc st sz = Inr (p, st') \<and> (if p = NULL then boot_owns st' bs else boot_owns st' ((p, unat sz) # bs))"
proof -
  let ?pos = "bootstrap_alloc_pos st" and ?area = "bootstrap_alloc_area st" and ?n = "round16 (sz + 16)"
  have inv: "boot_inv st" using assms(1) by (simp add: boot_owns_def)
  then have r: "unat ?area + 2 ^ 27 \<le> 2 ^ 64" "unat ?pos < 2 ^ 27" "unat ?pos mod 16 = 0"
    by (auto simp: boot_inv_def area_size word_less_nat_alt)
  note n = kmalloc_size[OF assms(3)] and run = kmalloc_bump[OF inv assms(2,3)]
  show ?thesis
  proof (cases "unat ?pos + unat ?n < 2 ^ 27")
    case False
    then show ?thesis using run assms(1) by auto
  next
    case True
    let ?st = "st\<lparr>bootstrap_alloc_pos := ?pos + ?n, bmem := store64 (bmem st) (?area + ?pos) sz\<rparr>"
    have p: "unat (?pos + ?n) = unat ?pos + unat ?n" using True by (simp add: unat_word_ariths)
    have a: "unat (?area + ?pos + 16) = unat ?area + unat ?pos + 16"
      using r True n by (simp add: unat_word_ariths)
    then have ne: "?area + ?pos + 16 \<noteq> NULL" by (metis add_is_0 unat_0 zero_neq_numeral)
    have i: "boot_inv ?st" using inv True p r(3) n(1,3) by (simp add: boot_inv_def area_size word_less_nat_alt mod_add_eq[symmetric])
    have sp: "span_of (?area + ?pos + 16, unat sz) \<subseteq> {unat ?area + unat ?pos ..< unat ?area + (unat ?pos + unat ?n)}"
      using n(1,2) by (auto simp: span_of_def a)
    have "boot_owns ?st ((?area + ?pos + 16, unat sz) # bs)"
      using assms(1) i sp p unfolding boot_owns_def by fastforce
    then show ?thesis using run True ne by simp
  qed
qed

interpretation boot: total_allocator boot_owns kmalloc "\<lambda>_ n. n \<noteq> 0 \<and> unat n < 2 ^ 62"
proof
  fix s :: "'h bootstrap" and bs and n :: u64 and p s'
  show "disjoint_blocks bs" if "boot_owns s bs" using that by (simp add: boot_owns_def)
  assume a: "boot_owns s bs" "n \<noteq> 0 \<and> unat n < 2 ^ 62"
  then show "\<exists>p s'. kmalloc s n = Inr (p, s')" using boot_owns_kmalloc[OF a(1)] by blast
  show "if p = NULL then boot_owns s' bs else boot_owns s' ((p, unat n) # bs)" if "kmalloc s n = Inr (p, s')"
    using boot_owns_kmalloc[OF a(1), of n] a(2) that by auto
qed

lemma bit_byte:
  "bit (push_bit k (ucast (ucast (drop_bit k v) :: u8) :: u64)) n \<longleftrightarrow> k \<le> n \<and> n < k + 8 \<and> bit (v :: u64) n"
  by (auto simp: bit_simps dest: bit_imp_le_length)

lemma load64_store64 [simp]: "load64 (store64 m p v) p = v"
proof (rule bit_word_eqI)
  fix n assume n: "n < LENGTH(64)"
  have "load64 (store64 m p v) p = push_bit 0 (ucast (ucast (drop_bit 0 v) :: u8)) OR
      push_bit 8 (ucast (ucast (drop_bit 8 v) :: u8)) OR push_bit 16 (ucast (ucast (drop_bit 16 v) :: u8)) OR
      push_bit 24 (ucast (ucast (drop_bit 24 v) :: u8)) OR push_bit 32 (ucast (ucast (drop_bit 32 v) :: u8)) OR
      push_bit 40 (ucast (ucast (drop_bit 40 v) :: u8)) OR push_bit 48 (ucast (ucast (drop_bit 48 v) :: u8)) OR
      push_bit 56 (ucast (ucast (drop_bit 56 v) :: u8))"
    by (simp add: load64_def store64_def)
  then show "bit (load64 (store64 m p v) p) n = bit v n"
    using n by (simp only: bit_or_iff bit_byte) auto
qed

section \<open>Properties\<close>

definition ex_boot :: "unit bootstrap" where
  "ex_boot = \<lparr>bootstrap_alloc_area = 0xFFFF800000200000, bootstrap_alloc_pos = 0, bootstrap_alloc_lock = False,
     bmem = (\<lambda>_. 0), malloc_hndl = None, free_hndl = None, module_state = ()\<rparr>"

text \<open>
  From a fresh bootstrap area, any sequence of \<open>malloc\<close> requests (of fewer than \<open>2 ^ 62\<close> bytes each)
  is answered without a fault, the lock is free again afterwards, and the blocks handed out never
  overlap each other.
\<close>

theorem kmalloc_blocks_disjoint:
  assumes "boot_inv st" "\<forall>n \<in> set ns. n \<noteq> 0 \<and> unat n < 2 ^ 62"
  shows "\<exists>ps st'. alloc_all kmalloc st ns = Inr (ps, st') \<and> length ps = length ns \<and> boot_inv st' \<and>
    disjoint_blocks (filter (\<lambda>b. fst b \<noteq> NULL) (zip ps (map unat ns)))"
proof -
  have o: "boot_owns st []" using assms(1) by (simp add: boot_owns_def)
  have f: "fit_all kmalloc (\<lambda>_ n. n \<noteq> 0 \<and> unat n < 2 ^ 62) st ns" using assms(2) by (intro fit_all_const) (simp add: list_all_iff)
  obtain ps st' where r: "alloc_all kmalloc st ns = Inr (ps, st')" using boot.alloc_all_returns[OF o f] by blast
  then show ?thesis using boot.alloc_all_owns[OF o f r] boot.alloc_all_disjoint[OF o f r] by (auto simp: boot_owns_def)
qed

theorem kmalloc_blocks_disjoint_witness:
  "\<exists>ps st'. alloc_all kmalloc ex_boot [24, 8, 100] = Inr (ps, st') \<and> length ps = 3 \<and>
    disjoint_blocks (filter (\<lambda>b. fst b \<noteq> NULL) (zip ps [24, 8, 100]))"
  using kmalloc_blocks_disjoint[of ex_boot "[24, 8, 100]"]
  by (auto simp: boot_inv_def ex_boot_def BOOTSTRAP_ALLOC_AREA_SIZE_def)

text \<open>
  The size a block was allocated with can be read back from its header, but \<open>free\<close> never takes the
  block back, not even the one allocated last: it passes the address of the data, not of the header,
  to \<open>bootstrap_free\<close>, so the state after \<open>free\<close> is the state before it.
\<close>

theorem kfree_never_reclaims:
  assumes "boot_inv st" "sz \<noteq> 0" "unat sz < 2 ^ 62" "kmalloc st sz = Inr (p, st')" "p \<noteq> NULL"
  shows "load64 (bmem st') (p - 16) = sz \<and> kfree st' p = Inr st'"
proof -
  let ?pos = "bootstrap_alloc_pos st" and ?area = "bootstrap_alloc_area st" and ?n = "round16 (sz + 16)"
  have st': "p = ?area + ?pos + 16"
     "st' = st\<lparr>bootstrap_alloc_pos := ?pos + ?n, bmem := store64 (bmem st) (?area + ?pos) sz\<rparr>"
    using kmalloc_bump[OF assms(1-3)] assms(4,5) by (auto split: if_splits)
  have "load64 (bmem st') (p - 16) = sz" by (simp add: st')
  moreover have "free_hndl st' = None" "\<not> bootstrap_alloc_lock st'" using assms(1) by (simp_all add: st' boot_inv_def)
  ultimately show ?thesis using assms(5)
    by (simp add: kfree_def bootstrap_free_def Let_def st')
qed

theorem kfree_never_reclaims_witness:
  "\<exists>p st'. kmalloc ex_boot 24 = Inr (p, st') \<and> kfree st' p = Inr st'"
proof -
  have i: "boot_inv ex_boot" by (simp add: boot_inv_def ex_boot_def BOOTSTRAP_ALLOC_AREA_SIZE_def)
  have "kmalloc ex_boot 24 = Inr (0xFFFF800000200010, ex_boot\<lparr>bootstrap_alloc_pos := 48, bmem := store64 (\<lambda>_. 0) 0xFFFF800000200000 24\<rparr>)"
    by (simp add: kmalloc_def bootstrap_malloc_def round16_def ex_boot_def BOOTSTRAP_ALLOC_AREA_SIZE_def drop_bit_eq_div push_bit_eq_mult)
  then show ?thesis using kfree_never_reclaims[OF i, of 24] by auto
qed

text \<open>
  The space check of \<open>bootstrap_malloc\<close> adds without regard to overflow: a request of \<open>2 ^ 64 - 16\<close>
  bytes succeeds and moves the allocation position back over the block allocated before it.
\<close>

theorem bootstrap_malloc_wraps:
  assumes "boot_inv st" "16 \<le> bootstrap_alloc_pos st"
  shows "bootstrap_malloc st (- 16) =
    Inr (bootstrap_alloc_area st + bootstrap_alloc_pos st, st\<lparr>bootstrap_alloc_pos := bootstrap_alloc_pos st - 16\<rparr>)"
proof -
  let ?pos = "bootstrap_alloc_pos st"
  have "?pos - 16 \<le> ?pos" using assms(2) by (simp add: word_sub_le)
  then have "?pos - 16 < BOOTSTRAP_ALLOC_AREA_SIZE" using assms(1) by (auto simp: boot_inv_def)
  moreover have "round16 (- 16) = - 16" by (simp add: round16_def word_mod_def)
  moreover have "(0 :: u64) < - 16" by (simp add: word_neq_0_conv[symmetric])
  ultimately show ?thesis using assms(1) by (simp add: bootstrap_malloc_def boot_inv_def Let_def)
qed

end
