(* ===== verification/Malloc.thy ===== *)
theory Malloc
  imports Alloc
begin

text \<open>
  The kernel heap of \<^verbatim>\<open>modules/SysMemory/src/allocator.c\<close>: a linked list of memory nodes, each a header
  of 16 bytes followed by its data, searched for the best fit and split on allocation.

  New nodes are made of pages: \<open>pages\<close> stands for
  \<^verbatim>\<open>vmem_phystovirt(pagealloc_alloc(0, 0, physmem_alloc_flags_data, n), n, ...)\<close>, with \<open>'p\<close> the state of the
  page allocator. \<open>interrupts\<close> is the interrupt flag that \<^verbatim>\<open>cli\<close> clears and \<^verbatim>\<open>sti\<close> restores.
\<close>

section \<open>State\<close>

record mem_node =
  "next" :: addr
  len :: u32
  isFree :: bool

record 'p malloc_state =
  nodes :: "mem_node heap"
  root :: addr
  node_cnt :: u32
  interrupts :: bool
  page_state :: 'p

type_synonym 'p page_source = "'p \<Rightarrow> u64 \<Rightarrow> (addr \<times> 'p) res"

abbreviation header :: u64 where
  "header \<equiv> 16"

section \<open>Operations\<close>

text \<open>
  The search for the smallest free node of at least \<open>sz\<close> bytes. The walk visits every node once, so
  one step per cell of the heap is enough for a list that ends.
\<close>

fun best_fit :: "mem_node heap \<Rightarrow> nat \<Rightarrow> addr \<Rightarrow> addr \<Rightarrow> u64 \<Rightarrow> addr res" where
  "best_fit h fuel iter best sz =
     (if iter = NULL then Inr best
      else case fuel of
        0 \<Rightarrow> Inl Diverge
      | Suc fuel \<Rightarrow> bindE (hget h iter) (\<lambda>n.
          bindE (if isFree n \<and> ucast (len n) \<ge> sz then
                   (if best \<noteq> NULL then
                      bindE (hget h best) (\<lambda>b. Inr (if len n < len b then iter else best))
                    else Inr iter)
                 else Inr best) (\<lambda>best.
            best_fit h fuel (next n) best sz)))"

declare best_fit.simps [simp del]

text \<open>A fresh run of pages becomes a node behind the root, or the root of an empty list.\<close>

definition new_pages :: "'p page_source \<Rightarrow> 'p malloc_state \<Rightarrow> u64 \<Rightarrow> (addr \<times> 'p malloc_state) res" where
  "new_pages pages st sz =
     (let alloc_sz = sz + header;
          alloc_sz = (if alloc_sz mod 4096 \<noteq> 0 then alloc_sz + (4096 - alloc_sz mod 4096) else alloc_sz)
      in bindE (pages (page_state st) alloc_sz) (\<lambda>(n_node, p).
           let h = hput (nodes st) n_node \<lparr>next = NULL, len = ucast (alloc_sz - header), isFree = False\<rparr>;
               st = st\<lparr>page_state := p, node_cnt := node_cnt st + 1\<rparr>
           in if root st = NULL then Inr (n_node, st\<lparr>nodes := h, root := n_node\<rparr>)
              else bindE (hget h (root st)) (\<lambda>r.
                   bindE (hset h n_node (\<lambda>n. n\<lparr>next := next r\<rparr>)) (\<lambda>h.
                   bindE (hset h (root st) (\<lambda>r. r\<lparr>next := n_node\<rparr>)) (\<lambda>h.
                     Inr (n_node, st\<lparr>nodes := h\<rparr>))))))"

text \<open>What is left of the chosen node becomes a free node when it can hold a header and some data.\<close>

definition split_node :: "'p malloc_state \<Rightarrow> addr \<Rightarrow> u64 \<Rightarrow> 'p malloc_state res" where
  "split_node st best sz =
     bindE (hget (nodes st) best) (\<lambda>b.
       if ucast (len b) > sz + header then
         (let n_node = best + header + sz;
              h = hput (nodes st) n_node
                    \<lparr>next = next b, len = ucast (ucast (len b) - sz - header :: u64), isFree = True\<rparr>
          in bindE (hset h best (\<lambda>b. b\<lparr>next := n_node, len := ucast sz\<rparr>)) (\<lambda>h.
               Inr (st\<lparr>nodes := h, node_cnt := node_cnt st + 1\<rparr>)))
       else Inr st)"

definition malloc :: "'p page_source \<Rightarrow> 'p malloc_state \<Rightarrow> u64 \<Rightarrow> (addr \<times> 'p malloc_state) res" where
  "malloc pages st sz =
     (if sz = 0 then Inr (NULL, st)
      else
        (let cli_state = interrupts st;
             st = st\<lparr>interrupts := False\<rparr>;
             sz = (if sz mod 8 \<noteq> 0 then sz + (8 - sz mod 8) else sz)
         in bindE (best_fit (nodes st) (length (cells (nodes st))) (root st) NULL sz) (\<lambda>best.
            bindE (if best = NULL then new_pages pages st sz else Inr (best, st)) (\<lambda>(best, st).
            bindE (split_node st best sz) (\<lambda>st.
            bindE (hset (nodes st) best (\<lambda>b. b\<lparr>isFree := False\<rparr>)) (\<lambda>h.
              Inr (best + header, st\<lparr>nodes := h, interrupts := cli_state\<rparr>)))))))"

definition mem_compact :: "'p malloc_state \<Rightarrow> 'p malloc_state" where
  "mem_compact st = st"

definition free :: "'p malloc_state \<Rightarrow> addr \<Rightarrow> 'p malloc_state res" where
  "free st sz =
     (if sz = NULL then Inr st
      else
        (let cli_state = interrupts st;
             st = st\<lparr>interrupts := False\<rparr>;
             desc = sz - header
         in bindE (hget (nodes st) desc) (\<lambda>d.
              if isFree d then Inl (Panic ''Double free detected.'')
              else bindE (hset (nodes st) desc (\<lambda>d. d\<lparr>isFree := True\<rparr>)) (\<lambda>h.
                let st = st\<lparr>nodes := h\<rparr>;
                    st = (if node_cnt st \<ge> 512 then mem_compact st else st)
                in Inr (st\<lparr>interrupts := cli_state\<rparr>)))))"

section \<open>The list of nodes\<close>

text \<open>
  The contents of the list as data: address, length and free flag of each node, in order.
\<close>

type_synonym region = "addr \<times> u32 \<times> bool"

primrec chain :: "(addr \<Rightarrow> mem_node option) \<Rightarrow> addr \<Rightarrow> region list \<Rightarrow> addr \<Rightarrow> bool" where
  "chain m p [] q \<longleftrightarrow> p = q"
| "chain m p (r # rs) q \<longleftrightarrow> p = fst r \<and> fst r \<noteq> NULL \<and>
     (\<exists>nx. m (fst r) = Some \<lparr>next = nx, len = fst (snd r), isFree = snd (snd r)\<rparr> \<and> chain m nx rs q)"

abbreviation block_of :: "region \<Rightarrow> block" where
  "block_of r \<equiv> (fst r, 16 + unat (fst (snd r)))"

definition regions_ok :: "region list \<Rightarrow> bool" where
  "regions_ok rs \<longleftrightarrow> disjoint_blocks (map block_of rs) \<and> (\<forall>r \<in> set rs. unat (fst r) + 16 + unat (fst (snd r)) \<le> 2 ^ 64)"

definition malloc_inv :: "'p malloc_state \<Rightarrow> region list \<Rightarrow> bool" where
  "malloc_inv st rs \<longleftrightarrow> chain (hmap (nodes st)) (root st) rs NULL \<and> regions_ok rs"

lemma chain_append: "chain m p (as @ bs) q \<longleftrightarrow> (\<exists>r. chain m p as r \<and> chain m r bs q)"
  by (induction as arbitrary: p) auto

lemma chain_upd: "a \<notin> fst ` set rs \<Longrightarrow> chain (m(a := v)) p rs q = chain m p rs q"
  by (induction rs arbitrary: p) auto

lemma chain_path: "chain m p rs q \<Longrightarrow> path next m p (map fst rs) q"
  by (induction rs arbitrary: p) auto

lemma chain_length: "chain (hmap h) p rs NULL \<Longrightarrow> length rs \<le> length (cells h)"
  using path_length[OF chain_path] by fastforce

lemma chain_mem: "chain m p rs q \<Longrightarrow> r \<in> set rs \<Longrightarrow>
   fst r \<noteq> NULL \<and> (\<exists>nx. m (fst r) = Some \<lparr>next = nx, len = fst (snd r), isFree = snd (snd r)\<rparr>)"
  by (induction rs arbitrary: p) auto

lemma block_self: "unat (fst r) \<in> span_of (block_of r)"
  by (simp add: span_of_def)

lemma regions_distinct: "regions_ok rs \<Longrightarrow> distinct (map fst rs)"
proof (induction rs)
  case Nil
  then show ?case by simp
next
  case (Cons r rs)
  have "fst r \<notin> fst ` set rs"
  proof
    assume "fst r \<in> fst ` set rs"
    then obtain s where s: "s \<in> set rs" "fst s = fst r" by auto
    have "span_of (block_of r) \<inter> span_of (block_of s) = {}" using Cons.prems s(1) by (auto simp: regions_ok_def)
    then show False using block_self[of r] block_self[of s] s(2) by auto
  qed
  then show ?case using Cons by (auto simp: regions_ok_def)
qed

lemma unat_up [simp]: "unat (ucast (l :: u32) :: u64) = unat l"
  by (simp add: unsigned_ucast_eq take_bit_nat_eq_self_iff order_less_trans[OF unsigned_less])

lemma unat_down: "unat x < 2 ^ 32 \<Longrightarrow> unat (ucast (x :: u64) :: u32) = unat x"
  by (simp add: unsigned_ucast_eq take_bit_nat_eq_self_iff)

section \<open>The search\<close>

definition candidate :: "u64 \<Rightarrow> region \<Rightarrow> bool" where
  "candidate sz r \<longleftrightarrow> snd (snd r) \<and> unat sz \<le> unat (fst (snd r))"

text \<open>What the search answers: the first smallest region among the candidates.\<close>

fun pick :: "u64 \<Rightarrow> region option \<Rightarrow> region list \<Rightarrow> region option" where
  "pick sz best [] = best"
| "pick sz best (r # rs) = pick sz
     (if candidate sz r \<and> (case best of None \<Rightarrow> True | Some b \<Rightarrow> fst (snd r) < fst (snd b)) then Some r else best) rs"

lemma best_fit_pick:
  "chain (hmap h) iter rs NULL \<Longrightarrow> length rs \<le> fuel \<Longrightarrow>
   (\<And>b. best = Some b \<Longrightarrow> fst b \<noteq> NULL \<and> (\<exists>nx. hmap h (fst b) = Some \<lparr>next = nx, len = fst (snd b), isFree = snd (snd b)\<rparr>)) \<Longrightarrow>
   best_fit h fuel iter (case best of None \<Rightarrow> NULL | Some b \<Rightarrow> fst b) sz =
   Inr (case pick sz best rs of None \<Rightarrow> NULL | Some b \<Rightarrow> fst b)"
proof (induction rs arbitrary: iter fuel best)
  case Nil
  then show ?case by (simp add: best_fit.simps)
next
  case (Cons r rs)
  obtain nx where r: "iter = fst r" "fst r \<noteq> NULL" "hmap h (fst r) = Some \<lparr>next = nx, len = fst (snd r), isFree = snd (snd r)\<rparr>"
      "chain (hmap h) nx rs NULL" using Cons.prems(1) by auto
  obtain f where f: "fuel = Suc f" "length rs \<le> f" using Cons.prems(2) by (cases fuel) auto
  define b' where "b' = (if candidate sz r \<and> (case best of None \<Rightarrow> True | Some b \<Rightarrow> fst (snd r) < fst (snd b)) then Some r else best)"
  have c: "isFree n \<and> ucast (len n) \<ge> sz \<longleftrightarrow> candidate sz r" if "n = \<lparr>next = nx, len = fst (snd r), isFree = snd (snd r)\<rparr>" for n
    using that by (simp add: candidate_def word_le_nat_alt)
  have "best_fit h fuel iter (case best of None \<Rightarrow> NULL | Some b \<Rightarrow> fst b) sz =
      best_fit h f nx (case b' of None \<Rightarrow> NULL | Some b \<Rightarrow> fst b) sz"
    using r f Cons.prems(3) c
    by (subst best_fit.simps) (auto simp: b'_def split: option.splits)
  also have "\<dots> = Inr (case pick sz b' rs of None \<Rightarrow> NULL | Some b \<Rightarrow> fst b)"
    using r Cons.prems(3) by (intro Cons.IH[OF r(4) f(2)]) (auto simp: b'_def split: if_splits)
  finally show ?case by (simp add: b'_def)
qed

lemma pick_best:
  "(\<And>b. best = Some b \<Longrightarrow> candidate sz b) \<Longrightarrow> pick sz best rs = Some r \<Longrightarrow>
   (r \<in> set rs \<or> best = Some r) \<and> candidate sz r \<and>
   (\<forall>s \<in> set rs \<union> set_option best. candidate sz s \<longrightarrow> fst (snd r) \<le> fst (snd s))"
proof (induction rs arbitrary: best)
  case Nil
  then show ?case by simp
next
  case (Cons s rs)
  let ?b = "if candidate sz s \<and> (case best of None \<Rightarrow> True | Some b \<Rightarrow> fst (snd s) < fst (snd b)) then Some s else best"
  have c: "\<And>b. ?b = Some b \<Longrightarrow> candidate sz b" using Cons.prems(1) by (auto split: if_splits)
  have "pick sz ?b rs = Some r" using Cons.prems(2) by simp
  from Cons.IH[OF c this] show ?case using Cons.prems(1)
    by (auto split: if_splits option.splits)
qed

lemma pick_None: "pick sz best rs = None \<longleftrightarrow> best = None \<and> (\<forall>r \<in> set rs. \<not> candidate sz r)"
  by (induction rs arbitrary: best) (auto split: option.splits)


section \<open>Splitting, extending and marking\<close>

text \<open>The regions a request of \<open>sz\<close> bytes makes of the region it is served from.\<close>

definition cut_region :: "u64 \<Rightarrow> bool \<Rightarrow> region \<Rightarrow> region list" where
  "cut_region sz f r = (let (a, l, _) = r in
     if unat sz + 16 < unat l
     then [(a, ucast sz, f), (a + header + sz, ucast (ucast l - sz - header :: u64), True)]
     else [(a, l, f)])"

lemma regions_ok_append:
  "regions_ok (as @ bs) \<longleftrightarrow> regions_ok as \<and> regions_ok bs \<and>
     (\<forall>a \<in> set as. \<forall>b \<in> set bs. span_of (block_of a) \<inter> span_of (block_of b) = {})"
  by (auto simp: regions_ok_def disjoint_blocks_append)

lemma regions_ok_Cons:
  "regions_ok (r # rs) \<longleftrightarrow> regions_ok [r] \<and> regions_ok rs \<and>
     (\<forall>b \<in> set rs. span_of (block_of r) \<inter> span_of (block_of b) = {})"
  using regions_ok_append[of "[r]" rs] by simp

lemma cut_parts:
  fixes a sz :: u64 and l :: u32
  assumes "unat sz + 16 < unat l" "unat a + 16 + unat l \<le> 2 ^ 64"
  shows "unat (a + header + sz) = unat a + 16 + unat sz" "unat (ucast sz :: u32) = unat sz"
    "unat (ucast (ucast l - sz - header :: u64) :: u32) = unat l - unat sz - 16"
proof -
  have l: "unat l < 2 ^ 32" using unsigned_less[of l] by simp
  show "unat (a + header + sz) = unat a + 16 + unat sz" using assms by (simp add: unat_word_ariths)
  show "unat (ucast sz :: u32) = unat sz" using assms l by (intro unat_down) simp
  have 1: "unat (ucast l - sz :: u64) = unat l - unat sz" using assms by (simp add: unat_sub word_le_nat_alt)
  have "unat (ucast l - sz - header :: u64) = unat l - unat sz - 16"
    using assms 1 by (subst unat_sub) (simp_all add: word_le_nat_alt)
  then show "unat (ucast (ucast l - sz - header :: u64) :: u32) = unat l - unat sz - 16"
    using l by (subst unat_down) simp_all
qed

lemma cut_spans:
  assumes "unat (fst r) + 16 + unat (fst (snd r)) \<le> 2 ^ 64"
  shows "regions_ok (cut_region sz f r)" "\<And>x. x \<in> set (cut_region sz f r) \<Longrightarrow> span_of (block_of x) \<subseteq> span_of (block_of r)"
proof -
  obtain a l g where r: "r = (a, l, g)" by (cases r)
  have "regions_ok (cut_region sz f r) \<and> (\<forall>x \<in> set (cut_region sz f r). span_of (block_of x) \<subseteq> span_of (block_of r))"
  proof (cases "unat sz + 16 < unat l")
    case True
    note c = cut_parts[OF True, of a]
    show ?thesis using True assms c by (auto simp: cut_region_def r regions_ok_def span_of_def)
  next
    case False
    then show ?thesis using assms by (simp add: cut_region_def r regions_ok_def)
  qed
  then show "regions_ok (cut_region sz f r)" "\<And>x. x \<in> set (cut_region sz f r) \<Longrightarrow> span_of (block_of x) \<subseteq> span_of (block_of r)" by blast+
qed

lemma regions_ok_cut:
  assumes "regions_ok (as @ r # bs)"
  shows "regions_ok (as @ cut_region sz f r @ bs)"
proof -
  have r: "unat (fst r) + 16 + unat (fst (snd r)) \<le> 2 ^ 64" using assms by (simp add: regions_ok_def)
  note c = cut_spans[OF r]
  have "regions_ok (as @ [r] @ bs)" using assms by simp
  then show ?thesis using c(1)[of sz f] c(2)[of _ sz f] unfolding regions_ok_append by (simp, blast)
qed

lemma split_node_cut:
  assumes "malloc_inv st (as @ r # bs)" "unat sz < 2 ^ 63"
  shows "\<exists>h k. split_node st (fst r) sz = Inr (st\<lparr>nodes := h, node_cnt := k\<rparr>) \<and>
    malloc_inv (st\<lparr>nodes := h, node_cnt := k\<rparr>) (as @ cut_region sz (snd (snd r)) r @ bs)"
proof -
  obtain a l f where r: "r = (a, l, f)" by (cases r)
  let ?m = "hmap (nodes st)"
  have ch: "chain ?m (root st) (as @ r # bs) NULL" and ok: "regions_ok (as @ r # bs)"
    using assms(1) by (auto simp: malloc_inv_def)
  obtain nx where c: "chain ?m (root st) as a" "a \<noteq> NULL" "?m a = Some \<lparr>next = nx, len = l, isFree = f\<rparr>" "chain ?m nx bs NULL"
    using ch by (auto simp: chain_append r)
  have ok': "regions_ok (as @ cut_region sz f r @ bs)" using ok by (rule regions_ok_cut)
  have "unat (sz + header) = unat sz + 16" using assms(2) by (simp add: unat_word_ariths)
  then have gt: "ucast l > sz + header \<longleftrightarrow> unat sz + 16 < unat l" by (simp add: word_less_nat_alt)
  have ad: "a \<notin> fst ` set as" "a \<notin> fst ` set bs" using regions_distinct[OF ok] by (auto simp: r)
  show ?thesis
  proof (cases "unat sz + 16 < unat l")
    case True
    have "unat a + 16 + unat l \<le> 2 ^ 64" using ok by (simp add: regions_ok_def r)
    note cp = cut_parts[OF True this]
    let ?a = "a + header + sz" and ?l = "ucast (ucast l - sz - header :: u64) :: u32"
    have cut: "cut_region sz f r = [(a, ucast sz, f), (?a, ?l, True)]" using True by (simp add: cut_region_def r)
    have d: "distinct (map fst (as @ cut_region sz f r @ bs))" using regions_distinct[OF ok'] .
    then have ne: "?a \<noteq> a" "?a \<notin> fst ` set as" "?a \<notin> fst ` set bs" unfolding cut by auto
    have "?a \<noteq> NULL" using cp(1) by (metis add_is_0 unat_0 zero_neq_numeral)
    let ?h1 = "hput (nodes st) ?a \<lparr>next = nx, len = ?l, isFree = True\<rparr>"
    let ?h2 = "hput ?h1 a \<lparr>next = ?a, len = ucast sz, isFree = f\<rparr>"
    have "split_node st a sz = Inr (st\<lparr>nodes := ?h2, node_cnt := node_cnt st + 1\<rparr>)"
      using c ne(1) True gt by (simp add: split_node_def Let_def)
    moreover have "chain (hmap ?h2) (root st) (as @ cut_region sz f r @ bs) NULL"
      unfolding chain_append cut using c ad ne \<open>?a \<noteq> NULL\<close> by (auto simp: chain_upd)
    ultimately show ?thesis using ok' unfolding malloc_inv_def r
      by (intro exI[of _ ?h2] exI[of _ "node_cnt st + 1"]) simp
  next
    case False
    then have "split_node st a sz = Inr (st\<lparr>nodes := nodes st, node_cnt := node_cnt st\<rparr>)"
      using c gt by (simp add: split_node_def)
    moreover have "cut_region sz f r = [r]" using False by (simp add: cut_region_def r)
    ultimately show ?thesis using assms(1) unfolding r
      by (intro exI[of _ "nodes st"] exI[of _ "node_cnt st"]) simp
  qed
qed

lemma mark_used:
  assumes "malloc_inv st (as @ (a, l, f) # bs)"
  shows "\<exists>h. hset (nodes st) a (\<lambda>b. b\<lparr>isFree := g\<rparr>) = Inr h \<and> malloc_inv (st\<lparr>nodes := h\<rparr>) (as @ (a, l, g) # bs)"
proof -
  let ?m = "hmap (nodes st)"
  have ch: "chain ?m (root st) (as @ (a, l, f) # bs) NULL" and ok: "regions_ok (as @ (a, l, f) # bs)"
    using assms by (auto simp: malloc_inv_def)
  obtain nx where c: "chain ?m (root st) as a" "a \<noteq> NULL" "?m a = Some \<lparr>next = nx, len = l, isFree = f\<rparr>" "chain ?m nx bs NULL"
    using ch by (auto simp: chain_append)
  have "a \<notin> fst ` set as" "a \<notin> fst ` set bs" using regions_distinct[OF ok] by auto
  then have "chain (hmap (hput (nodes st) a \<lparr>next = nx, len = l, isFree = g\<rparr>)) (root st) (as @ (a, l, g) # bs) NULL"
    using c by (auto simp: chain_append chain_upd)
  moreover have "regions_ok (as @ (a, l, g) # bs)" using ok by (simp add: regions_ok_def disjoint_blocks_append)
  ultimately show ?thesis using c by (auto simp: malloc_inv_def)
qed

definition pages_for :: "u64 \<Rightarrow> u64" where
  "pages_for sz = (let x = sz + header in if x mod 4096 \<noteq> 0 then x + (4096 - x mod 4096) else x)"

lemma pages_for_unat:
  assumes "unat sz \<le> 2 ^ 31 + 8"
  shows "unat sz + 16 \<le> unat (pages_for sz)" "unat (pages_for sz) < unat sz + 16 + 4096" "unat (pages_for sz) mod 4096 = 0"
    "unat (ucast (pages_for sz - header) :: u32) = unat (pages_for sz) - 16"
proof -
  have u: "unat (sz + header) = unat sz + 16" using assms by (simp add: unat_word_ariths)
  have b: "unat (sz + header) + unat (4096 :: u64) \<le> 2 ^ 64" using assms u by simp
  note r = unat_round_up[OF _ b]
  show 1: "unat sz + 16 \<le> unat (pages_for sz)" "unat (pages_for sz) < unat sz + 16 + 4096" "unat (pages_for sz) mod 4096 = 0"
    using r u by (simp_all add: pages_for_def Let_def)
  have "unat (pages_for sz - header) = unat (pages_for sz) - 16" using 1(1) by (simp add: unat_sub word_le_nat_alt)
  then show "unat (ucast (pages_for sz - header) :: u32) = unat (pages_for sz) - 16"
    using 1(2) assms by (subst unat_down) simp_all
qed

text \<open>A run of pages becomes a node behind the first node, or alone.\<close>

lemma new_pages_chain:
  assumes inv: "malloc_inv st rs" and sz: "unat sz \<le> 2 ^ 31 + 8"
    and pg: "pages (page_state st) (pages_for sz) = Inr (n, p)"
    and fr: "n \<noteq> NULL" "unat n + unat (pages_for sz) \<le> 2 ^ 64"
      "\<forall>r \<in> set rs. {unat n ..< unat n + unat (pages_for sz)} \<inter> span_of (block_of r) = {}"
  defines "r \<equiv> (n, ucast (pages_for sz - header), False)"
  shows "\<exists>h k t. new_pages pages st sz = Inr (n, st\<lparr>nodes := h, node_cnt := k, root := t, page_state := p\<rparr>) \<and>
    malloc_inv (st\<lparr>nodes := h, node_cnt := k, root := t, page_state := p\<rparr>) (take 1 rs @ r # drop 1 rs)"
proof -
  let ?m = "hmap (nodes st)"
  note P = pages_for_unat[OF sz]
  have sp: "span_of (block_of r) = {unat n ..< unat n + unat (pages_for sz)}" using P(1,4) by (simp add: r_def span_of_def)
  have ch: "chain ?m (root st) rs NULL" and ok: "regions_ok rs" using inv by (auto simp: malloc_inv_def)
  have okr: "regions_ok [r]" using fr(2) P(1,4) by (simp add: regions_ok_def r_def)
  have "regions_ok (take 1 rs @ drop 1 rs)" using ok by simp
  then have ok': "regions_ok (take 1 rs @ r # drop 1 rs)" using okr fr(3) sp
    unfolding regions_ok_append regions_ok_Cons[of r "drop 1 rs"]
    by (auto simp: Int_commute dest: in_set_takeD in_set_dropD)
  have d: "n \<notin> fst ` set rs" using regions_distinct[OF ok'] by (cases rs) (auto simp: r_def)
  let ?l = "ucast (pages_for sz - header) :: u32"
  let ?h = "hput (nodes st) n \<lparr>next = NULL, len = ?l, isFree = False\<rparr>"
  show ?thesis
  proof (cases rs)
    case Nil
    then have "root st = NULL" using ch by simp
    then have "new_pages pages st sz = Inr (n, st\<lparr>nodes := ?h, node_cnt := node_cnt st + 1, root := n, page_state := p\<rparr>)"
      using pg by (simp add: new_pages_def pages_for_def Let_def)
    then show ?thesis using Nil ok' fr(1) unfolding malloc_inv_def
      by (intro exI[of _ ?h] exI[of _ "node_cnt st + 1"] exI[of _ n]) (simp add: r_def)
  next
    case (Cons x xs)
    obtain a l f where x: "x = (a, l, f)" by (cases x)
    obtain nx where c: "root st = a" "a \<noteq> NULL" "?m a = Some \<lparr>next = nx, len = l, isFree = f\<rparr>" "chain ?m nx xs NULL"
      using ch Cons x by auto
    have ne: "a \<noteq> n" "n \<notin> fst ` set xs" "a \<notin> fst ` set xs" using d regions_distinct[OF ok] by (auto simp: Cons x)
    let ?h2 = "hput (hput ?h n \<lparr>next = nx, len = ?l, isFree = False\<rparr>) a \<lparr>next = n, len = l, isFree = f\<rparr>"
    have "new_pages pages st sz = Inr (n, st\<lparr>nodes := ?h2, node_cnt := node_cnt st + 1, root := a, page_state := p\<rparr>)"
      using pg c ne fr(1) by (simp add: new_pages_def pages_for_def Let_def)
    moreover have "chain (hmap ?h2) a (x # r # xs) NULL"
      using c ne fr(1) by (auto simp: x r_def chain_upd)
    ultimately show ?thesis using ok' unfolding malloc_inv_def
      by (intro exI[of _ ?h2] exI[of _ "node_cnt st + 1"] exI[of _ a]) (simp add: Cons del: chain.simps hmap_hput)
  qed
qed


section \<open>Allocation and release\<close>

definition round8 :: "u64 \<Rightarrow> u64" where
  "round8 sz = (if sz mod 8 \<noteq> 0 then sz + (8 - sz mod 8) else sz)"

lemma round8_unat:
  assumes "unat sz \<le> 2 ^ 31"
  shows "unat sz \<le> unat (round8 sz)" "unat (round8 sz) \<le> 2 ^ 31 + 8" "unat (round8 sz) mod 8 = 0"
  using unat_round_up[of 8 sz] assms by (simp_all add: round8_def)

lemma malloc_tail:
  assumes "malloc_inv st (as @ r # bs)" "unat sz < 2 ^ 63"
  shows "\<exists>h k. bindE (split_node st (fst r) sz) (\<lambda>st. bindE (hset (nodes st) (fst r) (\<lambda>b. b\<lparr>isFree := False\<rparr>)) (\<lambda>h.
        Inr (fst r + header, st\<lparr>nodes := h, interrupts := i\<rparr>))) =
      Inr (fst r + header, st\<lparr>nodes := h, node_cnt := k, interrupts := i\<rparr>) \<and>
    malloc_inv (st\<lparr>nodes := h, node_cnt := k, interrupts := i\<rparr>) (as @ cut_region sz False r @ bs)"
proof -
  obtain h k where 1: "split_node st (fst r) sz = Inr (st\<lparr>nodes := h, node_cnt := k\<rparr>)"
      "malloc_inv (st\<lparr>nodes := h, node_cnt := k\<rparr>) (as @ cut_region sz (snd (snd r)) r @ bs)"
    using split_node_cut[OF assms] by blast
  obtain l xs where c: "\<And>g. cut_region sz g r = (fst r, l, g) # xs"
    by (cases r; cases "unat sz + 16 < unat (fst (snd r))") (auto simp: cut_region_def)
  obtain h' where 2: "hset h (fst r) (\<lambda>b. b\<lparr>isFree := False\<rparr>) = Inr h'"
      "malloc_inv (st\<lparr>nodes := h', node_cnt := k\<rparr>) (as @ (fst r, l, False) # xs @ bs)"
    using mark_used[of "st\<lparr>nodes := h, node_cnt := k\<rparr>" as "fst r" l "snd (snd r)" "xs @ bs" False] 1(2) c
    by (auto simp: malloc_inv_def)
  show ?thesis using 1(1) 2 c by (intro exI[of _ h'] exI[of _ k]) (simp add: malloc_inv_def)
qed

text \<open>A request served from a region that is already there.\<close>

lemma malloc_hit:
  assumes inv: "malloc_inv st rs" and sz: "sz \<noteq> 0" "unat sz \<le> 2 ^ 31"
    and hit: "pick (round8 sz) None rs = Some r"
  shows "\<exists>as bs st'. rs = as @ r # bs \<and> malloc pages st sz = Inr (fst r + header, st') \<and>
    malloc_inv st' (as @ cut_region (round8 sz) False r @ bs) \<and> interrupts st' = interrupts st \<and> page_state st' = page_state st"
proof -
  have ch: "chain (hmap (nodes st)) (root st) rs NULL" using inv by (simp add: malloc_inv_def)
  have "r \<in> set rs" using pick_best[OF _ hit] by auto
  then obtain as bs where rs: "rs = as @ r # bs" by (meson split_list)
  have nn: "fst r \<noteq> NULL" using chain_mem[OF ch \<open>r \<in> set rs\<close>] by simp
  have bf: "best_fit (nodes st) (length (cells (nodes st))) (root st) NULL (round8 sz) = Inr (fst r)"
    using best_fit_pick[OF ch chain_length[OF ch], of None "round8 sz"] hit by simp
  let ?st = "st\<lparr>interrupts := False\<rparr>"
  have "malloc_inv ?st (as @ r # bs)" using inv rs by (simp add: malloc_inv_def)
  moreover have "unat (round8 sz) < 2 ^ 63" using round8_unat(2)[OF sz(2)] by simp
  ultimately obtain h k where t:
      "bindE (split_node ?st (fst r) (round8 sz)) (\<lambda>s. bindE (hset (nodes s) (fst r) (\<lambda>b. b\<lparr>isFree := False\<rparr>)) (\<lambda>h.
        Inr (fst r + header, s\<lparr>nodes := h, interrupts := interrupts st\<rparr>))) =
      Inr (fst r + header, ?st\<lparr>nodes := h, node_cnt := k, interrupts := interrupts st\<rparr>)"
      "malloc_inv (?st\<lparr>nodes := h, node_cnt := k, interrupts := interrupts st\<rparr>) (as @ cut_region (round8 sz) False r @ bs)"
    using malloc_tail[of ?st as r bs "round8 sz" "interrupts st"] by blast
  have "malloc pages st sz = Inr (fst r + header, ?st\<lparr>nodes := h, node_cnt := k, interrupts := interrupts st\<rparr>)"
    using sz(1) bf nn t(1) by (simp add: malloc_def Let_def round8_def[symmetric])
  then show ?thesis using rs t(2)
    by (intro exI[of _ as] exI[of _ bs] exI[of _ "?st\<lparr>nodes := h, node_cnt := k, interrupts := interrupts st\<rparr>"]) simp
qed

text \<open>A request no region can serve: it is served from new pages.\<close>

lemma malloc_miss:
  assumes inv: "malloc_inv st rs" and sz: "sz \<noteq> 0" "unat sz \<le> 2 ^ 31"
    and miss: "pick (round8 sz) None rs = None"
    and pg: "pages (page_state st) (pages_for (round8 sz)) = Inr (n, p)"
    and fr: "n \<noteq> NULL" "unat n + unat (pages_for (round8 sz)) \<le> 2 ^ 64"
      "\<forall>r \<in> set rs. {unat n ..< unat n + unat (pages_for (round8 sz))} \<inter> span_of (block_of r) = {}"
  defines "r \<equiv> (n, ucast (pages_for (round8 sz) - header), False)"
  shows "\<exists>st'. malloc pages st sz = Inr (n + header, st') \<and>
    malloc_inv st' (take 1 rs @ cut_region (round8 sz) False r @ drop 1 rs) \<and> interrupts st' = interrupts st \<and> page_state st' = p"
proof -
  have ch: "chain (hmap (nodes st)) (root st) rs NULL" using inv by (simp add: malloc_inv_def)
  have bf: "best_fit (nodes st) (length (cells (nodes st))) (root st) NULL (round8 sz) = Inr NULL"
    using best_fit_pick[OF ch chain_length[OF ch], of None "round8 sz"] miss by simp
  let ?s0 = "st\<lparr>interrupts := False\<rparr>"
  have "malloc_inv ?s0 rs" "pages (page_state ?s0) (pages_for (round8 sz)) = Inr (n, p)"
    using inv pg by (simp_all add: malloc_inv_def)
  then obtain h k t where np: "new_pages pages ?s0 (round8 sz) = Inr (n, ?s0\<lparr>nodes := h, node_cnt := k, root := t, page_state := p\<rparr>)"
      "malloc_inv (?s0\<lparr>nodes := h, node_cnt := k, root := t, page_state := p\<rparr>) (take 1 rs @ r # drop 1 rs)"
    using new_pages_chain[of ?s0 rs "round8 sz" pages n p] round8_unat(2)[OF sz(2)] fr unfolding r_def by blast
  let ?s1 = "?s0\<lparr>nodes := h, node_cnt := k, root := t, page_state := p\<rparr>"
  have "unat (round8 sz) < 2 ^ 63" using round8_unat(2)[OF sz(2)] by simp
  then obtain h' k' where tl:
      "bindE (split_node ?s1 (fst r) (round8 sz)) (\<lambda>s. bindE (hset (nodes s) (fst r) (\<lambda>b. b\<lparr>isFree := False\<rparr>)) (\<lambda>h.
        Inr (fst r + header, s\<lparr>nodes := h, interrupts := interrupts st\<rparr>))) =
      Inr (fst r + header, ?s1\<lparr>nodes := h', node_cnt := k', interrupts := interrupts st\<rparr>)"
      "malloc_inv (?s1\<lparr>nodes := h', node_cnt := k', interrupts := interrupts st\<rparr>) (take 1 rs @ cut_region (round8 sz) False r @ drop 1 rs)"
    using malloc_tail[OF np(2), of "round8 sz" "interrupts st"] by blast
  have "malloc pages st sz = Inr (n + header, ?s1\<lparr>nodes := h', node_cnt := k', interrupts := interrupts st\<rparr>)"
    using sz(1) bf tl(1) np(1) by (simp add: malloc_def Let_def round8_def[symmetric] r_def)
  then show ?thesis using tl(2)
    by (intro exI[of _ "?s1\<lparr>nodes := h', node_cnt := k', interrupts := interrupts st\<rparr>"]) simp
qed

lemma free_region:
  assumes "malloc_inv st (as @ (a, l, f) # bs)"
  shows "f \<Longrightarrow> free st (a + header) = (if a + header = NULL then Inr st else Inl (Panic ''Double free detected.''))"
    and "\<not> f \<Longrightarrow> a + header \<noteq> NULL \<Longrightarrow> \<exists>st'. free st (a + header) = Inr st' \<and> malloc_inv st' (as @ (a, l, True) # bs) \<and>
      interrupts st' = interrupts st \<and> page_state st' = page_state st \<and> root st' = root st"
proof -
  let ?s0 = "st\<lparr>interrupts := False\<rparr>"
  obtain nx where c: "a \<noteq> NULL" "hmap (nodes st) a = Some \<lparr>next = nx, len = l, isFree = f\<rparr>"
    using assms by (auto simp: malloc_inv_def chain_append)
  show "f \<Longrightarrow> free st (a + header) = (if a + header = NULL then Inr st else Inl (Panic ''Double free detected.''))"
    using c by (simp add: free_def Let_def)
  assume f: "\<not> f" "a + header \<noteq> NULL"
  have "malloc_inv ?s0 (as @ (a, l, f) # bs)" using assms by (simp add: malloc_inv_def)
  then obtain h where h: "hset (nodes st) a (\<lambda>b. b\<lparr>isFree := True\<rparr>) = Inr h" "malloc_inv (?s0\<lparr>nodes := h\<rparr>) (as @ (a, l, True) # bs)"
    using mark_used[of ?s0 as a l f bs True] by auto
  show "\<exists>st'. free st (a + header) = Inr st' \<and> malloc_inv st' (as @ (a, l, True) # bs) \<and>
      interrupts st' = interrupts st \<and> page_state st' = page_state st \<and> root st' = root st"
    using c f h by (intro exI[of _ "st\<lparr>nodes := h\<rparr>"]) (auto simp: free_def Let_def mem_compact_def malloc_inv_def)
qed


section \<open>The contract with the page allocator, and the contract the heap gives\<close>

text \<open>
  \<open>gave p used\<close>: in state \<open>p\<close> the page source has handed out the bytes \<open>used\<close>. A request of a size that it
  \<open>serves\<close> is answered with pages that are no part of what was handed out before.
\<close>

locale page_provider =
  fixes gave :: "'p \<Rightarrow> nat set \<Rightarrow> bool" and serves :: "'p \<Rightarrow> u64 \<Rightarrow> bool" and pages :: "'p page_source"
  assumes pages_fresh: "gave p used \<Longrightarrow> n \<noteq> 0 \<Longrightarrow> unat n mod 4096 = 0 \<Longrightarrow> unat n < 2 ^ 32 \<Longrightarrow> serves p n \<Longrightarrow>
      \<exists>a p'. pages p n = Inr (a, p') \<and>
        a \<noteq> NULL \<and> unat a + unat n \<le> 2 ^ 64 \<and> {unat a ..< unat a + unat n} \<inter> used = {} \<and>
        gave p' (used \<union> {unat a ..< unat a + unat n})"

definition heap_owns :: "('p \<Rightarrow> nat set \<Rightarrow> bool) \<Rightarrow> 'p malloc_state \<Rightarrow> block list \<Rightarrow> bool" where
  "heap_owns gave st bs \<longleftrightarrow> (\<exists>rs used. malloc_inv st rs \<and> gave (page_state st) used \<and>
     (\<forall>r \<in> set rs. span_of (block_of r) \<subseteq> used) \<and> distinct (map fst bs) \<and>
     (\<forall>b \<in> set bs. \<exists>l. (fst b - header, l, False) \<in> set rs \<and> snd b \<le> unat l \<and> l \<noteq> 0))"

lemma regions_disjoint: "regions_ok rs \<Longrightarrow> r \<in> set rs \<Longrightarrow> s \<in> set rs \<Longrightarrow> r \<noteq> s \<Longrightarrow> span_of (block_of r) \<inter> span_of (block_of s) = {}"
proof (induction rs)
  case Nil
  then show ?case by simp
next
  case (Cons x rs)
  then show ?case using regions_ok_Cons[of x rs] by (auto simp: Int_commute)
qed

lemma data_of_region:
  assumes "regions_ok rs" "(a, l, f) \<in> set rs" "l \<noteq> 0"
  shows "unat (a + header) = unat a + 16" "a + header \<noteq> NULL" "n \<le> unat l \<Longrightarrow> span_of (a + header, n) \<subseteq> span_of (block_of (a, l, f))"
proof -
  have "unat a + 16 + unat l \<le> 2 ^ 64" "0 < unat l" using assms by (auto simp: regions_ok_def unat_gt_0)
  then show u: "unat (a + header) = unat a + 16" by (simp add: unat_word_ariths)
  then show "a + header \<noteq> NULL" by (metis add_is_0 unat_0 zero_neq_numeral)
  show "n \<le> unat l \<Longrightarrow> span_of (a + header, n) \<subseteq> span_of (block_of (a, l, f))" using u by (auto simp: span_of_def)
qed

lemma heap_owns_disjoint:
  assumes "heap_owns gave st bs"
  shows "disjoint_blocks bs"
proof -
  obtain rs where ok: "regions_ok rs" and d: "distinct (map fst bs)"
    and b: "\<forall>b \<in> set bs. \<exists>l. (fst b - header, l, False) \<in> set rs \<and> snd b \<le> unat l \<and> l \<noteq> 0"
    using assms by (auto simp: heap_owns_def malloc_inv_def)
  have one: "span_of x \<inter> span_of y = {}" if "x \<in> set bs" "y \<in> set bs" "fst x \<noteq> fst y" for x y
  proof -
    obtain l k where l: "(fst x - header, l, False) \<in> set rs" "snd x \<le> unat l" "l \<noteq> 0"
        "(fst y - header, k, False) \<in> set rs" "snd y \<le> unat k" "k \<noteq> 0" using b \<open>x \<in> set bs\<close> \<open>y \<in> set bs\<close> by blast
    then show ?thesis
      using data_of_region(3)[OF ok l(1,3,2)] data_of_region(3)[OF ok l(4,6,5)] regions_disjoint[OF ok l(1,4)] \<open>fst x \<noteq> fst y\<close> by auto
  qed
  have "distinct (map fst cs) \<Longrightarrow> set cs \<subseteq> set bs \<Longrightarrow> disjoint_blocks cs" for cs
  proof (induction cs)
    case Nil
    then show ?case by simp
  next
    case (Cons c cs)
    then have "\<forall>x \<in> set cs. span_of c \<inter> span_of x = {}" by (intro ballI one) auto
    then show ?case using Cons by simp
  qed
  then show ?thesis using d by blast
qed

lemma cut_first:
  assumes "unat sz \<le> unat (fst (snd r))" "0 < unat sz" "unat sz < 2 ^ 32"
  shows "\<exists>l. (fst r, l, f) \<in> set (cut_region sz f r) \<and> unat sz \<le> unat l \<and> l \<noteq> 0"
  using assms unat_down[of sz] by (cases r) (auto simp: cut_region_def unat_gt_0 unat_eq_0 dest: arg_cong[of _ _ unat])

lemma owns_after:
  assumes inv: "malloc_inv st' (as @ cut_region sz False r @ bs')" and ok: "regions_ok (as @ r # bs')"
    and g: "gave (page_state st') used" "\<forall>x \<in> set (as @ r # bs'). span_of (block_of x) \<subseteq> used"
    and bs: "distinct (map fst bs)" "\<forall>b \<in> set bs. \<exists>l. (fst b - header, l, False) \<in> set (as @ bs') \<and> snd b \<le> unat l \<and> l \<noteq> 0"
    and sz: "unat sz \<le> unat (fst (snd r))" "0 < unat sz" "unat sz < 2 ^ 32" "n \<le> unat sz"
  shows "heap_owns gave st' ((fst r + header, n) # bs)"
proof -
  have r: "unat (fst r) + 16 + unat (fst (snd r)) \<le> 2 ^ 64" using ok by (simp add: regions_ok_def)
  have sp: "\<forall>x \<in> set (as @ cut_region sz False r @ bs'). span_of (block_of x) \<subseteq> used"
    using g(2) cut_spans(2)[OF r, of _ sz False] by fastforce
  have "fst r \<notin> fst ` set (as @ bs')" using regions_distinct[OF ok] by auto
  moreover have "\<forall>b \<in> set bs. fst b - header \<in> fst ` set (as @ bs')" using bs(2) by force
  ultimately have "\<forall>b \<in> set bs. fst b - header \<noteq> fst r" by metis
  then have "fst r + header \<notin> fst ` set bs" by fastforce
  then have "distinct (map fst ((fst r + header, n) # bs))" using bs(1) by simp
  moreover obtain l where "(fst r, l, False) \<in> set (cut_region sz False r)" "unat sz \<le> unat l" "l \<noteq> 0"
    using cut_first[OF sz(1-3)] by blast
  ultimately show ?thesis unfolding heap_owns_def using inv g(1) sp bs(2) sz(4)
    by (intro exI[of _ "as @ cut_region sz False r @ bs'"] exI[of _ used]) fastforce
qed


context page_provider
begin

lemma malloc_owns:
  assumes o: "heap_owns gave st bs" and sz: "sz \<noteq> 0" "unat sz \<le> 2 ^ 31" and srv: "serves (page_state st) (pages_for (round8 sz))"
  shows "\<exists>p st'. malloc pages st sz = Inr (p, st') \<and> p \<noteq> NULL \<and> heap_owns gave st' ((p, unat sz) # bs)"
proof -
  obtain rs used where inv: "malloc_inv st rs" and g: "gave (page_state st) used"
    and sp: "\<forall>r \<in> set rs. span_of (block_of r) \<subseteq> used" and d: "distinct (map fst bs)"
    and b: "\<forall>b \<in> set bs. \<exists>l. (fst b - header, l, False) \<in> set rs \<and> snd b \<le> unat l \<and> l \<noteq> 0"
    using o unfolding heap_owns_def by blast
  have ok: "regions_ok rs" using inv by (simp add: malloc_inv_def)
  have r8: "0 < unat (round8 sz)" "unat (round8 sz) < 2 ^ 32" "unat sz \<le> unat (round8 sz)"
    using round8_unat(1,2)[OF sz(2)] sz(1) unat_gt_0[of sz] by (linarith, simp, simp)
  have nn: "p \<noteq> NULL" if o': "heap_owns gave st' ((p, unat sz) # bs)" for p st'
  proof -
    obtain rs' l where "regions_ok rs'" "(p - header, l, False) \<in> set rs'" "l \<noteq> 0"
      using o' unfolding heap_owns_def malloc_inv_def by auto
    then show ?thesis using data_of_region(2)[of rs' "p - header" l False] by simp
  qed
  show ?thesis
  proof (cases "pick (round8 sz) None rs")
    case (Some r)
    obtain as bs' st1 where h: "rs = as @ r # bs'" "malloc pages st sz = Inr (fst r + header, st1)"
        "malloc_inv st1 (as @ cut_region (round8 sz) False r @ bs')" "page_state st1 = page_state st"
      using malloc_hit[OF inv sz Some] by blast
    have c: "candidate (round8 sz) r" using pick_best[OF _ Some] by auto
    have "\<forall>b \<in> set bs. \<exists>l. (fst b - header, l, False) \<in> set (as @ bs') \<and> snd b \<le> unat l \<and> l \<noteq> 0"
      using b c h(1) by (fastforce simp: candidate_def)
    then have "heap_owns gave st1 ((fst r + header, unat sz) # bs)"
      using owns_after[OF h(3) ok[unfolded h(1)], of gave used bs "unat sz"] g sp d h(1,4) c r8 by (auto simp: candidate_def)
    then show ?thesis using h(2) nn by auto
  next
    case None
    let ?n = "pages_for (round8 sz)"
    note P = pages_for_unat[OF round8_unat(2)[OF sz(2)]]
    have "?n \<noteq> 0" "unat ?n < 2 ^ 32" using P(1,2) round8_unat(2)[OF sz(2)] by (auto simp: unat_eq_0)
    from pages_fresh[OF g this(1) P(3) this(2) srv]
    obtain a p' where pg: "pages (page_state st) ?n = Inr (a, p')"
      and f: "a \<noteq> NULL" "unat a + unat ?n \<le> 2 ^ 64" "{unat a ..< unat a + unat ?n} \<inter> used = {}"
        "gave p' (used \<union> {unat a ..< unat a + unat ?n})" by blast
    let ?r = "(a, ucast (?n - header), False) :: region"
    have fr: "\<forall>r \<in> set rs. {unat a ..< unat a + unat ?n} \<inter> span_of (block_of r) = {}" using f(3) sp by blast
    obtain st1 where m: "malloc pages st sz = Inr (a + header, st1)" "page_state st1 = p'"
        "malloc_inv st1 (take 1 rs @ cut_region (round8 sz) False ?r @ drop 1 rs)"
      using malloc_miss[of st rs sz pages a p', OF inv sz None pg f(1,2) fr] by blast
    have spr: "span_of (block_of ?r) = {unat a ..< unat a + unat ?n}" using P(1,4) by (simp add: span_of_def)
    have "regions_ok [?r]" using f(2) P(1,4) by (simp add: regions_ok_def)
    moreover have "regions_ok (take 1 rs @ drop 1 rs)" using ok by simp
    ultimately have ok': "regions_ok (take 1 rs @ ?r # drop 1 rs)" using fr spr
      unfolding regions_ok_append regions_ok_Cons[of ?r "drop 1 rs"] by (auto simp: Int_commute dest: in_set_takeD in_set_dropD)
    have st: "set (take 1 rs @ drop 1 rs) = set rs" by (metis append_take_drop_id)
    have "heap_owns gave st1 ((fst ?r + header, unat sz) # bs)"
    proof (rule owns_after[OF m(3) ok'])
      show "gave (page_state st1) (used \<union> {unat a ..< unat a + unat ?n})" using f(4) m(2) by simp
      show "\<forall>x \<in> set (take 1 rs @ ?r # drop 1 rs). span_of (block_of x) \<subseteq> used \<union> {unat a ..< unat a + unat ?n}"
        using sp spr by (auto dest!: in_set_takeD in_set_dropD)
      show "\<forall>b \<in> set bs. \<exists>l. (fst b - header, l, False) \<in> set (take 1 rs @ drop 1 rs) \<and> snd b \<le> unat l \<and> l \<noteq> 0"
        using b unfolding st .
      show "unat (round8 sz) \<le> unat (fst (snd ?r))" using P(1,4) by simp
    qed (use d r8 in auto)
    then show ?thesis using m(1) nn by auto
  qed
qed

lemma free_owns:
  assumes o: "heap_owns gave st bs" and b: "b \<in> set bs"
  shows "\<exists>st'. free st (fst b) = Inr st' \<and> heap_owns gave st' (filter (\<lambda>c. fst c \<noteq> fst b) bs)"
proof -
  obtain rs used where inv: "malloc_inv st rs" and g: "gave (page_state st) used"
    and sp: "\<forall>r \<in> set rs. span_of (block_of r) \<subseteq> used" and d: "distinct (map fst bs)"
    and bl: "\<forall>b \<in> set bs. \<exists>l. (fst b - header, l, False) \<in> set rs \<and> snd b \<le> unat l \<and> l \<noteq> 0"
    using o unfolding heap_owns_def by blast
  obtain l where l: "(fst b - header, l, False) \<in> set rs" "l \<noteq> 0" using bl b by blast
  then obtain as bs' where rs: "rs = as @ (fst b - header, l, False) # bs'" by (meson split_list)
  have ok: "regions_ok rs" using inv by (simp add: malloc_inv_def)
  have "fst b \<noteq> NULL" using data_of_region(2)[OF ok l] by simp
  then obtain st' where f: "free st (fst b) = Inr st'" "malloc_inv st' (as @ (fst b - header, l, True) # bs')" "page_state st' = page_state st"
    using free_region(2)[OF inv[unfolded rs]] by auto
  have "\<forall>c \<in> set (filter (\<lambda>c. fst c \<noteq> fst b) bs). \<exists>l'. (fst c - header, l', False) \<in> set (as @ (fst b - header, l, True) # bs') \<and> snd c \<le> unat l' \<and> l' \<noteq> 0"
    using bl unfolding rs by fastforce
  then have "heap_owns gave st' (filter (\<lambda>c. fst c \<noteq> fst b) bs)"
    unfolding heap_owns_def using f(2,3) g sp d rs
    by (intro exI[of _ "as @ (fst b - header, l, True) # bs'"] exI[of _ used]) (auto simp: distinct_map_filter span_of_def)
  then show ?thesis using f(1) by blast
qed

end

sublocale page_provider \<subseteq> kheap: heap_allocator "heap_owns gave" "malloc pages"
    "\<lambda>s n. n \<noteq> 0 \<and> unat n \<le> 2 ^ 31 \<and> serves (page_state s) (pages_for (round8 n))" free
proof
  show "disjoint_blocks bs" if "heap_owns gave s bs" for s bs using that by (rule heap_owns_disjoint)
  show "if p = NULL then heap_owns gave s' bs else heap_owns gave s' ((p, unat n) # bs)"
    if "heap_owns gave s bs" "n \<noteq> 0 \<and> unat n \<le> 2 ^ 31 \<and> serves (page_state s) (pages_for (round8 n))" "malloc pages s n = Inr (p, s')"
    for s bs n p s' using malloc_owns[OF that(1)] that(2,3) by fastforce
  show "\<exists>s'. free s (fst b) = Inr s' \<and> heap_owns gave s' (filter (\<lambda>c. fst c \<noteq> fst b) bs)"
    if "heap_owns gave s bs" "b \<in> set bs" for s bs b using free_owns[OF that] .
  show "distinct (map fst bs)" if "heap_owns gave s bs" for s bs using that by (auto simp: heap_owns_def)
qed

section \<open>Properties\<close>

definition ex_malloc :: "unit malloc_state" where
  "ex_malloc = \<lparr>nodes = \<lparr>cells = [(0x1000, \<lparr>next = 0x3000, len = 0xFF0, isFree = True\<rparr>),
                               (0x3000, \<lparr>next = 0x5000, len = 0x40, isFree = True\<rparr>),
                               (0x5000, \<lparr>next = 0, len = 0x200, isFree = False\<rparr>)], avail = []\<rparr>,
     root = 0x1000, node_cnt = 3, interrupts = True, page_state = ()\<rparr>"

definition ex_regions :: "region list" where
  "ex_regions = [(0x1000, 0xFF0, True), (0x3000, 0x40, True), (0x5000, 0x200, False)]"

lemma ex_malloc_inv: "malloc_inv ex_malloc ex_regions"
  by (auto simp: malloc_inv_def ex_malloc_def ex_regions_def regions_ok_def span_of_def)



text \<open>
  \<open>free\<close> of a block in use makes its region free and changes nothing else, so the region can be
  allocated again; \<open>free\<close> of a block that is already free stops the kernel with the double free panic.
\<close>

theorem free_and_double_free:
  assumes "malloc_inv st (as @ (a, l, False) # bs)" "l \<noteq> 0"
  shows "\<exists>st'. free st (a + 16) = Inr st' \<and> malloc_inv st' (as @ (a, l, True) # bs) \<and>
    interrupts st' = interrupts st \<and> free st' (a + 16) = Inl (Panic ''Double free detected.'')"
proof -
  have ok: "regions_ok (as @ (a, l, False) # bs)" using assms(1) by (simp add: malloc_inv_def)
  have nn: "a + 16 \<noteq> NULL" using data_of_region(2)[OF ok _ assms(2), of a False] by simp
  obtain st' where f: "free st (a + 16) = Inr st'" "malloc_inv st' (as @ (a, l, True) # bs)" "interrupts st' = interrupts st"
    using free_region(2)[OF assms(1) _ nn] by blast
  then show ?thesis using free_region(1)[OF f(2)] nn by auto
qed

theorem free_and_double_free_witness:
  "\<exists>st'. free ex_malloc 0x5010 = Inr st' \<and> free st' 0x5010 = Inl (Panic ''Double free detected.'')"
  using free_and_double_free[of ex_malloc "[(0x1000, 0xFF0, True), (0x3000, 0x40, True)]" "0x5000" "0x200" "[]"] ex_malloc_inv
  by (auto simp: ex_regions_def)

end
