(* ===== verification/Kvs.thy ===== *)
theory Kvs
  imports Prelude
begin

text \<open>
  The key value store of \<^verbatim>\<open>libs/kvs/kvs.c\<close>: a singly linked list of entries behind a root node, each
  entry holding a key, the hash of the key and a tagged 64-bit value; a value may be another store.

  Keys and other strings are given as their bytes without the terminator (\<open>None\<close> is the null pointer).
  The key array of a node keeps the bytes its memory held before, since the copy neither pads nor
  terminates. An out parameter is a flag saying whether the pointer is non-null; the value stored
  through it is part of the result. \<^verbatim>\<open>bool\<close> is a 32-bit integer in these sources.
\<close>

section \<open>State\<close>

datatype kvs_val_type = kvs_val_uninit | kvs_val_none | kvs_val_sint | kvs_val_uint | kvs_val_str
  | kvs_val_ptr | kvs_val_child | kvs_val_bool

datatype kvs_error = kvs_ok | kvs_error_unkwn | kvs_error_outofmemory | kvs_error_invalidargs
  | kvs_error_notfound | kvs_error_exists

abbreviation key_len :: nat where
  "key_len \<equiv> 228"

record kvs =
  key :: "u8 list"
  owner_locked :: bool
  key_hash :: u32
  val_type :: kvs_val_type
  u_val :: u64
  "next" :: addr

type_synonym kvs_heap = "kvs heap"
type_synonym cstring = "u8 list"

section \<open>Operations\<close>

text \<open>FNV-1a; each character is sign extended.\<close>

definition hash :: "u8 list \<Rightarrow> u32" where
  "hash src = foldl (\<lambda>h c. (h XOR scast c) * 16777619) 2166136261 src"

text \<open>\<open>strnlen(s, key_len)\<close> on a string and on a key array, and \<open>strncpy\<close> into a buffer.\<close>

definition key_strnlen :: "u8 list \<Rightarrow> nat" where
  "key_strnlen s = length (takeWhile (\<lambda>c. c \<noteq> 0) (take key_len s))"

definition buf_strncpy :: "u8 list \<Rightarrow> u8 list \<Rightarrow> nat \<Rightarrow> u8 list res" where
  "buf_strncpy dest src n =
     (let s = takeWhile (\<lambda>c. c \<noteq> 0) (take n src) in
      if length s \<le> length dest then Inr (s @ drop (length s) dest) else Inl OutOfBounds)"

definition kvs_create :: "kvs_heap \<Rightarrow> bool \<Rightarrow> (kvs_error \<times> addr \<times> kvs_heap) res" where
  "kvs_create h r =
     (if \<not> r then Inr (kvs_error_invalidargs, NULL, h)
      else
        (let (k, h) = halloc h in
         if k = NULL then Inr (kvs_error_outofmemory, NULL, h)
         else bindE (hset h k (\<lambda>n. n\<lparr>owner_locked := False, val_type := kvs_val_uninit, next := NULL\<rparr>)) (\<lambda>h.
           Inr (kvs_ok, k, h))))"

definition kvs_islocked :: "kvs_heap \<Rightarrow> addr \<Rightarrow> bool \<Rightarrow> (kvs_error \<times> bool option) res" where
  "kvs_islocked h r status =
     (if r = NULL then Inr (kvs_error_invalidargs, None)
      else if \<not> status then Inr (kvs_error_invalidargs, None)
      else bindE (hget h r) (\<lambda>n. Inr (kvs_ok, Some (owner_locked n))))"

definition kvs_lockentry :: "kvs_heap \<Rightarrow> addr \<Rightarrow> (kvs_error \<times> kvs_heap) res" where
  "kvs_lockentry h r =
     (if r = NULL then Inr (kvs_error_invalidargs, h)
      else bindE (hset h r (\<lambda>n. n\<lparr>owner_locked := True\<rparr>)) (\<lambda>h. Inr (kvs_ok, h)))"

definition kvs_unlockentry :: "kvs_heap \<Rightarrow> addr \<Rightarrow> (kvs_error \<times> kvs_heap) res" where
  "kvs_unlockentry h r =
     (if r = NULL then Inr (kvs_error_invalidargs, h)
      else bindE (hset h r (\<lambda>n. n\<lparr>owner_locked := False\<rparr>)) (\<lambda>h. Inr (kvs_ok, h)))"

text \<open>
  The search: the first initialised entry with the right hash whose key agrees with the one looked
  for on the shorter of the two lengths. One step per cell is enough for a list that ends.
\<close>

definition kvs_match :: "u8 list \<Rightarrow> kvs \<Rightarrow> bool" where
  "kvs_match k n \<longleftrightarrow> key_hash n = hash (take (key_strnlen k) k) \<and> val_type n \<noteq> kvs_val_uninit \<and>
     (let l = min (key_strnlen (key n)) (key_strnlen k) in take l k = take l (key n))"

primrec find_loop :: "kvs_heap \<Rightarrow> nat \<Rightarrow> addr \<Rightarrow> u8 list \<Rightarrow> addr option res" where
  "find_loop h 0 iter k = Inl Diverge"
| "find_loop h (Suc fuel) iter k =
     bindE (hget h iter) (\<lambda>n.
       if kvs_match k n then Inr (Some iter)
       else if next n \<noteq> NULL then find_loop h fuel (next n) k else Inr None)"

definition kvs_find :: "kvs_heap \<Rightarrow> addr \<Rightarrow> cstring option \<Rightarrow> (kvs_error \<times> addr option) res" where
  "kvs_find h r k =
     (if r = NULL then Inr (kvs_error_invalidargs, None)
      else case k of
        None \<Rightarrow> Inr (kvs_error_invalidargs, None)
      | Some k \<Rightarrow> bindE (find_loop h (length (cells h)) r k) (\<lambda>f.
          case f of Some p \<Rightarrow> Inr (kvs_ok, Some p) | None \<Rightarrow> Inr (kvs_error_notfound, None)))"

definition kvs_add_internal ::
  "kvs_heap \<Rightarrow> addr \<Rightarrow> cstring option \<Rightarrow> u64 \<Rightarrow> kvs_val_type \<Rightarrow> (kvs_error \<times> kvs_heap) res" where
  "kvs_add_internal h r k val vt =
     (if r = NULL then Inr (kvs_error_invalidargs, h)
      else bindE (kvs_find h r k) (\<lambda>(e, _).
        if e = kvs_ok then Inr (kvs_error_exists, h)
        else
          (let (v, h) = halloc h in
           if v = NULL then Inr (kvs_error_outofmemory, h)
           else case k of
             None \<Rightarrow> Inl NullDeref
           | Some k \<Rightarrow>
               bindE (hget h v) (\<lambda>n.
               bindE (buf_strncpy (key n) k key_len) (\<lambda>key'.
               bindE (hget h r) (\<lambda>rn.
               bindE (hset h v (\<lambda>n. n\<lparr>key := key', owner_locked := False, key_hash := hash (take (key_strnlen k) k),
                                     val_type := vt, u_val := val, next := next rn\<rparr>)) (\<lambda>h.
               bindE (hset h r (\<lambda>n. n\<lparr>next := v\<rparr>)) (\<lambda>h. Inr (kvs_ok, h)))))))))"

definition kvs_add_sint :: "kvs_heap \<Rightarrow> addr \<Rightarrow> cstring option \<Rightarrow> 64 word \<Rightarrow> (kvs_error \<times> kvs_heap) res" where
  "kvs_add_sint h r k sval = kvs_add_internal h r k sval kvs_val_sint"

definition kvs_add_bool :: "kvs_heap \<Rightarrow> addr \<Rightarrow> cstring option \<Rightarrow> 32 word \<Rightarrow> (kvs_error \<times> kvs_heap) res" where
  "kvs_add_bool h r k sval = kvs_add_internal h r k (scast sval) kvs_val_bool"

definition kvs_add_uint :: "kvs_heap \<Rightarrow> addr \<Rightarrow> cstring option \<Rightarrow> u64 \<Rightarrow> (kvs_error \<times> kvs_heap) res" where
  "kvs_add_uint h r k uval = kvs_add_internal h r k uval kvs_val_uint"

definition kvs_add_str :: "kvs_heap \<Rightarrow> addr \<Rightarrow> cstring option \<Rightarrow> addr \<Rightarrow> (kvs_error \<times> kvs_heap) res" where
  "kvs_add_str h r k strval = kvs_add_internal h r k strval kvs_val_str"

definition kvs_add_ptr :: "kvs_heap \<Rightarrow> addr \<Rightarrow> cstring option \<Rightarrow> addr \<Rightarrow> (kvs_error \<times> kvs_heap) res" where
  "kvs_add_ptr h r k ptrval = kvs_add_internal h r k ptrval kvs_val_ptr"

definition kvs_add_child :: "kvs_heap \<Rightarrow> addr \<Rightarrow> cstring option \<Rightarrow> addr \<Rightarrow> (kvs_error \<times> kvs_heap) res" where
  "kvs_add_child h r k childval = kvs_add_internal h r k childval kvs_val_child"

text \<open>\<open>r\<close> is the value of \<^verbatim>\<open>*r\<close>, \<open>None\<close> when \<^verbatim>\<open>r\<close> is null.\<close>

definition kvs_next :: "kvs_heap \<Rightarrow> addr option \<Rightarrow> (kvs_error \<times> addr option) res" where
  "kvs_next h r =
     (case r of
        None \<Rightarrow> Inr (kvs_error_notfound, r)
      | Some p \<Rightarrow>
          if p = NULL then Inr (kvs_error_notfound, r)
          else bindE (hget h p) (\<lambda>n.
            if next n \<noteq> NULL then Inr (kvs_ok, Some (next n)) else Inr (kvs_error_notfound, r)))"

definition kvs_get_internal :: "kvs_heap \<Rightarrow> addr \<Rightarrow> bool \<Rightarrow> kvs_val_type \<Rightarrow> (kvs_error \<times> u64 option) res" where
  "kvs_get_internal h r out vt =
     (if r = NULL then Inr (kvs_error_invalidargs, None)
      else if \<not> out then Inr (kvs_error_invalidargs, None)
      else bindE (hget h r) (\<lambda>n.
        if val_type n \<noteq> vt then Inr (kvs_error_invalidargs, None) else Inr (kvs_ok, Some (u_val n))))"

text \<open>\<open>buf\<close> is the caller's buffer, \<open>None\<close> when the pointer is null.\<close>

definition kvs_get_key :: "kvs_heap \<Rightarrow> addr \<Rightarrow> u8 list option \<Rightarrow> (kvs_error \<times> u8 list option) res" where
  "kvs_get_key h r buf =
     (if r = NULL then Inr (kvs_error_invalidargs, buf)
      else case buf of
        None \<Rightarrow> Inr (kvs_error_invalidargs, buf)
      | Some b \<Rightarrow> bindE (hget h r) (\<lambda>n.
          bindE (buf_strncpy b (key n) key_len) (\<lambda>b. Inr (kvs_ok, Some b))))"

definition kvs_get_ptr :: "kvs_heap \<Rightarrow> addr \<Rightarrow> bool \<Rightarrow> (kvs_error \<times> u64 option) res" where
  "kvs_get_ptr h r out = kvs_get_internal h r out kvs_val_ptr"

definition kvs_get_uint :: "kvs_heap \<Rightarrow> addr \<Rightarrow> bool \<Rightarrow> (kvs_error \<times> u64 option) res" where
  "kvs_get_uint h r out = kvs_get_internal h r out kvs_val_uint"

definition kvs_get_bool :: "kvs_heap \<Rightarrow> addr \<Rightarrow> bool \<Rightarrow> (kvs_error \<times> 32 word option) res" where
  "kvs_get_bool h r out =
     (if r = NULL then Inr (kvs_error_invalidargs, None)
      else if \<not> out then Inr (kvs_error_invalidargs, None)
      else bindE (hget h r) (\<lambda>n.
        if val_type n \<noteq> kvs_val_bool then Inr (kvs_error_invalidargs, None)
        else Inr (kvs_ok, Some (ucast (u_val n)))))"

definition kvs_get_sint :: "kvs_heap \<Rightarrow> addr \<Rightarrow> bool \<Rightarrow> (kvs_error \<times> u64 option) res" where
  "kvs_get_sint h r out = kvs_get_internal h r out kvs_val_sint"

definition kvs_get_str :: "kvs_heap \<Rightarrow> addr \<Rightarrow> bool \<Rightarrow> (kvs_error \<times> u64 option) res" where
  "kvs_get_str h r out = kvs_get_internal h r out kvs_val_str"

definition kvs_get_child :: "kvs_heap \<Rightarrow> addr \<Rightarrow> bool \<Rightarrow> (kvs_error \<times> u64 option) res" where
  "kvs_get_child h r out = kvs_get_internal h r out kvs_val_child"

definition kvs_set_internal :: "kvs_heap \<Rightarrow> addr \<Rightarrow> u64 \<Rightarrow> kvs_val_type \<Rightarrow> (kvs_error \<times> kvs_heap) res" where
  "kvs_set_internal h r val vt =
     (if r = NULL then Inr (kvs_error_invalidargs, h)
      else bindE (hget h r) (\<lambda>n.
        if val_type n \<noteq> vt then Inr (kvs_error_invalidargs, h)
        else bindE (hset h r (\<lambda>n. n\<lparr>u_val := val\<rparr>)) (\<lambda>h. Inr (kvs_ok, h))))"

definition kvs_set_key :: "kvs_heap \<Rightarrow> addr \<Rightarrow> cstring option \<Rightarrow> (kvs_error \<times> kvs_heap) res" where
  "kvs_set_key h r k =
     (if r = NULL then Inr (kvs_error_invalidargs, h)
      else case k of
        None \<Rightarrow> Inr (kvs_error_invalidargs, h)
      | Some k \<Rightarrow> bindE (hget h r) (\<lambda>n.
          bindE (buf_strncpy (key n) k key_len) (\<lambda>key'.
          bindE (hset h r (\<lambda>n. n\<lparr>key := key'\<rparr>)) (\<lambda>h. Inr (kvs_ok, h)))))"

definition kvs_set_ptr :: "kvs_heap \<Rightarrow> addr \<Rightarrow> u64 \<Rightarrow> (kvs_error \<times> kvs_heap) res" where
  "kvs_set_ptr h r val = kvs_set_internal h r val kvs_val_ptr"

definition kvs_set_uint :: "kvs_heap \<Rightarrow> addr \<Rightarrow> u64 \<Rightarrow> (kvs_error \<times> kvs_heap) res" where
  "kvs_set_uint h r val = kvs_set_internal h r val kvs_val_uint"

definition kvs_set_bool :: "kvs_heap \<Rightarrow> addr \<Rightarrow> 32 word \<Rightarrow> (kvs_error \<times> kvs_heap) res" where
  "kvs_set_bool h r val = kvs_set_internal h r (scast val) kvs_val_bool"

definition kvs_set_sint :: "kvs_heap \<Rightarrow> addr \<Rightarrow> u64 \<Rightarrow> (kvs_error \<times> kvs_heap) res" where
  "kvs_set_sint h r val = kvs_set_internal h r val kvs_val_sint"

definition kvs_set_str :: "kvs_heap \<Rightarrow> addr \<Rightarrow> u64 \<Rightarrow> (kvs_error \<times> kvs_heap) res" where
  "kvs_set_str h r val = kvs_set_internal h r val kvs_val_str"

definition kvs_get_type :: "kvs_heap \<Rightarrow> addr \<Rightarrow> bool \<Rightarrow> (kvs_error \<times> kvs_val_type option) res" where
  "kvs_get_type h idx out =
     (if idx = NULL then Inr (kvs_error_invalidargs, None)
      else if \<not> out then Inr (kvs_error_invalidargs, None)
      else bindE (hget h idx) (\<lambda>n. Inr (kvs_ok, Some (val_type n))))"

text \<open>
  Deleting a store deletes its children first. Every node visited is released, so one step per cell
  is enough here as well.
\<close>

primrec delete_loop :: "kvs_heap \<Rightarrow> nat \<Rightarrow> addr \<Rightarrow> kvs_heap res" where
  "delete_loop h 0 iter = Inl Diverge"
| "delete_loop h (Suc fuel) iter =
     bindE (hget h iter) (\<lambda>n.
     bindE (if val_type n = kvs_val_child \<and> u_val n \<noteq> NULL then delete_loop h fuel (u_val n) else Inr h) (\<lambda>h.
     bindE (hfree h iter) (\<lambda>h.
       if next n \<noteq> NULL then delete_loop h fuel (next n) else Inr h)))"

definition kvs_delete :: "kvs_heap \<Rightarrow> addr \<Rightarrow> (kvs_error \<times> kvs_heap) res" where
  "kvs_delete h r =
     (if r = NULL then Inr (kvs_error_invalidargs, h)
      else bindE (delete_loop h (length (cells h)) r) (\<lambda>h. Inr (kvs_ok, h)))"

text \<open>The walk to the node in front of \<open>idx\<close>: it advances before it looks.\<close>

primrec remove_loop :: "kvs_heap \<Rightarrow> nat \<Rightarrow> addr \<Rightarrow> addr \<Rightarrow> addr option res" where
  "remove_loop h 0 iter idx = Inl Diverge"
| "remove_loop h (Suc fuel) iter idx =
     bindE (hget h iter) (\<lambda>n.
       let iter = next n in
       if iter = NULL then Inr None
       else bindE (hget h iter) (\<lambda>n. if next n \<noteq> idx then remove_loop h fuel iter idx else Inr (Some iter)))"

definition kvs_remove :: "kvs_heap \<Rightarrow> addr \<Rightarrow> addr \<Rightarrow> (kvs_error \<times> kvs_heap) res" where
  "kvs_remove h r idx =
     (if r = NULL then Inr (kvs_error_invalidargs, h)
      else if idx = NULL then Inr (kvs_error_invalidargs, h)
      else bindE (remove_loop h (length (cells h)) r idx) (\<lambda>p.
        case p of
          None \<Rightarrow> Inr (kvs_error_notfound, h)
        | Some iter \<Rightarrow>
            bindE (hget h idx) (\<lambda>n.
            bindE (hset h iter (\<lambda>m. m\<lparr>next := next n\<rparr>)) (\<lambda>h.
            bindE (if val_type n = kvs_val_child then bindE (kvs_delete h (u_val n)) (\<lambda>(_, h). Inr h) else Inr h) (\<lambda>h.
            bindE (hfree h idx) (\<lambda>h. Inr (kvs_ok, h)))))))"

section \<open>Stores in the heap\<close>

text \<open>
  \<open>kvs_wf\<close>: every node, allocated or stale, has a key array of the right size. \<open>kvs_store h r ps\<close>: the
  root \<open>r\<close> is followed by exactly the entries \<open>ps\<close>.
\<close>

definition kvs_wf :: "kvs_heap \<Rightarrow> bool" where
  "kvs_wf h \<longleftrightarrow> heap_wf h \<and> (\<forall>p n. hmap h p = Some n \<longrightarrow> length (key n) = key_len) \<and>
     (\<forall>x \<in> set (avail h). length (key (snd x)) = key_len)"

definition kvs_store :: "kvs_heap \<Rightarrow> addr \<Rightarrow> addr list \<Rightarrow> bool" where
  "kvs_store h r ps \<longleftrightarrow> path next (hmap h) r (r # ps) NULL \<and>
     (\<exists>n. hmap h r = Some n \<and> val_type n = kvs_val_uninit)"

definition kvs_lookup :: "kvs_heap \<Rightarrow> addr list \<Rightarrow> u8 list \<Rightarrow> addr option" where
  "kvs_lookup h ps k = List.find (\<lambda>p. kvs_match k (the (hmap h p))) ps"

lemma kvs_wf_key: "kvs_wf h \<Longrightarrow> hmap h p = Some n \<Longrightarrow> length (key n) = key_len"
  by (auto simp: kvs_wf_def)

lemma kvs_wf_hput:
  assumes "kvs_wf h" "hmap h p \<noteq> None" "length (key n) = key_len"
  shows "kvs_wf (hput h p n)"
  using assms heap_wf_hput[of h p n] by (auto simp: kvs_wf_def)

lemma kvs_wf_halloc:
  assumes "kvs_wf h" "avail h = (p, g) # rest"
  defines "h' \<equiv> h\<lparr>cells := AList.update p g (cells h), avail := rest\<rparr>"
  shows "kvs_wf h'" "length (key g) = key_len"
proof -
  have w: "heap_wf h" using assms(1) by (simp add: kvs_wf_def)
  note a = heap_wf_halloc[OF w assms(2), folded h'_def]
  show g: "length (key g) = key_len" using assms(1,2) by (auto simp: kvs_wf_def)
  have "avail h' = rest" by (simp add: h'_def)
  then show "kvs_wf h'" using a(3,4) g assms(1,2) by (auto simp: kvs_wf_def)
qed

lemma kvs_wf_hfree:
  assumes "kvs_wf h" "hfree h p = Inr h'"
  shows "kvs_wf h'"
proof (cases "p = NULL")
  case True
  then show ?thesis using assms by (simp add: hfree_def)
next
  case False
  then obtain n where n: "hmap h p = Some n" "avail h' = avail h @ [(p, n)]"
    using assms(2) by (auto simp: hfree_def hget_def split: option.splits)
  have w: "heap_wf h" using assms(1) by (simp add: kvs_wf_def)
  show ?thesis using assms(1) n heap_wf_hfree[OF w assms(2)] by (auto simp: kvs_wf_def split: if_splits)
qed

lemma storeD:
  assumes "kvs_store h r ps"
  shows "r \<noteq> NULL" "path next (hmap h) r (r # ps) NULL" "distinct (r # ps)" "NULL \<notin> set (r # ps)"
    "length (r # ps) \<le> length (cells h)" "\<And>p. p \<in> set (r # ps) \<Longrightarrow> hmap h p \<noteq> None"
    "\<And>k. \<not> kvs_match k (the (hmap h r))"
proof -
  show p: "path next (hmap h) r (r # ps) NULL" using assms by (simp add: kvs_store_def)
  then show "r \<noteq> NULL" "distinct (r # ps)" "length (r # ps) \<le> length (cells h)"
    using path_distinct[OF p] path_length[OF p] by auto
  show "NULL \<notin> set (r # ps)" "\<And>p. p \<in> set (r # ps) \<Longrightarrow> hmap h p \<noteq> None" using path_dom[OF p] by auto
  show "\<And>k. \<not> kvs_match k (the (hmap h r))" using assms by (auto simp: kvs_store_def kvs_match_def)
qed

lemma kvs_store_frame:
  assumes "kvs_store h r ps" "\<And>p. p \<in> set (r # ps) \<Longrightarrow> hmap h' p = hmap h p"
  shows "kvs_store h' r ps" "kvs_lookup h' ps k = kvs_lookup h ps k"
proof -
  show "kvs_store h' r ps" using assms path_cong[of "r # ps" "hmap h'" "hmap h" "next" r NULL] by (auto simp: kvs_store_def)
  show "kvs_lookup h' ps k = kvs_lookup h ps k" using assms(2) unfolding kvs_lookup_def by (intro find_cong) auto
qed

section \<open>Searching\<close>

lemma find_loop_path:
  "path next (hmap h) p ps NULL \<Longrightarrow> ps \<noteq> [] \<Longrightarrow> length ps \<le> fuel \<Longrightarrow>
   find_loop h fuel p k = Inr (List.find (\<lambda>p. kvs_match k (the (hmap h p))) ps)"
proof (induction ps arbitrary: p fuel)
  case Nil
  then show ?case by simp
next
  case (Cons a as)
  obtain n where n: "p = a" "a \<noteq> NULL" "hmap h a = Some n" "path next (hmap h) (next n) as NULL" using Cons.prems(1) by auto
  obtain f where f: "fuel = Suc f" "length as \<le> f" using Cons.prems(3) by (cases fuel) auto
  have "as = [] \<longleftrightarrow> next n = NULL" using n(4) by (cases as) auto
  then show ?case using n f Cons.IH[OF n(4) _ f(2)] by auto
qed

lemma kvs_find_lookup:
  assumes "kvs_store h r ps"
  shows "kvs_find h r (Some k) =
    Inr (case kvs_lookup h ps k of Some p \<Rightarrow> (kvs_ok, Some p) | None \<Rightarrow> (kvs_error_notfound, None))"
  using storeD[OF assms] find_loop_path[of h r "r # ps" "length (cells h)" k]
  by (auto simp: kvs_find_def kvs_lookup_def split: option.split)

lemma key_strnlen_cstring: "0 \<notin> set k \<Longrightarrow> key_strnlen k = min key_len (length k)"
proof -
  assume "0 \<notin> set k"
  then have t: "takeWhile (\<lambda>c. c \<noteq> 0) (take key_len k) = take key_len k" by (auto dest: in_set_takeD)
  show ?thesis unfolding key_strnlen_def t by simp
qed

lemma kvs_match_self:
  assumes "0 \<notin> set k" "buf_strncpy b k key_len = Inr b'" "vt \<noteq> kvs_val_uninit" "key_hash n = hash (take (key_strnlen k) k)"
    "key n = b'" "val_type n = vt"
  shows "kvs_match k n"
proof -
  let ?l = "min key_len (length k)"
  have t: "takeWhile (\<lambda>c. c \<noteq> 0) (take key_len k) = take key_len k" using assms(1) by (auto dest: in_set_takeD)
  then have b': "b' = take key_len k @ drop ?l b" using assms(2) unfolding buf_strncpy_def t Let_def by (simp add: min.commute split: if_splits)
  have "length (take key_len k) \<le> key_strnlen b'"
  proof -
    have "takeWhile (\<lambda>c. c \<noteq> 0) (take key_len b') = take key_len k @ takeWhile (\<lambda>c. c \<noteq> 0) (take (key_len - length (take key_len k)) (drop ?l b))"
      using assms(1) unfolding b' take_append by (subst takeWhile_append2) (auto dest: in_set_takeD)
    then show ?thesis by (simp add: key_strnlen_def)
  qed
  then have "min (key_strnlen b') (key_strnlen k) = ?l" using assms(1) by (simp add: key_strnlen_cstring min.commute)
  moreover have "take ?l k = take ?l b'" unfolding b' by (simp add: min.commute)
  ultimately show ?thesis using assms by (simp add: kvs_match_def Let_def)
qed


section \<open>Adding\<close>

lemma kvs_add_exists:
  assumes "kvs_store h r ps" "kvs_lookup h ps k = Some p"
  shows "kvs_add_internal h r (Some k) v vt = Inr (kvs_error_exists, h)"
  using storeD(1)[OF assms(1)] kvs_find_lookup[OF assms(1), of k] assms(2) by (simp add: kvs_add_internal_def)

lemma kvs_add_full:
  assumes "kvs_store h r ps" "kvs_lookup h ps k = None" "avail h = []"
  shows "kvs_add_internal h r (Some k) v vt = Inr (kvs_error_outofmemory, h)"
  using storeD(1)[OF assms(1)] kvs_find_lookup[OF assms(1), of k] assms(2,3) by (simp add: kvs_add_internal_def)

lemma buf_strncpy_key: "length b = key_len \<Longrightarrow> \<exists>b'. buf_strncpy b k key_len = Inr b' \<and> length b' = key_len"
proof -
  assume l: "length b = key_len"
  have "length (takeWhile (\<lambda>c. c \<noteq> 0) (take key_len k)) \<le> length (take key_len k)" by (rule length_takeWhile_le)
  then have "length (takeWhile (\<lambda>c. c \<noteq> 0) (take key_len k)) \<le> key_len" by simp
  then show ?thesis using l by (simp add: buf_strncpy_def Let_def)
qed

definition fresh_entry :: "u8 list \<Rightarrow> u64 \<Rightarrow> kvs_val_type \<Rightarrow> kvs \<Rightarrow> bool" where
  "fresh_entry k v vt n \<longleftrightarrow> kvs_match k n \<and> val_type n = vt \<and> u_val n = v \<and> \<not> owner_locked n"

lemma kvs_add_new:
  assumes wf: "kvs_wf h" and st: "kvs_store h r ps" and k: "0 \<notin> set k" "kvs_lookup h ps k = None"
    and vt: "vt \<noteq> kvs_val_uninit" and av: "avail h = (p, g) # rest"
  shows "\<exists>h' n. kvs_add_internal h r (Some k) v vt = Inr (kvs_ok, h') \<and> kvs_wf h' \<and> kvs_store h' r (p # ps) \<and>
    hmap h' p = Some n \<and> fresh_entry k v vt n \<and> avail h' = rest \<and> (\<forall>q. q \<noteq> p \<and> q \<noteq> r \<longrightarrow> hmap h' q = hmap h q) \<and>
    hmap h p = None \<and> p \<noteq> NULL"
proof -
  have hw: "heap_wf h" using wf by (simp add: kvs_wf_def)
  define h1 where "h1 = h\<lparr>cells := AList.update p g (cells h), avail := rest\<rparr>"
  note A = heap_wf_halloc[OF hw av, folded h1_def] and W = kvs_wf_halloc[OF wf av, folded h1_def]
  have al: "halloc h = (p, h1)" "avail h1 = rest" using av by (simp_all add: halloc_Some h1_def)
  obtain rn where rn: "hmap h r = Some rn" "val_type rn = kvs_val_uninit" using st by (auto simp: kvs_store_def)
  have pr: "p \<noteq> r" "p \<notin> set (r # ps)" using A(2) rn storeD(6)[OF st, of p] by auto
  obtain b where b: "buf_strncpy (key g) k key_len = Inr b" "length b = key_len" using buf_strncpy_key[OF W(2)] by blast
  define n where "n = g\<lparr>key := b, owner_locked := False, key_hash := hash (take (key_strnlen k) k), val_type := vt, u_val := v, next := next rn\<rparr>"
  define h2 where "h2 = hput h1 p n"
  define h3 where "h3 = hput h2 r (rn\<lparr>next := p\<rparr>)"
  have m: "hmap h3 = (hmap h)(p \<mapsto> n, r \<mapsto> rn\<lparr>next := p\<rparr>)" using A(3) by (simp add: h3_def h2_def)
  have w2: "kvs_wf h2" unfolding h2_def using W(1) A(3) b(2) by (intro kvs_wf_hput) (simp_all add: n_def)
  have "hmap h2 r \<noteq> None" using A(3) rn by (simp add: h2_def)
  then have w3: "kvs_wf h3" unfolding h3_def using w2 kvs_wf_key[OF wf rn(1)] by (intro kvs_wf_hput) simp_all
  have "hset h1 p (\<lambda>n. n\<lparr>key := b, owner_locked := False, key_hash := hash (take (key_strnlen k) k), val_type := vt, u_val := v, next := next rn\<rparr>) = Inr h2"
    using A(1,3) by (simp add: h2_def n_def)
  moreover have "hset h2 r (\<lambda>n. n\<lparr>next := p\<rparr>) = Inr h3"
    using A(3) pr(1) rn(1) storeD(1)[OF st] by (simp add: h3_def h2_def)
  ultimately have run: "kvs_add_internal h r (Some k) v vt = Inr (kvs_ok, h3)"
    using storeD(1)[OF st] kvs_find_lookup[OF st, of k] k(2) al A(1,3) b(1) rn(1) pr(1)
    by (simp add: kvs_add_internal_def h3_def)
  have "path next (hmap h) (next rn) ps NULL" using storeD(2)[OF st] rn(1) by simp
  then have "path next (hmap h3) (next rn) ps NULL" using pr(2) storeD(3)[OF st] unfolding m by (simp add: path_upd)
  then have "kvs_store h3 r (p # ps)" using m pr(1) rn(2) A(1) storeD(1)[OF st] by (auto simp: kvs_store_def n_def)
  moreover have "fresh_entry k v vt n"
    using kvs_match_self[OF k(1) b(1) vt, of n] by (simp add: fresh_entry_def n_def)
  ultimately show ?thesis using run w3 m pr(1) A(1,2) al(2)
    by (intro exI[of _ h3] exI[of _ n]) (simp add: h3_def h2_def)
qed

lemma kvs_lookup_after_add:
  assumes "hmap h' p = Some n" "\<And>q. q \<in> set ps \<Longrightarrow> hmap h' q = hmap h q"
  shows "kvs_lookup h' (p # ps) k = (if kvs_match k n then Some p else kvs_lookup h ps k)"
proof -
  have "List.find (\<lambda>p. kvs_match k (the (hmap h' p))) ps = List.find (\<lambda>p. kvs_match k (the (hmap h p))) ps"
    using assms(2) by (intro find_cong) auto
  then show ?thesis using assms(1) by (simp add: kvs_lookup_def)
qed

section \<open>Deleting\<close>

text \<open>
  \<open>kvs_tree m p as\<close>: \<open>as\<close> are the cells of the store at \<open>p\<close> and of all stores below it, in the order in
  which \<open>kvs_delete\<close> releases them.
\<close>

inductive kvs_tree :: "(addr \<Rightarrow> kvs option) \<Rightarrow> addr \<Rightarrow> addr list \<Rightarrow> bool" for m where
  kvs_node: "p \<noteq> NULL \<Longrightarrow> m p = Some n \<Longrightarrow>
    (val_type n = kvs_val_child \<and> u_val n \<noteq> NULL \<and> kvs_tree m (u_val n) cs \<or>
     \<not> (val_type n = kvs_val_child \<and> u_val n \<noteq> NULL) \<and> cs = []) \<Longrightarrow>
    (next n \<noteq> NULL \<and> kvs_tree m (next n) ns \<or> next n = NULL \<and> ns = []) \<Longrightarrow>
    kvs_tree m p (cs @ p # ns)"

lemma kvs_tree_dom: "kvs_tree m p as \<Longrightarrow> set as \<subseteq> dom m"
  by (induction rule: kvs_tree.induct) auto

lemma delete_loop_tree:
  "kvs_tree m p as \<Longrightarrow> (\<And>q. q \<in> set as \<Longrightarrow> hmap h q = m q) \<Longrightarrow> distinct as \<Longrightarrow> kvs_wf h \<Longrightarrow> length as \<le> fuel \<Longrightarrow>
   \<exists>h'. delete_loop h fuel p = Inr h' \<and> kvs_wf h' \<and> hmap h' = hmap h |` (- set as) \<and>
     map fst (avail h') = map fst (avail h) @ as"
proof (induction arbitrary: h fuel rule: kvs_tree.induct)
  case (kvs_node p n cs ns)
  obtain f where f: "fuel = Suc f" "length cs \<le> f" "length ns \<le> f" using kvs_node.prems(4) by (cases fuel) auto
  have n: "hmap h p = Some n" using kvs_node.prems(1)[of p] kvs_node.hyps(2) by simp
  have dis: "distinct cs" "distinct ns" "p \<notin> set cs" "p \<notin> set ns" "set cs \<inter> set ns = {}" using kvs_node.prems(2) by auto
  have "\<exists>h1. (if val_type n = kvs_val_child \<and> u_val n \<noteq> NULL then delete_loop h f (u_val n) else Inr h) = Inr h1 \<and>
      kvs_wf h1 \<and> hmap h1 = hmap h |` (- set cs) \<and> map fst (avail h1) = map fst (avail h) @ cs"
  proof (cases "val_type n = kvs_val_child \<and> u_val n \<noteq> NULL")
    case True
    then show ?thesis using kvs_node.IH(1) kvs_node.prems dis f by auto
  next
    case False
    then show ?thesis using kvs_node.IH(1) kvs_node.prems(3) by auto
  qed
  then obtain h1 where h1: "(if val_type n = kvs_val_child \<and> u_val n \<noteq> NULL then delete_loop h f (u_val n) else Inr h) = Inr h1"
      "kvs_wf h1" "hmap h1 = hmap h |` (- set cs)" "map fst (avail h1) = map fst (avail h) @ cs" by blast
  have p1: "hmap h1 p = Some n" using h1(3) n dis(3) by simp
  obtain h2 where h2: "hfree h1 p = Inr h2" "avail h2 = avail h1 @ [(p, n)]" using hfree_ok[OF p1 kvs_node.hyps(1)] by simp
  have w2: "kvs_wf h2" "hmap h2 = (hmap h1)(p := None)"
    using kvs_wf_hfree[OF h1(2) h2(1)] heap_wf_hfree(2)[OF _ h2(1)] h1(2) by (auto simp: kvs_wf_def)
  have "\<exists>h3. (if next n \<noteq> NULL then delete_loop h2 f (next n) else Inr h2) = Inr h3 \<and> kvs_wf h3 \<and>
      hmap h3 = hmap h2 |` (- set ns) \<and> map fst (avail h3) = map fst (avail h2) @ ns"
  proof (cases "next n = NULL")
    case True
    then show ?thesis using kvs_node.IH(2) w2(1) by auto
  next
    case False
    then have IH: "\<And>h fuel. (\<And>q. q \<in> set ns \<Longrightarrow> hmap h q = m q) \<Longrightarrow> distinct ns \<Longrightarrow> kvs_wf h \<Longrightarrow> length ns \<le> fuel \<Longrightarrow>
       \<exists>h'. delete_loop h fuel (next n) = Inr h' \<and> kvs_wf h' \<and> hmap h' = hmap h |` (- set ns) \<and> map fst (avail h') = map fst (avail h) @ ns"
      using kvs_node.IH(2) by blast
    have "\<And>q. q \<in> set ns \<Longrightarrow> hmap h2 q = m q" using kvs_node.prems(1) w2(2) h1(3) dis
      by (auto simp: restrict_map_def)
    then show ?thesis using IH[of h2 f] dis(2) w2(1) f(3) False by simp
  qed
  then obtain h3 where "(if next n \<noteq> NULL then delete_loop h2 f (next n) else Inr h2) = Inr h3" "kvs_wf h3"
      "hmap h3 = hmap h2 |` (- set ns)" "map fst (avail h3) = map fst (avail h2) @ ns" by blast
  then show ?case using n kvs_node.hyps(1) h1 h2 w2 f(1)
    by (auto simp: restrict_map_def fun_eq_iff)
qed

lemma kvs_delete_tree:
  assumes "kvs_tree (hmap h) p as" "distinct as" "kvs_wf h"
  shows "\<exists>h'. kvs_delete h p = Inr (kvs_ok, h') \<and> kvs_wf h' \<and> hmap h' = hmap h |` (- set as) \<and>
     map fst (avail h') = map fst (avail h) @ as"
proof -
  have "length as = card (set as)" using assms(2) by (simp add: distinct_card)
  also have "\<dots> \<le> card (fst ` set (cells h))" using kvs_tree_dom[OF assms(1)] by (intro card_mono) (auto simp: hmap_dom)
  also have "\<dots> \<le> length (cells h)" by (metis card_length length_map list.set_map)
  finally obtain h' where "delete_loop h (length (cells h)) p = Inr h'" "kvs_wf h'" "hmap h' = hmap h |` (- set as)"
     "map fst (avail h') = map fst (avail h) @ as"
    using delete_loop_tree[OF assms(1) _ assms(2,3)] by blast
  moreover have "p \<noteq> NULL" using assms(1) by (cases rule: kvs_tree.cases) auto
  ultimately show ?thesis by (auto simp: kvs_delete_def)
qed


section \<open>Removing\<close>

lemma remove_loop_first:
  assumes "path next (hmap h) p (p # a # as) NULL"
  shows "length (p # a # as) \<le> fuel \<Longrightarrow> idx \<notin> set as \<Longrightarrow> idx \<noteq> NULL \<Longrightarrow> remove_loop h fuel p idx = Inr None"
  using assms
proof (induction as arbitrary: p a fuel)
  case Nil
  obtain f where "fuel = Suc (Suc f)" using Nil.prems(1) by (cases fuel; cases "fuel - 1") auto
  then show ?case using Nil by auto
next
  case (Cons b as)
  obtain n m where n: "p \<noteq> NULL" "hmap h p = Some n" "next n = a" "a \<noteq> NULL" "hmap h a = Some m" "next m = b"
      "path next (hmap h) a (a # b # as) NULL" using Cons.prems(4) by auto
  obtain f where f: "fuel = Suc f" using Cons.prems(1) by (cases fuel) auto
  have "remove_loop h f a idx = Inr None" using Cons.IH[of a b f] Cons.prems n(7) f by simp
  then show ?case using n f Cons.prems(2) by (auto simp: Let_def)
qed

lemma remove_loop_found:
  assumes "path next (hmap h) p (p # as @ a # idx # bs) NULL" "distinct (p # as @ a # idx # bs)"
  shows "length (p # as @ [a]) \<le> fuel \<Longrightarrow> remove_loop h fuel p idx = Inr (Some a)"
  using assms
proof (induction as arbitrary: p fuel)
  case Nil
  obtain f where "fuel = Suc f" using Nil.prems(1) by (cases fuel) auto
  then show ?case using Nil by auto
next
  case (Cons b as)
  obtain n m where n: "p \<noteq> NULL" "hmap h p = Some n" "next n = b" "b \<noteq> NULL" "hmap h b = Some m"
      "path next (hmap h) b (b # as @ a # idx # bs) NULL" using Cons.prems(2) by auto
  have nx: "next m \<noteq> idx" using n(5,6) Cons.prems(3) by (cases as) auto
  obtain f where f: "fuel = Suc f" using Cons.prems(1) by (cases fuel) auto
  have "remove_loop h f b idx = Inr (Some a)" using Cons.IH[of b f] Cons.prems n(6) f by simp
  then show ?case using n f nx by (simp add: Let_def)
qed

lemma kvs_remove_first:
  assumes "kvs_store h r (p # ps)"
  shows "kvs_remove h r p = Inr (kvs_error_notfound, h)"
proof -
  have "remove_loop h (length (cells h)) r p = Inr None"
    using storeD(2,3,4,5)[OF assms] by (intro remove_loop_first[of h r p ps]) auto
  then show ?thesis using storeD(1,4)[OF assms] by (auto simp: kvs_remove_def)
qed

lemma kvs_remove_later:
  assumes wf: "kvs_wf h" and st: "kvs_store h r (as @ a # p # bs)" and n: "hmap h p = Some n"
    and tr: "val_type n = kvs_val_child \<Longrightarrow> u_val n \<noteq> NULL \<Longrightarrow>
      kvs_tree (hmap h) (u_val n) cs \<and> distinct cs \<and> set cs \<inter> set (r # as @ a # p # bs) = {}"
    and cs: "\<not> (val_type n = kvs_val_child \<and> u_val n \<noteq> NULL) \<Longrightarrow> cs = []"
  shows "\<exists>h'. kvs_remove h r p = Inr (kvs_ok, h') \<and> kvs_wf h' \<and> kvs_store h' r (as @ a # bs) \<and>
    map fst (avail h') = map fst (avail h) @ cs @ [p] \<and>
    (\<forall>q. q \<noteq> a \<longrightarrow> hmap h' q = (if q \<in> set (p # cs) then None else hmap h q)) \<and>
    (\<forall>q \<in> set (as @ a # bs). map_option (\<lambda>n. n\<lparr>next := NULL\<rparr>) (hmap h' q) = map_option (\<lambda>n. n\<lparr>next := NULL\<rparr>) (hmap h q))"
proof -
  note S = storeD[OF st]
  have rl: "remove_loop h (length (cells h)) r p = Inr (Some a)"
    using S(2,3,5) by (intro remove_loop_found[of h r as a p bs]) auto
  have a: "a \<noteq> NULL" "p \<noteq> NULL" "p \<noteq> a" "p \<notin> set bs" "a \<notin> set bs" "a \<notin> set as" "a \<noteq> r" "p \<noteq> r" "p \<notin> set as"
    using S(3,4) by auto
  obtain na where na: "hmap h a = Some na" using S(6)[of a] by auto
  define h1 where "h1 = hput h a (na\<lparr>next := next n\<rparr>)"
  have h1: "hset h a (\<lambda>m. m\<lparr>next := next n\<rparr>) = Inr h1" "hmap h1 = (hmap h)(a \<mapsto> na\<lparr>next := next n\<rparr>)" "avail h1 = avail h"
    using na a(1) by (simp_all add: h1_def)
  have w1: "kvs_wf h1" unfolding h1_def using na kvs_wf_key[OF wf na] wf by (intro kvs_wf_hput) auto
  have "\<exists>h2. (if val_type n = kvs_val_child then bindE (kvs_delete h1 (u_val n)) (\<lambda>(_, h). Inr h) else Inr h1) = Inr h2 \<and>
      kvs_wf h2 \<and> hmap h2 = hmap h1 |` (- set cs) \<and> map fst (avail h2) = map fst (avail h) @ cs"
  proof (cases "val_type n = kvs_val_child \<and> u_val n \<noteq> NULL")
    case True
    then have t: "kvs_tree (hmap h) (u_val n) cs" "distinct cs" "a \<notin> set cs" using tr by auto
    have "length cs \<le> length (cells h1)"
    proof -
      have "length cs = card (set cs)" using t(2) by (simp add: distinct_card)
      also have "\<dots> \<le> card (fst ` set (cells h1))" using kvs_tree_dom[OF t(1)] h1(2)
        by (intro card_mono) (auto simp flip: hmap_dom)
      also have "\<dots> \<le> length (cells h1)" by (metis card_length length_map list.set_map)
      finally show ?thesis .
    qed
    then obtain h2 where "delete_loop h1 (length (cells h1)) (u_val n) = Inr h2" "kvs_wf h2" "hmap h2 = hmap h1 |` (- set cs)"
        "map fst (avail h2) = map fst (avail h1) @ cs"
      using delete_loop_tree[OF t(1) _ t(2) w1] t(3) h1(2) by (metis fun_upd_apply)
    then show ?thesis using True h1(3) by (auto simp: kvs_delete_def)
  next
    case False
    then show ?thesis using cs[OF False] w1 h1(3) by (auto simp: kvs_delete_def)
  qed
  then obtain h2 where h2: "(if val_type n = kvs_val_child then bindE (kvs_delete h1 (u_val n)) (\<lambda>(_, h). Inr h) else Inr h1) = Inr h2"
      "kvs_wf h2" "hmap h2 = hmap h1 |` (- set cs)" "map fst (avail h2) = map fst (avail h) @ cs" by blast
  have dj: "set cs \<inter> set (r # as @ a # p # bs) = {}" using tr cs by (cases "val_type n = kvs_val_child \<and> u_val n \<noteq> NULL") auto
  have p2: "hmap h2 p = Some n" using h2(3) h1(2) n a(3) dj by (auto simp: restrict_map_def)
  obtain h3 where h3: "hfree h2 p = Inr h3" "avail h3 = avail h2 @ [(p, n)]" using hfree_ok[OF p2 a(2)] by simp
  have w3: "kvs_wf h3" "hmap h3 = (hmap h2)(p := None)"
    using kvs_wf_hfree[OF h2(2) h3(1)] heap_wf_hfree(2)[OF _ h3(1)] h2(2) by (auto simp: kvs_wf_def)
  have m3: "hmap h3 q = (if q = p \<or> q \<in> set cs then None else if q = a then Some (na\<lparr>next := next n\<rparr>) else hmap h q)" for q
    using w3(2) h2(3) h1(2) a(3) by (simp add: restrict_map_def)
  have run: "kvs_remove h r p = Inr (kvs_ok, h3)"
    using rl n a(1,2) S(1) h1(1) h2(1) h3(1) by (simp add: kvs_remove_def)
  have "path next (hmap h) r ((r # as) @ a # p # bs) NULL" using S(2) by simp
  then have "path next (hmap h) r (r # as) a" "path next (hmap h) (next n) bs NULL"
    unfolding path_append using n na by auto
  moreover have "\<And>q. q \<in> set (r # as) \<Longrightarrow> hmap h3 q = hmap h q" "\<And>q. q \<in> set bs \<Longrightarrow> hmap h3 q = hmap h q"
    unfolding m3 using a dj by auto
  ultimately have "path next (hmap h3) r (r # as) a" "path next (hmap h3) (next n) bs NULL"
    using path_cong[of "r # as" "hmap h3" "hmap h" "next" r a] path_cong[of bs "hmap h3" "hmap h" "next" "next n" NULL] by blast+
  then have "path next (hmap h3) r ((r # as) @ a # bs) NULL" unfolding path_append using m3[of a] a dj by auto
  moreover have "hmap h3 r = hmap h r" using m3[of r] a dj by auto
  ultimately have "kvs_store h3 r (as @ a # bs)" using st by (auto simp: kvs_store_def)
  moreover have "\<forall>q. q \<noteq> a \<longrightarrow> hmap h3 q = (if q \<in> set (p # cs) then None else hmap h q)" using m3 by simp
  moreover have "\<forall>q \<in> set (as @ a # bs). map_option (\<lambda>n. n\<lparr>next := NULL\<rparr>) (hmap h3 q) = map_option (\<lambda>n. n\<lparr>next := NULL\<rparr>) (hmap h q)"
    using m3 dj na a by auto
  ultimately show ?thesis using run w3(1) h2(4) h3(2) by auto
qed


section \<open>Properties\<close>

definition ex_key :: "string \<Rightarrow> u8 list" where
  "ex_key s = take key_len (str s @ replicate key_len 0)"

definition ex_entry :: "string \<Rightarrow> kvs_val_type \<Rightarrow> u64 \<Rightarrow> addr \<Rightarrow> kvs" where
  "ex_entry s vt v nx = \<lparr>key = ex_key s, owner_locked = False, key_hash = hash (str s), val_type = vt, u_val = v, next = nx\<rparr>"

text \<open>A store with the entries \<open>b\<close> and \<open>a\<close> (in this order), room for one more node, and an empty store at \<open>64\<close>.\<close>

definition ex_kvs :: kvs_heap where
  "ex_kvs = \<lparr>cells = [(16, ex_entry [] kvs_val_uninit 0 48), (48, ex_entry ''b'' kvs_val_child 64 32),
                     (32, ex_entry ''a'' kvs_val_uint 7 0), (64, ex_entry [] kvs_val_uninit 0 0)],
            avail = [(80, ex_entry ''stale'' kvs_val_none 0 0)]\<rparr>"

lemma ex_key_length [simp]: "length (ex_key s) = key_len"
  by (simp add: ex_key_def)

lemma ex_kvs_ok: "kvs_wf ex_kvs" "kvs_store ex_kvs 16 [48, 32]" "kvs_tree (hmap ex_kvs) 64 [64]"
proof -
  show "kvs_wf ex_kvs" by (auto simp: kvs_wf_def heap_wf_def ex_kvs_def ex_entry_def split: if_splits)
  show "kvs_store ex_kvs 16 [48, 32]" by (simp add: kvs_store_def ex_kvs_def ex_entry_def)
  show "kvs_tree (hmap ex_kvs) 64 [64]"
    using kvs_node[of 64 "hmap ex_kvs" "ex_entry [] kvs_val_uninit 0 0" "[]" "[]"] by (simp add: ex_kvs_def ex_entry_def)
qed

text \<open>
  Adding and finding: \<open>kvs_add\<close> of a key that is already found reports \<^verbatim>\<open>exists\<close>, of a new key without
  memory \<^verbatim>\<open>outofmemory\<close>, both leaving the store alone; otherwise the entry becomes the first of the store,
  is the one \<open>kvs_find\<close> answers for the key, carries the value and type, and every key that does not match
  the new entry is answered as before.
\<close>

theorem kvs_add_then_find:
  assumes "kvs_wf h" "kvs_store h r ps" "0 \<notin> set k" "vt \<noteq> kvs_val_uninit"
  shows "case (kvs_lookup h ps k, avail h) of
      (Some _, _) \<Rightarrow> kvs_add_internal h r (Some k) v vt = Inr (kvs_error_exists, h)
    | (None, []) \<Rightarrow> kvs_add_internal h r (Some k) v vt = Inr (kvs_error_outofmemory, h)
    | (None, (p, _) # _) \<Rightarrow> \<exists>h' n. kvs_add_internal h r (Some k) v vt = Inr (kvs_ok, h') \<and> kvs_wf h' \<and>
        kvs_store h' r (p # ps) \<and> kvs_find h' r (Some k) = Inr (kvs_ok, Some p) \<and>
        hmap h' p = Some n \<and> val_type n = vt \<and> u_val n = v \<and>
        (\<forall>k'. \<not> kvs_match k' n \<longrightarrow> kvs_find h' r (Some k') = kvs_find h r (Some k'))"
proof (cases "kvs_lookup h ps k")
  case (Some q)
  then show ?thesis using kvs_add_exists[OF assms(2) Some] by simp
next
  case None
  show ?thesis
  proof (cases "avail h")
    case Nil
    then show ?thesis using None kvs_add_full[OF assms(2) None Nil] by simp
  next
    case (Cons pg rest)
    obtain p g where av: "avail h = (p, g) # rest" using Cons by (cases pg) auto
    obtain h' n where a: "kvs_add_internal h r (Some k) v vt = Inr (kvs_ok, h')" "kvs_wf h'" "kvs_store h' r (p # ps)"
        "hmap h' p = Some n" "fresh_entry k v vt n" "\<forall>q. q \<noteq> p \<and> q \<noteq> r \<longrightarrow> hmap h' q = hmap h q" "hmap h p = None"
      using kvs_add_new[OF assms(1-3) None assms(4) av] by blast
    have "\<And>q. q \<in> set ps \<Longrightarrow> hmap h' q = hmap h q" using a(6,7) storeD(3,6)[OF assms(2)] by force
    then have lk: "kvs_lookup h' (p # ps) j = (if kvs_match j n then Some p else kvs_lookup h ps j)" for j
      by (rule kvs_lookup_after_add[OF a(4)])
    have "kvs_find h' r (Some k') = kvs_find h r (Some k')" if "\<not> kvs_match k' n" for k'
      using kvs_find_lookup[OF a(3), of k'] kvs_find_lookup[OF assms(2), of k'] lk[of k'] that by simp
    moreover have "kvs_find h' r (Some k) = Inr (kvs_ok, Some p)"
      using kvs_find_lookup[OF a(3), of k] lk[of k] a(5) by (simp add: fresh_entry_def)
    ultimately show ?thesis using None av a by (auto simp: fresh_entry_def)
  qed
qed

theorem kvs_add_then_find_witness:
  "\<exists>h'. kvs_add_internal ex_kvs 16 (Some (str ''c'')) 9 kvs_val_uint = Inr (kvs_ok, h') \<and>
     kvs_find h' 16 (Some (str ''c'')) = Inr (kvs_ok, Some 80)"
proof -
  have l: "kvs_lookup ex_kvs [48, 32] (str ''c'') = None"
    by (simp add: kvs_lookup_def ex_kvs_def ex_entry_def kvs_match_def hash_def key_strnlen_def str_def of_char_def)
  have "0 \<notin> set (str ''c'')" "avail ex_kvs = [(80, ex_entry ''stale'' kvs_val_none 0 0)]"
    by (simp_all add: str_def of_char_def ex_kvs_def)
  then show ?thesis using kvs_add_then_find[OF ex_kvs_ok(1,2), of "str ''c''" kvs_val_uint 9] l by auto
qed

text \<open>
  Values survive: what a setter stores through an entry of its type a getter of that type reads
  back (a \<^verbatim>\<open>bool\<close> through its 32 bits), no other entry changes, and a getter or setter of another
  type reports \<^verbatim>\<open>invalidargs\<close> and changes nothing.
\<close>

theorem kvs_set_get_roundtrip:
  assumes "hmap h p = Some n" "p \<noteq> NULL"
  shows "(if val_type n = kvs_val_uint
      then \<exists>h'. kvs_set_uint h p v = Inr (kvs_ok, h') \<and> kvs_get_uint h' p True = Inr (kvs_ok, Some v) \<and> (\<forall>q. q \<noteq> p \<longrightarrow> hmap h' q = hmap h q)
      else kvs_set_uint h p v = Inr (kvs_error_invalidargs, h) \<and> kvs_get_uint h p True = Inr (kvs_error_invalidargs, None)) \<and>
    (if val_type n = kvs_val_bool
      then \<exists>h'. kvs_set_bool h p b = Inr (kvs_ok, h') \<and> kvs_get_bool h' p True = Inr (kvs_ok, Some b) \<and> (\<forall>q. q \<noteq> p \<longrightarrow> hmap h' q = hmap h q)
      else kvs_set_bool h p b = Inr (kvs_error_invalidargs, h) \<and> kvs_get_bool h p True = Inr (kvs_error_invalidargs, None))"
proof -
  have "ucast (scast b :: u64) = b" by (rule bit_word_eqI) (auto simp: bit_simps)
  then show ?thesis using assms
    by (auto simp: kvs_set_uint_def kvs_get_uint_def kvs_set_bool_def kvs_get_bool_def kvs_set_internal_def kvs_get_internal_def)
qed

theorem kvs_set_get_roundtrip_witness:
  "\<exists>h'. kvs_set_uint ex_kvs 32 5 = Inr (kvs_ok, h') \<and> kvs_get_uint h' 32 True = Inr (kvs_ok, Some 5)"
proof -
  have "hmap ex_kvs 32 = Some (ex_entry ''a'' kvs_val_uint 7 0)" "val_type (ex_entry ''a'' kvs_val_uint 7 0) = kvs_val_uint"
    by (simp_all add: ex_kvs_def ex_entry_def)
  then show ?thesis using kvs_set_get_roundtrip[of ex_kvs 32 "ex_entry ''a'' kvs_val_uint 7 0" 5 0] by auto
qed

text \<open>
  \<open>kvs_remove\<close> takes an entry out of the store, with everything below it when it is a child
  store, keeps the other entries in order and returns every removed cell to the allocator once. This
  holds for every entry except the first of the store, the one added last: for that entry the search
  starts one node too late, \<^verbatim>\<open>notfound\<close> is reported and nothing is removed.
\<close>

theorem kvs_remove_all_but_first:
  assumes "kvs_wf h"
  shows "(kvs_store h r (as @ a # p # bs) \<longrightarrow> hmap h p = Some n \<longrightarrow>
      (if val_type n = kvs_val_child \<and> u_val n \<noteq> NULL
       then kvs_tree (hmap h) (u_val n) cs \<and> distinct cs \<and> set cs \<inter> set (r # as @ a # p # bs) = {} else cs = []) \<longrightarrow>
      (\<exists>h'. kvs_remove h r p = Inr (kvs_ok, h') \<and> kvs_wf h' \<and> kvs_store h' r (as @ a # bs) \<and>
         map fst (avail h') = map fst (avail h) @ cs @ [p] \<and>
         (\<forall>q. q \<noteq> a \<longrightarrow> hmap h' q = (if q \<in> set (p # cs) then None else hmap h q)))) \<and>
    (kvs_store h r (p # ps) \<longrightarrow> kvs_remove h r p = Inr (kvs_error_notfound, h))"
proof (intro conjI impI)
  assume a: "kvs_store h r (as @ a # p # bs)" "hmap h p = Some n"
    "if val_type n = kvs_val_child \<and> u_val n \<noteq> NULL
     then kvs_tree (hmap h) (u_val n) cs \<and> distinct cs \<and> set cs \<inter> set (r # as @ a # p # bs) = {} else cs = []"
  show "\<exists>h'. kvs_remove h r p = Inr (kvs_ok, h') \<and> kvs_wf h' \<and> kvs_store h' r (as @ a # bs) \<and>
         map fst (avail h') = map fst (avail h) @ cs @ [p] \<and>
         (\<forall>q. q \<noteq> a \<longrightarrow> hmap h' q = (if q \<in> set (p # cs) then None else hmap h q))"
    using kvs_remove_later[OF assms a(1,2), of cs] a(3) by (cases "val_type n = kvs_val_child \<and> u_val n \<noteq> NULL") auto
qed (rule kvs_remove_first)

theorem kvs_remove_all_but_first_witness:
  "(\<exists>h'. kvs_remove ex_kvs 16 32 = Inr (kvs_ok, h') \<and> kvs_store h' 16 [48]) \<and>
   kvs_remove ex_kvs 16 48 = Inr (kvs_error_notfound, ex_kvs)"
proof -
  let ?n = "ex_entry ''a'' kvs_val_uint 7 0"
  have n: "hmap ex_kvs 32 = Some ?n" "val_type ?n \<noteq> kvs_val_child" by (simp_all add: ex_kvs_def ex_entry_def)
  then have "\<exists>h'. kvs_remove ex_kvs 16 32 = Inr (kvs_ok, h') \<and> kvs_store h' 16 [48]"
    using kvs_remove_all_but_first[OF ex_kvs_ok(1), of 16 "[]" 48 32 "[]" ?n "[]"] ex_kvs_ok(2) by auto
  moreover have "kvs_remove ex_kvs 16 48 = Inr (kvs_error_notfound, ex_kvs)"
    using kvs_remove_all_but_first[OF ex_kvs_ok(1), of 16 "[]" 0 48 "[]" ?n "[]" "[32]"] ex_kvs_ok(2) by blast
  ultimately show ?thesis by blast
qed

text \<open>
  \<open>kvs_delete\<close> ends and releases exactly the cells of the store and of the stores below it, each
  once, children before the entry that holds them; every other cell is untouched.
\<close>

theorem kvs_delete_frees_tree:
  assumes "kvs_wf h" "kvs_tree (hmap h) p as" "distinct as"
  shows "\<exists>h'. kvs_delete h p = Inr (kvs_ok, h') \<and> kvs_wf h' \<and> map fst (avail h') = map fst (avail h) @ as \<and>
    (\<forall>q. hmap h' q = (if q \<in> set as then None else hmap h q))"
  using kvs_delete_tree[OF assms(2,3,1)] by (auto simp: restrict_map_def)

theorem kvs_delete_frees_tree_witness:
  "\<exists>h'. kvs_delete ex_kvs 16 = Inr (kvs_ok, h') \<and> map fst (avail h') = [80, 16, 64, 48, 32]"
proof -
  have e: "kvs_tree (hmap ex_kvs) 32 [32]"
    using kvs_node[of 32 "hmap ex_kvs" "ex_entry ''a'' kvs_val_uint 7 0" "[]" "[]"] by (simp add: ex_kvs_def ex_entry_def)
  have "kvs_tree (hmap ex_kvs) 48 [64, 48, 32]"
    using kvs_node[of 48 "hmap ex_kvs" "ex_entry ''b'' kvs_val_child 64 32" "[64]" "[32]"] e ex_kvs_ok(3) by (simp add: ex_kvs_def ex_entry_def)
  then have "kvs_tree (hmap ex_kvs) 16 [16, 64, 48, 32]"
    using kvs_node[of 16 "hmap ex_kvs" "ex_entry [] kvs_val_uninit 0 48" "[]" "[64, 48, 32]"] by (simp add: ex_kvs_def ex_entry_def)
  then show ?thesis using kvs_delete_frees_tree[OF ex_kvs_ok(1), of 16 "[16, 64, 48, 32]"] by (auto simp: ex_kvs_def)
qed

text \<open>
  \<open>kvs_set_key\<close> renames an entry but keeps the hash of its old key, so the entry is not found under a new
  name with another hash.
\<close>

theorem kvs_set_key_stale_hash:
  assumes "kvs_set_key h p (Some k) = Inr (kvs_ok, h')" "hmap h p = Some n" "key_hash n \<noteq> hash (take (key_strnlen k) k)"
  shows "\<not> kvs_match k (the (hmap h' p))"
  using assms by (auto simp: kvs_set_key_def kvs_match_def res_iff split: if_splits)

end
