(* ===== verification/Store.thy ===== *)
theory Store
  imports Kvs
begin

text \<open>
  The tree of key value stores that the registry (\<^verbatim>\<open>modules/SysReg/src/main.c\<close>) and the object store
  (\<^verbatim>\<open>modules/SysObj/src/main.c\<close>) are both built on. The two modules are separate programs with the same
  state and, function by function, the same code; what they share line by line is stated once here, and
  the modules' own functions are instances in \<^verbatim>\<open>Registry\<close> and \<^verbatim>\<open>ObjStore\<close>.

  Paths and names are strings without their terminator, \<open>None\<close> being the null pointer. The buffers of
  string values are cells of their own, holding the bytes of the whole block the allocator returned.
\<close>

section \<open>State\<close>

datatype store_error = err_ok | err_invalidargs | err_dne | err_exists | err_failure | err_typematchfailure

record store =
  kheap :: kvs_heap
  sheap :: "u8 list heap"
  kern_registry :: addr
  kern_lock :: bool

definition lock :: "store \<Rightarrow> store res" where
  "lock st = (if kern_lock st then Inl Deadlock else Inr (st\<lparr>kern_lock := True\<rparr>))"

definition unlock :: "store \<Rightarrow> store" where
  "unlock st = st\<lparr>kern_lock := False\<rparr>"

abbreviation (input) max_keylen :: nat where
  "max_keylen \<equiv> 200"

abbreviation (input) max_strlen :: nat where
  "max_strlen \<equiv> 4096"

section \<open>Walking a path\<close>

lemma length_tl_dropWhile: "c \<in> set xs \<Longrightarrow> length (dropWhile P xs) - Suc 0 < length xs"
  using length_dropWhile_le[of P xs] by (cases xs) auto

text \<open>
  The loop over the parts of a path, entered with the lock held. \<open>k\<close> is the value last stored through
  the out parameter. The part is copied into a zeroed buffer, so it is a terminated string there.
\<close>

function getkvs_loop :: "store \<Rightarrow> addr \<Rightarrow> u8 list \<Rightarrow> addr \<Rightarrow> (store_error \<times> addr \<times> store) res" where
  "getkvs_loop st cur_kvs pathname k =
     (let part = takeWhile (\<lambda>c. c \<noteq> 47) pathname;
          n_part = dropWhile (\<lambda>c. c \<noteq> 47) pathname
      in if length part > max_keylen then Inr (err_dne, k, unlock st)
         else bindE (kvs_find (kheap st) cur_kvs (Some part)) (\<lambda>(e, found).
           case found of
             None \<Rightarrow> Inr (err_dne, cur_kvs, unlock st)
           | Some p \<Rightarrow>
               bindE (kvs_get_child (kheap st) p True) (\<lambda>(e, child).
                 case child of
                   None \<Rightarrow> Inl (Panic ''Unexpected error!'')
                 | Some c \<Rightarrow>
                     if n_part = [] then Inr (err_ok, c, unlock st)
                     else getkvs_loop st c (tl n_part) c)))"
  by pat_completeness auto
termination
  by (relation "measure (\<lambda>(st, cur, p, k). length p)") (auto intro: length_tl_dropWhile)

declare getkvs_loop.simps [simp del]

definition getkvs :: "store \<Rightarrow> cstring option \<Rightarrow> addr \<Rightarrow> (store_error \<times> addr \<times> store) res" where
  "getkvs st pathname k =
     (let cur_kvs = kern_registry st; p = (case pathname of None \<Rightarrow> [] | Some p \<Rightarrow> p) in
      if length p = 0 then Inr (err_ok, cur_kvs, st)
      else bindE (lock st) (\<lambda>st. getkvs_loop st cur_kvs p k))"

section \<open>The common bodies\<close>

text \<open>The checks and the walk every operation on a named key starts with.\<close>

definition in_parent ::
  "store \<Rightarrow> cstring option \<Rightarrow> cstring option \<Rightarrow> (store_error \<Rightarrow> store \<Rightarrow> 'a) \<Rightarrow>
   (store \<Rightarrow> addr \<Rightarrow> 'a res) \<Rightarrow> 'a res" where
  "in_parent st pathname keyname fail body =
     (if pathname = None then Inr (fail err_invalidargs st)
      else if keyname = None then Inr (fail err_invalidargs st)
      else bindE (getkvs st pathname NULL) (\<lambda>(err, parent_kvs, st).
        if err \<noteq> err_ok then Inr (fail err st) else body st parent_kvs))"

definition createdirectory :: "store \<Rightarrow> cstring option \<Rightarrow> cstring option \<Rightarrow> (store_error \<times> store) res" where
  "createdirectory st pathname dirname =
     in_parent st pathname dirname Pair (\<lambda>st parent_kvs.
       bindE (lock st) (\<lambda>st.
       bindE (kvs_find (kheap st) parent_kvs dirname) (\<lambda>(err, _).
         if err = kvs_ok then Inr (err_exists, unlock st)
         else bindE (kvs_create (kheap st) True) (\<lambda>(err, n_kvs, h).
           let st = st\<lparr>kheap := h\<rparr> in
           if err \<noteq> kvs_ok then Inr (err_failure, unlock st)
           else bindE (kvs_add_child (kheap st) parent_kvs dirname n_kvs) (\<lambda>(err, h).
             let st = st\<lparr>kheap := h\<rparr> in
             if err \<noteq> kvs_ok then Inr (err_failure, unlock st) else Inr (err_ok, unlock st))))))"

definition addkey ::
  "store \<Rightarrow> cstring option \<Rightarrow> cstring option \<Rightarrow> (kvs_heap \<Rightarrow> addr \<Rightarrow> (kvs_error \<times> kvs_heap) res) \<Rightarrow>
   (store_error \<times> store) res" where
  "addkey st pathname keyname add =
     in_parent st pathname keyname Pair (\<lambda>st parent_kvs.
       bindE (lock st) (\<lambda>st.
       bindE (add (kheap st) parent_kvs) (\<lambda>(err, h).
         let st = unlock (st\<lparr>kheap := h\<rparr>) in
         if err \<noteq> kvs_ok then Inr (err_failure, st) else Inr (err_ok, st))))"

text \<open>A string value is copied into a block of its own, of the length of the string; \<^verbatim>\<open>malloc(0)\<close> is null.\<close>

definition addkey_str ::
  "store \<Rightarrow> cstring option \<Rightarrow> cstring option \<Rightarrow> cstring option \<Rightarrow> (store_error \<times> store) res" where
  "addkey_str st pathname keyname val =
     in_parent st pathname keyname Pair (\<lambda>st parent_kvs.
       let v = (case val of None \<Rightarrow> [] | Some v \<Rightarrow> v);
           storelen = min max_strlen (length v);
           (strstore, sh) = (if storelen = 0 then (NULL, sheap st) else halloc (sheap st))
       in if strstore = NULL then Inr (err_failure, st)
          else bindE (hget sh strstore) (\<lambda>b.
               bindE (buf_strncpy b v storelen) (\<lambda>b.
                 let st = st\<lparr>sheap := hput sh strstore b\<rparr> in
                 bindE (lock st) (\<lambda>st.
                 bindE (kvs_add_str (kheap st) parent_kvs keyname strstore) (\<lambda>(err, h).
                   let st = unlock (st\<lparr>kheap := h\<rparr>) in
                   if err \<noteq> kvs_ok then Inr (err_failure, st) else Inr (err_ok, st))))))"

text \<open>Finding the entry of a key and checking its type, with the lock held.\<close>

definition find_typed ::
  "store \<Rightarrow> addr \<Rightarrow> cstring option \<Rightarrow> kvs_val_type \<Rightarrow> (store_error \<Rightarrow> store \<Rightarrow> 'a) \<Rightarrow>
   (store \<Rightarrow> addr \<Rightarrow> 'a res) \<Rightarrow> 'a res" where
  "find_typed st parent_kvs keyname vt fail body =
     bindE (lock st) (\<lambda>st.
     bindE (kvs_find (kheap st) parent_kvs keyname) (\<lambda>(e, found).
       case found of
         None \<Rightarrow> Inr (fail err_dne (unlock st))
       | Some key_kvs \<Rightarrow>
           bindE (kvs_get_type (kheap st) key_kvs True) (\<lambda>(e, t).
             case t of
               None \<Rightarrow> Inr (fail err_failure (unlock st))
             | Some valtype \<Rightarrow>
                 if valtype \<noteq> vt then Inr (fail err_typematchfailure (unlock st))
                 else body st key_kvs)))"

abbreviation fail_read :: "store_error \<Rightarrow> store \<Rightarrow> store_error \<times> 'v option \<times> store" where
  "fail_read e st \<equiv> (e, None, st)"

definition readkey ::
  "store \<Rightarrow> cstring option \<Rightarrow> cstring option \<Rightarrow> kvs_val_type \<Rightarrow> (kvs_heap \<Rightarrow> addr \<Rightarrow> bool \<Rightarrow> (kvs_error \<times> 'v option) res) \<Rightarrow>
   bool \<Rightarrow> (store_error \<times> 'v option \<times> store) res" where
  "readkey st pathname keyname vt get val =
     in_parent st pathname keyname fail_read (\<lambda>st parent_kvs.
       find_typed st parent_kvs keyname vt fail_read (\<lambda>st key_kvs.
         if val then bindE (get (kheap st) key_kvs val) (\<lambda>(e, v).
           if e \<noteq> kvs_ok then Inr (err_failure, None, unlock st) else Inr (err_ok, v, unlock st))
         else Inr (err_ok, None, unlock st)))"

text \<open>
  \<open>strncpy\<close> and \<open>strlen\<close> on the bytes of a stored string: they run past the end of the block when it
  holds no terminator.
\<close>

definition str_copy :: "u8 list \<Rightarrow> u8 list \<Rightarrow> nat \<Rightarrow> u8 list res" where
  "str_copy dest src n =
     (if 0 \<notin> set src \<and> length src < n then Inl OutOfBounds else buf_strncpy dest src n)"

definition str_len :: "u8 list \<Rightarrow> u64 res" where
  "str_len s = (if 0 \<notin> set s then Inl OutOfBounds else Inr (of_nat (length (takeWhile (\<lambda>c. c \<noteq> 0) s))))"

definition readkey_str ::
  "store \<Rightarrow> cstring option \<Rightarrow> cstring option \<Rightarrow> u8 list option \<Rightarrow> u64 option \<Rightarrow>
   (store_error \<times> (u8 list option \<times> u64 option) option \<times> store) res" where
  "readkey_str st pathname keyname val val_len =
     in_parent st pathname keyname fail_read (\<lambda>st parent_kvs.
       find_typed st parent_kvs keyname kvs_val_str fail_read (\<lambda>st key_kvs.
         case val of
           None \<Rightarrow> Inr (err_ok, Some (None, val_len), unlock st)
         | Some buf \<Rightarrow>
             bindE (kvs_get_str (kheap st) key_kvs True) (\<lambda>(e, strval).
               case strval of
                 None \<Rightarrow> Inr (err_failure, None, unlock st)
               | Some p \<Rightarrow>
                   case val_len of
                     None \<Rightarrow> Inr (err_ok, Some (val, None), unlock st)
                   | Some n \<Rightarrow>
                       bindE (hget (sheap st) p) (\<lambda>s.
                       bindE (str_copy buf s (unat n)) (\<lambda>buf.
                       bindE (str_len s) (\<lambda>l. Inr (err_ok, Some (Some buf, Some l), unlock st)))))))"

definition writekey ::
  "store \<Rightarrow> cstring option \<Rightarrow> cstring option \<Rightarrow> kvs_val_type \<Rightarrow> (kvs_heap \<Rightarrow> addr \<Rightarrow> (kvs_error \<times> kvs_heap) res) \<Rightarrow>
   (store_error \<times> store) res" where
  "writekey st pathname keyname vt put =
     in_parent st pathname keyname Pair (\<lambda>st parent_kvs.
       find_typed st parent_kvs keyname vt Pair (\<lambda>st key_kvs.
         bindE (put (kheap st) key_kvs) (\<lambda>(e, h).
           let st = st\<lparr>kheap := h\<rparr> in
           if e \<noteq> kvs_ok then Inr (err_failure, unlock st) else Inr (err_ok, unlock st))))"

text \<open>The error of an operation on an entry that the caller already holds.\<close>

definition local_error :: "kvs_error \<Rightarrow> store_error" where
  "local_error err = (if err \<noteq> kvs_ok then err_dne else err_ok)"

section \<open>The tree of directories\<close>

text \<open>
  \<open>D\<close> gives the entries of every directory and \<open>dep\<close> its depth: the directories are lists of entries
  that share no node, and the value of a child entry is a directory one level further down.
\<close>

definition tree_inv :: "store \<Rightarrow> (addr \<Rightarrow> addr list option) \<Rightarrow> (addr \<Rightarrow> nat) \<Rightarrow> bool" where
  "tree_inv st D dep \<longleftrightarrow> kvs_wf (kheap st) \<and> \<not> kern_lock st \<and> kern_registry st \<in> dom D \<and> dep (kern_registry st) = 0 \<and>
     (\<forall>d ps. D d = Some ps \<longrightarrow> kvs_store (kheap st) d ps) \<and>
     (\<forall>d e ps qs. D d = Some ps \<and> D e = Some qs \<and> d \<noteq> e \<longrightarrow> set (d # ps) \<inter> set (e # qs) = {}) \<and>
     (\<forall>d ps p n. D d = Some ps \<and> p \<in> set ps \<and> hmap (kheap st) p = Some n \<and> val_type n = kvs_val_child \<longrightarrow>
        u_val n \<in> dom D \<and> dep (u_val n) = Suc (dep d))"

text \<open>What a walk along the parts of a path ends in.\<close>

datatype walk = At addr | Missing | NotDir

function parts :: "u8 list \<Rightarrow> u8 list list" where
  "parts p = takeWhile (\<lambda>c. c \<noteq> 47) p #
     (if 47 \<in> set p then parts (tl (dropWhile (\<lambda>c. c \<noteq> 47) p)) else [])"
  by pat_completeness auto
termination
  by (relation "measure length") (auto intro: length_tl_dropWhile)

declare parts.simps [simp del]

definition path_parts :: "u8 list \<Rightarrow> u8 list list" where
  "path_parts p = (if p = [] then [] else parts p)"

primrec walk_from :: "kvs_heap \<Rightarrow> (addr \<Rightarrow> addr list option) \<Rightarrow> addr \<Rightarrow> u8 list list \<Rightarrow> walk" where
  "walk_from h D d [] = At d"
| "walk_from h D d (c # cs) =
     (if length c > max_keylen then Missing
      else case kvs_lookup h (the (D d)) c of
        None \<Rightarrow> Missing
      | Some p \<Rightarrow> if val_type (the (hmap h p)) = kvs_val_child then walk_from h D (u_val (the (hmap h p))) cs else NotDir)"

lemma walk_from_induct_simps: "walk_from h D d (c # cs) = At e \<Longrightarrow> \<exists>p. length c \<le> max_keylen \<and> kvs_lookup h (the (D d)) c = Some p \<and>
   val_type (the (hmap h p)) = kvs_val_child \<and> walk_from h D (u_val (the (hmap h p))) cs = At e"
  by (auto split: if_splits option.splits)

definition lookup_path :: "store \<Rightarrow> (addr \<Rightarrow> addr list option) \<Rightarrow> u8 list \<Rightarrow> walk" where
  "lookup_path st D p = walk_from (kheap st) D (kern_registry st) (path_parts p)"

lemma tree_invD:
  assumes "tree_inv st D dep"
  shows "kvs_wf (kheap st)" "\<not> kern_lock st" "kern_registry st \<in> dom D" "dep (kern_registry st) = 0"
    "\<And>d ps. D d = Some ps \<Longrightarrow> kvs_store (kheap st) d ps"
    "\<And>d e ps qs. D d = Some ps \<Longrightarrow> D e = Some qs \<Longrightarrow> d \<noteq> e \<Longrightarrow> set (d # ps) \<inter> set (e # qs) = {}"
    "\<And>d ps p n. D d = Some ps \<Longrightarrow> p \<in> set ps \<Longrightarrow> hmap (kheap st) p = Some n \<Longrightarrow> val_type n = kvs_val_child \<Longrightarrow>
        u_val n \<in> dom D \<and> dep (u_val n) = Suc (dep d)"
proof -
  show "kvs_wf (kheap st)" "\<not> kern_lock st" "kern_registry st \<in> dom D" "dep (kern_registry st) = 0"
    "\<And>d ps. D d = Some ps \<Longrightarrow> kvs_store (kheap st) d ps" using assms unfolding tree_inv_def by blast+
  show "\<And>d e ps qs. D d = Some ps \<Longrightarrow> D e = Some qs \<Longrightarrow> d \<noteq> e \<Longrightarrow> set (d # ps) \<inter> set (e # qs) = {}"
    using assms unfolding tree_inv_def by blast
  show "\<And>d ps p n. D d = Some ps \<Longrightarrow> p \<in> set ps \<Longrightarrow> hmap (kheap st) p = Some n \<Longrightarrow> val_type n = kvs_val_child \<Longrightarrow>
        u_val n \<in> dom D \<and> dep (u_val n) = Suc (dep d)" using assms unfolding tree_inv_def by blast
qed

lemma kvs_lookup_mem: "kvs_lookup h ps k = Some p \<Longrightarrow> p \<in> set ps \<and> kvs_match k (the (hmap h p))"
  by (auto simp: kvs_lookup_def find_Some_iff)

lemma lookup_node:
  assumes "kvs_store h d ps" "kvs_lookup h ps k = Some p"
  obtains n where "hmap h p = Some n" "p \<noteq> NULL" "p \<in> set ps"
  using kvs_lookup_mem[OF assms(2)] storeD(4,6)[OF assms(1)] that by fastforce

lemma lock_unlock: "\<not> kern_lock st \<Longrightarrow> lock st = Inr (st\<lparr>kern_lock := True\<rparr>) \<and> unlock (st\<lparr>kern_lock := True\<rparr>) = st"
  by (cases st) (simp add: lock_def unlock_def)

lemma unlock_kheap [simp]: "\<not> kern_lock st \<Longrightarrow> unlock (st\<lparr>kern_lock := True, kheap := h\<rparr>) = st\<lparr>kheap := h\<rparr>"
  by (cases st) (simp add: unlock_def)

lemma getkvs_loop_walk:
  assumes inv: "tree_inv st D dep"
  shows "d \<in> dom D \<Longrightarrow>
    (case walk_from (kheap st) D d (parts p) of
       At e \<Rightarrow> getkvs_loop (st\<lparr>kern_lock := True\<rparr>) d p k = Inr (err_ok, e, st)
     | Missing \<Rightarrow> \<exists>k'. getkvs_loop (st\<lparr>kern_lock := True\<rparr>) d p k = Inr (err_dne, k', st)
     | NotDir \<Rightarrow> getkvs_loop (st\<lparr>kern_lock := True\<rparr>) d p k = Inl (Panic ''Unexpected error!''))"
proof (induction p arbitrary: d k rule: parts.induct)
  case (1 p)
  let ?st = "st\<lparr>kern_lock := True\<rparr>" and ?c = "takeWhile (\<lambda>c. c \<noteq> 47) p" and ?r = "dropWhile (\<lambda>c. c \<noteq> 47) p"
  note I = tree_invD[OF inv]
  have ul: "unlock ?st = st" using lock_unlock[OF I(2)] by simp
  obtain ps where ps: "D d = Some ps" using 1(2) by auto
  note S = I(5)[OF ps]
  have r: "?r = [] \<longleftrightarrow> 47 \<notin> set p" by (auto simp: dropWhile_eq_Nil_conv)
  show ?case
  proof (cases "length ?c > max_keylen \<or> kvs_lookup (kheap st) ps ?c = None")
    case True
    then show ?thesis using kvs_find_lookup[OF S, of ?c] ps
      by (subst parts.simps, subst getkvs_loop.simps) (auto simp: Let_def ul)
  next
    case False
    then obtain q where q: "kvs_lookup (kheap st) ps ?c = Some q" "\<not> length ?c > max_keylen" by auto
    obtain n where n: "hmap (kheap st) q = Some n" "q \<noteq> NULL" "q \<in> set ps" using lookup_node[OF S q(1)] .
    have kf: "kvs_find (kheap ?st) d (Some ?c) = Inr (kvs_ok, Some q)" using kvs_find_lookup[OF S, of ?c] q by simp
    have w: "parts p = ?c # (if 47 \<in> set p then parts (tl ?r) else [])" by (subst parts.simps) simp
    show ?thesis
    proof (cases "val_type n = kvs_val_child")
      case False
      then show ?thesis using kf q n ps
        by (subst w, subst getkvs_loop.simps) (simp add: Let_def kvs_get_child_def kvs_get_internal_def)
    next
      case True
      have c: "kvs_get_child (kheap ?st) q True = Inr (kvs_ok, Some (u_val n))"
        using n True by (simp add: kvs_get_child_def kvs_get_internal_def)
      have dd: "u_val n \<in> dom D" using I(7)[OF ps n(3) n(1) True] by simp
      have g: "getkvs_loop ?st d p k = (if ?r = [] then Inr (err_ok, u_val n, st) else getkvs_loop ?st (u_val n) (tl ?r) (u_val n))"
        using kf c q r by (subst getkvs_loop.simps) (auto simp: Let_def ul)
      have wf: "walk_from (kheap st) D d (parts p) = walk_from (kheap st) D (u_val n) (if 47 \<in> set p then parts (tl ?r) else [])"
        using q n True ps by (subst w) simp
      show ?thesis unfolding g wf using 1(1)[OF _ dd] r by (cases "47 \<in> set p") auto
    qed
  qed
qed

lemma getkvs_walk:
  assumes inv: "tree_inv st D dep"
  shows "case lookup_path st D p of
       At e \<Rightarrow> getkvs st (Some p) k = Inr (err_ok, e, st)
     | Missing \<Rightarrow> \<exists>k'. getkvs st (Some p) k = Inr (err_dne, k', st)
     | NotDir \<Rightarrow> getkvs st (Some p) k = Inl (Panic ''Unexpected error!'')"
proof (cases "p = []")
  case True
  then show ?thesis by (simp add: getkvs_def lookup_path_def path_parts_def)
next
  case False
  then have "getkvs st (Some p) k = getkvs_loop (st\<lparr>kern_lock := True\<rparr>) (kern_registry st) p k"
    using lock_unlock[OF tree_invD(2)[OF inv]] by (simp add: getkvs_def Let_def)
  then show ?thesis using getkvs_loop_walk[OF inv tree_invD(3)[OF inv], of p k] False
    by (simp add: lookup_path_def path_parts_def split: walk.splits)
qed

lemma walk_dep:
  "tree_inv st D dep \<Longrightarrow> d \<in> dom D \<Longrightarrow> walk_from (kheap st) D d cs = At e \<Longrightarrow> e \<in> dom D \<and> dep e = dep d + length cs"
proof (induction cs arbitrary: d)
  case Nil
  then show ?case by simp
next
  case (Cons c cs)
  obtain ps where ps: "D d = Some ps" using Cons.prems(2) by auto
  note S = tree_invD(5)[OF Cons.prems(1) ps]
  obtain p where p: "kvs_lookup (kheap st) ps c = Some p" "val_type (the (hmap (kheap st) p)) = kvs_val_child"
      "walk_from (kheap st) D (u_val (the (hmap (kheap st) p))) cs = At e"
    using walk_from_induct_simps[OF Cons.prems(3)] ps by auto
  obtain n where n: "hmap (kheap st) p = Some n" "p \<in> set ps" using lookup_node[OF S p(1)] .
  have "u_val n \<in> dom D \<and> dep (u_val n) = Suc (dep d)" using tree_invD(7)[OF Cons.prems(1) ps n(2,1)] p(2) n(1) by simp
  then show ?case using Cons.IH[OF Cons.prems(1), of "u_val n"] p(3) n(1) by simp
qed


section \<open>Adding an entry to the tree\<close>

text \<open>The new entry \<open>p\<close> is in front of directory \<open>d\<close>; nothing else of the heap changed but the root node of \<open>d\<close>.\<close>

definition grown :: "kvs_heap \<Rightarrow> addr \<Rightarrow> addr \<Rightarrow> kvs_heap \<Rightarrow> bool" where
  "grown h d p h' \<longleftrightarrow> hmap h p = None \<and> (\<forall>q. q \<noteq> p \<and> q \<noteq> d \<longrightarrow> hmap h' q = hmap h q)"

lemma grown_other:
  assumes inv: "tree_inv st D dep" and g: "grown (kheap st) d p h'" and d: "D d = Some ps" "D e = Some qs" "d \<noteq> e" "q \<in> set (e # qs)"
  shows "hmap h' q = hmap (kheap st) q"
proof -
  have "q \<noteq> d" using tree_invD(6)[OF inv d(1,2,3)] d(4) by auto
  moreover have "q \<noteq> p" using storeD(6)[OF tree_invD(5)[OF inv d(2)] d(4)] g by (auto simp: grown_def)
  ultimately show ?thesis using g by (simp add: grown_def)
qed

lemma grown_entry:
  assumes inv: "tree_inv st D dep" and g: "grown (kheap st) d p h'" and d: "D d = Some ps" "D e = Some qs" "q \<in> set qs"
  shows "hmap h' q = hmap (kheap st) q"
proof (cases "e = d")
  case True
  note S = tree_invD(5)[OF inv d(2)]
  have "q \<noteq> d" using storeD(3)[OF S] d(3) True by auto
  moreover have "q \<noteq> p" using storeD(6)[OF S, of q] d(3) g by (auto simp: grown_def)
  ultimately show ?thesis using g by (simp add: grown_def)
next
  case False
  then show ?thesis using grown_other[OF inv g d(1,2)] d(3) by auto
qed

lemma tree_inv_grow:
  assumes inv: "tree_inv st D dep" and d: "D d = Some ps" and g: "grown (kheap st) d p h'"
    and h': "kvs_wf h'" "kvs_store h' d (p # ps)" "hmap h' p = Some n"
    and c: "val_type n = kvs_val_child \<Longrightarrow> u_val n \<in> dom D \<and> dep (u_val n) = Suc (dep d)"
  shows "tree_inv (st\<lparr>kheap := h'\<rparr>) (D(d \<mapsto> p # ps)) dep"
proof -
  note I = tree_invD[OF inv]
  have pn: "p \<notin> set (e # qs)" if "D e = Some qs" for e qs
    using storeD(6)[OF I(5)[OF that], of p] g by (auto simp: grown_def)
  have st: "kvs_store h' e qs" if "(D(d \<mapsto> p # ps)) e = Some qs" for e qs
  proof (cases "e = d")
    case True
    then show ?thesis using that h'(2) by simp
  next
    case False
    then have e: "D e = Some qs" using that by simp
    show ?thesis by (rule kvs_store_frame(1)[OF I(5)[OF e]]) (rule grown_other[OF inv g d e False[symmetric]])
  qed
  have dj: "set (e # qs) \<inter> set (f # rs) = {}"
    if "(D(d \<mapsto> p # ps)) e = Some qs" "(D(d \<mapsto> p # ps)) f = Some rs" "e \<noteq> f" for e f qs rs
    using that I(6)[of e qs f rs] I(6)[of d ps f rs] I(6)[of e qs d ps] pn[of e qs] pn[of f rs] d by (auto split: if_splits)
  have ch: "u_val m \<in> dom (D(d \<mapsto> p # ps)) \<and> dep (u_val m) = Suc (dep e)"
    if e: "(D(d \<mapsto> p # ps)) e = Some qs" "q \<in> set qs" "hmap h' q = Some m" "val_type m = kvs_val_child" for e qs q m
  proof (cases "e = d \<and> q = p")
    case True
    then show ?thesis using c e h'(3) by auto
  next
    case False
    then obtain qs' where q: "D e = Some qs'" "q \<in> set qs'" using e(1,2) d by (auto split: if_splits)
    then have "hmap (kheap st) q = Some m" using grown_entry[OF inv g d q] e(3) by simp
    then show ?thesis using I(7)[OF q _ e(4)] by auto
  qed
  let ?D = "D(d \<mapsto> p # ps)"
  have st': "\<forall>e qs. ?D e = Some qs \<longrightarrow> kvs_store h' e qs" using st by blast
  have dj': "\<forall>e f qs rs. ?D e = Some qs \<and> ?D f = Some rs \<and> e \<noteq> f \<longrightarrow> set (e # qs) \<inter> set (f # rs) = {}" using dj by blast
  have ch': "\<forall>e qs q m. ?D e = Some qs \<and> q \<in> set qs \<and> hmap h' q = Some m \<and> val_type m = kvs_val_child \<longrightarrow>
      u_val m \<in> dom ?D \<and> dep (u_val m) = Suc (dep e)" using ch by blast
  have "kern_registry st \<in> dom ?D" using I(3) by simp
  moreover have e: "kheap (st\<lparr>kheap := h'\<rparr>) = h'" "kern_lock (st\<lparr>kheap := h'\<rparr>) = kern_lock st"
    "kern_registry (st\<lparr>kheap := h'\<rparr>) = kern_registry st" by simp_all
  ultimately show ?thesis unfolding tree_inv_def e using h'(1) I(2,4) st' dj' ch' by (intro conjI)
qed

lemma walk_grow:
  assumes inv: "tree_inv st D dep" and d: "D d = Some ps" and g: "grown (kheap st) d p h'"
  shows "e \<in> dom D \<Longrightarrow> dep e + length cs \<le> dep d \<Longrightarrow> walk_from h' (D(d \<mapsto> qs)) e cs = walk_from (kheap st) D e cs"
proof (induction cs arbitrary: e)
  case Nil
  then show ?case by simp
next
  case (Cons c cs)
  have ed: "e \<noteq> d" using Cons.prems(2) by auto
  obtain es where e: "D e = Some es" using Cons.prems(1) by auto
  note S = tree_invD(5)[OF inv e]
  have lk: "kvs_lookup h' es c = kvs_lookup (kheap st) es c"
    by (rule kvs_store_frame(2)[OF S]) (rule grown_other[OF inv g d e ed[symmetric]])
  show ?case
  proof (cases "kvs_lookup (kheap st) es c")
    case None
    then show ?thesis using lk e ed by simp
  next
    case (Some q)
    obtain n where n: "hmap (kheap st) q = Some n" "q \<in> set es" using lookup_node[OF S Some] .
    have n': "hmap h' q = Some n" using grown_entry[OF inv g d e n(2)] n(1) by simp
    have "walk_from h' (D(d \<mapsto> qs)) (u_val n) cs = walk_from (kheap st) D (u_val n) cs" if "val_type n = kvs_val_child"
      using Cons.IH[of "u_val n"] tree_invD(7)[OF inv e n(2,1) that] Cons.prems(2) by (simp add: fun_upd_def)
    then show ?thesis using lk e ed Some n(1) n' by (simp add: fun_upd_def)
  qed
qed

lemma lookup_path_grow:
  assumes inv: "tree_inv st D dep" and d: "D d = Some ps" and g: "grown (kheap st) d p h'" and l: "lookup_path st D x = At d"
  shows "lookup_path (st\<lparr>kheap := h'\<rparr>) (D(d \<mapsto> qs)) x = At d"
  using walk_grow[OF inv d g tree_invD(3)[OF inv], of "path_parts x" qs]
    walk_dep[OF inv tree_invD(3)[OF inv], of "path_parts x" d] l by (simp add: lookup_path_def)

section \<open>What the common bodies do\<close>

lemma in_parent_at:
  assumes "tree_inv st D dep" "lookup_path st D x = At d"
  shows "in_parent st (Some x) (Some k) fail body = body st d"
  using getkvs_walk[OF assms(1), of x NULL] assms(2) by (simp add: in_parent_def)

lemma in_parent_missing:
  assumes "tree_inv st D dep" "lookup_path st D x = Missing"
  shows "in_parent st (Some x) (Some k) fail body = Inr (fail err_dne st)"
  using getkvs_walk[OF assms(1), of x NULL] assms(2) by (auto simp: in_parent_def)

lemma in_parent_notdir:
  assumes "tree_inv st D dep" "lookup_path st D x = NotDir"
  shows "in_parent st (Some x) (Some k) fail body = Inl (Panic ''Unexpected error!'')"
  using getkvs_walk[OF assms(1), of x NULL] assms(2) by (simp add: in_parent_def)

lemma find_typed_at:
  assumes inv: "tree_inv st D dep" and d: "D d = Some ps"
  shows "find_typed st d (Some k) vt fail body =
    (case kvs_lookup (kheap st) ps k of
       None \<Rightarrow> Inr (fail err_dne st)
     | Some p \<Rightarrow> if val_type (the (hmap (kheap st) p)) \<noteq> vt then Inr (fail err_typematchfailure st)
                 else body (st\<lparr>kern_lock := True\<rparr>) p)"
proof -
  note I = tree_invD[OF inv]
  note lu = lock_unlock[OF I(2)]
  have f: "kvs_find (kheap st) d (Some k) = Inr (case kvs_lookup (kheap st) ps k of Some p \<Rightarrow> (kvs_ok, Some p) | None \<Rightarrow> (kvs_error_notfound, None))"
    by (rule kvs_find_lookup[OF I(5)[OF d]])
  show ?thesis
  proof (cases "kvs_lookup (kheap st) ps k")
    case None
    then show ?thesis using f lu by (simp add: find_typed_def)
  next
    case (Some p)
    obtain n where "hmap (kheap st) p = Some n" "p \<noteq> NULL" "p \<in> set ps" using lookup_node[OF I(5)[OF d] Some] .
    then show ?thesis using f lu Some by (simp add: find_typed_def kvs_get_type_def)
  qed
qed

lemma addkey_grows:
  assumes inv: "tree_inv st D dep" and l: "lookup_path st D x = At d" and d: "D d = Some ps"
    and k: "0 \<notin> set k" "kvs_lookup (kheap st) ps k = None" and vt: "vt \<noteq> kvs_val_uninit" "vt \<noteq> kvs_val_child"
    and av: "avail (kheap st) = (p, g) # rest"
  shows "\<exists>h' n. addkey st (Some x) (Some k) (\<lambda>h r. kvs_add_internal h r (Some k) v vt) = Inr (err_ok, st\<lparr>kheap := h'\<rparr>) \<and>
    tree_inv (st\<lparr>kheap := h'\<rparr>) (D(d \<mapsto> p # ps)) dep \<and> grown (kheap st) d p h' \<and>
    hmap h' p = Some n \<and> fresh_entry k v vt n \<and> avail h' = rest"
proof -
  note I = tree_invD[OF inv]
  obtain h' n where a: "kvs_add_internal (kheap st) d (Some k) v vt = Inr (kvs_ok, h')" "kvs_wf h'" "kvs_store h' d (p # ps)"
      "hmap h' p = Some n" "fresh_entry k v vt n" "\<forall>q. q \<noteq> p \<and> q \<noteq> d \<longrightarrow> hmap h' q = hmap (kheap st) q" "hmap (kheap st) p = None"
      "avail h' = rest"
    using kvs_add_new[OF I(1) I(5)[OF d] k vt(1) av] by blast
  have g: "grown (kheap st) d p h'" using a(6,7) by (simp add: grown_def)
  have run: "addkey st (Some x) (Some k) (\<lambda>h r. kvs_add_internal h r (Some k) v vt) = Inr (err_ok, st\<lparr>kheap := h'\<rparr>)"
    using lock_unlock[OF I(2)] a(1) I(2) by (simp add: addkey_def in_parent_at[OF inv l])
  have "val_type n \<noteq> kvs_val_child" using a(5) vt(2) by (simp add: fresh_entry_def)
  then have "tree_inv (st\<lparr>kheap := h'\<rparr>) (D(d \<mapsto> p # ps)) dep" using tree_inv_grow[OF inv d g a(2-4)] by simp
  then show ?thesis using run g a(4,5,8) by blast
qed

lemma grown_lookup:
  assumes "tree_inv st D dep" "D d = Some ps" "grown (kheap st) d p h'" "hmap h' p = Some n"
  shows "kvs_lookup h' (p # ps) k = (if kvs_match k n then Some p else kvs_lookup (kheap st) ps k)"
  by (rule kvs_lookup_after_add[OF assms(4)]) (rule grown_entry[OF assms(1,3,2,2)])

lemma addkey_new:
  assumes inv: "tree_inv st D dep" and l: "lookup_path st D x = At d" and d: "D d = Some ps"
    and k: "0 \<notin> set k" "kvs_lookup (kheap st) ps k = None" and vt: "vt \<noteq> kvs_val_uninit" "vt \<noteq> kvs_val_child"
    and av: "avail (kheap st) = (p, g) # rest"
  shows "\<exists>h' n. addkey st (Some x) (Some k) (\<lambda>h r. kvs_add_internal h r (Some k) v vt) = Inr (err_ok, st\<lparr>kheap := h'\<rparr>) \<and>
    tree_inv (st\<lparr>kheap := h'\<rparr>) (D(d \<mapsto> p # ps)) dep \<and> lookup_path (st\<lparr>kheap := h'\<rparr>) (D(d \<mapsto> p # ps)) x = At d \<and>
    kvs_lookup h' (p # ps) k = Some p \<and> hmap h' p = Some n \<and> val_type n = vt \<and> u_val n = v \<and>
    (\<forall>k'. \<not> kvs_match k' n \<longrightarrow> kvs_lookup h' (p # ps) k' = kvs_lookup (kheap st) ps k')"
proof -
  obtain h' n where a: "addkey st (Some x) (Some k) (\<lambda>h r. kvs_add_internal h r (Some k) v vt) = Inr (err_ok, st\<lparr>kheap := h'\<rparr>)"
      "tree_inv (st\<lparr>kheap := h'\<rparr>) (D(d \<mapsto> p # ps)) dep" "grown (kheap st) d p h'" "hmap h' p = Some n" "fresh_entry k v vt n"
    using addkey_grows[OF assms, of v] by blast
  then show ?thesis using grown_lookup[OF inv d a(3,4)] lookup_path_grow[OF inv d a(3) l] by (auto simp: fresh_entry_def)
qed

lemma addkey_refused:
  assumes inv: "tree_inv st D dep" and l: "lookup_path st D x = At d" and d: "D d = Some ps"
    and k: "kvs_lookup (kheap st) ps k \<noteq> None \<or> avail (kheap st) = []"
  shows "addkey st (Some x) (Some k) (\<lambda>h r. kvs_add_internal h r (Some k) v vt) = Inr (err_failure, st)"
proof -
  note I = tree_invD[OF inv]
  have u: "unlock (st\<lparr>kern_lock := True, kheap := kheap st\<rparr>) = st" using lock_unlock[OF I(2)] by simp
  have "\<exists>e. kvs_add_internal (kheap st) d (Some k) v vt = Inr (e, kheap st) \<and> e \<noteq> kvs_ok"
    using k kvs_add_exists[OF I(5)[OF d], of k] kvs_add_full[OF I(5)[OF d], of k] by (cases "kvs_lookup (kheap st) ps k") auto
  then show ?thesis using lock_unlock[OF I(2)] u by (auto simp: addkey_def in_parent_at[OF inv l])
qed

lemma readkey_at:
  assumes inv: "tree_inv st D dep" and l: "lookup_path st D x = At d" and d: "D d = Some ps"
  shows "readkey st (Some x) (Some k) vt get True =
    (case kvs_lookup (kheap st) ps k of
       None \<Rightarrow> Inr (err_dne, None, st)
     | Some p \<Rightarrow> if val_type (the (hmap (kheap st) p)) \<noteq> vt then Inr (err_typematchfailure, None, st)
                 else bindE (get (kheap st) p True) (\<lambda>(e, v). if e \<noteq> kvs_ok then Inr (err_failure, None, st) else Inr (err_ok, v, st)))"
proof -
  have u: "unlock (st\<lparr>kern_lock := True\<rparr>) = st" using lock_unlock[OF tree_invD(2)[OF inv]] by simp
  show ?thesis unfolding readkey_def in_parent_at[OF inv l] find_typed_at[OF inv d] u by (simp split: option.split)
qed

section \<open>The contract of a typed key\<close>

text \<open>
  What the users of the registry and the object store rely on for each type of value: a writer and a
  reader that agree on the tag and on the encoding of the value.
\<close>

locale typed_key =
  fixes add :: "store \<Rightarrow> cstring option \<Rightarrow> cstring option \<Rightarrow> 'v \<Rightarrow> (store_error \<times> store) res"
    and rd :: "store \<Rightarrow> cstring option \<Rightarrow> cstring option \<Rightarrow> bool \<Rightarrow> (store_error \<times> 'v option \<times> store) res"
    and vt :: kvs_val_type and enc :: "'v \<Rightarrow> u64" and get :: "kvs_heap \<Rightarrow> addr \<Rightarrow> bool \<Rightarrow> (kvs_error \<times> 'v option) res"
  assumes vt_ok: "vt \<noteq> kvs_val_uninit" "vt \<noteq> kvs_val_child"
    and add_eq: "add st x k v = addkey st x k (\<lambda>h r. kvs_add_internal h r k (enc v) vt)"
    and rd_eq: "rd st x k out = readkey st x k vt get out"
    and get_ok: "hmap h p = Some n \<Longrightarrow> p \<noteq> NULL \<Longrightarrow> val_type n = vt \<Longrightarrow> u_val n = enc v \<Longrightarrow> get h p True = Inr (kvs_ok, Some v)"
begin

lemma add_then_read:
  assumes "tree_inv st D dep" "lookup_path st D x = At d" "D d = Some ps" "0 \<notin> set k" "kvs_lookup (kheap st) ps k = None"
    "avail (kheap st) = (p, g) # rest"
  shows "\<exists>st'. add st (Some x) (Some k) v = Inr (err_ok, st') \<and> tree_inv st' (D(d \<mapsto> p # ps)) dep \<and>
    rd st' (Some x) (Some k) True = Inr (err_ok, Some v, st')"
proof -
  obtain h' n where a: "addkey st (Some x) (Some k) (\<lambda>h r. kvs_add_internal h r (Some k) (enc v) vt) = Inr (err_ok, st\<lparr>kheap := h'\<rparr>)"
      "tree_inv (st\<lparr>kheap := h'\<rparr>) (D(d \<mapsto> p # ps)) dep" "lookup_path (st\<lparr>kheap := h'\<rparr>) (D(d \<mapsto> p # ps)) x = At d"
      "kvs_lookup h' (p # ps) k = Some p" "hmap h' p = Some n" "val_type n = vt" "u_val n = enc v"
    using addkey_new[OF assms(1-5) vt_ok assms(6), of "enc v"] by blast
  have "kvs_store h' d (p # ps)" using tree_invD(5)[OF a(2), of d "p # ps"] by simp
  then have "p \<noteq> NULL" using storeD(4)[of h' d "p # ps"] by auto
  then have "rd (st\<lparr>kheap := h'\<rparr>) (Some x) (Some k) True = Inr (err_ok, Some v, st\<lparr>kheap := h'\<rparr>)"
    using readkey_at[OF a(2,3), of "p # ps" k vt get] a(4-7) get_ok[of h' p n v] by (simp add: rd_eq)
  then show ?thesis using a(1,2) by (auto simp: add_eq)
qed

lemma read_errors:
  assumes "tree_inv st D dep"
  shows "lookup_path st D x = Missing \<Longrightarrow> rd st (Some x) (Some k) True = Inr (err_dne, None, st)"
    "lookup_path st D x = At d \<Longrightarrow> D d = Some ps \<Longrightarrow> kvs_lookup (kheap st) ps k = None \<Longrightarrow>
       rd st (Some x) (Some k) True = Inr (err_dne, None, st)"
    "lookup_path st D x = At d \<Longrightarrow> D d = Some ps \<Longrightarrow> kvs_lookup (kheap st) ps k = Some p \<Longrightarrow> hmap (kheap st) p = Some n \<Longrightarrow>
       val_type n \<noteq> vt \<Longrightarrow> rd st (Some x) (Some k) True = Inr (err_typematchfailure, None, st)"
  using readkey_at[OF assms, of x d ps k vt get]
  by (simp_all add: rd_eq readkey_def in_parent_missing[OF assms])

lemma add_refused:
  assumes "tree_inv st D dep" "lookup_path st D x = At d" "D d = Some ps" "kvs_lookup (kheap st) ps k \<noteq> None"
  shows "add st (Some x) (Some k) v = Inr (err_failure, st)"
  using addkey_refused[OF assms(1-3), of k] assms(4) by (simp add: add_eq)

end

section \<open>Creating a directory\<close>

definition join_path :: "u8 list \<Rightarrow> u8 list \<Rightarrow> u8 list" where
  "join_path x k = (if x = [] then k else x @ 47 # k)"

lemma parts_last: "47 \<notin> set k \<Longrightarrow> parts k = [k]"
proof -
  assume a: "47 \<notin> set k"
  then have "takeWhile (\<lambda>c. c \<noteq> 47) k = k" by (auto simp: takeWhile_eq_all_conv)
  then show ?thesis using a by (subst parts.simps) simp
qed

lemma parts_snoc: "47 \<notin> set k \<Longrightarrow> parts (x @ 47 # k) = parts x @ [k]"
proof (induction x rule: parts.induct)
  case (1 x)
  let ?t = "takeWhile (\<lambda>c. c \<noteq> 47) x" and ?d = "dropWhile (\<lambda>c. c \<noteq> 47) x"
  show ?case
  proof (cases "47 \<in> set x")
    case True
    have "?d \<noteq> []" using True by (auto simp: dropWhile_eq_Nil_conv)
    then have d: "dropWhile (\<lambda>c. c \<noteq> 47) (x @ 47 # k) = ?d @ 47 # k" "takeWhile (\<lambda>c. c \<noteq> 47) (x @ 47 # k) = ?t"
      "tl (?d @ 47 # k) = tl ?d @ 47 # k"
      using True by (auto simp: dropWhile_append1 takeWhile_append1 tl_append2)
    have "parts (x @ 47 # k) = ?t # parts (tl ?d @ 47 # k)"
      by (subst parts.simps) (simp add: d)
    moreover have "parts x = ?t # parts (tl ?d)" using True by (subst parts.simps) simp
    ultimately show ?thesis using 1 True by simp
  next
    case False
    then have d: "takeWhile (\<lambda>c. c \<noteq> 47) (x @ 47 # k) = x" "dropWhile (\<lambda>c. c \<noteq> 47) (x @ 47 # k) = 47 # k"
      by (simp_all add: takeWhile_append dropWhile_append takeWhile_eq_all_conv dropWhile_eq_Nil_conv)
    have "parts (x @ 47 # k) = x # parts k" by (subst parts.simps) (simp add: d)
    then show ?thesis using False 1(2) parts_last by simp
  qed
qed

lemma path_parts_join: "47 \<notin> set k \<Longrightarrow> k \<noteq> [] \<Longrightarrow> path_parts (join_path x k) = path_parts x @ [k]"
  by (simp add: path_parts_def join_path_def parts_last parts_snoc)

lemma walk_snoc:
  "walk_from h D d (cs @ [c]) = (case walk_from h D d cs of At e \<Rightarrow> walk_from h D e [c] | w \<Rightarrow> w)"
  by (induction cs arbitrary: d) (auto split: option.split)

lemma kvs_create_new:
  assumes "kvs_wf h" "avail h = (q, g) # rest"
  shows "\<exists>h'. kvs_create h True = Inr (kvs_ok, q, h') \<and> kvs_wf h' \<and> kvs_store h' q [] \<and> avail h' = rest \<and>
    hmap h q = None \<and> (\<forall>p. p \<noteq> q \<longrightarrow> hmap h' p = hmap h p)"
proof -
  have hw: "heap_wf h" using assms(1) by (simp add: kvs_wf_def)
  define h1 where "h1 = h\<lparr>cells := AList.update q g (cells h), avail := rest\<rparr>"
  note A = heap_wf_halloc[OF hw assms(2), folded h1_def] and W = kvs_wf_halloc[OF assms, folded h1_def]
  have al: "halloc h = (q, h1)" "avail h1 = rest" using assms(2) by (simp_all add: halloc_Some h1_def)
  define h2 where "h2 = hput h1 q (g\<lparr>owner_locked := False, val_type := kvs_val_uninit, next := NULL\<rparr>)"
  have "kvs_create h True = Inr (kvs_ok, q, h2)" using A(1,3) al(1) by (simp add: kvs_create_def h2_def)
  moreover have "kvs_wf h2" unfolding h2_def using W A(3) by (intro kvs_wf_hput) simp_all
  moreover have "kvs_store h2 q []" using A(1,3) by (simp add: kvs_store_def h2_def)
  ultimately show ?thesis using A(2,3) al(2) by (auto simp: h2_def)
qed

text \<open>A directory that nothing refers to yet.\<close>

lemma tree_inv_spare:
  assumes inv: "tree_inv st D dep" and q: "hmap (kheap st) q = None" "\<And>p. p \<noteq> q \<Longrightarrow> hmap h' p = hmap (kheap st) p"
    and h': "kvs_wf h'" "kvs_store h' q []"
  shows "tree_inv (st\<lparr>kheap := h'\<rparr>) (D(q \<mapsto> [])) (dep(q := k))"
proof -
  note I = tree_invD[OF inv]
  have qn: "q \<notin> set (e # qs)" if "D e = Some qs" for e qs using storeD(6)[OF I(5)[OF that], of q] q(1) by auto
  have Dq: "D q = None" using qn[of q] by (cases "D q") auto
  have st: "kvs_store h' e qs" if e: "D e = Some qs" for e qs
    by (rule kvs_store_frame(1)[OF I(5)[OF e]]) (use qn[OF e] q(2) in metis)
  have 1: "\<forall>e qs. (D(q \<mapsto> [])) e = Some qs \<longrightarrow> kvs_store h' e qs" using st h'(2) by simp
  have 2: "\<forall>e f qs rs. (D(q \<mapsto> [])) e = Some qs \<and> (D(q \<mapsto> [])) f = Some rs \<and> e \<noteq> f \<longrightarrow> set (e # qs) \<inter> set (f # rs) = {}"
    using I(6) qn by (auto split: if_splits) blast+
  have 3: "u_val n \<in> dom (D(q \<mapsto> [])) \<and> (dep(q := k)) (u_val n) = Suc ((dep(q := k)) d)"
    if a: "(D(q \<mapsto> [])) d = Some ps" "p \<in> set ps" "hmap h' p = Some n" "val_type n = kvs_val_child" for d ps p n
  proof -
    have d: "D d = Some ps" "d \<noteq> q" using a(1,2) by (auto split: if_splits)
    have "p \<noteq> q" using qn[OF d(1)] a(2) by auto
    then have "hmap (kheap st) p = Some n" using q(2) a(3) by simp
    then have "u_val n \<in> dom D \<and> dep (u_val n) = Suc (dep d)" using I(7)[OF d(1) a(2) _ a(4)] by blast
    then show ?thesis using d(2) Dq by auto
  qed
  have r: "kern_registry st \<noteq> q" using I(3) Dq by auto
  have e: "kheap (st\<lparr>kheap := h'\<rparr>) = h'" "kern_lock (st\<lparr>kheap := h'\<rparr>) = kern_lock st"
    "kern_registry (st\<lparr>kheap := h'\<rparr>) = kern_registry st" by simp_all
  have "kern_registry st \<in> dom (D(q \<mapsto> []))" "(dep(q := k)) (kern_registry st) = 0" using I(3,4) r by auto
  moreover have "\<forall>d ps p n. (D(q \<mapsto> [])) d = Some ps \<and> p \<in> set ps \<and> hmap h' p = Some n \<and> val_type n = kvs_val_child \<longrightarrow>
     u_val n \<in> dom (D(q \<mapsto> [])) \<and> (dep(q := k)) (u_val n) = Suc ((dep(q := k)) d)" using 3 by blast
  ultimately show ?thesis unfolding tree_inv_def e using h'(1) I(2) 1 2 by (intro conjI)
qed

lemma walk_spare:
  assumes inv: "tree_inv st D dep" and q: "hmap (kheap st) q = None" "\<And>p. p \<noteq> q \<Longrightarrow> hmap h' p = hmap (kheap st) p"
  shows "e \<in> dom D \<Longrightarrow> walk_from h' (D(q \<mapsto> [])) e cs = walk_from (kheap st) D e cs"
proof (induction cs arbitrary: e)
  case Nil
  then show ?case by simp
next
  case (Cons c cs)
  obtain es where e: "D e = Some es" using Cons.prems by auto
  note S = tree_invD(5)[OF inv e]
  have qn: "q \<notin> set (e # es)" using storeD(6)[OF S, of q] q(1) by auto
  then have eq: "e \<noteq> q" by auto
  have lk: "kvs_lookup h' es c = kvs_lookup (kheap st) es c"
    by (rule kvs_store_frame(2)[OF S]) (use qn q(2) in metis)
  show ?case
  proof (cases "kvs_lookup (kheap st) es c")
    case None
    then show ?thesis using lk e qn by auto
  next
    case (Some p)
    obtain n where n: "hmap (kheap st) p = Some n" "p \<in> set es" using lookup_node[OF S Some] .
    have n': "hmap h' p = Some n" using q(2)[of p] qn n by auto
    have "walk_from h' (D(q \<mapsto> [])) (u_val n) cs = walk_from (kheap st) D (u_val n) cs" if "val_type n = kvs_val_child"
      using Cons.IH[of "u_val n"] tree_invD(7)[OF inv e n(2,1) that] by (simp add: fun_upd_def)
    then show ?thesis using lk e eq Some n(1) n' by (simp add: fun_upd_def)
  qed
qed

lemma createdirectory_grows:
  assumes inv: "tree_inv st D dep" and l: "lookup_path st D x = At d" and d: "D d = Some ps"
    and k: "0 \<notin> set k" "kvs_lookup (kheap st) ps k = None"
    and av: "avail (kheap st) = (q, g) # (p, g') # rest"
  shows "\<exists>h1 h2 n. createdirectory st (Some x) (Some k) = Inr (err_ok, st\<lparr>kheap := h2\<rparr>) \<and>
    hmap (kheap st) q = None \<and> (\<forall>p. p \<noteq> q \<longrightarrow> hmap h1 p = hmap (kheap st) p) \<and>
    tree_inv (st\<lparr>kheap := h1\<rparr>) (D(q \<mapsto> [])) (dep(q := Suc (dep d))) \<and> grown h1 d p h2 \<and>
    tree_inv (st\<lparr>kheap := h2\<rparr>) (D(q \<mapsto> [], d \<mapsto> p # ps)) (dep(q := Suc (dep d))) \<and>
    hmap h2 p = Some n \<and> fresh_entry k q kvs_val_child n \<and> avail h2 = rest \<and> q \<noteq> d"
proof -
  note I = tree_invD[OF inv]
  note lu = lock_unlock[OF I(2)]
  obtain h1 where c: "kvs_create (kheap st) True = Inr (kvs_ok, q, h1)" "kvs_wf h1" "kvs_store h1 q []"
      "avail h1 = (p, g') # rest" "hmap (kheap st) q = None" "\<forall>p. p \<noteq> q \<longrightarrow> hmap h1 p = hmap (kheap st) p"
    using kvs_create_new[OF I(1) av] by blast
  have fr: "\<And>p. p \<noteq> q \<Longrightarrow> hmap h1 p = hmap (kheap st) p" using c(6) by blast
  define st1 D1 dep1 where "st1 = st\<lparr>kheap := h1\<rparr>" "D1 = D(q \<mapsto> [])" "dep1 = dep(q := Suc (dep d))"
  have inv1: "tree_inv st1 D1 dep1" unfolding st1_D1_dep1_def by (rule tree_inv_spare[OF inv c(5) fr c(2,3)])
  have qn: "q \<notin> set (d # ps)" using storeD(6)[OF I(5)[OF d], of q] c(5) by auto
  have d1: "D1 d = Some ps" "D1 q = Some []" "dep1 q = Suc (dep1 d)" using d qn by (auto simp: st1_D1_dep1_def)
  have "kvs_lookup h1 ps k = kvs_lookup (kheap st) ps k"
    by (rule kvs_store_frame(2)[OF I(5)[OF d]]) (use qn fr in metis)
  then have k1: "kvs_lookup h1 ps k = None" using k(2) by simp
  have h1: "kheap st1 = h1" "kvs_store h1 d ps" using tree_invD(5)[OF inv1 d1(1)] by (simp_all add: st1_D1_dep1_def)
  obtain h2 n where a: "kvs_add_internal h1 d (Some k) q kvs_val_child = Inr (kvs_ok, h2)" "kvs_wf h2" "kvs_store h2 d (p # ps)"
      "hmap h2 p = Some n" "fresh_entry k q kvs_val_child n" "\<forall>q. q \<noteq> p \<and> q \<noteq> d \<longrightarrow> hmap h2 q = hmap h1 q" "hmap h1 p = None"
      "avail h2 = rest"
    using kvs_add_new[OF c(2) h1(2) k(1) k1 _ c(4), of kvs_val_child q] by blast
  have g: "grown (kheap st1) d p h2" using a(6,7) h1(1) by (simp add: grown_def)
  have "tree_inv (st1\<lparr>kheap := h2\<rparr>) (D1(d \<mapsto> p # ps)) dep1"
    using tree_inv_grow[OF inv1 d1(1) g a(2-4)] a(5) d1(2,3) by (auto simp: fresh_entry_def)
  moreover have "createdirectory st (Some x) (Some k) = Inr (err_ok, st1\<lparr>kheap := h2\<rparr>)"
    using lu I(2) c(1) a(1) kvs_find_lookup[OF I(5)[OF d], of k] k(2)
    by (simp add: createdirectory_def in_parent_at[OF inv l] kvs_add_child_def st1_D1_dep1_def)
  ultimately show ?thesis using inv1 g c(5,6) a(4,5,8) qn
    by (intro exI[of _ h1] exI[of _ h2] exI[of _ n]) (simp add: st1_D1_dep1_def)
qed

lemma lookup_path_spare:
  assumes "tree_inv st D dep" "hmap (kheap st) q = None" "\<forall>p. p \<noteq> q \<longrightarrow> hmap h1 p = hmap (kheap st) p"
  shows "lookup_path (st\<lparr>kheap := h1\<rparr>) (D(q \<mapsto> [])) x = lookup_path st D x"
  using walk_spare[OF assms(1,2) _ tree_invD(3)[OF assms(1)]] assms(3) by (simp add: lookup_path_def)

lemma createdirectory_new:
  assumes inv: "tree_inv st D dep" and l: "lookup_path st D x = At d" and d: "D d = Some ps"
    and k: "0 \<notin> set k" "47 \<notin> set k" "k \<noteq> []" "length k \<le> max_keylen" "kvs_lookup (kheap st) ps k = None"
    and av: "avail (kheap st) = (q, g) # (p, g') # rest"
  shows "\<exists>h'. createdirectory st (Some x) (Some k) = Inr (err_ok, st\<lparr>kheap := h'\<rparr>) \<and>
    tree_inv (st\<lparr>kheap := h'\<rparr>) (D(q \<mapsto> [], d \<mapsto> p # ps)) (dep(q := Suc (dep d))) \<and>
    lookup_path (st\<lparr>kheap := h'\<rparr>) (D(q \<mapsto> [], d \<mapsto> p # ps)) (join_path x k) = At q"
proof -
  obtain h1 h2 n where a: "createdirectory st (Some x) (Some k) = Inr (err_ok, st\<lparr>kheap := h2\<rparr>)" "hmap (kheap st) q = None"
      "\<forall>p. p \<noteq> q \<longrightarrow> hmap h1 p = hmap (kheap st) p" "tree_inv (st\<lparr>kheap := h1\<rparr>) (D(q \<mapsto> [])) (dep(q := Suc (dep d)))" "grown h1 d p h2"
      "tree_inv (st\<lparr>kheap := h2\<rparr>) (D(q \<mapsto> [], d \<mapsto> p # ps)) (dep(q := Suc (dep d)))" "hmap h2 p = Some n"
      "fresh_entry k q kvs_val_child n" "q \<noteq> d"
    using createdirectory_grows[OF inv l d k(1,5) av] by blast
  have l1: "lookup_path (st\<lparr>kheap := h1\<rparr>) (D(q \<mapsto> [])) x = At d" using lookup_path_spare[OF inv a(2,3)] l by simp
  have l2: "lookup_path (st\<lparr>kheap := h2\<rparr>) (D(q \<mapsto> [], d \<mapsto> p # ps)) x = At d"
    using lookup_path_grow[OF a(4) _ _ l1, of ps p h2] d a(5,9) by simp
  have "kvs_lookup h2 (p # ps) k = Some p" using a(7,8) by (simp add: kvs_lookup_def fresh_entry_def)
  then have "lookup_path (st\<lparr>kheap := h2\<rparr>) (D(q \<mapsto> [], d \<mapsto> p # ps)) (join_path x k) = At q"
    using l2 k(4) a(7,8) unfolding lookup_path_def path_parts_join[OF k(2,3)] walk_snoc by (simp add: fresh_entry_def)
  then show ?thesis using a(1,6) by blast
qed

lemma createdirectory_refused:
  assumes inv: "tree_inv st D dep" and l: "lookup_path st D x = At d" and d: "D d = Some ps"
  shows "kvs_lookup (kheap st) ps k \<noteq> None \<Longrightarrow> createdirectory st (Some x) (Some k) = Inr (err_exists, st)"
    "kvs_lookup (kheap st) ps k = None \<Longrightarrow> avail (kheap st) = [] \<Longrightarrow> createdirectory st (Some x) (Some k) = Inr (err_failure, st)"
proof -
  note I = tree_invD[OF inv]
  note lu = lock_unlock[OF I(2)] and f = kvs_find_lookup[OF I(5)[OF d], of k]
  show "kvs_lookup (kheap st) ps k \<noteq> None \<Longrightarrow> createdirectory st (Some x) (Some k) = Inr (err_exists, st)"
    using lu f by (auto simp: createdirectory_def in_parent_at[OF inv l])
  assume a: "kvs_lookup (kheap st) ps k = None" "avail (kheap st) = []"
  have u: "unlock (st\<lparr>kern_lock := True, kheap := kheap st\<rparr>) = st" using lu by simp
  show "createdirectory st (Some x) (Some k) = Inr (err_failure, st)"
    using lu f a u by (simp add: createdirectory_def in_parent_at[OF inv l] kvs_create_def)
qed

section \<open>The lock\<close>

text \<open>
  Every operation that returns has released the lock, and none stops because it takes a lock that it
  already holds. The functions on stores take no lock at all.
\<close>

definition releases :: "('a \<Rightarrow> store) \<Rightarrow> 'a res \<Rightarrow> bool" where
  "releases sel r \<longleftrightarrow> (case r of Inl e \<Rightarrow> e \<noteq> Deadlock | Inr x \<Rightarrow> \<not> kern_lock (sel x))"

definition lock_free :: "'a res \<Rightarrow> bool" where
  "lock_free r \<longleftrightarrow> r \<noteq> Inl Deadlock"

abbreviation snd3 :: "'a \<times> 'b \<times> store \<Rightarrow> store" where
  "snd3 x \<equiv> snd (snd x)"

named_theorems lock_free_intros \<open>the operations that take no lock\<close>

lemma lock_free_bind [lock_free_intros]: "lock_free m \<Longrightarrow> (\<And>x. m = Inr x \<Longrightarrow> lock_free (f x)) \<Longrightarrow> lock_free (bindE m f)"
  by (cases m) (simp_all add: lock_free_def)

lemma lock_free_simps [simp]: "lock_free (Inr x)" "lock_free (Inl e) = (e \<noteq> Deadlock)"
  by (simp_all add: lock_free_def)

lemma lock_free_heap [simp]: "lock_free (hget h p)" "lock_free (hset h p f)" "lock_free (hfree h p)" "lock_free (buf_strncpy d k n)"
  by (auto simp: hget_def hset_def hfree_def buf_strncpy_def Let_def intro!: lock_free_bind split: option.split)

lemma lock_free_find [simp]: "lock_free (kvs_find h r k)"
proof -
  have "lock_free (find_loop h f p k)" for f p k by (induction f arbitrary: p) (auto intro!: lock_free_bind)
  then show ?thesis by (auto simp: kvs_find_def intro!: lock_free_bind split: option.split)
qed

lemma lock_free_delete [simp]: "lock_free (kvs_delete h r)"
proof -
  have "lock_free (delete_loop h f p)" for f h p by (induction f arbitrary: h p) (auto intro!: lock_free_bind)
  then show ?thesis by (auto simp: kvs_delete_def intro!: lock_free_bind)
qed

lemma lock_free_remove [simp]: "lock_free (kvs_remove h r p)"
proof -
  have "lock_free (remove_loop h f p q)" for f p q by (induction f arbitrary: p) (auto simp: Let_def intro!: lock_free_bind)
  then show ?thesis by (auto simp: kvs_remove_def intro!: lock_free_bind split: option.split)
qed

lemma lock_free_add [simp]: "lock_free (kvs_add_internal h r k v vt)"
  by (auto simp: kvs_add_internal_def Let_def intro!: lock_free_bind split: option.split prod.split)

lemma lock_free_kvs [simp]:
  "lock_free (kvs_create h b)" "lock_free (kvs_islocked h r b)" "lock_free (kvs_get_internal h r b vt)" "lock_free (kvs_get_bool h r b)"
  "lock_free (kvs_set_internal h r v vt)" "lock_free (kvs_get_type h r b)" "lock_free (kvs_lockentry h r)" "lock_free (kvs_unlockentry h r)"
  "lock_free (kvs_next h q)" "lock_free (kvs_get_key h r buf)"
  by (auto simp: kvs_create_def kvs_islocked_def kvs_get_internal_def kvs_get_bool_def kvs_set_internal_def kvs_get_type_def
      kvs_lockentry_def kvs_unlockentry_def kvs_next_def kvs_get_key_def Let_def intro!: lock_free_bind split: option.split prod.split)

lemmas kvs_typed_defs = kvs_add_uint_def kvs_add_sint_def kvs_add_bool_def kvs_add_ptr_def kvs_add_str_def kvs_add_child_def
  kvs_get_uint_def kvs_get_sint_def kvs_get_ptr_def kvs_get_str_def kvs_get_child_def
  kvs_set_uint_def kvs_set_sint_def kvs_set_bool_def kvs_set_ptr_def kvs_set_str_def

lemma releases_simps [simp]:
  "releases sel (Inl e) = (e \<noteq> Deadlock)" "releases sel (Inr x) = (\<not> kern_lock (sel x))" "\<not> kern_lock (unlock st)"
  "\<not> kern_lock st \<Longrightarrow> lock_free (lock st)"
  by (simp_all add: releases_def unlock_def lock_def)

lemma releases_bind: "lock_free m \<Longrightarrow> (\<And>x. m = Inr x \<Longrightarrow> releases sel (f x)) \<Longrightarrow> releases sel (bindE m f)"
  by (cases m) simp_all

lemma releases_lock_free: "releases sel m \<Longrightarrow> lock_free m"
  by (cases m) simp_all

lemma releases_getkvs_loop: "releases snd3 (getkvs_loop st cur p k)"
proof (induction p arbitrary: cur k rule: parts.induct)
  case (1 p)
  have "releases snd3 (getkvs_loop st c (tl (dropWhile (\<lambda>c. c \<noteq> 47) p)) k')" if "dropWhile (\<lambda>c. c \<noteq> 47) p \<noteq> []" for c k'
    using 1 that by (auto simp: dropWhile_eq_Nil_conv)
  then show ?case
    by (subst getkvs_loop.simps) (auto simp: Let_def kvs_typed_defs intro!: releases_bind split: option.split)
qed

lemma releases_getkvs: "\<not> kern_lock st \<Longrightarrow> releases snd3 (getkvs st p k)"
  by (auto simp: getkvs_def Let_def intro!: releases_bind releases_getkvs_loop)

lemma releases_in_parent:
  assumes "\<not> kern_lock st" "\<And>e s. sel (fail e s) = s" "\<And>s d. \<not> kern_lock s \<Longrightarrow> releases sel (body s d)"
  shows "releases sel (in_parent st p k fail body)"
proof -
  note g = releases_getkvs[OF assms(1), of p NULL]
  have "releases sel ((\<lambda>(err, d, s). if err \<noteq> err_ok then Inr (fail err s) else body s d) x)"
    if "getkvs st p NULL = Inr x" for x
  proof -
    have "\<not> kern_lock (snd3 x)" using g that by simp
    then show ?thesis using assms by (cases x) auto
  qed
  then have "releases sel (bindE (getkvs st p NULL) (\<lambda>(err, d, s). if err \<noteq> err_ok then Inr (fail err s) else body s d))"
    using releases_lock_free[OF g] by (intro releases_bind) auto
  then show ?thesis using assms(1,2) by (auto simp: in_parent_def)
qed

lemma releases_find_typed:
  assumes "\<not> kern_lock st" "\<And>e s. sel (fail e s) = s" "\<And>s p. releases sel (body s p)"
  shows "releases sel (find_typed st d k vt fail body)"
  using assms by (auto simp: find_typed_def intro!: releases_bind split: option.split)

lemma releases_ops:
  assumes "\<not> kern_lock st"
  shows "releases snd (createdirectory st p k)" "(\<And>h r. lock_free (add h r)) \<Longrightarrow> releases snd (addkey st p k add)"
    "releases snd (addkey_str st p k s)" "(\<And>h p b. lock_free (get h p b)) \<Longrightarrow> releases snd3 (readkey st p k vt get out)"
    "releases snd3 (readkey_str st p k buf n)" "(\<And>h p. lock_free (put h p)) \<Longrightarrow> releases snd (writekey st p k vt put)"
proof -
  show "releases snd (createdirectory st p k)" unfolding createdirectory_def
    by (rule releases_in_parent[OF assms]) (auto simp: Let_def kvs_typed_defs intro!: releases_bind)
  show "releases snd (addkey st p k add)" if "\<And>h r. lock_free (add h r)" unfolding addkey_def
    by (rule releases_in_parent[OF assms]) (auto simp: Let_def that intro!: releases_bind)
  show "releases snd (addkey_str st p k s)" unfolding addkey_str_def
    by (rule releases_in_parent[OF assms])
      (auto simp: Let_def kvs_typed_defs intro!: releases_bind split: prod.split option.split)
  show "releases snd3 (readkey st p k vt get out)" if "\<And>h p b. lock_free (get h p b)" unfolding readkey_def
    by (rule releases_in_parent[OF assms]) (auto simp: that intro!: releases_bind releases_find_typed)
  show "releases snd3 (readkey_str st p k buf n)" unfolding readkey_str_def
    by (rule releases_in_parent[OF assms])
      (auto simp: kvs_typed_defs str_copy_def str_len_def intro!: releases_bind releases_find_typed split: option.split)
  show "releases snd (writekey st p k vt put)" if "\<And>h p. lock_free (put h p)" unfolding writekey_def
    by (rule releases_in_parent[OF assms]) (auto simp: Let_def that intro!: releases_bind releases_find_typed)
qed

lemma ucast_scast_bool: "ucast (scast (b :: 32 word) :: u64) = b"
  by (rule bit_word_eqI) (auto simp: bit_simps)

section \<open>An example\<close>

text \<open>A root with a directory \<open>b\<close> and an unsigned key \<open>a\<close>, and room for two nodes.\<close>

definition ex_store :: store where
  "ex_store = \<lparr>kheap = ex_kvs\<lparr>avail := [(80, ex_entry ''stale'' kvs_val_none 0 0), (96, ex_entry ''old'' kvs_val_none 0 0)]\<rparr>,
     sheap = \<lparr>cells = [], avail = []\<rparr>, kern_registry = 16, kern_lock = False\<rparr>"

definition ex_dirs :: "addr \<Rightarrow> addr list option" where
  "ex_dirs = [16 \<mapsto> [48, 32], 64 \<mapsto> []]"

definition ex_dep :: "addr \<Rightarrow> nat" where
  "ex_dep d = (if d = 16 then 0 else 1)"

lemma ex_store_heap [simp]: "hmap (kheap ex_store) = hmap ex_kvs" "kern_registry ex_store = 16" "\<not> kern_lock ex_store"
  "avail (kheap ex_store) = [(80, ex_entry ''stale'' kvs_val_none 0 0), (96, ex_entry ''old'' kvs_val_none 0 0)]"
  by (simp_all add: ex_store_def)

lemma ex_store_inv: "tree_inv ex_store ex_dirs ex_dep"
proof -
  have w: "kvs_wf (kheap ex_store)" by (auto simp: kvs_wf_def heap_wf_def ex_store_def ex_kvs_def ex_entry_def split: if_splits)
  have s: "kvs_store (kheap ex_store) 16 [48, 32]" "kvs_store (kheap ex_store) 64 []"
    by (simp_all add: kvs_store_def ex_kvs_def ex_entry_def)
  have c: "hmap ex_kvs 48 = Some n \<Longrightarrow> u_val n = 64" "hmap ex_kvs 32 = Some n \<Longrightarrow> val_type n \<noteq> kvs_val_child" for n
    by (auto simp: ex_kvs_def ex_entry_def)
  have D: "\<And>d ps. ex_dirs d = Some ps \<longleftrightarrow> d = 16 \<and> ps = [48, 32] \<or> d = 64 \<and> ps = []" "dom ex_dirs = {16, 64}"
    by (auto simp: ex_dirs_def split: if_splits)
  show ?thesis unfolding tree_inv_def D using w s
    by (auto simp: ex_dep_def dest: c)
qed

lemma ex_lookups: "lookup_path ex_store ex_dirs (str ''b'') = At 64" "ex_dirs 64 = Some []"
  "kvs_lookup (kheap ex_store) [] k = None" "lookup_path ex_store ex_dirs [] = At 16"
  "0 \<notin> set (str ''c'')" "47 \<notin> set (str ''c'')" "str ''c'' \<noteq> []" "length (str ''c'') \<le> max_keylen"
proof -
  show "lookup_path ex_store ex_dirs (str ''b'') = At 64"
    by (simp add: lookup_path_def path_parts_def ex_dirs_def kvs_lookup_def ex_kvs_def ex_entry_def kvs_match_def
        hash_def key_strnlen_def str_def of_char_def parts.simps ex_key_def)
qed (simp_all add: lookup_path_def path_parts_def ex_dirs_def kvs_lookup_def str_def of_char_def)

lemma ex_key_a: "kvs_lookup (kheap ex_store) [48, 32] (str ''a'') = Some 32" "ex_dirs 16 = Some [48, 32]"
  "hmap (kheap ex_store) 32 = Some (ex_entry ''a'' kvs_val_uint 7 0)" "val_type (ex_entry s vt v nx) = vt"
proof -
  show "kvs_lookup (kheap ex_store) [48, 32] (str ''a'') = Some 32"
    by (simp add: kvs_lookup_def ex_kvs_def ex_entry_def kvs_match_def hash_def key_strnlen_def str_def of_char_def ex_key_def)
qed (simp_all add: ex_dirs_def ex_kvs_def ex_entry_def)

end
