(* ===== verification/Registry.thy ===== *)
theory Registry
  imports Store
begin

text \<open>
  The system registry, \<^verbatim>\<open>modules/SysReg/src/main.c\<close>: directories and typed keys in a tree of key value
  stores. \<open>registry_getkvs\<close> and the bodies of the functions are those of \<^verbatim>\<open>Store\<close>; an out parameter is a
  flag, its value part of the result. \<open>module_init\<close> takes the two functions that fill the registry with
  hardware information (\<^verbatim>\<open>add_bootinfo\<close>, \<^verbatim>\<open>add_platform_info\<close>) as arguments.
\<close>

section \<open>Operations\<close>

definition registry_getkvs :: "store \<Rightarrow> cstring option \<Rightarrow> addr \<Rightarrow> (store_error \<times> addr \<times> store) res" where
  "registry_getkvs st pathname k = getkvs st pathname k"

definition registry_createdirectory :: "store \<Rightarrow> cstring option \<Rightarrow> cstring option \<Rightarrow> (store_error \<times> store) res" where
  "registry_createdirectory st pathname dirname = createdirectory st pathname dirname"

definition registry_addkey_uint :: "store \<Rightarrow> cstring option \<Rightarrow> cstring option \<Rightarrow> u64 \<Rightarrow> (store_error \<times> store) res" where
  "registry_addkey_uint st pathname keyname val = addkey st pathname keyname (\<lambda>h r. kvs_add_uint h r keyname val)"

definition registry_addkey_ptr :: "store \<Rightarrow> cstring option \<Rightarrow> cstring option \<Rightarrow> addr \<Rightarrow> (store_error \<times> store) res" where
  "registry_addkey_ptr st pathname keyname val = addkey st pathname keyname (\<lambda>h r. kvs_add_ptr h r keyname val)"

definition registry_addkey_int :: "store \<Rightarrow> cstring option \<Rightarrow> cstring option \<Rightarrow> 64 word \<Rightarrow> (store_error \<times> store) res" where
  "registry_addkey_int st pathname keyname val = addkey st pathname keyname (\<lambda>h r. kvs_add_sint h r keyname val)"

definition registry_addkey_str ::
  "store \<Rightarrow> cstring option \<Rightarrow> cstring option \<Rightarrow> cstring option \<Rightarrow> (store_error \<times> store) res" where
  "registry_addkey_str st pathname keyname val = addkey_str st pathname keyname val"

definition registry_addkey_bool :: "store \<Rightarrow> cstring option \<Rightarrow> cstring option \<Rightarrow> 32 word \<Rightarrow> (store_error \<times> store) res" where
  "registry_addkey_bool st pathname keyname val = addkey st pathname keyname (\<lambda>h r. kvs_add_bool h r keyname val)"

definition registry_readkey_uint ::
  "store \<Rightarrow> cstring option \<Rightarrow> cstring option \<Rightarrow> bool \<Rightarrow> (store_error \<times> u64 option \<times> store) res" where
  "registry_readkey_uint st pathname keyname val = readkey st pathname keyname kvs_val_uint kvs_get_uint val"

text \<open>The source reads a pointer value with \<open>kvs_get_uint\<close>.\<close>

definition registry_readkey_ptr ::
  "store \<Rightarrow> cstring option \<Rightarrow> cstring option \<Rightarrow> bool \<Rightarrow> (store_error \<times> u64 option \<times> store) res" where
  "registry_readkey_ptr st pathname keyname val = readkey st pathname keyname kvs_val_ptr kvs_get_uint val"

definition registry_readkey_int ::
  "store \<Rightarrow> cstring option \<Rightarrow> cstring option \<Rightarrow> bool \<Rightarrow> (store_error \<times> u64 option \<times> store) res" where
  "registry_readkey_int st pathname keyname val = readkey st pathname keyname kvs_val_sint kvs_get_sint val"

definition registry_readkey_str ::
  "store \<Rightarrow> cstring option \<Rightarrow> cstring option \<Rightarrow> u8 list option \<Rightarrow> u64 option \<Rightarrow>
   (store_error \<times> (u8 list option \<times> u64 option) option \<times> store) res" where
  "registry_readkey_str st pathname keyname val val_len = readkey_str st pathname keyname val val_len"

definition registry_readkey_bool ::
  "store \<Rightarrow> cstring option \<Rightarrow> cstring option \<Rightarrow> bool \<Rightarrow> (store_error \<times> 32 word option \<times> store) res" where
  "registry_readkey_bool st pathname keyname val = readkey st pathname keyname kvs_val_bool kvs_get_bool val"

definition registry_removekey :: "store \<Rightarrow> cstring option \<Rightarrow> cstring option \<Rightarrow> (store_error \<times> store) res" where
  "registry_removekey st pathname keyname =
     in_parent st pathname keyname Pair (\<lambda>st parent_kvs.
       bindE (lock st) (\<lambda>st.
       bindE (kvs_find (kheap st) parent_kvs keyname) (\<lambda>(e, found).
         case found of
           None \<Rightarrow> Inr (err_dne, unlock st)
         | Some key_kvs \<Rightarrow>
             bindE (kvs_remove (kheap st) parent_kvs key_kvs) (\<lambda>(_, h).
               Inr (err_ok, unlock (st\<lparr>kheap := h\<rparr>))))))"

definition registry_removedirectory :: "store \<Rightarrow> cstring option \<Rightarrow> cstring option \<Rightarrow> (store_error \<times> store) res" where
  "registry_removedirectory st pathname dirname = registry_removekey st pathname dirname"

definition registry_getdirectory :: "store \<Rightarrow> cstring option \<Rightarrow> addr \<Rightarrow> (store_error \<times> addr \<times> store) res" where
  "registry_getdirectory st pathname dir = registry_getkvs st pathname dir"

definition registry_next :: "store \<Rightarrow> addr option \<Rightarrow> (store_error \<times> addr option) res" where
  "registry_next st dir = bindE (kvs_next (kheap st) dir) (\<lambda>(err, d). Inr (local_error err, d))"

definition registry_readlocal_key :: "store \<Rightarrow> addr \<Rightarrow> u8 list option \<Rightarrow> (store_error \<times> u8 list option) res" where
  "registry_readlocal_key st dir keyname =
     bindE (kvs_get_key (kheap st) dir keyname) (\<lambda>(err, k). Inr (local_error err, k))"

definition registry_readlocal_uint :: "store \<Rightarrow> addr \<Rightarrow> bool \<Rightarrow> (store_error \<times> u64 option) res" where
  "registry_readlocal_uint st dir val = bindE (kvs_get_uint (kheap st) dir val) (\<lambda>(err, v). Inr (local_error err, v))"

definition registry_readlocal_ptr :: "store \<Rightarrow> addr \<Rightarrow> bool \<Rightarrow> (store_error \<times> u64 option) res" where
  "registry_readlocal_ptr st dir val = bindE (kvs_get_ptr (kheap st) dir val) (\<lambda>(err, v). Inr (local_error err, v))"

definition registry_readlocal_int :: "store \<Rightarrow> addr \<Rightarrow> bool \<Rightarrow> (store_error \<times> u64 option) res" where
  "registry_readlocal_int st dir val = bindE (kvs_get_sint (kheap st) dir val) (\<lambda>(err, v). Inr (local_error err, v))"

definition registry_readlocal_str :: "store \<Rightarrow> addr \<Rightarrow> bool \<Rightarrow> (store_error \<times> u64 option) res" where
  "registry_readlocal_str st dir val = bindE (kvs_get_str (kheap st) dir val) (\<lambda>(err, v). Inr (local_error err, v))"

definition registry_readlocal_bool :: "store \<Rightarrow> addr \<Rightarrow> bool \<Rightarrow> (store_error \<times> 32 word option) res" where
  "registry_readlocal_bool st dir val = bindE (kvs_get_bool (kheap st) dir val) (\<lambda>(err, v). Inr (local_error err, v))"

definition registry_readlocal_dir :: "store \<Rightarrow> addr \<Rightarrow> bool \<Rightarrow> (store_error \<times> u64 option) res" where
  "registry_readlocal_dir st dir val = bindE (kvs_get_child (kheap st) dir val) (\<lambda>(err, v). Inr (local_error err, v))"

definition REG_INIT_FAIL_STR :: string where
  "REG_INIT_FAIL_STR = ''Failed to initialize registry.''"

text \<open>The sequence of directories \<open>module_init\<close> creates, stopping the kernel at the first failure.\<close>

primrec create_all :: "store \<Rightarrow> (string \<times> string) list \<Rightarrow> store res" where
  "create_all st [] = Inr st"
| "create_all st (d # ds) =
     bindE (registry_createdirectory st (Some (str (fst d))) (Some (str (snd d)))) (\<lambda>(e, st).
       if e \<noteq> err_ok then Inl (Panic REG_INIT_FAIL_STR) else create_all st ds)"

definition init_dirs :: "(string \<times> string) list" where
  "init_dirs = [([], ''HW''), (''HW'', ''BOOTINFO''), (''HW'', ''PROC''), (''HW'', ''PHYS_MEM''),
                (''HW'', ''VIRT_MEM''), (''HW'', ''CACHE''), (''HW/CACHE'', ''TLB'')]"

definition registry_module_init :: "(store \<Rightarrow> (int \<times> store) res) \<Rightarrow> (store \<Rightarrow> (int \<times> store) res) \<Rightarrow> store \<Rightarrow> (int \<times> store) res" where
  "registry_module_init add_bootinfo add_platform_info st =
     bindE (kvs_create (kheap st) True) (\<lambda>(e, r, h).
       if e \<noteq> kvs_ok then Inl (Panic REG_INIT_FAIL_STR)
       else bindE (create_all (st\<lparr>kheap := h, kern_registry := r\<rparr>) init_dirs) (\<lambda>st.
            bindE (add_bootinfo st) (\<lambda>(e, st).
              if e \<noteq> 0 then Inl (Panic ''Registry: HW/BOOTINFO initialization failure.'')
              else bindE (add_platform_info st) (\<lambda>(e, st).
                if e \<noteq> 0 then Inl (Panic ''Registry: platform information initialization failure.'')
                else Inr (0, st)))))"

section \<open>The typed keys of the registry\<close>

text \<open>
  Unsigned, signed and boolean keys keep the contract of \<^verbatim>\<open>typed_key\<close>. Pointer keys do not: their reader
  uses the getter of unsigned values.
\<close>

interpretation reg_uint: typed_key registry_addkey_uint registry_readkey_uint kvs_val_uint "\<lambda>v. v" kvs_get_uint
  by unfold_locales
    (simp_all add: registry_addkey_uint_def registry_readkey_uint_def kvs_add_uint_def kvs_get_uint_def kvs_get_internal_def)

interpretation reg_int: typed_key registry_addkey_int registry_readkey_int kvs_val_sint "\<lambda>v. v" kvs_get_sint
  by unfold_locales
    (simp_all add: registry_addkey_int_def registry_readkey_int_def kvs_add_sint_def kvs_get_sint_def kvs_get_internal_def)

interpretation reg_bool: typed_key registry_addkey_bool registry_readkey_bool kvs_val_bool scast kvs_get_bool
  by unfold_locales
    (simp_all add: registry_addkey_bool_def registry_readkey_bool_def kvs_add_bool_def kvs_get_bool_def ucast_scast_bool)

section \<open>Properties\<close>

text \<open>
  Keys of the registry: in a directory that resolves, adding an unsigned, signed or boolean key under
  a name the directory does not answer yet succeeds when there is memory, keeps the tree well formed, and
  the reader of the same type then returns the value that was added.
\<close>

theorem registry_add_then_read:
  assumes "tree_inv st D dep" "lookup_path st D x = At d" "D d = Some ps" "0 \<notin> set k" "kvs_lookup (kheap st) ps k = None"
    "avail (kheap st) = (p, g) # rest"
  shows "(\<exists>st'. registry_addkey_uint st (Some x) (Some k) u = Inr (err_ok, st') \<and> tree_inv st' (D(d \<mapsto> p # ps)) dep \<and>
      registry_readkey_uint st' (Some x) (Some k) True = Inr (err_ok, Some u, st')) \<and>
    (\<exists>st'. registry_addkey_int st (Some x) (Some k) i = Inr (err_ok, st') \<and> tree_inv st' (D(d \<mapsto> p # ps)) dep \<and>
      registry_readkey_int st' (Some x) (Some k) True = Inr (err_ok, Some i, st')) \<and>
    (\<exists>st'. registry_addkey_bool st (Some x) (Some k) b = Inr (err_ok, st') \<and> tree_inv st' (D(d \<mapsto> p # ps)) dep \<and>
      registry_readkey_bool st' (Some x) (Some k) True = Inr (err_ok, Some b, st'))"
  using reg_uint.add_then_read[OF assms, of u] reg_int.add_then_read[OF assms, of i] reg_bool.add_then_read[OF assms, of b]
  by (intro conjI)

theorem registry_add_then_read_witness:
  "\<exists>st'. registry_addkey_uint ex_store (Some (str ''b'')) (Some (str ''c'')) 7 = Inr (err_ok, st') \<and>
     registry_readkey_uint st' (Some (str ''b'')) (Some (str ''c'')) True = Inr (err_ok, Some 7, st')"
  using registry_add_then_read[OF ex_store_inv ex_lookups(1,2,5,3) ex_store_heap(4), of 7 0 0] by blast

text \<open>
  \<open>registry_createdirectory\<close>: under a name the parent already answers it reports that the entry
  exists, without memory it fails, both leaving the registry alone; otherwise a new empty directory appears
  that the path of the parent extended with the name resolves to, and the tree stays well formed.
\<close>

theorem registry_createdirectory_resolves:
  assumes "tree_inv st D dep" "lookup_path st D x = At d" "D d = Some ps"
    "0 \<notin> set k" "47 \<notin> set k" "k \<noteq> []" "length k \<le> max_keylen"
  shows "(kvs_lookup (kheap st) ps k \<noteq> None \<longrightarrow> registry_createdirectory st (Some x) (Some k) = Inr (err_exists, st)) \<and>
    (kvs_lookup (kheap st) ps k = None \<and> avail (kheap st) = [] \<longrightarrow>
       registry_createdirectory st (Some x) (Some k) = Inr (err_failure, st)) \<and>
    (kvs_lookup (kheap st) ps k = None \<and> avail (kheap st) = (q, g) # (p, g') # rest \<longrightarrow>
       (\<exists>st'. registry_createdirectory st (Some x) (Some k) = Inr (err_ok, st') \<and>
          tree_inv st' (D(q \<mapsto> [], d \<mapsto> p # ps)) (dep(q := Suc (dep d))) \<and>
          registry_getdirectory st' (Some (join_path x k)) NULL = Inr (err_ok, q, st')))"
proof (intro conjI impI)
  assume a: "kvs_lookup (kheap st) ps k = None \<and> avail (kheap st) = (q, g) # (p, g') # rest"
  obtain h' where h': "createdirectory st (Some x) (Some k) = Inr (err_ok, st\<lparr>kheap := h'\<rparr>)"
      "tree_inv (st\<lparr>kheap := h'\<rparr>) (D(q \<mapsto> [], d \<mapsto> p # ps)) (dep(q := Suc (dep d)))"
      "lookup_path (st\<lparr>kheap := h'\<rparr>) (D(q \<mapsto> [], d \<mapsto> p # ps)) (join_path x k) = At q"
    using createdirectory_new[OF assms] a by blast
  show "\<exists>st'. registry_createdirectory st (Some x) (Some k) = Inr (err_ok, st') \<and>
          tree_inv st' (D(q \<mapsto> [], d \<mapsto> p # ps)) (dep(q := Suc (dep d))) \<and>
          registry_getdirectory st' (Some (join_path x k)) NULL = Inr (err_ok, q, st')"
    using h' getkvs_walk[OF h'(2), of "join_path x k" NULL]
    by (intro exI[of _ "st\<lparr>kheap := h'\<rparr>"]) (simp add: registry_createdirectory_def registry_getdirectory_def registry_getkvs_def)
qed (use createdirectory_refused[OF assms(1-3)] in \<open>auto simp: registry_createdirectory_def\<close>)

theorem registry_createdirectory_resolves_witness:
  "\<exists>st'. registry_createdirectory ex_store (Some (str ''b'')) (Some (str ''c'')) = Inr (err_ok, st') \<and>
     registry_getdirectory st' (Some (str ''b/c'')) NULL = Inr (err_ok, 80, st')"
proof -
  have "join_path (str ''b'') (str ''c'') = str ''b/c''" by (simp add: join_path_def str_def of_char_def)
  then show ?thesis
    using registry_createdirectory_resolves[OF ex_store_inv ex_lookups(1,2,5-8), of 80
        "ex_entry ''stale'' kvs_val_none 0 0" 96 "ex_entry ''old'' kvs_val_none 0 0" "[]"] ex_lookups(3) ex_store_heap(4) by auto
qed

text \<open>
  The registry lock: every operation of the registry that returns, with success or with an error
  code, returns with the lock released when it was free before. None of them stops on its own lock.
\<close>

theorem registry_releases_lock:
  assumes "\<not> kern_lock st"
  shows "releases snd3 (registry_getdirectory st x y) \<and> releases snd (registry_createdirectory st x k) \<and>
    releases snd (registry_addkey_uint st x k u) \<and> releases snd (registry_addkey_ptr st x k a) \<and>
    releases snd (registry_addkey_int st x k i) \<and> releases snd (registry_addkey_str st x k s) \<and>
    releases snd (registry_addkey_bool st x k b) \<and> releases snd3 (registry_readkey_uint st x k out) \<and>
    releases snd3 (registry_readkey_ptr st x k out) \<and> releases snd3 (registry_readkey_int st x k out) \<and>
    releases snd3 (registry_readkey_str st x k buf n) \<and> releases snd3 (registry_readkey_bool st x k out) \<and>
    releases snd (registry_removekey st x k) \<and> releases snd (registry_removedirectory st x k)"
proof -
  have r: "releases snd (registry_removekey st x k)" unfolding registry_removekey_def
    by (rule releases_in_parent[OF assms]) (auto intro!: releases_bind split: option.split)
  show ?thesis
    using r
    by (simp add: releases_ops[OF assms] releases_getkvs[OF assms] registry_getdirectory_def registry_getkvs_def registry_createdirectory_def registry_addkey_uint_def
        registry_addkey_ptr_def registry_addkey_int_def registry_addkey_str_def registry_addkey_bool_def registry_readkey_uint_def
        registry_readkey_ptr_def registry_readkey_int_def registry_readkey_str_def registry_readkey_bool_def registry_removedirectory_def
        kvs_typed_defs)
qed

theorem registry_releases_lock_witness:
  "releases snd (registry_removekey ex_store (Some []) (Some (str ''a''))) \<and>
   releases snd (registry_addkey_uint ex_store (Some []) (Some (str ''a'')) 1)"
  using registry_releases_lock[of ex_store "Some []" 0 "Some (str ''a'')" 1] by simp

text \<open>
  Removing a key: an entry that is not the first of its directory leaves the directory and its cell
  goes back to the allocator; for the first one, the key added last, \<open>registry_removekey\<close> reports success
  and leaves the registry exactly as it was.
\<close>

theorem registry_removekey_effect:
  assumes "tree_inv st D dep" "lookup_path st D x = At d" "D d = Some ps" "kvs_lookup (kheap st) ps k = Some p"
    "hmap (kheap st) p = Some n" "val_type n \<noteq> kvs_val_child"
  shows "(ps = p # bs \<longrightarrow> registry_removekey st (Some x) (Some k) = Inr (err_ok, st)) \<and>
    (ps = as @ a # p # bs \<longrightarrow>
      (\<exists>h'. registry_removekey st (Some x) (Some k) = Inr (err_ok, st\<lparr>kheap := h'\<rparr>) \<and> kvs_store h' d (as @ a # bs) \<and>
         map fst (avail h') = map fst (avail (kheap st)) @ [p]))"
proof -
  note I = tree_invD[OF assms(1)]
  have S: "kvs_store (kheap st) d ps" by (rule I(5)[OF assms(3)])
  have u: "unlock (st\<lparr>kern_lock := True, kheap := kheap st\<rparr>) = st" using lock_unlock[OF I(2)] by simp
  have run: "registry_removekey st (Some x) (Some k) =
      bindE (kvs_remove (kheap st) d p) (\<lambda>(_, h). Inr (err_ok, unlock (st\<lparr>kern_lock := True, kheap := h\<rparr>)))"
    using lock_unlock[OF I(2)] kvs_find_lookup[OF S, of k] assms(4)
    by (simp add: registry_removekey_def in_parent_at[OF assms(1,2)])
  have "registry_removekey st (Some x) (Some k) = Inr (err_ok, st)" if "ps = p # bs"
    using run kvs_remove_first[of "kheap st" d p bs] S that u by simp
  moreover have "\<exists>h'. registry_removekey st (Some x) (Some k) = Inr (err_ok, st\<lparr>kheap := h'\<rparr>) \<and> kvs_store h' d (as @ a # bs) \<and>
         map fst (avail h') = map fst (avail (kheap st)) @ [p]" if "ps = as @ a # p # bs"
  proof -
    have S': "kvs_store (kheap st) d (as @ a # p # bs)" using S that by simp
    show ?thesis using run I(2) kvs_remove_later[OF I(1) S' assms(5), of "[]"] assms(6) by auto
  qed
  ultimately show ?thesis by blast
qed

theorem registry_removekey_effect_witness:
  "\<exists>h'. registry_removekey ex_store (Some []) (Some (str ''a'')) = Inr (err_ok, ex_store\<lparr>kheap := h'\<rparr>) \<and> kvs_store h' 16 [48]"
  using registry_removekey_effect[OF ex_store_inv ex_lookups(4) ex_key_a(2,1,3), of "[]" "[]" 48] by (auto simp: ex_key_a(4))

text \<open>
  No pointer key can be read back: \<open>registry_readkey_ptr\<close> never succeeds.
\<close>

theorem registry_readkey_ptr_fails:
  assumes "registry_readkey_ptr st x k True = Inr (e, v, st')"
  shows "e \<noteq> err_ok"
proof -
  have "find_typed s d k kvs_val_ptr fail_read (\<lambda>s p. bindE (kvs_get_uint (kheap s) p True) (\<lambda>(e, v).
      if e \<noteq> kvs_ok then Inr (err_failure, None, unlock s) else Inr (err_ok, v, unlock s))) \<noteq> Inr (err_ok, v, st')" for s d
    by (auto simp: find_typed_def kvs_get_type_def kvs_get_uint_def kvs_get_internal_def res_iff split: if_splits option.splits)
  then show ?thesis using assms
    by (auto simp: registry_readkey_ptr_def readkey_def in_parent_def res_iff split: if_splits)
qed

end
