(* ===== verification/RegTree.thy ===== *)
theory RegTree
  imports Registry
begin

text \<open>
  What the registry promises its users: a tree of directories with named, typed entries. The theory relates
  the stores in the heap to such a tree and shows that creating a directory, adding a key and reading a key
  are the operations of the tree, so that a client can reason about a sequence of calls without the heap.
\<close>

section \<open>The abstract registry\<close>

text \<open>
  The registry as its users see it: every directory, named by the parts of its path, holds a list of entries
  with a name, a type and a value.
\<close>

type_synonym regtree = "u8 list list \<Rightarrow> (u8 list \<times> kvs_val_type \<times> u64) list option"

text \<open>
  The key value store compares hashes and a common prefix, so it tells two names apart only when they do
  not collide. \<open>N\<close> is the set of names in use.
\<close>

definition reg_names :: "u8 list set \<Rightarrow> bool" where
  "reg_names N \<longleftrightarrow> inj_on hash N \<and> (\<forall>k \<in> N. 0 \<notin> set k \<and> 47 \<notin> set k \<and> k \<noteq> [] \<and> length k \<le> max_keylen)"

definition entry_is :: "kvs_heap \<Rightarrow> addr \<Rightarrow> u8 list \<times> kvs_val_type \<times> u64 \<Rightarrow> bool" where
  "entry_is h p e \<longleftrightarrow> (\<exists>n. hmap h p = Some n \<and> fresh_entry (fst e) (snd (snd e)) (fst (snd e)) n)"

definition dir_at :: "u8 list set \<Rightarrow> store \<Rightarrow> (addr \<Rightarrow> addr list option) \<Rightarrow> u8 list list \<Rightarrow> (u8 list \<times> kvs_val_type \<times> u64) list \<Rightarrow> addr \<Rightarrow> bool" where
  "dir_at N st D cs es d \<longleftrightarrow> set cs \<subseteq> N \<and> fst ` set es \<subseteq> N \<and> walk_from (kheap st) D (kern_registry st) cs = At d \<and>
     (\<exists>ps. D d = Some ps \<and> list_all2 (entry_is (kheap st)) ps es)"

definition reg_rep :: "u8 list set \<Rightarrow> store \<Rightarrow> (addr \<Rightarrow> addr list option) \<Rightarrow> (addr \<Rightarrow> nat) \<Rightarrow> (u8 list list \<Rightarrow> addr) \<Rightarrow> regtree \<Rightarrow> bool" where
  "reg_rep N st D dep loc T \<longleftrightarrow> tree_inv st D dep \<and> (\<forall>cs es. T cs = Some es \<longrightarrow> dir_at N st D cs es (loc cs)) \<and> inj_on loc (dom T)"

definition reg_tree :: "u8 list set \<Rightarrow> store \<Rightarrow> regtree \<Rightarrow> bool" where
  "reg_tree N st T \<longleftrightarrow> reg_names N \<and> (\<exists>D dep loc. reg_rep N st D dep loc T)"

lemma match_name:
  assumes "reg_names N" "k \<in> N" "k' \<in> N" "fresh_entry k v vt n"
  shows "kvs_match k' n \<longleftrightarrow> k' = k"
proof
  have t: "take (key_strnlen j) j = j" if "j \<in> N" for j
    using assms(1) that key_strnlen_cstring[of j] by (auto simp: reg_names_def)
  have h: "key_hash n = hash k" using assms(4) t[OF assms(2)] by (simp add: fresh_entry_def kvs_match_def)
  assume "kvs_match k' n"
  then have "hash k' = hash k" using h t[OF assms(3)] by (simp add: kvs_match_def)
  then show "k' = k" using assms(1-3) by (auto simp: reg_names_def dest: inj_onD)
qed (use assms(4) in \<open>simp add: fresh_entry_def\<close>)

lemma entries_lookup:
  assumes "reg_names N" "k \<in> N" "list_all2 (entry_is h) ps es" "fst ` set es \<subseteq> N"
  shows "case map_of es k of None \<Rightarrow> kvs_lookup h ps k = None
    | Some (vt, v) \<Rightarrow> \<exists>p n. kvs_lookup h ps k = Some p \<and> hmap h p = Some n \<and> val_type n = vt \<and> u_val n = v"
  using assms(3,4)
proof (induction rule: list_all2_induct)
  case Nil
  then show ?case by (simp add: kvs_lookup_def)
next
  case (Cons p ps e es)
  obtain j vt v n where e: "e = (j, vt, v)" "hmap h p = Some n" "fresh_entry j v vt n"
    using Cons(1) by (cases e) (auto simp: entry_is_def)
  have m: "kvs_match k n \<longleftrightarrow> k = j" using match_name[OF assms(1) _ assms(2) e(3)] Cons.prems e(1) by simp
  have "kvs_lookup h (p # ps) k = (if k = j then Some p else kvs_lookup h ps k)" using e(2) m by (simp add: kvs_lookup_def)
  then show ?case using Cons.IH Cons.prems e by (auto simp: fresh_entry_def split: option.splits)
qed

text \<open>A walk over names in use is not diverted by an entry with a name the directory did not answer before.\<close>

lemma walk_extend:
  assumes inv: "tree_inv st D dep" and N: "reg_names N" and d: "D d = Some ps" and g: "grown (kheap st) d p h'"
    and n: "hmap h' p = Some n" "fresh_entry k v vt n" "k \<in> N" "kvs_lookup (kheap st) ps k = None"
  shows "e \<in> dom D \<Longrightarrow> set cs \<subseteq> N \<Longrightarrow> walk_from (kheap st) D e cs = At f \<Longrightarrow> walk_from h' (D(d \<mapsto> p # ps)) e cs = At f"
proof (induction cs arbitrary: e)
  case Nil
  then show ?case by simp
next
  case (Cons c cs)
  obtain es where e: "D e = Some es" using Cons.prems(1) by auto
  note S = tree_invD(5)[OF inv e]
  obtain q where q: "length c \<le> max_keylen" "kvs_lookup (kheap st) es c = Some q" "val_type (the (hmap (kheap st) q)) = kvs_val_child"
      "walk_from (kheap st) D (u_val (the (hmap (kheap st) q))) cs = At f"
    using walk_from_induct_simps[OF Cons.prems(3)] e by auto
  obtain m where m: "hmap (kheap st) q = Some m" "q \<in> set es" using lookup_node[OF S q(2)] .
  have m': "hmap h' q = Some m" using grown_entry[OF inv g d e m(2)] m(1) by simp
  have lk: "kvs_lookup h' (the ((D(d \<mapsto> p # ps)) e)) c = Some q"
  proof (cases "e = d")
    case True
    then have "es = ps" using d e by simp
    then have "c \<noteq> k" using q(2) n(4) by auto
    then have "\<not> kvs_match c n" using match_name[OF N n(3) _ n(2), of c] Cons.prems(2) by simp
    then show ?thesis using grown_lookup[OF inv d g n(1), of c] q(2) True \<open>es = ps\<close> by simp
  next
    case False
    have "kvs_lookup h' es c = kvs_lookup (kheap st) es c"
      by (rule kvs_store_frame(2)[OF S]) (rule grown_other[OF inv g d e False[symmetric]])
    then show ?thesis using q(2) e False by simp
  qed
  have "u_val m \<in> dom D" using tree_invD(7)[OF inv e m(2,1)] q(3) m(1) by simp
  then show ?case using Cons.IH[of "u_val m"] Cons.prems(2) q(1,3,4) m(1) m' lk by simp
qed

lemma reg_repD:
  assumes "reg_rep N st D dep loc T"
  shows "tree_inv st D dep" "\<And>cs es. T cs = Some es \<Longrightarrow> dir_at N st D cs es (loc cs)" "inj_on loc (dom T)"
  using assms by (auto simp: reg_rep_def)

lemma dir_atE:
  assumes "dir_at N st D cs es d"
  obtains ps where "set cs \<subseteq> N" "fst ` set es \<subseteq> N" "walk_from (kheap st) D (kern_registry st) cs = At d" "D d = Some ps"
    "list_all2 (entry_is (kheap st)) ps es"
  using assms that by (auto simp: dir_at_def)

lemma entries_frame: "list_all2 (entry_is h) ps es \<Longrightarrow> (\<And>q. q \<in> set ps \<Longrightarrow> hmap h' q = hmap h q) \<Longrightarrow> list_all2 (entry_is h') ps es"
  by (auto simp: list_all2_conv_all_nth entry_is_def)

lemma dir_grow:
  assumes inv: "tree_inv st D dep" and N: "reg_names N" and d: "D d = Some ps" and g: "grown (kheap st) d p h'"
    and n: "hmap h' p = Some n" "fresh_entry k v vt n" "k \<in> N" "kvs_lookup (kheap st) ps k = None"
    and e: "dir_at N st D cs es e"
  shows "dir_at N (st\<lparr>kheap := h'\<rparr>) (D(d \<mapsto> p # ps)) cs (if e = d then (k, vt, v) # es else es) e"
proof -
  obtain qs where q: "set cs \<subseteq> N" "fst ` set es \<subseteq> N" "walk_from (kheap st) D (kern_registry st) cs = At e" "D e = Some qs"
    "list_all2 (entry_is (kheap st)) qs es" using e by (rule dir_atE)
  have "walk_from h' (D(d \<mapsto> p # ps)) (kern_registry st) cs = At e"
    by (rule walk_extend[OF inv N d g n tree_invD(3)[OF inv] q(1,3)])
  moreover have "list_all2 (entry_is h') qs es" using q(5) grown_entry[OF inv g d q(4)] by (rule entries_frame)
  moreover have "entry_is h' p (k, vt, v)" using n(1,2) by (simp add: entry_is_def)
  ultimately show ?thesis using q(1,2,4) d n(3) by (auto simp: dir_at_def)
qed

lemma rep_grow:
  assumes R: "reg_rep N st D dep loc T" and N: "reg_names N" and T: "T cs = Some es" and d: "loc cs = d" "D d = Some ps"
    and g: "grown (kheap st) d p h'" "tree_inv (st\<lparr>kheap := h'\<rparr>) (D(d \<mapsto> p # ps)) dep"
    and n: "hmap h' p = Some n" "fresh_entry k v vt n" "k \<in> N" "kvs_lookup (kheap st) ps k = None"
  shows "reg_rep N (st\<lparr>kheap := h'\<rparr>) (D(d \<mapsto> p # ps)) dep loc (T(cs \<mapsto> (k, vt, v) # es))"
proof -
  note R' = reg_repD[OF R]
  have "dir_at N (st\<lparr>kheap := h'\<rparr>) (D(d \<mapsto> p # ps)) c' e' (loc c')" if "(T(cs \<mapsto> (k, vt, v) # es)) c' = Some e'" for c' e'
  proof (cases "c' = cs")
    case True
    then show ?thesis using dir_grow[OF R'(1) N d(2) g(1) n R'(2)[OF T]] d(1) that by simp
  next
    case False
    then have c': "T c' = Some e'" using that by simp
    then have "loc c' \<noteq> d" using inj_onD[OF R'(3), of c' cs] T d(1) False by auto
    then show ?thesis using dir_grow[OF R'(1) N d(2) g(1) n R'(2)[OF c']] by simp
  qed
  moreover have "dom (T(cs \<mapsto> (k, vt, v) # es)) = dom T" using T by auto
  ultimately show ?thesis using g(2) R'(3) by (simp add: reg_rep_def)
qed

lemma rep_spare:
  assumes R: "reg_rep N st D dep loc T" and q: "hmap (kheap st) q = None" "\<forall>p. p \<noteq> q \<longrightarrow> hmap h1 p = hmap (kheap st) p"
    and inv: "tree_inv (st\<lparr>kheap := h1\<rparr>) (D(q \<mapsto> [])) dep'"
  shows "reg_rep N (st\<lparr>kheap := h1\<rparr>) (D(q \<mapsto> [])) dep' loc T" "q \<notin> loc ` dom T"
proof -
  note R' = reg_repD[OF R]
  have qn: "q \<notin> set (e # ps)" if "D e = Some ps" for e ps using storeD(6)[OF tree_invD(5)[OF R'(1) that], of q] q(1) by auto
  have "dir_at N (st\<lparr>kheap := h1\<rparr>) (D(q \<mapsto> [])) cs es (loc cs) \<and> loc cs \<noteq> q" if "T cs = Some es" for cs es
  proof -
    note T = that
    obtain ps where p: "set cs \<subseteq> N" "fst ` set es \<subseteq> N" "walk_from (kheap st) D (kern_registry st) cs = At (loc cs)" "D (loc cs) = Some ps"
      "list_all2 (entry_is (kheap st)) ps es" using R'(2)[OF T] by (rule dir_atE)
    have "walk_from h1 (D(q \<mapsto> [])) (kern_registry st) cs = At (loc cs)"
      using walk_spare[OF R'(1) q(1) _ tree_invD(3)[OF R'(1)]] q(2) p(3) by simp
    moreover have "list_all2 (entry_is h1) ps es" using p(5) by (rule entries_frame) (use qn[OF p(4)] q(2) in auto)
    ultimately show ?thesis using p qn[OF p(4)] by (auto simp: dir_at_def)
  qed
  then show "reg_rep N (st\<lparr>kheap := h1\<rparr>) (D(q \<mapsto> [])) dep' loc T" "q \<notin> loc ` dom T" using inv R'(3) by (auto simp: reg_rep_def)
qed

lemma rep_name:
  assumes R: "reg_rep N st D dep loc T" and c: "dir_at N st D c es q" "q \<notin> loc ` dom T"
  shows "reg_rep N st D dep (loc(c := q)) (T(c \<mapsto> es))"
proof -
  note R' = reg_repD[OF R]
  have "inj_on (loc(c := q)) (dom (T(c \<mapsto> es)))"
    using R'(3) c(2) by (auto simp: inj_on_def)
  then show ?thesis using R'(1,2) c(1) by (simp add: reg_rep_def)
qed

section \<open>The operations refine it\<close>

lemma tree_dir:
  assumes "reg_tree N st T" "T (path_parts x) = Some es"
  obtains D dep loc ps where "reg_rep N st D dep loc T" "lookup_path st D x = At (loc (path_parts x))"
    "D (loc (path_parts x)) = Some ps" "list_all2 (entry_is (kheap st)) ps es" "fst ` set es \<subseteq> N" "set (path_parts x) \<subseteq> N"
proof -
  obtain D dep loc where R: "reg_rep N st D dep loc T" using assms(1) by (auto simp: reg_tree_def)
  show ?thesis using R reg_repD(2)[OF R assms(2)] that by (auto simp: dir_at_def lookup_path_def)
qed

lemma tree_lookup_none:
  assumes "reg_names N" "k \<in> N" "list_all2 (entry_is h) ps es" "fst ` set es \<subseteq> N" "k \<notin> fst ` set es"
  shows "kvs_lookup h ps k = None"
  using entries_lookup[OF assms(1-4)] assms(5) by (simp add: map_of_eq_None_iff[THEN iffD2])

lemma tree_add_uint:
  assumes T: "reg_tree N st T" "T (path_parts x) = Some es" "k \<in> N" "k \<notin> fst ` set es" and av: "avail (kheap st) = a # rest"
  shows "\<exists>st'. registry_addkey_uint st (Some x) (Some k) v = Inr (err_ok, st') \<and>
    reg_tree N st' (T(path_parts x \<mapsto> (k, kvs_val_uint, v) # es)) \<and> avail (kheap st') = rest"
proof -
  have N: "reg_names N" "0 \<notin> set k" using T(1,3) by (auto simp: reg_tree_def reg_names_def)
  obtain p g where a: "a = (p, g)" by (cases a)
  obtain D dep loc ps where R: "reg_rep N st D dep loc T" "lookup_path st D x = At (loc (path_parts x))"
    "D (loc (path_parts x)) = Some ps" "list_all2 (entry_is (kheap st)) ps es" "fst ` set es \<subseteq> N" using T(1,2) by (rule tree_dir)
  have k: "kvs_lookup (kheap st) ps k = None" by (rule tree_lookup_none[OF N(1) T(3) R(4,5) T(4)])
  have "kvs_val_uint \<noteq> kvs_val_uninit" "kvs_val_uint \<noteq> kvs_val_child" by simp_all
  then obtain h' n where h: "addkey st (Some x) (Some k) (\<lambda>h r. kvs_add_internal h r (Some k) v kvs_val_uint) = Inr (err_ok, st\<lparr>kheap := h'\<rparr>)"
      "tree_inv (st\<lparr>kheap := h'\<rparr>) (D(loc (path_parts x) \<mapsto> p # ps)) dep" "grown (kheap st) (loc (path_parts x)) p h'"
      "hmap h' p = Some n" "fresh_entry k v kvs_val_uint n" "avail h' = rest"
    using addkey_grows[OF reg_repD(1)[OF R(1)] R(2,3) N(2) k _ _ av[unfolded a]] by blast
  have "reg_rep N (st\<lparr>kheap := h'\<rparr>) (D(loc (path_parts x) \<mapsto> p # ps)) dep loc (T(path_parts x \<mapsto> (k, kvs_val_uint, v) # es))"
    by (rule rep_grow[OF R(1) N(1) T(2) refl R(3) h(3,2,4,5) T(3) k])
  then show ?thesis using h(1,6) N(1) by (auto simp: reg_tree_def registry_addkey_uint_def kvs_add_uint_def)
qed

lemma tree_createdirectory:
  assumes T: "reg_tree N st T" "T (path_parts x) = Some es" "k \<in> N" "k \<notin> fst ` set es" and av: "avail (kheap st) = a # b # rest"
  shows "\<exists>st' q. registry_createdirectory st (Some x) (Some k) = Inr (err_ok, st') \<and>
    reg_tree N st' (T(path_parts x \<mapsto> (k, kvs_val_child, q) # es, path_parts x @ [k] \<mapsto> [])) \<and> avail (kheap st') = rest"
proof -
  have N: "reg_names N" "0 \<notin> set k" "length k \<le> max_keylen" using T(1,3) by (auto simp: reg_tree_def reg_names_def)
  obtain q g p g' where a: "a = (q, g)" "b = (p, g')" by (cases a; cases b)
  let ?x = "path_parts x"
  obtain D dep loc ps where R: "reg_rep N st D dep loc T" "lookup_path st D x = At (loc ?x)"
    "D (loc ?x) = Some ps" "list_all2 (entry_is (kheap st)) ps es" "fst ` set es \<subseteq> N" "set ?x \<subseteq> N" using T(1,2) by (rule tree_dir)
  let ?d = "loc ?x" and ?dep = "dep(q := Suc (dep (loc ?x)))"
  have k: "kvs_lookup (kheap st) ps k = None" by (rule tree_lookup_none[OF N(1) T(3) R(4,5) T(4)])
  obtain h1 h2 n where h: "createdirectory st (Some x) (Some k) = Inr (err_ok, st\<lparr>kheap := h2\<rparr>)" "hmap (kheap st) q = None"
      "\<forall>p. p \<noteq> q \<longrightarrow> hmap h1 p = hmap (kheap st) p" "tree_inv (st\<lparr>kheap := h1\<rparr>) (D(q \<mapsto> [])) ?dep" "grown h1 ?d p h2"
      "tree_inv (st\<lparr>kheap := h2\<rparr>) (D(q \<mapsto> [], ?d \<mapsto> p # ps)) ?dep" "hmap h2 p = Some n"
      "fresh_entry k q kvs_val_child n" "avail h2 = rest" "q \<noteq> ?d"
    using createdirectory_grows[OF reg_repD(1)[OF R(1)] R(2,3) N(2) k av[unfolded a]] by blast
  note S = rep_spare[OF R(1) h(2,3,4)]
  define st1 where "st1 = st\<lparr>kheap := h1\<rparr>"
  have s1: "kheap st1 = h1" "st1\<lparr>kheap := h2\<rparr> = st\<lparr>kheap := h2\<rparr>" "kern_registry st1 = kern_registry st" by (simp_all add: st1_def)
  have d1: "(D(q \<mapsto> [])) ?d = Some ps" using R(3) h(10) by simp
  obtain ps' where "(D(q \<mapsto> [])) ?d = Some ps'" "list_all2 (entry_is h1) ps' es"
    using reg_repD(2)[OF S(1) T(2)] by (auto simp: dir_at_def)
  then have k1: "kvs_lookup (kheap st1) ps k = None" using tree_lookup_none[OF N(1) T(3) _ R(5) T(4), of h1 ps] d1 s1(1) by simp
  have G: "reg_rep N (st\<lparr>kheap := h2\<rparr>) (D(q \<mapsto> [], ?d \<mapsto> p # ps)) ?dep loc (T(?x \<mapsto> (k, kvs_val_child, q) # es))"
    using rep_grow[OF S(1)[folded st1_def] N(1) T(2) refl d1, of p h2 n k q kvs_val_child, unfolded s1, OF h(5-8) T(3) k1[unfolded s1]] .
  have "dir_at N (st\<lparr>kheap := h2\<rparr>) (D(q \<mapsto> [], ?d \<mapsto> p # ps)) ?x ((k, kvs_val_child, q) # es) ?d"
    using reg_repD(2)[OF G, of ?x] by simp
  then have "walk_from h2 (D(q \<mapsto> [], ?d \<mapsto> p # ps)) (kern_registry st) ?x = At ?d" by (auto simp: dir_at_def)
  moreover have "kvs_lookup h2 (p # ps) k = Some p" using h(7,8) by (simp add: kvs_lookup_def fresh_entry_def)
  ultimately have "walk_from h2 (D(q \<mapsto> [], ?d \<mapsto> p # ps)) (kern_registry st) (?x @ [k]) = At q"
    using N(3) h(7,8) by (simp add: walk_snoc fresh_entry_def)
  then have new: "dir_at N (st\<lparr>kheap := h2\<rparr>) (D(q \<mapsto> [], ?d \<mapsto> p # ps)) (?x @ [k]) [] q"
    using R(6) T(3) h(10) by (simp add: dir_at_def)
  have "reg_rep N (st\<lparr>kheap := h2\<rparr>) (D(q \<mapsto> [], ?d \<mapsto> p # ps)) ?dep (loc(?x @ [k] := q))
      (T(?x \<mapsto> (k, kvs_val_child, q) # es, ?x @ [k] \<mapsto> []))"
    using S(2) T(2) by (intro rep_name[OF G new]) auto
  then show ?thesis using h(1,9) N(1) by (auto simp: reg_tree_def registry_createdirectory_def)
qed

lemma tree_read_uint:
  assumes T: "reg_tree N st T" "T (path_parts x) = Some es" "k \<in> N"
  shows "registry_readkey_uint st (Some x) (Some k) True =
    (case map_of es k of None \<Rightarrow> Inr (err_dne, None, st)
     | Some (vt, v) \<Rightarrow> if vt = kvs_val_uint then Inr (err_ok, Some v, st) else Inr (err_typematchfailure, None, st))"
proof -
  have N: "reg_names N" using T(1) by (simp add: reg_tree_def)
  obtain D dep loc ps where R: "reg_rep N st D dep loc T" "lookup_path st D x = At (loc (path_parts x))"
    "D (loc (path_parts x)) = Some ps" "list_all2 (entry_is (kheap st)) ps es" "fst ` set es \<subseteq> N" using T(1,2) by (rule tree_dir)
  note rd = readkey_at[OF reg_repD(1)[OF R(1)] R(2,3), of k kvs_val_uint kvs_get_uint]
  show ?thesis
  proof (cases "map_of es k")
    case None
    then have "kvs_lookup (kheap st) ps k = None" using entries_lookup[OF N T(3) R(4,5)] by simp
    then show ?thesis using None rd by (simp add: registry_readkey_uint_def)
  next
    case (Some e)
    obtain vt v where e: "e = (vt, v)" by (cases e)
    obtain p n where p: "kvs_lookup (kheap st) ps k = Some p" "hmap (kheap st) p = Some n" "val_type n = vt" "u_val n = v"
      using entries_lookup[OF N T(3) R(4,5)] Some e by auto
    have "p \<noteq> NULL" using lookup_node[OF tree_invD(5)[OF reg_repD(1)[OF R(1)] R(3)] p(1)] by metis
    then show ?thesis using Some e p rd by (simp add: registry_readkey_uint_def kvs_get_uint_def kvs_get_internal_def)
  qed
qed

text \<open>A fresh registry is the tree with an empty root.\<close>

lemma tree_fresh:
  assumes "reg_names N" "kvs_wf (kheap st)" "\<not> kern_lock st" "avail (kheap st) = a # rest"
  shows "\<exists>h q. kvs_create (kheap st) True = Inr (kvs_ok, q, h) \<and> reg_tree N (st\<lparr>kheap := h, kern_registry := q\<rparr>) [[] \<mapsto> []] \<and> avail h = rest"
proof -
  obtain q g where a: "a = (q, g)" by (cases a)
  obtain h where h: "kvs_create (kheap st) True = Inr (kvs_ok, q, h)" "kvs_wf h" "kvs_store h q []" "avail h = rest"
    using kvs_create_new[OF assms(2) assms(4)[unfolded a]] by blast
  let ?st = "st\<lparr>kheap := h, kern_registry := q\<rparr>"
  have "tree_inv ?st [q \<mapsto> []] (\<lambda>_. 0)" using h(2,3) assms(3) by (simp add: tree_inv_def)
  then have "reg_rep N ?st [q \<mapsto> []] (\<lambda>_. 0) (\<lambda>_. q) [[] \<mapsto> []]" by (simp add: reg_rep_def dir_at_def)
  then show ?thesis using assms(1) h(1,4) by (auto simp: reg_tree_def)
qed

section \<open>Properties\<close>


text \<open>A heap with spare nodes only.\<close>

definition spare_node :: kvs where
  "spare_node = \<lparr>key = replicate key_len 0, owner_locked = False, key_hash = 0, val_type = kvs_val_none, u_val = 0, next = 0\<rparr>"

definition spare_store :: "nat \<Rightarrow> store" where
  "spare_store n = \<lparr>kheap = \<lparr>cells = [], avail = map (\<lambda>i. (of_nat (16 * (i + 1)), spare_node)) [0..<n]\<rparr>,
     sheap = \<lparr>cells = [], avail = []\<rparr>, kern_registry = 0, kern_lock = False\<rparr>"

lemma spare_store_simps [simp]: "\<not> kern_lock (spare_store n)" "length (avail (kheap (spare_store n))) = n"
  by (simp_all add: spare_store_def)

lemma spare_store_wf: "n \<le> 1000 \<Longrightarrow> kvs_wf (kheap (spare_store n))"
proof -
  assume n: "n \<le> 1000"
  have u: "unat (of_nat (16 * (i + 1)) :: u64) = 16 * (i + 1)" if "i < n" for i
    using that n by (intro unat_of_nat_64) simp
  have "inj_on (\<lambda>i. of_nat (16 * (i + 1)) :: u64) {0..<n}"
    by (rule inj_onI) (use u in \<open>metis atLeastLessThan_iff add_right_cancel mult_cancel1 zero_neq_numeral\<close>)
  moreover have "(of_nat (16 * (i + 1)) :: u64) \<noteq> 0" if "i < n" for i
    using u[OF that] by (metis unat_0 add_is_0 mult_is_0 zero_neq_numeral zero_neq_one)
  ultimately show ?thesis
    by (auto simp: spare_store_def kvs_wf_def heap_wf_def spare_node_def distinct_map comp_def)
qed


end
