(* ===== verification/BootInfo.thy ===== *)
theory BootInfo
  imports RegTree StdLib
begin

text \<open>
  The boot information in the registry, \<^verbatim>\<open>modules/SysReg/src/bootinfo.c\<close>: the loader's description of the
  machine becomes directories and keys, among them one directory for every free region of the memory map.
  The proofs run on the abstract tree of \<open>RegTree\<close>.
\<close>

section \<open>The boot information\<close>

text \<open>The fields of the boot information the module reads; the map is the array of \<open>CardinalMemoryMapCount\<close> regions.\<close>

record CardinalMemMap =
  mm_addr :: u64
  mm_len :: u64
  mm_type :: u32

record CardinalBootInfo =
  MemorySize :: u64
  CardinalMemoryMapCount :: u32
  RSDPAddress :: u64
  InitrdStartAddress :: u64
  InitrdPhysStartAddress :: u64
  InitrdLength :: u64
  CardinalMemoryMap :: "CardinalMemMap list"
  FramebufferAddress :: u64
  FramebufferPitch :: u32
  FramebufferWidth :: u32
  FramebufferHeight :: u32
  FramebufferRedFieldPosition :: u8
  FramebufferRedMaskSize :: u8
  FramebufferGreenFieldPosition :: u8
  FramebufferGreenMaskSize :: u8
  FramebufferBlueFieldPosition :: u8
  FramebufferBlueMaskSize :: u8

abbreviation (input) CardinalMemoryRegionType_Free :: u32 where
  "CardinalMemoryRegionType_Free \<equiv> 1"

text \<open>A call whose failure ends the function with a code of its own.\<close>

definition or_return :: "(store_error \<times> store) res \<Rightarrow> int \<Rightarrow> (store \<Rightarrow> (int \<times> store) res) \<Rightarrow> (int \<times> store) res" where
  "or_return r code k = bindE r (\<lambda>(e, st). if e \<noteq> err_ok then Inr (code, st) else k st)"

definition put_uint :: "store \<Rightarrow> cstring \<Rightarrow> string \<Rightarrow> u64 \<Rightarrow> (store_error \<times> store) res" where
  "put_uint st pathname keyname v = registry_addkey_uint st (Some pathname) (Some (str keyname)) v"

text \<open>
  The directory of region \<open>i\<close>: the prefix with the index appended that \<open>itoa\<close> prints in base 16. The index is
  converted to \<open>int\<close> for the call.
\<close>

definition phys_idx :: "u64 \<Rightarrow> cstring" where
  "phys_idx i = int_str 16 (ucast i :: 32 word)"

definition phys_key :: "u64 \<Rightarrow> cstring" where
  "phys_key i = str ''HW/PHYS_MEM/'' @ phys_idx i"

text \<open>The loop over the memory map; \<open>fin\<close> is the code that follows it.\<close>

function mem_map_loop :: "store \<Rightarrow> CardinalMemMap list \<Rightarrow> u32 \<Rightarrow> u32 \<Rightarrow> u32 \<Rightarrow> (store \<Rightarrow> u32 \<Rightarrow> (int \<times> store) res) \<Rightarrow> (int \<times> store) res" where
  "mem_map_loop st mmap n i j fin =
     (if i < n then
        bindE (aget mmap (uint i)) (\<lambda>e.
          if mm_type e \<noteq> CardinalMemoryRegionType_Free then mem_map_loop st mmap n (i + 1) j fin
          else or_return (registry_createdirectory st (Some (str ''HW/PHYS_MEM'')) (Some (phys_idx (ucast j)))) (-6) (\<lambda>st.
               or_return (put_uint st (phys_key (ucast j)) ''ADDR'' (mm_addr e)) (-7) (\<lambda>st.
               or_return (put_uint st (phys_key (ucast j)) ''LEN'' (mm_len e)) (-8) (\<lambda>st.
                 mem_map_loop st mmap n (i + 1) (j + 1) fin))))
      else fin st j)"
  by pat_completeness auto
termination
  by (relation "measure (\<lambda>(st, mmap, n, i, j, fin). unat n - unat i)") (auto intro: counter_step)

declare mem_map_loop.simps [simp del]

text \<open>\<^verbatim>\<open>(1 << size) - 1\<close> at the width of \<open>int\<close>; the processor reduces the shift count modulo 32.\<close>

definition field_mask :: "u8 \<Rightarrow> u64" where
  "field_mask k = scast (push_bit (unat k mod 32) 1 - 1 :: 32 word)"

definition add_framebuffer :: "CardinalBootInfo \<Rightarrow> store \<Rightarrow> (int \<times> store) res" where
  "add_framebuffer bInfo st =
     (let fb = str ''HW/BOOTINFO/FRAMEBUFFER'' in
      or_return (registry_createdirectory st (Some (str ''HW/BOOTINFO'')) (Some (str ''FRAMEBUFFER''))) (-10) (\<lambda>st.
      or_return (put_uint st fb ''PHYS_ADDR'' (FramebufferAddress bInfo)) (-11) (\<lambda>st.
      or_return (put_uint st fb ''PITCH'' (ucast (FramebufferPitch bInfo))) (-12) (\<lambda>st.
      or_return (put_uint st fb ''WIDTH'' (ucast (FramebufferWidth bInfo))) (-13) (\<lambda>st.
      or_return (put_uint st fb ''HEIGHT'' (ucast (FramebufferHeight bInfo))) (-14) (\<lambda>st.
      or_return (put_uint st fb ''RED_MASK'' (field_mask (FramebufferRedMaskSize bInfo))) (-15) (\<lambda>st.
      or_return (put_uint st fb ''RED_OFFSET'' (ucast (FramebufferRedFieldPosition bInfo))) (-16) (\<lambda>st.
      or_return (put_uint st fb ''GREEN_MASK'' (field_mask (FramebufferGreenMaskSize bInfo))) (-17) (\<lambda>st.
      or_return (put_uint st fb ''GREEN_OFFSET'' (ucast (FramebufferGreenFieldPosition bInfo))) (-18) (\<lambda>st.
      or_return (put_uint st fb ''BLUE_MASK'' (field_mask (FramebufferBlueMaskSize bInfo))) (-19) (\<lambda>st.
      or_return (put_uint st fb ''BLUE_OFFSET'' (ucast (FramebufferBlueFieldPosition bInfo))) (-20) (\<lambda>st.
        Inr (0, st)))))))))))))"

definition add_bootinfo :: "CardinalBootInfo \<Rightarrow> store \<Rightarrow> (int \<times> store) res" where
  "add_bootinfo bInfo st =
     (let bi = str ''HW/BOOTINFO''; ird = str ''HW/BOOTINFO/INITRD'' in
      or_return (put_uint st bi ''MEMSIZE'' (MemorySize bInfo)) (-1) (\<lambda>st.
      or_return (put_uint st bi ''RSDPADDR'' (RSDPAddress bInfo)) (-2) (\<lambda>st.
      or_return (registry_createdirectory st (Some bi) (Some (str ''INITRD''))) (-3) (\<lambda>st.
      or_return (put_uint st ird ''VIRT_ADDR'' (InitrdStartAddress bInfo)) (-4) (\<lambda>st.
      or_return (put_uint st ird ''PHYS_ADDR'' (InitrdPhysStartAddress bInfo)) (-4) (\<lambda>st.
      or_return (put_uint st ird ''LEN'' (InitrdLength bInfo)) (-5) (\<lambda>st.
        mem_map_loop st (CardinalMemoryMap bInfo) (CardinalMemoryMapCount bInfo) 0 0 (\<lambda>st j.
          or_return (put_uint st (str ''HW/PHYS_MEM'') ''ENTRY_COUNT'' (ucast j)) (-9) (add_framebuffer bInfo)))))))))"

section \<open>What a sequence of calls leaves in the registry\<close>

lemma put_step:
  assumes "reg_tree N st T" "T (path_parts x) = Some es" "str k \<in> N" "str k \<notin> fst ` set es" "avail (kheap st) \<noteq> []"
    and "\<And>st'. reg_tree N st' (T(path_parts x \<mapsto> (str k, kvs_val_uint, v) # es)) \<Longrightarrow> avail (kheap st') = tl (avail (kheap st)) \<Longrightarrow> Q (f st')"
  shows "Q (or_return (put_uint st x k v) code f)"
proof -
  obtain a rest where av: "avail (kheap st) = a # rest" using assms(5) by (cases "avail (kheap st)") auto
  obtain st' where "registry_addkey_uint st (Some x) (Some (str k)) v = Inr (err_ok, st')"
      "reg_tree N st' (T(path_parts x \<mapsto> (str k, kvs_val_uint, v) # es))" "avail (kheap st') = rest"
    using tree_add_uint[OF assms(1-4) av] by blast
  then show ?thesis using assms(6) av by (simp add: or_return_def put_uint_def)
qed

lemma dir_step:
  assumes "reg_tree N st T" "T (path_parts x) = Some es" "k \<in> N" "k \<notin> fst ` set es" "2 \<le> length (avail (kheap st))"
    and "\<And>st' q. reg_tree N st' (T(path_parts x \<mapsto> (k, kvs_val_child, q) # es, path_parts x @ [k] \<mapsto> [])) \<Longrightarrow>
      avail (kheap st') = drop 2 (avail (kheap st)) \<Longrightarrow> Q (f st')"
  shows "Q (or_return (registry_createdirectory st (Some x) (Some k)) code f)"
proof -
  obtain a b rest where av: "avail (kheap st) = a # b # rest" using assms(5) by (cases "avail (kheap st)" rule: list.exhaust; cases "tl (avail (kheap st))") auto
  obtain st' q where "registry_createdirectory st (Some x) (Some k) = Inr (err_ok, st')"
      "reg_tree N st' (T(path_parts x \<mapsto> (k, kvs_val_child, q) # es, path_parts x @ [k] \<mapsto> []))" "avail (kheap st') = rest"
    using tree_createdirectory[OF assms(1-4) av] by blast
  then show ?thesis using assms(6)[of st' q] av by (simp add: or_return_def)
qed

lemma of_char_u8: "unat (of_char c :: u8) = (of_char c :: nat)"
proof -
  have "(of_char c :: nat) < 256" by (cases c) simp
  then show ?thesis by (subst of_nat_of_char[symmetric]) (simp add: unat_of_nat)
qed

lemma str_eq [simp]: "str a = str b \<longleftrightarrow> a = b"
proof -
  have "inj (of_char :: char \<Rightarrow> u8)" by (rule injI) (metis of_char_u8 of_char_eq_iff)
  then show ?thesis by (simp add: str_def inj_map_eq_map)
qed

lemma phys_idx_hex: "m < 2 ^ 32 \<Longrightarrow> hex_value (phys_idx (of_nat m)) = m"
  using num_str_hex[of m] by (simp add: phys_idx_def int_str_def unsigned_of_nat unsigned_ucast_eq take_bit_nat_eq_self)

lemma phys_idx_inj: "m < 2 ^ 32 \<Longrightarrow> m' < 2 ^ 32 \<Longrightarrow> phys_idx (of_nat m) = phys_idx (of_nat m') \<Longrightarrow> m = m'"
  using phys_idx_hex by metis

lemma boot_paths [simp]:
  "path_parts [] = []" "path_parts (str ''HW'') = [str ''HW'']" "path_parts (str ''HW/BOOTINFO'') = [str ''HW'', str ''BOOTINFO'']"
  "path_parts (str ''HW/PHYS_MEM'') = [str ''HW'', str ''PHYS_MEM'']" "path_parts (str ''HW/CACHE'') = [str ''HW'', str ''CACHE'']"
  "path_parts (str ''HW/BOOTINFO/INITRD'') = [str ''HW'', str ''BOOTINFO'', str ''INITRD'']"
  "path_parts (str ''HW/BOOTINFO/FRAMEBUFFER'') = [str ''HW'', str ''BOOTINFO'', str ''FRAMEBUFFER'']"
  by (simp_all add: path_parts_def parts.simps str_def of_char_def)

lemma phys_key_parts: "47 \<notin> set (phys_idx i) \<Longrightarrow> path_parts (phys_key i) = [str ''HW'', str ''PHYS_MEM'', phys_idx i]"
proof -
  assume a: "47 \<notin> set (phys_idx i)"
  have "phys_key i = str ''HW/PHYS_MEM'' @ 47 # phys_idx i" by (simp add: phys_key_def str_def of_char_def)
  moreover have "str ''HW/PHYS_MEM'' \<noteq> []" by (simp add: str_def)
  ultimately have "path_parts (phys_key i) = path_parts (str ''HW/PHYS_MEM'') @ [phys_idx i]"
    using a by (simp add: path_parts_def parts_snoc)
  then show ?thesis by simp
qed

text \<open>The directory of the memory map, and the entries of one region.\<close>

abbreviation phys_dir :: "u8 list list" where
  "phys_dir \<equiv> [str ''HW'', str ''PHYS_MEM'']"

abbreviation boot_dir :: "u8 list list" where
  "boot_dir \<equiv> [str ''HW'', str ''BOOTINFO'']"

definition region_entries :: "CardinalMemMap \<Rightarrow> (u8 list \<times> kvs_val_type \<times> u64) list" where
  "region_entries r = [(str ''LEN'', kvs_val_uint, mm_len r), (str ''ADDR'', kvs_val_uint, mm_addr r)]"

definition free_regions :: "CardinalMemMap list \<Rightarrow> CardinalMemMap list" where
  "free_regions mmap = filter (\<lambda>r. mm_type r = CardinalMemoryRegionType_Free) mmap"

definition map_stored :: "regtree \<Rightarrow> CardinalMemMap list \<Rightarrow> bool" where
  "map_stored T rs \<longleftrightarrow> (\<forall>m < length rs. T (phys_dir @ [phys_idx (of_nat m)]) = Some (region_entries (rs ! m)))"

definition idx_names :: "nat \<Rightarrow> u8 list set" where
  "idx_names n = (\<lambda>m. phys_idx (of_nat m)) ` {..<n}"

lemma region_step:
  assumes st: "reg_tree N st T" "T phys_dir = Some es" "phys_idx i \<in> N" "phys_idx i \<notin> fst ` set es" "str ''ADDR'' \<in> N" "str ''LEN'' \<in> N"
    and av: "4 \<le> length (avail (kheap st))"
    and f: "\<And>st' q. reg_tree N st' (T(phys_dir \<mapsto> (phys_idx i, kvs_val_child, q) # es, phys_dir @ [phys_idx i] \<mapsto> region_entries r)) \<Longrightarrow>
      avail (kheap st') = drop 4 (avail (kheap st)) \<Longrightarrow> Q (f st')"
  shows "Q (or_return (registry_createdirectory st (Some (str ''HW/PHYS_MEM'')) (Some (phys_idx i))) a (\<lambda>st.
    or_return (put_uint st (phys_key i) ''ADDR'' (mm_addr r)) b (\<lambda>st. or_return (put_uint st (phys_key i) ''LEN'' (mm_len r)) c f)))"
proof (rule dir_step[OF st(1)])
  have pk: "path_parts (phys_key i) = phys_dir @ [phys_idx i]"
    using st(1,3) by (intro phys_key_parts[THEN trans]) (auto simp: reg_tree_def reg_names_def)
  fix st1 q
  assume 1: "reg_tree N st1 (T(path_parts (str ''HW/PHYS_MEM'') \<mapsto> (phys_idx i, kvs_val_child, q) # es, path_parts (str ''HW/PHYS_MEM'') @ [phys_idx i] \<mapsto> []))"
    "avail (kheap st1) = drop 2 (avail (kheap st))"
  show "Q (or_return (put_uint st1 (phys_key i) ''ADDR'' (mm_addr r)) b (\<lambda>st. or_return (put_uint st (phys_key i) ''LEN'' (mm_len r)) c f))"
  proof (rule put_step[OF 1(1)])
    fix st2 assume 2: "reg_tree N st2 (T(path_parts (str ''HW/PHYS_MEM'') \<mapsto> (phys_idx i, kvs_val_child, q) # es,
       path_parts (str ''HW/PHYS_MEM'') @ [phys_idx i] \<mapsto> [], path_parts (phys_key i) \<mapsto> [(str ''ADDR'', kvs_val_uint, mm_addr r)]))"
      "avail (kheap st2) = tl (avail (kheap st1))"
    show "Q (or_return (put_uint st2 (phys_key i) ''LEN'' (mm_len r)) c f)"
    proof (rule put_step[OF 2(1)])
      fix st3 assume "reg_tree N st3 (T(path_parts (str ''HW/PHYS_MEM'') \<mapsto> (phys_idx i, kvs_val_child, q) # es,
       path_parts (str ''HW/PHYS_MEM'') @ [phys_idx i] \<mapsto> [], path_parts (phys_key i) \<mapsto> [(str ''ADDR'', kvs_val_uint, mm_addr r)],
       path_parts (phys_key i) \<mapsto> [(str ''LEN'', kvs_val_uint, mm_len r), (str ''ADDR'', kvs_val_uint, mm_addr r)]))"
        "avail (kheap st3) = tl (avail (kheap st2))"
      then show "Q (f st3)" using f[of st3 q] 1(2) 2(2) by (simp add: pk region_entries_def tl_drop drop_Suc eval_nat_numeral)
    qed (use 1(2) 2(2) av st(6) in \<open>auto simp: pk tl_drop drop_Suc\<close>)
  qed (use 1(2) av st(5) in \<open>auto simp: pk\<close>)
qed (use st av in simp_all)

lemma mem_map_loop_stores:
  assumes "reg_tree N st T" "T phys_dir = Some es" "fst ` set es = idx_names (length pre)" "map_stored T pre"
    "length mmap = unat n" "unat i \<le> unat n" "j = of_nat (length pre)" "rs = free_regions (drop (unat i) mmap)"
    "length pre \<le> unat i" "idx_names (length (pre @ rs)) \<subseteq> N" "str ''ADDR'' \<in> N" "str ''LEN'' \<in> N" "4 * length rs \<le> length (avail (kheap st))"
  shows "\<exists>st' T' es'. mem_map_loop st mmap n i j fin = fin st' (of_nat (length (pre @ rs))) \<and> reg_tree N st' T' \<and>
    T' phys_dir = Some es' \<and> fst ` set es' = idx_names (length (pre @ rs)) \<and> map_stored T' (pre @ rs) \<and>
    (\<forall>cs. take 2 cs \<noteq> phys_dir \<longrightarrow> T' cs = T cs) \<and> avail (kheap st') = drop (4 * length rs) (avail (kheap st))"
  using assms
proof (induction "unat n - unat i" arbitrary: st T es pre i j rs rule: less_induct)
  case less
  show ?case
  proof (cases "i < n")
    case False
    then have "unat i = unat n" using less.prems(6) by (simp add: word_less_nat_alt)
    then have "rs = []" using less.prems(5,8) by (simp add: free_regions_def)
    then show ?thesis using False less.prems(1-4,7) by (subst mem_map_loop.simps) auto
  next
    case True
    have i: "unat (i + 1) = Suc (unat i)" "unat i < unat n" using True by (simp_all add: unat_inc word_less_nat_alt)
    have lt: "unat n - unat (i + 1) < unat n - unat i" using True by (rule counter_step)
    let ?r = "mmap ! unat i"
    have g: "aget mmap (uint i) = Inr ?r" using True less.prems(5) by (simp add: aget_def word_less_def)
    have dr: "drop (unat i) mmap = ?r # drop (unat (i + 1)) mmap" using i less.prems(5) by (simp add: Cons_nth_drop_Suc)
    show ?thesis
    proof (cases "mm_type ?r = CardinalMemoryRegionType_Free")
      case False
      then have rs: "rs = free_regions (drop (unat (i + 1)) mmap)" using less.prems(8) dr by (simp add: free_regions_def)
      have e: "mem_map_loop st mmap n i j fin = mem_map_loop st mmap n (i + 1) j fin"
        using False True g by (subst mem_map_loop.simps) simp
      show ?thesis unfolding e
        by (rule less.hyps[OF lt less.prems(1-5) _ less.prems(7) rs _ less.prems(10-13)]) (use i less.prems(9) in simp_all)
    next
      case free: True
      let ?k = "phys_idx (of_nat (length pre))" and ?rs = "free_regions (drop (unat (i + 1)) mmap)"
      have rs: "rs = ?r # ?rs" using free less.prems(8) dr by (simp add: free_regions_def)
      have small: "length pre < 2 ^ 32" using less.prems(9) i(2) unsigned_less[of n, where ?'a = nat] by simp
      have k: "?k \<in> N" using less.prems(10) by (auto simp: idx_names_def rs)
      have kn: "?k \<notin> fst ` set es"
      proof
        assume "?k \<in> fst ` set es"
        then obtain m where m: "m < length pre" "phys_idx (of_nat m) = ?k" unfolding less.prems(3) idx_names_def by auto
        then show False using phys_idx_inj[of m "length pre"] small by simp
      qed
      have uj: "ucast j = (of_nat (length pre) :: u64)" using small less.prems(7)
        by (simp add: unsigned_of_nat take_bit_nat_eq_self ucast_eq)
      define fin' where "fin' = (\<lambda>st. mem_map_loop st mmap n (i + 1) (j + 1) fin)"
      define Q where "Q = (\<lambda>r. \<exists>st' T' es'. r = fin st' (of_nat (length (pre @ rs))) \<and> reg_tree N st' T' \<and>
        T' phys_dir = Some es' \<and> fst ` set es' = idx_names (length (pre @ rs)) \<and> map_stored T' (pre @ rs) \<and>
        (\<forall>cs. take 2 cs \<noteq> phys_dir \<longrightarrow> T' cs = T cs) \<and> avail (kheap st') = drop (4 * length rs) (avail (kheap st)))"
      have fin: "Q (fin' st')" if st': "reg_tree N st' (T(phys_dir \<mapsto> (?k, kvs_val_child, q) # es, phys_dir @ [?k] \<mapsto> region_entries ?r))"
        "avail (kheap st') = drop 4 (avail (kheap st))" for st' q
      proof -
        let ?T = "T(phys_dir \<mapsto> (?k, kvs_val_child, q) # es, phys_dir @ [?k] \<mapsto> region_entries ?r)"
        have ms: "map_stored ?T (pre @ [?r])"
          unfolding map_stored_def
        proof (intro allI impI)
          fix m assume m: "m < length (pre @ [?r])"
          show "?T (phys_dir @ [phys_idx (of_nat m)]) = Some (region_entries ((pre @ [?r]) ! m))"
            using m less.prems(4) phys_idx_inj[of m "length pre"] small by (auto simp: map_stored_def nth_append less_Suc_eq)
        qed
        have "\<exists>st'' T' es'. mem_map_loop st' mmap n (i + 1) (j + 1) fin = fin st'' (of_nat (length ((pre @ [?r]) @ ?rs))) \<and> reg_tree N st'' T' \<and>
          T' phys_dir = Some es' \<and> fst ` set es' = idx_names (length ((pre @ [?r]) @ ?rs)) \<and> map_stored T' ((pre @ [?r]) @ ?rs) \<and>
          (\<forall>cs. take 2 cs \<noteq> phys_dir \<longrightarrow> T' cs = ?T cs) \<and> avail (kheap st'') = drop (4 * length ?rs) (avail (kheap st'))"
        proof (rule less.hyps[OF lt st'(1) _ _ ms less.prems(5) _ _ refl])
          show "fst ` set ((?k, kvs_val_child, q) # es) = idx_names (length (pre @ [?r]))"
            using less.prems(3) by (simp add: idx_names_def lessThan_Suc)
          show "4 * length ?rs \<le> length (avail (kheap st'))" using less.prems(13) st'(2) unfolding rs by simp
          show "idx_names (length ((pre @ [?r]) @ ?rs)) \<subseteq> N" using less.prems(10) unfolding rs by simp
        qed (use i less.prems(7,9,11,12) in simp_all)
        then obtain s2 T' es' where R: "mem_map_loop st' mmap n (i + 1) (j + 1) fin = fin s2 (of_nat (length ((pre @ [?r]) @ ?rs)))" "reg_tree N s2 T'"
          "T' phys_dir = Some es'" "fst ` set es' = idx_names (length ((pre @ [?r]) @ ?rs))" "map_stored T' ((pre @ [?r]) @ ?rs)"
          "\<forall>cs. take 2 cs \<noteq> phys_dir \<longrightarrow> T' cs = ?T cs" "avail (kheap s2) = drop (4 * length ?rs) (avail (kheap st'))" by blast
        have e: "(pre @ [?r]) @ ?rs = pre @ rs" "4 * length rs = 4 * length ?rs + 4" unfolding rs by simp_all
        have "\<forall>cs. take 2 cs \<noteq> phys_dir \<longrightarrow> T' cs = T cs" using R(6) by auto
        moreover have "avail (kheap s2) = drop (4 * length rs) (avail (kheap st))" unfolding e(2) R(7) st'(2) by simp
        ultimately show ?thesis using R(1-5) unfolding Q_def fin'_def e(1) by blast
      qed
      have "4 \<le> length (avail (kheap st))" using less.prems(13) rs by simp
      note step = region_step[OF less.prems(1,2) k kn less.prems(11,12) this, where Q = Q and f = fin', OF fin, folded uj]
      have "mem_map_loop st mmap n i j fin = or_return (registry_createdirectory st (Some (str ''HW/PHYS_MEM'')) (Some (phys_idx (ucast j)))) (-6) (\<lambda>st.
               or_return (put_uint st (phys_key (ucast j)) ''ADDR'' (mm_addr ?r)) (-7) (\<lambda>st.
               or_return (put_uint st (phys_key (ucast j)) ''LEN'' (mm_len ?r)) (-8) fin'))"
        using True free g by (subst mem_map_loop.simps) (simp add: fin'_def)
      then show ?thesis using step[where a = "-6" and b = "-7" and c = "-8"] by (simp add: Q_def)
    qed
  qed
qed

text \<open>A sequence of keys added to one directory.\<close>

primrec put_list :: "store \<Rightarrow> cstring \<Rightarrow> (string \<times> u64 \<times> int) list \<Rightarrow> (store \<Rightarrow> (int \<times> store) res) \<Rightarrow> (int \<times> store) res" where
  "put_list st x [] f = f st"
| "put_list st x (a # as) f = or_return (put_uint st x (fst a) (fst (snd a))) (snd (snd a)) (\<lambda>st. put_list st x as f)"

lemma put_list_step:
  assumes "reg_tree N st T" "T (path_parts x) = Some es" "(str \<circ> fst) ` set as \<subseteq> N" "distinct (map fst as)"
    "(str \<circ> fst) ` set as \<inter> fst ` set es = {}" "length as \<le> length (avail (kheap st))"
    and "\<And>st'. reg_tree N st' (T(path_parts x \<mapsto> rev (map (\<lambda>a. (str (fst a), kvs_val_uint, fst (snd a))) as) @ es)) \<Longrightarrow>
      avail (kheap st') = drop (length as) (avail (kheap st)) \<Longrightarrow> Q (f st')"
  shows "Q (put_list st x as f)"
  using assms
proof (induction as arbitrary: st T es)
  case Nil
  have "T(path_parts x \<mapsto> es) = T" using Nil.prems(2) by auto
  then show ?case using Nil.prems(1,7) by simp
next
  case (Cons a as)
  have "Q (or_return (put_uint st x (fst a) (fst (snd a))) (snd (snd a)) (\<lambda>st. put_list st x as f))"
  proof (rule put_step[OF Cons.prems(1,2)])
    fix st' assume st': "reg_tree N st' (T(path_parts x \<mapsto> (str (fst a), kvs_val_uint, fst (snd a)) # es))" "avail (kheap st') = tl (avail (kheap st))"
    show "Q (put_list st' x as f)"
    proof (rule Cons.IH[OF st'(1)])
      fix s2
      assume "reg_tree N s2 ((T(path_parts x \<mapsto> (str (fst a), kvs_val_uint, fst (snd a)) # es))
          (path_parts x \<mapsto> rev (map (\<lambda>a. (str (fst a), kvs_val_uint, fst (snd a))) as) @ (str (fst a), kvs_val_uint, fst (snd a)) # es))"
        "avail (kheap s2) = drop (length as) (avail (kheap st'))"
      then have "reg_tree N s2 (T(path_parts x \<mapsto> rev (map (\<lambda>a. (str (fst a), kvs_val_uint, fst (snd a))) (a # as)) @ es))"
        "avail (kheap s2) = drop (length (a # as)) (avail (kheap st))" using st'(2) by (simp_all add: drop_Suc)
      then show "Q (f s2)" by (rule Cons.prems(7))
    qed (use Cons.prems(3-6) st'(2) in \<open>auto simp: image_iff\<close>)
  qed (use Cons.prems(3-6) in auto)
  then show ?case by simp
qed

definition boot_keys :: "string list" where
  "boot_keys = [''HW'', ''BOOTINFO'', ''PROC'', ''PHYS_MEM'', ''VIRT_MEM'', ''CACHE'', ''TLB'', ''MEMSIZE'', ''RSDPADDR'', ''INITRD'',
     ''VIRT_ADDR'', ''PHYS_ADDR'', ''LEN'', ''ADDR'', ''ENTRY_COUNT'', ''FRAMEBUFFER'', ''PITCH'', ''WIDTH'', ''HEIGHT'', ''RED_MASK'',
     ''RED_OFFSET'', ''GREEN_MASK'', ''GREEN_OFFSET'', ''BLUE_MASK'', ''BLUE_OFFSET'']"

lemma add_framebuffer_stores:
  assumes N: "str ` set boot_keys \<subseteq> N" and st: "reg_tree N st T" "T boot_dir = Some es" "str ''FRAMEBUFFER'' \<notin> fst ` set es"
    and av: "12 \<le> length (avail (kheap st))"
  shows "\<exists>st' T' q. add_framebuffer bInfo st = Inr (0, st') \<and> reg_tree N st' T' \<and> T' boot_dir = Some ((str ''FRAMEBUFFER'', kvs_val_child, q) # es) \<and>
    (\<forall>cs. take 2 cs \<noteq> boot_dir \<longrightarrow> T' cs = T cs)"
proof -
  define Q where "Q r \<longleftrightarrow> (\<exists>st' T' q. r = Inr (0, st') \<and> reg_tree N st' T' \<and> T' boot_dir = Some ((str ''FRAMEBUFFER'', kvs_val_child, q) # es) \<and>
    (\<forall>cs. take 2 cs \<noteq> boot_dir \<longrightarrow> T' cs = T cs))" for r :: "(int \<times> store) res"
  define as where "as = [(''PHYS_ADDR'', FramebufferAddress bInfo, -11 :: int), (''PITCH'', ucast (FramebufferPitch bInfo), -12),
    (''WIDTH'', ucast (FramebufferWidth bInfo), -13), (''HEIGHT'', ucast (FramebufferHeight bInfo), -14),
    (''RED_MASK'', field_mask (FramebufferRedMaskSize bInfo), -15), (''RED_OFFSET'', ucast (FramebufferRedFieldPosition bInfo), -16),
    (''GREEN_MASK'', field_mask (FramebufferGreenMaskSize bInfo), -17), (''GREEN_OFFSET'', ucast (FramebufferGreenFieldPosition bInfo), -18),
    (''BLUE_MASK'', field_mask (FramebufferBlueMaskSize bInfo), -19), (''BLUE_OFFSET'', ucast (FramebufferBlueFieldPosition bInfo), -20)]"
  have as: "length as = 10" "distinct (map fst as)" "set (map fst as) \<subseteq> set boot_keys" by (simp_all add: as_def boot_keys_def)
  have fb: "Q (Inr (0, s))" if "reg_tree N s (T(boot_dir \<mapsto> (str ''FRAMEBUFFER'', kvs_val_child, q) # es, boot_dir @ [str ''FRAMEBUFFER''] \<mapsto> fs))" for s q fs
    unfolding Q_def by (intro exI conjI) (rule refl, rule that, auto)
  have "Q (or_return (registry_createdirectory st (Some (str ''HW/BOOTINFO'')) (Some (str ''FRAMEBUFFER''))) (-10) (\<lambda>st.
      put_list st (str ''HW/BOOTINFO/FRAMEBUFFER'') as (\<lambda>st. Inr (0, st))))"
  proof (rule dir_step[OF st(1)])
    fix st1 q assume 1: "reg_tree N st1 (T(path_parts (str ''HW/BOOTINFO'') \<mapsto> (str ''FRAMEBUFFER'', kvs_val_child, q) # es,
        path_parts (str ''HW/BOOTINFO'') @ [str ''FRAMEBUFFER''] \<mapsto> []))" "avail (kheap st1) = drop 2 (avail (kheap st))"
    show "Q (put_list st1 (str ''HW/BOOTINFO/FRAMEBUFFER'') as (\<lambda>st. Inr (0, st)))"
      by (rule put_list_step[OF 1(1)]) (use as N 1(2) av in \<open>auto intro: fb\<close>)
  qed (use st av N in \<open>auto simp: boot_keys_def\<close>)
  moreover have "add_framebuffer bInfo st = or_return (registry_createdirectory st (Some (str ''HW/BOOTINFO'')) (Some (str ''FRAMEBUFFER''))) (-10) (\<lambda>st.
      put_list st (str ''HW/BOOTINFO/FRAMEBUFFER'') as (\<lambda>st. Inr (0, st)))"
    by (simp add: add_framebuffer_def as_def Let_def)
  ultimately show ?thesis by (simp add: Q_def)
qed


lemma add_bootinfo_stores:
  assumes N: "str ` set boot_keys \<subseteq> N" "idx_names (length rs) \<subseteq> N" and st: "reg_tree N st T" "T boot_dir = Some []" "T phys_dir = Some []"
    and mmap: "length (CardinalMemoryMap bInfo) = unat (CardinalMemoryMapCount bInfo)" "rs = free_regions (CardinalMemoryMap bInfo)"
    and av: "20 + 4 * length rs \<le> length (avail (kheap st))" and ec: "str ''ENTRY_COUNT'' \<notin> idx_names (length rs)"
  shows "\<exists>st' T' es ps. add_bootinfo bInfo st = Inr (0, st') \<and> reg_tree N st' T' \<and> T' boot_dir = Some es \<and> T' phys_dir = Some ps \<and>
    map_of es (str ''MEMSIZE'') = Some (kvs_val_uint, MemorySize bInfo) \<and>
    map_of ps (str ''ENTRY_COUNT'') = Some (kvs_val_uint, of_nat (length rs)) \<and> map_stored T' rs"
proof -
  define Q where "Q r \<longleftrightarrow> (\<exists>st' T' es ps. r = Inr (0, st') \<and> reg_tree N st' T' \<and> T' boot_dir = Some es \<and> T' phys_dir = Some ps \<and>
    map_of es (str ''MEMSIZE'') = Some (kvs_val_uint, MemorySize bInfo) \<and>
    map_of ps (str ''ENTRY_COUNT'') = Some (kvs_val_uint, of_nat (length rs)) \<and> map_stored T' rs)" for r :: "(int \<times> store) res"
  define fin where "fin st j = or_return (put_uint st (str ''HW/PHYS_MEM'') ''ENTRY_COUNT'' (ucast j)) (-9) (add_framebuffer bInfo)" for st and j :: u32
  define loop where "loop st = mem_map_loop st (CardinalMemoryMap bInfo) (CardinalMemoryMapCount bInfo) 0 0 fin" for st
  define as where "as = [(''MEMSIZE'', MemorySize bInfo, -1 :: int), (''RSDPADDR'', RSDPAddress bInfo, -2)]"
  define bs where "bs = [(''VIRT_ADDR'', InitrdStartAddress bInfo, -4 :: int), (''PHYS_ADDR'', InitrdPhysStartAddress bInfo, -4), (''LEN'', InitrdLength bInfo, -5)]"
  have rn: "length rs < 2 ^ 32"
    using mmap unsigned_less[of "CardinalMemoryMapCount bInfo", where ?'a = nat] length_filter_le[of _ "CardinalMemoryMap bInfo"]
    by (auto simp: free_regions_def intro: le_less_trans)
  have loop: "Q (loop s)"
    if s: "reg_tree N s U" "U boot_dir = Some es" "U phys_dir = Some []" "str ''FRAMEBUFFER'' \<notin> fst ` set es"
      "map_of es (str ''MEMSIZE'') = Some (kvs_val_uint, MemorySize bInfo)" "13 + 4 * length rs \<le> length (avail (kheap s))" for s U es
  proof -
    obtain s2 U2 ps where 2: "loop s = fin s2 (of_nat (length rs))" "reg_tree N s2 U2" "U2 phys_dir = Some ps" "fst ` set ps = idx_names (length rs)"
        "map_stored U2 rs" "\<forall>cs. take 2 cs \<noteq> phys_dir \<longrightarrow> U2 cs = U cs" "avail (kheap s2) = drop (4 * length rs) (avail (kheap s))"
      using mem_map_loop_stores[OF s(1,3), of "[]" "CardinalMemoryMap bInfo" "CardinalMemoryMapCount bInfo" 0 0 rs fin] mmap N s(6)
      by (auto simp: loop_def idx_names_def map_stored_def boot_keys_def)
    have "Q (fin s2 (of_nat (length rs)))"
      unfolding fin_def
    proof (rule put_step[OF 2(2)])
      let ?c = "ucast (of_nat (length rs) :: u32) :: u64"
      fix s3 assume 3: "reg_tree N s3 (U2(path_parts (str ''HW/PHYS_MEM'') \<mapsto> (str ''ENTRY_COUNT'', kvs_val_uint, ?c) # ps))"
        "avail (kheap s3) = tl (avail (kheap s2))"
      let ?U = "U2(phys_dir \<mapsto> (str ''ENTRY_COUNT'', kvs_val_uint, ?c) # ps)"
      have u3: "reg_tree N s3 ?U" "?U boot_dir = Some es" using 3(1) 2(6) s(2) by simp_all
      have l3: "12 \<le> length (avail (kheap s3))" using 3(2) 2(7) s(6) by simp
      obtain s4 U4 q where 4: "add_framebuffer bInfo s3 = Inr (0, s4)" "reg_tree N s4 U4" "U4 boot_dir = Some ((str ''FRAMEBUFFER'', kvs_val_child, q) # es)"
          "\<forall>cs. take 2 cs \<noteq> boot_dir \<longrightarrow> U4 cs = ?U cs"
        using add_framebuffer_stores[OF N(1) u3 s(4) l3] by blast
      have "?c = of_nat (length rs)" using rn by (simp add: unsigned_of_nat take_bit_nat_eq_self ucast_eq)
      then show "Q (add_framebuffer bInfo s3)" using 4 2(5) s(5) by (auto simp: Q_def map_stored_def)
    qed (use 2(3,4,7) s(6) N(1) ec in \<open>auto simp: boot_keys_def\<close>)
    then show ?thesis using 2(1) by simp
  qed
  have "Q (put_list st (str ''HW/BOOTINFO'') as (\<lambda>st. or_return (registry_createdirectory st (Some (str ''HW/BOOTINFO'')) (Some (str ''INITRD''))) (-3) (\<lambda>st.
      put_list st (str ''HW/BOOTINFO/INITRD'') bs loop)))"
  proof (rule put_list_step[OF st(1)])
    fix s1 assume 1: "reg_tree N s1 (T(path_parts (str ''HW/BOOTINFO'') \<mapsto> rev (map (\<lambda>a. (str (fst a), kvs_val_uint, fst (snd a))) as) @ []))"
      "avail (kheap s1) = drop (length as) (avail (kheap st))"
    show "Q (or_return (registry_createdirectory s1 (Some (str ''HW/BOOTINFO'')) (Some (str ''INITRD''))) (-3) (\<lambda>st.
      put_list st (str ''HW/BOOTINFO/INITRD'') bs loop))"
    proof (rule dir_step[OF 1(1)])
      fix s2 q
      let ?e = "(str ''INITRD'', kvs_val_child, q) # rev (map (\<lambda>a. (str (fst a), kvs_val_uint, fst (snd a))) as)"
      assume 2: "reg_tree N s2 ((T(path_parts (str ''HW/BOOTINFO'') \<mapsto> rev (map (\<lambda>a. (str (fst a), kvs_val_uint, fst (snd a))) as) @ []))
         (path_parts (str ''HW/BOOTINFO'') \<mapsto> ?e, path_parts (str ''HW/BOOTINFO'') @ [str ''INITRD''] \<mapsto> []))"
        "avail (kheap s2) = drop 2 (avail (kheap s1))"
      show "Q (put_list s2 (str ''HW/BOOTINFO/INITRD'') bs loop)"
        by (rule put_list_step[OF 2(1)]) (use 1(2) 2(2) av N(1) st(3) in \<open>auto intro!: loop simp: as_def bs_def boot_keys_def\<close>)
    qed (use 1(2) av N(1) in \<open>auto simp: as_def boot_keys_def\<close>)
  qed (use st(2) av N(1) in \<open>auto simp: as_def boot_keys_def\<close>)
  moreover have "add_bootinfo bInfo st = put_list st (str ''HW/BOOTINFO'') as (\<lambda>st. or_return (registry_createdirectory st (Some (str ''HW/BOOTINFO'')) (Some (str ''INITRD''))) (-3) (\<lambda>st.
      put_list st (str ''HW/BOOTINFO/INITRD'') bs loop))"
    by (simp add: add_bootinfo_def as_def bs_def loop_def fin_def[abs_def] Let_def)
  ultimately show ?thesis by (simp add: Q_def)
qed


text \<open>The names in each directory, and what creating a list of directories makes of them.\<close>

definition shape :: "regtree \<Rightarrow> u8 list list \<Rightarrow> u8 list list option" where
  "shape T cs = map_option (map fst) (T cs)"

primrec mkdirs :: "(u8 list list \<Rightarrow> u8 list list option) \<Rightarrow> (string \<times> string) list \<Rightarrow> (u8 list list \<Rightarrow> u8 list list option) option" where
  "mkdirs S [] = Some S"
| "mkdirs S (d # ds) =
     (let c = path_parts (str (fst d)); k = str (snd d) in
      case S c of None \<Rightarrow> None
      | Some ks \<Rightarrow> if k \<in> set ks then None else mkdirs (S(c \<mapsto> k # ks, c @ [k] \<mapsto> [])) ds)"

lemma create_all_shape:
  "reg_tree N st T \<Longrightarrow> mkdirs (shape T) ds = Some S \<Longrightarrow> (str \<circ> snd) ` set ds \<subseteq> N \<Longrightarrow> 2 * length ds \<le> length (avail (kheap st)) \<Longrightarrow>
   \<exists>st' T'. create_all st ds = Inr st' \<and> reg_tree N st' T' \<and> shape T' = S \<and> avail (kheap st') = drop (2 * length ds) (avail (kheap st))"
proof (induction ds arbitrary: st T)
  case Nil
  then show ?case by auto
next
  case (Cons d ds)
  let ?c = "path_parts (str (fst d))" and ?k = "str (snd d)"
  obtain es where es: "T ?c = Some es" "?k \<notin> fst ` set es" "mkdirs ((shape T)(?c \<mapsto> ?k # map fst es, ?c @ [?k] \<mapsto> [])) ds = Some S"
    using Cons.prems(2) by (auto simp: shape_def[abs_def] Let_def split: option.splits if_splits)
  obtain a b rest where av: "avail (kheap st) = a # b # rest" using Cons.prems(4) by (cases "avail (kheap st)"; cases "tl (avail (kheap st))") auto
  obtain s1 q where 1: "registry_createdirectory st (Some (str (fst d))) (Some ?k) = Inr (err_ok, s1)"
      "reg_tree N s1 (T(?c \<mapsto> (?k, kvs_val_child, q) # es, ?c @ [?k] \<mapsto> []))" "avail (kheap s1) = rest"
    using tree_createdirectory[OF Cons.prems(1) es(1) _ es(2) av] Cons.prems(3) by auto
  have sh: "shape (T(?c \<mapsto> (?k, kvs_val_child, q) # es, ?c @ [?k] \<mapsto> [])) = (shape T)(?c \<mapsto> ?k # map fst es, ?c @ [?k] \<mapsto> [])"
    by (auto simp: shape_def)
  show ?case using Cons.IH[OF 1(2), unfolded sh, OF es(3)] Cons.prems(3,4) 1(1,3) av by auto
qed

lemma create_all_stores:
  assumes N: "str ` set boot_keys \<subseteq> N" and st: "reg_tree N st [[] \<mapsto> []]" "14 \<le> length (avail (kheap st))"
  shows "\<exists>st' T. create_all st init_dirs = Inr st' \<and> reg_tree N st' T \<and> T boot_dir = Some [] \<and> T phys_dir = Some [] \<and>
    avail (kheap st') = drop 14 (avail (kheap st))"
proof -
  have e: "path_parts (str []) = []" "shape [[] \<mapsto> []] = [[] \<mapsto> []]" by (auto simp: str_def shape_def)
  have "\<exists>S. mkdirs (shape [[] \<mapsto> []]) init_dirs = Some S \<and> S boot_dir = Some [] \<and> S phys_dir = Some []"
    by (simp add: init_dirs_def e Let_def)
  then obtain S where S: "mkdirs (shape [[] \<mapsto> []]) init_dirs = Some S" "S boot_dir = Some []" "S phys_dir = Some []" by blast
  have "(str \<circ> snd) ` set init_dirs \<subseteq> N" "2 * length init_dirs = 14" using N by (auto simp: init_dirs_def boot_keys_def)
  then show ?thesis using create_all_shape[OF st(1) S(1)] st(2) S(2,3) by (auto simp: shape_def)
qed

lemma hex_not_entry_count: "str ''ENTRY_COUNT'' \<notin> idx_names n"
proof
  assume "str ''ENTRY_COUNT'' \<in> idx_names n"
  then obtain m where m: "str ''ENTRY_COUNT'' = phys_idx (of_nat m)" by (auto simp: idx_names_def)
  have "\<forall>c \<in> set (phys_idx (of_nat m)). is_hex c" using num_str_hex by (simp add: phys_idx_def int_str_def)
  then show False unfolding m[symmetric] by (simp add: str_def of_char_def is_hex_def)
qed

section \<open>Properties\<close>

text \<open>What a reader of unsigned keys gets.\<close>

definition reads :: "store \<Rightarrow> cstring \<Rightarrow> string \<Rightarrow> u64 \<Rightarrow> bool" where
  "reads st x k v \<longleftrightarrow> registry_readkey_uint st (Some x) (Some (str k)) True = Inr (err_ok, Some v, st)"

lemma readsI:
  assumes "reg_tree N st T" "T (path_parts x) = Some es" "str k \<in> N" "map_of es (str k) = Some (kvs_val_uint, v)"
  shows "reads st x k v"
  using tree_read_uint[OF assms(1-3)] assms(4) by (simp add: reads_def)

text \<open>The names the boot code uses for a memory map with \<open>n\<close> free regions.\<close>

definition boot_names :: "nat \<Rightarrow> u8 list set" where
  "boot_names n = str ` set boot_keys \<union> idx_names n"

lemma boot_readable:
  assumes "reg_names (boot_names (length rs))" "kvs_wf (kheap st)" "\<not> kern_lock st"
    "length (CardinalMemoryMap bInfo) = unat (CardinalMemoryMapCount bInfo)" "rs = free_regions (CardinalMemoryMap bInfo)"
    "35 + 4 * length rs \<le> length (avail (kheap st))"
  shows "\<exists>st'. registry_module_init (add_bootinfo bInfo) plat st =
      bindE (plat st') (\<lambda>(e, st). if e \<noteq> 0 then Inl (Panic ''Registry: platform information initialization failure.'') else Inr (0, st)) \<and>
    reads st' (str ''HW/BOOTINFO'') ''MEMSIZE'' (MemorySize bInfo) \<and> reads st' (str ''HW/PHYS_MEM'') ''ENTRY_COUNT'' (of_nat (length rs)) \<and>
    (\<forall>m < length rs. reads st' (phys_key (of_nat m)) ''ADDR'' (mm_addr (rs ! m)) \<and> reads st' (phys_key (of_nat m)) ''LEN'' (mm_len (rs ! m)))"
proof -
  let ?N = "boot_names (length rs)"
  have N: "str ` set boot_keys \<subseteq> ?N" "idx_names (length rs) \<subseteq> ?N" by (auto simp: boot_names_def)
  obtain a rest where av: "avail (kheap st) = a # rest" using assms(6) by (cases "avail (kheap st)") auto
  obtain h q where 1: "kvs_create (kheap st) True = Inr (kvs_ok, q, h)" "reg_tree ?N (st\<lparr>kheap := h, kern_registry := q\<rparr>) [[] \<mapsto> []]" "avail h = rest"
    using tree_fresh[OF assms(1-3) av] by blast
  obtain s2 T2 where 2: "create_all (st\<lparr>kheap := h, kern_registry := q\<rparr>) init_dirs = Inr s2" "reg_tree ?N s2 T2" "T2 boot_dir = Some []" "T2 phys_dir = Some []"
      "avail (kheap s2) = drop 14 rest"
    using create_all_stores[OF N(1) 1(2)] 1(3) assms(6) av by auto
  have "20 + 4 * length rs \<le> length (avail (kheap s2))" using 2(5) assms(6) av by simp
  then obtain s3 T3 es ps where 3: "add_bootinfo bInfo s2 = Inr (0, s3)" "reg_tree ?N s3 T3" "T3 boot_dir = Some es" "T3 phys_dir = Some ps"
      "map_of es (str ''MEMSIZE'') = Some (kvs_val_uint, MemorySize bInfo)"
      "map_of ps (str ''ENTRY_COUNT'') = Some (kvs_val_uint, of_nat (length rs))" "map_stored T3 rs"
    using add_bootinfo_stores[OF N 2(2-4) assms(4,5) _ hex_not_entry_count] by blast
  have key: "reads s3 (phys_key (of_nat m)) k v" if "m < length rs" "map_of (region_entries (rs ! m)) (str k) = Some (kvs_val_uint, v)" "str k \<in> ?N" for m k v
  proof (rule readsI[OF 3(2) _ that(3,2)])
    have "phys_idx (of_nat m) \<in> ?N" using that(1) by (auto simp: boot_names_def idx_names_def)
    then have "path_parts (phys_key (of_nat m)) = phys_dir @ [phys_idx (of_nat m)]"
      using assms(1) by (intro phys_key_parts[THEN trans]) (auto simp: reg_names_def)
    then show "T3 (path_parts (phys_key (of_nat m))) = Some (region_entries (rs ! m))" using 3(7) that(1) by (simp add: map_stored_def)
  qed
  have mem: "str ''ADDR'' \<in> ?N" "str ''LEN'' \<in> ?N" "str ''MEMSIZE'' \<in> ?N" "str ''ENTRY_COUNT'' \<in> ?N" using N(1) by (auto simp: boot_keys_def)
  have "reads s3 (str ''HW/BOOTINFO'') ''MEMSIZE'' (MemorySize bInfo)" using 3(3,5) mem(3) by (intro readsI[OF 3(2)]) auto
  moreover have "reads s3 (str ''HW/PHYS_MEM'') ''ENTRY_COUNT'' (of_nat (length rs))" using 3(4,6) mem(4) by (intro readsI[OF 3(2)]) auto
  moreover have "\<forall>m < length rs. reads s3 (phys_key (of_nat m)) ''ADDR'' (mm_addr (rs ! m)) \<and> reads s3 (phys_key (of_nat m)) ''LEN'' (mm_len (rs ! m))"
    using key mem(1,2) by (simp add: region_entries_def)
  moreover have "registry_module_init (add_bootinfo bInfo) plat st =
      bindE (plat s3) (\<lambda>(e, st). if e \<noteq> 0 then Inl (Panic ''Registry: platform information initialization failure.'') else Inr (0, st))"
    by (simp add: registry_module_init_def 1(1) 2(1) 3(1))
  ultimately show ?thesis by blast
qed

text \<open>
  The registry at boot: when the names do not collide and there are nodes for the entries, the module's
  initialisation creates its directories and stores the boot information, and hands over to the platform a
  registry in which the memory size, the number of free regions and the address and length of every free
  region, in the order of the memory map, can be read back.
\<close>

theorem registry_boot_readable:
  assumes "reg_names (boot_names (length rs))" "kvs_wf (kheap st)" "\<not> kern_lock st"
    "length (CardinalMemoryMap bInfo) = unat (CardinalMemoryMapCount bInfo)" "rs = free_regions (CardinalMemoryMap bInfo)"
    "35 + 4 * length rs \<le> length (avail (kheap st))"
  shows "\<exists>st'. registry_module_init (add_bootinfo bInfo) plat st =
      bindE (plat st') (\<lambda>(e, st). if e \<noteq> 0 then Inl (Panic ''Registry: platform information initialization failure.'') else Inr (0, st)) \<and>
    reads st' (str ''HW/BOOTINFO'') ''MEMSIZE'' (MemorySize bInfo) \<and> reads st' (str ''HW/PHYS_MEM'') ''ENTRY_COUNT'' (of_nat (length rs)) \<and>
    (\<forall>m < length rs. reads st' (phys_key (of_nat m)) ''ADDR'' (mm_addr (rs ! m)) \<and> reads st' (phys_key (of_nat m)) ''LEN'' (mm_len (rs ! m)))"
  by (rule boot_readable[OF assms])

definition ex_bootinfo :: CardinalBootInfo where
  "ex_bootinfo = \<lparr>MemorySize = 0x100000, CardinalMemoryMapCount = 2, RSDPAddress = 0xe0000, InitrdStartAddress = 0x8000, InitrdPhysStartAddress = 0x8000,
     InitrdLength = 0x1000, CardinalMemoryMap = [\<lparr>mm_addr = 0, mm_len = 0x1000, mm_type = 2\<rparr>, \<lparr>mm_addr = 0x2000, mm_len = 0x3000, mm_type = 1\<rparr>],
     FramebufferAddress = 0xb8000, FramebufferPitch = 80, FramebufferWidth = 80, FramebufferHeight = 25,
     FramebufferRedFieldPosition = 16, FramebufferRedMaskSize = 8, FramebufferGreenFieldPosition = 8, FramebufferGreenMaskSize = 8,
     FramebufferBlueFieldPosition = 0, FramebufferBlueMaskSize = 8\<rparr>"

lemma ex_bootinfo_regions: "free_regions (CardinalMemoryMap ex_bootinfo) = [\<lparr>mm_addr = 0x2000, mm_len = 0x3000, mm_type = 1\<rparr>]"
  by (simp add: ex_bootinfo_def free_regions_def)

lemma boot_names_1: "reg_names (boot_names 1)"
proof -
  have e: "boot_names 1 = set (map str boot_keys @ [[48]])"
    by (simp add: boot_names_def idx_names_def phys_idx_def int_str_def num_str_def lessThan_Suc)
  have "distinct (map hash (map str boot_keys @ [[48]]))" by code_simp
  then have "inj_on hash (boot_names 1)" unfolding e distinct_map by blast
  moreover have "\<forall>k \<in> set (map str boot_keys @ [[48]]). 0 \<notin> set k \<and> 47 \<notin> set k \<and> k \<noteq> [] \<and> length k \<le> max_keylen" by code_simp
  ultimately show ?thesis unfolding reg_names_def e by blast
qed

theorem registry_boot_readable_witness:
  "\<exists>st'. registry_module_init (add_bootinfo ex_bootinfo) (\<lambda>st. Inr (0, st)) (spare_store 39) = Inr (0, st') \<and>
     reads st' (str ''HW/BOOTINFO'') ''MEMSIZE'' 0x100000 \<and> reads st' (phys_key 0) ''ADDR'' 0x2000 \<and> reads st' (phys_key 0) ''LEN'' 0x3000"
proof -
  let ?r = "\<lparr>mm_addr = 0x2000, mm_len = 0x3000, mm_type = 1\<rparr> :: CardinalMemMap"
  have b: "length (CardinalMemoryMap ex_bootinfo) = unat (CardinalMemoryMapCount ex_bootinfo)" "MemorySize ex_bootinfo = 0x100000"
    by (simp_all add: ex_bootinfo_def)
  have "reg_names (boot_names (length [?r]))" "kvs_wf (kheap (spare_store 39))" "35 + 4 * length [?r] \<le> length (avail (kheap (spare_store 39)))"
    using boot_names_1 spare_store_wf[of 39] by simp_all
  note w = registry_boot_readable[OF this(1,2) spare_store_simps(1) b(1) ex_bootinfo_regions[symmetric] this(3), of "\<lambda>st. Inr (0, st)"]
  then obtain st' where "registry_module_init (add_bootinfo ex_bootinfo) (\<lambda>st. Inr (0, st)) (spare_store 39) = Inr (0, st')"
    "reads st' (str ''HW/BOOTINFO'') ''MEMSIZE'' 0x100000" "\<forall>m < 1. reads st' (phys_key (of_nat m)) ''ADDR'' (mm_addr ([?r] ! m)) \<and> reads st' (phys_key (of_nat m)) ''LEN'' (mm_len ([?r] ! m))"
    unfolding b(2) by (simp only: bindE_Inr prod.case if_False simp_thms list.size One_nat_def plus_nat.add_0 add_Suc_right) blast
  then show ?thesis by (intro exI[of _ st']) simp
qed

end
