(* ===== verification/ObjStore.thy ===== *)
theory ObjStore
  imports Store
begin

text \<open>
  The object store, \<^verbatim>\<open>modules/SysObj/src/main.c\<close>: the registry's tree with values that can be rewritten
  and entries that can be locked against removal. The bodies it shares with the registry are those of
  \<^verbatim>\<open>Store\<close>; an out parameter is a flag, its value part of the result.
\<close>

section \<open>Operations\<close>

definition obj_getkvs :: "store \<Rightarrow> cstring option \<Rightarrow> addr \<Rightarrow> (store_error \<times> addr \<times> store) res" where
  "obj_getkvs st pathname k = getkvs st pathname k"

definition obj_createdirectory :: "store \<Rightarrow> cstring option \<Rightarrow> cstring option \<Rightarrow> (store_error \<times> store) res" where
  "obj_createdirectory st pathname dirname = createdirectory st pathname dirname"

definition obj_addkey_uint :: "store \<Rightarrow> cstring option \<Rightarrow> cstring option \<Rightarrow> u64 \<Rightarrow> (store_error \<times> store) res" where
  "obj_addkey_uint st pathname keyname val = addkey st pathname keyname (\<lambda>h r. kvs_add_uint h r keyname val)"

definition obj_addkey_ptr :: "store \<Rightarrow> cstring option \<Rightarrow> cstring option \<Rightarrow> addr \<Rightarrow> (store_error \<times> store) res" where
  "obj_addkey_ptr st pathname keyname val = addkey st pathname keyname (\<lambda>h r. kvs_add_ptr h r keyname val)"

definition obj_addkey_int :: "store \<Rightarrow> cstring option \<Rightarrow> cstring option \<Rightarrow> 64 word \<Rightarrow> (store_error \<times> store) res" where
  "obj_addkey_int st pathname keyname val = addkey st pathname keyname (\<lambda>h r. kvs_add_sint h r keyname val)"

definition obj_addkey_str ::
  "store \<Rightarrow> cstring option \<Rightarrow> cstring option \<Rightarrow> cstring option \<Rightarrow> (store_error \<times> store) res" where
  "obj_addkey_str st pathname keyname val = addkey_str st pathname keyname val"

definition obj_addkey_bool :: "store \<Rightarrow> cstring option \<Rightarrow> cstring option \<Rightarrow> 32 word \<Rightarrow> (store_error \<times> store) res" where
  "obj_addkey_bool st pathname keyname val = addkey st pathname keyname (\<lambda>h r. kvs_add_bool h r keyname val)"

definition obj_readkey_uint ::
  "store \<Rightarrow> cstring option \<Rightarrow> cstring option \<Rightarrow> bool \<Rightarrow> (store_error \<times> u64 option \<times> store) res" where
  "obj_readkey_uint st pathname keyname val = readkey st pathname keyname kvs_val_uint kvs_get_uint val"

definition obj_readkey_ptr ::
  "store \<Rightarrow> cstring option \<Rightarrow> cstring option \<Rightarrow> bool \<Rightarrow> (store_error \<times> u64 option \<times> store) res" where
  "obj_readkey_ptr st pathname keyname val = readkey st pathname keyname kvs_val_ptr kvs_get_ptr val"

definition obj_readkey_int ::
  "store \<Rightarrow> cstring option \<Rightarrow> cstring option \<Rightarrow> bool \<Rightarrow> (store_error \<times> u64 option \<times> store) res" where
  "obj_readkey_int st pathname keyname val = readkey st pathname keyname kvs_val_sint kvs_get_sint val"

definition obj_readkey_str ::
  "store \<Rightarrow> cstring option \<Rightarrow> cstring option \<Rightarrow> u8 list option \<Rightarrow> u64 option \<Rightarrow>
   (store_error \<times> (u8 list option \<times> u64 option) option \<times> store) res" where
  "obj_readkey_str st pathname keyname val val_len = readkey_str st pathname keyname val val_len"

definition obj_readkey_bool ::
  "store \<Rightarrow> cstring option \<Rightarrow> cstring option \<Rightarrow> bool \<Rightarrow> (store_error \<times> 32 word option \<times> store) res" where
  "obj_readkey_bool st pathname keyname val = readkey st pathname keyname kvs_val_bool kvs_get_bool val"

definition obj_writekey_uint :: "store \<Rightarrow> cstring option \<Rightarrow> cstring option \<Rightarrow> u64 \<Rightarrow> (store_error \<times> store) res" where
  "obj_writekey_uint st pathname keyname val = writekey st pathname keyname kvs_val_uint (\<lambda>h p. kvs_set_uint h p val)"

definition obj_writekey_ptr :: "store \<Rightarrow> cstring option \<Rightarrow> cstring option \<Rightarrow> addr \<Rightarrow> (store_error \<times> store) res" where
  "obj_writekey_ptr st pathname keyname val = writekey st pathname keyname kvs_val_ptr (\<lambda>h p. kvs_set_ptr h p val)"

definition obj_writekey_int :: "store \<Rightarrow> cstring option \<Rightarrow> cstring option \<Rightarrow> 64 word \<Rightarrow> (store_error \<times> store) res" where
  "obj_writekey_int st pathname keyname val = writekey st pathname keyname kvs_val_sint (\<lambda>h p. kvs_set_sint h p val)"

text \<open>The pointer itself is stored, not a copy of the string.\<close>

definition obj_writekey_str :: "store \<Rightarrow> cstring option \<Rightarrow> cstring option \<Rightarrow> addr \<Rightarrow> (store_error \<times> store) res" where
  "obj_writekey_str st pathname keyname val =
     (if pathname = None then Inr (err_invalidargs, st)
      else if keyname = None then Inr (err_invalidargs, st)
      else if val = NULL then Inr (err_invalidargs, st)
      else writekey st pathname keyname kvs_val_str (\<lambda>h p. kvs_set_str h p val))"

definition obj_writekey_bool :: "store \<Rightarrow> cstring option \<Rightarrow> cstring option \<Rightarrow> 32 word \<Rightarrow> (store_error \<times> store) res" where
  "obj_writekey_bool st pathname keyname val = writekey st pathname keyname kvs_val_bool (\<lambda>h p. kvs_set_bool h p val)"

definition obj_removekey :: "store \<Rightarrow> cstring option \<Rightarrow> cstring option \<Rightarrow> (store_error \<times> store) res" where
  "obj_removekey st pathname keyname =
     in_parent st pathname keyname Pair (\<lambda>st parent_kvs.
       bindE (lock st) (\<lambda>st.
       bindE (kvs_find (kheap st) parent_kvs keyname) (\<lambda>(e, found).
         case found of
           None \<Rightarrow> Inr (err_dne, unlock st)
         | Some key_kvs \<Rightarrow>
             bindE (kvs_islocked (kheap st) key_kvs True) (\<lambda>(e, locked).
               case locked of
                 None \<Rightarrow> Inr (err_dne, unlock st)
               | Some locked \<Rightarrow>
                   if \<not> locked then
                     bindE (kvs_remove (kheap st) parent_kvs key_kvs) (\<lambda>(_, h).
                       Inr (err_ok, unlock (st\<lparr>kheap := h\<rparr>)))
                   else Inr (err_ok, unlock st)))))"

definition obj_removedirectory :: "store \<Rightarrow> cstring option \<Rightarrow> cstring option \<Rightarrow> (store_error \<times> store) res" where
  "obj_removedirectory st pathname dirname = obj_removekey st pathname dirname"

definition obj_getdirectory :: "store \<Rightarrow> cstring option \<Rightarrow> addr \<Rightarrow> (store_error \<times> addr \<times> store) res" where
  "obj_getdirectory st pathname dir = obj_getkvs st pathname dir"

text \<open>The operations on an entry the caller holds, under the lock.\<close>

definition locked_read :: "store \<Rightarrow> (kvs_heap \<Rightarrow> (kvs_error \<times> 'v) res) \<Rightarrow> (store_error \<times> 'v \<times> store) res" where
  "locked_read st f =
     bindE (lock st) (\<lambda>st. bindE (f (kheap st)) (\<lambda>(err, v). Inr (local_error err, v, unlock st)))"

definition locked_update :: "store \<Rightarrow> (kvs_heap \<Rightarrow> (kvs_error \<times> kvs_heap) res) \<Rightarrow> (store_error \<times> store) res" where
  "locked_update st f =
     bindE (lock st) (\<lambda>st. bindE (f (kheap st)) (\<lambda>(err, h). Inr (local_error err, unlock (st\<lparr>kheap := h\<rparr>))))"

definition obj_next :: "store \<Rightarrow> addr option \<Rightarrow> (store_error \<times> addr option \<times> store) res" where
  "obj_next st dir = locked_read st (\<lambda>h. kvs_next h dir)"

definition obj_readlocal_key :: "store \<Rightarrow> addr \<Rightarrow> u8 list option \<Rightarrow> (store_error \<times> u8 list option \<times> store) res" where
  "obj_readlocal_key st dir keyname = locked_read st (\<lambda>h. kvs_get_key h dir keyname)"

definition obj_readlocal_uint :: "store \<Rightarrow> addr \<Rightarrow> bool \<Rightarrow> (store_error \<times> u64 option \<times> store) res" where
  "obj_readlocal_uint st dir val = locked_read st (\<lambda>h. kvs_get_uint h dir val)"

definition obj_readlocal_ptr :: "store \<Rightarrow> addr \<Rightarrow> bool \<Rightarrow> (store_error \<times> u64 option \<times> store) res" where
  "obj_readlocal_ptr st dir val = locked_read st (\<lambda>h. kvs_get_ptr h dir val)"

definition obj_readlocal_int :: "store \<Rightarrow> addr \<Rightarrow> bool \<Rightarrow> (store_error \<times> u64 option \<times> store) res" where
  "obj_readlocal_int st dir val = locked_read st (\<lambda>h. kvs_get_sint h dir val)"

definition obj_readlocal_str :: "store \<Rightarrow> addr \<Rightarrow> bool \<Rightarrow> (store_error \<times> u64 option \<times> store) res" where
  "obj_readlocal_str st dir val = locked_read st (\<lambda>h. kvs_get_str h dir val)"

definition obj_readlocal_dir :: "store \<Rightarrow> addr \<Rightarrow> bool \<Rightarrow> (store_error \<times> u64 option \<times> store) res" where
  "obj_readlocal_dir st dir val = locked_read st (\<lambda>h. kvs_get_child h dir val)"

definition obj_lock :: "store \<Rightarrow> addr \<Rightarrow> (store_error \<times> store) res" where
  "obj_lock st dir = locked_update st (\<lambda>h. kvs_lockentry h dir)"

definition obj_unlock :: "store \<Rightarrow> addr \<Rightarrow> (store_error \<times> store) res" where
  "obj_unlock st dir = locked_update st (\<lambda>h. kvs_unlockentry h dir)"

definition obj_islocked :: "store \<Rightarrow> addr \<Rightarrow> bool \<Rightarrow> (store_error \<times> bool option \<times> store) res" where
  "obj_islocked st dir status = locked_read st (\<lambda>h. kvs_islocked h dir status)"

definition obj_module_init :: "store \<Rightarrow> (int \<times> store) res" where
  "obj_module_init st =
     bindE (kvs_create (kheap st) True) (\<lambda>(e, r, h).
       if e \<noteq> kvs_ok then Inl (Panic ''Failed to initialize object store.'')
       else Inr (0, st\<lparr>kheap := h, kern_registry := r\<rparr>))"

section \<open>The typed keys of the object store\<close>

interpretation obj_uint: typed_key obj_addkey_uint obj_readkey_uint kvs_val_uint "\<lambda>v. v" kvs_get_uint
  by unfold_locales
    (simp_all add: obj_addkey_uint_def obj_readkey_uint_def kvs_typed_defs kvs_get_internal_def)

interpretation obj_ptr: typed_key obj_addkey_ptr obj_readkey_ptr kvs_val_ptr "\<lambda>v. v" kvs_get_ptr
  by unfold_locales
    (simp_all add: obj_addkey_ptr_def obj_readkey_ptr_def kvs_typed_defs kvs_get_internal_def)

interpretation obj_int: typed_key obj_addkey_int obj_readkey_int kvs_val_sint "\<lambda>v. v" kvs_get_sint
  by unfold_locales
    (simp_all add: obj_addkey_int_def obj_readkey_int_def kvs_typed_defs kvs_get_internal_def)

interpretation obj_bool: typed_key obj_addkey_bool obj_readkey_bool kvs_val_bool scast kvs_get_bool
  by unfold_locales
    (simp_all add: obj_addkey_bool_def obj_readkey_bool_def kvs_typed_defs kvs_get_bool_def ucast_scast_bool)

section \<open>Rewriting values\<close>

text \<open>
  An update of one entry that keeps its key, its type, its place in the list and, for a child entry, the
  store it refers to.
\<close>

definition same_entry :: "kvs \<Rightarrow> kvs \<Rightarrow> bool" where
  "same_entry n m \<longleftrightarrow> key m = key n \<and> key_hash m = key_hash n \<and> val_type m = val_type n \<and> next m = next n \<and>
     (val_type n = kvs_val_child \<longrightarrow> u_val m = u_val n)"

lemma path_same_next:
  "(\<And>q. map_option next (m' q) = map_option next (m q)) \<Longrightarrow> path next m' p ps r = path next m p ps r"
proof (induction ps arbitrary: p)
  case (Cons a as)
  have "(\<exists>n. m' a = Some n \<and> path next m' (next n) as r) \<longleftrightarrow> (\<exists>n. m a = Some n \<and> path next m (next n) as r)"
    using Cons.prems[of a] Cons.IH[OF Cons.prems] by (cases "m a"; cases "m' a") auto
  then show ?case by simp
qed simp

lemma same_entry_kvs:
  assumes "hmap h p = Some n" "same_entry n m" "h' = hput h p m"
  shows "kvs_lookup h' ps k = kvs_lookup h ps k" "kvs_store h' d ps = kvs_store h d ps" "kvs_wf h \<Longrightarrow> kvs_wf h'"
    "hmap h' q = Some m' \<Longrightarrow> \<exists>n'. hmap h q = Some n' \<and> same_entry n' m'"
proof -
  have e: "hmap h' = (hmap h)(p \<mapsto> m)" using assms(3) by simp
  have "kvs_match k (the (hmap h' q)) = kvs_match k (the (hmap h q))" for q
    using assms(1,2) by (simp add: e kvs_match_def same_entry_def)
  then show "kvs_lookup h' ps k = kvs_lookup h ps k" by (simp add: kvs_lookup_def)
  have "map_option next (hmap h' q) = map_option next (hmap h q)" for q using assms(1,2) by (simp add: e same_entry_def)
  then have "path next (hmap h') d (d # ps) NULL = path next (hmap h) d (d # ps) NULL" by (rule path_same_next)
  moreover have "(\<exists>n. hmap h' d = Some n \<and> val_type n = kvs_val_uninit) \<longleftrightarrow> (\<exists>n. hmap h d = Some n \<and> val_type n = kvs_val_uninit)"
    using assms(1,2) by (auto simp: e same_entry_def)
  ultimately show "kvs_store h' d ps = kvs_store h d ps" by (simp only: kvs_store_def)
  show "kvs_wf h \<Longrightarrow> kvs_wf h'" unfolding assms(3) using assms(1,2) kvs_wf_key[of h p n] by (intro kvs_wf_hput) (auto simp: same_entry_def)
  show "hmap h' q = Some m' \<Longrightarrow> \<exists>n'. hmap h q = Some n' \<and> same_entry n' m'"
    using assms(1,2) by (auto simp: e same_entry_def split: if_splits)
qed

lemma tree_inv_update:
  assumes inv: "tree_inv st D dep" and n: "hmap (kheap st) p = Some n" "same_entry n m"
  defines "st' \<equiv> st\<lparr>kheap := hput (kheap st) p m\<rparr>"
  shows "tree_inv st' D dep" "lookup_path st' D x = lookup_path st D x"
proof -
  note S = same_entry_kvs[OF n refl] and I = tree_invD[OF inv]
  have e: "kheap st' = hput (kheap st) p m" "kern_lock st' = kern_lock st" "kern_registry st' = kern_registry st"
    by (simp_all add: st'_def)
  have 3: "u_val n' \<in> dom D \<and> dep (u_val n') = Suc (dep d)"
    if a: "D d = Some ps" "q \<in> set ps" "hmap (hput (kheap st) p m) q = Some n'" "val_type n' = kvs_val_child" for d ps q n'
  proof -
    obtain n0 where "hmap (kheap st) q = Some n0" "same_entry n0 n'" using S(4)[OF a(3)] by blast
    then show ?thesis using I(7)[OF a(1,2), of n0] a(4) by (simp add: same_entry_def)
  qed
  have "\<forall>d ps q n'. D d = Some ps \<and> q \<in> set ps \<and> hmap (hput (kheap st) p m) q = Some n' \<and> val_type n' = kvs_val_child \<longrightarrow>
      u_val n' \<in> dom D \<and> dep (u_val n') = Suc (dep d)" using 3 by blast
  then show "tree_inv st' D dep" unfolding tree_inv_def e using I(1-6) S(2,3) by metis
  have w: "walk_from (hput (kheap st) p m) D d cs = walk_from (kheap st) D d cs" if "d \<in> dom D" for d cs
    using that
  proof (induction cs arbitrary: d)
    case (Cons c cs)
    obtain ps where ps: "D d = Some ps" using Cons.prems by auto
    show ?case
    proof (cases "kvs_lookup (kheap st) ps c")
      case None
      then show ?thesis using S(1) ps by simp
    next
      case (Some q)
      obtain n0 where n0: "hmap (kheap st) q = Some n0" "q \<in> set ps" using lookup_node[OF I(5)[OF ps] Some] .
      then obtain m0 where m0: "hmap (hput (kheap st) p m) q = Some m0" by (cases "q = p") auto
      have s0: "val_type m0 = val_type n0" "val_type n0 = kvs_val_child \<Longrightarrow> u_val m0 = u_val n0"
        using S(4)[OF m0] n0(1) by (auto simp: same_entry_def)
      have "walk_from (hput (kheap st) p m) D (u_val n0) cs = walk_from (kheap st) D (u_val n0) cs" if "val_type n0 = kvs_val_child"
        using Cons.IH[of "u_val n0"] I(7)[OF ps n0(2,1) that] by blast
      then show ?thesis using S(1) ps Some n0(1) m0 s0 by (simp del: hmap_hput)
    qed
  qed simp
  show "lookup_path st' D x = lookup_path st D x" unfolding lookup_path_def e using w[OF I(3)] .
qed

lemma writekey_at:
  assumes inv: "tree_inv st D dep" and l: "lookup_path st D x = At d" and d: "D d = Some ps"
    and p: "kvs_lookup (kheap st) ps k = Some p" "hmap (kheap st) p = Some n" and vt: "vt \<noteq> kvs_val_child"
  shows "writekey st (Some x) (Some k) vt (\<lambda>h p. kvs_set_internal h p v vt) =
    (if val_type n = vt then Inr (err_ok, st\<lparr>kheap := hput (kheap st) p (n\<lparr>u_val := v\<rparr>)\<rparr>) else Inr (err_typematchfailure, st))"
proof -
  note I = tree_invD[OF inv]
  obtain n' where q: "p \<noteq> NULL" "p \<in> set ps" using lookup_node[OF I(5)[OF d] p(1)] .
  have u: "unlock (st\<lparr>kern_lock := True\<rparr>) = st" using lock_unlock[OF I(2)] by simp
  show ?thesis using p q I(2) unfolding writekey_def in_parent_at[OF inv l] find_typed_at[OF inv d] u
    by (simp add: kvs_set_internal_def)
qed

section \<open>Properties\<close>

text \<open>
  Rewriting: writing an unsigned, pointer or boolean value through a path and a name that resolve to
  an entry of that type succeeds, the reader of the type then returns the new value, every directory keeps
  its entries and every name its answer; on an entry of another type the call reports a type mismatch and
  changes nothing.
\<close>

theorem obj_write_then_read:
  assumes "tree_inv st D dep" "lookup_path st D x = At d" "D d = Some ps" "kvs_lookup (kheap st) ps k = Some p"
    "hmap (kheap st) p = Some n"
  shows "(if val_type n = kvs_val_uint
      then \<exists>st'. obj_writekey_uint st (Some x) (Some k) u = Inr (err_ok, st') \<and> tree_inv st' D dep \<and>
        obj_readkey_uint st' (Some x) (Some k) True = Inr (err_ok, Some u, st') \<and> (\<forall>y. lookup_path st' D y = lookup_path st D y)
      else obj_writekey_uint st (Some x) (Some k) u = Inr (err_typematchfailure, st)) \<and>
    (if val_type n = kvs_val_ptr
      then \<exists>st'. obj_writekey_ptr st (Some x) (Some k) a = Inr (err_ok, st') \<and> tree_inv st' D dep \<and>
        obj_readkey_ptr st' (Some x) (Some k) True = Inr (err_ok, Some a, st') \<and> (\<forall>y. lookup_path st' D y = lookup_path st D y)
      else obj_writekey_ptr st (Some x) (Some k) a = Inr (err_typematchfailure, st)) \<and>
    (if val_type n = kvs_val_bool
      then \<exists>st'. obj_writekey_bool st (Some x) (Some k) b = Inr (err_ok, st') \<and> tree_inv st' D dep \<and>
        obj_readkey_bool st' (Some x) (Some k) True = Inr (err_ok, Some b, st') \<and> (\<forall>y. lookup_path st' D y = lookup_path st D y)
      else obj_writekey_bool st (Some x) (Some k) b = Inr (err_typematchfailure, st))"
proof -
  note W = writekey_at[OF assms]
  define s where "s v = st\<lparr>kheap := hput (kheap st) p (n\<lparr>u_val := v\<rparr>)\<rparr>" for v
  have se: "same_entry n (n\<lparr>u_val := v\<rparr>)" if "val_type n \<noteq> kvs_val_child" for v using that by (simp add: same_entry_def)
  have p0: "p \<noteq> NULL" using lookup_node[OF tree_invD(5)[OF assms(1,3)] assms(4)] by auto
  have S: "tree_inv (s v) D dep" "lookup_path (s v) D y = lookup_path st D y" "kvs_lookup (kheap (s v)) ps k = Some p"
    "hmap (kheap (s v)) p = Some (n\<lparr>u_val := v\<rparr>)" if "val_type n \<noteq> kvs_val_child" for v y
    unfolding s_def using tree_inv_update[OF assms(1,5) se[OF that]] same_entry_kvs(1)[OF assms(5) se[OF that] refl] assms(4) by simp_all
  have R: "readkey (s v) (Some x) (Some k) vt get True =
      bindE (get (kheap (s v)) p True) (\<lambda>(e, w). if e \<noteq> kvs_ok then Inr (err_failure, None, s v) else Inr (err_ok, w, s v))"
    if c: "val_type n = vt" "vt \<noteq> kvs_val_child" for v vt and get :: "kvs_heap \<Rightarrow> addr \<Rightarrow> bool \<Rightarrow> (kvs_error \<times> 'z option) res"
  proof -
    have c': "val_type n \<noteq> kvs_val_child" using c by simp
    show ?thesis using readkey_at[OF S(1)[OF c', of v], of x d ps k vt get] S[OF c', of v] assms(2,3) c by simp
  qed
  show ?thesis using S W p0
    by (auto simp: obj_writekey_uint_def obj_writekey_ptr_def obj_writekey_bool_def obj_readkey_uint_def obj_readkey_ptr_def
        obj_readkey_bool_def kvs_typed_defs kvs_get_bool_def kvs_get_internal_def ucast_scast_bool R simp flip: s_def)
qed

theorem obj_write_then_read_witness:
  "(\<exists>st'. obj_writekey_uint ex_store (Some []) (Some (str ''a'')) 9 = Inr (err_ok, st') \<and>
     obj_readkey_uint st' (Some []) (Some (str ''a'')) True = Inr (err_ok, Some 9, st')) \<and>
   obj_writekey_ptr ex_store (Some []) (Some (str ''a'')) 9 = Inr (err_typematchfailure, ex_store)"
  using obj_write_then_read[OF ex_store_inv ex_lookups(4) ex_key_a(2,1,3), of 9 9 0] by (auto simp: ex_key_a(4))

text \<open>
  Locked entries survive: after \<open>obj_lock\<close> on an entry \<open>obj_islocked\<close> answers yes and \<open>obj_removekey\<close>
  reports success without touching the store; after \<open>obj_unlock\<close> the answer is no and, unless the entry is
  the first of its directory, \<open>obj_removekey\<close> takes it out and returns its cell to the allocator.
\<close>

theorem obj_lock_prevents_removal:
  assumes "tree_inv st D dep" "lookup_path st D x = At d" "D d = Some (as @ a # p # bs)" "kvs_lookup (kheap st) (as @ a # p # bs) k = Some p"
    "hmap (kheap st) p = Some n" "val_type n \<noteq> kvs_val_child"
  shows "\<exists>st1 st2 st3. obj_lock st p = Inr (err_ok, st1) \<and> tree_inv st1 D dep \<and> obj_islocked st1 p True = Inr (err_ok, Some True, st1) \<and>
    obj_removekey st1 (Some x) (Some k) = Inr (err_ok, st1) \<and>
    obj_unlock st1 p = Inr (err_ok, st2) \<and> tree_inv st2 D dep \<and> obj_islocked st2 p True = Inr (err_ok, Some False, st2) \<and>
    obj_removekey st2 (Some x) (Some k) = Inr (err_ok, st3) \<and> kvs_store (kheap st3) d (as @ a # bs) \<and>
    map fst (avail (kheap st3)) = map fst (avail (kheap st)) @ [p]"
proof -
  note I = tree_invD[OF assms(1)]
  have p0: "p \<noteq> NULL" using lookup_node[OF I(5)[OF assms(3)] assms(4)] by auto
  define s where "s b = st\<lparr>kheap := hput (kheap st) p (n\<lparr>owner_locked := b\<rparr>)\<rparr>" for b
  have se: "same_entry n (n\<lparr>owner_locked := b\<rparr>)" for b by (simp add: same_entry_def)
  have S: "tree_inv (s b) D dep" "lookup_path (s b) D x = At d" "kvs_lookup (kheap (s b)) (as @ a # p # bs) k = Some p"
    "hmap (kheap (s b)) p = Some (n\<lparr>owner_locked := b\<rparr>)" "avail (kheap (s b)) = avail (kheap st)" "\<not> kern_lock (s b)" for b
    unfolding s_def using tree_inv_update[OF assms(1,5) se] same_entry_kvs(1)[OF assms(5) se refl] assms(2,4) I(2) by simp_all
  note lu = lock_unlock[OF S(6)]
  have lk: "obj_lock st p = Inr (err_ok, s True)" "obj_islocked (s b) p True = Inr (err_ok, Some b, s b)" for b
    using lock_unlock[OF I(2)] lu[of b] p0 assms(5) I(2) S(4)[of b]
    by (simp_all add: obj_lock_def obj_islocked_def locked_update_def locked_read_def kvs_lockentry_def kvs_islocked_def local_error_def s_def)
  have "hput (kheap (s True)) p (n\<lparr>owner_locked := True, owner_locked := False\<rparr>) = hput (kheap st) p (n\<lparr>owner_locked := False\<rparr>)"
    by (simp add: s_def hput_def update_last)
  then have ul: "obj_unlock (s True) p = Inr (err_ok, s False)"
    using lu[of True] p0 S(4,6)[of True] by (simp add: obj_unlock_def locked_update_def kvs_unlockentry_def local_error_def) (simp add: s_def)
  have rm: "obj_removekey (s b) (Some x) (Some k) =
      (if b then Inr (err_ok, s b) else bindE (kvs_remove (kheap (s b)) d p) (\<lambda>(_, h). Inr (err_ok, s b\<lparr>kheap := h\<rparr>)))" for b
    using lu[of b] kvs_find_lookup[OF tree_invD(5)[OF S(1) assms(3)], of b k] S(3,4,6)[of b] p0
    by (cases b) (simp_all add: obj_removekey_def in_parent_at[OF S(1,2)] kvs_islocked_def)
  obtain h' where "kvs_remove (kheap (s False)) d p = Inr (kvs_ok, h')" "kvs_store h' d (as @ a # bs)"
      "map fst (avail h') = map fst (avail (kheap st)) @ [p]"
    using kvs_remove_later[OF tree_invD(1)[OF S(1)] tree_invD(5)[OF S(1) assms(3)] S(4), of False "[]"] assms(6) S(5) by auto
  then show ?thesis using lk ul rm S(1)
    by (intro exI[of _ "s True"] exI[of _ "s False"] exI[of _ "s False\<lparr>kheap := h'\<rparr>"]) simp
qed

theorem obj_lock_prevents_removal_witness:
  "\<exists>st1. obj_lock ex_store 32 = Inr (err_ok, st1) \<and> obj_removekey st1 (Some []) (Some (str ''a'')) = Inr (err_ok, st1)"
  using obj_lock_prevents_removal[OF ex_store_inv ex_lookups(4), of "[]" 48 32 "[]" "str ''a''" "ex_entry ''a'' kvs_val_uint 7 0"]
  using ex_key_a(3) by (auto simp: ex_key_a(1,2,4))

text \<open>
  The object store lock: every operation that returns, with success or an error code, returns with
  the lock released when it was free before, and none of them stops on its own lock.
\<close>

theorem obj_releases_lock:
  assumes "\<not> kern_lock st"
  shows "releases snd3 (obj_getdirectory st x y) \<and> releases snd (obj_createdirectory st x k) \<and>
    releases snd (obj_addkey_uint st x k u) \<and> releases snd (obj_addkey_str st x k s) \<and> releases snd (obj_addkey_bool st x k b) \<and>
    releases snd3 (obj_readkey_uint st x k out) \<and> releases snd3 (obj_readkey_ptr st x k out) \<and>
    releases snd3 (obj_readkey_str st x k buf n) \<and> releases snd (obj_writekey_uint st x k u) \<and>
    releases snd (obj_writekey_str st x k a) \<and> releases snd (obj_removekey st x k) \<and> releases snd3 (obj_next st q) \<and>
    releases snd3 (obj_readlocal_uint st p out) \<and> releases snd (obj_lock st p) \<and> releases snd (obj_unlock st p) \<and>
    releases snd3 (obj_islocked st p out)"
proof -
  have r: "releases snd (obj_removekey st x k)" unfolding obj_removekey_def
    by (rule releases_in_parent[OF assms]) (auto intro!: releases_bind split: option.split)
  have l: "(\<And>h. lock_free (f h)) \<Longrightarrow> releases snd3 (locked_read st f)" "(\<And>h. lock_free (g h)) \<Longrightarrow> releases snd (locked_update st g)"
    for f :: "kvs_heap \<Rightarrow> (kvs_error \<times> 'z) res" and g
    using assms by (auto simp: locked_read_def locked_update_def intro!: releases_bind)
  show ?thesis using r assms
    by (simp add: releases_ops[OF assms] releases_getkvs[OF assms] obj_getdirectory_def obj_getkvs_def obj_createdirectory_def
        obj_addkey_uint_def obj_addkey_str_def obj_addkey_bool_def obj_readkey_uint_def obj_readkey_ptr_def obj_readkey_str_def
        obj_writekey_uint_def obj_writekey_str_def obj_next_def obj_readlocal_uint_def obj_lock_def obj_unlock_def obj_islocked_def
        kvs_typed_defs l)
qed

theorem obj_releases_lock_witness:
  "releases snd (obj_lock ex_store 32) \<and> releases snd (obj_removekey ex_store (Some []) (Some (str ''a'')))"
  using obj_releases_lock[of ex_store "Some []" 0 "Some (str ''a'')"] by simp

end
