(* ===== verification/PageAlloc.thy ===== *)
theory PageAlloc
  imports StdQueue
begin

text \<open>
  The physical page allocator, \<^verbatim>\<open>modules/SysPhysicalMemory/src/page_allocator.c\<close>: free memory is a
  ring of entries, each a base address and a page count packed in 64 bits. This theory has the entry
  encoding, the quicksort over the ring, the compaction of neighbouring entries, allocation and
  release.
\<close>

section \<open>Entries\<close>

abbreviation (input) BTM_LEVEL :: u64 where
  "BTM_LEVEL \<equiv> 0x1000"

abbreviation (input) MAX_ENTRIES :: u64 where
  "MAX_ENTRIES \<equiv> 0x100000"

definition BUILD_ADDR :: "u64 \<Rightarrow> u64" where
  "BUILD_ADDR a = push_bit 8 (a AND NOT (BTM_LEVEL - 1))"

text \<open>The page count is an \<open>int32_t\<close> in some uses and a \<open>uint64_t\<close> in others: an integer here.\<close>

definition BUILD_PAGES :: "int \<Rightarrow> u64" where
  "BUILD_PAGES pages = of_int (pages - 1) AND (MAX_ENTRIES - 1)"

definition BUILD_ENTRY :: "u64 \<Rightarrow> int \<Rightarrow> u64" where
  "BUILD_ENTRY a pages = BUILD_ADDR a OR BUILD_PAGES pages"

definition GET_ADDR :: "u64 \<Rightarrow> u64" where
  "GET_ADDR e = drop_bit 8 e AND NOT (BTM_LEVEL - 1)"

definition GET_PG_CNT :: "u64 \<Rightarrow> u64" where
  "GET_PG_CNT e = (e AND (MAX_ENTRIES - 1)) + 1"

definition roundUp_po2 :: "u64 \<Rightarrow> u64 \<Rightarrow> u64" where
  "roundUp_po2 val m = (val + (m - 1)) AND NOT (m - 1)"

section \<open>Sorting the ring\<close>

text \<open>
  The inner loops of the partition. Each runs over the ring with the index reduced modulo \<open>sz\<close>; a
  negative index is outside the array, and a scan that has passed every slot once without stopping
  never stops, so \<open>length data + 1\<close> steps decide it.
\<close>

fun scan_down :: "nat \<Rightarrow> u64 list \<Rightarrow> int \<Rightarrow> u64 \<Rightarrow> int \<Rightarrow> int res" where
  "scan_down 0 data sz pivot j = Inl Diverge"
| "scan_down (Suc n) data sz pivot j =
     bindE (crem (j - 1) sz) (\<lambda>k. bindE (aget data k) (\<lambda>e.
       if GET_ADDR e > pivot then scan_down n data sz pivot (j - 1) else Inr (j - 1)))"

fun scan_up :: "nat \<Rightarrow> u64 list \<Rightarrow> int \<Rightarrow> u64 \<Rightarrow> int \<Rightarrow> int res" where
  "scan_up 0 data sz pivot i = Inl Diverge"
| "scan_up (Suc n) data sz pivot i =
     bindE (crem (i + 1) sz) (\<lambda>k. bindE (aget data k) (\<lambda>e.
       if GET_ADDR e < pivot then scan_up n data sz pivot (i + 1) else Inr (i + 1)))"

text \<open>The exchange by three exclusive-ors.\<close>

definition xor_at :: "u64 list \<Rightarrow> int \<Rightarrow> int \<Rightarrow> int \<Rightarrow> u64 list res" where
  "xor_at data sz a b =
     bindE (crem a sz) (\<lambda>ka. bindE (crem b sz) (\<lambda>kb.
     bindE (aget data ka) (\<lambda>x. bindE (aget data kb) (\<lambda>y. aset data ka (x XOR y)))))"

definition xor_swap :: "u64 list \<Rightarrow> int \<Rightarrow> int \<Rightarrow> int \<Rightarrow> u64 list res" where
  "xor_swap data sz i j =
     bindE (xor_at data sz i j) (\<lambda>d. bindE (xor_at d sz j i) (\<lambda>d. xor_at d sz i j))"

lemma scan_down_less: "scan_down n data sz pivot j = Inr j' \<Longrightarrow> j' < j"
  by (induction n arbitrary: j) (fastforce simp: res_iff split: if_splits)+

lemma scan_up_greater: "scan_up n data sz pivot i = Inr i' \<Longrightarrow> i < i'"
  by (induction n arbitrary: i) (fastforce simp: res_iff split: if_splits)+

text \<open>The loop of \<open>partition_pgs\<close>: it returns the final \<open>j\<close> and the array.\<close>

function partition_loop :: "u64 list \<Rightarrow> int \<Rightarrow> u64 \<Rightarrow> int \<Rightarrow> int \<Rightarrow> (int \<times> u64 list) res" where
  "partition_loop data sz pivot i j =
     bindE (scan_down (length data + 1) data sz pivot j) (\<lambda>j'.
     bindE (scan_up (length data + 1) data sz pivot i) (\<lambda>i'.
       if i' \<ge> j' then Inr (j', data)
       else bindE (xor_swap data sz i' j') (\<lambda>data'. partition_loop data' sz pivot i' j')))"
  by pat_completeness auto
termination
  by (relation "measure (\<lambda>(data, sz, pivot, i, j). nat (j - i))")
    (force simp del: scan_down.simps scan_up.simps dest: scan_down_less scan_up_greater)+

definition partition_pgs :: "u64 list \<Rightarrow> int \<Rightarrow> int \<Rightarrow> int \<Rightarrow> (int \<times> u64 list) res" where
  "partition_pgs data lo hi sz =
     (let piv_loc = (lo + hi) sdiv 2 in
      bindE (crem piv_loc sz) (\<lambda>k. bindE (aget data k) (\<lambda>e.
        partition_loop data sz (GET_ADDR e) (lo - 1) (hi + 1))))"

text \<open>
  The C function recurses on the smaller part and loops on the larger one, in this order. Both parts
  are shorter than the whole, so \<open>hi - lo + 1\<close> levels are enough; a split that is not shorter would
  recurse forever.
\<close>

fun quicksort_n :: "nat \<Rightarrow> u64 list \<Rightarrow> int \<Rightarrow> int \<Rightarrow> int \<Rightarrow> u64 list res" where
  "quicksort_n 0 data lo hi sz = (if hi > lo then Inl Diverge else Inr data)"
| "quicksort_n (Suc n) data lo hi sz =
     (if hi > lo then
        bindE (partition_pgs data lo hi sz) (\<lambda>(p, d).
          if p - lo > hi - p then
            bindE (quicksort_n n d lo p sz) (\<lambda>d. quicksort_n n d (p + 1) hi sz)
          else
            bindE (quicksort_n n d (p + 1) hi sz) (\<lambda>d. quicksort_n n d lo p sz))
      else Inr data)"

definition quicksort_pgs :: "u64 list \<Rightarrow> int \<Rightarrow> int \<Rightarrow> int \<Rightarrow> u64 list res" where
  "quicksort_pgs data lo hi sz = quicksort_n (nat (hi - lo + 1)) data lo hi sz"

section \<open>Compaction\<close>

function compact_loop :: "queue_t \<Rightarrow> int \<Rightarrow> int \<Rightarrow> queue_t res" where
  "compact_loop q lo hi =
     (if lo < hi - 1 then
        bindE (crem lo (q_size q)) (\<lambda>k. bindE (crem (lo + 1) (q_size q)) (\<lambda>k1.
        bindE (aget (queue q) k) (\<lambda>e. bindE (aget (queue q) k1) (\<lambda>e1.
          let pg_cnt = GET_PG_CNT e; pg_addr = GET_ADDR e; n_pg_addr = GET_ADDR e1;
              n_pg_cnt = pg_cnt + GET_PG_CNT e1
          in if pg_cnt * BTM_LEVEL + pg_addr = n_pg_addr \<and> n_pg_cnt < MAX_ENTRIES
             then bindE (aset (queue q) k1 (BUILD_ENTRY pg_addr (uint n_pg_cnt))) (\<lambda>arr.
                  bindE (aset arr k 0) (\<lambda>arr.
                  bindE (crem (head q + 1) (q_size q)) (\<lambda>h.
                    compact_loop (q\<lparr>queue := arr, head := h, ent_cnt := ent_cnt q - 1\<rparr>) (lo + 1) hi)))
             else compact_loop q (lo + 1) hi))))
      else Inr q)"
  by pat_completeness auto
termination
  by (relation "measure (\<lambda>(q, lo, hi). nat (hi - lo))") auto

definition compact_queue :: "queue_t \<Rightarrow> queue_t res" where
  "compact_queue q =
     (let lo = head q; hi = tail q - 1; hi = (if hi < lo then hi + q_size q else hi) in
      bindE (quicksort_pgs (queue q) lo hi (q_size q)) (\<lambda>arr.
        compact_loop (q\<lparr>queue := arr\<rparr>) lo hi))"

section \<open>Allocation and release\<close>

record pagealloc =
  btm_level :: queue_t
  mem_size :: u64
  free_mem :: u64
  data_multiple :: u64
  instr_multiple :: u64
  pagetable_multiple :: u64

text \<open>The pointer passed to the queue operations is that of a static variable, never \<open>NULL\<close>.\<close>

definition on_btm :: "pagealloc \<Rightarrow> queue_t option \<Rightarrow> pagealloc" where
  "on_btm st qp = (case qp of None \<Rightarrow> st | Some q \<Rightarrow> st\<lparr>btm_level := q\<rparr>)"

definition insert_queue :: "pagealloc \<Rightarrow> u64 \<Rightarrow> pagealloc res" where
  "insert_queue st val =
     bindE (queue_tryenqueue (Some (btm_level st)) val) (\<lambda>(ok, qp).
       if ok then Inr (on_btm st qp)
       else bindE (compact_queue (btm_level (on_btm st qp))) (\<lambda>q.
            bindE (queue_tryenqueue (Some q) val) (\<lambda>(ok, qp).
              if ok then Inr (on_btm st qp) else Inl (Panic ''Failed to enqueue entry.''))))"

definition insert_queue_front :: "pagealloc \<Rightarrow> u64 \<Rightarrow> pagealloc res" where
  "insert_queue_front st val =
     bindE (queue_tryenqueue_front (Some (btm_level st)) val) (\<lambda>(ok, qp).
       if ok then Inr (on_btm st qp)
       else bindE (compact_queue (btm_level (on_btm st qp))) (\<lambda>q.
            bindE (queue_tryenqueue_front (Some q) val) (\<lambda>(ok, qp).
              if ok then Inr (on_btm st qp) else Inl (Panic ''Failed to enqueue entry.''))))"

text \<open>
  The loop of \<open>pagealloc_free\<close>. The counters are below \<open>2 ^ 52\<close>, so their 64-bit arithmetic does
  not wrap and they are natural numbers here; the address is kept at its width.
\<close>

function free_loop :: "pagealloc \<Rightarrow> u64 \<Rightarrow> nat \<Rightarrow> nat \<Rightarrow> pagealloc res" where
  "free_loop st a pg_0 page_cnt =
     (if pg_0 < page_cnt then
        (let cur_pg = (if page_cnt - pg_0 \<ge> unat MAX_ENTRIES then unat MAX_ENTRIES
                       else page_cnt - pg_0)
         in bindE (insert_queue st (BUILD_ENTRY a (int cur_pg))) (\<lambda>st.
              free_loop st (a + of_nat cur_pg * BTM_LEVEL) (pg_0 + unat MAX_ENTRIES) page_cnt))
      else Inr st)"
  by pat_completeness auto
termination
  by (relation "measure (\<lambda>(st, a, pg_0, page_cnt). page_cnt - pg_0)") auto

definition pagealloc_free :: "pagealloc \<Rightarrow> u64 \<Rightarrow> u64 \<Rightarrow> pagealloc res" where
  "pagealloc_free st a sz =
     (if a mod BTM_LEVEL \<noteq> 0 then Inl (Panic ''Misaligned address'')
      else if sz mod BTM_LEVEL \<noteq> 0 then Inl (Panic ''Misaligned sz'')
      else free_loop (st\<lparr>free_mem := free_mem st + sz\<rparr>) a 0 (unat (sz div BTM_LEVEL)))"

abbreviation (input) physmem_alloc_flags_32bit :: u32 where
  "physmem_alloc_flags_32bit \<equiv> 0x20"

text \<open>
  One pass over the ring: \<open>n\<close> iterations are left. \<open>Some\<close> is the \<open>return ret_addr\<close> of the loop body,
  \<open>None\<close> the end of the pass.
\<close>

fun alloc_pass :: "nat \<Rightarrow> pagealloc \<Rightarrow> u32 \<Rightarrow> u64 \<Rightarrow> int \<Rightarrow> (u64 option \<times> pagealloc) res" where
  "alloc_pass 0 st flags sz pg_cnt = Inr (None, st)"
| "alloc_pass (Suc n) st flags sz pg_cnt =
     bindE (queue_trydequeue (Some (btm_level st))) (\<lambda>(got, qp).
       case got of
         None \<Rightarrow> Inl (Panic ''Out of Memory!'')
       | Some deq \<Rightarrow>
           (let st = on_btm st qp in
            if flags AND physmem_alloc_flags_32bit \<noteq> 0 \<and> GET_ADDR deq AND NOT 0xffffffff \<noteq> 0 then
              bindE (insert_queue st deq) (\<lambda>st. alloc_pass n st flags sz pg_cnt)
            else if to_i32 (uint (GET_PG_CNT deq)) \<ge> pg_cnt then
              (let ret_addr = GET_ADDR deq;
                   n_addr = ret_addr + of_int pg_cnt * BTM_LEVEL;
                   n_pg_cnt = to_i32 (uint (GET_PG_CNT deq) - pg_cnt)
               in bindE (if n_pg_cnt > 0 then insert_queue_front st (BUILD_ENTRY n_addr n_pg_cnt)
                         else Inr st) (\<lambda>st.
                  Inr (Some ret_addr, st\<lparr>free_mem := free_mem st - sz\<rparr>)))
            else bindE (insert_queue st deq) (\<lambda>st. alloc_pass n st flags sz pg_cnt)))"

fun alloc_passes :: "nat \<Rightarrow> pagealloc \<Rightarrow> u32 \<Rightarrow> u64 \<Rightarrow> int \<Rightarrow> (u64 \<times> pagealloc) res" where
  "alloc_passes 0 st flags sz pg_cnt = Inr (-1, st)"
| "alloc_passes (Suc j) st flags sz pg_cnt =
     bindE (alloc_pass (nat (queue_entcnt (Some (btm_level st)))) st flags sz pg_cnt) (\<lambda>(r, st).
       case r of
         Some a \<Rightarrow> Inr (a, st)
       | None \<Rightarrow> bindE (compact_queue (btm_level st)) (\<lambda>q.
                   alloc_passes j (st\<lparr>btm_level := q\<rparr>) flags sz pg_cnt))"

text \<open>The function overwrites its \<open>domain\<close>, \<open>color\<close> and \<open>flags\<close> arguments with 0 before use.\<close>

definition pagealloc_alloc :: "pagealloc \<Rightarrow> int \<Rightarrow> int \<Rightarrow> u32 \<Rightarrow> u64 \<Rightarrow> (u64 \<times> pagealloc) res" where
  "pagealloc_alloc st domain color flags sz =
     (let flags = 0; sz = roundUp_po2 sz BTM_LEVEL;
          pg_cnt = to_i32 (uint (sz div BTM_LEVEL))
      in alloc_passes 2 st flags sz pg_cnt)"

section \<open>Entries: encoding and decoding\<close>

lemma BTM_mask: "BTM_LEVEL - 1 = mask 12" by (simp add: mask_eq_exp_minus_1)

lemma MAX_mask: "MAX_ENTRIES - 1 = mask 20" by (simp add: mask_eq_exp_minus_1)

lemma entry_masks:
  "BUILD_ADDR a = push_bit 8 (a AND NOT (mask 12))"
  "BUILD_PAGES n = of_int (n - 1) AND mask 20"
  "GET_ADDR e = drop_bit 8 e AND NOT (mask 12)"
  "GET_PG_CNT e = (e AND mask 20) + 1"
  unfolding BUILD_ADDR_def BUILD_PAGES_def GET_ADDR_def GET_PG_CNT_def BTM_mask MAX_mask by (rule refl)+

lemma mod_BTM_take_bit: "a mod BTM_LEVEL = take_bit 12 (a :: u64)"
  by (simp add: take_bit_eq_mod)

lemma less_exp_bit:
  assumes "(a :: u64) < 2 ^ n" "bit a k" shows "k < n"
  using assms(2) less_mask_eq[OF assms(1)] by (metis bit_and_iff bit_mask_iff)

lemma aligned_bit:
  assumes "a mod BTM_LEVEL = 0" "bit a k" shows "12 \<le> k"
proof (rule ccontr)
  assume "\<not> 12 \<le> k"
  then have "bit (take_bit 12 a) k" using assms(2) by (simp add: bit_take_bit_iff)
  then show False using assms(1) by (simp add: mod_BTM_take_bit)
qed

lemma GET_ADDR_BUILD_ENTRY:
  assumes "a mod BTM_LEVEL = 0" "a < 2 ^ 56"
  shows "GET_ADDR (BUILD_ENTRY a n) = a"
proof (rule bit_eqI)
  fix k
  show "bit (GET_ADDR (BUILD_ENTRY a n)) k = bit a k"
    using less_exp_bit[OF assms(2), of k] aligned_bit[OF assms(1), of k] bit_imp_le_length[of a k]
    by (auto simp: entry_masks BUILD_ENTRY_def bit_simps simp del: of_int_diff)
qed

lemma GET_PG_CNT_BUILD_ENTRY:
  assumes "1 \<le> n" "n \<le> 2 ^ 20"
  shows "GET_PG_CNT (BUILD_ENTRY a n) = of_int n" "uint (GET_PG_CNT (BUILD_ENTRY a n)) = n"
proof -
  have "(BUILD_ENTRY a n) AND mask 20 = of_int (n - 1) AND mask 20"
    by (rule bit_eqI) (auto simp: entry_masks BUILD_ENTRY_def bit_simps simp del: of_int_diff)
  also have "\<dots> = word_of_int (take_bit 20 (n - 1))" by (simp only: and_mask_wi)
  also have "take_bit 20 (n - 1) = n - 1" using assms by (simp add: take_bit_int_eq_self_iff)
  finally show c: "GET_PG_CNT (BUILD_ENTRY a n) = of_int n" by (simp add: entry_masks)
  show "uint (GET_PG_CNT (BUILD_ENTRY a n)) = n"
    using assms unfolding c by (simp add: word_of_int_inverse)
qed

lemma GET_ADDR_aligned: "GET_ADDR e mod BTM_LEVEL = 0"
  unfolding mod_BTM_take_bit entry_masks by (rule bit_eqI) (auto simp: bit_simps)

lemma GET_ADDR_less: "GET_ADDR e < 2 ^ 56"
proof -
  have "GET_ADDR e AND mask 56 = GET_ADDR e"
    by (rule bit_eqI) (auto simp: entry_masks bit_simps dest: bit_imp_le_length)
  then show ?thesis by (simp add: mask_eq_iff_w2p word_size)
qed

lemma GET_PG_CNT_uint: "uint (GET_PG_CNT e) = uint (e AND mask 20) + 1"
  using and_mask_lt_2p[of e 20] by (simp add: entry_masks uint_word_ariths)

lemma GET_PG_CNT_bounds: "1 \<le> uint (GET_PG_CNT e)" "uint (GET_PG_CNT e) \<le> 2 ^ 20"
  using and_mask_lt_2p[of e 20] by (simp_all add: GET_PG_CNT_uint)

lemma BUILD_ENTRY_GET: "BUILD_ENTRY (GET_ADDR e) (uint (GET_PG_CNT e)) = e"
proof (rule bit_eqI)
  fix k
  have "BUILD_PAGES (uint (GET_PG_CNT e)) = e AND mask 20"
    by (simp add: entry_masks(2) GET_PG_CNT_uint)
  then show "bit (BUILD_ENTRY (GET_ADDR e) (uint (GET_PG_CNT e))) k = bit e k"
    by (auto simp: BUILD_ENTRY_def entry_masks(1,3) bit_simps dest: bit_imp_le_length)
qed


declare scan_down.simps [simp del] scan_up.simps [simp del] partition_loop.simps [simp del]
  compact_loop.simps [simp del] free_loop.simps [simp del]

section \<open>The ring as an array over virtual indices\<close>

definition ring_at :: "'a list \<Rightarrow> int \<Rightarrow> int \<Rightarrow> 'a" where
  "ring_at data sz k = data ! nat (k mod sz)"

lemma ring_at_upd:
  assumes "int (length data) = sz" "0 < sz"
  shows "ring_at (data[nat (i mod sz) := v]) sz k = (if k mod sz = i mod sz then v else ring_at data sz k)"
proof -
  have "nat (k mod sz) = nat (i mod sz) \<longleftrightarrow> k mod sz = i mod sz" using assms by (simp add: nat_eq_iff)
  moreover have "nat (i mod sz) < length data" using assms pos_mod_bound[of sz i] by linarith
  ultimately show ?thesis by (auto simp: ring_at_def)
qed

lemma window_mod_inj:
  fixes i k sz :: int
  assumes "0 < sz" "\<bar>i - k\<bar> < sz" "i mod sz = k mod sz"
  shows "i = k"
proof -
  have "sz dvd i - k" using assms(3) by (simp add: mod_eq_dvd_iff)
  then show ?thesis using assms(2) zdvd_imp_le[of sz "\<bar>i - k\<bar>"] by force
qed

lemma aget_ring:
  assumes "int (length data) = sz" "0 < sz" "0 \<le> k"
  shows "bindE (crem k sz) (\<lambda>k. bindE (aget data k) f) = f (ring_at data sz k)"
  using assms pos_mod_bound[of sz k] by (simp add: ring_at_def)

lemma scan_down_step:
  assumes "int (length data) = sz" "0 < sz" "0 < j"
  shows "scan_down (Suc n) data sz pivot j =
    (if GET_ADDR (ring_at data sz (j - 1)) > pivot then scan_down n data sz pivot (j - 1)
     else Inr (j - 1))"
  using assms by (simp only: scan_down.simps) (subst aget_ring, simp_all)

lemma scan_up_step:
  assumes "int (length data) = sz" "0 < sz" "-1 \<le> i"
  shows "scan_up (Suc n) data sz pivot i =
    (if GET_ADDR (ring_at data sz (i + 1)) < pivot then scan_up n data sz pivot (i + 1)
     else Inr (i + 1))"
  using assms by (simp only: scan_up.simps) (subst aget_ring, simp_all)

lemma scan_down_finds:
  assumes "int (length data) = sz" "0 < sz" "0 \<le> s" "s < j" "GET_ADDR (ring_at data sz s) \<le> pivot"
    "nat (j - s) \<le> n"
  shows "\<exists>j'. scan_down n data sz pivot j = Inr j' \<and> s \<le> j' \<and> j' < j \<and>
    GET_ADDR (ring_at data sz j') \<le> pivot \<and>
    (\<forall>k. j' < k \<and> k < j \<longrightarrow> pivot < GET_ADDR (ring_at data sz k))"
  using assms(4-6)
proof (induction n arbitrary: j)
  case 0
  then show ?case by simp
next
  case (Suc n)
  show ?case
  proof (cases "GET_ADDR (ring_at data sz (j - 1)) > pivot")
    case True
    then have "s < j - 1" using Suc.prems by (cases "s = j - 1") auto
    moreover have "nat (j - 1 - s) \<le> n" using Suc.prems(3) by linarith
    ultimately obtain j' where
      "scan_down n data sz pivot (j - 1) = Inr j'" "s \<le> j'" "j' < j - 1"
      "GET_ADDR (ring_at data sz j') \<le> pivot"
      "\<forall>k. j' < k \<and> k < j - 1 \<longrightarrow> pivot < GET_ADDR (ring_at data sz k)"
      using Suc.IH[OF _ Suc.prems(2)] by blast
    moreover have "k = j - 1 \<or> k < j - 1" if "k < j" for k using that by linarith
    moreover have "scan_down (Suc n) data sz pivot j = scan_down n data sz pivot (j - 1)"
      using True assms(1-3) Suc.prems(1) by (simp only: scan_down_step) simp
    ultimately show ?thesis using True by (intro exI[of _ j']) fastforce
  next
    case False
    moreover have "scan_down (Suc n) data sz pivot j = Inr (j - 1)"
      using False assms(1-3) Suc.prems(1) by (simp only: scan_down_step) simp
    ultimately show ?thesis using Suc.prems by (intro exI[of _ "j - 1"]) auto
  qed
qed

lemma scan_up_finds:
  assumes "int (length data) = sz" "0 < sz" "-1 \<le> i" "i < s" "pivot \<le> GET_ADDR (ring_at data sz s)"
    "nat (s - i) \<le> n"
  shows "\<exists>i'. scan_up n data sz pivot i = Inr i' \<and> i < i' \<and> i' \<le> s \<and>
    pivot \<le> GET_ADDR (ring_at data sz i') \<and>
    (\<forall>k. i < k \<and> k < i' \<longrightarrow> GET_ADDR (ring_at data sz k) < pivot)"
  using assms(3-6)
proof (induction n arbitrary: i)
  case 0
  then show ?case by simp
next
  case (Suc n)
  show ?case
  proof (cases "GET_ADDR (ring_at data sz (i + 1)) < pivot")
    case True
    then have "i + 1 < s" using Suc.prems by (cases "s = i + 1") auto
    moreover have "nat (s - (i + 1)) \<le> n" "-1 \<le> i + 1" using Suc.prems(1,4) by linarith+
    ultimately obtain i' where
      "scan_up n data sz pivot (i + 1) = Inr i'" "i + 1 < i'" "i' \<le> s"
      "pivot \<le> GET_ADDR (ring_at data sz i')"
      "\<forall>k. i + 1 < k \<and> k < i' \<longrightarrow> GET_ADDR (ring_at data sz k) < pivot"
      using Suc.IH[OF _ _ Suc.prems(3)] by blast
    moreover have "k = i + 1 \<or> i + 1 < k" if "i < k" for k using that by linarith
    moreover have "scan_up (Suc n) data sz pivot i = scan_up n data sz pivot (i + 1)"
      using True assms(1,2) Suc.prems(1) by (simp only: scan_up_step) simp
    ultimately show ?thesis using True by (intro exI[of _ i']) fastforce
  next
    case False
    moreover have "scan_up (Suc n) data sz pivot i = Inr (i + 1)"
      using False assms(1,2) Suc.prems(1) by (simp only: scan_up_step) simp
    ultimately show ?thesis using Suc.prems by (intro exI[of _ "i + 1"]) auto
  qed
qed

lemma xor_exchange:
  fixes d :: "u64 list"
  assumes "a \<noteq> b" "a < length d" "b < length d"
  defines "d1 \<equiv> d[a := d ! a XOR d ! b]"
  defines "d2 \<equiv> d1[b := d1 ! b XOR d1 ! a]"
  shows "d2[a := d2 ! a XOR d2 ! b] = d[a := d ! b, b := d ! a]"
proof -
  have "d2 ! b = d ! a" "d2 ! a = d ! a XOR d ! b"
    using assms by (simp_all add: d2_def d1_def ac_simps)
  then show ?thesis
    using assms by (simp add: d2_def d1_def list_update_swap ac_simps)
qed

lemma xor_swap_ok:
  assumes "int (length data) = sz" "0 < sz" "0 \<le> i" "0 \<le> j" "i mod sz \<noteq> j mod sz"
  shows "xor_swap data sz i j =
    Inr (data[nat (i mod sz) := ring_at data sz j, nat (j mod sz) := ring_at data sz i])"
proof -
  have b: "nat (i mod sz) < length data" "nat (j mod sz) < length data"
    using assms(1,2) pos_mod_bound[of sz i] pos_mod_bound[of sz j] by linarith+
  have ne: "nat (i mod sz) \<noteq> nat (j mod sz)" using assms(2,5) by (simp add: eq_nat_nat_iff)
  have x: "xor_at d sz a c = Inr (d[nat (a mod sz) := ring_at d sz a XOR ring_at d sz c])"
    if "int (length d) = sz" "0 \<le> a" "0 \<le> c" for d a c
    using that assms(2) pos_mod_bound[of sz a] pos_mod_bound[of sz c] by (simp add: xor_at_def ring_at_def)
  show ?thesis
    using assms(1,3,4) xor_exchange[OF ne b] by (simp add: xor_swap_def x ring_at_def)
qed

text \<open>What the sort keeps: the array's length and elements, the slots outside the window, and which
  entries are inside the window.\<close>

definition permutes_window :: "u64 list \<Rightarrow> u64 list \<Rightarrow> int \<Rightarrow> int \<Rightarrow> int \<Rightarrow> bool" where
  "permutes_window data data' sz lo hi \<longleftrightarrow>
     length data' = length data \<and> mset data' = mset data \<and>
     (\<forall>k. lo \<le> k \<and> k \<le> hi \<longrightarrow> (\<exists>l. lo \<le> l \<and> l \<le> hi \<and> ring_at data' sz k = ring_at data sz l)) \<and>
     (\<forall>s. (\<forall>k. lo \<le> k \<and> k \<le> hi \<longrightarrow> k mod sz \<noteq> s mod sz) \<longrightarrow> ring_at data' sz s = ring_at data sz s)"

lemma permutes_window_refl: "permutes_window data data sz lo hi"
  by (auto simp: permutes_window_def)

lemma permutes_window_trans:
  "permutes_window d1 d2 sz lo hi \<Longrightarrow> permutes_window d2 d3 sz lo hi \<Longrightarrow> permutes_window d1 d3 sz lo hi"
  unfolding permutes_window_def by (metis (no_types, lifting))

lemma permutes_window_swap:
  assumes "int (length data) = sz" "0 < sz" "lo \<le> i" "i \<le> hi" "lo \<le> j" "j \<le> hi" "i mod sz \<noteq> j mod sz"
  shows "permutes_window data
    (data[nat (i mod sz) := ring_at data sz j, nat (j mod sz) := ring_at data sz i]) sz lo hi"
proof -
  have b: "nat (i mod sz) < length data" "nat (j mod sz) < length data"
    using assms(1,2) pos_mod_bound[of sz i] pos_mod_bound[of sz j] by linarith+
  have r: "ring_at (data[nat (i mod sz) := ring_at data sz j, nat (j mod sz) := ring_at data sz i]) sz k =
    (if k mod sz = j mod sz then ring_at data sz i
     else if k mod sz = i mod sz then ring_at data sz j else ring_at data sz k)" for k
    using assms(1,2) by (simp add: ring_at_upd)
  show ?thesis
    unfolding permutes_window_def r using assms(3-6) b
    by (auto simp: ring_at_def mset_swap)
qed

lemma permutes_window_mono:
  assumes "permutes_window d1 d2 sz lo' hi'" "lo \<le> lo'" "hi' \<le> hi" "hi - lo < sz" "0 < sz"
  shows "permutes_window d1 d2 sz lo hi"
proof -
  have "\<exists>l. lo \<le> l \<and> l \<le> hi \<and> ring_at d2 sz k = ring_at d1 sz l" if k: "lo \<le> k" "k \<le> hi" for k
  proof (cases "lo' \<le> k \<and> k \<le> hi'")
    case True
    then show ?thesis using assms(1-3) by (auto simp: permutes_window_def) (metis order_trans)
  next
    case False
    have "m mod sz \<noteq> k mod sz" if "lo' \<le> m" "m \<le> hi'" for m
      using window_mod_inj[of sz m k] that False k assms(2-5) by auto
    then have "ring_at d2 sz k = ring_at d1 sz k" using assms(1) by (auto simp: permutes_window_def)
    then show ?thesis using k by blast
  qed
  moreover have "ring_at d2 sz s = ring_at d1 sz s" if "\<forall>k. lo \<le> k \<and> k \<le> hi \<longrightarrow> k mod sz \<noteq> s mod sz" for s
    using assms(1-3) that by (auto simp: permutes_window_def)
  ultimately show ?thesis using assms(1) by (simp add: permutes_window_def)
qed

text \<open>The invariant of the partition's outer loop: what lies left of \<open>i\<close> is at most the pivot, what lies
  right of \<open>j\<close> at least the pivot, and both scans meet a sentinel inside the window.\<close>

definition part_inv :: "u64 list \<Rightarrow> int \<Rightarrow> int \<Rightarrow> int \<Rightarrow> u64 \<Rightarrow> int \<Rightarrow> int \<Rightarrow> bool" where
  "part_inv data sz lo hi pivot i j \<longleftrightarrow>
     (\<forall>k. lo \<le> k \<and> k \<le> i \<longrightarrow> GET_ADDR (ring_at data sz k) \<le> pivot) \<and>
     (\<forall>k. j \<le> k \<and> k \<le> hi \<longrightarrow> pivot \<le> GET_ADDR (ring_at data sz k)) \<and>
     ((i = lo - 1 \<and> j = hi + 1 \<and> (\<exists>m. lo \<le> m \<and> m < hi \<and> GET_ADDR (ring_at data sz m) = pivot)) \<or>
      (lo \<le> i \<and> i < j \<and> j \<le> hi))"

lemma part_invE:
  assumes "part_inv data sz lo hi pivot i j"
  obtains (first) m where "i = lo - 1" "j = hi + 1" "lo \<le> m" "m < hi"
      "GET_ADDR (ring_at data sz m) = pivot"
    | (later) "lo \<le> i" "i < j" "j \<le> hi" "GET_ADDR (ring_at data sz i) \<le> pivot"
      "pivot \<le> GET_ADDR (ring_at data sz j)"
  using assms unfolding part_inv_def by force

lemma part_inv_sentinels:
  assumes "part_inv data sz lo hi pivot i j"
  shows "\<exists>s. lo \<le> s \<and> s < j \<and> i \<le> s \<and> s < hi \<and> GET_ADDR (ring_at data sz s) \<le> pivot"
    and "\<exists>s. i < s \<and> s \<le> hi \<and> s \<le> j \<and> pivot \<le> GET_ADDR (ring_at data sz s) \<and> (j = hi + 1 \<longrightarrow> s < hi)"
proof -
  show "\<exists>s. lo \<le> s \<and> s < j \<and> i \<le> s \<and> s < hi \<and> GET_ADDR (ring_at data sz s) \<le> pivot"
    using assms
  proof (cases rule: part_invE)
    case (first m) then show ?thesis by (intro exI[of _ m]) auto
  next
    case later then show ?thesis by (intro exI[of _ i]) auto
  qed
  show "\<exists>s. i < s \<and> s \<le> hi \<and> s \<le> j \<and> pivot \<le> GET_ADDR (ring_at data sz s) \<and> (j = hi + 1 \<longrightarrow> s < hi)"
    using assms
  proof (cases rule: part_invE)
    case (first m) then show ?thesis by (intro exI[of _ m]) auto
  next
    case later then show ?thesis by (intro exI[of _ j]) auto
  qed
qed

lemma partition_loop_correct:
  assumes "int (length data) = sz" "0 \<le> lo" "lo < hi" "hi - lo < sz" "part_inv data sz lo hi pivot i j"
  shows "\<exists>p data'. partition_loop data sz pivot i j = Inr (p, data') \<and> lo \<le> p \<and> p < hi \<and>
    permutes_window data data' sz lo hi \<and>
    (\<forall>k. lo \<le> k \<and> k \<le> p \<longrightarrow> GET_ADDR (ring_at data' sz k) \<le> pivot) \<and>
    (\<forall>k. p < k \<and> k \<le> hi \<longrightarrow> pivot \<le> GET_ADDR (ring_at data' sz k))"
  using assms
proof (induction data sz pivot i j rule: partition_loop.induct)
  case (1 data sz pivot i j)
  have sz: "0 < sz" using "1.prems" by simp
  note inv = "1.prems"(5)
  obtain s where s: "lo \<le> s" "s < j" "i \<le> s" "s < hi" "GET_ADDR (ring_at data sz s) \<le> pivot"
    using part_inv_sentinels(1)[OF inv] by blast
  obtain t where t: "i < t" "t \<le> hi" "t \<le> j" "pivot \<le> GET_ADDR (ring_at data sz t)" "j = hi + 1 \<longrightarrow> t < hi"
    using part_inv_sentinels(2)[OF inv] by blast
  have ij: "lo - 1 \<le> i" "j \<le> hi + 1" using inv by (auto simp: part_inv_def)
  have fuel: "nat (j - s) \<le> length data + 1" "nat (t - i) \<le> length data + 1"
    using s t ij "1.prems"(1,4) by linarith+
  obtain j' where j': "scan_down (length data + 1) data sz pivot j = Inr j'" "s \<le> j'" "j' < j"
      "GET_ADDR (ring_at data sz j') \<le> pivot"
      "\<forall>k. j' < k \<and> k < j \<longrightarrow> pivot < GET_ADDR (ring_at data sz k)"
    using scan_down_finds[OF "1.prems"(1) sz _ s(2,5) fuel(1)] s(1) "1.prems"(2) by auto
  obtain i' where i': "scan_up (length data + 1) data sz pivot i = Inr i'" "i < i'" "i' \<le> t"
      "pivot \<le> GET_ADDR (ring_at data sz i')"
      "\<forall>k. i < k \<and> k < i' \<longrightarrow> GET_ADDR (ring_at data sz k) < pivot"
    using scan_up_finds[OF "1.prems"(1) sz _ t(1,4) fuel(2)] ij(1) "1.prems"(2) by auto
  have left: "\<forall>k. lo \<le> k \<and> k < i' \<longrightarrow> GET_ADDR (ring_at data sz k) \<le> pivot"
    using inv i'(5) unfolding part_inv_def by (meson less_imp_le not_le)
  have right: "\<forall>k. j' < k \<and> k \<le> hi \<longrightarrow> pivot \<le> GET_ADDR (ring_at data sz k)"
    using inv j'(5) unfolding part_inv_def by (meson less_imp_le not_le)
  show ?case
  proof (cases "i' \<ge> j'")
    case True
    then have "partition_loop data sz pivot i j = Inr (j', data)" using i'(1) j'(1) by (simp add: partition_loop.simps[of data])
    moreover have "j' < hi" using True i' j' t ij by (cases "j = hi + 1") auto
    moreover have "\<forall>k. lo \<le> k \<and> k \<le> j' \<longrightarrow> GET_ADDR (ring_at data sz k) \<le> pivot"
      using left True j'(4) by (auto simp: le_less)
    ultimately show ?thesis using right s j'
      by (intro exI[of _ j'] exI[of _ data]) (auto simp: permutes_window_refl)
  next
    case False
    have w: "lo \<le> i'" "i' \<le> hi" "lo \<le> j'" "j' \<le> hi" using i' j' s t ij False by auto
    have ne: "i' mod sz \<noteq> j' mod sz" using window_mod_inj[OF sz, of i' j'] w False "1.prems"(4) by auto
    let ?d = "data[nat (i' mod sz) := ring_at data sz j', nat (j' mod sz) := ring_at data sz i']"
    have sw: "xor_swap data sz i' j' = Inr ?d"
      using xor_swap_ok[OF "1.prems"(1) sz _ _ ne] w "1.prems"(2) by simp
    have at: "ring_at ?d sz k = (if k = j' then ring_at data sz i' else if k = i' then ring_at data sz j'
        else ring_at data sz k)" if "lo \<le> k" "k \<le> hi" for k
      using window_mod_inj[OF sz, of k j'] window_mod_inj[OF sz, of k i'] that w "1.prems"(1,4) sz ne
      by (auto simp: ring_at_upd)
    have "part_inv ?d sz lo hi pivot i' j'"
      unfolding part_inv_def using at left right w False i'(4) j'(4)
      by (auto simp: le_less)
    with "1.IH"[OF j'(1) i'(1) False sw] "1.prems" obtain p data' where
      P: "partition_loop ?d sz pivot i' j' = Inr (p, data')" "lo \<le> p" "p < hi"
        "permutes_window ?d data' sz lo hi"
        "\<forall>k. lo \<le> k \<and> k \<le> p \<longrightarrow> GET_ADDR (ring_at data' sz k) \<le> pivot"
        "\<forall>k. p < k \<and> k \<le> hi \<longrightarrow> pivot \<le> GET_ADDR (ring_at data' sz k)" by auto
    have "partition_loop data sz pivot i j = Inr (p, data')" using P(1) i'(1) j'(1) False sw
      by (simp add: partition_loop.simps[of data])
    moreover have "permutes_window data data' sz lo hi"
      using permutes_window_trans[OF permutes_window_swap[OF "1.prems"(1) sz w ne] P(4)] .
    ultimately show ?thesis using P by blast
  qed
qed

lemma partition_pgs_correct:
  assumes "int (length data) = sz" "0 \<le> lo" "lo < hi" "hi - lo < sz"
  shows "\<exists>p data' pivot. partition_pgs data lo hi sz = Inr (p, data') \<and> lo \<le> p \<and> p < hi \<and>
    permutes_window data data' sz lo hi \<and>
    (\<forall>k. lo \<le> k \<and> k \<le> p \<longrightarrow> GET_ADDR (ring_at data' sz k) \<le> pivot) \<and>
    (\<forall>k. p < k \<and> k \<le> hi \<longrightarrow> pivot \<le> GET_ADDR (ring_at data' sz k))"
proof -
  define m where "m = (lo + hi) div 2"
  have sd: "(lo + hi) sdiv 2 = m" using assms by (simp add: m_def signed_divide_int_def sgn_if)
  have m: "lo \<le> m" "m < hi" using assms by (auto simp: m_def)
  have sz: "0 < sz" using assms by simp
  have inv: "part_inv data sz lo hi (GET_ADDR (ring_at data sz m)) (lo - 1) (hi + 1)"
    unfolding part_inv_def using m by auto
  have eq: "partition_pgs data lo hi sz =
      partition_loop data sz (GET_ADDR (ring_at data sz m)) (lo - 1) (hi + 1)"
    unfolding partition_pgs_def Let_def sd using m assms(2) by (intro aget_ring[OF assms(1) sz]) simp
  show ?thesis using partition_loop_correct[OF assms inv] unfolding eq by blast
qed

lemma permutes_window_outside:
  assumes "permutes_window d d' sz lo hi" "L \<le> lo" "hi \<le> H" "H - L < sz" "0 < sz" "L \<le> k" "k \<le> H"
    "k < lo \<or> hi < k"
  shows "ring_at d' sz k = ring_at d sz k"
proof -
  have "l mod sz \<noteq> k mod sz" if "lo \<le> l" "l \<le> hi" for l
    using window_mod_inj[OF assms(5), of l k] that assms by auto
  then show ?thesis using assms(1) by (auto simp: permutes_window_def)
qed

definition sorted_window :: "u64 list \<Rightarrow> int \<Rightarrow> int \<Rightarrow> int \<Rightarrow> bool" where
  "sorted_window data sz lo hi \<longleftrightarrow>
     (\<forall>k l. lo \<le> k \<and> k \<le> l \<and> l \<le> hi \<longrightarrow> GET_ADDR (ring_at data sz k) \<le> GET_ADDR (ring_at data sz l))"

lemma sorted_window_short: "hi \<le> lo \<Longrightarrow> sorted_window data sz lo hi"
  unfolding sorted_window_def by (metis order.trans order_antisym order_refl)

text \<open>Sorting the two parts of a partitioned window, in either order, sorts the window.\<close>

lemma sorted_parts:
  assumes part: "\<forall>k. lo \<le> k \<and> k \<le> p \<longrightarrow> GET_ADDR (ring_at d sz k) \<le> pivot"
      "\<forall>k. p < k \<and> k \<le> hi \<longrightarrow> pivot \<le> GET_ADDR (ring_at d sz k)"
    and p: "lo \<le> p" "p < hi" and w: "hi - lo < sz" "0 < sz"
    and s1: "permutes_window d d1 sz a b" "sorted_window d1 sz a b"
    and s2: "permutes_window d1 d2 sz a' b'" "sorted_window d2 sz a' b'"
    and ab: "(a = lo \<and> b = p \<and> a' = p + 1 \<and> b' = hi) \<or> (a' = lo \<and> b' = p \<and> a = p + 1 \<and> b = hi)"
  shows "permutes_window d d2 sz lo hi" "sorted_window d2 sz lo hi"
proof -
  show "permutes_window d d2 sz lo hi"
    using permutes_window_trans[OF permutes_window_mono[OF s1(1)] permutes_window_mono[OF s2(1)]] ab p w
    by auto
  have same1: "ring_at d1 sz k = ring_at d sz k" if "lo \<le> k" "k \<le> hi" "k < a \<or> b < k" for k
    using permutes_window_outside[OF s1(1), of lo hi k] that ab p w by auto
  have same2: "ring_at d2 sz k = ring_at d1 sz k" if "lo \<le> k" "k \<le> hi" "k < a' \<or> b' < k" for k
    using permutes_window_outside[OF s2(1), of lo hi k] that ab p w by auto
  have in1: "\<exists>l. a \<le> l \<and> l \<le> b \<and> ring_at d2 sz k = ring_at d sz l" if "a \<le> k" "k \<le> b" for k
    using s1(1) that same2[of k] ab p by (auto simp: permutes_window_def)
  have in2: "\<exists>l. a' \<le> l \<and> l \<le> b' \<and> ring_at d2 sz k = ring_at d sz l" if k: "a' \<le> k" "k \<le> b'" for k
  proof -
    obtain l where "a' \<le> l" "l \<le> b'" "ring_at d2 sz k = ring_at d1 sz l"
      using s2(1) k by (auto simp: permutes_window_def)
    then show ?thesis using same1[of l] ab p by auto
  qed
  have lo_part: "GET_ADDR (ring_at d2 sz k) \<le> pivot" if "lo \<le> k" "k \<le> p" for k
    using in1[of k] in2[of k] that part(1) ab by auto
  have hi_part: "pivot \<le> GET_ADDR (ring_at d2 sz k)" if "p < k" "k \<le> hi" for k
    using in1[of k] in2[of k] that part(2) ab by auto
  have so: "GET_ADDR (ring_at d2 sz k) \<le> GET_ADDR (ring_at d2 sz l)"
    if "lo \<le> k" "k \<le> l" "l \<le> hi" "l \<le> p \<or> p < k" for k l
    using s1(2) s2(2) same2[of k] same2[of l] that ab p unfolding sorted_window_def by auto
  show "sorted_window d2 sz lo hi"
    unfolding sorted_window_def using so lo_part hi_part by (meson order_trans not_le)
qed

lemma quicksort_n_correct:
  assumes "int (length data) = sz" "0 \<le> lo" "hi - lo < sz" "nat (hi - lo) \<le> n" "0 < sz"
  shows "\<exists>d. quicksort_n n data lo hi sz = Inr d \<and> permutes_window data d sz lo hi \<and>
    sorted_window d sz lo hi"
  using assms
proof (induction n arbitrary: data lo hi)
  case 0
  then show ?case by (auto simp: permutes_window_refl sorted_window_short)
next
  case (Suc n)
  show ?case
  proof (cases "hi > lo")
    case False
    then show ?thesis by (auto simp: permutes_window_refl sorted_window_short)
  next
    case True
    from partition_pgs_correct[OF Suc.prems(1,2) True Suc.prems(3)] obtain p d pivot where
      P: "partition_pgs data lo hi sz = Inr (p, d)" "lo \<le> p" "p < hi" "permutes_window data d sz lo hi"
        "\<forall>k. lo \<le> k \<and> k \<le> p \<longrightarrow> GET_ADDR (ring_at d sz k) \<le> pivot"
        "\<forall>k. p < k \<and> k \<le> hi \<longrightarrow> pivot \<le> GET_ADDR (ring_at d sz k)" by blast
    have len: "int (length e') = sz" if "permutes_window e e' sz a b" "int (length e) = sz" for e e' a b
      using that by (simp add: permutes_window_def)
    have sort: "\<exists>e'. quicksort_n n e a b sz = Inr e' \<and> permutes_window e e' sz a b \<and> sorted_window e' sz a b"
      if "int (length e) = sz" "(a = lo \<and> b = p) \<or> (a = p + 1 \<and> b = hi)" for e a b
      using Suc.IH[OF that(1), of a b] that(2) Suc.prems P(2,3) by auto
    have d: "int (length d) = sz" using len[OF P(4) Suc.prems(1)] .
    have two: "\<exists>d2. bindE (quicksort_n n d a b sz) (\<lambda>d. quicksort_n n d a' b' sz) = Inr d2 \<and>
        permutes_window d d2 sz lo hi \<and> sorted_window d2 sz lo hi"
      if ab: "(a = lo \<and> b = p \<and> a' = p + 1 \<and> b' = hi) \<or> (a' = lo \<and> b' = p \<and> a = p + 1 \<and> b = hi)"
      for a b a' b'
    proof -
      obtain d1 where d1: "quicksort_n n d a b sz = Inr d1" "permutes_window d d1 sz a b"
          "sorted_window d1 sz a b" using sort[OF d, of a b] ab by blast
      obtain d2 where d2: "quicksort_n n d1 a' b' sz = Inr d2" "permutes_window d1 d2 sz a' b'"
          "sorted_window d2 sz a' b'" using sort[OF len[OF d1(2) d], of a' b'] ab by blast
      show ?thesis
        using sorted_parts[OF P(5,6,2,3) Suc.prems(3,5) d1(2,3) d2(2,3) ab] d1(1) d2(1) by auto
    qed
    have "\<exists>d2. quicksort_n (Suc n) data lo hi sz = Inr d2 \<and>
        permutes_window d d2 sz lo hi \<and> sorted_window d2 sz lo hi"
      using True P(1) two[of lo p "p + 1" hi] two[of "p + 1" hi lo p]
      by (cases "p - lo > hi - p") (simp_all only: quicksort_n.simps bindE_Inr if_True if_False prod.case simp_thms)
    then show ?thesis using permutes_window_trans[OF P(4)] by blast
  qed
qed

lemma GET_PG_CNT_unat: "1 \<le> unat (GET_PG_CNT e)" "unat (GET_PG_CNT e) \<le> 2 ^ 20"
  using GET_PG_CNT_bounds[of e] by (simp_all add: unat_iff_uint)

section \<open>The free pages\<close>

definition entry_pages :: "u64 \<Rightarrow> nat list" where
  "entry_pages e = [unat (GET_ADDR e) div 4096 ..< unat (GET_ADDR e) div 4096 + unat (GET_PG_CNT e)]"

definition free_pages :: "pagealloc \<Rightarrow> nat multiset" where
  "free_pages st = mset (concat (map entry_pages (qlist (btm_level st))))"

definition entry_ok :: "u64 \<Rightarrow> bool" where
  "entry_ok e \<longleftrightarrow> unat (GET_ADDR e) + unat (GET_PG_CNT e) * 4096 \<le> 2 ^ 56"

lemma insert_queue_room:
  assumes "qinv (btm_level st)" "length (qlist (btm_level st)) < qcap (btm_level st)"
  shows "\<exists>q'. insert_queue st v = Inr (st\<lparr>btm_level := q'\<rparr>) \<and> qinv q' \<and>
    qlist q' = qlist (btm_level st) @ [v] \<and> qcap q' = qcap (btm_level st)"
  using ring.enq_room[OF assms, of v] by (auto simp: insert_queue_def on_btm_def)

lemma insert_queue_front_room:
  assumes "qinv (btm_level st)" "length (qlist (btm_level st)) < qcap (btm_level st)"
  shows "\<exists>q'. insert_queue_front st v = Inr (st\<lparr>btm_level := q'\<rparr>) \<and> qinv q' \<and>
    qlist q' = v # qlist (btm_level st) \<and> qcap q' = qcap (btm_level st)"
  using ring.enq_front_room[OF assms, of v] by (auto simp: insert_queue_front_def on_btm_def)

text \<open>One pass finds the first entry that is large enough; the entries before it move to the end.\<close>

definition rest_of :: "u64 \<Rightarrow> int \<Rightarrow> u64 list" where
  "rest_of e n = (if uint (GET_PG_CNT e) > n
     then [BUILD_ENTRY (GET_ADDR e + of_int n * BTM_LEVEL) (uint (GET_PG_CNT e) - n)] else [])"

lemma to_i32_cnt: "to_i32 (uint (GET_PG_CNT e)) = uint (GET_PG_CNT e)"
  using GET_PG_CNT_bounds[of e] by (simp add: to_i32_id)

lemma alloc_pass_first_fit:
  assumes "qinv (btm_level st)" "qlist (btm_level st) = pre @ e # post"
    "\<forall>x \<in> set pre. uint (GET_PG_CNT x) < n" "n \<le> uint (GET_PG_CNT e)" "0 \<le> n" "length pre < m"
  shows "\<exists>st'. alloc_pass m st 0 sz n = Inr (Some (GET_ADDR e), st') \<and> qinv (btm_level st') \<and>
    qcap (btm_level st') = qcap (btm_level st) \<and>
    qlist (btm_level st') = rest_of e n @ post @ pre \<and> free_mem st' = free_mem st - sz"
  using assms
proof (induction pre arbitrary: st post m)
  case Nil
  obtain m' where m: "m = Suc m'" using Nil.prems(6) by (cases m) auto
  let ?y = "BUILD_ENTRY (GET_ADDR e + of_int n * BTM_LEVEL) (uint (GET_PG_CNT e) - n)"
  obtain q1 q2 where Q: "queue_trydequeue (Some (btm_level st)) = Inr (Some e, Some q1)" "qinv q1"
      "qlist q1 = post" "qcap q1 = qcap (btm_level st)"
      "queue_tryenqueue_front (Some q1) ?y = Inr (True, Some q2)" "qinv q2" "qlist q2 = ?y # post"
      "qcap q2 = qcap (btm_level st)"
    using ring.replace_front_step[OF Nil.prems(1), of e post ?y] Nil.prems(2) by auto
  have n: "to_i32 (uint (GET_PG_CNT e) - n) = uint (GET_PG_CNT e) - n"
    using GET_PG_CNT_bounds[of e] Nil.prems(4,5) by (intro to_i32_id) auto
  show ?case
    using Q Nil.prems(4)
    by (auto simp: m n to_i32_cnt rest_of_def on_btm_def insert_queue_front_def Let_def)
next
  case (Cons x pre)
  obtain m' where m: "m = Suc m'" "length pre < m'" using Cons.prems(6) by (cases m) auto
  obtain q1 q2 where Q: "queue_trydequeue (Some (btm_level st)) = Inr (Some x, Some q1)"
      "queue_tryenqueue (Some q1) x = Inr (True, Some q2)" "qinv q2"
      "qlist q2 = pre @ e # (post @ [x])" "qcap q2 = qcap (btm_level st)"
    using ring.rotate_step[OF Cons.prems(1), of x "pre @ e # post"] Cons.prems(2) by auto
  let ?st = "st\<lparr>btm_level := q2\<rparr>"
  have "\<exists>st'. alloc_pass m' ?st 0 sz n = Inr (Some (GET_ADDR e), st') \<and> qinv (btm_level st') \<and>
    qcap (btm_level st') = qcap (btm_level ?st) \<and>
    qlist (btm_level st') = rest_of e n @ (post @ [x]) @ pre \<and> free_mem st' = free_mem ?st - sz"
    using Cons.prems m Q by (intro Cons.IH) auto
  moreover have "alloc_pass m st 0 sz n = alloc_pass m' ?st 0 sz n"
    using Q(1,2) Cons.prems(3) by (simp add: m to_i32_cnt on_btm_def insert_queue_def Let_def)
  ultimately show ?case using Q(5) by auto
qed

lemma roundUp_pages:
  assumes "0 < n" "n \<le> 2 ^ 20" "unat sz \<le> n * 4096" "(n - 1) * 4096 < unat sz"
  shows "roundUp_po2 sz BTM_LEVEL = of_nat (n * 4096)" "uint (roundUp_po2 sz BTM_LEVEL div BTM_LEVEL) = int n"
proof -
  have "roundUp_po2 sz BTM_LEVEL = (sz + mask 12) AND NOT (mask 12)"
    unfolding roundUp_po2_def BTM_mask ..
  also have "\<dots> = push_bit 12 (drop_bit 12 (sz + mask 12))"
    by (rule bit_eqI) (auto simp: bit_simps dest: bit_imp_le_length)
  finally have r: "roundUp_po2 sz BTM_LEVEL = push_bit 12 (drop_bit 12 (sz + mask 12))" .
  have s: "unat (sz + mask 12) = unat sz + 4095"
    using assms by (simp add: mask_eq_exp_minus_1 unat_word_ariths)
  have "unat (drop_bit 12 (sz + mask 12)) = (unat sz + 4095) div 4096"
    by (simp add: drop_bit_eq_div unat_div s)
  also have "\<dots> = n" using assms by (auto intro!: div_nat_eqI)
  finally have d: "drop_bit 12 (sz + mask 12) = of_nat n" by (metis of_nat_unat unat_of_nat word_nat_cases ucast_id)
  show a: "roundUp_po2 sz BTM_LEVEL = of_nat (n * 4096)"
    unfolding r d by (simp add: push_bit_eq_mult)
  show "uint (roundUp_po2 sz BTM_LEVEL div BTM_LEVEL) = int n"
    unfolding a uint_nat unat_div using assms(1,2) by (subst unat_of_nat_64) simp_all
qed

lemma mod_BTM_unat: "(a :: u64) mod BTM_LEVEL = 0 \<longleftrightarrow> unat a mod 4096 = 0"
  using unat_mod[of a BTM_LEVEL] by (simp flip: unat_eq_0)

lemma aligned_add:
  assumes "(a :: u64) mod BTM_LEVEL = 0"
  shows "(a + of_nat k * BTM_LEVEL) mod BTM_LEVEL = 0"
proof -
  have "unat (a + of_nat k * BTM_LEVEL) mod 4096 = (unat a + k * 4096) mod 2 ^ 64 mod 4096"
    by (simp add: unat_word_ariths unat_of_nat mod_simps)
  also have "\<dots> = (unat a + k * 4096) mod 4096" by (rule mod_mod_cancel) simp
  finally show ?thesis using assms unfolding mod_BTM_unat by simp
qed

lemma built_pages:
  assumes "a mod BTM_LEVEL = 0" "unat a < 2 ^ 56" "1 \<le> k" "k \<le> 2 ^ 20"
  shows "entry_pages (BUILD_ENTRY a (int k)) = [unat a div 4096 ..< unat a div 4096 + k]"
proof -
  have "a < 2 ^ 56" using assms(2) by (simp add: word_less_nat_alt)
  moreover have "unat (GET_PG_CNT (BUILD_ENTRY a (int k))) = k"
    using GET_PG_CNT_BUILD_ENTRY(2)[of "int k" a] assms(3,4) by (simp add: unat_iff_uint)
  ultimately show ?thesis using assms(1) by (simp add: entry_pages_def GET_ADDR_BUILD_ENTRY)
qed

lemma built_ok:
  assumes "a mod BTM_LEVEL = 0" "1 \<le> k" "k \<le> 2 ^ 20" "unat a + k * 4096 \<le> 2 ^ 56"
  shows "entry_ok (BUILD_ENTRY a (int k))"
proof -
  have "a < 2 ^ 56" using assms(2,4) by (simp add: word_less_nat_alt)
  moreover have "unat (GET_PG_CNT (BUILD_ENTRY a (int k))) = k"
    using GET_PG_CNT_BUILD_ENTRY(2)[of "int k" a] assms(2,3) by (simp add: unat_iff_uint)
  ultimately show ?thesis using assms(1,4) by (simp add: entry_ok_def GET_ADDR_BUILD_ENTRY)
qed

lemma entry_pages_split:
  assumes "entry_ok e" "0 < n" "n \<le> unat (GET_PG_CNT e)"
  shows "entry_pages e = [unat (GET_ADDR e) div 4096 ..< unat (GET_ADDR e) div 4096 + n] @
    concat (map entry_pages (rest_of e (int n)))"
proof (cases "unat (GET_PG_CNT e) = n")
  case True
  moreover have "uint (GET_PG_CNT e) = int n" using True uint_nat[of "GET_PG_CNT e"] by linarith
  ultimately show ?thesis by (simp add: entry_pages_def rest_of_def)
next
  case False
  let ?a = "GET_ADDR e + of_nat n * BTM_LEVEL" and ?c = "unat (GET_PG_CNT e) - n"
  note c = GET_PG_CNT_unat(2)[of e]
  have al: "?a mod BTM_LEVEL = 0" by (rule aligned_add) (rule GET_ADDR_aligned)
  have "unat (GET_ADDR e) + n * 4096 < 2 ^ 56" using assms False by (simp add: entry_ok_def)
  moreover have "unat (of_nat n * BTM_LEVEL :: u64) = n * 4096"
    using c assms(3) unat_of_nat_64[of "n * 4096"] by simp
  ultimately have u: "unat ?a = unat (GET_ADDR e) + n * 4096" by (subst unat_add_lem[THEN iffD1]) simp_all
  have "entry_pages (BUILD_ENTRY ?a (int ?c)) = [unat ?a div 4096 ..< unat ?a div 4096 + ?c]"
    using al c False assms(3) u \<open>unat (GET_ADDR e) + n * 4096 < 2 ^ 56\<close> by (intro built_pages) auto
  moreover have "rest_of e (int n) = [BUILD_ENTRY ?a (int ?c)]"
  proof -
    have "int n < uint (GET_PG_CNT e)" "int ?c = uint (GET_PG_CNT e) - int n"
      using False assms(3) uint_nat[of "GET_PG_CNT e"] by linarith+
    then show ?thesis by (simp only: rest_of_def if_True of_int_of_nat_eq)
  qed
  moreover have "unat ?a div 4096 = unat (GET_ADDR e) div 4096 + n" unfolding u by simp
  moreover have "entry_pages e = [unat (GET_ADDR e) div 4096 ..< unat (GET_ADDR e) div 4096 + n] @
      [unat (GET_ADDR e) div 4096 + n ..< unat (GET_ADDR e) div 4096 + n + ?c]"
    unfolding entry_pages_def using assms(3) by (rule upt_split)
  ultimately show ?thesis by (simp del: upt_add_eq_append)
qed

lemma alloc_first_fit:
  assumes inv: "qinv (btm_level st)" and L: "qlist (btm_level st) = pre @ e # post"
    and small: "\<forall>x \<in> set pre. unat (GET_PG_CNT x) < n" and fits: "n \<le> unat (GET_PG_CNT e)"
    and ok: "entry_ok e" and n: "0 < n" "unat sz \<le> n * 4096" "(n - 1) * 4096 < unat sz"
  shows "\<exists>st'. pagealloc_alloc st domain color flags sz = Inr (GET_ADDR e, st') \<and>
    qinv (btm_level st') \<and> qcap (btm_level st') = qcap (btm_level st) \<and>
    qlist (btm_level st') = rest_of e (int n) @ post @ pre \<and>
    free_pages st = free_pages st' +
      mset [unat (GET_ADDR e) div 4096 ..< unat (GET_ADDR e) div 4096 + n] \<and>
    free_mem st' = free_mem st - of_nat (n * 4096)"
proof -
  have c: "n \<le> 2 ^ 20" using GET_PG_CNT_unat(2)[of e] fits by linarith
  note r = roundUp_pages[OF n(1) c n(2,3)]
  have pc: "to_i32 (uint (of_nat (n * 4096) div BTM_LEVEL :: u64)) = int n"
    unfolding r(1)[symmetric] r(2) using c by (intro to_i32_id) auto
  have len: "length pre < nat (queue_entcnt (Some (btm_level st)))"
    using length_qlist[of "btm_level st"] L by (simp add: queue_entcnt_def)
  have sm: "\<forall>x \<in> set pre. uint (GET_PG_CNT x) < int n" "int n \<le> uint (GET_PG_CNT e)"
    using small fits by (simp_all add: unat_iff_uint)
  obtain st' where S: "alloc_pass (nat (queue_entcnt (Some (btm_level st)))) st 0 (of_nat (n * 4096)) (int n) =
      Inr (Some (GET_ADDR e), st')" "qinv (btm_level st')" "qcap (btm_level st') = qcap (btm_level st)"
      "qlist (btm_level st') = rest_of e (int n) @ post @ pre" "free_mem st' = free_mem st - of_nat (n * 4096)"
    using alloc_pass_first_fit[OF inv L sm _ len, of "of_nat (n * 4096)"] by (simp only: of_nat_0_le_iff) blast
  have "pagealloc_alloc st domain color flags sz = Inr (GET_ADDR e, st')"
    by (simp only: pagealloc_alloc_def Let_def pc r(1) numeral_2_eq_2 alloc_passes.simps S(1)
        bindE_Inr prod.case option.case)
  moreover have "free_pages st = free_pages st' +
      mset [unat (GET_ADDR e) div 4096 ..< unat (GET_ADDR e) div 4096 + n]"
    using entry_pages_split[OF ok n(1) fits] by (simp add: free_pages_def L S(4))
  ultimately show ?thesis using S by auto
qed

lemma free_pages_insert:
  "qlist q' = qlist (btm_level st) @ [v] \<Longrightarrow>
   free_pages (st\<lparr>btm_level := q'\<rparr>) = free_pages st + mset (entry_pages v)"
  by (simp add: free_pages_def)

lemma free_loop_pages:
  assumes "qinv (btm_level st)" "a mod BTM_LEVEL = 0" "unat a + (cnt - p) * 4096 \<le> 2 ^ 56"
    "length (qlist (btm_level st)) + (cnt - p + (2 ^ 20 - 1)) div 2 ^ 20 \<le> qcap (btm_level st)"
  shows "\<exists>st'. free_loop st a p cnt = Inr st' \<and> qinv (btm_level st') \<and> free_mem st' = free_mem st \<and>
    free_pages st' = free_pages st + mset [unat a div 4096 ..< unat a div 4096 + (cnt - p)] \<and>
    qcap (btm_level st') = qcap (btm_level st) \<and>
    length (qlist (btm_level st')) = length (qlist (btm_level st)) + (cnt - p + (2 ^ 20 - 1)) div 2 ^ 20 \<and>
    ((\<forall>e \<in> set (qlist (btm_level st)). entry_ok e) \<longrightarrow> (\<forall>e \<in> set (qlist (btm_level st')). entry_ok e)) \<and> mem_size st' = mem_size st"
  using assms
proof (induction "cnt - p" arbitrary: st a p rule: less_induct)
  case less
  show ?case
  proof (cases "p < cnt")
    case False
    then show ?thesis using less.prems by (auto simp: free_loop.simps[of st])
  next
    case True
    define c where "c = (if cnt - p \<ge> 2 ^ 20 then 2 ^ 20 else cnt - p)"
    have c: "1 \<le> c" "c \<le> 2 ^ 20" "c \<le> cnt - p" using True by (auto simp: c_def)
    have rest: "cnt - (p + 2 ^ 20) = cnt - p - c" by (auto simp: c_def)
    have one: "(cnt - p + (2 ^ 20 - 1)) div 2 ^ 20 = 1 + (cnt - (p + 2 ^ 20) + (2 ^ 20 - 1)) div 2 ^ 20"
      using True by (auto simp: div_nat_eqI not_le split: nat_diff_split)
    then have room: "length (qlist (btm_level st)) < qcap (btm_level st)"
      and room': "length (qlist (btm_level st)) + 1 + (cnt - (p + 2 ^ 20) + (2 ^ 20 - 1)) div 2 ^ 20
        \<le> qcap (btm_level st)"
      using less.prems(4) by linarith+
    obtain q' where Q: "insert_queue st (BUILD_ENTRY a (int c)) = Inr (st\<lparr>btm_level := q'\<rparr>)" "qinv q'"
        "qlist q' = qlist (btm_level st) @ [BUILD_ENTRY a (int c)]" "qcap q' = qcap (btm_level st)"
      using insert_queue_room[OF less.prems(1) room] by blast
    have lt: "unat a + c * 4096 \<le> 2 ^ 56" using less.prems(3) c(3) by auto
    let ?a = "a + of_nat c * BTM_LEVEL" and ?st = "st\<lparr>btm_level := q'\<rparr>"
    have "unat (of_nat c * BTM_LEVEL :: u64) = c * 4096"
      using c(2) unat_of_nat_64[of "c * 4096"] by simp
    then have u: "unat ?a = unat a + c * 4096"
      using lt by (subst unat_add_lem[THEN iffD1]) simp_all
    have step: "free_loop st a p cnt = free_loop ?st ?a (p + 2 ^ 20) cnt"
      using True Q(1) by (simp add: free_loop.simps[of st] c_def Let_def split: if_splits)
    have pg: "entry_pages (BUILD_ENTRY a (int c)) = [unat a div 4096 ..< unat a div 4096 + c]"
      using less.prems(2) c lt by (intro built_pages) auto
    have "\<exists>st'. free_loop ?st ?a (p + 2 ^ 20) cnt = Inr st' \<and> qinv (btm_level st') \<and>
      free_mem st' = free_mem ?st \<and> free_pages st' = free_pages ?st +
        mset [unat ?a div 4096 ..< unat ?a div 4096 + (cnt - (p + 2 ^ 20))] \<and>
      qcap (btm_level st') = qcap (btm_level ?st) \<and>
      length (qlist (btm_level st')) = length (qlist (btm_level ?st)) + (cnt - (p + 2 ^ 20) + (2 ^ 20 - 1)) div 2 ^ 20 \<and>
      ((\<forall>e \<in> set (qlist (btm_level ?st)). entry_ok e) \<longrightarrow> (\<forall>e \<in> set (qlist (btm_level st')). entry_ok e)) \<and> mem_size st' = mem_size ?st"
    proof (rule less.hyps)
      show "unat ?a + (cnt - (p + 2 ^ 20)) * 4096 \<le> 2 ^ 56"
        unfolding u rest using less.prems(3) c(3) by (simp add: diff_mult_distrib)
    qed (use True Q room' aligned_add[OF less.prems(2)] in auto)
    moreover have "entry_ok (BUILD_ENTRY a (int c))" using less.prems(2) c lt by (intro built_ok) auto
    moreover have "[unat a div 4096 ..< unat a div 4096 + (cnt - p)] =
        [unat a div 4096 ..< unat a div 4096 + c] @
        [unat a div 4096 + c ..< unat a div 4096 + c + (cnt - p - c)]"
      using c(3) by (rule upt_split)
    ultimately show ?thesis
      unfolding step u one free_pages_insert[OF Q(3)] pg unfolding rest using Q(3,4) by (auto simp del: upt_add_eq_append)
  qed
qed

text \<open>The release of a whole region, with the number of entries it takes.\<close>

definition entries_for :: "nat \<Rightarrow> nat" where
  "entries_for n = (n + (2 ^ 20 - 1)) div 2 ^ 20"

lemma pagealloc_free_region:
  assumes "qinv (btm_level st)" "a mod BTM_LEVEL = 0" "sz mod BTM_LEVEL = 0" "unat a + unat sz \<le> 2 ^ 56"
    "length (qlist (btm_level st)) + entries_for (unat sz div 4096) \<le> qcap (btm_level st)"
  shows "\<exists>st'. pagealloc_free st a sz = Inr st' \<and> qinv (btm_level st') \<and> free_mem st' = free_mem st + sz \<and>
    free_pages st' = free_pages st + mset [unat a div 4096 ..< unat a div 4096 + unat sz div 4096] \<and>
    qcap (btm_level st') = qcap (btm_level st) \<and> length (qlist (btm_level st')) = length (qlist (btm_level st)) + entries_for (unat sz div 4096) \<and>
    ((\<forall>e \<in> set (qlist (btm_level st)). entry_ok e) \<longrightarrow> (\<forall>e \<in> set (qlist (btm_level st')). entry_ok e)) \<and> mem_size st' = mem_size st"
proof -
  let ?st = "st\<lparr>free_mem := free_mem st + sz\<rparr>"
  have "unat (sz div BTM_LEVEL) = unat sz div 4096" by (simp add: unat_div)
  moreover have "free_pages ?st = free_pages st" by (simp add: free_pages_def)
  ultimately show ?thesis
    using free_loop_pages[of ?st a "unat sz div 4096" 0] assms by (auto simp: pagealloc_free_def entries_for_def)
qed

section \<open>Properties\<close>

text \<open>
  Packing loses nothing: for a page-aligned address below \<open>2 ^ 56\<close> and a page count between 1
  and \<open>2 ^ 20\<close> the two accessors give back what \<open>BUILD_ENTRY\<close> was given, and every 64-bit entry
  is the packing of what the accessors read from it.
\<close>

theorem entry_roundtrip:
  assumes "a mod BTM_LEVEL = 0" "a < 2 ^ 56" "1 \<le> n" "n \<le> 2 ^ 20"
  shows "GET_ADDR (BUILD_ENTRY a n) = a \<and> uint (GET_PG_CNT (BUILD_ENTRY a n)) = n \<and>
    BUILD_ENTRY (GET_ADDR e) (uint (GET_PG_CNT e)) = e"
  using GET_ADDR_BUILD_ENTRY[OF assms(1,2)] GET_PG_CNT_BUILD_ENTRY(2)[OF assms(3,4)] BUILD_ENTRY_GET
  by blast

theorem entry_roundtrip_witness:
  "GET_ADDR (BUILD_ENTRY 0xABC000 (2 ^ 20)) = 0xABC000 \<and>
   uint (GET_PG_CNT (BUILD_ENTRY 0xABC000 (2 ^ 20))) = 2 ^ 20"
  using entry_roundtrip[of "0xABC000" "2 ^ 20" "0"] by simp




definition pagealloc_example :: pagealloc where
  "pagealloc_example =
     \<lparr>btm_level = \<lparr>queue = [BUILD_ENTRY 0x10000 4, 0, 0, 0, BUILD_ENTRY 0x1000 1], q_size = 5,
                   ent_cnt = 2, head = 4, tail = 1\<rparr>,
      mem_size = 0x20000, free_mem = 0x5000, data_multiple = 1, instr_multiple = 1, pagetable_multiple = 1\<rparr>"

lemma pagealloc_example_inv: "qinv (btm_level pagealloc_example)"
  by (simp add: pagealloc_example_def qinv_def)

lemma pagealloc_example_mem: "free_mem pagealloc_example = 0x5000"
  by (simp add: pagealloc_example_def)

lemma pagealloc_example_list:
  "qlist (btm_level pagealloc_example) = [BUILD_ENTRY 0x1000 1, BUILD_ENTRY 0x10000 4]"
  by (simp add: pagealloc_example_def qlist_def qidx_def upt_rec)

lemma pagealloc_example_entries:
  "unat (GET_PG_CNT (BUILD_ENTRY 0x1000 1)) = 1" "unat (GET_PG_CNT (BUILD_ENTRY 0x10000 4)) = 4"
  "GET_ADDR (BUILD_ENTRY 0x10000 4) = 0x10000"
  by code_simp+


text \<open>
  Releasing an aligned region below \<open>2 ^ 56\<close> while the ring has room for its entries never
  faults and adds exactly the pages of the region to the free pages; a misaligned address or size
  ends in a panic.
\<close>

theorem pagealloc_free_adds_pages:
  assumes "qinv (btm_level st)" "unat a + unat sz \<le> 2 ^ 56"
    "length (qlist (btm_level st)) + (unat sz div 4096 + (2 ^ 20 - 1)) div 2 ^ 20 \<le> qcap (btm_level st)"
  shows "if a mod BTM_LEVEL = 0 \<and> sz mod BTM_LEVEL = 0
    then \<exists>st'. pagealloc_free st a sz = Inr st' \<and> qinv (btm_level st') \<and>
           free_mem st' = free_mem st + sz \<and>
           free_pages st' = free_pages st +
             mset [unat a div 4096 ..< unat a div 4096 + unat sz div 4096]
    else \<exists>msg. pagealloc_free st a sz = Inl (Panic msg)"
proof (cases "a mod BTM_LEVEL = 0 \<and> sz mod BTM_LEVEL = 0")
  case True
  then show ?thesis using pagealloc_free_region[of st a sz] assms by (auto simp: entries_for_def)
next
  case False
  then show ?thesis by (auto simp: pagealloc_free_def)
qed

theorem pagealloc_free_adds_pages_witness:
  "\<exists>st'. pagealloc_free pagealloc_example 0x2000 0x3000 = Inr st' \<and>
     free_pages st' = free_pages pagealloc_example + {#2, 3, 4#}"
proof -
  have "qcap (btm_level pagealloc_example) = 4" by (simp add: pagealloc_example_def qcap_def)
  then show ?thesis
    using pagealloc_free_adds_pages[OF pagealloc_example_inv, of "0x2000" "0x3000"]
    by (auto simp: pagealloc_example_list upt_rec)
qed

definition compact_before :: queue_t where
  "compact_before =
     \<lparr>queue = [0x100000, 0x1000000, 0x1100000, 0x2000000, 0], q_size = 5, ent_cnt = 4, head = 0, tail = 4\<rparr>"

definition compact_after :: queue_t where
  "compact_after =
     \<lparr>queue = [0x100000, 0, 0x1000001, 0x2000000, 0], q_size = 5, ent_cnt = 3, head = 1, tail = 4\<rparr>"

text \<open>
  Compaction does not keep the free pages. On a well-formed ring of four entries whose second and
  third are neighbours, \<open>compact_queue\<close> ends without a fault in a well-formed ring that has lost the
  first entry (page 1) and holds an entry for physical page 0, which was never free.
\<close>

theorem compact_queue_loses_pages:
  "\<exists>q q'. qinv q \<and> compact_queue q = Inr q' \<and> qinv q' \<and>
     concat (map entry_pages (qlist q)) = [1, 16, 17, 32] \<and>
     concat (map entry_pages (qlist q')) = [0, 16, 17, 32]"
proof -
  have "quicksort_pgs [0x100000, 0x1000000, 0x1100000, 0x2000000, 0] 0 3 5 =
      Inr [0x100000, 0x1000000, 0x1100000, 0x2000000, 0]" by code_simp
  moreover have "compact_loop compact_before 0 3 = Inr compact_after" by code_simp
  ultimately have c: "compact_queue compact_before = Inr compact_after"
    by (simp add: compact_queue_def compact_before_def)
  have i: "qinv compact_before" "qinv compact_after"
    by (simp_all add: compact_before_def compact_after_def qinv_def)
  have l: "qlist compact_before = [0x100000, 0x1000000, 0x1100000, 0x2000000]"
    "qlist compact_after = [0, 0x1000001, 0x2000000]"
    by (simp_all add: compact_before_def compact_after_def qlist_def qidx_def upt_rec)
  have "entry_pages 0 = [0]" "entry_pages 0x100000 = [1]" "entry_pages 0x1000000 = [16]"
    "entry_pages 0x1100000 = [17]" "entry_pages 0x1000001 = [16, 17]" "entry_pages 0x2000000 = [32]"
    by (simp_all add: entry_pages_def GET_ADDR_def GET_PG_CNT_def upt_conv_Cons)
  then have "concat (map entry_pages (qlist compact_before)) = [1, 16, 17, 32]"
    "concat (map entry_pages (qlist compact_after)) = [0, 16, 17, 32]" by (simp_all add: l)
  with c i show ?thesis by blast
qed

section \<open>The allocator as a source of frames\<close>

text \<open>\<open>frames_free pm F\<close>: the ring is well formed and its entries hold each of the pages \<open>F\<close> once, and no other.\<close>

definition frames_free :: "pagealloc \<Rightarrow> nat set \<Rightarrow> bool" where
  "frames_free pm F \<longleftrightarrow> qinv (btm_level pm) \<and> (\<forall>e \<in> set (qlist (btm_level pm)). entry_ok e) \<and> finite F \<and>
     free_pages pm = mset_set F"

definition has_run :: "pagealloc \<Rightarrow> nat \<Rightarrow> bool" where
  "has_run pm n \<longleftrightarrow> (\<exists>e \<in> set (qlist (btm_level pm)). n \<le> unat (GET_PG_CNT e))"

lemma frames_free_has_run: "frames_free pm F \<Longrightarrow> F \<noteq> {} \<Longrightarrow> has_run pm 1"
proof -
  assume a: "frames_free pm F" "F \<noteq> {}"
  then have "qlist (btm_level pm) \<noteq> []" by (auto simp: frames_free_def free_pages_def mset_set_empty_iff)
  then show ?thesis using GET_PG_CNT_unat(1) by (auto simp: has_run_def neq_Nil_conv Suc_le_eq)
qed

lemma rest_of_ok:
  assumes "entry_ok e" "0 < n" "n \<le> unat (GET_PG_CNT e)" "x \<in> set (rest_of e (int n))"
  shows "entry_ok x"
proof -
  let ?a = "GET_ADDR e + of_nat n * BTM_LEVEL" and ?c = "unat (GET_PG_CNT e) - n"
  have ne: "int n < uint (GET_PG_CNT e)" "x = BUILD_ENTRY ?a (uint (GET_PG_CNT e) - int n)"
    using assms(4) by (auto simp: rest_of_def split: if_splits)
  have c: "int ?c = uint (GET_PG_CNT e) - int n" "0 < ?c" using ne(1) assms(3) uint_nat[of "GET_PG_CNT e"] by linarith+
  have c2: "?c \<le> 2 ^ 20" "n \<le> 2 ^ 20" using GET_PG_CNT_unat(2)[of e] assms(3) by linarith+
  have lt: "unat (GET_ADDR e) + n * 4096 + ?c * 4096 \<le> 2 ^ 56" using assms(1,3) by (simp add: entry_ok_def diff_mult_distrib)
  have "unat (of_nat n * BTM_LEVEL :: u64) = n * 4096" using c2(2) unat_of_nat_64[of "n * 4096"] by simp
  then have u: "unat ?a = unat (GET_ADDR e) + n * 4096" using lt c2 by (subst unat_add_lem[THEN iffD1]) simp_all
  have al: "?a mod BTM_LEVEL = 0" by (rule aligned_add) (rule GET_ADDR_aligned)
  have "?a < 2 ^ 56" using u lt c(2) by (simp add: word_less_nat_alt)
  then have "GET_ADDR x = ?a" unfolding ne(2) by (rule GET_ADDR_BUILD_ENTRY[OF al])
  moreover have "unat (GET_PG_CNT x) = ?c"
    using GET_PG_CNT_BUILD_ENTRY(2)[of "int ?c" ?a] c c2 unfolding ne(2) c(1)[symmetric] by (simp add: unat_iff_uint)
  ultimately show ?thesis using lt u by (simp add: entry_ok_def)
qed

lemma pagealloc_alloc_frames:
  assumes F: "frames_free pm F" and run: "has_run pm n" and n: "0 < n" and sz: "unat sz = n * 4096"
  shows "\<exists>a pm'. pagealloc_alloc pm domain color flags sz = Inr (a, pm') \<and> unat a mod 4096 = 0 \<and> unat a + n * 4096 \<le> 2 ^ 56 \<and>
    {unat a div 4096 ..< unat a div 4096 + n} \<subseteq> F \<and> frames_free pm' (F - {unat a div 4096 ..< unat a div 4096 + n})"
proof -
  let ?P = "\<lambda>x. n \<le> unat (GET_PG_CNT x)"
  have inv: "qinv (btm_level pm)" and ok: "\<forall>e \<in> set (qlist (btm_level pm)). entry_ok e" and fin: "finite F"
    and fp: "free_pages pm = mset_set F" using F by (simp_all add: frames_free_def)
  obtain pre e post where L: "qlist (btm_level pm) = pre @ e # post" "?P e" "\<forall>x \<in> set pre. \<not> ?P x"
    using run split_list_first_prop[of "qlist (btm_level pm)" ?P] unfolding has_run_def by metis
  have e: "entry_ok e" using ok L(1) by simp
  have small: "\<forall>x \<in> set pre. unat (GET_PG_CNT x) < n" using L(3) by auto
  have szs: "unat sz \<le> n * 4096" "(n - 1) * 4096 < unat sz" using sz n by (simp_all add: diff_mult_distrib)
  let ?a = "GET_ADDR e"
  let ?r = "{unat ?a div 4096 ..< unat ?a div 4096 + n}"
  obtain pm' where A: "pagealloc_alloc pm domain color flags sz = Inr (?a, pm')" "qinv (btm_level pm')"
      "qlist (btm_level pm') = rest_of e (int n) @ post @ pre"
      "free_pages pm = free_pages pm' + mset [unat ?a div 4096 ..< unat ?a div 4096 + n]"
    using alloc_first_fit[OF inv L(1) small L(2) e n szs] by blast
  have r: "mset [unat ?a div 4096 ..< unat ?a div 4096 + n] = mset_set ?r" by (rule mset_upt)
  have sub: "?r \<subseteq> F"
  proof
    fix x assume "x \<in> ?r"
    then have "x \<in># mset_set ?r" by simp
    then have "x \<in># mset_set F" using A(4) unfolding r fp by simp
    then show "x \<in> F" using fin by simp
  qed
  have "mset_set F = mset_set (F - ?r) + mset_set ?r"
    using sub fin by (subst mset_set_Union[symmetric]) (auto intro: arg_cong[of _ _ mset_set] finite_subset)
  then have fp': "free_pages pm' = mset_set (F - ?r)" using A(4) unfolding fp r by simp
  have "\<forall>x \<in> set (qlist (btm_level pm')). entry_ok x" using rest_of_ok[OF e n L(2)] ok L(1) A(3) by auto
  then have "frames_free pm' (F - ?r)" using A(2) fin fp' by (simp add: frames_free_def)
  moreover have "unat ?a mod 4096 = 0" using GET_ADDR_aligned[of e] unfolding mod_BTM_unat .
  moreover have "unat ?a + n * 4096 \<le> 2 ^ 56" using e L(2) by (simp add: entry_ok_def)
  ultimately show ?thesis using A(1) sub by (intro exI[of _ ?a] exI[of _ pm'] conjI)
qed

lemma pagealloc_alloc_frame:
  assumes F: "frames_free pm F" "F \<noteq> {}"
  shows "\<exists>a pm'. pagealloc_alloc pm domain color flags 4096 = Inr (a, pm') \<and> unat a mod 4096 = 0 \<and> unat a < 2 ^ 56 \<and>
    unat a div 4096 \<in> F \<and> frames_free pm' (F - {unat a div 4096})"
proof -
  obtain a pm' where a: "pagealloc_alloc pm domain color flags 4096 = Inr (a, pm')" "unat a mod 4096 = 0" "unat a + 1 * 4096 \<le> 2 ^ 56"
    "{unat a div 4096 ..< unat a div 4096 + 1} \<subseteq> F" "frames_free pm' (F - {unat a div 4096 ..< unat a div 4096 + 1})"
    using pagealloc_alloc_frames[OF F(1) frames_free_has_run[OF F] _ , of 4096 domain color flags] by auto
  then show ?thesis by (intro exI[of _ a] exI[of _ pm']) simp
qed

end
