(* ===== verification/PhysInit.thy ===== *)
theory PhysInit
  imports PageAlloc BootInfo
begin

text \<open>
  The initialisation of the page allocator, \<open>pagealloc_init\<close> of
  \<^verbatim>\<open>modules/SysPhysicalMemory/src/page_allocator.c\<close>: it reads the memory map from the registry and releases
  every free region. Together with \<open>BootInfo\<close> it takes the loader's memory map to the free pages.
\<close>

section \<open>Initialisation\<close>

text \<open>\<open>v\<close> starts as 0 and is overwritten through the out parameter.\<close>

definition read_or_panic :: "store \<Rightarrow> cstring \<Rightarrow> string \<Rightarrow> (u64 \<Rightarrow> store \<Rightarrow> 'a res) \<Rightarrow> 'a res" where
  "read_or_panic reg pathname keyname k =
     bindE (registry_readkey_uint reg (Some pathname) (Some (str keyname)) True) (\<lambda>(e, v, reg).
       if e \<noteq> err_ok then Inl (Panic ''Failed to read registry.'')
       else k (case v of Some v \<Rightarrow> v | None \<Rightarrow> 0) reg)"

function init_loop :: "store \<Rightarrow> pagealloc \<Rightarrow> u64 \<Rightarrow> u64 \<Rightarrow> (store \<times> pagealloc) res" where
  "init_loop reg st entry_cnt i =
     (if i < entry_cnt then
        read_or_panic reg (phys_key i) ''ADDR'' (\<lambda>a reg.
        read_or_panic reg (phys_key i) ''LEN'' (\<lambda>len reg.
          let len = (if len mod BTM_LEVEL \<noteq> 0 then len - len mod BTM_LEVEL else len);
              a = roundUp_po2 a BTM_LEVEL
          in bindE (pagealloc_free st a len) (\<lambda>st. init_loop reg st entry_cnt (i + 1))))
      else Inr (reg, st))"
  by pat_completeness auto
termination
  by (relation "measure (\<lambda>(reg, st, n, i). unat n - unat i)") (auto intro: counter_step)

declare init_loop.simps [simp del]

text \<open>\<open>alloc_words n\<close> is what \<open>malloc\<close> returns for the array of \<open>n\<close> words that \<open>queue_init\<close> asks for.\<close>

definition pagealloc_init :: "(int \<Rightarrow> u64 list option) \<Rightarrow> store \<Rightarrow> pagealloc \<Rightarrow> (int \<times> store \<times> pagealloc) res" where
  "pagealloc_init alloc_words reg st =
     read_or_panic reg (str ''HW/BOOTINFO'') ''MEMSIZE'' (\<lambda>m reg.
       let st = st\<lparr>mem_size := m\<rparr>;
           btm_sz = to_i32 (uint (roundUp_po2 m BTM_LEVEL div BTM_LEVEL));
           sz = btm_sz sdiv 2 + 1;
           (err, qp) = queue_init (alloc_words sz) (Some (btm_level st)) sz
       in if err \<noteq> 0 then Inl (Panic ''Queue init failure!'')
          else let st = on_btm st qp in
            read_or_panic reg (str ''HW/PHYS_MEM'') ''ENTRY_COUNT'' (\<lambda>entry_cnt reg.
              bindE (init_loop reg st entry_cnt 0) (\<lambda>(reg, st).
                Inr (0, reg, st\<lparr>data_multiple := 1, instr_multiple := 1, pagetable_multiple := 1\<rparr>))))"

definition physmem_module_init :: "(int \<Rightarrow> u64 list option) \<Rightarrow> store \<Rightarrow> pagealloc \<Rightarrow> (int \<times> store \<times> pagealloc) res" where
  "physmem_module_init alloc_words reg st = bindE (pagealloc_init alloc_words reg st) (\<lambda>(_, reg, st). Inr (0, reg, st))"

section \<open>The pages of the memory map\<close>

text \<open>The pages the initialisation takes a region to have: the start is rounded up, the length down.\<close>

definition region_pages :: "CardinalMemMap \<Rightarrow> nat list" where
  "region_pages r = [(unat (mm_addr r) + 4095) div 4096 ..< (unat (mm_addr r) + 4095) div 4096 + unat (mm_len r) div 4096]"

definition region_fits :: "CardinalMemMap \<Rightarrow> bool" where
  "region_fits r \<longleftrightarrow> unat (mm_addr r) + 4095 + unat (mm_len r) \<le> 2 ^ 56"

definition region_slots :: "CardinalMemMap \<Rightarrow> nat" where
  "region_slots r = entries_for (unat (mm_len r) div 4096)"

lemma read_or_panic_reads [simp]: "reads reg x k v \<Longrightarrow> read_or_panic reg x k f = f v reg"
  by (simp add: read_or_panic_def reads_def)

lemma len_down: 
  fixes len :: u64
  shows "unat (if len mod BTM_LEVEL \<noteq> 0 then len - len mod BTM_LEVEL else len) = unat len div 4096 * 4096"
    "(if len mod BTM_LEVEL \<noteq> 0 then len - len mod BTM_LEVEL else len) mod BTM_LEVEL = 0"
proof -
  have e: "(if len mod BTM_LEVEL \<noteq> 0 then len - len mod BTM_LEVEL else len) = len - len mod BTM_LEVEL" by simp
  have le: "len mod BTM_LEVEL \<le> len" by (simp add: word_le_nat_alt unat_mod)
  have u: "unat (len - len mod BTM_LEVEL) = unat len div 4096 * 4096"
    using unat_sub[OF le] minus_mod_eq_div_mult[of "unat len" 4096] by (simp add: unat_mod)
  show "unat (if len mod BTM_LEVEL \<noteq> 0 then len - len mod BTM_LEVEL else len) = unat len div 4096 * 4096" unfolding e by (rule u)
  show "(if len mod BTM_LEVEL \<noteq> 0 then len - len mod BTM_LEVEL else len) mod BTM_LEVEL = 0"
    using u unfolding e mod_BTM_unat by simp
qed

lemma addr_up:
  fixes a :: u64
  assumes "unat a + 4095 < 2 ^ 64"
  shows "unat (roundUp_po2 a BTM_LEVEL) = (unat a + 4095) div 4096 * 4096" "roundUp_po2 a BTM_LEVEL mod BTM_LEVEL = 0"
proof -
  have "roundUp_po2 a BTM_LEVEL = (a + mask 12) AND NOT (mask 12)"
    unfolding roundUp_po2_def BTM_mask ..
  also have "\<dots> = drop_bit 12 (a + mask 12) * 4096"
    by (simp add: bit_eq_iff bit_simps flip: push_bit_eq_mult[of 12, simplified]) (auto dest: bit_imp_le_length)
  finally have r: "roundUp_po2 a BTM_LEVEL = drop_bit 12 (a + mask 12) * 4096" .
  have "unat (a + mask 12) = unat a + 4095"
    using assms by (simp add: mask_eq_exp_minus_1 unat_word_ariths)
  then have d: "unat (drop_bit 12 (a + mask 12)) = (unat a + 4095) div 4096"
    by (simp add: drop_bit_eq_div unat_div)
  then show u: "unat (roundUp_po2 a BTM_LEVEL) = (unat a + 4095) div 4096 * 4096"
    using assms unfolding r by (subst unat_mult_lem[THEN iffD1]) simp_all
  then show "roundUp_po2 a BTM_LEVEL mod BTM_LEVEL = 0" unfolding mod_BTM_unat by simp
qed

definition alloc_inv :: "pagealloc \<Rightarrow> bool" where
  "alloc_inv st \<longleftrightarrow> qinv (btm_level st) \<and> (\<forall>e \<in> set (qlist (btm_level st)). entry_ok e)"

lemma init_loop_frees:
  assumes "\<forall>m < length rs. reads reg (phys_key (of_nat m)) ''ADDR'' (mm_addr (rs ! m)) \<and> reads reg (phys_key (of_nat m)) ''LEN'' (mm_len (rs ! m))"
    "n = of_nat (length rs)" "length rs < 2 ^ 64" "\<forall>r \<in> set rs. region_fits r" "m \<le> length rs" "alloc_inv st"
    "length (qlist (btm_level st)) + sum_list (map region_slots (drop m rs)) \<le> qcap (btm_level st)"
  shows "\<exists>st'. init_loop reg st n (of_nat m) = Inr (reg, st') \<and> alloc_inv st' \<and>
    free_pages st' = free_pages st + mset (concat (map region_pages (drop m rs))) \<and> mem_size st' = mem_size st"
  using assms(5-7)
proof (induction "length rs - m" arbitrary: m st)
  case 0
  then have "m = length rs" by simp
  then show ?case using assms(2) 0 by (subst init_loop.simps) simp
next
  case (Suc k)
  let ?r = "rs ! m"
  have m: "m < length rs" using Suc(2) by simp
  have rd: "reads reg (phys_key (of_nat m)) ''ADDR'' (mm_addr ?r)" "reads reg (phys_key (of_nat m)) ''LEN'' (mm_len ?r)" using assms(1) m by blast+
  have dr: "drop m rs = ?r # drop (Suc m) rs" using m by (simp add: Cons_nth_drop_Suc)
  have k: "k = length rs - Suc m" "Suc m \<le> length rs" using Suc(2) by simp_all
  have lt: "(of_nat m :: u64) < n" using m assms(2,3) by (simp add: word_less_nat_alt unat_of_nat_64)
  let ?a = "roundUp_po2 (mm_addr ?r) BTM_LEVEL" and ?l = "if mm_len ?r mod BTM_LEVEL \<noteq> 0 then mm_len ?r - mm_len ?r mod BTM_LEVEL else mm_len ?r"
  have fit: "unat (mm_addr ?r) + 4095 + unat (mm_len ?r) \<le> 2 ^ 56" using assms(4) m by (auto simp: region_fits_def)
  then have ua: "unat ?a = (unat (mm_addr ?r) + 4095) div 4096 * 4096" "?a mod BTM_LEVEL = 0" using addr_up[of "mm_addr ?r"] by simp_all
  note ul = len_down[of "mm_len ?r"]
  have le: "(unat (mm_addr ?r) + 4095) div 4096 * 4096 \<le> unat (mm_addr ?r) + 4095" "unat (mm_len ?r) div 4096 * 4096 \<le> unat (mm_len ?r)"
    by (rule div_times_less_eq_dividend)+
  have end_ok: "unat ?a + unat ?l \<le> 2 ^ 56" using le fit unfolding ua(1) ul(1) by linarith
  have room: "length (qlist (btm_level st)) + entries_for (unat ?l div 4096) \<le> qcap (btm_level st)"
    using Suc.prems(3) unfolding ul(1) dr by (simp add: region_slots_def)
  have i: "qinv (btm_level st)" "\<forall>e \<in> set (qlist (btm_level st)). entry_ok e" using Suc.prems(2) by (simp_all add: alloc_inv_def)
  obtain st1 where F: "pagealloc_free st ?a ?l = Inr st1" "qinv (btm_level st1)"
      "free_pages st1 = free_pages st + mset [unat ?a div 4096 ..< unat ?a div 4096 + unat ?l div 4096]" "qcap (btm_level st1) = qcap (btm_level st)"
      "length (qlist (btm_level st1)) = length (qlist (btm_level st)) + entries_for (unat ?l div 4096)"
      "\<forall>e \<in> set (qlist (btm_level st1)). entry_ok e" "mem_size st1 = mem_size st"
    using pagealloc_free_region[OF i(1) ua(2) ul(2) end_ok room] i(2) by blast
  have pg: "[unat ?a div 4096 ..< unat ?a div 4096 + unat ?l div 4096] = region_pages ?r" unfolding ua(1) ul(1) by (simp add: region_pages_def)
  have step: "init_loop reg st n (of_nat m) = init_loop reg st1 n (of_nat (Suc m))"
    using lt F(1) by (subst init_loop.simps) (simp add: Let_def add.commute read_or_panic_reads[OF rd(1)] read_or_panic_reads[OF rd(2)])
  have "length (qlist (btm_level st1)) + sum_list (map region_slots (drop (Suc m) rs)) \<le> qcap (btm_level st1)"
    using Suc.prems(3) F(4,5) unfolding ul(1) dr by (simp add: region_slots_def)
  then obtain st' where "init_loop reg st1 n (of_nat (Suc m)) = Inr (reg, st')" "alloc_inv st'"
      "free_pages st' = free_pages st1 + mset (concat (map region_pages (drop (Suc m) rs)))" "mem_size st' = mem_size st1"
    using Suc.hyps(1)[of "Suc m" st1] k m F(2,6) unfolding alloc_inv_def[of st1] by blast
  then show ?case unfolding step using F(3,7) unfolding pg dr by simp
qed


text \<open>The number of slots of the ring for a memory of \<open>m\<close> bytes.\<close>

definition ring_size :: "u64 \<Rightarrow> nat" where
  "ring_size m = (unat m + 4095) div 4096 div 2 + 1"

lemma ring_size_init:
  assumes "unat m \<le> 2 ^ 42"
  shows "to_i32 (uint (roundUp_po2 m BTM_LEVEL div BTM_LEVEL)) sdiv 2 + 1 = int (ring_size m)" "ring_size m < 2 ^ 31"
proof -
  let ?p = "(unat m + 4095) div 4096"
  have p: "?p < 2 ^ 31" using assms by (simp add: div_less_iff_less_mult)
  have "unat (roundUp_po2 m BTM_LEVEL div BTM_LEVEL) = ?p" using addr_up(1)[of m] assms by (simp add: unat_div)
  then have "uint (roundUp_po2 m BTM_LEVEL div BTM_LEVEL) = int ?p" by (metis uint_nat)
  moreover have "to_i32 (int ?p) = int ?p" unfolding to_i32_def using p by (intro signed_take_bit_int_eq_self) simp_all
  moreover have "int ?p sdiv 2 = int (?p div 2)" by (simp add: signed_divide_int_def sgn_if zdiv_int)
  ultimately show "to_i32 (uint (roundUp_po2 m BTM_LEVEL div BTM_LEVEL)) sdiv 2 + 1 = int (ring_size m)" by (simp add: ring_size_def)
  show "ring_size m < 2 ^ 31" using p by (simp add: ring_size_def)
qed

lemma pagealloc_init_frees:
  assumes reg: "reads reg (str ''HW/BOOTINFO'') ''MEMSIZE'' m" "reads reg (str ''HW/PHYS_MEM'') ''ENTRY_COUNT'' (of_nat (length rs))"
      "\<forall>m < length rs. reads reg (phys_key (of_nat m)) ''ADDR'' (mm_addr (rs ! m)) \<and> reads reg (phys_key (of_nat m)) ''LEN'' (mm_len (rs ! m))"
    and m: "unat m \<le> 2 ^ 42" and rs: "length rs < 2 ^ 64" "\<forall>r \<in> set rs. region_fits r" "sum_list (map region_slots rs) < ring_size m"
    and arr: "alloc_words (int (ring_size m)) = Some arr" "length arr = ring_size m"
  shows "\<exists>st'. pagealloc_init alloc_words reg st = Inr (0, reg, st') \<and> alloc_inv st' \<and> mem_size st' = m \<and>
    free_pages st' = mset (concat (map region_pages rs))"
proof -
  note sz = ring_size_init[OF m]
  have pos: "0 < int (ring_size m)" by (simp add: ring_size_def)
  define q where "q = (btm_level st)\<lparr>queue := arr, q_size := int (ring_size m), ent_cnt := 0, head := 0, tail := 0\<rparr>"
  have qi: "queue_init (Some arr) (Some (btm_level st)) (int (ring_size m)) = (0, Some q)" by (simp add: queue_init_def q_def)
  have q: "qinv q" "qlist q = []" "qcap q = ring_size m - 1"
    using pos sz(2) arr(2) by (auto simp: q_def qinv_def qlist_def qcap_def nat_diff_distrib)
  let ?st = "st\<lparr>mem_size := m, btm_level := q\<rparr>"
  have "alloc_inv ?st" "length (qlist (btm_level ?st)) + sum_list (map region_slots (drop 0 rs)) \<le> qcap (btm_level ?st)" "free_pages ?st = {#}"
    using q rs(3) by (simp_all add: alloc_inv_def free_pages_def)
  then obtain st' where L: "init_loop reg ?st (of_nat (length rs)) 0 = Inr (reg, st')" "alloc_inv st'" "mem_size st' = m"
      "free_pages st' = mset (concat (map region_pages rs))"
    using init_loop_frees[OF reg(3) refl rs(1,2) le0, of ?st] by auto
  have "pagealloc_init alloc_words reg st = Inr (0, reg, st'\<lparr>data_multiple := 1, instr_multiple := 1, pagetable_multiple := 1\<rparr>)"
    unfolding pagealloc_init_def using reg(1,2) L(1) by (simp add: sz(1) arr(1) qi on_btm_def Let_def)
  then show ?thesis using L(2-4) by (simp add: alloc_inv_def free_pages_def)
qed

section \<open>Properties\<close>

lemma boot_frees:
  assumes "reg_names (boot_names (length rs))" "kvs_wf (kheap st)" "\<not> kern_lock st"
    "length (CardinalMemoryMap bInfo) = unat (CardinalMemoryMapCount bInfo)" "rs = free_regions (CardinalMemoryMap bInfo)"
    "35 + 4 * length rs \<le> length (avail (kheap st))" "unat (MemorySize bInfo) \<le> 2 ^ 42" "\<forall>r \<in> set rs. region_fits r"
    "sum_list (map region_slots rs) < ring_size (MemorySize bInfo)"
    "alloc_words (int (ring_size (MemorySize bInfo))) = Some arr" "length arr = ring_size (MemorySize bInfo)"
  shows "\<exists>reg pm'. registry_module_init (add_bootinfo bInfo) (\<lambda>st. Inr (0, st)) st = Inr (0, reg) \<and>
    physmem_module_init alloc_words reg pm = Inr (0, reg, pm') \<and> mem_size pm' = MemorySize bInfo \<and>
    free_pages pm' = mset (concat (map region_pages rs)) \<and>
    (distinct (concat (map region_pages rs)) \<longrightarrow> frames_free pm' (set (concat (map region_pages rs))))"
proof -
  obtain reg where R: "registry_module_init (add_bootinfo bInfo) (\<lambda>st. Inr (0, st)) st = Inr (0, reg)"
      "reads reg (str ''HW/BOOTINFO'') ''MEMSIZE'' (MemorySize bInfo)" "reads reg (str ''HW/PHYS_MEM'') ''ENTRY_COUNT'' (of_nat (length rs))"
      "\<forall>m < length rs. reads reg (phys_key (of_nat m)) ''ADDR'' (mm_addr (rs ! m)) \<and> reads reg (phys_key (of_nat m)) ''LEN'' (mm_len (rs ! m))"
    using boot_readable[OF assms(1-6), of "\<lambda>st. Inr (0, st)"] by auto
  have "length rs \<le> unat (CardinalMemoryMapCount bInfo)" using assms(4,5) by (metis free_regions_def length_filter_le)
  then have "length rs < 2 ^ 64" using unsigned_less[of "CardinalMemoryMapCount bInfo", where ?'a = nat] by simp
  then obtain pm' where P: "pagealloc_init alloc_words reg pm = Inr (0, reg, pm')" "alloc_inv pm'" "mem_size pm' = MemorySize bInfo"
      "free_pages pm' = mset (concat (map region_pages rs))"
    using pagealloc_init_frees[where alloc_words = alloc_words, OF R(2-4) assms(7) _ assms(8-11)] by blast
  have "frames_free pm' (set (concat (map region_pages rs)))" if "distinct (concat (map region_pages rs))"
    using P(2,4) mset_set_set[OF that] by (simp add: frames_free_def alloc_inv_def)
  then show ?thesis using R(1) P(1,3,4) by (auto simp: physmem_module_init_def)
qed



text \<open>
  The end of an unaligned region: the start is rounded up to the next page but the length keeps its whole
  pages, so the last page can lie past the end of the region.
\<close>

theorem region_pages_past_end:
  "let r = \<lparr>mm_addr = 0x1800, mm_len = 0x2000, mm_type = 1\<rparr> :: CardinalMemMap in
   region_fits r \<and> 3 \<in> set (region_pages r) \<and> unat (mm_addr r) + unat (mm_len r) < (3 + 1) * 4096"
  by (simp add: region_fits_def region_pages_def Let_def)

end
