(* ===== verification/VMem.thy ===== *)
theory VMem
  imports PageAlloc Registry
begin

text \<open>
  The x86-64 page table manager, \<^verbatim>\<open>modules/SysVirtualMemory/src/platform/x86_64/pc/vmem.c\<close>: four levels of
  tables, the user half of the top level in each \<open>vmem\<close>, the kernel half in the global \<open>kmem\<close>, and one
  top level frame per core (\<open>ktable\<close>) that the processor uses. Frames come from \<^verbatim>\<open>PageAlloc\<close>.

  \<open>mem\<close> gives the 512 entries of every physical frame; a table is reached through the kernel's map of
  physical memory, so an access needs an address that \<open>vmem_phystovirt\<close> accepts and that is a frame. The
  parameters \<^verbatim>\<open>p_vm\<close> and \<^verbatim>\<open>flags\<close>, which the code only passes on, are left out. The translation cache of
  the processor is not modelled.
\<close>

section \<open>State\<close>

abbreviation (input) PRESENT :: u64 where "PRESENT \<equiv> 1"
abbreviation (input) WRITE :: u64 where "WRITE \<equiv> 2"
abbreviation (input) USER :: u64 where "USER \<equiv> 4"
abbreviation (input) WRITETHROUGH :: u64 where "WRITETHROUGH \<equiv> 8"
abbreviation (input) CACHEDISABLE :: u64 where "CACHEDISABLE \<equiv> 16"
abbreviation (input) WRITEBACK :: u64 where "WRITEBACK \<equiv> 0"
abbreviation (input) WRITECOMPLETE :: u64 where "WRITECOMPLETE \<equiv> 24"
abbreviation (input) LARGEPAGE :: u64 where "LARGEPAGE \<equiv> 0x80"
abbreviation (input) NOEXEC :: u64 where "NOEXEC \<equiv> 0x8000000000000000"
abbreviation (input) ADDR_MASK :: u64 where "ADDR_MASK \<equiv> 0x000ffffffffff000"
abbreviation (input) KERN_TOP_BASE :: u64 where "KERN_TOP_BASE \<equiv> 0xffffffff80000000"
abbreviation (input) KERN_PHYSMAP_BASE :: u64 where "KERN_PHYSMAP_BASE \<equiv> 0xFFFF800000000000"
abbreviation (input) KERN_PHYSMAP_BASE_UC :: u64 where "KERN_PHYSMAP_BASE_UC \<equiv> 0xFFFF808000000000"
abbreviation (input) KiB4 :: u64 where "KiB4 \<equiv> 0x1000"
abbreviation (input) GiB1 :: u64 where "GiB1 \<equiv> 0x40000000"
abbreviation (input) GiB2 :: u64 where "GiB2 \<equiv> 0x80000000"

abbreviation (input) vmem_flags_write :: u32 where "vmem_flags_write \<equiv> 1"
abbreviation (input) vmem_flags_exec :: u32 where "vmem_flags_exec \<equiv> 2"
abbreviation (input) vmem_flags_cachewritethrough :: u32 where "vmem_flags_cachewritethrough \<equiv> 4"
abbreviation (input) vmem_flags_cachewriteback :: u32 where "vmem_flags_cachewriteback \<equiv> 8"
abbreviation (input) vmem_flags_cachewritecomplete :: u32 where "vmem_flags_cachewritecomplete \<equiv> 16"
abbreviation (input) vmem_flags_uncached :: u32 where "vmem_flags_uncached \<equiv> 32"
abbreviation (input) vmem_flags_kernel :: u32 where "vmem_flags_kernel \<equiv> 1024"
abbreviation (input) vmem_flags_user :: u32 where "vmem_flags_user \<equiv> 2048"

abbreviation (input) vmem_err_alreadymapped :: int where "vmem_err_alreadymapped \<equiv> -1"
abbreviation (input) vmem_err_continue :: int where "vmem_err_continue \<equiv> -2"
abbreviation (input) vmem_err_nomapping :: int where "vmem_err_nomapping \<equiv> -3"

record vmem =
  ptable :: "u64 list"
  vflags :: u32
  vlock :: bool

record lcl_data =
  ktable :: u64
  cur_vmem :: addr

record cpu_regs =
  efer :: u64
  pat :: u64
  cr4 :: u64
  cr3 :: u64

record vmem_state =
  phys_mem :: pagealloc
  mem :: "u64 \<Rightarrow> u64 list"
  vms :: "vmem heap"
  kmem :: vmem
  lcl :: "lcl_data option"
  hugepages :: bool
  phys_map_sz :: u64
  kernel_vmalloc :: u64
  cpu :: cpu_regs

definition levels :: "u64 list" where
  "levels = [0x8000000000, 0x40000000, 0x200000, 0x1000]"

definition masks :: "u64 list" where
  "masks = [0xff8000000000, 0x007fC0000000, 0x00003fE00000, 0x0000001ff000]"

definition shamts :: "nat list" where
  "shamts = [39, 30, 21, 12]"

definition largepage_avail :: "vmem_state \<Rightarrow> bool list" where
  "largepage_avail st = [False, hugepages st, True, True]"

text \<open>A table is the user half in a \<open>vmem\<close>, \<^verbatim>\<open>kmem.ptable - 256\<close>, or a frame.\<close>

datatype tbl = UserTop addr | KernelTop | Frame u64

definition tget :: "vmem_state \<Rightarrow> tbl \<Rightarrow> u64 \<Rightarrow> u64 res" where
  "tget st vm idx =
     (case vm of
        UserTop v \<Rightarrow> bindE (hget (vms st) v) (\<lambda>v. aget (ptable v) (uint idx))
      | KernelTop \<Rightarrow> aget (ptable (kmem st)) (uint idx - 256)
      | Frame p \<Rightarrow> aget (mem st p) (uint idx))"

definition tset :: "vmem_state \<Rightarrow> tbl \<Rightarrow> u64 \<Rightarrow> u64 \<Rightarrow> vmem_state res" where
  "tset st vm idx e =
     (case vm of
        UserTop v \<Rightarrow> bindE (hget (vms st) v) (\<lambda>n. bindE (aset (ptable n) (uint idx) e) (\<lambda>t.
          Inr (st\<lparr>vms := hput (vms st) v (n\<lparr>ptable := t\<rparr>)\<rparr>)))
      | KernelTop \<Rightarrow> bindE (aset (ptable (kmem st)) (uint idx - 256) e) (\<lambda>t. Inr (st\<lparr>kmem := (kmem st)\<lparr>ptable := t\<rparr>\<rparr>))
      | Frame p \<Rightarrow> bindE (aset (mem st p) (uint idx) e) (\<lambda>t. Inr (st\<lparr>mem := (mem st)(p := t)\<rparr>)))"

section \<open>Addresses\<close>

definition vmem_vmalloc :: "vmem_state \<Rightarrow> u64 \<Rightarrow> u64 \<times> vmem_state" where
  "vmem_vmalloc st sz = (kernel_vmalloc st, st\<lparr>kernel_vmalloc := kernel_vmalloc st + sz\<rparr>)"

definition vmem_vfree :: "vmem_state \<Rightarrow> u64 \<Rightarrow> u64 \<Rightarrow> vmem_state" where
  "vmem_vfree st virt sz =
     (if virt + sz = kernel_vmalloc st then st\<lparr>kernel_vmalloc := kernel_vmalloc st - sz\<rparr> else st)"

text \<open>\<^verbatim>\<open>phys\<close> is signed, its sum with the unsigned \<^verbatim>\<open>sz\<close> is not.\<close>

definition vmem_phystovirt :: "vmem_state \<Rightarrow> u64 \<Rightarrow> u64 \<Rightarrow> u32 \<Rightarrow> u64 res" where
  "vmem_phystovirt st phys sz flags =
     (if flags AND vmem_flags_cachewriteback \<noteq> 0 then
        (if sint phys < sint GiB2 \<and> phys + sz < GiB2 then Inr (phys + KERN_TOP_BASE)
         else if sint phys < sint (phys_map_sz st) \<and> phys + sz < phys_map_sz st then Inr (phys + KERN_PHYSMAP_BASE)
         else Inl (Panic ''Invalid Address Detected!''))
      else if flags AND vmem_flags_uncached \<noteq> 0 then
        (if sint phys < sint (phys_map_sz st) \<and> phys + sz < phys_map_sz st then Inr (phys + KERN_PHYSMAP_BASE_UC)
         else Inl (Panic ''Invalid Address Detected!''))
      else Inl (Panic ''Invalid Address Detected!''))"

text \<open>The table in a frame, through the kernel's map of physical memory.\<close>

definition frame_table :: "vmem_state \<Rightarrow> u64 \<Rightarrow> tbl res" where
  "frame_table st phys =
     bindE (vmem_phystovirt st phys KiB4 vmem_flags_cachewriteback) (\<lambda>_.
       if phys mod KiB4 = 0 then Inr (Frame phys) else Inl BadPointer)"

section \<open>Mapping\<close>

definition page_flags :: "u32 \<Rightarrow> u64 \<Rightarrow> u64" where
  "page_flags perms sz =
     PRESENT
     OR (if perms AND vmem_flags_write \<noteq> 0 then WRITE else 0)
     OR (if perms AND vmem_flags_exec = 0 then NOEXEC else 0)
     OR (if perms AND vmem_flags_cachewritethrough \<noteq> 0 then WRITETHROUGH
         else if perms AND vmem_flags_uncached \<noteq> 0 then CACHEDISABLE
         else if perms AND vmem_flags_cachewritecomplete \<noteq> 0 then WRITECOMPLETE
         else if perms AND vmem_flags_cachewriteback \<noteq> 0 then WRITEBACK else 0)
     OR (if perms AND vmem_flags_user \<noteq> 0 then USER else 0)
     OR (if sz \<noteq> KiB4 then LARGEPAGE else 0)"

text \<open>
  The loop over the entries of a table of pages. It ends at the end of the table, so one step more than
  the table has entries is enough.
\<close>

primrec map_pages :: "nat \<Rightarrow> vmem_state \<Rightarrow> tbl \<Rightarrow> u64 \<Rightarrow> u64 \<Rightarrow> u64 \<Rightarrow> u64 \<Rightarrow> u64 \<Rightarrow> (int \<times> vmem_state) res" where
  "map_pages 0 st vm idx phys sz_left sz c_flags = Inl Diverge"
| "map_pages (Suc fuel) st vm idx phys sz_left sz c_flags =
     (if sz_left > 0 then
        (if idx \<ge> 512 then Inr (vmem_err_continue, st)
         else bindE (tget st vm idx) (\<lambda>e.
           if e AND PRESENT \<noteq> 0 then Inr (vmem_err_alreadymapped, st)
           else bindE (tset st vm idx ((phys AND ADDR_MASK) OR c_flags)) (\<lambda>st.
             map_pages fuel st vm (idx + 1) (phys + sz) (sz_left - sz) sz c_flags)))
      else Inr (0, st))"

text \<open>The table behind an entry, a fresh zeroed frame when the entry has no address.\<close>

definition next_table :: "vmem_state \<Rightarrow> tbl \<Rightarrow> u64 \<Rightarrow> (u64 \<times> vmem_state) res" where
  "next_table st vm idx =
     bindE (tget st vm idx) (\<lambda>e.
       let n_lv = e AND ADDR_MASK in
       if n_lv = 0 then
         bindE (pagealloc_alloc (phys_mem st) (-1) (-1) 8 KiB4) (\<lambda>(n_lv, pm).
           let st = st\<lparr>phys_mem := pm\<rparr> in
           if n_lv = 0 then Inl (Panic ''Pagetable allocation failure!'')
           else bindE (frame_table st n_lv) (\<lambda>_.
                let st = st\<lparr>mem := (mem st)(n_lv := replicate 512 0)\<rparr> in
                bindE (tset st vm idx ((n_lv AND ADDR_MASK) OR PRESENT OR WRITE OR USER)) (\<lambda>st. Inr (n_lv, st))))
       else Inr (n_lv, st))"

text \<open>
  The loop over the entries of a table of tables, \<open>below\<close> being the function for the next level; every
  round but the last advances the index, and the loop ends at the end of the table.
\<close>

primrec map_tables ::
  "nat \<Rightarrow> (vmem_state \<Rightarrow> tbl \<Rightarrow> u64 \<Rightarrow> u64 \<Rightarrow> u64 \<Rightarrow> (int \<times> vmem_state) res) \<Rightarrow> nat \<Rightarrow>
   vmem_state \<Rightarrow> tbl \<Rightarrow> u64 \<Rightarrow> u64 \<Rightarrow> u64 \<Rightarrow> u64 \<Rightarrow> (int \<times> vmem_state) res" where
  "map_tables 0 below lv st vm idx virt phys sz_left = Inl Diverge"
| "map_tables (Suc fuel) below lv st vm idx virt phys sz_left =
     (if sz_left > 0 then
        bindE (next_table st vm idx) (\<lambda>(n_lv, st).
        bindE (tget st vm idx) (\<lambda>e.
          if e AND LARGEPAGE \<noteq> 0 then Inr (vmem_err_alreadymapped, st)
          else bindE (frame_table st n_lv) (\<lambda>n_lv_d.
               bindE (below st n_lv_d virt phys sz_left) (\<lambda>(ret, st).
                 if ret \<noteq> vmem_err_continue then Inr (ret, st)
                 else bindE (aget masks (int lv + 1)) (\<lambda>mask.
                      bindE (aget shamts (int lv + 1)) (\<lambda>shamt.
                        let l_idx = drop_bit shamt (virt AND mask);
                            i_sz = push_bit shamt (512 - l_idx);
                            idx = idx + 1
                        in if idx \<ge> 512 then Inr (vmem_err_continue, st)
                           else map_tables fuel below lv st vm idx (virt + i_sz) (phys + i_sz) (sz_left - i_sz)))))))
      else Inr (0, st))"

text \<open>\<open>n\<close> is the number of levels left, \<^verbatim>\<open>lv = 4 - n\<close>; there is no level 4.\<close>

primrec vmem_map_st :: "nat \<Rightarrow> u32 \<Rightarrow> vmem_state \<Rightarrow> tbl \<Rightarrow> u64 \<Rightarrow> u64 \<Rightarrow> u64 \<Rightarrow> (int \<times> vmem_state) res" where
  "vmem_map_st 0 perms st vm virt phys sz_left = Inl OutOfBounds"
| "vmem_map_st (Suc n) perms st vm virt phys sz_left =
     (let lv = 3 - n; sz = levels ! lv; idx = drop_bit (shamts ! lv) (virt AND masks ! lv) in
      if sz_left mod sz = 0 \<and> largepage_avail st ! lv
      then map_pages 513 st vm idx phys sz_left sz (page_flags perms sz)
      else map_tables 512 (vmem_map_st n perms) lv st vm idx virt phys sz_left)"

text \<open>The kernel half of the processor's top level table is refreshed from \<open>kmem\<close>.\<close>

definition publish_kmem :: "vmem_state \<Rightarrow> vmem_state res" where
  "publish_kmem st =
     (case lcl st of
        None \<Rightarrow> Inl NullDeref
      | Some l \<Rightarrow> bindE (frame_table st (ktable l)) (\<lambda>_.
          Inr (st\<lparr>mem := (mem st)(ktable l := take 256 (mem st (ktable l)) @ ptable (kmem st))\<rparr>)))"

definition lock_kmem :: "vmem_state \<Rightarrow> vmem_state res" where
  "lock_kmem st = (if vlock (kmem st) then Inl Deadlock else Inr (st\<lparr>kmem := (kmem st)\<lparr>vlock := True\<rparr>\<rparr>))"

definition unlock_kmem :: "vmem_state \<Rightarrow> vmem_state" where
  "unlock_kmem st = st\<lparr>kmem := (kmem st)\<lparr>vlock := False\<rparr>\<rparr>"

definition lock_vm :: "vmem_state \<Rightarrow> addr \<Rightarrow> vmem_state res" where
  "lock_vm st vm = bindE (hget (vms st) vm) (\<lambda>v.
     if vlock v then Inl Deadlock else Inr (st\<lparr>vms := hput (vms st) vm (v\<lparr>vlock := True\<rparr>)\<rparr>))"

definition unlock_vm :: "vmem_state \<Rightarrow> addr \<Rightarrow> vmem_state res" where
  "unlock_vm st vm = bindE (hset (vms st) vm (\<lambda>v. v\<lparr>vlock := False\<rparr>)) (\<lambda>h. Inr (st\<lparr>vms := h\<rparr>))"

definition vmem_map :: "vmem_state \<Rightarrow> addr \<Rightarrow> u64 \<Rightarrow> u64 \<Rightarrow> u64 \<Rightarrow> u32 \<Rightarrow> (int \<times> vmem_state) res" where
  "vmem_map st vm virt phys sz perms =
     (if sint virt < 0 then
        bindE (lock_kmem st) (\<lambda>st.
        bindE (vmem_map_st 4 perms st KernelTop virt phys sz) (\<lambda>(rVal, st).
        bindE (publish_kmem st) (\<lambda>st. Inr (rVal, unlock_kmem st))))
      else
        bindE (lock_vm st vm) (\<lambda>st.
        bindE (vmem_map_st 4 perms st (UserTop vm) virt phys sz) (\<lambda>(rVal, st).
        bindE (unlock_vm st vm) (\<lambda>st. Inr (rVal, st)))))"

section \<open>Unmapping\<close>

text \<open>
  A round that frees a lower table leaves \<^verbatim>\<open>size\<close> and \<^verbatim>\<open>virt\<close> as they are, so the loop need not end: \<open>fuel\<close>
  bounds its rounds on each level.
\<close>

primrec unmap_loop ::
  "nat \<Rightarrow> (vmem_state \<Rightarrow> tbl \<Rightarrow> u64 \<Rightarrow> u64 \<Rightarrow> (int \<times> vmem_state) res) \<Rightarrow> nat \<Rightarrow>
   vmem_state \<Rightarrow> tbl \<Rightarrow> u64 \<Rightarrow> u64 \<Rightarrow> (int \<times> vmem_state) res" where
  "unmap_loop 0 below lv st vm virt sz_left = Inl Diverge"
| "unmap_loop (Suc fuel) below lv st vm virt sz_left =
     (let sz = levels ! lv in
      if sz_left > 0 then
        (let idx = drop_bit (shamts ! lv) (virt AND masks ! lv) in
         bindE (tget st vm idx) (\<lambda>lv_ent.
         bindE (frame_table st (lv_ent AND ADDR_MASK)) (\<lambda>n_lv_d.
           if lv_ent AND PRESENT \<noteq> 0 then
             (if sz_left \<ge> sz \<and> (lv_ent AND LARGEPAGE \<noteq> 0 \<or> sz = KiB4) then
                bindE (tset st vm idx 0) (\<lambda>st. unmap_loop fuel below lv st vm (virt + sz) (sz_left - sz))
              else if sz_left \<ge> sz \<and> NOT lv_ent AND LARGEPAGE \<noteq> 0 then
                bindE (below st n_lv_d virt sz_left) (\<lambda>(err, st).
                  if err \<noteq> 0 then Inr (err, st)
                  else bindE (pagealloc_free (phys_mem st) (lv_ent AND ADDR_MASK) KiB4) (\<lambda>pm.
                    unmap_loop fuel below lv (st\<lparr>phys_mem := pm\<rparr>) vm virt sz_left))
              else if sz_left < sz \<and> NOT lv_ent AND LARGEPAGE \<noteq> 0 then below st n_lv_d virt sz_left
              else Inl (Panic ''Unimplemented!''))
           else if sz_left \<ge> sz then unmap_loop fuel below lv st vm (virt + sz) (sz_left - sz)
           else Inr (vmem_err_nomapping, st))))
      else Inr (0, st))"

primrec vmem_unmap_st :: "nat \<Rightarrow> nat \<Rightarrow> vmem_state \<Rightarrow> tbl \<Rightarrow> u64 \<Rightarrow> u64 \<Rightarrow> (int \<times> vmem_state) res" where
  "vmem_unmap_st fuel 0 st vm virt sz_left = Inl OutOfBounds"
| "vmem_unmap_st fuel (Suc n) st vm virt sz_left = unmap_loop fuel (vmem_unmap_st fuel n) (3 - n) st vm virt sz_left"

text \<open>\<^verbatim>\<open>size = 0\<close> is the first statement of the function; the loop then never runs and one round is enough.\<close>

definition vmem_unmap :: "vmem_state \<Rightarrow> addr \<Rightarrow> u64 \<Rightarrow> u64 \<Rightarrow> (int \<times> vmem_state) res" where
  "vmem_unmap st vm virt sz =
     (let sz = 0 in
      if sint virt < 0 then
        bindE (lock_kmem st) (\<lambda>st.
        bindE (vmem_unmap_st 1 4 st KernelTop virt sz) (\<lambda>(rVal, st).
        bindE (publish_kmem st) (\<lambda>st. Inr (rVal, unlock_kmem st))))
      else
        bindE (lock_vm st vm) (\<lambda>st.
        bindE (vmem_unmap_st 1 4 st (UserTop vm) virt sz) (\<lambda>(rVal, st).
        bindE (unlock_vm st vm) (\<lambda>st. Inr (rVal, st)))))"

section \<open>Address spaces\<close>

definition vmem_create :: "vmem_state \<Rightarrow> (int \<times> addr option \<times> vmem_state) res" where
  "vmem_create st =
     (let (vm, h) = halloc (vms st) in
      if vm = NULL then Inr (-1, None, st\<lparr>vms := h\<rparr>)
      else bindE (hset h vm (\<lambda>_. \<lparr>ptable = replicate 256 0, vflags = vmem_flags_user, vlock = False\<rparr>)) (\<lambda>h.
           Inr (0, Some vm, st\<lparr>vms := h\<rparr>)))"

definition vmem_destroy :: "vmem_state \<Rightarrow> addr \<Rightarrow> vmem_state res" where
  "vmem_destroy st vm =
     (if vm \<noteq> NULL then bindE (lock_vm st vm) (\<lambda>st. bindE (hfree (vms st) vm) (\<lambda>h. Inr (st\<lparr>vms := h\<rparr>))) else Inr st)"

definition vmem_savestate :: "vmem_state \<Rightarrow> vmem_state res" where
  "vmem_savestate st =
     (case lcl st of
        None \<Rightarrow> Inl NullDeref
      | Some l \<Rightarrow>
          bindE (if cur_vmem l \<noteq> NULL then
                   bindE (lock_vm st (cur_vmem l)) (\<lambda>st.
                   bindE (frame_table st (ktable l)) (\<lambda>_.
                   bindE (hset (vms st) (cur_vmem l) (\<lambda>v. v\<lparr>ptable := take 256 (mem st (ktable l))\<rparr>)) (\<lambda>h.
                     unlock_vm (st\<lparr>vms := h\<rparr>) (cur_vmem l))))
                 else Inr st) (\<lambda>st.
          bindE (lock_kmem st) (\<lambda>st.
          bindE (frame_table st (ktable l)) (\<lambda>_.
            Inr (unlock_kmem (st\<lparr>kmem := (kmem st)\<lparr>ptable := drop 256 (mem st (ktable l))\<rparr>\<rparr>))))))"

definition vmem_setactive :: "vmem_state \<Rightarrow> addr \<Rightarrow> (int \<times> vmem_state) res" where
  "vmem_setactive st vm =
     bindE (vmem_savestate st) (\<lambda>st.
     bindE (lock_vm st vm) (\<lambda>st.
       case lcl st of
         None \<Rightarrow> Inl NullDeref
       | Some l \<Rightarrow>
           bindE (frame_table st (ktable l)) (\<lambda>_.
           bindE (hget (vms st) vm) (\<lambda>v.
             let st = st\<lparr>mem := (mem st)(ktable l := ptable v @ drop 256 (mem st (ktable l)))\<rparr> in
             bindE (unlock_vm st vm) (\<lambda>st.
               Inr (0, st\<lparr>lcl := Some (l\<lparr>cur_vmem := vm\<rparr>), cpu := (cpu st)\<lparr>cr3 := ktable l\<rparr>\<rparr>))))))"

definition vmem_getactive :: "vmem_state \<Rightarrow> (int \<times> addr \<times> vmem_state) res" where
  "vmem_getactive st =
     bindE (vmem_savestate st) (\<lambda>st. case lcl st of None \<Rightarrow> Inl NullDeref | Some l \<Rightarrow> Inr (0, cur_vmem l, st))"

text \<open>Invalidating single pages changes nothing that is modelled.\<close>

definition vmem_flush :: "vmem_state \<Rightarrow> u64 \<Rightarrow> u64 \<Rightarrow> (int \<times> vmem_state) res" where
  "vmem_flush st virt sz =
     bindE (vmem_savestate st) (\<lambda>st.
       if sz > GiB1 then
         (case lcl st of None \<Rightarrow> Inl NullDeref | Some l \<Rightarrow> Inr (0, st\<lparr>cpu := (cpu st)\<lparr>cr3 := ktable l\<rparr>\<rparr>))
       else Inr (0, st))"

section \<open>Translation\<close>

primrec vmem_virttophys_st :: "nat \<Rightarrow> vmem_state \<Rightarrow> tbl \<Rightarrow> u64 \<Rightarrow> (int \<times> u64 option) res" where
  "vmem_virttophys_st 0 st pg virt = Inl OutOfBounds"
| "vmem_virttophys_st (Suc n) st pg virt =
     (let lv = 3 - n; idx = drop_bit (shamts ! lv) (virt AND masks ! lv) in
      bindE (tget st pg idx) (\<lambda>ent.
        if ent AND PRESENT \<noteq> 0 then
          (if ent AND LARGEPAGE \<noteq> 0 \<and> largepage_avail st ! lv then
             Inr (0, Some ((ent AND ADDR_MASK) + virt mod levels ! lv))
           else if levels ! lv = KiB4 then Inr (0, Some ((ent AND ADDR_MASK) + virt mod levels ! lv))
           else bindE (frame_table st (ent AND ADDR_MASK)) (\<lambda>t. vmem_virttophys_st n st t virt))
        else Inr (-1, None)))"

definition vmem_virttophys :: "vmem_state \<Rightarrow> addr \<Rightarrow> u64 \<Rightarrow> (int \<times> u64 option) res" where
  "vmem_virttophys st vm virt =
     (if sint virt < 0 then
        (case lcl st of
           None \<Rightarrow> Inl NullDeref
         | Some l \<Rightarrow> bindE (frame_table st (ktable l)) (\<lambda>t. vmem_virttophys_st 4 st t virt))
      else if vm \<noteq> NULL then vmem_virttophys_st 4 st (UserTop vm) virt
      else Inr (-2, None))"

section \<open>Initialisation\<close>

definition read_proc_flag :: "store \<Rightarrow> string \<Rightarrow> (bool \<times> store) res" where
  "read_proc_flag reg name =
     bindE (registry_readkey_bool reg (Some (str ''HW/PROC'')) (Some (str name)) True) (\<lambda>(_, v, reg).
       Inr (case v of None \<Rightarrow> False | Some b \<Rightarrow> b \<noteq> 0, reg))"

text \<open>What both initialisations start with: the processor's features, and a zeroed top level frame.\<close>

definition setup_core :: "store \<Rightarrow> vmem_state \<Rightarrow> (u64 \<times> store \<times> vmem_state) res" where
  "setup_core reg st =
     (let st = st\<lparr>cpu := (cpu st)\<lparr>efer := efer (cpu st) OR 0x800\<rparr>\<rparr> in
      bindE (read_proc_flag reg ''SMEP'') (\<lambda>(smep, reg).
      bindE (read_proc_flag reg ''SMAP'') (\<lambda>(smap, reg).
        let r4 = cr4 (cpu st);
            r4 = (if smep then r4 OR 0x100000 else r4);
            r4 = (if smap then r4 OR 0x200000 else r4);
            st = st\<lparr>cpu := (cpu st)\<lparr>cr4 := r4\<rparr>\<rparr>
        in bindE (read_proc_flag reg ''HUGEPAGE'') (\<lambda>(hugepage, reg).
             let st = (if hugepage then st\<lparr>hugepages := True\<rparr> else st);
                 st = st\<lparr>cpu := (cpu st)\<lparr>pat := 0x6 OR push_bit 8 0x4 OR push_bit 16 0x0 OR push_bit 24 0x1\<rparr>\<rparr>
             in bindE (pagealloc_alloc (phys_mem st) (-1) (-1) 8 KiB4) (\<lambda>(ktable_phys, pm).
                  let st = st\<lparr>phys_mem := pm\<rparr> in
                  bindE (frame_table st ktable_phys) (\<lambda>_.
                    Inr (ktable_phys, reg, st\<lparr>mem := (mem st)(ktable_phys := replicate 512 0)\<rparr>)))))))"

text \<open>
  The results of the three calls of \<open>vmem_map\<close> are not looked at. \<open>lcl\<close> is allocated in the thread local
  storage when it is still null; its fields are then set.
\<close>

definition vmem_init :: "store \<Rightarrow> vmem_state \<Rightarrow> (int \<times> store \<times> vmem_state) res" where
  "vmem_init reg st =
     bindE (setup_core reg st) (\<lambda>(ktable_phys, reg, st).
       let st = st\<lparr>lcl := Some \<lparr>ktable = ktable_phys, cur_vmem = NULL\<rparr>,
                   kmem := \<lparr>ptable = replicate 256 0, vflags = vmem_flags_kernel, vlock = False\<rparr>\<rparr> in
       bindE (vmem_phystovirt st (cr3 (cpu st)) KiB4 vmem_flags_cachewriteback) (\<lambda>_.
       bindE (vmem_map st NULL KERN_TOP_BASE 0 GiB2
                (vmem_flags_kernel OR vmem_flags_write OR vmem_flags_exec OR vmem_flags_cachewriteback)) (\<lambda>(_, st).
         let st = st\<lparr>phys_map_sz := 0x4000000000\<rparr> in
         bindE (vmem_map st NULL KERN_PHYSMAP_BASE 0 (phys_map_sz st)
                  (vmem_flags_kernel OR vmem_flags_write OR vmem_flags_cachewriteback)) (\<lambda>(_, st).
         bindE (vmem_map st NULL KERN_PHYSMAP_BASE_UC 0 (phys_map_sz st)
                  (vmem_flags_kernel OR vmem_flags_write OR vmem_flags_uncached)) (\<lambda>(_, st).
           Inr (0, reg, st\<lparr>cpu := (cpu st)\<lparr>cr3 := ktable_phys\<rparr>\<rparr>))))))"

definition vmem_mp_init :: "store \<Rightarrow> vmem_state \<Rightarrow> (int \<times> store \<times> vmem_state) res" where
  "vmem_mp_init reg st =
     bindE (setup_core reg st) (\<lambda>(ktable_phys, reg, st).
       if lcl st = None then Inl NullDeref
       else let st = st\<lparr>lcl := Some \<lparr>ktable = ktable_phys, cur_vmem = NULL\<rparr>\<rparr> in
         bindE (lock_kmem st) (\<lambda>st.
         bindE (publish_kmem st) (\<lambda>st.
           let st = unlock_kmem st in
           Inr (0, reg, st\<lparr>cpu := (cpu st)\<lparr>cr3 := ktable_phys\<rparr>\<rparr>))))"

end
