(* ===== verification/PageTables.thy ===== *)
theory PageTables
  imports VMem
begin

text \<open>
  The page tables of \<^verbatim>\<open>VMem\<close> as a forest: its invariant, how a walk depends on the entries, what \<open>next_table\<close> and
  the loops of \<open>vmem_map_st\<close> do to the walks, down to the run of pages that one call maps.
\<close>

section \<open>Page tables\<close>

definition idx_at :: "nat \<Rightarrow> u64 \<Rightarrow> u64" where
  "idx_at lv v = drop_bit (shamts ! lv) (v AND masks ! lv)"

text \<open>The two kinds of entry of a directory that lead somewhere, and an empty one.\<close>

definition table_ent :: "u64 \<Rightarrow> bool" where
  "table_ent e \<longleftrightarrow> e AND PRESENT \<noteq> 0 \<and> e AND LARGEPAGE = 0"

definition large_ent :: "u64 \<Rightarrow> bool" where
  "large_ent e \<longleftrightarrow> e AND PRESENT \<noteq> 0 \<and> e AND LARGEPAGE \<noteq> 0 \<and> e AND ADDR_MASK \<noteq> 0"

definition empty_ent :: "u64 \<Rightarrow> bool" where
  "empty_ent e \<longleftrightarrow> e AND PRESENT = 0 \<and> e AND ADDR_MASK = 0 \<and> e AND LARGEPAGE = 0"

definition usable_frame :: "vmem_state \<Rightarrow> u64 \<Rightarrow> bool" where
  "usable_frame st p \<longleftrightarrow> p \<noteq> 0 \<and> p AND ADDR_MASK = p \<and> frame_table st p = Inr (Frame p)"

text \<open>
  \<open>lvl\<close> gives the level of every table in use: the tables form a forest (no table is reached through two
  entries), a directory entry is empty, a large page or a table of the next level, and the free frames \<open>F\<close>
  of the page allocator can be used as tables and are none of them.
\<close>

definition pt_inv :: "vmem_state \<Rightarrow> (tbl \<Rightarrow> nat option) \<Rightarrow> nat set \<Rightarrow> bool" where
  "pt_inv st lvl F \<longleftrightarrow>
     (\<forall>t l. lvl t = Some l \<longrightarrow> l \<le> 3) \<and>
     (\<forall>p l. lvl (Frame p) = Some l \<longrightarrow> 0 < l \<and> usable_frame st p \<and> (\<forall>i < 512. \<exists>e. tget st (Frame p) i = Inr e)) \<and>
     (\<forall>t l i e. lvl t = Some l \<and> l < 3 \<and> tget st t i = Inr e \<longrightarrow>
        empty_ent e \<or> large_ent e \<and> largepage_avail st ! l \<or> table_ent e \<and> lvl (Frame (e AND ADDR_MASK)) = Some (Suc l)) \<and>
     (\<forall>t l i e t' l' i' e'. lvl t = Some l \<and> l < 3 \<and> tget st t i = Inr e \<and> table_ent e \<and>
        lvl t' = Some l' \<and> l' < 3 \<and> tget st t' i' = Inr e' \<and> table_ent e' \<and> e AND ADDR_MASK = e' AND ADDR_MASK \<longrightarrow> t = t' \<and> i = i') \<and>
     frames_free (phys_mem st) F \<and>
     (\<forall>p. unat p mod 4096 = 0 \<and> unat p div 4096 \<in> F \<longrightarrow> usable_frame st p \<and> lvl (Frame p) = None)"

lemma pt_invD:
  assumes "pt_inv st lvl F"
  shows "lvl t = Some l \<Longrightarrow> l \<le> 3"
    "lvl (Frame p) = Some l \<Longrightarrow> 0 < l \<and> usable_frame st p"
    "lvl (Frame p) = Some l \<Longrightarrow> i < 512 \<Longrightarrow> \<exists>e. tget st (Frame p) i = Inr e"
    "lvl t = Some l \<Longrightarrow> l < 3 \<Longrightarrow> tget st t i = Inr e \<Longrightarrow>
        empty_ent e \<or> large_ent e \<and> largepage_avail st ! l \<or> table_ent e \<and> lvl (Frame (e AND ADDR_MASK)) = Some (Suc l)"
    "lvl t = Some l \<Longrightarrow> l < 3 \<Longrightarrow> tget st t i = Inr e \<Longrightarrow> table_ent e \<Longrightarrow>
        lvl t' = Some l' \<Longrightarrow> l' < 3 \<Longrightarrow> tget st t' i' = Inr e' \<Longrightarrow> table_ent e' \<Longrightarrow> e AND ADDR_MASK = e' AND ADDR_MASK \<Longrightarrow> t = t' \<and> i = i'"
    "frames_free (phys_mem st) F"
    "unat p mod 4096 = 0 \<Longrightarrow> unat p div 4096 \<in> F \<Longrightarrow> usable_frame st p \<and> lvl (Frame p) = None"
proof -
  note I = assms[unfolded pt_inv_def]
  note c1 = conjunct1[OF I] and I2 = conjunct2[OF I]
  note c2 = conjunct1[OF I2] and I3 = conjunct2[OF I2]
  note c3 = conjunct1[OF I3] and I4 = conjunct2[OF I3]
  note c4 = conjunct1[OF I4] and I5 = conjunct2[OF I4]
  show "lvl t = Some l \<Longrightarrow> l \<le> 3" using c1 by blast
  show "lvl (Frame p) = Some l \<Longrightarrow> 0 < l \<and> usable_frame st p"
    "lvl (Frame p) = Some l \<Longrightarrow> i < 512 \<Longrightarrow> \<exists>e. tget st (Frame p) i = Inr e" using c2 by blast+
  show "lvl t = Some l \<Longrightarrow> l < 3 \<Longrightarrow> tget st t i = Inr e \<Longrightarrow>
        empty_ent e \<or> large_ent e \<and> largepage_avail st ! l \<or> table_ent e \<and> lvl (Frame (e AND ADDR_MASK)) = Some (Suc l)"
    using c3[rule_format, of t l i e] by simp
  show "lvl t = Some l \<Longrightarrow> l < 3 \<Longrightarrow> tget st t i = Inr e \<Longrightarrow> table_ent e \<Longrightarrow>
        lvl t' = Some l' \<Longrightarrow> l' < 3 \<Longrightarrow> tget st t' i' = Inr e' \<Longrightarrow> table_ent e' \<Longrightarrow> e AND ADDR_MASK = e' AND ADDR_MASK \<Longrightarrow> t = t' \<and> i = i'"
    using c4[rule_format, of t l i e t' l' i' e'] by simp
  show "frames_free (phys_mem st) F" using I5 by blast
  show "unat p mod 4096 = 0 \<Longrightarrow> unat p div 4096 \<in> F \<Longrightarrow> usable_frame st p \<and> lvl (Frame p) = None"
    using conjunct2[OF I5] by simp
qed

text \<open>What the walk depends on besides the entries.\<close>

definition same_cfg :: "vmem_state \<Rightarrow> vmem_state \<Rightarrow> bool" where
  "same_cfg st st' \<longleftrightarrow> phys_map_sz st' = phys_map_sz st \<and> hugepages st' = hugepages st"

lemma same_cfgD:
  "same_cfg st st' \<Longrightarrow> frame_table st' = frame_table st" "same_cfg st st' \<Longrightarrow> largepage_avail st' = largepage_avail st"
  "same_cfg st st' \<Longrightarrow> usable_frame st' = usable_frame st"
proof -
  show f: "same_cfg st st' \<Longrightarrow> frame_table st' = frame_table st"
    by (rule ext) (simp add: same_cfg_def frame_table_def vmem_phystovirt_def)
  show "same_cfg st st' \<Longrightarrow> largepage_avail st' = largepage_avail st" by (simp add: same_cfg_def largepage_avail_def)
  show "same_cfg st st' \<Longrightarrow> usable_frame st' = usable_frame st" using f by (intro ext) (simp add: usable_frame_def)
qed

lemma same_cfg_trans: "same_cfg a b \<Longrightarrow> same_cfg b c \<Longrightarrow> same_cfg a c" "same_cfg a a"
  by (auto simp: same_cfg_def)

lemma uint_idx: "uint i = uint (j :: u64) \<longleftrightarrow> i = j"
  by (simp add: word_uint_eq_iff)

lemma aget_aset: "aset xs i v = Inr ys \<Longrightarrow> aget ys j = (if j = i then Inr v else aget xs j)"
  by (auto simp: aset_def aget_def nth_list_update split: if_splits)

lemma aset_ex: "aget xs i = Inr e \<Longrightarrow> \<exists>ys. aset xs i v = Inr ys"
  by (auto simp: aset_def aget_def split: if_splits)

lemma tset_ok:
  assumes "tget st t i = Inr e0"
  shows "\<exists>st'. tset st t i e = Inr st' \<and> (\<forall>t' j. tget st' t' j = (if t' = t \<and> j = i then Inr e else tget st t' j)) \<and>
    same_cfg st st' \<and> phys_mem st' = phys_mem st \<and> lcl st' = lcl st"
proof (cases t)
  case (UserTop v)
  obtain n where n: "hget (vms st) v = Inr n" "aget (ptable n) (uint i) = Inr e0" using assms UserTop by (auto simp: tget_def res_iff)
  obtain xs where xs: "aset (ptable n) (uint i) e = Inr xs" using aset_ex[OF n(2)] by blast
  have "v \<noteq> NULL" using n(1) by (auto simp: hget_def)
  then have "hget (hput (vms st) v m) w = (if w = v then Inr m else hget (vms st) w)" for w m
    by (auto simp: hget_def)
  then show ?thesis using UserTop n xs aget_aset[OF xs]
    by (auto simp: tset_def tget_def same_cfg_def uint_idx split: tbl.split)
next
  case KernelTop
  obtain xs where xs: "aset (ptable (kmem st)) (uint i - 256) e = Inr xs" using assms KernelTop aset_ex by (fastforce simp: tget_def)
  then show ?thesis using KernelTop aget_aset[OF xs]
    by (auto simp: tset_def tget_def same_cfg_def uint_idx split: tbl.split)
next
  case (Frame p)
  obtain xs where xs: "aset (mem st p) (uint i) e = Inr xs" using assms Frame aset_ex by (fastforce simp: tget_def)
  then show ?thesis using Frame aget_aset[OF xs]
    by (auto simp: tset_def tget_def same_cfg_def uint_idx split: tbl.split)
qed

section \<open>What a walk sees\<close>

lemma levels_4K: "lv < 3 \<Longrightarrow> levels ! lv \<noteq> KiB4" "levels ! 3 = KiB4"
  by (auto simp: levels_def less_Suc_eq numeral_3_eq_3)

lemma walk_level:
  assumes "l \<le> 3" "tget st t (idx_at l v) = Inr e"
  shows "vmem_virttophys_st (4 - l) st t v =
    (if e AND PRESENT = 0 then Inr (-1, None)
     else if e AND LARGEPAGE \<noteq> 0 \<and> largepage_avail st ! l \<or> l = 3 then Inr (0, Some ((e AND ADDR_MASK) + v mod levels ! l))
     else bindE (frame_table st (e AND ADDR_MASK)) (\<lambda>t. vmem_virttophys_st (4 - Suc l) st t v))"
proof -
  have "4 - l = Suc (3 - l)" "3 - (3 - l) = l" using assms(1) by auto
  moreover have "levels ! l = KiB4 \<longleftrightarrow> l = 3" using levels_4K assms(1) by (cases "l = 3") auto
  ultimately show ?thesis using assms(2) by (auto simp: idx_at_def Let_def simp del: diff_Suc_Suc)
qed

text \<open>The same entries give the same translations.\<close>

lemma walk_cong:
  assumes inv: "pt_inv st lvl F" and c: "same_cfg st st'" and eq: "\<And>t i. lvl t \<noteq> None \<Longrightarrow> tget st' t i = tget st t i"
  shows "n \<le> 4 \<Longrightarrow> lvl t = Some (4 - n) \<Longrightarrow> vmem_virttophys_st n st' t v = vmem_virttophys_st n st t v"
proof (induction n arbitrary: t)
  case 0
  then show ?case by simp
next
  case (Suc n)
  let ?l = "3 - n"
  have l: "?l \<le> 3" "4 - ?l = Suc n" "lvl t = Some ?l" "4 - Suc ?l = n" using Suc.prems by auto
  show ?case
  proof (cases "tget st t (idx_at ?l v)")
    case (Inl f)
    then show ?thesis using eq[of t] l(3) by (simp add: idx_at_def Let_def)
  next
    case (Inr e)
    have r: "vmem_virttophys_st n st' t' v = vmem_virttophys_st n st t' v"
      if "e AND PRESENT \<noteq> 0" "\<not> (e AND LARGEPAGE \<noteq> 0 \<and> largepage_avail st ! ?l \<or> ?l = 3)" "frame_table st (e AND ADDR_MASK) = Inr t'" for t'
    proof -
      have "table_ent e \<and> lvl (Frame (e AND ADDR_MASK)) = Some (Suc ?l)"
        using pt_invD(4)[OF inv l(3) _ Inr] that(1,2) by (auto simp: empty_ent_def large_ent_def)
      moreover have "t' = Frame (e AND ADDR_MASK)" using that(3) by (auto simp: frame_table_def res_iff split: if_splits)
      ultimately show ?thesis using Suc.IH[of t'] Suc.prems(1) that(2) by auto
    qed
    note w = walk_level[OF l(1) Inr] walk_level[OF l(1), of st' t v e]
    show ?thesis using w eq[of t] l(3) Inr r unfolding l(2,4)
      by (cases "frame_table st (e AND ADDR_MASK)") (auto simp: same_cfgD[OF c])
  qed
qed

section \<open>Adding an empty table\<close>

lemma ADDR_MASK_bit: "bit ADDR_MASK n \<longleftrightarrow> 12 \<le> n \<and> n < 52"
proof -
  have "ADDR_MASK = push_bit 12 (mask 40)" by (simp add: mask_eq_exp_minus_1)
  then have "bit ADDR_MASK n = bit (push_bit 12 (mask 40) :: u64) n" by (rule arg_cong)
  then show ?thesis by (auto simp: bit_push_bit_iff bit_mask_iff)
qed

lemma masked_low: "p AND ADDR_MASK = p \<Longrightarrow> bit p n \<Longrightarrow> 12 \<le> n \<and> n < 52"
  using ADDR_MASK_bit[of n] by (metis bit_and_iff)

lemma and_bit: "(x :: u64) AND 2 ^ n = 0 \<longleftrightarrow> \<not> bit x n"
  by (simp add: and_exp_eq_0_iff_not_bit)

lemma PRESENT_bit: "(x :: u64) AND PRESENT = 0 \<longleftrightarrow> \<not> bit x 0" "(x :: u64) AND LARGEPAGE = 0 \<longleftrightarrow> \<not> bit x 7"
  using and_bit[of x 0] and_bit[of x 7] by simp_all

lemma small_numeral_bit: "bit (7 :: u64) n \<longleftrightarrow> n < 3"
proof -
  have "(7 :: u64) = mask 3" by (simp add: mask_eq_exp_minus_1)
  then have "bit (7 :: u64) n = bit (mask 3 :: u64) n" by (rule arg_cong)
  then show ?thesis by (auto simp: bit_mask_iff)
qed

lemma dir_entry:
  assumes "p AND ADDR_MASK = p"
  defines "e \<equiv> (p AND ADDR_MASK) OR PRESENT OR WRITE OR USER"
  shows "table_ent e" "e AND ADDR_MASK = p"
proof -
  have e: "e = p OR 7" unfolding e_def assms(1) by (simp add: or.assoc)
  have "\<not> bit p 7" using masked_low[OF assms(1), of 7] by auto
  then show "table_ent e" unfolding table_ent_def PRESENT_bit e by (simp add: bit_or_iff small_numeral_bit)
  show "e AND ADDR_MASK = p"
  proof (rule bit_word_eqI)
    fix n
    show "bit (e AND ADDR_MASK) n = bit p n" unfolding e bit_and_iff bit_or_iff ADDR_MASK_bit small_numeral_bit
      using masked_low[OF assms(1), of n] by auto
  qed
qed

lemma zero_ent: "empty_ent 0"
  by (simp add: empty_ent_def)

lemma ent_excl: "table_ent e \<Longrightarrow> \<not> empty_ent e" "large_ent e \<Longrightarrow> \<not> table_ent e" "large_ent e \<Longrightarrow> \<not> empty_ent e"
  by (auto simp: table_ent_def empty_ent_def large_ent_def)

text \<open>
  \<open>st'\<close> has one more table, \<open>Frame p\<close>, empty and hung into the empty slot \<open>i\<close> of the directory \<open>t\<close>.
\<close>

definition grown_pt :: "vmem_state \<Rightarrow> (tbl \<Rightarrow> nat option) \<Rightarrow> tbl \<Rightarrow> u64 \<Rightarrow> u64 \<Rightarrow> vmem_state \<Rightarrow> bool" where
  "grown_pt st lvl t i p st' \<longleftrightarrow> same_cfg st st' \<and> lcl st' = lcl st \<and> usable_frame st p \<and> lvl (Frame p) = None \<and>
     (\<exists>e. tget st t i = Inr e \<and> empty_ent e) \<and>
     (\<exists>e. tget st' t i = Inr e \<and> table_ent e \<and> e AND ADDR_MASK = p) \<and>
     (\<forall>j. tget st' (Frame p) j = (if j < 512 then Inr 0 else Inl OutOfBounds)) \<and>
     (\<forall>t' j. t' \<noteq> Frame p \<and> (t' \<noteq> t \<or> j \<noteq> i) \<longrightarrow> tget st' t' j = tget st t' j)"

lemma grownD:
  assumes "grown_pt st lvl t i p st'"
  shows "same_cfg st st'" "lcl st' = lcl st" "usable_frame st p" "lvl (Frame p) = None"
    "\<exists>e. tget st t i = Inr e \<and> empty_ent e" "\<exists>e. tget st' t i = Inr e \<and> table_ent e \<and> e AND ADDR_MASK = p"
    "tget st' (Frame p) j = (if j < 512 then Inr 0 else Inl OutOfBounds)"
    "lvl t' \<noteq> None \<Longrightarrow> t' \<noteq> t \<or> j \<noteq> i \<Longrightarrow> tget st' t' j = tget st t' j"
    "t' \<noteq> Frame p \<Longrightarrow> t' \<noteq> t \<or> j \<noteq> i \<Longrightarrow> tget st' t' j = tget st t' j"
proof -
  have l: "\<forall>t' j. t' \<noteq> Frame p \<and> (t' \<noteq> t \<or> j \<noteq> i) \<longrightarrow> tget st' t' j = tget st t' j"
    using assms unfolding grown_pt_def by (elim conjE)
  show 4: "same_cfg st st'" "lcl st' = lcl st" "usable_frame st p" "lvl (Frame p) = None"
    "\<exists>e. tget st t i = Inr e \<and> empty_ent e" "\<exists>e. tget st' t i = Inr e \<and> table_ent e \<and> e AND ADDR_MASK = p"
    "tget st' (Frame p) j = (if j < 512 then Inr 0 else Inl OutOfBounds)"
    using assms unfolding grown_pt_def by blast+
  show o: "t' \<noteq> Frame p \<Longrightarrow> t' \<noteq> t \<or> j \<noteq> i \<Longrightarrow> tget st' t' j = tget st t' j" using l by simp
  show "lvl t' \<noteq> None \<Longrightarrow> t' \<noteq> t \<or> j \<noteq> i \<Longrightarrow> tget st' t' j = tget st t' j"
    by (rule o) (use 4(4) in auto)
qed

lemma level_masks: "l \<le> 3 \<Longrightarrow> masks ! l = push_bit (shamts ! l) (mask 9) \<and> shamts ! l + 9 < 64 \<and> 12 \<le> shamts ! l"
proof -
  assume "l \<le> 3"
  then have "l = 0 \<or> l = Suc 0 \<or> l = Suc (Suc 0) \<or> l = Suc (Suc (Suc 0))" by auto
  then show ?thesis by (auto simp: masks_def shamts_def mask_eq_exp_minus_1)
qed

lemma idx_at_take: "l \<le> 3 \<Longrightarrow> idx_at l v = take_bit 9 (drop_bit (shamts ! l) v)"
  using level_masks[of l] unfolding idx_at_def
  by (intro bit_word_eqI) (auto simp: bit_take_bit_iff bit_drop_bit_eq bit_and_iff bit_push_bit_iff bit_mask_iff)

lemma idx_at_bound: "l \<le> 3 \<Longrightarrow> idx_at l v < 512"
  using and_mask_less'[of 9 "drop_bit (shamts ! l) v"] by (simp add: idx_at_take take_bit_eq_mask)

lemma walk_grown:
  assumes inv: "pt_inv st lvl F" and t: "lvl t = Some l" "l < 3" and g: "grown_pt st lvl t i p st'"
  shows "n \<le> 4 \<Longrightarrow> lvl t' = Some (4 - n) \<Longrightarrow> vmem_virttophys_st n st' t' v = vmem_virttophys_st n st t' v"
proof (induction n arbitrary: t')
  case 0
  then show ?case by simp
next
  case (Suc n)
  note G = grownD[OF g]
  let ?l = "3 - n"
  have l: "?l \<le> 3" "4 - ?l = Suc n" "lvl t' = Some ?l" "4 - Suc ?l = n" using Suc.prems by auto
  show ?case
  proof (cases "t' = t \<and> idx_at ?l v = i")
    case True
    obtain e e' where e: "tget st t i = Inr e" "empty_ent e" "tget st' t i = Inr e'" "table_ent e'" "e' AND ADDR_MASK = p"
      using G(5,6) by blast
    have l3: "?l < 3" "Suc ?l \<le> 3" using True l(3) t by auto
    have old: "vmem_virttophys_st (Suc n) st t' v = Inr (-1, None)"
      using walk_level[OF l(1), of st t' v e] True e(1,2) unfolding l(2) by (simp add: empty_ent_def)
    have "vmem_virttophys_st (4 - Suc ?l) st' (Frame p) v = Inr (-1, None)"
      using walk_level[OF l3(2), of st' "Frame p" v 0] G(7) idx_at_bound[OF l3(2)] by simp
    then have "vmem_virttophys_st (Suc n) st' t' v = Inr (-1, None)"
      using walk_level[OF l(1), of st' t' v e'] True e(3-5) l3(1) G(3) unfolding l(2) same_cfgD(1)[OF G(1)]
      by (simp add: table_ent_def usable_frame_def)
    then show ?thesis using old by simp
  next
    case False
    then have eq: "tget st' t' (idx_at ?l v) = tget st t' (idx_at ?l v)" using G(8)[of t' "idx_at ?l v"] l(3) by auto
    show ?thesis
    proof (cases "tget st t' (idx_at ?l v)")
      case (Inl f)
      then show ?thesis using eq by (simp add: idx_at_def Let_def)
    next
      case (Inr e)
      have r: "vmem_virttophys_st n st' u v = vmem_virttophys_st n st u v"
        if "e AND PRESENT \<noteq> 0" "\<not> (e AND LARGEPAGE \<noteq> 0 \<and> largepage_avail st ! ?l \<or> ?l = 3)" "frame_table st (e AND ADDR_MASK) = Inr u" for u
      proof -
        have "table_ent e \<and> lvl (Frame (e AND ADDR_MASK)) = Some (Suc ?l)"
          using pt_invD(4)[OF inv l(3) _ Inr] that(1,2) by (auto simp: empty_ent_def large_ent_def)
        moreover have "u = Frame (e AND ADDR_MASK)" using that(3) by (auto simp: frame_table_def res_iff split: if_splits)
        ultimately show ?thesis using Suc.IH[of u] Suc.prems(1) that(2) by auto
      qed
      note w = walk_level[OF l(1) Inr] walk_level[OF l(1), of st' t' v e]
      show ?thesis using w eq Inr r unfolding l(2,4)
        by (cases "frame_table st (e AND ADDR_MASK)") (auto simp: same_cfgD[OF G(1)])
    qed
  qed
qed

lemma pt_inv_grown:
  assumes inv: "pt_inv st lvl F" and t: "lvl t = Some l" "l < 3" and g: "grown_pt st lvl t i p st'"
    and F: "frames_free (phys_mem st') F'" "F' \<subseteq> F" "unat p div 4096 \<notin> F'"
  shows "pt_inv st' (lvl(Frame p \<mapsto> Suc l)) F'"
proof -
  note I = pt_invD[OF inv] and G = grownD[OF g]
  let ?lvl = "lvl(Frame p \<mapsto> Suc l)"
  obtain e0 e1 where e: "tget st t i = Inr e0" "empty_ent e0" "tget st' t i = Inr e1" "table_ent e1" "e1 AND ADDR_MASK = p"
    using G(5,6) by blast
  have tp: "t \<noteq> Frame p" using t(1) G(4) by auto
  have old: "tget st' t' j = (if t' = t \<and> j = i then Inr e1 else tget st t' j)" if "lvl t' \<noteq> None" for t' j
    using G(8)[OF that, of j] e(3) by auto
  have slot: "(t' = t \<and> j = i \<and> e = e1 \<and> k = l) \<or> ((t' \<noteq> t \<or> j \<noteq> i) \<and> lvl t' = Some k \<and> tget st t' j = Inr e) \<or> (t' = Frame p \<and> e = 0 \<and> k = Suc l)"
    if "?lvl t' = Some k" "tget st' t' j = Inr e" for t' j e k
    using that old[of t' j] G(7)[of j] tp t(1) by (auto split: if_splits)
  have 1: "\<forall>t l'. ?lvl t = Some l' \<longrightarrow> l' \<le> 3" using I(1) t(2) by auto
  have 2: "0 < l' \<and> usable_frame st' q \<and> (\<forall>i < 512. \<exists>e. tget st' (Frame q) i = Inr e)" if "?lvl (Frame q) = Some l'" for q l'
  proof (cases "q = p")
    case True
    then show ?thesis using that G(3,7) by (simp add: same_cfgD(3)[OF G(1)])
  next
    case False
    then have "lvl (Frame q) = Some l'" using that by simp
    then show ?thesis using I(2,3)[of q l'] old[of "Frame q"] by (auto simp: same_cfgD(3)[OF G(1)])
  qed
  have 3: "empty_ent e \<or> large_ent e \<and> largepage_avail st' ! k \<or> table_ent e \<and> ?lvl (Frame (e AND ADDR_MASK)) = Some (Suc k)"
    if "?lvl t' = Some k" "k < 3" "tget st' t' j = Inr e" for t' j e k
    using slot[OF that(1,3)] I(4)[of t' k j e] that(2) e(4,5) zero_ent G(4) by (auto simp: same_cfgD(2)[OF G(1)])
  have ne: "e' AND ADDR_MASK \<noteq> p" if "lvl t' = Some k" "k < 3" "tget st t' j = Inr e'" "table_ent e'" for t' k j e'
    using I(4)[OF that(1-3)] that(4) G(4) ent_excl by auto
  have 4: "t' = t'' \<and> j = j'"
    if a: "?lvl t' = Some k" "k < 3" "tget st' t' j = Inr e" "table_ent e" "?lvl t'' = Some k'" "k' < 3" "tget st' t'' j' = Inr e'" "table_ent e'"
      "e AND ADDR_MASK = e' AND ADDR_MASK" for t' j e k t'' j' e' k'
  proof -
    have z: "\<not> table_ent 0" by (simp add: table_ent_def)
    from slot[OF a(1,3)] slot[OF a(5,7)] show ?thesis
      using I(5)[of t' k j e t'' k' j' e'] ne[of t' k j e] ne[of t'' k' j' e'] a(2,4,6,8,9) z e(5) by auto
  qed
  have 5: "usable_frame st' q \<and> ?lvl (Frame q) = None" if "unat q mod 4096 = 0" "unat q div 4096 \<in> F'" for q
    using I(7)[OF that(1)] that(2) F(2,3) by (auto simp: same_cfgD(3)[OF G(1)])
  show ?thesis unfolding pt_inv_def
  proof (intro conjI)
    show "\<forall>t la. ?lvl t = Some la \<longrightarrow> la \<le> 3" by (rule 1)
    show "\<forall>q l'. ?lvl (Frame q) = Some l' \<longrightarrow> 0 < l' \<and> usable_frame st' q \<and> (\<forall>i < 512. \<exists>e. tget st' (Frame q) i = Inr e)"
      using 2 by blast
    show "\<forall>t' k j e. ?lvl t' = Some k \<and> k < 3 \<and> tget st' t' j = Inr e \<longrightarrow>
        empty_ent e \<or> large_ent e \<and> largepage_avail st' ! k \<or> table_ent e \<and> ?lvl (Frame (e AND ADDR_MASK)) = Some (Suc k)"
      using 3 by blast
    show "\<forall>t' k j e t'' k' j' e'. ?lvl t' = Some k \<and> k < 3 \<and> tget st' t' j = Inr e \<and> table_ent e \<and>
        ?lvl t'' = Some k' \<and> k' < 3 \<and> tget st' t'' j' = Inr e' \<and> table_ent e' \<and> e AND ADDR_MASK = e' AND ADDR_MASK \<longrightarrow> t' = t'' \<and> j = j'"
      using 4 by metis
    show "frames_free (phys_mem st') F'" by (rule F(1))
    show "\<forall>q. unat q mod 4096 = 0 \<and> unat q div 4096 \<in> F' \<longrightarrow> usable_frame st' q \<and> ?lvl (Frame q) = None"
      by (intro allI impI, elim conjE) (rule 5)
  qed
qed

section \<open>Descending\<close>

lemma next_table_fresh:
  assumes inv: "pt_inv st lvl F" and t: "lvl t = Some l" "l < 3" and e: "tget st t i = Inr e" "empty_ent e" and F: "F \<noteq> {}"
  shows "\<exists>p st' F'. next_table st t i = Inr (p, st') \<and> grown_pt st lvl t i p st' \<and> frames_free (phys_mem st') F' \<and>
    F' \<subseteq> F \<and> unat p div 4096 \<notin> F' \<and> card F = Suc (card F') \<and> unat p div 4096 \<in> F"
proof -
  note I = pt_invD[OF inv]
  obtain p pm where a: "pagealloc_alloc (phys_mem st) (-1) (-1) 8 KiB4 = Inr (p, pm)" "unat p mod 4096 = 0" "unat p div 4096 \<in> F"
      "frames_free pm (F - {unat p div 4096})"
    using pagealloc_alloc_frame[OF I(6) F, of "-1" "-1" 8] by auto
  have p: "usable_frame st p" "lvl (Frame p) = None" using I(7)[OF a(2,3)] by auto
  define st1 where "st1 = st\<lparr>phys_mem := pm, mem := (mem st)(p := replicate 512 0)\<rparr>"
  have c1: "same_cfg st st1" by (simp add: same_cfg_def st1_def)
  have g1: "tget st1 t' j = (if t' = Frame p then (if j < 512 then Inr 0 else Inl OutOfBounds) else tget st t' j)" for t' j
    by (cases t') (auto simp: tget_def st1_def aget_def word_less_alt nat_less_iff unat_iff_uint(2))
  have tp: "t \<noteq> Frame p" using t(1) p(2) by auto
  define e1 where "e1 = (p AND ADDR_MASK) OR PRESENT OR WRITE OR USER"
  obtain st2 where s2: "tset st1 t i e1 = Inr st2" "\<And>t' j. tget st2 t' j = (if t' = t \<and> j = i then Inr e1 else tget st1 t' j)"
      "same_cfg st1 st2" "phys_mem st2 = phys_mem st1" "lcl st2 = lcl st1"
    using tset_ok[of st1 t i e e1] g1[of t i] e(1) tp by auto
  have p0: "p \<noteq> 0" "p AND ADDR_MASK = p" "frame_table st p = Inr (Frame p)" using p(1) by (simp_all add: usable_frame_def)
  have "frame_table (st\<lparr>phys_mem := pm\<rparr>) p = Inr (Frame p)" using p0(3) same_cfgD(1)[of st "st\<lparr>phys_mem := pm\<rparr>"] by (simp add: same_cfg_def)
  then have run: "next_table st t i = Inr (p, st2)" using e a(1) p0(1) s2(1)
    by (simp add: next_table_def Let_def empty_ent_def st1_def e1_def)
  have "grown_pt st lvl t i p st2" unfolding grown_pt_def
    using same_cfg_trans(1)[OF c1 s2(3)] s2(5) p e dir_entry[OF p0(2), folded e1_def] s2(2) g1 tp by (auto simp: st1_def)
  moreover have "card F = Suc (card (F - {unat p div 4096}))" using I(6) a(3) by (metis card_Suc_Diff1 frames_free_def)
  ultimately show ?thesis using run a(3,4) s2(4) by (intro exI[of _ p] exI[of _ st2] exI[of _ "F - {unat p div 4096}"]) (auto simp: st1_def)
qed

text \<open>
  Growing keeps the tables there are, every translation, and every frame that is neither a table nor free.
\<close>

definition pt_ext :: "vmem_state \<Rightarrow> (tbl \<Rightarrow> nat option) \<Rightarrow> nat set \<Rightarrow> vmem_state \<Rightarrow> (tbl \<Rightarrow> nat option) \<Rightarrow> nat set \<Rightarrow> bool" where
  "pt_ext st lvl F st' lvl' F' \<longleftrightarrow> same_cfg st st' \<and> lcl st' = lcl st \<and> pt_inv st' lvl' F' \<and>
     (\<forall>t l. lvl t = Some l \<longrightarrow> lvl' t = Some l) \<and>
     (\<forall>t n v. n \<le> 4 \<and> lvl t = Some (4 - n) \<longrightarrow> vmem_virttophys_st n st' t v = vmem_virttophys_st n st t v) \<and>
     (\<forall>t i. lvl t \<noteq> None \<longrightarrow> (\<exists>e. tget st' t i = Inr e) = (\<exists>e. tget st t i = Inr e)) \<and>
     (\<forall>t i e. lvl t \<noteq> None \<and> tget st t i = Inr e \<and> table_ent e \<longrightarrow> tget st' t i = Inr e) \<and> F' \<subseteq> F \<and>
     (\<forall>q. lvl (Frame q) = None \<and> unat q div 4096 \<notin> F \<longrightarrow> lvl' (Frame q) = None \<and> (\<forall>i. tget st' (Frame q) i = tget st (Frame q) i))"

lemma pt_extD:
  assumes "pt_ext st lvl F st' lvl' F'"
  shows "same_cfg st st'" "lcl st' = lcl st" "pt_inv st' lvl' F'" "lvl t = Some l \<Longrightarrow> lvl' t = Some l"
    "n \<le> 4 \<Longrightarrow> lvl t = Some (4 - n) \<Longrightarrow> vmem_virttophys_st n st' t v = vmem_virttophys_st n st t v"
    "lvl t \<noteq> None \<Longrightarrow> (\<exists>e. tget st' t i = Inr e) = (\<exists>e. tget st t i = Inr e)"
    "lvl t \<noteq> None \<Longrightarrow> tget st t i = Inr e \<Longrightarrow> table_ent e \<Longrightarrow> tget st' t i = Inr e" "F' \<subseteq> F"
    "lvl (Frame q) = None \<Longrightarrow> unat q div 4096 \<notin> F \<Longrightarrow> lvl' (Frame q) = None \<and> tget st' (Frame q) i = tget st (Frame q) i"
  using assms unfolding pt_ext_def by blast+

lemma pt_ext_refl: "pt_inv st lvl F \<Longrightarrow> pt_ext st lvl F st lvl F"
  by (simp add: pt_ext_def same_cfg_trans)

lemma pt_ext_trans:
  assumes a: "pt_ext st lvl F st1 lvl1 F1" and b: "pt_ext st1 lvl1 F1 st2 lvl2 F2"
  shows "pt_ext st lvl F st2 lvl2 F2"
proof -
  note A = pt_extD[OF a] and B = pt_extD[OF b]
  have n: "lvl1 t \<noteq> None" if "lvl t \<noteq> None" for t using A(4)[of t] that by auto
  have "vmem_virttophys_st n st2 t v = vmem_virttophys_st n st t v" if "n \<le> 4" "lvl t = Some (4 - n)" for t n v
    using A(5)[OF that] B(5)[OF that(1) A(4)[OF that(2)]] by simp
  moreover have "(\<exists>e. tget st2 t i = Inr e) = (\<exists>e. tget st t i = Inr e)" if "lvl t \<noteq> None" for t i
    using A(6)[OF that, of i] B(6)[OF n[OF that], of i] by simp
  moreover have "tget st2 t i = Inr e" if "lvl t \<noteq> None" "tget st t i = Inr e" "table_ent e" for t i e
    using A(7)[OF that] B(7)[OF n[OF that(1)] _ that(3)] by simp
  moreover have "lvl2 (Frame q) = None \<and> tget st2 (Frame q) i = tget st (Frame q) i" if "lvl (Frame q) = None" "unat q div 4096 \<notin> F" for q i
    using A(9)[OF that, of i] B(9)[of q i] A(8) that(2) by auto
  ultimately show ?thesis unfolding pt_ext_def
    using same_cfg_trans(1)[OF A(1) B(1)] A(2) B(2,3) A(4)[THEN B(4)] A(8) B(8) by auto
qed

lemma next_table_ok:
  assumes inv: "pt_inv st lvl F" and t: "lvl t = Some l" "l < 3" and e: "tget st t i = Inr e" "\<not> large_ent e" and F: "F \<noteq> {}"
  shows "\<exists>p st' lvl' F'. next_table st t i = Inr (p, st') \<and> pt_ext st lvl F st' lvl' F' \<and> lvl' (Frame p) = Some (Suc l) \<and>
    card F \<le> Suc (card F') \<and> (\<exists>e'. tget st' t i = Inr e' \<and> table_ent e' \<and> e' AND ADDR_MASK = p)"
proof (cases "empty_ent e")
  case True
  obtain p st' F' where n: "next_table st t i = Inr (p, st')" "grown_pt st lvl t i p st'" "frames_free (phys_mem st') F'"
      "F' \<subseteq> F" "unat p div 4096 \<notin> F'" "card F = Suc (card F')" "unat p div 4096 \<in> F"
    using next_table_fresh[OF inv t e(1) True F] by blast
  note G = grownD[OF n(2)]
  have inv': "pt_inv st' (lvl(Frame p \<mapsto> Suc l)) F'" by (rule pt_inv_grown[OF inv t n(2-5)])
  have val: "(\<exists>e. tget st' t' j = Inr e) = (\<exists>e. tget st t' j = Inr e)" if "lvl t' \<noteq> None" for t' j
    using G(8)[OF that, of j] G(5,6) by (cases "t' = t \<and> j = i") auto
  have tab: "tget st' t' j = Inr e'" if "lvl t' \<noteq> None" "tget st t' j = Inr e'" "table_ent e'" for t' j e'
    using G(8)[OF that(1), of j] e(1) True ent_excl(1)[OF that(3)] that by (cases "t' = t \<and> j = i") auto
  have out: "(lvl(Frame p \<mapsto> Suc l)) (Frame q) = None \<and> (\<forall>j. tget st' (Frame q) j = tget st (Frame q) j)"
    if q: "lvl (Frame q) = None" "unat q div 4096 \<notin> F" for q
  proof -
    have "q \<noteq> p" "Frame q \<noteq> t" using q n(7) t(1) by auto
    then show ?thesis using q(1) G(9)[of "Frame q"] by simp
  qed
  have "pt_ext st lvl F st' (lvl(Frame p \<mapsto> Suc l)) F'" unfolding pt_ext_def
  proof (intro conjI)
    show "\<forall>t n v. n \<le> 4 \<and> lvl t = Some (4 - n) \<longrightarrow> vmem_virttophys_st n st' t v = vmem_virttophys_st n st t v"
      using walk_grown[OF inv t n(2)] by blast
    show "\<forall>q. lvl (Frame q) = None \<and> unat q div 4096 \<notin> F \<longrightarrow>
        (lvl(Frame p \<mapsto> Suc l)) (Frame q) = None \<and> (\<forall>i. tget st' (Frame q) i = tget st (Frame q) i)"
      using out by blast
  qed (use G(1,2,4) n(4) inv' val tab in auto)
  then show ?thesis using n(1,6) G(6) by (intro exI[of _ p] exI[of _ st'] exI[of _ "lvl(Frame p \<mapsto> Suc l)"] exI[of _ F']) auto
next
  case False
  then have e': "table_ent e" "lvl (Frame (e AND ADDR_MASK)) = Some (Suc l)" using pt_invD(4)[OF inv t e(1)] e(2) by auto
  have "e AND ADDR_MASK \<noteq> 0" using pt_invD(2)[OF inv e'(2)] by (simp add: usable_frame_def)
  then have "next_table st t i = Inr (e AND ADDR_MASK, st)" using e(1) by (simp add: next_table_def Let_def)
  then show ?thesis using pt_ext_refl[OF inv] e' e(1)
    by (intro exI[of _ "e AND ADDR_MASK"] exI[of _ st] exI[of _ lvl] exI[of _ F]) auto
qed

lemma map_level:
  assumes inv: "pt_inv st lvl F" and t: "lvl t = Some l" "l < 3" and e: "tget st t (idx_at l virt) = Inr e" "\<not> large_ent e" and F: "F \<noteq> {}"
    and sz: "sz_left > 0" "sz_left mod levels ! l \<noteq> 0"
  shows "\<exists>p st' lvl' F'. pt_ext st lvl F st' lvl' F' \<and> lvl' (Frame p) = Some (Suc l) \<and> card F \<le> Suc (card F') \<and>
    (\<exists>e'. tget st' t (idx_at l virt) = Inr e' \<and> table_ent e' \<and> e' AND ADDR_MASK = p) \<and>
    (\<forall>ret st''. vmem_map_st (3 - l) perms st' (Frame p) virt phys sz_left = Inr (ret, st'') \<and> ret \<noteq> vmem_err_continue \<longrightarrow>
       vmem_map_st (4 - l) perms st t virt phys sz_left = Inr (ret, st''))"
proof -
  obtain p st' lvl' F' e' where n: "next_table st t (idx_at l virt) = Inr (p, st')" "pt_ext st lvl F st' lvl' F'" "lvl' (Frame p) = Some (Suc l)"
      "card F \<le> Suc (card F')" "tget st' t (idx_at l virt) = Inr e'" "table_ent e'" "e' AND ADDR_MASK = p"
    using next_table_ok[OF inv t e F] by blast
  have fr: "frame_table st' p = Inr (Frame p)" using pt_invD(2)[OF pt_extD(3)[OF n(2)] n(3)] by (simp add: usable_frame_def)
  have l: "4 - l = Suc (3 - l)" "3 - (3 - l) = l" using t(2) by auto
  have "vmem_map_st (4 - l) perms st t virt phys sz_left = Inr (ret, st'')"
    if "vmem_map_st (3 - l) perms st' (Frame p) virt phys sz_left = Inr (ret, st'')" "ret \<noteq> vmem_err_continue" for ret st''
  proof -
    have "map_tables (Suc 511) (vmem_map_st (3 - l) perms) l st t (idx_at l virt) virt phys sz_left = Inr (ret, st'')"
      by (subst map_tables.simps) (use that n(1,5,6) fr sz(1) in \<open>simp add: table_ent_def\<close>)
    then show ?thesis unfolding l(1) using sz(2) by (simp add: Let_def l(2) idx_at_def)
  qed
  then show ?thesis using n by (intro exI[of _ p] exI[of _ st'] exI[of _ lvl'] exI[of _ F']) auto
qed

section \<open>The last table on a walk\<close>

text \<open>\<open>leaf_tbl n st t v\<close>: the table of pages that a walk for \<open>v\<close> ends in, \<open>n\<close> directories below \<open>t\<close>.\<close>

primrec leaf_tbl :: "nat \<Rightarrow> vmem_state \<Rightarrow> tbl \<Rightarrow> u64 \<Rightarrow> tbl option" where
  "leaf_tbl 0 st t v = Some t"
| "leaf_tbl (Suc n) st t v =
     (case tget st t (idx_at (2 - n) v) of
        Inl _ \<Rightarrow> None
      | Inr e \<Rightarrow> if table_ent e then leaf_tbl n st (Frame (e AND ADDR_MASK)) v else None)"

lemma leaf_tbl_Suc:
  assumes "leaf_tbl (Suc n) st t v = Some u"
  obtains e where "tget st t (idx_at (2 - n) v) = Inr e" "table_ent e" "leaf_tbl n st (Frame (e AND ADDR_MASK)) v = Some u"
  using assms by (auto split: sum.splits if_splits)

lemma table_below:
  assumes "pt_inv st lvl F" "lvl t = Some l" "l < 3" "tget st t i = Inr e" "table_ent e"
  shows "lvl (Frame (e AND ADDR_MASK)) = Some (Suc l)" "frame_table st (e AND ADDR_MASK) = Inr (Frame (e AND ADDR_MASK))"
proof -
  show l: "lvl (Frame (e AND ADDR_MASK)) = Some (Suc l)" using pt_invD(4)[OF assms(1-4)] assms(5) ent_excl by blast
  show "frame_table st (e AND ADDR_MASK) = Inr (Frame (e AND ADDR_MASK))" using pt_invD(2)[OF assms(1) l] by (simp add: usable_frame_def)
qed

lemma leaf_tbl_walk:
  assumes inv: "pt_inv st lvl F"
  shows "n \<le> 3 \<Longrightarrow> lvl t = Some (3 - n) \<Longrightarrow> leaf_tbl n st t v = Some u \<Longrightarrow>
    lvl u = Some 3 \<and> vmem_virttophys_st (Suc n) st t v = vmem_virttophys_st 1 st u v"
proof (induction n arbitrary: t)
  case 0
  then show ?case by simp
next
  case (Suc n)
  obtain e where e: "tget st t (idx_at (2 - n) v) = Inr e" "table_ent e" "leaf_tbl n st (Frame (e AND ADDR_MASK)) v = Some u"
    using leaf_tbl_Suc[OF Suc.prems(3)] .
  have l: "lvl t = Some (2 - n)" "2 - n < 3" "4 - (2 - n) = Suc (Suc n)" "4 - Suc (2 - n) = Suc n" "Suc (2 - n) = 3 - n" using Suc.prems(1,2) by auto
  note b = table_below[OF inv l(1,2) e(1,2)]
  have "lvl u = Some 3 \<and> vmem_virttophys_st (Suc n) st (Frame (e AND ADDR_MASK)) v = vmem_virttophys_st 1 st u v"
    using Suc.IH[OF _ _ e(3)] b(1) Suc.prems(1) l(5) by simp
  then show ?case using walk_level[of "2 - n" st t v e] e(1,2) b(2) l(2) unfolding l(3,4) by (simp add: table_ent_def)
qed

text \<open>Walks that end in the same table took the same way.\<close>

lemma leaf_tbl_inj:
  assumes inv: "pt_inv st lvl F"
  shows "n \<le> 3 \<Longrightarrow> lvl t = Some (3 - n) \<Longrightarrow> lvl t' = Some (3 - n) \<Longrightarrow> leaf_tbl n st t v = Some u \<Longrightarrow> leaf_tbl n st t' v' = Some u \<Longrightarrow>
    t = t' \<and> (\<forall>l. 3 - n \<le> l \<and> l < 3 \<longrightarrow> idx_at l v = idx_at l v')"
proof (induction n arbitrary: t t')
  case 0
  then show ?case by auto
next
  case (Suc n)
  obtain e where e: "tget st t (idx_at (2 - n) v) = Inr e" "table_ent e" "leaf_tbl n st (Frame (e AND ADDR_MASK)) v = Some u"
    using leaf_tbl_Suc[OF Suc.prems(4)] .
  obtain e' where e': "tget st t' (idx_at (2 - n) v') = Inr e'" "table_ent e'" "leaf_tbl n st (Frame (e' AND ADDR_MASK)) v' = Some u"
    using leaf_tbl_Suc[OF Suc.prems(5)] .
  have l: "lvl t = Some (2 - n)" "lvl t' = Some (2 - n)" "2 - n < 3" "Suc (2 - n) = 3 - n" using Suc.prems(1-3) by auto
  have ih: "Frame (e AND ADDR_MASK) = Frame (e' AND ADDR_MASK) \<and> (\<forall>l. 3 - n \<le> l \<and> l < 3 \<longrightarrow> idx_at l v = idx_at l v')"
    using Suc.IH[OF _ _ _ e(3) e'(3)] table_below(1)[OF inv l(1,3) e(1,2)] table_below(1)[OF inv l(2,3) e'(1,2)] Suc.prems(1) l(4) by simp
  then have s: "t = t' \<and> idx_at (2 - n) v = idx_at (2 - n) v'"
    using pt_invD(5)[OF inv l(1,3) e(1,2) l(2,3) e'(1,2)] by simp
  have "l = 2 - n \<or> 3 - n \<le> l" if "3 - Suc n \<le> l" for l using that Suc.prems(1) by auto
  then show ?case using s ih by blast
qed

text \<open>Changing the entries of one table of pages.\<close>

lemma leaf_change:
  assumes inv: "pt_inv st lvl F" and c: "same_cfg st st'" and u: "lvl u = Some 3"
    and eq: "\<And>t i. lvl t \<noteq> None \<Longrightarrow> t \<noteq> u \<Longrightarrow> tget st' t i = tget st t i"
  shows "n \<le> 3 \<Longrightarrow> lvl t = Some (3 - n) \<Longrightarrow> leaf_tbl n st' t v = leaf_tbl n st t v \<and>
    (leaf_tbl n st t v \<noteq> Some u \<longrightarrow> vmem_virttophys_st (Suc n) st' t v = vmem_virttophys_st (Suc n) st t v)"
proof (induction n arbitrary: t)
  case 0
  then have l: "lvl t = Some 3" by simp
  show ?case
  proof (cases "t = u")
    case False
    then have "tget st' t (idx_at 3 v) = tget st t (idx_at 3 v)" using eq[of t] l by simp
    then show ?thesis using walk_level[of 3 st t v] walk_level[of 3 st' t v]
      by (cases "tget st t (idx_at 3 v)") (simp_all add: idx_at_def Let_def)
  qed simp
next
  case (Suc n)
  have l: "lvl t = Some (2 - n)" "2 - n < 3" "4 - (2 - n) = Suc (Suc n)" "4 - Suc (2 - n) = Suc n" "Suc (2 - n) = 3 - n" using Suc.prems by auto
  have tu: "t \<noteq> u" using l(1,2) u by auto
  then have g: "tget st' t (idx_at (2 - n) v) = tget st t (idx_at (2 - n) v)" using eq[of t] l(1) by simp
  show ?case
  proof (cases "tget st t (idx_at (2 - n) v)")
    case (Inl f)
    moreover have "3 - Suc n = 2 - n" by simp
    ultimately show ?thesis using g by (simp add: idx_at_def Let_def)
  next
    case (Inr e)
    note w = walk_level[of "2 - n" st t v e] walk_level[of "2 - n" st' t v e]
    show ?thesis
    proof (cases "table_ent e")
      case True
      note b = table_below[OF inv l(1,2) Inr True]
      show ?thesis using Suc.IH[of "Frame (e AND ADDR_MASK)"] b True Inr g w l(2,5) Suc.prems(1) unfolding l(3,4)
        by (auto simp: table_ent_def same_cfgD[OF c])
    next
      case False
      then have "empty_ent e \<or> large_ent e \<and> largepage_avail st ! (2 - n)" using pt_invD(4)[OF inv l(1,2) Inr] by blast
      then show ?thesis using False Inr g w l(2) unfolding l(3,4) by (auto simp: empty_ent_def large_ent_def same_cfgD[OF c])
    qed
  qed
qed

section \<open>Filling a table of pages\<close>

lemma idx_add:
  assumes "unat (i :: u64) + Suc j \<le> 512"
  shows "unat (i + of_nat j) = unat i + j" "i + of_nat j < 512"
proof -
  show u: "unat (i + of_nat j) = unat i + j" using assms by (simp add: unat_word_ariths unat_of_nat)
  then show "i + of_nat j < 512" using assms by (simp add: word_less_nat_alt)
qed

lemma map_pages_fill:
  assumes "unat idx + k \<le> 512" "unat sz_left = k * 4096" "k < fuel"
    "\<And>j. j < k \<Longrightarrow> \<exists>e. tget st u (idx + of_nat j) = Inr e \<and> e AND PRESENT = 0"
  shows "\<exists>st'. map_pages fuel st u idx phys sz_left KiB4 c_flags = Inr (0, st') \<and> same_cfg st st' \<and> phys_mem st' = phys_mem st \<and>
    lcl st' = lcl st \<and> (\<forall>j < k. tget st' u (idx + of_nat j) = Inr (((phys + of_nat j * KiB4) AND ADDR_MASK) OR c_flags)) \<and>
    (\<forall>t i. t \<noteq> u \<or> (\<forall>j < k. i \<noteq> idx + of_nat j) \<longrightarrow> tget st' t i = tget st t i)"
  using assms
proof (induction k arbitrary: fuel st idx phys sz_left)
  case 0
  then have "sz_left = 0" by (simp add: unat_eq_0)
  then show ?case using 0(3) by (cases fuel) (auto simp: same_cfg_trans)
next
  case (Suc k)
  obtain f where f: "fuel = Suc f" "k < f" using Suc.prems(3) by (cases fuel) auto
  obtain e where e: "tget st u idx = Inr e" "e AND PRESENT = 0" using Suc.prems(4)[of 0] by auto
  let ?e = "(phys AND ADDR_MASK) OR c_flags"
  obtain st1 where s1: "tset st u idx ?e = Inr st1" "\<And>t j. tget st1 t j = (if t = u \<and> j = idx then Inr ?e else tget st t j)"
      "same_cfg st st1" "phys_mem st1 = phys_mem st" "lcl st1 = lcl st"
    using tset_ok[OF e(1), of ?e] by blast
  have i1: "unat (idx + 1) = unat idx + 1" "idx < 512" using idx_add[of idx 1] idx_add[of idx 0] Suc.prems(1)
    by (auto simp: word_less_nat_alt unat_word_ariths)
  have sz: "unat (sz_left - KiB4) = k * 4096"
    using Suc.prems(2) unat_sub[of KiB4 sz_left] by (simp add: word_le_nat_alt)
  have nz: "sz_left > 0" using Suc.prems(2) by (simp add: word_less_nat_alt)
  have sh: "idx + 1 + of_nat j = idx + of_nat (Suc j)" for j by simp
  have ne: "idx + of_nat (Suc j) \<noteq> idx" if "j < k" for j
  proof
    assume "idx + of_nat (Suc j) = idx"
    then have "unat (idx + of_nat (Suc j)) = unat idx" by simp
    then show False using idx_add(1)[of idx "Suc j"] Suc.prems(1) that by simp
  qed
  have fr: "\<exists>e. tget st1 u (idx + 1 + of_nat j) = Inr e \<and> e AND PRESENT = 0" if "j < k" for j
    using Suc.prems(4)[of "Suc j"] that ne[OF that] s1(2)[of u "idx + of_nat (Suc j)"] unfolding sh by auto
  obtain st2 where s2: "map_pages f st1 u (idx + 1) (phys + KiB4) (sz_left - KiB4) KiB4 c_flags = Inr (0, st2)" "same_cfg st1 st2"
      "phys_mem st2 = phys_mem st1" "lcl st2 = lcl st1"
      "\<forall>j < k. tget st2 u (idx + 1 + of_nat j) = Inr (((phys + KiB4 + of_nat j * KiB4) AND ADDR_MASK) OR c_flags)"
      "\<forall>t i. t \<noteq> u \<or> (\<forall>j < k. i \<noteq> idx + 1 + of_nat j) \<longrightarrow> tget st2 t i = tget st1 t i"
    using Suc.IH[of "idx + 1" "sz_left - KiB4" f st1 "phys + KiB4"] Suc.prems(1) i1 sz f(2) fr by auto
  have run: "map_pages fuel st u idx phys sz_left KiB4 c_flags = Inr (0, st2)"
    using f(1) nz i1(2) e s1(1) s2(1) by (simp add: not_le)
  have a: "tget st2 u (idx + of_nat j) = Inr (((phys + of_nat j * KiB4) AND ADDR_MASK) OR c_flags)" if "j < Suc k" for j
  proof (cases j)
    case 0
    have "\<forall>j < k. idx \<noteq> idx + 1 + of_nat j" using ne unfolding sh by metis
    then have "tget st2 u idx = tget st1 u idx" using s2(6) by blast
    then show ?thesis using s1(2)[of u idx] 0 by simp
  next
    case (Suc i)
    then show ?thesis using s2(5)[rule_format, of i] that unfolding sh by (simp add: algebra_simps)
  qed
  have b: "tget st2 t i = tget st t i" if "t \<noteq> u \<or> (\<forall>j < Suc k. i \<noteq> idx + of_nat j)" for t i
  proof -
    have "i \<noteq> idx + 1 + of_nat j" if "j < k" "\<forall>j < Suc k. i \<noteq> idx + of_nat j" for j
      unfolding sh using that(2)[rule_format, of "Suc j"] that(1) by simp
    moreover have "i \<noteq> idx" if "\<forall>j < Suc k. i \<noteq> idx + of_nat j" using that[rule_format, of 0] by simp
    ultimately have "t \<noteq> u \<or> (\<forall>j < k. i \<noteq> idx + 1 + of_nat j) \<and> i \<noteq> idx" using that by blast
    then show ?thesis using s2(6)[rule_format, of t i] s1(2)[of t i] by auto
  qed
  show ?case using run same_cfg_trans(1)[OF s1(3) s2(2)] s1(4,5) s2(3,4) a b by (intro exI[of _ st2]) auto
qed

section \<open>Mapping a run of pages\<close>

lemma map_large:
  assumes "pt_inv st lvl F" "lvl t = Some l" "l < 3" "tget st t (idx_at l virt) = Inr e" "large_ent e" "sz_left > 0" "sz_left mod levels ! l \<noteq> 0"
  shows "vmem_map_st (4 - l) perms st t virt phys sz_left = Inr (vmem_err_alreadymapped, st)"
    "\<exists>x. vmem_virttophys_st (4 - l) st t virt = Inr (0, Some x)"
proof -
  have av: "largepage_avail st ! l" using pt_invD(4)[OF assms(1-4)] ent_excl assms(5) by blast
  have l: "4 - l = Suc (3 - l)" "3 - (3 - l) = l" using assms(3) by auto
  have "map_tables (Suc 511) (vmem_map_st (3 - l) perms) l st t (idx_at l virt) virt phys sz_left = Inr (vmem_err_alreadymapped, st)"
    by (subst map_tables.simps) (use assms(4-6) in \<open>simp add: next_table_def large_ent_def\<close>)
  then show "vmem_map_st (4 - l) perms st t virt phys sz_left = Inr (vmem_err_alreadymapped, st)"
    unfolding l(1) using assms(7) by (simp add: Let_def l(2) idx_at_def)
  show "\<exists>x. vmem_virttophys_st (4 - l) st t virt = Inr (0, Some x)"
    using walk_level[of l st t virt e] assms(3-5) av by (simp add: large_ent_def)
qed

text \<open>The walk down: it ends in a table of pages, or on a large page.\<close>

lemma map_down:
  "n \<le> 3 \<Longrightarrow> pt_inv st lvl F \<Longrightarrow> lvl t = Some (3 - n) \<Longrightarrow> n \<le> card F \<Longrightarrow> \<exists>e. tget st t (idx_at (3 - n) virt) = Inr e \<Longrightarrow>
   sz_left > 0 \<Longrightarrow> (\<And>l. l < 3 \<Longrightarrow> sz_left mod levels ! l \<noteq> 0) \<Longrightarrow>
   (\<exists>st' lvl' F' u. pt_ext st lvl F st' lvl' F' \<and> leaf_tbl n st' t virt = Some u \<and>
      (\<forall>ret st''. vmem_map_st 1 perms st' u virt phys sz_left = Inr (ret, st'') \<and> ret \<noteq> vmem_err_continue \<longrightarrow>
         vmem_map_st (Suc n) perms st t virt phys sz_left = Inr (ret, st''))) \<or>
   (\<exists>st' lvl' F' x. pt_ext st lvl F st' lvl' F' \<and> vmem_map_st (Suc n) perms st t virt phys sz_left = Inr (vmem_err_alreadymapped, st') \<and>
      vmem_virttophys_st (Suc n) st t virt = Inr (0, Some x))"
proof (induction n arbitrary: st lvl F t)
  case 0
  then show ?case using pt_ext_refl by (intro disjI1) (auto intro!: exI[of _ st] exI[of _ lvl] exI[of _ F])
next
  case (Suc n)
  let ?l = "2 - n"
  have l: "?l < 3" "lvl t = Some ?l" "4 - ?l = Suc (Suc n)" "3 - ?l = Suc n" "Suc ?l = 3 - n" "3 - Suc n = ?l" using Suc.prems(1,3) by auto
  obtain e where e: "tget st t (idx_at ?l virt) = Inr e" using Suc.prems(5) l(6) by auto
  show ?case
  proof (cases "large_ent e")
    case True
    have "vmem_map_st (Suc (Suc n)) perms st t virt phys sz_left = Inr (vmem_err_alreadymapped, st)"
      "\<exists>x. vmem_virttophys_st (Suc (Suc n)) st t virt = Inr (0, Some x)"
      using map_large(1)[OF Suc.prems(2) l(2,1) e True Suc.prems(6) Suc.prems(7)[OF l(1)], of perms phys]
        map_large(2)[OF Suc.prems(2) l(2,1) e True Suc.prems(6) Suc.prems(7)[OF l(1)]] unfolding l(3) by auto
    then show ?thesis using pt_ext_refl[OF Suc.prems(2)] by blast
  next
    case False
    have F: "F \<noteq> {}" using Suc.prems(4) by auto
    obtain p st1 lvl1 F1 e1 where m: "pt_ext st lvl F st1 lvl1 F1" "lvl1 (Frame p) = Some (Suc ?l)" "card F \<le> Suc (card F1)"
        "tget st1 t (idx_at ?l virt) = Inr e1" "table_ent e1" "e1 AND ADDR_MASK = p"
        "\<And>ret st''. vmem_map_st (Suc n) perms st1 (Frame p) virt phys sz_left = Inr (ret, st'') \<Longrightarrow> ret \<noteq> vmem_err_continue \<Longrightarrow>
          vmem_map_st (Suc (Suc n)) perms st t virt phys sz_left = Inr (ret, st'')"
      using map_level[OF Suc.prems(2) l(2,1) e False F Suc.prems(6) Suc.prems(7)[OF l(1)], of perms phys] unfolding l(3,4) by blast
    note E = pt_extD[OF m(1)]
    have lp: "lvl1 (Frame p) = Some (3 - n)" using m(2) l(5) by simp
    have v: "\<exists>e. tget st1 (Frame p) (idx_at (3 - n) virt) = Inr e" using pt_invD(3)[OF E(3) lp] idx_at_bound[of "3 - n" virt] by auto
    have fr: "frame_table st1 p = Inr (Frame p)" using pt_invD(2)[OF E(3) lp] by (simp add: usable_frame_def)
    have t1: "lvl1 t = Some ?l" using E(4) l(2) by blast
    consider (leaf) st2 lvl2 F2 u where "pt_ext st1 lvl1 F1 st2 lvl2 F2" "leaf_tbl n st2 (Frame p) virt = Some u"
        "\<And>ret st''. vmem_map_st 1 perms st2 u virt phys sz_left = Inr (ret, st'') \<Longrightarrow> ret \<noteq> vmem_err_continue \<Longrightarrow>
          vmem_map_st (Suc n) perms st1 (Frame p) virt phys sz_left = Inr (ret, st'')"
      | (big) st2 lvl2 F2 x where "pt_ext st1 lvl1 F1 st2 lvl2 F2" "vmem_map_st (Suc n) perms st1 (Frame p) virt phys sz_left = Inr (vmem_err_alreadymapped, st2)"
        "vmem_virttophys_st (Suc n) st1 (Frame p) virt = Inr (0, Some x)"
      using Suc.IH[OF _ E(3) lp _ v Suc.prems(6,7)] Suc.prems(1,4) m(3) by (auto 0 3)
    then show ?thesis
    proof cases
      case leaf
      have "tget st2 t (idx_at ?l virt) = Inr e1" using pt_extD(7)[OF leaf(1) _ m(4,5)] t1 by simp
      then have "leaf_tbl (Suc n) st2 t virt = Some u" using leaf(2) m(5,6) by simp
      then show ?thesis using pt_ext_trans[OF m(1) leaf(1)] leaf(3)[THEN m(7)]
        by (intro disjI1 exI[of _ st2] exI[of _ lvl2] exI[of _ F2] exI[of _ u]) blast
    next
      case big
      have ne: "\<not> (e1 AND LARGEPAGE \<noteq> 0 \<and> largepage_avail st1 ! ?l \<or> ?l = 3)" "e1 AND PRESENT \<noteq> 0" using m(5) l(1) by (auto simp: table_ent_def)
      have "4 - Suc ?l = Suc n" using l(5) Suc.prems(1) by simp
      then have "vmem_virttophys_st (Suc (Suc n)) st1 t virt = Inr (0, Some x)"
        using walk_level[of ?l st1 t virt e1] m(4,6) ne fr big(3) l(1) unfolding l(3)
        by (auto simp del: vmem_virttophys_st.simps)
      then have "vmem_virttophys_st (Suc (Suc n)) st t virt = Inr (0, Some x)"
        using E(5)[of "Suc (Suc n)" t virt] l(2,3) Suc.prems(1) by simp
      then show ?thesis using pt_ext_trans[OF m(1) big(1)] m(7)[OF big(2)] by auto
    qed
  qed
qed

lemma leaf_tbl_cong: "(\<And>l. l < 3 \<Longrightarrow> idx_at l v = idx_at l v') \<Longrightarrow> leaf_tbl n st t v = leaf_tbl n st t v'"
  by (induction n arbitrary: t) (auto split: sum.split)

lemma idx_at_unat: "l \<le> 3 \<Longrightarrow> unat (idx_at l v) = unat v div 2 ^ (shamts ! l) mod 512"
  unfolding idx_at_take unsigned_take_bit_eq unat_drop_bit_eq by (simp add: take_bit_eq_mod drop_bit_eq_div)

lemma shamts_nth: "shamts ! 0 = 39" "shamts ! 1 = 30" "shamts ! 2 = 21" "shamts ! 3 = 12" "shamts ! Suc 0 = 30"
  by (simp_all add: shamts_def numeral_2_eq_2 numeral_3_eq_3)

text \<open>Addresses below the same directory entries are those of one 2 MiB region.\<close>

lemma same_region:
  assumes "unat v < 2 ^ 48" "unat w < 2 ^ 48"
  shows "(\<forall>l < 3. idx_at l v = idx_at l w) \<longleftrightarrow> unat v div 2 ^ 21 = unat w div 2 ^ 21"
proof
  have d: "x div 2 ^ 39 = x div 2 ^ 21 div 2 ^ 18" "x div 2 ^ 30 = x div 2 ^ 21 div 2 ^ 9" for x :: nat by (simp_all add: div_mult2_eq[symmetric])
  have c: "l = 0 \<or> l = 1 \<or> l = 2" if "l < 3" for l :: nat using that by auto
  show "\<forall>l < 3. idx_at l v = idx_at l w" if e: "unat v div 2 ^ 21 = unat w div 2 ^ 21"
  proof (intro allI impI)
    fix l :: nat assume "l < 3"
    then have "unat (idx_at l v) = unat (idx_at l w)"
      using c[OF \<open>l < 3\<close>] e d[of "unat v"] d[of "unat w"] by (auto simp: idx_at_unat shamts_nth)
    then show "idx_at l v = idx_at l w" by (simp add: word_unat_eq_iff)
  qed
  show "unat v div 2 ^ 21 = unat w div 2 ^ 21" if e: "\<forall>l < 3. idx_at l v = idx_at l w"
  proof -
    define x y where "x = unat v div 2 ^ 21" "y = unat w div 2 ^ 21"
    have b: "x < 2 ^ 27" "y < 2 ^ 27" using assms by (simp_all add: x_y_def less_mult_imp_div_less)
    have u: "unat (idx_at 0 z) = unat z div 2 ^ 21 div 2 ^ 18 mod 512" "unat (idx_at 1 z) = unat z div 2 ^ 21 div 2 ^ 9 mod 512"
      "unat (idx_at 2 z) = unat z div 2 ^ 21 mod 512" for z
      using idx_at_unat[of 0 z] idx_at_unat[of 1 z] idx_at_unat[of 2 z] unfolding shamts_nth d by simp_all
    have "idx_at 0 v = idx_at 0 w" "idx_at 1 v = idx_at 1 w" "idx_at 2 v = idx_at 2 w" using e by auto
    then have i: "x div 2 ^ 18 mod 512 = y div 2 ^ 18 mod 512" "x div 2 ^ 9 mod 512 = y div 2 ^ 9 mod 512" "x mod 512 = y mod 512"
      unfolding x_y_def u[symmetric] by simp_all
    have "z div 2 ^ 9 = z div 2 ^ 18 * 512 + z div 2 ^ 9 mod 512" "z = z div 2 ^ 9 * 512 + z mod 512" "z div 2 ^ 18 < 512" if "z < 2 ^ 27" for z :: nat
    proof -
      have "z div 2 ^ 18 = z div 2 ^ 9 div 512" by (simp add: div_mult2_eq[symmetric])
      then show "z div 2 ^ 9 = z div 2 ^ 18 * 512 + z div 2 ^ 9 mod 512" by (simp add: mult.commute)
    qed (use that in \<open>simp_all add: less_mult_imp_div_less\<close>)
    from this[OF b(1)] this[OF b(2)] show ?thesis using i unfolding x_y_def[symmetric] by (metis mod_less)
  qed
qed

definition page_run :: "u64 \<Rightarrow> nat \<Rightarrow> u64 \<Rightarrow> bool" where
  "page_run virt k v \<longleftrightarrow> unat virt \<le> unat v \<and> unat v < unat virt + k * 4096"

text \<open>A run that stays inside one table of pages.\<close>

definition in_one_table :: "u64 \<Rightarrow> nat \<Rightarrow> bool" where
  "in_one_table virt k \<longleftrightarrow> unat virt mod 4096 = 0 \<and> 0 < k \<and> k < 512 \<and> unat virt div 4096 mod 512 + k \<le> 512 \<and> unat virt < 2 ^ 47"

lemma run_idx:
  assumes r: "in_one_table virt k" and v: "page_run virt k v"
  defines "j \<equiv> (unat v - unat virt) div 4096"
  shows "unat v div 2 ^ 21 = unat virt div 2 ^ 21" "idx_at 3 v = idx_at 3 virt + of_nat j" "j < k" "unat v < 2 ^ 48"
    "unat v = unat virt + j * 4096 + unat v mod 4096"
proof -
  obtain a where a: "unat virt = a * 4096" using r by (auto simp: in_one_table_def elim!: dvdE simp: mod_eq_0_iff_dvd mult.commute)
  define b q s where "b = unat v div 4096" "q = a div 512" "s = a mod 512"
  have aq: "a = q * 512 + s" "s < 512" by (simp_all add: b_q_s_def)
  have sk: "s + k \<le> 512" "k < 512" "a * 4096 < 2 ^ 47" using r a by (simp_all add: in_one_table_def b_q_s_def)
  have vb: "unat v = b * 4096 + unat v mod 4096" by (simp add: b_q_s_def)
  have m: "unat v mod 4096 < 4096" by simp
  have ab: "a \<le> b" "b < a + k" using v vb m unfolding page_run_def a by linarith+
  have "unat v - unat virt = (b - a) * 4096 + unat v mod 4096" using vb ab(1) unfolding a by (simp add: diff_mult_distrib)
  then have j: "j = b - a" unfolding j_def using m by simp
  show jk: "j < k" using j ab by simp
  show vj: "unat v = unat virt + j * 4096 + unat v mod 4096" unfolding a j using vb ab(1) by (simp add: diff_mult_distrib)
  then show "unat v < 2 ^ 48" using jk m sk(2,3) unfolding a by simp
  have bq: "b = q * 512 + (s + j)" "s + j < 512" using aq j ab jk sk by auto
  have d: "x div 2 ^ 21 = x div 4096 div 512" for x :: nat by (simp add: div_mult2_eq[symmetric])
  have "b div 512 = q" using bq by simp
  moreover have "a div 512 = q" by (simp add: b_q_s_def)
  ultimately show "unat v div 2 ^ 21 = unat virt div 2 ^ 21" unfolding d a b_q_s_def by simp
  have iv: "unat (idx_at 3 virt) = s" using idx_at_unat[of 3 virt] by (simp add: shamts_nth a b_q_s_def)
  have "unat (idx_at 3 v) = b mod 512" using idx_at_unat[of 3 v] by (simp add: shamts_nth b_q_s_def)
  also have "\<dots> = s + j" using bq by simp
  also have "\<dots> = unat (idx_at 3 virt + of_nat j)" using idx_add(1)[of "idx_at 3 virt" j] iv bq(2) by simp
  finally show "idx_at 3 v = idx_at 3 virt + of_nat j" by (simp add: word_unat_eq_iff)
qed

lemma run_idx_conv:
  assumes r: "in_one_table virt k" and v: "unat v div 2 ^ 21 = unat virt div 2 ^ 21" "j < k" "idx_at 3 v = idx_at 3 virt + of_nat j"
  shows "page_run virt k v"
proof -
  obtain a where a: "unat virt = a * 4096" using r by (auto simp: in_one_table_def elim!: dvdE simp: mod_eq_0_iff_dvd mult.commute)
  define b where "b = unat v div 4096"
  have d: "x div 2 ^ 21 = x div 4096 div 512" for x :: nat by (simp add: div_mult2_eq[symmetric])
  have q: "b div 512 = a div 512" using v(1) unfolding d a b_def by simp
  have iv: "unat (idx_at 3 virt) = a mod 512" using idx_at_unat[of 3 virt] by (simp add: shamts_nth a)
  have "unat (idx_at 3 v) = b mod 512" using idx_at_unat[of 3 v] by (simp add: shamts_nth b_def)
  moreover have "a mod 512 + Suc j \<le> 512" using r v(2) by (simp add: in_one_table_def a)
  ultimately have "b mod 512 = a mod 512 + j" using v(3) idx_add(1)[of "idx_at 3 virt" j] iv by simp
  then have "b = a + j" using q by (metis add.assoc div_mult_mod_eq)
  moreover have "unat v = b * 4096 + unat v mod 4096" "unat v mod 4096 < 4096" by (simp_all add: b_def)
  ultimately show ?thesis using v(2) unfolding page_run_def a by auto
qed

lemma page_flags_4K: "page_flags perms KiB4 AND ADDR_MASK = 0" "page_flags perms KiB4 AND PRESENT \<noteq> 0"
proof -
  have "page_flags perms KiB4 AND ADDR_MASK = 0"
    unfolding page_flags_def bit.conj_disj_distrib2 by (auto split: if_splits)
  then show "page_flags perms KiB4 AND ADDR_MASK = 0" .
  show "page_flags perms KiB4 AND PRESENT \<noteq> 0"
    unfolding PRESENT_bit page_flags_def by (simp add: bit_or_iff)
qed

lemma aligned_ADDR_MASK:
  assumes "unat a mod 4096 = 0" "unat a < 2 ^ 52"
  shows "a AND ADDR_MASK = a"
proof (rule bit_word_eqI)
  fix n
  have "a < 2 ^ 52" using assms(2) by (simp add: word_less_nat_alt)
  moreover have "a mod BTM_LEVEL = 0" using assms(1) unfolding mod_BTM_unat .
  ultimately show "bit (a AND ADDR_MASK) n = bit a n"
    unfolding bit_and_iff ADDR_MASK_bit using less_exp_bit[of a 52 n] aligned_bit[of a n] by (cases "bit a n") simp_all
qed

lemma page_entry:
  assumes "unat a mod 4096 = 0" "unat a < 2 ^ 52"
  shows "((a AND ADDR_MASK) OR page_flags perms KiB4) AND ADDR_MASK = a"
    "((a AND ADDR_MASK) OR page_flags perms KiB4) AND PRESENT \<noteq> 0"
proof -
  note m = aligned_ADDR_MASK[OF assms(1,2)]
  show "((a AND ADDR_MASK) OR page_flags perms KiB4) AND ADDR_MASK = a"
    unfolding bit.conj_disj_distrib2 page_flags_4K(1) m by simp
  show "((a AND ADDR_MASK) OR page_flags perms KiB4) AND PRESENT \<noteq> 0"
    using page_flags_4K(2)[of perms] unfolding PRESENT_bit by (simp add: bit_or_iff)
qed

lemma pt_inv_leaf:
  assumes inv: "pt_inv st lvl F" and c: "same_cfg st st'" "phys_mem st' = phys_mem st" and u: "lvl u = Some 3"
    and eq: "\<And>t i. t \<noteq> u \<Longrightarrow> tget st' t i = tget st t i" and val: "\<And>i. (\<exists>e. tget st' u i = Inr e) = (\<exists>e. tget st u i = Inr e)"
  shows "pt_inv st' lvl F"
proof -
  note I = pt_invD[OF inv]
  have d: "tget st' t i = tget st t i" if "lvl t = Some l" "l < 3" for t i l
    by (rule eq) (use that u in auto)
  have v: "(\<exists>e. tget st' t i = Inr e) = (\<exists>e. tget st t i = Inr e)" for t i using val eq[of t i] by (cases "t = u") auto
  show ?thesis unfolding pt_inv_def c(2) same_cfgD[OF c(1)] v
  proof (intro conjI)
    show "\<forall>t l. lvl t = Some l \<longrightarrow> l \<le> 3" using I(1) by blast
    show "\<forall>p l. lvl (Frame p) = Some l \<longrightarrow> 0 < l \<and> usable_frame st p \<and> (\<forall>i<512. \<exists>e. tget st (Frame p) i = Inr e)" using I(2,3) by blast
    show "\<forall>t l i e. lvl t = Some l \<and> l < 3 \<and> tget st' t i = Inr e \<longrightarrow>
        empty_ent e \<or> large_ent e \<and> largepage_avail st ! l \<or> table_ent e \<and> lvl (Frame (e AND ADDR_MASK)) = Some (Suc l)"
      using I(4) d by metis
    show "\<forall>t l i e t' l' i' e'. lvl t = Some l \<and> l < 3 \<and> tget st' t i = Inr e \<and> table_ent e \<and>
        lvl t' = Some l' \<and> l' < 3 \<and> tget st' t' i' = Inr e' \<and> table_ent e' \<and> e AND ADDR_MASK = e' AND ADDR_MASK \<longrightarrow> t = t' \<and> i = i'"
    proof (intro allI impI, elim conjE)
      fix t l i e t' l' i' e'
      assume a: "lvl t = Some l" "l < 3" "tget st' t i = Inr e" "table_ent e" "lvl t' = Some l'" "l' < 3" "tget st' t' i' = Inr e'"
        "table_ent e'" "e AND ADDR_MASK = e' AND ADDR_MASK"
      show "t = t' \<and> i = i'" using I(5)[OF a(1,2) _ a(4,5,6) _ a(8,9)] a(3,7) d[OF a(1,2)] d[OF a(5,6)] by simp
    qed
    show "frames_free (phys_mem st) F" by (rule I(6))
    show "\<forall>p. unat p mod 4096 = 0 \<and> unat p div 4096 \<in> F \<longrightarrow> usable_frame st p \<and> lvl (Frame p) = None"
      by (intro allI impI, elim conjE) (rule I(7))
  qed
qed

lemma run_size:
  assumes "0 < k" "k < 512" "sz = of_nat (k * 4096)"
  shows "unat sz = k * 4096" "sz > 0" "sz mod KiB4 = 0" "\<And>l. l < 3 \<Longrightarrow> sz mod levels ! l \<noteq> 0"
proof -
  show u: "unat sz = k * 4096" unfolding assms(3) by (rule unat_of_nat_64) (use assms(2) in simp)
  then show "sz > 0" using assms(1) by (simp add: word_less_nat_alt)
  have m: "unat (sz mod d) = k * 4096 mod unat d" for d by (simp add: unat_mod u)
  show "sz mod KiB4 = 0" using m[of KiB4] by (simp flip: unat_eq_0)
  fix l :: nat assume "l < 3"
  then have "l = 0 \<or> l = Suc 0 \<or> l = Suc (Suc 0)" by auto
  then have "unat (levels ! l) > k * 4096" using assms(2) by (auto simp: levels_def)
  then show "sz mod levels ! l \<noteq> 0" using m[of "levels ! l"] assms(1) by (auto simp flip: unat_eq_0)
qed

lemma map_st_leaf:
  assumes "sz_left mod KiB4 = 0"
  shows "vmem_map_st 1 perms st u virt phys sz_left = map_pages 513 st u (idx_at 3 virt) phys sz_left KiB4 (page_flags perms KiB4)"
proof -
  have "levels ! 3 = KiB4" "largepage_avail st ! 3" by (simp_all add: levels_def largepage_avail_def numeral_3_eq_3)
  then show ?thesis using assms by (simp add: idx_at_def Let_def)
qed

lemma leaf_tbl_frame: "leaf_tbl (Suc n) st t v = Some u \<Longrightarrow> \<exists>q. u = Frame q"
proof (induction n arbitrary: t)
  case 0
  then show ?case by (auto split: sum.splits if_splits)
next
  case (Suc n)
  show ?case using leaf_tbl_Suc[OF Suc.prems] Suc.IH by metis
qed

lemma run_page:
  assumes r: "in_one_table virt k" and j: "j < k"
  shows "page_run virt k (virt + of_nat j * KiB4)" "idx_at 3 (virt + of_nat j * KiB4) = idx_at 3 virt + of_nat j"
proof -
  have u: "unat (virt + of_nat j * KiB4) = unat virt + j * 4096"
    using r j by (simp add: in_one_table_def unat_word_ariths unat_of_nat)
  then show p: "page_run virt k (virt + of_nat j * KiB4)" using j by (simp add: page_run_def)
  show "idx_at 3 (virt + of_nat j * KiB4) = idx_at 3 virt + of_nat j" using run_idx(2)[OF r p] u by simp
qed

lemma run_leaf:
  assumes "in_one_table virt k" "leaf_tbl 3 st t virt = Some u" "page_run virt k w"
  shows "leaf_tbl 3 st t w = Some u"
proof -
  have "\<forall>l < 3. idx_at l w = idx_at l virt" using same_region[of w virt] run_idx(1,4)[OF assms(1,3)] assms(1) by (simp add: in_one_table_def)
  then show ?thesis using leaf_tbl_cong[of w virt 3 st t] assms(2) by simp
qed

lemma run_slot_free:
  assumes inv: "pt_inv st lvl F" and t: "lvl t = Some 0" and r: "in_one_table virt k" and u: "leaf_tbl 3 st t virt = Some u" and j: "j < k"
    and free: "vmem_virttophys_st 4 st t (virt + of_nat j * KiB4) = Inr (-1, None)"
  shows "\<exists>e. tget st u (idx_at 3 virt + of_nat j) = Inr e \<and> e AND PRESENT = 0"
proof -
  let ?w = "virt + of_nat j * KiB4"
  note w = leaf_tbl_walk[OF inv _ _ run_leaf[OF r u run_page(1)[OF r j]]]
  obtain q where q: "u = Frame q" using leaf_tbl_frame[of 2 st t virt u] u by (metis numeral_3_eq_3 numeral_2_eq_2)
  have "lvl (Frame q) = Some 3" using w t q by simp
  then obtain e where e: "tget st u (idx_at 3 ?w) = Inr e" using pt_invD(3)[OF inv, of q 3 "idx_at 3 ?w"] idx_at_bound[of 3 ?w] q by auto
  have "vmem_virttophys_st 1 st u ?w = Inr (-1, None)" using w t free by simp
  then show ?thesis using walk_level[of 3 st u ?w e] e run_page(2)[OF r j] by (auto split: if_splits)
qed

text \<open>What the pages of a filled run translate to, and that nothing else changed.\<close>

lemma filled_page:
  assumes r: "in_one_table virt k" and ph: "unat phys mod 4096 = 0" "unat phys + k * 4096 \<le> 2 ^ 52" and w: "page_run virt k w"
    and e: "\<forall>j < k. tget st u (idx_at 3 virt + of_nat j) = Inr (((phys + of_nat j * KiB4) AND ADDR_MASK) OR page_flags perms KiB4)"
  shows "vmem_virttophys_st 1 st u w = Inr (0, Some (phys + (w - virt)))"
proof -
  note R = run_idx[OF r w]
  let ?j = "(unat w - unat virt) div 4096"
  let ?a = "phys + of_nat ?j * KiB4"
  have ua: "unat ?a = unat phys + ?j * 4096" using R(3) ph(2) r by (simp add: in_one_table_def unat_word_ariths unat_of_nat)
  have a: "unat ?a mod 4096 = 0" "unat ?a < 2 ^ 52" using ua ph R(3) by (simp_all add: mod_add_eq[symmetric])
  have l3: "levels ! 3 = KiB4" by (simp add: levels_def numeral_3_eq_3)
  have "vmem_virttophys_st 1 st u w = Inr (0, Some (?a + w mod KiB4))"
    using walk_level[of 3 st u w] e R(2,3) page_entry[OF a, of perms] l3 by simp
  moreover have "w = virt + of_nat ?j * KiB4 + w mod KiB4"
  proof (rule word_unat_eq_iff[THEN iffD2])
    have "unat (w mod KiB4) = unat w mod 4096" by (simp add: unat_mod)
    then have "unat (virt + of_nat ?j * KiB4 + w mod KiB4) = (unat virt + ?j * 4096 + unat w mod 4096) mod 2 ^ 64"
      by (simp add: unat_word_ariths unat_of_nat mod_simps)
    then show "unat w = unat (virt + of_nat ?j * KiB4 + w mod KiB4)" using R(4,5) by simp
  qed
  then have "?a + w mod KiB4 = phys + (w - virt)" by (metis (no_types, lifting) add.assoc add_diff_cancel_left')
  ultimately show ?thesis by simp
qed

lemma filled_walk:
  assumes inv: "pt_inv st lvl F" "pt_inv st' lvl F" and c: "same_cfg st st'" and t: "lvl t = Some 0" "lvl t' = Some 0"
    and r: "in_one_table virt k" and ph: "unat phys mod 4096 = 0" "unat phys + k * 4096 \<le> 2 ^ 52" and u: "leaf_tbl 3 st t virt = Some u"
    and e: "\<forall>j < k. tget st' u (idx_at 3 virt + of_nat j) = Inr (((phys + of_nat j * KiB4) AND ADDR_MASK) OR page_flags perms KiB4)"
    and ne: "\<forall>t i. t \<noteq> u \<or> (\<forall>j < k. i \<noteq> idx_at 3 virt + of_nat j) \<longrightarrow> tget st' t i = tget st t i" and w: "unat w < 2 ^ 48"
  shows "vmem_virttophys_st 4 st' t' w =
    (if t' = t \<and> page_run virt k w then Inr (0, Some (phys + (w - virt))) else vmem_virttophys_st 4 st t' w)"
proof -
  have n3: "(4 :: nat) = Suc 3" by simp
  have u3: "lvl u = Some 3" using leaf_tbl_walk[OF inv(1) _ _ u] t(1) by simp
  obtain q where q: "u = Frame q" using leaf_tbl_frame[of 2 st t virt u] u by (metis numeral_3_eq_3 numeral_2_eq_2)
  have L: "leaf_tbl 3 st' t' w = leaf_tbl 3 st t' w"
    "leaf_tbl 3 st t' w \<noteq> Some u \<Longrightarrow> vmem_virttophys_st 4 st' t' w = vmem_virttophys_st 4 st t' w"
    using leaf_change[OF inv(1) c u3, of 3 t' w] ne t(2) unfolding n3 by simp_all
  show ?thesis
  proof (cases "leaf_tbl 3 st t' w = Some u")
    case False
    then show ?thesis using L(2)[OF False] run_leaf[OF r u] by auto
  next
    case True
    have eqs: "t' = t" "\<forall>l < 3. idx_at l w = idx_at l virt" using leaf_tbl_inj[OF inv(1) order_refl _ _ True u] t by auto
    then have reg: "unat w div 2 ^ 21 = unat virt div 2 ^ 21" using same_region[OF w, of virt] r by (simp add: in_one_table_def)
    have ws: "vmem_virttophys_st 4 st' t' w = vmem_virttophys_st 1 st' u w" "vmem_virttophys_st 4 st t' w = vmem_virttophys_st 1 st u w"
      using leaf_tbl_walk[OF inv(2), of 3 t' w u] leaf_tbl_walk[OF inv(1), of 3 t' w u] True L(1) t(2) unfolding n3 by simp_all
    show ?thesis
    proof (cases "page_run virt k w")
      case False
      then have "tget st' u (idx_at 3 w) = tget st u (idx_at 3 w)" using ne run_idx_conv[OF r reg] by blast
      moreover obtain x where "tget st u (idx_at 3 w) = Inr x" using pt_invD(3)[OF inv(1) u3[unfolded q]] idx_at_bound[of 3 w] q by auto
      ultimately have "vmem_virttophys_st 1 st' u w = vmem_virttophys_st 1 st u w"
        using walk_level[of 3 st u w x] walk_level[of 3 st' u w x] by simp
      then show ?thesis using False ws by simp
    next
      case run: True
      show ?thesis using filled_page[OF r ph run e] ws(1) eqs(1) run by simp
    qed
  qed
qed

text \<open>A run of free pages in one table.\<close>

lemma map_run:
  assumes inv: "pt_inv st lvl F" and t: "lvl t = Some 0" and F: "3 \<le> card F" and v: "\<exists>e. tget st t (idx_at 0 virt) = Inr e"
    and r: "in_one_table virt k" and ph: "unat phys mod 4096 = 0" "unat phys + k * 4096 \<le> 2 ^ 52"
    and free: "\<And>j. j < k \<Longrightarrow> vmem_virttophys_st 4 st t (virt + of_nat j * KiB4) = Inr (-1, None)"
  shows "\<exists>st' lvl' F'. vmem_map_st 4 perms st t virt phys (of_nat (k * 4096)) = Inr (0, st') \<and> pt_inv st' lvl' F' \<and>
    same_cfg st st' \<and> lcl st' = lcl st \<and> (\<forall>t l. lvl t = Some l \<longrightarrow> lvl' t = Some l) \<and>
    (\<forall>t i. lvl t \<noteq> None \<longrightarrow> (\<exists>e. tget st' t i = Inr e) = (\<exists>e. tget st t i = Inr e)) \<and>
    (\<forall>t' w. lvl t' = Some 0 \<and> unat w < 2 ^ 48 \<longrightarrow> vmem_virttophys_st 4 st' t' w =
       (if t' = t \<and> page_run virt k w then Inr (0, Some (phys + (w - virt))) else vmem_virttophys_st 4 st t' w)) \<and>
    (\<forall>q i. lvl (Frame q) = None \<and> unat q div 4096 \<notin> F \<longrightarrow> tget st' (Frame q) i = tget st (Frame q) i)"
proof -
  define sz where "sz = (of_nat (k * 4096) :: u64)"
  have k: "0 < k" "k < 512" using r by (simp_all add: in_one_table_def)
  note S = run_size[OF k sz_def]
  have n3: "(4 :: nat) = Suc 3" by simp
  have "\<not> (\<exists>x. vmem_virttophys_st (Suc 3) st t virt = Inr (0, Some x))" using free[OF k(1)] unfolding n3 by simp
  moreover have "(\<exists>st' lvl' F' u. pt_ext st lvl F st' lvl' F' \<and> leaf_tbl 3 st' t virt = Some u \<and>
      (\<forall>ret st''. vmem_map_st 1 perms st' u virt phys sz = Inr (ret, st'') \<and> ret \<noteq> vmem_err_continue \<longrightarrow>
         vmem_map_st (Suc 3) perms st t virt phys sz = Inr (ret, st''))) \<or>
      (\<exists>st' lvl' F' x. pt_ext st lvl F st' lvl' F' \<and> vmem_map_st (Suc 3) perms st t virt phys sz = Inr (vmem_err_alreadymapped, st') \<and>
      vmem_virttophys_st (Suc 3) st t virt = Inr (0, Some x))"
    by (rule map_down[OF order_refl inv]) (use t F v S(2,4) in simp_all)
  ultimately obtain st1 lvl1 F1 u where d: "pt_ext st lvl F st1 lvl1 F1" "leaf_tbl 3 st1 t virt = Some u"
      "\<And>ret st''. vmem_map_st 1 perms st1 u virt phys sz = Inr (ret, st'') \<Longrightarrow> ret \<noteq> vmem_err_continue \<Longrightarrow>
         vmem_map_st 4 perms st t virt phys sz = Inr (ret, st'')" unfolding n3 by blast
  note E = pt_extD[OF d(1)]
  have t1: "lvl1 t = Some 0" using E(4)[OF t] .
  have u3: "lvl1 u = Some 3" using leaf_tbl_walk[OF E(3) _ _ d(2)] t1 by simp
  let ?i = "idx_at 3 virt"
  have room: "unat ?i + k \<le> 512" using r idx_at_unat[of 3 virt] by (simp add: in_one_table_def shamts_nth)
  have slot: "\<exists>e. tget st1 u (?i + of_nat j) = Inr e \<and> e AND PRESENT = 0" if "j < k" for j
    using run_slot_free[OF E(3) t1 r d(2) that] E(5)[of 4 t] t free[OF that] by simp
  obtain st2 where m: "map_pages 513 st1 u ?i phys sz KiB4 (page_flags perms KiB4) = Inr (0, st2)" "same_cfg st1 st2"
      "phys_mem st2 = phys_mem st1" "lcl st2 = lcl st1"
      "\<forall>j < k. tget st2 u (?i + of_nat j) = Inr (((phys + of_nat j * KiB4) AND ADDR_MASK) OR page_flags perms KiB4)"
      "\<forall>t i. t \<noteq> u \<or> (\<forall>j < k. i \<noteq> ?i + of_nat j) \<longrightarrow> tget st2 t i = tget st1 t i"
    using map_pages_fill[OF room S(1) _ slot, of 513 phys "page_flags perms KiB4"] k(2) by auto
  have run: "vmem_map_st 4 perms st t virt phys sz = Inr (0, st2)" using d(3)[of 0 st2] m(1) map_st_leaf[OF S(3)] by simp
  have val: "(\<exists>e. tget st2 x i = Inr e) = (\<exists>e. tget st1 x i = Inr e)" for x i
    using m(5,6) slot by (cases "x = u \<and> (\<exists>j < k. i = ?i + of_nat j)") (auto, blast+)
  have ne: "tget st2 x i = tget st1 x i" if "x \<noteq> u" for x i using m(6) that by blast
  have inv2: "pt_inv st2 lvl1 F1" by (rule pt_inv_leaf[OF E(3) m(2,3) u3 ne val])
  have "vmem_virttophys_st 4 st2 t' w = (if t' = t \<and> page_run virt k w then Inr (0, Some (phys + (w - virt))) else vmem_virttophys_st 4 st t' w)"
    if "lvl t' = Some 0" "unat w < 2 ^ 48" for t' w
    using filled_walk[OF E(3) inv2 m(2) t1 _ r ph d(2) m(5,6) that(2)] E(4)[of t' 0] E(5)[of 4 t' w] that(1) by simp
  moreover have "tget st2 (Frame q) i = tget st (Frame q) i" if "lvl (Frame q) = None" "unat q div 4096 \<notin> F" for q i
    using E(9)[OF that, of i] ne[of "Frame q" i] u3 by (cases "Frame q = u") auto
  ultimately show ?thesis using run inv2 same_cfg_trans(1)[OF E(1) m(2)] E(2,4,6) m(4) val unfolding sz_def
    by (intro exI[of _ st2] exI[of _ lvl1] exI[of _ F1]) auto
qed

text \<open>A page that is mapped already.\<close>

lemma map_refused:
  assumes inv: "pt_inv st lvl F" and t: "lvl t = Some 0" and F: "3 \<le> card F" and v: "\<exists>e. tget st t (idx_at 0 virt) = Inr e"
    and r: "in_one_table virt k" and mapped: "vmem_virttophys_st 4 st t virt = Inr (0, Some x)"
  shows "\<exists>st' lvl' F'. vmem_map_st 4 perms st t virt phys (of_nat (k * 4096)) = Inr (vmem_err_alreadymapped, st') \<and> pt_ext st lvl F st' lvl' F'"
proof -
  define sz where "sz = (of_nat (k * 4096) :: u64)"
  have k: "0 < k" "k < 512" using r by (simp_all add: in_one_table_def)
  note S = run_size[OF k sz_def]
  have n3: "(4 :: nat) = Suc 3" by simp
  have down: "(\<exists>st' lvl' F' u. pt_ext st lvl F st' lvl' F' \<and> leaf_tbl 3 st' t virt = Some u \<and>
      (\<forall>ret st''. vmem_map_st 1 perms st' u virt phys sz = Inr (ret, st'') \<and> ret \<noteq> vmem_err_continue \<longrightarrow>
         vmem_map_st (Suc 3) perms st t virt phys sz = Inr (ret, st''))) \<or>
      (\<exists>st' lvl' F' x. pt_ext st lvl F st' lvl' F' \<and> vmem_map_st (Suc 3) perms st t virt phys sz = Inr (vmem_err_alreadymapped, st') \<and>
      vmem_virttophys_st (Suc 3) st t virt = Inr (0, Some x))"
    by (rule map_down[OF order_refl inv]) (use t F v S(2,4) in simp_all)
  have "vmem_map_st 1 perms st1 u virt phys sz = Inr (vmem_err_alreadymapped, st1)"
    if d: "pt_ext st lvl F st1 lvl1 F1" "leaf_tbl 3 st1 t virt = Some u" for st1 lvl1 F1 u
  proof -
    note E = pt_extD[OF d(1)]
    note W = leaf_tbl_walk[OF E(3) order_refl _ d(2)]
    obtain q where q: "u = Frame q" using leaf_tbl_frame[of 2 st1 t virt u] d(2) by (metis numeral_3_eq_3 numeral_2_eq_2)
    have w: "lvl1 u = Some 3" "vmem_virttophys_st 1 st1 u virt = Inr (0, Some x)"
      using W E(4)[OF t] E(5)[of 4 t virt] t mapped unfolding n3 by simp_all
    obtain e where e: "tget st1 u (idx_at 3 virt) = Inr e" using pt_invD(3)[OF E(3), of q 3 "idx_at 3 virt"] w(1) idx_at_bound[of 3 virt] q by auto
    then have "e AND PRESENT \<noteq> 0" using walk_level[of 3 st1 u virt e] w(2) by (auto split: if_splits)
    then have "map_pages (Suc 512) st1 u (idx_at 3 virt) phys sz KiB4 (page_flags perms KiB4) = Inr (vmem_err_alreadymapped, st1)"
      by (subst map_pages.simps) (use e S(2) idx_at_bound[of 3 virt] in \<open>simp add: not_le\<close>)
    then show ?thesis using map_st_leaf[OF S(3)] by simp
  qed
  then show ?thesis using down unfolding sz_def[symmetric] n3 by (metis add_uminus_conv_diff neg_equal_iff_equal numeral_One numeral_eq_iff semiring_norm(85))
qed

end
