(* ===== verification/AddressSpace.thy ===== *)
theory AddressSpace
  imports PageTables
begin

text \<open>
  The operations of \<^verbatim>\<open>VMem\<close> on whole address spaces, with their locks and the processor's table: mapping,
  unmapping, flushing and activation.
\<close>

section \<open>Locks and saved tables\<close>

lemma walk_same:
  assumes c: "same_cfg st st'" and eq: "\<And>t i. tget st' t i = tget st t i"
  shows "vmem_virttophys_st n st' t v = vmem_virttophys_st n st t v"
proof (induction n arbitrary: t)
  case (Suc n)
  show ?case unfolding vmem_virttophys_st.simps eq same_cfgD[OF c] Suc.IH by (rule refl)
qed simp

lemma pt_inv_same:
  assumes "pt_inv st lvl F" "same_cfg st st'" "phys_mem st' = phys_mem st" "\<And>t i. tget st' t i = tget st t i"
  shows "pt_inv st' lvl F"
  using assms(1) unfolding pt_inv_def assms(3,4) same_cfgD[OF assms(2)] .

lemma hput_other: "hget (hput h p n) q = (if q = p then (if p = NULL then Inl NullDeref else Inr n) else hget h q)"
  by (simp add: hget_def)

lemma lock_vm_ok:
  assumes "hmap (vms st) vm = Some n" "vm \<noteq> NULL" "\<not> vlock n"
  shows "\<exists>st'. lock_vm st vm = Inr st' \<and> same_cfg st st' \<and> phys_mem st' = phys_mem st \<and> lcl st' = lcl st \<and> mem st' = mem st \<and> kmem st' = kmem st \<and>
    (\<forall>t i. tget st' t i = tget st t i) \<and> hmap (vms st') = (hmap (vms st))(vm \<mapsto> n\<lparr>vlock := True\<rparr>)"
  using assms by (auto simp: lock_vm_def same_cfg_def tget_def hput_other split: tbl.split)

lemma unlock_vm_ok:
  assumes "hmap (vms st) vm = Some n" "vm \<noteq> NULL"
  shows "\<exists>st'. unlock_vm st vm = Inr st' \<and> same_cfg st st' \<and> phys_mem st' = phys_mem st \<and> lcl st' = lcl st \<and> mem st' = mem st \<and> kmem st' = kmem st \<and>
    (\<forall>t i. tget st' t i = tget st t i) \<and> hmap (vms st') = (hmap (vms st))(vm \<mapsto> n\<lparr>vlock := False\<rparr>)"
  using assms by (auto simp: unlock_vm_def same_cfg_def tget_def hput_other split: tbl.split)

lemma user_addr: "unat (w :: u64) < 2 ^ 63 \<Longrightarrow> \<not> sint w < 0"
  using sint_small[of w] by simp

lemma same_div_less: "x div d = y div d \<Longrightarrow> y < m * d \<Longrightarrow> x < m * d" for x y d m :: nat
  by (metis div_less_iff_less_mult mult_0_right neq0_conv not_less_zero)

lemma virttophys_user: "unat w < 2 ^ 47 \<Longrightarrow> vm \<noteq> NULL \<Longrightarrow> vmem_virttophys st vm w = vmem_virttophys_st 4 st (UserTop vm) w"
  using user_addr[of w] by (simp add: vmem_virttophys_def del: vmem_virttophys_st.simps)

lemma top_idx:
  assumes "unat w < 2 ^ 47" "hmap (vms st) vm = Some n" "vm \<noteq> NULL" "length (ptable n) = 256"
  shows "tget st (UserTop vm) (idx_at 0 w) = Inr (ptable n ! unat (idx_at 0 w))" "unat (idx_at 0 w) < 256"
proof -
  have "unat w div 2 ^ 39 < 256" using assms(1) by (simp add: less_mult_imp_div_less)
  then have u: "unat (idx_at 0 w) < 256" using idx_at_unat[of 0 w] by (simp add: shamts_nth)
  then show "unat (idx_at 0 w) < 256" .
  show "tget st (UserTop vm) (idx_at 0 w) = Inr (ptable n ! unat (idx_at 0 w))"
    using assms(2-4) u by (simp add: tget_def unat_iff_uint)
qed

section \<open>Mapping into an address space\<close>

text \<open>\<open>ready\<close>: the address space exists and nobody holds its lock; \<open>F\<close> has a frame for every level.\<close>

definition vm_ready :: "vmem_state \<Rightarrow> (tbl \<Rightarrow> nat option) \<Rightarrow> nat set \<Rightarrow> addr \<Rightarrow> bool" where
  "vm_ready st lvl F vm \<longleftrightarrow> pt_inv st lvl F \<and> lvl (UserTop vm) = Some 0 \<and> vm \<noteq> NULL \<and> 3 \<le> card F \<and>
     (\<exists>n. hmap (vms st) vm = Some n \<and> length (ptable n) = 256 \<and> \<not> vlock n)"

lemma vmem_map_run:
  assumes ready: "vm_ready st lvl F vm" and r: "in_one_table virt k" and ph: "unat phys mod 4096 = 0" "unat phys + k * 4096 \<le> 2 ^ 52"
    and free: "\<forall>j < k. vmem_virttophys st vm (virt + of_nat j * KiB4) = Inr (-1, None)"
  shows "\<exists>st' lvl' F'. vmem_map st vm virt phys (of_nat (k * 4096)) perms = Inr (0, st') \<and> pt_inv st' lvl' F' \<and> lcl st' = lcl st \<and>
    same_cfg st st' \<and> (\<exists>n. hmap (vms st') vm = Some n \<and> \<not> vlock n) \<and> (\<forall>t i. lvl t \<noteq> None \<longrightarrow> (\<exists>e. tget st' t i = Inr e) = (\<exists>e. tget st t i = Inr e)) \<and>
    (\<forall>vm' w. lvl (UserTop vm') = Some 0 \<and> vm' \<noteq> NULL \<and> unat w < 2 ^ 47 \<longrightarrow> vmem_virttophys st' vm' w =
       (if vm' = vm \<and> page_run virt k w then Inr (0, Some (phys + (w - virt))) else vmem_virttophys st vm' w)) \<and>
    (\<forall>q i. lvl (Frame q) = None \<and> unat q div 4096 \<notin> F \<longrightarrow> tget st' (Frame q) i = tget st (Frame q) i)"
proof -
  obtain n where R: "pt_inv st lvl F" "lvl (UserTop vm) = Some 0" "vm \<noteq> NULL" "3 \<le> card F" "hmap (vms st) vm = Some n"
      "length (ptable n) = 256" "\<not> vlock n" using ready by (auto simp: vm_ready_def)
  have v: "unat virt < 2 ^ 47" using r by (simp add: in_one_table_def)
  obtain st1 where s1: "lock_vm st vm = Inr st1" "same_cfg st st1" "phys_mem st1 = phys_mem st" "lcl st1 = lcl st"
      "\<And>t i. tget st1 t i = tget st t i"
    using lock_vm_ok[OF R(5,3,7)] by blast
  have inv1: "pt_inv st1 lvl F" by (rule pt_inv_same[OF R(1) s1(2,3,5)])
  have w1: "vmem_virttophys_st 4 st1 t w = vmem_virttophys_st 4 st t w" for t w by (rule walk_same[OF s1(2,5)])
  have "\<exists>e. tget st1 (UserTop vm) (idx_at 0 virt) = Inr e" using top_idx(1)[OF v R(5,3,6)] s1(5) by simp
  moreover have "vmem_virttophys_st 4 st1 (UserTop vm) (virt + of_nat j * KiB4) = Inr (-1, None)" if j: "j < k" for j
  proof -
    have "unat (virt + of_nat j * KiB4) < 2 ^ 47"
      using same_div_less[OF run_idx(1)[OF r run_page(1)[OF r j]], of "2 ^ 26"] v by simp
    then show ?thesis using free j virttophys_user[OF _ R(3), of "virt + of_nat j * KiB4" st] w1 by simp
  qed
  ultimately obtain st2 lvl2 F2 where m: "vmem_map_st 4 perms st1 (UserTop vm) virt phys (of_nat (k * 4096)) = Inr (0, st2)" "pt_inv st2 lvl2 F2"
      "same_cfg st1 st2" "lcl st2 = lcl st1" "\<forall>t l. lvl t = Some l \<longrightarrow> lvl2 t = Some l"
      "\<forall>t i. lvl t \<noteq> None \<longrightarrow> (\<exists>e. tget st2 t i = Inr e) = (\<exists>e. tget st1 t i = Inr e)"
      "\<forall>t' w. lvl t' = Some 0 \<and> unat w < 2 ^ 48 \<longrightarrow> vmem_virttophys_st 4 st2 t' w =
       (if t' = UserTop vm \<and> page_run virt k w then Inr (0, Some (phys + (w - virt))) else vmem_virttophys_st 4 st1 t' w)"
      "\<forall>q i. lvl (Frame q) = None \<and> unat q div 4096 \<notin> F \<longrightarrow> tget st2 (Frame q) i = tget st1 (Frame q) i"
    using map_run[OF inv1 R(2,4) _ r ph, of perms] by blast
  have "\<exists>e. tget st2 (UserTop vm) (idx_at 0 virt) = Inr e" using m(6) R(2) s1(5) top_idx(1)[OF v R(5,3,6)] by simp
  then obtain n2 where n2: "hmap (vms st2) vm = Some n2" using R(3) by (auto simp: tget_def res_iff hget_def split: option.splits)
  obtain st3 where s3: "unlock_vm st2 vm = Inr st3" "same_cfg st2 st3" "phys_mem st3 = phys_mem st2" "lcl st3 = lcl st2"
      "\<And>t i. tget st3 t i = tget st2 t i" "hmap (vms st3) vm = Some (n2\<lparr>vlock := False\<rparr>)"
    using unlock_vm_ok[OF n2 R(3)] by fastforce
  have run: "vmem_map st vm virt phys (of_nat (k * 4096)) perms = Inr (0, st3)"
    using user_addr[of virt] v s1(1) m(1) s3(1) by (simp add: vmem_map_def del: vmem_map_st.simps)
  have inv3: "pt_inv st3 lvl2 F2" by (rule pt_inv_same[OF m(2) s3(2,3,5)])
  have w3: "vmem_virttophys_st 4 st3 t w = vmem_virttophys_st 4 st2 t w" for t w by (rule walk_same[OF s3(2,5)])
  have "vmem_virttophys st3 vm' w = (if vm' = vm \<and> page_run virt k w then Inr (0, Some (phys + (w - virt))) else vmem_virttophys st vm' w)"
    if "lvl (UserTop vm') = Some 0" "vm' \<noteq> NULL" "unat w < 2 ^ 47" for vm' w
    using m(7)[rule_format, of "UserTop vm'" w] that w1 w3 virttophys_user[OF that(3,2)] by simp
  then show ?thesis using run inv3 s1(4,5) m(4,6,8) s3(4,5,6) same_cfg_trans(1)[OF same_cfg_trans(1)[OF s1(2) m(3)] s3(2)]
    by (intro exI[of _ st3] exI[of _ lvl2] exI[of _ F2]) auto
qed

lemma vmem_map_mapped:
  assumes ready: "vm_ready st lvl F vm" and r: "in_one_table virt k" and mapped: "vmem_virttophys st vm virt = Inr (0, Some x)"
  shows "\<exists>st' lvl' F'. vmem_map st vm virt phys (of_nat (k * 4096)) perms = Inr (vmem_err_alreadymapped, st') \<and> pt_inv st' lvl' F' \<and>
    (\<forall>vm' w. lvl (UserTop vm') = Some 0 \<and> vm' \<noteq> NULL \<and> unat w < 2 ^ 47 \<longrightarrow> vmem_virttophys st' vm' w = vmem_virttophys st vm' w)"
proof -
  obtain n where R: "pt_inv st lvl F" "lvl (UserTop vm) = Some 0" "vm \<noteq> NULL" "3 \<le> card F" "hmap (vms st) vm = Some n"
      "length (ptable n) = 256" "\<not> vlock n" using ready by (auto simp: vm_ready_def)
  have v: "unat virt < 2 ^ 47" using r by (simp add: in_one_table_def)
  obtain st1 where s1: "lock_vm st vm = Inr st1" "same_cfg st st1" "phys_mem st1 = phys_mem st" "\<And>t i. tget st1 t i = tget st t i"
    using lock_vm_ok[OF R(5,3,7)] by blast
  have inv1: "pt_inv st1 lvl F" by (rule pt_inv_same[OF R(1) s1(2,3,4)])
  have w1: "vmem_virttophys_st 4 st1 t w = vmem_virttophys_st 4 st t w" for t w by (rule walk_same[OF s1(2,4)])
  have g: "\<exists>e. tget st1 (UserTop vm) (idx_at 0 virt) = Inr e" using top_idx(1)[OF v R(5,3,6)] s1(4) by simp
  have m1: "vmem_virttophys_st 4 st1 (UserTop vm) virt = Inr (0, Some x)" using mapped virttophys_user[OF v R(3)] w1 by simp
  obtain st2 lvl2 F2 where m: "vmem_map_st 4 perms st1 (UserTop vm) virt phys (of_nat (k * 4096)) = Inr (vmem_err_alreadymapped, st2)"
      "pt_ext st1 lvl F st2 lvl2 F2"
    using map_refused[OF inv1 R(2,4) g r m1] by blast
  note E = pt_extD[OF m(2)]
  have "\<exists>e. tget st2 (UserTop vm) (idx_at 0 virt) = Inr e" using E(6) R(2) g by simp
  then obtain n2 where n2: "hmap (vms st2) vm = Some n2" using R(3) by (auto simp: tget_def res_iff hget_def split: option.splits)
  obtain st3 where s3: "unlock_vm st2 vm = Inr st3" "same_cfg st2 st3" "phys_mem st3 = phys_mem st2" "\<And>t i. tget st3 t i = tget st2 t i"
    using unlock_vm_ok[OF n2 R(3)] by blast
  have run: "vmem_map st vm virt phys (of_nat (k * 4096)) perms = Inr (vmem_err_alreadymapped, st3)"
    using user_addr[of virt] v s1(1) m(1) s3(1) by (simp add: vmem_map_def del: vmem_map_st.simps)
  have inv3: "pt_inv st3 lvl2 F2" by (rule pt_inv_same[OF E(3) s3(2,3,4)])
  have w3: "vmem_virttophys_st 4 st3 t w = vmem_virttophys_st 4 st2 t w" for t w by (rule walk_same[OF s3(2,4)])
  have "vmem_virttophys st3 vm' w = vmem_virttophys st vm' w" if "lvl (UserTop vm') = Some 0" "vm' \<noteq> NULL" "unat w < 2 ^ 47" for vm' w
    using E(5)[of 4 "UserTop vm'" w] that w1 w3 virttophys_user[OF that(3,2)] by simp
  then show ?thesis using run inv3 by blast
qed

section \<open>The processor's table\<close>

text \<open>Mapping never touches the lock of the kernel's tables.\<close>

lemma tset_klock: "tset st t i e = Inr st' \<Longrightarrow> \<not> vlock (kmem st) \<Longrightarrow> \<not> vlock (kmem st')"
  by (auto simp: tset_def res_iff split: tbl.splits)

lemma map_pages_klock: "map_pages fuel st t i phys sz_left sz fl = Inr (r, st') \<Longrightarrow> \<not> vlock (kmem st) \<Longrightarrow> \<not> vlock (kmem st')"
  by (induction fuel arbitrary: st i phys sz_left) (force simp: res_iff dest: tset_klock split: if_splits)+

lemma next_table_klock: "next_table st t i = Inr (p, st') \<Longrightarrow> \<not> vlock (kmem st) \<Longrightarrow> \<not> vlock (kmem st')"
  by (auto simp: next_table_def Let_def res_iff dest!: tset_klock split: if_splits)

lemma map_tables_klock:
  assumes "\<And>st t virt phys sz r st'. below st t virt phys sz = Inr (r, st') \<Longrightarrow> \<not> vlock (kmem st) \<Longrightarrow> \<not> vlock (kmem st')"
  shows "map_tables fuel below lv st t i virt phys sz_left = Inr (r, st') \<Longrightarrow> \<not> vlock (kmem st) \<Longrightarrow> \<not> vlock (kmem st')"
proof (induction fuel arbitrary: st i virt phys sz_left)
  case (Suc fuel)
  then show ?case by (auto simp: res_iff Let_def split: if_splits) (use assms next_table_klock in blast)+
qed simp

lemma map_st_klock: "vmem_map_st n perms st t virt phys sz = Inr (r, st') \<Longrightarrow> \<not> vlock (kmem st) \<Longrightarrow> \<not> vlock (kmem st')"
proof (induction n arbitrary: st t virt phys sz r st')
  case (Suc n)
  then show ?case using map_tables_klock[of "vmem_map_st n perms"] map_pages_klock by (simp add: Let_def split: if_splits)
qed simp

lemma user_map_klock:
  assumes "vmem_map st vm virt phys sz perms = Inr (r, st')" "\<not> sint virt < 0" "\<not> vlock (kmem st)"
  shows "\<not> vlock (kmem st')"
proof -
  obtain st1 st2 where "lock_vm st vm = Inr st1" "vmem_map_st 4 perms st1 (UserTop vm) virt phys sz = Inr (r, st2)" "unlock_vm st2 vm = Inr st'"
    using assms(1,2) by (auto simp: vmem_map_def res_iff simp del: vmem_map_st.simps)
  moreover from this(1) have "\<not> vlock (kmem st1)" using assms(3) by (auto simp: lock_vm_def res_iff split: if_splits)
  ultimately show ?thesis using map_st_klock by (auto simp: unlock_vm_def hset_def res_iff simp del: vmem_map_st.simps)
qed

text \<open>
  \<open>core_ready\<close>: the core has its top level frame, which is not one of the tables \<open>lvl\<close> and not free, and nobody
  holds the lock of the kernel's tables.
\<close>

definition core_ready :: "vmem_state \<Rightarrow> (tbl \<Rightarrow> nat option) \<Rightarrow> nat set \<Rightarrow> lcl_data \<Rightarrow> bool" where
  "core_ready st lvl F l \<longleftrightarrow> lcl st = Some l \<and> frame_table st (ktable l) = Inr (Frame (ktable l)) \<and>
     length (mem st (ktable l)) = 512 \<and> lvl (Frame (ktable l)) = None \<and> unat (ktable l) div 4096 \<notin> F \<and> \<not> vlock (kmem st)"

lemma frame_table_upd [simp]:
  "frame_table (st\<lparr>kmem := k\<rparr>) = frame_table st" "frame_table (st\<lparr>vms := h\<rparr>) = frame_table st"
  "frame_table (st\<lparr>mem := m\<rparr>) = frame_table st" "frame_table (st\<lparr>phys_mem := pm\<rparr>) = frame_table st"
  by (simp_all add: frame_table_def vmem_phystovirt_def fun_eq_iff)

lemma savestate_ok:
  assumes l: "lcl st = Some l" "frame_table st (ktable l) = Inr (Frame (ktable l))" "\<not> vlock (kmem st)"
    and cur: "cur_vmem l = NULL \<or> (\<exists>n. hmap (vms st) (cur_vmem l) = Some n \<and> \<not> vlock n)"
  shows "\<exists>st'. vmem_savestate st = Inr st' \<and> same_cfg st st' \<and> lcl st' = lcl st \<and> mem st' = mem st \<and> phys_mem st' = phys_mem st \<and>
    \<not> vlock (kmem st') \<and> ptable (kmem st') = drop 256 (mem st (ktable l)) \<and> cpu st' = cpu st \<and>
    hmap (vms st') = (if cur_vmem l = NULL then hmap (vms st)
      else (hmap (vms st))(cur_vmem l \<mapsto> (the (hmap (vms st) (cur_vmem l)))\<lparr>ptable := take 256 (mem st (ktable l))\<rparr>))"
proof (cases "cur_vmem l = NULL")
  case True
  then show ?thesis using l by (simp add: vmem_savestate_def lock_kmem_def unlock_kmem_def same_cfg_def)
next
  case False
  then obtain n where n: "hmap (vms st) (cur_vmem l) = Some n" "\<not> vlock n" using cur by blast
  then show ?thesis using l False
    by (cases n) (auto simp: vmem_savestate_def lock_vm_def unlock_vm_def lock_kmem_def unlock_kmem_def same_cfg_def)
qed


section \<open>Properties\<close>

definition ex_space :: vmem where
  "ex_space = \<lparr>ptable = replicate 256 0, vflags = vmem_flags_user, vlock = False\<rparr>"

text \<open>Two address spaces, the first of them active on a core whose table is the frame \<^verbatim>\<open>0x8000\<close>; five free pages.\<close>

definition ex_vmem :: vmem_state where
  "ex_vmem = \<lparr>phys_mem = pagealloc_example, mem = (\<lambda>_. replicate 512 0),
     vms = \<lparr>cells = [(0x40, ex_space), (0x80, ex_space)], avail = []\<rparr>,
     kmem = \<lparr>ptable = replicate 256 0, vflags = vmem_flags_kernel, vlock = False\<rparr>,
     lcl = Some \<lparr>ktable = 0x8000, cur_vmem = 0x40\<rparr>, hugepages = True, phys_map_sz = 0x4000000000,
     kernel_vmalloc = 0, cpu = \<lparr>efer = 0, pat = 0, cr4 = 0, cr3 = 0x8000\<rparr>\<rparr>"

definition ex_lvl :: "tbl \<Rightarrow> nat option" where
  "ex_lvl t = (if t = UserTop 0x40 \<or> t = UserTop 0x80 then Some 0 else None)"

definition ex_free :: "nat set" where
  "ex_free = {1, 16, 17, 18, 19}"

lemma ex_frames: "frames_free pagealloc_example ex_free"
proof -
  have "GET_ADDR (BUILD_ENTRY 0x1000 1) = 0x1000" by code_simp
  then show ?thesis by (simp add: frames_free_def ex_free_def pagealloc_example_inv pagealloc_example_list free_pages_def entry_ok_def
        pagealloc_example_entries entry_pages_def upt_rec)
qed

lemma ex_vmem_sel:
  "phys_mem ex_vmem = pagealloc_example" "mem ex_vmem p = replicate 512 0" "lcl ex_vmem = Some \<lparr>ktable = 0x8000, cur_vmem = 0x40\<rparr>"
  "hmap (vms ex_vmem) p = (if p = 0x40 \<or> p = 0x80 then Some ex_space else None)" "vlock (kmem ex_vmem) = False" "phys_map_sz ex_vmem = 0x4000000000"
  by (simp_all add: ex_vmem_def)

lemma ex_tget: "tget ex_vmem (UserTop v) i = Inr e \<Longrightarrow> e = 0"
  by (auto simp: nat_less_iff unat_iff_uint tget_def hget_def ex_vmem_sel ex_space_def aget_def split: if_splits)

lemma ex_usable: "4096 dvd unat p \<Longrightarrow> unat p div 4096 \<in> ex_free \<Longrightarrow> usable_frame ex_vmem p"
proof -
  assume p: "4096 dvd unat p" "unat p div 4096 \<in> ex_free"
  have "unat p = unat p div 4096 * 4096" using p(1) by simp
  then have "p = word_of_nat (unat p div 4096 * 4096)" by (metis of_nat_unat ucast_id)
  then have "p \<in> {0x1000, 0x10000, 0x11000, 0x12000, 0x13000}" using p(2) by (auto simp: ex_free_def)
  then show ?thesis by (auto simp: usable_frame_def frame_table_def vmem_phystovirt_def ex_vmem_sel)
qed

lemma ex_pt_inv: "pt_inv ex_vmem ex_lvl ex_free"
  unfolding pt_inv_def ex_lvl_def
  by (auto simp: ex_vmem_sel ex_frames table_ent_def zero_ent dest!: ex_tget ex_usable split: if_splits)

lemma ex_ready: "vm_ready ex_vmem ex_lvl ex_free 0x40" "vm_ready ex_vmem ex_lvl ex_free 0x80"
  by (simp_all add: vm_ready_def ex_pt_inv ex_vmem_sel ex_space_def ex_lvl_def) (simp_all add: ex_free_def)

lemma ex_core: "core_ready ex_vmem ex_lvl ex_free \<lparr>ktable = 0x8000, cur_vmem = 0x40\<rparr>"
  by (simp add: core_ready_def ex_vmem_sel ex_lvl_def ex_free_def frame_table_def vmem_phystovirt_def)

lemma ex_run: "in_one_table 0x400000 3"
  by (simp add: in_one_table_def)

lemma ex_unmapped: "unat w < 2 ^ 47 \<Longrightarrow> vmem_virttophys ex_vmem 0x40 w = Inr (-1, None)"
proof -
  assume w: "unat w < 2 ^ 47"
  have "tget ex_vmem (UserTop 0x40) (idx_at 0 w) = Inr 0"
    using top_idx[OF w, of ex_vmem "0x40" ex_space] by (simp add: ex_vmem_sel ex_space_def)
  then show ?thesis using walk_level[of 0 ex_vmem "UserTop 0x40" w 0] virttophys_user[OF w] by (simp del: vmem_virttophys_st.simps)
qed



text \<open>
  Mapping again where a page is already mapped answers \<open>vmem_err_alreadymapped\<close>, releases the lock, keeps the
  tables well formed and changes no translation of any address space.
\<close>

theorem vmem_map_refuses_mapped:
  assumes "vm_ready st lvl F vm" "in_one_table virt k" "vmem_virttophys st vm virt = Inr (0, Some x)"
  shows "\<exists>st' lvl' F'. vmem_map st vm virt phys (of_nat (k * 4096)) perms = Inr (vmem_err_alreadymapped, st') \<and> pt_inv st' lvl' F' \<and>
    (\<forall>vm' w. lvl (UserTop vm') = Some 0 \<and> vm' \<noteq> NULL \<and> unat w < 2 ^ 47 \<longrightarrow> vmem_virttophys st' vm' w = vmem_virttophys st vm' w)"
  using vmem_map_mapped[OF assms, of phys perms] .

text \<open>The page at \<^verbatim>\<open>0x400000\<close> is mapped to the frame \<^verbatim>\<open>0x7000\<close> in the first address space.\<close>

definition ex_tables :: "u64 \<Rightarrow> u64 list" where
  "ex_tables p = (if p = 0x20000 then (replicate 512 0)[0 := 0x21007]
     else if p = 0x21000 then (replicate 512 0)[2 := 0x22007]
     else if p = 0x22000 then (replicate 512 0)[0 := 0x7001] else replicate 512 0)"

definition ex_mapped :: vmem_state where
  "ex_mapped = ex_vmem\<lparr>mem := ex_tables, vms := \<lparr>cells = [(0x40, ex_space\<lparr>ptable := (replicate 256 0)[0 := 0x20007]\<rparr>), (0x80, ex_space)], avail = []\<rparr>\<rparr>"

definition ex_mapped_lvl :: "tbl \<Rightarrow> nat option" where
  "ex_mapped_lvl t = (if t = UserTop 0x40 \<or> t = UserTop 0x80 then Some 0 else if t = Frame 0x20000 then Some 1
     else if t = Frame 0x21000 then Some 2 else if t = Frame 0x22000 then Some 3 else None)"

lemma ex_zeros:
  "aget ((replicate m (0 :: u64))[k := e]) (uint i) = Inr x \<Longrightarrow> x = (if unat i = k then e else 0)"
  "aget (replicate m (0 :: u64)) (uint i) = Inr x \<Longrightarrow> x = 0"
  using unat_iff_uint(2)[of i m] by (auto simp: aget_def nth_list_update split: if_splits)

lemma ex_mapped_tget:
  assumes "ex_mapped_lvl t = Some l" "l < 3" "tget ex_mapped t i = Inr e"
  shows "e = 0 \<or> t = UserTop 0x40 \<and> i = 0 \<and> e = 0x20007 \<or> t = Frame 0x20000 \<and> i = 0 \<and> e = 0x21007 \<or> t = Frame 0x21000 \<and> i = 2 \<and> e = 0x22007"
proof -
  have "unat i = 2 \<longleftrightarrow> i = 2" by (simp add: word_unat_eq_iff)
  then show ?thesis using assms
    by (auto simp: ex_mapped_lvl_def ex_mapped_def tget_def ex_tables_def ex_space_def unat_eq_0 dest!: ex_zeros split: if_splits)
qed

lemma ex_mapped_sel:
  "phys_mem ex_mapped = pagealloc_example" "same_cfg ex_vmem ex_mapped" "hmap (vms ex_mapped) 0x40 = Some (ex_space\<lparr>ptable := (replicate 256 0)[0 := 0x20007]\<rparr>)"
  "lcl ex_mapped = Some \<lparr>ktable = 0x8000, cur_vmem = 0x40\<rparr>" "mem ex_mapped = ex_tables" "vlock (kmem ex_mapped) = False"
  "hmap (vms ex_mapped) 0x80 = Some ex_space"
  by (simp_all add: ex_mapped_def ex_vmem_sel same_cfg_def)

lemma ex_mapped_usable: "p \<in> {0x20000, 0x21000, 0x22000} \<Longrightarrow> usable_frame ex_mapped p"
  by (auto simp: same_cfgD[OF ex_mapped_sel(2)] usable_frame_def frame_table_def vmem_phystovirt_def ex_vmem_sel)

lemma ex_mapped_inv: "pt_inv ex_mapped ex_mapped_lvl ex_free"
proof -
  have 1: "l \<le> 3" if "ex_mapped_lvl t = Some l" for t l using that by (auto simp: ex_mapped_lvl_def split: if_splits)
  have 2: "0 < l \<and> usable_frame ex_mapped p \<and> (\<forall>i < 512. \<exists>e. tget ex_mapped (Frame p) i = Inr e)" if "ex_mapped_lvl (Frame p) = Some l" for p l
    using that ex_mapped_usable by (auto simp: ex_mapped_lvl_def tget_def ex_mapped_sel ex_tables_def word_less_def split: if_splits)
  have 3: "empty_ent e \<or> large_ent e \<and> largepage_avail ex_mapped ! l \<or> table_ent e \<and> ex_mapped_lvl (Frame (e AND ADDR_MASK)) = Some (Suc l)"
    if "ex_mapped_lvl t = Some l" "l < 3" "tget ex_mapped t i = Inr e" for t l i e
    using ex_mapped_tget[OF that] that(1) zero_ent by (auto simp: ex_mapped_lvl_def table_ent_def split: if_splits)
  have 4: "t = t' \<and> i = i'" if "ex_mapped_lvl t = Some l" "l < 3" "tget ex_mapped t i = Inr e" "table_ent e"
      "ex_mapped_lvl t' = Some l'" "l' < 3" "tget ex_mapped t' i' = Inr e'" "table_ent e'" "e AND ADDR_MASK = e' AND ADDR_MASK" for t l i e t' l' i' e'
    using ex_mapped_tget[OF that(1-3)] ex_mapped_tget[OF that(5-7)] that(4,8,9) by (auto simp: table_ent_def)
  have 5: "usable_frame ex_mapped p \<and> ex_mapped_lvl (Frame p) = None" if "unat p mod 4096 = 0" "unat p div 4096 \<in> ex_free" for p
    using ex_usable[of p] that unfolding same_cfgD(3)[OF ex_mapped_sel(2)] by (auto simp: ex_mapped_lvl_def ex_free_def)
  show ?thesis unfolding pt_inv_def ex_mapped_sel(1)
    by (intro conjI ex_frames) ((intro allI impI, (elim conjE)?, (erule 1 | erule 2 | erule 5, assumption | erule 3, assumption, assumption | erule 4, assumption+))+)
qed

lemma ex_mapped_ready: "vm_ready ex_mapped ex_mapped_lvl ex_free 0x40"
  by (simp add: vm_ready_def ex_mapped_inv ex_mapped_sel ex_space_def ex_mapped_lvl_def) (simp add: ex_free_def)

lemma ex_mapped_translates: "vmem_virttophys ex_mapped 0x40 0x400000 = Inr (0, Some 0x7000)"
  by code_simp

theorem vmem_map_refuses_mapped_witness:
  "\<exists>st'. vmem_map ex_mapped 0x40 0x400000 0x9000 0x3000 vmem_flags_write = Inr (-1, st') \<and>
     vmem_virttophys st' 0x40 0x400000 = Inr (0, Some 0x7000)"
  using vmem_map_refuses_mapped[OF ex_mapped_ready ex_run ex_mapped_translates, of "0x9000" vmem_flags_write] ex_mapped_translates
  by (fastforce simp: ex_mapped_lvl_def)

text \<open>
  The processor translates through the table of its core, and \<open>vmem_map\<close> changes only the table of the address
  space. When the address space is the active one, what it maps below an entry that the core's table does not have
  is lost at the next \<open>vmem_flush\<close>, which saves the core's table over the one of the address space.
\<close>

theorem vmem_flush_loses_mapping:
  assumes ready: "vm_ready st lvl F vm" and r: "in_one_table virt k" and ph: "unat phys mod 4096 = 0" "unat phys + k * 4096 \<le> 2 ^ 52"
    and free: "\<forall>j < k. vmem_virttophys st vm (virt + of_nat j * KiB4) = Inr (-1, None)"
    and core: "core_ready st lvl F l" "cur_vmem l = vm" and slot: "mem st (ktable l) ! unat (idx_at 0 virt) AND PRESENT = 0"
  shows "\<exists>st1 st2. vmem_map st vm virt phys (of_nat (k * 4096)) perms = Inr (0, st1) \<and>
    vmem_virttophys st1 vm virt = Inr (0, Some phys) \<and>
    vmem_flush st1 virt sz = Inr (0, st2) \<and> vmem_virttophys st2 vm virt = Inr (-1, None)"
proof -
  have R: "lvl (UserTop vm) = Some 0" "vm \<noteq> NULL" using ready by (auto simp: vm_ready_def)
  have v: "unat virt < 2 ^ 47" "page_run virt k virt" using r by (simp_all add: in_one_table_def page_run_def)
  have c: "lcl st = Some l" "frame_table st (ktable l) = Inr (Frame (ktable l))" "length (mem st (ktable l)) = 512"
    "lvl (Frame (ktable l)) = None" "unat (ktable l) div 4096 \<notin> F" "\<not> vlock (kmem st)" using core(1) by (simp_all add: core_ready_def)
  obtain st1 n where m: "vmem_map st vm virt phys (of_nat (k * 4096)) perms = Inr (0, st1)" "lcl st1 = lcl st" "same_cfg st st1"
      "hmap (vms st1) vm = Some n" "\<not> vlock n" "vmem_virttophys st1 vm virt = Inr (0, Some phys)"
      "\<And>i. tget st1 (Frame (ktable l)) i = tget st (Frame (ktable l)) i"
    using vmem_map_run[OF ready r ph free, of perms] R v c(4,5) by (auto split: if_splits)
  have kl: "\<not> vlock (kmem st1)" using user_map_klock[OF m(1) _ c(6)] user_addr v(1) by simp
  obtain st2 where s: "vmem_savestate st1 = Inr st2" "same_cfg st1 st2" "lcl st2 = lcl st1"
      "hmap (vms st2) vm = Some (n\<lparr>ptable := take 256 (mem st1 (ktable l))\<rparr>)"
    using savestate_ok[of st1 l] m(2-5) c(1,2) kl core(2) R(2) by (auto simp: same_cfgD[OF m(3)])
  have i: "unat (idx_at 0 virt) < 256" using idx_at_unat[of 0 virt] v(1) by (simp add: shamts_nth less_mult_imp_div_less)
  have "aget (mem st1 (ktable l)) (uint (idx_at 0 virt)) = Inr (mem st (ktable l) ! unat (idx_at 0 virt))"
    using m(7)[of "idx_at 0 virt"] i c(3) by (simp add: tget_def unat_iff_uint)
  then have g: "tget st2 (UserTop vm) (idx_at 0 virt) = Inr (mem st (ktable l) ! unat (idx_at 0 virt))"
    using s(4) R(2) i by (auto simp: tget_def aget_def unat_iff_uint split: if_splits)
  define st3 where "st3 = (if sz > GiB1 then st2\<lparr>cpu := (cpu st2)\<lparr>cr3 := ktable l\<rparr>\<rparr> else st2)"
  have "tget st3 (UserTop vm) (idx_at 0 virt) = tget st2 (UserTop vm) (idx_at 0 virt)" by (simp add: st3_def tget_def)
  then have "vmem_virttophys_st 4 st3 (UserTop vm) virt = Inr (-1, None)"
    using g slot walk_level[of 0 st3 "UserTop vm" virt] by (simp del: vmem_virttophys_st.simps)
  moreover have "vmem_flush st1 virt sz = Inr (0, st3)" using s(1,3) m(2) c(1) by (simp add: vmem_flush_def st3_def)
  ultimately show ?thesis using m(1,6) virttophys_user[OF v(1) R(2)] by (auto simp del: vmem_virttophys_st.simps)
qed

theorem vmem_flush_loses_mapping_witness:
  "\<exists>st1 st2. vmem_map ex_vmem 0x40 0x400000 0x7000 0x3000 vmem_flags_write = Inr (0, st1) \<and>
     vmem_virttophys st1 0x40 0x400000 = Inr (0, Some 0x7000) \<and>
     vmem_flush st1 0x400000 0x3000 = Inr (0, st2) \<and> vmem_virttophys st2 0x40 0x400000 = Inr (-1, None)"
proof -
  have "\<forall>j < 3. vmem_virttophys ex_vmem 0x40 (0x400000 + of_nat j * KiB4) = Inr (-1, None)"
    by (intro allI impI ex_unmapped) (auto simp: less_Suc_eq numeral_3_eq_3)
  moreover have "idx_at 0 0x400000 = 0" by (simp add: idx_at_def shamts_nth masks_def)
  ultimately show ?thesis
    using vmem_flush_loses_mapping[OF ex_ready(1) ex_run _ _ _ ex_core, of "0x7000" vmem_flags_write "0x3000"]
    by (simp add: ex_vmem_sel)
qed

text \<open>
  \<open>vmem_unmap\<close> removes nothing: with its first statement setting the size to 0, a call for a user address
  takes and releases the lock, answers 0 and leaves every table as it was.
\<close>

theorem vmem_unmap_keeps_mapping:
  assumes "hmap (vms st) vm = Some n" "vm \<noteq> NULL" "\<not> vlock n" "unat virt < 2 ^ 63"
  shows "\<exists>st'. vmem_unmap st vm virt sz = Inr (0, st') \<and> mem st' = mem st \<and> hmap (vms st') = hmap (vms st) \<and>
    (\<forall>vm' w. vmem_virttophys st' vm' w = vmem_virttophys st vm' w)"
proof -
  let ?st1 = "st\<lparr>vms := hput (vms st) vm (n\<lparr>vlock := True\<rparr>)\<rparr>"
  let ?st2 = "?st1\<lparr>vms := hput (vms ?st1) vm (n\<lparr>vlock := False\<rparr>)\<rparr>"
  have h: "hmap (vms ?st2) = hmap (vms st)" using assms(1,3) by (auto simp: fun_eq_iff)
  have u: "vmem_unmap_st 1 4 ?st1 (UserTop vm) virt 0 = Inr (0, ?st1)" by (simp add: numeral_eq_Suc)
  have run: "vmem_unmap st vm virt sz = Inr (0, ?st2)"
    using assms u user_addr[OF assms(4)] by (simp add: vmem_unmap_def lock_vm_def unlock_vm_def hset_def del: vmem_unmap_st.simps)
  have c: "same_cfg st ?st2" by (simp add: same_cfg_def)
  have t: "tget ?st2 t i = tget st t i" for t i using h by (cases t) (simp_all add: tget_def hget_def)
  have "vmem_virttophys ?st2 vm' w = vmem_virttophys st vm' w" for vm' w
    unfolding vmem_virttophys_def walk_same[OF c t] same_cfgD(1)[OF c] by simp
  then show ?thesis using run h by (intro exI[of _ ?st2]) simp
qed

theorem vmem_unmap_keeps_mapping_witness:
  "\<exists>st'. vmem_unmap ex_mapped 0x40 0x400000 0x1000 = Inr (0, st') \<and> vmem_virttophys st' 0x40 0x400000 = Inr (0, Some 0x7000)"
  using vmem_unmap_keeps_mapping[OF ex_mapped_sel(3), of "0x400000" "0x1000"] ex_mapped_translates by (auto simp: ex_space_def)

lemma pt_inv_forget:
  assumes inv: "pt_inv st lvl F" and sub: "\<And>t l. lvl' t = Some l \<Longrightarrow> lvl t = Some l" and fr: "\<And>p. lvl' (Frame p) = lvl (Frame p)"
  shows "pt_inv st lvl' F"
proof -
  note I = pt_invD[OF inv]
  have 2: "0 < l \<and> usable_frame st p \<and> (\<forall>i < 512. \<exists>e. tget st (Frame p) i = Inr e)" if "lvl' (Frame p) = Some l" for p l
    using I(2,3)[OF sub[OF that]] by blast
  have 4: "t = t' \<and> i = i'" if "lvl' t = Some l" "l < 3" "tget st t i = Inr e" "table_ent e" "lvl' t' = Some l'" "l' < 3" "tget st t' i' = Inr e'"
      "table_ent e'" "e AND ADDR_MASK = e' AND ADDR_MASK" for t l i e t' l' i' e'
    by (rule I(5)[OF sub[OF that(1)] that(2-4) sub[OF that(5)] that(6-9)])
  show ?thesis unfolding pt_inv_def fr
    by (intro conjI I(6)) ((intro allI impI, (elim conjE)?, (erule I(1)[OF sub] | erule 2[unfolded fr] | erule I(7), assumption
        | erule I(4)[OF sub], assumption, assumption | erule 4, assumption+))+)
qed

lemma setactive_state:
  assumes core: "core_ready st lvl F l" and n: "hmap (vms st) vm = Some n" "vm \<noteq> NULL" "vm \<noteq> cur_vmem l" "\<not> vlock n"
    and cur: "cur_vmem l = NULL \<or> (\<exists>n. hmap (vms st) (cur_vmem l) = Some n \<and> \<not> vlock n)"
  shows "\<exists>st'. vmem_setactive st vm = Inr (0, st') \<and> same_cfg st st' \<and> lcl st' = Some (l\<lparr>cur_vmem := vm\<rparr>) \<and> cr3 (cpu st') = ktable l \<and>
    mem st' = (mem st)(ktable l := ptable n @ drop 256 (mem st (ktable l))) \<and> \<not> vlock (kmem st') \<and>
    (\<forall>v. v \<noteq> cur_vmem l \<longrightarrow> hmap (vms st') v = hmap (vms st) v) \<and>
    (cur_vmem l \<noteq> NULL \<longrightarrow> hmap (vms st') (cur_vmem l) =
       Some ((the (hmap (vms st) (cur_vmem l)))\<lparr>ptable := take 256 (mem st (ktable l))\<rparr>))"
proof -
  have c: "lcl st = Some l" "frame_table st (ktable l) = Inr (Frame (ktable l))" "\<not> vlock (kmem st)" using core by (simp_all add: core_ready_def)
  obtain st1 where s: "vmem_savestate st = Inr st1" "same_cfg st st1" "lcl st1 = Some l" "mem st1 = mem st" "\<not> vlock (kmem st1)"
      "hmap (vms st1) = (if cur_vmem l = NULL then hmap (vms st)
         else (hmap (vms st))(cur_vmem l \<mapsto> (the (hmap (vms st) (cur_vmem l)))\<lparr>ptable := take 256 (mem st (ktable l))\<rparr>))"
    using savestate_ok[OF c cur] c(1) by auto
  have f: "frame_table st1 (ktable l) = Inr (Frame (ktable l))" using c(2) by (simp add: same_cfgD[OF s(2)])
  have h: "hmap (vms st1) vm = Some n" using s(6) n(1,3) by simp
  have "n\<lparr>vlock := False\<rparr> = n" using n(4) by simp
  then show ?thesis using s(1-5) f h n by (auto simp: vmem_setactive_def lock_vm_def unlock_vm_def hset_def same_cfg_def s(6))
qed

text \<open>
  C23. Activating an address space: the processor's table of the core then translates every user address as the
  address space does, its kernel half stays as it was, \<open>cr3\<close> points to it, and the user half it had before is saved
  in the address space that was active.
\<close>

theorem vmem_setactive_installs:
  assumes inv: "pt_inv st lvl F" and core: "core_ready st lvl F l" and vm: "lvl (UserTop vm) = Some 0" "vm \<noteq> NULL" "vm \<noteq> cur_vmem l"
    and n: "hmap (vms st) vm = Some n" "length (ptable n) = 256" "\<not> vlock n"
    and cur: "cur_vmem l = NULL \<or> (\<exists>n. hmap (vms st) (cur_vmem l) = Some n \<and> \<not> vlock n)"
  shows "\<exists>st'. vmem_setactive st vm = Inr (0, st') \<and> lcl st' = Some (l\<lparr>cur_vmem := vm\<rparr>) \<and> cr3 (cpu st') = ktable l \<and>
    (\<forall>w. unat w < 2 ^ 47 \<longrightarrow> vmem_virttophys_st 4 st' (Frame (ktable l)) w = vmem_virttophys st vm w) \<and>
    drop 256 (mem st' (ktable l)) = drop 256 (mem st (ktable l)) \<and>
    (cur_vmem l \<noteq> NULL \<longrightarrow> ptable (the (hmap (vms st') (cur_vmem l))) = take 256 (mem st (ktable l)))"
proof -
  obtain st' where s: "vmem_setactive st vm = Inr (0, st')" "same_cfg st st'" "lcl st' = Some (l\<lparr>cur_vmem := vm\<rparr>)" "cr3 (cpu st') = ktable l"
      "mem st' = (mem st)(ktable l := ptable n @ drop 256 (mem st (ktable l)))" "\<forall>v. v \<noteq> cur_vmem l \<longrightarrow> hmap (vms st') v = hmap (vms st) v"
      "cur_vmem l \<noteq> NULL \<longrightarrow> hmap (vms st') (cur_vmem l) = Some ((the (hmap (vms st) (cur_vmem l)))\<lparr>ptable := take 256 (mem st (ktable l))\<rparr>)"
    using setactive_state[OF core n(1) vm(2,3) n(3) cur] by blast
  let ?lvl = "lvl(UserTop (cur_vmem l) := None, KernelTop := None)"
  have "vmem_virttophys_st 4 st' (Frame (ktable l)) w = vmem_virttophys_st 4 st (UserTop vm) w" if w: "unat w < 2 ^ 47" for w
  proof -
    have e: "tget st (UserTop vm) (idx_at 0 w) = Inr (ptable n ! unat (idx_at 0 w))" "unat (idx_at 0 w) < 256"
      by (rule top_idx[OF w n(1) vm(2) n(2)])+
    let ?e = "ptable n ! unat (idx_at 0 w)"
    have g: "tget st' (Frame (ktable l)) (idx_at 0 w) = Inr ?e" using e(2) n(2) by (simp add: tget_def s(5) nth_append unat_iff_uint)
    have d: "vmem_virttophys_st 3 st' (Frame (?e AND ADDR_MASK)) w = vmem_virttophys_st 3 st (Frame (?e AND ADDR_MASK)) w"
      if "?e AND PRESENT \<noteq> 0"
    proof (rule walk_cong[of st ?lvl F])
      show "pt_inv st ?lvl F" by (rule pt_inv_forget[OF inv]) (auto split: if_splits)
      show "tget st' t i = tget st t i" if "?lvl t \<noteq> None" for t i
        using that s(6) core by (cases t) (auto simp: tget_def hget_def s(5) core_ready_def split: if_splits)
      show "?lvl (Frame (?e AND ADDR_MASK)) = Some (4 - 3)"
        using pt_invD(4)[OF inv vm(1) _ e(1)] that by (simp add: empty_ent_def largepage_avail_def)
    qed (simp_all add: s(2))
    have "frame_table st (?e AND ADDR_MASK) = Inr t \<Longrightarrow> t = Frame (?e AND ADDR_MASK)" for t
      by (auto simp: frame_table_def res_iff split: if_splits)
    then show ?thesis using walk_level[of 0 st' "Frame (ktable l)" w, OF _ g] walk_level[of 0 st "UserTop vm" w, OF _ e(1)] d
      by (cases "frame_table st (?e AND ADDR_MASK)") (auto simp: same_cfgD[OF s(2)] largepage_avail_def simp del: vmem_virttophys_st.simps)
  qed
  then show ?thesis using s virttophys_user[OF _ vm(2)] n(2) by (intro exI[of _ st']) (auto simp del: vmem_virttophys_st.simps)
qed

theorem vmem_setactive_installs_witness:
  "\<exists>st'. vmem_setactive (ex_mapped\<lparr>lcl := Some \<lparr>ktable = 0x8000, cur_vmem = 0x80\<rparr>\<rparr>) 0x40 = Inr (0, st') \<and>
     vmem_virttophys_st 4 st' (Frame 0x8000) 0x400000 = Inr (0, Some 0x7000)"
proof -
  let ?st = "ex_mapped\<lparr>lcl := Some \<lparr>ktable = 0x8000, cur_vmem = 0x80\<rparr>\<rparr>"
  have t: "tget ?st t i = tget ex_mapped t i" for t i by (cases t) (simp_all add: tget_def)
  have c: "same_cfg ex_mapped ?st" by (simp add: same_cfg_def)
  have inv: "pt_inv ?st ex_mapped_lvl ex_free" by (rule pt_inv_same[OF ex_mapped_inv c _ t]) simp
  have core: "core_ready ?st ex_mapped_lvl ex_free \<lparr>ktable = 0x8000, cur_vmem = 0x80\<rparr>"
    unfolding core_ready_def same_cfgD(1)[OF c] same_cfgD(1)[OF ex_mapped_sel(2)]
    by (simp add: ex_mapped_sel ex_tables_def ex_mapped_lvl_def ex_free_def frame_table_def vmem_phystovirt_def ex_vmem_sel)
  have "vmem_virttophys ?st 0x40 0x400000 = Inr (0, Some 0x7000)" by code_simp
  then show ?thesis using vmem_setactive_installs[OF inv core, of "0x40"]
    by (auto simp: ex_mapped_lvl_def ex_mapped_sel ex_space_def simp del: vmem_virttophys_st.simps)
qed

end
