(* ===== verification/KernelHeap.thy ===== *)
theory KernelHeap
  imports Malloc AddressSpace
begin

text \<open>
  The kernel heap on top of the page allocator: the pages \<^verbatim>\<open>malloc\<close> asks for come from \<^verbatim>\<open>pagealloc_alloc\<close> and are
  reached through the kernel's map of physical memory.
\<close>

section \<open>The pages of the heap\<close>

definition kernel_pages :: "vmem_state page_source" where
  "kernel_pages st sz =
     bindE (pagealloc_alloc (phys_mem st) 0 0 2 sz) (\<lambda>(phys, pm).
       let st = st\<lparr>phys_mem := pm\<rparr> in
       bindE (vmem_phystovirt st phys sz (vmem_flags_cachewriteback OR vmem_flags_kernel OR vmem_flags_write)) (\<lambda>virt. Inr (virt, st)))"

text \<open>
  A page of physical memory has two addresses in the kernel, the second one only below 2 GiB: the first in the
  map of physical memory, the second in the map at the top.
\<close>

definition page_bytes :: "nat \<Rightarrow> nat set" where
  "page_bytes q = {0xFFFF800000000000 + q * 4096 ..< 0xFFFF800000000000 + (q + 1) * 4096} \<union>
     (if q < 0x80000 then {0xffffffff80000000 + q * 4096 ..< 0xffffffff80000000 + (q + 1) * 4096} else {})"

definition pages_gave :: "vmem_state \<Rightarrow> nat set \<Rightarrow> bool" where
  "pages_gave st used \<longleftrightarrow> unat (phys_map_sz st) \<le> 0x4000000000 \<and>
     (\<exists>F. frames_free (phys_mem st) F \<and> (\<forall>q \<in> F. (q + 1) * 4096 < unat (phys_map_sz st) \<and> page_bytes q \<inter> used = {}))"

definition pages_serves :: "vmem_state \<Rightarrow> u64 \<Rightarrow> bool" where
  "pages_serves st sz \<longleftrightarrow> has_run (phys_mem st) (unat sz div 4096)"

lemma page_bytes_disjoint: "q \<noteq> q' \<Longrightarrow> q < 2 ^ 26 \<Longrightarrow> q' < 2 ^ 26 \<Longrightarrow> page_bytes q \<inter> page_bytes q' = {}"
  by (auto simp: page_bytes_def split: if_splits)

lemma run_page_bytes:
  assumes x: "b + p * 4096 \<le> x" "x < b + p * 4096 + n * 4096"
    and b: "b = 0xFFFF800000000000 \<or> b = 0xffffffff80000000 \<and> p + n \<le> 0x80000"
  shows "\<exists>q \<in> {p ..< p + n}. x \<in> page_bytes q"
proof -
  obtain d where d: "x = b + d" using le_Suc_ex[of b x] x(1) by auto
  define q where "q = d div 4096"
  have q: "q * 4096 \<le> d" "d < (q + 1) * 4096" unfolding q_def by (simp_all add: dividend_less_div_times div_times_less_eq_dividend)
  then have "b + q * 4096 \<le> x" "x < b + (q + 1) * 4096" using d by linarith+
  moreover have "p * 4096 < (q + 1) * 4096" "q * 4096 < (p + n) * 4096" using q x d by (simp_all add: add_mult_distrib)
  then have "p \<le> q" "q < p + n" by simp_all
  ultimately show ?thesis using b by (intro bexI[of _ q]) (auto simp: page_bytes_def)
qed

lemma phystovirt_run:
  fixes phys sz :: u64
  assumes m: "unat (phys_map_sz st) \<le> 0x4000000000" and b: "unat phys + unat sz < unat (phys_map_sz st)" and f: "fl AND vmem_flags_cachewriteback \<noteq> 0"
  shows "\<exists>virt. vmem_phystovirt st phys sz fl = Inr virt \<and>
    (unat virt = 0xFFFF800000000000 + unat phys \<or> unat virt = 0xffffffff80000000 + unat phys \<and> unat phys + unat sz < 0x80000000)"
proof -
  have u: "unat (phys + sz) = unat phys + unat sz" using m b by (simp add: unat_word_ariths)
  have s: "sint phys = int (unat phys)" "sint (phys_map_sz st) = int (unat (phys_map_sz st))" using m b sint_small[of phys] sint_small[of "phys_map_sz st"] by simp_all
  show ?thesis
  proof (cases "unat phys + unat sz < 0x80000000")
    case True
    then have "phys + sz < GiB2" "sint phys < sint GiB2" using u s(1) unat_iff_uint(2)[of phys "0x80000000"] by (simp_all add: word_less_nat_alt)
    moreover have "unat (phys + KERN_TOP_BASE) = 0xffffffff80000000 + unat phys" using True by (simp add: unat_word_ariths)
    ultimately show ?thesis using True f by (simp add: vmem_phystovirt_def)
  next
    case False
    then have "\<not> phys + sz < GiB2" using u by (simp add: word_less_nat_alt)
    moreover have "phys + sz < phys_map_sz st" "sint phys < sint (phys_map_sz st)" 
      using u b unat_iff_uint(2)[of phys "unat (phys_map_sz st)"] unfolding s by (simp_all add: word_less_nat_alt)
    moreover have "unat (phys + KERN_PHYSMAP_BASE) = 0xFFFF800000000000 + unat phys" using m b by (simp add: unat_word_ariths)
    ultimately show ?thesis using f by (simp add: vmem_phystovirt_def)
  qed
qed


lemma kernel_pages_fresh:
  assumes g: "pages_gave st used" and n: "sz \<noteq> 0" "unat sz mod 4096 = 0" "unat sz < 2 ^ 32" and srv: "pages_serves st sz"
  shows "\<exists>a st'. kernel_pages st sz = Inr (a, st') \<and> a \<noteq> NULL \<and> unat a + unat sz \<le> 2 ^ 64 \<and>
    {unat a ..< unat a + unat sz} \<inter> used = {} \<and> pages_gave st' (used \<union> {unat a ..< unat a + unat sz})"
proof -
  obtain F where F: "unat (phys_map_sz st) \<le> 0x4000000000" "frames_free (phys_mem st) F"
      "\<And>q. q \<in> F \<Longrightarrow> (q + 1) * 4096 < unat (phys_map_sz st)" "\<And>q. q \<in> F \<Longrightarrow> page_bytes q \<inter> used = {}"
    using g unfolding pages_gave_def by blast
  define k where "k = unat sz div 4096"
  have k: "0 < k" "unat sz = k * 4096" using n(1,2) unat_gt_0[of sz] by (auto simp: k_def elim!: dvdE)
  obtain phys pm where A: "pagealloc_alloc (phys_mem st) 0 0 2 sz = Inr (phys, pm)" "unat phys mod 4096 = 0"
      "{unat phys div 4096 ..< unat phys div 4096 + k} \<subseteq> F" "frames_free pm (F - {unat phys div 4096 ..< unat phys div 4096 + k})"
    using pagealloc_alloc_frames[OF F(2) srv[unfolded pages_serves_def, folded k_def] k(1) k(2), of 0 0 2] by auto
  define p where "p = unat phys div 4096"
  have p: "unat phys = p * 4096" using A(2) by (auto simp: p_def elim!: dvdE)
  have "p + k - 1 \<in> F" using A(3) k(1) by (auto simp: p_def)
  then have b: "unat phys + unat sz < unat (phys_map_sz st)" using F(3)[of "p + k - 1"] k p by (simp add: algebra_simps)
  let ?st = "st\<lparr>phys_mem := pm\<rparr>"
  obtain virt where V: "vmem_phystovirt ?st phys sz (vmem_flags_cachewriteback OR vmem_flags_kernel OR vmem_flags_write) = Inr virt"
      "unat virt = 0xFFFF800000000000 + unat phys \<or> unat virt = 0xffffffff80000000 + unat phys \<and> unat phys + unat sz < 0x80000000"
    using phystovirt_run[of ?st phys sz "vmem_flags_cachewriteback OR vmem_flags_kernel OR vmem_flags_write"] F(1) b by auto
  have in_run: "\<exists>q \<in> {p ..< p + k}. x \<in> page_bytes q" if "x \<in> {unat virt ..< unat virt + unat sz}" for x
    using run_page_bytes[of "unat virt - unat phys" p x k] that V(2) p k(2) by auto
  have "{unat virt ..< unat virt + unat sz} \<inter> used = {}" using in_run A(3) F(4) unfolding p_def by blast
  moreover have "pages_gave ?st (used \<union> {unat virt ..< unat virt + unat sz})"
  proof -
    have "page_bytes q \<inter> {unat virt ..< unat virt + unat sz} = {}" if q: "q \<in> F - {p ..< p + k}" for q
    proof -
      have lt: "q < 2 ^ 26" if "q \<in> F" for q using F(3)[OF that] F(1) by simp
      have "page_bytes q \<inter> page_bytes q' = {}" if "q' \<in> {p ..< p + k}" for q'
        using page_bytes_disjoint[of q q'] q lt[of q] lt[of q'] that A(3) unfolding p_def by blast
      then show ?thesis using in_run by blast
    qed
    then have "\<forall>q \<in> F - {p ..< p + k}. page_bytes q \<inter> (used \<union> {unat virt ..< unat virt + unat sz}) = {}" using F(4) by blast
    then show ?thesis unfolding pages_gave_def using F(1,3) A(4) unfolding p_def by auto
  qed
  moreover have "virt \<noteq> NULL" using V(2) by (metis add_is_0 unat_0 zero_neq_numeral)
  moreover have "unat virt + unat sz \<le> 2 ^ 64" using V(2) b F(1) by auto
  ultimately show ?thesis using A(1) V(1) by (intro exI[of _ virt] exI[of _ ?st]) (simp add: kernel_pages_def)
qed

interpretation kpages: page_provider pages_gave pages_serves kernel_pages
  by unfold_locales (rule kernel_pages_fresh)

section \<open>Properties\<close>

text \<open>
  C10. The heap and the page allocator together: as long as the page allocator has a run long enough for the
  request, \<open>malloc\<close> answers with a block that overlaps no block in use (nor does any two of them overlap), \<open>free\<close>
  takes the block back, and the bytes of new pages are never handed out twice.
\<close>

theorem kernel_malloc_disjoint:
  assumes "heap_owns pages_gave st bs" "sz \<noteq> 0" "unat sz \<le> 2 ^ 31"
    and "has_run (phys_mem (page_state st)) (unat (pages_for (round8 sz)) div 4096)"
  shows "\<exists>p st' st''. malloc kernel_pages st sz = Inr (p, st') \<and> p \<noteq> NULL \<and> disjoint_blocks ((p, unat sz) # bs) \<and>
    heap_owns pages_gave st' ((p, unat sz) # bs) \<and> free st' p = Inr st'' \<and> heap_owns pages_gave st'' bs"
proof -
  have fits: "sz \<noteq> 0 \<and> unat sz \<le> 2 ^ 31 \<and> pages_serves (page_state st) (pages_for (round8 sz))"
    using assms(2-4) by (simp add: pages_serves_def)
  obtain p st' where m: "malloc kernel_pages st sz = Inr (p, st')" "p \<noteq> NULL" "heap_owns pages_gave st' ((p, unat sz) # bs)"
    using kpages.malloc_owns[OF assms(1)] fits by blast
  then show ?thesis using kpages.kheap.alloc_release[OF assms(1) fits m(1,2)] kpages.kheap.owns_disjoint[OF m(3)] by blast
qed

definition ex_heap :: "vmem_state malloc_state" where
  "ex_heap = \<lparr>nodes = \<lparr>cells = [], avail = []\<rparr>, root = NULL, node_cnt = 0, interrupts = True, page_state = ex_vmem\<rparr>"

lemma ex_heap_owns: "heap_owns pages_gave ex_heap []"
proof -
  have "pages_gave ex_vmem {}"
    unfolding pages_gave_def using ex_frames by (intro conjI exI[of _ ex_free]) (auto simp: ex_vmem_sel ex_free_def)
  then show ?thesis unfolding heap_owns_def
    by (intro exI[of _ "[]"] exI[of _ "{}"]) (simp add: malloc_inv_def regions_ok_def ex_heap_def)
qed

theorem kernel_malloc_disjoint_witness:
  "\<exists>p st' st''. malloc kernel_pages ex_heap 5000 = Inr (p, st') \<and> p \<noteq> NULL \<and> free st' p = Inr st''"
proof -
  have "unat (pages_for (round8 5000)) = 8192" by (simp add: pages_for_def round8_def)
  moreover have "has_run pagealloc_example 2"
    by (auto simp: has_run_def pagealloc_example_list pagealloc_example_entries)
  ultimately show ?thesis using kernel_malloc_disjoint[OF ex_heap_owns, of 5000] by (auto simp: ex_heap_def ex_vmem_sel)
qed

end
