(* ===== verification/TaskMgr.thy ===== *)
theory TaskMgr
  imports VMem
begin

text \<open>
  The task manager, \<^verbatim>\<open>modules/SysTaskMgr/src/task.c\<close>: the list of processes with their locks, the scheduler of a
  core, descriptors, and the save areas of the register sets (\<^verbatim>\<open>SysMP\<close>, \<^verbatim>\<open>SysFP\<close>, \<^verbatim>\<open>SysUser\<close>).

  Every kind of object the code allocates has a heap of its own. The state of one core is part of the record:
  the registers of the interrupted code (\<open>reg_ref\<close>, the frame \<^verbatim>\<open>idt->reg_ref\<close> points to), of a task inside
  \<open>task_yield\<close> (\<open>yield_frame\<close>), the FPU and the system call state. \<open>timestamps\<close> gives the values successive reads of the
  clock return, \<open>mem32\<close> the memory that suspended tasks watch. Messages are not modelled.
\<close>

section \<open>Saved machine states\<close>

record regs =
  r15 :: u64
  r14 :: u64
  r13 :: u64
  r12 :: u64
  r11 :: u64
  r10 :: u64
  r9 :: u64
  r8 :: u64
  rdi :: u64
  rsi :: u64
  rdx :: u64
  rcx :: u64
  rbx :: u64
  rax :: u64
  rflags :: u64
  rip :: u64
  cs :: u64
  ss :: u64
  rbp :: u64
  rsp :: u64

record register_state =
  s_rip :: u64
  s_rflags :: u64
  s_rsp :: u64
  s_rbp :: u64
  s_rbx :: u64
  s_r12 :: u64
  s_r13 :: u64
  s_r14 :: u64
  s_r15 :: u64

record syscall_state =
  s_kernel_stack :: addr
  registers :: register_state
  syscall_set_table :: "addr list"

section \<open>Processes\<close>

datatype task_state =
    task_state_uninitialized
  | task_state_pending
  | task_state_running
  | task_state_suspended
  | task_state_suspended_monitor_mem_32
  | task_state_sleep
  | task_state_blocked
  | task_state_exited

datatype descriptor_type =
    descriptor_type_unused_entry
  | descriptor_type_map_entry
  | descriptor_type_descriptor_entry
  | descriptor_type_resource_entry

text \<open>\<open>dptr\<close> is the union of the three pointers.\<close>

record descriptor_entry =
  dptr :: addr
  dtype :: descriptor_type

record map_entry =
  vaddr :: u64
  paddr :: u64
  msz :: u64
  owner_perms :: u32
  child_perms :: u32
  mflags :: u32
  is_owner :: bool
  child_count :: u32

record resource_entry =
  rstate :: addr
  action :: addr

record cardinal_program_setup_params =
  ver :: u16
  page_size :: u16
  argc :: u32
  pid :: u64
  rng_seed :: u64
  entry_point :: u64
  envp :: addr
  argv :: addr

text \<open>\<open>monitor_tgt\<close> shares its place with \<^verbatim>\<open>sleep_end\<close>.\<close>

record process_desc =
  tname :: cstring
  tmem :: addr
  tid :: u64
  tlock :: bool
  tstate :: task_state
  permissions :: u32
  monitor_value :: u32
  monitor_tgt :: u64
  descriptors :: "descriptor_entry list"
  fpu_state :: addr
  fpu_state_unaligned :: addr
  reg_state :: addr
  kernel_stack :: addr
  user_stack :: addr
  user_stack_phys :: u64
  syscall_data :: addr
  usersetup_params :: addr
  tnext :: addr

record core_desc =
  interrupt_stack :: addr
  cur_task :: addr

record taskmgr =
  vm :: vmem_state
  cur_id :: u64
  procs :: "process_desc heap"
  processes :: addr
  process_count :: u32
  process_lock :: bool
  core_descs :: "core_desc option"
  interrupts :: bool
  reg_ref :: regs
  yield_frame :: regs
  fpu :: "u16 list"
  sys_state :: syscall_state
  reg_heap :: "regs heap"
  sys_heap :: "syscall_state heap"
  fpu_bufs :: "unit heap"
  fpu_mem :: "addr \<Rightarrow> u16 list"
  stacks :: "unit heap"
  map_heap :: "map_entry heap"
  res_heap :: "resource_entry heap"
  desc_heap :: "descriptor_entry list heap"
  params_mem :: "addr \<Rightarrow> cardinal_program_setup_params"
  mem32 :: "addr \<Rightarrow> u32"
  timestamps :: "nat \<Rightarrow> u64"
  ticks :: nat
  xsave :: bool
  xsave_sz :: u64
  syscall_funcs :: addr
  syscall_touser :: addr
  kernel_entry_handler :: addr
  resume_from_yield :: addr

abbreviation (input) CS_OK :: int where "CS_OK \<equiv> 0"
abbreviation (input) CS_UNKN :: int where "CS_UNKN \<equiv> -1"
abbreviation (input) CS_OUTOFMEM :: int where "CS_OUTOFMEM \<equiv> -2"
abbreviation (input) KERNEL_STACK_LEN :: u64 where "KERNEL_STACK_LEN \<equiv> 0x8000"
abbreviation (input) USER_STACK_LEN :: u64 where "USER_STACK_LEN \<equiv> 0x8000"
abbreviation (input) MAX_DESCRIPTOR_COUNT :: nat where "MAX_DESCRIPTOR_COUNT \<equiv> 256"
abbreviation (input) task_permissions_none :: u32 where "task_permissions_none \<equiv> 0"
abbreviation (input) task_permissions_kernel :: u32 where "task_permissions_kernel \<equiv> 1"
abbreviation (input) vmem_flags_rw :: u32 where "vmem_flags_rw \<equiv> 1"

section \<open>Machine states\<close>

definition fp_platform_getstatesize :: "taskmgr \<Rightarrow> u64" where
  "fp_platform_getstatesize st = (if xsave st then xsave_sz st + 64 else 512)"

definition fp_platform_getalign :: "taskmgr \<Rightarrow> u64" where
  "fp_platform_getalign st = (if xsave st then 64 else 16)"

text \<open>The save and restore instructions fault when the save area is not aligned.\<close>

definition fpu_area :: "taskmgr \<Rightarrow> addr \<Rightarrow> unit res" where
  "fpu_area st buf = (if buf = NULL then Inl NullDeref else if buf mod fp_platform_getalign st \<noteq> 0 then Inl BadPointer else Inr ())"

definition fp_platform_getstate :: "taskmgr \<Rightarrow> addr \<Rightarrow> taskmgr res" where
  "fp_platform_getstate st buf = bindE (fpu_area st buf) (\<lambda>_. Inr (st\<lparr>fpu_mem := (fpu_mem st)(buf := fpu st)\<rparr>))"

definition fp_platform_setstate :: "taskmgr \<Rightarrow> addr \<Rightarrow> taskmgr res" where
  "fp_platform_setstate st buf = bindE (fpu_area st buf) (\<lambda>_. Inr (st\<lparr>fpu := fpu_mem st buf\<rparr>))"

definition fp_platform_getdefaultstate :: "taskmgr \<Rightarrow> addr \<Rightarrow> taskmgr res" where
  "fp_platform_getdefaultstate st buf =
     (if buf = NULL then Inl NullDeref
      else Inr (st\<lparr>fpu_mem := (fpu_mem st)(buf := (replicate (unat (fp_platform_getstatesize st) div 2) 0)[0 := 0x33f, 12 := 0x1f80])\<rparr>))"

definition mp_platform_getstate :: "taskmgr \<Rightarrow> addr \<Rightarrow> taskmgr res" where
  "mp_platform_getstate st buf =
     (if buf = NULL then Inl (Panic ''Parameter is null.'')
      else bindE (hset (reg_heap st) buf (\<lambda>_. reg_ref st)) (\<lambda>h. Inr (st\<lparr>reg_heap := h\<rparr>)))"

definition mp_platform_setstate :: "taskmgr \<Rightarrow> addr \<Rightarrow> taskmgr res" where
  "mp_platform_setstate st buf =
     (if buf = NULL then Inl (Panic ''Parameter is null.'')
      else bindE (hget (reg_heap st) buf) (\<lambda>r. Inr (st\<lparr>reg_ref := r\<rparr>)))"

definition zero_regs :: regs where
  "zero_regs = \<lparr>r15 = 0, r14 = 0, r13 = 0, r12 = 0, r11 = 0, r10 = 0, r9 = 0, r8 = 0, rdi = 0, rsi = 0, rdx = 0, rcx = 0,
     rbx = 0, rax = 0, rflags = 0, rip = 0, cs = 0, ss = 0, rbp = 0, rsp = 0\<rparr>"

definition mp_platform_getdefaultstate :: "taskmgr \<Rightarrow> addr \<Rightarrow> addr \<Rightarrow> addr \<Rightarrow> u64 \<Rightarrow> u64 \<Rightarrow> taskmgr res" where
  "mp_platform_getdefaultstate st buf stackpointer instr_ptr args0 args1 =
     bindE (hset (reg_heap st) buf (\<lambda>_. zero_regs\<lparr>cs := 0x8, ss := 0x10, rsp := stackpointer, rbp := stackpointer,
       rflags := 0x0200, rip := instr_ptr, rdi := args0, rsi := args1\<rparr>)) (\<lambda>h. Inr (st\<lparr>reg_heap := h\<rparr>))"

definition syscall_getfullstate :: "taskmgr \<Rightarrow> addr \<Rightarrow> taskmgr res" where
  "syscall_getfullstate st dst = bindE (hset (sys_heap st) dst (\<lambda>_. sys_state st)) (\<lambda>h. Inr (st\<lparr>sys_heap := h\<rparr>))"

definition syscall_setfullstate :: "taskmgr \<Rightarrow> addr \<Rightarrow> taskmgr res" where
  "syscall_setfullstate st src = bindE (hget (sys_heap st) src) (\<lambda>s. Inr (st\<lparr>sys_state := s\<rparr>))"

definition syscall_getdefaultstate :: "taskmgr \<Rightarrow> addr \<Rightarrow> addr \<Rightarrow> addr \<Rightarrow> addr \<Rightarrow> taskmgr res" where
  "syscall_getdefaultstate st buf k_stack u_stack ip =
     bindE (hset (sys_heap st) buf (\<lambda>_. \<lparr>s_kernel_stack = k_stack,
       registers = \<lparr>s_rip = ip, s_rflags = 0x3200, s_rsp = u_stack, s_rbp = u_stack, s_rbx = 0, s_r12 = 0, s_r13 = 0, s_r14 = 0, s_r15 = 0\<rparr>,
       syscall_set_table = syscall_funcs st # replicate 127 NULL\<rparr>)) (\<lambda>h. Inr (st\<lparr>sys_heap := h\<rparr>))"

definition syscall_set_syscallset :: "taskmgr \<Rightarrow> int \<Rightarrow> addr \<Rightarrow> (int \<times> taskmgr) res" where
  "syscall_set_syscallset st idx table =
     (if idx < 128 then
        bindE (aset (syscall_set_table (sys_state st)) idx table) (\<lambda>t. Inr (0, st\<lparr>sys_state := (sys_state st)\<lparr>syscall_set_table := t\<rparr>\<rparr>))
      else Inr (-1, st))"

section \<open>Locks\<close>

definition cli :: "taskmgr \<Rightarrow> bool \<times> taskmgr" where
  "cli st = (interrupts st, st\<lparr>interrupts := False\<rparr>)"

definition sti :: "taskmgr \<Rightarrow> bool \<Rightarrow> taskmgr" where
  "sti st cli_state = (if cli_state then st\<lparr>interrupts := True\<rparr> else st)"

definition lock_list :: "taskmgr \<Rightarrow> taskmgr res" where
  "lock_list st = (if process_lock st then Inl Deadlock else Inr (st\<lparr>process_lock := True\<rparr>))"

definition unlock_list :: "taskmgr \<Rightarrow> taskmgr" where
  "unlock_list st = st\<lparr>process_lock := False\<rparr>"

definition upd_proc :: "taskmgr \<Rightarrow> addr \<Rightarrow> (process_desc \<Rightarrow> process_desc) \<Rightarrow> taskmgr res" where
  "upd_proc st p f = bindE (hset (procs st) p f) (\<lambda>h. Inr (st\<lparr>procs := h\<rparr>))"

definition lock_proc :: "taskmgr \<Rightarrow> addr \<Rightarrow> taskmgr res" where
  "lock_proc st p = bindE (hget (procs st) p) (\<lambda>n. if tlock n then Inl Deadlock else upd_proc st p (\<lambda>n. n\<lparr>tlock := True\<rparr>))"

definition unlock_proc :: "taskmgr \<Rightarrow> addr \<Rightarrow> taskmgr res" where
  "unlock_proc st p = upd_proc st p (\<lambda>n. n\<lparr>tlock := False\<rparr>)"

text \<open>
  The search for a process, which is returned locked. It visits every process once, so one step per cell of the
  heap is enough for a list that ends.
\<close>

fun find_task :: "nat \<Rightarrow> taskmgr \<Rightarrow> addr \<Rightarrow> u64 \<Rightarrow> (addr \<times> taskmgr) res" where
  "find_task fuel st iter i =
     (if iter = NULL then Inr (NULL, st)
      else case fuel of
        0 \<Rightarrow> Inl Diverge
      | Suc fuel \<Rightarrow>
          bindE (lock_proc st iter) (\<lambda>st.
          bindE (hget (procs st) iter) (\<lambda>n.
            if tid n = i then Inr (iter, st)
            else bindE (unlock_proc st iter) (\<lambda>st. find_task fuel st (tnext n) i))))"

declare find_task.simps [simp del]

text \<open>
  What most calls are made of: with interrupts off and the list locked, \<open>body\<close> runs on the process \<open>i\<close>. \<open>none\<close> is
  the answer when there are processes but not this one, \<open>no_list\<close> when there are none.
\<close>

definition on_task :: "taskmgr \<Rightarrow> u64 \<Rightarrow> 'r \<Rightarrow> 'r \<Rightarrow> (taskmgr \<Rightarrow> addr \<Rightarrow> ('r \<times> taskmgr) res) \<Rightarrow> ('r \<times> taskmgr) res" where
  "on_task st i none no_list body =
     (let (cli_state, st) = cli st in
      bindE (lock_list st) (\<lambda>st.
        if processes st \<noteq> NULL then
          bindE (find_task (length (cells (procs st))) st (processes st) i) (\<lambda>(iter, st).
          bindE (if iter \<noteq> NULL then
                   bindE (body st iter) (\<lambda>(r, st). bindE (unlock_proc st iter) (\<lambda>st. Inr (r, st)))
                 else Inr (none, st)) (\<lambda>(r, st).
            Inr (r, sti (unlock_list st) cli_state)))
        else Inr (no_list, sti (unlock_list st) cli_state)))"

section \<open>The life of a task\<close>

definition empty_desc :: descriptor_entry where
  "empty_desc = \<lparr>dptr = NULL, dtype = descriptor_type_unused_entry\<rparr>"

definition zero_process :: process_desc where
  "zero_process = \<lparr>tname = [], tmem = NULL, tid = 0, tlock = False, tstate = task_state_uninitialized, permissions = 0,
     monitor_value = 0, monitor_tgt = 0, descriptors = replicate 256 empty_desc, fpu_state = NULL, fpu_state_unaligned = NULL,
     reg_state = NULL, kernel_stack = NULL, user_stack = NULL, user_stack_phys = 0, syscall_data = NULL, usersetup_params = NULL,
     tnext = NULL\<rparr>"

definition align_up :: "u64 \<Rightarrow> u64 \<Rightarrow> u64" where
  "align_up p a = (if p mod a \<noteq> 0 then p + (a - p mod a) else p)"

text \<open>The answer carries the identifier when the call stores one.\<close>

definition create_task_kernel :: "taskmgr \<Rightarrow> cstring \<Rightarrow> u32 \<Rightarrow> (int \<times> u64 option \<times> taskmgr) res" where
  "create_task_kernel st name perms =
     (let alloc_id = cur_id st;
          st = st\<lparr>cur_id := cur_id st + 1\<rparr>;
          (proc_info, h) = halloc (procs st);
          st = st\<lparr>procs := h\<rparr>
      in if proc_info = NULL then Inr (CS_OUTOFMEM, None, st)
         else
           bindE (upd_proc st proc_info (\<lambda>_. zero_process\<lparr>tname := take 256 name, tid := alloc_id\<rparr>)) (\<lambda>st.
           bindE (vmem_create (vm st)) (\<lambda>(err, mem, v).
             let st = st\<lparr>vm := v\<rparr> in
             if err \<noteq> 0 then bindE (hfree (procs st) proc_info) (\<lambda>h. Inr (CS_OUTOFMEM, None, st\<lparr>procs := h\<rparr>))
             else
               let (stack, h) = halloc (stacks st);
                   st = st\<lparr>stacks := h\<rparr>
               in if stack = NULL then Inl (Panic ''[SysTaskMgr] Unexpected memory allocation failure.'')
               else
                 bindE (upd_proc st proc_info (\<lambda>n. n\<lparr>tmem := (case mem of None \<Rightarrow> NULL | Some m \<Rightarrow> m), tstate := task_state_uninitialized,
                   permissions := perms, kernel_stack := stack + KERNEL_STACK_LEN, user_stack := NULL, syscall_data := NULL\<rparr>)) (\<lambda>st.
                 bindE (if perms = task_permissions_none then
                          let (data, h) = halloc (sys_heap st) in
                          bindE (upd_proc (st\<lparr>sys_heap := h\<rparr>) proc_info (\<lambda>n. n\<lparr>syscall_data := data\<rparr>)) (\<lambda>st.
                            syscall_getdefaultstate st data (stack + KERNEL_STACK_LEN) NULL NULL)
                        else Inr st) (\<lambda>st.
                 let (area, h) = halloc (fpu_bufs st);
                     st = st\<lparr>fpu_bufs := h\<rparr>
                 in if area = NULL then Inl (Panic ''[SysTaskMgr] Unexpected memory allocation failure.'')
                 else
                   let aligned = align_up area (fp_platform_getalign st) in
                   bindE (upd_proc st proc_info (\<lambda>n. n\<lparr>fpu_state := aligned, fpu_state_unaligned := area\<rparr>)) (\<lambda>st.
                   bindE (fp_platform_getdefaultstate st aligned) (\<lambda>st.
                   let (rs, h) = halloc (reg_heap st);
                       st = st\<lparr>reg_heap := h\<rparr>
                   in if rs = NULL then Inl (Panic ''[SysTaskMgr] Unexpected memory allocation failure.'')
                   else
                     bindE (upd_proc st proc_info (\<lambda>n. n\<lparr>reg_state := rs\<rparr>)) (\<lambda>st.
                     bindE (mp_platform_getdefaultstate st rs (stack + KERNEL_STACK_LEN) NULL NULL NULL) (\<lambda>st.
                     let (cli_state, st) = cli st in
                     bindE (lock_list st) (\<lambda>st.
                     bindE (upd_proc st proc_info (\<lambda>n. n\<lparr>tnext := processes st\<rparr>)) (\<lambda>st.
                     let st = sti (unlock_list (st\<lparr>processes := proc_info\<rparr>)) cli_state in
                     Inr (CS_OK, Some alloc_id, st\<lparr>process_count := process_count st + 1\<rparr>))))))))))))"

definition start_user :: "taskmgr \<Rightarrow> addr \<Rightarrow> addr \<Rightarrow> taskmgr res" where
  "start_user st iter handler =
     (let u_stack = 0x100000000 + (USER_STACK_LEN - 48) in
      bindE (upd_proc st iter (\<lambda>n. n\<lparr>user_stack := u_stack\<rparr>)) (\<lambda>st.
      bindE (pagealloc_alloc (phys_mem (vm st)) 0 0 18 USER_STACK_LEN) (\<lambda>(pmem, pm).
      let st = st\<lparr>vm := (vm st)\<lparr>phys_mem := pm\<rparr>\<rparr> in
      bindE (upd_proc st iter (\<lambda>n. n\<lparr>user_stack_phys := pmem\<rparr>)) (\<lambda>st.
      bindE (hget (procs st) iter) (\<lambda>n.
      bindE (vmem_map (vm st) (tmem n) 0x100000000 pmem USER_STACK_LEN (vmem_flags_cachewriteback OR vmem_flags_rw OR vmem_flags_user)) (\<lambda>(_, v).
      let st = st\<lparr>vm := v\<rparr> in
      bindE (vmem_phystovirt (vm st) (pmem + USER_STACK_LEN - 48) 48 (vmem_flags_cachewriteback OR vmem_flags_rw)) (\<lambda>pp.
      bindE (upd_proc st iter (\<lambda>n. n\<lparr>usersetup_params := pp\<rparr>)) (\<lambda>st.
      let st = st\<lparr>params_mem := (params_mem st)(pp := \<lparr>ver = 1, page_size = 0x1000, argc = 0, pid = tid n, rng_seed = 0,
                   entry_point = handler, envp = NULL, argv = NULL\<rparr>)\<rparr> in
      bindE (syscall_getdefaultstate st (syscall_data n) (kernel_stack n) u_stack handler) (\<lambda>st.
        mp_platform_getdefaultstate st (reg_state n) (kernel_stack n) (syscall_touser st) u_stack NULL)))))))))"

definition start_task_kernel :: "taskmgr \<Rightarrow> u64 \<Rightarrow> addr \<Rightarrow> u64 \<Rightarrow> (int \<times> taskmgr) res" where
  "start_task_kernel st i handler arg =
     (if handler \<noteq> NULL then
        on_task st i CS_OK CS_UNKN (\<lambda>st iter.
          bindE (hget (procs st) iter) (\<lambda>n.
          bindE (if permissions n = task_permissions_none then start_user st iter handler
                 else mp_platform_getdefaultstate st (reg_state n) (kernel_stack n) (kernel_entry_handler st) handler arg) (\<lambda>st.
          bindE (upd_proc st iter (\<lambda>n. n\<lparr>tstate := task_state_pending\<rparr>)) (\<lambda>st. Inr (CS_OK, st)))))
      else Inr (CS_UNKN, st))"

definition end_task_kernel :: "taskmgr \<Rightarrow> u64 \<Rightarrow> (int \<times> taskmgr) res" where
  "end_task_kernel st i =
     on_task st i CS_OK CS_UNKN (\<lambda>st iter.
       bindE (upd_proc st iter (\<lambda>n. n\<lparr>tstate := task_state_exited\<rparr>)) (\<lambda>st. Inr (CS_OK, st)))"

definition task_current :: "taskmgr \<Rightarrow> u64 res" where
  "task_current st =
     (case core_descs st of
        None \<Rightarrow> Inl NullDeref
      | Some c \<Rightarrow> bindE (hget (procs st) (cur_task c)) (\<lambda>n. Inr (tid n)))"

section \<open>The scheduler\<close>

definition timer_timestamp_ns :: "taskmgr \<Rightarrow> u64 \<times> taskmgr" where
  "timer_timestamp_ns st = (timestamps st (ticks st), st\<lparr>ticks := ticks st + 1\<rparr>)"

definition can_run :: "taskmgr \<Rightarrow> process_desc \<Rightarrow> (bool \<times> taskmgr) res" where
  "can_run st n =
     (case tstate n of
        task_state_pending \<Rightarrow> Inr (True, st)
      | task_state_suspended_monitor_mem_32 \<Rightarrow>
          if monitor_tgt n = NULL then Inl NullDeref else Inr (mem32 st (monitor_tgt n) \<noteq> monitor_value n, st)
      | task_state_sleep \<Rightarrow> let (now, st) = timer_timestamp_ns st in Inr (now \<ge> monitor_tgt n, st)
      | _ \<Rightarrow> Inr (False, st))"

fun find_runnable :: "nat \<Rightarrow> taskmgr \<Rightarrow> addr \<Rightarrow> (addr \<times> taskmgr) res" where
  "find_runnable fuel st ntask =
     (if ntask = NULL then Inr (NULL, st)
      else case fuel of
        0 \<Rightarrow> Inl Diverge
      | Suc fuel \<Rightarrow>
          bindE (lock_proc st ntask) (\<lambda>st.
          bindE (hget (procs st) ntask) (\<lambda>n.
          bindE (can_run st n) (\<lambda>(ok, st).
          bindE (unlock_proc st ntask) (\<lambda>st.
            if ok then Inr (ntask, st) else find_runnable fuel st (tnext n))))))"

declare find_runnable.simps [simp del]

text \<open>
  \<open>task_switch_handler\<close> and \<open>task_yield_stage2\<close> differ in where the registers are: \<open>save\<close> and \<open>load\<close> move them between
  there and the save area of a task.
\<close>

definition save_current ::
  "(taskmgr \<Rightarrow> addr \<Rightarrow> taskmgr res) \<Rightarrow> taskmgr \<Rightarrow> addr \<Rightarrow> (addr \<times> taskmgr) res" where
  "save_current save st cur =
     bindE (lock_proc st cur) (\<lambda>st.
     bindE (upd_proc st cur (\<lambda>n. if tstate n = task_state_running then n\<lparr>tstate := task_state_pending\<rparr> else n)) (\<lambda>st.
     bindE (hget (procs st) cur) (\<lambda>n.
     bindE (fp_platform_getstate st (fpu_state n)) (\<lambda>st.
     bindE (save st (reg_state n)) (\<lambda>st.
     bindE (if syscall_data n \<noteq> NULL then syscall_getfullstate st (syscall_data n) else Inr st) (\<lambda>st.
     bindE (unlock_proc st cur) (\<lambda>st. Inr (tnext n, st))))))))"

definition load_task ::
  "(taskmgr \<Rightarrow> addr \<Rightarrow> taskmgr res) \<Rightarrow> taskmgr \<Rightarrow> addr \<Rightarrow> taskmgr res" where
  "load_task load st ntask =
     bindE (lock_proc st ntask) (\<lambda>st.
     bindE (upd_proc st ntask (\<lambda>n. n\<lparr>tstate := task_state_running\<rparr>)) (\<lambda>st.
     bindE (hget (procs st) ntask) (\<lambda>n.
     bindE (vmem_setactive (vm st) (tmem n)) (\<lambda>(_, v).
     bindE (fp_platform_setstate (st\<lparr>vm := v\<rparr>) (fpu_state n)) (\<lambda>st.
     bindE (load st (reg_state n)) (\<lambda>st.
     bindE (if syscall_data n \<noteq> NULL then syscall_setfullstate st (syscall_data n) else Inr st) (\<lambda>st.
       unlock_proc st ntask)))))))"

definition switch_task ::
  "(taskmgr \<Rightarrow> addr \<Rightarrow> taskmgr res) \<Rightarrow> (taskmgr \<Rightarrow> addr \<Rightarrow> taskmgr res) \<Rightarrow> taskmgr \<Rightarrow> taskmgr res" where
  "switch_task save load st =
     bindE (lock_list st) (\<lambda>st.
       case core_descs st of
         None \<Rightarrow> Inl NullDeref
       | Some c \<Rightarrow>
           bindE (if cur_task c \<noteq> NULL then
                    bindE (save_current save st (cur_task c)) (\<lambda>(ntask, st). find_runnable (length (cells (procs st))) st ntask)
                  else Inr (NULL, st)) (\<lambda>(ntask, st).
           bindE (if ntask = NULL then find_runnable (length (cells (procs st))) st (processes st) else Inr (ntask, st)) (\<lambda>(ntask, st).
             if ntask = NULL then Inl (Panic ''[SysTaskMgr] Out of Processes!'')
             else bindE (load_task load (st\<lparr>core_descs := Some (c\<lparr>cur_task := ntask\<rparr>)\<rparr>) ntask) (\<lambda>st. Inr (unlock_list st)))))"

definition task_switch_handler :: "taskmgr \<Rightarrow> taskmgr res" where
  "task_switch_handler st =
     (let (cli_state, st) = cli st in
      bindE (switch_task mp_platform_getstate mp_platform_setstate st) (\<lambda>st. Inr (sti st cli_state)))"

definition task_yield_stage2 :: "taskmgr \<Rightarrow> taskmgr res" where
  "task_yield_stage2 =
     switch_task
       (\<lambda>st buf. bindE (hset (reg_heap st) buf (\<lambda>_. yield_frame st)) (\<lambda>h. Inr (st\<lparr>reg_heap := h\<rparr>)))
       (\<lambda>st buf. bindE (hget (reg_heap st) buf) (\<lambda>r. Inr (st\<lparr>yield_frame := r\<rparr>)))"

text \<open>
  \<open>r\<close> are the registers of the caller. The call ends in the task that is switched to, with the registers in
  \<open>yield_frame\<close>; the caller goes on from \<open>resume_from_yield\<close> when it is switched to again.
\<close>

definition task_yield :: "taskmgr \<Rightarrow> regs \<Rightarrow> taskmgr res" where
  "task_yield st r = (let (_, st) = cli st in task_yield_stage2 (st\<lparr>yield_frame := r\<lparr>rip := resume_from_yield st\<rparr>\<rparr>))"

section \<open>Descriptors\<close>

text \<open>A table of descriptors is the one in a process or one of the further tables.\<close>

datatype dtab = ProcTab addr | SubTab addr

definition dget :: "taskmgr \<Rightarrow> dtab \<Rightarrow> int \<Rightarrow> descriptor_entry res" where
  "dget st d i =
     (case d of
        ProcTab p \<Rightarrow> bindE (hget (procs st) p) (\<lambda>n. aget (descriptors n) i)
      | SubTab a \<Rightarrow> bindE (hget (desc_heap st) a) (\<lambda>ds. aget ds i))"

definition dset :: "taskmgr \<Rightarrow> dtab \<Rightarrow> int \<Rightarrow> descriptor_entry \<Rightarrow> taskmgr res" where
  "dset st d i e =
     (case d of
        ProcTab p \<Rightarrow> bindE (hget (procs st) p) (\<lambda>n. bindE (aset (descriptors n) i e) (\<lambda>ds. upd_proc st p (\<lambda>n. n\<lparr>descriptors := ds\<rparr>)))
      | SubTab a \<Rightarrow> bindE (hget (desc_heap st) a) (\<lambda>ds. bindE (aset ds i e) (\<lambda>ds. Inr (st\<lparr>desc_heap := hput (desc_heap st) a ds\<rparr>))))"

lemma dget_before: "dget st d (- 1) = Inr e \<Longrightarrow> False"
  by (auto simp: dget_def aget_def res_iff split: dtab.splits)

definition new_table :: "taskmgr \<Rightarrow> dtab \<Rightarrow> int \<Rightarrow> taskmgr res" where
  "new_table st d i =
     (let (t, h) = halloc (desc_heap st) in
      bindE (dset (st\<lparr>desc_heap := h\<rparr>) d i \<lparr>dptr = t, dtype = descriptor_type_descriptor_entry\<rparr>) (\<lambda>st.
      bindE (hset (desc_heap st) t (\<lambda>_. replicate MAX_DESCRIPTOR_COUNT empty_desc)) (\<lambda>h. Inr (st\<lparr>desc_heap := h\<rparr>))))"

text \<open>At an entry for a further table the loops set the index to -1 before they use it.\<close>

function alloc_descriptor_loop :: "taskmgr \<Rightarrow> dtab \<Rightarrow> u64 \<Rightarrow> descriptor_type \<Rightarrow> nat \<Rightarrow> (u64 \<times> taskmgr) res" where
  "alloc_descriptor_loop st d ident ntype i =
     (if i < MAX_DESCRIPTOR_COUNT then
        bindE (dget st d (int i)) (\<lambda>e.
        bindE (if i = MAX_DESCRIPTOR_COUNT - 1 \<and> dtype e = descriptor_type_unused_entry then new_table st d (int i) else Inr st) (\<lambda>st.
        bindE (dget st d (int i)) (\<lambda>e.
          if dtype e = descriptor_type_descriptor_entry then
            bindE (dget st d (- 1)) (\<lambda>e. alloc_descriptor_loop st (SubTab (dptr e)) (ident - 1) ntype 0)
          else if dtype e = descriptor_type_unused_entry then
            bindE (dset st d (int i) (e\<lparr>dtype := ntype\<rparr>)) (\<lambda>st. Inr (ident + of_nat i, st))
          else alloc_descriptor_loop st d ident ntype (Suc i))))
      else Inl (Panic ''[SysTaskMgr] Descriptor allocation failed.''))"
  by pat_completeness auto
termination by (relation "measure (\<lambda>(st, d, ident, ntype, i). MAX_DESCRIPTOR_COUNT - i)") (auto dest: dget_before)

function read_descriptor_loop :: "taskmgr \<Rightarrow> dtab \<Rightarrow> u64 \<Rightarrow> u64 \<Rightarrow> nat \<Rightarrow> (dtab \<times> nat) res" where
  "read_descriptor_loop st d base_id ident i =
     (if i < MAX_DESCRIPTOR_COUNT then
        bindE (dget st d (int i)) (\<lambda>e.
          if dtype e = descriptor_type_descriptor_entry then
            bindE (dget st d (- 1)) (\<lambda>e. read_descriptor_loop st (SubTab (dptr e)) (base_id - 1) ident 0)
          else if dtype e \<noteq> descriptor_type_unused_entry \<and> base_id + of_nat i = ident then Inr (d, i)
          else read_descriptor_loop st d base_id ident (Suc i))
      else Inl (Panic ''[SysTaskMgr] Descriptor read failed.''))"
  by pat_completeness auto
termination by (relation "measure (\<lambda>(st, d, base_id, ident, i). MAX_DESCRIPTOR_COUNT - i)") (auto dest: dget_before)

declare alloc_descriptor_loop.simps [simp del] read_descriptor_loop.simps [simp del]

definition alloc_descriptor :: "taskmgr \<Rightarrow> addr \<Rightarrow> descriptor_type \<Rightarrow> (u64 \<times> taskmgr) res" where
  "alloc_descriptor st pinfo ntype = alloc_descriptor_loop st (ProcTab pinfo) 0 ntype 0"

definition read_descriptor :: "taskmgr \<Rightarrow> addr \<Rightarrow> u64 \<Rightarrow> (dtab \<times> nat) res" where
  "read_descriptor st pinfo ident = read_descriptor_loop st (ProcTab pinfo) 0 ident 0"

section \<open>Memory of a task\<close>

definition task_virttophys :: "taskmgr \<Rightarrow> u64 \<Rightarrow> u64 \<Rightarrow> bool \<Rightarrow> ((int \<times> u64 option) \<times> taskmgr) res" where
  "task_virttophys st i va phys_given =
     (if \<not> phys_given then Inr ((CS_UNKN, None), st)
      else on_task st i (CS_UNKN, None) (CS_UNKN, None) (\<lambda>st iter.
        bindE (hget (procs st) iter) (\<lambda>n.
        bindE (vmem_virttophys (vm st) (tmem n) va) (\<lambda>(r, phys).
          Inr ((if r = 0 then CS_OK else CS_UNKN, phys), st)))))"

definition map_permissions :: "u32 \<Rightarrow> u32 \<Rightarrow> u32" where
  "map_permissions perms task_perms =
     (if perms AND 1 \<noteq> 0 then vmem_flags_rw else 0)
     OR (if perms AND 2 \<noteq> 0 then vmem_flags_exec else 0)
     OR (if perms AND 4 \<noteq> 0 then vmem_flags_cachewritethrough
         else if perms AND 8 \<noteq> 0 then vmem_flags_cachewriteback
         else if perms AND 16 \<noteq> 0 then vmem_flags_cachewritecomplete
         else if perms AND 32 \<noteq> 0 then vmem_flags_uncached else 0)
     OR (if task_perms AND task_permissions_kernel \<noteq> 0 then vmem_flags_kernel else vmem_flags_user)"

text \<open>
  The name is not used: the first statement sets it to null, so a shared mapping is refused. \<open>shmem_given\<close> says that
  the caller gave a place for the identifier.
\<close>

definition task_map ::
  "taskmgr \<Rightarrow> u64 \<Rightarrow> u64 \<Rightarrow> u64 \<Rightarrow> u32 \<Rightarrow> u32 \<Rightarrow> u32 \<Rightarrow> u32 \<Rightarrow> bool \<Rightarrow> ((int \<times> u64 option) \<times> taskmgr) res" where
  "task_map st i va sz flags o_perms c_perms c_count shmem_given =
     (if \<not> shmem_given \<or> flags AND 8 \<noteq> 0 \<or> flags AND 4 \<noteq> 0 \<or> flags AND 16 \<noteq> 0 then Inr ((CS_UNKN, None), st)
      else on_task st i (CS_OK, None) (CS_UNKN, None) (\<lambda>st iter.
        bindE (alloc_descriptor st iter descriptor_type_map_entry) (\<lambda>(shmem_k_id, st).
        bindE (read_descriptor st iter shmem_k_id) (\<lambda>(d, k).
        let (m, h) = halloc (map_heap st); st = st\<lparr>map_heap := h\<rparr> in
        bindE (dset st d (int k) \<lparr>dptr = m, dtype = descriptor_type_map_entry\<rparr>) (\<lambda>st.
        bindE (hset (map_heap st) m (\<lambda>e. e\<lparr>vaddr := va, paddr := 0, msz := sz, owner_perms := o_perms, child_perms := c_perms,
          mflags := flags, child_count := c_count\<rparr>)) (\<lambda>h.
        let st = st\<lparr>map_heap := h\<rparr> in
        bindE (hget (procs st) iter) (\<lambda>n.
        bindE (pagealloc_alloc (phys_mem (vm st)) 0 0 22 sz) (\<lambda>(pmem, pm).
        let st = st\<lparr>vm := (vm st)\<lparr>phys_mem := pm\<rparr>\<rparr> in
        bindE (hset (map_heap st) m (\<lambda>e. e\<lparr>paddr := pmem, is_owner := True\<rparr>)) (\<lambda>h.
        let st = st\<lparr>map_heap := h\<rparr> in
        bindE (vmem_map (vm st) (tmem n) va pmem sz (map_permissions o_perms (permissions n))) (\<lambda>(_, v).
          Inr ((CS_OK, Some shmem_k_id), st\<lparr>vm := v\<rparr>)))))))))))"

definition task_updatemap :: "taskmgr \<Rightarrow> u64 \<Rightarrow> u64 \<Rightarrow> u32 \<Rightarrow> (int \<times> taskmgr) res" where
  "task_updatemap st i shmem_id perms =
     on_task st i CS_OK CS_UNKN (\<lambda>st iter.
       bindE (read_descriptor st iter shmem_id) (\<lambda>(d, k).
       bindE (dget st d (int k)) (\<lambda>e.
         if dtype e = descriptor_type_map_entry then
           bindE (hget (map_heap st) (dptr e)) (\<lambda>me.
           bindE (hget (procs st) iter) (\<lambda>n.
             let perms = perms AND (if is_owner me then owner_perms me else child_perms me) in
             bindE (vmem_unmap (vm st) (tmem n) (vaddr me) (msz me)) (\<lambda>(_, v).
             bindE (vmem_map v (tmem n) (vaddr me) (paddr me) (msz me) (map_permissions perms (permissions n))) (\<lambda>(_, v).
               Inr (CS_OK, st\<lparr>vm := v\<rparr>)))))
         else Inr (CS_OK, st))))"

definition task_unmap :: "taskmgr \<Rightarrow> u64 \<Rightarrow> u64 \<Rightarrow> (int \<times> taskmgr) res" where
  "task_unmap st i shmem_id =
     on_task st i CS_OK CS_UNKN (\<lambda>st iter.
       bindE (read_descriptor st iter shmem_id) (\<lambda>(d, k).
       bindE (dget st d (int k)) (\<lambda>e.
         if dtype e = descriptor_type_map_entry then
           bindE (hget (map_heap st) (dptr e)) (\<lambda>me.
           bindE (hget (procs st) iter) (\<lambda>n.
           bindE (vmem_unmap (vm st) (tmem n) (vaddr me) (msz me)) (\<lambda>(_, v).
           bindE (if is_owner me then pagealloc_free (phys_mem v) (paddr me) (msz me) else Inr (phys_mem v)) (\<lambda>pm.
           bindE (hfree (map_heap st) (dptr e)) (\<lambda>h.
           bindE (dset (st\<lparr>vm := v\<lparr>phys_mem := pm\<rparr>, map_heap := h\<rparr>) d (int k) \<lparr>dptr = NULL, dtype = descriptor_type_unused_entry\<rparr>) (\<lambda>st.
             Inr (CS_OK, st)))))))
         else Inr (CS_OK, st))))"

section \<open>Resources of a task\<close>

definition task_allocdescriptor :: "taskmgr \<Rightarrow> u64 \<Rightarrow> addr \<Rightarrow> addr \<Rightarrow> ((int \<times> u64 option) \<times> taskmgr) res" where
  "task_allocdescriptor st i act rst =
     (if act = NULL then Inr ((CS_UNKN, None), st)
      else on_task st i (CS_OK, None) (CS_UNKN, None) (\<lambda>st iter.
        bindE (alloc_descriptor st iter descriptor_type_resource_entry) (\<lambda>(k_id, st).
        bindE (read_descriptor st iter k_id) (\<lambda>(d, k).
        let (m, h) = halloc (res_heap st); st = st\<lparr>res_heap := h\<rparr> in
        bindE (dset st d (int k) \<lparr>dptr = m, dtype = descriptor_type_resource_entry\<rparr>) (\<lambda>st.
        bindE (hset (res_heap st) m (\<lambda>_. \<lparr>rstate = rst, action = act\<rparr>)) (\<lambda>h.
          Inr ((CS_OK, Some k_id), st\<lparr>res_heap := h\<rparr>)))))))"

text \<open>\<open>act\<close> is what calling a release action at an address does.\<close>

type_synonym release_action = "addr \<Rightarrow> addr \<Rightarrow> taskmgr \<Rightarrow> taskmgr res"

definition task_freedescriptor :: "release_action \<Rightarrow> taskmgr \<Rightarrow> u64 \<Rightarrow> u64 \<Rightarrow> (int \<times> taskmgr) res" where
  "task_freedescriptor act st i descriptor =
     on_task st i CS_OK CS_UNKN (\<lambda>st iter.
       bindE (read_descriptor st iter descriptor) (\<lambda>(d, k).
       bindE (dget st d (int k)) (\<lambda>e.
         if dtype e = descriptor_type_resource_entry then
           bindE (hget (res_heap st) (dptr e)) (\<lambda>re.
           bindE (act (action re) (rstate re) st) (\<lambda>st.
           bindE (hfree (res_heap st) (dptr e)) (\<lambda>h.
           bindE (dset (st\<lparr>res_heap := h\<rparr>) d (int k) \<lparr>dptr = NULL, dtype = descriptor_type_unused_entry\<rparr>) (\<lambda>st.
             Inr (CS_OK, st)))))
         else Inr (CS_OK, st))))"

text \<open>\<open>depth\<close> bounds how deep the tables are nested; each is a cell of its own.\<close>

function free_descriptors :: "nat \<Rightarrow> release_action \<Rightarrow> taskmgr \<Rightarrow> addr \<Rightarrow> dtab \<Rightarrow> u64 \<Rightarrow> nat \<Rightarrow> taskmgr res" where
  "free_descriptors depth act st pinfo d base_id i =
     (if pinfo = NULL \<or> d = SubTab NULL then Inl (Panic ''[SysTaskMgr] Bad arguments to free_descriptors, memory may be corrupted.'')
      else if i < MAX_DESCRIPTOR_COUNT then
        bindE (dget st d (int i)) (\<lambda>e.
        bindE (hget (procs st) pinfo) (\<lambda>n.
        bindE (case dtype e of
                 descriptor_type_map_entry \<Rightarrow>
                   bindE (task_unmap st (tid n) (base_id + of_nat i)) (\<lambda>(_, st). dset st d (int i) empty_desc)
               | descriptor_type_resource_entry \<Rightarrow>
                   bindE (task_freedescriptor act st (tid n) (base_id + of_nat i)) (\<lambda>(_, st). Inr st)
               | descriptor_type_descriptor_entry \<Rightarrow>
                   (if dptr e \<noteq> NULL then
                      case depth of
                        0 \<Rightarrow> Inl Diverge
                      | Suc depth \<Rightarrow>
                          bindE (free_descriptors depth act st pinfo (SubTab (dptr e)) (base_id + of_nat i) 0) (\<lambda>st.
                          bindE (hfree (desc_heap st) (dptr e)) (\<lambda>h. dset (st\<lparr>desc_heap := h\<rparr>) d (int i) empty_desc))
                    else Inr st)
               | _ \<Rightarrow> Inr st) (\<lambda>st.
          free_descriptors depth act st pinfo d base_id (Suc i))))
      else Inr st)"
  by pat_completeness auto
termination by (relation "measures [\<lambda>(depth, act, st, pinfo, d, base_id, i). depth, \<lambda>(depth, act, st, pinfo, d, base_id, i). MAX_DESCRIPTOR_COUNT - i]") auto

declare free_descriptors.simps [simp del]

section \<open>Waiting\<close>

definition task_monitor_noyield :: "taskmgr \<Rightarrow> u64 \<Rightarrow> addr \<Rightarrow> u32 \<Rightarrow> (int \<times> taskmgr) res" where
  "task_monitor_noyield st i tgt cur_val =
     (if tgt = NULL then Inr (CS_UNKN, st)
      else on_task st i CS_UNKN CS_UNKN (\<lambda>st iter.
        bindE (hget (procs st) iter) (\<lambda>n.
        bindE (vmem_virttophys (vm st) (tmem n) tgt) (\<lambda>(_, phys).
        bindE (vmem_phystovirt (vm st) (case phys of None \<Rightarrow> 0 | Some p \<Rightarrow> p) 4 (vmem_flags_uncached OR vmem_flags_kernel)) (\<lambda>p.
        bindE (upd_proc st iter (\<lambda>n. n\<lparr>monitor_tgt := p, monitor_value := cur_val, tstate := task_state_suspended_monitor_mem_32\<rparr>)) (\<lambda>st.
          Inr (CS_UNKN, st)))))))"

text \<open>
  A call that gives up the core answers \<open>None\<close>: the state is the one in which the next task runs. What is left of the
  call, \<open>sti\<close> and the answer \<open>CS_UNKN\<close>, happens when the caller is switched to again. \<open>r\<close> are the caller's registers.
\<close>

definition task_monitor :: "taskmgr \<Rightarrow> u64 \<Rightarrow> addr \<Rightarrow> u32 \<Rightarrow> regs \<Rightarrow> (int option \<times> taskmgr) res" where
  "task_monitor st i tgt cur_val r =
     (if tgt = NULL then Inr (Some CS_UNKN, st)
      else let (_, st) = cli st in
        bindE (task_monitor_noyield st i tgt cur_val) (\<lambda>(_, st). bindE (task_yield st r) (\<lambda>st. Inr (None, st))))"

definition task_sleep :: "taskmgr \<Rightarrow> u64 \<Rightarrow> u64 \<Rightarrow> regs \<Rightarrow> (int option \<times> taskmgr) res" where
  "task_sleep st i ns r =
     (if processes st \<noteq> NULL then
        on_task st i (Some CS_UNKN) None (\<lambda>st iter.
          let (now, st) = timer_timestamp_ns st in
          bindE (upd_proc st iter (\<lambda>n. n\<lparr>monitor_tgt := now + ns, tstate := task_state_sleep\<rparr>)) (\<lambda>st. Inr (Some CS_UNKN, st)))
      else let (_, st) = cli st in
        bindE (lock_list st) (\<lambda>st. bindE (task_yield (unlock_list st) r) (\<lambda>st. Inr (None, st))))"

record semaphore =
  sema_count :: u32
  spinlock :: bool

definition semaphore_init :: semaphore where
  "semaphore_init = \<lparr>sema_count = 0, spinlock = False\<rparr>"

definition semaphore_signal :: "semaphore \<Rightarrow> (int \<times> semaphore) res" where
  "semaphore_signal sema =
     (if spinlock sema then Inl Deadlock
      else Inr (to_i32 (uint (sema_count sema)), sema\<lparr>sema_count := sema_count sema + 1, spinlock := False\<rparr>))"

text \<open>
  One round of the loop, \<open>p\<close> being the address of the count; after \<open>None\<close> the caller goes on with the next round when it
  is switched to again.
\<close>

definition semaphore_wait :: "taskmgr \<Rightarrow> semaphore \<Rightarrow> addr \<Rightarrow> regs \<Rightarrow> (int option \<times> semaphore \<times> taskmgr) res" where
  "semaphore_wait st sema p r =
     (if spinlock sema then Inl Deadlock
      else if sema_count sema = 0 then
        (let (_, st) = cli st in
         bindE (task_current st) (\<lambda>i.
         bindE (task_monitor_noyield st i p 0) (\<lambda>(_, st).
         bindE (task_yield st r) (\<lambda>st. Inr (None, sema\<lparr>spinlock := False\<rparr>, st)))))
      else
        (let c = sema_count sema - 1 in Inr (Some (to_i32 (uint c)), sema\<lparr>sema_count := c, spinlock := False\<rparr>, st)))"

section \<open>System calls\<close>

definition create_task_syscall :: "taskmgr \<Rightarrow> cstring \<Rightarrow> (int \<times> u64 option \<times> taskmgr) res" where
  "create_task_syscall st name = create_task_kernel st name task_permissions_none"

definition start_task_syscall :: "taskmgr \<Rightarrow> u64 \<Rightarrow> addr \<Rightarrow> u64 \<Rightarrow> (int \<times> taskmgr) res" where
  "start_task_syscall st i handler arg = start_task_kernel st i handler arg"

text \<open>A task that has ended itself yields for ever; \<open>None\<close> is the first of these yields.\<close>

definition end_task_syscall :: "taskmgr \<Rightarrow> regs \<Rightarrow> (int option \<times> taskmgr) res" where
  "end_task_syscall st r =
     (let (cli_state, st) = cli st in
      bindE (task_current st) (\<lambda>i.
      bindE (end_task_kernel st i) (\<lambda>(retVal, st).
        let st = sti st cli_state in
        if retVal = CS_OK then bindE (task_yield st r) (\<lambda>st. Inr (None, st)) else Inr (Some retVal, st))))"

definition openspecialset_syscall :: "taskmgr \<Rightarrow> u32 \<Rightarrow> (int \<times> u32 \<times> taskmgr) res" where
  "openspecialset_syscall st set_id =
     (let (cli_state, st) = cli st in
      bindE (syscall_set_syscallset st (sint set_id) NULL) (\<lambda>(_, st). Inr (CS_OK, set_id, sti st cli_state)))"

definition nanosleep_syscall :: int where
  "nanosleep_syscall = CS_OK"

section \<open>Removing tasks\<close>

definition trylock_proc :: "taskmgr \<Rightarrow> addr \<Rightarrow> (bool \<times> taskmgr) res" where
  "trylock_proc st p =
     bindE (hget (procs st) p) (\<lambda>n. if tlock n then Inr (False, st)
       else bindE (upd_proc st p (\<lambda>n. n\<lparr>tlock := True\<rparr>)) (\<lambda>st. Inr (True, st)))"

definition release_task :: "release_action \<Rightarrow> taskmgr \<Rightarrow> addr \<Rightarrow> taskmgr res" where
  "release_task act st iter =
     bindE (hget (procs st) iter) (\<lambda>n.
       if tmem n \<noteq> NULL then
         bindE (free_descriptors (length (cells (desc_heap st))) act st iter (ProcTab iter) 0 0) (\<lambda>st.
         bindE (hget (procs st) iter) (\<lambda>n.
         bindE (hfree (sys_heap st) (syscall_data n)) (\<lambda>h.
         let st = st\<lparr>sys_heap := h\<rparr> in
         bindE (if user_stack n \<noteq> NULL then
                  bindE (vmem_unmap (vm st) (tmem n) 0x100000000 USER_STACK_LEN) (\<lambda>(_, v).
                  bindE (pagealloc_free (phys_mem v) (user_stack_phys n) USER_STACK_LEN) (\<lambda>pm. Inr (st\<lparr>vm := v\<lparr>phys_mem := pm\<rparr>\<rparr>)))
                else Inr st) (\<lambda>st.
         bindE (vmem_destroy (vm st) (tmem n)) (\<lambda>v.
         bindE (hfree (fpu_bufs st) (fpu_state_unaligned n)) (\<lambda>fb.
         bindE (hfree (reg_heap st) (reg_state n)) (\<lambda>rh.
         bindE (hfree (stacks st) (kernel_stack n - KERNEL_STACK_LEN)) (\<lambda>sh.
           upd_proc (st\<lparr>vm := v, fpu_bufs := fb, reg_heap := rh, stacks := sh\<rparr>) iter (\<lambda>n. n\<lparr>tmem := NULL\<rparr>)))))))))
       else Inr st)"

definition unlink_task :: "taskmgr \<Rightarrow> addr \<Rightarrow> addr \<Rightarrow> taskmgr res" where
  "unlink_task st prev_iter iter =
     bindE (hget (procs st) iter) (\<lambda>n.
       if prev_iter = NULL then
         bindE (hfree (procs st) iter) (\<lambda>h. Inr (st\<lparr>processes := tnext n, procs := h, process_count := process_count st - 1\<rparr>))
       else
         bindE (trylock_proc st prev_iter) (\<lambda>(got, st).
           if got then
             bindE (upd_proc st prev_iter (\<lambda>p. p\<lparr>tnext := tnext n\<rparr>)) (\<lambda>st.
             bindE (unlock_proc st prev_iter) (\<lambda>st.
             bindE (hfree (procs st) iter) (\<lambda>h. Inr (st\<lparr>procs := h, process_count := process_count st - 1\<rparr>))))
           else unlock_proc st iter))"

fun cleanup_walk :: "nat \<Rightarrow> release_action \<Rightarrow> taskmgr \<Rightarrow> addr \<Rightarrow> addr \<Rightarrow> taskmgr res" where
  "cleanup_walk fuel act st prev_iter iter =
     (if iter = NULL then Inr st
      else case fuel of
        0 \<Rightarrow> Inl Diverge
      | Suc fuel \<Rightarrow>
          bindE (trylock_proc st iter) (\<lambda>(got, st).
            if \<not> got then Inr st
            else bindE (hget (procs st) iter) (\<lambda>n.
              if tstate n = task_state_exited then bindE (release_task act st iter) (\<lambda>st. unlink_task st prev_iter iter)
              else bindE (unlock_proc st iter) (\<lambda>st. cleanup_walk fuel act st iter (tnext n)))))"

declare cleanup_walk.simps [simp del]

text \<open>One round of the endless loop of \<^verbatim>\<open>task_cleanup\<close>.\<close>

definition task_cleanup :: "release_action \<Rightarrow> taskmgr \<Rightarrow> taskmgr res" where
  "task_cleanup act st =
     (let (cli_state, st) = cli st in
      bindE (lock_list st) (\<lambda>st.
      bindE (cleanup_walk (length (cells (procs st))) act st NULL (processes st)) (\<lambda>st.
        Inr (sti (unlock_list st) cli_state))))"

section \<open>Initialisation\<close>

text \<open>\<open>timer\<close> is the answer of \<^verbatim>\<open>timer_request\<close>; the last two arguments are the addresses of the handlers.\<close>

definition launch :: "taskmgr \<Rightarrow> string \<Rightarrow> addr \<Rightarrow> taskmgr res" where
  "launch st name handler =
     bindE (create_task_kernel st (str name) task_permissions_kernel) (\<lambda>(err, i, st).
       if err \<noteq> CS_OK then Inl (Panic (''[SysTaskMgr] Failed to create '' @ name @ '' task.''))
       else bindE (start_task_kernel st (case i of None \<Rightarrow> 0 | Some i \<Rightarrow> i) handler NULL) (\<lambda>(err, st).
         if err \<noteq> CS_OK then Inl (Panic (''[SysTaskMgr] Failed to start '' @ name @ '' task.'')) else Inr st))"

definition module_mp_init :: "taskmgr \<Rightarrow> int \<Rightarrow> addr \<Rightarrow> addr \<Rightarrow> (int \<times> taskmgr) res" where
  "module_mp_init st timer servicescript_handler cleanup_handler =
     (let (stack, h) = halloc (stacks st);
          st = st\<lparr>stacks := h\<rparr>
      in if core_descs st = None then Inl NullDeref
         else
           bindE (launch (st\<lparr>core_descs := Some \<lparr>interrupt_stack = stack + KERNEL_STACK_LEN, cur_task = NULL\<rparr>\<rparr>)
             ''servicescript'' servicescript_handler) (\<lambda>st.
           bindE (launch st ''task_cleanup'' cleanup_handler) (\<lambda>st.
             if timer \<noteq> 0 then Inl (Panic ''[SysTaskMgr] Failed to allocate periodic timer!'') else Inr (0, st))))"

end
