(* ===== verification/Scheduler.thy ===== *)
theory Scheduler
  imports TaskMgr AddressSpace
begin

text \<open>
  What the task manager of \<^verbatim>\<open>TaskMgr\<close> guarantees: the searches through the locked list of processes, the round robin
  choice of the scheduler with the saved contexts, the descriptors of a task, and what the cleanup task does.
\<close>

section \<open>Locking one process\<close>

lemma upd_proc_ok: "hmap (procs st) p = Some n \<Longrightarrow> p \<noteq> NULL \<Longrightarrow> upd_proc st p f = Inr (st\<lparr>procs := hput (procs st) p (f n)\<rparr>)"
  by (simp add: upd_proc_def)

lemma lock_proc_ok:
  "hmap (procs st) p = Some n \<Longrightarrow> p \<noteq> NULL \<Longrightarrow> \<not> tlock n \<Longrightarrow> lock_proc st p = Inr (st\<lparr>procs := hput (procs st) p (n\<lparr>tlock := True\<rparr>)\<rparr>)"
  by (simp add: lock_proc_def upd_proc_ok)

lemma unlock_proc_ok:
  "hmap (procs st) p = Some n \<Longrightarrow> p \<noteq> NULL \<Longrightarrow> unlock_proc st p = Inr (st\<lparr>procs := hput (procs st) p (n\<lparr>tlock := False\<rparr>)\<rparr>)"
  by (simp add: unlock_proc_def upd_proc_ok)

lemma tlock_same: "\<not> tlock n \<Longrightarrow> n\<lparr>tlock := False\<rparr> = n"
  by simp

lemma procs_same: "hmap (procs st) p = Some n \<Longrightarrow> st\<lparr>procs := hput (procs st) p n\<rparr> = st"
  by (simp add: hput_same)

section \<open>Searching\<close>

definition proc :: "taskmgr \<Rightarrow> addr \<Rightarrow> process_desc" where
  "proc st p = the (hmap (procs st) p)"

definition unlocked :: "taskmgr \<Rightarrow> addr list \<Rightarrow> bool" where
  "unlocked st ps \<longleftrightarrow> (\<forall>p \<in> set ps. p \<noteq> NULL \<and> hmap (procs st) p = Some (proc st p) \<and> \<not> tlock (proc st p))"

lemma unlocked_Cons: "unlocked st (p # ps) \<longleftrightarrow> p \<noteq> NULL \<and> hmap (procs st) p = Some (proc st p) \<and> \<not> tlock (proc st p) \<and> unlocked st ps"
  by (auto simp: unlocked_def)

lemma find_task_walk:
  "path tnext (hmap (procs st)) iter ps NULL \<Longrightarrow> unlocked st ps \<Longrightarrow> length ps \<le> fuel \<Longrightarrow>
   find_task fuel st iter i = Inr (case find (\<lambda>p. tid (proc st p) = i) ps of
     None \<Rightarrow> (NULL, st) | Some p \<Rightarrow> (p, st\<lparr>procs := hput (procs st) p ((proc st p)\<lparr>tlock := True\<rparr>)\<rparr>))"
proof (induction ps arbitrary: iter fuel)
  case Nil
  then show ?case by (simp add: find_task.simps)
next
  case (Cons p ps)
  obtain f where f: "fuel = Suc f" "length ps \<le> f" using Cons.prems(3) by (cases fuel) auto
  have p: "iter = p" "p \<noteq> NULL" "hmap (procs st) p = Some (proc st p)" "\<not> tlock (proc st p)" "unlocked st ps"
    "path tnext (hmap (procs st)) (tnext (proc st p)) ps NULL" using Cons.prems(1,2) by (auto simp: unlocked_Cons)
  show ?case using Cons.IH[OF p(6,5) f(2)] p(1-4) f(1)
    by (subst find_task.simps) (simp add: lock_proc_ok unlock_proc_ok tlock_same procs_same)
qed

text \<open>
  The order in which the scheduler looks: the first task of a list that can run, given the number of clock reads so
  far; every sleeping task it looks at reads the clock.
\<close>

definition awake :: "taskmgr \<Rightarrow> nat \<Rightarrow> process_desc \<Rightarrow> bool" where
  "awake st t n \<longleftrightarrow> tstate n = task_state_pending \<or>
     tstate n = task_state_suspended_monitor_mem_32 \<and> mem32 st (monitor_tgt n) \<noteq> monitor_value n \<or>
     tstate n = task_state_sleep \<and> monitor_tgt n \<le> timestamps st t"

definition reads :: "process_desc \<Rightarrow> nat" where
  "reads n = (if tstate n = task_state_sleep then 1 else 0)"

fun first_awake :: "taskmgr \<Rightarrow> nat \<Rightarrow> addr list \<Rightarrow> addr option \<times> nat" where
  "first_awake st t [] = (None, t)"
| "first_awake st t (p # ps) =
     (if awake st t (proc st p) then (Some p, t + reads (proc st p)) else first_awake st (t + reads (proc st p)) ps)"

definition watches :: "process_desc \<Rightarrow> bool" where
  "watches n \<longleftrightarrow> (tstate n = task_state_suspended_monitor_mem_32 \<longrightarrow> monitor_tgt n \<noteq> NULL)"

lemma can_run_awake: "watches n \<Longrightarrow> can_run st n = Inr (awake st (ticks st) n, st\<lparr>ticks := ticks st + reads n\<rparr>)"
  by (cases "tstate n") (simp_all add: can_run_def awake_def reads_def watches_def timer_timestamp_ns_def)

lemma first_awake_ticks: "first_awake (st\<lparr>ticks := k\<rparr>) t ps = first_awake st t ps"
proof (induction ps arbitrary: t)
  case (Cons p ps)
  have "proc (st\<lparr>ticks := k\<rparr>) p = proc st p" "awake (st\<lparr>ticks := k\<rparr>) t = awake st t" by (simp_all add: proc_def awake_def fun_eq_iff)
  then show ?case using Cons by simp
qed simp

lemma find_runnable_walk:
  "path tnext (hmap (procs st)) ntask ps NULL \<Longrightarrow> unlocked st ps \<Longrightarrow> \<forall>p \<in> set ps. watches (proc st p) \<Longrightarrow> length ps \<le> fuel \<Longrightarrow>
   find_runnable fuel st ntask = (let (q, t) = first_awake st (ticks st) ps in Inr (case q of None \<Rightarrow> NULL | Some p \<Rightarrow> p, st\<lparr>ticks := t\<rparr>))"
proof (induction ps arbitrary: ntask fuel st)
  case Nil
  then show ?case by (simp add: find_runnable.simps)
next
  case (Cons p ps)
  obtain f where f: "fuel = Suc f" "length ps \<le> f" using Cons.prems(4) by (cases fuel) auto
  have p: "ntask = p" "p \<noteq> NULL" "hmap (procs st) p = Some (proc st p)" "\<not> tlock (proc st p)" "unlocked st ps"
    "path tnext (hmap (procs st)) (tnext (proc st p)) ps NULL" using Cons.prems(1,2) by (auto simp: unlocked_Cons)
  let ?n = "proc st p"
  let ?st = "st\<lparr>ticks := ticks st + reads ?n\<rparr>"
  let ?l = "st\<lparr>procs := hput (procs st) p (?n\<lparr>tlock := True\<rparr>)\<rparr>"
  have c: "can_run ?l (?n\<lparr>tlock := True\<rparr>) = Inr (awake st (ticks st) ?n, ?l\<lparr>ticks := ticks st + reads ?n\<rparr>)"
    using Cons.prems(3) can_run_awake[of "?n\<lparr>tlock := True\<rparr>" ?l] by (simp add: watches_def awake_def reads_def)
  have u: "unlock_proc (?l\<lparr>ticks := ticks st + reads ?n\<rparr>) p = Inr ?st"
    using p(2-4) by (simp add: unlock_proc_ok tlock_same hput_same)
  have s: "find_runnable fuel st ntask = (if awake st (ticks st) ?n then Inr (p, ?st) else find_runnable f ?st (tnext ?n))"
    using p(1-4) c u f(1) by (subst find_runnable.simps) (simp add: lock_proc_ok)
  have "find_runnable f ?st (tnext ?n) =
      (let (q, t) = first_awake ?st (ticks ?st) ps in Inr (case q of None \<Rightarrow> NULL | Some p \<Rightarrow> p, ?st\<lparr>ticks := t\<rparr>))"
    by (rule Cons.IH[OF _ _ _ f(2)]) (use p(5,6) Cons.prems(3) in \<open>simp_all add: unlocked_def proc_def\<close>)
  then show ?case unfolding s first_awake_ticks by (simp split: prod.split)
qed

section \<open>Saving and loading\<close>

definition area_ok :: "taskmgr \<Rightarrow> process_desc \<Rightarrow> bool" where
  "area_ok st n \<longleftrightarrow> fpu_state n \<noteq> NULL \<and> fpu_state n mod fp_platform_getalign st = 0 \<and>
     reg_state n \<noteq> NULL \<and> hmap (reg_heap st) (reg_state n) \<noteq> None \<and> (syscall_data n \<noteq> NULL \<longrightarrow> hmap (sys_heap st) (syscall_data n) \<noteq> None)"

definition preempt :: "taskmgr \<Rightarrow> addr \<Rightarrow> taskmgr" where
  "preempt st p = st\<lparr>procs := hput (procs st) p
     (if tstate (proc st p) = task_state_running then (proc st p)\<lparr>tstate := task_state_pending\<rparr> else proc st p)\<rparr>"

definition saved :: "taskmgr \<Rightarrow> addr \<Rightarrow> taskmgr" where
  "saved st p = (preempt st p)\<lparr>fpu_mem := (fpu_mem st)(fpu_state (proc st p) := fpu st),
     reg_heap := hput (reg_heap st) (reg_state (proc st p)) (reg_ref st),
     sys_heap := (if syscall_data (proc st p) \<noteq> NULL then hput (sys_heap st) (syscall_data (proc st p)) (sys_state st) else sys_heap st)\<rparr>"

definition loaded :: "taskmgr \<Rightarrow> addr \<Rightarrow> vmem_state \<Rightarrow> taskmgr" where
  "loaded st q v = st\<lparr>procs := hput (procs st) q ((proc st q)\<lparr>tstate := task_state_running\<rparr>), vm := v,
     fpu := fpu_mem st (fpu_state (proc st q)), reg_ref := the (hmap (reg_heap st) (reg_state (proc st q))),
     sys_state := (if syscall_data (proc st q) \<noteq> NULL then the (hmap (sys_heap st) (syscall_data (proc st q))) else sys_state st)\<rparr>"

lemma save_current_ok:
  assumes "unlocked st [p]" "area_ok st (proc st p)"
  shows "save_current mp_platform_getstate st p = Inr (tnext (proc st p), saved st p)"
proof -
  obtain r where r: "hmap (reg_heap st) (reg_state (proc st p)) = Some r" "reg_state (proc st p) \<noteq> NULL"
    using assms(2) by (auto simp: area_ok_def)
  have u: "p \<noteq> NULL" "hmap (procs st) p = Some (proc st p)" "\<not> tlock (proc st p)" using assms(1) by (auto simp: unlocked_def)
  have a: "fpu_state (proc st p) \<noteq> NULL" "fpu_state (proc st p) mod fp_platform_getalign st = 0" using assms(2) by (auto simp: area_ok_def)
  have s: "hmap (sys_heap st) (syscall_data (proc st p)) = Some (the (hmap (sys_heap st) (syscall_data (proc st p))))" if "syscall_data (proc st p) \<noteq> NULL"
    using assms(2) that by (auto simp: area_ok_def)
  show ?thesis using u a r s
    by (auto simp: save_current_def saved_def preempt_def lock_proc_ok unlock_proc_ok upd_proc_ok fp_platform_getstate_def fpu_area_def
        fp_platform_getalign_def mp_platform_getstate_def syscall_getfullstate_def tlock_same split: if_splits)
qed

lemma load_task_ok:
  assumes "unlocked st [q]" "area_ok st (proc st q)" "vmem_setactive (vm st) (tmem (proc st q)) = Inr (k, v)"
  shows "load_task mp_platform_setstate st q = Inr (loaded st q v)"
proof -
  obtain r where r: "hmap (reg_heap st) (reg_state (proc st q)) = Some r" "reg_state (proc st q) \<noteq> NULL"
    using assms(2) by (auto simp: area_ok_def)
  have u: "q \<noteq> NULL" "hmap (procs st) q = Some (proc st q)" "\<not> tlock (proc st q)" using assms(1) by (auto simp: unlocked_def)
  have a: "fpu_state (proc st q) \<noteq> NULL" "fpu_state (proc st q) mod fp_platform_getalign st = 0" using assms(2) by (auto simp: area_ok_def)
  have s: "hmap (sys_heap st) (syscall_data (proc st q)) = Some (the (hmap (sys_heap st) (syscall_data (proc st q))))" if "syscall_data (proc st q) \<noteq> NULL"
    using assms(2) that by (auto simp: area_ok_def)
  show ?thesis using u a r s assms(3)
    by (auto simp: load_task_def loaded_def lock_proc_ok unlock_proc_ok upd_proc_ok fp_platform_setstate_def fpu_area_def
        fp_platform_getalign_def mp_platform_setstate_def syscall_setfullstate_def tlock_same split: if_splits)
qed

text \<open>An address space of \<open>ms\<close> can be made active at any time.\<close>

definition switchable :: "vmem_state \<Rightarrow> addr set \<Rightarrow> bool" where
  "switchable v ms \<longleftrightarrow> (\<exists>l. lcl v = Some l \<and> frame_table v (ktable l) = Inr (Frame (ktable l)) \<and> \<not> vlock (kmem v) \<and>
     (\<forall>m \<in> ms. m \<noteq> NULL) \<and> (\<forall>m \<in> ms \<union> {cur_vmem l} - {NULL}. \<exists>n. hmap (vms v) m = Some n \<and> \<not> vlock n))"

lemma setactive_switchable:
  assumes "switchable v ms" "m \<in> ms"
  shows "\<exists>v'. vmem_setactive v m = Inr (0, v') \<and> switchable v' ms"
proof -
  obtain l where l: "lcl v = Some l" "frame_table v (ktable l) = Inr (Frame (ktable l))" "\<not> vlock (kmem v)" "\<forall>m \<in> ms. m \<noteq> NULL"
      "\<forall>m \<in> ms \<union> {cur_vmem l} - {NULL}. \<exists>n. hmap (vms v) m = Some n \<and> \<not> vlock n" using assms(1) unfolding switchable_def by blast
  obtain v1 where s: "vmem_savestate v = Inr v1" "same_cfg v v1" "lcl v1 = Some l" "mem v1 = mem v" "\<not> vlock (kmem v1)"
      "hmap (vms v1) = (if cur_vmem l = NULL then hmap (vms v)
         else (hmap (vms v))(cur_vmem l \<mapsto> (the (hmap (vms v) (cur_vmem l)))\<lparr>ptable := take 256 (mem v (ktable l))\<rparr>))"
    using savestate_ok[OF l(1-3)] l(1,5) by auto
  have h: "\<exists>n. hmap (vms v1) x = Some n \<and> \<not> vlock n" if "x \<in> ms \<union> {cur_vmem l} - {NULL}" for x
    using bspec[OF l(5) that] that unfolding s(6) by auto
  have m: "m \<noteq> NULL" using l(4) assms(2) by blast
  then obtain n where n: "hmap (vms v1) m = Some n" "\<not> vlock n" using h[of m] assms(2) by auto
  have f: "frame_table v1 (ktable l) = Inr (Frame (ktable l))" using l(2) by (simp add: same_cfgD[OF s(2)])
  let ?w = "v1\<lparr>vms := hput (vms v1) m n, mem := (mem v1)(ktable l := ptable n @ drop 256 (mem v1 (ktable l))),
    lcl := Some (l\<lparr>cur_vmem := m\<rparr>), cpu := (cpu v1)\<lparr>cr3 := ktable l\<rparr>\<rparr>"
  have "n\<lparr>vlock := False\<rparr> = n" using n(2) by simp
  then have r: "vmem_setactive v m = Inr (0, ?w)"
    using s(1,3) f n m by (simp add: vmem_setactive_def lock_vm_def unlock_vm_def hset_def hput_same)
  have "frame_table ?w = frame_table v1" by (simp add: frame_table_def vmem_phystovirt_def fun_eq_iff)
  then have "switchable ?w ms" unfolding switchable_def using f s(5) l(4) h n m by auto
  then show ?thesis using r by blast
qed

section \<open>Switching\<close>

text \<open>
  \<open>ps\<close> are the processes in the order of the list. They are unlocked, have save areas of their own, and address spaces that
  can be activated; the task of the core is one of them.
\<close>

definition separate :: "taskmgr \<Rightarrow> addr list \<Rightarrow> bool" where
  "separate st ps \<longleftrightarrow> inj_on (\<lambda>p. fpu_state (proc st p)) (set ps) \<and> inj_on (\<lambda>p. reg_state (proc st p)) (set ps) \<and>
     inj_on (\<lambda>p. syscall_data (proc st p)) {p \<in> set ps. syscall_data (proc st p) \<noteq> NULL}"

definition sched_inv :: "taskmgr \<Rightarrow> addr list \<Rightarrow> bool" where
  "sched_inv st ps \<longleftrightarrow> path tnext (hmap (procs st)) (processes st) ps NULL \<and> unlocked st ps \<and>
     (\<forall>p \<in> set ps. watches (proc st p) \<and> area_ok st (proc st p)) \<and> separate st ps \<and>
     switchable (vm st) ((\<lambda>p. tmem (proc st p)) ` set ps) \<and> \<not> process_lock st \<and>
     (\<exists>c. core_descs st = Some c \<and> (cur_task c = NULL \<or> cur_task c \<in> set ps))"

text \<open>What the scheduler picks: the first task behind \<open>p\<close> that can run, and from the start of the list when there is none.\<close>

definition next_task :: "taskmgr \<Rightarrow> addr list \<Rightarrow> addr \<Rightarrow> addr list \<Rightarrow> addr option" where
  "next_task st as p bs =
     (case first_awake st (ticks st) bs of (Some q, _) \<Rightarrow> Some q | (None, t) \<Rightarrow> fst (first_awake st t (as @ p # bs)))"

lemma proc_hput: "proc (st\<lparr>procs := hput (procs st) p n\<rparr>) q = (if q = p then n else proc st q)"
  by (simp add: proc_def)

lemma proc_cong: "procs st' = procs st \<Longrightarrow> proc st' = proc st"
  by (simp add: proc_def fun_eq_iff)

lemma first_awake_cong:
  assumes "procs st' = procs st" "mem32 st' = mem32 st" "timestamps st' = timestamps st"
  shows "first_awake st' t ps = first_awake st t ps"
  by (induction ps arbitrary: t) (simp_all add: proc_cong[OF assms(1)] awake_def assms(2,3))

lemma first_awake_mem: "first_awake st t ps = (Some q, t') \<Longrightarrow> q \<in> set ps \<and> (\<exists>u. awake st u (proc st q))"
  by (induction ps arbitrary: t) (auto split: if_splits)

lemma path_hput_same:
  assumes "m p = Some n" "nx n' = nx n"
  shows "path nx (m(p \<mapsto> n')) a ps b = path nx m a ps b"
  using assms by (induction ps arbitrary: a) auto

lemma record_steps:
  "proc (st\<lparr>process_lock := b\<rparr>) = proc st" "proc (st\<lparr>ticks := t\<rparr>) = proc st" "proc (st\<lparr>core_descs := d\<rparr>) = proc st"
  "proc (st\<lparr>interrupts := b\<rparr>) = proc st"
  "saved (st\<lparr>interrupts := b\<rparr>) p = (saved st p)\<lparr>interrupts := b\<rparr>" "loaded (st\<lparr>interrupts := b\<rparr>) p v = (loaded st p v)\<lparr>interrupts := b\<rparr>"
  "preempt (st\<lparr>process_lock := b\<rparr>) p = (preempt st p)\<lparr>process_lock := b\<rparr>" "preempt (st\<lparr>interrupts := b\<rparr>) p = (preempt st p)\<lparr>interrupts := b\<rparr>"
  "saved (st\<lparr>process_lock := b\<rparr>) p = (saved st p)\<lparr>process_lock := b\<rparr>"
  "loaded (st\<lparr>process_lock := b\<rparr>) p v = (loaded st p v)\<lparr>process_lock := b\<rparr>"
  "loaded (st\<lparr>ticks := t\<rparr>) p v = (loaded st p v)\<lparr>ticks := t\<rparr>" "loaded (st\<lparr>core_descs := d\<rparr>) p v = (loaded st p v)\<lparr>core_descs := d\<rparr>"
  "interrupts (loaded st p v) = interrupts st" "process_lock (loaded st p v) = process_lock st"
  by (simp_all add: proc_def fun_eq_iff saved_def preempt_def loaded_def)

lemma saved_sel:
  "procs (saved st p) = procs (preempt st p)" "ticks (saved st p) = ticks st" "mem32 (saved st p) = mem32 st" "timestamps (saved st p) = timestamps st"
  "processes (saved st p) = processes st" "vm (saved st p) = vm st" "process_lock (saved st p) = process_lock st"
  "core_descs (saved st p) = core_descs st" "fp_platform_getalign (saved st p) = fp_platform_getalign st" "interrupts (saved st p) = interrupts st"
  "ticks (preempt st p) = ticks st" "mem32 (preempt st p) = mem32 st" "timestamps (preempt st p) = timestamps st"
  by (simp_all add: saved_def preempt_def fp_platform_getalign_def)

lemma proc_preempt:
  "proc (preempt st p) r = (if r = p \<and> tstate (proc st p) = task_state_running then (proc st p)\<lparr>tstate := task_state_pending\<rparr> else proc st r)"
  by (simp add: preempt_def proc_hput)

lemma preempt_list:
  assumes "unlocked st ps" "p \<in> set ps"
  shows "path tnext (hmap (procs (preempt st p))) a xs b = path tnext (hmap (procs st)) a xs b" "unlocked (preempt st p) ps"
    "\<forall>p \<in> set ps. watches (proc st p) \<Longrightarrow> \<forall>r \<in> set ps. watches (proc (preempt st p) r)"
proof -
  have p: "hmap (procs st) p = Some (proc st p)" using assms by (simp add: unlocked_def)
  show "path tnext (hmap (procs (preempt st p))) a xs b = path tnext (hmap (procs st)) a xs b"
    unfolding preempt_def using path_hput_same[of "hmap (procs st)" p "proc st p" tnext] p by simp
  show "unlocked (preempt st p) ps" using assms(1) by (auto simp: unlocked_def proc_preempt) (simp_all add: preempt_def)
  show "\<forall>r \<in> set ps. watches (proc (preempt st p) r)" if "\<forall>p \<in> set ps. watches (proc st p)"
    using that by (simp add: proc_preempt watches_def)
qed

lemma hmap_hput_ne: "hmap h a \<noteq> None \<Longrightarrow> hmap (hput h b x) a \<noteq> None"
  by simp

lemma area_ok_saved: "area_ok st n \<Longrightarrow> area_ok (saved st p) (n\<lparr>tstate := s\<rparr>)" "area_ok st n \<Longrightarrow> area_ok (saved st p) n"
  by (auto simp: area_ok_def saved_sel) (auto simp: saved_def)

lemma find_next:
  assumes I: "path tnext (hmap (procs st)) (processes st) ps NULL" "unlocked st ps" "\<forall>p \<in> set ps. watches (proc st p)"
    and ps: "ps = as @ p # bs"
  shows "\<exists>t. bindE (find_runnable (length (cells (procs (saved st p)))) (saved st p) (tnext (proc st p))) (\<lambda>(n, s).
      if n = NULL then find_runnable (length (cells (procs s))) s (processes s) else Inr (n, s)) =
      Inr (case next_task (preempt st p) as p bs of None \<Rightarrow> NULL | Some q \<Rightarrow> q, (saved st p)\<lparr>ticks := t\<rparr>)"
proof -
  let ?S = "saved st p" and ?P = "preempt st p"
  note L = preempt_list[OF I(2), of p]
  have pin: "p \<in> set ps" using ps by simp
  have U: "unlocked ?S ps" "\<forall>r \<in> set ps. watches (proc ?S r)"
    using L(2,3)[OF pin] I(3) by (simp_all add: unlocked_def proc_cong[OF saved_sel(1)] saved_sel(1))
  have P: "path tnext (hmap (procs ?S)) (processes ?S) ps NULL" unfolding saved_sel L(1)[OF pin] by (rule I(1))
  have Q: "path tnext (hmap (procs ?S)) (tnext (proc st p)) bs NULL"
    using I(1) unfolding saved_sel L(1)[OF pin] ps path_append by (auto simp: proc_def)
  have len: "length ps \<le> length (cells (procs ?S))" by (rule path_length[OF P])
  have bs: "unlocked ?S bs" "\<forall>r \<in> set bs. watches (proc ?S r)" "length bs \<le> length (cells (procs ?S))" using U len ps by (auto simp: unlocked_def)
  have fa: "first_awake ?S t xs = first_awake ?P t xs" for t xs by (rule first_awake_cong) (simp_all add: saved_sel)
  obtain r t1 where r: "first_awake ?P (ticks ?P) bs = (r, t1)" by (cases "first_awake ?P (ticks ?P) bs")
  have f1: "find_runnable (length (cells (procs ?S))) ?S (tnext (proc st p)) = Inr (case r of None \<Rightarrow> NULL | Some x \<Rightarrow> x, ?S\<lparr>ticks := t1\<rparr>)"
    using find_runnable_walk[OF Q bs] r by (simp add: fa saved_sel)
  have nn: "x \<noteq> NULL" if "x \<in> set ps" for x using I(2) that by (auto simp: unlocked_def)
  show ?thesis
  proof (cases r)
    case (Some x)
    then have "next_task ?P as p bs = Some x" "x \<in> set bs" using r first_awake_mem[of ?P "ticks ?P" bs x t1] by (auto simp: next_task_def)
    then show ?thesis using f1 Some nn[of x] ps by auto
  next
    case None
    obtain w t2 where t2: "first_awake ?P t1 ps = (w, t2)" by (cases "first_awake ?P t1 ps")
    then have w: "next_task ?P as p bs = w" using r None unfolding next_task_def ps by simp
    let ?T = "?S\<lparr>ticks := t1\<rparr>"
    have "find_runnable (length (cells (procs ?T))) ?T (processes ?T) = Inr (case w of None \<Rightarrow> NULL | Some q \<Rightarrow> q, ?T\<lparr>ticks := t2\<rparr>)"
      using find_runnable_walk[of ?T "processes ?T" ps "length (cells (procs ?T))"] P U len t2
      by (simp add: unlocked_def record_steps first_awake_ticks fa)
    then show ?thesis using f1 None w by auto
  qed
qed

lemma next_task_mem: "next_task st as p bs = Some q \<Longrightarrow> q \<in> set (as @ p # bs) \<and> (\<exists>u. awake st u (proc st q))"
proof -
  assume nx: "next_task st as p bs = Some q"
  obtain r t where r: "first_awake st (ticks st) bs = (r, t)" by (cases "first_awake st (ticks st) bs")
  obtain w u where w: "first_awake st t (as @ p # bs) = (w, u)" by (cases "first_awake st t (as @ p # bs)")
  show ?thesis using nx r w first_awake_mem[of st "ticks st" bs q t] first_awake_mem[of st t "as @ p # bs" q u]
    by (auto simp: next_task_def split: option.splits)
qed

definition switched :: "taskmgr \<Rightarrow> core_desc \<Rightarrow> addr \<Rightarrow> vmem_state \<Rightarrow> nat \<Rightarrow> taskmgr" where
  "switched st c q v t = loaded ((saved st (cur_task c))\<lparr>ticks := t, core_descs := Some (c\<lparr>cur_task := q\<rparr>)\<rparr>) q v"

lemma saved_task:
  assumes "unlocked st ps" "p \<in> set ps" "q \<in> set ps" "area_ok st (proc st q)"
  shows "unlocked (saved st p) [q]" "area_ok (saved st p) (proc (saved st p) q)" "tmem (proc (saved st p) q) = tmem (proc st q)"
proof -
  have e: "proc (saved st p) = proc (preempt st p)" by (rule proc_cong[OF saved_sel(1)])
  show "unlocked (saved st p) [q]" using preempt_list(2)[OF assms(1,2)] assms(3) by (simp add: unlocked_def e saved_sel)
  show "area_ok (saved st p) (proc (saved st p) q)" "tmem (proc (saved st p) q) = tmem (proc st q)"
    using area_ok_saved[OF assms(4), of p] by (auto simp: e proc_preempt)
qed

lemma task_switch_ok:
  assumes inv: "sched_inv st ps" and c: "core_descs st = Some c" and ps: "ps = as @ cur_task c # bs"
  shows "next_task (preempt st (cur_task c)) as (cur_task c) bs = Some q \<Longrightarrow>
      \<exists>t v. task_switch_handler st = Inr (switched st c q v t) \<and> switchable v ((\<lambda>p. tmem (proc st p)) ` set ps)"
    and "next_task (preempt st (cur_task c)) as (cur_task c) bs = None \<Longrightarrow> task_switch_handler st = Inl (Panic ''[SysTaskMgr] Out of Processes!'')"
proof -
  let ?p = "cur_task c" and ?L = "st\<lparr>interrupts := False, process_lock := True\<rparr>"
  have I: "unlocked st ps" "\<forall>p \<in> set ps. area_ok st (proc st p)" "switchable (vm st) ((\<lambda>p. tmem (proc st p)) ` set ps)" "\<not> process_lock st"
    using inv by (auto simp: sched_inv_def)
  have p: "?p \<in> set ps" "?p \<noteq> NULL" using I(1) ps by (auto simp: unlocked_def)
  let ?S = "saved ?L ?p"
  have sw: "switch_task mp_platform_getstate mp_platform_setstate (st\<lparr>interrupts := False\<rparr>) =
      bindE (bindE (find_runnable (length (cells (procs ?S))) ?S (tnext (proc st ?p))) (\<lambda>(n, s).
        if n = NULL then find_runnable (length (cells (procs s))) s (processes s) else Inr (n, s))) (\<lambda>(ntask, s).
        if ntask = NULL then Inl (Panic ''[SysTaskMgr] Out of Processes!'')
        else bindE (load_task mp_platform_setstate (s\<lparr>core_descs := Some (c\<lparr>cur_task := ntask\<rparr>)\<rparr>) ntask) (\<lambda>s. Inr (unlock_list s)))"
  proof -
    have "unlocked ?L [?p]" "area_ok ?L (proc ?L ?p)" using I(1,2) p(1) by (simp_all add: unlocked_def area_ok_def record_steps fp_platform_getalign_def)
    then show ?thesis using c I(4) p(2) save_current_ok[of ?L ?p]
      by (simp add: switch_task_def lock_list_def bindE_assoc record_steps) (intro bindE_cong refl, auto intro!: bindE_cong)
  qed
  have nxL: "next_task (preempt ?L ?p) as ?p bs = next_task (preempt st ?p) as ?p bs"
  proof -
    have "first_awake (preempt ?L ?p) u xs = first_awake (preempt st ?p) u xs" for u xs by (rule first_awake_cong) (simp_all add: record_steps)
    then show ?thesis by (simp only: next_task_def saved_sel(11)) simp
  qed
  obtain t where f: "bindE (find_runnable (length (cells (procs ?S))) ?S (tnext (proc ?L ?p))) (\<lambda>(n, s).
      if n = NULL then find_runnable (length (cells (procs s))) s (processes s) else Inr (n, s)) =
      Inr (case next_task (preempt st ?p) as ?p bs of None \<Rightarrow> NULL | Some q \<Rightarrow> q, ?S\<lparr>ticks := t\<rparr>)"
    using find_next[of ?L, OF _ _ _ ps] inv unfolding nxL by (auto simp: sched_inv_def unlocked_def record_steps)
  show "next_task (preempt st ?p) as ?p bs = None \<Longrightarrow> task_switch_handler st = Inl (Panic ''[SysTaskMgr] Out of Processes!'')"
    using sw f by (simp add: task_switch_handler_def cli_def record_steps)
  assume nx: "next_task (preempt st ?p) as ?p bs = Some q"
  have q: "q \<in> set ps" using next_task_mem[OF nx] ps by simp
  have qa: "unlocked ?L ps" "?p \<in> set ps" "q \<in> set ps" "area_ok ?L (proc ?L q)"
    using I(1,2) p(1) q by (simp_all add: unlocked_def area_ok_def record_steps fp_platform_getalign_def)
  let ?T = "?S\<lparr>ticks := t, core_descs := Some (c\<lparr>cur_task := q\<rparr>)\<rparr>"
  obtain v where v: "vmem_setactive (vm st) (tmem (proc st q)) = Inr (0, v)" "switchable v ((\<lambda>p. tmem (proc st p)) ` set ps)"
    using setactive_switchable[OF I(3)] q by blast
  have "load_task mp_platform_setstate ?T q = Inr (loaded ?T q v)"
  proof (rule load_task_ok)
    show "unlocked ?T [q]" using saved_task(1)[OF qa] by (simp add: unlocked_def record_steps)
    show "area_ok ?T (proc ?T q)" using saved_task(2)[OF qa] by (simp add: area_ok_def record_steps fp_platform_getalign_def)
    show "vmem_setactive (vm ?T) (tmem (proc ?T q)) = Inr (0, v)" using v(1) saved_task(3)[OF qa] by (simp add: record_steps saved_sel)
  qed
  then have "task_switch_handler st = Inr (sti (unlock_list (loaded ?T q v)) (interrupts st))"
    using sw f nx qa(1,3) by (simp add: task_switch_handler_def cli_def record_steps unlocked_def)
  moreover have "sti (unlock_list (loaded ?T q v)) (interrupts st) = switched st c q v t"
    unfolding switched_def sti_def unlock_list_def record_steps
    by (rule taskmgr.equality) (use I(4) in \<open>simp_all add: record_steps saved_sel\<close>)
  ultimately have "task_switch_handler st = Inr (switched st c q v t)" by simp
  then show "\<exists>t v. task_switch_handler st = Inr (switched st c q v t) \<and> switchable v ((\<lambda>p. tmem (proc st p)) ` set ps)" using v(2) by blast
qed

lemma switched_proc:
  "proc (switched st c q v t) r = (if r = q then (proc (preempt st (cur_task c)) q)\<lparr>tstate := task_state_running\<rparr> else proc (preempt st (cur_task c)) r)"
proof -
  have "proc (saved st (cur_task c)) = proc (preempt st (cur_task c))" by (rule proc_cong[OF saved_sel(1)])
  then show ?thesis by (simp add: switched_def loaded_def record_steps) (simp add: proc_def saved_sel)
qed

lemma switched_fields:
  "tmem (proc (switched st c q v t) r) = tmem (proc st r)" "fpu_state (proc (switched st c q v t) r) = fpu_state (proc st r)"
  "reg_state (proc (switched st c q v t) r) = reg_state (proc st r)" "syscall_data (proc (switched st c q v t) r) = syscall_data (proc st r)"
  "tlock (proc (switched st c q v t) r) = tlock (proc st r)"
  by (simp_all add: switched_proc proc_preempt)

lemma switched_regs:
  assumes "p = cur_task c"
  shows "reg_heap (switched st c q v t) = hput (reg_heap st) (reg_state (proc st p)) (reg_ref st)"
    "reg_ref (switched st c q v t) = the (hmap (hput (reg_heap st) (reg_state (proc st p)) (reg_ref st)) (reg_state (proc st q)))"
    "fpu_mem (switched st c q v t) = (fpu_mem st)(fpu_state (proc st p) := fpu st)"
    "fpu (switched st c q v t) = ((fpu_mem st)(fpu_state (proc st p) := fpu st)) (fpu_state (proc st q))"
    "core_descs (switched st c q v t) = Some (c\<lparr>cur_task := q\<rparr>)" "processes (switched st c q v t) = processes st"
    "process_lock (switched st c q v t) = process_lock st" "interrupts (switched st c q v t) = interrupts st" "vm (switched st c q v t) = v"
    "fp_platform_getalign (switched st c q v t) = fp_platform_getalign st"
proof -
  have e: "proc ((saved st p)\<lparr>ticks := t, core_descs := d\<rparr>) r = proc (preempt st p) r" for d r
    unfolding record_steps by (rule fun_cong[OF proc_cong[OF saved_sel(1)]])
  have f: "reg_state (proc (preempt st p) r) = reg_state (proc st r)" "fpu_state (proc (preempt st p) r) = fpu_state (proc st r)" for r
    by (simp_all add: proc_preempt)
  show "reg_heap (switched st c q v t) = hput (reg_heap st) (reg_state (proc st p)) (reg_ref st)"
    "reg_ref (switched st c q v t) = the (hmap (hput (reg_heap st) (reg_state (proc st p)) (reg_ref st)) (reg_state (proc st q)))"
    "fpu_mem (switched st c q v t) = (fpu_mem st)(fpu_state (proc st p) := fpu st)"
    "fpu (switched st c q v t) = ((fpu_mem st)(fpu_state (proc st p) := fpu st)) (fpu_state (proc st q))"
    unfolding switched_def loaded_def assms[symmetric] e f by (simp_all add: saved_def preempt_def)
  show "core_descs (switched st c q v t) = Some (c\<lparr>cur_task := q\<rparr>)" "processes (switched st c q v t) = processes st"
    "process_lock (switched st c q v t) = process_lock st" "interrupts (switched st c q v t) = interrupts st" "vm (switched st c q v t) = v"
    "fp_platform_getalign (switched st c q v t) = fp_platform_getalign st"
    by (simp_all add: switched_def loaded_def saved_def preempt_def fp_platform_getalign_def)
qed

lemma switched_procs:
  "procs (switched st c q v t) = hput (procs (preempt st (cur_task c))) q ((proc (preempt st (cur_task c)) q)\<lparr>tstate := task_state_running\<rparr>)"
  using proc_cong[OF saved_sel(1), of st "cur_task c"] by (simp add: switched_def loaded_def record_steps saved_sel)

lemma sched_inv_switched:
  assumes inv: "sched_inv st ps" and p: "cur_task c \<in> set ps" and q: "q \<in> set ps" and v: "switchable v ((\<lambda>p. tmem (proc st p)) ` set ps)"
  shows "sched_inv (switched st c q v t) ps"
proof -
  let ?p = "cur_task c" and ?S = "switched st c q v t"
  have I: "path tnext (hmap (procs st)) (processes st) ps NULL" "unlocked st ps" "\<forall>p \<in> set ps. watches (proc st p) \<and> area_ok st (proc st p)"
    "separate st ps" "\<not> process_lock st" using inv by (auto simp: sched_inv_def)
  note L = preempt_list[OF I(2) p]
  have hq: "hmap (procs (preempt st ?p)) q = Some (proc (preempt st ?p) q)" using L(2) q by (simp add: unlocked_def)
  have 1: "path tnext (hmap (procs ?S)) (processes ?S) ps NULL"
    unfolding switched_procs hmap_hput switched_regs(6)[OF refl] using path_hput_same[of "hmap (procs (preempt st ?p))" q _ tnext] hq L(1) I(1) by simp
  have "hmap (procs ?S) r = Some (proc ?S r)" if "r \<in> set ps" for r using L(2) that by (simp add: unlocked_def switched_procs switched_proc)
  then have 2: "unlocked ?S ps" using I(2) by (simp add: unlocked_def switched_fields)
  have 3: "watches (proc ?S r) \<and> area_ok ?S (proc ?S r)" if r: "r \<in> set ps" for r
  proof -
    have "watches (proc ?S r)" using I(3) r by (auto simp: switched_proc proc_preempt watches_def)
    moreover have "syscall_data (proc st r) \<noteq> NULL \<longrightarrow> hmap (sys_heap ?S) (syscall_data (proc st r)) \<noteq> None"
      using I(3) r by (auto simp: area_ok_def switched_def loaded_def saved_def)
    ultimately show ?thesis using I(3) r by (simp add: area_ok_def switched_fields switched_regs)
  qed
  have 4: "separate ?S ps" using I(4) by (simp add: separate_def switched_fields)
  show ?thesis unfolding sched_inv_def using 1 2 3 4 v q I(5) by (simp add: switched_regs switched_fields)
qed

section \<open>Properties of the scheduler\<close>

text \<open>
  C3. A timer interrupt switches round robin: with the list of processes well formed and the task of the core in it,
  \<open>task_switch_handler\<close> makes current the first task behind it in the list that can run, or the first of the whole list when
  there is none behind. That task runs with its saved registers and FPU state, the previous one is saved and waits, no other
  task changes, and all locks are free again.
\<close>

theorem task_switch_round_robin:
  assumes inv: "sched_inv st ps" and c: "core_descs st = Some c" and ps: "ps = as @ cur_task c # bs"
    and nx: "next_task (preempt st (cur_task c)) as (cur_task c) bs = Some q"
  shows "\<exists>st'. task_switch_handler st = Inr st' \<and> sched_inv st' ps \<and> core_descs st' = Some (c\<lparr>cur_task := q\<rparr>) \<and> q \<in> set ps \<and>
    tstate (proc st' q) = task_state_running \<and> interrupts st' = interrupts st \<and>
    (q \<noteq> cur_task c \<longrightarrow> tstate (proc st (cur_task c)) = task_state_running \<longrightarrow> tstate (proc st' (cur_task c)) = task_state_pending) \<and>
    (\<forall>r \<in> set ps. r \<noteq> q \<and> r \<noteq> cur_task c \<longrightarrow> proc st' r = proc st r) \<and>
    hmap (reg_heap st') (reg_state (proc st (cur_task c))) = Some (reg_ref st) \<and> fpu_mem st' (fpu_state (proc st (cur_task c))) = fpu st \<and>
    (q \<noteq> cur_task c \<longrightarrow> hmap (reg_heap st) (reg_state (proc st q)) = Some (reg_ref st') \<and> fpu st' = fpu_mem st (fpu_state (proc st q)))"
proof -
  obtain t v where s: "task_switch_handler st = Inr (switched st c q v t)" "switchable v ((\<lambda>p. tmem (proc st p)) ` set ps)"
    using task_switch_ok(1)[OF inv c ps nx] by blast
  have p: "cur_task c \<in> set ps" using ps by simp
  have q: "q \<in> set ps" using next_task_mem[OF nx] ps by simp
  have sep: "reg_state (proc st q) \<noteq> reg_state (proc st (cur_task c))" "fpu_state (proc st q) \<noteq> fpu_state (proc st (cur_task c))" if "q \<noteq> cur_task c"
    using inv that p q by (auto simp: sched_inv_def separate_def dest: inj_onD)
  have r: "hmap (reg_heap st) (reg_state (proc st q)) \<noteq> None" using inv q by (auto simp: sched_inv_def area_ok_def)
  show ?thesis using s(1) sched_inv_switched[OF inv p q s(2), of t] q sep r
    by (intro exI[of _ "switched st c q v t"]) (auto simp: switched_regs switched_proc proc_preempt)
qed

lemma task_switch_returns:
  assumes inv: "sched_inv st ps" and c: "core_descs st = Some c" "cur_task c \<noteq> NULL" and run: "task_switch_handler st = Inr st'"
  shows "\<exists>q t v. st' = switched st c q v t \<and> q \<in> set ps \<and> cur_task c \<in> set ps \<and> sched_inv st' ps"
proof -
  have p: "cur_task c \<in> set ps" using inv c by (auto simp: sched_inv_def)
  then obtain as bs where ps: "ps = as @ cur_task c # bs" by (meson split_list)
  obtain q where q: "next_task (preempt st (cur_task c)) as (cur_task c) bs = Some q"
    using task_switch_ok(2)[OF inv c(1) ps] run by (cases "next_task (preempt st (cur_task c)) as (cur_task c) bs") auto
  have "q \<in> set ps" using next_task_mem[OF q] ps by simp
  then show ?thesis using task_switch_ok(1)[OF inv c(1) ps q] sched_inv_switched[OF inv p] run p by auto
qed

lemma sched_inv_env: "sched_inv (st\<lparr>reg_ref := r, fpu := f, mem32 := m, timestamps := ts\<rparr>) ps = sched_inv st ps"
  by (simp add: sched_inv_def unlocked_def proc_def separate_def area_ok_def fp_platform_getalign_def)

text \<open>
  C24. Switching away from a task and back restores it: whatever the tasks in between leave in the registers and the FPU, when
  a later switch picks the task again its registers and its FPU state are the ones it was interrupted with.
\<close>

theorem task_switch_restores_context:
  assumes inv: "sched_inv st ps" and c: "core_descs st = Some c" "cur_task c \<noteq> NULL"
    and 1: "task_switch_handler st = Inr st1" "core_descs st1 = Some c1" "cur_task c1 \<noteq> cur_task c"
    and 2: "task_switch_handler (st1\<lparr>reg_ref := r, fpu := f, mem32 := m, timestamps := ts\<rparr>) = Inr st2" "core_descs st2 = Some c2" "cur_task c2 = cur_task c"
  shows "reg_ref st2 = reg_ref st \<and> fpu st2 = fpu st \<and> sched_inv st2 ps"
proof -
  let ?S = "st1\<lparr>reg_ref := r, fpu := f, mem32 := m, timestamps := ts\<rparr>"
  obtain q t v where s1: "st1 = switched st c q v t" "q \<in> set ps" "cur_task c \<in> set ps" "sched_inv st1 ps"
    using task_switch_returns[OF inv c 1(1)] by blast
  have c1: "c1 = c\<lparr>cur_task := q\<rparr>" "q \<noteq> cur_task c" using 1(2,3) by (auto simp: s1(1) switched_regs)
  have nn: "cur_task c1 \<noteq> NULL" using inv s1(2) by (auto simp: c1(1) sched_inv_def unlocked_def)
  have cS: "core_descs ?S = Some c1" "sched_inv ?S ps" using 1(2) s1(4) by (simp_all add: sched_inv_env)
  obtain q' t' v' where s2: "st2 = switched ?S c1 q' v' t'" "sched_inv st2 ps" using task_switch_returns[OF cS(2,1) nn 2(1)] by blast
  have q': "q' = cur_task c" using 2(2,3) by (auto simp: s2(1) switched_regs)
  have pr: "reg_state (proc ?S x) = reg_state (proc st x)" "fpu_state (proc ?S x) = fpu_state (proc st x)" for x
    using switched_fields(2,3)[of st c q v t x] by (simp_all add: s1(1) proc_def)
  have sep: "reg_state (proc st q) \<noteq> reg_state (proc st (cur_task c))" "fpu_state (proc st q) \<noteq> fpu_state (proc st (cur_task c))"
    using inv c1(2) s1(2,3) by (auto simp: sched_inv_def separate_def dest: inj_onD)
  have "reg_ref st2 = reg_ref st" "fpu st2 = fpu st"
    using sep by (simp_all add: s2(1) switched_regs[OF refl] pr q' c1(1)) (simp_all add: s1(1) switched_regs)
  then show ?thesis using s2(2) by simp
qed

lemma first_awake_None: "first_awake st t ps = (None, t') \<Longrightarrow> \<forall>p \<in> set ps. tstate (proc st p) \<noteq> task_state_pending"
  by (induction ps arbitrary: t) (auto simp: awake_def split: if_splits)

lemma next_task_None: "next_task st as p bs = None \<Longrightarrow> r \<in> set (as @ p # bs) \<Longrightarrow> tstate (proc st r) \<noteq> task_state_pending"
proof -
  assume nx: "next_task st as p bs = None" and r: "r \<in> set (as @ p # bs)"
  obtain x t where x: "first_awake st (ticks st) bs = (x, t)" by (cases "first_awake st (ticks st) bs")
  obtain w u where w: "first_awake st t (as @ p # bs) = (w, u)" by (cases "first_awake st t (as @ p # bs)")
  have "w = None" using nx x w by (simp add: next_task_def split: option.splits)
  then show ?thesis using first_awake_None[of st t "as @ p # bs" u] w r by blast
qed

text \<open>
  C25. The scheduler never stops while there is work: when the task of the core is running, or some task is pending, a switch
  returns, and the task it makes current was pending, the preempted one, watching a word that has changed, or asleep and due;
  never one that is uninitialised, blocked or has exited.
\<close>

theorem task_switch_progress:
  assumes inv: "sched_inv st ps" and c: "core_descs st = Some c" "cur_task c \<noteq> NULL"
    and work: "tstate (proc st (cur_task c)) = task_state_running \<or> (\<exists>r \<in> set ps. tstate (proc st r) = task_state_pending)"
  shows "\<exists>st' q. task_switch_handler st = Inr st' \<and> core_descs st' = Some (c\<lparr>cur_task := q\<rparr>) \<and> sched_inv st' ps \<and>
    (q = cur_task c \<and> tstate (proc st q) = task_state_running \<or> tstate (proc st q) = task_state_pending \<or>
     tstate (proc st q) = task_state_suspended_monitor_mem_32 \<and> mem32 st (monitor_tgt (proc st q)) \<noteq> monitor_value (proc st q) \<or>
     tstate (proc st q) = task_state_sleep \<and> (\<exists>k. monitor_tgt (proc st q) \<le> timestamps st k))"
proof -
  let ?p = "cur_task c" and ?P = "preempt st (cur_task c)"
  have p: "?p \<in> set ps" using inv c by (auto simp: sched_inv_def)
  then obtain as bs where ps: "ps = as @ ?p # bs" by (meson split_list)
  have "\<exists>r \<in> set ps. tstate (proc ?P r) = task_state_pending" using work p by (auto simp: proc_preempt)
  then obtain q where q: "next_task ?P as ?p bs = Some q"
    using next_task_None[of ?P as ?p bs] ps by (cases "next_task ?P as ?p bs") auto
  have "q \<in> set ps" "\<exists>u. awake ?P u (proc ?P q)" using next_task_mem[OF q] ps by auto
  moreover obtain t v where "task_switch_handler st = Inr (switched st c q v t)" "switchable v ((\<lambda>p. tmem (proc st p)) ` set ps)"
    using task_switch_ok(1)[OF inv c(1) ps q] by blast
  ultimately show ?thesis using sched_inv_switched[OF inv p, of q v t]
    by (intro exI[of _ "switched st c q v t"] exI[of _ q]) (auto simp: switched_regs awake_def proc_preempt saved_sel split: if_splits)
qed

section \<open>An example\<close>

definition ex_proc :: "u64 \<Rightarrow> addr \<Rightarrow> task_state \<Rightarrow> addr \<Rightarrow> addr \<Rightarrow> addr \<Rightarrow> process_desc" where
  "ex_proc i m s f r nx = zero_process\<lparr>tid := i, tmem := m, tstate := s, permissions := 1, fpu_state := f, reg_state := r, tnext := nx\<rparr>"

text \<open>Two tasks; the first is running, the second pending.\<close>

definition ex_tasks :: taskmgr where
  "ex_tasks = \<lparr>vm = ex_vmem, cur_id = 3,
     procs = \<lparr>cells = [(0x1000, ex_proc 1 0x40 task_state_running 0x100 0x10 0x2000), (0x2000, ex_proc 2 0x80 task_state_pending 0x200 0x20 0)],
       avail = []\<rparr>,
     processes = 0x1000, process_count = 2, process_lock = False, core_descs = Some \<lparr>interrupt_stack = 0, cur_task = 0x1000\<rparr>,
     interrupts = True, reg_ref = zero_regs\<lparr>rip := 0x1234\<rparr>, yield_frame = zero_regs, fpu = [1, 2],
     sys_state = \<lparr>s_kernel_stack = 0, registers = \<lparr>s_rip = 0, s_rflags = 0, s_rsp = 0, s_rbp = 0, s_rbx = 0, s_r12 = 0, s_r13 = 0, s_r14 = 0, s_r15 = 0\<rparr>,
       syscall_set_table = replicate 128 0\<rparr>,
     reg_heap = \<lparr>cells = [(0x10, zero_regs), (0x20, zero_regs\<lparr>rip := 0x5678\<rparr>)], avail = []\<rparr>,
     sys_heap = \<lparr>cells = [], avail = []\<rparr>, fpu_bufs = \<lparr>cells = [], avail = []\<rparr>, fpu_mem = (\<lambda>_. []),
     stacks = \<lparr>cells = [], avail = []\<rparr>, map_heap = \<lparr>cells = [], avail = []\<rparr>, res_heap = \<lparr>cells = [], avail = []\<rparr>,
     desc_heap = \<lparr>cells = [], avail = []\<rparr>, params_mem = (\<lambda>_. \<lparr>ver = 0, page_size = 0, argc = 0, pid = 0, rng_seed = 0, entry_point = 0, envp = 0, argv = 0\<rparr>),
     mem32 = (\<lambda>_. 0), timestamps = (\<lambda>_. 0), ticks = 0, xsave = False, xsave_sz = 0, syscall_funcs = 0, syscall_touser = 0,
     kernel_entry_handler = 0, resume_from_yield = 0\<rparr>"

lemma ex_tasks_sel:
  "core_descs ex_tasks = Some \<lparr>interrupt_stack = 0, cur_task = 0x1000\<rparr>" "ticks ex_tasks = 0" "reg_ref ex_tasks = zero_regs\<lparr>rip := 0x1234\<rparr>"
  "proc ex_tasks 0x1000 = ex_proc 1 0x40 task_state_running 0x100 0x10 0x2000" "proc ex_tasks 0x2000 = ex_proc 2 0x80 task_state_pending 0x200 0x20 0"
  "hmap (reg_heap ex_tasks) 0x20 = Some (zero_regs\<lparr>rip := 0x5678\<rparr>)" "fpu ex_tasks = [1, 2]"
  "vm ex_tasks = ex_vmem" "processes ex_tasks = 0x1000" "process_lock ex_tasks = False" "hmap (reg_heap ex_tasks) 0x10 = Some zero_regs"
  "hmap (procs ex_tasks) p = (if p = 0x1000 \<or> p = 0x2000 then Some (proc ex_tasks p) else None)" "fp_platform_getalign ex_tasks = 16"
  by (simp_all add: ex_tasks_def proc_def fp_platform_getalign_def)

lemma ex_switchable: "switchable ex_vmem {0x40, 0x80}"
  by (auto simp: switchable_def ex_vmem_sel ex_space_def frame_table_def vmem_phystovirt_def)

lemma ex_sched_inv: "sched_inv ex_tasks [0x1000, 0x2000]"
proof -
  have "unlocked ex_tasks [0x1000, 0x2000]" by (simp add: unlocked_def ex_tasks_sel ex_proc_def zero_process_def)
  moreover have "\<forall>p \<in> set [0x1000, 0x2000]. watches (proc ex_tasks p) \<and> area_ok ex_tasks (proc ex_tasks p)"
    by (simp add: watches_def area_ok_def ex_tasks_sel ex_proc_def zero_process_def)
  moreover have "separate ex_tasks [0x1000, 0x2000]" by (auto simp: separate_def inj_on_def ex_tasks_sel ex_proc_def zero_process_def)
  moreover have "path tnext (hmap (procs ex_tasks)) (processes ex_tasks) [0x1000, 0x2000] NULL" by (simp add: ex_tasks_sel ex_proc_def)
  moreover have "switchable (vm ex_tasks) ((\<lambda>p. tmem (proc ex_tasks p)) ` set [0x1000, 0x2000])"
    using ex_switchable by (simp add: ex_tasks_sel ex_proc_def)
  ultimately show ?thesis by (simp add: sched_inv_def ex_tasks_sel)
qed

lemma ex_next: "next_task (preempt ex_tasks 0x1000) [] 0x1000 [0x2000] = Some 0x2000"
  by (simp add: next_task_def awake_def proc_preempt ex_tasks_sel ex_proc_def)

theorem task_switch_round_robin_witness:
  "\<exists>st'. task_switch_handler ex_tasks = Inr st' \<and> core_descs st' = Some \<lparr>interrupt_stack = 0, cur_task = 0x2000\<rparr> \<and> rip (reg_ref st') = 0x5678"
proof -
  obtain st' where s: "task_switch_handler ex_tasks = Inr st'" "core_descs st' = Some \<lparr>interrupt_stack = 0, cur_task = 0x2000\<rparr>"
      "hmap (reg_heap ex_tasks) (reg_state (proc ex_tasks 0x2000)) = Some (reg_ref st')"
    using task_switch_round_robin[OF ex_sched_inv ex_tasks_sel(1), of "[]" "[0x2000]" "0x2000"] ex_next by auto
  have "reg_ref st' = zero_regs\<lparr>rip := 0x5678\<rparr>" using s(3) ex_tasks_sel(6) by (simp add: ex_tasks_sel(5) ex_proc_def)
  then show ?thesis using s(1,2) by simp
qed

theorem task_switch_progress_witness:
  "\<exists>st'. task_switch_handler ex_tasks = Inr st'"
  using task_switch_progress[OF ex_sched_inv ex_tasks_sel(1)] by (auto simp: ex_tasks_sel ex_proc_def)

lemma ex_back:
  assumes "c = \<lparr>interrupt_stack = 0, cur_task = 0x1000\<rparr>"
  shows "next_task (preempt ((switched ex_tasks c 0x2000 v t)\<lparr>reg_ref := r, fpu := f, mem32 := m, timestamps := ts\<rparr>) 0x2000) [0x1000] 0x2000 [] = Some 0x1000"
proof -
  have "proc ((switched ex_tasks c 0x2000 v t)\<lparr>reg_ref := r, fpu := f, mem32 := m, timestamps := ts\<rparr>) x = proc (switched ex_tasks c 0x2000 v t) x" for x
    by (simp add: proc_def)
  then show ?thesis
    by (simp add: next_task_def awake_def proc_preempt switched_proc ex_tasks_sel ex_proc_def assms)
qed

theorem task_switch_restores_context_witness:
  "\<exists>st1 st2. task_switch_handler ex_tasks = Inr st1 \<and> rip (reg_ref st1) = 0x5678 \<and>
     task_switch_handler (st1\<lparr>reg_ref := zero_regs, fpu := [], mem32 := \<lambda>_. 0, timestamps := \<lambda>_. 0\<rparr>) = Inr st2 \<and> rip (reg_ref st2) = 0x1234 \<and> fpu st2 = [1, 2]"
proof -
  let ?c = "\<lparr>interrupt_stack = 0, cur_task = 0x1000\<rparr> :: core_desc"
  obtain t v where s1: "task_switch_handler ex_tasks = Inr (switched ex_tasks ?c 0x2000 v t)"
    "switchable v ((\<lambda>p. tmem (proc ex_tasks p)) ` set [0x1000, 0x2000])"
    using task_switch_ok(1)[OF ex_sched_inv ex_tasks_sel(1), of "[]" "[0x2000]" "0x2000"] ex_next by auto
  let ?S1 = "switched ex_tasks ?c 0x2000 v t"
  let ?S = "?S1\<lparr>reg_ref := zero_regs, fpu := [], mem32 := \<lambda>_. 0, timestamps := \<lambda>_. 0\<rparr>"
  have i: "sched_inv ?S [0x1000, 0x2000]" unfolding sched_inv_env by (rule sched_inv_switched[OF ex_sched_inv _ _ s1(2)]) simp_all
  have c: "core_descs ?S = Some \<lparr>interrupt_stack = 0, cur_task = 0x2000\<rparr>" by (simp add: switched_regs)
  obtain t2 v2 where s2: "task_switch_handler ?S = Inr (switched ?S \<lparr>interrupt_stack = 0, cur_task = 0x2000\<rparr> 0x1000 v2 t2)"
    using task_switch_ok(1)[OF i c, of "[0x1000]" "[]" "0x1000"] ex_back[OF refl] by auto
  have r: "rip (reg_ref ?S1) = 0x5678" by (simp add: switched_regs ex_tasks_sel ex_proc_def)
  let ?S2 = "switched ?S \<lparr>interrupt_stack = 0, cur_task = 0x2000\<rparr> 0x1000 v2 t2"
  have "core_descs ?S1 = Some \<lparr>interrupt_stack = 0, cur_task = 0x2000\<rparr>" "core_descs ?S2 = Some ?c" by (simp_all add: switched_regs(5))
  then have "reg_ref ?S2 = reg_ref ex_tasks \<and> fpu ?S2 = fpu ex_tasks"
    using task_switch_restores_context[OF ex_sched_inv ex_tasks_sel(1) _ s1(1) _ _ s2] by simp
  then show ?thesis using s1(1) s2 r unfolding ex_tasks_sel by (intro exI[of _ ?S1] exI[of _ ?S2]) simp
qed

section \<open>Descriptors\<close>

abbreviation used_type :: "descriptor_type \<Rightarrow> bool" where
  "used_type d \<equiv> d = descriptor_type_map_entry \<or> d = descriptor_type_resource_entry"

lemma alloc_loop_skips:
  assumes h: "hmap (procs st) p = Some n" "p \<noteq> NULL" "length (descriptors n) = MAX_DESCRIPTOR_COUNT"
  shows "i \<le> k \<Longrightarrow> k < MAX_DESCRIPTOR_COUNT \<Longrightarrow> \<forall>j. i \<le> j \<and> j < k \<longrightarrow> used_type (dtype (descriptors n ! j)) \<Longrightarrow>
    alloc_descriptor_loop st (ProcTab p) ident ntype i = alloc_descriptor_loop st (ProcTab p) ident ntype k"
proof (induction "k - i" arbitrary: i)
  case (Suc m)
  then have u: "used_type (dtype (descriptors n ! i))" "i < MAX_DESCRIPTOR_COUNT" by auto
  have "alloc_descriptor_loop st (ProcTab p) ident ntype i = alloc_descriptor_loop st (ProcTab p) ident ntype (Suc i)"
    using h u by (subst alloc_descriptor_loop.simps) (auto simp: dget_def)
  then show ?case using Suc by simp
qed simp

lemma read_loop_skips:
  assumes h: "hmap (procs st) p = Some n" "p \<noteq> NULL" "length (descriptors n) = MAX_DESCRIPTOR_COUNT"
  shows "i \<le> k \<Longrightarrow> k < MAX_DESCRIPTOR_COUNT \<Longrightarrow> \<forall>j. i \<le> j \<and> j < k \<longrightarrow> dtype (descriptors n ! j) \<noteq> descriptor_type_descriptor_entry \<Longrightarrow>
    read_descriptor_loop st (ProcTab p) 0 (of_nat k) i = read_descriptor_loop st (ProcTab p) 0 (of_nat k) k"
proof (induction "k - i" arbitrary: i)
  case (Suc m)
  then have u: "dtype (descriptors n ! i) \<noteq> descriptor_type_descriptor_entry" "i < MAX_DESCRIPTOR_COUNT" "i < k" by auto
  have "unat (of_nat i :: u64) = i" "unat (of_nat k :: u64) = k" using u(3) Suc.prems(2) by (auto intro!: unat_of_nat_64)
  then have "(of_nat i :: u64) \<noteq> of_nat k" using u(3) by auto
  then have "read_descriptor_loop st (ProcTab p) 0 (of_nat k) i = read_descriptor_loop st (ProcTab p) 0 (of_nat k) (Suc i)"
    using h u by (subst read_descriptor_loop.simps) (auto simp: dget_def)
  then show ?case using Suc by simp
qed simp

text \<open>
  \<open>alloc_descriptor\<close> takes the first unused entry of a process, and \<open>read_descriptor\<close> finds it under the identifier it
  returned. The table cannot grow: with the first 255 entries in use, asking for one more reads in front of the table.
\<close>

theorem alloc_descriptor_first_unused:
  assumes h: "hmap (procs st) p = Some n" "p \<noteq> NULL" "length (descriptors n) = 256" and t: "used_type ntype"
    and k: "k < 256" "\<forall>j < k. used_type (dtype (descriptors n ! j))" "dtype (descriptors n ! k) = descriptor_type_unused_entry"
    and a: "avail (desc_heap st) = (tab, g) # rest" "tab \<noteq> NULL"
  shows "if k < 255
    then \<exists>st'. alloc_descriptor st p ntype = Inr (of_nat k, st') \<and> read_descriptor st' p (of_nat k) = Inr (ProcTab p, k) \<and>
      hmap (procs st') p = Some (n\<lparr>descriptors := (descriptors n)[k := (descriptors n ! k)\<lparr>dtype := ntype\<rparr>]\<rparr>)
    else alloc_descriptor st p ntype = Inl OutOfBounds"
proof -
  have s: "alloc_descriptor st p ntype = alloc_descriptor_loop st (ProcTab p) 0 ntype k"
    unfolding alloc_descriptor_def using alloc_loop_skips[OF h, of 0 k] k by simp
  show ?thesis
  proof (cases "k < 255")
    case True
    let ?n = "n\<lparr>descriptors := (descriptors n)[k := (descriptors n ! k)\<lparr>dtype := ntype\<rparr>]\<rparr>"
    let ?st = "st\<lparr>procs := hput (procs st) p ?n\<rparr>"
    have "alloc_descriptor_loop st (ProcTab p) 0 ntype k = Inr (of_nat k, ?st)"
      using h k True by (subst alloc_descriptor_loop.simps) (simp add: dget_def dset_def upd_proc_ok)
    moreover have "read_descriptor ?st p (of_nat k) = Inr (ProcTab p, k)"
    proof -
      have l: "length (descriptors ?n) = MAX_DESCRIPTOR_COUNT" using h(3) by simp
      have "read_descriptor_loop ?st (ProcTab p) 0 (of_nat k) 0 = read_descriptor_loop ?st (ProcTab p) 0 (of_nat k) k"
        using k(1,2) by (intro read_loop_skips[OF _ h(2) l]) auto
      also have "\<dots> = Inr (ProcTab p, k)" using h k(1) t by (subst read_descriptor_loop.simps) (auto simp: dget_def)
      finally show ?thesis by (simp add: read_descriptor_def)
    qed
    ultimately show ?thesis using s True by simp
  next
    case False
    then have "k = 255" using k(1) by simp
    then have "alloc_descriptor_loop st (ProcTab p) 0 ntype k = Inl OutOfBounds"
      using h k a by (subst alloc_descriptor_loop.simps)
        (simp add: dget_def dset_def upd_proc_ok new_table_def halloc_Some update_conv' aget_def)
    then show ?thesis using s False by simp
  qed
qed

section \<open>Removing tasks\<close>

lemma free_descriptors_deadlock:
  assumes h: "hmap (procs st) p = Some n" "p \<noteq> NULL" "length (descriptors n) = MAX_DESCRIPTOR_COUNT" "process_lock st"
    and k: "k < MAX_DESCRIPTOR_COUNT" "used_type (dtype (descriptors n ! k))"
  shows "i \<le> k \<Longrightarrow> \<forall>j. i \<le> j \<and> j < k \<longrightarrow> dtype (descriptors n ! j) = descriptor_type_unused_entry \<Longrightarrow>
    free_descriptors depth act st p (ProcTab p) 0 i = Inl Deadlock"
proof (induction "k - i" arbitrary: i)
  case 0
  then have "i = k" by simp
  then show ?case using h k
    by (subst free_descriptors.simps) (auto simp: dget_def task_unmap_def task_freedescriptor_def on_task_def cli_def lock_list_def)
next
  case (Suc m)
  then have u: "dtype (descriptors n ! i) = descriptor_type_unused_entry" "i < MAX_DESCRIPTOR_COUNT" using k(1) by auto
  have "free_descriptors depth act st p (ProcTab p) 0 i = free_descriptors depth act st p (ProcTab p) 0 (Suc i)"
    using h u by (subst free_descriptors.simps) (simp add: dget_def)
  then show ?case using Suc by simp
qed

text \<open>
  The cleanup task hangs on the first exited task that holds a descriptor: it keeps the lock of the process list while
  \<open>free_descriptors\<close> calls \<open>task_unmap\<close> or \<open>task_freedescriptor\<close>, which wait for the same lock.
\<close>

theorem task_cleanup_deadlocks:
  assumes p: "processes st = p" "p \<noteq> NULL" "hmap (procs st) p = Some n" "\<not> process_lock st"
    and n: "\<not> tlock n" "tstate n = task_state_exited" "tmem n \<noteq> NULL" "length (descriptors n) = 256"
    and k: "k < 256" "used_type (dtype (descriptors n ! k))" "\<forall>j < k. dtype (descriptors n ! j) = descriptor_type_unused_entry"
  shows "task_cleanup act st = Inl Deadlock"
proof -
  let ?st = "st\<lparr>interrupts := False, process_lock := True\<rparr>"
  let ?n = "n\<lparr>tlock := True\<rparr>"
  let ?S = "?st\<lparr>procs := hput (procs st) p ?n\<rparr>"
  have "0 < length (cells (procs st))" using p(3) by (cases "cells (procs st)") auto
  then obtain f where f: "length (cells (procs st)) = Suc f" by (cases "length (cells (procs st))") auto
  have "free_descriptors d act ?S p (ProcTab p) 0 0 = Inl Deadlock" for d
    by (rule free_descriptors_deadlock[of ?S p ?n k]) (use p n k in auto)
  then have "release_task act ?S p = Inl Deadlock" using p n by (simp add: release_task_def)
  then have "cleanup_walk (Suc f) act ?st NULL p = Inl Deadlock"
    using p n by (subst cleanup_walk.simps) (simp add: trylock_proc_def upd_proc_ok)
  then show ?thesis using p f by (simp add: task_cleanup_def cli_def lock_list_def)
qed

definition ex_done :: process_desc where
  "ex_done = (ex_proc 1 0x40 task_state_exited 0x100 0x10 0)\<lparr>descriptors := \<lparr>dptr = 0x500, dtype = descriptor_type_map_entry\<rparr> # replicate 255 empty_desc\<rparr>"

theorem alloc_descriptor_first_unused_witness:
  "\<exists>st'. alloc_descriptor (ex_tasks\<lparr>procs := \<lparr>cells = [(0x1000, ex_done)], avail = []\<rparr>, desc_heap := \<lparr>cells = [], avail = [(0x900, [])]\<rparr>\<rparr>)
       0x1000 descriptor_type_resource_entry = Inr (1, st') \<and> read_descriptor st' 0x1000 1 = Inr (ProcTab 0x1000, 1)"
  using alloc_descriptor_first_unused[of "ex_tasks\<lparr>procs := \<lparr>cells = [(0x1000, ex_done)], avail = []\<rparr>, desc_heap := \<lparr>cells = [], avail = [(0x900, [])]\<rparr>\<rparr>"
      "0x1000" ex_done descriptor_type_resource_entry 1 "0x900" "[]" "[]"]
  by (auto simp: ex_done_def empty_desc_def)

theorem task_cleanup_deadlocks_witness:
  "task_cleanup (\<lambda>_ _. Inr) (ex_tasks\<lparr>procs := \<lparr>cells = [(0x1000, ex_done)], avail = []\<rparr>\<rparr>) = Inl Deadlock"
  using task_cleanup_deadlocks[of "ex_tasks\<lparr>procs := \<lparr>cells = [(0x1000, ex_done)], avail = []\<rparr>\<rparr>" "0x1000" ex_done 0 "\<lambda>_ _. Inr"]
  by (simp add: ex_tasks_sel ex_done_def ex_proc_def zero_process_def)

text \<open>A system call set with a number of 2 GiB or more is negative as an \<^verbatim>\<open>int\<close> and passes the check of its bound.\<close>

lemma openspecialset_out_of_bounds:
  "sint set_id < 0 \<Longrightarrow> openspecialset_syscall st set_id = Inl OutOfBounds"
  by (simp add: openspecialset_syscall_def cli_def syscall_set_syscallset_def aset_def)

section \<open>Every state of a core\<close>

text \<open>A change of one task that keeps its place in the list, its areas and its address space.\<close>

definition keeps_place :: "process_desc \<Rightarrow> process_desc \<Rightarrow> bool" where
  "keeps_place n n' \<longleftrightarrow> tnext n' = tnext n \<and> tmem n' = tmem n \<and> fpu_state n' = fpu_state n \<and> reg_state n' = reg_state n \<and>
     syscall_data n' = syscall_data n \<and> tlock n' = tlock n"

lemma sched_inv_upd:
  assumes inv: "sched_inv st ps" and p: "p \<in> set ps" and n: "keeps_place (proc st p) n'" "watches n'"
  shows "sched_inv (st\<lparr>procs := hput (procs st) p n'\<rparr>) ps"
proof -
  let ?S = "st\<lparr>procs := hput (procs st) p n'\<rparr>"
  have K: "tnext n' = tnext (proc st p)" "tmem n' = tmem (proc st p)" "fpu_state n' = fpu_state (proc st p)" "reg_state n' = reg_state (proc st p)"
    "syscall_data n' = syscall_data (proc st p)" "tlock n' = tlock (proc st p)" using n(1) by (simp_all add: keeps_place_def)
  have f: "tmem (proc ?S r) = tmem (proc st r)" "fpu_state (proc ?S r) = fpu_state (proc st r)" "reg_state (proc ?S r) = reg_state (proc st r)"
    "syscall_data (proc ?S r) = syscall_data (proc st r)" "tlock (proc ?S r) = tlock (proc st r)" for r
    using K by (simp_all add: proc_hput)
  have h: "hmap (procs st) p = Some (proc st p)" using inv p by (auto simp: sched_inv_def unlocked_def)
  have "path tnext (hmap (procs ?S)) (processes ?S) ps NULL"
    using inv path_hput_same[of "hmap (procs st)" p "proc st p" tnext n'] h K(1) by (simp add: sched_inv_def)
  moreover have "unlocked ?S ps" using inv f(5) by (auto simp: sched_inv_def unlocked_def proc_hput)
  moreover have "\<forall>r \<in> set ps. watches (proc ?S r) \<and> area_ok ?S (proc ?S r)"
    using inv n(2) f(2-4) by (auto simp: sched_inv_def area_ok_def proc_hput fp_platform_getalign_def)
  moreover have "separate ?S ps" using inv f(2-4) by (simp add: sched_inv_def separate_def)
  ultimately show ?thesis using inv by (simp add: sched_inv_def f(1))
qed

text \<open>A call on one task that changes only this task, through the locked list and back.\<close>

lemma on_task_found:
  assumes inv: "sched_inv st ps" and p: "find (\<lambda>p. tid (proc st p) = i) ps = Some p"
    and body: "\<And>S. proc S p = (proc st p)\<lparr>tlock := True\<rparr> \<Longrightarrow> hmap (procs S) p = Some (proc S p) \<Longrightarrow> ticks S = ticks st \<Longrightarrow> timestamps S = timestamps st \<Longrightarrow>
      body S p = Inr (r, S\<lparr>ticks := t, procs := hput (procs S) p (f (proc S p))\<rparr>)"
    and f: "(f ((proc st p)\<lparr>tlock := True\<rparr>))\<lparr>tlock := False\<rparr> = n'"
  shows "on_task st i none no_list body = Inr (r, st\<lparr>ticks := t, procs := hput (procs st) p n'\<rparr>)"
proof -
  have I: "path tnext (hmap (procs st)) (processes st) ps NULL" "unlocked st ps" "\<not> process_lock st" using inv by (auto simp: sched_inv_def)
  have pin: "p \<in> set ps" using p by (auto simp: find_Some_iff)
  then have u: "p \<noteq> NULL" "hmap (procs st) p = Some (proc st p)" "\<not> tlock (proc st p)" using I(2) by (auto simp: unlocked_def)
  let ?L = "st\<lparr>interrupts := False, process_lock := True\<rparr>"
  let ?S = "?L\<lparr>procs := hput (procs st) p ((proc st p)\<lparr>tlock := True\<rparr>)\<rparr>"
  have nn: "processes st \<noteq> NULL" using I(1) pin by (cases ps) auto
  have "path tnext (hmap (procs ?L)) (processes ?L) ps NULL" "unlocked ?L ps" "length ps \<le> length (cells (procs ?L))"
    using I(1,2) path_length[OF I(1)] by (simp_all add: unlocked_def record_steps)
  note w = find_task_walk[OF this, of i]
  have ft: "find_task (length (cells (procs st))) ?L (processes st) i = Inr (p, ?S)" using w p by (simp add: record_steps)
  have "proc ?S p = (proc st p)\<lparr>tlock := True\<rparr>" "hmap (procs ?S) p = Some (proc ?S p)" by (simp_all add: proc_def)
  then have b: "body ?S p = Inr (r, ?S\<lparr>ticks := t, procs := hput (procs ?S) p (f ((proc st p)\<lparr>tlock := True\<rparr>))\<rparr>)" using body[of ?S] by simp
  then show ?thesis using I(3) nn ft u f
    by (simp add: on_task_def cli_def lock_list_def unlock_list_def sti_def unlock_proc_def upd_proc_def)
qed

lemma on_task_missing:
  assumes inv: "sched_inv st ps" and p: "find (\<lambda>p. tid (proc st p) = i) ps = None"
  shows "\<exists>r. on_task st i none no_list body = Inr (r, st)"
proof -
  have I: "path tnext (hmap (procs st)) (processes st) ps NULL" "unlocked st ps" "\<not> process_lock st" using inv by (auto simp: sched_inv_def)
  let ?L = "st\<lparr>interrupts := False, process_lock := True\<rparr>"
  have "path tnext (hmap (procs ?L)) (processes ?L) ps NULL" "unlocked ?L ps" "length ps \<le> length (cells (procs ?L))"
    using I(1,2) path_length[OF I(1)] by (simp_all add: unlocked_def record_steps)
  note w = find_task_walk[OF this, of i]
  have "find_task (length (cells (procs st))) ?L (processes st) i = Inr (NULL, ?L)" using w p by (simp add: record_steps)
  then show ?thesis using I(3) by (simp add: on_task_def cli_def lock_list_def unlock_list_def sti_def)
qed

text \<open>
  The steps of a core: code runs and leaves anything in the registers, the FPU and the memory that tasks watch while time
  passes; a timer interrupt switches; a task is ended; a task is put to sleep.
\<close>

inductive core_step :: "taskmgr \<Rightarrow> taskmgr \<Rightarrow> bool" where
  run: "core_step st (st\<lparr>reg_ref := r, fpu := f, mem32 := m, timestamps := ts\<rparr>)"
| tick: "task_switch_handler st = Inr st' \<Longrightarrow> core_step st st'"
| ends: "end_task_kernel st i = Inr (x, st') \<Longrightarrow> core_step st st'"
| sleeps: "task_sleep st i ns rg = Inr (Some x, st') \<Longrightarrow> core_step st st'"

inductive core_steps :: "taskmgr \<Rightarrow> taskmgr \<Rightarrow> bool" where
  none: "core_steps st st"
| step: "core_steps st st' \<Longrightarrow> core_step st' st'' \<Longrightarrow> core_steps st st''"

definition core_inv :: "taskmgr \<Rightarrow> addr list \<Rightarrow> bool" where
  "core_inv st ps \<longleftrightarrow> sched_inv st ps \<and> (\<exists>c. core_descs st = Some c \<and> cur_task c \<noteq> NULL)"

lemma sched_inv_ticks: "sched_inv (st\<lparr>ticks := t\<rparr>) ps = sched_inv st ps"
  by (simp add: sched_inv_def unlocked_def record_steps separate_def area_ok_def fp_platform_getalign_def)

lemma core_inv_upd:
  assumes "core_inv st ps" "p \<in> set ps" "keeps_place (proc st p) n'" "watches n'"
  shows "core_inv (st\<lparr>ticks := t, procs := hput (procs st) p n'\<rparr>) ps"
  using assms sched_inv_upd[of "st\<lparr>ticks := t\<rparr>" ps p n'] by (simp add: core_inv_def sched_inv_ticks record_steps)

lemma core_inv_missing:
  assumes "core_inv st ps" "find (\<lambda>p. tid (proc st p) = i) ps = None" "on_task st i none no_list body = Inr (x, st')"
  shows "core_inv st' ps"
proof -
  obtain r where "on_task st i none no_list body = Inr (r, st)" using on_task_missing[OF _ assms(2), of none no_list body] assms(1) unfolding core_inv_def by blast
  then show ?thesis using assms by simp
qed

lemma end_task_found:
  assumes inv: "sched_inv st ps" and p: "find (\<lambda>p. tid (proc st p) = i) ps = Some p"
  shows "end_task_kernel st i = Inr (CS_OK, st\<lparr>ticks := ticks st, procs := hput (procs st) p ((proc st p)\<lparr>tstate := task_state_exited\<rparr>)\<rparr>)"
proof -
  have "p \<in> set ps" using p by (auto simp: find_Some_iff)
  then have u: "p \<noteq> NULL" "\<not> tlock (proc st p)" using inv by (auto simp: sched_inv_def unlocked_def)
  have same: "S\<lparr>ticks := ticks st, procs := h\<rparr> = S\<lparr>procs := h\<rparr>" if "ticks S = ticks st" for S h
    by (rule taskmgr.equality) (use that in simp_all)
  show ?thesis unfolding end_task_kernel_def
    by (rule on_task_found[OF inv p, where f = "\<lambda>n. n\<lparr>tstate := task_state_exited\<rparr>"]) (use u in \<open>simp_all add: upd_proc_def same\<close>)
qed

lemma core_inv_end:
  assumes "core_inv st ps" "end_task_kernel st i = Inr (x, st')" shows "core_inv st' ps"
proof (cases "find (\<lambda>p. tid (proc st p) = i) ps")
  case None
  then show ?thesis using core_inv_missing[OF assms(1) None assms(2)[unfolded end_task_kernel_def]] by simp
next
  case (Some p)
  have pin: "p \<in> set ps" using Some by (auto simp: find_Some_iff)
  have "end_task_kernel st i = Inr (CS_OK, st\<lparr>ticks := ticks st, procs := hput (procs st) p ((proc st p)\<lparr>tstate := task_state_exited\<rparr>)\<rparr>)"
    using assms(1) by (intro end_task_found[OF _ Some]) (simp add: core_inv_def)
  moreover have "core_inv (st\<lparr>ticks := ticks st, procs := hput (procs st) p ((proc st p)\<lparr>tstate := task_state_exited\<rparr>)\<rparr>) ps"
    by (rule core_inv_upd[OF assms(1) pin]) (simp_all add: keeps_place_def watches_def)
  ultimately show ?thesis using assms(2) by simp
qed

lemma core_inv_sleep:
  assumes "core_inv st ps" "task_sleep st i ns rg = Inr (Some x, st')" shows "core_inv st' ps"
proof -
  have run: "on_task st i (Some CS_UNKN) None (\<lambda>st iter. let (now, st) = timer_timestamp_ns st in
      bindE (upd_proc st iter (\<lambda>n. n\<lparr>monitor_tgt := now + ns, tstate := task_state_sleep\<rparr>)) (\<lambda>st. Inr (Some CS_UNKN, st))) = Inr (Some x, st')"
    using assms(2) by (auto simp: task_sleep_def cli_def res_iff split: if_splits)
  show ?thesis
  proof (cases "find (\<lambda>p. tid (proc st p) = i) ps")
    case None
    then show ?thesis using core_inv_missing[OF assms(1) None run] by simp
  next
    case (Some p)
    have inv: "sched_inv st ps" using assms(1) by (simp add: core_inv_def)
    have pin: "p \<in> set ps" using Some by (auto simp: find_Some_iff)
    then have u: "p \<noteq> NULL" "\<not> tlock (proc st p)" using inv by (auto simp: sched_inv_def unlocked_def)
    let ?n = "(proc st p)\<lparr>monitor_tgt := timestamps st (ticks st) + ns, tstate := task_state_sleep\<rparr>"
    have "on_task st i (Some CS_UNKN) None (\<lambda>st iter. let (now, st) = timer_timestamp_ns st in
        bindE (upd_proc st iter (\<lambda>n. n\<lparr>monitor_tgt := now + ns, tstate := task_state_sleep\<rparr>)) (\<lambda>st. Inr (Some CS_UNKN, st))) =
        Inr (Some CS_UNKN, st\<lparr>ticks := ticks st + 1, procs := hput (procs st) p ?n\<rparr>)"
      by (rule on_task_found[OF inv Some, where f = "\<lambda>n. n\<lparr>monitor_tgt := timestamps st (ticks st) + ns, tstate := task_state_sleep\<rparr>"])
        (use u in \<open>simp_all add: upd_proc_def timer_timestamp_ns_def\<close>)
    moreover have "core_inv (st\<lparr>ticks := ticks st + 1, procs := hput (procs st) p ?n\<rparr>) ps"
      by (rule core_inv_upd[OF assms(1) pin]) (simp_all add: keeps_place_def watches_def)
    ultimately show ?thesis using run by simp
  qed
qed

lemma core_inv_tick:
  assumes "core_inv st ps" "task_switch_handler st = Inr st'" shows "core_inv st' ps"
proof -
  obtain c where c: "sched_inv st ps" "core_descs st = Some c" "cur_task c \<noteq> NULL" using assms(1) by (auto simp: core_inv_def)
  obtain q t v where s: "st' = switched st c q v t" "q \<in> set ps" "sched_inv st' ps" using task_switch_returns[OF c assms(2)] by blast
  have "q \<noteq> NULL" using c(1) s(2) by (auto simp: sched_inv_def unlocked_def)
  then show ?thesis using s(3) by (simp add: core_inv_def s(1) switched_regs(5))
qed

lemma core_inv_env: "core_inv (st\<lparr>reg_ref := r, fpu := f, mem32 := m, timestamps := ts\<rparr>) ps = core_inv st ps"
  by (simp add: core_inv_def sched_inv_env)

lemma core_inv_step: "core_step st st' \<Longrightarrow> core_inv st ps \<Longrightarrow> core_inv st' ps"
  by (induction rule: core_step.induct) (auto intro: core_inv_tick core_inv_end core_inv_sleep simp: core_inv_env)

text \<open>
  C9. Whatever a core does, in any order and any number of times (code that runs, timer interrupts, tasks that end or go to
  sleep), the list of processes stays well formed with every lock free, and the next timer interrupt either switches or stops
  with the panic for having no task to run; it never deadlocks, faults or loops.
\<close>

theorem core_steps_keep_invariant:
  assumes "core_steps st st'" "core_inv st ps"
  shows "core_inv st' ps \<and> ((\<exists>st''. task_switch_handler st' = Inr st'') \<or> task_switch_handler st' = Inl (Panic ''[SysTaskMgr] Out of Processes!''))"
proof -
  have inv: "core_inv st' ps" using assms by (induction rule: core_steps.induct) (auto intro: core_inv_step)
  then obtain c where c: "sched_inv st' ps" "core_descs st' = Some c" "cur_task c \<noteq> NULL" by (auto simp: core_inv_def)
  then have "cur_task c \<in> set ps" by (auto simp: sched_inv_def)
  then obtain as bs where ps: "ps = as @ cur_task c # bs" by (meson split_list)
  show ?thesis using inv task_switch_ok[OF c(1,2) ps] by (cases "next_task (preempt st' (cur_task c)) as (cur_task c) bs") blast+
qed

theorem core_steps_keep_invariant_witness:
  "\<exists>st'. end_task_kernel ex_tasks 2 = Inr (CS_OK, st') \<and> core_inv st' [0x1000, 0x2000]"
proof -
  have inv: "core_inv ex_tasks [0x1000, 0x2000]" using ex_sched_inv by (simp add: core_inv_def ex_tasks_sel)
  have f: "find (\<lambda>p. tid (proc ex_tasks p) = 2) [0x1000, 0x2000] = Some 0x2000" by (simp add: ex_tasks_sel ex_proc_def)
  have e: "end_task_kernel ex_tasks 2 = Inr (CS_OK, ex_tasks\<lparr>ticks := ticks ex_tasks,
      procs := hput (procs ex_tasks) 0x2000 ((proc ex_tasks 0x2000)\<lparr>tstate := task_state_exited\<rparr>)\<rparr>)"
    by (rule end_task_found[OF ex_sched_inv f])
  then show ?thesis using core_steps_keep_invariant[OF core_steps.step[OF core_steps.none core_step.ends[OF e]] inv] by blast
qed

end
