(* ===== verification/ByteMem.thy ===== *)
theory ByteMem
  imports StdLib
begin

text \<open>
  Blocks of bytes and little-endian values in the byte memory of \<^verbatim>\<open>CMem\<close>, for the components that lay
  C structures over raw memory: the symbol table, the initial ramdisk, the ELF loader, the block
  cipher. \<^verbatim>\<open>rd\<close> and \<^verbatim>\<open>wr\<close> are the bytes at an address, \<open>span\<close> the addresses they occupy, and the loads and
  stores are the accesses the compiler makes to fields of two, four and eight bytes.
\<close>

section \<open>Blocks\<close>

text \<open>The \<open>n\<close> bytes at \<open>p\<close>.\<close>

definition rd :: "mem \<Rightarrow> addr \<Rightarrow> nat \<Rightarrow> u8 list" where
  "rd m p n = map (\<lambda>i. m (p + of_nat i)) [0..<n]"

text \<open>The addresses of \<open>n\<close> bytes from \<open>p\<close> on.\<close>

definition span :: "addr \<Rightarrow> nat \<Rightarrow> addr set" where
  "span p n = {a. unat (a - p) < n}"

text \<open>The value of bytes in the order of their addresses, and the bytes of a value.\<close>

definition le_val :: "u8 list \<Rightarrow> 'a::len word" where
  "le_val bs = foldr (\<lambda>b acc. ucast b OR push_bit 8 acc) bs 0"

definition le_bytes :: "nat \<Rightarrow> 'a :: len word \<Rightarrow> u8 list" where
  "le_bytes n w = map (\<lambda>i. ucast (drop_bit (8 * i) w)) [0..<n]"

definition ld16 :: "mem \<Rightarrow> addr \<Rightarrow> u16" where
  "ld16 m p = le_val (rd m p 2)"

definition ld32 :: "mem \<Rightarrow> addr \<Rightarrow> u32" where
  "ld32 m p = le_val (rd m p 4)"

definition ld64 :: "mem \<Rightarrow> addr \<Rightarrow> u64" where
  "ld64 m p = le_val (rd m p 8)"

definition st32 :: "mem \<Rightarrow> addr \<Rightarrow> u32 \<Rightarrow> mem" where
  "st32 m p v = wr m p (le_bytes 4 v)"

definition st64 :: "mem \<Rightarrow> addr \<Rightarrow> u64 \<Rightarrow> mem" where
  "st64 m p v = wr m p (le_bytes 8 v)"

section \<open>Spans\<close>

lemma span_split: "k + n \<le> 2 ^ 64 \<Longrightarrow> span p (k + n) = span p k \<union> span (p + of_nat k) n"
proof (rule set_eqI)
  fix a :: addr
  define x where "x = a - p"
  assume k: "k + n \<le> 2 ^ 64"
  have "unat (x - of_nat k) = unat x - k" if "k \<le> unat x"
    using that k unat_lt_64[of x] by (simp add: unat_sub word_le_nat_alt unat_of_nat_64)
  then have "unat x < k + n \<longleftrightarrow> unat x < k \<or> unat (x - of_nat k) < n" if "k < 2 ^ 64 \<or> n = 0"
    by fastforce
  moreover have "k < 2 ^ 64 \<or> n = 0" using k by linarith
  ultimately show "a \<in> span p (k + n) \<longleftrightarrow> a \<in> span p k \<union> span (p + of_nat k) n"
    by (simp add: span_def x_def diff_diff_add)
qed

lemma span_next_disjoint: "k + n \<le> 2 ^ 64 \<Longrightarrow> span p k \<inter> span (p + of_nat k) n = {}"
proof -
  assume k: "k + n \<le> 2 ^ 64"
  have "unat (x - of_nat k) \<ge> n" if "unat x < k" for x :: addr
  proof (cases "n = 0")
    case False
    then have "k < 2 ^ 64" using k by linarith
    then have "unat (of_nat k :: addr) = k" by (simp add: unat_of_nat_64)
    then show ?thesis using that k by (simp add: unat_sub_if_size word_size)
  qed simp
  then have "\<not> unat (a - p - of_nat k) < n" if "unat (a - p) < k" for a
    using that by (simp add: not_less)
  then show ?thesis by (auto simp: span_def diff_diff_add[symmetric])
qed

lemma span_mono: "n \<le> k \<Longrightarrow> span p n \<subseteq> span p k"
  by (auto simp: span_def)

lemma mem_span: "i < n \<Longrightarrow> n \<le> 2 ^ 64 \<Longrightarrow> p + of_nat i \<in> span p n"
  by (simp add: span_def unat_of_nat_64)

lemma wr_outside: "a \<notin> span p (length xs) \<Longrightarrow> wr m p xs a = m a"
  by (simp add: wr_def span_def)

lemma rd_cong: "n \<le> 2 ^ 64 \<Longrightarrow> (\<And>a. a \<in> span p n \<Longrightarrow> m a = m' a) \<Longrightarrow> rd m p n = rd m' p n"
  by (simp add: rd_def mem_span)

lemma rd_wr: "length xs \<le> 2 ^ 64 \<Longrightarrow> rd (wr m p xs) p (length xs) = xs"
  by (rule nth_equalityI) (simp_all add: rd_def wr_read)

lemma rd_wr_apart: "n \<le> 2 ^ 64 \<Longrightarrow> span p n \<inter> span q (length xs) = {} \<Longrightarrow> rd (wr m q xs) p n = rd m p n"
  by (rule rd_cong) (auto intro!: wr_outside)

lemma wr_twice: "length xs = length ys \<Longrightarrow> wr (wr m p xs) p ys = wr m p ys"
  by (auto simp: wr_def fun_eq_iff)

lemma memcpy_apart:
  assumes "span d (unat n) \<inter> span s (unat n) = {}"
  shows "snd (memcpy m d s n) = wr m d (rd m s (unat n))"
proof -
  have d: "unat n = 0 \<or> unat n \<le> unat (d - s)"
  proof (cases "n = 0")
    case False
    then have "d \<in> span d (unat n)" by (simp add: span_def unat_gt_0)
    then have "d \<notin> span s (unat n)" using assms by blast
    then show ?thesis by (simp add: span_def)
  qed simp
  have "snd (memcpy m d s n) = copied m d s (unat n)"
    using d memmove_up_copied[of d s n m] memcpy_loop_up[of 0 n m d s]
    by (cases "n = 0") (auto simp: memcpy_def)
  also have "\<dots> = wr m d (rd m s (unat n))"
    by (auto simp: copied_def wr_def rd_def fun_eq_iff)
  finally show ?thesis .
qed

lemma span_unat: "a \<in> span p n \<Longrightarrow> unat p + n \<le> 2 ^ 64 \<Longrightarrow> unat p \<le> unat a \<and> unat a < unat p + n"
  using unat_add_lem[of p "a - p"] by (auto simp: span_def)

lemma span_apartI: "unat p + n \<le> unat q \<Longrightarrow> unat q + k \<le> 2 ^ 64 \<Longrightarrow> span p n \<inter> span q k = {}"
  using span_unat[of _ p n] span_unat[of _ q k] by fastforce

lemma rd_length [simp]: "length (rd m p n) = n"
  by (simp add: rd_def)

lemma rd_append: "rd m p (k + n) = rd m p k @ rd m (p + of_nat k) n"
proof -
  have "[0..<k + n] = [0..<k] @ map (\<lambda>i. i + k) [0..<n]"
    using upt_add_eq_append[of 0 k n] by (simp only: map_add_upt add.commute le0)
  then show ?thesis unfolding rd_def by (simp only: map_append map_map) (simp add: comp_def ac_simps)
qed

section \<open>Little-endian values\<close>

lemma le_bytes_length [simp]: "length (le_bytes n w) = n"
  by (simp add: le_bytes_def)

lemma le_val_bit:
  "bit (le_val bs :: 'a::len word) i \<longleftrightarrow> i < LENGTH('a) \<and> i div 8 < length bs \<and> bit (bs ! (i div 8)) (i mod 8)"
proof (induction bs arbitrary: i)
  case (Cons b bs)
  show ?case
  proof (cases "i < 8")
    case True
    then show ?thesis using Cons by (auto simp: le_val_def bit_or_iff bit_push_bit_iff bit_ucast_iff)
  next
    case False
    then have i: "i div 8 = Suc ((i - 8) div 8)" "i mod 8 = (i - 8) mod 8" by (simp_all add: le_div_geq le_mod_geq)
    have "\<not> bit b i" using False bit_imp_le_length[of b i] by auto
    then show ?thesis using Cons[of "i - 8"] False
      by (auto simp: le_val_def bit_or_iff bit_push_bit_iff bit_ucast_iff i)
  qed
qed (simp add: le_val_def)

lemma le_val_le_bytes:
  assumes "LENGTH('a::len) = 8 * n"
  shows "le_val (le_bytes n w) = (w :: 'a word)"
proof (rule bit_word_eqI)
  fix i
  assume "i < LENGTH('a)"
  then show "bit (le_val (le_bytes n w) :: 'a word) i = bit w i"
    using assms by (auto simp: le_val_bit le_bytes_def bit_ucast_iff bit_drop_bit_eq less_mult_imp_div_less mult.commute)
qed

lemma ld_st [simp]: "ld32 (st32 m p v) p = v" "ld64 (st64 m p w) p = w"
  using rd_wr[of "le_bytes 4 v" m p] rd_wr[of "le_bytes 8 w" m p]
  by (simp_all add: ld32_def st32_def ld64_def st64_def le_val_le_bytes)

end
