(* ===== verification/Sha256.thy ===== *)
theory Sha256
  imports Prelude
begin

text \<open>
  SHA-256, \<^verbatim>\<open>libs/crypto/sha256.c\<close>: the context with its block buffer, the transformation of a block, and the
  padding at the end, against the standard; and the contract \<open>streaming_hash\<close> that the users of the hash rely on.
\<close>

section \<open>The code\<close>

record SHA256_CTX =
  sha_data :: "u8 list"
  datalen :: u32
  bitlen :: u64
  state :: "u32 list"

definition ROTRIGHT :: "u32 \<Rightarrow> nat \<Rightarrow> u32" where
  "ROTRIGHT a b = drop_bit b a OR push_bit (32 - b) a"

definition CH :: "u32 \<Rightarrow> u32 \<Rightarrow> u32 \<Rightarrow> u32" where
  "CH x y z = (x AND y) XOR (NOT x AND z)"

definition MAJ :: "u32 \<Rightarrow> u32 \<Rightarrow> u32 \<Rightarrow> u32" where
  "MAJ x y z = (x AND y) XOR (x AND z) XOR (y AND z)"

definition EP0 :: "u32 \<Rightarrow> u32" where
  "EP0 x = ROTRIGHT x 2 XOR ROTRIGHT x 13 XOR ROTRIGHT x 22"

definition EP1 :: "u32 \<Rightarrow> u32" where
  "EP1 x = ROTRIGHT x 6 XOR ROTRIGHT x 11 XOR ROTRIGHT x 25"

definition SIG0 :: "u32 \<Rightarrow> u32" where
  "SIG0 x = ROTRIGHT x 7 XOR ROTRIGHT x 18 XOR drop_bit 3 x"

definition SIG1 :: "u32 \<Rightarrow> u32" where
  "SIG1 x = ROTRIGHT x 17 XOR ROTRIGHT x 19 XOR drop_bit 10 x"

text \<open>The round constants, row by row as the source has them.\<close>

definition sha_k :: "u32 list" where
  "sha_k = concat [
     [0x428a2f98, 0x71374491, 0xb5c0fbcf, 0xe9b5dba5, 0x3956c25b, 0x59f111f1],
     [0x923f82a4, 0xab1c5ed5, 0xd807aa98, 0x12835b01, 0x243185be, 0x550c7dc3],
     [0x72be5d74, 0x80deb1fe, 0x9bdc06a7, 0xc19bf174, 0xe49b69c1, 0xefbe4786],
     [0x0fc19dc6, 0x240ca1cc, 0x2de92c6f, 0x4a7484aa, 0x5cb0a9dc, 0x76f988da],
     [0x983e5152, 0xa831c66d, 0xb00327c8, 0xbf597fc7, 0xc6e00bf3, 0xd5a79147],
     [0x06ca6351, 0x14292967, 0x27b70a85, 0x2e1b2138, 0x4d2c6dfc, 0x53380d13],
     [0x650a7354, 0x766a0abb, 0x81c2c92e, 0x92722c85, 0xa2bfe8a1, 0xa81a664b],
     [0xc24b8b70, 0xc76c51a3, 0xd192e819, 0xd6990624, 0xf40e3585, 0x106aa070],
     [0x19a4c116, 0x1e376c08, 0x2748774c, 0x34b0bcb5, 0x391c0cb3, 0x4ed8aa4a],
     [0x5b9cca4f, 0x682e6ff3, 0x748f82ee, 0x78a5636f, 0x84c87814, 0x8cc70208],
     [0x90befffa, 0xa4506ceb, 0xbef9a3f7, 0xc67178f2]]"

text \<open>The first sixteen words of the schedule are the block read in big endian order, the rest follows from them.\<close>

definition load_word :: "u8 list \<Rightarrow> nat \<Rightarrow> u32" where
  "load_word dat j = push_bit 24 (ucast (dat ! j)) OR push_bit 16 (ucast (dat ! (j + 1))) OR
     push_bit 8 (ucast (dat ! (j + 2))) OR ucast (dat ! (j + 3))"

primrec extend_schedule :: "nat \<Rightarrow> u32 list \<Rightarrow> u32 list" where
  "extend_schedule 0 m = m"
| "extend_schedule (Suc n) m =
     (let i = length m in extend_schedule n (m @ [SIG1 (m ! (i - 2)) + m ! (i - 7) + SIG0 (m ! (i - 15)) + m ! (i - 16)]))"

record sha_vars =
  va :: u32
  vb :: u32
  vc :: u32
  vd :: u32
  ve :: u32
  vf :: u32
  vg :: u32
  vh :: u32

definition sha_round :: "u32 list \<Rightarrow> sha_vars \<Rightarrow> nat \<Rightarrow> sha_vars" where
  "sha_round m v i =
     (let t1 = vh v + EP1 (ve v) + CH (ve v) (vf v) (vg v) + sha_k ! i + m ! i;
          t2 = EP0 (va v) + MAJ (va v) (vb v) (vc v)
      in \<lparr>va = t1 + t2, vb = va v, vc = vb v, vd = vc v, ve = vd v + t1, vf = ve v, vg = vf v, vh = vg v\<rparr>)"

text \<open>The arrays of the context have their declared lengths, so the subscripts below are in range.\<close>

definition sha256_transform :: "SHA256_CTX \<Rightarrow> u8 list \<Rightarrow> SHA256_CTX" where
  "sha256_transform ctx dat =
     (let m = extend_schedule 48 (map (\<lambda>i. load_word dat (4 * i)) [0..<16]);
          s = state ctx;
          v = foldl (sha_round m)
                \<lparr>va = s ! 0, vb = s ! 1, vc = s ! 2, vd = s ! 3, ve = s ! 4, vf = s ! 5, vg = s ! 6, vh = s ! 7\<rparr> [0..<64]
      in ctx\<lparr>state := [s ! 0 + va v, s ! 1 + vb v, s ! 2 + vc v, s ! 3 + vd v, s ! 4 + ve v, s ! 5 + vf v, s ! 6 + vg v, s ! 7 + vh v]\<rparr>)"

definition sha256_init :: "SHA256_CTX \<Rightarrow> SHA256_CTX" where
  "sha256_init ctx = ctx\<lparr>datalen := 0, bitlen := 0,
     state := [0x6a09e667, 0xbb67ae85, 0x3c6ef372, 0xa54ff53a, 0x510e527f, 0x9b05688c, 0x1f83d9ab, 0x5be0cd19]\<rparr>"

definition update_byte :: "SHA256_CTX \<Rightarrow> u8 \<Rightarrow> SHA256_CTX res" where
  "update_byte ctx b =
     bindE (aset (sha_data ctx) (uint (datalen ctx)) b) (\<lambda>dat.
       let ctx = ctx\<lparr>sha_data := dat, datalen := datalen ctx + 1\<rparr> in
       if datalen ctx = 64 then
         Inr ((sha256_transform ctx (sha_data ctx))\<lparr>bitlen := bitlen ctx + 512, datalen := 0\<rparr>)
       else Inr ctx)"

primrec update_loop :: "SHA256_CTX \<Rightarrow> u8 list \<Rightarrow> SHA256_CTX res" where
  "update_loop ctx [] = Inr ctx"
| "update_loop ctx (b # bs) = bindE (update_byte ctx b) (\<lambda>ctx. update_loop ctx bs)"

text \<open>
  The index is a 32-bit word and the length a 64-bit one: for a length of \<open>2 ^ 32\<close> or more the index wraps
  before it reaches the length and the loop never ends.
\<close>

definition sha256_update :: "SHA256_CTX \<Rightarrow> u8 list \<Rightarrow> u64 \<Rightarrow> SHA256_CTX res" where
  "sha256_update ctx dat len =
     (if unat len \<ge> 2 ^ 32 then Inl Diverge
      else if length dat < unat len then Inl OutOfBounds
      else update_loop ctx (take (unat len) dat))"

text \<open>\<open>i\<close> counts up to the bound while zeros are stored.\<close>

primrec store_zeros :: "nat \<Rightarrow> u8 list \<Rightarrow> nat \<Rightarrow> u8 list" where
  "store_zeros 0 dat i = dat"
| "store_zeros (Suc n) dat i = store_zeros n (dat[i := 0]) (i + 1)"

definition be_bytes :: "u64 \<Rightarrow> u8 list" where
  "be_bytes n = map (\<lambda>i. ucast (drop_bit (8 * (7 - i)) n)) [0..<8]"

definition digest :: "u32 list \<Rightarrow> u8 list" where
  "digest s = concat (map (\<lambda>w. map (\<lambda>i. ucast (drop_bit (24 - i * 8) w)) [0..<4]) s)"

definition sha256_final :: "SHA256_CTX \<Rightarrow> (u8 list \<times> SHA256_CTX) res" where
  "sha256_final ctx =
     (let i = unat (datalen ctx) in
      bindE (aset (sha_data ctx) (int i) 0x80) (\<lambda>dat.
        let ctx = (if datalen ctx < 56 then ctx\<lparr>sha_data := store_zeros (56 - (i + 1)) dat (i + 1)\<rparr>
                   else let ctx = sha256_transform ctx (store_zeros (64 - (i + 1)) dat (i + 1))
                        in ctx\<lparr>sha_data := replicate 56 0 @ drop 56 (store_zeros (64 - (i + 1)) dat (i + 1))\<rparr>);
            bits = bitlen ctx + ucast (datalen ctx * 8);
            dat = take 56 (sha_data ctx) @ be_bytes bits;
            ctx = sha256_transform (ctx\<lparr>sha_data := dat, bitlen := bits\<rparr>) dat
        in Inr (digest (state ctx), ctx)))"


section \<open>The standard\<close>

text \<open>
  SHA-256 as FIPS 180-4 describes it: the message is padded to whole blocks, and every block is compressed
  into the hash value with a schedule given by a recurrence. The constants are the first 32 bits of the
  fractional parts of the cube roots of the first 64 primes and of the square roots of the first eight.
\<close>

definition small_primes :: "int list" where
  "small_primes = [2, 3, 5, 7, 11, 13, 17, 19, 23, 29, 31, 37, 41, 43, 47, 53, 59, 61, 67, 71, 73, 79, 83, 89, 97, 101, 103, 107, 109, 113,
     127, 131, 137, 139, 149, 151, 157, 163, 167, 173, 179, 181, 191, 193, 197, 199, 211, 223, 227, 229, 233, 239, 241, 251, 257, 263, 269,
     271, 277, 281, 283, 293, 307, 311]"

text \<open>\<open>k\<close> is the fraction part of the \<open>n\<close>-th root of \<open>p\<close>, scaled by \<open>2 ^ 32\<close> and cut.\<close>

definition root_frac :: "nat \<Rightarrow> int \<Rightarrow> int \<Rightarrow> bool" where
  "root_frac n p k \<longleftrightarrow> (\<exists>c \<in> set [0..<8]. let x = 2 ^ 32 * int c + k in x ^ n \<le> p * 2 ^ (32 * n) \<and> p * 2 ^ (32 * n) < (x + 1) ^ n)"

definition H0 :: "u32 list" where
  "H0 = [0x6a09e667, 0xbb67ae85, 0x3c6ef372, 0xa54ff53a, 0x510e527f, 0x9b05688c, 0x1f83d9ab, 0x5be0cd19]"


fun sched :: "(nat \<Rightarrow> u32) \<Rightarrow> nat \<Rightarrow> u32" where
  "sched M t = (if t < 16 then M t
     else (word_rotr 17 (sched M (t - 2)) XOR word_rotr 19 (sched M (t - 2)) XOR drop_bit 10 (sched M (t - 2))) + sched M (t - 7) +
       (word_rotr 7 (sched M (t - 15)) XOR word_rotr 18 (sched M (t - 15)) XOR drop_bit 3 (sched M (t - 15))) + sched M (t - 16))"

declare sched.simps [simp del]

definition be_word :: "u8 list \<Rightarrow> u32" where
  "be_word bs = word_of_int (horner_sum uint 256 (rev bs))"

definition spec_round :: "(nat \<Rightarrow> u32) \<Rightarrow> u32 list \<Rightarrow> nat \<Rightarrow> u32 list" where
  "spec_round W v t =
     (case v of [a, b, c, d, e, f, g, h] \<Rightarrow>
        let t1 = h + (word_rotr 6 e XOR word_rotr 11 e XOR word_rotr 25 e) + ((e AND f) XOR (NOT e AND g)) + sha_k ! t + W t;
            t2 = (word_rotr 2 a XOR word_rotr 13 a XOR word_rotr 22 a) + ((a AND b) XOR (a AND c) XOR (b AND c))
        in [t1 + t2, a, b, c, d + t1, e, f, g]
      | _ \<Rightarrow> [])"

definition compress :: "u32 list \<Rightarrow> u8 list \<Rightarrow> u32 list" where
  "compress H blk = map2 (+) H (foldl (spec_round (sched (\<lambda>t. be_word (take 4 (drop (4 * t) blk))))) H [0..<64])"

function blocks :: "u8 list \<Rightarrow> u8 list list" where
  "blocks xs = (if length xs < 64 then [] else take 64 xs # blocks (drop 64 xs))"
  by pat_completeness auto
termination
  by (relation "measure length") auto

declare blocks.simps [simp del]

definition pad :: "u8 list \<Rightarrow> u8 list" where
  "pad msg = msg @ 0x80 # replicate (nat ((55 - int (length msg)) mod 64)) 0 @
     map (\<lambda>i. word_of_nat (8 * length msg div 256 ^ (7 - i))) [0..<8]"

definition sha256 :: "u8 list \<Rightarrow> u8 list" where
  "sha256 msg = concat (map (\<lambda>w. map (\<lambda>i. word_of_nat (unat w div 256 ^ (3 - i))) [0..<4]) (foldl compress H0 (blocks (pad msg))))"

section \<open>The transformation is the compression of the standard\<close>

lemma ROTRIGHT_rotr: "0 < b \<Longrightarrow> b < 32 \<Longrightarrow> ROTRIGHT a b = word_rotr b a"
proof (rule bit_word_eqI)
  fix n assume b: "0 < b" "b < 32" and "n < LENGTH(32)"
  then have n: "n < 32" by simp
  show "bit (ROTRIGHT a b) n = bit (word_rotr b a) n"
  proof (cases "n + b < 32")
    case True
    then show ?thesis using n b by (auto simp: ROTRIGHT_def bit_simps bit_word_rotr_iff add.commute)
  next
    case False
    then have "(n + b) mod 32 = n - (32 - b)" using n b by (simp add: mod_if)
    moreover have "\<not> bit a (b + n)" using False bit_imp_le_length[of a "b + n"] by auto
    ultimately show ?thesis using n b False by (auto simp: ROTRIGHT_def bit_simps bit_word_rotr_iff)
  qed
qed

lemma load_word_be:
  assumes "j + 4 \<le> length dat"
  shows "load_word dat j = be_word (take 4 (drop j dat))"
proof -
  let ?l = "take 4 (drop j dat)"
  have l: "?l = [dat ! j, dat ! (j + 1), dat ! (j + 2), dat ! (j + 3)]"
    using assms by (simp add: list_eq_iff_nth_eq nth_Cons' eval_nat_numeral less_Suc_eq) 
  have d: "push_bit 8 x OR ucast c = push_bit 8 x + ucast c" for x :: u32 and c :: u8
    by (rule disjunctive_add_eq_or[symmetric]) (auto simp: bit_eq_iff bit_simps dest: bit_imp_le_length)
  have uc: "ucast c = (word_of_int (uint c) :: u32)" for c :: u8 by simp
  have "load_word dat j = push_bit 8 (push_bit 8 (push_bit 8 (ucast (dat ! j)) OR ucast (dat ! (j + 1))) OR ucast (dat ! (j + 2))) OR ucast (dat ! (j + 3))"
    by (simp add: load_word_def push_bit_or or.assoc)
  also have "\<dots> = push_bit 8 (push_bit 8 (push_bit 8 (ucast (dat ! j)) + ucast (dat ! (j + 1))) + ucast (dat ! (j + 2))) + ucast (dat ! (j + 3))"
    by (simp only: d)
  finally show ?thesis unfolding l be_word_def uc by (simp add: push_bit_eq_mult algebra_simps)
qed

lemma extend_sched:
  assumes "16 \<le> k"
  shows "extend_schedule n (map (sched M) [0..<k]) = map (sched M) [0..<k + n]"
  using assms
proof (induction n arbitrary: k)
  case 0
  then show ?case by simp
next
  case (Suc n)
  have "sched M k = SIG1 (sched M (k - 2)) + sched M (k - 7) + SIG0 (sched M (k - 15)) + sched M (k - 16)"
    using Suc.prems by (subst sched.simps) (simp add: SIG0_def SIG1_def ROTRIGHT_rotr)
  then have "extend_schedule (Suc n) (map (sched M) [0..<k]) = extend_schedule n (map (sched M) [0..<Suc k])"
    using Suc.prems by (simp add: Let_def)
  then show ?case using Suc.IH[of "Suc k"] Suc.prems by simp
qed

definition var_list :: "sha_vars \<Rightarrow> u32 list" where
  "var_list v = [va v, vb v, vc v, vd v, ve v, vf v, vg v, vh v]"

lemma round_spec: "t < length m \<Longrightarrow> (\<forall>t < length m. m ! t = W t) \<Longrightarrow> var_list (sha_round m v t) = spec_round W (var_list v) t"
  by (simp add: var_list_def sha_round_def spec_round_def Let_def EP0_def EP1_def CH_def MAJ_def ROTRIGHT_rotr)

lemma rounds_spec:
  "(\<forall>t \<in> set ts. t < length m) \<Longrightarrow> (\<forall>t < length m. m ! t = W t) \<Longrightarrow>
   var_list (foldl (sha_round m) v ts) = foldl (spec_round W) (var_list v) ts"
  by (induction ts arbitrary: v) (simp_all add: round_spec[where W = W])

lemma list8: "length (s :: 'a list) = 8 \<Longrightarrow> s = [s ! 0, s ! 1, s ! 2, s ! 3, s ! 4, s ! 5, s ! 6, s ! 7]"
  by (simp add: list_eq_iff_nth_eq eval_nat_numeral less_Suc_eq nth_Cons')

lemma transform_compress:
  assumes "length dat = 64" "length (state ctx) = 8"
  shows "sha256_transform ctx dat = ctx\<lparr>state := compress (state ctx) dat\<rparr>"
proof -
  let ?M = "\<lambda>t. be_word (take 4 (drop (4 * t) dat))" and ?s = "state ctx"
  let ?v = "\<lparr>va = ?s ! 0, vb = ?s ! 1, vc = ?s ! 2, vd = ?s ! 3, ve = ?s ! 4, vf = ?s ! 5, vg = ?s ! 6, vh = ?s ! 7\<rparr>"
  have m0: "map (\<lambda>i. load_word dat (4 * i)) [0..<16] = map (sched ?M) [0..<16]"
    using assms(1) by (intro map_cong refl) (auto simp: load_word_be sched.simps)
  have m: "extend_schedule 48 (map (\<lambda>i. load_word dat (4 * i)) [0..<16]) = map (sched ?M) [0..<64]"
    unfolding m0 using extend_sched[of 16 48 ?M] by simp
  let ?f = "foldl (sha_round (map (sched ?M) [0..<64])) ?v [0..<64]"
  have "var_list ?v = ?s" using list8[OF assms(2)] by (simp add: var_list_def)
  then have f: "var_list ?f = foldl (spec_round (sched ?M)) ?s [0..<64]"
    using rounds_spec[of "[0..<64]" "map (sched ?M) [0..<64]" "sched ?M" ?v] by simp
  have "compress ?s dat = map2 (+) ?s (var_list ?f)" unfolding compress_def f ..
  also have "\<dots> = [?s ! 0 + va ?f, ?s ! 1 + vb ?f, ?s ! 2 + vc ?f, ?s ! 3 + vd ?f, ?s ! 4 + ve ?f, ?s ! 5 + vf ?f, ?s ! 6 + vg ?f, ?s ! 7 + vh ?f]"
    by (subst list8[OF assms(2)]) (simp add: var_list_def)
  finally show ?thesis unfolding sha256_transform_def m Let_def by simp
qed


section \<open>The context holds the message so far\<close>

lemma blocks_append: "length xs = 64 * n \<Longrightarrow> blocks (xs @ ys) = blocks xs @ blocks ys"
proof (induction n arbitrary: xs)
  case 0
  then show ?case by (simp add: blocks.simps[of "[]"])
next
  case (Suc n)
  have "blocks (drop 64 xs @ ys) = blocks (drop 64 xs) @ blocks ys" using Suc.prems by (intro Suc.IH) simp
  then show ?case using Suc.prems by (simp add: blocks.simps[of "xs @ ys"] blocks.simps[of xs])
qed

lemma blocks_one: "length xs = 64 \<Longrightarrow> blocks xs = [xs]"
  by (simp add: blocks.simps[of xs] blocks.simps[of "[]"])

lemma compress_length: "length H = 8 \<Longrightarrow> length (compress H b) = 8"
proof -
  have "length (spec_round W v t) = 8" if "length v = 8" for W v t
    using that by (subst list8[OF that]) (simp add: spec_round_def Let_def)
  then have "length (foldl (spec_round W) v ts) = 8" if "length v = 8" for W v ts
    using that by (induction ts arbitrary: v) simp_all
  then show "length H = 8 \<Longrightarrow> length (compress H b) = 8" by (simp add: compress_def)
qed

lemma compress_blocks_length: "length H = 8 \<Longrightarrow> length (foldl compress H bs) = 8"
  by (induction bs arbitrary: H) (simp_all add: compress_length)

text \<open>The whole blocks of a message, and its rest.\<close>

definition whole :: "u8 list \<Rightarrow> u8 list" where
  "whole msg = take (64 * (length msg div 64)) msg"

definition rest :: "u8 list \<Rightarrow> u8 list" where
  "rest msg = drop (64 * (length msg div 64)) msg"

lemma whole_rest: "msg = whole msg @ rest msg" "length (whole msg) = 64 * (length msg div 64)" "length (rest msg) = length msg mod 64"
  by (simp_all add: whole_def rest_def minus_mult_div_eq_mod)

lemma whole_rest_snoc:
  "length msg mod 64 < 63 \<Longrightarrow> whole (msg @ [b]) = whole msg \<and> rest (msg @ [b]) = rest msg @ [b]"
  "length msg mod 64 = 63 \<Longrightarrow> whole (msg @ [b]) = whole msg @ rest msg @ [b] \<and> rest (msg @ [b]) = []"
proof -
  show "length msg mod 64 < 63 \<Longrightarrow> whole (msg @ [b]) = whole msg \<and> rest (msg @ [b]) = rest msg @ [b]"
  proof -
    assume "length msg mod 64 < 63"
    then have "length (msg @ [b]) div 64 = length msg div 64" by (simp add: div_Suc mod_Suc split: if_splits)
    then show ?thesis by (simp add: whole_def rest_def)
  qed
  assume "length msg mod 64 = 63"
  then have d: "length (msg @ [b]) div 64 = Suc (length msg div 64)" "64 * Suc (length msg div 64) = Suc (length msg)"
    using mult_div_mod_eq[of 64 "length msg"] by (simp_all add: div_Suc mod_Suc)
  show "whole (msg @ [b]) = whole msg @ rest msg @ [b] \<and> rest (msg @ [b]) = []"
    using whole_rest(1)[of msg] unfolding whole_def[of "msg @ [b]"] rest_def[of "msg @ [b]"] d by simp
qed

definition ctx_rep :: "SHA256_CTX \<Rightarrow> u8 list \<Rightarrow> bool" where
  "ctx_rep ctx msg \<longleftrightarrow> length (sha_data ctx) = 64 \<and> datalen ctx = of_nat (length msg mod 64) \<and>
     bitlen ctx = of_nat (8 * length (whole msg)) \<and> take (length msg mod 64) (sha_data ctx) = rest msg \<and>
     state ctx = foldl compress H0 (blocks (whole msg))"

lemma ctx_repD:
  assumes "ctx_rep ctx msg"
  shows "length (sha_data ctx) = 64" "unat (datalen ctx) = length msg mod 64" "bitlen ctx = of_nat (8 * length (whole msg))"
    "take (length msg mod 64) (sha_data ctx) = rest msg" "state ctx = foldl compress H0 (blocks (whole msg))" "length (state ctx) = 8"
proof -
  have "length msg mod 64 < 64" by simp
  then show "unat (datalen ctx) = length msg mod 64" using assms by (simp add: ctx_rep_def unat_of_nat)
  show "length (state ctx) = 8" using assms by (simp add: ctx_rep_def compress_blocks_length H0_def)
qed (use assms in \<open>simp_all add: ctx_rep_def\<close>)

lemma init_rep: "length (sha_data ctx) = 64 \<Longrightarrow> ctx_rep (sha256_init ctx) []"
  by (simp add: ctx_rep_def sha256_init_def whole_def rest_def H0_def blocks.simps)

lemma update_byte_rep:
  assumes "ctx_rep ctx msg"
  shows "\<exists>ctx'. update_byte ctx b = Inr ctx' \<and> ctx_rep ctx' (msg @ [b])"
proof -
  note R = ctx_repD[OF assms]
  let ?n = "length msg mod 64"
  have n: "?n < 64" by simp
  let ?d = "(sha_data ctx)[?n := b]"
  let ?c = "ctx\<lparr>sha_data := ?d, datalen := datalen ctx + 1\<rparr>"
  have u: "uint (datalen ctx) = int ?n" using R(2) by (metis uint_nat)
  have set: "aset (sha_data ctx) (uint (datalen ctx)) b = Inr ?d" using R(1) n unfolding u by (simp add: aset_def)
  have t: "take (Suc ?n) ?d = rest msg @ [b]"
    using R(1,4) n by (simp add: take_Suc_conv_app_nth)
  have dl: "datalen ctx + 1 = of_nat (Suc ?n)" using assms by (simp add: ctx_rep_def add.commute)
  show ?thesis
  proof (cases "?n = 63")
    case False
    then have n': "?n < 63" "Suc (length msg) mod 64 = Suc ?n" using n by (simp_all add: mod_Suc)
    have "unat (of_nat (Suc ?n) :: u32) = Suc ?n" unfolding unat_of_nat using n'(1) by simp
    then have "(of_nat (Suc ?n) :: u32) \<noteq> 64" using n'(1) by auto
    then have "update_byte ctx b = Inr ?c" using set dl by (simp add: update_byte_def)
    moreover have "ctx_rep ?c (msg @ [b])"
      using R(1,3,5) t dl n' whole_rest_snoc(1)[OF n'(1), of b] by (simp add: ctx_rep_def)
    ultimately show ?thesis by blast
  next
    case True
    have l: "length (rest msg @ [b]) = 64" using whole_rest(3)[of msg] True by simp
    have "?d = rest msg @ [b]" using t R(1) True by simp
    then have tr: "sha256_transform ?c ?d = ?c\<lparr>state := compress (state ctx) (rest msg @ [b])\<rparr>"
      using transform_compress[of ?d ?c] R(1,6) l by simp
    have "update_byte ctx b = Inr (?c\<lparr>state := compress (state ctx) (rest msg @ [b]), bitlen := bitlen ctx + 512, datalen := 0\<rparr>)"
      using set dl tr True by (simp add: update_byte_def)
    moreover have "ctx_rep (?c\<lparr>state := compress (state ctx) (rest msg @ [b]), bitlen := bitlen ctx + 512, datalen := 0\<rparr>) (msg @ [b])"
      using R(1,3,5) whole_rest_snoc(2)[OF True, of b] l True blocks_append[OF whole_rest(2), of msg "rest msg @ [b]"] blocks_one[OF l]
      by (simp add: ctx_rep_def mod_Suc)
    ultimately show ?thesis by blast
  qed
qed

lemma update_loop_rep: "ctx_rep ctx msg \<Longrightarrow> \<exists>ctx'. update_loop ctx bs = Inr ctx' \<and> ctx_rep ctx' (msg @ bs)"
proof (induction bs arbitrary: ctx msg)
  case (Cons b bs)
  obtain c where "update_byte ctx b = Inr c" "ctx_rep c (msg @ [b])" using update_byte_rep[OF Cons.prems] by blast
  then show ?case using Cons.IH[of c "msg @ [b]"] by simp
qed simp

section \<open>The final padding\<close>

lemma store_zeros_eq: "i + n \<le> length dat \<Longrightarrow> store_zeros n dat i = take i dat @ replicate n 0 @ drop (i + n) dat"
proof (induction n arbitrary: dat i)
  case (Suc n)
  have "store_zeros n (dat[i := 0]) (i + 1) = take (i + 1) (dat[i := 0]) @ replicate n 0 @ drop (i + 1 + n) (dat[i := 0])"
    using Suc.prems by (intro Suc.IH) simp
  then show ?case using Suc.prems by (simp add: take_Suc_conv_app_nth)
qed simp

lemma byte_of_nat: "ucast (w :: 'a :: len word) = (of_nat (unat w) :: u8)"
  by simp

lemma be_bytes_of_nat: "be_bytes (of_nat n) = map (\<lambda>i. word_of_nat (n div 256 ^ (7 - i))) [0..<8]"
  unfolding be_bytes_def
proof (intro map_cong refl)
  fix i assume "i \<in> set [0..<8 :: nat]"
  then have i: "i < 8" by simp
  define k where "k = 8 * (7 - i)"
  have k: "k \<le> 56" "256 ^ (7 - i) = (2 :: nat) ^ k" using i by (simp_all add: k_def power_mult)
  have "unat (drop_bit k (of_nat n :: u64)) = n mod 2 ^ 64 div 2 ^ k" by (simp only: unat_drop_bit_eq) (simp add: drop_bit_eq_div unat_of_nat)
  also have "\<dots> = n div 2 ^ k mod 2 ^ (64 - k)"
    using drop_bit_take_bit[of k 64 n] by (simp add: drop_bit_eq_div take_bit_eq_mod)
  finally have u: "unat (drop_bit k (of_nat n :: u64)) = n div 2 ^ k mod 2 ^ (64 - k)" .
  have dv: "(256 :: nat) dvd 2 ^ (64 - k)" using k(1) le_imp_power_dvd[of 8 "64 - k" "2 :: nat"] by simp
  have "unat (ucast (drop_bit k (of_nat n :: u64)) :: u8) = n div 2 ^ k mod 256"
    using mod_mod_cancel[OF dv] by (simp add: unsigned_ucast_eq take_bit_eq_mod u)
  then show "ucast (drop_bit (8 * (7 - i)) (of_nat n :: u64)) = (word_of_nat (n div 256 ^ (7 - i)) :: u8)"
    unfolding k(2) k_def[symmetric] by (intro word_unat_eq_iff[THEN iffD2]) (simp add: unat_of_nat)
qed

lemma digest_spec: "digest s = concat (map (\<lambda>w. map (\<lambda>i. word_of_nat (unat w div 256 ^ (3 - i))) [0..<4]) s)"
proof -
  have "ucast (drop_bit (24 - i * 8) w) = (word_of_nat (unat w div 256 ^ (3 - i)) :: u8)" if "i < 4" for i and w :: u32
  proof -
    have "24 - i * 8 = 8 * (3 - i)" using that by simp
    moreover have "unat (drop_bit (8 * (3 - i)) w) = unat w div 256 ^ (3 - i)" by (simp only: unat_drop_bit_eq) (simp add: drop_bit_eq_div power_mult)
    ultimately show ?thesis by (metis byte_of_nat)
  qed
  then show ?thesis unfolding digest_def by (intro arg_cong[of _ _ concat] map_cong refl) simp
qed

lemma pad_rest:
  "length msg mod 64 < 56 \<Longrightarrow> pad msg = whole msg @ rest msg @ 0x80 # replicate (55 - length msg mod 64) 0 @ be_bytes (of_nat (8 * length msg))"
  "56 \<le> length msg mod 64 \<Longrightarrow> pad msg = whole msg @ (rest msg @ 0x80 # replicate (63 - length msg mod 64) 0) @ replicate 56 0 @ be_bytes (of_nat (8 * length msg))"
proof -
  have m: "(55 - int (length msg)) mod 64 = (55 - int (length msg mod 64)) mod 64" by (simp add: zmod_int mod_diff_right_eq)
  show "length msg mod 64 < 56 \<Longrightarrow> pad msg = whole msg @ rest msg @ 0x80 # replicate (55 - length msg mod 64) 0 @ be_bytes (of_nat (8 * length msg))"
  proof -
    assume "length msg mod 64 < 56"
    then have "(55 - int (length msg)) mod 64 = int (55 - length msg mod 64)" unfolding m by simp
    then show ?thesis unfolding pad_def be_bytes_of_nat using whole_rest(1)[of msg] by (simp add: append_assoc[symmetric] del: append_assoc)
  qed
  assume a: "56 \<le> length msg mod 64"
  have "(55 - int (length msg mod 64)) mod 64 = (55 - int (length msg mod 64) + 64) mod 64" by (rule mod_add_self2[symmetric])
  also have "\<dots> = 55 - int (length msg mod 64) + 64" using a by (intro mod_pos_pos_trivial) simp_all
  finally have r: "nat ((55 - int (length msg)) mod 64) = (63 - length msg mod 64) + 56" unfolding m using a by simp
  show "pad msg = whole msg @ (rest msg @ 0x80 # replicate (63 - length msg mod 64) 0) @ replicate 56 0 @ be_bytes (of_nat (8 * length msg))"
    unfolding pad_def be_bytes_of_nat r replicate_add
    using whole_rest(1)[of msg] by (simp add: append_assoc[symmetric] del: append_assoc)
qed

lemma be_bytes_length [simp]: "length (be_bytes n) = 8"
  by (simp add: be_bytes_def)

lemma final_digest:
  assumes "ctx_rep ctx msg"
  shows "\<exists>ctx'. sha256_final ctx = Inr (sha256 msg, ctx') \<and> length (sha_data ctx') = 64"
proof -
  note R = ctx_repD[OF assms] and W = whole_rest[of msg]
  let ?n = "length msg mod 64"
  have n: "?n < 64" by simp
  let ?d = "(sha_data ctx)[?n := 0x80]"
  have set: "aset (sha_data ctx) (int ?n) 0x80 = Inr ?d" using R(1) by (simp add: aset_def)
  have dl: "datalen ctx < 56 \<longleftrightarrow> ?n < 56" using R(2) by (simp add: word_less_nat_alt)
  have "(of_nat (8 * length msg) :: u64) = of_nat (8 * length (whole msg)) + of_nat (8 * ?n)"
    unfolding of_nat_add[symmetric] W(2) by (rule arg_cong[of _ _ of_nat]) (use mult_div_mod_eq[of 64 "length msg"] in linarith)
  moreover have "ucast (datalen ctx * 8) = (of_nat (8 * ?n) :: u64)"
  proof -
    have "unat (datalen ctx * 8) = 8 * ?n" using R(2) n by (subst unat_mult_lem[THEN iffD1]) (simp_all add: mult.commute)
    then show ?thesis by (metis of_nat_unat)
  qed
  ultimately have bits: "bitlen ctx + ucast (datalen ctx * 8) = of_nat (8 * length msg)" using R(3) by simp
  let ?be = "be_bytes (of_nat (8 * length msg))"
  have t: "take (Suc ?n) ?d = rest msg @ [0x80]" using R(1,4) n by (simp add: take_Suc_conv_app_nth)
  show ?thesis
  proof (cases "?n < 56")
    case True
    define Z where "Z = store_zeros (56 - (?n + 1)) ?d (?n + 1)"
    have l: "length (rest msg @ 0x80 # replicate (55 - ?n) 0) = 56" using W(3) True by simp
    have "Z = (rest msg @ 0x80 # replicate (55 - ?n) 0) @ drop 56 ?d"
      unfolding Z_def using t R(1) True by (subst store_zeros_eq) simp_all
    then have tk: "take 56 Z = rest msg @ 0x80 # replicate (55 - ?n) 0" using l by (simp only: take_append) simp
    let ?b = "rest msg @ 0x80 # replicate (55 - ?n) 0 @ ?be"
    have b: "length ?b = 64" using l by simp
    have "blocks (pad msg) = blocks (whole msg) @ [?b]"
      unfolding pad_rest(1)[OF True] using blocks_append[OF W(2)] blocks_one[OF b] by simp
    then have "foldl compress H0 (blocks (pad msg)) = compress (state ctx) ?b" using R(5) by simp
    moreover have "sha256_final ctx = (let c = sha256_transform (ctx\<lparr>sha_data := ?b, bitlen := of_nat (8 * length msg)\<rparr>) ?b in Inr (digest (state c), c))"
      unfolding sha256_final_def R(2) set Let_def bindE_Inr dl if_P[OF True] Z_def[symmetric] by (simp add: bits tk)
    ultimately show ?thesis using transform_compress[OF b, of "ctx\<lparr>sha_data := ?b, bitlen := of_nat (8 * length msg)\<rparr>"] R(6) b
      by (simp add: sha256_def digest_spec Let_def)
  next
    case False
    let ?b = "rest msg @ 0x80 # replicate (63 - ?n) 0" and ?c = "replicate 56 0 @ ?be"
    have z: "store_zeros (64 - (?n + 1)) ?d (?n + 1) = ?b"
      using t R(1) False n by (subst store_zeros_eq) simp_all
    have tk: "take 56 (replicate 56 0 @ drop 56 ?b) = replicate 56 0" by simp
    have b: "length ?b = 64" "length ?c = 64" using W(3) False n by simp_all
    have "blocks (pad msg) = blocks (whole msg) @ [?b, ?c]"
      unfolding pad_rest(2)[OF False[unfolded not_less]] using blocks_append[OF W(2)] blocks_append[of ?b 1 ?c] blocks_one[OF b(1)] blocks_one[OF b(2)] b(1) by simp
    then have "foldl compress H0 (blocks (pad msg)) = compress (compress (state ctx) ?b) ?c" using R(5) by simp
    moreover have "sha256_final ctx = (let c = sha256_transform ((sha256_transform ctx ?b)\<lparr>sha_data := ?c, bitlen := of_nat (8 * length msg)\<rparr>) ?c
        in Inr (digest (state c), c))"
      unfolding sha256_final_def R(2) set Let_def bindE_Inr dl if_not_P[OF False] z transform_compress[OF b(1) R(6)]
      by (simp add: bits)
    ultimately show ?thesis using transform_compress[OF b(2), of "ctx\<lparr>state := compress (state ctx) ?b, sha_data := ?c, bitlen := of_nat (8 * length msg)\<rparr>"]
      compress_length[OF R(6), of ?b] b(2) by (simp add: sha256_def digest_spec Let_def transform_compress[OF b(1) R(6)])
  qed
qed

section \<open>The contract of a streaming hash\<close>

text \<open>
  What the clients of a hash with a context rely on: \<open>rep c m\<close> says that the context has taken in the message
  \<open>m\<close>; a context is initialised, fed piece by piece, and closed with the hash of what it was fed.
\<close>

primrec feed :: "('c \<Rightarrow> u8 list \<Rightarrow> u64 \<Rightarrow> 'c res) \<Rightarrow> 'c \<Rightarrow> u8 list list \<Rightarrow> 'c res" where
  "feed upd c [] = Inr c"
| "feed upd c (d # ds) = bindE (upd c d (of_nat (length d))) (\<lambda>c. feed upd c ds)"

locale streaming_hash =
  fixes rep :: "'c \<Rightarrow> u8 list \<Rightarrow> bool" and ok :: "'c \<Rightarrow> bool" and ini :: "'c \<Rightarrow> 'c"
    and upd :: "'c \<Rightarrow> u8 list \<Rightarrow> u64 \<Rightarrow> 'c res" and fin :: "'c \<Rightarrow> (u8 list \<times> 'c) res" and H :: "u8 list \<Rightarrow> u8 list"
  assumes ini_rep: "ok c \<Longrightarrow> rep (ini c) []"
    and upd_rep: "rep c m \<Longrightarrow> length d < 2 ^ 32 \<Longrightarrow> \<exists>c'. upd c d (of_nat (length d)) = Inr c' \<and> rep c' (m @ d)"
    and fin_rep: "rep c m \<Longrightarrow> \<exists>c'. fin c = Inr (H m, c') \<and> ok c'"
    and rep_ok: "rep c m \<Longrightarrow> ok c"
begin

lemma feed_rep: "rep c m \<Longrightarrow> \<forall>d \<in> set ds. length d < 2 ^ 32 \<Longrightarrow> \<exists>c'. feed upd c ds = Inr c' \<and> rep c' (m @ concat ds)"
proof (induction ds arbitrary: c m)
  case (Cons d ds)
  obtain c' where "upd c d (of_nat (length d)) = Inr c'" "rep c' (m @ d)" using upd_rep[OF Cons.prems(1)] Cons.prems(2) by auto
  then show ?case using Cons.IH[of c' "m @ d"] Cons.prems(2) by simp
qed simp

lemma hash_pieces:
  assumes "ok c" "\<forall>d \<in> set ds. length d < 2 ^ 32"
  shows "\<exists>c'. bindE (feed upd (ini c) ds) fin = Inr (H (concat ds), c') \<and> ok c'"
proof -
  obtain c' where "feed upd (ini c) ds = Inr c'" "rep c' (concat ds)" using feed_rep[OF ini_rep[OF assms(1)] assms(2)] by auto
  then show ?thesis using fin_rep[of c' "concat ds"] by auto
qed

lemma hash_one: "ok c \<Longrightarrow> length d < 2 ^ 32 \<Longrightarrow> \<exists>c'. bindE (upd (ini c) d (of_nat (length d))) fin = Inr (H d, c') \<and> ok c'"
  using hash_pieces[of c "[d]"] by (auto simp: res_iff bindE_assoc)

end

lemma sha256_update_rep:
  assumes "ctx_rep ctx msg" "length d < 2 ^ 32"
  shows "\<exists>ctx'. sha256_update ctx d (of_nat (length d)) = Inr ctx' \<and> ctx_rep ctx' (msg @ d)"
proof -
  have "unat (of_nat (length d) :: u64) = length d" using assms(2) by (intro unat_of_nat_64) simp
  then show ?thesis using update_loop_rep[OF assms(1), of d] assms(2) by (simp add: sha256_update_def)
qed

interpretation sha: streaming_hash ctx_rep "\<lambda>c. length (sha_data c) = 64" sha256_init sha256_update sha256_final sha256
  by unfold_locales (simp_all add: init_rep sha256_update_rep final_digest ctx_repD(1))

section \<open>Properties\<close>

text \<open>
  C15. The hash is SHA-256: whatever the context held before and however the message is cut into pieces,
  initialising, feeding the pieces and closing ends without a fault with the digest of the whole message
  that FIPS 180-4 defines: padding to whole blocks, the schedule given by its recurrence and the compression
  of every block. A single piece of \<open>2 ^ 32\<close> bytes or more never returns.
\<close>

theorem sha256_streams_standard:
  assumes "length (sha_data ctx) = 64" "\<forall>d \<in> set ds. length d < 2 ^ 32"
  shows "(\<exists>ctx'. bindE (feed sha256_update (sha256_init ctx) ds) sha256_final = Inr (sha256 (concat ds), ctx')) \<and>
    (2 ^ 32 \<le> unat len \<longrightarrow> sha256_update ctx dat len = Inl Diverge)"
  using sha.hash_pieces[OF assms] by (auto simp: sha256_update_def)

theorem sha256_streams_standard_witness:
  "\<exists>ctx'. bindE (feed sha256_update (sha256_init \<lparr>sha_data = replicate 64 0, datalen = 9, bitlen = 1, state = []\<rparr>) [[0x61], [], [0x62, 0x63]]) sha256_final =
     Inr (sha256 [0x61, 0x62, 0x63], ctx')"
  using sha256_streams_standard[of "\<lparr>sha_data = replicate 64 0, datalen = 9, bitlen = 1, state = []\<rparr>" "[[0x61], [], [0x62, 0x63]]" 0 "[]"] by auto

text \<open>
  The tables are the constants of the standard: each round constant is the fraction of the cube root of
  its prime, and each word of the initial hash value the fraction of the square root, cut to 32 bits.
\<close>

theorem sha_constants_standard:
  "list_all2 (root_frac 3) small_primes (map uint sha_k) \<and> list_all2 (root_frac 2) (take 8 small_primes) (map uint (state (sha256_init ctx)))"
proof
  show "list_all2 (root_frac 3) small_primes (map uint sha_k)" by code_simp
  have "list_all2 (root_frac 2) (take 8 small_primes) (map uint H0)" by code_simp
  then show "list_all2 (root_frac 2) (take 8 small_primes) (map uint (state (sha256_init ctx)))" by (simp add: sha256_init_def H0_def)
qed


end
