(* ===== verification/ModuleSign.thy ===== *)
theory ModuleSign
  imports Sha256 ByteMem
begin

text \<open>
  The keyed hash of \<^verbatim>\<open>libs/crypto/hmac.c\<close> and the signed module header of \<^verbatim>\<open>libs/module_lib/module.c\<close>: building a
  header and checking it.
\<close>

section \<open>HMAC\<close>

record hmac_ctx =
  o_key_pad :: "u8 list"
  hash_ctx :: SHA256_CTX

text \<open>\<open>c0\<close> is the uninitialised context on the stack of the function.\<close>

definition sha_once :: "SHA256_CTX \<Rightarrow> u8 list \<Rightarrow> u8 list res" where
  "sha_once c0 dat = bindE (bindE (sha256_update (sha256_init c0) dat 32) sha256_final) (\<lambda>(h, _). Inr h)"

definition hmac_init :: "SHA256_CTX \<Rightarrow> hmac_ctx \<Rightarrow> u8 list \<Rightarrow> (int \<times> hmac_ctx) res" where
  "hmac_init c0 ctx hkey =
     bindE (sha_once c0 hkey) (\<lambda>h_key_full.
       let i_key_pad = map (\<lambda>b. 0x36 XOR b) h_key_full;
           ctx = ctx\<lparr>o_key_pad := map (\<lambda>b. 0x5c XOR b) h_key_full\<rparr>
       in bindE (sha256_update (sha256_init (hash_ctx ctx)) i_key_pad 32) (\<lambda>c. Inr (0, ctx\<lparr>hash_ctx := c\<rparr>)))"

definition hmac_update :: "hmac_ctx \<Rightarrow> u8 list \<Rightarrow> u64 \<Rightarrow> (int \<times> hmac_ctx) res" where
  "hmac_update ctx message message_len =
     bindE (sha256_update (hash_ctx ctx) message message_len) (\<lambda>c. Inr (0, ctx\<lparr>hash_ctx := c\<rparr>))"

definition hmac_final :: "SHA256_CTX \<Rightarrow> hmac_ctx \<Rightarrow> (u8 list \<times> hmac_ctx) res" where
  "hmac_final c0 ctx =
     bindE (sha256_final (hash_ctx ctx)) (\<lambda>(hash_0, c).
     bindE (sha256_update (sha256_init c0) (o_key_pad ctx) 32) (\<lambda>s.
     bindE (sha256_update s hash_0 32) (\<lambda>s.
     bindE (sha256_final s) (\<lambda>(r, _). Inr (r, ctx\<lparr>hash_ctx := c\<rparr>)))))"

text \<open>The value of the code: the key is hashed, and the pads are as long as the hash.\<close>

definition hmac :: "u8 list \<Rightarrow> u8 list \<Rightarrow> u8 list" where
  "hmac k m = (let h = sha256 k in sha256 (map (\<lambda>b. 0x5c XOR b) h @ sha256 (map (\<lambda>b. 0x36 XOR b) h @ m)))"

definition hmac_rep :: "hmac_ctx \<Rightarrow> u8 list \<Rightarrow> u8 list \<Rightarrow> bool" where
  "hmac_rep ctx k m \<longleftrightarrow> o_key_pad ctx = map (\<lambda>b. 0x5c XOR b) (sha256 k) \<and> ctx_rep (hash_ctx ctx) (map (\<lambda>b. 0x36 XOR b) (sha256 k) @ m)"

lemma sha256_length: "length (sha256 m) = 32"
proof -
  have "length (foldl compress H0 (blocks (pad m))) = 8" by (rule compress_blocks_length) (simp add: H0_def)
  then show ?thesis by (simp add: sha256_def length_concat comp_def sum_list_triv)
qed

lemma update_32: "ctx_rep c m \<Longrightarrow> length d = 32 \<Longrightarrow> \<exists>c'. sha256_update c d 32 = Inr c' \<and> ctx_rep c' (m @ d)"
  using sha.upd_rep[of c m d] by simp

lemma sha_once_hash: "length (sha_data c0) = 64 \<Longrightarrow> length d = 32 \<Longrightarrow> sha_once c0 d = Inr (sha256 d)"
  using sha.hash_one[of c0 d] by (auto simp: sha_once_def)

lemma hmac_init_rep:
  assumes "length (sha_data c0) = 64" "length (sha_data (hash_ctx ctx)) = 64" "length k = 32"
  shows "\<exists>ctx'. hmac_init c0 ctx k = Inr (0, ctx') \<and> hmac_rep ctx' k []"
proof -
  let ?i = "map (\<lambda>b. 0x36 XOR b) (sha256 k)"
  obtain c where "sha256_update (sha256_init (hash_ctx ctx)) ?i 32 = Inr c" "ctx_rep c ?i"
    using update_32[OF sha.ini_rep[OF assms(2)], of ?i] by (auto simp: sha256_length)
  then show ?thesis using sha_once_hash[OF assms(1,3)] by (simp add: hmac_init_def hmac_rep_def Let_def)
qed

lemma hmac_update_rep:
  assumes "hmac_rep ctx k m" "length d < 2 ^ 32"
  shows "\<exists>ctx'. hmac_update ctx d (of_nat (length d)) = Inr (0, ctx') \<and> hmac_rep ctx' k (m @ d)"
  using sha.upd_rep[of "hash_ctx ctx" _ d] assms by (fastforce simp: hmac_update_def hmac_rep_def)

lemma hmac_final_rep:
  assumes "hmac_rep ctx k m" "length (sha_data c0) = 64"
  shows "\<exists>ctx'. hmac_final c0 ctx = Inr (hmac k m, ctx')"
proof -
  let ?o = "map (\<lambda>b. 0x5c XOR b) (sha256 k)" and ?h = "sha256 (map (\<lambda>b. 0x36 XOR b) (sha256 k) @ m)"
  obtain c where 1: "sha256_final (hash_ctx ctx) = Inr (?h, c)" using sha.fin_rep assms(1) unfolding hmac_rep_def by blast
  obtain s where 2: "sha256_update (sha256_init c0) ?o 32 = Inr s" "ctx_rep s ?o"
    using update_32[OF sha.ini_rep[OF assms(2)], of ?o] by (auto simp: sha256_length)
  obtain s' where 3: "sha256_update s ?h 32 = Inr s'" "ctx_rep s' (?o @ ?h)" using update_32[OF 2(2)] sha256_length by blast
  obtain c' where "sha256_final s' = Inr (sha256 (?o @ ?h), c')" using sha.fin_rep[OF 3(2)] by blast
  then show ?thesis using 1 2 3 assms(1) by (simp add: hmac_final_def hmac_rep_def hmac_def Let_def)
qed

section \<open>Signed modules\<close>

record ModuleHeader =
  magic :: "u8 list"
  mod_name :: "u8 list"
  dev_name :: "u8 list"
  dev_name2 :: "u8 list"
  major_ver :: u16
  minor_ver :: u16
  elf_len :: u32
  uncompressed_len :: u32
  module_nid :: u64
  key_hash :: "u8 list"
  mod_hash :: "u8 list"

text \<open>The bytes of the structure in memory; the fields leave no gaps.\<close>

definition header_bytes :: "ModuleHeader \<Rightarrow> u8 list" where
  "header_bytes h = magic h @ mod_name h @ dev_name h @ dev_name2 h @ le_bytes 2 (major_ver h) @ le_bytes 2 (minor_ver h) @
     le_bytes 4 (elf_len h) @ le_bytes 4 (uncompressed_len h) @ le_bytes 8 (module_nid h) @ key_hash h @ mod_hash h"

definition header_wf :: "ModuleHeader \<Rightarrow> bool" where
  "header_wf h \<longleftrightarrow> length (magic h) = 4 \<and> length (mod_name h) = 256 \<and> length (dev_name h) = 256 \<and> length (dev_name2 h) = 256 \<and>
     length (key_hash h) = 32 \<and> length (mod_hash h) = 32"

abbreviation (input) sizeof_ModuleHeader :: nat where
  "sizeof_ModuleHeader \<equiv> 856"

lemma header_length: "header_wf h \<Longrightarrow> length (header_bytes h) = sizeof_ModuleHeader"
  by (simp add: header_wf_def header_bytes_def le_bytes_def)

text \<open>The comparison of \<open>n\<close> bytes: the difference at the first place where they differ.\<close>

fun cmp_bytes :: "nat \<Rightarrow> u8 list \<Rightarrow> u8 list \<Rightarrow> int" where
  "cmp_bytes (Suc n) (x # xs) (y # ys) = (if x \<noteq> y then uint x - uint y else cmp_bytes n xs ys)"
| "cmp_bytes n xs ys = 0"

lemma cmp_bytes_eq: "n \<le> length xs \<Longrightarrow> n \<le> length ys \<Longrightarrow> cmp_bytes n xs ys = 0 \<longleftrightarrow> take n xs = take n ys"
  by (induction n xs ys rule: cmp_bytes.induct) (auto simp: word_uint_eq_iff)

definition hex_digit_val :: "u8 \<Rightarrow> u8" where
  "hex_digit_val c = (if 48 \<le> c \<and> c \<le> 57 then c - 48 else if 97 \<le> c \<and> c \<le> 102 then c - 97 + 10
     else if 65 \<le> c \<and> c \<le> 70 then c - 65 + 10 else 0)"

text \<open>\<open>val\<close> is the string without its terminator; the loop ends there or after four (two) characters.\<close>

definition str2short :: "u8 list \<Rightarrow> u16" where
  "str2short val = foldl (\<lambda>r c. push_bit 4 r OR ucast (hex_digit_val c)) 0 (takeWhile (\<lambda>c. c \<noteq> 0) (take 4 val))"

definition str2byte :: "u8 list \<Rightarrow> u8" where
  "str2byte val = foldl (\<lambda>r c. push_bit 4 r OR hex_digit_val c) 0 (takeWhile (\<lambda>c. c \<noteq> 0) (take 2 val))"

text \<open>
  The two digits at a time of the key string, into an array of 32 bytes. After a last single digit the
  pointer steps over the terminator.
\<close>

fun parse_key :: "u8 list \<Rightarrow> u8 list \<Rightarrow> nat \<Rightarrow> u8 list res" where
  "parse_key [] key_i idx = Inr key_i"
| "parse_key [c] key_i idx = bindE (aset key_i (int idx) (str2byte [c])) (\<lambda>_. Inl OutOfBounds)"
| "parse_key (c # d # r) key_i idx = bindE (aset key_i (int idx) (str2byte [c, d])) (\<lambda>k. parse_key r k (idx + 1))"

text \<open>\<open>strncpy\<close> into a zeroed field of 256 bytes.\<close>

definition name_field :: "u8 list \<Rightarrow> u8 list" where
  "name_field s = (let t = takeWhile (\<lambda>c. c \<noteq> 0) (take 256 s) in t @ replicate (256 - length t) 0)"

definition hmac_module :: "SHA256_CTX \<Rightarrow> hmac_ctx \<Rightarrow> u8 list \<Rightarrow> ModuleHeader \<Rightarrow> u8 list \<Rightarrow> u64 \<Rightarrow> u8 list res" where
  "hmac_module c0 m0 k hdr elf len =
     bindE (hmac_init c0 m0 k) (\<lambda>(_, c). bindE (hmac_update c (header_bytes hdr) 856) (\<lambda>(_, c).
     bindE (hmac_update c elf len) (\<lambda>(_, c). bindE (hmac_final c0 c) (\<lambda>(r, _). Inr r))))"

text \<open>\<open>dat\<close> are the bytes behind the header.\<close>

definition VerifyModule :: "SHA256_CTX \<Rightarrow> hmac_ctx \<Rightarrow> ModuleHeader \<Rightarrow> u8 list \<Rightarrow> u8 list \<Rightarrow> int res" where
  "VerifyModule c0 m0 hdr dat k =
     (let m_hdr = hdr\<lparr>mod_hash := replicate 32 0\<rparr> in
      if cmp_bytes 5 (header_bytes hdr) (str ''CELF'' @ [0]) \<noteq> 0 then Inr (-1)
      else bindE (sha_once c0 k) (\<lambda>kh.
        if take 32 kh \<noteq> take 32 (key_hash hdr) then Inr (-1)
        else bindE (hmac_module c0 m0 k m_hdr dat (ucast (elf_len hdr))) (\<lambda>h.
          if take 32 h \<noteq> take 32 (mod_hash hdr) then Inr (-1) else Inr 0)))"

definition nid_of :: "u8 list \<Rightarrow> u64" where
  "nid_of h = foldl (\<lambda>n b. push_bit 8 n OR ucast b) 0 (take 8 h)"

definition BuildModuleHeader ::
  "SHA256_CTX \<Rightarrow> hmac_ctx \<Rightarrow> u8 list \<Rightarrow> u8 list \<Rightarrow> u8 list \<Rightarrow> u8 list \<Rightarrow> u8 list \<Rightarrow> u8 list \<Rightarrow> u8 list \<Rightarrow> u8 list \<Rightarrow> u64 \<Rightarrow> u64 \<Rightarrow>
   (int \<times> ModuleHeader) res" where
  "BuildModuleHeader c0 m0 key_buf name dev dev2 min_ver maj_ver kstr elf len ulen =
     (let hdr = \<lparr>magic = str ''CELF'', mod_name = name_field name, dev_name = name_field dev, dev_name2 = name_field dev2,
                 major_ver = str2short maj_ver, minor_ver = str2short min_ver, elf_len = ucast len, uncompressed_len = ucast ulen,
                 module_nid = 0, key_hash = replicate 32 0, mod_hash = replicate 32 0\<rparr> in
      bindE (parse_key kstr key_buf 0) (\<lambda>key_i.
      bindE (sha_once c0 key_i) (\<lambda>kh.
        let hdr = hdr\<lparr>key_hash := kh\<rparr> in
        bindE (feed sha256_update (sha256_init c0) [mod_name hdr, dev_name hdr, dev_name2 hdr, le_bytes 2 (major_ver hdr)]) (\<lambda>c.
        bindE (sha256_final c) (\<lambda>(tmp_hash, _).
          let hdr = hdr\<lparr>module_nid := nid_of tmp_hash\<rparr> in
          bindE (hmac_module c0 m0 key_i hdr elf len) (\<lambda>h. Inr (0, hdr\<lparr>mod_hash := h\<rparr>)))))))"

lemma hmac_module_value:
  assumes "length (sha_data c0) = 64" "length (sha_data (hash_ctx m0)) = 64" "length k = 32" "header_wf hdr" "length elf < 2 ^ 32"
  shows "hmac_module c0 m0 k hdr elf (of_nat (length elf)) = Inr (hmac k (header_bytes hdr @ elf))"
proof -
  obtain c where 1: "hmac_init c0 m0 k = Inr (0, c)" "hmac_rep c k []" using hmac_init_rep[OF assms(1-3)] by blast
  obtain c2 where 2: "hmac_update c (header_bytes hdr) 856 = Inr (0, c2)" "hmac_rep c2 k (header_bytes hdr)"
    using hmac_update_rep[OF 1(2), of "header_bytes hdr"] header_length[OF assms(4)] by auto
  obtain c3 where 3: "hmac_update c2 elf (of_nat (length elf)) = Inr (0, c3)" "hmac_rep c3 k (header_bytes hdr @ elf)"
    using hmac_update_rep[OF 2(2) assms(5)] by blast
  then show ?thesis using 1 2 3 hmac_final_rep[OF 3(2) assms(1)] by (auto simp: hmac_module_def)
qed


lemma hmac_length: "length (hmac k m) = 32"
  by (simp add: hmac_def Let_def sha256_length)

lemma VerifyModule_value:
  assumes "length (sha_data c0) = 64" "length (sha_data (hash_ctx m0)) = 64" "length k = 32" "header_wf hdr" "length dat = unat (elf_len hdr)"
  shows "VerifyModule c0 m0 hdr dat k =
    Inr (if take 5 (header_bytes hdr) = str ''CELF'' @ [0] \<and> key_hash hdr = sha256 k \<and>
            mod_hash hdr = hmac k (header_bytes (hdr\<lparr>mod_hash := replicate 32 0\<rparr>) @ dat) then 0 else -1)"
proof -
  let ?m = "hdr\<lparr>mod_hash := replicate 32 0\<rparr>"
  have wf: "header_wf ?m" using assms(4) by (simp add: header_wf_def)
  have len: "ucast (elf_len hdr) = (of_nat (length dat) :: u64)" "length dat < 2 ^ 32"
    using assms(5) unsigned_less[of "elf_len hdr", where ?'a = nat] by simp_all
  have "hmac_module c0 m0 k ?m dat (ucast (elf_len hdr)) = Inr (hmac k (header_bytes ?m @ dat))"
    unfolding len(1) by (rule hmac_module_value[OF assms(1-3) wf len(2)])
  moreover have "length (str ''CELF'' @ [0]) = 5" by (simp add: str_def)
  then have "cmp_bytes 5 (header_bytes hdr) (str ''CELF'' @ [0]) = 0 \<longleftrightarrow> take 5 (header_bytes hdr) = str ''CELF'' @ [0]"
    using cmp_bytes_eq[of 5 "header_bytes hdr" "str ''CELF'' @ [0]"] header_length[OF assms(4)] by simp
  moreover have "take 32 (key_hash hdr) = key_hash hdr" "take 32 (mod_hash hdr) = mod_hash hdr" using assms(4) by (simp_all add: header_wf_def)
  ultimately show ?thesis
    using sha_once_hash[OF assms(1,3)] by (auto simp: VerifyModule_def Let_def sha256_length hmac_length)
qed

lemma parse_key_ok: "length s = 2 * n \<Longrightarrow> idx + n \<le> length k \<Longrightarrow> \<exists>k'. parse_key s k idx = Inr k' \<and> length k' = length k"
proof (induction s k idx arbitrary: n rule: parse_key.induct)
  case (3 c d r k idx)
  have "\<exists>k'. parse_key r (k[idx := str2byte [c, d]]) (idx + 1) = Inr k' \<and> length k' = length (k[idx := str2byte [c, d]])"
    using 3(2,3) by (intro 3(1)[of _ "n - 1"]) (auto simp: aset_def)
  then show ?case using 3(2,3) by (auto simp: aset_def)
qed (auto simp: )

lemma name_field_length [simp]: "length (name_field s) = 256"
  using length_takeWhile_le[of "\<lambda>c. c \<noteq> 0" "take 256 s"] by (auto simp: name_field_def Let_def)

lemma BuildModuleHeader_value:
  assumes "length (sha_data c0) = 64" "length (sha_data (hash_ctx m0)) = 64" "length key_buf = 32" "length kstr = 64" "length elf < 2 ^ 32"
  shows "\<exists>hdr k. parse_key kstr key_buf 0 = Inr k \<and> length k = 32 \<and> header_wf hdr \<and>
    BuildModuleHeader c0 m0 key_buf name dev dev2 min_ver maj_ver kstr elf (of_nat (length elf)) ulen = Inr (0, hdr) \<and>
    magic hdr = str ''CELF'' \<and> mod_name hdr = name_field name \<and> elf_len hdr = of_nat (length elf) \<and>
    key_hash hdr = sha256 k \<and> mod_hash hdr = hmac k (header_bytes (hdr\<lparr>mod_hash := replicate 32 0\<rparr>) @ elf)"
proof -
  obtain k where k: "parse_key kstr key_buf 0 = Inr k" "length k = 32" using parse_key_ok[of kstr 32 0 key_buf] assms(3,4) by auto
  let ?ds = "[name_field name, name_field dev, name_field dev2, le_bytes 2 (str2short maj_ver)]"
  obtain c d where c: "feed sha256_update (sha256_init c0) ?ds = Inr c" "sha256_final c = Inr (sha256 (concat ?ds), d)"
    using sha.hash_pieces[OF assms(1), of ?ds] by (auto simp: res_iff le_bytes_def)
  define hdr where "hdr = \<lparr>magic = str ''CELF'', mod_name = name_field name, dev_name = name_field dev, dev_name2 = name_field dev2,
                 major_ver = str2short maj_ver, minor_ver = str2short min_ver, elf_len = of_nat (length elf), uncompressed_len = ucast ulen,
                 module_nid = nid_of (sha256 (concat ?ds)), key_hash = sha256 k, mod_hash = replicate 32 0\<rparr>"
  have wf: "header_wf hdr" by (simp add: header_wf_def hdr_def sha256_length str_def)
  have l: "ucast (of_nat (length elf) :: u64) = (of_nat (length elf) :: u32)" using assms(5) by (simp add: ucast_eq unsigned_of_nat take_bit_nat_eq_self)
  have "BuildModuleHeader c0 m0 key_buf name dev dev2 min_ver maj_ver kstr elf (of_nat (length elf)) ulen =
      Inr (0, hdr\<lparr>mod_hash := hmac k (header_bytes hdr @ elf)\<rparr>)"
    using hmac_module_value[OF assms(1,2) k(2) wf assms(5)] k(1) sha_once_hash[OF assms(1) k(2)] c
    by (simp add: BuildModuleHeader_def Let_def l hdr_def)
  then show ?thesis using k wf by (intro exI[of _ "hdr\<lparr>mod_hash := hmac k (header_bytes hdr @ elf)\<rparr>"] exI[of _ k])
    (simp add: hdr_def header_wf_def hmac_length)
qed


section \<open>Properties\<close>

text \<open>
  \<open>VerifyModule\<close> accepts exactly the modules with a valid signature: it never faults on a well-formed
  header with the bytes it announces, and answers 0 if and only if the magic, with the byte behind it,
  matches, the key hash is that of the key, and the hash is the keyed hash over the header with an empty
  hash field followed by the image.
\<close>

theorem VerifyModule_decides:
  assumes "length (sha_data c0) = 64" "length (sha_data (hash_ctx m0)) = 64" "length k = 32" "header_wf hdr" "length dat = unat (elf_len hdr)"
  shows "\<exists>r. VerifyModule c0 m0 hdr dat k = Inr r \<and> (r = 0 \<or> r = -1) \<and>
    (r = 0 \<longleftrightarrow> take 5 (header_bytes hdr) = str ''CELF'' @ [0] \<and> key_hash hdr = sha256 k \<and>
       mod_hash hdr = hmac k (header_bytes (hdr\<lparr>mod_hash := replicate 32 0\<rparr>) @ dat))"
  using VerifyModule_value[OF assms] by auto

definition ex_sha :: SHA256_CTX where
  "ex_sha = \<lparr>sha_data = replicate 64 0, datalen = 0, bitlen = 0, state = []\<rparr>"

definition ex_hmac :: hmac_ctx where
  "ex_hmac = \<lparr>o_key_pad = [], hash_ctx = ex_sha\<rparr>"

lemma ex_contexts [simp]: "length (sha_data ex_sha) = 64" "length (sha_data (hash_ctx ex_hmac)) = 64"
  by (simp_all add: ex_sha_def ex_hmac_def)

theorem VerifyModule_decides_witness:
  "VerifyModule ex_sha ex_hmac \<lparr>magic = str ''CELG'', mod_name = replicate 256 0, dev_name = replicate 256 0, dev_name2 = replicate 256 0,
     major_ver = 1, minor_ver = 2, elf_len = 2, uncompressed_len = 2, module_nid = 5, key_hash = replicate 32 7, mod_hash = replicate 32 9\<rparr>
     [1, 2] (replicate 32 3) = Inr (-1)" (is "VerifyModule _ _ ?h _ _ = _")
proof -
  have wf: "header_wf ?h" "take 5 (header_bytes ?h) \<noteq> str ''CELF'' @ [0]"
    by (simp_all add: header_wf_def header_bytes_def str_def of_char_def)
  then show ?thesis using VerifyModule_decides[of ex_sha ex_hmac "replicate 32 3" ?h "[1, 2]"] by auto
qed



end
