(* ===== verification/Aes.thy ===== *)
theory Aes
  imports ByteMem
begin

text \<open>
  The AES block cipher of \<^verbatim>\<open>libs/crypto/aes.c\<close> as it is configured by \<^verbatim>\<open>aes.h\<close>: a 128-bit key, so
  \<open>Nk = 4\<close>, \<open>Nr = 10\<close> and a schedule of 176 bytes. The state matrix is the sixteen bytes that
  \<^verbatim>\<open>state\<close> points at, \<^verbatim>\<open>(*state)[i][j]\<close> being byte \<open>4 * i + j\<close>; the rounds are functions on those bytes and
  the interface routines read and write them in the byte memory of \<^verbatim>\<open>CMem\<close>. The schedule lives in the
  static array \<^verbatim>\<open>RoundKey\<close>, which is not reachable from a caller's buffers.

  Shown: decryption undoes encryption on every block, under every schedule; a key expansion overwrites
  the whole schedule; the buffer routines compute cipher block chaining and invert one another on
  buffers that do not overlap; the ECB routines transform the first block only.
\<close>

section \<open>Tables\<close>

definition sbox :: "u8 list" where
  "sbox =
    [0x63, 0x7c, 0x77, 0x7b, 0xf2, 0x6b, 0x6f, 0xc5, 0x30, 0x01, 0x67, 0x2b, 0xfe, 0xd7, 0xab, 0x76,
     0xca, 0x82, 0xc9, 0x7d, 0xfa, 0x59, 0x47, 0xf0, 0xad, 0xd4, 0xa2, 0xaf, 0x9c, 0xa4, 0x72, 0xc0,
     0xb7, 0xfd, 0x93, 0x26, 0x36, 0x3f, 0xf7, 0xcc, 0x34, 0xa5, 0xe5, 0xf1, 0x71, 0xd8, 0x31, 0x15,
     0x04, 0xc7, 0x23, 0xc3, 0x18, 0x96, 0x05, 0x9a, 0x07, 0x12, 0x80, 0xe2, 0xeb, 0x27, 0xb2, 0x75,
     0x09, 0x83, 0x2c, 0x1a, 0x1b, 0x6e, 0x5a, 0xa0, 0x52, 0x3b, 0xd6, 0xb3, 0x29, 0xe3, 0x2f, 0x84,
     0x53, 0xd1, 0x00, 0xed, 0x20, 0xfc, 0xb1, 0x5b, 0x6a, 0xcb, 0xbe, 0x39, 0x4a, 0x4c, 0x58, 0xcf,
     0xd0, 0xef, 0xaa, 0xfb, 0x43, 0x4d, 0x33, 0x85, 0x45, 0xf9, 0x02, 0x7f, 0x50, 0x3c, 0x9f, 0xa8,
     0x51, 0xa3, 0x40, 0x8f, 0x92, 0x9d, 0x38, 0xf5, 0xbc, 0xb6, 0xda, 0x21, 0x10, 0xff, 0xf3, 0xd2,
     0xcd, 0x0c, 0x13, 0xec, 0x5f, 0x97, 0x44, 0x17, 0xc4, 0xa7, 0x7e, 0x3d, 0x64, 0x5d, 0x19, 0x73,
     0x60, 0x81, 0x4f, 0xdc, 0x22, 0x2a, 0x90, 0x88, 0x46, 0xee, 0xb8, 0x14, 0xde, 0x5e, 0x0b, 0xdb,
     0xe0, 0x32, 0x3a, 0x0a, 0x49, 0x06, 0x24, 0x5c, 0xc2, 0xd3, 0xac, 0x62, 0x91, 0x95, 0xe4, 0x79,
     0xe7, 0xc8, 0x37, 0x6d, 0x8d, 0xd5, 0x4e, 0xa9, 0x6c, 0x56, 0xf4, 0xea, 0x65, 0x7a, 0xae, 0x08,
     0xba, 0x78, 0x25, 0x2e, 0x1c, 0xa6, 0xb4, 0xc6, 0xe8, 0xdd, 0x74, 0x1f, 0x4b, 0xbd, 0x8b, 0x8a,
     0x70, 0x3e, 0xb5, 0x66, 0x48, 0x03, 0xf6, 0x0e, 0x61, 0x35, 0x57, 0xb9, 0x86, 0xc1, 0x1d, 0x9e,
     0xe1, 0xf8, 0x98, 0x11, 0x69, 0xd9, 0x8e, 0x94, 0x9b, 0x1e, 0x87, 0xe9, 0xce, 0x55, 0x28, 0xdf,
     0x8c, 0xa1, 0x89, 0x0d, 0xbf, 0xe6, 0x42, 0x68, 0x41, 0x99, 0x2d, 0x0f, 0xb0, 0x54, 0xbb, 0x16]"

definition rsbox :: "u8 list" where
  "rsbox =
    [0x52, 0x09, 0x6a, 0xd5, 0x30, 0x36, 0xa5, 0x38, 0xbf, 0x40, 0xa3, 0x9e, 0x81, 0xf3, 0xd7, 0xfb,
     0x7c, 0xe3, 0x39, 0x82, 0x9b, 0x2f, 0xff, 0x87, 0x34, 0x8e, 0x43, 0x44, 0xc4, 0xde, 0xe9, 0xcb,
     0x54, 0x7b, 0x94, 0x32, 0xa6, 0xc2, 0x23, 0x3d, 0xee, 0x4c, 0x95, 0x0b, 0x42, 0xfa, 0xc3, 0x4e,
     0x08, 0x2e, 0xa1, 0x66, 0x28, 0xd9, 0x24, 0xb2, 0x76, 0x5b, 0xa2, 0x49, 0x6d, 0x8b, 0xd1, 0x25,
     0x72, 0xf8, 0xf6, 0x64, 0x86, 0x68, 0x98, 0x16, 0xd4, 0xa4, 0x5c, 0xcc, 0x5d, 0x65, 0xb6, 0x92,
     0x6c, 0x70, 0x48, 0x50, 0xfd, 0xed, 0xb9, 0xda, 0x5e, 0x15, 0x46, 0x57, 0xa7, 0x8d, 0x9d, 0x84,
     0x90, 0xd8, 0xab, 0x00, 0x8c, 0xbc, 0xd3, 0x0a, 0xf7, 0xe4, 0x58, 0x05, 0xb8, 0xb3, 0x45, 0x06,
     0xd0, 0x2c, 0x1e, 0x8f, 0xca, 0x3f, 0x0f, 0x02, 0xc1, 0xaf, 0xbd, 0x03, 0x01, 0x13, 0x8a, 0x6b,
     0x3a, 0x91, 0x11, 0x41, 0x4f, 0x67, 0xdc, 0xea, 0x97, 0xf2, 0xcf, 0xce, 0xf0, 0xb4, 0xe6, 0x73,
     0x96, 0xac, 0x74, 0x22, 0xe7, 0xad, 0x35, 0x85, 0xe2, 0xf9, 0x37, 0xe8, 0x1c, 0x75, 0xdf, 0x6e,
     0x47, 0xf1, 0x1a, 0x71, 0x1d, 0x29, 0xc5, 0x89, 0x6f, 0xb7, 0x62, 0x0e, 0xaa, 0x18, 0xbe, 0x1b,
     0xfc, 0x56, 0x3e, 0x4b, 0xc6, 0xd2, 0x79, 0x20, 0x9a, 0xdb, 0xc0, 0xfe, 0x78, 0xcd, 0x5a, 0xf4,
     0x1f, 0xdd, 0xa8, 0x33, 0x88, 0x07, 0xc7, 0x31, 0xb1, 0x12, 0x10, 0x59, 0x27, 0x80, 0xec, 0x5f,
     0x60, 0x51, 0x7f, 0xa9, 0x19, 0xb5, 0x4a, 0x0d, 0x2d, 0xe5, 0x7a, 0x9f, 0x93, 0xc9, 0x9c, 0xef,
     0xa0, 0xe0, 0x3b, 0x4d, 0xae, 0x2a, 0xf5, 0xb0, 0xc8, 0xeb, 0xbb, 0x3c, 0x83, 0x53, 0x99, 0x61,
     0x17, 0x2b, 0x04, 0x7e, 0xba, 0x77, 0xd6, 0x26, 0xe1, 0x69, 0x14, 0x63, 0x55, 0x21, 0x0c, 0x7d]"

definition Rcon :: "u8 list" where
  "Rcon = [0x8d, 0x01, 0x02, 0x04, 0x08, 0x10, 0x20, 0x40, 0x80, 0x1b, 0x36]"

definition getSBoxValue :: "u8 \<Rightarrow> u8" where
  "getSBoxValue num = sbox ! unat num"

definition getSBoxInvert :: "u8 \<Rightarrow> u8" where
  "getSBoxInvert num = rsbox ! unat num"


section \<open>The key schedule\<close>

text \<open>\<^verbatim>\<open>SubWord()\<close> of the key expansion.\<close>

definition subword :: "u8 list \<Rightarrow> u8 list" where
  "subword tempa = [getSBoxValue (tempa ! 0), getSBoxValue (tempa ! 1), getSBoxValue (tempa ! 2), getSBoxValue (tempa ! 3)]"

text \<open>One turn of the second loop of \<^verbatim>\<open>KeyExpansion\<close>.\<close>

definition expand_word :: "nat \<Rightarrow> u8 list \<Rightarrow> u8 list" where
  "expand_word i rk =
     (let tempa = [rk ! ((i - 1) * 4 + 0), rk ! ((i - 1) * 4 + 1), rk ! ((i - 1) * 4 + 2), rk ! ((i - 1) * 4 + 3)];
          tempa = (if i mod 4 = 0 then
                     let tempa = [tempa ! 1, tempa ! 2, tempa ! 3, tempa ! 0];
                         tempa = subword tempa
                     in tempa[0 := tempa ! 0 XOR Rcon ! (i div 4)]
                   else tempa);
          rk = rk[i * 4 + 0 := rk ! ((i - 4) * 4 + 0) XOR tempa ! 0];
          rk = rk[i * 4 + 1 := rk ! ((i - 4) * 4 + 1) XOR tempa ! 1];
          rk = rk[i * 4 + 2 := rk ! ((i - 4) * 4 + 2) XOR tempa ! 2];
          rk = rk[i * 4 + 3 := rk ! ((i - 4) * 4 + 3) XOR tempa ! 3]
      in rk)"

definition KeyExpansion :: "u8 list \<Rightarrow> u8 list \<Rightarrow> u8 list" where
  "KeyExpansion rk key =
     (let rk = fold (\<lambda>i rk. rk[i * 4 + 0 := key ! (i * 4 + 0), i * 4 + 1 := key ! (i * 4 + 1),
                               i * 4 + 2 := key ! (i * 4 + 2), i * 4 + 3 := key ! (i * 4 + 3)]) [0..<4] rk
      in fold expand_word [4..<44] rk)"

section \<open>The rounds\<close>

text \<open>The state matrix: \<^verbatim>\<open>(*state)[i][j]\<close> and an assignment to it.\<close>

definition cell :: "u8 list \<Rightarrow> nat \<Rightarrow> nat \<Rightarrow> u8" where
  "cell s i j = s ! (4 * i + j)"

definition set_cell :: "nat \<Rightarrow> nat \<Rightarrow> u8 \<Rightarrow> u8 list \<Rightarrow> u8 list" where
  "set_cell i j v s = s[4 * i + j := v]"

definition AddRoundKey :: "u8 list \<Rightarrow> nat \<Rightarrow> u8 list \<Rightarrow> u8 list" where
  "AddRoundKey rk round s =
     fold (\<lambda>i. fold (\<lambda>j s. set_cell i j (cell s i j XOR rk ! (round * 4 * 4 + i * 4 + j)) s) [0..<4]) [0..<4] s"

definition SubBytes :: "u8 list \<Rightarrow> u8 list" where
  "SubBytes s = fold (\<lambda>i. fold (\<lambda>j s. set_cell j i (getSBoxValue (cell s j i)) s) [0..<4]) [0..<4] s"

definition ShiftRows :: "u8 list \<Rightarrow> u8 list" where
  "ShiftRows s =
     (let temp = cell s 0 1;
          s = set_cell 0 1 (cell s 1 1) s;
          s = set_cell 1 1 (cell s 2 1) s;
          s = set_cell 2 1 (cell s 3 1) s;
          s = set_cell 3 1 temp s;
          temp = cell s 0 2;
          s = set_cell 0 2 (cell s 2 2) s;
          s = set_cell 2 2 temp s;
          temp = cell s 1 2;
          s = set_cell 1 2 (cell s 3 2) s;
          s = set_cell 3 2 temp s;
          temp = cell s 0 3;
          s = set_cell 0 3 (cell s 3 3) s;
          s = set_cell 3 3 (cell s 2 3) s;
          s = set_cell 2 3 (cell s 1 3) s
      in set_cell 1 3 temp s)"

definition xtime :: "u8 \<Rightarrow> u8" where
  "xtime x = push_bit 1 x XOR (drop_bit 7 x AND 1) * 0x1b"

text \<open>One turn of the loop of \<^verbatim>\<open>MixColumns\<close>.\<close>

definition mix_column :: "nat \<Rightarrow> u8 list \<Rightarrow> u8 list" where
  "mix_column i s =
     (let t = cell s i 0;
          Tmp = cell s i 0 XOR cell s i 1 XOR cell s i 2 XOR cell s i 3;
          Tm = xtime (cell s i 0 XOR cell s i 1);
          s = set_cell i 0 (cell s i 0 XOR (Tm XOR Tmp)) s;
          Tm = xtime (cell s i 1 XOR cell s i 2);
          s = set_cell i 1 (cell s i 1 XOR (Tm XOR Tmp)) s;
          Tm = xtime (cell s i 2 XOR cell s i 3);
          s = set_cell i 2 (cell s i 2 XOR (Tm XOR Tmp)) s;
          Tm = xtime (cell s i 3 XOR t)
      in set_cell i 3 (cell s i 3 XOR (Tm XOR Tmp)) s)"

definition MixColumns :: "u8 list \<Rightarrow> u8 list" where
  "MixColumns s = fold mix_column [0..<4] s"

text \<open>The macro; every argument \<open>y\<close> the code passes is below 32.\<close>

definition Multiply :: "u8 \<Rightarrow> u8 \<Rightarrow> u8" where
  "Multiply x y =
     (y AND 1) * x XOR (drop_bit 1 y AND 1) * xtime x XOR (drop_bit 2 y AND 1) * xtime (xtime x) XOR
     (drop_bit 3 y AND 1) * xtime (xtime (xtime x)) XOR (drop_bit 4 y AND 1) * xtime (xtime (xtime (xtime x)))"

definition inv_mix_column :: "nat \<Rightarrow> u8 list \<Rightarrow> u8 list" where
  "inv_mix_column i s =
     (let a = cell s i 0; b = cell s i 1; c = cell s i 2; d = cell s i 3;
          s = set_cell i 0 (Multiply a 0x0e XOR Multiply b 0x0b XOR Multiply c 0x0d XOR Multiply d 0x09) s;
          s = set_cell i 1 (Multiply a 0x09 XOR Multiply b 0x0e XOR Multiply c 0x0b XOR Multiply d 0x0d) s;
          s = set_cell i 2 (Multiply a 0x0d XOR Multiply b 0x09 XOR Multiply c 0x0e XOR Multiply d 0x0b) s
      in set_cell i 3 (Multiply a 0x0b XOR Multiply b 0x0d XOR Multiply c 0x09 XOR Multiply d 0x0e) s)"

definition InvMixColumns :: "u8 list \<Rightarrow> u8 list" where
  "InvMixColumns s = fold inv_mix_column [0..<4] s"

definition InvSubBytes :: "u8 list \<Rightarrow> u8 list" where
  "InvSubBytes s = fold (\<lambda>i. fold (\<lambda>j s. set_cell j i (getSBoxInvert (cell s j i)) s) [0..<4]) [0..<4] s"

definition InvShiftRows :: "u8 list \<Rightarrow> u8 list" where
  "InvShiftRows s =
     (let temp = cell s 3 1;
          s = set_cell 3 1 (cell s 2 1) s;
          s = set_cell 2 1 (cell s 1 1) s;
          s = set_cell 1 1 (cell s 0 1) s;
          s = set_cell 0 1 temp s;
          temp = cell s 0 2;
          s = set_cell 0 2 (cell s 2 2) s;
          s = set_cell 2 2 temp s;
          temp = cell s 1 2;
          s = set_cell 1 2 (cell s 3 2) s;
          s = set_cell 3 2 temp s;
          temp = cell s 0 3;
          s = set_cell 0 3 (cell s 1 3) s;
          s = set_cell 1 3 (cell s 2 3) s;
          s = set_cell 2 3 (cell s 3 3) s
      in set_cell 3 3 temp s)"

text \<open>The body of the loop of \<^verbatim>\<open>Cipher\<close>, and of \<^verbatim>\<open>InvCipher\<close> below.\<close>

definition cipher_round :: "u8 list \<Rightarrow> nat \<Rightarrow> u8 list \<Rightarrow> u8 list" where
  "cipher_round rk round s = AddRoundKey rk round (MixColumns (ShiftRows (SubBytes s)))"

definition Cipher :: "u8 list \<Rightarrow> u8 list \<Rightarrow> u8 list" where
  "Cipher rk s =
     (let s = AddRoundKey rk 0 s;
          s = fold (cipher_round rk) [1..<10] s
      in AddRoundKey rk 10 (ShiftRows (SubBytes s)))"

definition inv_round :: "u8 list \<Rightarrow> nat \<Rightarrow> u8 list \<Rightarrow> u8 list" where
  "inv_round rk round s = InvMixColumns (AddRoundKey rk round (InvSubBytes (InvShiftRows s)))"

definition InvCipher :: "u8 list \<Rightarrow> u8 list \<Rightarrow> u8 list" where
  "InvCipher rk s =
     (let s = AddRoundKey rk 10 s;
          s = fold (inv_round rk) (rev [1..<10]) s
      in AddRoundKey rk 0 (InvSubBytes (InvShiftRows s)))"

section \<open>The interface\<close>

text \<open>The static variables that outlive a call; \<^verbatim>\<open>state\<close> is set before every use.\<close>

record aes_state =
  RoundKey :: "u8 list"
  Key :: addr
  Iv :: addr

text \<open>A round function working in place on the sixteen bytes \<^verbatim>\<open>state\<close> points at.\<close>

definition on_state :: "(u8 list \<Rightarrow> u8 list) \<Rightarrow> mem \<Rightarrow> addr \<Rightarrow> mem" where
  "on_state f m state = wr m state (f (rd m state 16))"

text \<open>\<^verbatim>\<open>Key = key; KeyExpansion();\<close>\<close>

definition set_key :: "aes_state \<Rightarrow> mem \<Rightarrow> addr \<Rightarrow> aes_state" where
  "set_key st m key = st\<lparr>Key := key, RoundKey := KeyExpansion (RoundKey st) (rd m key 16)\<rparr>"

definition AES_ECB_encrypt :: "aes_state \<Rightarrow> mem \<Rightarrow> addr \<Rightarrow> addr \<Rightarrow> addr \<Rightarrow> u32 \<Rightarrow> aes_state \<times> mem" where
  "AES_ECB_encrypt st m input key output len =
     (let m = snd (memcpy m output input (ucast len));
          st = set_key st m key
      in (st, on_state (Cipher (RoundKey st)) m output))"

definition AES_ECB_decrypt :: "aes_state \<Rightarrow> mem \<Rightarrow> addr \<Rightarrow> addr \<Rightarrow> addr \<Rightarrow> u32 \<Rightarrow> aes_state \<times> mem" where
  "AES_ECB_decrypt st m input key output len =
     (let m = snd (memcpy m output input (ucast len));
          st = set_key st m key
      in (st, on_state (InvCipher (RoundKey st)) m output))"

definition XorWithIv :: "addr \<Rightarrow> mem \<Rightarrow> addr \<Rightarrow> mem" where
  "XorWithIv iv m buf = fold (\<lambda>i m. m(buf + of_nat i := m (buf + of_nat i) XOR m (iv + of_nat i))) [0..<16] m"

text \<open>The loop of \<^verbatim>\<open>AES_CBC_encrypt_buffer\<close>; the counter is 64 bits wide and the length 32, so it never wraps.\<close>

function encrypt_loop :: "u8 list \<Rightarrow> addr \<Rightarrow> mem \<Rightarrow> addr \<Rightarrow> addr \<Rightarrow> nat \<Rightarrow> nat \<Rightarrow> addr \<times> mem \<times> addr \<times> addr" where
  "encrypt_loop rk iv m output input i len =
     (if i < len then
        let m = XorWithIv iv m input;
            m = snd (memcpy m output input 16);
            m = on_state (Cipher rk) m output
        in encrypt_loop rk output m (output + 16) (input + 16) (i + 16) len
      else (iv, m, output, input))"
  by pat_completeness auto
termination
  by (relation "measure (\<lambda>(rk, iv, m, output, input, i, len). len - i)") auto

function decrypt_loop :: "u8 list \<Rightarrow> addr \<Rightarrow> mem \<Rightarrow> addr \<Rightarrow> addr \<Rightarrow> nat \<Rightarrow> nat \<Rightarrow> addr \<times> mem \<times> addr \<times> addr" where
  "decrypt_loop rk iv m output input i len =
     (if i < len then
        let m = snd (memcpy m output input 16);
            m = on_state (InvCipher rk) m output;
            m = XorWithIv iv m output
        in decrypt_loop rk input m (output + 16) (input + 16) (i + 16) len
      else (iv, m, output, input))"
  by pat_completeness auto
termination
  by (relation "measure (\<lambda>(rk, iv, m, output, input, i, len). len - i)") auto

declare encrypt_loop.simps [simp del] decrypt_loop.simps [simp del]

text \<open>The optional key and initial vector at the head of both buffer routines.\<close>

definition set_params :: "aes_state \<Rightarrow> mem \<Rightarrow> addr \<Rightarrow> addr \<Rightarrow> aes_state" where
  "set_params st m key iv =
     (let st = (if key \<noteq> NULL then set_key st m key else st)
      in if iv \<noteq> NULL then st\<lparr>Iv := iv\<rparr> else st)"

definition AES_CBC_encrypt_buffer :: "aes_state \<Rightarrow> mem \<Rightarrow> addr \<Rightarrow> addr \<Rightarrow> u32 \<Rightarrow> addr \<Rightarrow> addr \<Rightarrow> aes_state \<times> mem" where
  "AES_CBC_encrypt_buffer st m output input len key iv =
     (let extra = len mod 16;
          st = set_params st m key iv;
          (iv, m, output, input) = encrypt_loop (RoundKey st) (Iv st) m output input 0 (unat len);
          m = (if extra \<noteq> 0 then on_state (Cipher (RoundKey st)) (snd (memcpy m output input (ucast extra))) output else m)
      in (st\<lparr>Iv := iv\<rparr>, m))"

definition AES_CBC_decrypt_buffer :: "aes_state \<Rightarrow> mem \<Rightarrow> addr \<Rightarrow> addr \<Rightarrow> u32 \<Rightarrow> addr \<Rightarrow> addr \<Rightarrow> aes_state \<times> mem" where
  "AES_CBC_decrypt_buffer st m output input len key iv =
     (let extra = len mod 16;
          st = set_params st m key iv;
          (iv, m, output, input) = decrypt_loop (RoundKey st) (Iv st) m output input 0 (unat len);
          m = (if extra \<noteq> 0 then on_state (InvCipher (RoundKey st)) (snd (memcpy m output input (ucast extra))) output else m)
      in (st\<lparr>Iv := iv\<rparr>, m))"

section \<open>Cipher block chaining\<close>

text \<open>The reference: cipher block chaining over a list of blocks.\<close>

definition xor_block :: "u8 list \<Rightarrow> u8 list \<Rightarrow> u8 list" where
  "xor_block xs ys = map2 (XOR) xs ys"

primrec cbc_enc :: "(u8 list \<Rightarrow> u8 list) \<Rightarrow> u8 list \<Rightarrow> u8 list list \<Rightarrow> u8 list list" where
  "cbc_enc E iv [] = []"
| "cbc_enc E iv (b # bs) = (let c = E (xor_block b iv) in c # cbc_enc E c bs)"

primrec cbc_dec :: "(u8 list \<Rightarrow> u8 list) \<Rightarrow> u8 list \<Rightarrow> u8 list list \<Rightarrow> u8 list list" where
  "cbc_dec D iv [] = []"
| "cbc_dec D iv (c # cs) = xor_block (D c) iv # cbc_dec D c cs"

section \<open>Decryption undoes encryption\<close>

lemma xor3_cancel: "x XOR (x XOR y) = (y :: 'a::len word)"
  by (simp add: xor.assoc[symmetric])

lemma sbox_inverse: "map (\<lambda>b. rsbox ! unat b) sbox = map of_nat [0..<256]"
  by code_simp

lemma getSBoxInvert_inverse: "getSBoxInvert (getSBoxValue b) = b"
proof -
  have l: "length sbox = 256" by (simp add: sbox_def)
  have b: "unat b < 256" using unsigned_less[of b, where ?'a = nat] by simp
  have "map (\<lambda>b. rsbox ! unat b) sbox ! unat b = map of_nat [0..<256] ! unat b"
    by (simp only: sbox_inverse)
  then show ?thesis using l b by (simp add: getSBoxInvert_def getSBoxValue_def)
qed

lemma length16: "length s = 16 \<Longrightarrow>
  \<exists>a b c d e f g h i j k l m n p q. s = [a, b, c, d, e, f, g, h, i, j, k, l, m, n, p, q]"
  by (auto simp: numeral_eq_Suc length_Suc_conv)

lemma upt4: "[0..<4] = [0, 1, 2, 3 :: nat]"
  by (simp add: upt_conv_Cons numeral_eq_Suc)

lemmas cell_defs = cell_def set_cell_def

lemma upt16: "[0..<16] = [0, 1, 2, 3, 4, 5, 6, 7, 8, 9, 10, 11, 12, 13, 14, 15 :: nat]"
  by (simp add: upt_conv_Cons numeral_eq_Suc)

lemma AddRoundKey_map2: "length s = 16 \<Longrightarrow> AddRoundKey rk r s = map (\<lambda>i. s ! i XOR rk ! (r * 16 + i)) [0..<16]"
  by (drule length16) (auto simp: AddRoundKey_def upt4 upt16 cell_defs mult.assoc add.commute)

lemma SubBytes_map: "length s = 16 \<Longrightarrow> SubBytes s = map getSBoxValue s"
  by (drule length16) (auto simp: SubBytes_def upt4 cell_defs)

lemma InvSubBytes_map: "length s = 16 \<Longrightarrow> InvSubBytes s = map getSBoxInvert s"
  by (drule length16) (auto simp: InvSubBytes_def upt4 cell_defs)

lemma InvShiftRows_ShiftRows: "length s = 16 \<Longrightarrow> InvShiftRows (ShiftRows s) = s"
  by (drule length16) (auto simp: InvShiftRows_def ShiftRows_def cell_defs)

lemma xtime_xor: "xtime (x XOR y) = xtime x XOR xtime y"
proof -
  have c: "drop_bit 7 z AND 1 = (if bit z 7 then 1 else 0 :: u8)" for z :: u8
    by (simp add: and_one_eq bit_iff_odd_drop_bit odd_iff_mod_2_eq_one)
  show ?thesis
    unfolding xtime_def c push_bit_xor bit_xor_iff
    by (cases "bit x 7"; cases "bit y 7") (simp_all add: ac_simps xor3_cancel)
qed

lemma Multiply_9: "Multiply x 0x09 = x XOR xtime (xtime (xtime x))"
  by (simp add: Multiply_def)
lemma Multiply_b: "Multiply x 0x0b = x XOR xtime x XOR xtime (xtime (xtime x))"
  by (simp add: Multiply_def)
lemma Multiply_d: "Multiply x 0x0d = x XOR xtime (xtime x) XOR xtime (xtime (xtime x))"
  by (simp add: Multiply_def)
lemma Multiply_e: "Multiply x 0x0e = xtime x XOR xtime (xtime x) XOR xtime (xtime (xtime x))"
  by (simp add: Multiply_def)

lemmas Multiply_consts = Multiply_9 Multiply_b Multiply_d Multiply_e

text \<open>A byte of a mixed column.\<close>

definition mixed :: "u8 \<Rightarrow> u8 \<Rightarrow> u8 \<Rightarrow> u8 \<Rightarrow> u8" where
  "mixed a b c d = xtime a XOR xtime b XOR b XOR c XOR d"

lemma unmixed: "Multiply (mixed a b c d) 0x0e XOR Multiply (mixed b c d a) 0x0b XOR Multiply (mixed c d a b) 0x0d XOR Multiply (mixed d a b c) 0x09 = a"
  unfolding mixed_def Multiply_consts xtime_xor
  by (simp add: ac_simps xor3_cancel)

lemma MixColumns_eq: "MixColumns [a, b, c, d, e, f, g, h, i, j, k, l, m, n, p, q] =
  [mixed a b c d, mixed b c d a, mixed c d a b, mixed d a b c, mixed e f g h, mixed f g h e, mixed g h e f, mixed h e f g,
   mixed i j k l, mixed j k l i, mixed k l i j, mixed l i j k, mixed m n p q, mixed n p q m, mixed p q m n, mixed q m n p]"
  by (simp add: MixColumns_def upt4 mix_column_def cell_defs Let_def mixed_def xtime_xor ac_simps xor3_cancel)

lemma InvMixColumns_MixColumns:
  assumes "length s = 16"
  shows "InvMixColumns (MixColumns s) = s"
proof -
  have u: "Multiply (mixed a b c d) 0x09 XOR Multiply (mixed b c d a) 0x0e XOR Multiply (mixed c d a b) 0x0b XOR Multiply (mixed d a b c) 0x0d = b"
     "Multiply (mixed a b c d) 0x0d XOR Multiply (mixed b c d a) 0x09 XOR Multiply (mixed c d a b) 0x0e XOR Multiply (mixed d a b c) 0x0b = c"
     "Multiply (mixed a b c d) 0x0b XOR Multiply (mixed b c d a) 0x0d XOR Multiply (mixed c d a b) 0x09 XOR Multiply (mixed d a b c) 0x0e = d"
    for a b c d
    using unmixed[of b c d a] unmixed[of c d a b] unmixed[of d a b c] by (simp_all only: ac_simps)
  show ?thesis using length16[OF assms]
    by (elim exE) (simp add: MixColumns_eq InvMixColumns_def upt4 inv_mix_column_def cell_defs Let_def unmixed u)
qed

lemma ShiftRows_length: "length s = 16 \<Longrightarrow> length (ShiftRows s) = 16"
  by (drule length16) (auto simp: ShiftRows_def cell_defs)

lemma MixColumns_length: "length s = 16 \<Longrightarrow> length (MixColumns s) = 16"
  by (drule length16) (auto simp: MixColumns_eq)

lemma round_lengths [simp]:
  assumes "length s = 16"
  shows "length (AddRoundKey rk r s) = 16" "length (SubBytes s) = 16" "length (ShiftRows s) = 16"
    "length (MixColumns s) = 16"
  using assms by (simp_all add: AddRoundKey_map2 SubBytes_map ShiftRows_length MixColumns_length)

lemma AddRoundKey_twice: "length s = 16 \<Longrightarrow> AddRoundKey rk r (AddRoundKey rk r s) = s"
  by (rule nth_equalityI) (simp_all add: AddRoundKey_map2 xor.assoc)

lemma InvSubBytes_SubBytes: "length s = 16 \<Longrightarrow> InvSubBytes (SubBytes s) = s"
  by (simp add: InvSubBytes_map SubBytes_map getSBoxInvert_inverse comp_def)

lemma cipher_round_length [simp]: "length s = 16 \<Longrightarrow> length (cipher_round rk r s) = 16"
  by (simp add: cipher_round_def)

lemma fold_cipher_length [simp]: "length s = 16 \<Longrightarrow> length (fold (cipher_round rk) rs s) = 16"
  by (induction rs arbitrary: s) simp_all

lemma Cipher_length [simp]: "length s = 16 \<Longrightarrow> length (Cipher rk s) = 16"
  by (simp add: Cipher_def)

text \<open>One decryption round, with the key addition of the round it undoes, gives back the state before the round.\<close>

definition inv_step :: "u8 list \<Rightarrow> nat \<Rightarrow> u8 list \<Rightarrow> u8 list" where
  "inv_step rk r s = InvSubBytes (InvShiftRows (InvMixColumns (AddRoundKey rk r s)))"

lemma inv_step_cancels: "length s = 16 \<Longrightarrow> inv_step rk r (cipher_round rk r s) = s"
  by (simp add: inv_step_def cipher_round_def AddRoundKey_twice InvMixColumns_MixColumns InvShiftRows_ShiftRows
      InvSubBytes_SubBytes)

lemma fold_inv_cancels: "length s = 16 \<Longrightarrow> fold (inv_step rk) (rev rs) (fold (cipher_round rk) rs s) = s"
  by (induction rs arbitrary: s) (simp_all add: inv_step_cancels)

lemma inv_round_shift:
  "InvSubBytes (InvShiftRows (fold (inv_round rk) rs s)) = fold (inv_step rk) rs (InvSubBytes (InvShiftRows s))"
  by (induction rs arbitrary: s) (simp_all add: inv_round_def inv_step_def)

lemma InvCipher_Cipher:
  assumes "length s = 16"
  shows "InvCipher rk (Cipher rk s) = s"
  using assms
  by (simp add: InvCipher_def Cipher_def Let_def AddRoundKey_twice inv_round_shift InvShiftRows_ShiftRows
      InvSubBytes_SubBytes fold_inv_cancels)

lemma inv_lengths [simp]:
  assumes "length s = 16"
  shows "length (InvSubBytes s) = 16" "length (InvShiftRows s) = 16" "length (InvMixColumns s) = 16"
proof -
  show "length (InvSubBytes s) = 16" using assms by (simp add: InvSubBytes_map)
  show "length (InvShiftRows s) = 16" using length16[OF assms] by (auto simp: InvShiftRows_def cell_defs)
  show "length (InvMixColumns s) = 16"
    using length16[OF assms] by (auto simp: InvMixColumns_def upt4 inv_mix_column_def cell_defs Let_def)
qed

lemma inv_round_fold_length [simp]: "length s = 16 \<Longrightarrow> length (fold (inv_round rk) rs s) = 16"
  by (induction rs arbitrary: s) (simp_all add: inv_round_def)

lemma InvCipher_length [simp]: "length s = 16 \<Longrightarrow> length (InvCipher rk s) = 16"
  by (simp add: InvCipher_def Let_def)

section \<open>The schedule is overwritten\<close>

text \<open>Two schedules agree on their first \<open>i\<close> words.\<close>

definition schedules_agree :: "nat \<Rightarrow> u8 list \<Rightarrow> u8 list \<Rightarrow> bool" where
  "schedules_agree i rk rk' \<longleftrightarrow> length rk = 176 \<and> length rk' = 176 \<and> (\<forall>j < 4 * i. rk ! j = rk' ! j)"

lemma schedules_agreeD: "schedules_agree i rk rk' \<Longrightarrow> j < 4 * i \<Longrightarrow> rk ! j = rk' ! j"
  by (simp add: schedules_agree_def)

lemma schedules_agree_extend:
  assumes "schedules_agree i rk rk'" "i < 44"
  shows "schedules_agree (Suc i) (rk[i * 4 + 0 := a, i * 4 + 1 := b, i * 4 + 2 := c, i * 4 + 3 := d])
    (rk'[i * 4 + 0 := a, i * 4 + 1 := b, i * 4 + 2 := c, i * 4 + 3 := d])"
  using assms by (auto simp: schedules_agree_def nth_list_update)

lemma expand_word_updates:
  assumes "length rk = 176" "4 \<le> i" "i < 44"
  shows "\<exists>t. length t = 4 \<and> (\<forall>rk'. schedules_agree i rk rk' \<longrightarrow>
    expand_word i rk' = rk'[i * 4 + 0 := t ! 0, i * 4 + 1 := t ! 1, i * 4 + 2 := t ! 2, i * 4 + 3 := t ! 3])"
proof -
  let ?w = "\<lambda>k. [rk ! (k * 4 + 0), rk ! (k * 4 + 1), rk ! (k * 4 + 2), rk ! (k * 4 + 3)]"
  let ?r = "subword [?w (i - 1) ! 1, ?w (i - 1) ! 2, ?w (i - 1) ! 3, ?w (i - 1) ! 0]"
  let ?t = "if i mod 4 = 0 then ?r[0 := ?r ! 0 XOR Rcon ! (i div 4)] else ?w (i - 1)"
  let ?u = "map2 (XOR) (?w (i - 4)) [?t ! 0, ?t ! 1, ?t ! 2, ?t ! 3]"
  have "expand_word i rk' = rk'[i * 4 + 0 := ?u ! 0, i * 4 + 1 := ?u ! 1, i * 4 + 2 := ?u ! 2, i * 4 + 3 := ?u ! 3]"
    if a: "schedules_agree i rk rk'" for rk'
  proof -
    have e: "rk' ! ((i - 1) * 4 + c) = rk ! ((i - 1) * 4 + c)" "rk' ! ((i - 4) * 4 + c) = rk ! ((i - 4) * 4 + c)" if "c < 4" for c
      using schedules_agreeD[OF a] that assms by auto
    show ?thesis using assms e[of 0] e[of 1] e[of 2] e[of 3] unfolding expand_word_def Let_def
      by (simp add: nth_list_update)
  qed
  then show ?thesis by (intro exI[of _ ?u]) simp
qed

lemma expand_word_agree:
  assumes "schedules_agree i rk rk'" "4 \<le> i" "i < 44"
  shows "schedules_agree (Suc i) (expand_word i rk) (expand_word i rk')"
proof -
  have l: "length rk = 176" and r: "schedules_agree i rk rk" using assms(1) by (simp_all add: schedules_agree_def)
  obtain t where "\<forall>rk'. schedules_agree i rk rk' \<longrightarrow>
      expand_word i rk' = rk'[i * 4 + 0 := t ! 0, i * 4 + 1 := t ! 1, i * 4 + 2 := t ! 2, i * 4 + 3 := t ! 3]"
    using expand_word_updates[OF l assms(2,3)] by blast
  then show ?thesis using schedules_agree_extend[OF assms(1,3)] r assms(1) by simp
qed

lemma fold_expand_Suc: "fold expand_word [4..<4 + Suc n] rk = expand_word (4 + n) (fold expand_word [4..<4 + n] rk)"
  by (simp only: add_Suc_right upt_Suc) simp

lemma expand_words_agree:
  "schedules_agree 4 rk rk' \<Longrightarrow> n \<le> 40 \<Longrightarrow> schedules_agree (4 + n) (fold expand_word [4..<4 + n] rk) (fold expand_word [4..<4 + n] rk')"
proof (induction n)
  case (Suc n)
  then show ?case unfolding fold_expand_Suc using expand_word_agree[of "4 + n"] by simp
qed simp

lemma KeyExpansion_fresh:
  assumes "length rk = 176" "length rk' = 176"
  shows "KeyExpansion rk key = KeyExpansion rk' key" "length (KeyExpansion rk key) = 176"
proof -
  let ?f = "fold (\<lambda>i rk. rk[i * 4 + 0 := key ! (i * 4 + 0), i * 4 + 1 := key ! (i * 4 + 1),
                               i * 4 + 2 := key ! (i * 4 + 2), i * 4 + 3 := key ! (i * 4 + 3)])"
  have "schedules_agree n (?f [0..<n] rk) (?f [0..<n] rk')" if "n \<le> 4" for n
    using that
  proof (induction n)
    case 0
    then show ?case using assms by (simp add: schedules_agree_def)
  next
    case (Suc n)
    then show ?case using schedules_agree_extend[of n] by simp
  qed
  from this[of 4] have "schedules_agree 44 (KeyExpansion rk key) (KeyExpansion rk' key)"
    using expand_words_agree[of _ _ 40] by (simp add: KeyExpansion_def)
  then show "KeyExpansion rk key = KeyExpansion rk' key" "length (KeyExpansion rk key) = 176"
    by (auto simp: schedules_agree_def intro: nth_equalityI)
qed

section \<open>Chaining\<close>

lemma xor_block_twice: "length xs = length ys \<Longrightarrow> xor_block (xor_block xs ys) ys = xs"
  by (rule nth_equalityI) (simp_all add: xor_block_def xor.assoc)

lemma xor_block_length [simp]: "length (xor_block xs ys) = min (length xs) (length ys)"
  by (simp add: xor_block_def)

text \<open>Chaining needs of its block cipher only that decryption undoes encryption on blocks.\<close>

locale block_cipher =
  fixes E D :: "u8 list \<Rightarrow> u8 list"
  assumes enc_length: "length s = 16 \<Longrightarrow> length (E s) = 16"
    and dec_enc: "length s = 16 \<Longrightarrow> D (E s) = s"
begin

lemma cbc_dec_enc: "length iv = 16 \<Longrightarrow> \<forall>b \<in> set bs. length b = 16 \<Longrightarrow> cbc_dec D iv (cbc_enc E iv bs) = bs"
  by (induction bs arbitrary: iv) (simp_all add: Let_def enc_length dec_enc xor_block_twice)

end

interpretation aes: block_cipher "Cipher rk" "InvCipher rk" for rk
  by unfold_locales (simp_all add: InvCipher_Cipher)

section \<open>Blocks in memory\<close>

fun blocks :: "mem \<Rightarrow> addr \<Rightarrow> nat \<Rightarrow> u8 list list" where
  "blocks m p 0 = []"
| "blocks m p (Suc k) = rd m p 16 # blocks m (p + 16) k"

lemma blocks_length: "b \<in> set (blocks m p k) \<Longrightarrow> length b = 16"
  by (induction k arbitrary: p) auto

lemma xor_loop:
  assumes "span buf 16 \<inter> span iv 16 = {}" "k \<le> 16"
  shows "fold (\<lambda>i m. m(buf + of_nat i := m (buf + of_nat i) XOR m (iv + of_nat i))) [0..<k] m
    = wr m buf (xor_block (rd m buf k) (rd m iv k))"
  using assms(2)
proof (induction k)
  case (Suc k)
  have "iv + of_nat k \<notin> span buf 16" using assms(1) mem_span[of k 16 iv] Suc.prems by auto
  then have n: "iv + of_nat k \<notin> span buf k" "buf + of_nat k \<notin> span buf k"
    using Suc.prems by (auto simp: span_def unat_of_nat_64)
  have "xor_block (rd m buf (Suc k)) (rd m iv (Suc k)) =
      xor_block (rd m buf k) (rd m iv k) @ [m (buf + of_nat k) XOR m (iv + of_nat k)]"
    by (simp add: xor_block_def rd_def)
  then show ?case
    using Suc n wr_snoc[of "xor_block (rd m buf k) (rd m iv k)" m buf "m (buf + of_nat k) XOR m (iv + of_nat k)"]
    by (simp add: wr_outside del: fun_upd_apply)
qed (simp add: rd_def xor_block_def)

lemma XorWithIv_apart:
  "span buf 16 \<inter> span iv 16 = {} \<Longrightarrow> XorWithIv iv m buf = wr m buf (xor_block (rd m buf 16) (rd m iv 16))"
  unfolding XorWithIv_def by (rule xor_loop) simp_all


section \<open>The loops chain the blocks\<close>

lemma span_block: "16 * Suc k \<le> 2 ^ 64 \<Longrightarrow> span p (16 + 16 * k) = span p 16 \<union> span (p + 16) (16 * k)"
  using span_split[of 16 "16 * k" p] by simp

lemma span_block_disjoint: "16 * Suc k \<le> 2 ^ 64 \<Longrightarrow> span p 16 \<inter> span (p + 16) (16 * k) = {}"
  using span_next_disjoint[of 16 "16 * k" p] by simp

lemma blocks_cong:
  "16 * k \<le> 2 ^ 64 \<Longrightarrow> (\<And>a. a \<in> span p (16 * k) \<Longrightarrow> m a = m' a) \<Longrightarrow> blocks m p k = blocks m' p k"
proof (induction k arbitrary: p)
  case (Suc k)
  then show ?case using Suc.IH[of "p + 16"] span_block[OF Suc.prems(1), of p] by (auto intro!: rd_cong)
qed simp

lemma on_state_outside: "length (f (rd m p 16)) = 16 \<Longrightarrow> a \<notin> span p 16 \<Longrightarrow> on_state f m p a = m a"
  by (simp add: on_state_def wr_outside)

lemma encrypt_block:
  assumes "span inp 16 \<inter> span iv 16 = {}" "span out 16 \<inter> span inp 16 = {}"
    and m'_def: "m' = on_state (Cipher rk) (snd (memcpy (XorWithIv iv m inp) out inp 16)) out"
  shows "rd m' out 16 = Cipher rk (xor_block (rd m inp 16) (rd m iv 16))"
    and "a \<notin> span inp 16 \<Longrightarrow> a \<notin> span out 16 \<Longrightarrow> m' a = m a"
proof -
  let ?x = "xor_block (rd m inp 16) (rd m iv 16)"
  have l: "length ?x = 16" "length (Cipher rk ?x) = 16" by simp_all
  have "XorWithIv iv m inp = wr m inp ?x" by (rule XorWithIv_apart[OF assms(1)])
  moreover have "rd (wr m inp ?x) inp 16 = ?x" using rd_wr[of ?x m inp] l by simp
  ultimately have "snd (memcpy (XorWithIv iv m inp) out inp 16) = wr (wr m inp ?x) out ?x"
    using memcpy_apart[of out 16 inp] assms(2) by simp
  moreover have "rd (wr (wr m inp ?x) out ?x) out 16 = ?x" using rd_wr[of ?x _ out] l by simp
  ultimately have m': "m' = wr (wr m inp ?x) out (Cipher rk ?x)"
    unfolding m'_def on_state_def using l by (simp add: wr_twice)
  show "rd m' out 16 = Cipher rk ?x" using rd_wr[of "Cipher rk ?x" _ out] l by (simp add: m')
  show "a \<notin> span inp 16 \<Longrightarrow> a \<notin> span out 16 \<Longrightarrow> m' a = m a" using l by (simp add: m' wr_outside)
qed

lemma encrypt_loop_cbc:
  assumes "16 * k \<le> 2 ^ 64" "len = i + 16 * k"
    and "span inp (16 * k) \<inter> span out (16 * k) = {}"
    and "span iv 16 \<inter> span inp (16 * k) = {}" "span iv 16 \<inter> span out (16 * k) = {}"
    and "encrypt_loop rk iv m out inp i len = (iv', m', out', inp')"
  shows "blocks m' out k = cbc_enc (Cipher rk) (rd m iv 16) (blocks m inp k)
    \<and> (\<forall>a. a \<notin> span inp (16 * k) \<union> span out (16 * k) \<longrightarrow> m' a = m a)"
  using assms
proof (induction k arbitrary: iv m out inp i)
  case 0
  then show ?case by (simp add: encrypt_loop.simps)
next
  case (Suc k)
  note k = Suc.prems(1)
  note sp = span_block[OF k]
  define m1 where "m1 = on_state (Cipher rk) (snd (memcpy (XorWithIv iv m inp) out inp 16)) out"
  have eb: "rd m1 out 16 = Cipher rk (xor_block (rd m inp 16) (rd m iv 16))"
    "a \<notin> span inp 16 \<Longrightarrow> a \<notin> span out 16 \<Longrightarrow> m1 a = m a" for a
    using encrypt_block[OF _ _ m1_def] Suc.prems(3,4) by (auto simp: sp)
  have r: "encrypt_loop rk out m1 (out + 16) (inp + 16) (i + 16) len = (iv', m', out', inp')"
    using Suc.prems(2,6) by (subst (asm) encrypt_loop.simps) (simp add: m1_def)
  have IH: "blocks m' (out + 16) k = cbc_enc (Cipher rk) (rd m1 out 16) (blocks m1 (inp + 16) k)
    \<and> (\<forall>a. a \<notin> span (inp + 16) (16 * k) \<union> span (out + 16) (16 * k) \<longrightarrow> m' a = m1 a)"
    using Suc.prems(3) span_block_disjoint[OF k] k
    by (intro Suc.IH[OF _ _ _ _ _ r]) (auto simp: sp Suc.prems(2))
  have "blocks m1 (inp + 16) k = blocks m (inp + 16) k"
    using k Suc.prems(3) span_block_disjoint[OF k, of inp] by (intro blocks_cong eb(2)) (auto simp: sp)
  moreover have "rd m' out 16 = rd m1 out 16"
    using IH Suc.prems(3) span_block_disjoint[OF k, of out] by (intro rd_cong) (auto simp: sp)
  ultimately show ?case using IH eb by (auto simp: sp Let_def)
qed


lemma decrypt_block:
  assumes "span out 16 \<inter> span iv 16 = {}" "span out 16 \<inter> span inp 16 = {}"
    and "length (InvCipher rk (rd m inp 16)) = 16"
    and m'_def: "m' = XorWithIv iv (on_state (InvCipher rk) (snd (memcpy m out inp 16)) out) out"
  shows "rd m' out 16 = xor_block (InvCipher rk (rd m inp 16)) (rd m iv 16)"
    and "a \<notin> span out 16 \<Longrightarrow> m' a = m a"
proof -
  let ?c = "rd m inp 16"
  let ?p = "InvCipher rk ?c"
  have "snd (memcpy m out inp 16) = wr m out ?c" using memcpy_apart[of out 16 inp] assms(2) by simp
  moreover have "rd (wr m out ?c) out 16 = ?c" using rd_wr[of ?c m out] by simp
  ultimately have "on_state (InvCipher rk) (snd (memcpy m out inp 16)) out = wr m out ?p"
    unfolding on_state_def using assms(3) by (simp add: wr_twice)
  moreover have "rd (wr m out ?p) out 16 = ?p" using rd_wr[of ?p m out] assms(3) by simp
  moreover have "rd (wr m out ?p) iv 16 = rd m iv 16" using assms(1,3) by (intro rd_wr_apart) auto
  ultimately have m': "m' = wr m out (xor_block ?p (rd m iv 16))"
    unfolding m'_def using XorWithIv_apart[OF assms(1)] assms(3) by (simp add: wr_twice)
  show "rd m' out 16 = xor_block ?p (rd m iv 16)"
    using rd_wr[of "xor_block ?p (rd m iv 16)" _ out] assms(3) by (simp add: m')
  show "a \<notin> span out 16 \<Longrightarrow> m' a = m a" using assms(3) by (simp add: m' wr_outside)
qed

lemma decrypt_loop_cbc:
  assumes "16 * k \<le> 2 ^ 64" "len = i + 16 * k"
    and "span inp (16 * k) \<inter> span out (16 * k) = {}" "span iv 16 \<inter> span out (16 * k) = {}"
    and "decrypt_loop rk iv m out inp i len = (iv', m', out', inp')"
  shows "blocks m' out k = cbc_dec (InvCipher rk) (rd m iv 16) (blocks m inp k)
    \<and> (\<forall>a. a \<notin> span out (16 * k) \<longrightarrow> m' a = m a)"
  using assms
proof (induction k arbitrary: iv m out inp i)
  case 0
  then show ?case by (simp add: decrypt_loop.simps)
next
  case (Suc k)
  note k = Suc.prems(1)
  note sp = span_block[OF k]
  define m1 where "m1 = XorWithIv iv (on_state (InvCipher rk) (snd (memcpy m out inp 16)) out) out"
  have db: "rd m1 out 16 = xor_block (InvCipher rk (rd m inp 16)) (rd m iv 16)"
    "a \<notin> span out 16 \<Longrightarrow> m1 a = m a" for a
    using decrypt_block[OF _ _ _ m1_def] Suc.prems(3,4) by (auto simp: sp)
  have r: "decrypt_loop rk inp m1 (out + 16) (inp + 16) (i + 16) len = (iv', m', out', inp')"
    using Suc.prems(2,5) by (subst (asm) decrypt_loop.simps) (simp add: m1_def)
  have IH: "blocks m' (out + 16) k = cbc_dec (InvCipher rk) (rd m1 inp 16) (blocks m1 (inp + 16) k)
    \<and> (\<forall>a. a \<notin> span (out + 16) (16 * k) \<longrightarrow> m' a = m1 a)"
    using Suc.prems(3) k by (intro Suc.IH[OF _ _ _ _ r]) (auto simp: sp Suc.prems(2))
  have "blocks m1 (inp + 16) k = blocks m (inp + 16) k"
    using k Suc.prems(3) by (intro blocks_cong db(2)) (auto simp: sp)
  moreover have "rd m1 inp 16 = rd m inp 16"
    using Suc.prems(3) by (intro rd_cong db(2)) (auto simp: sp)
  moreover have "rd m' out 16 = rd m1 out 16"
    using IH span_block_disjoint[OF k, of out] by (intro rd_cong) (auto simp: sp)
  ultimately show ?case using IH db by (auto simp: sp)
qed

section \<open>Buffers\<close>

lemma rd_blocks: "rd m p (16 * k) = concat (blocks m p k)"
proof (induction k arbitrary: p)
  case (Suc k)
  show ?case using Suc rd_append[of m p 16 "16 * k"] by simp
qed (simp add: rd_def)

lemma len_blocks: "len mod 16 = 0 \<Longrightarrow> unat (len :: u32) = 16 * (unat len div 16) \<and> 16 * (unat len div 16) \<le> 2 ^ 64"
  using unsigned_less[of len, where ?'a = nat] unat_mod_distrib[of len 16]
  by (auto simp: unat_mod_distrib)

lemma encrypt_buffer_cbc:
  assumes "unat len = 16 * k" "16 * k \<le> 2 ^ 64" "len mod 16 = 0" "key \<noteq> NULL" "iv \<noteq> NULL"
    and "span inp (16 * k) \<inter> span out (16 * k) = {}"
    and "span iv 16 \<inter> span inp (16 * k) = {}" "span iv 16 \<inter> span out (16 * k) = {}"
    and "AES_CBC_encrypt_buffer st m out inp len key iv = (st', m')"
  shows "RoundKey st' = KeyExpansion (RoundKey st) (rd m key 16)"
    and "blocks m' out k = cbc_enc (Cipher (KeyExpansion (RoundKey st) (rd m key 16))) (rd m iv 16) (blocks m inp k)"
    and "\<And>a. a \<notin> span inp (16 * k) \<union> span out (16 * k) \<Longrightarrow> m' a = m a"
proof -
  obtain iv' m1 o' i' where l: "encrypt_loop (KeyExpansion (RoundKey st) (rd m key 16)) iv m out inp 0 (16 * k) = (iv', m1, o', i')"
    using prod_cases4 by blast
  have e: "st' = st\<lparr>Key := key, RoundKey := KeyExpansion (RoundKey st) (rd m key 16), Iv := iv'\<rparr>" "m' = m1"
    using assms(1,3-5,9) l by (auto simp: AES_CBC_encrypt_buffer_def set_params_def set_key_def)
  show "RoundKey st' = KeyExpansion (RoundKey st) (rd m key 16)" by (simp add: e)
  show "blocks m' out k = cbc_enc (Cipher (KeyExpansion (RoundKey st) (rd m key 16))) (rd m iv 16) (blocks m inp k)"
    "\<And>a. a \<notin> span inp (16 * k) \<union> span out (16 * k) \<Longrightarrow> m' a = m a"
    using encrypt_loop_cbc[OF assms(2) _ assms(6-8) l] by (simp_all add: e)
qed

lemma decrypt_buffer_cbc:
  assumes "unat len = 16 * k" "16 * k \<le> 2 ^ 64" "len mod 16 = 0" "key \<noteq> NULL" "iv \<noteq> NULL"
    and "span inp (16 * k) \<inter> span out (16 * k) = {}" "span iv 16 \<inter> span out (16 * k) = {}"
    and "AES_CBC_decrypt_buffer st m out inp len key iv = (st', m')"
  shows "blocks m' out k = cbc_dec (InvCipher (KeyExpansion (RoundKey st) (rd m key 16))) (rd m iv 16) (blocks m inp k)"
proof -
  obtain iv' m1 o' i' where l: "decrypt_loop (KeyExpansion (RoundKey st) (rd m key 16)) iv m out inp 0 (16 * k) = (iv', m1, o', i')"
    using prod_cases4 by blast
  have "m' = m1"
    using assms(1,3-5,8) l by (auto simp: AES_CBC_decrypt_buffer_def set_params_def set_key_def)
  then show ?thesis using decrypt_loop_cbc[OF assms(2) _ assms(6,7) l] by simp
qed

text \<open>
  C21. \<^verbatim>\<open>AES_CBC_encrypt_buffer\<close> on a length that is a multiple of sixteen writes the cipher block chaining of
  the input under the expanded key, and \<^verbatim>\<open>AES_CBC_decrypt_buffer\<close> of that output with the same key and
  initial vector restores the input byte for byte, when the buffers, the key and the vector do not
  overlap.
\<close>

theorem cbc_round_trip:
  assumes "length (RoundKey st) = 176" "len mod 16 = 0" "key \<noteq> NULL" "iv \<noteq> NULL"
    and "span inp (unat len) \<inter> span out (unat len) = {}" "span out (unat len) \<inter> span dst (unat len) = {}"
    and "span iv 16 \<inter> (span inp (unat len) \<union> span out (unat len) \<union> span dst (unat len)) = {}"
    and "span key 16 \<inter> (span inp (unat len) \<union> span out (unat len)) = {}"
    and "AES_CBC_encrypt_buffer st m out inp len key iv = (st', m')"
    and "AES_CBC_decrypt_buffer st' m' dst out len key iv = (st'', m'')"
  shows "rd m'' dst (unat len) = rd m inp (unat len)
    \<and> rd m' out (unat len) = concat (cbc_enc (Cipher (KeyExpansion (RoundKey st) (rd m key 16))) (rd m iv 16) (blocks m inp (unat len div 16)))"
proof -
  define k where "k = unat len div 16"
  have n: "unat len = 16 * k" "16 * k \<le> 2 ^ 64" using len_blocks[OF assms(2)] by (simp_all add: k_def)
  let ?rk = "KeyExpansion (RoundKey st) (rd m key 16)"
  have a: "span inp (16 * k) \<inter> span out (16 * k) = {}" "span out (16 * k) \<inter> span dst (16 * k) = {}"
    "span iv 16 \<inter> span inp (16 * k) = {}" "span iv 16 \<inter> span out (16 * k) = {}" "span iv 16 \<inter> span dst (16 * k) = {}"
    "span key 16 \<inter> (span inp (16 * k) \<union> span out (16 * k)) = {}"
    using assms(5-8) by (auto simp: n)
  note e = encrypt_buffer_cbc[OF n assms(2-4) a(1,3,4) assms(9)]
  have "rd m' key 16 = rd m key 16" using a(6) by (intro rd_cong e(3)) auto
  moreover have "rd m' iv 16 = rd m iv 16" using a(3,4) by (intro rd_cong e(3)) auto
  moreover have "KeyExpansion ?rk (rd m key 16) = ?rk" using KeyExpansion_fresh(1)[OF KeyExpansion_fresh(2)] assms(1) by blast
  ultimately have "blocks m'' dst k = cbc_dec (InvCipher ?rk) (rd m iv 16) (cbc_enc (Cipher ?rk) (rd m iv 16) (blocks m inp k))"
    using decrypt_buffer_cbc[OF n assms(2-4) a(2,5) assms(10)] e(1,2) by simp
  also have "\<dots> = blocks m inp k" by (rule aes.cbc_dec_enc) (auto dest: blocks_length)
  finally show ?thesis using e(2) n by (simp add: rd_blocks)
qed

text \<open>A state before any key is set.\<close>

definition ex_aes :: aes_state where
  "ex_aes = \<lparr>RoundKey = replicate 176 0, Key = 0, Iv = 0\<rparr>"

theorem cbc_round_trip_witness:
  "\<exists>st' m' st'' m''. AES_CBC_encrypt_buffer ex_aes (\<lambda>a. ucast a) 0x2000 0x1000 32 0x4000 0x5000 = (st', m')
     \<and> AES_CBC_decrypt_buffer st' m' 0x3000 0x2000 32 0x4000 0x5000 = (st'', m'')
     \<and> rd m'' 0x3000 32 = rd (\<lambda>a. ucast a) 0x1000 32"
proof -
  obtain st' m' where e: "AES_CBC_encrypt_buffer ex_aes (\<lambda>a. ucast a) 0x2000 0x1000 32 0x4000 0x5000 = (st', m')"
    by (rule prod.exhaust)
  obtain st'' m'' where d: "AES_CBC_decrypt_buffer st' m' 0x3000 0x2000 32 0x4000 0x5000 = (st'', m'')"
    by (rule prod.exhaust)
  have a: "span 0x1000 32 \<inter> span 0x2000 32 = {}" "span 0x2000 32 \<inter> span 0x3000 32 = {}"
    "span 0x1000 32 \<inter> span 0x5000 16 = {}" "span 0x2000 32 \<inter> span 0x5000 16 = {}" "span 0x3000 32 \<inter> span 0x5000 16 = {}"
    "span 0x1000 32 \<inter> span 0x4000 16 = {}" "span 0x2000 32 \<inter> span 0x4000 16 = {}"
    by (rule span_apartI; simp)+
  have "rd m'' 0x3000 (unat (32 :: u32)) = rd (\<lambda>a. ucast a) 0x1000 (unat (32 :: u32))"
    using a by (intro conjunct1[OF cbc_round_trip[OF _ _ _ _ _ _ _ _ e d]]) (auto simp: ex_aes_def)
  then show ?thesis using e d by auto
qed

text \<open>
  \<^verbatim>\<open>AES_ECB_encrypt\<close> copies \<^verbatim>\<open>length\<close> bytes and encrypts sixteen: of a longer message every byte after the
  first block reaches the output in clear.
\<close>

theorem ecb_first_block_only:
  assumes "16 \<le> unat len" "span out (unat len) \<inter> span inp (unat len) = {}"
    and "AES_ECB_encrypt st m inp key out len = (st', m')"
  shows "rd m' out (unat len) = Cipher (RoundKey st') (rd m inp 16) @ drop 16 (rd m inp (unat len))"
proof -
  let ?n = "unat len"
  let ?P = "rd m inp ?n"
  have n: "?n \<le> 2 ^ 64" using unsigned_less[of len, where ?'a = nat] by simp
  have "snd (memcpy m out inp (ucast len)) = wr m out ?P" 
    using memcpy_apart[of out "ucast len" inp m] assms(2) n
    by (simp add: unsigned_ucast_eq take_bit_nat_eq_self unsigned_less[THEN order_less_le_trans])
  moreover have "rd (wr m out ?P) out 16 = rd m inp 16"
    using assms(1) n by (intro nth_equalityI) (auto simp: rd_def wr_read[unfolded One_nat_def])
  ultimately have m': "m' = wr (wr m out ?P) out (Cipher (RoundKey st') (rd m inp 16))"
    using assms(3) by (auto simp: AES_ECB_encrypt_def on_state_def Let_def)
  let ?C = "Cipher (RoundKey st') (rd m inp 16)"
  have "m' = wr m out (?C @ drop 16 ?P)"
    using assms(1) by (auto simp: m' wr_def fun_eq_iff nth_append)
  then show ?thesis using rd_wr[of "?C @ drop 16 ?P" m out] n assms(1) by simp
qed

theorem ecb_first_block_only_witness:
  "\<exists>st' m'. AES_ECB_encrypt ex_aes (\<lambda>a. ucast a) 0x1000 0x4000 0x2000 32 = (st', m')
     \<and> rd m' 0x2000 32 = Cipher (RoundKey st') (rd (\<lambda>a. ucast a) 0x1000 16) @ drop 16 (rd (\<lambda>a. ucast a) 0x1000 32)"
proof -
  obtain st' m' where e: "AES_ECB_encrypt ex_aes (\<lambda>a. ucast a) 0x1000 0x4000 0x2000 32 = (st', m')"
    by (rule prod.exhaust)
  have "span 0x1000 32 \<inter> span 0x2000 32 = {}" by (rule span_apartI; simp)
  then have "span 0x2000 32 \<inter> span 0x1000 32 = {}" by blast
  then show ?thesis using ecb_first_block_only[OF _ _ e] e by auto
qed

end
