(* ===== verification/SymbolDb.thy ===== *)
theory SymbolDb
  imports ByteMem
begin

text \<open>
  The kernel's table of resolvable symbols, \<^verbatim>\<open>kernel/src/symbol_db.c\<close>: three parallel arrays of addresses,
  with two candidate slots for a name, the first by FNV-1a and the second by MurmurHash3. Names, symbols
  and section headers stay in the memory of the modules; the table holds their addresses. The arrays
  are functions of the slot, which every operation takes modulo \<^verbatim>\<open>MAX_SYMBOL_CNT\<close>; diagnostics are left out.

  Shown: the table is a finite map from names to symbols (\<open>sym_map\<close>). \<^verbatim>\<open>symboldb_findfunc\<close> and
  \<^verbatim>\<open>symboldb_findmatch\<close> look a name up in it, and \<^verbatim>\<open>symboldb_add\<close> is the update \<open>map_add_symbol\<close>: a new name is
  entered, a weak symbol is replaced, a strong one stays; it panics when both slots are taken.
\<close>

section \<open>Symbols and sections in memory\<close>

text \<open>The fields of \<^verbatim>\<open>Elf64_Shdr\<close> and \<^verbatim>\<open>Elf64_Sym\<close> the table reads, at their offsets.\<close>

definition sh_addr :: "mem \<Rightarrow> addr \<Rightarrow> u64" where
  "sh_addr m s = ld64 m (s + 16)"

definition st_name :: "mem \<Rightarrow> addr \<Rightarrow> u32" where
  "st_name m y = ld32 m y"

definition st_info :: "mem \<Rightarrow> addr \<Rightarrow> u8" where
  "st_info m y = m (y + 4)"

definition ELF64_ST_BIND :: "u8 \<Rightarrow> u8" where
  "ELF64_ST_BIND i = drop_bit 4 i"

abbreviation (input) STB_WEAK :: u8 where
  "STB_WEAK \<equiv> 2"

text \<open>\<^verbatim>\<open>(char *)strhdr->sh_addr + sym->st_name\<close>\<close>

definition sym_str :: "mem \<Rightarrow> addr \<Rightarrow> addr \<Rightarrow> addr" where
  "sym_str m strhdr symbol = sh_addr m strhdr + ucast (st_name m symbol)"

section \<open>The table\<close>

abbreviation (input) MAX_SYMBOL_CNT :: u32 where
  "MAX_SYMBOL_CNT \<equiv> 65413"

record symboldb =
  symbol_e_offsets :: "u32 \<Rightarrow> u64"
  symbol_hdr_offsets :: "u32 \<Rightarrow> u64"
  symbol_strhdr_offsets :: "u32 \<Rightarrow> u64"
  symbol_cnt :: u32

text \<open>The three arrays come from \<^verbatim>\<open>malloc\<close>, whose results are not checked before they are cleared.\<close>

definition symboldb_init :: "addr \<times> addr \<times> addr \<Rightarrow> symboldb \<Rightarrow> symboldb res" where
  "symboldb_init arrays db =
     (case arrays of (e, h, s) \<Rightarrow>
        if e = NULL \<or> h = NULL \<or> s = NULL then Inl NullDeref
        else Inr (db\<lparr>symbol_e_offsets := (\<lambda>_. 0), symbol_hdr_offsets := (\<lambda>_. 0), symbol_strhdr_offsets := (\<lambda>_. 0)\<rparr>))"

text \<open>\<^verbatim>\<open>char\<close> is signed: it is sign-extended before the exclusive or.\<close>

definition hash :: "mem \<Rightarrow> addr \<Rightarrow> u64 \<Rightarrow> u32" where
  "hash m src src_len = fold (\<lambda>i h. (h XOR scast (m (src + of_nat i))) * 16777619) [0..<unat src_len] 2166136261"

text \<open>The mixing of a block, the step over a whole block, and the hash.\<close>

definition murmur_mix :: "u32 \<Rightarrow> u32" where
  "murmur_mix k =
     (let k = k * 0xcc9e2d51;
          k = push_bit 15 k OR drop_bit 17 k
      in k * 0x1b873593)"

definition murmur_word :: "u32 \<Rightarrow> u32 \<Rightarrow> u32" where
  "murmur_word h k =
     (let h = h XOR murmur_mix k;
          h = push_bit 13 h OR drop_bit 19 h
      in h * 5 + 0xe6546b64)"

definition murmur3_32 :: "mem \<Rightarrow> addr \<Rightarrow> u64 \<Rightarrow> u32 \<Rightarrow> u32" where
  "murmur3_32 m key len seed =
     (let n = unat (drop_bit 2 len);
          h = (if len > 3 then fold (\<lambda>i h. murmur_word h (ld32 m (key + of_nat (4 * i)))) [0..<n] seed else seed);
          key = (if len > 3 then key + of_nat (4 * n) else key);
          r = unat (len AND 3);
          h = (if len AND 3 \<noteq> 0 then
                 h XOR murmur_mix (fold (\<lambda>i k. push_bit 8 k OR scast (m (key + of_nat i))) (rev [0..<r]) 0)
               else h);
          h = h XOR ucast len;
          h = h XOR drop_bit 16 h;
          h = h * 0x85ebca6b;
          h = h XOR drop_bit 13 h;
          h = h * 0xc2b2ae35
      in h XOR drop_bit 16 h)"

text \<open>A loop over memory that never returns.\<close>

definition returns :: "'a option \<Rightarrow> 'a res" where
  "returns x = (case x of None \<Rightarrow> Inl Diverge | Some v \<Rightarrow> Inr v)"

text \<open>The three assignments that fill a slot.\<close>

definition set_entry :: "symboldb \<Rightarrow> u32 \<Rightarrow> addr \<Rightarrow> addr \<Rightarrow> addr \<Rightarrow> symboldb" where
  "set_entry db idx strhdr hdr symbol =
     db\<lparr>symbol_e_offsets := (symbol_e_offsets db)(idx := symbol),
        symbol_hdr_offsets := (symbol_hdr_offsets db)(idx := hdr),
        symbol_strhdr_offsets := (symbol_strhdr_offsets db)(idx := strhdr)\<rparr>"

text \<open>The name of the symbol in a slot.\<close>

definition ent_str :: "mem \<Rightarrow> symboldb \<Rightarrow> u32 \<Rightarrow> addr" where
  "ent_str m db idx = sym_str m (symbol_strhdr_offsets db idx) (symbol_e_offsets db idx)"

definition symboldb_addentry :: "mem \<Rightarrow> symboldb \<Rightarrow> u32 \<Rightarrow> addr \<Rightarrow> addr \<Rightarrow> addr \<Rightarrow> (int \<times> symboldb) res" where
  "symboldb_addentry m db idx strhdr hdr symbol =
     (if symbol_e_offsets db idx = 0 then Inr (0, set_entry db idx strhdr hdr symbol)
      else
        let n_sym = symbol_e_offsets db idx in
        bindE (returns (strcmp m (sym_str m strhdr symbol) (ent_str m db idx))) (\<lambda>c.
          if c \<noteq> 0 then Inr (- 1, db)
          else if ELF64_ST_BIND (st_info m n_sym) = STB_WEAK then Inr (0, set_entry db idx strhdr hdr symbol)
          else Inr (- 1, db)))"

text \<open>The out parameters are written exactly when the result is 0; \<open>None\<close> is the return value -1.\<close>

definition symboldb_entrymatch :: "mem \<Rightarrow> symboldb \<Rightarrow> u32 \<Rightarrow> addr \<Rightarrow> addr \<Rightarrow> (addr \<times> addr) option res" where
  "symboldb_entrymatch m db idx strhdr symbol =
     (if symbol_e_offsets db idx = 0 then Inr None
      else bindE (returns (strcmp m (ent_str m db idx) (sym_str m strhdr symbol))) (\<lambda>c.
        Inr (if c = 0 then Some (symbol_hdr_offsets db idx, symbol_e_offsets db idx) else None)))"

text \<open>The two slots of the string at an address.\<close>

definition idx_first :: "mem \<Rightarrow> addr \<Rightarrow> u32 res" where
  "idx_first m p = bindE (returns (strlen m p)) (\<lambda>n. Inr (hash m p n mod MAX_SYMBOL_CNT))"

definition idx_second :: "mem \<Rightarrow> addr \<Rightarrow> u32 res" where
  "idx_second m p =
     bindE (returns (strlen m p)) (\<lambda>n. Inr (murmur3_32 m p n (ucast (scast (m p) + n)) mod MAX_SYMBOL_CNT))"

definition symboldb_add :: "mem \<Rightarrow> symboldb \<Rightarrow> addr \<Rightarrow> addr \<Rightarrow> addr \<Rightarrow> (int \<times> symboldb) res" where
  "symboldb_add m db strhdr hdr symbol =
     (if symbol_cnt db = MAX_SYMBOL_CNT then Inl (Panic ''[Kernel] CRITICAL ERROR: Out of symbol cache space!'')
      else
        let p = sym_str m strhdr symbol in
        bindE (idx_first m p) (\<lambda>idx.
        bindE (symboldb_addentry m db idx strhdr hdr symbol) (\<lambda>(e, db).
        if e = 0 then Inr (0, db\<lparr>symbol_cnt := symbol_cnt db + 1\<rparr>)
        else
          bindE (idx_second m p) (\<lambda>idx.
          bindE (symboldb_addentry m db idx strhdr hdr symbol) (\<lambda>(e, db).
          if e = 0 then Inr (0, db\<lparr>symbol_cnt := symbol_cnt db + 1\<rparr>)
          else Inl (Panic ''[Kernel] CRITICAL ERROR: Could not store symbol.''))))))"

text \<open>The two identical probes of \<^verbatim>\<open>symboldb_findfunc\<close>.\<close>

definition findfunc_at :: "mem \<Rightarrow> symboldb \<Rightarrow> u32 \<Rightarrow> addr \<Rightarrow> (addr \<times> addr) option res" where
  "findfunc_at m db idx s =
     (if symbol_e_offsets db idx \<noteq> 0 then
        bindE (returns (strcmp m s (ent_str m db idx))) (\<lambda>c.
          Inr (if c = 0 then Some (symbol_hdr_offsets db idx, symbol_e_offsets db idx) else None))
      else Inr None)"

definition symboldb_findfunc :: "mem \<Rightarrow> symboldb \<Rightarrow> addr \<Rightarrow> addr \<Rightarrow> addr \<Rightarrow> (int \<times> (addr \<times> addr) option) res" where
  "symboldb_findfunc m db s r_hdr r_sym =
     (if s = NULL then Inr (- 1, None)
      else if r_hdr = NULL then Inr (- 1, None)
      else if r_sym = NULL then Inr (- 1, None)
      else
        bindE (idx_first m s) (\<lambda>idx. bindE (findfunc_at m db idx s) (\<lambda>r.
        if r \<noteq> None then Inr (0, r)
        else bindE (idx_second m s) (\<lambda>idx. bindE (findfunc_at m db idx s) (\<lambda>r.
        if r \<noteq> None then Inr (0, r) else Inr (- 1, None))))))"

definition symboldb_findmatch :: "mem \<Rightarrow> symboldb \<Rightarrow> addr \<Rightarrow> addr \<Rightarrow> (int \<times> (addr \<times> addr) option) res" where
  "symboldb_findmatch m db strhdr symbol =
     (if symbol_cnt db = 0 then Inr (- 1, None)
      else
        let p = sym_str m strhdr symbol in
        bindE (idx_first m p) (\<lambda>idx. bindE (symboldb_entrymatch m db idx strhdr symbol) (\<lambda>r.
        if r \<noteq> None then Inr (0, r)
        else bindE (idx_second m p) (\<lambda>idx. bindE (symboldb_entrymatch m db idx strhdr symbol) (\<lambda>r.
        if r \<noteq> None then Inr (0, r) else Inl (Panic ''[Kernel] CRITICAL ERROR: Could not find symbol.''))))))"

section \<open>Strings decide the slots\<close>

text \<open>The slots as functions of the name alone; the second is the hash of the name placed at address 0.\<close>

definition slot1 :: "u8 list \<Rightarrow> u32" where
  "slot1 s = fold (\<lambda>c h. (h XOR scast c) * 16777619) s 2166136261 mod MAX_SYMBOL_CNT"

definition str_mem :: "u8 list \<Rightarrow> mem" where
  "str_mem s = wr (\<lambda>_. 0) 0 s"

definition slot2 :: "u8 list \<Rightarrow> u32" where
  "slot2 s = murmur3_32 (str_mem s) 0 (of_nat (length s)) (ucast (scast (str_mem s 0) + (of_nat (length s) :: u64))) mod MAX_SYMBOL_CNT"

lemma cstr_fun: "cstr m p s \<Longrightarrow> cstr m p t \<Longrightarrow> s = t"
proof (induction s arbitrary: p t)
  case Nil
  then show ?case by (cases t) auto
next
  case (Cons c s)
  then show ?case by (cases t) auto
qed

lemma str_mem_cstr: "cstr m p s \<Longrightarrow> i \<le> length s \<Longrightarrow> str_mem s (of_nat i) = m (p + of_nat i)"
  using cstr_nth[of m p s i] cstr_end[of m p s] cstr_length[of m p s]
  by (cases "i = length s") (auto simp: str_mem_def wr_def unat_of_nat_64)

lemma fold_nth: "fold (\<lambda>i. f (xs ! i)) [0..<length xs] a = fold f xs a"
  using fold_map[of f "\<lambda>i. xs ! i" "[0..<length xs]"] map_nth[of xs] by (simp add: comp_def fun_eq_iff)

lemma idx_first_cstr: "cstr m p s \<Longrightarrow> p \<noteq> NULL \<Longrightarrow> idx_first m p = Inr (slot1 s)"
proof -
  assume s: "cstr m p s" "p \<noteq> NULL"
  have l: "unat (of_nat (length s) :: u64) = length s" using cstr_length[OF s(1)] by (simp add: unat_of_nat_64)
  have "fold (\<lambda>i h. (h XOR scast (m (p + of_nat i))) * 16777619) [0..<length s] 2166136261 =
      fold (\<lambda>i h. (h XOR scast (s ! i)) * 16777619) [0..<length s] (2166136261 :: u32)"
    using cstr_nth[OF s(1)] by (intro fold_cong) auto
  also have "\<dots> = fold (\<lambda>c h. (h XOR scast c) * 16777619) s 2166136261"
    using fold_nth[of "\<lambda>c h. (h XOR scast c) * 16777619 :: u32" s] by simp
  finally show ?thesis using strlen_cstr[OF s] by (simp add: idx_first_def returns_def hash_def slot1_def l bindE_def)
qed

lemma murmur_cong:
  assumes "\<And>i. i < unat len \<Longrightarrow> m (p + of_nat i) = m' (q + of_nat i)"
  shows "murmur3_32 m p len seed = murmur3_32 m' q len seed"
proof -
  have n: "4 * unat (drop_bit 2 len) + unat (len AND 3) = unat len"
  proof -
    have "len AND 3 = take_bit 2 len" by (simp add: take_bit_eq_mask mask_eq_exp_minus_1)
    moreover have "unat (take_bit 2 len) = unat len mod 4"
      by (simp only: unsigned_take_bit_eq) (simp add: take_bit_eq_mod)
    ultimately have "unat (len AND 3) = unat len mod 4" by (simp only:)
    moreover have "unat (drop_bit 2 len) = unat len div 4" by (simp only: unat_drop_bit_eq) (simp add: drop_bit_eq_div)
    ultimately show ?thesis by simp
  qed
  have w: "ld32 m (p + of_nat (4 * i)) = ld32 m' (q + of_nat (4 * i))" if "i < unat (drop_bit 2 len)" for i
  proof -
    have "m (p + of_nat (4 * i) + of_nat j) = m' (q + of_nat (4 * i) + of_nat j)" if "j < 4" for j
      using assms[of "4 * i + j"] that n \<open>i < unat (drop_bit 2 len)\<close> by (simp add: add.assoc)
    then have "rd m (p + of_nat (4 * i)) 4 = rd m' (q + of_nat (4 * i)) 4" by (simp add: rd_def)
    then show ?thesis by (simp add: ld32_def)
  qed
  have z: "unat (drop_bit 2 len) = 0" if "\<not> len > 3"
    using that n by (auto simp: word_less_nat_alt)
  have b: "m (p + of_nat (4 * unat (drop_bit 2 len)) + of_nat i) = m' (q + of_nat (4 * unat (drop_bit 2 len)) + of_nat i)"
    if "i < unat (len AND 3)" for i
    using assms[of "4 * unat (drop_bit 2 len) + i"] that n by (simp add: add.assoc)
  have f: "fold (\<lambda>i h. murmur_word h (ld32 m (p + of_nat (4 * i)))) [0..<unat (drop_bit 2 len)] seed =
      fold (\<lambda>i h. murmur_word h (ld32 m' (q + of_nat (4 * i)))) [0..<unat (drop_bit 2 len)] seed"
    using w by (intro fold_cong) auto
  have g: "fold (\<lambda>i k. push_bit 8 k OR scast (m (p + of_nat (4 * unat (drop_bit 2 len)) + of_nat i))) (rev [0..<unat (len AND 3)]) (0::u32) =
      fold (\<lambda>i k. push_bit 8 k OR scast (m' (q + of_nat (4 * unat (drop_bit 2 len)) + of_nat i))) (rev [0..<unat (len AND 3)]) 0"
    using b by (intro fold_cong) auto
  have p: "(if len > 3 then r + of_nat (4 * unat (drop_bit 2 len)) else r) = r + of_nat (4 * unat (drop_bit 2 len))" for r :: addr
  proof (cases "len > 3")
    case False
    show ?thesis using False by (simp only: z[OF False] if_False) simp
  qed (simp only: if_True)
  show ?thesis unfolding murmur3_32_def Let_def p f g ..
qed


lemma idx_second_cstr: 
  assumes s: "cstr m p s" "p \<noteq> NULL"
  shows "idx_second m p = Inr (slot2 s)"
proof -
  have l: "unat (of_nat (length s) :: u64) = length s" using cstr_length[OF s(1)] by (simp add: unat_of_nat_64)
  have "murmur3_32 m p (of_nat (length s)) d = murmur3_32 (str_mem s) 0 (of_nat (length s)) d" for d
    using str_mem_cstr[OF s(1)] by (intro murmur_cong) (simp add: l)
  then show ?thesis using strlen_cstr[OF s] str_mem_cstr[OF s(1), of 0]
    by (simp add: idx_second_def returns_def slot2_def bindE_def)
qed

section \<open>The map\<close>

text \<open>The map the table stands for. A name in its second slot was turned away from the first, which stays taken.\<close>

definition holds :: "mem \<Rightarrow> symboldb \<Rightarrow> u32 \<Rightarrow> u8 list \<Rightarrow> bool" where
  "holds m db idx s \<longleftrightarrow> symbol_e_offsets db idx \<noteq> 0 \<and> cstr m (ent_str m db idx) s"

definition db_ok :: "mem \<Rightarrow> symboldb \<Rightarrow> bool" where
  "db_ok m db \<longleftrightarrow> (\<forall>idx. symbol_e_offsets db idx \<noteq> 0 \<longrightarrow>
     (\<exists>s. cstr m (ent_str m db idx) s \<and> (idx = slot1 s \<or> idx = slot2 s \<and> symbol_e_offsets db (slot1 s) \<noteq> 0)))"

definition sym_map :: "mem \<Rightarrow> symboldb \<Rightarrow> u8 list \<Rightarrow> (addr \<times> addr) option" where
  "sym_map m db s =
     (let entry = \<lambda>idx. (symbol_hdr_offsets db idx, symbol_e_offsets db idx) in
      if holds m db (slot1 s) s then Some (entry (slot1 s))
      else if holds m db (slot2 s) s then Some (entry (slot2 s))
      else None)"

definition weak :: "mem \<Rightarrow> addr \<Rightarrow> bool" where
  "weak m symbol \<longleftrightarrow> ELF64_ST_BIND (st_info m symbol) = STB_WEAK"

lemma strcmp_slot:
  assumes "db_ok m db" "symbol_e_offsets db idx \<noteq> 0" "cstr m p s"
  shows "\<exists>r. strcmp m p (ent_str m db idx) = Some r \<and> (r = 0 \<longleftrightarrow> holds m db idx s)"
    and "\<exists>r. strcmp m (ent_str m db idx) p = Some r \<and> (r = 0 \<longleftrightarrow> holds m db idx s)"
proof -
  obtain t where t: "cstr m (ent_str m db idx) t" using assms(1,2) by (auto simp: db_ok_def)
  then have "holds m db idx s \<longleftrightarrow> s = t" using assms(2) by (auto simp: holds_def dest: cstr_fun)
  then show "\<exists>r. strcmp m p (ent_str m db idx) = Some r \<and> (r = 0 \<longleftrightarrow> holds m db idx s)"
    "\<exists>r. strcmp m (ent_str m db idx) p = Some r \<and> (r = 0 \<longleftrightarrow> holds m db idx s)"
    using strcmp_cstr[OF assms(3) t] strcmp_cstr[OF t assms(3)] by auto
qed

lemma findfunc_at_value:
  assumes "db_ok m db" "cstr m p s"
  shows "findfunc_at m db idx p = Inr (if holds m db idx s then Some (symbol_hdr_offsets db idx, symbol_e_offsets db idx) else None)"
  using strcmp_slot(1)[OF assms(1) _ assms(2), of idx]
  by (auto simp: findfunc_at_def returns_def bindE_def holds_def)

lemma entrymatch_value:
  assumes "db_ok m db" "cstr m (sym_str m strhdr symbol) s"
  shows "symboldb_entrymatch m db idx strhdr symbol =
    Inr (if holds m db idx s then Some (symbol_hdr_offsets db idx, symbol_e_offsets db idx) else None)"
  using strcmp_slot(2)[OF assms(1) _ assms(2), of idx]
  by (auto simp: symboldb_entrymatch_def returns_def bindE_def holds_def)

lemma addentry_value:
  assumes "db_ok m db" "cstr m (sym_str m strhdr symbol) s"
  shows "symboldb_addentry m db idx strhdr hdr symbol =
    Inr (if symbol_e_offsets db idx = 0 \<or> holds m db idx s \<and> weak m (symbol_e_offsets db idx)
         then (0, set_entry db idx strhdr hdr symbol) else (- 1, db))"
  using strcmp_slot(1)[OF assms(1) _ assms(2), of idx]
  by (auto simp: symboldb_addentry_def returns_def bindE_def holds_def weak_def)

lemma findfunc_map:
  assumes "db_ok m db" "cstr m p s" "p \<noteq> NULL" "r_hdr \<noteq> NULL" "r_sym \<noteq> NULL"
  shows "symboldb_findfunc m db p r_hdr r_sym = Inr (case sym_map m db s of None \<Rightarrow> (- 1, None) | Some r \<Rightarrow> (0, Some r))"
  using assms
  by (simp add: symboldb_findfunc_def idx_first_cstr idx_second_cstr findfunc_at_value sym_map_def bindE_def)

lemma findmatch_map:
  assumes "db_ok m db" "cstr m (sym_str m strhdr symbol) s" "sym_str m strhdr symbol \<noteq> NULL" "symbol_cnt db \<noteq> 0"
  shows "symboldb_findmatch m db strhdr symbol = (case sym_map m db s of
    None \<Rightarrow> Inl (Panic ''[Kernel] CRITICAL ERROR: Could not find symbol.'') | Some r \<Rightarrow> Inr (0, Some r))"
  using assms
  by (simp add: symboldb_findmatch_def idx_first_cstr idx_second_cstr entrymatch_value sym_map_def bindE_def Let_def)

text \<open>Storing at a slot that is free or holds the same name, the other slot of the name being taken when it is the second.\<close>

lemma set_entry_holds:
  assumes "db_ok m db" "cstr m (sym_str m strhdr symbol) s" "symbol \<noteq> NULL"
    and "symbol_e_offsets db idx = 0 \<or> holds m db idx s"
  shows "holds m (set_entry db idx strhdr hdr symbol) i t \<longleftrightarrow> (if i = idx then t = s else holds m db i t)"
  using assms cstr_fun[OF assms(2), of t]
  by (auto simp: holds_def set_entry_def ent_str_def)

lemma set_entry_ok:
  assumes "db_ok m db" "cstr m (sym_str m strhdr symbol) s" "symbol \<noteq> NULL"
    and "idx = slot1 s \<or> idx = slot2 s \<and> symbol_e_offsets db (slot1 s) \<noteq> 0"
  shows "db_ok m (set_entry db idx strhdr hdr symbol)"
  using assms unfolding db_ok_def by (auto simp: set_entry_def ent_str_def)

lemma set_entry_map:
  assumes "db_ok m db" "cstr m (sym_str m strhdr symbol) s" "symbol \<noteq> NULL"
    and "symbol_e_offsets db idx = 0 \<or> holds m db idx s"
    and "idx = slot1 s \<or> idx = slot2 s \<and> \<not> holds m db (slot1 s) s"
  shows "sym_map m (set_entry db idx strhdr hdr symbol) = (sym_map m db)(s \<mapsto> (hdr, symbol))"
proof
  fix t
  have e: "\<not> holds m db idx t" if "t \<noteq> s"
    using assms(4) that by (auto simp: holds_def dest: cstr_fun)
  show "sym_map m (set_entry db idx strhdr hdr symbol) t = ((sym_map m db)(s \<mapsto> (hdr, symbol))) t"
    using assms(5) e unfolding sym_map_def Let_def set_entry_holds[OF assms(1-4)]
    by (auto simp: set_entry_def)
qed

lemma set_entry_second_map:
  assumes "db_ok m db" "cstr m (sym_str m strhdr symbol) s" "symbol \<noteq> NULL"
    and "symbol_e_offsets db (slot2 s) = 0 \<or> holds m db (slot2 s) s" "holds m db (slot1 s) s" "slot1 s \<noteq> slot2 s"
  shows "sym_map m (set_entry db (slot2 s) strhdr hdr symbol) = sym_map m db"
proof
  fix t
  have e: "\<not> holds m db (slot2 s) t" if "t \<noteq> s"
    using assms(4) that by (auto simp: holds_def dest: cstr_fun)
  show "sym_map m (set_entry db (slot2 s) strhdr hdr symbol) t = sym_map m db t"
    using assms(5,6) e unfolding sym_map_def Let_def set_entry_holds[OF assms(1-4)]
    by (auto simp: set_entry_def)
qed


lemma holds_nonempty: "holds m db idx s \<Longrightarrow> symbol_e_offsets db idx \<noteq> 0"
  by (simp add: holds_def)

lemma free_first: "db_ok m db \<Longrightarrow> symbol_e_offsets db (slot1 s) = 0 \<Longrightarrow> \<not> holds m db idx s"
  unfolding db_ok_def holds_def by (metis cstr_fun)

lemma cnt_irrelevant [simp]:
  "db_ok m (db\<lparr>symbol_cnt := c\<rparr>) = db_ok m db" "sym_map m (db\<lparr>symbol_cnt := c\<rparr>) = sym_map m db"
  by (simp_all add: db_ok_def sym_map_def holds_def ent_str_def fun_eq_iff)

lemma set_entry_cnt [simp]: "symbol_cnt (set_entry db idx strhdr hdr symbol) = symbol_cnt db"
  by (simp add: set_entry_def)

text \<open>The abstract operation.\<close>

definition map_add_symbol :: "mem \<Rightarrow> (u8 list \<rightharpoonup> addr \<times> addr) \<Rightarrow> u8 list \<Rightarrow> addr \<times> addr \<Rightarrow> (u8 list \<rightharpoonup> addr \<times> addr)" where
  "map_add_symbol m f s new = (case f s of
     None \<Rightarrow> f(s \<mapsto> new)
   | Some (_, old) \<Rightarrow> if weak m old then f(s \<mapsto> new) else f)"

lemma symboldb_add_map:
  assumes ok: "db_ok m db" and s: "cstr m (sym_str m strhdr symbol) s" and p: "sym_str m strhdr symbol \<noteq> NULL"
    and y: "symbol \<noteq> NULL" and c: "symbol_cnt db \<noteq> MAX_SYMBOL_CNT"
  shows "case symboldb_add m db strhdr hdr symbol of
      Inr (e, db') \<Rightarrow> e = 0 \<and> db_ok m db' \<and> symbol_cnt db' = symbol_cnt db + 1 \<and>
        sym_map m db' = map_add_symbol m (sym_map m db) s (hdr, symbol)
    | Inl f \<Rightarrow> f = Panic ''[Kernel] CRITICAL ERROR: Could not store symbol.'' \<and>
        symbol_e_offsets db (slot1 s) \<noteq> 0 \<and> symbol_e_offsets db (slot2 s) \<noteq> 0 \<and>
        (\<forall>h old. sym_map m db s = Some (h, old) \<longrightarrow> \<not> weak m old)"
proof -
  let ?take = "\<lambda>idx. symbol_e_offsets db idx = 0 \<or> holds m db idx s \<and> weak m (symbol_e_offsets db idx)"
  let ?put = "\<lambda>idx. (set_entry db idx strhdr hdr symbol)\<lparr>symbol_cnt := symbol_cnt db + 1\<rparr>"
  have add: "symboldb_add m db strhdr hdr symbol =
      (if ?take (slot1 s) then Inr (0, ?put (slot1 s)) else if ?take (slot2 s) then Inr (0, ?put (slot2 s))
       else Inl (Panic ''[Kernel] CRITICAL ERROR: Could not store symbol.''))"
    using c by (simp add: symboldb_add_def idx_first_cstr[OF s p] idx_second_cstr[OF s p] addentry_value[OF ok s] bindE_def Let_def)
  consider (first) "?take (slot1 s)" | (second) "\<not> ?take (slot1 s)" "?take (slot2 s)" "\<not> holds m db (slot1 s) s"
    | (dup) "\<not> ?take (slot1 s)" "?take (slot2 s)" "holds m db (slot1 s) s" | (none) "\<not> ?take (slot1 s)" "\<not> ?take (slot2 s)"
    by blast
  then show ?thesis
  proof cases
    case first
    then have "map_add_symbol m (sym_map m db) s (hdr, symbol) = (sym_map m db)(s \<mapsto> (hdr, symbol))"
      using free_first[OF ok, of s] by (auto simp: map_add_symbol_def sym_map_def)
    then show ?thesis using first set_entry_map[OF ok s y, of "slot1 s" hdr] set_entry_ok[OF ok s y, of "slot1 s" hdr]
      by (auto simp: add)
  next
    case second
    then have "map_add_symbol m (sym_map m db) s (hdr, symbol) = (sym_map m db)(s \<mapsto> (hdr, symbol))"
      by (auto simp: map_add_symbol_def sym_map_def dest: holds_nonempty)
    then show ?thesis using second set_entry_map[OF ok s y, of "slot2 s" hdr] set_entry_ok[OF ok s y, of "slot2 s" hdr]
      by (auto simp: add)
  next
    case dup
    then have "map_add_symbol m (sym_map m db) s (hdr, symbol) = sym_map m db" "slot1 s \<noteq> slot2 s"
      by (auto simp: map_add_symbol_def sym_map_def)
    then show ?thesis using dup set_entry_second_map[OF ok s y, of hdr] set_entry_ok[OF ok s y, of "slot2 s" hdr]
      by (auto simp: add)
  next
    case none
    then show ?thesis by (auto simp: add sym_map_def split: if_splits)
  qed
qed


text \<open>A memory with one symbol, named \<^verbatim>\<open>f\<close>, and the table after \<^verbatim>\<open>symboldb_init\<close>.\<close>

definition ex_sym_mem :: mem where
  "ex_sym_mem = (\<lambda>_. 0)(0x111 := 4, 0x400 := 102)"

definition ex_db :: symboldb where
  "ex_db = \<lparr>symbol_e_offsets = (\<lambda>_. 0), symbol_hdr_offsets = (\<lambda>_. 0), symbol_strhdr_offsets = (\<lambda>_. 0), symbol_cnt = 0\<rparr>"

lemma init_ok:
  "e \<noteq> NULL \<Longrightarrow> h \<noteq> NULL \<Longrightarrow> s \<noteq> NULL \<Longrightarrow> \<exists>db'. symboldb_init (e, h, s) db = Inr db' \<and> db_ok m db' \<and> sym_map m db' = Map.empty"
  by (simp add: symboldb_init_def db_ok_def sym_map_def holds_def fun_eq_iff)

lemma ex_db_ok: "db_ok m ex_db" "sym_map m ex_db = Map.empty"
  by (simp_all add: ex_db_def db_ok_def sym_map_def holds_def fun_eq_iff)

lemma ex_db_cnt: "symbol_cnt ex_db = 0" "symbol_e_offsets ex_db = (\<lambda>_. 0)"
  by (simp_all add: ex_db_def)

lemma ex_sym_str: "sym_str ex_sym_mem 0x100 0x200 = 0x400"
  by code_simp


text \<open>A second strong definition of a name whose other slot is free is accepted, reported as stored, and
  never found.\<close>

theorem duplicate_strong_accepted:
  assumes "db_ok m db" "cstr m (sym_str m strhdr symbol) s" "sym_str m strhdr symbol \<noteq> NULL" "symbol \<noteq> NULL"
    and "symbol_cnt db \<noteq> MAX_SYMBOL_CNT" "sym_map m db s = Some (h, old)" "\<not> weak m old" "symbol_e_offsets db (slot2 s) = 0"
  shows "\<exists>db'. symboldb_add m db strhdr hdr symbol = Inr (0, db') \<and> sym_map m db' = sym_map m db"
  using symboldb_add_map[OF assms(1-5), of hdr] assms(6-8)
  by (auto simp: map_add_symbol_def split: sum.splits)

end
