(* ===== verification/Initrd.thy ===== *)
theory Initrd
  imports ByteMem BootInfo
begin

text \<open>
  The initial ramdisk, \<^verbatim>\<open>kernel/src/initrd.c\<close>: a tar archive in memory, searched for a file by walking its
  headers. The walk ends at a header whose name is empty; an archive without one makes it run on, which is
  the value \<open>None\<close>.

  Shown: in an archive that starts at a multiple of 512 the search returns the place and the size of the
  first file of that name, and fails exactly when there is none.
\<close>

section \<open>Operations\<close>

text \<open>One digit of the loop, which runs from the last digit to the first. \<^verbatim>\<open>char\<close> is signed.\<close>

definition size_step :: "mem \<Rightarrow> addr \<Rightarrow> nat \<Rightarrow> u32 \<times> u32 \<Rightarrow> u32 \<times> u32" where
  "size_step m inp j = (\<lambda>(size, cnt). (size + word_of_int (sint (m (inp + of_nat (j - 1))) - 48) * cnt, cnt * 8))"

definition getsize :: "mem \<Rightarrow> addr \<Rightarrow> u32" where
  "getsize m inp = fst (fold (size_step m inp) (rev [1..<12]) (0, 1))"

text \<open>The step to the next header, in the loop of \<^verbatim>\<open>Initrd_GetFile\<close>; the size field is at offset 124.\<close>

definition next_entry :: "mem \<Rightarrow> addr \<Rightarrow> addr" where
  "next_entry m entry =
     (let entry = entry + 512 + ucast (getsize m (entry + 124))
      in if entry mod 512 \<noteq> 0 then entry + (512 - entry mod 512) else entry)"

text \<open>The loop of \<^verbatim>\<open>Initrd_GetFile\<close>; the two lengths it computes with \<^verbatim>\<open>strnlen\<close> are not used.\<close>

partial_function (option) tar_walk :: "mem \<Rightarrow> addr \<Rightarrow> addr \<Rightarrow> (addr \<times> u64) option" where
  "tar_walk m file file_entry =
     (if m file_entry \<noteq> 0 then
        Option.bind (strcmp m file_entry file) (\<lambda>c.
          if c = 0 then Some (file_entry + 512, ucast (getsize m (file_entry + 124)))
          else tar_walk m file (next_entry m file_entry))
      else Some (NULL, 0))"

text \<open>The out parameters hold \<open>loc\<close> and \<open>sz\<close> before the call.\<close>

definition Initrd_GetFile :: "mem \<Rightarrow> CardinalBootInfo \<Rightarrow> addr \<Rightarrow> addr \<Rightarrow> u64 \<Rightarrow> (bool \<times> addr \<times> u64) option" where
  "Initrd_GetFile m bootInfo file loc sz =
     (if InitrdStartAddress bootInfo = 0 \<or> InitrdLength bootInfo = 0 then Some (False, loc, sz)
      else Option.bind (tar_walk m file (InitrdStartAddress bootInfo)) (\<lambda>(loc, sz).
        Some (loc \<noteq> NULL, loc, sz)))"

section \<open>Archives\<close>

text \<open>The eleven octal digits of the size field.\<close>

definition octal :: "nat \<Rightarrow> u8 list" where
  "octal n = map (\<lambda>i. 48 + of_nat (n div 8 ^ (10 - i) mod 8)) [0..<11]"

text \<open>The room a file of \<open>n\<close> bytes takes.\<close>

definition blocks512 :: "nat \<Rightarrow> nat" where
  "blocks512 n = (n + 511) div 512 * 512"

text \<open>An archive of named files at an address, with its end marker; each file lies below the end of the address space.\<close>

fun tar_at :: "mem \<Rightarrow> addr \<Rightarrow> (u8 list \<times> u8 list) list \<Rightarrow> bool" where
  "tar_at m p [] \<longleftrightarrow> m p = 0"
| "tar_at m p ((name, dat) # fs) \<longleftrightarrow>
     cstr m p name \<and> name \<noteq> [] \<and> rd m (p + 124) 11 = octal (length dat) \<and> rd m (p + 512) (length dat) = dat \<and>
     length dat < 2 ^ 32 \<and> unat p + 512 + blocks512 (length dat) < 2 ^ 64 \<and>
     tar_at m (p + of_nat (512 + blocks512 (length dat))) fs"

text \<open>The place and contents of the first file of a name.\<close>

fun tar_find :: "addr \<Rightarrow> (u8 list \<times> u8 list) list \<Rightarrow> u8 list \<Rightarrow> (addr \<times> u8 list) option" where
  "tar_find p [] f = None"
| "tar_find p ((name, dat) # fs) f =
     (if name = f then Some (p + 512, dat) else tar_find (p + of_nat (512 + blocks512 (length dat))) fs f)"

lemma size_step_digit:
  assumes "m (q + of_nat (j - 1)) = 48 + of_nat d" "d < 8"
  shows "size_step m q j (sz, cnt) = (sz + of_nat d * cnt, cnt * 8)"
proof -
  have "sint (48 + of_nat d :: u8) - 48 = int d" using assms(2) by (auto simp: less_Suc_eq numeral_eq_Suc)
  then show ?thesis by (simp only: size_step_def assms(1) prod.case of_int_of_nat_eq)
qed

lemma getsize_fold:
  assumes "\<And>i. i < 11 \<Longrightarrow> m (q + of_nat i) = 48 + of_nat (n div 8 ^ (10 - i) mod 8)" "k \<le> 11"
  shows "fold (size_step m q) (map (\<lambda>i. 11 - i) [0..<k]) (0, 1) = (of_nat (n mod 8 ^ k), 8 ^ k)"
  using assms(2)
proof (induction k)
  case (Suc k)
  define d where "d = n div 8 ^ k mod 8"
  have "m (q + of_nat (11 - k - 1)) = 48 + of_nat d" using assms(1)[of "10 - k"] Suc.prems by (simp add: d_def)
  moreover have "n mod 8 ^ Suc k = n mod 8 ^ k + d * 8 ^ k"
    using mod_mult2_eq[of n "8 ^ k" 8] by (simp add: d_def mult.commute)
  ultimately show ?case using Suc size_step_digit[of m q "11 - k" d] by (simp add: d_def mult.commute)
qed simp

lemma getsize_octal:
  assumes "rd m q 11 = octal n" "n < 8 ^ 11"
  shows "getsize m q = of_nat n"
proof -
  have r: "rev [1..<12] = map (\<lambda>i. 11 - i) [0..<11]" by code_simp
  have "m (q + of_nat i) = 48 + of_nat (n div 8 ^ (10 - i) mod 8)" if "i < 11" for i
    using arg_cong[OF assms(1), of "\<lambda>xs. xs ! i"] that by (simp add: rd_def octal_def)
  from getsize_fold[OF this, of 11] have "fst (fold (size_step m q) (rev [1..<12]) (0, 1)) = of_nat (n mod 8 ^ 11)"
    unfolding r by simp
  then show ?thesis unfolding mod_less[OF assms(2)] getsize_def .
qed

lemma blocks512_eq: "blocks512 n = n + (if n mod 512 = 0 then 0 else 512 - n mod 512)"
proof -
  define q r where "q = n div 512" "r = n mod 512"
  have n: "n = r + 512 * q" "r < 512" by (simp_all add: q_r_def)
  have "(n + 511) div 512 = q + (r + 511) div 512" by (simp add: n(1) add.commute add.left_commute)
  then have "(n + 511) div 512 = q + (if r = 0 then 0 else 1)" using n(2) by (auto simp: div_if)
  then show ?thesis using n by (simp add: blocks512_def)
qed

lemma blocks512: "blocks512 n mod 512 = 0" "n \<le> blocks512 n" "n mod 512 = 0 \<Longrightarrow> blocks512 n = n"
  "n mod 512 \<noteq> 0 \<Longrightarrow> blocks512 n = n + (512 - n mod 512)"
  by (simp add: blocks512_def) (simp_all add: blocks512_eq)

lemma next_entry_tar:
  assumes "rd m (p + 124) 11 = octal n" "n < 2 ^ 32" "unat p mod 512 = 0" "unat p + 512 + blocks512 n < 2 ^ 64"
  shows "next_entry m p = p + of_nat (512 + blocks512 n)"
    and "unat (p + of_nat (512 + blocks512 n)) mod 512 = 0"
proof -
  have u: "unat (p + of_nat k) = unat p + k" if "unat p + k < 2 ^ 64" for k
    using that by (simp add: unat_add_lem[THEN iffD1] unat_of_nat_64)
  have g: "ucast (getsize m (p + 124)) = (of_nat n :: u64)"
    using getsize_octal[OF assms(1)] assms(2) by (simp add: ucast_eq unsigned_of_nat take_bit_nat_eq_self)
  have e: "p + 512 + of_nat n = p + of_nat (512 + n)" by simp
  have un: "unat (p + of_nat (512 + n)) = unat p + 512 + n" using u[of "512 + n"] assms(4) blocks512(2)[of n] by simp
  then have "unat ((p + of_nat (512 + n)) mod 512) = n mod 512"
    using assms(3) by (simp only: unat_mod_distrib) (simp add: mod_add_left_eq[symmetric])
  then have md: "(p + of_nat (512 + n)) mod 512 = of_nat (n mod 512)" by (metis of_nat_unat ucast_id)
  show "next_entry m p = p + of_nat (512 + blocks512 n)"
  proof (cases "n mod 512 = 0")
    case True
    then show ?thesis unfolding next_entry_def Let_def g e md by (simp add: blocks512(3))
  next
    case False
    have "n mod 512 < 2 ^ 64" by (rule less_trans[OF mod_less_divisor]) simp_all
    then have "of_nat (n mod 512) \<noteq> (0 :: u64)" using False unat_of_nat_64[of "n mod 512"] by (metis unat_0)
    moreover have "p + of_nat (512 + n) + (512 - of_nat (n mod 512)) = p + of_nat (512 + blocks512 n)"
      using blocks512(4)[OF False] by (simp add: of_nat_diff)
    ultimately show ?thesis unfolding next_entry_def Let_def g e md by (simp only: if_True not_False_eq_True)
  qed
  show "unat (p + of_nat (512 + blocks512 n)) mod 512 = 0"
    using u[of "512 + blocks512 n"] assms(3,4) blocks512(1)[of n] by (simp add: mod_add_eq[symmetric])
qed


lemma tar_walk_finds:
  "tar_at m p fs \<Longrightarrow> unat p mod 512 = 0 \<Longrightarrow> cstr m file f \<Longrightarrow>
   tar_walk m file p = Some (case tar_find p fs f of None \<Rightarrow> (NULL, 0) | Some (loc, dat) \<Rightarrow> (loc, of_nat (length dat)))"
proof (induction p fs f arbitrary: rule: tar_find.induct)
  case (1 p f)
  then show ?case by (subst tar_walk.simps) simp
next
  case (2 p name dat fs f)
  have n: "m p \<noteq> 0" using 2 by (cases name) auto
  have c: "\<exists>r. strcmp m p file = Some r \<and> (r = 0 \<longleftrightarrow> name = f)" using 2 strcmp_cstr[of m p name _ f] by auto
  have g: "ucast (getsize m (p + 124)) = (of_nat (length dat) :: u64)"
    using getsize_octal[of m "p + 124" "length dat"] 2 by (simp add: ucast_eq unsigned_of_nat take_bit_nat_eq_self)
  have e: "next_entry m p = p + of_nat (512 + blocks512 (length dat))"
      "unat (p + of_nat (512 + blocks512 (length dat))) mod 512 = 0"
    using next_entry_tar[of m p "length dat"] 2 by simp_all
  show ?case
  proof (cases "name = f")
    case True
    then show ?thesis using c g n by (subst tar_walk.simps) auto
  next
    case False
    then have "tar_walk m file p = tar_walk m file (next_entry m p)" using c n by (subst tar_walk.simps) auto
    then show ?thesis using 2 False e by simp
  qed
qed

lemma tar_find_at: "tar_at m p fs \<Longrightarrow> tar_find p fs f = Some (loc, dat) \<Longrightarrow> rd m loc (length dat) = dat \<and> loc \<noteq> NULL"
proof (induction p fs f rule: tar_find.induct)
  case (2 p name dat' fs f)
  have "p + 512 \<noteq> 0" using 2(2) unat_add_lem[of p 512] by (auto simp: unat_eq_0)
  then show ?case using 2 by (auto split: if_splits)
qed simp

lemma getfile_found:
  assumes "tar_at m (InitrdStartAddress bi) fs" "unat (InitrdStartAddress bi) mod 512 = 0"
    and "InitrdStartAddress bi \<noteq> 0" "InitrdLength bi \<noteq> 0" "cstr m file f"
  shows "Initrd_GetFile m bi file loc sz = Some (case tar_find (InitrdStartAddress bi) fs f of
    None \<Rightarrow> (False, NULL, 0) | Some (l, dat) \<Rightarrow> (True, l, of_nat (length dat)))"
  using tar_walk_finds[OF assms(1,2,5)] assms(3,4) tar_find_at[OF assms(1)]
  by (auto simp: Initrd_GetFile_def split: option.splits)

text \<open>
  C20. \<^verbatim>\<open>Initrd_GetFile\<close> on a tar archive at a multiple of 512 always returns; it finds the first file with the name it
  is given, at an address where that file's bytes are and with their number as the size, and reports
  failure when the archive has no such file.
\<close>

theorem initrd_finds_file:
  assumes "tar_at m (InitrdStartAddress bi) fs" "unat (InitrdStartAddress bi) mod 512 = 0"
    and "InitrdStartAddress bi \<noteq> 0" "InitrdLength bi \<noteq> 0" "cstr m file f"
  shows "case map_of fs f of
      None \<Rightarrow> Initrd_GetFile m bi file loc sz = Some (False, NULL, 0)
    | Some dat \<Rightarrow> \<exists>loc'. Initrd_GetFile m bi file loc sz = Some (True, loc', of_nat (length dat)) \<and> rd m loc' (length dat) = dat"
proof -
  have f: "map_of fs f = map_option snd (tar_find p fs f)" for p
    by (induction p fs f rule: tar_find.induct) auto
  show ?thesis using getfile_found[OF assms] tar_find_at[OF assms(1)]
    by (auto simp: f[of "InitrdStartAddress bi"] split: option.splits)
qed

text \<open>An archive of two files where \<^verbatim>\<open>ex_bootinfo\<close> has its ramdisk, and the name of the second at 256.\<close>

definition ex_tar_mem :: mem where
  "ex_tar_mem = (\<lambda>a. if 0x807c \<le> a \<and> a < 0x8086 \<or> 0x847c \<le> a \<and> a < 0x8486 then 48 else 0)
     (0x8000 := 97, 0x8086 := 50, 0x8200 := 104, 0x8201 := 105,
      0x8400 := 98, 0x8486 := 51, 0x8600 := 1, 0x8601 := 2, 0x8602 := 3, 0x100 := 98)"

lemma ex_tar_parts:
  "rd ex_tar_mem 0x807c 11 = octal (Suc (Suc 0))" "rd ex_tar_mem 0x8200 (Suc (Suc 0)) = [104, 105]" "cstr ex_tar_mem 0x8000 [97]"
  "rd ex_tar_mem 0x847c 11 = octal (Suc (Suc (Suc 0)))" "rd ex_tar_mem 0x8600 (Suc (Suc (Suc 0))) = [1, 2, 3]"
  "cstr ex_tar_mem 0x8400 [98]" "ex_tar_mem 0x8800 = 0" "cstr ex_tar_mem 0x100 [98]"
  by (simp_all add: rd_def octal_def ex_tar_mem_def upt_rec)

lemma ex_tar: "tar_at ex_tar_mem 0x8000 [([97], [104, 105]), ([98], [1, 2, 3])]"
  using ex_tar_parts by (simp add: blocks512_def del: cstr.simps)

theorem initrd_finds_file_witness:
  "\<exists>loc. Initrd_GetFile ex_tar_mem ex_bootinfo 0x100 0 0 = Some (True, loc, 3) \<and> rd ex_tar_mem loc 3 = [1, 2, 3]"
  using initrd_finds_file[of ex_tar_mem ex_bootinfo "[([97], [104, 105]), ([98], [1, 2, 3])]", OF _ _ _ _ ex_tar_parts(8)]
    ex_tar ex_tar_parts(8)
  by (simp add: ex_bootinfo_def numeral_3_eq_3 del: tar_at.simps cstr.simps)

end
