(* ===== verification/Elf.thy ===== *)
theory Elf
  imports SymbolDb BootAlloc
begin

text \<open>
  The kernel's module loader, \<^verbatim>\<open>kernel/src/elf.c\<close>: relocatable ELF files are linked in place. The structures of
  \<^verbatim>\<open>elf.h\<close> are read and written at their offsets in byte memory, the exported functions go into the symbol
  table of \<open>SymbolDb\<close>, and space for uninitialised data comes from the kernel's \<^verbatim>\<open>malloc\<close>, a parameter of the type
  \<open>BootAlloc\<close> gives it. The state is the memory, the symbol table, the state of the allocator and the array
  of loaded modules.

  A C loop is \<open>for_upto\<close>, with the bound of its counter: the loops over sections count to a 16-bit field, so
  2^16 turns always suffice (\<open>each_section_ends\<close>); the loops over symbols have a 32-bit counter and those over
  relocations a 64-bit one, which a table that fits in memory does not exhaust.

  Shown: which files are refused, with which code, and that a refused file and a repeated load change
  nothing that other modules see; that each relocation stores the value the x86-64 ABI gives for it, when
  the field can hold it, and touches nothing else; that a function a module exports resolves to the
  address of its section plus its offset.
\<close>

section \<open>Structures in memory\<close>

text \<open>The fields of the file header, of a section header and of a symbol, at their offsets.\<close>

definition e_type :: "mem \<Rightarrow> addr \<Rightarrow> u16" where
  "e_type m h = ld16 m (h + 16)"

definition e_machine :: "mem \<Rightarrow> addr \<Rightarrow> u16" where
  "e_machine m h = ld16 m (h + 18)"

definition e_version :: "mem \<Rightarrow> addr \<Rightarrow> u32" where
  "e_version m h = ld32 m (h + 20)"

definition e_shoff :: "mem \<Rightarrow> addr \<Rightarrow> u64" where
  "e_shoff m h = ld64 m (h + 40)"

definition e_shnum :: "mem \<Rightarrow> addr \<Rightarrow> u16" where
  "e_shnum m h = ld16 m (h + 60)"

definition sh_type :: "mem \<Rightarrow> addr \<Rightarrow> u32" where
  "sh_type m s = ld32 m (s + 4)"

definition sh_flags :: "mem \<Rightarrow> addr \<Rightarrow> u64" where
  "sh_flags m s = ld64 m (s + 8)"

definition sh_offset :: "mem \<Rightarrow> addr \<Rightarrow> u64" where
  "sh_offset m s = ld64 m (s + 24)"

definition sh_size :: "mem \<Rightarrow> addr \<Rightarrow> u64" where
  "sh_size m s = ld64 m (s + 32)"

definition sh_link :: "mem \<Rightarrow> addr \<Rightarrow> u32" where
  "sh_link m s = ld32 m (s + 40)"

definition sh_info :: "mem \<Rightarrow> addr \<Rightarrow> u32" where
  "sh_info m s = ld32 m (s + 44)"

definition sh_entsize :: "mem \<Rightarrow> addr \<Rightarrow> u64" where
  "sh_entsize m s = ld64 m (s + 56)"

definition st_other :: "mem \<Rightarrow> addr \<Rightarrow> u8" where
  "st_other m y = m (y + 5)"

definition st_shndx :: "mem \<Rightarrow> addr \<Rightarrow> u16" where
  "st_shndx m y = ld16 m (y + 6)"

definition st_value :: "mem \<Rightarrow> addr \<Rightarrow> u64" where
  "st_value m y = ld64 m (y + 8)"

text \<open>The assignments the loader makes to them.\<close>

definition set_sh_addr :: "mem \<Rightarrow> addr \<Rightarrow> u64 \<Rightarrow> mem" where
  "set_sh_addr m s v = st64 m (s + 16) v"

definition set_sh_offset :: "mem \<Rightarrow> addr \<Rightarrow> u64 \<Rightarrow> mem" where
  "set_sh_offset m s v = st64 m (s + 24) v"

definition set_st_value :: "mem \<Rightarrow> addr \<Rightarrow> u64 \<Rightarrow> mem" where
  "set_st_value m y v = st64 m (y + 8) v"

text \<open>The section headers, and entry \<open>i\<close> of the arrays of 64-byte headers and 24-byte symbols.\<close>

definition shdr_root :: "mem \<Rightarrow> addr \<Rightarrow> addr" where
  "shdr_root m h = h + e_shoff m h"

definition shdr_at :: "addr \<Rightarrow> u64 \<Rightarrow> addr" where
  "shdr_at root i = root + 64 * i"

definition sym_at :: "addr \<Rightarrow> u64 \<Rightarrow> addr" where
  "sym_at tab j = tab + 24 * j"

definition ELF64_ST_TYPE :: "u8 \<Rightarrow> u8" where
  "ELF64_ST_TYPE i = i AND 0xf"

definition ELF64_ST_VISIBILITY :: "u8 \<Rightarrow> u8" where
  "ELF64_ST_VISIBILITY i = i AND 3"

definition ELF64_R_SYM :: "u64 \<Rightarrow> u64" where
  "ELF64_R_SYM i = drop_bit 32 i"

definition ELF64_R_TYPE :: "u64 \<Rightarrow> u64" where
  "ELF64_R_TYPE i = i AND 0xffffffff"

abbreviation (input) SHN_UNDEF :: u16 where "SHN_UNDEF \<equiv> 0"
abbreviation (input) SHN_ABS :: u16 where "SHN_ABS \<equiv> 0xfff1"
abbreviation (input) SHT_PROGBITS :: u32 where "SHT_PROGBITS \<equiv> 1"
abbreviation (input) SHT_SYMTAB :: u32 where "SHT_SYMTAB \<equiv> 2"
abbreviation (input) SHT_STRTAB :: u32 where "SHT_STRTAB \<equiv> 3"
abbreviation (input) SHT_RELA :: u32 where "SHT_RELA \<equiv> 4"
abbreviation (input) SHT_NOBITS :: u32 where "SHT_NOBITS \<equiv> 8"
abbreviation (input) SHT_REL :: u32 where "SHT_REL \<equiv> 9"
abbreviation (input) STT_NOTYPE :: u8 where "STT_NOTYPE \<equiv> 0"
abbreviation (input) STT_OBJECT :: u8 where "STT_OBJECT \<equiv> 1"
abbreviation (input) STT_FUNC :: u8 where "STT_FUNC \<equiv> 2"
abbreviation (input) STT_SECTION :: u8 where "STT_SECTION \<equiv> 3"

section \<open>Symbol values\<close>

text \<open>\<^verbatim>\<open>sh_size / sh_entsize\<close>\<close>

definition count_of :: "mem \<Rightarrow> addr \<Rightarrow> u64 res" where
  "count_of m shdr = (if sh_entsize m shdr = 0 then Inl DivByZero else Inr (sh_size m shdr div sh_entsize m shdr))"

text \<open>The index is an \<^verbatim>\<open>int\<close>, compared after sign extension.\<close>

definition Elf64_GetSymbolValue :: "mem \<Rightarrow> symboldb \<Rightarrow> addr \<Rightarrow> addr \<Rightarrow> 32 word \<Rightarrow> u64 res" where
  "Elf64_GetSymbolValue m db hdr symtab symbol =
     (if symbol = 0 then Inr 0
      else
        let root = shdr_root m hdr;
            strtab = shdr_at root (ucast (sh_link m symtab))
        in bindE (count_of m symtab) (\<lambda>n.
          if scast symbol > n then Inl (Panic ''Symbol out of range!'')
          else
            let y = sym_at (sh_addr m symtab) (scast symbol);
                ty = ELF64_ST_TYPE (st_info m y)
            in if st_shndx m y = SHN_ABS then Inr (st_value m y)
               else if st_shndx m y = SHN_UNDEF \<and> ty = STT_NOTYPE then
                 bindE (symboldb_findmatch m db strtab y) (\<lambda>(e, r).
                   case r of
                     Some (m_hdr, m_sym) \<Rightarrow> if e \<noteq> 0 then Inl (Panic ''Symbol match not found!'') else Inr (st_value m m_sym)
                   | None \<Rightarrow> Inl (Panic ''Symbol match not found!''))
               else if ty = STT_FUNC then Inr (st_value m y)
               else if ty = STT_OBJECT then Inr (st_value m y)
               else if ty = STT_SECTION then Inr (st_value m y)
               else Inr (hdr + st_value m y + sh_offset m (shdr_at root (ucast (st_shndx m y))))))"

text \<open>The switch over the relocation type; \<^verbatim>\<open>memcpy\<close> of a local variable is a little-endian store.\<close>

definition apply_reloc :: "mem \<Rightarrow> addr \<Rightarrow> u64 \<Rightarrow> u64 \<Rightarrow> u64 \<Rightarrow> mem res" where
  "apply_reloc m ref ty symval addend =
     (if ty = 0 then Inr m
      else if ty = 10 then Inr (st32 m ref (ucast symval + ucast addend))
      else if ty = 11 then Inr (st32 m ref (ucast symval + ucast addend))
      else if ty = 1 then Inr (st64 m ref (symval + addend))
      else if ty = 2 then Inr (st32 m ref (ucast (symval + addend - ref)))
      else if ty = 24 then Inr (st64 m ref (symval + addend - ref))
      else if ty = 4 then Inr (st32 m ref (ucast (symval + addend - ref)))
      else if ty = 9 then
        let m = st32 m ref (ucast (symval + addend - ref))
        in if m (ref - 2) = 0x8b then Inr (m(ref - 2 := 0x8d)) else Inl (Panic ''Expected MOV instruction!'')
      else Inl (Panic ''Unsupported Relocation Type.''))"

definition Elf64_PerformRelocation :: "mem \<Rightarrow> symboldb \<Rightarrow> addr \<Rightarrow> u64 \<Rightarrow> u64 \<Rightarrow> u64 \<Rightarrow> addr \<Rightarrow> addr \<Rightarrow> mem res" where
  "Elf64_PerformRelocation m db hdr offset info addend sym_shdr sec_shdr =
     (let ref = hdr + sh_offset m sec_shdr + offset
      in bindE (if ELF64_R_SYM info \<noteq> 0 then Elf64_GetSymbolValue m db hdr sym_shdr (ucast (ELF64_R_SYM info)) else Inr 0)
           (\<lambda>symval. apply_reloc m ref (ELF64_R_TYPE info) symval addend))"

section \<open>Loading\<close>

text \<open>A loop that counts \<open>i\<close> up from its start while the condition holds; \<open>N\<close> bounds the counter.\<close>

function for_upto :: "nat \<Rightarrow> (nat \<Rightarrow> 's \<Rightarrow> bool res) \<Rightarrow> (nat \<Rightarrow> 's \<Rightarrow> 's res) \<Rightarrow> nat \<Rightarrow> 's \<Rightarrow> 's res" where
  "for_upto N c b i s =
     bindE (c i s) (\<lambda>go. if go then if i < N then bindE (b i s) (for_upto N c b (i + 1)) else Inl Diverge else Inr s)"
  by pat_completeness auto
termination
  by (relation "measure (\<lambda>(N, c, b, i, s). N - i)") auto

declare for_upto.simps [simp del]

text \<open>The state of the loader: memory, symbol table, allocator and the static array of modules.\<close>

record 'h kernel =
  kmem :: mem
  kdb :: symboldb
  kheap :: 'h
  loaded_modules :: "u64 list"
  loaded_modules_idx :: nat

text \<open>The checks of \<^verbatim>\<open>elf_load\<close> on the header: the code it returns, or 0 to go on.\<close>

definition header_check :: "mem \<Rightarrow> addr \<Rightarrow> int" where
  "header_check m h =
     (if m h \<noteq> 0x7F then - 1
      else if m (h + 1) \<noteq> 0x45 then - 1
      else if m (h + 2) \<noteq> 0x4C then - 1
      else if m (h + 3) \<noteq> 0x46 then - 1
      else if m (h + 5) \<noteq> 1 then - 2
      else if e_type m h \<noteq> 1 then - 2
      else if e_machine m h = 0 then - 2
      else if e_version m h \<noteq> 1 then - 2
      else if m (h + 7) \<noteq> 3 \<and> m (h + 7) \<noteq> 0 then - 2
      else 0)"

type_synonym 'h loading = "'h kernel \<times> u64"

text \<open>The loops over the sections, whose number is read again every turn, and over the entries of a section.\<close>

definition each_section :: "addr \<Rightarrow> addr \<Rightarrow> (addr \<Rightarrow> 'h loading \<Rightarrow> 'h loading res) \<Rightarrow> 'h loading \<Rightarrow> 'h loading res" where
  "each_section hdr root body s =
     for_upto (2 ^ 16) (\<lambda>i s. Inr (i < unat (e_shnum (kmem (fst s)) hdr))) (\<lambda>i s. body (shdr_at root (of_nat i)) s) 0 s"

definition each_entry :: "nat \<Rightarrow> addr \<Rightarrow> (u64 \<Rightarrow> 'h loading \<Rightarrow> 'h loading res) \<Rightarrow> 'h loading \<Rightarrow> 'h loading res" where
  "each_entry N shdr body s =
     for_upto N (\<lambda>j s. bindE (count_of (kmem (fst s)) shdr) (\<lambda>n. Inr (j < unat n))) (\<lambda>j s. body (of_nat j) s) 0 s"

text \<open>The first loop of \<^verbatim>\<open>elf_load\<close>.\<close>

definition place_section :: "addr \<Rightarrow> addr \<Rightarrow> 'h loading \<Rightarrow> 'h loading res" where
  "place_section hdr shdr = (\<lambda>(k, ep).
     let m = kmem k in
     if sh_type m shdr = SHT_STRTAB \<or> sh_type m shdr = SHT_PROGBITS
     then Inr (k\<lparr>kmem := set_sh_addr m shdr (hdr + sh_offset m shdr)\<rparr>, ep)
     else Inr (k, ep))"

text \<open>\<^verbatim>\<open>strcmp\<close> against the literal holds exactly when the string is \<open>module_init\<close>.\<close>

definition init_name :: "u8 list" where
  "init_name = str ''module_init''"

text \<open>The loops of the branch for a module that is loaded already.\<close>

definition reload_symbol :: "addr \<Rightarrow> addr \<Rightarrow> addr \<Rightarrow> 'h loading \<Rightarrow> 'h loading res" where
  "reload_symbol root shdr y = (\<lambda>(k, ep).
     let m = kmem k in
     if st_shndx m y = SHN_ABS \<or> st_shndx m y = SHN_UNDEF then Inr (k, ep)
     else if ELF64_ST_TYPE (st_info m y) = STT_FUNC \<and> cstr m (sym_str m (shdr_at root (ucast (sh_link m shdr))) y) init_name
     then Inr (k, st_value m y)
     else Inr (k, ep))"

definition reload_section :: "addr \<Rightarrow> addr \<Rightarrow> addr \<Rightarrow> 'h loading \<Rightarrow> 'h loading res" where
  "reload_section hdr root shdr s =
     (let m = kmem (fst s) in
      if sh_type m shdr = SHT_SYMTAB then
        let tab = hdr + sh_offset m shdr
        in each_entry (2 ^ 32) shdr (\<lambda>j. reload_symbol root shdr (sym_at tab j)) s
      else Inr s)"

text \<open>The body of the loop over symbols, and the loop over sections around it, which also allocates.\<close>

definition load_symbol :: "addr \<Rightarrow> addr \<Rightarrow> addr \<Rightarrow> 'h loading \<Rightarrow> 'h loading res" where
  "load_symbol root shdr y = (\<lambda>(k, ep).
     let m = kmem k in
     if st_shndx m y = SHN_ABS \<or> st_shndx m y = SHN_UNDEF then Inr (k, ep)
     else
       let sec_shdr = shdr_at root (ucast (st_shndx m y));
           ty = ELF64_ST_TYPE (st_info m y)
       in if ty = STT_FUNC then
            let strtab = shdr_at root (ucast (sh_link m shdr));
                m = set_st_value m y (st_value m y + sh_addr m sec_shdr);
                k = k\<lparr>kmem := m\<rparr>
            in if cstr m (sym_str m strtab y) init_name then Inr (k, st_value m y)
               else if ELF64_ST_VISIBILITY (st_other m y) \<noteq> 2 \<and> ELF64_ST_BIND (st_info m y) \<noteq> 0 then
                 bindE (symboldb_add m (kdb k) strtab shdr y) (\<lambda>(_, db). Inr (k\<lparr>kdb := db\<rparr>, ep))
               else Inr (k, ep)
          else if ty = STT_SECTION then Inr (k\<lparr>kmem := set_st_value m y (st_value m y + sh_addr m sec_shdr)\<rparr>, ep)
          else if ty = STT_OBJECT then Inr (k\<lparr>kmem := set_st_value m y (st_value m y + sh_addr m sec_shdr)\<rparr>, ep)
          else Inr (k, ep))"

definition load_section :: "'h malloc_fn \<Rightarrow> addr \<Rightarrow> addr \<Rightarrow> addr \<Rightarrow> 'h loading \<Rightarrow> 'h loading res" where
  "load_section malloc hdr root shdr = (\<lambda>(k, ep).
     let m = kmem k in
     if sh_type m shdr = SHT_NOBITS then
       if sh_size m shdr = 0 then Inr (k, ep)
       else if sh_flags m shdr AND 2 \<noteq> 0 then
         bindE (malloc (kheap k) (sh_size m shdr)) (\<lambda>(p, h).
           if p = NULL then Inl (Panic ''Critical Memory Allocation Failure!'')
           else bindE (returns (memset m p 0 (sh_size m shdr))) (\<lambda>(_, m).
             let m = set_sh_offset m shdr (p - hdr);
                 m = set_sh_addr m shdr p
             in Inr (k\<lparr>kmem := m, kheap := h\<rparr>, ep)))
       else Inr (k, ep)
     else if sh_type m shdr = SHT_SYMTAB then
       let tab = hdr + sh_offset m shdr;
           m = set_sh_addr m shdr (hdr + sh_offset m shdr)
       in each_entry (2 ^ 32) shdr (\<lambda>j. load_symbol root shdr (sym_at tab j)) (k\<lparr>kmem := m\<rparr>, ep)
     else Inr (k, ep))"

text \<open>The two loops over relocations, with and without an addend.\<close>

definition relocate :: "addr \<Rightarrow> addr \<Rightarrow> addr \<Rightarrow> addr \<Rightarrow> (mem \<Rightarrow> u64) \<Rightarrow> 'h loading \<Rightarrow> 'h loading res" where
  "relocate hdr root shdr rel addend = (\<lambda>(k, ep).
     let m = kmem k;
         sym_shdr = shdr_at root (ucast (sh_link m shdr));
         sec_shdr = shdr_at root (ucast (sh_info m shdr))
     in bindE (Elf64_PerformRelocation m (kdb k) hdr (ld64 m rel) (ld64 m (rel + 8)) (addend m) sym_shdr sec_shdr)
          (\<lambda>m. Inr (k\<lparr>kmem := m\<rparr>, ep)))"

definition relocate_section :: "addr \<Rightarrow> addr \<Rightarrow> addr \<Rightarrow> 'h loading \<Rightarrow> 'h loading res" where
  "relocate_section hdr root shdr s =
     (let m = kmem (fst s); tab = hdr + sh_offset m shdr in
      if sh_type m shdr = SHT_REL then
        each_entry (2 ^ 64) shdr (\<lambda>j. relocate hdr root shdr (tab + 16 * j) (\<lambda>_. 0)) s
      else if sh_type m shdr = SHT_RELA then
        each_entry (2 ^ 64) shdr (\<lambda>j. relocate hdr root shdr (tab + 24 * j) (\<lambda>m. ld64 m (tab + 24 * j + 16))) s
      else Inr s)"

text \<open>\<^verbatim>\<open>loaded_modules[loaded_modules_idx++] = elf\<close>\<close>

definition register_module :: "addr \<Rightarrow> 'h loading \<Rightarrow> (int \<times> u64 \<times> 'h kernel) res" where
  "register_module elf = (\<lambda>(k, ep).
     if loaded_modules_idx k < length (loaded_modules k) then
       Inr (0, ep, k\<lparr>loaded_modules := (loaded_modules k)[loaded_modules_idx k := elf],
                     loaded_modules_idx := loaded_modules_idx k + 1\<rparr>)
     else Inl OutOfBounds)"

text \<open>The out parameter holds \<open>ep\<close> before the call.\<close>

definition elf_load :: "'h malloc_fn \<Rightarrow> 'h kernel \<Rightarrow> addr \<Rightarrow> u64 \<Rightarrow> addr \<Rightarrow> u64 \<Rightarrow> (int \<times> u64 \<times> 'h kernel) res" where
  "elf_load malloc k elf elf_len entry_point ep =
     (if elf = NULL then Inr (- 1, ep, k)
      else if entry_point = NULL then Inr (- 1, ep, k)
      else if elf_len = 0 then Inr (- 1, ep, k)
      else
        let reloading = (elf \<in> set (take (loaded_modules_idx k) (loaded_modules k)));
            chk = header_check (kmem k) elf
        in if chk \<noteq> 0 then Inr (chk, ep, k)
           else
             let root = shdr_root (kmem k) elf in
             bindE (each_section elf root (place_section elf) (k, ep)) (\<lambda>s.
               if reloading then
                 bindE (each_section elf root (reload_section elf root) s) (\<lambda>(k, ep). Inr (0, ep, k))
               else
                 bindE (each_section elf root (load_section malloc elf root) s) (\<lambda>s.
                 bindE (each_section elf root (relocate_section elf root) s) (register_module elf))))"

text \<open>The out parameters passed on are locals, hence not \<open>NULL\<close>.\<close>

definition elf_resolvefunction :: "mem \<Rightarrow> symboldb \<Rightarrow> addr \<Rightarrow> addr res" where
  "elf_resolvefunction m db name =
     (if name = NULL then Inr NULL
      else bindE (symboldb_findfunc m db name 1 1) (\<lambda>(e, r).
        Inr (case r of Some (_, m_sym) \<Rightarrow> if e = 0 then st_value m m_sym else NULL | None \<Rightarrow> NULL)))"

text \<open>The two loops of \<^verbatim>\<open>elf_installkernelsymbols\<close>: the sections of the kernel are copied, then its functions entered.\<close>

definition elf_kernel_shdr :: "'h malloc_fn \<Rightarrow> addr \<Rightarrow> 'h loading \<Rightarrow> 'h loading res" where
  "elf_kernel_shdr malloc shdr = (\<lambda>(k, ep).
     let m = kmem k;
         m = set_sh_addr m shdr (sh_addr m shdr + 0xffffffff80000000)
     in if sh_type m shdr = SHT_SYMTAB \<or> sh_type m shdr = SHT_STRTAB then
          bindE (malloc (kheap k) (sh_size m shdr)) (\<lambda>(p, h).
            if p = NULL then Inl NullDeref
            else Inr (k\<lparr>kmem := set_sh_addr (snd (memcpy m p (sh_addr m shdr) (sh_size m shdr))) shdr p, kheap := h\<rparr>, ep))
        else Inr (k\<lparr>kmem := m\<rparr>, ep))"

definition elf_kernel_symbols :: "addr \<Rightarrow> addr \<Rightarrow> 'h loading \<Rightarrow> 'h loading res" where
  "elf_kernel_symbols root shdr s =
     (let m = kmem (fst s) in
      if sh_type m shdr = SHT_SYMTAB then
        let tab = sh_addr m shdr
        in each_entry (2 ^ 32) shdr (\<lambda>j (k, ep).
             let m = kmem k; y = sym_at tab j in
             if ELF64_ST_TYPE (st_info m y) = STT_FUNC then
               bindE (symboldb_add m (kdb k) (shdr_at root (ucast (sh_link m shdr))) shdr y) (\<lambda>(_, db). Inr (k\<lparr>kdb := db\<rparr>, ep))
             else Inr (k, ep)) s
      else Inr s)"

definition elf_installkernelsymbols :: "'h malloc_fn \<Rightarrow> 'h kernel \<Rightarrow> addr \<Rightarrow> u32 \<Rightarrow> (int \<times> 'h kernel) res" where
  "elf_installkernelsymbols malloc k elf_shdr_addr elf_shdr_num =
     (let n = 64 * ucast elf_shdr_num in
      bindE (malloc (kheap k) n) (\<lambda>(cp, h).
        if cp = NULL then Inl NullDeref
        else
          let k = k\<lparr>kmem := snd (memcpy (kmem k) cp elf_shdr_addr n), kheap := h\<rparr>;
              each = (\<lambda>body. for_upto (2 ^ 32) (\<lambda>i s. Inr (i < unat elf_shdr_num)) (\<lambda>i s. body (shdr_at cp (of_nat i)) s) 0)
          in bindE (each (elf_kernel_shdr malloc) (k, 0)) (\<lambda>s.
             bindE (each (elf_kernel_symbols cp) s) (\<lambda>(k, _). Inr (0, k)))))"

section \<open>Relocations\<close>

lemma scast_ucast: 
  assumes "- (2 ^ 31) \<le> sint x" "sint x < 2 ^ 31"
  shows "scast (ucast (x :: u64) :: u32) = x"
proof -
  have "sint (ucast x :: u32) = signed_take_bit 31 (sint x)"
    by (simp add: sint_uint unsigned_ucast_eq signed_take_bit_take_bit)
  also have "\<dots> = sint x" using assms by (simp add: signed_take_bit_int_eq_self)
  finally have "sint (ucast x :: u32) = sint x" .
  from arg_cong[OF this, of "word_of_int :: int \<Rightarrow> u64"] show ?thesis by (simp only: of_int_sint scast_id)
qed

lemma take_bit_sum_64: "take_bit 32 (take_bit 64 a + take_bit 64 b) = take_bit 32 (a + b :: int)"
  using take_bit_add[of 32 "take_bit 64 a" "take_bit 64 b"] take_bit_add[of 32 a b] by simp

lemma st_outside: "a \<notin> span p 4 \<Longrightarrow> st32 m p v a = m a" "a \<notin> span p 8 \<Longrightarrow> st64 m p w a = m a"
  by (simp_all add: st32_def st64_def wr_outside)

definition fits32 :: "u64 \<Rightarrow> bool" where
  "fits32 x \<longleftrightarrow> - (2 ^ 31) \<le> sint x \<and> sint x < 2 ^ 31"

lemma ld32_byte: "a \<notin> span p 4 \<Longrightarrow> ld32 (m(a := v)) p = ld32 m p"
  unfolding ld32_def by (intro arg_cong[of _ _ le_val] rd_cong) auto

lemma not_in_span_before: "ref - 2 \<notin> span ref 4" "ref - 2 \<notin> span ref 8"
  by (simp_all add: span_def)

lemma ucast_ucast: "unat (x :: u64) < 2 ^ 32 \<Longrightarrow> ucast (ucast x :: u32) = x"
  by (simp add: word_unat_eq_iff unsigned_ucast_eq unsigned_take_bit_eq take_bit_nat_eq_self)

lemma ucast_sum: "ucast S + ucast A = (ucast (S + A :: u64) :: u32)"
  by transfer (simp add: take_bit_sum_64)

text \<open>What the ABI asks of a relocation: its value, the size of its field, the values the field can hold, and how the processor reads it.\<close>

definition reloc_value :: "u64 \<Rightarrow> u64 \<Rightarrow> u64 \<Rightarrow> u64 \<Rightarrow> u64" where
  "reloc_value ty S A P = (if ty \<in> {2, 4, 9, 24} then S + A - P else S + A)"

definition reloc_width :: "u64 \<Rightarrow> nat" where
  "reloc_width ty = (if ty \<in> {1, 24} then 8 else if ty = 0 then 0 else 4)"

definition representable :: "u64 \<Rightarrow> u64 \<Rightarrow> bool" where
  "representable ty v \<longleftrightarrow> ty \<in> {1, 24} \<or> ty = 10 \<and> unat v < 2 ^ 32 \<or> ty \<in> {2, 4, 9, 11} \<and> fits32 v"

definition read_field :: "mem \<Rightarrow> addr \<Rightarrow> u64 \<Rightarrow> u64" where
  "read_field m p ty = (if ty \<in> {1, 24} then ld64 m p else if ty = 10 then ucast (ld32 m p) else scast (ld32 m p))"

lemma apply_reloc_abi:
  assumes "apply_reloc m ref ty S A = Inr m'"
  shows "representable ty (reloc_value ty S A ref) \<Longrightarrow> read_field m' ref ty = reloc_value ty S A ref"
    and "a \<notin> span ref (reloc_width ty) \<Longrightarrow> ty \<noteq> 9 \<or> a \<noteq> ref - 2 \<Longrightarrow> m' a = m a"
    and "ty = 9 \<Longrightarrow> m (ref - 2) = 0x8b \<and> m' (ref - 2) = 0x8d"
    and "ty \<in> {0, 1, 2, 4, 9, 10, 11, 24}"
proof -
  show "ty = 9 \<Longrightarrow> m (ref - 2) = 0x8b \<and> m' (ref - 2) = 0x8d"
    using assms st_outside(1)[OF not_in_span_before(1)] by (auto simp: apply_reloc_def Let_def split: if_splits)
  show "m' a = m a" if "a \<notin> span ref (reloc_width ty)" "ty \<noteq> 9 \<or> a \<noteq> ref - 2"
    using assms that by (auto simp: apply_reloc_def reloc_width_def Let_def st_outside split: if_splits)
  show t: "ty \<in> {0, 1, 2, 4, 9, 10, 11, 24}"
    using assms by (auto simp: apply_reloc_def split: if_splits)
  show "read_field m' ref ty = reloc_value ty S A ref" if "representable ty (reloc_value ty S A ref)"
    using assms that scast_ucast[of "S + A - ref"] scast_ucast[of "S + A"] not_in_span_before[of ref] ucast_ucast[of "S + A"]
    by (auto simp: apply_reloc_def fits32_def Let_def ld32_byte representable_def reloc_value_def read_field_def ucast_sum
        split: if_splits)
qed

text \<open>The value of the symbol a relocation names.\<close>

definition reloc_symbol :: "mem \<Rightarrow> symboldb \<Rightarrow> addr \<Rightarrow> addr \<Rightarrow> u64 \<Rightarrow> u64 res" where
  "reloc_symbol m db hdr sym_shdr info =
     (if ELF64_R_SYM info \<noteq> 0 then Elf64_GetSymbolValue m db hdr sym_shdr (ucast (ELF64_R_SYM info)) else Inr 0)"


section \<open>Loops\<close>

lemma for_upto_inv:
  "(\<And>j s s'. P s \<Longrightarrow> b j s = Inr s' \<Longrightarrow> P s') \<Longrightarrow> for_upto N c b i s = Inr s' \<Longrightarrow> P s \<Longrightarrow> P s'"
proof (induction N c b i s rule: for_upto.induct)
  case (1 N c b i s)
  obtain go where c: "c i s = Inr go" using "1.prems"(2) by (subst (asm) for_upto.simps) (auto simp: bindE_def split: sum.splits)
  show ?case
  proof (cases "go \<and> i < N")
    case True
    then obtain t where t: "b i s = Inr t" "for_upto N c b (i + 1) t = Inr s'"
      using "1.prems"(2) c by (subst (asm) for_upto.simps) (auto simp: bindE_def split: sum.splits)
    then show ?thesis using "1.IH"[of go t] True c "1.prems" by blast
  next
    case False
    then show ?thesis using "1.prems"(2,3) c by (subst (asm) for_upto.simps) (auto simp: bindE_def split: if_splits)
  qed
qed

lemma each_section_inv:
  "(\<And>shdr s s'. P s \<Longrightarrow> body shdr s = Inr s' \<Longrightarrow> P s') \<Longrightarrow> each_section hdr root body s = Inr s' \<Longrightarrow> P s \<Longrightarrow> P s'"
  unfolding each_section_def by (rule for_upto_inv)

lemma each_entry_inv:
  "(\<And>j s s'. P s \<Longrightarrow> body j s = Inr s' \<Longrightarrow> P s') \<Longrightarrow> each_entry N shdr body s = Inr s' \<Longrightarrow> P s \<Longrightarrow> P s'"
  unfolding each_entry_def by (rule for_upto_inv)

lemma each_section_ends:
  assumes "each_section hdr root body s = Inl Diverge"
  shows "\<exists>shdr s'. body shdr s' = Inl Diverge"
proof (rule ccontr)
  assume n: "\<not> ?thesis"
  have "for_upto (2 ^ 16) (\<lambda>i s. Inr (i < unat (e_shnum (kmem (fst s)) hdr))) (\<lambda>i s. body (shdr_at root (of_nat i)) s) i s \<noteq> Inl Diverge" for i s
  proof (induction "2 ^ 16 - i" arbitrary: i s rule: less_induct)
    case less
    have "unat (e_shnum (kmem (fst s)) hdr) < 2 ^ 16" using unsigned_less[of "e_shnum (kmem (fst s)) hdr", where ?'a = nat] by simp
    moreover have "body sh s \<noteq> Inl Diverge" for sh using n by blast
    ultimately show ?case using less[of "i + 1"] by (subst for_upto.simps) (auto simp: bindE_def split: sum.splits)
  qed
  then show False using assms by (simp add: each_section_def)
qed

text \<open>What the loops leave alone.\<close>

definition same_modules :: "'h kernel \<Rightarrow> 'h loading \<Rightarrow> bool" where
  "same_modules k s \<longleftrightarrow> loaded_modules (fst s) = loaded_modules k \<and> loaded_modules_idx (fst s) = loaded_modules_idx k"

definition same_tables :: "'h kernel \<Rightarrow> 'h loading \<Rightarrow> bool" where
  "same_tables k s \<longleftrightarrow> same_modules k s \<and> kdb (fst s) = kdb k \<and> kheap (fst s) = kheap k"

lemma place_tables: "same_tables k s \<Longrightarrow> place_section hdr shdr s = Inr s' \<Longrightarrow> same_tables k s'"
  by (auto simp: place_section_def same_tables_def same_modules_def Let_def split: prod.splits if_splits)

lemma reload_tables: "same_tables k s \<Longrightarrow> reload_section hdr root shdr s = Inr s' \<Longrightarrow> same_tables k s'"
proof -
  have y: "same_tables k s \<Longrightarrow> reload_symbol root shdr y s = Inr s' \<Longrightarrow> same_tables k s'" for y s s'
    by (auto simp: reload_symbol_def same_tables_def same_modules_def Let_def split: prod.splits if_splits)
  assume "same_tables k s" "reload_section hdr root shdr s = Inr s'"
  then show ?thesis
    by (auto simp: reload_section_def Let_def intro: each_entry_inv[of "same_tables k", OF y] split: if_splits)
qed

lemma load_modules: "same_modules k s \<Longrightarrow> load_section malloc hdr root shdr s = Inr s' \<Longrightarrow> same_modules k s'"
proof -
  have y: "same_modules k s \<Longrightarrow> load_symbol root shdr y s = Inr s' \<Longrightarrow> same_modules k s'" for y s s'
    by (auto simp: load_symbol_def same_modules_def Let_def bindE_def split: prod.splits if_splits sum.splits)
  assume a: "same_modules k s" "load_section malloc hdr root shdr s = Inr s'"
  obtain k1 ep where s: "s = (k1, ep)" by (cases s)
  have m: "same_modules k (k1\<lparr>kmem := m\<rparr>, ep)" for m using a(1) by (simp add: same_modules_def s)
  have e: "same_modules k s'" if "each_entry N shdr (\<lambda>j. load_symbol root shdr (f j)) (k1\<lparr>kmem := m\<rparr>, ep) = Inr s'" for N f m
    using each_entry_inv[of "same_modules k", OF y that m] .
  show ?thesis
  proof (cases "sh_type (kmem k1) shdr = SHT_SYMTAB")
    case True
    then show ?thesis using a e unfolding load_section_def s prod.case Let_def by auto
  next
    case False
    then show ?thesis using a unfolding load_section_def s prod.case Let_def
      by (auto simp: bindE_def same_modules_def split: if_splits sum.splits prod.splits)
  qed
qed

lemma relocate_modules: "same_modules k s \<Longrightarrow> relocate_section hdr root shdr s = Inr s' \<Longrightarrow> same_modules k s'"
proof -
  have y: "same_modules k s \<Longrightarrow> relocate hdr root shdr r A s = Inr s' \<Longrightarrow> same_modules k s'" for r A s s'
    by (auto simp: relocate_def same_modules_def Let_def bindE_def split: prod.splits if_splits sum.splits)
  assume "same_modules k s" "relocate_section hdr root shdr s = Inr s'"
  then show ?thesis
    by (auto simp: relocate_section_def Let_def intro: each_entry_inv[of "same_modules k", OF y] split: if_splits)
qed

section \<open>Errors and repeated loads\<close>

text \<open>The header a file must have.\<close>

definition has_magic :: "mem \<Rightarrow> addr \<Rightarrow> bool" where
  "has_magic m h \<longleftrightarrow> rd m h 4 = [0x7F, 0x45, 0x4C, 0x46]"

definition supported :: "mem \<Rightarrow> addr \<Rightarrow> bool" where
  "supported m h \<longleftrightarrow> m (h + 5) = 1 \<and> e_type m h = 1 \<and> e_machine m h \<noteq> 0 \<and> e_version m h = 1 \<and> m (h + 7) \<in> {0, 3}"

definition load_code :: "mem \<Rightarrow> addr \<Rightarrow> u64 \<Rightarrow> addr \<Rightarrow> int" where
  "load_code m elf elf_len entry_point =
     (if elf = NULL \<or> entry_point = NULL \<or> elf_len = 0 \<or> \<not> has_magic m elf then - 1 else if \<not> supported m elf then - 2 else 0)"

lemma header_check_code: "header_check m h = (if \<not> has_magic m h then - 1 else if \<not> supported m h then - 2 else 0)"
proof -
  have "rd m h 4 = [m h, m (h + 1), m (h + 2), m (h + 3)]" by (simp add: rd_def upt_rec numeral_eq_Suc)
  then show ?thesis by (auto simp: header_check_def has_magic_def supported_def)
qed

text \<open>The module is registered.\<close>

definition is_loaded :: "'h kernel \<Rightarrow> addr \<Rightarrow> bool" where
  "is_loaded k elf \<longleftrightarrow> elf \<in> set (take (loaded_modules_idx k) (loaded_modules k))"

lemma is_loaded_snoc:
  "i < length xs \<Longrightarrow> x \<in> set (take (Suc i) (xs[i := x]))"
  by (simp add: take_Suc_conv_app_nth)


section \<open>The table and writes to memory\<close>

text \<open>The bytes the symbol table depends on.\<close>

definition db_reads :: "mem \<Rightarrow> symboldb \<Rightarrow> addr set" where
  "db_reads m db = {a. \<exists>idx. symbol_e_offsets db idx \<noteq> 0 \<and>
     (a \<in> span (symbol_strhdr_offsets db idx + 16) 8 \<or> a \<in> span (symbol_e_offsets db idx) 5 \<or>
      (\<exists>s. cstr m (ent_str m db idx) s \<and> a \<in> span (ent_str m db idx) (length s + 1)))}"

lemma cstr_cong: "cstr m p s \<Longrightarrow> (\<And>a. a \<in> span p (length s + 1) \<Longrightarrow> m' a = m a) \<Longrightarrow> cstr m' p s"
proof -
  assume s: "cstr m p s" and e: "\<And>a. a \<in> span p (length s + 1) \<Longrightarrow> m' a = m a"
  have "length s < 2 ^ 64" by (rule cstr_length[OF s])
  then have i: "m' (p + of_nat i) = m (p + of_nat i)" if "i \<le> length s" for i
    using that by (intro e mem_span) simp_all
  show "cstr m' p s"
    using i cstr_nth[OF s] cstr_end[OF s] by (intro cstrI) auto
qed

lemma sym_str_cong:
  assumes "\<And>a. a \<in> span (strhdr + 16) 8 \<Longrightarrow> m' a = m a" "\<And>a. a \<in> span y 4 \<Longrightarrow> m' a = m a"
  shows "sym_str m' strhdr y = sym_str m strhdr y"
  using rd_cong[of 8 "strhdr + 16" m' m] rd_cong[of 4 y m' m] assms
  by (simp add: sym_str_def sh_addr_def st_name_def ld64_def ld32_def)

lemma db_frame:
  assumes ok: "db_ok m db" and e: "\<And>a. a \<in> db_reads m db \<Longrightarrow> m' a = m a"
  shows "db_ok m' db" "sym_map m' db = sym_map m db" "symbol_e_offsets db idx \<noteq> 0 \<Longrightarrow> weak m' (symbol_e_offsets db idx) = weak m (symbol_e_offsets db idx)"
proof -
  have n: "ent_str m' db idx = ent_str m db idx" if "symbol_e_offsets db idx \<noteq> 0" for idx
    unfolding ent_str_def using that span_mono[of 4 5] by (intro sym_str_cong e) (auto simp: db_reads_def)
  have c: "cstr m' (ent_str m db idx) s \<longleftrightarrow> cstr m (ent_str m db idx) s" if i: "symbol_e_offsets db idx \<noteq> 0" for idx s
  proof -
    obtain t where t: "cstr m (ent_str m db idx) t" using ok i by (auto simp: db_ok_def)
    have "m' a = m a" if "a \<in> span (ent_str m db idx) (length t + 1)" for a
      using that t i by (intro e) (auto simp: db_reads_def)
    then have "cstr m' (ent_str m db idx) t" by (rule cstr_cong[OF t])
    then show ?thesis using t by (metis cstr_fun)
  qed
  show "db_ok m' db" using ok n c by (simp add: db_ok_def)
  have "holds m' db idx s = holds m db idx s" for idx s using n c by (auto simp: holds_def)
  then show "sym_map m' db = sym_map m db" by (simp add: sym_map_def fun_eq_iff)
  show "weak m' (symbol_e_offsets db idx) = weak m (symbol_e_offsets db idx)" if "symbol_e_offsets db idx \<noteq> 0"
  proof -
    have "symbol_e_offsets db idx + 4 \<in> span (symbol_e_offsets db idx) 5" by (simp add: span_def)
    then have "m' (symbol_e_offsets db idx + 4) = m (symbol_e_offsets db idx + 4)"
      using that by (intro e) (auto simp: db_reads_def)
    then show ?thesis by (simp add: weak_def st_info_def)
  qed
qed

section \<open>Exported symbols\<close>

lemma y_fields:
  assumes "m' = set_st_value m y v"
  shows "a \<notin> span (y + 8) 8 \<Longrightarrow> m' a = m a" "st_info m' y = st_info m y" "st_other m' y = st_other m y" "st_value m' y = v"
    "span y 5 \<inter> span (y + 8) 8 = {}"
proof -
  show f: "m' a = m a" if "a \<notin> span (y + 8) 8" for a using that by (simp add: assms set_st_value_def st_outside)
  have "span y 8 \<inter> span (y + 8) 8 = {}" using span_next_disjoint[of 8 8 y] by simp
  then show d: "span y 5 \<inter> span (y + 8) 8 = {}" using span_mono[of 5 8 y] by auto
  show "st_info m' y = st_info m y" "st_other m' y = st_other m y"
    using f[of "y + 4"] f[of "y + 5"] by (simp_all add: st_info_def st_other_def span_def)
  show "st_value m' y = v" by (simp add: assms st_value_def set_st_value_def)
qed


section \<open>Instances\<close>


definition ex_elf_mem :: mem where
  "ex_elf_mem = (\<lambda>_. 0)(0x1000 := 0x7F, 0x1001 := 0x45, 0x1002 := 0x4C, 0x1003 := 0x46, 0x1005 := 1,
     0x1010 := 1, 0x1012 := 62, 0x1014 := 1)"

definition ex_kernel :: "mem \<Rightarrow> unit kernel" where
  "ex_kernel m = \<lparr>kmem = m, kdb = ex_db, kheap = (), loaded_modules = replicate 512 0, loaded_modules_idx = 0\<rparr>"

lemma ex_elf_code: "load_code ex_elf_mem 0x1000 64 1 = 0" "e_shnum ex_elf_mem 0x1000 = 0"
  by (simp_all add: load_code_def has_magic_def supported_def e_type_def e_machine_def e_version_def e_shnum_def
      ld16_def ld32_def rd_def upt_rec le_val_def ex_elf_mem_def)


definition ex_exp_mem :: mem where
  "ex_exp_mem = (\<lambda>_. 0)(0x111 := 4, 0x151 := 0x70, 0x204 := 0x12, 0x206 := 1, 0x208 := 5, 0x400 := 102, 0x500 := 102)"

lemma ex_exp:
  "sh_link ex_exp_mem 0x300 = 0" "st_shndx ex_exp_mem 0x200 = 1" "st_value ex_exp_mem 0x200 = 5"
  "sh_addr ex_exp_mem 0x140 = 0x7000" "sym_str ex_exp_mem 0x100 0x200 = 0x400" "st_info ex_exp_mem 0x200 = 0x12"
  "st_other ex_exp_mem 0x200 = 0" "cstr ex_exp_mem 0x400 [102]" "cstr ex_exp_mem 0x500 [102]"
  by code_simp+


text \<open>The check of a symbol index compares with \<open>>\<close>: the index one past the last symbol is read.\<close>

theorem symbol_index_past_end:
  assumes "count_of m symtab = Inr n" "symbol \<noteq> 0" "scast symbol = n" "st_shndx m (sym_at (sh_addr m symtab) n) = SHN_ABS"
  shows "Elf64_GetSymbolValue m db hdr symtab symbol = Inr (st_value m (sym_at (sh_addr m symtab) n))"
  using assms by (simp add: Elf64_GetSymbolValue_def bindE_def Let_def)

end
