(* ===== verification/LoadScript.thy ===== *)
theory LoadScript
  imports Elf Initrd
begin

text \<open>
  The load scripts, \<^verbatim>\<open>kernel/src/load_script.c\<close>: the script is found in the ramdisk, and each of its lines loads a
  module and runs its initialiser, calls a function by name, or starts a user program. The code of modules
  is not part of the kernel: running it is a parameter of the environment \<open>loader\<close>, which also has the
  allocator, the boot information and the places of the name buffer on the stack and of two string
  literals. Printing is left out.

  The loop has as much fuel as the script has bytes; a line takes at least six.

  Shown: a script made of well-formed lines, found in the archive, executes its lines in order, up to
  the first that fails.
\<close>

section \<open>Operations\<close>

text \<open>What the scripts run in: \<open>run\<close> calls code at an address, \<open>run_user\<close> is \<^verbatim>\<open>task_startnew_user\<close>.\<close>

record 'h loader =
  boot :: CardinalBootInfo
  alloc :: "'h malloc_fn"
  run :: "addr \<Rightarrow> 'h kernel \<Rightarrow> (int \<times> 'h kernel) res"
  run_user :: "addr \<Rightarrow> addr \<Rightarrow> u64 \<Rightarrow> 'h kernel \<Rightarrow> 'h kernel res"
  name_buf :: addr
  lit_newline :: addr
  lit_startnew :: addr

text \<open>The fields of \<^verbatim>\<open>ModuleHeader\<close> the loader uses.\<close>

definition hdr_data :: "addr \<Rightarrow> addr" where
  "hdr_data hdr = hdr + 856"

definition hdr_uncompressed_len :: "mem \<Rightarrow> addr \<Rightarrow> u32" where
  "hdr_uncompressed_len m hdr = ld32 m (hdr + 780)"

text \<open>The search both loaders begin with.\<close>

definition find_module :: "'h loader \<Rightarrow> 'h kernel \<Rightarrow> addr \<Rightarrow> addr res" where
  "find_module L k name =
     bindE (returns (Initrd_GetFile (kmem k) (boot L) name NULL 0)) (\<lambda>(found, mod_loc, len).
       if \<not> found then Inl (Panic ''[Kernel] Failed to find module!'') else Inr mod_loc)"

definition module_load :: "'h loader \<Rightarrow> 'h kernel \<Rightarrow> addr \<Rightarrow> (int \<times> 'h kernel) res" where
  "module_load L k name =
     bindE (find_module L k name) (\<lambda>hdr.
     bindE (elf_load (alloc L) k (hdr_data hdr) (ucast (hdr_uncompressed_len (kmem k) hdr)) 1 NULL) (\<lambda>(e, entry_pt, k).
       if e \<noteq> 0 then Inl (Panic ''[Kernel] Elf load failed.'') else run L entry_pt k))"

definition module_user_load :: "'h loader \<Rightarrow> 'h kernel \<Rightarrow> addr \<Rightarrow> 'h kernel res" where
  "module_user_load L k name =
     bindE (find_module L k name) (\<lambda>hdr.
     bindE (elf_resolvefunction (kmem k) (kdb k) (lit_startnew L)) (\<lambda>f.
       run_user L f (hdr_data hdr) (ucast (hdr_uncompressed_len (kmem k) hdr)) k))"

text \<open>The comparisons with the literals; \<^verbatim>\<open>strncmp\<close> is 0 exactly when the bytes agree.\<close>

definition script_mode :: "mem \<Rightarrow> addr \<Rightarrow> int" where
  "script_mode m p =
     (if rd m p 5 = str ''LOAD:'' then 0
      else if rd m p 5 = str ''CALL:'' then 1
      else if rd m p 5 = str ''USER:'' then 2
      else if m p = 35 then - 2
      else - 1)"

text \<open>The branches on the mode, with the name in the buffer.\<close>

definition dispatch :: "'h loader \<Rightarrow> int \<Rightarrow> 'h kernel \<Rightarrow> 'h kernel res" where
  "dispatch L mode k =
     (let name = name_buf L in
      if mode = 0 then
        bindE (module_load L k name) (\<lambda>(err, k).
          if err \<noteq> 0 then Inl (Panic ''[Kernel] module_init failed'') else Inr k)
      else if mode = 1 then
        bindE (elf_resolvefunction (kmem k) (kdb k) name) (\<lambda>entry_pt.
          if entry_pt = NULL then Inl (Panic ''[Kernel] Failed to resolve function!'')
          else bindE (run L entry_pt k) (\<lambda>(err, k).
            if err \<noteq> 0 then Inl (Panic ''[Kernel] Call failed'') else Inr k))
      else if mode = 2 then module_user_load L k name
      else if mode = - 1 then Inl (Panic ''[Kernel] Unknown Command'')
      else Inr k)"

text \<open>One turn of the loop of \<^verbatim>\<open>script_execute\<close>. A script with no further line end makes it read before address 0.\<close>

definition script_line :: "'h loader \<Rightarrow> 'h kernel \<Rightarrow> addr \<Rightarrow> bool \<Rightarrow> ('h kernel \<times> addr \<times> bool) res" where
  "script_line L k load_script isCRLF =
     (let m = kmem k;
          mode = script_mode m load_script;
          load_script = load_script + 5
      in bindE (returns (strstr m load_script (lit_newline L))) (\<lambda>end_of_line.
         bindE (returns (memset m (name_buf L) 0 1024)) (\<lambda>(_, m).
           if end_of_line = NULL then Inl NullDeref
           else
             let (isCRLF, end_of_line) = (if m (end_of_line - 1) = 13 then (True, end_of_line - 1) else (isCRLF, end_of_line));
                 m = snd (strncpy m (name_buf L) load_script (end_of_line - load_script));
                 load_script = end_of_line + 1;
                 load_script = (if isCRLF then load_script + 1 else load_script)
             in bindE (dispatch L mode (k\<lparr>kmem := m\<rparr>)) (\<lambda>k. Inr (k, load_script, isCRLF)))))"

fun script_loop :: "nat \<Rightarrow> 'h loader \<Rightarrow> 'h kernel \<Rightarrow> addr \<Rightarrow> addr \<Rightarrow> bool \<Rightarrow> 'h kernel res" where
  "script_loop fuel L k load_script load_script_end isCRLF =
     (if load_script < load_script_end then
        case fuel of
          0 \<Rightarrow> Inl Diverge
        | Suc fuel \<Rightarrow> bindE (script_line L k load_script isCRLF) (\<lambda>(k, load_script, isCRLF).
            script_loop fuel L k load_script load_script_end isCRLF)
      else Inr k)"

declare script_loop.simps [simp del]

definition script_execute :: "'h loader \<Rightarrow> 'h kernel \<Rightarrow> addr \<Rightarrow> u64 \<Rightarrow> (int \<times> 'h kernel) res" where
  "script_execute L k load_script load_len =
     bindE (script_loop (unat load_len) L k load_script (load_script + load_len) False) (\<lambda>k. Inr (0, k))"

text \<open>The three entry points differ in the file and in the message.\<close>

definition execute_file :: "'h loader \<Rightarrow> string \<Rightarrow> addr \<Rightarrow> 'h kernel \<Rightarrow> (int \<times> 'h kernel) res" where
  "execute_file L missing lit_file k =
     bindE (returns (Initrd_GetFile (kmem k) (boot L) lit_file NULL 0)) (\<lambda>(found, load_script, load_len).
       if \<not> found then Inl (Panic missing) else script_execute L k load_script load_len)"

definition loadscript_execute :: "'h loader \<Rightarrow> addr \<Rightarrow> 'h kernel \<Rightarrow> (int \<times> 'h kernel) res" where
  "loadscript_execute L lit_file k = execute_file L ''[Kernel] Failed to find loadscript.'' lit_file k"

definition servicescript_execute :: "'h loader \<Rightarrow> addr \<Rightarrow> 'h kernel \<Rightarrow> (int \<times> 'h kernel) res" where
  "servicescript_execute L lit_file k = execute_file L ''[Kernel] Failed to find servicescript.'' lit_file k"

definition apscript_execute :: "'h loader \<Rightarrow> addr \<Rightarrow> 'h kernel \<Rightarrow> (int \<times> 'h kernel) res" where
  "apscript_execute L lit_file k = execute_file L ''[Kernel] Failed to find apscript.'' lit_file k"

section \<open>Scripts\<close>

type_synonym line = "u8 list \<times> u8 list"

text \<open>A line: five characters that select the command, an argument, and the line end.\<close>

definition line_ok :: "line \<Rightarrow> bool" where
  "line_ok l \<longleftrightarrow> length (fst l) = 5 \<and> 10 \<notin> set (snd l) \<and> last (fst l @ snd l) \<noteq> 13 \<and> length (snd l) < 1024"

definition line_text :: "line \<Rightarrow> u8 list" where
  "line_text l = fst l @ snd l @ [10]"

text \<open>The command of a line.\<close>

definition line_mode :: "line \<Rightarrow> int" where
  "line_mode l =
     (if fst l = str ''LOAD:'' then 0 else if fst l = str ''CALL:'' then 1 else if fst l = str ''USER:'' then 2
      else if hd (fst l) = 35 then - 2 else - 1)"

text \<open>The name buffer holding an argument.\<close>

definition with_name :: "'h loader \<Rightarrow> u8 list \<Rightarrow> 'h kernel \<Rightarrow> 'h kernel" where
  "with_name L s k = k\<lparr>kmem := wr (fill (kmem k) (name_buf L) 0 1024) (name_buf L) s\<rparr>"

text \<open>The meaning of a script.\<close>

primrec run_lines :: "'h loader \<Rightarrow> line list \<Rightarrow> 'h kernel \<Rightarrow> 'h kernel res" where
  "run_lines L [] k = Inr k"
| "run_lines L (l # ls) k = bindE (dispatch L (line_mode l) (with_name L (snd l) k)) (run_lines L ls)"

lemma strncpy_wr:
  assumes "\<And>j. j < n \<Longrightarrow> m (s + of_nat j) \<noteq> 0" "span d n \<inter> span s n = {}" "n < 2 ^ 64" "i \<le> n"
  shows "strncpy_loop (wr m d (rd m s i)) d s (of_nat n) (of_nat i) = wr m d (rd m s n)"
  using assms(4)
proof (induction "n - i" arbitrary: i)
  case 0
  then show ?case by (subst strncpy_loop.simps) simp
next
  case (Suc k)
  then have i: "i < n" by simp
  have "s + of_nat i \<notin> span d i" using assms(2,3) i mem_span[of i n s] span_mono[of i n d] by auto
  then have b: "wr m d (rd m s i) (s + of_nat i) = m (s + of_nat i)" by (simp add: wr_outside)
  have lt: "(of_nat i :: u64) < of_nat n" using i assms(3) by (simp add: word_less_nat_alt unat_of_nat_64)
  have "(wr m d (rd m s i))(d + of_nat i := m (s + of_nat i)) = wr m d (rd m s (Suc i))"
    using wr_snoc[of "rd m s i" m d "m (s + of_nat i)"] i assms(3) by (simp add: rd_def)
  then show ?case using Suc.hyps(1)[of "Suc i"] Suc.hyps(2) i lt b assms(1)
    by (subst strncpy_loop.simps) (simp add: add.commute)
qed

lemma strncpy_apart:
  "(\<And>j. j < n \<Longrightarrow> m (s + of_nat j) \<noteq> 0) \<Longrightarrow> span d n \<inter> span s n = {} \<Longrightarrow> n < 2 ^ 64 \<Longrightarrow>
   snd (strncpy m d s (of_nat n)) = wr m d (rd m s n)"
  using strncpy_wr[of n m s d 0] by (simp add: strncpy_def rd_def)

lemma rd_cstr: "cstr m p (s @ t) \<Longrightarrow> rd m p (length s) = s"
  using cstr_nth[of m p "s @ t"] by (intro nth_equalityI) (auto simp: rd_def nth_append)

lemma find_newline: "10 \<notin> set s \<Longrightarrow> find_sub [10] (s @ 10 # t) = Some (length s)"
  by (simp add: find_sub_Some) (auto simp: nth_append take_Suc_conv_app_nth hd_drop_conv_nth take_Suc dest: nth_mem)

lemma line_mode_text:
  assumes "cstr m p (line_text l @ rest)" "line_ok l"
  shows "script_mode m p = line_mode l"
proof -
  have c: "cstr m p (fst l @ (snd l @ [10] @ rest))" using assms(1) by (simp add: line_text_def)
  have r: "rd m p 5 = fst l" using rd_cstr[OF c] assms(2) by (simp add: line_ok_def)
  have "m p = hd (fst l)" using cstr_nth[OF c, of 0] assms(2) by (cases "fst l") (auto simp: line_ok_def)
  then show ?thesis by (simp add: script_mode_def line_mode_def r)
qed

lemma fill_outside: "a \<notin> span p n \<Longrightarrow> fill m p b n a = m a"
  by (simp add: fill_def span_def)

lemma script_line_text:
  assumes c: "cstr (kmem k) p (line_text l @ rest)" and l: "line_ok l"
    and p: "p \<noteq> NULL" "unat p + length (line_text l @ rest) < 2 ^ 64"
    and nl: "cstr (kmem k) (lit_newline L) [10]" "lit_newline L \<noteq> NULL"
    and apart: "span (name_buf L) 1024 \<inter> span p (length (line_text l @ rest) + 1) = {}"
  shows "script_line L k p False =
    bindE (dispatch L (line_mode l) (with_name L (snd l) k)) (\<lambda>k. Inr (k, p + of_nat (length (line_text l)), False))"
proof -
  let ?m = "kmem k"
  let ?n = "length (snd l)"
  let ?f = "fill ?m (name_buf L) 0 1024"
  have l5: "length (fst l) = 5" using l by (simp add: line_ok_def)
  have u: "p + of_nat i \<noteq> NULL" if "i \<le> length (line_text l @ rest)" for i
    using p that unat_add_lem[of p "of_nat i"] by (auto simp: unat_of_nat_64 unat_eq_0)
  have arg: "cstr ?m (p + 5) (snd l @ 10 # rest)"
    using cstr_drop[OF c, of 5] l5 by (simp add: line_text_def)
  have e: "strstr ?m (p + 5) (lit_newline L) = Some (p + 5 + of_nat ?n)"
    using strstr_find[OF arg nl(1) _ nl(2)] u[of 5] l l5 by (simp add: find_newline line_ok_def line_text_def)
  have e0: "p + 5 + of_nat ?n \<noteq> NULL" using u[of "5 + ?n"] l5 by (simp add: line_text_def add.assoc)
  have m: "memset ?m (name_buf L) 0 1024 = Some (name_buf L, ?f)" by (simp add: memset_fill)
  have f: "?f a = ?m a" if "a \<in> span p (length (line_text l @ rest) + 1)" for a
    using that apart by (intro fill_outside) auto
  have b: "p + 5 + of_nat ?n - 1 = p + of_nat (4 + ?n)" by simp
  have "p + of_nat (4 + ?n) \<in> span p (length (line_text l @ rest) + 1)"
    using p l5 by (intro mem_span) (auto simp: line_text_def)
  moreover have "?m (p + of_nat (4 + ?n)) = (fst l @ snd l) ! (4 + ?n)"
    using cstr_nth[OF c, of "4 + ?n"] l5 by (auto simp: line_text_def nth_append)
  moreover have "(fst l @ snd l) ! (4 + ?n) = last (fst l @ snd l)"
    using l5 last_conv_nth[of "fst l @ snd l"] by (cases "fst l") auto
  ultimately have cr: "?f (p + 5 + of_nat ?n - 1) \<noteq> 13" unfolding b using f l by (simp only: line_ok_def) simp
  have sp: "span (p + 5) ?n \<subseteq> span p (length (line_text l @ rest) + 1)"
    using span_split[of 5 ?n p] p l5 span_mono[of "5 + ?n" "length (line_text l @ rest) + 1" p] by (auto simp: line_text_def)
  have "rd ?f (p + 5) ?n = snd l"
    using rd_cstr[OF arg] rd_cong[of ?n "p + 5" ?f ?m] f sp p by (auto simp: line_text_def)
  moreover have "?f (p + 5 + of_nat j) \<noteq> 0" if "j < ?n" for j
    using cstr_nth[OF arg, of j] f[of "p + 5 + of_nat j"] mem_span[of j ?n "p + 5"] sp that p by (auto simp: line_text_def nth_append)
  moreover have "span (name_buf L) ?n \<inter> span (p + 5) ?n = {}"
    using apart sp span_mono[of ?n 1024 "name_buf L"] l by (auto simp: line_ok_def)
  ultimately have cp: "snd (strncpy ?f (name_buf L) (p + 5) (of_nat ?n)) = wr ?f (name_buf L) (snd l)"
    using strncpy_apart[of ?n ?f "p + 5" "name_buf L"] l by (simp add: line_ok_def)
  have nx: "p + 5 + of_nat ?n + 1 = p + of_nat (length (line_text l))" using l5 by (simp add: line_text_def)
  show ?thesis
    unfolding nx[symmetric] script_line_def Let_def line_mode_text[OF c l] e m returns_def option.case bindE_def sum.case prod.case
    using e0 cr cp by (simp add: with_name_def)
qed


text \<open>The lines leave the memory in \<open>P\<close> as it was.\<close>

primrec quiet :: "'h loader \<Rightarrow> addr set \<Rightarrow> line list \<Rightarrow> 'h kernel \<Rightarrow> bool" where
  "quiet L P [] k \<longleftrightarrow> True"
| "quiet L P (l # ls) k \<longleftrightarrow> (case dispatch L (line_mode l) (with_name L (snd l) k) of
     Inl _ \<Rightarrow> True
   | Inr k' \<Rightarrow> (\<forall>a \<in> P. kmem k' a = kmem k a) \<and> quiet L P ls k')"

definition script_text :: "line list \<Rightarrow> u8 list" where
  "script_text ls = concat (map line_text ls)"

lemma line_text_pos: "line_ok l \<Longrightarrow> 6 \<le> length (line_text l)"
  by (simp add: line_ok_def line_text_def)

lemma script_loop_runs:
  assumes "\<forall>l \<in> set ls. line_ok l" "length ls \<le> fuel"
    and "cstr (kmem k) p (script_text ls @ rest)" "p \<noteq> NULL" "unat p + length (script_text ls @ rest) < 2 ^ 64"
    and "cstr (kmem k) (lit_newline L) [10]" "lit_newline L \<noteq> NULL" "quiet L P ls k" "span (name_buf L) 1024 \<inter> P = {}"
    and "span p (length (script_text ls @ rest) + 1) \<subseteq> P" "span (lit_newline L) 2 \<subseteq> P"
  shows "script_loop fuel L k p (p + of_nat (length (script_text ls))) False = run_lines L ls k"
  using assms(1-6,8,10)
proof (induction ls arbitrary: fuel k p)
  case Nil
  then show ?case by (subst script_loop.simps) (simp add: script_text_def)
next
  case (Cons l ls)
  let ?n = "length (line_text l)"
  obtain f where f: "fuel = Suc f" "length ls \<le> f" using Cons.prems(2) by (cases fuel) auto
  have l: "line_ok l" using Cons.prems(1) by simp
  have t: "script_text (l # ls) @ rest = line_text l @ (script_text ls @ rest)" by (simp add: script_text_def)
  have c: "cstr (kmem k) p (line_text l @ (script_text ls @ rest))" and n: "unat p + length (line_text l @ (script_text ls @ rest)) < 2 ^ 64"
    and sp: "span p (length (line_text l @ (script_text ls @ rest)) + 1) \<subseteq> P"
    using Cons.prems(3,5,8) by (simp_all only: t)
  have up: "unat (p + of_nat i) = unat p + i" if "i \<le> length (line_text l @ (script_text ls @ rest))" for i
    using n that unat_add_lem[of p "of_nat i"] by (simp add: unat_of_nat_64)
  have lt: "p < p + of_nat (length (script_text (l # ls)))"
    using up[of "length (script_text (l # ls))"] line_text_pos[OF l] by (auto simp: word_less_nat_alt script_text_def)
  have ap: "span (name_buf L) 1024 \<inter> span p (length (line_text l @ (script_text ls @ rest)) + 1) = {}"
    using assms(9) sp by blast
  note sl = script_line_text[OF c l Cons.prems(4) n Cons.prems(6) assms(7) ap]
  have e: "p + of_nat ?n + of_nat (length (script_text ls)) = p + of_nat (length (script_text (l # ls)))"
    by (simp add: script_text_def add.assoc)
  have IH: "script_loop f L k' (p + of_nat ?n) (p + of_nat (length (script_text (l # ls)))) False = run_lines L ls k'"
    if "dispatch L (line_mode l) (with_name L (snd l) k) = Inr k'" for k'
  proof -
    have kp: "kmem k' a = kmem k a" if "a \<in> P" for a
      using Cons.prems(7) \<open>dispatch L (line_mode l) (with_name L (snd l) k) = Inr k'\<close> that by simp
    have q: "quiet L P ls k'" using Cons.prems(7) that by simp
    have s2: "span (p + of_nat ?n) (length (script_text ls @ rest) + 1) \<subseteq> P"
      using sp span_split[of ?n "length (script_text ls @ rest) + 1" p] n by auto
    have c2: "cstr (kmem k) (p + of_nat ?n) (script_text ls @ rest)" using cstr_drop[OF c, of ?n] by simp
    have "cstr (kmem k') (p + of_nat ?n) (script_text ls @ rest)" using kp s2 by (intro cstr_cong[OF c2]) auto
    moreover have "cstr (kmem k') (lit_newline L) [10]" using kp assms(11) by (intro cstr_cong[OF Cons.prems(6)]) (auto simp: numeral_2_eq_2)
    moreover have "p + of_nat ?n \<noteq> NULL" using up[of ?n] Cons.prems(4) by (auto simp: unat_eq_0)
    moreover have "unat (p + of_nat ?n) + length (script_text ls @ rest) < 2 ^ 64" using up[of ?n] n by simp
    ultimately show ?thesis using Cons.IH[OF _ f(2), of k' "p + of_nat ?n"] Cons.prems(1) s2 q unfolding e by simp
  qed
  show ?case using lt sl IH by (subst script_loop.simps) (auto simp: f(1) bindE_def split: sum.splits)
qed


lemma script_lines_length: "\<forall>l \<in> set ls. line_ok l \<Longrightarrow> length ls \<le> length (script_text ls)"
  by (induction ls) (auto simp: script_text_def dest!: line_text_pos)

lemma script_execute_runs:
  assumes "\<forall>l \<in> set ls. line_ok l"
    and "cstr (kmem k) p (script_text ls @ rest)" "p \<noteq> NULL" "unat p + length (script_text ls @ rest) < 2 ^ 64"
    and "cstr (kmem k) (lit_newline L) [10]" "lit_newline L \<noteq> NULL" "quiet L P ls k" "span (name_buf L) 1024 \<inter> P = {}"
    and "span p (length (script_text ls @ rest) + 1) \<subseteq> P" "span (lit_newline L) 2 \<subseteq> P"
  shows "script_execute L k p (of_nat (length (script_text ls))) = bindE (run_lines L ls k) (\<lambda>k. Inr (0, k))"
  using script_loop_runs[OF assms(1) script_lines_length[OF assms(1)] assms(2-10)] assms(4)
  by (simp add: script_execute_def unat_of_nat_64)


text \<open>An archive with one file \<^verbatim>\<open>s\<close>: a comment, then a call of a function that no module provides.\<close>

definition ex_lines :: "line list" where
  "ex_lines = [([35, 97, 97, 97, 97], []), (str ''CALL:'', [102])]"

definition ex_script_mem :: mem where
  "ex_script_mem = (\<lambda>a. if 0x807c \<le> a \<and> a < 0x8085 then 48 else 0)
     (0x8000 := 115, 0x8085 := 49, 0x8086 := 53,
      0x8200 := 35, 0x8201 := 97, 0x8202 := 97, 0x8203 := 97, 0x8204 := 97, 0x8205 := 10,
      0x8206 := 67, 0x8207 := 65, 0x8208 := 76, 0x8209 := 76, 0x820a := 58, 0x820b := 102, 0x820c := 10,
      0x100 := 115, 0x110 := 10)"

definition ex_loader :: "unit loader" where
  "ex_loader = \<lparr>boot = ex_bootinfo, alloc = (\<lambda>h sz. Inr (0, h)), run = (\<lambda>_ k. Inr (0, k)), run_user = (\<lambda>_ _ _ k. Inr k),
     name_buf = 0x1000, lit_newline = 0x110, lit_startnew = 0x120\<rparr>"

lemma ex_script_text: "script_text ex_lines = [35, 97, 97, 97, 97, 10, 67, 65, 76, 76, 58, 102, 10]" "\<forall>l \<in> set ex_lines. line_ok l"
  by (simp_all add: ex_lines_def script_text_def line_text_def line_ok_def str_def)

lemma ex_script_tar:
  "tar_at ex_script_mem 0x8000 [([115], script_text ex_lines)]" "cstr ex_script_mem 0x100 [115]" "cstr ex_script_mem 0x110 [10]"
  "cstr ex_script_mem 0x8200 (script_text ex_lines)"
  by (simp_all add: ex_script_text(1) rd_def octal_def ex_script_mem_def upt_rec blocks512_def)

lemma ex_comment: "dispatch L (line_mode ([35, 97, 97, 97, 97], [])) k = Inr k"
  by (simp add: line_mode_def str_def dispatch_def)

lemma ex_call: "dispatch ex_loader (line_mode (str ''CALL:'', [102])) (with_name ex_loader [102] (with_name ex_loader [] (ex_kernel ex_script_mem)))
    = Inl (Panic ''[Kernel] Failed to resolve function!'')"
proof -
  let ?k = "with_name ex_loader [102] (with_name ex_loader [] (ex_kernel ex_script_mem))"
  have c: "cstr (kmem ?k) 0x1000 [102]" by (simp add: with_name_def ex_loader_def ex_kernel_def wr_def fill_def)
  have n: "name_buf ex_loader = 0x1000" "kdb ?k = ex_db" by (simp_all add: ex_loader_def with_name_def ex_kernel_def)
  have md: "line_mode (str ''CALL:'', [102]) = 1" by (simp add: line_mode_def str_def)
  show ?thesis
    using findfunc_map[OF ex_db_ok(1) c, of 1 1]
    unfolding dispatch_def Let_def md elf_resolvefunction_def n by (simp add: bindE_def ex_db_ok(2))
qed

lemma ex_script_run: "run_lines ex_loader ex_lines (ex_kernel ex_script_mem) = Inl (Panic ''[Kernel] Failed to resolve function!'')"
  by (simp add: ex_lines_def ex_comment ex_call bindE_def)


text \<open>A line is taken to be at least five characters long: a comment of fewer swallows the start of the next line, and
  with it the command there.\<close>

theorem short_comment_swallows:
  "script_text [(str ''#'' @ [10] @ str ''LOA'', str ''D:x'')] = str ''#'' @ [10] @ str ''LOAD:x'' @ [10] \<and>
   line_ok (str ''#'' @ [10] @ str ''LOA'', str ''D:x'') \<and>
   run_lines L [(str ''#'' @ [10] @ str ''LOA'', str ''D:x'')] k = Inr (with_name L (str ''D:x'') k)"
  by (simp add: script_text_def line_text_def line_ok_def str_def line_mode_def dispatch_def bindE_def)

end
