(* ===== verification/Multiboot.thy ===== *)
theory Multiboot
  imports BootInfo ByteMem
begin

unbundle bit_operations_syntax

text \<open>
  The reader of the boot loader's information, \<^verbatim>\<open>kernel/src/platform/x86_64/pc/multiboot2.c\<close>: a walk over
  tags in memory that fills the boot information, clipping the regions of the memory map against the
  first two megabytes and the kernel image. The clipped address and length are also stored back into
  the loader's table. The memory of the map comes from \<open>malloc\<close>: \<open>fresh n\<close> is what it returns for \<open>n\<close> entries,
  with the contents they happen to have. The progress messages are left out.
\<close>

section \<open>Clipping a region\<close>

abbreviation (input) MiB2 :: u64 where "MiB2 \<equiv> 0x200000"

text \<open>
  A walk over a tag that describes memory: the loader's memory, the map being filled and the number of
  entries stored, and the size of the memory so far.
\<close>

record mmap_state =
  lmem :: mem
  lmap :: "CardinalMemMap list"
  mmap_entry :: u32
  total_mem :: u64

definition e_addr :: "mem \<Rightarrow> addr \<Rightarrow> u64" where "e_addr m p = ld64 m p"
definition e_len :: "mem \<Rightarrow> addr \<Rightarrow> u64" where "e_len m p = ld64 m (p + 8)"
definition entry_type :: "mem \<Rightarrow> addr \<Rightarrow> u32" where "entry_type m p = ld32 m (p + 16)"

definition shift_region :: "mem \<Rightarrow> addr \<Rightarrow> u64 \<Rightarrow> mem" where
  "shift_region m p diff =
     (let m = st64 m p (e_addr m p + diff) in st64 m (p + 8) (e_len m p - diff))"

text \<open>One turn of the loop over the regions; \<open>None\<close> is \<open>continue\<close>.\<close>

definition clip_low :: "mem \<Rightarrow> addr \<Rightarrow> mem option" where
  "clip_low m p =
     (if e_addr m p < MiB2 then
        let diff = MiB2 - e_addr m p in
        if diff \<ge> e_len m p then None else Some (shift_region m p diff)
      else Some m)"

definition clip_kernel :: "u64 \<Rightarrow> u64 \<Rightarrow> mem \<Rightarrow> addr \<Rightarrow> mem option" where
  "clip_kernel kernel_start_phys kernel_end_phys m p =
     (if e_addr m p \<ge> kernel_start_phys then
        let diff = kernel_end_phys - e_addr m p in
        if e_addr m p + e_len m p < kernel_end_phys then None
        else if e_addr m p < kernel_end_phys then Some (shift_region m p diff) else Some m
      else Some m)"

definition mmap_turn :: "u64 \<Rightarrow> u64 \<Rightarrow> addr \<Rightarrow> mmap_state \<Rightarrow> mmap_state res" where
  "mmap_turn ks ke p st =
     (let st = (if entry_type (lmem st) p = 1 then st\<lparr>total_mem := total_mem st + e_len (lmem st) p\<rparr> else st) in
      case clip_low (lmem st) p of
        None \<Rightarrow> Inr st
      | Some m \<Rightarrow>
        (let st = st\<lparr>lmem := m\<rparr> in
         case clip_kernel ks ke m p of
           None \<Rightarrow> Inr st
         | Some m \<Rightarrow>
             bindE (aset (lmap st) (uint (mmap_entry st)) \<lparr>mm_addr = e_addr m p, mm_len = e_len m p, mm_type = entry_type m p\<rparr>) (\<lambda>t.
               Inr (st\<lparr>lmem := m, lmap := t, mmap_entry := mmap_entry st + 1\<rparr>))))"

text \<open>The loop; the size of the tag and of its entries are read again in every turn.\<close>

definition tag_size :: "mem \<Rightarrow> addr \<Rightarrow> u32" where "tag_size m t = ld32 m (t + 4)"
definition tag_type :: "mem \<Rightarrow> addr \<Rightarrow> u32" where "tag_type m t = ld32 m t"
definition entry_size :: "mem \<Rightarrow> addr \<Rightarrow> u32" where "entry_size m t = ld32 m (t + 8)"

partial_function (option) mmap_loop :: "u64 \<Rightarrow> u64 \<Rightarrow> addr \<Rightarrow> u32 \<Rightarrow> mmap_state \<Rightarrow> mmap_state res option" where
  "mmap_loop ks ke t j st =
     (if j < tag_size (lmem st) t - 16 then
        (case mmap_turn ks ke (t + 16 + ucast j) st of
           Inl e \<Rightarrow> Some (Inl e)
         | Inr st \<Rightarrow> mmap_loop ks ke t (j + entry_size (lmem st) t) st)
      else Some (Inr st))"

section \<open>The tags\<close>

record MultibootInfo = CardinalBootInfo +
  FramebufferBPP :: u8
  elf_shdr_type :: u32
  elf_shdr_size :: u32
  elf_shdr_num :: u32
  elf_shdr_entsize :: u32
  elf_shdr_shndx :: u32
  elf_shdr_addr :: u64

definition zero_info :: MultibootInfo where
  "zero_info = \<lparr>MemorySize = 0, CardinalMemoryMapCount = 0, RSDPAddress = 0, InitrdStartAddress = 0, InitrdPhysStartAddress = 0,
     InitrdLength = 0, CardinalMemoryMap = [], FramebufferAddress = 0, FramebufferPitch = 0, FramebufferWidth = 0,
     FramebufferHeight = 0, FramebufferRedFieldPosition = 0, FramebufferRedMaskSize = 0, FramebufferGreenFieldPosition = 0,
     FramebufferGreenMaskSize = 0, FramebufferBlueFieldPosition = 0, FramebufferBlueMaskSize = 0, FramebufferBPP = 0,
     elf_shdr_type = 0, elf_shdr_size = 0, elf_shdr_num = 0, elf_shdr_entsize = 0, elf_shdr_shndx = 0, elf_shdr_addr = 0\<rparr>"

definition mmap_tag :: "(int \<Rightarrow> CardinalMemMap list option) \<Rightarrow> u64 \<Rightarrow> u64 \<Rightarrow> mem \<Rightarrow> addr \<Rightarrow> MultibootInfo \<Rightarrow> (mem \<times> MultibootInfo) res" where
  "mmap_tag fresh ks ke m t b =
     (if entry_size m t = 0 then Inl DivByZero
      else
        let entryCount = sint ((tag_size m t - 16) div entry_size m t);
            map0 = (case fresh entryCount of None \<Rightarrow> [] | Some l \<Rightarrow> l) in
        (case mmap_loop ks ke t 0 \<lparr>lmem = m, lmap = map0, mmap_entry = 0, total_mem = MemorySize b\<rparr> of
           None \<Rightarrow> Inl Diverge
         | Some r \<Rightarrow> bindE r (\<lambda>st.
             Inr (lmem st, b\<lparr>MemorySize := total_mem st, CardinalMemoryMap := lmap st, CardinalMemoryMapCount := of_int entryCount\<rparr>))))"

definition framebuffer_tag :: "mem \<Rightarrow> addr \<Rightarrow> MultibootInfo \<Rightarrow> MultibootInfo" where
  "framebuffer_tag m t b =
     b\<lparr>FramebufferAddress := ld64 m (t + 8), FramebufferPitch := ld32 m (t + 16), FramebufferWidth := ld32 m (t + 20),
       FramebufferHeight := ld32 m (t + 24), FramebufferBPP := m (t + 28),
       FramebufferRedFieldPosition := m (t + 32), FramebufferRedMaskSize := m (t + 33),
       FramebufferGreenFieldPosition := m (t + 34), FramebufferGreenMaskSize := m (t + 35),
       FramebufferBlueFieldPosition := m (t + 36), FramebufferBlueMaskSize := m (t + 37)\<rparr>"

definition elf_tag :: "mem \<Rightarrow> addr \<Rightarrow> MultibootInfo \<Rightarrow> MultibootInfo" where
  "elf_tag m t b =
     b\<lparr>elf_shdr_type := tag_type m t, elf_shdr_size := tag_size m t, elf_shdr_num := ld32 m (t + 8),
       elf_shdr_entsize := ld32 m (t + 12), elf_shdr_shndx := ld32 m (t + 16), elf_shdr_addr := t + 20\<rparr>"

definition module_tag :: "mem \<Rightarrow> addr \<Rightarrow> MultibootInfo \<Rightarrow> MultibootInfo" where
  "module_tag m t b =
     b\<lparr>InitrdStartAddress := ucast (ld32 m (t + 8)), InitrdPhysStartAddress := ucast (ld32 m (t + 8)),
       InitrdLength := ucast (ld32 m (t + 12) - ld32 m (t + 8))\<rparr>"

definition MULTIBOOT_TAG_TYPE_END :: u32 where "MULTIBOOT_TAG_TYPE_END = 0"
definition MULTIBOOT_TAG_TYPE_MODULE :: u32 where "MULTIBOOT_TAG_TYPE_MODULE = 3"
definition MULTIBOOT_TAG_TYPE_MMAP :: u32 where "MULTIBOOT_TAG_TYPE_MMAP = 6"
definition MULTIBOOT_TAG_TYPE_FRAMEBUFFER :: u32 where "MULTIBOOT_TAG_TYPE_FRAMEBUFFER = 8"
definition MULTIBOOT_TAG_TYPE_ELF_SECTIONS :: u32 where "MULTIBOOT_TAG_TYPE_ELF_SECTIONS = 9"
definition MULTIBOOT_TAG_TYPE_ACPI_OLD :: u32 where "MULTIBOOT_TAG_TYPE_ACPI_OLD = 14"
definition MULTIBOOT_TAG_TYPE_ACPI_NEW :: u32 where "MULTIBOOT_TAG_TYPE_ACPI_NEW = 15"
definition MULTIBOOT2_BOOTLOADER_MAGIC :: u32 where "MULTIBOOT2_BOOTLOADER_MAGIC = 0x36d76289"

lemmas tag_types = MULTIBOOT_TAG_TYPE_END_def MULTIBOOT_TAG_TYPE_MODULE_def MULTIBOOT_TAG_TYPE_MMAP_def
  MULTIBOOT_TAG_TYPE_FRAMEBUFFER_def MULTIBOOT_TAG_TYPE_ELF_SECTIONS_def MULTIBOOT_TAG_TYPE_ACPI_OLD_def
  MULTIBOOT_TAG_TYPE_ACPI_NEW_def

text \<open>The body of the \<open>switch\<close>, without the tag that ends the walk, which only moves the offset.\<close>

definition read_tag :: "(int \<Rightarrow> CardinalMemMap list option) \<Rightarrow> u64 \<Rightarrow> u64 \<Rightarrow> mem \<Rightarrow> addr \<Rightarrow> MultibootInfo \<Rightarrow> (mem \<times> MultibootInfo) res" where
  "read_tag fresh ks ke m t b =
     (let v = tag_type m t in
      if v = MULTIBOOT_TAG_TYPE_MMAP then mmap_tag fresh ks ke m t b
      else if v = MULTIBOOT_TAG_TYPE_FRAMEBUFFER then Inr (m, framebuffer_tag m t b)
      else if v = MULTIBOOT_TAG_TYPE_ELF_SECTIONS then Inr (m, elf_tag m t b)
      else if v = MULTIBOOT_TAG_TYPE_ACPI_OLD \<or> v = MULTIBOOT_TAG_TYPE_ACPI_NEW then Inr (m, b\<lparr>RSDPAddress := t + 8\<rparr>)
      else if v = MULTIBOOT_TAG_TYPE_MODULE then Inr (m, module_tag m t b)
      else Inr (m, b))"

definition round_tag :: "u32 \<Rightarrow> u32" where
  "round_tag s = (if s mod 8 \<noteq> 0 then s + (8 - s mod 8) else s)"

partial_function (option) tag_loop ::
  "(int \<Rightarrow> CardinalMemMap list option) \<Rightarrow> u64 \<Rightarrow> u64 \<Rightarrow> addr \<Rightarrow> u32 \<Rightarrow> u32 \<Rightarrow> mem \<Rightarrow> MultibootInfo \<Rightarrow> (mem \<times> MultibootInfo) res option" where
  "tag_loop fresh ks ke hdr total_size i m b =
     (if i < total_size then
        let t = hdr + ucast i in
        (case read_tag fresh ks ke m t b of
           Inl e \<Rightarrow> Some (Inl e)
         | Inr (m', b') \<Rightarrow>
             let i = (if tag_type m t = MULTIBOOT_TAG_TYPE_END then i + total_size else i) in
             tag_loop fresh ks ke hdr total_size (i + round_tag (ld32 m' (hdr + ucast (i + 4)))) m' b')
      else Some (Inr (m, b)))"

definition ParseAndSaveBootInformation ::
  "(int \<Rightarrow> CardinalMemMap list option) \<Rightarrow> u64 \<Rightarrow> u64 \<Rightarrow> mem \<Rightarrow> addr \<Rightarrow> u32 \<Rightarrow> (mem \<times> MultibootInfo) res" where
  "ParseAndSaveBootInformation fresh ks ke m boot_info magic =
     (if magic \<noteq> MULTIBOOT2_BOOTLOADER_MAGIC then Inl (Panic ''Multiboot2 magic number check failed.'')
      else case tag_loop fresh ks ke boot_info (ld32 m boot_info) 8 m zero_info of
             None \<Rightarrow> Inl Diverge
           | Some r \<Rightarrow> r)"

section \<open>What is written to a region\<close>

lemma span_fields:
  "span p 8 \<inter> span (p + 8) 8 = {}" "span (p + 16) 4 \<inter> span p 8 = {}" "span (p + 16) 4 \<inter> span (p + 8) 8 = {}"
  using span_next_disjoint[of 8 8 p] span_next_disjoint[of 16 4 p] span_split[of 8 8 p] by (simp_all) auto

lemma shift_region_sel:
  "e_addr (shift_region m p d) p = e_addr m p + d" "e_len (shift_region m p d) p = e_len m p - d"
  "entry_type (shift_region m p d) p = entry_type m p"
proof -
  let ?m = "st64 m p (ld64 m p + d)"
  have 1: "ld64 (st64 m' (p + 8) v) p = ld64 m' p" "ld32 (st64 m' (p + 8) v) (p + 16) = ld32 m' (p + 16)"
    "ld32 (st64 m' p v) (p + 16) = ld32 m' (p + 16)" "ld64 (st64 m' p v) (p + 8) = ld64 m' (p + 8)" for m' v
    using span_fields by (simp_all add: ld64_def ld32_def st64_def rd_wr_apart Int_commute)
  show "e_addr (shift_region m p d) p = e_addr m p + d" "e_len (shift_region m p d) p = e_len m p - d"
    "entry_type (shift_region m p d) p = entry_type m p"
    by (simp_all add: shift_region_def Let_def e_addr_def e_len_def entry_type_def 1)
qed

lemma clip_low_start: "clip_low m p = Some m' \<Longrightarrow> MiB2 \<le> e_addr m' p"
  by (auto simp: clip_low_def Let_def shift_region_sel split: if_splits)

lemma clip_kernel_start:
  assumes "clip_kernel ks ke m p = Some m'" "ks \<le> e_addr m p"
  shows "ke \<le> e_addr m' p \<and> e_addr m p \<le> e_addr m' p"
  using assms by (auto simp: clip_kernel_def Let_def shift_region_sel split: if_splits)

definition region_safe :: "u64 \<Rightarrow> CardinalMemMap \<Rightarrow> bool" where
  "region_safe ke e \<longleftrightarrow> MiB2 \<le> mm_addr e \<and> ke \<le> mm_addr e"

text \<open>The entries stored so far are safe, the others are those of the allocation.\<close>

definition map_safe :: "u64 \<Rightarrow> CardinalMemMap list \<Rightarrow> mmap_state \<Rightarrow> bool" where
  "map_safe ke map0 st \<longleftrightarrow> length (lmap st) = length map0 \<and> unat (mmap_entry st) \<le> length map0 \<and>
     (\<forall>k < length map0. if k < unat (mmap_entry st) then region_safe ke (lmap st ! k) else lmap st ! k = map0 ! k)"

lemma mmap_turn_safe:
  assumes "mmap_turn ks ke p st = Inr st'" "map_safe ke map0 st" "ks \<le> MiB2" "length map0 < 2 ^ 32"
  shows "map_safe ke map0 st'"
proof -
  define S where "S = (if entry_type (lmem st) p = 1 then st\<lparr>total_mem := total_mem st + e_len (lmem st) p\<rparr> else st)"
  have k: "map_safe ke map0 S" using assms(2) by (simp add: S_def map_safe_def)
  have turn: "mmap_turn ks ke p st = (case clip_low (lmem S) p of None \<Rightarrow> Inr S
     | Some m \<Rightarrow> (let st = S\<lparr>lmem := m\<rparr> in case clip_kernel ks ke m p of None \<Rightarrow> Inr st
        | Some m \<Rightarrow> bindE (aset (lmap st) (uint (mmap_entry st)) \<lparr>mm_addr = e_addr m p, mm_len = e_len m p, mm_type = entry_type m p\<rparr>) (\<lambda>t.
               Inr (st\<lparr>lmem := m, lmap := t, mmap_entry := mmap_entry st + 1\<rparr>))))"
    by (simp only: mmap_turn_def S_def Let_def)
  show ?thesis
  proof (cases "clip_low (lmem S) p")
    case None
    with assms(1) k show ?thesis by (simp add: turn Let_def)
  next
    case (Some m)
    note low = clip_low_start[OF Some]
    show ?thesis
    proof (cases "clip_kernel ks ke m p")
      case None
      with assms(1) k Some show ?thesis by (auto simp: turn Let_def map_safe_def)
    next
      case (Some m')
      let ?e = "\<lparr>mm_addr = e_addr m' p, mm_len = e_len m' p, mm_type = entry_type m' p\<rparr>"
      have e: "region_safe ke ?e"
        using clip_kernel_start[OF Some order_trans[OF assms(3) low]] order_trans[OF low] by (simp add: region_safe_def)
      let ?n = "mmap_entry S"
      have a: "aset (lmap S) (uint ?n) ?e = (if unat ?n < length map0 then Inr ((lmap S)[unat ?n := ?e]) else Inl OutOfBounds)"
        using k by (simp add: aset_def map_safe_def unat_iff_uint nat_uint_eq)
      have st': "unat ?n < length map0" "st' = S\<lparr>lmem := m', lmap := (lmap S)[unat ?n := ?e], mmap_entry := ?n + 1\<rparr>"
        using assms(1) \<open>clip_low (lmem S) p = Some m\<close> Some a
        by (simp_all add: turn Let_def split: if_splits)
      have "unat (?n + 1) = Suc (unat ?n)" using st'(1) assms(4) by (intro unat_inc[where k = "of_nat (length map0)"]) (simp add: word_less_nat_alt unat_of_nat take_bit_nat_eq_self)
      with k e st' show ?thesis by (auto simp: map_safe_def nth_list_update less_Suc_eq)
    qed
  qed
qed

lemma mmap_loop_safe:
  assumes "mmap_loop ks ke t j st = Some (Inr st')" "map_safe ke map0 st" "ks \<le> MiB2" "length map0 < 2 ^ 32"
  shows "map_safe ke map0 st'"
proof -
  have "\<forall>st'. r = Inr st' \<longrightarrow> map_safe ke map0 st \<longrightarrow> ks \<le> MiB2 \<longrightarrow> map_safe ke map0 st'" if "mmap_loop ks ke t j st = Some r" for r
  proof (rule mmap_loop.raw_induct[where P = "\<lambda>ks ke t j st r. \<forall>st'. r = Inr st' \<longrightarrow> map_safe ke map0 st \<longrightarrow> ks \<le> MiB2 \<longrightarrow> map_safe ke map0 st'", OF _ that])
    fix loop ks ke t j st r
    assume 1: "\<And>ks ke t j st r. loop ks ke t j st = Some r \<Longrightarrow> \<forall>st'. r = Inr st' \<longrightarrow> map_safe ke map0 st \<longrightarrow> ks \<le> MiB2 \<longrightarrow> map_safe ke map0 st'"
      and 2: "(if j < tag_size (lmem st) t - 16 then
        (case mmap_turn ks ke (t + 16 + ucast j) st of
           Inl e \<Rightarrow> Some (Inl e)
         | Inr st \<Rightarrow> loop ks ke t (j + entry_size (lmem st) t) st)
      else Some (Inr st)) = Some r"
    show "\<forall>st'. r = Inr st' \<longrightarrow> map_safe ke map0 st \<longrightarrow> ks \<le> MiB2 \<longrightarrow> map_safe ke map0 st'"
    proof (cases "j < tag_size (lmem st) t - 16")
      case True
      show ?thesis
      proof (cases "mmap_turn ks ke (t + 16 + ucast j) st")
        case (Inr st1)
        with True 2 have "loop ks ke t (j + entry_size (lmem st1) t) st1 = Some r" by simp
        from 1[OF this] mmap_turn_safe[OF Inr] assms(4) show ?thesis by blast
      qed (use 2 True in auto)
    qed (use 2 in auto)
  qed
  with assms show ?thesis by blast
qed

text \<open>What the boot information says of memory: either there is no map, or a safe part followed by what was in the allocation.\<close>

definition boot_map_safe :: "(int \<Rightarrow> CardinalMemMap list option) \<Rightarrow> u64 \<Rightarrow> MultibootInfo \<Rightarrow> bool" where
  "boot_map_safe fresh ke b \<longleftrightarrow> CardinalMemoryMap b = [] \<or>
     (\<exists>c map0 n. fresh c = Some map0 \<and> of_int c = CardinalMemoryMapCount b \<and> n \<le> length map0 \<and> length (CardinalMemoryMap b) = length map0 \<and>
        (\<forall>k < n. region_safe ke (CardinalMemoryMap b ! k)) \<and> drop n (CardinalMemoryMap b) = drop n map0)"

lemma mmap_tag_safe:
  assumes "mmap_tag fresh ks ke m t b = Inr (m', b')" "ks \<le> MiB2" "\<forall>n l. fresh n = Some l \<longrightarrow> length l < 2 ^ 32"
  shows "boot_map_safe fresh ke b'"
proof -
  let ?c = "sint ((tag_size m t - 16) div entry_size m t)"
  define map0 where "map0 = (case fresh ?c of None \<Rightarrow> [] | Some l \<Rightarrow> l)"
  from assms(1) obtain st where st: "mmap_loop ks ke t 0 \<lparr>lmem = m, lmap = map0, mmap_entry = 0, total_mem = MemorySize b\<rparr> = Some (Inr st)"
    "b' = b\<lparr>MemorySize := total_mem st, CardinalMemoryMap := lmap st, CardinalMemoryMapCount := of_int ?c\<rparr>"
    by (auto simp: mmap_tag_def Let_def map0_def bindE_eq_Inr split: if_splits option.splits)
  have l: "length map0 < 2 ^ 32" using assms(3) by (auto simp: map0_def split: option.splits)
  have s: "map_safe ke map0 st"
    by (rule mmap_loop_safe[OF st(1) _ assms(2) l]) (simp add: map_safe_def)
  show ?thesis
  proof (cases "fresh ?c")
    case None
    then have "map0 = []" by (simp add: map0_def)
    with s st(2) show ?thesis by (simp add: boot_map_safe_def map_safe_def)
  next
    case (Some l)
    then have "fresh ?c = Some map0" by (simp add: map0_def)
    moreover have "drop (unat (mmap_entry st)) (lmap st) = drop (unat (mmap_entry st)) map0"
      using s by (intro nth_equalityI) (auto simp: map_safe_def)
    moreover have "\<forall>k < unat (mmap_entry st). region_safe ke (lmap st ! k)" using s by (auto simp: map_safe_def)
    moreover have "length (lmap st) = length map0" "unat (mmap_entry st) \<le> length map0" using s by (simp_all add: map_safe_def)
    ultimately show ?thesis unfolding boot_map_safe_def st(2)
      by (intro disjI2 exI[of _ ?c] exI[of _ map0] exI[of _ "unat (mmap_entry st)"]) simp
  qed
qed

lemma read_tag_safe:
  assumes "read_tag fresh ks ke m t b = Inr (m', b')" "boot_map_safe fresh ke b" "ks \<le> MiB2"
    "\<forall>n l. fresh n = Some l \<longrightarrow> length l < 2 ^ 32"
  shows "boot_map_safe fresh ke b'"
proof (cases "tag_type m t = MULTIBOOT_TAG_TYPE_MMAP")
  case True
  with assms mmap_tag_safe show ?thesis by (simp add: read_tag_def Let_def)
next
  case False
  with assms have "CardinalMemoryMap b' = CardinalMemoryMap b" "CardinalMemoryMapCount b' = CardinalMemoryMapCount b"
    by (auto simp: read_tag_def Let_def framebuffer_tag_def elf_tag_def module_tag_def split: if_splits)
  with assms(2) show ?thesis by (simp add: boot_map_safe_def)
qed

lemma tag_loop_safe:
  assumes "tag_loop fresh ks ke hdr n i m b = Some (Inr (m', b'))" "boot_map_safe fresh ke b" "ks \<le> MiB2"
    "\<forall>n l. fresh n = Some l \<longrightarrow> length l < 2 ^ 32"
  shows "boot_map_safe fresh ke b'"
proof -
  have "\<forall>m' b'. r = Inr (m', b') \<longrightarrow> boot_map_safe fresh ke b \<longrightarrow> ks \<le> MiB2 \<longrightarrow> (\<forall>n l. fresh n = Some l \<longrightarrow> length l < 2 ^ 32) \<longrightarrow> boot_map_safe fresh ke b'"
    if "tag_loop fresh ks ke hdr n i m b = Some r" for r
  proof (rule tag_loop.raw_induct[where P = "\<lambda>fresh ks ke hdr n i m b r. \<forall>m' b'. r = Inr (m', b') \<longrightarrow> boot_map_safe fresh ke b \<longrightarrow> ks \<le> MiB2 \<longrightarrow> (\<forall>n l. fresh n = Some l \<longrightarrow> length l < 2 ^ 32) \<longrightarrow> boot_map_safe fresh ke b'", OF _ that])
    fix loop fresh ks ke hdr n i m b r
    assume 1: "\<And>fresh ks ke hdr n i m b r. loop fresh ks ke hdr n i m b = Some r \<Longrightarrow> \<forall>m' b'. r = Inr (m', b') \<longrightarrow> boot_map_safe fresh ke b \<longrightarrow> ks \<le> MiB2 \<longrightarrow> (\<forall>n l. fresh n = Some l \<longrightarrow> length l < 2 ^ 32) \<longrightarrow> boot_map_safe fresh ke b'"
      and 2: "(if i < n then
        let t = hdr + ucast i in
        (case read_tag fresh ks ke m t b of
           Inl e \<Rightarrow> Some (Inl e)
         | Inr (m', b') \<Rightarrow>
             let i = (if tag_type m t = MULTIBOOT_TAG_TYPE_END then i + n else i) in
             loop fresh ks ke hdr n (i + round_tag (ld32 m' (hdr + ucast (i + 4)))) m' b')
      else Some (Inr (m, b))) = Some r"
    show "\<forall>m' b'. r = Inr (m', b') \<longrightarrow> boot_map_safe fresh ke b \<longrightarrow> ks \<le> MiB2 \<longrightarrow> (\<forall>n l. fresh n = Some l \<longrightarrow> length l < 2 ^ 32) \<longrightarrow> boot_map_safe fresh ke b'"
    proof (cases "i < n")
      case True
      show ?thesis
      proof (cases "read_tag fresh ks ke m (hdr + ucast i) b")
        case (Inr mb)
        obtain m1 b1 where mb: "mb = (m1, b1)" by (cases mb)
        from True Inr mb 2 obtain i' where "loop fresh ks ke hdr n i' m1 b1 = Some r" by (auto simp: Let_def)
        from 1[OF this] read_tag_safe[of fresh ks ke m "hdr + ucast i" b m1 b1] Inr mb show ?thesis by blast
      qed (use True 2 in \<open>auto simp: Let_def\<close>)
    qed (use 2 in auto)
  qed
  with assms show ?thesis by blast
qed

text \<open>
  Whatever the loader's table contains, a region of the memory map that the kernel is given starts at
  or above two megabytes and at or above the end of the kernel image: the start-up neither hands out the
  memory below nor its own code. The entries for regions that were left out are not filled, though they
  are counted: they are those of the allocation.
\<close>

theorem boot_regions_safe:
  assumes "ParseAndSaveBootInformation fresh ks ke m info magic = Inr (m', b)" "ks \<le> MiB2"
    "\<forall>n l. fresh n = Some l \<longrightarrow> length l < 2 ^ 32"
  shows "boot_map_safe fresh ke b"
proof -
  have "boot_map_safe fresh ke zero_info" by (simp add: boot_map_safe_def zero_info_def)
  with assms tag_loop_safe show ?thesis
    by (auto simp: ParseAndSaveBootInformation_def split: if_splits option.splits)
qed

section \<open>The map of a well-formed table\<close>

text \<open>A region of the table, and what is left of it: the reference definition of the clipping.\<close>

definition entry_at :: "mem \<Rightarrow> addr \<Rightarrow> CardinalMemMap" where
  "entry_at m p = \<lparr>mm_addr = e_addr m p, mm_len = e_len m p, mm_type = entry_type m p\<rparr>"

definition cut_below :: "u64 \<Rightarrow> CardinalMemMap \<Rightarrow> CardinalMemMap" where
  "cut_below lim e = (if mm_addr e < lim then e\<lparr>mm_addr := lim, mm_len := mm_len e - (lim - mm_addr e)\<rparr> else e)"

definition clip :: "u64 \<Rightarrow> u64 \<Rightarrow> CardinalMemMap \<Rightarrow> CardinalMemMap option" where
  "clip ks ke e =
     (if mm_addr e < MiB2 \<and> mm_len e \<le> MiB2 - mm_addr e then None
      else let e = cut_below MiB2 e in
           if ks \<le> mm_addr e then if mm_addr e + mm_len e < ke then None else Some (cut_below ke e)
           else Some e)"

lemma shift_region_frame: "a \<notin> span p 16 \<Longrightarrow> shift_region m p d a = m a"
  using span_split[of 8 8 p] by (simp add: shift_region_def Let_def st64_def wr_outside)

lemma clip_low_some:
  "clip_low m p = (if mm_addr (entry_at m p) < MiB2 \<and> mm_len (entry_at m p) \<le> MiB2 - mm_addr (entry_at m p) then None
     else Some (if e_addr m p < MiB2 then shift_region m p (MiB2 - e_addr m p) else m))"
  by (simp add: clip_low_def Let_def entry_at_def)

lemma entry_at_shift: "e_addr m p < lim \<Longrightarrow> entry_at (shift_region m p (lim - e_addr m p)) p = cut_below lim (entry_at m p)"
  by (simp add: entry_at_def cut_below_def shift_region_sel)

lemma entry_at_no_shift: "\<not> e_addr m p < lim \<Longrightarrow> cut_below lim (entry_at m p) = entry_at m p"
  by (simp add: entry_at_def cut_below_def)

lemma clips:
  "case clip ks ke (entry_at m p) of
     None \<Rightarrow> clip_low m p = None \<or> (\<exists>m1. clip_low m p = Some m1 \<and> clip_kernel ks ke m1 p = None \<and> (\<forall>a. a \<notin> span p 16 \<longrightarrow> m1 a = m a))
   | Some e \<Rightarrow> \<exists>m1 m2. clip_low m p = Some m1 \<and> clip_kernel ks ke m1 p = Some m2 \<and> entry_at m2 p = e \<and> (\<forall>a. a \<notin> span p 16 \<longrightarrow> m2 a = m a)"
proof (cases "clip_low m p")
  case None
  then show ?thesis by (simp add: clip_low_some clip_def split: if_splits)
next
  case (Some m1)
  then have m1: "entry_at m1 p = cut_below MiB2 (entry_at m p)" "\<forall>a. a \<notin> span p 16 \<longrightarrow> m1 a = m a"
    "\<not> (mm_addr (entry_at m p) < MiB2 \<and> mm_len (entry_at m p) \<le> MiB2 - mm_addr (entry_at m p))"
    by (auto simp: clip_low_some entry_at_shift entry_at_no_shift shift_region_frame split: if_splits)
  have a: "e_addr m1 p = mm_addr (entry_at m1 p)" "e_len m1 p = mm_len (entry_at m1 p)" by (simp_all add: entry_at_def)
  have c: "clip ks ke (entry_at m p) = (if ks \<le> e_addr m1 p then if e_addr m1 p + e_len m1 p < ke then None else Some (cut_below ke (entry_at m1 p)) else Some (entry_at m1 p))"
    using m1(1,3) unfolding clip_def a by (auto simp: Let_def)
  show ?thesis unfolding c using Some m1(2)
    by (auto simp: clip_kernel_def Let_def entry_at_shift entry_at_no_shift shift_region_frame)
qed

definition free_len :: "CardinalMemMap \<Rightarrow> u64" where
  "free_len e = (if mm_type e = 1 then mm_len e else 0)"

lemma mmap_turn_spec:
  assumes "unat (mmap_entry st) < length (lmap st)"
  shows "\<exists>m. (\<forall>a. a \<notin> span p 16 \<longrightarrow> m a = lmem st a) \<and>
    mmap_turn ks ke p st = Inr (case clip ks ke (entry_at (lmem st) p) of
       None \<Rightarrow> st\<lparr>lmem := m, total_mem := total_mem st + free_len (entry_at (lmem st) p)\<rparr>
     | Some e \<Rightarrow> st\<lparr>lmem := m, total_mem := total_mem st + free_len (entry_at (lmem st) p),
                     lmap := (lmap st)[unat (mmap_entry st) := e], mmap_entry := mmap_entry st + 1\<rparr>)"
proof -
  define S where "S = (if entry_type (lmem st) p = 1 then st\<lparr>total_mem := total_mem st + e_len (lmem st) p\<rparr> else st)"
  have S: "S = st\<lparr>total_mem := total_mem st + free_len (entry_at (lmem st) p)\<rparr>"
    by (simp add: S_def free_len_def entry_at_def)
  have turn: "mmap_turn ks ke p st = (case clip_low (lmem S) p of None \<Rightarrow> Inr S
     | Some m \<Rightarrow> (let st = S\<lparr>lmem := m\<rparr> in case clip_kernel ks ke m p of None \<Rightarrow> Inr st
        | Some m \<Rightarrow> bindE (aset (lmap st) (uint (mmap_entry st)) \<lparr>mm_addr = e_addr m p, mm_len = e_len m p, mm_type = entry_type m p\<rparr>) (\<lambda>t.
               Inr (st\<lparr>lmem := m, lmap := t, mmap_entry := mmap_entry st + 1\<rparr>))))"
    by (simp only: mmap_turn_def S_def Let_def)
  have i: "uint (mmap_entry st) < int (length (lmap st))" using assms by (simp add: unat_iff_uint)
  show ?thesis
  proof (cases "clip ks ke (entry_at (lmem st) p)")
    case None
    with clips[where ks = ks and ke = ke and m = "lmem st" and p = p] consider "clip_low (lmem st) p = None"
      | m1 where "clip_low (lmem st) p = Some m1" "clip_kernel ks ke m1 p = None" "\<forall>a. a \<notin> span p 16 \<longrightarrow> m1 a = lmem st a" by auto
    then show ?thesis
    proof cases
      case 1
      with turn S None show ?thesis by (intro exI[of _ "lmem st"]) simp
    next
      case 2
      with turn S None show ?thesis by (intro exI[of _ m1]) simp
    qed
  next
    case (Some e)
    with clips[where ks = ks and ke = ke and m = "lmem st" and p = p] obtain m1 m2 where
      "clip_low (lmem st) p = Some m1" "clip_kernel ks ke m1 p = Some m2" "entry_at m2 p = e" "\<forall>a. a \<notin> span p 16 \<longrightarrow> m2 a = lmem st a" by auto
    with turn S Some i show ?thesis by (intro exI[of _ m2]) (simp add: entry_at_def nat_uint_eq)
  qed
qed

lemma span_inside: "k + n \<le> l \<Longrightarrow> l \<le> 2 ^ 64 \<Longrightarrow> span (p + of_nat k) n \<subseteq> span p l"
  using span_split[of k n p] span_mono[of "k + n" l p] by auto

lemma entry_at_cong:
  assumes "\<forall>a \<in> span p 20. m a = m' a"
  shows "entry_at m p = entry_at m' p"
proof -
  have "rd m p 8 = rd m' p 8" "rd m (p + 8) 8 = rd m' (p + 8) 8" "rd m (p + 16) 4 = rd m' (p + 16) 4"
    using assms span_inside[of 0 8 20 p] span_inside[of 8 8 20 p] span_inside[of 16 4 20 p]
    by (auto intro!: rd_cong)
  then show ?thesis by (simp add: entry_at_def e_addr_def e_len_def entry_type_def ld64_def ld32_def)
qed

lemma header_cong:
  assumes "\<forall>a \<in> span t 16. m a = m' a"
  shows "tag_size m t = tag_size m' t" "entry_size m t = entry_size m' t" "tag_type m t = tag_type m' t"
proof -
  have "rd m (t + 4) 4 = rd m' (t + 4) 4" "rd m (t + 8) 4 = rd m' (t + 8) 4" "rd m t 4 = rd m' t 4"
    using assms span_inside[of 4 4 16 t] span_inside[of 8 4 16 t] span_inside[of 0 4 16 t] by (auto intro!: rd_cong)
  then show "tag_size m t = tag_size m' t" "entry_size m t = entry_size m' t" "tag_type m t = tag_type m' t"
    by (simp_all add: tag_size_def entry_size_def tag_type_def ld32_def)
qed

lemma ucast_of_nat_small: "x < 2 ^ 32 \<Longrightarrow> ucast (of_nat x :: u32) = (of_nat x :: u64)"
  by (rule word_unat_eq_iff[THEN iffD2]) (simp add: unsigned_ucast_eq unsigned_of_nat take_bit_nat_eq_self)

text \<open>A tag with \<open>n\<close> regions of \<open>es\<close> bytes that fits in memory.\<close>

definition mmap_table :: "mem \<Rightarrow> addr \<Rightarrow> nat \<Rightarrow> nat \<Rightarrow> bool" where
  "mmap_table m t es n \<longleftrightarrow> tag_size m t = of_nat (16 + n * es) \<and> entry_size m t = of_nat es \<and>
     20 \<le> es \<and> 16 + Suc n * es < 2 ^ 31 \<and> unat t + 16 + n * es + 4 \<le> 2 ^ 64"

definition region_addr :: "addr \<Rightarrow> nat \<Rightarrow> nat \<Rightarrow> addr" where
  "region_addr t es k = t + of_nat (16 + k * es)"

lemma region_addr_unat: "mmap_table m t es n \<Longrightarrow> k < n \<Longrightarrow> unat (region_addr t es k) = unat t + 16 + k * es"
proof -
  assume a: "mmap_table m t es n" "k < n"
  have k: "k * es \<le> n * es" using a(2) by simp
  have "unat t + 16 + n * es + 4 \<le> 2 ^ 64" using a(1) by (simp add: mmap_table_def)
  with k have l: "unat t + (16 + k * es) < 2 ^ 64" by linarith
  have "unat (of_nat (16 + k * es) :: u64) = 16 + k * es" using l by (intro unat_of_nat_64) linarith
  then show ?thesis using l unfolding region_addr_def by (subst unat_add_lem[THEN iffD1]) auto
qed

lemma region_apart:
  assumes "mmap_table m t es n" "k < n"
  shows "span t 16 \<inter> span (region_addr t es k) 16 = {}"
    "k < j \<Longrightarrow> j < n \<Longrightarrow> span (region_addr t es k) 16 \<inter> span (region_addr t es j) 20 = {}"
proof -
  note u = region_addr_unat[OF assms(1)]
  have t: "20 \<le> es" "unat t + 16 + n * es + 4 \<le> 2 ^ 64" using assms(1) by (simp_all add: mmap_table_def)
  have le: "Suc i * es \<le> n * es" if "i < n" for i using that by (metis Suc_leI mult_le_mono1)
  show "span t 16 \<inter> span (region_addr t es k) 16 = {}"
    using u[OF assms(2)] le[OF assms(2)] t by (intro span_apartI) auto
  assume j: "k < j" "j < n"
  have "Suc k * es \<le> j * es" using j(1) by (metis Suc_leI mult_le_mono1)
  then show "span (region_addr t es k) 16 \<inter> span (region_addr t es j) 20 = {}"
    using u[OF assms(2)] u[OF j(2)] le[OF j(2)] t by (intro span_apartI) auto
qed

definition regions :: "mem \<Rightarrow> addr \<Rightarrow> nat \<Rightarrow> nat \<Rightarrow> nat \<Rightarrow> CardinalMemMap list" where
  "regions m t es k n = map (\<lambda>i. entry_at m (region_addr t es i)) [k ..< n]"

lemma mmap_loop_spec:
  assumes "mmap_table (lmem st) t es n" "k \<le> n" "unat (mmap_entry st) + (n - k) \<le> length (lmap st)" "length (lmap st) < 2 ^ 32"
  shows "\<exists>m. (\<forall>a. a \<notin> (\<Union>i \<in> {k ..< n}. span (region_addr t es i) 16) \<longrightarrow> m a = lmem st a) \<and>
    mmap_loop ks ke t (of_nat (k * es)) st = Some (Inr (let cl = List.map_filter (clip ks ke) (regions (lmem st) t es k n) in
      st\<lparr>lmem := m, total_mem := total_mem st + sum_list (map free_len (regions (lmem st) t es k n)),
         lmap := take (unat (mmap_entry st)) (lmap st) @ cl @ drop (unat (mmap_entry st) + length cl) (lmap st),
         mmap_entry := mmap_entry st + of_nat (length cl)\<rparr>))"
  using assms
proof (induction "n - k" arbitrary: k st)
  case 0
  then have k: "k = n" by simp
  have "tag_size (lmem st) t - 16 = of_nat (n * es)" using 0(2) by (simp add: mmap_table_def)
  then have "mmap_loop ks ke t (of_nat (k * es)) st = Some (Inr st)" unfolding k by (subst mmap_loop.simps) simp
  then show ?case unfolding k by (intro exI[of _ "lmem st"]) (simp add: regions_def Let_def List.map_filter_def)
next
  case (Suc d)
  then have k: "k < n" by simp
  let ?p = "region_addr t es k" and ?e = "entry_at (lmem st) (region_addr t es k)"
  have le: "Suc k * es \<le> n * es" using k by (metis Suc_leI mult_le_mono1)
  have small: "n * es < 2 ^ 32" "k * es < n * es" using Suc.prems(1) k by (auto simp: mmap_table_def)
  have ks32: "k * es < 2 ^ 32" using small by (rule order_less_trans[rotated])
  then have "unat (of_nat (n * es) :: u32) = n * es" "unat (of_nat (k * es) :: u32) = k * es"
    using small(1) by (simp_all only: unat_of_nat take_bit_nat_eq_self len_num1 len_bit0 len_bit1) simp_all
  then have go: "of_nat (k * es) < tag_size (lmem st) t - 16"
    using small Suc.prems(1) by (simp add: mmap_table_def word_less_nat_alt del: of_nat_mult mult_less_cancel2)
  have p: "t + 16 + ucast (of_nat (k * es) :: u32) = ?p"
    using ucast_of_nat_small[OF ks32] by (simp add: region_addr_def del: of_nat_mult)
  obtain m where m: "\<forall>a. a \<notin> span ?p 16 \<longrightarrow> m a = lmem st a" and
    turn: "mmap_turn ks ke ?p st = Inr (case clip ks ke ?e of
       None \<Rightarrow> st\<lparr>lmem := m, total_mem := total_mem st + free_len ?e\<rparr>
     | Some e \<Rightarrow> st\<lparr>lmem := m, total_mem := total_mem st + free_len ?e, lmap := (lmap st)[unat (mmap_entry st) := e], mmap_entry := mmap_entry st + 1\<rparr>)"
  proof -
    have "unat (mmap_entry st) < length (lmap st)" using Suc.prems(3) k by linarith
    from mmap_turn_spec[OF this, of ?p ks ke] show thesis using that by blast
  qed
  define st1 where "st1 = (case clip ks ke ?e of
       None \<Rightarrow> st\<lparr>lmem := m, total_mem := total_mem st + free_len ?e\<rparr>
     | Some e \<Rightarrow> st\<lparr>lmem := m, total_mem := total_mem st + free_len ?e, lmap := (lmap st)[unat (mmap_entry st) := e], mmap_entry := mmap_entry st + 1\<rparr>)"
  have lm: "lmem st1 = m" by (simp add: st1_def split: option.split)
  have "\<forall>a \<in> span t 16. lmem st1 a = lmem st a" using m region_apart(1)[OF Suc.prems(1) k] lm by blast
  note hdr = header_cong[OF this]
  then have tab: "mmap_table (lmem st1) t es n" and es: "entry_size (lmem st1) t = of_nat es" using Suc.prems(1) by (simp_all add: mmap_table_def)
  have inc: "unat (mmap_entry st + 1) = Suc (unat (mmap_entry st))"
    using Suc.prems(3,4) k by (intro unat_inc[where k = "of_nat (length (lmap st))"]) (simp add: word_less_nat_alt unat_of_nat take_bit_nat_eq_self)
  have cap: "unat (mmap_entry st1) + (n - Suc k) \<le> length (lmap st1)" "length (lmap st1) < 2 ^ 32"
    using Suc.prems(3,4) k inc by (auto simp: st1_def split: option.split)
  have rest: "regions (lmem st1) t es (Suc k) n = regions (lmem st) t es (Suc k) n"
  proof -
    have "\<forall>a \<in> span (region_addr t es j) 20. lmem st1 a = lmem st a" if "j \<in> set [Suc k ..< n]" for j
      using region_apart(2)[OF Suc.prems(1) k, of j] that m lm by auto
    then show ?thesis unfolding regions_def by (intro map_cong refl entry_at_cong)
  qed
  obtain m' where m': "\<forall>a. a \<notin> (\<Union>i \<in> {Suc k ..< n}. span (region_addr t es i) 16) \<longrightarrow> m' a = lmem st1 a" and
    loop: "mmap_loop ks ke t (of_nat (Suc k * es)) st1 = Some (Inr (let cl = List.map_filter (clip ks ke) (regions (lmem st1) t es (Suc k) n) in
      st1\<lparr>lmem := m', total_mem := total_mem st1 + sum_list (map free_len (regions (lmem st1) t es (Suc k) n)),
         lmap := take (unat (mmap_entry st1)) (lmap st1) @ cl @ drop (unat (mmap_entry st1) + length cl) (lmap st1),
         mmap_entry := mmap_entry st1 + of_nat (length cl)\<rparr>))"
  proof -
    have "d = n - Suc k" "Suc k \<le> n" using Suc.hyps(2) k by auto
    from Suc.hyps(1)[OF this(1) tab this(2) cap] show thesis using that by blast
  qed
  have step: "mmap_loop ks ke t (of_nat (k * es)) st = mmap_loop ks ke t (of_nat (Suc k * es)) st1"
    using go p turn es by (subst mmap_loop.simps) (simp add: st1_def[symmetric] add.commute)
  have reg: "regions (lmem st) t es k n = ?e # regions (lmem st) t es (Suc k) n"
    using k by (simp add: regions_def upt_conv_Cons)
  have out: "\<forall>a. a \<notin> (\<Union>i \<in> {k ..< n}. span (region_addr t es i) 16) \<longrightarrow> m' a = lmem st a"
    using m m' lm k by (auto simp: Bex_def)
  show ?case
  proof (cases "clip ks ke ?e")
    case None
    then have "st1 = st\<lparr>lmem := m, total_mem := total_mem st + free_len ?e\<rparr>" by (simp add: st1_def)
    with None out show ?thesis unfolding step loop rest reg
      by (intro exI[of _ m']) (simp add: Let_def List.map_filter_simps add.assoc)
  next
    case (Some e)
    then have st1: "st1 = st\<lparr>lmem := m, total_mem := total_mem st + free_len ?e, lmap := (lmap st)[unat (mmap_entry st) := e], mmap_entry := mmap_entry st + 1\<rparr>"
      by (simp add: st1_def)
    have "unat (mmap_entry st) < length (lmap st)" using Suc.prems(3) k by simp
    then have "take (Suc (unat (mmap_entry st))) ((lmap st)[unat (mmap_entry st) := e]) = take (unat (mmap_entry st)) (lmap st) @ [e]"
      by (simp add: take_Suc_conv_app_nth)
    with Some out inc show ?thesis unfolding step loop rest reg
      by (intro exI[of _ m']) (simp add: Let_def List.map_filter_simps st1 add.assoc)
  qed
qed

lemma mmap_tag_spec:
  assumes "mmap_table m t es n" "fresh (int n) = Some map0" "length map0 = n"
  shows "\<exists>m' b'. mmap_tag fresh ks ke m t b = Inr (m', b') \<and>
    (let cl = List.map_filter (clip ks ke) (regions m t es 0 n) in
     CardinalMemoryMap b' = cl @ drop (length cl) map0) \<and>
    CardinalMemoryMapCount b' = of_nat n \<and> MemorySize b' = MemorySize b + sum_list (map free_len (regions m t es 0 n)) \<and>
    (\<forall>a. a \<notin> (\<Union>i < n. span (region_addr t es i) 16) \<longrightarrow> m' a = m a)"
proof -
  let ?st = "\<lparr>lmem = m, lmap = map0, mmap_entry = 0, total_mem = MemorySize b\<rparr>"
  have t: "20 \<le> es" "16 + Suc n * es < 2 ^ 31" "tag_size m t = of_nat (16 + n * es)" "entry_size m t = of_nat es"
    using assms(1) by (simp_all add: mmap_table_def)
  have n: "n < 2 ^ 31" "n * es < 2 ^ 32" "es < 2 ^ 32"
  proof -
    have "n * 1 \<le> n * es" using t(1) by (intro mult_le_mono2) simp
    then have "n \<le> n * es" by simp
    moreover have "es + n * es + 16 < 2 ^ 31" using t(2) by simp
    moreover have "(2 :: nat) ^ 31 < 2 ^ 32" by simp
    ultimately show "n < 2 ^ 31" "n * es < 2 ^ 32" "es < 2 ^ 32" by linarith+
  qed
  obtain m' where m': "\<forall>a. a \<notin> (\<Union>i \<in> {0 ..< n}. span (region_addr t es i) 16) \<longrightarrow> m' a = lmem ?st a" and
    loop: "mmap_loop ks ke t 0 ?st = Some (Inr (let cl = List.map_filter (clip ks ke) (regions m t es 0 n) in
      ?st\<lparr>lmem := m', total_mem := MemorySize b + sum_list (map free_len (regions m t es 0 n)),
         lmap := cl @ drop (length cl) map0, mmap_entry := of_nat (length cl)\<rparr>))"
    using mmap_loop_spec[of ?st t es n 0 ks ke] assms n by auto
  have ue: "unat (of_nat es :: u32) = es" "unat (of_nat (n * es) :: u32) = n * es"
    using n by (auto simp: unat_of_nat take_bit_nat_eq_self simp del: of_nat_mult)
  have "(tag_size m t - 16) div entry_size m t = of_nat n"
  proof (rule word_unat_eq_iff[THEN iffD2])
    have "unat (of_nat n :: u32) = n" using n(1) by (simp add: unat_of_nat take_bit_nat_eq_self)
    moreover have "tag_size m t - 16 = of_nat (n * es)" using t(3) by simp
    ultimately show "unat ((tag_size m t - 16) div entry_size m t) = unat (of_nat n :: u32)"
      using ue t(1,4) by (simp add: unat_div del: of_nat_mult)
  qed
  then have c: "sint ((tag_size m t - 16) div entry_size m t) = int n"
    using n(1) by (simp add: sint_uint unsigned_of_nat take_bit_nat_eq_self signed_take_bit_int_eq_self_iff)
  have nz: "entry_size m t \<noteq> 0" using ue t(1,4) by auto
  let ?cl = "List.map_filter (clip ks ke) (regions m t es 0 n)"
  have "mmap_tag fresh ks ke m t b = Inr (m', b\<lparr>MemorySize := MemorySize b + sum_list (map free_len (regions m t es 0 n)),
      CardinalMemoryMap := ?cl @ drop (length ?cl) map0, CardinalMemoryMapCount := of_nat n\<rparr>)"
    using nz loop assms(2) unfolding mmap_tag_def c by (simp add: Let_def)
  then show ?thesis using m' by (simp add: Let_def atLeast0LessThan)
qed

text \<open>
  C33. For a well-formed table the map of the boot information is the list of the loader's regions, in order,
  each clipped against the first two megabytes and the kernel image or left out when nothing remains, the
  size of memory grows by the lengths of the regions available before clipping, and nothing outside the
  regions is written. The count, however, is that of the table: the entries after the clipped list are
  those of the allocation.
\<close>

theorem mmap_tag_result:
  assumes "mmap_table m t es n" "fresh (int n) = Some map0" "length map0 = n"
  shows "\<exists>m' b'. mmap_tag fresh ks ke m t b = Inr (m', b') \<and>
    (let cl = List.map_filter (clip ks ke) (regions m t es 0 n) in
     CardinalMemoryMap b' = cl @ drop (length cl) map0) \<and>
    CardinalMemoryMapCount b' = of_nat n \<and> MemorySize b' = MemorySize b + sum_list (map free_len (regions m t es 0 n)) \<and>
    (\<forall>a. a \<notin> (\<Union>i < n. span (region_addr t es i) 16) \<longrightarrow> m' a = m a)"
  using assms by (rule mmap_tag_spec)

section \<open>The walk ends\<close>

text \<open>
  A well-formed chain of tags from the offset \<open>i\<close> of \<open>n\<close> bytes on, given by the sizes of the tags before the
  last, which has the type that ends the walk. The walk reads one more size, \<open>n\<close> bytes after the last tag,
  and adds it to the offset; it must not make the 32-bit offset wrap around.
\<close>

definition up8 :: "nat \<Rightarrow> nat" where
  "up8 s = 8 * ((s + 7) div 8)"

fun tag_chain :: "(int \<Rightarrow> CardinalMemMap list option) \<Rightarrow> mem \<Rightarrow> addr \<Rightarrow> nat \<Rightarrow> nat \<Rightarrow> nat list \<Rightarrow> bool" where
  "tag_chain fresh m hdr n i [] \<longleftrightarrow> i + 8 \<le> n \<and> tag_type m (hdr + of_nat i) = MULTIBOOT_TAG_TYPE_END \<and>
     i + n + unat (round_tag (ld32 m (hdr + of_nat (i + n + 4)))) < 2 ^ 32"
| "tag_chain fresh m hdr n i (s # ss) \<longleftrightarrow> i + up8 s \<le> n \<and> 8 \<le> s \<and> tag_type m (hdr + of_nat i) \<noteq> MULTIBOOT_TAG_TYPE_END \<and>
     tag_size m (hdr + of_nat i) = of_nat s \<and>
     (tag_type m (hdr + of_nat i) = MULTIBOOT_TAG_TYPE_MMAP \<longrightarrow>
        (\<exists>es k. mmap_table m (hdr + of_nat i) es k \<and> s = 16 + k * es \<and> (\<exists>l. fresh (int k) = Some l \<and> length l = k))) \<and>
     tag_chain fresh m hdr n (i + up8 s) ss"

lemma up8_ge: "s \<le> up8 s" and up8_lt: "up8 s < s + 8"
  unfolding up8_def by linarith+

lemma round_tag_up8: "s + 8 < 2 ^ 32 \<Longrightarrow> round_tag (of_nat s) = of_nat (up8 s)"
proof -
  assume s: "s + 8 < 2 ^ 32"
  have u: "unat (of_nat s :: u32) = s" using s by (simp add: unat_of_nat take_bit_nat_eq_self)
  have r: "(of_nat s :: u32) mod 8 = of_nat (s mod 8)"
  proof (rule word_unat_eq_iff[THEN iffD2])
    have "s mod 8 < 8" by simp
    then have "s mod 8 < 2 ^ 32" by (rule order_less_le_trans) simp
    then show "unat ((of_nat s :: u32) mod 8) = unat (of_nat (s mod 8) :: u32)"
      using u by (simp add: unat_mod unat_of_nat take_bit_nat_eq_self)
  qed
  have z: "(of_nat (s mod 8) :: u32) = 0 \<longleftrightarrow> s mod 8 = 0"
    using mod_less_divisor[of 8 s] by (auto simp: word_unat_eq_iff unat_of_nat take_bit_nat_eq_self)
  have up: "up8 s = (if s mod 8 = 0 then s else s + (8 - s mod 8))"
  proof -
    obtain q r where s: "s = 8 * q + r" "r < 8"
      by (rule that[OF mult_div_mod_eq[of 8 s, symmetric]]) simp
    then have m: "s mod 8 = r" by simp
    have "(s + 7) div 8 = (if r = 0 then q else q + 1)" using s by (intro div_nat_eqI) auto
    with s m show ?thesis by (simp add: up8_def)
  qed
  have "(of_nat (s + (8 - s mod 8)) :: u32) = of_nat s + (8 - of_nat (s mod 8))"
    using mod_less_divisor[of 8 s] by (simp add: of_nat_diff)
  then show ?thesis by (simp add: round_tag_def r z up)
qed

lemma tag_chain_cong:
  assumes "tag_chain fresh m hdr n i ss" "\<forall>a. a \<notin> span hdr i \<longrightarrow> m' a = m a" "unat hdr + 2 * n + 24 \<le> 2 ^ 64"
  shows "tag_chain fresh m' hdr n i ss"
  using assms(1,2)
proof (induction ss arbitrary: i)
  case Nil
  then have n: "i + 8 \<le> n" by simp
  have "span hdr i \<inter> span (hdr + of_nat i) (n + 8) = {}" using n assms(3) by (intro span_next_disjoint) linarith
  with Nil.prems(2) have eq: "\<forall>a \<in> span (hdr + of_nat i) (n + 8). m' a = m a" by blast
  have "span (hdr + of_nat i) 16 \<subseteq> span (hdr + of_nat i) (n + 8)" using n by (intro span_mono) simp
  with eq have h: "tag_type m' (hdr + of_nat i) = tag_type m (hdr + of_nat i)" by (intro header_cong(3)) blast
  have "span (hdr + of_nat i + of_nat (n + 4)) 4 \<subseteq> span (hdr + of_nat i) (n + 8)" using assms(3) by (intro span_inside) simp_all
  with eq have "rd m' (hdr + of_nat (i + n + 4)) 4 = rd m (hdr + of_nat (i + n + 4)) 4"
    by (intro rd_cong) (auto simp: add.assoc)
  with h Nil.prems(1) show ?case by (simp add: ld32_def)
next
  case (Cons s ss)
  then have n: "i + up8 s \<le> n" "8 \<le> s" by simp_all
  have "span hdr i \<inter> span (hdr + of_nat i) 16 = {}" using n assms(3) by (intro span_next_disjoint) linarith
  with Cons.prems(2) have "\<forall>a \<in> span (hdr + of_nat i) 16. m' a = m a" by blast
  note h = header_cong[OF this]
  have t: "mmap_table m' (hdr + of_nat i) es k = mmap_table m (hdr + of_nat i) es k" for es k by (simp add: mmap_table_def h)
  have "\<forall>a. a \<notin> span hdr (i + up8 s) \<longrightarrow> m' a = m a" using Cons.prems(2) span_mono[of i "i + up8 s" hdr] by auto
  with Cons.IH[of "i + up8 s"] Cons.prems(1) show ?case by (simp add: h t)
qed

lemma read_tag_ok:
  assumes "tag_chain fresh m hdr n i (s # ss)" "unat hdr + 2 * n + 24 \<le> 2 ^ 64" "n < 2 ^ 31"
  shows "\<exists>m' b'. read_tag fresh ks ke m (hdr + of_nat i) b = Inr (m', b') \<and>
    (\<forall>a. a \<notin> span (hdr + of_nat i + 16) (s - 16) \<longrightarrow> m' a = m a)"
proof (cases "tag_type m (hdr + of_nat i) = MULTIBOOT_TAG_TYPE_MMAP")
  case True
  let ?t = "hdr + of_nat i"
  from True assms(1) obtain es k l where k: "mmap_table m ?t es k" "s = 16 + k * es" "fresh (int k) = Some l" "length l = k" by auto
  obtain m' b' where r: "mmap_tag fresh ks ke m ?t b = Inr (m', b')" "\<forall>a. a \<notin> (\<Union>i < k. span (region_addr ?t es i) 16) \<longrightarrow> m' a = m a"
    using mmap_tag_spec[where fresh = fresh, OF k(1,3,4), of ks ke b] by auto
  have "span (region_addr ?t es j) 16 \<subseteq> span (?t + 16) (s - 16)" if "j < k" for j
  proof -
    have "Suc j * es \<le> k * es" using that by (metis Suc_leI mult_le_mono1)
    moreover have "20 \<le> es" "k * es + 16 < 2 ^ 31" using k(1) by (auto simp: mmap_table_def)
    ultimately have "j * es + 16 \<le> s - 16" "s - 16 \<le> 2 ^ 64" using k(2) by auto
    from span_inside[OF this, of "?t + 16"] show ?thesis by (simp add: region_addr_def add.assoc)
  qed
  then have "\<forall>a. a \<notin> span (?t + 16) (s - 16) \<longrightarrow> m' a = m a" using r(2) by blast
  with r(1) True show ?thesis by (auto simp: read_tag_def)
next
  case False
  then have "\<exists>b'. read_tag fresh ks ke m (hdr + of_nat i) b = Inr (m, b')" by (simp add: read_tag_def Let_def)
  then show ?thesis by auto
qed

lemma ucast_off: "i < 2 ^ 32 \<Longrightarrow> hdr + ucast (of_nat i :: u32) = (hdr + of_nat i :: addr)"
  by (simp add: ucast_of_nat_small)

lemma tag_loop_ends:
  assumes "tag_chain fresh m hdr n i ss" "unat hdr + 2 * n + 24 \<le> 2 ^ 64" "n < 2 ^ 31"
  shows "\<exists>m' b'. tag_loop fresh ks ke hdr (of_nat n) (of_nat i) m b = Some (Inr (m', b'))"
  using assms(1)
proof (induction ss arbitrary: i m b)
  case Nil
  then have i: "i + 8 \<le> n" "tag_type m (hdr + of_nat i) = MULTIBOOT_TAG_TYPE_END"
    "i + n + unat (round_tag (ld32 m (hdr + of_nat (i + n + 4)))) < 2 ^ 32" by simp_all
  let ?s = "round_tag (ld32 m (hdr + of_nat (i + n + 4)))"
  have lt: "(of_nat i :: u32) < of_nat n" using i(1) assms(3) by (simp add: word_less_nat_alt unat_of_nat take_bit_nat_eq_self)
  have r: "read_tag fresh ks ke m (hdr + of_nat i) b = Inr (m, b)" using i(2) by (simp add: read_tag_def Let_def tag_types)
  have a: "hdr + ucast (of_nat i :: u32) = hdr + of_nat i" "hdr + ucast (of_nat (i + n + 4) :: u32) = hdr + of_nat (i + n + 4)"
    using i(1) assms(3) by (intro ucast_off; simp)+
  have a2: "hdr + ucast (of_nat i + of_nat n + 4 :: u32) = hdr + of_nat (i + n + 4)" using a(2) by simp
  have "unat (of_nat (i + n) :: u32) = i + n" using i(3) by (simp add: unat_of_nat take_bit_nat_eq_self del: of_nat_add)
  then have "unat (of_nat (i + n) + ?s) = i + n + unat ?s"
    using i(3) by (subst unat_add_lem[THEN iffD1]) (simp_all del: of_nat_add)
  then have stop: "\<not> of_nat i + of_nat n + ?s < of_nat n" using assms(3) by (simp add: word_less_nat_alt unat_of_nat take_bit_nat_eq_self)
  have "tag_loop fresh ks ke hdr (of_nat n) (of_nat i) m b = tag_loop fresh ks ke hdr (of_nat n) (of_nat i + of_nat n + ?s) m b"
    using lt r i(2) a a2 by (subst tag_loop.simps) (simp add: Let_def)
  also have "\<dots> = Some (Inr (m, b))" using stop by (subst tag_loop.simps) simp
  finally show ?case by blast
next
  case (Cons s ss)
  then have c: "i + up8 s \<le> n" "8 \<le> s" "tag_type m (hdr + of_nat i) \<noteq> MULTIBOOT_TAG_TYPE_END"
    "tag_size m (hdr + of_nat i) = of_nat s" "tag_chain fresh m hdr n (i + up8 s) ss" by simp_all
  have s: "s \<le> up8 s" by (rule up8_ge)
  obtain m' b' where r: "read_tag fresh ks ke m (hdr + of_nat i) b = Inr (m', b')"
    "\<forall>a. a \<notin> span (hdr + of_nat i + 16) (s - 16) \<longrightarrow> m' a = m a"
    using read_tag_ok[OF Cons.prems assms(2,3)] by blast
  have "span (hdr + of_nat (i + 16)) (s - 16) \<subseteq> span hdr (i + up8 s)" if "16 < s"
    using that s c(1) assms(2) by (intro span_inside) simp_all
  then have out: "\<forall>a. a \<notin> span hdr (i + up8 s) \<longrightarrow> m' a = m a"
    using r(2) by (cases "16 < s") (auto simp: add.assoc span_def)
  have ch: "tag_chain fresh m' hdr n (i + up8 s) ss" by (rule tag_chain_cong[OF c(5) out assms(2)])
  have "span (hdr + of_nat i) 16 \<inter> span (hdr + of_nat i + of_nat 16) (s - 16) = {}"
    using s c(1) assms(2) by (intro span_next_disjoint) linarith
  then have sz: "ld32 m' (hdr + of_nat i + 4) = of_nat s"
    using header_cong(1)[of "hdr + of_nat i" m' m] r(2) c(4) by (auto simp: tag_size_def)
  have lt: "(of_nat i :: u32) < of_nat n" using c(1,2) s assms(3) by (simp add: word_less_nat_alt unat_of_nat take_bit_nat_eq_self)
  have a: "hdr + ucast (of_nat i :: u32) = hdr + of_nat i" "hdr + ucast (of_nat (i + 4) :: u32) = hdr + of_nat (i + 4)"
    using c(1,2) s assms(3) by (intro ucast_off; simp)+
  have a2: "hdr + ucast (of_nat i + 4 :: u32) = hdr + of_nat i + 4" using a(2) by (simp add: add.assoc)
  have "s + 8 < 2 ^ 32" using c(1) s assms(3) by simp
  note r8 = round_tag_up8[OF this]
  have "tag_loop fresh ks ke hdr (of_nat n) (of_nat i) m b = tag_loop fresh ks ke hdr (of_nat n) (of_nat (i + up8 s)) m' b'"
    using lt r(1) c(3) a(1) a2 sz r8 by (subst tag_loop.simps) (simp add: Let_def add.assoc)
  with Cons.IH[OF ch] show ?case by simp
qed


text \<open>A tag of size zero is read for ever, and a loader with another magic number is refused.\<close>

lemma zero_size_tag_diverges:
  assumes "i < n" "read_tag fresh ks ke m (hdr + ucast i) b = Inr (m, b)" "tag_type m (hdr + ucast i) \<noteq> MULTIBOOT_TAG_TYPE_END"
    "ld32 m (hdr + ucast (i + 4)) = 0"
  shows "tag_loop fresh ks ke hdr n i m b = None"
proof (rule ccontr)
  assume "tag_loop fresh ks ke hdr n i m b \<noteq> None"
  then obtain r where r: "tag_loop fresh ks ke hdr n i m b = Some r" by blast
  have "i < n \<and> read_tag fresh ks ke m (hdr + ucast i) b = Inr (m, b) \<and> tag_type m (hdr + ucast i) \<noteq> MULTIBOOT_TAG_TYPE_END \<and>
      ld32 m (hdr + ucast (i + 4)) = 0 \<longrightarrow> False"
    by (rule tag_loop.raw_induct[where P = "\<lambda>fresh ks ke hdr n i m b r. i < n \<and> read_tag fresh ks ke m (hdr + ucast i) b = Inr (m, b) \<and>
          tag_type m (hdr + ucast i) \<noteq> MULTIBOOT_TAG_TYPE_END \<and> ld32 m (hdr + ucast (i + 4)) = 0 \<longrightarrow> False", OF _ r])
      (auto simp: Let_def round_tag_def; blast)
  with assms show False by blast
qed

lemma wrong_magic_refused: "magic \<noteq> MULTIBOOT2_BOOTLOADER_MAGIC \<Longrightarrow>
    ParseAndSaveBootInformation fresh ks ke m info magic = Inl (Panic ''Multiboot2 magic number check failed.'')"
  by (simp add: ParseAndSaveBootInformation_def)

section \<open>Concrete cases\<close>

text \<open>
  A block at \<open>0x10000\<close> of 72 bytes: a memory map with two regions, the memory below 640 KiB and sixteen
  megabytes from the first on, and the end tag. The bytes after it are zero.
\<close>

definition ex_mb_bytes :: "u8 list" where
  "ex_mb_bytes =
     [72, 0, 0, 0, 0, 0, 0, 0] @
     [6, 0, 0, 0, 56, 0, 0, 0, 20, 0, 0, 0, 0, 0, 0, 0] @
     [0, 0, 0, 0, 0, 0, 0, 0, 0, 0, 0x0A, 0, 0, 0, 0, 0, 1, 0, 0, 0] @
     [0, 0, 0x10, 0, 0, 0, 0, 0, 0, 0, 0, 1, 0, 0, 0, 0, 1, 0, 0, 0] @
     [0, 0, 0, 0, 8, 0, 0, 0]"

definition ex_mb :: mem where
  "ex_mb = (\<lambda>a. if unat (a - 0x10000) < 72 then ex_mb_bytes ! unat (a - 0x10000) else 0)"

definition ex_junk :: CardinalMemMap where
  "ex_junk = \<lparr>mm_addr = 0xdead, mm_len = 0xbeef, mm_type = 7\<rparr>"

definition ex_fresh :: "int \<Rightarrow> CardinalMemMap list option" where
  "ex_fresh c = (if 0 \<le> c \<and> c < 100 then Some (replicate (nat c) ex_junk) else None)"

lemma rd_4: "rd m p 4 = [m p, m (p + 1), m (p + 2), m (p + 3)]"
  by (simp add: rd_def eval_nat_numeral)

lemma ex_mb_ld32:
  "ld32 ex_mb 0x10000 = 72" "tag_type ex_mb 0x10008 = 6" "tag_size ex_mb 0x10008 = 56" "entry_size ex_mb 0x10008 = 20"
  "tag_type ex_mb 0x10040 = 0" "ld32 ex_mb 0x1008C = 0"
  by (simp_all add: ld32_def tag_type_def tag_size_def entry_size_def rd_4 ex_mb_def ex_mb_bytes_def le_val_def)

lemma ex_mb_table: "mmap_table ex_mb 0x10008 20 2"
  by (simp add: mmap_table_def ex_mb_ld32)

lemma ex_mb_chain: "tag_chain ex_fresh ex_mb 0x10000 72 8 [56]"
proof -
  have "up8 56 = 56" by (simp add: up8_def)
  moreover have "\<exists>es k. mmap_table ex_mb 0x10008 es k \<and> (56 :: nat) = 16 + k * es \<and> (\<exists>l. ex_fresh (int k) = Some l \<and> length l = k)"
    using ex_mb_table by (intro exI[of _ 20] exI[of _ 2]) (simp add: ex_fresh_def)
  ultimately show ?thesis by (simp add: tag_types ex_mb_ld32 round_tag_def)
qed


lemma rd_8: "rd m p 8 = [m p, m (p + 1), m (p + 2), m (p + 3), m (p + 4), m (p + 5), m (p + 6), m (p + 7)]"
  by (simp add: rd_def eval_nat_numeral)

lemma ex_mb_regions: "regions ex_mb 0x10008 20 0 2 =
    [\<lparr>mm_addr = 0, mm_len = 0xA0000, mm_type = 1\<rparr>, \<lparr>mm_addr = 0x100000, mm_len = 0x1000000, mm_type = 1\<rparr>]"
  by (simp add: regions_def upt_rec region_addr_def entry_at_def e_addr_def e_len_def entry_type_def ld64_def ld32_def rd_8 rd_4 ex_mb_def
      ex_mb_bytes_def le_val_def)

theorem mmap_tag_result_witness:
  "\<exists>m' b'. mmap_tag ex_fresh 0x200000 0x400000 ex_mb 0x10008 zero_info = Inr (m', b') \<and>
     CardinalMemoryMap b' = [\<lparr>mm_addr = 0x400000, mm_len = 0xD00000, mm_type = 1\<rparr>, ex_junk] \<and> CardinalMemoryMapCount b' = 2 \<and>
     MemorySize b' = 0x10A0000"
proof -
  have cl: "List.map_filter (clip 0x200000 0x400000) (regions ex_mb 0x10008 20 0 2) = [\<lparr>mm_addr = 0x400000, mm_len = 0xD00000, mm_type = 1\<rparr>]"
    by (simp add: ex_mb_regions List.map_filter_simps clip_def cut_below_def Let_def)
  have f: "ex_fresh (int 2) = Some [ex_junk, ex_junk]" by (simp add: ex_fresh_def eval_nat_numeral)
  from mmap_tag_result[where fresh = ex_fresh, OF ex_mb_table f, of "0x200000" "0x400000" zero_info] cl show ?thesis
    by (auto simp: Let_def ex_mb_regions free_len_def zero_info_def)
qed

theorem boot_regions_safe_witness:
  "\<exists>m' b. ParseAndSaveBootInformation ex_fresh 0x200000 0x400000 ex_mb 0x10000 0x36d76289 = Inr (m', b) \<and> boot_map_safe ex_fresh 0x400000 b"
proof -
  have "\<forall>n l. ex_fresh n = Some l \<longrightarrow> length l < 2 ^ 32" by (auto simp: ex_fresh_def split: if_splits)
  moreover obtain m' b where "ParseAndSaveBootInformation ex_fresh 0x200000 0x400000 ex_mb 0x10000 0x36d76289 = Inr (m', b)"
    using tag_loop_ends[OF ex_mb_chain, of "0x200000" "0x400000" zero_info]
    by (auto simp: ParseAndSaveBootInformation_def MULTIBOOT2_BOOTLOADER_MAGIC_def ex_mb_ld32)
  ultimately show ?thesis using boot_regions_safe[of ex_fresh "0x200000" "0x400000" ex_mb "0x10000" "0x36d76289" m' b] by auto
qed

end
