(* ===== verification/BootPages.thy ===== *)
theory BootPages
  imports Multiboot PhysInit
begin

text \<open>
  The start of the machine from end to end: the boot loader's tags, the boot information written to the
  registry, and the page allocator that reads it there.
\<close>

lemma safe_free_regions:
  assumes "boot_map_safe fresh ke b" "\<forall>n l. fresh n = Some l \<longrightarrow> (\<forall>e \<in> set l. mm_type e \<noteq> 1)"
    and "r \<in> set (free_regions (CardinalMemoryMap b))"
  shows "region_safe ke r"
proof -
  from assms(3) have r: "r \<in> set (CardinalMemoryMap b)" "mm_type r = 1" by (simp_all add: free_regions_def)
  with assms(1) obtain c map0 n where f: "fresh c = Some map0" "n \<le> length map0" "length (CardinalMemoryMap b) = length map0"
    "\<forall>k < n. region_safe ke (CardinalMemoryMap b ! k)" "drop n (CardinalMemoryMap b) = drop n map0"
    by (auto simp: boot_map_safe_def)
  have "r \<notin> set (drop n map0)" using r(2) f(1) assms(2) set_drop_subset[of n map0] by blast
  with r(1) f(5) have "r \<in> set (take n (CardinalMemoryMap b))" by (metis Un_iff append_take_drop_id set_append)
  with f(4) show ?thesis by (auto simp: in_set_conv_nth)
qed

lemma region_pages_above:
  assumes "region_safe ke r" "p \<in> set (region_pages r)"
  shows "unat ke \<le> 4096 * p \<and> 512 \<le> p"
proof -
  have a: "unat ke \<le> unat (mm_addr r)" "0x200000 \<le> unat (mm_addr r)"
    using assms(1) by (simp_all add: region_safe_def word_le_nat_alt)
  have p: "(unat (mm_addr r) + 4095) div 4096 \<le> p" using assms(2) by (simp add: region_pages_def)
  have "unat (mm_addr r) \<le> 4096 * ((unat (mm_addr r) + 4095) div 4096)"
    using mult_div_mod_eq[of 4096 "unat (mm_addr r) + 4095"] mod_less_divisor[of 4096 "unat (mm_addr r) + 4095"] by linarith
  with p have "unat (mm_addr r) \<le> 4096 * p" by (meson le_trans mult_le_mono2)
  with a show ?thesis by linarith
qed


lemma ex_parsed:
  "\<exists>m' b. ParseAndSaveBootInformation ex_fresh 0x200000 0x400000 ex_mb 0x10000 0x36d76289 = Inr (m', b) \<and>
     CardinalMemoryMap b = [\<lparr>mm_addr = 0x400000, mm_len = 0xD00000, mm_type = 1\<rparr>, ex_junk] \<and> CardinalMemoryMapCount b = 2 \<and>
     MemorySize b = 0x10A0000"
proof -
  have cl: "List.map_filter (clip 0x200000 0x400000) (regions ex_mb 0x10008 20 0 2) = [\<lparr>mm_addr = 0x400000, mm_len = 0xD00000, mm_type = 1\<rparr>]"
    by (simp add: ex_mb_regions List.map_filter_simps clip_def cut_below_def Let_def)
  have f: "ex_fresh (int 2) = Some [ex_junk, ex_junk]" by (simp add: ex_fresh_def eval_nat_numeral)
  obtain m' b where r: "mmap_tag ex_fresh 0x200000 0x400000 ex_mb 0x10008 zero_info = Inr (m', b)"
    "CardinalMemoryMap b = [\<lparr>mm_addr = 0x400000, mm_len = 0xD00000, mm_type = 1\<rparr>, ex_junk]" "CardinalMemoryMapCount b = 2" "MemorySize b = 0x10A0000"
    "\<forall>a. a \<notin> (\<Union>i < 2. span (region_addr 0x10008 20 i) 16) \<longrightarrow> m' a = ex_mb a"
    using mmap_tag_spec[where fresh = ex_fresh, OF ex_mb_table f, of "0x200000" "0x400000" zero_info] cl
    by (auto simp: Let_def ex_mb_regions free_len_def zero_info_def)
  have inside: "span (region_addr 0x10008 20 i) 16 \<subseteq> span 0x10000 64" if "i < 2" for i
  proof -
    have "region_addr 0x10008 20 i = 0x10000 + of_nat (24 + i * 20)" by (simp add: region_addr_def)
    moreover have "24 + i * 20 + 16 \<le> 64" using that by simp
    ultimately show ?thesis using span_inside[of "24 + i * 20" 16 64 "0x10000"] by simp
  qed
  have out: "\<forall>a. a \<notin> span 0x10000 64 \<longrightarrow> m' a = ex_mb a" using r(5) inside by blast
  have "tag_chain ex_fresh ex_mb 0x10000 72 64 []" using ex_mb_chain by (simp add: up8_def)
  from tag_chain_cong[OF this out] have e: "tag_type m' 0x10040 = 0" "round_tag (ld32 m' 0x1008C) = 0"
  proof -
    have "rd m' 0x1008C 4 = rd ex_mb 0x1008C 4"
      by (rule rd_cong) (use out span_next_disjoint[of 140 4 "0x10000"] span_mono[of 64 140 "0x10000"] in auto)
    then show "round_tag (ld32 m' 0x1008C) = 0" using ex_mb_ld32(6) by (simp add: ld32_def round_tag_def)
    have "tag_type m' 0x10040 = tag_type ex_mb 0x10040"
      by (rule header_cong(3)) (use out span_next_disjoint[of 64 16 "0x10000"] in auto)
    then show "tag_type m' 0x10040 = 0" by (simp add: ex_mb_ld32)
  qed
  have h: "ld32 m' 0x1000C = 56"
  proof -
    have "\<forall>a \<in> span 0x10008 16. m' a = ex_mb a"
      using r(5) region_apart(1)[OF ex_mb_table] by blast
    from header_cong(1)[OF this] show ?thesis using ex_mb_ld32(3) by (simp add: tag_size_def)
  qed
  have "tag_loop ex_fresh 0x200000 0x400000 0x10000 72 8 ex_mb zero_info = tag_loop ex_fresh 0x200000 0x400000 0x10000 72 64 m' b"
    using r(1) h by (subst tag_loop.simps) (simp add: Let_def read_tag_def tag_types ex_mb_ld32 round_tag_def)
  also have "\<dots> = tag_loop ex_fresh 0x200000 0x400000 0x10000 72 136 m' b"
    using e by (subst tag_loop.simps) (simp add: Let_def read_tag_def tag_types)
  also have "\<dots> = Some (Inr (m', b))" by (subst tag_loop.simps) simp
  finally show ?thesis using r(2-4) by (auto simp: ParseAndSaveBootInformation_def MULTIBOOT2_BOOTLOADER_MAGIC_def ex_mb_ld32)
qed


end
