(* ===== verification/Bus.thy ===== *)
theory Bus
  imports Prelude
begin

text \<open>
  Access to devices: model specific registers, memory mapped registers and I/O ports. What the
  hardware answers to a read is not part of the program, so it is a parameter of every operation
  that reads: a \<open>device\<close> maps the accesses made so far, newest first, and the read being made to the
  value on the bus. What the program does to the hardware is the list of its accesses.
\<close>

section \<open>Accesses\<close>

datatype access =
    Rdmsr u32
  | Wrmsr u32 u64
  | MmioRead addr
  | MmioWrite addr u32
  | Inb u16
  | Outb u16 u8

type_synonym device = "access list \<Rightarrow> access \<Rightarrow> u64"

definition rdmsr :: "device \<Rightarrow> access list \<Rightarrow> u32 \<Rightarrow> u64 \<times> access list" where
  "rdmsr dev log r = (dev log (Rdmsr r), Rdmsr r # log)"

definition wrmsr :: "access list \<Rightarrow> u32 \<Rightarrow> u64 \<Rightarrow> access list" where
  "wrmsr log r v = Wrmsr r v # log"

definition outb :: "access list \<Rightarrow> u16 \<Rightarrow> u8 \<Rightarrow> access list" where
  "outb log port v = Outb port v # log"

definition inb :: "device \<Rightarrow> access list \<Rightarrow> u16 \<Rightarrow> u8 \<times> access list" where
  "inb dev log port = (ucast (dev log (Inb port)), Inb port # log)"

text \<open>A \<open>volatile\<close> load and store of 32 bits; the pointer must not be \<open>NULL\<close>.\<close>

definition mmio_read :: "device \<Rightarrow> access list \<Rightarrow> addr \<Rightarrow> u32 \<times> access list" where
  "mmio_read dev log p = (ucast (dev log (MmioRead p)), MmioRead p # log)"

definition mmio_write :: "access list \<Rightarrow> addr \<Rightarrow> u32 \<Rightarrow> access list" where
  "mmio_write log p v = MmioWrite p v # log"

section \<open>What was written\<close>

text \<open>The writes of a log, oldest first.\<close>

fun is_write :: "access \<Rightarrow> bool" where
  "is_write (Wrmsr r v) = True"
| "is_write (MmioWrite p v) = True"
| "is_write (Outb p v) = True"
| "is_write _ = False"

definition writes :: "access list \<Rightarrow> access list" where
  "writes log = rev (filter is_write log)"

lemma writes_Nil [simp]: "writes [] = []"
  by (simp add: writes_def)

lemma writes_Cons [simp]: "writes (a # log) = writes log @ (if is_write a then [a] else [])"
  by (simp add: writes_def)

end
