(* ===== verification/Apic.thy ===== *)
theory Apic
  imports Bus
begin

unbundle bit_operations_syntax

text \<open>
  The local interrupt controller of \<^verbatim>\<open>SysInterrupts/src/platform/x86_64/pc/apic.c\<close>: register access in
  the memory mapped and in the x2APIC mode, the end of interrupt, inter-processor interrupts, the
  masking of the legacy controller, and the message signalled interrupt addresses of \<^verbatim>\<open>intr.c\<close>.
  \<open>None\<close> stands for a thread local pointer that is still \<open>NULL\<close>.
\<close>

section \<open>Registers\<close>

record apic_t =
  base_addr :: addr
  apic_id :: u32
  x2apic_mode :: bool

definition APIC_ID :: u32 where "APIC_ID = 0x20"
definition APIC_TPR :: u32 where "APIC_TPR = 0x80"
definition APIC_EOI :: u32 where "APIC_EOI = 0xB0"
definition APIC_DFR :: u32 where "APIC_DFR = 0xE0"
definition APIC_SVR :: u32 where "APIC_SVR = 0xF0"
definition APIC_ISR :: u32 where "APIC_ISR = 0x100"
definition APIC_ICR_xAPIC_LO :: u32 where "APIC_ICR_xAPIC_LO = 0x300"
definition APIC_ICR_xAPIC_HI :: u32 where "APIC_ICR_xAPIC_HI = 0x310"
definition APIC_ICR_x2APIC :: u32 where "APIC_ICR_x2APIC = 0x300"
definition APIC_TIMER :: u32 where "APIC_TIMER = 0x320"
definition APIC_ICoR :: u32 where "APIC_ICoR = 0x380"

lemmas apic_offsets = APIC_ID_def APIC_TPR_def APIC_EOI_def APIC_DFR_def APIC_SVR_def APIC_ISR_def
  APIC_ICR_xAPIC_LO_def APIC_ICR_xAPIC_HI_def APIC_ICR_x2APIC_def APIC_TIMER_def APIC_ICoR_def

definition msr_of :: "u32 \<Rightarrow> u32" where
  "msr_of off = 0x800 + off div 16"

text \<open>\<open>base_addr[off / sizeof(uint32_t)]\<close>\<close>

definition reg_at :: "apic_t \<Rightarrow> u32 \<Rightarrow> addr" where
  "reg_at a off = base_addr a + 4 * ucast (off div 4)"

definition apic_read :: "device \<Rightarrow> apic_t option \<Rightarrow> access list \<Rightarrow> u32 \<Rightarrow> (u64 \<times> access list) res" where
  "apic_read dev apic log off =
     (case apic of
        None \<Rightarrow> Inl NullDeref
      | Some a \<Rightarrow>
          if x2apic_mode a then Inr (rdmsr dev log (msr_of off))
          else (let (v, log) = mmio_read dev log (reg_at a off) in Inr (ucast v, log)))"

text \<open>The mask \<open>~0xffffffff\<close> is computed at 32 bits, so it is \<open>0\<close>: nothing of the old value is kept.\<close>

definition apic_write :: "device \<Rightarrow> apic_t option \<Rightarrow> access list \<Rightarrow> u32 \<Rightarrow> u64 \<Rightarrow> access list res" where
  "apic_write dev apic log off val =
     (case apic of
        None \<Rightarrow> Inl NullDeref
      | Some a \<Rightarrow>
          if x2apic_mode a then
            if off = APIC_EOI then Inr (wrmsr log (msr_of off) val)
            else let (tmp, log) = rdmsr dev log (msr_of off) in
                 Inr (wrmsr log (msr_of off) ((tmp AND ucast (NOT (0xffffffff :: u32))) OR val))
          else Inr (mmio_write log (reg_at a off) (ucast val)))"

section \<open>The legacy controller\<close>

definition pic_fini :: "access list \<Rightarrow> int \<times> access list" where
  "pic_fini log =
     (let log = outb log 0x20 (0x10 + 0x01);
          log = outb log 0xA0 (0x10 + 0x01);
          log = outb log 0x21 32;
          log = outb log 0xA1 40;
          log = outb log 0x21 4;
          log = outb log 0xA1 2;
          log = outb log 0x21 0x01;
          log = outb log 0xA1 0x01;
          log = outb log 0x21 0xFF;
          log = outb log 0xA1 0xFF in
      (0, log))"

section \<open>Interrupts\<close>

definition interrupt_get_cpuidx :: "apic_t option \<Rightarrow> u32 res" where
  "interrupt_get_cpuidx apic = (case apic of None \<Rightarrow> Inl NullDeref | Some a \<Rightarrow> Inr (apic_id a))"

definition interrupt_sendeoi :: "device \<Rightarrow> apic_t option \<Rightarrow> access list \<Rightarrow> int \<Rightarrow> access list res" where
  "interrupt_sendeoi dev apic log irq =
     (let byte_off = (irq sdiv 32) * 16; bit_off = irq smod 32 in
      bindE (apic_read dev apic log (APIC_ISR + of_int byte_off)) (\<lambda>(v, log).
        if v AND scast (push_bit (nat bit_off) 1 :: 32 word) \<noteq> 0 then apic_write dev apic log APIC_EOI 0
        else Inr log))"

definition interrupt_sendipi ::
  "device \<Rightarrow> apic_t option \<Rightarrow> access list \<Rightarrow> 32 word \<Rightarrow> 32 word \<Rightarrow> 32 word \<Rightarrow> access list res" where
  "interrupt_sendipi dev apic log cpu vector delivery_mode =
     (let ipi_msg = (0 :: u64);
          ipi_msg = ipi_msg OR scast (vector AND 0xff);
          ipi_msg = ipi_msg OR scast (push_bit 8 (delivery_mode AND 0x7));
          ipi_msg = ipi_msg OR push_bit 14 1 in
      case apic of
        None \<Rightarrow> Inl NullDeref
      | Some a \<Rightarrow>
          if x2apic_mode a then
            let ipi_msg = ipi_msg OR push_bit 32 (scast cpu) in
            apic_write dev apic log APIC_ICR_x2APIC ipi_msg
          else
            let ipi_msg = ipi_msg OR push_bit 56 (scast cpu) in
            bindE (apic_write dev apic log APIC_ICR_xAPIC_HI (ucast (ucast (drop_bit 32 ipi_msg) :: u32))) (\<lambda>log.
              apic_write dev apic log APIC_ICR_xAPIC_LO (ucast (ucast ipi_msg :: u32))))"

definition msi_register_addr :: "32 word \<Rightarrow> u32" where
  "msi_register_addr cpu_idx = 0xFEE00000 OR push_bit 12 (cpu_idx AND 0xff) OR push_bit 3 1 OR push_bit 2 0"

definition msi_register_data :: "32 word \<Rightarrow> u64" where
  "msi_register_data vec = scast (vec AND 0xff)"

section \<open>What the hardware sees\<close>

lemma apic_write_x2:
  "x2apic_mode a \<Longrightarrow> \<exists>log'. apic_write dev (Some a) log off val = Inr log' \<and> writes log' = writes log @ [Wrmsr (msr_of off) val]"
  by (simp add: apic_write_def rdmsr_def wrmsr_def)

lemma apic_write_mmio:
  "\<not> x2apic_mode a \<Longrightarrow> \<exists>log'. apic_write dev (Some a) log off val = Inr log' \<and> writes log' = writes log @ [MmioWrite (reg_at a off) (ucast val)]"
  by (simp add: apic_write_def mmio_write_def)

text \<open>The low half of the interrupt command register: assert, the delivery mode and the vector.\<close>

definition icr_lo :: "u32 \<Rightarrow> u32 \<Rightarrow> u32" where
  "icr_lo vector delivery_mode = push_bit 14 1 OR push_bit 8 (take_bit 3 delivery_mode) OR take_bit 8 vector"

lemma mask_low: "x AND 0xff = take_bit 8 x" "x AND 0x7 = take_bit 3 x" for x :: "'a :: len word"
  by (simp_all add: take_bit_eq_mask mask_eq_exp_minus_1)

lemma scast_small:
  "scast (take_bit 8 v :: 32 word) = (ucast (take_bit 8 v) :: u64)"
  "scast (push_bit 8 (take_bit 3 v :: 32 word)) = (ucast (push_bit 8 (take_bit 3 v)) :: u64)"
  by (rule bit_word_eqI; auto simp: bit_simps bit_signed_iff min_def)+

lemma ucast_back: "ucast (ucast x :: u64) = (x :: u32)"
  by (rule bit_word_eqI) (simp add: bit_simps)

lemma bit_14_int: "bit (16384 :: int) n \<longleftrightarrow> n = 14"
proof -
  have "(16384 :: int) = push_bit 14 1" by (simp add: push_bit_eq_mult)
  then show ?thesis by (simp only: bit_simps) auto
qed

lemma ucast_icr_lo:
  "ucast (icr_lo v d) = (((0 :: u64) OR scast (v AND 0xff :: 32 word)) OR scast (push_bit 8 (d AND 0x7 :: 32 word))) OR push_bit 14 1"
  unfolding mask_low scast_small icr_lo_def
  by (rule bit_word_eqI) (auto simp: bit_simps bit_14_int)

text \<open>
  A request for an inter-processor interrupt reaches the controller as one write of the command
  register in x2APIC mode, and in the memory mapped mode as the destination first and then the low
  half, whose write sends the interrupt; in both modes the vector, the delivery mode and the
  destination are in their fields.
\<close>

theorem sendipi_writes:
  "\<exists>log'. interrupt_sendipi dev (Some a) log cpu vector delivery_mode = Inr log' \<and>
     writes log' = writes log @
       (if x2apic_mode a then [Wrmsr 0x830 (push_bit 32 (ucast cpu) OR ucast (icr_lo vector delivery_mode))]
        else [MmioWrite (base_addr a + 0x310) (push_bit 24 cpu), MmioWrite (base_addr a + 0x300) (icr_lo vector delivery_mode)])"
proof (cases "x2apic_mode a")
  case True
  have "(ucast (icr_lo vector delivery_mode) OR push_bit 32 (scast cpu) :: u64) = push_bit 32 (ucast cpu) OR ucast (icr_lo vector delivery_mode)"
    by (rule bit_word_eqI) (auto simp: bit_simps bit_signed_iff min_def not_le dest: le_antisym)
  with True apic_write_x2[OF True, of dev log APIC_ICR_x2APIC "push_bit 32 (ucast cpu) OR ucast (icr_lo vector delivery_mode)"] show ?thesis
    unfolding interrupt_sendipi_def Let_def ucast_icr_lo[symmetric] by (simp add: msr_of_def apic_offsets)
next
  case False
  let ?m = "ucast (icr_lo vector delivery_mode) OR push_bit 56 (scast cpu) :: u64"
  have hi: "ucast (drop_bit 32 ?m) = push_bit 24 cpu"
    by (rule bit_word_eqI) (auto simp: bit_simps bit_signed_iff icr_lo_def min_def)
  have lo: "ucast ?m = icr_lo vector delivery_mode"
    by (rule bit_word_eqI) (auto simp: bit_simps)
  have "interrupt_sendipi dev (Some a) log cpu vector delivery_mode =
      bindE (apic_write dev (Some a) log APIC_ICR_xAPIC_HI (ucast (push_bit 24 cpu))) (\<lambda>log.
        apic_write dev (Some a) log APIC_ICR_xAPIC_LO (ucast (icr_lo vector delivery_mode)))"
    using False unfolding interrupt_sendipi_def Let_def ucast_icr_lo[symmetric] hi lo by simp
  with False show ?thesis
    by (simp add: apic_write_def mmio_write_def reg_at_def apic_offsets ucast_back)
qed

lemma sendeoi_served:
  assumes "0 \<le> irq" "irq < 256"
    and v: "apic_read dev (Some a) log (APIC_ISR + of_int (irq div 32 * 16)) = Inr (v, log')"
    and b: "bit v (nat (irq mod 32))"
  shows "\<exists>log''. interrupt_sendeoi dev (Some a) log irq = Inr log'' \<and>
     writes log'' = writes log @ (if x2apic_mode a then [Wrmsr 0x80B 0] else [MmioWrite (base_addr a + 0xB0) 0])"
proof -
  have d: "irq sdiv 32 = irq div 32" "irq smod 32 = irq mod 32"
    using assms(1) by (simp_all add: signed_divide_int_def signed_modulo_int_def sgn_if)
  have "bit (scast (push_bit (nat (irq mod 32)) 1 :: 32 word) :: u64) (nat (irq mod 32))"
    by (auto simp: bit_simps bit_signed_iff min_def)
  with b have "bit (v AND scast (push_bit (nat (irq mod 32)) 1 :: 32 word)) (nat (irq mod 32))"
    by (simp add: bit_simps)
  then have "v AND scast (push_bit (nat (irq mod 32)) 1 :: 32 word) \<noteq> 0"
    by (metis bit_0_eq bot_apply bot_bool_def)
  moreover have "writes log' = writes log"
    using v by (auto simp: apic_read_def rdmsr_def mmio_read_def split: if_splits)
  ultimately show ?thesis using v
    by (auto simp: interrupt_sendeoi_def d apic_write_def wrmsr_def mmio_write_def reg_at_def msr_of_def apic_offsets)
qed

end
