(* ===== verification/Interrupts.thy ===== *)
theory Interrupts
  imports Apic TaskMgr
begin

unbundle bit_operations_syntax

text \<open>
  The interrupt descriptor table of \<^verbatim>\<open>SysInterrupts/src/platform/x86_64/pc/idt.c\<close>: the handlers
  registered for each of the 256 vectors, the allocation of vectors, the code stubs that the
  processor enters, the common entry that saves the registers, and the dispatcher that calls the
  handlers. A handler is a function pointer; what the function does is the parameter \<open>call\<close> of the
  dispatcher. The text the dispatcher prints for an interrupt without a handler is left out.
\<close>

section \<open>State\<close>

definition IDT_ENTRY_COUNT :: nat where "IDT_ENTRY_COUNT = 256"
definition IDT_HANDLER_CNT :: nat where "IDT_HANDLER_CNT = 16"
definition IDT_ENTRY_HANDLER_SIZE :: nat where "IDT_ENTRY_HANDLER_SIZE = 64"
definition IDT_TYPE_INTR :: u32 where "IDT_TYPE_INTR = 0xE"

lemmas idt_counts = IDT_ENTRY_COUNT_def IDT_HANDLER_CNT_def IDT_ENTRY_HANDLER_SIZE_def

record idt_t =
  offset0 :: u32
  seg_select :: u32
  ist :: u32
  zr0 :: u32
  gtype :: u32
  zr1 :: u32
  dpl :: u32
  gp :: u32
  offset1 :: u32
  offset2 :: u32
  zr2 :: u32

record regs_t =
  f_rsp :: u64
  f_r15 :: u64
  f_r14 :: u64
  f_r13 :: u64
  f_r12 :: u64
  f_r11 :: u64
  f_r10 :: u64
  f_r9 :: u64
  f_r8 :: u64
  f_rdi :: u64
  f_rsi :: u64
  f_rbp :: u64
  f_rdx :: u64
  f_rcx :: u64
  f_rbx :: u64
  f_rax :: u64
  f_int_no :: u64
  f_err_code :: u64
  f_rip :: u64
  f_cs :: u64
  f_rflags :: u64
  f_useresp :: u64
  f_ss :: u64

text \<open>
  \<open>reg_ref\<close> is either \<open>NULL\<close> or points to the frame of the interrupt being handled, which is the
  field \<open>frame\<close> of the whole state. \<open>reg_state\<close> is \<open>None\<close> when its allocation failed.
\<close>

record tls_idt_t =
  gates :: "idt_t list"
  reg_state :: "regs_t option"
  reg_ref :: bool

record intr =
  idt_tls :: "tls_idt_t option"
  idt_handlers :: "u8 list list"
  interrupt_funcs :: "addr list list"
  interrupt_blocked :: "bool list"
  interrupt_alloc_lock :: bool
  int_arr_inited :: bool
  iflag :: bool
  frame :: regs_t
  gs_kernel :: bool
  lapic :: "apic_t option"
  bus_log :: "access list"
  idt_register :: "u16 \<times> idt_t list"

definition idt_lock :: "intr \<Rightarrow> intr res" where
  "idt_lock st = (if interrupt_alloc_lock st then Inl Deadlock else Inr (st\<lparr>interrupt_alloc_lock := True\<rparr>))"

definition idt_unlock :: "intr \<Rightarrow> intr" where
  "idt_unlock st = st\<lparr>interrupt_alloc_lock := False\<rparr>"

definition idt_cli :: "intr \<Rightarrow> bool \<times> intr" where
  "idt_cli st = (iflag st, st\<lparr>iflag := False\<rparr>)"

definition idt_sti :: "intr \<Rightarrow> bool \<Rightarrow> intr" where
  "idt_sti st state = (if state then st\<lparr>iflag := True\<rparr> else st)"

definition swapgs :: "intr \<Rightarrow> intr" where
  "swapgs st = st\<lparr>gs_kernel := \<not> gs_kernel st\<rparr>"

lemmas idt_guard = idt_lock_def idt_unlock_def idt_cli_def idt_sti_def

section \<open>Handlers\<close>

text \<open>The loop over the slots of a vector: the first free one, from \<open>i\<close> on.\<close>

function free_slot :: "addr list \<Rightarrow> nat \<Rightarrow> (nat option) res" where
  "free_slot fs i =
     (if i < IDT_HANDLER_CNT then bindE (aget fs (int i)) (\<lambda>f. if f = NULL then Inr (Some i) else free_slot fs (Suc i))
      else Inr None)"
  by pat_completeness auto
termination by (relation "measure (\<lambda>(fs, i). IDT_HANDLER_CNT - i)") auto

declare free_slot.simps [simp del]

definition interrupt_registerhandler :: "intr \<Rightarrow> int \<Rightarrow> addr \<Rightarrow> intr res" where
  "interrupt_registerhandler st irq handler =
     (let (state, st) = idt_cli st in
      bindE (idt_lock st) (\<lambda>st.
      bindE (aget (interrupt_funcs st) irq) (\<lambda>fs.
      bindE (free_slot fs 0) (\<lambda>slot.
        case slot of
          Some i \<Rightarrow> Inr (idt_sti (idt_unlock (st\<lparr>interrupt_funcs := (interrupt_funcs st)[nat irq := fs[i := handler]]\<rparr>)) state)
        | None \<Rightarrow> Inl (Panic ''Interrupt oversubscribed!'')))))"

definition interrupt_unregisterhandler :: "intr \<Rightarrow> int \<Rightarrow> addr \<Rightarrow> intr res" where
  "interrupt_unregisterhandler st irq handler =
     (let (state, st) = idt_cli st in
      bindE (idt_lock st) (\<lambda>st.
      bindE (aget (interrupt_funcs st) irq) (\<lambda>fs.
        Inr (idt_sti (idt_unlock (st\<lparr>interrupt_funcs :=
          (interrupt_funcs st)[nat irq := map (\<lambda>f. if f = handler then NULL else f) fs]\<rparr>)) state))))"

section \<open>Allocation of vectors\<close>

definition interrupt_flags_exclusive :: u32 where "interrupt_flags_exclusive = 1"
definition interrupt_flags_fixed :: u32 where "interrupt_flags_fixed = 2"

lemmas interrupt_flags = interrupt_flags_exclusive_def interrupt_flags_fixed_def

text \<open>The loop that looks for a blocked vector among \<open>n\<close> from \<open>b\<close> on, and the one that blocks them.\<close>

fun any_blocked :: "bool list \<Rightarrow> int \<Rightarrow> nat \<Rightarrow> bool res" where
  "any_blocked bl b 0 = Inr False"
| "any_blocked bl b (Suc n) = bindE (aget bl b) (\<lambda>x. if x then Inr True else any_blocked bl (b + 1) n)"

fun block_all :: "bool list \<Rightarrow> int \<Rightarrow> nat \<Rightarrow> bool list res" where
  "block_all bl b 0 = Inr bl"
| "block_all bl b (Suc n) = bindE (aset bl b True) (\<lambda>bl. block_all bl (b + 1) n)"

definition allocate_fixed :: "intr \<Rightarrow> int \<Rightarrow> u32 \<Rightarrow> int \<Rightarrow> (int \<times> intr) res" where
  "allocate_fixed st cnt flags base =
     (let (state, st) = idt_cli st in
      bindE (idt_lock st) (\<lambda>st.
      bindE (any_blocked (interrupt_blocked st) base (nat cnt)) (\<lambda>bl.
        if bl then Inr (-1, idt_sti (idt_unlock st) state)
        else bindE (if flags AND interrupt_flags_exclusive \<noteq> 0 then block_all (interrupt_blocked st) base (nat cnt)
                    else Inr (interrupt_blocked st)) (\<lambda>b.
             Inr (0, idt_sti (idt_unlock (st\<lparr>interrupt_blocked := b\<rparr>)) state)))))"

text \<open>
  The search for a run of \<open>cnt\<close> free vectors: the vector being looked at, the start of the run and its
  length. The length is compared at the top of the body, before the vector is looked at.
\<close>

function find_run :: "bool list \<Rightarrow> int \<Rightarrow> int \<Rightarrow> int \<Rightarrow> int \<Rightarrow> (int option) res" where
  "find_run bl cnt i run_off run_len =
     (if i < int IDT_ENTRY_COUNT then
        if run_len \<ge> cnt then Inr (Some run_off)
        else bindE (aget bl i) (\<lambda>b.
          if b then find_run bl cnt (i + 1) (i + 1) 0
          else find_run bl cnt (i + 1) run_off (run_len + 1))
      else Inr None)"
  by pat_completeness auto
termination by (relation "measure (\<lambda>(bl, cnt, i, _). nat (int IDT_ENTRY_COUNT - i))") auto

declare find_run.simps [simp del]

definition interrupt_allocate :: "intr \<Rightarrow> int \<Rightarrow> u32 \<Rightarrow> int \<Rightarrow> (int \<times> int \<times> intr) res" where
  "interrupt_allocate st cnt flags base =
     (if flags AND interrupt_flags_fixed \<noteq> 0 then
        bindE (allocate_fixed st cnt flags base) (\<lambda>(err, st). Inr (err, base, st))
      else
        bindE (if base \<noteq> 0 then allocate_fixed st cnt (flags OR interrupt_flags_fixed) base else Inr (-1, st)) (\<lambda>(err, st).
          if base \<noteq> 0 \<and> err = 0 then Inr (0, base, st)
          else let (state, st) = idt_cli st in
               bindE (idt_lock st) (\<lambda>st.
               bindE (find_run (interrupt_blocked st) cnt 32 32 0) (\<lambda>r.
                 case r of
                   Some run_off \<Rightarrow>
                     bindE (if flags AND interrupt_flags_exclusive \<noteq> 0 then block_all (interrupt_blocked st) run_off (nat cnt)
                            else Inr (interrupt_blocked st)) (\<lambda>b.
                     Inr (0, run_off, idt_sti (idt_unlock (st\<lparr>interrupt_blocked := b\<rparr>)) state))
                 | None \<Rightarrow> Inr (-1, base, idt_sti (idt_unlock st) state)))))"

section \<open>Dispatch\<close>

function run_handlers :: "(addr \<Rightarrow> int \<Rightarrow> intr \<Rightarrow> intr res) \<Rightarrow> intr \<Rightarrow> nat \<Rightarrow> bool \<Rightarrow> (bool \<times> intr) res" where
  "run_handlers call st i handled =
     (if i < IDT_HANDLER_CNT then
        let int_no = uint (f_int_no (frame st)) in
        bindE (aget (interrupt_funcs st) int_no) (\<lambda>fs.
        bindE (aget fs (int i)) (\<lambda>f.
          if f \<noteq> NULL then bindE (call f int_no st) (\<lambda>st. run_handlers call st (Suc i) True)
          else run_handlers call st (Suc i) handled))
      else Inr (handled, st))"
  by pat_completeness auto
termination by (relation "measure (\<lambda>(call, st, i, _). IDT_HANDLER_CNT - i)") auto

declare run_handlers.simps [simp del]

definition user_frame :: "regs_t \<Rightarrow> bool" where
  "user_frame f \<longleftrightarrow> f_cs f AND 3 \<noteq> 0"

text \<open>
  The frame is the one in \<open>frame st\<close>, which the argument of the C function points to. The rest of the
  function, from the report of an interrupt without a handler on, comes first.
\<close>

definition mainhandler_rest :: "device \<Rightarrow> bool \<Rightarrow> intr \<Rightarrow> intr res" where
  "mainhandler_rest dev handled st =
     (if \<not> handled \<and> f_int_no (frame st) < 32 then Inl (Panic ''Failure!'')
      else case idt_tls st of
             None \<Rightarrow> Inl NullDeref
           | Some t \<Rightarrow>
             let st = st\<lparr>idt_tls := Some (t\<lparr>reg_ref := False\<rparr>)\<rparr> in
             bindE (if f_int_no (frame st) \<ge> 32
                    then bindE (interrupt_sendeoi dev (lapic st) (bus_log st) (sint (ucast (f_int_no (frame st)) :: 32 word)))
                           (\<lambda>log. Inr (st\<lparr>bus_log := log\<rparr>))
                    else Inr st) (\<lambda>st.
               Inr (if user_frame (frame st)
                    then swapgs (st\<lparr>frame := (frame st)\<lparr>f_ss := f_ss (frame st) OR 3\<rparr>\<rparr>)
                    else st)))"

definition idt_mainhandler :: "(addr \<Rightarrow> int \<Rightarrow> intr \<Rightarrow> intr res) \<Rightarrow> device \<Rightarrow> intr \<Rightarrow> intr res" where
  "idt_mainhandler call dev st =
     (let st = (if user_frame (frame st) then swapgs st else st);
          st = st\<lparr>frame := (frame st)\<lparr>f_int_no := take_bit 8 (f_int_no (frame st))\<rparr>\<rparr> in
      case idt_tls st of
        None \<Rightarrow> Inl NullDeref
      | Some t \<Rightarrow>
        (case reg_state t of
           None \<Rightarrow> Inl NullDeref
         | Some _ \<Rightarrow>
           let st = st\<lparr>idt_tls := Some (t\<lparr>reg_state := Some (frame st), reg_ref := True\<rparr>)\<rparr>;
               (state, st) = idt_cli st in
           bindE (idt_lock st) (\<lambda>st.
           bindE (run_handlers call st 0 False) (\<lambda>(handled, st).
             mainhandler_rest dev handled (idt_sti (idt_unlock st) state)))))"

section \<open>Access to the interrupted registers\<close>

definition the_ref :: "intr \<Rightarrow> unit res" where
  "the_ref st = (case idt_tls st of None \<Rightarrow> Inl NullDeref | Some t \<Rightarrow> if reg_ref t then Inr () else Inl NullDeref)"

definition regs_to_frame :: "regs \<Rightarrow> regs_t \<Rightarrow> regs_t" where
  "regs_to_frame s f =
     f\<lparr>f_r15 := r15 s, f_r14 := r14 s, f_r13 := r13 s, f_r12 := r12 s, f_r11 := r11 s, f_r10 := r10 s,
       f_r9 := r9 s, f_r8 := r8 s, f_rdi := rdi s, f_rsi := rsi s, f_rdx := rdx s, f_rcx := rcx s,
       f_rbx := rbx s, f_rax := rax s, f_rflags := rflags s, f_rip := rip s, f_cs := cs s, f_ss := ss s,
       f_rbp := rbp s, f_useresp := rsp s\<rparr>"

definition frame_to_regs :: "regs_t \<Rightarrow> regs" where
  "frame_to_regs f =
     \<lparr>r15 = f_r15 f, r14 = f_r14 f, r13 = f_r13 f, r12 = f_r12 f, r11 = f_r11 f, r10 = f_r10 f,
      r9 = f_r9 f, r8 = f_r8 f, rdi = f_rdi f, rsi = f_rsi f, rdx = f_rdx f, rcx = f_rcx f,
      rbx = f_rbx f, rax = f_rax f, rflags = f_rflags f, rip = f_rip f, cs = f_cs f, ss = f_ss f,
      rbp = f_rbp f, rsp = f_useresp f\<rparr>"

definition interrupt_setregisterstate :: "intr \<Rightarrow> regs option \<Rightarrow> intr res" where
  "interrupt_setregisterstate st state =
     (case state of
        None \<Rightarrow> Inr st
      | Some s \<Rightarrow> bindE (the_ref st) (\<lambda>_. Inr (st\<lparr>frame := regs_to_frame s (frame st)\<rparr>)))"

text \<open>\<open>state\<close> says whether the caller passed a pointer; the second component is what is stored through it.\<close>

definition interrupt_getregisterstate :: "intr \<Rightarrow> bool \<Rightarrow> (regs option) res" where
  "interrupt_getregisterstate st state =
     (if state then bindE (the_ref st) (\<lambda>_. Inr (Some (frame_to_regs (frame st)))) else Inr None)"

section \<open>The stubs and the table\<close>

fun emit :: "u8 list \<Rightarrow> int \<Rightarrow> u8 list \<Rightarrow> u8 list res" where
  "emit buf i [] = Inr buf"
| "emit buf i (b # bs) = bindE (aset buf i b) (\<lambda>buf. emit buf (i + 1) bs)"

text \<open>\<open>h\<close> is the address of \<open>idt_defaulthandler\<close>.\<close>

definition stub_code :: "addr \<Rightarrow> u8 \<Rightarrow> u8 \<Rightarrow> u8 list" where
  "stub_code h intNum pushToStack =
     (if pushToStack \<noteq> 0 then [0x6a, pushToStack] else []) @
     [0x6a, intNum, 0x50, 0x48, 0xb8,
      ucast (h AND 0xff), ucast (drop_bit 8 h AND 0xff), ucast (drop_bit 16 h AND 0xff), ucast (drop_bit 24 h AND 0xff),
      ucast (drop_bit 32 h AND 0xff), ucast (drop_bit (32 + 8) h AND 0xff), ucast (drop_bit (32 + 16) h AND 0xff),
      ucast (drop_bit (32 + 24) h AND 0xff), 0x50, 0xC3]"

definition idt_fillswinterrupthandler :: "addr \<Rightarrow> u8 list \<Rightarrow> u8 \<Rightarrow> u8 \<Rightarrow> u8 list res" where
  "idt_fillswinterrupthandler h idt_handler intNum pushToStack = emit idt_handler 0 (stub_code h intNum pushToStack)"

definition pushes_to_stack :: "nat \<Rightarrow> u8" where
  "pushes_to_stack i = (if i = 8 \<or> (i \<ge> 10 \<and> i \<le> 14) then 0 else 1)"

primrec fill_handlers :: "addr \<Rightarrow> u8 list list \<Rightarrow> nat list \<Rightarrow> u8 list list res" where
  "fill_handlers h hs [] = Inr hs"
| "fill_handlers h hs (i # is) =
     bindE (aget hs (int i)) (\<lambda>buf.
     bindE (idt_fillswinterrupthandler h buf (of_nat i) (pushes_to_stack i)) (\<lambda>buf.
       fill_handlers h (hs[i := buf]) is))"

definition set_gate :: "addr \<Rightarrow> idt_t \<Rightarrow> idt_t" where
  "set_gate a g =
     g\<lparr>offset0 := ucast (a AND 0xFFFF), offset1 := ucast (drop_bit 16 a AND 0xFFFF),
       offset2 := ucast (drop_bit 32 a AND 0xFFFFFFFF), seg_select := 0x08, gtype := IDT_TYPE_INTR,
       gp := 1, dpl := 0, ist := 0, zr0 := 0, zr1 := 0, zr2 := 0\<rparr>"

text \<open>
  \<open>h\<close> is the address of \<open>idt_defaulthandler\<close>, \<open>base\<close> the address of the array \<open>idt_handlers\<close>, and the two
  options are what the two calls of \<open>malloc\<close> return. \<open>tls\<close> is the block of thread local storage with whatever
  it contains, used when the core has none yet.
\<close>

definition idt_init :: "addr \<Rightarrow> addr \<Rightarrow> tls_idt_t \<Rightarrow> idt_t list option \<Rightarrow> regs_t option \<Rightarrow> intr \<Rightarrow> (int \<times> intr) res" where
  "idt_init h base tls table regs st =
     bindE (if int_arr_inited st then Inr st
            else bindE (fill_handlers h (idt_handlers st) [0 ..< IDT_ENTRY_COUNT]) (\<lambda>hs.
                 Inr (st\<lparr>idt_handlers := hs,
                         interrupt_blocked := replicate IDT_ENTRY_COUNT False,
                         interrupt_funcs := replicate IDT_ENTRY_COUNT (replicate IDT_HANDLER_CNT NULL),
                         int_arr_inited := True\<rparr>))) (\<lambda>st.
     case table of
       None \<Rightarrow> Inl NullDeref
     | Some g \<Rightarrow>
         let g = map (\<lambda>i. set_gate (base + of_nat (i * IDT_ENTRY_HANDLER_SIZE)) (g ! i)) [0 ..< IDT_ENTRY_COUNT] in
         Inr (0, st\<lparr>idt_tls := Some ((case idt_tls st of None \<Rightarrow> tls | Some t \<Rightarrow> t)\<lparr>gates := g, reg_state := regs\<rparr>),
                    idt_register := (of_nat (16 * IDT_ENTRY_COUNT - 1), g)\<rparr>))"

section \<open>Shape of the tables\<close>

text \<open>256 vectors with 16 slots each, and one flag per vector.\<close>

definition idt_wf :: "intr \<Rightarrow> bool" where
  "idt_wf st \<longleftrightarrow>
     length (interrupt_funcs st) = IDT_ENTRY_COUNT \<and> (\<forall>row \<in> set (interrupt_funcs st). length row = IDT_HANDLER_CNT) \<and>
     length (interrupt_blocked st) = IDT_ENTRY_COUNT"

lemma idt_wf_row: "idt_wf st \<Longrightarrow> 0 \<le> irq \<Longrightarrow> irq < 256 \<Longrightarrow> length (interrupt_funcs st ! nat irq) = IDT_HANDLER_CNT"
  by (auto simp: idt_wf_def IDT_ENTRY_COUNT_def)

lemma idt_wf_upd: "idt_wf st \<Longrightarrow> length row = IDT_HANDLER_CNT \<Longrightarrow>
    idt_wf (st\<lparr>interrupt_funcs := (interrupt_funcs st)[n := row]\<rparr>)"
  by (auto simp: idt_wf_def dest: set_update_subset_insert[THEN subsetD])

lemma idt_wf_guard [simp]:
  "idt_wf (idt_unlock st) = idt_wf st" "idt_wf (idt_sti st b) = idt_wf st"
  "idt_wf (st\<lparr>iflag := b\<rparr>) = idt_wf st" "idt_wf (st\<lparr>interrupt_alloc_lock := b\<rparr>) = idt_wf st"
  by (simp_all add: idt_wf_def idt_guard)

lemma free_slot_find:
  assumes "length fs = IDT_HANDLER_CNT"
  shows "free_slot fs i = Inr (find (\<lambda>j. fs ! j = NULL) [i ..< IDT_HANDLER_CNT])"
  using assms
proof (induction fs i rule: free_slot.induct)
  case (1 fs i)
  show ?case
  proof (cases "i < IDT_HANDLER_CNT")
    case True
    with 1 show ?thesis by (subst free_slot.simps) (simp add: upt_conv_Cons)
  qed (simp add: free_slot.simps)
qed

section \<open>Runs of vectors\<close>

definition run_free :: "bool list \<Rightarrow> int \<Rightarrow> int \<Rightarrow> bool" where
  "run_free bl b n \<longleftrightarrow> (\<forall>k. b \<le> k \<and> k < b + n \<longrightarrow> 0 \<le> k \<and> k < int (length bl) \<and> \<not> bl ! nat k)"

lemma run_free_0 [simp]: "run_free bl b 0"
  unfolding run_free_def by linarith

lemma run_free_Suc: "run_free bl b (int (Suc n)) \<longleftrightarrow>
    (0 \<le> b \<and> b < int (length bl) \<and> \<not> bl ! nat b) \<and> run_free bl (b + 1) (int n)"
proof -
  have "b \<le> k \<and> k < b + int (Suc n) \<longleftrightarrow> k = b \<or> (b + 1 \<le> k \<and> k < b + 1 + int n)" for k by linarith
  then show ?thesis unfolding run_free_def by metis
qed

lemma run_free_extend:
  assumes "run_free bl b n" "0 \<le> b + n" "b + n < int (length bl)" "\<not> bl ! nat (b + n)"
  shows "run_free bl b (n + 1)"
proof -
  have "b \<le> k \<and> k < b + (n + 1) \<Longrightarrow> k = b + n \<or> b \<le> k \<and> k < b + n" for k by linarith
  with assms show ?thesis unfolding run_free_def by blast
qed

lemma any_blocked_False: "any_blocked bl b n = Inr False \<longleftrightarrow> run_free bl b (int n)"
proof (induction n arbitrary: b)
  case (Suc n)
  show ?case
    by (simp only: run_free_Suc any_blocked.simps bindE_eq_Inr) (auto simp: aget_def Suc split: if_splits)
qed simp

lemma block_all_ok:
  "0 \<le> b \<Longrightarrow> b + int n \<le> int (length bl) \<Longrightarrow>
   \<exists>bl'. block_all bl b n = Inr bl' \<and> length bl' = length bl \<and>
     (\<forall>k < length bl. bl' ! k \<longleftrightarrow> bl ! k \<or> b \<le> int k \<and> int k < b + int n)"
proof (induction n arbitrary: bl b)
  case (Suc n)
  let ?bl = "bl[nat b := True]"
  from Suc.prems Suc.IH[of "b + 1" ?bl] obtain bl' where
    "block_all ?bl (b + 1) n = Inr bl'" "length bl' = length bl"
    "\<forall>k < length bl. bl' ! k \<longleftrightarrow> ?bl ! k \<or> b + 1 \<le> int k \<and> int k < b + 1 + int n" by auto
  with Suc.prems show ?case by (auto simp: nth_list_update)
qed auto

text \<open>
  The search looks at the vectors from 32 on and finds the first run that ends before the last vector:
  the length is compared before a vector is looked at, so a run that includes vector 255 is not seen.
\<close>

definition first_run :: "bool list \<Rightarrow> int \<Rightarrow> int \<Rightarrow> int option \<Rightarrow> bool" where
  "first_run bl cnt lo r \<longleftrightarrow>
     (case r of
        Some b \<Rightarrow> lo \<le> b \<and> b + cnt < int IDT_ENTRY_COUNT \<and> run_free bl b cnt \<and>
                  (\<forall>o'. lo \<le> o' \<and> o' < b \<longrightarrow> \<not> run_free bl o' cnt)
      | None \<Rightarrow> \<forall>o'. lo \<le> o' \<and> o' + cnt < int IDT_ENTRY_COUNT \<longrightarrow> \<not> run_free bl o' cnt)"

lemma find_run_first:
  assumes "length bl = IDT_ENTRY_COUNT" "0 < cnt" "0 \<le> run_off" "i = run_off + run_len" "0 \<le> run_len"
    "run_len \<le> cnt" "i \<le> int IDT_ENTRY_COUNT" "run_free bl run_off run_len" "lo \<le> run_off"
    "\<forall>o'. lo \<le> o' \<and> o' < run_off \<longrightarrow> \<not> run_free bl o' cnt"
  shows "\<exists>r. find_run bl cnt i run_off run_len = Inr r \<and> first_run bl cnt lo r"
  using assms
proof (induction bl cnt i run_off run_len rule: find_run.induct)
  case (1 bl cnt i run_off run_len)
  note A = 1(3-)
  show ?case
  proof (cases "i < int IDT_ENTRY_COUNT \<and> run_len < cnt")
    case True
    then have b: "aget bl i = Inr (bl ! nat i)" using A by simp
    show ?thesis
    proof (cases "bl ! nat i")
      case bl: True
      have "\<not> run_free bl o' cnt" if "lo \<le> o'" "o' < i + 1" for o'
      proof (cases "o' < run_off")
        case False
        then have "o' \<le> i" "i < o' + cnt" using that A True by auto
        with bl show ?thesis by (auto simp: run_free_def)
      qed (use that A in blast)
      with 1(1)[of "bl ! nat i"] True b bl A show ?thesis
        by (subst find_run.simps) auto
    next
      case bl: False
      have "run_free bl run_off (run_len + 1)"
        by (rule run_free_extend) (use A bl True in auto)
      with 1(2)[of "bl ! nat i"] True b bl A show ?thesis
        by (subst find_run.simps) auto
    qed
  next
    case False
    show ?thesis
    proof (cases "i < int IDT_ENTRY_COUNT")
      case True
      with False A have "run_len = cnt" by simp
      with True A show ?thesis by (subst find_run.simps) (auto simp: first_run_def)
    next
      case Falsei: False
      have "\<not> run_free bl o' cnt" if "lo \<le> o'" "o' + cnt < int IDT_ENTRY_COUNT" for o'
        using that A Falsei by (cases "o' < run_off") auto
      with Falsei show ?thesis by (subst find_run.simps) (auto simp: first_run_def)
    qed
  qed
qed

section \<open>Results of the operations\<close>

lemma registerhandler_result:
  assumes "idt_wf st" "0 \<le> irq" "irq < 256"
  shows "interrupt_registerhandler st irq h =
    (if interrupt_alloc_lock st then Inl Deadlock
     else case find (\<lambda>j. interrupt_funcs st ! nat irq ! j = NULL) [0 ..< IDT_HANDLER_CNT] of
            None \<Rightarrow> Inl (Panic ''Interrupt oversubscribed!'')
          | Some j \<Rightarrow> Inr (st\<lparr>interrupt_funcs := (interrupt_funcs st)[nat irq := (interrupt_funcs st ! nat irq)[j := h]]\<rparr>))"
proof -
  have "aget (interrupt_funcs st) irq = Inr (interrupt_funcs st ! nat irq)"
    using assms by (simp add: idt_wf_def IDT_ENTRY_COUNT_def)
  with free_slot_find[OF idt_wf_row[OF assms]] show ?thesis
    by (auto simp: interrupt_registerhandler_def idt_guard Let_def split: option.split)
qed

lemma unregisterhandler_result:
  assumes "idt_wf st" "0 \<le> irq" "irq < 256"
  shows "interrupt_unregisterhandler st irq h =
    (if interrupt_alloc_lock st then Inl Deadlock
     else Inr (st\<lparr>interrupt_funcs := (interrupt_funcs st)[nat irq := map (\<lambda>f. if f = h then NULL else f) (interrupt_funcs st ! nat irq)]\<rparr>))"
  using assms by (auto simp: interrupt_unregisterhandler_def idt_guard Let_def idt_wf_def IDT_ENTRY_COUNT_def)

text \<open>An allocation that succeeds with the exclusive flag takes exactly vectors that were free.\<close>

definition taken :: "intr \<Rightarrow> int \<Rightarrow> int \<Rightarrow> intr \<Rightarrow> bool" where
  "taken st b cnt st' \<longleftrightarrow>
     run_free (interrupt_blocked st) b cnt \<and>
     (\<exists>bl. st' = st\<lparr>interrupt_blocked := bl\<rparr> \<and> length bl = length (interrupt_blocked st) \<and>
        (\<forall>k < length bl. bl ! k \<longleftrightarrow> interrupt_blocked st ! k \<or> b \<le> int k \<and> int k < b + cnt))"

lemma run_free_range: "run_free bl b n \<Longrightarrow> 0 < n \<Longrightarrow> 0 \<le> b \<and> b + n \<le> int (length bl)"
proof -
  assume r: "run_free bl b n" and n: "0 < n"
  have "b \<le> b \<and> b < b + n" "b \<le> b + n - 1 \<and> b + n - 1 < b + n" using n by auto
  with r have "0 \<le> b" "b + n - 1 < int (length bl)" unfolding run_free_def by blast+
  then show ?thesis by linarith
qed

lemma guarded:
  assumes "\<not> interrupt_alloc_lock st"
  shows "idt_sti (idt_unlock (st\<lparr>iflag := False, interrupt_alloc_lock := True\<rparr>)) (iflag st) = st"
    "idt_sti (idt_unlock (st\<lparr>iflag := False, interrupt_alloc_lock := True, interrupt_blocked := b\<rparr>)) (iflag st) = st\<lparr>interrupt_blocked := b\<rparr>"
  using assms by (cases st; simp add: idt_guard)+

definition block_if :: "u32 \<Rightarrow> bool list \<Rightarrow> int \<Rightarrow> int \<Rightarrow> bool list res" where
  "block_if flags bl b cnt = (if flags AND interrupt_flags_exclusive \<noteq> 0 then block_all bl b (nat cnt) else Inr bl)"

lemma allocate_fixed_result:
  "allocate_fixed st cnt flags base =
    (if interrupt_alloc_lock st then Inl Deadlock
     else bindE (any_blocked (interrupt_blocked st) base (nat cnt)) (\<lambda>bl.
       if bl then Inr (-1, st)
       else bindE (block_if flags (interrupt_blocked st) base cnt) (\<lambda>b. Inr (0, st\<lparr>interrupt_blocked := b\<rparr>))))"
  by (simp add: allocate_fixed_def idt_cli_def idt_lock_def block_if_def guarded cong: if_cong)

definition after_fixed :: "int \<Rightarrow> u32 \<Rightarrow> int \<Rightarrow> int \<Rightarrow> intr \<Rightarrow> (int \<times> int \<times> intr) res" where
  "after_fixed cnt flags base err st =
     (if base \<noteq> 0 \<and> err = 0 then Inr (0, base, st)
      else if interrupt_alloc_lock st then Inl Deadlock
      else bindE (find_run (interrupt_blocked st) cnt 32 32 0) (\<lambda>r.
        case r of
          None \<Rightarrow> Inr (-1, base, st)
        | Some b \<Rightarrow> bindE (block_if flags (interrupt_blocked st) b cnt) (\<lambda>bl. Inr (0, b, st\<lparr>interrupt_blocked := bl\<rparr>))))"

lemma allocate_search_result:
  assumes "flags AND interrupt_flags_fixed = 0"
  shows "interrupt_allocate st cnt flags base =
    bindE (if base \<noteq> 0 then allocate_fixed st cnt (flags OR interrupt_flags_fixed) base else Inr (-1, st)) (\<lambda>(err, st). after_fixed cnt flags base err st)"
  using assms unfolding interrupt_allocate_def after_fixed_def
  by (auto simp add: idt_cli_def idt_lock_def block_if_def guarded cong: if_cong option.case_cong intro!: arg_cong[where f = "bindE _"] split: option.split)

lemma block_if_taken:
  assumes "block_if flags (interrupt_blocked st) b cnt = Inr bl" "flags AND interrupt_flags_exclusive \<noteq> 0"
    "run_free (interrupt_blocked st) b cnt" "0 < cnt"
  shows "taken st b cnt (st\<lparr>interrupt_blocked := bl\<rparr>)"
  using assms block_all_ok[of b "nat cnt" "interrupt_blocked st"] run_free_range[OF assms(3,4)]
  by (auto simp: block_if_def taken_def)

lemma allocate_fixed_taken:
  assumes "allocate_fixed st cnt flags base = Inr (0, st')" "flags AND interrupt_flags_exclusive \<noteq> 0" "0 < cnt"
  shows "taken st base cnt st'"
proof -
  from assms obtain bl where "any_blocked (interrupt_blocked st) base (nat cnt) = Inr False"
    "block_if flags (interrupt_blocked st) base cnt = Inr bl" "st' = st\<lparr>interrupt_blocked := bl\<rparr>"
    by (auto simp: allocate_fixed_result bindE_eq_Inr split: if_splits)
  with assms block_if_taken show ?thesis by (simp add: any_blocked_False)
qed

lemma allocate_fixed_refused:
  "allocate_fixed st cnt flags base = Inr (e, st') \<Longrightarrow> e \<noteq> 0 \<Longrightarrow> st' = st"
  by (auto simp: allocate_fixed_result bindE_eq_Inr split: if_splits)

lemma find_run_32:
  assumes "idt_wf st" "0 < cnt"
  shows "\<exists>r. find_run (interrupt_blocked st) cnt 32 32 0 = Inr r \<and> first_run (interrupt_blocked st) cnt 32 r"
  by (rule find_run_first) (use assms in \<open>auto simp: idt_wf_def IDT_ENTRY_COUNT_def\<close>)

lemma flag_bits: "(flags OR interrupt_flags_fixed) AND interrupt_flags_exclusive = flags AND interrupt_flags_exclusive"
  by (rule bit_word_eqI) (auto simp: bit_simps interrupt_flags)

lemma allocate_taken:
  assumes "interrupt_allocate st cnt flags base = Inr (0, b, st')" "flags AND interrupt_flags_exclusive \<noteq> 0" "0 < cnt" "idt_wf st"
  shows "taken st b cnt st'"
proof (cases "flags AND interrupt_flags_fixed = 0")
  case False
  with assms allocate_fixed_taken[of st cnt flags b st'] show ?thesis
    by (auto simp: interrupt_allocate_def bindE_eq_Inr)
next
  case True
  obtain r where r: "find_run (interrupt_blocked st) cnt 32 32 0 = Inr r" "first_run (interrupt_blocked st) cnt 32 r"
    using find_run_32[OF assms(4,3)] by blast
  from assms(1) True r(1) consider "allocate_fixed st cnt (flags OR interrupt_flags_fixed) b = Inr (0, st')"
    | bl where "r = Some b" "block_if flags (interrupt_blocked st) b cnt = Inr bl" "st' = st\<lparr>interrupt_blocked := bl\<rparr>"
  proof -
    from assms(1) obtain err st1 where
      e: "(if base \<noteq> 0 then allocate_fixed st cnt (flags OR interrupt_flags_fixed) base else Inr (-1, st)) = Inr (err, st1)"
      and rest: "after_fixed cnt flags base err st1 = Inr (0, b, st')"
      unfolding allocate_search_result[OF True] bindE_eq_Inr by auto
    show thesis
    proof (cases "base \<noteq> 0 \<and> err = 0")
      case True
      with rest have "b = base" "st1 = st'" by (simp_all add: after_fixed_def)
      with e True show thesis by (intro that(1)) simp
    next
      case False
      with e have "st1 = st" by (auto dest: allocate_fixed_refused split: if_splits)
      then have "(if interrupt_alloc_lock st then Inl Deadlock else case r of None \<Rightarrow> Inr (-1 :: int, base, st)
          | Some b \<Rightarrow> bindE (block_if flags (interrupt_blocked st) b cnt) (\<lambda>bl. Inr (0, b, st\<lparr>interrupt_blocked := bl\<rparr>))) = Inr (0, b, st')"
        using False rest r(1) by (simp only: after_fixed_def if_False bindE_Inr)
      then obtain bl where "r = Some b" "block_if flags (interrupt_blocked st) b cnt = Inr bl" "st' = st\<lparr>interrupt_blocked := bl\<rparr>"
        by (cases r; cases "interrupt_alloc_lock st") (simp_all add: bindE_eq_Inr, blast)
      then show thesis by (rule that(2))
    qed
  qed
  then show ?thesis
  proof cases
    case 1
    with allocate_fixed_taken assms flag_bits show ?thesis by metis
  next
    case 2
    with r block_if_taken assms show ?thesis by (simp add: first_run_def)
  qed
qed

lemma any_blocked_ok: "0 \<le> b \<Longrightarrow> b + int n \<le> int (length bl) \<Longrightarrow> \<exists>x. any_blocked bl b n = Inr x"
  by (induction n arbitrary: b) auto

lemma block_if_ok:
  assumes "0 \<le> b" "0 \<le> cnt" "b + cnt \<le> int (length bl)"
  shows "\<exists>bl'. block_if flags bl b cnt = Inr bl' \<and> length bl' = length bl"
  using block_all_ok[of b "nat cnt" bl] assms by (auto simp: block_if_def)

text \<open>A result that is a state with well-formed tables, a panic, or the report of a lock that is already held.\<close>

definition typed :: "intr res \<Rightarrow> bool" where
  "typed r \<longleftrightarrow> (case r of Inl e \<Rightarrow> e = Deadlock \<or> (\<exists>m. e = Panic m) | Inr st \<Rightarrow> idt_wf st)"

lemma typed_simps [simp]: "typed (Inr st) = idt_wf st" "typed (Inl Deadlock)" "typed (Inl (Panic m))"
  by (simp_all add: typed_def)

lemma idt_wf_blocked [simp]: "length bl = length (interrupt_blocked st) \<Longrightarrow> idt_wf (st\<lparr>interrupt_blocked := bl\<rparr>) = idt_wf st"
  by (simp add: idt_wf_def)

lemma allocate_fixed_typed:
  assumes "idt_wf st" "0 \<le> b" "0 \<le> cnt" "b + cnt \<le> 256"
  shows "\<exists>r. allocate_fixed st cnt flags b = r \<and> (case r of Inl e \<Rightarrow> e = Deadlock | Inr (e, st') \<Rightarrow> idt_wf st')"
proof -
  have l: "length (interrupt_blocked st) = 256" using assms(1) by (simp add: idt_wf_def IDT_ENTRY_COUNT_def)
  obtain x where "any_blocked (interrupt_blocked st) b (nat cnt) = Inr x"
    using any_blocked_ok[of b "nat cnt" "interrupt_blocked st"] assms l by auto
  moreover obtain bl where "block_if flags (interrupt_blocked st) b cnt = Inr bl" "length bl = length (interrupt_blocked st)"
    using block_if_ok[of b cnt "interrupt_blocked st" flags] assms l by auto
  ultimately show ?thesis using assms(1) by (simp add: allocate_fixed_result)
qed

lemma after_fixed_typed:
  assumes "idt_wf st" "0 < cnt"
  shows "typed (bindE (after_fixed cnt flags base err st) (\<lambda>(_, _, st). Inr st))"
proof -
  obtain r where r: "find_run (interrupt_blocked st) cnt 32 32 0 = Inr r" "first_run (interrupt_blocked st) cnt 32 r"
    using find_run_32[OF assms] by blast
  show ?thesis
  proof (cases r)
    case None
    with r assms show ?thesis by (simp add: after_fixed_def)
  next
    case (Some b)
    with r assms have "0 \<le> b" "b + cnt \<le> int (length (interrupt_blocked st))"
      by (auto simp: first_run_def idt_wf_def)
    with assms block_if_ok[of b cnt "interrupt_blocked st" flags] obtain bl where
      "block_if flags (interrupt_blocked st) b cnt = Inr bl" "length bl = length (interrupt_blocked st)" by auto
    with Some r assms show ?thesis by (simp add: after_fixed_def)
  qed
qed


text \<open>
  C12. Vectors allocated exclusively are never given out twice: two successful exclusive allocations, of
  any sizes and with any other flags and wishes, return ranges inside the table that do not overlap.
\<close>

theorem exclusive_vectors_disjoint:
  assumes "idt_wf st" "0 < c1" "0 < c2"
    and "f1 AND interrupt_flags_exclusive \<noteq> 0" "f2 AND interrupt_flags_exclusive \<noteq> 0"
    and "interrupt_allocate st c1 f1 w1 = Inr (0, v1, st1)" "interrupt_allocate st1 c2 f2 w2 = Inr (0, v2, st2)"
  shows "(v1 + c1 \<le> v2 \<or> v2 + c2 \<le> v1) \<and> 0 \<le> v1 \<and> v1 + c1 \<le> 256 \<and> 0 \<le> v2 \<and> v2 + c2 \<le> 256"
proof -
  have 1: "taken st v1 c1 st1" by (rule allocate_taken[OF assms(6,4,2,1)])
  then have wf: "idt_wf st1" using assms(1) by (auto simp: taken_def)
  have 2: "taken st1 v2 c2 st2" by (rule allocate_taken[OF assms(7,5,3) wf])
  have l: "length (interrupt_blocked st) = 256" "length (interrupt_blocked st1) = 256"
    using assms(1) wf by (simp_all add: idt_wf_def IDT_ENTRY_COUNT_def)
  have r: "0 \<le> v1 \<and> v1 + c1 \<le> 256" "0 \<le> v2 \<and> v2 + c2 \<le> 256"
    using run_free_range[of "interrupt_blocked st" v1 c1] run_free_range[of "interrupt_blocked st1" v2 c2] 1 2 assms(2,3) l
    by (auto simp: taken_def)
  have "v1 + c1 \<le> v2 \<or> v2 + c2 \<le> v1"
  proof (rule ccontr)
    assume n: "\<not> (v1 + c1 \<le> v2 \<or> v2 + c2 \<le> v1)"
    let ?k = "max v1 v2"
    from n r assms(2,3) have k: "v1 \<le> ?k \<and> ?k < v1 + c1" "v2 \<le> ?k \<and> ?k < v2 + c2" "nat ?k < 256" "int (nat ?k) = ?k" by auto
    from 1 k l have "interrupt_blocked st1 ! nat ?k" by (auto simp: taken_def)
    with 2 k show False by (auto simp: taken_def run_free_def)
  qed
  with r show ?thesis by blast
qed

text \<open>
  Without the fixed flag and without a wish, the search returns the first run of free vectors from
  32 on that ends before vector 255, marks it when it is exclusive, and reports failure, changing
  nothing, exactly when there is none.
\<close>

theorem allocate_first_fit:
  assumes "idt_wf st" "\<not> interrupt_alloc_lock st" "0 < cnt" "flags AND interrupt_flags_fixed = 0"
  shows "\<exists>r st'. first_run (interrupt_blocked st) cnt 32 r \<and>
    interrupt_allocate st cnt flags 0 = Inr (case r of None \<Rightarrow> (-1, 0, st) | Some b \<Rightarrow> (0, b, st')) \<and>
    (\<forall>b. r = Some b \<longrightarrow> (if flags AND interrupt_flags_exclusive \<noteq> 0 then taken st b cnt st' else st' = st))"
proof -
  obtain r where r: "find_run (interrupt_blocked st) cnt 32 32 0 = Inr r" "first_run (interrupt_blocked st) cnt 32 r"
    using find_run_32[OF assms(1,3)] by blast
  have e: "interrupt_allocate st cnt flags 0 = after_fixed cnt flags 0 (-1) st"
    by (simp add: allocate_search_result[OF assms(4)])
  show ?thesis
  proof (cases r)
    case None
    with r e assms(2) show ?thesis by (auto simp: after_fixed_def)
  next
    case (Some b)
    with r assms have f: "run_free (interrupt_blocked st) b cnt" by (simp add: first_run_def)
    obtain bl where bl: "block_if flags (interrupt_blocked st) b cnt = Inr bl"
      using block_if_ok[of b cnt "interrupt_blocked st" flags] run_free_range[OF f assms(3)] assms(3) by auto
    have "if flags AND interrupt_flags_exclusive \<noteq> 0 then taken st b cnt (st\<lparr>interrupt_blocked := bl\<rparr>) else st\<lparr>interrupt_blocked := bl\<rparr> = st"
      using block_if_taken[OF bl _ f assms(3)] bl by (auto simp: block_if_def)
    with Some r e bl assms(2) show ?thesis by (auto simp: after_fixed_def)
  qed
qed

section \<open>The handlers of a vector\<close>

definition handlers :: "intr \<Rightarrow> int \<Rightarrow> addr list" where
  "handlers st irq = filter (\<lambda>f. f \<noteq> NULL) (interrupt_funcs st ! nat irq)"

lemma filter_upd_NULL:
  "j < length xs \<Longrightarrow> xs ! j = NULL \<Longrightarrow> h \<noteq> NULL \<Longrightarrow>
   mset (filter (\<lambda>f. f \<noteq> NULL) (xs[j := h])) = add_mset h (mset (filter (\<lambda>f. f \<noteq> NULL) xs))" for xs :: "addr list"
proof -
  assume a: "j < length xs" "xs ! j = NULL" "h \<noteq> NULL"
  have "mset (xs[j := h]) = add_mset h (mset xs - {#NULL#})" using mset_update[OF a(1), of h] a(2) by simp
  moreover have "mset xs = add_mset NULL (mset xs - {#NULL#})" using a(1,2) nth_mem[of j xs] by simp
  ultimately show ?thesis using a(3)
    by (metis (mono_tags, lifting) filter_mset_add_mset mset_filter)
qed

lemma find_nth: "find (\<lambda>j. xs ! j = NULL) [0 ..< length xs] = Some j \<Longrightarrow> j < length xs \<and> xs ! j = NULL"
  by (auto simp: find_Some_iff)

lemma find_none_full: "find (\<lambda>j. xs ! j = NULL) [0 ..< length xs] = None \<longleftrightarrow> filter (\<lambda>f. f \<noteq> NULL) xs = xs" for xs :: "addr list"
  by (auto simp: find_None_iff filter_id_conv in_set_conv_nth)

text \<open>
  Registering adds exactly one occurrence of the handler to its vector and leaves the other vectors
  alone; it panics exactly when the vector has 16 handlers. Removing takes away every occurrence of
  the handler and keeps the order of the others.
\<close>

theorem register_adds_handler:
  assumes "idt_wf st" "0 \<le> irq" "irq < 256" "\<not> interrupt_alloc_lock st" "h \<noteq> NULL"
  shows "(if length (handlers st irq) = IDT_HANDLER_CNT
          then interrupt_registerhandler st irq h = Inl (Panic ''Interrupt oversubscribed!'')
          else \<exists>st'. interrupt_registerhandler st irq h = Inr st' \<and>
                 mset (handlers st' irq) = add_mset h (mset (handlers st irq)) \<and>
                 (\<forall>k. 0 \<le> k \<and> k \<noteq> irq \<longrightarrow> handlers st' k = handlers st k)) \<and>
    (\<exists>st'. interrupt_unregisterhandler st irq h = Inr st' \<and>
       handlers st' irq = filter (\<lambda>f. f \<noteq> h) (handlers st irq) \<and>
       (\<forall>k. 0 \<le> k \<and> k \<noteq> irq \<longrightarrow> handlers st' k = handlers st k))"
proof (intro conjI)
  let ?row = "interrupt_funcs st ! nat irq"
  have l: "length ?row = IDT_HANDLER_CNT" and n: "nat irq < length (interrupt_funcs st)"
    using idt_wf_row[OF assms(1-3)] assms by (simp_all add: idt_wf_def IDT_ENTRY_COUNT_def nat_less_iff)
  have full: "length (handlers st irq) = IDT_HANDLER_CNT \<longleftrightarrow> filter (\<lambda>f. f \<noteq> NULL) ?row = ?row"
    using l length_filter_less[of _ ?row "\<lambda>f. f \<noteq> NULL"]
    by (auto simp: handlers_def filter_id_conv)
  note f = find_none_full[of ?row, unfolded l]
  show "if length (handlers st irq) = IDT_HANDLER_CNT
        then interrupt_registerhandler st irq h = Inl (Panic ''Interrupt oversubscribed!'')
        else \<exists>st'. interrupt_registerhandler st irq h = Inr st' \<and>
               mset (handlers st' irq) = add_mset h (mset (handlers st irq)) \<and>
               (\<forall>k. 0 \<le> k \<and> k \<noteq> irq \<longrightarrow> handlers st' k = handlers st k)"
  proof (cases "find (\<lambda>j. ?row ! j = NULL) [0 ..< IDT_HANDLER_CNT]")
    case None
    with f full assms(4) show ?thesis by (simp add: registerhandler_result[OF assms(1-3)])
  next
    case (Some j)
    with f full find_nth[of ?row j, unfolded l] assms(4) filter_upd_NULL[of j ?row h] n l assms(2,5) show ?thesis
      by (auto simp: registerhandler_result[OF assms(1-3)] handlers_def eq_nat_nat_iff nth_list_update)
  qed
  have "filter (\<lambda>f. f \<noteq> NULL) (map (\<lambda>f. if f = h then NULL else f) xs) = filter (\<lambda>f. f \<noteq> h) (filter (\<lambda>f. f \<noteq> NULL) xs)" for xs :: "addr list"
    by (induction xs) auto
  with n assms(2,4) show "\<exists>st'. interrupt_unregisterhandler st irq h = Inr st' \<and>
       handlers st' irq = filter (\<lambda>f. f \<noteq> h) (handlers st irq) \<and>
       (\<forall>k. 0 \<le> k \<and> k \<noteq> irq \<longrightarrow> handlers st' k = handlers st k)"
    by (simp add: unregisterhandler_result[OF assms(1-3)] handlers_def eq_nat_nat_iff nth_list_update)
qed

section \<open>What the dispatcher does\<close>

primrec call_all :: "(addr \<Rightarrow> int \<Rightarrow> intr \<Rightarrow> intr res) \<Rightarrow> int \<Rightarrow> addr list \<Rightarrow> intr \<Rightarrow> intr res" where
  "call_all call n [] st = Inr st"
| "call_all call n (f # fs) st = bindE (call f n st) (call_all call n fs)"

text \<open>
  What a handler leaves alone: the table, which it cannot change without the lock that the dispatcher
  holds, the number of the interrupt and the thread local block.
\<close>

definition handlers_ok :: "(addr \<Rightarrow> int \<Rightarrow> intr \<Rightarrow> intr res) \<Rightarrow> bool" where
  "handlers_ok call \<longleftrightarrow> (\<forall>f n s s'. call f n s = Inr s' \<longrightarrow>
     interrupt_funcs s' = interrupt_funcs s \<and> f_int_no (frame s') = f_int_no (frame s) \<and> idt_tls s' = idt_tls s)"

lemma run_handlers_call_all:
  assumes "handlers_ok call" "0 \<le> n" "n < int (length (interrupt_funcs st))" "uint (f_int_no (frame st)) = n"
    "length (interrupt_funcs st ! nat n) = IDT_HANDLER_CNT"
  shows "run_handlers call st i handled =
    (let hs = filter (\<lambda>f. f \<noteq> NULL) (drop i (interrupt_funcs st ! nat n)) in
     bindE (call_all call n hs st) (\<lambda>s. Inr (handled \<or> hs \<noteq> [], s)))"
  using assms
proof (induction call st i handled rule: run_handlers.induct)
  case (1 call st i handled)
  let ?row = "interrupt_funcs st ! nat n"
  show ?case
  proof (cases "i < IDT_HANDLER_CNT")
    case True
    then have d: "drop i ?row = ?row ! i # drop (Suc i) ?row" using 1(7) by (simp add: Cons_nth_drop_Suc)
    have g: "aget (interrupt_funcs st) n = Inr ?row" "aget ?row (int i) = Inr (?row ! i)" using 1 True by simp_all
    have step: "run_handlers call st i handled =
      (if ?row ! i \<noteq> NULL then bindE (call (?row ! i) n st) (\<lambda>s. run_handlers call s (Suc i) True)
       else run_handlers call st (Suc i) handled)"
      using True g 1(6) by (subst run_handlers.simps) simp
    show ?thesis
    proof (cases "?row ! i = NULL")
      case null: True
      from 1(2)[OF True refl _ _ ] g null 1(3-) have
        "run_handlers call st (Suc i) handled = (let hs = filter (\<lambda>f. f \<noteq> NULL) (drop (Suc i) ?row) in
          bindE (call_all call n hs st) (\<lambda>s. Inr (handled \<or> hs \<noteq> [], s)))" by simp
      with step null d show ?thesis by simp
    next
      case False
      show ?thesis
      proof (cases "call (?row ! i) n st")
        case (Inl e)
        with step False d show ?thesis by simp
      next
        case (Inr s)
        with 1(3) have k: "interrupt_funcs s = interrupt_funcs st" "f_int_no (frame s) = f_int_no (frame st)"
          by (auto simp: handlers_ok_def)
        from 1(1)[OF True refl] g False Inr 1(3-) k have
          "run_handlers call s (Suc i) True = (let hs = filter (\<lambda>f. f \<noteq> NULL) (drop (Suc i) ?row) in
            bindE (call_all call n hs s) (\<lambda>s. Inr (True \<or> hs \<noteq> [], s)))" by simp
        with step False d Inr show ?thesis by simp
      qed
    qed
  next
    case False
    with 1(7) show ?thesis by (subst run_handlers.simps) simp
  qed
qed

lemma call_all_keeps:
  assumes "handlers_ok call"
  shows "call_all call n fs st = Inr s \<Longrightarrow>
    interrupt_funcs s = interrupt_funcs st \<and> f_int_no (frame s) = f_int_no (frame st) \<and> idt_tls s = idt_tls st"
proof (induction fs arbitrary: st)
  case (Cons f fs)
  then obtain s1 where "call f n st = Inr s1" "call_all call n fs s1 = Inr s" by (auto simp: bindE_eq_Inr)
  with assms Cons.IH[of s1] show ?case by (auto simp: handlers_ok_def)
qed simp

text \<open>The state the handlers run in, and what follows when they have returned.\<close>

definition vector :: "intr \<Rightarrow> int" where
  "vector st = uint (take_bit 8 (f_int_no (frame st)))"

definition entered :: "intr \<Rightarrow> intr" where
  "entered st =
     (let f = (frame st)\<lparr>f_int_no := take_bit 8 (f_int_no (frame st))\<rparr> in
      st\<lparr>frame := f, idt_tls := map_option (\<lambda>t. t\<lparr>reg_state := Some f, reg_ref := True\<rparr>) (idt_tls st),
         gs_kernel := (gs_kernel st \<noteq> user_frame (frame st)), iflag := False, interrupt_alloc_lock := True\<rparr>)"

definition leave :: "device \<Rightarrow> bool \<Rightarrow> int \<Rightarrow> intr \<Rightarrow> intr res" where
  "leave dev was_enabled n st =
     bindE (if 32 \<le> n then interrupt_sendeoi dev (lapic st) (bus_log st) n else Inr (bus_log st)) (\<lambda>log.
       Inr (st\<lparr>bus_log := log, interrupt_alloc_lock := False, iflag := (iflag st \<or> was_enabled),
               idt_tls := map_option (\<lambda>t. t\<lparr>reg_ref := False\<rparr>) (idt_tls st),
               gs_kernel := (gs_kernel st \<noteq> user_frame (frame st)),
               frame := (if user_frame (frame st) then (frame st)\<lparr>f_ss := f_ss (frame st) OR 3\<rparr> else frame st)\<rparr>))"

lemma vector_range: "0 \<le> vector st" "vector st < 256"
proof -
  have "take_bit 8 (uint (f_int_no (frame st))) < 2 ^ 8" by (rule take_bit_int_less_exp)
  then show "0 \<le> vector st" "vector st < 256" by (simp_all add: vector_def unsigned_take_bit_eq)
qed

lemma sint_vector:
  assumes "f_int_no f = take_bit 8 x"
  shows "sint (ucast (f_int_no f) :: 32 word) = uint (take_bit 8 x)"
proof -
  have l: "uint (take_bit 8 x) < 256" using take_bit_int_less_exp[of 8 "uint x"] by (simp add: unsigned_take_bit_eq)
  have u: "uint (ucast (take_bit 8 x) :: 32 word) = uint (take_bit 8 x)"
    using l by (simp add: unsigned_ucast_eq take_bit_int_eq_self)
  show ?thesis using l unfolding assms
    by (simp add: sint_uint u signed_take_bit_int_eq_self_iff order_trans[OF _ uint_nonnegative])
qed

lemma mainhandler_eq:
  assumes "idt_wf st" "\<not> interrupt_alloc_lock st" "idt_tls st = Some t" "reg_state t \<noteq> None" "handlers_ok call"
  shows "idt_mainhandler call dev st =
    bindE (call_all call (vector st) (handlers st (vector st)) (entered st)) (\<lambda>s.
      if handlers st (vector st) = [] \<and> vector st < 32 then Inl (Panic ''Failure!'')
      else leave dev (iflag st) (vector st) s)"
proof -
  let ?n = "vector st"
  have e: "interrupt_funcs (entered st) = interrupt_funcs st" "uint (f_int_no (frame (entered st))) = ?n"
    by (simp_all add: entered_def Let_def vector_def)
  have row: "length (interrupt_funcs st ! nat ?n) = IDT_HANDLER_CNT" "?n < int (length (interrupt_funcs st))"
    using idt_wf_row[OF assms(1) vector_range] assms(1) vector_range(2)[of st] by (simp_all add: idt_wf_def IDT_ENTRY_COUNT_def)
  have run: "run_handlers call (entered st) 0 False =
      bindE (call_all call ?n (handlers st ?n) (entered st)) (\<lambda>s. Inr (handlers st ?n \<noteq> [], s))"
    using run_handlers_call_all[of call ?n "entered st" 0 False] assms(5) row e vector_range(1)[of st]
    by (simp add: handlers_def Let_def)
  have rest: "mainhandler_rest dev (hs \<noteq> []) (idt_sti (idt_unlock s) (iflag st)) =
     (if hs = [] \<and> ?n < 32 then Inl (Panic ''Failure!'') else leave dev (iflag st) ?n s)"
    if s: "call_all call ?n (handlers st ?n) (entered st) = Inr s" for s hs
  proof -
    from call_all_keeps[OF assms(5) s] assms(3) obtain t' where
      t': "idt_tls s = Some t'" and f: "f_int_no (frame s) = take_bit 8 (f_int_no (frame st))"
      by (auto simp: entered_def Let_def)
    have c: "f_int_no (frame s) < 32 \<longleftrightarrow> ?n < 32" "32 \<le> f_int_no (frame s) \<longleftrightarrow> 32 \<le> ?n"
      by (simp_all add: f vector_def word_less_def word_le_def)
    show ?thesis using t' c sint_vector[OF f]
      by (cases s) (auto simp: mainhandler_rest_def leave_def idt_unlock_def idt_sti_def Let_def swapgs_def vector_def bindE_assoc
            split: if_splits intro!: arg_cong[where f = "bindE _"])
  qed
  have "idt_mainhandler call dev st = bindE (run_handlers call (entered st) 0 False) (\<lambda>(handled, s).
      mainhandler_rest dev handled (idt_sti (idt_unlock s) (iflag st)))"
    using assms(2-4)
    by (cases st) (auto simp: idt_mainhandler_def entered_def Let_def swapgs_def idt_cli_def idt_lock_def)
  then show ?thesis unfolding run
    by (cases "call_all call ?n (handlers st ?n) (entered st)") (simp_all add: rest)
qed

text \<open>
  C31. An interrupt calls exactly the handlers registered for its vector, each once and in the order of
  their slots, with interrupts off, the lock held and the interrupted registers readable; then the
  lock is released and the controller is told for vectors from 32 on. A vector below 32 without a
  handler is a panic; one from 32 on is ignored.
\<close>

theorem mainhandler_dispatch:
  assumes "idt_wf st" "\<not> interrupt_alloc_lock st" "idt_tls st = Some t" "reg_state t \<noteq> None" "handlers_ok call"
  shows "idt_mainhandler call dev st =
    bindE (call_all call (vector st) (handlers st (vector st)) (entered st)) (\<lambda>s.
      if handlers st (vector st) = [] \<and> vector st < 32 then Inl (Panic ''Failure!'')
      else leave dev (iflag st) (vector st) s)"
  by (rule mainhandler_eq[OF assms])

text \<open>
  The search does not find a free vector 255, whatever the request; a fault while the handlers run, or
  a handler that registers another one, finds the lock held by its own core.
\<close>

lemma vector_255_not_found:
  assumes "idt_wf st" "\<not> interrupt_alloc_lock st" "flags AND interrupt_flags_fixed = 0"
    and "\<forall>k. 32 \<le> k \<and> k < 255 \<longrightarrow> interrupt_blocked st ! k"
  shows "interrupt_allocate st 1 flags 0 = Inr (-1, 0, st)"
proof -
  obtain r where r: "find_run (interrupt_blocked st) 1 32 32 0 = Inr r" "first_run (interrupt_blocked st) 1 32 r"
    using find_run_32[OF assms(1), of 1] by auto
  have "r = None"
  proof (rule ccontr)
    assume "r \<noteq> None"
    with r(2) obtain b where "32 \<le> b" "b + 1 < 256" "run_free (interrupt_blocked st) b 1"
      by (auto simp: first_run_def IDT_ENTRY_COUNT_def)
    moreover from this have "interrupt_blocked st ! nat b" using assms(4) by (auto simp: le_nat_iff nat_less_iff)
    ultimately show False by (auto simp: run_free_def)
  qed
  with r assms(2) show ?thesis by (simp add: allocate_search_result[OF assms(3)] after_fixed_def)
qed

lemma fault_in_handler_deadlocks:
  "interrupt_alloc_lock st \<Longrightarrow> idt_tls st = Some t \<Longrightarrow> reg_state t = Some r \<Longrightarrow> idt_mainhandler call dev st = Inl Deadlock"
  "interrupt_alloc_lock st \<Longrightarrow> interrupt_registerhandler st irq h = Inl Deadlock"
  by (auto simp: idt_mainhandler_def interrupt_registerhandler_def idt_cli_def idt_lock_def swapgs_def Let_def)

section \<open>Concrete cases\<close>

definition ex_regs_t :: regs_t where
  "ex_regs_t = \<lparr>f_rsp = 0, f_r15 = 15, f_r14 = 14, f_r13 = 13, f_r12 = 12, f_r11 = 11, f_r10 = 10, f_r9 = 9, f_r8 = 8,
     f_rdi = 1, f_rsi = 2, f_rbp = 3, f_rdx = 4, f_rcx = 5, f_rbx = 6, f_rax = 7, f_int_no = 0x28, f_err_code = 1,
     f_rip = 0x400000, f_cs = 0x2b, f_rflags = 0x202, f_useresp = 0x7000, f_ss = 0x23\<rparr>"

definition ex_intr :: intr where
  "ex_intr = \<lparr>idt_tls = Some \<lparr>gates = [], reg_state = Some ex_regs_t, reg_ref = False\<rparr>,
     idt_handlers = replicate 256 (replicate 64 0), interrupt_funcs = replicate 256 (replicate 16 NULL),
     interrupt_blocked = replicate 256 False, interrupt_alloc_lock = False, int_arr_inited = False, iflag = True,
     frame = ex_regs_t, gs_kernel = False, lapic = Some \<lparr>base_addr = 0xFEE00000, apic_id = 0, x2apic_mode = False\<rparr>,
     bus_log = [], idt_register = (0, [])\<rparr>"

lemma ex_intr_sel [simp]:
  "idt_tls ex_intr = Some \<lparr>gates = [], reg_state = Some ex_regs_t, reg_ref = False\<rparr>"
  "interrupt_funcs ex_intr = replicate 256 (replicate 16 NULL)" "interrupt_blocked ex_intr = replicate 256 False"
  "\<not> interrupt_alloc_lock ex_intr" "frame ex_intr = ex_regs_t" "idt_handlers ex_intr = replicate 256 (replicate 64 0)"
  "\<not> int_arr_inited ex_intr" "iflag ex_intr" "bus_log ex_intr = []"
  by (simp_all add: ex_intr_def)

lemma ex_intr_wf [simp]: "idt_wf ex_intr"
  by (auto simp: idt_wf_def idt_counts)


lemma ex_first_run: "find_run (replicate 256 False) 2 32 32 0 = Inr (Some 32)"
  by (subst find_run.simps, simp add: IDT_ENTRY_COUNT_def, subst find_run.simps, simp add: IDT_ENTRY_COUNT_def,
      subst find_run.simps, simp add: IDT_ENTRY_COUNT_def)

definition ex_intr1 :: intr where
  "ex_intr1 = ex_intr\<lparr>interrupt_blocked := (replicate 256 False)[32 := True, 33 := True]\<rparr>"

lemma ex_alloc1: "interrupt_allocate ex_intr 2 1 0 = Inr (0, 32, ex_intr1)"
  by (simp add: allocate_search_result interrupt_flags after_fixed_def ex_first_run block_if_def ex_intr1_def
      numeral_2_eq_2)

lemma ex_alloc2: "interrupt_allocate ex_intr1 2 1 40 =
    Inr (0, 40, ex_intr1\<lparr>interrupt_blocked := (interrupt_blocked ex_intr1)[40 := True, 41 := True]\<rparr>)"
  by (simp add: allocate_search_result interrupt_flags allocate_fixed_result after_fixed_def block_if_def ex_intr1_def
      numeral_2_eq_2 aget_def aset_def nth_list_update)

theorem exclusive_vectors_disjoint_witness:
  "interrupt_allocate ex_intr 2 1 0 = Inr (0, 32, ex_intr1) \<and> (32 + 2 \<le> (40 :: int) \<or> 40 + 2 \<le> (32 :: int))"
  using exclusive_vectors_disjoint[OF ex_intr_wf _ _ _ _ ex_alloc1 ex_alloc2] ex_alloc1 by (simp add: interrupt_flags)

theorem allocate_first_fit_witness:
  "\<exists>r st'. first_run (interrupt_blocked ex_intr) 2 32 r \<and>
     interrupt_allocate ex_intr 2 1 0 = Inr (case r of None \<Rightarrow> (-1, 0, ex_intr) | Some b \<Rightarrow> (0, b, st')) \<and>
     (\<forall>b. r = Some b \<longrightarrow> taken ex_intr b 2 st')"
  using allocate_first_fit[of ex_intr 2 1] by (simp add: interrupt_flags)

theorem register_adds_handler_witness:
  "\<exists>st'. interrupt_registerhandler ex_intr 40 0x1000 = Inr st' \<and> mset (handlers st' 40) = {#0x1000#}"
  using register_adds_handler[of ex_intr 40 "0x1000"] by (auto simp: handlers_def idt_counts)

theorem mainhandler_dispatch_witness:
  "idt_mainhandler (\<lambda>f n s. Inr s) (\<lambda>_ _. 0) ex_intr = leave (\<lambda>_ _. 0) True 40 (entered ex_intr)"
proof -
  have "vector ex_intr = 40" by (simp add: vector_def ex_regs_t_def)
  then show ?thesis using mainhandler_dispatch[of ex_intr _ "\<lambda>f n s. Inr s" "\<lambda>_ _. 0"]
    by (simp add: handlers_ok_def handlers_def)
qed

end
