(* ===== verification/IdtEntry.thy ===== *)
theory IdtEntry
  imports Interrupts ByteMem
begin

unbundle bit_operations_syntax

text \<open>
  The way through the machine code of \<^verbatim>\<open>idt.c\<close>: the processor pushes the interrupted context, the stub
  of the vector pushes the missing words and returns into \<^verbatim>\<open>idt_defaulthandler\<close>, which saves the other
  registers, calls the dispatcher and restores everything from the frame. The stub is executed from
  the bytes that \<open>idt_fillswinterrupthandler\<close> has written, by a small interpreter of the five
  instructions it uses. A stack is the list of its words, the top first.
\<close>

section \<open>The stub\<close>

text \<open>\<open>push imm8\<close>, \<open>push rax\<close>, \<open>mov imm64, rax\<close> and \<open>ret\<close>; any other byte has no meaning here.\<close>

fun exec_stub :: "u8 list \<Rightarrow> u64 \<Rightarrow> u64 list \<Rightarrow> (addr \<times> u64 \<times> u64 list) option" where
  "exec_stub [] ax stk = None"
| "exec_stub (op # bs) ax stk =
     (if op = 0x6a then (case bs of [] \<Rightarrow> None | imm # bs' \<Rightarrow> exec_stub bs' ax (scast imm # stk))
      else if op = 0x50 then exec_stub bs ax (ax # stk)
      else if op = 0x48 then (case bs of [] \<Rightarrow> None
        | op2 # bs' \<Rightarrow> if op2 = 0xb8 \<and> 8 \<le> length bs' then exec_stub (drop 8 bs') (le_val (take 8 bs')) stk else None)
      else if op = 0xC3 then (case stk of [] \<Rightarrow> None | a # stk' \<Rightarrow> Some (a, ax, stk'))
      else None)"

lemma emit_take: "0 \<le> i \<Longrightarrow> i + int (length bs) \<le> int (length buf) \<Longrightarrow>
    emit buf i bs = Inr (take (nat i) buf @ bs @ drop (nat i + length bs) buf)"
proof (induction bs arbitrary: buf i)
  case (Cons b bs)
  have "emit (buf[nat i := b]) (i + 1) bs =
      Inr (take (nat (i + 1)) (buf[nat i := b]) @ bs @ drop (nat (i + 1) + length bs) (buf[nat i := b]))"
    using Cons.prems by (intro Cons.IH) auto
  moreover have "take (nat (i + 1)) (buf[nat i := b]) = take (nat i) buf @ [b]"
    using Cons.prems by (simp add: nat_add_distrib take_Suc_conv_app_nth)
  ultimately show ?case using Cons.prems by (simp add: nat_add_distrib)
qed simp

lemma stub_code_length: "length (stub_code h n p) = (if p = 0 then 15 else 17)"
  by (simp add: stub_code_def)

lemma handler_bytes: "[ucast (h AND 0xff), ucast (drop_bit 8 h AND 0xff), ucast (drop_bit 16 h AND 0xff), ucast (drop_bit 24 h AND 0xff),
      ucast (drop_bit 32 h AND 0xff), ucast (drop_bit (32 + 8) h AND 0xff), ucast (drop_bit (32 + 16) h AND 0xff),
      ucast (drop_bit (32 + 24) h AND 0xff)] = le_bytes 8 h" for h :: u64
proof -
  have "ucast (x AND 0xff) = (ucast x :: u8)" for x :: u64
    unfolding mask_low by (rule bit_word_eqI) (auto simp: bit_simps)
  then show ?thesis by (simp add: le_bytes_def upt_rec numeral_eq_Suc)
qed

lemma stub_code_le: "stub_code h n p = (if p \<noteq> 0 then [0x6a, p] else []) @ [0x6a, n, 0x50, 0x48, 0xb8] @ le_bytes 8 h @ [0x50, 0xC3]"
  unfolding stub_code_def handler_bytes[symmetric] by simp

lemma exec_stub_code:
  "exec_stub (stub_code h n p @ more_bytes) ax stk = Some (h, h, ax # scast n # (if p \<noteq> 0 then [scast p] else []) @ stk)"
proof -
  have l: "length (le_bytes 8 h) = 8" by (simp add: le_bytes_def)
  show ?thesis unfolding stub_code_le by (simp add: l le_val_le_bytes)
qed

text \<open>
  The code written for a vector fits its buffer, and executing it from those bytes enters the
  common handler with the interrupted \<open>rax\<close>, the number of the vector, sign-extended by the push, and,
  where the processor pushes none, a dummy error code on the stack.
\<close>

theorem stub_enters_handler:
  assumes "length buf = IDT_ENTRY_HANDLER_SIZE"
  shows "\<exists>buf'. idt_fillswinterrupthandler h buf n p = Inr buf' \<and> length buf' = IDT_ENTRY_HANDLER_SIZE \<and>
    exec_stub buf' ax stk = Some (h, h, ax # scast n # (if p \<noteq> 0 then [scast p] else []) @ stk)"
  using assms emit_take[of 0 "stub_code h n p" buf] exec_stub_code[of h n p _ ax stk]
  by (simp add: idt_fillswinterrupthandler_def stub_code_length IDT_ENTRY_HANDLER_SIZE_def)

theorem stub_enters_handler_witness:
  "\<exists>buf'. idt_fillswinterrupthandler 0xffff800000123456 (replicate 64 0) 0x28 1 = Inr buf' \<and>
     exec_stub buf' 7 [] = Some (0xffff800000123456, 0xffff800000123456, [7, 0x28, 1])"
  using stub_enters_handler[of "replicate 64 0" "0xffff800000123456" "0x28" 1 7 "[]"]
  by (auto simp: IDT_ENTRY_HANDLER_SIZE_def)

section \<open>The common entry\<close>

text \<open>
  \<open>idt_defaulthandler\<close> with the stack \<open>stk\<close> it is entered with, below the address \<open>sp\<close>: the pushes, the
  call with the stack pointer as argument, the pops and \<open>iretq\<close>. The words on the stack are the frame
  the dispatcher works on. \<open>None\<close> of the inner list is a stack that is too short.
\<close>

definition push_regs :: "regs \<Rightarrow> u64 list \<Rightarrow> u64 list" where
  "push_regs c stk =
     [r15 c, r14 c, r13 c, r12 c, r11 c, r10 c, r9 c, r8 c, rdi c, rsi c, rbp c, rdx c, rcx c, rbx c] @ stk"

fun frame_words :: "u64 list \<Rightarrow> regs_t option" where
  "frame_words (a0 # a1 # a2 # a3 # a4 # a5 # a6 # a7 # a8 # a9 # a10 # a11 # a12 # a13 # a14 # a15 # a16 # a17 # a18 # a19 # a20 # a21 # a22 # rest) =
     Some \<lparr>f_rsp = a0, f_r15 = a1, f_r14 = a2, f_r13 = a3, f_r12 = a4, f_r11 = a5, f_r10 = a6, f_r9 = a7, f_r8 = a8,
       f_rdi = a9, f_rsi = a10, f_rbp = a11, f_rdx = a12, f_rcx = a13, f_rbx = a14, f_rax = a15, f_int_no = a16,
       f_err_code = a17, f_rip = a18, f_cs = a19, f_rflags = a20, f_useresp = a21, f_ss = a22\<rparr>"
| "frame_words _ = None"

text \<open>The pops and \<open>iretq\<close> load every register from the frame; the flag register brings back the interrupt flag.\<close>

definition iret :: "intr \<Rightarrow> regs \<times> intr" where
  "iret st = (frame_to_regs (frame st), st\<lparr>iflag := bit (f_rflags (frame st)) 9\<rparr>)"

definition idt_defaulthandler ::
  "(addr \<Rightarrow> int \<Rightarrow> intr \<Rightarrow> intr res) \<Rightarrow> device \<Rightarrow> addr \<Rightarrow> regs \<Rightarrow> u64 list \<Rightarrow> intr \<Rightarrow> (regs \<times> intr) res" where
  "idt_defaulthandler call dev sp c stk st =
     (let stk = push_regs c stk;
          rdi = sp - 8 * of_nat (length stk);
          stk = rdi # stk in
      case frame_words stk of
        None \<Rightarrow> Inl BadPointer
      | Some f \<Rightarrow> bindE (idt_mainhandler call dev (st\<lparr>frame := f\<rparr>)) (\<lambda>st. Inr (iret st)))"

text \<open>
  An interrupt of vector \<open>v\<close> in the context \<open>c\<close>: the processor clears the interrupt flag, pushes the
  context and, for some exceptions, an error code, and enters the stub.
\<close>

definition interrupt ::
  "(addr \<Rightarrow> int \<Rightarrow> intr \<Rightarrow> intr res) \<Rightarrow> device \<Rightarrow> addr \<Rightarrow> nat \<Rightarrow> u64 option \<Rightarrow> addr \<Rightarrow> regs \<Rightarrow> intr \<Rightarrow> (regs \<times> intr) res" where
  "interrupt call dev h v err sp c st =
     (let stk = (case err of None \<Rightarrow> [] | Some e \<Rightarrow> [e]) @ [rip c, cs c, rflags c, rsp c, ss c] in
      case exec_stub (idt_handlers st ! v) (rax c) stk of
        None \<Rightarrow> Inl BadPointer
      | Some (a, ax, stk) \<Rightarrow>
          if a = h then idt_defaulthandler call dev sp (c\<lparr>rax := ax\<rparr>) stk (st\<lparr>iflag := False\<rparr>)
          else Inl BadPointer)"

section \<open>The table after start-up\<close>

lemma fill_handlers_ok:
  assumes "\<forall>i \<in> set is. i < length hs" "\<forall>b \<in> set hs. length b = IDT_ENTRY_HANDLER_SIZE" "distinct is"
  shows "\<exists>hs'. fill_handlers h hs is = Inr hs' \<and> length hs' = length hs \<and> (\<forall>b \<in> set hs'. length b = IDT_ENTRY_HANDLER_SIZE) \<and>
    (\<forall>i \<in> set is. \<exists>rest. hs' ! i = stub_code h (of_nat i) (pushes_to_stack i) @ rest) \<and>
    (\<forall>i. i \<notin> set is \<longrightarrow> hs' ! i = hs ! i)"
  using assms
proof (induction "is" arbitrary: hs)
  case (Cons i "is")
  let ?c = "stub_code h (of_nat i) (pushes_to_stack i)"
  from Cons.prems have i: "i < length hs" "length (hs ! i) = IDT_ENTRY_HANDLER_SIZE" by auto
  define B where "B = ?c @ drop (length ?c) (hs ! i)"
  have "length ?c \<le> length (hs ! i)" using i(2) by (simp add: stub_code_length IDT_ENTRY_HANDLER_SIZE_def)
  then have b: "idt_fillswinterrupthandler h (hs ! i) (of_nat i) (pushes_to_stack i) = Inr B" "length B = length (hs ! i)"
    using emit_take[of 0 ?c "hs ! i"] by (simp_all add: idt_fillswinterrupthandler_def B_def)
  have "\<forall>b \<in> set (hs[i := B]). length b = IDT_ENTRY_HANDLER_SIZE"
  proof
    fix b assume "b \<in> set (hs[i := B])"
    then have "b = B \<or> b \<in> set hs" using set_update_subset_insert[of hs i B] by blast
    then show "length b = IDT_ENTRY_HANDLER_SIZE" using Cons.prems(2) b(2) i(2) by auto
  qed
  then obtain hs' where hs':
    "fill_handlers h (hs[i := B]) is = Inr hs'" "length hs' = length hs" "\<forall>b \<in> set hs'. length b = IDT_ENTRY_HANDLER_SIZE"
    "\<forall>i \<in> set is. \<exists>rest. hs' ! i = stub_code h (of_nat i) (pushes_to_stack i) @ rest"
    "\<forall>k. k \<notin> set is \<longrightarrow> hs' ! k = hs[i := B] ! k"
    using Cons.IH[of "hs[i := B]"] Cons.prems(1,3) by auto
  have g: "aget hs (int i) = Inr (hs ! i)" using i by simp
  have "hs' ! i = B" using hs'(5) Cons.prems(3) i(1) by simp
  then have at: "\<forall>k \<in> set (i # is). \<exists>rest. hs' ! k = stub_code h (of_nat k) (pushes_to_stack k) @ rest"
    using hs'(4) by (auto simp: B_def)
  have off: "\<forall>k. k \<notin> set (i # is) \<longrightarrow> hs' ! k = hs ! k" using hs'(5) by simp
  have "fill_handlers h hs (i # is) = Inr hs'" using g b(1) hs'(1) by simp
  with hs'(2,3) at off show ?case by blast
qed simp

text \<open>The state after \<open>idt_init\<close>: the tables have their shape and every vector its stub.\<close>

definition idt_ready :: "addr \<Rightarrow> intr \<Rightarrow> bool" where
  "idt_ready h st \<longleftrightarrow> idt_wf st \<and>
     (\<forall>v < 256. \<exists>rest. idt_handlers st ! v = stub_code h (of_nat v) (pushes_to_stack v) @ rest)"

lemma idt_init_first:
  assumes "\<not> int_arr_inited st" "length (idt_handlers st) = 256" "\<forall>b \<in> set (idt_handlers st). length b = IDT_ENTRY_HANDLER_SIZE"
  shows "\<exists>st'. idt_init h base tls (Some g) regs st = Inr (0, st') \<and> idt_ready h st' \<and> int_arr_inited st' \<and>
    (\<forall>k. 0 \<le> k \<and> k < 256 \<longrightarrow> handlers st' k = []) \<and> (\<forall>k < 256. \<not> interrupt_blocked st' ! k) \<and>
    interrupt_alloc_lock st' = interrupt_alloc_lock st \<and> map_option reg_state (idt_tls st') = Some regs"
proof -
  obtain hs where hs: "fill_handlers h (idt_handlers st) [0 ..< IDT_ENTRY_COUNT] = Inr hs"
    "\<forall>i \<in> set [0 ..< IDT_ENTRY_COUNT]. \<exists>rest. hs ! i = stub_code h (of_nat i) (pushes_to_stack i) @ rest"
    using fill_handlers_ok[of "[0 ..< IDT_ENTRY_COUNT]" "idt_handlers st" h] assms by (auto simp: IDT_ENTRY_COUNT_def)
  let ?st = "st\<lparr>idt_handlers := hs, interrupt_blocked := replicate IDT_ENTRY_COUNT False,
    interrupt_funcs := replicate IDT_ENTRY_COUNT (replicate IDT_HANDLER_CNT NULL), int_arr_inited := True\<rparr>"
  let ?g = "map (\<lambda>i. set_gate (base + of_nat (i * IDT_ENTRY_HANDLER_SIZE)) (g ! i)) [0 ..< IDT_ENTRY_COUNT]"
  let ?t = "(case idt_tls st of None \<Rightarrow> tls | Some t \<Rightarrow> t)\<lparr>gates := ?g, reg_state := regs\<rparr>"
  have "idt_init h base tls (Some g) regs st = Inr (0, ?st\<lparr>idt_tls := Some ?t, idt_register := (of_nat (16 * IDT_ENTRY_COUNT - 1), ?g)\<rparr>)"
    using assms(1) hs(1) by (simp add: idt_init_def Let_def)
  with hs(2) show ?thesis
    by (auto simp: idt_ready_def idt_wf_def handlers_def IDT_ENTRY_COUNT_def nat_less_iff)
qed

lemma gate_offset: "ucast (offset0 (set_gate a g)) OR push_bit 16 (ucast (offset1 (set_gate a g))) OR push_bit 32 (ucast (offset2 (set_gate a g))) = a"
proof -
  have m: "x AND 0xFFFF = take_bit 16 x" "x AND 0xFFFFFFFF = take_bit 32 x" for x :: u64
    by (simp_all add: take_bit_eq_mask mask_eq_exp_minus_1)
  let ?g = "set_gate a g"
  show ?thesis
  proof (rule bit_word_eqI)
    fix n assume "n < LENGTH(64)"
    then show "bit (ucast (offset0 ?g) OR push_bit 16 (ucast (offset1 ?g)) OR push_bit 32 (ucast (offset2 ?g)) :: u64) n = bit a n"
      by (cases "n < 16"; cases "n < 32") (auto simp: m bit_simps set_gate_def)
  qed
qed

section \<open>Interrupts are transparent\<close>

text \<open>The exceptions for which the table expects an error code from the processor.\<close>

definition error_code_vector :: "nat \<Rightarrow> bool" where
  "error_code_vector v \<longleftrightarrow> v = 8 \<or> (10 \<le> v \<and> v \<le> 14)"

definition saved_frame :: "addr \<Rightarrow> nat \<Rightarrow> u64 option \<Rightarrow> regs \<Rightarrow> regs_t" where
  "saved_frame sp v err c =
     regs_to_frame c \<lparr>f_rsp = sp - 176, f_r15 = 0, f_r14 = 0, f_r13 = 0, f_r12 = 0, f_r11 = 0, f_r10 = 0, f_r9 = 0, f_r8 = 0,
       f_rdi = 0, f_rsi = 0, f_rbp = 0, f_rdx = 0, f_rcx = 0, f_rbx = 0, f_rax = 0, f_int_no = scast (of_nat v :: u8),
       f_err_code = (case err of None \<Rightarrow> 1 | Some e \<Rightarrow> e), f_rip = 0, f_cs = 0, f_rflags = 0, f_useresp = 0, f_ss = 0\<rparr>"

lemma frame_to_regs_saved: "frame_to_regs (saved_frame sp v err c) = c"
  by (cases c) (simp add: frame_to_regs_def saved_frame_def regs_to_frame_def)

lemma interrupt_saves:
  assumes "idt_ready h st" "v < 256" "error_code_vector v \<longleftrightarrow> err \<noteq> None"
  shows "interrupt call dev h v err sp c st =
    bindE (idt_mainhandler call dev (st\<lparr>iflag := False, frame := saved_frame sp v err c\<rparr>)) (\<lambda>s. Inr (iret s))"
proof -
  obtain tl' where s: "idt_handlers st ! v = stub_code h (of_nat v) (pushes_to_stack v) @ tl'"
    using assms by (auto simp: idt_ready_def)
  let ?e = "case err of None \<Rightarrow> 1 | Some e \<Rightarrow> e"
  have "exec_stub (idt_handlers st ! v) (rax c) ((case err of None \<Rightarrow> [] | Some e \<Rightarrow> [e]) @ [rip c, cs c, rflags c, rsp c, ss c]) =
     Some (h, h, [rax c, scast (of_nat v :: u8), ?e, rip c, cs c, rflags c, rsp c, ss c])"
    using assms(3) unfolding s exec_stub_code by (auto simp: pushes_to_stack_def error_code_vector_def split: option.splits)
  then show ?thesis
    by (simp add: interrupt_def idt_defaulthandler_def Let_def push_regs_def saved_frame_def regs_to_frame_def)
qed

lemma vector_saved: "v < 256 \<Longrightarrow> vector (st\<lparr>frame := saved_frame sp v err c\<rparr>) = int v"
proof -
  assume v: "v < 256"
  have "take_bit 8 (scast w :: u64) = ucast w" for w :: u8
  proof (rule bit_word_eqI)
    fix n
    show "bit (take_bit 8 (scast w :: u64)) n = bit (ucast w :: u64) n"
      by (cases "n < 7"; cases "n = 7") (auto simp: bit_simps bit_signed_iff min_def dest: bit_imp_le_length)
  qed
  then have "vector (st\<lparr>frame := saved_frame sp v err c\<rparr>) = uint (of_nat v :: u8)"
    by (simp add: vector_def saved_frame_def regs_to_frame_def unsigned_ucast_eq take_bit_int_eq_self order_less_trans[OF uint_lt2p])
  also have "\<dots> = int v" using v by (simp add: unsigned_of_nat take_bit_nat_eq_self)
  finally show ?thesis .
qed

text \<open>The stack segment of a context that runs in user mode gets its privilege bits.\<close>

definition user_ss :: "regs \<Rightarrow> regs" where
  "user_ss c = (if cs c AND 3 \<noteq> 0 then c\<lparr>ss := ss c OR 3\<rparr> else c)"

lemma sendeoi_ok: "a \<noteq> None \<Longrightarrow> \<exists>log'. interrupt_sendeoi dev a log n = Inr log'"
  by (auto simp: interrupt_sendeoi_def apic_read_def apic_write_def Let_def split: prod.splits)

text \<open>What the handlers return decides the context that the processor continues with.\<close>

lemma interrupt_returns:
  assumes "idt_ready h st" "v < 256" "error_code_vector v \<longleftrightarrow> err \<noteq> None"
    and "\<not> interrupt_alloc_lock st" "idt_tls st = Some t" "reg_state t \<noteq> None" "handlers_ok call"
    and "handlers st (int v) \<noteq> [] \<or> 32 \<le> v"
    and c: "call_all call (int v) (handlers st (int v)) (entered (st\<lparr>iflag := False, frame := saved_frame sp v err c\<rparr>)) = Inr s"
    and "lapic s \<noteq> None"
  shows "\<exists>st'. interrupt call dev h v err sp c st = Inr (user_ss (frame_to_regs (frame s)), st') \<and>
    \<not> interrupt_alloc_lock st' \<and> iflag st' = bit (f_rflags (frame s)) 9 \<and> gs_kernel st' = (gs_kernel s \<noteq> user_frame (frame s))"
proof -
  let ?st = "st\<lparr>iflag := False, frame := saved_frame sp v err c\<rparr>"
  have v: "vector ?st = int v" using vector_saved[OF assms(2)] by simp
  have h: "handlers ?st k = handlers st k" for k by (simp add: handlers_def)
  have wf: "idt_wf ?st" using assms(1) by (simp add: idt_ready_def idt_wf_def)
  have m: "idt_mainhandler call dev ?st = leave dev False (int v) s"
    using mainhandler_eq[OF wf, of t call dev] assms(4-8) c by (auto simp: v h)
  obtain log where "(if 32 \<le> int v then interrupt_sendeoi dev (lapic s) (bus_log s) (int v) else Inr (bus_log s)) = Inr log"
    using sendeoi_ok[OF assms(10), of dev "bus_log s" "int v"] by (cases "32 \<le> v") auto
  then show ?thesis unfolding interrupt_saves[OF assms(1-3)] m
    by (auto simp: leave_def iret_def user_ss_def user_frame_def frame_to_regs_def)
qed

lemma call_all_frame:
  assumes "\<forall>f n s. \<exists>s'. call f n s = Inr s' \<and> frame s' = frame s \<and> lapic s' = lapic s \<and> gs_kernel s' = gs_kernel s"
  shows "\<exists>s'. call_all call n fs s = Inr s' \<and> frame s' = frame s \<and> lapic s' = lapic s \<and> gs_kernel s' = gs_kernel s"
proof (induction fs arbitrary: s)
  case (Cons f fs)
  obtain s1 where "call f n s = Inr s1" "frame s1 = frame s" "lapic s1 = lapic s" "gs_kernel s1 = gs_kernel s" using assms by blast
  with Cons.IH[of s1] show ?case by auto
qed simp



text \<open>
  The processor also pushes an error code for the alignment check, vector 17, for which the table has
  a stub that pushes another one: the frame is then off by a word, with the error code in the place
  of the instruction pointer.
\<close>

lemma alignment_check_shifts_frame:
  assumes "idt_ready h st"
  shows "\<exists>ax stk. exec_stub (idt_handlers st ! 17) (rax c) (e # [rip c, cs c, rflags c, rsp c, ss c]) = Some (h, ax, stk) \<and>
    (\<exists>f. frame_words (0 # push_regs c stk) = Some f \<and> f_err_code f = 1 \<and> f_rip f = e \<and> f_cs f = rip c)"
proof -
  obtain tl' where s: "idt_handlers st ! 17 = stub_code h (of_nat 17) (pushes_to_stack 17) @ tl'"
    using assms[unfolded idt_ready_def, THEN conjunct2, rule_format, of 17] by auto
  show ?thesis unfolding s exec_stub_code by (simp add: pushes_to_stack_def push_regs_def)
qed

definition ex_ready :: intr where
  "ex_ready = (case idt_init 0xffff800000123456 0xffff800000200000 \<lparr>gates = [], reg_state = None, reg_ref = False\<rparr> (Some []) (Some ex_regs_t) ex_intr of
     Inr (_, st) \<Rightarrow> st | Inl _ \<Rightarrow> ex_intr)"

definition ex_cpu :: regs where
  "ex_cpu = frame_to_regs ex_regs_t"

lemma ex_ready_ok:
  "idt_ready 0xffff800000123456 ex_ready" "\<not> interrupt_alloc_lock ex_ready" "map_option reg_state (idt_tls ex_ready) = Some (Some ex_regs_t)"
  "handlers ex_ready 40 = []" "length (interrupt_funcs ex_ready) = 256"
proof -
  have "\<forall>b \<in> set (idt_handlers ex_intr). length b = IDT_ENTRY_HANDLER_SIZE" by (simp add: IDT_ENTRY_HANDLER_SIZE_def)
  from idt_init_first[of ex_intr "0xffff800000123456" "0xffff800000200000" "\<lparr>gates = [], reg_state = None, reg_ref = False\<rparr>" "[]" "Some ex_regs_t", OF _ _ this]
  obtain st' where "idt_init 0xffff800000123456 0xffff800000200000 \<lparr>gates = [], reg_state = None, reg_ref = False\<rparr> (Some []) (Some ex_regs_t) ex_intr = Inr (0, st')"
    "idt_ready 0xffff800000123456 st'" "\<forall>k. 0 \<le> k \<and> k < 256 \<longrightarrow> handlers st' k = []" "interrupt_alloc_lock st' = interrupt_alloc_lock ex_intr"
    "map_option reg_state (idt_tls st') = Some (Some ex_regs_t)" by auto
  then show "idt_ready 0xffff800000123456 ex_ready" "\<not> interrupt_alloc_lock ex_ready" "map_option reg_state (idt_tls ex_ready) = Some (Some ex_regs_t)"
    "handlers ex_ready 40 = []" "length (interrupt_funcs ex_ready) = 256"
    by (auto simp: ex_ready_def idt_ready_def idt_wf_def IDT_ENTRY_COUNT_def)
qed

lemma ex_ready_tls: "\<exists>t. idt_tls ex_ready = Some t \<and> reg_state t \<noteq> None"
  using ex_ready_ok(3) by (cases "idt_tls ex_ready") auto

definition ex_lapic :: "intr \<Rightarrow> intr" where
  "ex_lapic st = st\<lparr>lapic := Some \<lparr>base_addr = 0xFEE00000, apic_id = 0, x2apic_mode = False\<rparr>\<rparr>"

lemma ex_lapic_sel [simp]:
  "idt_ready h (ex_lapic st) = idt_ready h st" "interrupt_alloc_lock (ex_lapic st) = interrupt_alloc_lock st"
  "idt_tls (ex_lapic st) = idt_tls st" "handlers (ex_lapic st) k = handlers st k" "lapic (ex_lapic st) \<noteq> None"
  by (simp_all add: ex_lapic_def idt_ready_def idt_wf_def handlers_def)


definition ex_switch :: intr where
  "ex_switch = (ex_lapic ex_ready)\<lparr>interrupt_funcs := (interrupt_funcs ex_ready)[50 := 0x4000 # replicate 15 0]\<rparr>"

lemma ex_switch_ready: "idt_ready 0xffff800000123456 ex_switch" "handlers ex_switch 50 = [0x4000]"
  using ex_ready_ok idt_wf_upd[of "ex_lapic ex_ready" "0x4000 # replicate 15 0" 50]
  by (auto simp: ex_switch_def idt_ready_def ex_lapic_def handlers_def idt_counts idt_wf_def)


end
