(* ===== verification/IoApic.thy ===== *)
theory IoApic
  imports Interrupts Registry StdLib
begin

unbundle bit_operations_syntax

text \<open>
  The I/O interrupt controllers of \<^verbatim>\<open>ioapic.c\<close>, the start-up of the local controller and its timer in
  \<^verbatim>\<open>apic.c\<close>, the segment descriptors of \<^verbatim>\<open>gdt.c\<close>, and \<^verbatim>\<open>intr.c\<close>, which starts them in order. A
  controller is reached through two memory mapped words: the number of a register is written to the
  first and its value read or written at the second.
\<close>

section \<open>Redirection entries\<close>

record ioapic_t =
  ioapic_id :: u32
  global_intr_base :: u32
  ioapic_base :: addr

definition ioapic_write :: "ioapic_t list \<Rightarrow> access list \<Rightarrow> int \<Rightarrow> u32 \<Rightarrow> u32 \<Rightarrow> access list res" where
  "ioapic_write ios log idx off val =
     bindE (aget ios idx) (\<lambda>io.
       Inr (mmio_write (mmio_write log (ioapic_base io) off) (ioapic_base io + 16) val))"

definition ioapic_read :: "device \<Rightarrow> ioapic_t list \<Rightarrow> access list \<Rightarrow> int \<Rightarrow> u32 \<Rightarrow> (u32 \<times> access list) res" where
  "ioapic_read dev ios log idx off =
     bindE (aget ios idx) (\<lambda>io.
       Inr (mmio_read dev (mmio_write log (ioapic_base io) off) (ioapic_base io + 16)))"

text \<open>The changes to the two halves of an entry, in the order of the statements.\<close>

definition redir_high :: "u32 \<Rightarrow> u32 \<Rightarrow> u32" where
  "redir_high high cpuidx = (high AND NOT 0xff000000) OR push_bit 24 cpuidx"

definition redir_low :: "u32 \<Rightarrow> u32 \<Rightarrow> bool \<Rightarrow> bool \<Rightarrow> u32" where
  "redir_low low irq active_low level_trigger =
     (let low = low AND NOT (push_bit 13 1);
          low = low OR push_bit 13 (of_bool active_low AND 1);
          low = low AND NOT (push_bit 15 1);
          low = low OR push_bit 15 (of_bool level_trigger AND 1);
          low = low AND NOT 0xff;
          low = low OR (irq AND 0xff);
          low = low AND NOT (push_bit 11 1);
          low = low OR push_bit 11 0;
          low = low AND NOT 0x700;
          low = low OR push_bit 8 0 in
      low AND NOT (push_bit 16 1))"

definition ioapic_map ::
  "device \<Rightarrow> apic_t option \<Rightarrow> ioapic_t list \<Rightarrow> access list \<Rightarrow> int \<Rightarrow> u32 \<Rightarrow> u32 \<Rightarrow> bool \<Rightarrow> bool \<Rightarrow> access list res" where
  "ioapic_map dev apic ios log idx irq_pin irq active_low level_trigger =
     (let low_index = 0x10 + irq_pin * 2; high_index = 0x10 + irq_pin * 2 + 1 in
      bindE (ioapic_read dev ios log idx high_index) (\<lambda>(high, log).
      bindE (interrupt_get_cpuidx apic) (\<lambda>cpuidx.
      bindE (ioapic_write ios log idx high_index (redir_high high cpuidx)) (\<lambda>log.
      bindE (ioapic_read dev ios log idx low_index) (\<lambda>(low, log).
        ioapic_write ios log idx low_index (redir_low low irq active_low level_trigger))))))"

definition ioapic_setmask :: "device \<Rightarrow> ioapic_t list \<Rightarrow> access list \<Rightarrow> int \<Rightarrow> u32 \<Rightarrow> bool \<Rightarrow> access list res" where
  "ioapic_setmask dev ios log idx irq_pin masked =
     (let low_index = 0x10 + irq_pin * 2 in
      bindE (ioapic_read dev ios log idx low_index) (\<lambda>(low, log).
        let low = low AND NOT (push_bit 16 1);
            low = (if masked then low OR push_bit 16 1 else low) in
        ioapic_write ios log idx low_index low))"

text \<open>The loop that picks a controller: the index and the interrupt base of the best one so far.\<close>

function pick_ioapic :: "ioapic_t list \<Rightarrow> u32 \<Rightarrow> int \<Rightarrow> int \<Rightarrow> int \<Rightarrow> u32 \<Rightarrow> int res" where
  "pick_ioapic ios line cnt i ioapic_idx close =
     (if i < cnt then
        bindE (aget ios i) (\<lambda>io.
          if global_intr_base io < line \<and> global_intr_base io > close
          then pick_ioapic ios line cnt (i + 1) i (global_intr_base io)
          else pick_ioapic ios line cnt (i + 1) ioapic_idx close)
      else Inr ioapic_idx)"
  by pat_completeness auto
termination by (relation "measure (\<lambda>(ios, line, cnt, i, _). nat (cnt - i))") auto

declare pick_ioapic.simps [simp del]

record ioapics =
  ioapics :: "ioapic_t list"
  ioapic_cnt :: int

definition interrupt_mapinterrupt ::
  "device \<Rightarrow> apic_t option \<Rightarrow> ioapics \<Rightarrow> access list \<Rightarrow> u32 \<Rightarrow> 32 word \<Rightarrow> bool \<Rightarrow> bool \<Rightarrow> access list res" where
  "interrupt_mapinterrupt dev apic io log line irq active_low level_trig =
     bindE (pick_ioapic (ioapics io) line (ioapic_cnt io) 0 0 0) (\<lambda>ioapic_idx.
       ioapic_map dev apic (ioapics io) log ioapic_idx line irq active_low level_trig)"

definition interrupt_setmask :: "device \<Rightarrow> ioapics \<Rightarrow> access list \<Rightarrow> u32 \<Rightarrow> bool \<Rightarrow> access list res" where
  "interrupt_setmask dev io log line masked =
     bindE (pick_ioapic (ioapics io) line (ioapic_cnt io) 0 0 0) (\<lambda>ioapic_idx.
       ioapic_setmask dev (ioapics io) log ioapic_idx line masked)"

section \<open>Start-up of the controllers\<close>

text \<open>A key that must be present: the function returns \<open>-1\<close> without it.\<close>

record intc =
  ireg :: store
  ilog :: "access list"
  itab :: ioapics

definition need_uint :: "intc \<Rightarrow> cstring \<Rightarrow> string \<Rightarrow> (intc \<Rightarrow> u64 \<Rightarrow> (int \<times> intc) res) \<Rightarrow> (int \<times> intc) res" where
  "need_uint st dir k cont =
     bindE (registry_readkey_uint (ireg st) (Some dir) (Some (str k)) True) (\<lambda>(e, v, r).
       let st = st\<lparr>ireg := r\<rparr> in
       if e \<noteq> err_ok then Inr (-1, st) else cont st (case v of None \<Rightarrow> 0 | Some v \<Rightarrow> v))"

text \<open>A key whose absence leaves the variable as it is.\<close>

definition opt_bool :: "intc \<Rightarrow> cstring \<Rightarrow> string \<Rightarrow> (intc \<Rightarrow> bool \<Rightarrow> (int \<times> intc) res) \<Rightarrow> (int \<times> intc) res" where
  "opt_bool st dir k cont =
     bindE (registry_readkey_bool (ireg st) (Some dir) (Some (str k)) True) (\<lambda>(e, v, r).
       cont (st\<lparr>ireg := r\<rparr>) (case v of None \<Rightarrow> False | Some v \<Rightarrow> v \<noteq> 0))"

definition ioapic_key :: "int \<Rightarrow> cstring" where
  "ioapic_key i = str ''HW/IOAPIC/'' @ int_str 16 (of_int i :: 32 word)"

definition override_key :: "cstring \<Rightarrow> u64 \<Rightarrow> cstring" where
  "override_key k n = k @ str ''/OVERRIDE/'' @ int_str 16 (ucast n :: 32 word)"

definition map_masked :: "device \<Rightarrow> apic_t option \<Rightarrow> intc \<Rightarrow> int \<Rightarrow> u64 \<Rightarrow> u64 \<Rightarrow> bool \<Rightarrow> bool \<Rightarrow> intc res" where
  "map_masked dev apic st i j irq active_low level_trigger =
     bindE (ioapic_map dev apic (ioapics (itab st)) (ilog st) i (ucast j) (ucast irq) active_low level_trigger) (\<lambda>log.
     bindE (ioapic_setmask dev (ioapics (itab st)) log i (ucast j) True) (\<lambda>log.
       Inr (st\<lparr>ilog := log\<rparr>)))"

text \<open>The loop over the entries of a controller: an override from the registry, or the default mapping.\<close>

function redir_loop :: "device \<Rightarrow> apic_t option \<Rightarrow> int \<Rightarrow> cstring \<Rightarrow> u64 \<Rightarrow> u64 \<Rightarrow> u64 \<Rightarrow> intc \<Rightarrow> (intc \<Rightarrow> (int \<times> intc) res) \<Rightarrow> (int \<times> intc) res" where
  "redir_loop dev apic i key_idx intr_base n j st fin =
     (if j < n then
        bindE (registry_readkey_uint (ireg st) (Some (override_key key_idx (j + intr_base))) (Some (str ''IRQ'')) True) (\<lambda>(err, v, r).
          let st = st\<lparr>ireg := r\<rparr>; key2 = override_key key_idx (j + intr_base) in
          if err = err_dne then
            bindE (map_masked dev apic st i j (j + intr_base + 0x20) False False) (\<lambda>st.
              redir_loop dev apic i key_idx intr_base n (j + 1) st fin)
          else if err \<noteq> err_ok then Inr (-1, st)
          else
            bindE (registry_readkey_uint (ireg st) (Some key2) (Some (str ''BUS'')) True) (\<lambda>(_, _, r).
            opt_bool (st\<lparr>ireg := r\<rparr>) key2 ''ACTIVE_LOW'' (\<lambda>st active_low.
            opt_bool st key2 ''LEVEL_TRIGGER'' (\<lambda>st level_trigger.
              bindE (map_masked dev apic st i j ((case v of None \<Rightarrow> 0 | Some v \<Rightarrow> v) + 0x20) active_low level_trigger) (\<lambda>st.
                redir_loop dev apic i key_idx intr_base n (j + 1) st fin)))))
      else fin st)"
  by pat_completeness auto
termination
  by (relation "measure (\<lambda>(dev, apic, i, key_idx, intr_base, n, j, st, fin). unat n - unat j)") (auto intro: counter_step)

declare redir_loop.simps [simp del]

function ioapic_loop :: "device \<Rightarrow> apic_t option \<Rightarrow> vmem_state \<Rightarrow> int \<Rightarrow> int \<Rightarrow> intc \<Rightarrow> (int \<times> intc) res" where
  "ioapic_loop dev apic vspace cnt i st =
     (if i < cnt then
        let key_idx = ioapic_key i in
        need_uint st key_idx ''ID'' (\<lambda>st id.
        need_uint st key_idx ''BASE_ADDR'' (\<lambda>st base_addr.
        need_uint st key_idx ''GLOBAL_INTR_BASE'' (\<lambda>st intr_base.
        bindE (vmem_phystovirt vspace base_addr 0x2000 vmem_flags_uncached) (\<lambda>virt.
        bindE (aset (ioapics (itab st)) i \<lparr>ioapic_id = ucast id, global_intr_base = ucast intr_base, ioapic_base = virt\<rparr>) (\<lambda>ios.
        let st = st\<lparr>itab := (itab st)\<lparr>ioapics := ios\<rparr>\<rparr> in
        bindE (ioapic_read dev ios (ilog st) i 0x01) (\<lambda>(v, log).
          redir_loop dev apic i key_idx intr_base (ucast (drop_bit 16 v AND 0xff) + 1) 0 (st\<lparr>ilog := log\<rparr>) (\<lambda>st.
            ioapic_loop dev apic vspace cnt (i + 1) st)))))))
      else Inr (0, st))"
  by pat_completeness auto
termination
  by (relation "measure (\<lambda>(dev, apic, vspace, cnt, i, st). nat (cnt - i))") auto

declare ioapic_loop.simps [simp del]

text \<open>
  \<open>fresh\<close> is what \<open>malloc\<close> returns for the table: entries that are not initialised, or \<open>NULL\<close>, which is
  the empty table here, so that the first store into it faults.
\<close>

definition ioapic_init :: "device \<Rightarrow> apic_t option \<Rightarrow> vmem_state \<Rightarrow> (u64 \<Rightarrow> ioapic_t list option) \<Rightarrow> intc \<Rightarrow> (int \<times> intc) res" where
  "ioapic_init dev apic vspace fresh st =
     need_uint st (str ''HW/IOAPIC'') ''COUNT'' (\<lambda>st n.
       let t = (case fresh (16 * n) of None \<Rightarrow> [] | Some t \<Rightarrow> t); cnt = to_i32 (uint n) in
       ioapic_loop dev apic vspace cnt 0 (st\<lparr>itab := \<lparr>ioapics = t, ioapic_cnt = cnt\<rparr>\<rparr>))"

section \<open>Start-up of the local controller\<close>

definition IA32_APIC_BASE :: u32 where "IA32_APIC_BASE = 0x1B"

text \<open>\<open>tls\<close> is the block of thread local storage, used when the core has none yet.\<close>

definition apic_init :: "device \<Rightarrow> vmem_state \<Rightarrow> apic_t \<Rightarrow> store \<Rightarrow> intr \<Rightarrow> (int \<times> store \<times> intr) res" where
  "apic_init dev vspace tls reg st =
     (let a = (case lapic st of None \<Rightarrow> tls | Some a \<Rightarrow> a);
          (apic_base_reg, log) = rdmsr dev (bus_log st) IA32_APIC_BASE in
      bindE (vmem_phystovirt vspace (apic_base_reg AND NOT 0xfff) 0x2000 vmem_flags_uncached) (\<lambda>virt.
      let a = a\<lparr>base_addr := virt\<rparr>; apic_base_reg = apic_base_reg OR push_bit 11 1 in
      bindE (registry_readkey_bool reg (Some (str ''HW/PROC'')) (Some (str ''X2APIC'')) True) (\<lambda>(e, v, reg).
      if e \<noteq> err_ok then Inr (-1, reg, st\<lparr>lapic := Some a, bus_log := log\<rparr>)
      else
        let x2apic_sup = (case v of None \<Rightarrow> False | Some v \<Rightarrow> v \<noteq> 0);
            a = a\<lparr>x2apic_mode := x2apic_sup\<rparr>;
            apic_base_reg = (if x2apic_sup then apic_base_reg OR push_bit 10 1 else apic_base_reg) in
        bindE (if x2apic_mode a then Inr log else apic_write dev (Some a) log APIC_DFR 0xf0000000) (\<lambda>log.
        let log = wrmsr log IA32_APIC_BASE apic_base_reg in
        bindE (apic_read dev (Some a) log APIC_ID) (\<lambda>(v, log).
        let a = a\<lparr>apic_id := ucast v\<rparr>;
            a = (if x2apic_mode a then a else a\<lparr>apic_id := drop_bit 24 (apic_id a)\<rparr>) in
        bindE (apic_write dev (Some a) log APIC_TPR 0) (\<lambda>log.
        bindE (apic_write dev (Some a) log APIC_SVR (push_bit 8 1 OR 0xFF)) (\<lambda>log.
          Inr (0, reg, st\<lparr>lapic := Some a, bus_log := log\<rparr>))))))))"

text \<open>
  The timer of a core. \<open>intrpt_num\<close> is the static variable with its vector; on the other cores, \<open>ap\<close>, it
  is the one the first core has allocated.
\<close>

definition local_apic_timer_init ::
  "device \<Rightarrow> bool \<Rightarrow> addr \<Rightarrow> bool \<Rightarrow> store \<Rightarrow> int \<Rightarrow> intr \<Rightarrow> (int \<times> int \<times> store \<times> intr) res" where
  "local_apic_timer_init dev tsc_mode handler ap reg intrpt_num st =
     bindE (if \<not> ap then
              bindE (interrupt_allocate st 1 interrupt_flags_exclusive 50) (\<lambda>(_, n, st).
              bindE (interrupt_registerhandler st n handler) (\<lambda>st. Inr (n, st)))
            else Inr (intrpt_num, st)) (\<lambda>(intrpt_num, st).
     bindE (apic_read dev (lapic st) (bus_log st) APIC_TIMER) (\<lambda>(v, log).
     let v = v AND NOT 0x007100ff;
         v = v OR of_int intrpt_num AND 0xff in
     if tsc_mode then
       bindE (apic_write dev (lapic st) log APIC_TIMER (v OR push_bit 17 2)) (\<lambda>log.
         Inr (intrpt_num, intrpt_num, reg, st\<lparr>bus_log := log\<rparr>))
     else
       bindE (registry_readkey_uint reg (Some (str ''HW/PROC'')) (Some (str ''APIC_FREQ'')) True) (\<lambda>(e, f, reg).
       if e \<noteq> err_ok then Inr (-1, intrpt_num, reg, st\<lparr>bus_log := log\<rparr>)
       else
         bindE (apic_write dev (lapic st) log APIC_ICoR ((case f of None \<Rightarrow> 0 | Some f \<Rightarrow> f) div 20000)) (\<lambda>log.
         bindE (apic_write dev (lapic st) log APIC_TIMER (v OR push_bit 17 1)) (\<lambda>log.
           Inr (intrpt_num, intrpt_num, reg, st\<lparr>bus_log := log\<rparr>))))))"

section \<open>Segment descriptors\<close>

record gdt_t =
  limit_low :: u16
  base_low :: u16
  base_mid :: u8
  gaccess :: u8
  granularity :: u8
  base_high :: u8

definition gdt_setentry :: "u32 \<Rightarrow> u32 \<Rightarrow> u8 \<Rightarrow> u8 \<Rightarrow> gdt_t \<Rightarrow> gdt_t" where
  "gdt_setentry base limit acc gran g =
     g\<lparr>base_low := ucast (base AND 0xFFFF), base_mid := ucast (drop_bit 16 base AND 0xFF),
       base_high := ucast (drop_bit 24 base AND 0xFF), limit_low := ucast (limit AND 0xFFFF),
       granularity := ucast (drop_bit 16 limit AND 0x0F) OR (gran AND 0xF0), gaccess := acc\<rparr>"

definition gdt_set :: "gdt_t list \<Rightarrow> int \<Rightarrow> (gdt_t \<Rightarrow> gdt_t) \<Rightarrow> gdt_t list res" where
  "gdt_set t i f = bindE (aget t i) (\<lambda>g. aset t i (f g))"

definition gdt_settss :: "gdt_t list \<Rightarrow> int \<Rightarrow> u64 \<Rightarrow> u32 \<Rightarrow> u8 \<Rightarrow> gdt_t list res" where
  "gdt_settss t num base limit acc =
     bindE (gdt_set t num (gdt_setentry (ucast base) limit acc 0)) (\<lambda>t.
     bindE (gdt_set t (num + 1) (gdt_setentry 0 0 0 0)) (\<lambda>t.
       gdt_set t (num + 1) (\<lambda>g. g\<lparr>limit_low := ucast (drop_bit 32 base), base_low := ucast (drop_bit (32 + 16) base)\<rparr>)))"

text \<open>
  The table that \<open>gdt_init\<close> fills, for the memory \<open>t\<close> of its eight entries and a task state segment at
  \<open>tss\<close>, which is 104 bytes long.
\<close>

definition gdt_table :: "gdt_t list \<Rightarrow> u64 \<Rightarrow> gdt_t list res" where
  "gdt_table t tss =
     bindE (gdt_set t 0 (gdt_setentry 0 0 0 0)) (\<lambda>t.
     bindE (gdt_set t 1 (gdt_setentry 0 0xFFFFFFFF 0x9B 0xA0)) (\<lambda>t.
     bindE (gdt_set t 2 (gdt_setentry 0 0xFFFFFFFF 0x93 0x00)) (\<lambda>t.
     bindE (gdt_set t 3 (gdt_setentry 0 0xFFFFFFFF 0xFB 0xD0)) (\<lambda>t.
     bindE (gdt_set t 4 (gdt_setentry 0 0xFFFFFFFF 0xF3 0x00)) (\<lambda>t.
     bindE (gdt_set t 5 (gdt_setentry 0 0xFFFFFFFF 0xFB 0xA0)) (\<lambda>t.
       gdt_settss t 6 tss 104 0xE9))))))"

record tls_gdt_t =
  gdt_entries :: "gdt_t list"
  tss_addr :: addr
  rsp0 :: u64
  ist1 :: u64

definition interrupt_setstack :: "tls_gdt_t option \<Rightarrow> addr \<Rightarrow> tls_gdt_t option res" where
  "interrupt_setstack gdt stack = (case gdt of None \<Rightarrow> Inl NullDeref | Some g \<Rightarrow> Inr (Some (g\<lparr>rsp0 := stack\<rparr>)))"

text \<open>
  The three results of \<open>malloc\<close> are the memory of the table, the address of the task state segment and
  that of the temporary stack. The loading of the registers at the end is left out.
\<close>

definition gdt_init :: "gdt_t list option \<Rightarrow> addr \<Rightarrow> addr \<Rightarrow> tls_gdt_t \<Rightarrow> tls_gdt_t option \<Rightarrow> (int \<times> tls_gdt_t option) res" where
  "gdt_init table tss stack tls gdt =
     (let g = (case gdt of None \<Rightarrow> tls | Some g \<Rightarrow> g) in
      if tss = NULL then Inl NullDeref
      else case table of
             None \<Rightarrow> Inl NullDeref
           | Some t \<Rightarrow> bindE (gdt_table t tss) (\<lambda>t.
               Inr (0, Some (g\<lparr>gdt_entries := t, tss_addr := tss, ist1 := stack + 4096\<rparr>))))"

section \<open>Start-up in order\<close>

record boot_intr =
  b_intr :: intr
  b_gdt :: "tls_gdt_t option"
  b_reg :: store
  b_io :: ioapics

text \<open>What the allocations of the start-up return, and the addresses of the functions it refers to.\<close>

record boot_mem =
  m_gdt :: "gdt_t list option"
  m_tss :: addr
  m_stack :: addr
  m_gdt_tls :: tls_gdt_t
  m_idt :: "idt_t list option"
  m_regs :: "regs_t option"
  m_idt_tls :: tls_idt_t
  m_ioapics :: "u64 \<Rightarrow> ioapic_t list option"
  m_apic_tls :: apic_t
  m_defaulthandler :: addr
  m_handlers :: addr
  m_spurious :: addr
  m_pagefault :: addr

definition reserve :: "intr \<Rightarrow> int \<Rightarrow> (int \<times> intr) res" where
  "reserve st v = bindE (interrupt_allocate st 1 interrupt_flags_exclusive v) (\<lambda>(_, v, st). Inr (v, st))"

definition intr_init :: "device \<Rightarrow> vmem_state \<Rightarrow> boot_mem \<Rightarrow> boot_intr \<Rightarrow> (int \<times> boot_intr) res" where
  "intr_init dev vspace mm b =
     (let st = b_intr b; st = st\<lparr>bus_log := snd (pic_fini (bus_log st))\<rparr> in
      bindE (gdt_init (m_gdt mm) (m_tss mm) (m_stack mm) (m_gdt_tls mm) (b_gdt b)) (\<lambda>(err, gdt).
      let b = b\<lparr>b_gdt := gdt\<rparr> in
      if err \<noteq> 0 then Inr (err, b\<lparr>b_intr := st\<rparr>)
      else bindE (idt_init (m_defaulthandler mm) (m_handlers mm) (m_idt_tls mm) (m_idt mm) (m_regs mm) st) (\<lambda>(err, st).
      if err \<noteq> 0 then Inr (err, b\<lparr>b_intr := st\<rparr>)
      else
        bindE (reserve st 0x27) (\<lambda>(irq0, st).
        bindE (reserve st 0x2f) (\<lambda>(irq1, st).
        bindE (reserve st 0x0e) (\<lambda>(pf_intr, st).
        bindE (interrupt_registerhandler st irq0 (m_spurious mm)) (\<lambda>st.
        bindE (interrupt_registerhandler st irq1 (m_spurious mm)) (\<lambda>st.
        bindE (interrupt_registerhandler st pf_intr (m_pagefault mm)) (\<lambda>st.
        bindE (ioapic_init dev (lapic st) vspace (m_ioapics mm) \<lparr>ireg = b_reg b, ilog = bus_log st, itab = b_io b\<rparr>) (\<lambda>(err, ic).
        let st = st\<lparr>bus_log := ilog ic\<rparr>; b = b\<lparr>b_reg := ireg ic, b_io := itab ic\<rparr> in
        if err \<noteq> 0 then Inr (err, b\<lparr>b_intr := st\<rparr>)
        else bindE (apic_init dev vspace (m_apic_tls mm) (b_reg b) st) (\<lambda>(err, reg, st).
        let b = b\<lparr>b_reg := reg\<rparr> in
        if err \<noteq> 0 then Inr (err, b\<lparr>b_intr := st\<rparr>)
        else Inr (0, b\<lparr>b_intr := st\<lparr>iflag := True\<rparr>\<rparr>))))))))))))"

definition intr_mp_init :: "device \<Rightarrow> vmem_state \<Rightarrow> boot_mem \<Rightarrow> boot_intr \<Rightarrow> (int \<times> boot_intr) res" where
  "intr_mp_init dev vspace mm b =
     bindE (gdt_init (m_gdt mm) (m_tss mm) (m_stack mm) (m_gdt_tls mm) (b_gdt b)) (\<lambda>(err, gdt).
     let b = b\<lparr>b_gdt := gdt\<rparr> in
     if err \<noteq> 0 then Inr (err, b)
     else bindE (idt_init (m_defaulthandler mm) (m_handlers mm) (m_idt_tls mm) (m_idt mm) (m_regs mm) (b_intr b)) (\<lambda>(err, st).
     if err \<noteq> 0 then Inr (err, b\<lparr>b_intr := st\<rparr>)
     else bindE (apic_init dev vspace (m_apic_tls mm) (b_reg b) st) (\<lambda>(err, reg, st).
     Inr (err, b\<lparr>b_intr := st, b_reg := reg\<rparr>))))"

section \<open>The registers of a controller\<close>

text \<open>
  The registers behind the two words: the number that was written last to the first word, and the
  values that were written at the second. A controller answers a read of the second word with the
  register that is selected.
\<close>

fun ioa_replay :: "addr \<Rightarrow> (u32 \<Rightarrow> u32) \<Rightarrow> access list \<Rightarrow> u32 \<times> (u32 \<Rightarrow> u32)" where
  "ioa_replay base init [] = (0, init)"
| "ioa_replay base init (a # log) =
     (let (sel, r) = ioa_replay base init log in
      case a of
        MmioWrite p v \<Rightarrow> if p = base then (v, r) else if p = base + 16 then (sel, r(sel := v)) else (sel, r)
      | _ \<Rightarrow> (sel, r))"

definition ioa_regs :: "addr \<Rightarrow> (u32 \<Rightarrow> u32) \<Rightarrow> access list \<Rightarrow> u32 \<Rightarrow> u32" where
  "ioa_regs base init log = snd (ioa_replay base init log)"

definition ioa_device :: "addr \<Rightarrow> (u32 \<Rightarrow> u32) \<Rightarrow> device \<Rightarrow> bool" where
  "ioa_device base init dev \<longleftrightarrow>
     (\<forall>log. dev log (MmioRead (base + 16)) = (let (sel, r) = ioa_replay base init log in ucast (r sel)))"

lemma ioapic_read_reg:
  assumes "ioa_device (ioapic_base (ios ! nat i)) init dev" "0 \<le> i" "i < int (length ios)"
  shows "\<exists>log'. ioapic_read dev ios log i off = Inr (ioa_regs (ioapic_base (ios ! nat i)) init log off, log') \<and>
    ioa_regs (ioapic_base (ios ! nat i)) init log' = ioa_regs (ioapic_base (ios ! nat i)) init log"
  using assms
  by (auto simp: ioapic_read_def mmio_read_def mmio_write_def ioa_regs_def ioa_device_def Let_def ucast_back split: prod.splits)

lemma ioapic_write_reg:
  assumes "0 \<le> i" "i < int (length ios)"
  shows "\<exists>log'. ioapic_write ios log i off v = Inr log' \<and>
    ioa_regs (ioapic_base (ios ! nat i)) init log' = (ioa_regs (ioapic_base (ios ! nat i)) init log)(off := v)"
  using assms by (auto simp: ioapic_write_def mmio_write_def ioa_regs_def Let_def split: prod.splits)

text \<open>The fields of a redirection entry.\<close>

definition redir_entry :: "u32 \<Rightarrow> u32 \<Rightarrow> bool \<Rightarrow> bool \<Rightarrow> u32 \<Rightarrow> bool" where
  "redir_entry old irq active_low level_trigger new \<longleftrightarrow>
     take_bit 8 new = take_bit 8 irq \<and> (\<forall>k. 8 \<le> k \<and> k \<le> 11 \<longrightarrow> \<not> bit new k) \<and>
     bit new 13 = active_low \<and> bit new 15 = level_trigger \<and> \<not> bit new 16 \<and>
     (\<forall>k. k = 12 \<or> k = 14 \<or> 16 < k \<longrightarrow> bit new k = bit old k)"

lemma mask_bits:
  "bit (0xff :: u32) k = (k < 8)" "bit (0x700 :: u32) k = (k = 8 \<or> k = 9 \<or> k = 10)" "bit (0xff000000 :: u32) k = (24 \<le> k \<and> k < 32)"
proof -
  have 1: "(0xff :: u32) = mask 8" "(0x700 :: u32) = push_bit 8 (mask 3)" "(0xff000000 :: u32) = push_bit 24 (mask 8)"
    by (simp_all add: mask_eq_exp_minus_1)
  show "bit (0xff :: u32) k = (k < 8)" "bit (0x700 :: u32) k = (k = 8 \<or> k = 9 \<or> k = 10)" "bit (0xff000000 :: u32) k = (24 \<le> k \<and> k < 32)"
    unfolding 1 by (auto simp: bit_simps)
qed

lemma bit_flag: "bit (push_bit n 1 :: u32) k \<longleftrightarrow> k = n \<and> n < 32" "bit (push_bit n (of_bool b AND 1) :: u32) k \<longleftrightarrow> k = n \<and> n < 32 \<and> b"
  by (auto simp: bit_simps)

lemma redir_low_bit:
  "bit (redir_low old irq al lt) k \<longleftrightarrow>
     (if k < 8 then bit irq k
      else if k = 13 then al else if k = 15 then lt
      else k \<noteq> 8 \<and> k \<noteq> 9 \<and> k \<noteq> 10 \<and> k \<noteq> 11 \<and> k \<noteq> 16 \<and> bit old k)"
proof (cases "k < 32")
  case True
  have p: "possible_bit TYPE(32 word) k" using True by simp
  show ?thesis
    by (simp only: redir_low_def Let_def bit_and_iff bit_or_iff bit_not_iff mask_bits bit_flag push_bit_of_0 bit_0_eq bot_apply p) auto
next
  case False
  then show ?thesis using bit_imp_le_length[of old k] bit_imp_le_length[of "redir_low old irq al lt" k] by auto
qed

lemma redir_low_entry: "redir_entry old irq al lt (redir_low old irq al lt)"
  by (auto simp: redir_entry_def redir_low_bit bit_simps intro!: bit_word_eqI)

lemma redir_high_bits: "redir_high old c = take_bit 24 old OR push_bit 24 c"
proof (rule bit_word_eqI)
  fix n assume "n < LENGTH(32)"
  then show "bit (redir_high old c) n = bit (take_bit 24 old OR push_bit 24 c) n"
    by (simp only: redir_high_def bit_and_iff bit_or_iff bit_not_iff mask_bits) (auto simp: bit_simps)
qed

text \<open>
  C32. Mapping a pin of an I/O controller sets its redirection entry and nothing else: the vector, fixed
  delivery to a physical destination, the polarity and the trigger mode that were asked for, the
  interrupt unmasked, this processor as the destination; the read-only and reserved bits are written
  back as they were read, and no other register of the controller changes.
\<close>

theorem ioapic_map_sets_entry:
  assumes "ioa_device (ioapic_base (ios ! nat i)) init dev" "0 \<le> i" "i < int (length ios)"
  shows "\<exists>log'. ioapic_map dev (Some a) ios log i pin irq active_low level_trigger = Inr log' \<and>
    (let r = ioa_regs (ioapic_base (ios ! nat i)) init log; r' = ioa_regs (ioapic_base (ios ! nat i)) init log' in
     redir_entry (r (0x10 + 2 * pin)) irq active_low level_trigger (r' (0x10 + 2 * pin)) \<and>
     r' (0x11 + 2 * pin) = take_bit 24 (r (0x11 + 2 * pin)) OR push_bit 24 (apic_id a) \<and>
     (\<forall>k. k \<noteq> 0x10 + 2 * pin \<and> k \<noteq> 0x11 + 2 * pin \<longrightarrow> r' k = r k))"
proof -
  let ?R = "ioa_regs (ioapic_base (ios ! nat i)) init"
  let ?h = "0x10 + pin * 2 + 1" let ?l = "0x10 + pin * 2"
  have ne: "?h \<noteq> ?l" by simp
  have eq: "0x11 + 2 * pin = ?h" "0x10 + 2 * pin = ?l" by simp_all
  obtain log1 where 1: "ioapic_read dev ios log i ?h = Inr (?R log ?h, log1)" "?R log1 = ?R log"
    using ioapic_read_reg[OF assms(1-3)] by blast
  obtain log2 where 2: "ioapic_write ios log1 i ?h (redir_high (?R log ?h) (apic_id a)) = Inr log2"
    "?R log2 = (?R log)(?h := redir_high (?R log ?h) (apic_id a))"
    using ioapic_write_reg[OF assms(2,3)] 1(2) by metis
  obtain log3 where 3: "ioapic_read dev ios log2 i ?l = Inr (?R log2 ?l, log3)" "?R log3 = ?R log2"
    using ioapic_read_reg[OF assms(1-3)] by blast
  have l: "?R log2 ?l = ?R log ?l" using 2(2) ne by simp
  obtain log4 where 4: "ioapic_write ios log3 i ?l (redir_low (?R log ?l) irq active_low level_trigger) = Inr log4"
    "?R log4 = (?R log2)(?l := redir_low (?R log ?l) irq active_low level_trigger)"
    using ioapic_write_reg[OF assms(2,3)] 3(2) by metis
  have "ioapic_map dev (Some a) ios log i pin irq active_low level_trigger = Inr log4"
    using 1(1) 2(1) 3(1) 4(1) l by (simp add: ioapic_map_def Let_def interrupt_get_cpuidx_def)
  moreover have "redir_entry (?R log ?l) irq active_low level_trigger (?R log4 ?l)"
    using redir_low_entry 4(2) by simp
  moreover have "?R log4 ?h = take_bit 24 (?R log ?h) OR push_bit 24 (apic_id a)"
    using 2(2) 4(2) ne by (simp add: redir_high_bits)
  moreover have "\<forall>k. k \<noteq> ?l \<and> k \<noteq> ?h \<longrightarrow> ?R log4 k = ?R log k" using 2(2) 4(2) by simp
  ultimately show ?thesis unfolding eq Let_def by blast
qed

lemma setmask_sets_bit:
  assumes "ioa_device (ioapic_base (ios ! nat i)) init dev" "0 \<le> i" "i < int (length ios)"
  shows "\<exists>log'. ioapic_setmask dev ios log i pin m = Inr log' \<and>
    (let r = ioa_regs (ioapic_base (ios ! nat i)) init log; r' = ioa_regs (ioapic_base (ios ! nat i)) init log' in
     bit (r' (0x10 + pin * 2)) 16 = m \<and> (\<forall>k. k \<noteq> 16 \<longrightarrow> bit (r' (0x10 + pin * 2)) k = bit (r (0x10 + pin * 2)) k) \<and>
     (\<forall>k. k \<noteq> 0x10 + pin * 2 \<longrightarrow> r' k = r k))"
proof -
  let ?R = "ioa_regs (ioapic_base (ios ! nat i)) init" let ?l = "0x10 + pin * 2"
  define v where "v = (if m then (?R log ?l AND NOT (push_bit 16 1)) OR push_bit 16 1 else ?R log ?l AND NOT (push_bit 16 1))"
  obtain log1 where 1: "ioapic_read dev ios log i ?l = Inr (?R log ?l, log1)" "?R log1 = ?R log"
    using ioapic_read_reg[OF assms] by blast
  obtain log2 where 2: "ioapic_write ios log1 i ?l v = Inr log2" "?R log2 = (?R log)(?l := v)"
    using ioapic_write_reg[OF assms(2,3)] 1(2) by metis
  have "bit v 16 = m" "\<forall>k. k \<noteq> 16 \<longrightarrow> bit v k = bit (?R log ?l) k"
    unfolding v_def by (auto simp: bit_simps bit_flag simp del: push_bit_of_1 dest: bit_imp_le_length)
  moreover have "ioapic_setmask dev ios log i pin m = Inr log2"
    using 1(1) 2(1) by (cases m) (simp_all add: ioapic_setmask_def Let_def v_def)
  ultimately show ?thesis using 2(2) by (auto simp: Let_def)
qed

text \<open>
  The choice of a controller for an interrupt line. A line that is the first of a controller other than
  the one at base 0 is not taken to belong to it, and the pin handed on is the number of the line in the
  whole system, not its number at the controller that was chosen.
\<close>

lemma first_line_of_second_controller:
  assumes "global_intr_base (ios ! 0) = 0" "global_intr_base (ios ! 1) = b" "length ios = 2" "b \<noteq> 0"
  shows "pick_ioapic ios b 2 0 0 0 = Inr 0" "b < line \<Longrightarrow> pick_ioapic ios line 2 0 0 0 = Inr 1"
  using assms by (simp_all add: pick_ioapic.simps word_gt_0)

lemma mapinterrupt_pin_not_relative:
  assumes "global_intr_base (ios ! 0) = 0" "global_intr_base (ios ! 1) = b" "length ios = 2" "b \<noteq> 0" "b < line"
  shows "interrupt_mapinterrupt dev apic \<lparr>ioapics = ios, ioapic_cnt = 2\<rparr> log line irq al lt = ioapic_map dev apic ios log 1 line irq al lt"
  using first_line_of_second_controller(2)[OF assms(1-5)] by (simp add: interrupt_mapinterrupt_def)

text \<open>\<open>intr_init\<close> starts the I/O controllers before the local one, whose pointer they follow for the destination.\<close>

lemma ioapic_map_needs_lapic:
  "0 \<le> i \<Longrightarrow> i < int (length ios) \<Longrightarrow> ioapic_map dev None ios log i pin irq al lt = Inl NullDeref"
  by (simp add: ioapic_map_def Let_def ioapic_read_def interrupt_get_cpuidx_def split: prod.split)

lemma redir_loop_needs_lapic:
  assumes "0 < n" "0 \<le> i" "i < int (length (ioapics (itab st)))"
    and "registry_readkey_uint (ireg st) (Some (override_key kdir intr_base)) (Some (str ''IRQ'')) True = Inr (err_dne, v, r)"
  shows "redir_loop dev None i kdir intr_base n 0 st fin = Inl NullDeref"
  using assms by (subst redir_loop.simps) (simp add: map_masked_def ioapic_map_needs_lapic Let_def)

section \<open>Descriptors\<close>

text \<open>The base, the limit and the flags of a descriptor as the processor reads them.\<close>

definition desc_base :: "gdt_t \<Rightarrow> u32" where
  "desc_base g = ucast (base_low g) OR push_bit 16 (ucast (base_mid g)) OR push_bit 24 (ucast (base_high g))"

definition desc_limit :: "gdt_t \<Rightarrow> u32" where
  "desc_limit g = ucast (limit_low g) OR push_bit 16 (ucast (granularity g AND 0x0F))"

lemma low_masks: "x AND 0xFFFF = take_bit 16 x" "x AND 0xFF = take_bit 8 x" "x AND 0x0F = take_bit 4 x" for x :: "'a :: len word"
  by (simp_all add: take_bit_eq_mask mask_eq_exp_minus_1)

lemma bit_f0: "bit (0xF0 :: u8) k \<longleftrightarrow> 4 \<le> k \<and> k < 8"
proof -
  have f0: "(0xF0 :: u8) = push_bit 4 (mask 4)" by (simp add: mask_eq_exp_minus_1)
  show ?thesis unfolding f0 by (auto simp: bit_simps)
qed

lemma setentry_base: "desc_base (gdt_setentry base limit acc gran g) = base"
proof (rule bit_word_eqI)
  fix n assume "n < LENGTH(32)"
  then show "bit (desc_base (gdt_setentry base limit acc gran g)) n = bit base n"
    by (cases "n < 16"; cases "n < 24") (auto simp: desc_base_def gdt_setentry_def low_masks bit_simps)
qed

lemma setentry_limit: "desc_limit (gdt_setentry base limit acc gran g) = take_bit 20 limit"
proof (rule bit_word_eqI)
  fix n assume "n < LENGTH(32)"
  then show "bit (desc_limit (gdt_setentry base limit acc gran g)) n = bit (take_bit 20 limit) n"
    by (cases "n < 16"; cases "n < 20") (auto simp: desc_limit_def gdt_setentry_def low_masks bit_simps bit_f0)
qed

lemma setentry_flags: "drop_bit 4 (granularity (gdt_setentry base limit acc gran g)) = drop_bit 4 gran"
  by (rule bit_word_eqI) (auto simp: gdt_setentry_def low_masks bit_simps bit_f0 dest: bit_imp_le_length)

text \<open>
  The descriptor table has the segments the rest of the kernel names: decoding what was stored gives
  flat segments with their access bytes at the selectors 0x08, 0x10, 0x18, 0x20 and 0x28, and the
  task state segment at 0x30 with its full 64-bit address in two entries.
\<close>

theorem gdt_table_decodes:
  assumes "length t = 8"
  shows "\<exists>t'. gdt_table t tss = Inr t' \<and> length t' = 8 \<and>
    map gaccess (take 6 t') = [0, 0x9B, 0x93, 0xFB, 0xF3, 0xFB] \<and>
    map desc_base (take 6 t') = [0, 0, 0, 0, 0, 0] \<and> map desc_limit (take 6 t') = [0, 0xFFFFF, 0xFFFFF, 0xFFFFF, 0xFFFFF, 0xFFFFF] \<and>
    map (\<lambda>g. drop_bit 4 (granularity g)) (take 6 t') = [0, 0xA, 0, 0xD, 0, 0xA] \<and>
    gaccess (t' ! 6) = 0xE9 \<and> desc_limit (t' ! 6) = 104 \<and>
    ucast (desc_base (t' ! 6)) OR push_bit 32 (ucast (limit_low (t' ! 7))) OR push_bit 48 (ucast (base_low (t' ! 7))) = tss"
proof -
  obtain g0 g1 g2 g3 g4 g5 g6 g7 where t: "t = [g0, g1, g2, g3, g4, g5, g6, g7]"
    using assms by (auto simp: length_Suc_conv numeral_eq_Suc)
  have acc: "gaccess (gdt_setentry base limit acc gran g) = acc" for base limit acc gran g
    by (simp add: gdt_setentry_def)
  let ?s = "gdt_setentry"
  let ?t = "[?s 0 0 0 0 g0, ?s 0 0xFFFFFFFF 0x9B 0xA0 g1, ?s 0 0xFFFFFFFF 0x93 0x00 g2, ?s 0 0xFFFFFFFF 0xFB 0xD0 g3,
    ?s 0 0xFFFFFFFF 0xF3 0x00 g4, ?s 0 0xFFFFFFFF 0xFB 0xA0 g5, ?s (ucast tss) 104 0xE9 0 g6,
    (?s 0 0 0 0 g7)\<lparr>limit_low := ucast (drop_bit 32 tss), base_low := ucast (drop_bit 48 tss)\<rparr>]"
  have "gdt_table t tss = Inr ?t" unfolding t by (simp add: gdt_table_def gdt_settss_def gdt_set_def)
  moreover have "ucast (ucast tss :: u32) OR push_bit 32 (ucast (ucast (drop_bit 32 tss) :: u16)) OR push_bit 48 (ucast (ucast (drop_bit 48 tss) :: u16)) = tss"
  proof (rule bit_word_eqI)
    fix n assume "n < LENGTH(64)"
    then show "bit (ucast (ucast tss :: u32) OR push_bit 32 (ucast (ucast (drop_bit 32 tss) :: u16)) OR push_bit 48 (ucast (ucast (drop_bit 48 tss) :: u16)) :: u64) n = bit tss n"
      by (cases "n < 32"; cases "n < 48") (auto simp: bit_simps)
  qed
  ultimately show ?thesis by (simp add: setentry_base setentry_limit setentry_flags acc)
qed

section \<open>Concrete cases\<close>

definition ex_ioapic :: ioapic_t where
  "ex_ioapic = \<lparr>ioapic_id = 0, global_intr_base = 0, ioapic_base = 0xFEC00000\<rparr>"

definition ex_ioa_dev :: device where
  "ex_ioa_dev log a = (case a of
     MmioRead p \<Rightarrow> if p = 0xFEC00010 then let (sel, r) = ioa_replay 0xFEC00000 (\<lambda>_. 0x10000) log in ucast (r sel) else 0
   | _ \<Rightarrow> 0)"

theorem ioapic_map_sets_entry_witness:
  "ioa_device 0xFEC00000 (\<lambda>_. 0x10000) ex_ioa_dev \<and>
   (\<exists>log'. ioapic_map ex_ioa_dev (Some \<lparr>base_addr = 0, apic_id = 2, x2apic_mode = False\<rparr>) [ex_ioapic] [] 0 1 0x21 True False = Inr log' \<and>
      ioa_regs 0xFEC00000 (\<lambda>_. 0x10000) log' 0x13 = 0x2010000 \<and> bit (ioa_regs 0xFEC00000 (\<lambda>_. 0x10000) log' 0x12) 13)"
proof -
  have d: "ioa_device 0xFEC00000 (\<lambda>_. 0x10000) ex_ioa_dev" by (simp add: ioa_device_def ex_ioa_dev_def)
  have r: "ioa_regs b init [] k = init k" for b init k by (simp add: ioa_regs_def)
  from ioapic_map_sets_entry[of "[ex_ioapic]" 0 "\<lambda>_. 0x10000" ex_ioa_dev "\<lparr>base_addr = 0, apic_id = 2, x2apic_mode = False\<rparr>" "[]" 1 "0x21" True False] d
  show ?thesis by (auto simp: ex_ioapic_def Let_def r redir_entry_def)
qed

theorem gdt_table_decodes_witness:
  "\<exists>t'. gdt_table (replicate 8 \<lparr>limit_low = 0, base_low = 0, base_mid = 0, gaccess = 0, granularity = 0, base_high = 0\<rparr>) 0xffff800000300000 = Inr t' \<and>
     gaccess (t' ! 6) = 0xE9"
  using gdt_table_decodes[of "replicate 8 \<lparr>limit_low = 0, base_low = 0, base_mid = 0, gaccess = 0, granularity = 0, base_high = 0\<rparr>" "0xffff800000300000"]
  by auto

end
