(* ===== verification/Network.thy ===== *)
theory Network
  imports ByteMem StdList
begin

unbundle bit_operations_syntax

text \<open>
  The receive path of \<^verbatim>\<open>servers/CoreNetwork\<close>: network devices and interfaces (\<^verbatim>\<open>net_dev.c\<close>), the Ethernet
  filter and its dispatch (\<^verbatim>\<open>ethernet.c\<close>), the checks of the IP layers (\<^verbatim>\<open>ip.c\<close>) and of UDP (\<^verbatim>\<open>udp.c\<close>). A packet
  is bytes in memory. Above UDP the code has only placeholders, so what a function does with a packet is
  the layer it reaches: the value of type \<open>verdict\<close> next to the result.
\<close>

section \<open>Checksums\<close>

definition SWAP_ENDIAN_16 :: "u16 \<Rightarrow> u16" where
  "SWAP_ENDIAN_16 x = drop_bit 8 (x AND 0xff00) OR push_bit 8 (x AND 0x00ff)"

lemma fold_below:
  fixes x :: nat assumes "65535 < x" shows "x mod 65536 + x div 65536 < x"
proof -
  have x: "x = x div 65536 * 65536 + x mod 65536" by simp
  moreover have "1 \<le> x div 65536" using assms by (simp add: Suc_le_eq div_greater_zero_iff)
  ultimately show ?thesis by linarith
qed

lemma fold_step_unat: "unat ((c AND 0xffff) + drop_bit 16 c) = unat c mod 65536 + unat c div 65536" for c :: u32
proof -
  have a: "unat (c AND 0xffff) = unat c mod 65536"
  proof -
    have "c AND 0xffff = take_bit 16 c" by (simp add: take_bit_eq_mask mask_eq_exp_minus_1)
    then show ?thesis by (simp only: unsigned_take_bit_eq) (simp add: take_bit_eq_mod)
  qed
  have d: "unat (drop_bit 16 c) = unat c div 65536" by (simp only: unat_drop_bit_eq) (simp add: drop_bit_eq_div)
  have "unat c < 2 ^ 32" using unsigned_less[of c] by simp
  then have "unat c mod 65536 + unat c div 65536 < 2 ^ 32"
    by (cases "65535 < unat c") (use fold_below[of "unat c"] in linarith, simp)
  with a d show ?thesis by (subst unat_add_lem[THEN iffD1]) simp_all
qed

text \<open>The loop that folds the carries back in.\<close>

function fold_carries :: "u32 \<Rightarrow> u32" where
  "fold_carries csum = (if csum > 0xffff then fold_carries ((csum AND 0xffff) + drop_bit 16 csum) else csum)"
  by pat_completeness auto
termination
proof (relation "measure unat")
  fix csum :: u32 assume "0xffff < csum"
  then have "65535 < unat csum" by (simp add: word_less_nat_alt)
  then have "unat csum mod 65536 + unat csum div 65536 < unat csum" by (rule fold_below)
  then show "((csum AND 0xffff) + drop_bit 16 csum, csum) \<in> measure unat" by (simp only: in_measure fold_step_unat)
qed simp

declare fold_carries.simps [simp del]

text \<open>The words of a header, in the order of the host.\<close>

definition hdr_word :: "mem \<Rightarrow> addr \<Rightarrow> nat \<Rightarrow> u16" where
  "hdr_word m p i = SWAP_ENDIAN_16 (ld16 m (p + 2 * of_nat i))"

fun sum_words :: "(nat \<Rightarrow> u16) \<Rightarrow> nat \<Rightarrow> nat \<Rightarrow> u32 \<Rightarrow> u32" where
  "sum_words w i 0 csum = csum"
| "sum_words w i (Suc n) csum = sum_words w (Suc i) n (csum + ucast (w i))"

section \<open>IP\<close>

text \<open>The header is 20 bytes: ten words. The result is cut to 16 bits.\<close>

definition ipv4_verify_csum :: "mem \<Rightarrow> addr \<Rightarrow> u16" where
  "ipv4_verify_csum m p = ucast (NOT (fold_carries (sum_words (hdr_word m p) 0 10 0)))"

definition IP_PROTOCOL_ICMP :: u8 where "IP_PROTOCOL_ICMP = 1"
definition IP_PROTOCOL_TCP :: u8 where "IP_PROTOCOL_TCP = 6"
definition IP_PROTOCOL_UDP :: u8 where "IP_PROTOCOL_UDP = 17"

datatype verdict =
    Dropped
  | Arp addr int
  | Icmp
  | Tcp
  | Udp addr
  | UdpV6 addr
  | Raw

section \<open>UDP\<close>

definition udp_src_port :: "mem \<Rightarrow> addr \<Rightarrow> u16" where "udp_src_port m u = ld16 m u"
definition udp_len :: "mem \<Rightarrow> addr \<Rightarrow> u16" where "udp_len m u = ld16 m (u + 4)"
definition udp_csum :: "mem \<Rightarrow> addr \<Rightarrow> u16" where "udp_csum m u = ld16 m (u + 6)"
definition set_udp_csum :: "mem \<Rightarrow> addr \<Rightarrow> u16 \<Rightarrow> mem" where "set_udp_csum m u v = wr m (u + 6) (le_bytes 2 v)"

text \<open>The loop over the words of the datagram, with the odd byte at its end.\<close>

function udp_words :: "mem \<Rightarrow> addr \<Rightarrow> u32 \<Rightarrow> u32 \<Rightarrow> u32" where
  "udp_words m q n csum =
     (if n > 1 then udp_words m (q + 2) (n - 2) (csum + ucast (ld16 m q))
      else if n > 0 then csum + (ucast (ld16 m q) AND 0x00ff)
      else csum)"
  by pat_completeness auto
termination
proof (relation "measure (\<lambda>(m, q, n, csum). unat n)")
  fix m q n csum assume "(1 :: u32) < n"
  then have "1 < unat n" by (simp add: word_less_nat_alt)
  then have "unat (n - 2) = unat n - 2" by (subst unat_sub) (simp_all add: word_le_nat_alt)
  with \<open>1 < unat n\<close> show "((m, q + 2, n - 2, csum + ucast (ld16 m q)), m, q, n, csum) \<in> measure (\<lambda>(m, q, n, csum). unat n)" by simp
qed simp

declare udp_words.simps [simp del]

text \<open>The check of a datagram at \<open>u\<close> in the packet at \<open>p\<close>; it clears the checksum field before it sums.\<close>

definition udp_ipv4_verify_csum :: "mem \<Rightarrow> addr \<Rightarrow> addr \<Rightarrow> u16 \<times> mem" where
  "udp_ipv4_verify_csum m p u =
     (let csum_bkp = udp_csum m u;
          m = set_udp_csum m u 0;
          src_ip = ld32 m (p + 12); dst_ip = ld32 m (p + 16);
          csum = 0;
          csum = csum + (drop_bit 16 src_ip AND 0xffff);
          csum = csum + (src_ip AND 0xffff);
          csum = csum + (drop_bit 16 dst_ip AND 0xffff);
          csum = csum + (dst_ip AND 0xffff);
          csum = csum + push_bit 8 (ucast (m (p + 9)));
          csum = csum + ucast (udp_len m u);
          csum = udp_words m u (ucast (SWAP_ENDIAN_16 (udp_len m u))) csum;
          csum = fold_carries csum in
      (if (ucast (NOT csum) :: u16) = csum_bkp then 0 else 1, m))"

text \<open>
  C leaves open which operand of \<open>|\<close> is evaluated first; \<open>lr\<close> says that the compiler takes the left one, the call
  that clears the field, before it reads the field.
\<close>

definition udp_ipv4_rx :: "bool \<Rightarrow> mem \<Rightarrow> addr \<Rightarrow> int \<times> verdict \<times> mem" where
  "udp_ipv4_rx lr m p =
     (let u = p + 20; (v, m') = udp_ipv4_verify_csum m p u;
          csum = (if lr then udp_csum m' u else udp_csum m u) in
      (0, if v = 0 \<or> csum = 0 then Udp u else Dropped, m'))"

text \<open>The length of the datagram is used as it is stored, in network order.\<close>

definition udp_ipv6_verify_csum :: "mem \<Rightarrow> addr \<Rightarrow> addr \<Rightarrow> u16" where
  "udp_ipv6_verify_csum m p u =
     (let csum = ucast (m (p + 6));
          csum = sum_words (hdr_word m (p + 8)) 0 16 csum;
          csum = sum_words (hdr_word m u) 0 (unat (udp_len m u) div 2) csum;
          csum = (if udp_len m u AND 1 \<noteq> 0 then csum + ucast (m (u + ucast (udp_len m u) - 1)) else csum);
          csum = csum + ucast (SWAP_ENDIAN_16 (udp_len m u)) in
      ucast (NOT (fold_carries csum)))"

definition udp_ipv6_rx :: "mem \<Rightarrow> addr \<Rightarrow> int \<times> verdict" where
  "udp_ipv6_rx m p =
     (let u = p + 40 in
      (0, if udp_ipv6_verify_csum m p u = 0 \<or> udp_csum m u = 0 then UdpV6 u else Dropped))"

section \<open>Dispatch\<close>

definition ipv4_rx :: "bool \<Rightarrow> mem \<Rightarrow> addr \<Rightarrow> int \<times> verdict \<times> mem" where
  "ipv4_rx lr m p =
     (if ipv4_verify_csum m p = 0 then
        let protocol = m (p + 9) in
        if protocol = IP_PROTOCOL_ICMP then (0, Icmp, m)
        else if protocol = IP_PROTOCOL_TCP then (0, Tcp, m)
        else if protocol = IP_PROTOCOL_UDP then (let (_, v, m) = udp_ipv4_rx lr m p in (0, v, m))
        else (0, Raw, m)
      else (0, Dropped, m))"

definition ipv6_rx :: "mem \<Rightarrow> addr \<Rightarrow> int \<times> verdict" where
  "ipv6_rx m p =
     (let protocol = m (p + 6) in
      if protocol = IP_PROTOCOL_ICMP then (0, Icmp)
      else if protocol = IP_PROTOCOL_TCP then (0, Tcp)
      else if protocol = IP_PROTOCOL_UDP then (0, snd (udp_ipv6_rx m p))
      else (0, Raw))"

definition ETHERNET_TYPE_ARP :: u16 where "ETHERNET_TYPE_ARP = SWAP_ENDIAN_16 0x0806"
definition ETHERNET_TYPE_IPv4 :: u16 where "ETHERNET_TYPE_IPv4 = SWAP_ENDIAN_16 0x0800"
definition ETHERNET_TYPE_IPv6 :: u16 where "ETHERNET_TYPE_IPv6 = SWAP_ENDIAN_16 0x86DD"

text \<open>The loop over the six bytes of the destination, with its two flags.\<close>

fun mac_loop :: "mem \<Rightarrow> addr \<Rightarrow> u8 list \<Rightarrow> nat \<Rightarrow> nat \<Rightarrow> bool \<Rightarrow> bool \<Rightarrow> bool \<times> bool" where
  "mac_loop m p mac i 0 mac_match broadcast = (mac_match, broadcast)"
| "mac_loop m p mac i (Suc n) mac_match broadcast =
     (let d = m (p + of_nat i) in
      mac_loop m p mac (Suc i) n (if d \<noteq> mac ! i then False else mac_match) (if d \<noteq> 0xff then False else broadcast))"

definition ethernet_rx :: "bool \<Rightarrow> mem \<Rightarrow> u8 list \<Rightarrow> addr \<Rightarrow> int \<Rightarrow> int \<times> verdict \<times> mem" where
  "ethernet_rx lr m mac p len =
     (let (mac_match, broadcast) = mac_loop m p mac 0 6 True True;
          ty = ld16 m (p + 12); body = p + 14 in
      if mac_match \<or> broadcast then
        if ty = ETHERNET_TYPE_ARP then (0, Arp body (len - 14), m)
        else if ty = ETHERNET_TYPE_IPv4 then (let (_, v, m) = ipv4_rx lr m body in (0, v, m))
        else if ty = ETHERNET_TYPE_IPv6 then (0, snd (ipv6_rx m body), m)
        else (0, Dropped, m)
      else (0, Dropped, m))"

section \<open>Devices and interfaces\<close>

text \<open>The type of a device is its number; the enumeration has two members.\<close>

record network_device_desc_t =
  dev_type :: u32
  dev_mac :: "u8 list"
  dev_locked :: bool

record interface_def_t =
  if_type :: u32
  if_device :: network_device_desc_t
  if_mac :: "u8 list"
  if_idx :: int

record network =
  node_heap :: list_heap
  dev_list :: list_t
  dev_list_lock :: bool
  interface_list :: list_t
  interface_list_lock :: bool
  devIDs :: "int list"
  descs :: "network_device_desc_t heap"
  interfaces :: "interface_def_t heap"

definition network_init :: "network \<Rightarrow> int \<times> network" where
  "network_init st =
     (0, st\<lparr>dev_list := snd (list_init (dev_list st)), interface_list := snd (list_init (interface_list st)), devIDs := [0, 0]\<rparr>)"

definition network_register :: "network \<Rightarrow> addr \<Rightarrow> (int \<times> addr \<times> network) res" where
  "network_register st desc =
     (if dev_list_lock st then Inl Deadlock
      else bindE (hget (descs st) desc) (\<lambda>d.
      if dev_locked d then Inl Deadlock
      else bindE (list_append (node_heap st) (dev_list st) desc) (\<lambda>(_, h, l).
      let st = st\<lparr>node_heap := h, dev_list := l\<rparr> in
      if interface_list_lock st then Inl Deadlock
      else let (def, hp) = halloc (interfaces st) in
      if def = NULL then Inl NullDeref
      else bindE (aget (devIDs st) (uint (dev_type d))) (\<lambda>idx.
      bindE (aset (devIDs st) (uint (dev_type d)) (idx + 1)) (\<lambda>ids.
      let st = st\<lparr>devIDs := ids,
                  interfaces := hput hp def \<lparr>if_type = dev_type d, if_device = d, if_mac = take 6 (dev_mac d), if_idx = idx\<rparr>\<rparr> in
      bindE (list_append (node_heap st) (interface_list st) def) (\<lambda>(_, h, l).
        Inr (0, def, st\<lparr>node_heap := h, interface_list := l\<rparr>)))))))"

definition network_rx_packet :: "bool \<Rightarrow> network \<Rightarrow> mem \<Rightarrow> addr \<Rightarrow> addr \<Rightarrow> int \<Rightarrow> (int \<times> verdict \<times> mem) res" where
  "network_rx_packet lr st m handle packet len =
     bindE (hget (interfaces st) handle) (\<lambda>def.
       Inr (if if_type def = 0 then ethernet_rx lr m (if_mac def) packet len
            else if if_type def = 1 then (0, Dropped, m)
            else (-1, Dropped, m)))"

section \<open>What the checksum accepts\<close>

lemma fold_mod: "unat (fold_carries c) mod 65535 = unat c mod 65535"
proof (induction c rule: fold_carries.induct)
  case (1 c)
  have "unat c = unat c div 65536 * 65535 + (unat c mod 65536 + unat c div 65536)"
    using div_mult_mod_eq[of "unat c" 65536] by linarith
  then have "(unat c mod 65536 + unat c div 65536) mod 65535 = unat c mod 65535" by (metis mod_mult_self3)
  with 1 show ?case by (subst fold_carries.simps) (simp add: fold_step_unat del: unat_plus_if')
qed

lemma fold_bound: "unat (fold_carries c) \<le> 65535"
proof (induction c rule: fold_carries.induct)
  case (1 c)
  then show ?case by (subst fold_carries.simps) (auto simp: word_less_nat_alt not_less)
qed

lemma fold_zero: "fold_carries c = 0 \<longleftrightarrow> c = 0"
proof (induction c rule: fold_carries.induct)
  case (1 c)
  show ?case
  proof (cases "c > 0xffff")
    case True
    then have "65535 < unat c" by (simp add: word_less_nat_alt)
    then have "unat c div 65536 \<noteq> 0" by (simp add: div_eq_0_iff)
    then have "unat ((c AND 0xffff) + drop_bit 16 c) \<noteq> 0" by (simp only: fold_step_unat)
    then have "(c AND 0xffff) + drop_bit 16 c \<noteq> 0" by (metis unsigned_0)
    with 1 True show ?thesis by (subst fold_carries.simps) auto
  qed (subst fold_carries.simps, simp)
qed

lemma folded_ones: "(ucast (NOT (fold_carries c)) :: u16) = 0 \<longleftrightarrow> c \<noteq> 0 \<and> unat c mod 65535 = 0"
proof -
  let ?f = "fold_carries c"
  have "(ucast (NOT ?f) :: u16) = NOT (ucast ?f)" by (rule bit_word_eqI) (simp add: bit_simps)
  also have "\<dots> = 0 \<longleftrightarrow> (ucast ?f :: u16) = -1" by (metis bit.double_compl bit.compl_zero)
  also have "\<dots> \<longleftrightarrow> unat (ucast ?f :: u16) = 65535" by (simp add: word_unat_eq_iff unsigned_minus_1_eq_mask mask_eq_exp_minus_1)
  also have "unat (ucast ?f :: u16) = unat ?f" using fold_bound[of c] by (simp add: unsigned_ucast_eq take_bit_nat_eq_self_iff)
  finally have "?thesis \<longleftrightarrow> (unat ?f = 65535 \<longleftrightarrow> c \<noteq> 0 \<and> unat c mod 65535 = 0)" by simp
  moreover have "unat ?f = 65535 \<longleftrightarrow> unat ?f \<noteq> 0 \<and> unat ?f mod 65535 = 0"
  proof (cases "unat ?f = 65535")
    case False
    with fold_bound[of c] have "unat ?f < 65535" by simp
    then show ?thesis by auto
  qed simp
  moreover have "unat ?f \<noteq> 0 \<longleftrightarrow> c \<noteq> 0" using fold_zero[of c] by (simp add: unat_eq_0)
  ultimately show ?thesis by (simp add: fold_mod)
qed

lemma sum_words_unat:
  assumes "unat c + n * 65535 < 2 ^ 32"
  shows "unat (sum_words w i n c) = unat c + (\<Sum>k = i..<i + n. unat (w k))"
  using assms
proof (induction n arbitrary: i c)
  case (Suc n)
  have "unat (w i) < 65536" using unsigned_less[of "w i"] by simp
  then have w: "unat (w i) \<le> 65535" by simp
  have u: "unat (ucast (w i) :: u32) = unat (w i)" using w by (simp add: unsigned_ucast_eq take_bit_nat_eq_self_iff)
  have a: "unat (c + ucast (w i)) = unat c + unat (w i)"
    using Suc.prems w u by (subst unat_add_lem[THEN iffD1]) simp_all
  have "unat (sum_words w i (Suc n) c) = unat (c + ucast (w i)) + (\<Sum>k = Suc i..<Suc i + n. unat (w k))"
    unfolding sum_words.simps by (rule Suc.IH) (use Suc.prems w a in simp)
  then show ?case using a by (simp add: sum.atLeast_Suc_lessThan)
qed simp

text \<open>The value of a word of the header: most significant byte first.\<close>

definition net_word :: "mem \<Rightarrow> addr \<Rightarrow> nat \<Rightarrow> nat" where
  "net_word m p i = 256 * unat (m (p + 2 * of_nat i)) + unat (m (p + 2 * of_nat i + 1))"

definition header_sum :: "mem \<Rightarrow> addr \<Rightarrow> nat" where
  "header_sum m p = (\<Sum>i = 0..<10. net_word m p i)"

lemma hdr_word_unat: "unat (hdr_word m p i) = net_word m p i"
proof -
  obtain a b where ab: "m (p + 2 * of_nat i) = a" "m (p + 2 * of_nat i + 1) = b" by blast
  have l: "ld16 m (p + 2 * of_nat i) = (ucast a :: u16) OR push_bit 8 (ucast b)"
    using ab by (simp add: ld16_def rd_def le_val_def numeral_2_eq_2)
  have k: "(0xff00 :: u16) = push_bit 8 (mask 8)" "(0x00ff :: u16) = mask 8" by (simp_all add: mask_eq_exp_minus_1 push_bit_eq_mult)
  have "SWAP_ENDIAN_16 ((ucast a :: u16) OR push_bit 8 (ucast b)) = ucast b OR push_bit 8 (ucast a)"
    unfolding SWAP_ENDIAN_16_def k by (rule bit_word_eqI) (auto simp: bit_simps dest: bit_imp_le_length)
  then have "hdr_word m p i = push_bit 8 (ucast a) OR ucast b" by (simp add: hdr_word_def l or.commute)
  also have "\<dots> = push_bit 8 (ucast a) + ucast b"
    by (rule disjunctive_add_eq_or[symmetric], rule bit_word_eqI) (auto simp: bit_simps dest: bit_imp_le_length)
  also have "unat \<dots> = 256 * unat a + unat b"
  proof -
    have a: "unat a < 256" "unat b < 256" using unsigned_less[of a] unsigned_less[of b] by simp_all
    have "unat (push_bit 8 (ucast a) :: u16) = 256 * unat a"
      unfolding unsigned_push_bit_eq unsigned_ucast_eq
      using a by (simp add: push_bit_eq_mult take_bit_nat_eq_self_iff take_bit_nat_eq_self)
    moreover have "unat (ucast b :: u16) = unat b" using a by (simp add: unsigned_ucast_eq take_bit_nat_eq_self_iff)
    ultimately show ?thesis using a by (subst unat_add_lem[THEN iffD1]) simp_all
  qed
  finally show ?thesis by (simp add: net_word_def ab)
qed

lemma header_sum_unat: "unat (sum_words (hdr_word m p) 0 10 0) = header_sum m p"
  by (subst sum_words_unat) (simp_all add: hdr_word_unat header_sum_def)

lemma ipv4_accepts: "ipv4_verify_csum m p = 0 \<longleftrightarrow> header_sum m p \<noteq> 0 \<and> header_sum m p mod 65535 = 0"
  unfolding ipv4_verify_csum_def folded_ones header_sum_unat[symmetric] by (simp add: unat_eq_0)

text \<open>
  C35. The check of the IPv4 header is the one of RFC 1071: \<open>ipv4_verify_csum\<close> gives zero exactly when the sum of
  the ten words of the header, most significant byte first, is a non-zero multiple of 65535. In particular a
  header whose checksum field holds the complement of the folded sum of the other words is accepted, and no
  carry of the 32-bit accumulator is lost.
\<close>

theorem ipv4_check_is_rfc1071:
  "ipv4_verify_csum m p = 0 \<longleftrightarrow> header_sum m p \<noteq> 0 \<and> header_sum m p mod 65535 = 0"
  by (rule ipv4_accepts)

lemma header_sum_bytes:
  "header_sum m p = (\<Sum>k = 0..<20. (if even k then 256 else 1) * unat (m (p + of_nat k)))"
proof -
  let ?g = "\<lambda>k. (if even k then 256 else 1) * unat (m (p + of_nat k))"
  have "(\<Sum>i = 0..<n. net_word m p i) = (\<Sum>k = 0..<2 * n. ?g k)" for n
    by (induction n) (simp_all add: net_word_def add.assoc add.commute[of 1])
  from this[of 10] show ?thesis by (simp add: header_sum_def)
qed

lemma dvd_int: "n mod k = 0 \<Longrightarrow> int k dvd int n"
  by (simp add: mod_eq_0_iff_dvd)

lemma byte_change:
  fixes x y :: u8 assumes "x \<noteq> y" "c = 1 \<or> c = (256 :: int)"
  shows "\<not> 65535 dvd c * (int (unat x) - int (unat y))"
proof
  let ?d = "int (unat x) - int (unat y)"
  have "unat x < 256" "unat y < 256" using unsigned_less[of x] unsigned_less[of y] by simp_all
  then have "- 256 < ?d \<and> ?d < 256" by linarith
  then have "\<bar>c * ?d\<bar> < 65535" using assms(2) by (auto simp: abs_if)
  moreover have "c * ?d \<noteq> 0" using assms by (auto simp: word_uint_eq_iff)
  moreover assume "65535 dvd c * ?d"
  ultimately show False using dvd_imp_le_int[of "c * ?d" 65535] by simp
qed

lemma header_sum_upd:
  assumes "k < 20"
  shows "int (header_sum (m(p + of_nat k := b)) p) - int (header_sum m p)
           = (if even k then 256 else 1) * (int (unat b) - int (unat (m (p + of_nat k))))"
proof -
  let ?g = "\<lambda>m i. (if even i then 256 else 1) * int (unat (m (p + of_nat i)))"
  have eq: "p + of_nat i = p + of_nat k \<longleftrightarrow> i = k" if "i < 20" for i
  proof -
    have "p + of_nat i = p + of_nat k \<longleftrightarrow> unat (of_nat i :: addr) = unat (of_nat k :: addr)" by (simp only: add_left_cancel word_unat_eq_iff[symmetric])
    then show ?thesis using that assms by (simp add: unat_of_nat_64)
  qed
  have "int (header_sum m p) = (\<Sum>i = 0..<20. ?g m i)" for m :: mem
    unfolding header_sum_bytes of_nat_sum by (rule sum.cong) simp_all
  moreover have "(\<Sum>i = 0..<20. ?g (m(p + of_nat k := b)) i) - (\<Sum>i = 0..<20. ?g m i)
      = (\<Sum>i = 0..<20. if i = k then (if even k then 256 else 1) * (int (unat b) - int (unat (m (p + of_nat k)))) else 0)"
    unfolding sum_subtractf[symmetric] by (rule sum.cong) (use eq in \<open>auto simp: algebra_simps\<close>)
  ultimately show ?thesis using assms by simp
qed

text \<open>
  C13. A damaged header is dropped: when the header at \<open>p\<close> passes the check and one of its 20 bytes is changed to
  another value, \<open>ipv4_rx\<close> drops the packet and touches nothing.
\<close>

theorem ipv4_corruption_dropped:
  assumes "ipv4_verify_csum m p = 0" "k < 20" "b \<noteq> m (p + of_nat k)"
  shows "ipv4_rx lr (m(p + of_nat k := b)) p = (0, Dropped, m(p + of_nat k := b))"
proof -
  let ?m = "m(p + of_nat k := b)"
  have "header_sum ?m p mod 65535 \<noteq> 0"
  proof
    assume "header_sum ?m p mod 65535 = 0"
    then have "65535 dvd int (header_sum ?m p)" using dvd_int by fastforce
    moreover have "65535 dvd int (header_sum m p)" using assms(1) dvd_int unfolding ipv4_accepts by fastforce
    ultimately have "65535 dvd int (header_sum ?m p) - int (header_sum m p)" by (rule dvd_diff)
    then show False unfolding header_sum_upd[OF assms(2)] using byte_change[OF assms(3)] by (auto split: if_splits)
  qed
  then have "ipv4_verify_csum ?m p \<noteq> 0" by (simp add: ipv4_accepts)
  then show ?thesis by (simp add: ipv4_rx_def)
qed

definition sample_header :: mem where
  "sample_header = wr (\<lambda>_. 0) 0 [0x45, 0, 0, 0x73, 0, 0, 0x40, 0, 0x40, 17, 0xb8, 0x61, 0xc0, 0xa8, 0, 1, 0xc0, 0xa8, 0, 0xc7]"

theorem ipv4_corruption_dropped_witness:
  "ipv4_verify_csum sample_header 0 = 0 \<and> (0 :: u8) \<noteq> sample_header (0 + of_nat 3)
     \<and> ipv4_rx True (sample_header(0 + of_nat 3 := 0)) 0 = (0, Dropped, sample_header(0 + of_nat 3 := 0))"
proof -
  have "header_sum sample_header 0 = 196605"
    unfolding header_sum_def net_word_def sample_header_def wr_def by (simp add: atLeast0LessThan lessThan_nat_numeral)
  then have c: "ipv4_verify_csum sample_header 0 = 0" by (simp add: ipv4_accepts)
  have n: "(0 :: u8) \<noteq> sample_header (0 + of_nat 3)" by (simp add: sample_header_def wr_def)
  have less: "(3 :: nat) < 20" by simp
  show ?thesis using ipv4_corruption_dropped[OF c less n, of True] c n by blast
qed

section \<open>What reaches which layer\<close>

lemma mac_loop_spec:
  "i + n \<le> length mac \<Longrightarrow> mac_loop m p mac i n a b =
     (a \<and> map (\<lambda>k. m (p + of_nat k)) [i..<i + n] = map ((!) mac) [i..<i + n],
      b \<and> map (\<lambda>k. m (p + of_nat k)) [i..<i + n] = replicate n 0xff)"
proof (induction n arbitrary: i a b)
  case (Suc n)
  have "[i..<i + Suc n] = i # [Suc i..<Suc i + n]" by (simp add: upt_conv_Cons)
  with Suc show ?case by (auto simp: Let_def)
qed simp

lemma mac_loop_all: "length mac = 6 \<Longrightarrow> mac_loop m p mac 0 6 True True = (rd m p 6 = mac, rd m p 6 = replicate 6 0xff)"
proof -
  assume "length mac = 6"
  with map_nth[of mac] mac_loop_spec[of 0 6 mac m p True True] show ?thesis unfolding rd_def by (simp only: add_0 simp_thms order_refl)
qed

text \<open>The layer a frame is for, by its type field, and what the layer makes of the body.\<close>

definition frame_layer :: "bool \<Rightarrow> mem \<Rightarrow> addr \<Rightarrow> int \<Rightarrow> verdict \<times> mem" where
  "frame_layer lr m p len =
     (if rd m (p + 12) 2 = [0x08, 0x06] then (Arp (p + 14) (len - 14), m)
      else if rd m (p + 12) 2 = [0x08, 0x00] then snd (ipv4_rx lr m (p + 14))
      else if rd m (p + 12) 2 = [0x86, 0xDD] then (snd (ipv6_rx m (p + 14)), m)
      else (Dropped, m))"

lemma type_field: "ld16 m q = SWAP_ENDIAN_16 t \<longleftrightarrow> rd m q 2 = [ucast (drop_bit 8 t), ucast t]"
proof -
  let ?pk = "\<lambda>(a :: u8) (b :: u8). (ucast a :: u16) OR push_bit 8 (ucast b)"
  have k: "(0xff00 :: u16) = push_bit 8 (mask 8)" "(0x00ff :: u16) = mask 8" by (simp_all add: mask_eq_exp_minus_1 push_bit_eq_mult)
  have "SWAP_ENDIAN_16 t = ?pk (ucast (drop_bit 8 t)) (ucast t)"
    unfolding SWAP_ENDIAN_16_def k by (rule bit_word_eqI) (auto simp: bit_simps dest: bit_imp_le_length)
  moreover have "ld16 m q = ?pk (m q) (m (q + 1))" by (simp add: ld16_def rd_def le_val_def numeral_2_eq_2)
  moreover have "ucast (?pk a b) = a" "ucast (drop_bit 8 (?pk a b)) = b" for a b
    by (rule bit_word_eqI, auto simp: bit_simps dest: bit_imp_le_length)+
  then have "?pk a b = ?pk c d \<longleftrightarrow> a = c \<and> b = d" for a b c d by metis
  ultimately show ?thesis by (simp add: rd_def numeral_2_eq_2)
qed

text \<open>
  The Ethernet filter: a frame is taken exactly when its destination is the address of the interface or the
  broadcast address; then the two bytes of its type field, in the order of the wire, choose between ARP, IPv4 and
  IPv6. Every other frame is dropped without a change of memory, and the result is zero always.
\<close>

theorem ethernet_filter:
  assumes "length mac = 6"
  shows "ethernet_rx lr m mac p len
    = (0, if rd m p 6 = mac \<or> rd m p 6 = replicate 6 0xff then frame_layer lr m p len else (Dropped, m))"
  unfolding ethernet_rx_def mac_loop_all[OF assms] ETHERNET_TYPE_ARP_def ETHERNET_TYPE_IPv4_def ETHERNET_TYPE_IPv6_def Let_def prod.case type_field
  by (simp add: frame_layer_def case_prod_beta)

definition sample_frame :: mem where
  "sample_frame = wr (\<lambda>_. 0) 0 [0xff, 0xff, 0xff, 0xff, 0xff, 0xff, 2, 0, 0, 0, 0, 7, 0x08, 0x06]"

theorem ethernet_filter_witness:
  "length [2, 0, 0, 0, 0, 9 :: u8] = 6 \<and> ethernet_rx True sample_frame [2, 0, 0, 0, 0, 9] 0 60 = (0, Arp 14 46, sample_frame)
     \<and> ethernet_rx True sample_frame [2, 0, 0, 0, 0, 9] 1 60 = (0, Dropped, sample_frame)"
proof -
  have l: "length [2, 0, 0, 0, 0, 9 :: u8] = 6" by simp
  have ff: "replicate 6 0xff = [0xff, 0xff, 0xff, 0xff, 0xff, 0xff :: u8]" by (simp add: eval_nat_numeral)
  have r: "rd sample_frame 0 6 = replicate 6 0xff" "rd sample_frame 12 2 = [0x08, 0x06]"
      "rd sample_frame 1 6 = [0xff, 0xff, 0xff, 0xff, 0xff, 2]"
    by (simp_all add: rd_def sample_frame_def wr_def upt_rec[of _ "numeral _"] upt_conv_Cons ff)
  have "ethernet_rx True sample_frame [2, 0, 0, 0, 0, 9] 0 60 = (0, Arp 14 46, sample_frame)"
    unfolding ethernet_filter[OF l] frame_layer_def using r by simp
  moreover have "ethernet_rx True sample_frame [2, 0, 0, 0, 0, 9] 1 60 = (0, Dropped, sample_frame)"
    unfolding ethernet_filter[OF l] using r ff by simp
  ultimately show ?thesis using l by blast
qed

text \<open>The call clears the checksum field, so when it runs first every datagram passes.\<close>

lemma udp_ipv4_accepts_every_datagram: "udp_ipv4_rx True m p = (0, Udp (p + 20), snd (snd (udp_ipv4_rx True m p)))"
proof -
  have "rd (wr m (u + 6) (le_bytes 2 (0 :: u16))) (u + 6) 2 = le_bytes 2 (0 :: u16)" for u
    using rd_wr[of "le_bytes 2 (0 :: u16)" m "u + 6"] by simp
  moreover have "le_bytes 2 (0 :: u16) = [0, 0]" by (simp add: le_bytes_def numeral_2_eq_2)
  ultimately have "udp_csum (set_udp_csum m u 0) u = 0" for u
    by (simp add: udp_csum_def set_udp_csum_def ld16_def le_val_def)
  then show ?thesis by (simp add: udp_ipv4_rx_def udp_ipv4_verify_csum_def Let_def)
qed

text \<open>Nothing checks the type a driver registers with.\<close>

lemma register_unknown_type:
  assumes "hget (descs st) desc = Inr d" "2 \<le> dev_type d" "length (devIDs st) = 2" "interface_list_lock st = False"
    "network_register st desc = Inr r"
  shows False
  using assms by (auto simp: network_register_def bindE_def aget_def Let_def word_le_def split: sum.splits prod.splits if_splits)

end
