(* ===== verification/Edid.thy ===== *)
theory Edid
  imports Prelude
begin

unbundle bit_operations_syntax

text \<open>
  The reader of display identification data, \<^verbatim>\<open>servers/CoreDisplay/src/edid.c\<close>. The block is its bytes by
  offset; the result structure is a record whose arrays are lists, so that a store beyond the end of one is
  an error. The structure is written to before the block is accepted, so it is returned in either case.
\<close>

section \<open>The structures\<close>

record edid_detailed_mode_t =
  v_polarity :: u8
  h_polarity :: u8
  hborder :: u8
  vborder :: u8
  hactive :: u32
  vactive :: u32
  hblank :: u32
  vblank :: u32
  hsync_porch :: u32
  vsync_porch :: u32
  hsync_pulse :: u32
  vsync_pulse :: u32
  pixel_clock :: u16
  hsize_mm :: u16
  vsize_mm :: u16

record edid_standard_timings_t =
  h_res :: u16
  v_res :: u16
  v_freq :: u16
  aspect_num :: u8
  aspect_denom :: u8

record edid_t =
  port_type :: u32
  bit_depth :: u8
  gamma :: u8
  established_modes :: u32
  standard_timing_count :: u8
  standard_timings :: "edid_standard_timings_t list"
  display_name :: "u8 list"
  detailed_mode_count :: u8
  detailed_modes :: "edid_detailed_mode_t list"

type_synonym edid_raw = "nat \<Rightarrow> u8"

section \<open>The reader\<close>

definition magic_ok :: "edid_raw \<Rightarrow> bool" where
  "magic_ok raw \<longleftrightarrow> raw 0 = 0 \<and> raw 1 = 0xff \<and> raw 2 = 0xff \<and> raw 3 = 0xff \<and>
     raw 4 = 0xff \<and> raw 5 = 0xff \<and> raw 6 = 0xff \<and> raw 7 = 0"

text \<open>The bit depth by the three bits of the video input definition; \<open>None\<close> is the reserved code.\<close>

definition depth_of :: "u8 \<Rightarrow> u8 option" where
  "depth_of c =
     (if c = 0 then Some 0 else if c = 1 then Some 6 else if c = 2 then Some 8 else if c = 3 then Some 10
      else if c = 4 then Some 12 else if c = 5 then Some 14 else if c = 6 then Some 16 else None)"

text \<open>The port, and whether parsing goes on.\<close>

definition parse_port :: "edid_raw \<Rightarrow> edid_t \<Rightarrow> bool \<times> edid_t" where
  "parse_port raw r =
     (if drop_bit 7 (raw 20) \<noteq> 0 then
        let r = r\<lparr>port_type := ucast (raw 20 AND 7)\<rparr> in
        case depth_of (drop_bit 4 (raw 20) AND 7) of
          Some d \<Rightarrow> (True, r\<lparr>bit_depth := d\<rparr>)
        | None \<Rightarrow> (False, r)
      else (True, r))"

definition aspect_of :: "u8 \<Rightarrow> u8 \<times> u8" where
  "aspect_of c = (if c = 0 then (16, 10) else if c = 1 then (4, 3) else if c = 2 then (5, 4) else (16, 9))"

definition standard_timing :: "edid_raw \<Rightarrow> nat \<Rightarrow> edid_standard_timings_t" where
  "standard_timing raw i =
     (let h = of_nat ((unat (raw (38 + i)) + 31) * 8); (n, d) = aspect_of (drop_bit 6 (raw (39 + i))) in
      \<lparr>h_res = h, v_res = of_nat (unat h * unat d div unat n), v_freq = of_nat (unat (raw (39 + i) AND 0x1F) + 60),
       aspect_num = n, aspect_denom = d\<rparr>)"

fun standard_loop :: "edid_raw \<Rightarrow> nat list \<Rightarrow> edid_t \<Rightarrow> edid_t res" where
  "standard_loop raw [] r = Inr r"
| "standard_loop raw (i # is) r =
     (if raw (38 + i) = 1 \<and> raw (39 + i) = 1 then standard_loop raw is r
      else bindE (aset (standard_timings r) (uint (standard_timing_count r)) (standard_timing raw i)) (\<lambda>t.
        standard_loop raw is (r\<lparr>standard_timings := t, standard_timing_count := standard_timing_count r + 1\<rparr>)))"

text \<open>The fields of a timing descriptor at \<open>b\<close>, without the polarities.\<close>

definition timing_fields :: "edid_raw \<Rightarrow> nat \<Rightarrow> edid_detailed_mode_t \<Rightarrow> edid_detailed_mode_t" where
  "timing_fields raw b d =
     d\<lparr>pixel_clock := push_bit 8 (ucast (raw (b + 1))) + ucast (raw b),
       hactive := ucast (raw (b + 2)) + push_bit 8 (ucast (drop_bit 4 (raw (b + 4)))),
       hblank := ucast (raw (b + 3)) + push_bit 8 (ucast (raw (b + 4) AND 0xF)),
       vactive := ucast (raw (b + 5)) + push_bit 8 (ucast (drop_bit 4 (raw (b + 7)))),
       vblank := ucast (raw (b + 6)) + push_bit 8 (ucast (raw (b + 7) AND 0xF)),
       hsync_porch := ucast (raw (b + 8)) + push_bit 8 (ucast (drop_bit 6 (raw (b + 11)))),
       hsync_pulse := ucast (raw (b + 9)) + push_bit 8 (ucast (drop_bit 4 (raw (b + 11)) AND 3)),
       vsync_porch := ucast (drop_bit 4 (raw (b + 10))) + push_bit 4 (ucast (drop_bit 2 (raw (b + 11)) AND 3)),
       vsync_pulse := ucast (raw (b + 10) AND 0xf) + push_bit 4 (ucast (raw (b + 11) AND 3)),
       hsize_mm := ucast (raw (b + 12)) + push_bit 8 (drop_bit 4 (ucast (raw (b + 14)))),
       vsize_mm := ucast (raw (b + 13)) + push_bit 8 (ucast (raw (b + 14)) AND 0xf),
       hborder := raw (b + 15), vborder := raw (b + 16)\<rparr>"

definition polarities :: "u8 \<Rightarrow> edid_detailed_mode_t \<Rightarrow> edid_detailed_mode_t" where
  "polarities f d =
     (if drop_bit 3 f AND 1 \<noteq> 0 then d\<lparr>v_polarity := drop_bit 2 f AND 1, h_polarity := drop_bit 1 f AND 1\<rparr>
      else d\<lparr>v_polarity := drop_bit 2 f AND 1, h_polarity := drop_bit 2 f AND 1\<rparr>)"

text \<open>The loop that copies the name.\<close>

definition copy_name :: "edid_raw \<Rightarrow> nat \<Rightarrow> u8 list \<Rightarrow> u8 list" where
  "copy_name raw b name = foldl (\<lambda>l k. l[k := raw (b + 5)]) name [0..<13]"

fun detailed_loop :: "edid_raw \<Rightarrow> nat list \<Rightarrow> edid_t \<Rightarrow> (bool \<times> edid_t) res" where
  "detailed_loop raw [] r = Inr (True, r)"
| "detailed_loop raw (i # is) r =
     (let b = 54 + i in
      if raw b = 0 \<and> raw (b + 1) = 0 then
        detailed_loop raw is (if raw (b + 3) = 0xFC then r\<lparr>display_name := copy_name raw b (display_name r)\<rparr> else r)
      else
        bindE (aget (detailed_modes r) (uint (detailed_mode_count r))) (\<lambda>d.
        let d = timing_fields raw b d; digital = drop_bit 4 (raw (b + 17)) AND 1 \<noteq> 0;
            d = (if digital then polarities (raw (b + 17)) d else d) in
        bindE (aset (detailed_modes r) (uint (detailed_mode_count r)) d) (\<lambda>t.
          let r = r\<lparr>detailed_modes := t\<rparr> in
          if digital then detailed_loop raw is (r\<lparr>detailed_mode_count := detailed_mode_count r + 1\<rparr>)
          else Inr (False, r))))"

definition coredisplay_parse_edid :: "edid_raw \<Rightarrow> edid_t \<Rightarrow> (bool \<times> edid_t) res" where
  "coredisplay_parse_edid raw r =
     (if \<not> magic_ok raw then Inr (False, r)
      else let (ok, r) = parse_port raw r in
      if \<not> ok then Inr (False, r)
      else let r = r\<lparr>gamma := raw 23,
             established_modes := ucast (raw 35) OR push_bit 8 (ucast (raw 36)) OR push_bit 16 (ucast (raw 37)),
             standard_timing_count := 0\<rparr> in
      bindE (standard_loop raw [0, 2, 4, 6, 8, 10, 12, 14] r) (\<lambda>r.
        detailed_loop raw [0, 18, 36, 54] (r\<lparr>detailed_mode_count := 0\<rparr>)))"

section \<open>What is read\<close>

text \<open>The sizes of the arrays.\<close>

definition edid_wf :: "edid_t \<Rightarrow> bool" where
  "edid_wf r \<longleftrightarrow> length (standard_timings r) = 8 \<and> length (display_name r) = 13 \<and> length (detailed_modes r) = 4"

text \<open>The entries that are used, and the offsets of the timing descriptors.\<close>

definition used_timing :: "edid_raw \<Rightarrow> nat \<Rightarrow> bool" where
  "used_timing raw i \<longleftrightarrow> \<not> (raw (38 + i) = 1 \<and> raw (39 + i) = 1)"

definition timing_at :: "edid_raw \<Rightarrow> nat \<Rightarrow> bool" where
  "timing_at raw i \<longleftrightarrow> \<not> (raw (54 + i) = 0 \<and> raw (54 + i + 1) = 0)"

definition digital_at :: "edid_raw \<Rightarrow> nat \<Rightarrow> bool" where
  "digital_at raw i \<longleftrightarrow> bit (raw (54 + i + 17)) 4"

definition no_mode :: edid_detailed_mode_t where
  "no_mode = \<lparr>v_polarity = 0, h_polarity = 0, hborder = 0, vborder = 0, hactive = 0, vactive = 0, hblank = 0, vblank = 0,
     hsync_porch = 0, vsync_porch = 0, hsync_pulse = 0, vsync_pulse = 0, pixel_clock = 0, hsize_mm = 0, vsize_mm = 0\<rparr>"

definition mode_at :: "edid_raw \<Rightarrow> nat \<Rightarrow> edid_detailed_mode_t" where
  "mode_at raw i = polarities (raw (54 + i + 17)) (timing_fields raw (54 + i) no_mode)"

text \<open>A descriptor determines every field of its mode.\<close>

lemma mode_fields: "polarities (raw (54 + i + 17)) (timing_fields raw (54 + i) d) = mode_at raw i"
  by (cases d) (simp add: mode_at_def polarities_def timing_fields_def no_mode_def)

lemma mode_fields_at: "polarities (raw (71 + i)) (timing_fields raw (54 + i) d) = mode_at raw i"
  using mode_fields[of raw i d] by simp

lemma digital_bit: "drop_bit 4 f AND 1 \<noteq> 0 \<longleftrightarrow> bit f 4" for f :: u8
  by (simp add: and_one_eq mod_2_eq_odd bit_iff_odd_drop_bit)

lemma count_up: "unat c < 255 \<Longrightarrow> unat (c + 1) = Suc (unat c)" for c :: u8
  by (simp add: unat_word_ariths)

text \<open>Filling an array behind its counter.\<close>

lemma uint_nat_eq: "uint c = int (unat c)" for c :: u8
  by simp

lemma aset_counter: "unat c < length xs \<Longrightarrow> aset xs (uint c) v = Inr (xs[unat c := v])" for c :: u8
  using uint_nat_eq[of c] by (simp add: aset_def del: of_nat_unat)

lemma aget_counter: "unat c < length xs \<Longrightarrow> aget xs (uint c) = Inr (xs ! unat c)" for c :: u8
  using uint_nat_eq[of c] by (simp add: aget_def del: of_nat_unat)

lemma take_fill: "n < length xs \<Longrightarrow> take (Suc n) (xs[n := v]) = take n xs @ [v]"
  by (simp add: take_Suc_conv_app_nth)

lemma standard_loop_result:
  assumes "length (standard_timings r) = 8" "unat (standard_timing_count r) + length is \<le> 8"
  shows "\<exists>t c. standard_loop raw is r = Inr (r\<lparr>standard_timings := t, standard_timing_count := c\<rparr>) \<and> length t = 8 \<and>
    take (unat c) t = take (unat (standard_timing_count r)) (standard_timings r) @ map (standard_timing raw) (filter (used_timing raw) is)"
  using assms
proof (induction "is" arbitrary: r)
  case Nil
  then show ?case by (intro exI[of _ "standard_timings r"] exI[of _ "standard_timing_count r"]) simp
next
  case (Cons i "is")
  show ?case
  proof (cases "used_timing raw i")
    case False
    then show ?thesis using Cons by (auto simp: used_timing_def)
  next
    case True
    let ?c = "standard_timing_count r" and ?r = "r\<lparr>standard_timings := (standard_timings r)[unat (standard_timing_count r) := standard_timing raw i],
      standard_timing_count := standard_timing_count r + 1\<rparr>"
    have c: "unat ?c < 8" "unat (?c + 1) = Suc (unat ?c)" using Cons.prems count_up[of ?c] by simp_all
    have "standard_loop raw (i # is) r = standard_loop raw is ?r"
      using True c Cons.prems by (auto simp: used_timing_def aset_counter bindE_def)
    moreover obtain t c where "standard_loop raw is ?r = Inr (?r\<lparr>standard_timings := t, standard_timing_count := c\<rparr>)" "length t = 8"
      "take (unat c) t = take (unat (?c + 1)) (standard_timings ?r) @ map (standard_timing raw) (filter (used_timing raw) is)"
    proof -
      have "length (standard_timings ?r) = 8" "unat (standard_timing_count ?r) + length is \<le> 8" using Cons.prems c by simp_all
      from Cons.IH[OF this] show thesis using that by auto
    qed
    ultimately show ?thesis using True c Cons.prems
      by (intro exI[of _ t] exI[of _ c]) (simp add: take_fill)
  qed
qed

lemma copy_name_length: "length (copy_name raw b name) = length name"
proof -
  have "length (foldl (\<lambda>l k. l[k := v]) name ks) = length name" for v and ks :: "nat list"
    by (induction ks arbitrary: name) simp_all
  then show ?thesis by (simp add: copy_name_def)
qed

lemma detailed_loop_result:
  assumes "edid_wf r" "unat (detailed_mode_count r) + length is \<le> 4"
  shows "\<exists>ok r'. detailed_loop raw is r = Inr (ok, r') \<and> edid_wf r' \<and> (ok \<longleftrightarrow> (\<forall>i \<in> set is. timing_at raw i \<longrightarrow> digital_at raw i)) \<and>
    standard_timings r' = standard_timings r \<and> standard_timing_count r' = standard_timing_count r \<and>
    (ok \<longrightarrow> take (unat (detailed_mode_count r')) (detailed_modes r') =
       take (unat (detailed_mode_count r)) (detailed_modes r) @ map (mode_at raw) (filter (timing_at raw) is))"
  using assms
proof (induction "is" arbitrary: r)
  case Nil
  then show ?case by (intro exI[of _ True] exI[of _ r]) simp
next
  case (Cons i "is")
  show ?case
  proof (cases "timing_at raw i")
    case False
    let ?r = "if raw (54 + i + 3) = 0xFC then r\<lparr>display_name := copy_name raw (54 + i) (display_name r)\<rparr> else r"
    have "detailed_loop raw (i # is) r = detailed_loop raw is ?r" using False by (simp add: timing_at_def Let_def)
    moreover have "edid_wf ?r" "unat (detailed_mode_count ?r) + length is \<le> 4"
      using Cons.prems by (simp_all add: edid_wf_def copy_name_length)
    from Cons.IH[OF this] obtain ok r' where "detailed_loop raw is ?r = Inr (ok, r')" "edid_wf r'"
      "ok \<longleftrightarrow> (\<forall>i \<in> set is. timing_at raw i \<longrightarrow> digital_at raw i)" "standard_timings r' = standard_timings r"
      "standard_timing_count r' = standard_timing_count r"
      "ok \<longrightarrow> take (unat (detailed_mode_count r')) (detailed_modes r') =
         take (unat (detailed_mode_count r)) (detailed_modes r) @ map (mode_at raw) (filter (timing_at raw) is)"
      by (auto split: if_splits)
    ultimately show ?thesis using False by (intro exI[of _ ok] exI[of _ r']) simp
  next
    case True
    let ?c = "detailed_mode_count r"
    have c: "unat ?c < length (detailed_modes r)" "unat (?c + 1) = Suc (unat ?c)"
      using Cons.prems count_up[of ?c] by (simp_all add: edid_wf_def)
    show ?thesis
    proof (cases "digital_at raw i")
      case False
      then show ?thesis using True c Cons.prems(1)
        by (auto simp: timing_at_def digital_at_def digital_bit Let_def aget_counter aset_counter bindE_def edid_wf_def)
    next
      case dig: True
      let ?r = "r\<lparr>detailed_modes := (detailed_modes r)[unat ?c := mode_at raw i], detailed_mode_count := ?c + 1\<rparr>"
      have "detailed_loop raw (i # is) r = detailed_loop raw is ?r"
        using True dig c by (auto simp: timing_at_def digital_at_def digital_bit Let_def aget_counter aset_counter bindE_def mode_fields_at)
      moreover have "edid_wf ?r" "unat (detailed_mode_count ?r) + length is \<le> 4"
        using Cons.prems c by (simp_all add: edid_wf_def)
      from Cons.IH[OF this] obtain ok r' where "detailed_loop raw is ?r = Inr (ok, r')" "edid_wf r'"
        "ok \<longleftrightarrow> (\<forall>i \<in> set is. timing_at raw i \<longrightarrow> digital_at raw i)" "standard_timings r' = standard_timings r"
        "standard_timing_count r' = standard_timing_count r"
        "ok \<longrightarrow> take (unat (detailed_mode_count r')) (detailed_modes r') =
           take (unat (?c + 1)) (detailed_modes ?r) @ map (mode_at raw) (filter (timing_at raw) is)"
        by auto
      ultimately show ?thesis using True dig c by (intro exI[of _ ok] exI[of _ r']) (simp add: take_fill)
    qed
  qed
qed

text \<open>Which blocks are accepted.\<close>

definition edid_valid :: "edid_raw \<Rightarrow> bool" where
  "edid_valid raw \<longleftrightarrow> magic_ok raw \<and> (bit (raw 20) 7 \<longrightarrow> drop_bit 4 (raw 20) AND 7 \<noteq> 7) \<and>
     (\<forall>i \<in> {0, 18, 36, 54}. timing_at raw i \<longrightarrow> digital_at raw i)"

lemma depth_known: "depth_of (c AND 7) = None \<longleftrightarrow> c AND 7 = 7"
proof -
  have "c AND 7 \<le> 7" by (simp add: word_and_le1)
  then have "unat (c AND 7) \<le> 7" by (simp add: word_le_nat_alt)
  then have "unat (c AND 7) \<in> {0, 1, 2, 3, 4, 5, 6, 7}" by auto
  then have "c AND 7 \<in> {0, 1, 2, 3, 4, 5, 6, 7}" by (auto simp: word_unat_eq_iff)
  then show ?thesis by (auto simp: depth_of_def)
qed

lemma port_bit: "drop_bit 7 f \<noteq> 0 \<longleftrightarrow> bit f 7" for f :: u8
proof -
  have z: "bit (drop_bit 7 f) n \<longleftrightarrow> n = 0 \<and> bit f 7" for n
    by (cases n) (auto simp: bit_drop_bit_eq dest: bit_imp_le_length)
  show ?thesis
  proof (cases "bit f 7")
    case True
    then have "bit (drop_bit 7 f) 0" using z by blast
    then have "drop_bit 7 f \<noteq> 0" by (metis bit_0_eq bot_apply bot_bool_def)
    with True show ?thesis by blast
  next
    case False
    then have "drop_bit 7 f = 0" using z by (intro bit_word_eqI) simp
    with False show ?thesis by blast
  qed
qed

lemma depth_reserved: "depth_of 7 = None"
  by (simp add: depth_of_def)

lemma parse_port_ok: "fst (parse_port raw r) \<longleftrightarrow> (bit (raw 20) 7 \<longrightarrow> drop_bit 4 (raw 20) AND 7 \<noteq> 7)"
  by (auto simp: parse_port_def port_bit Let_def depth_known depth_reserved split: option.splits)

lemma parse_port_wf: "edid_wf r \<Longrightarrow> edid_wf (snd (parse_port raw r))"
  by (auto simp: parse_port_def Let_def edid_wf_def split: option.splits)


text \<open>The loop that copies the name reads one byte thirteen times.\<close>

lemma name_repeats_one_byte: "length name = 13 \<Longrightarrow> copy_name raw b name = replicate 13 (raw (b + 5))"
proof -
  have "n \<le> length name \<Longrightarrow> foldl (\<lambda>l k. l[k := v]) name [0..<n] = replicate n v @ drop n name" for n v
    proof (induction n)
    case (Suc n)
    have "drop n name = name ! n # drop (Suc n) name" using Suc.prems by (simp add: Cons_nth_drop_Suc)
    with Suc show ?case by (simp add: list_update_append replicate_append_same)
  qed simp
  from this[of 13] show "length name = 13 \<Longrightarrow> ?thesis" by (simp add: copy_name_def)
qed

text \<open>The refresh rate has six bits; the sixth is not read.\<close>

lemma refresh_rate_cut: "raw (39 + i) = 0x20 \<Longrightarrow> v_freq (standard_timing raw i) = 60"
  by (simp add: standard_timing_def Let_def case_prod_beta)

definition ex_edid_raw :: edid_raw where
  "ex_edid_raw = (\<lambda>k. if k \<in> {1, 2, 3, 4, 5, 6} then 0xff else if k = 20 then 0xA5 else if k = 38 then 0x61 else if k = 39 then 0x40
     else if k \<in> {40..53} then 1 else if k = 55 then 0x1D else if k = 56 then 0 else if k = 58 then 0x50 else if k = 71 then 0x18 else 0)"

definition ex_edid :: edid_t where
  "ex_edid = \<lparr>port_type = 0, bit_depth = 0, gamma = 0, established_modes = 0, standard_timing_count = 0,
     standard_timings = replicate 8 \<lparr>h_res = 0, v_res = 0, v_freq = 0, aspect_num = 0, aspect_denom = 0\<rparr>,
     display_name = replicate 13 0, detailed_mode_count = 0, detailed_modes = replicate 4 no_mode\<rparr>"


end
