(* ===== verification/Devices.thy ===== *)
theory Devices
  imports StdList StdQueue
begin

text \<open>
  The servers that keep lists of devices: displays (\<^verbatim>\<open>servers/CoreDisplay/src/main.c\<close>), input devices with their queue
  of events (\<^verbatim>\<open>servers/CoreInput/src/main.c\<close>) and devices under power management (\<^verbatim>\<open>servers/CorePower/src/main.c\<close>). They
  are clients of the linked list and of the ring buffer. What displays and input devices have in common is the
  locale \<open>device_registry\<close>. The functions of the drivers are parameters.
\<close>

section \<open>Registration\<close>

record dev_registry =
  dev_lock :: bool
  dev_nodes :: list_heap
  reg_devices :: list_t

definition dev_acquire :: "('a dev_registry_scheme) \<Rightarrow> ('a dev_registry_scheme) res" where
  "dev_acquire st = (if dev_lock st then Inl Deadlock else Inr (st\<lparr>dev_lock := True\<rparr>))"

definition dev_release :: "('a dev_registry_scheme) \<Rightarrow> ('a dev_registry_scheme)" where
  "dev_release st = st\<lparr>dev_lock := False\<rparr>"

text \<open>The part of both registrations under the lock.\<close>

definition add_device :: "('a dev_registry_scheme) \<Rightarrow> addr \<Rightarrow> (int \<times> 'a dev_registry_scheme) res" where
  "add_device st desc =
     bindE (dev_acquire st) (\<lambda>st.
     bindE (list_append (dev_nodes st) (reg_devices st) desc) (\<lambda>(err, h, l).
       let st = st\<lparr>dev_nodes := h, reg_devices := l\<rparr> in
       if err \<noteq> list_error_none then Inr (-2, dev_release st) else Inr (0, dev_release st)))"

text \<open>The loop of both removals, at index \<open>i\<close> with \<open>n\<close> turns left.\<close>

fun unregister_loop :: "('a dev_registry_scheme) \<Rightarrow> addr \<Rightarrow> nat \<Rightarrow> nat \<Rightarrow> (int \<times> 'a dev_registry_scheme) res" where
  "unregister_loop st desc i 0 = Inr (1, dev_release st)"
| "unregister_loop st desc i (Suc n) =
     bindE (list_at (dev_nodes st) (reg_devices st) (of_nat i)) (\<lambda>(v, l).
       let st = st\<lparr>reg_devices := l\<rparr> in
       if v = desc then
         bindE (list_remove (dev_nodes st) (reg_devices st) (of_nat i)) (\<lambda>(h, l).
           Inr (0, dev_release (st\<lparr>dev_nodes := h, reg_devices := l\<rparr>)))
       else unregister_loop st desc (Suc i) n)"

definition drop_device :: "('a dev_registry_scheme) \<Rightarrow> addr \<Rightarrow> (int \<times> 'a dev_registry_scheme) res" where
  "drop_device st desc =
     bindE (dev_acquire st) (\<lambda>st. unregister_loop st desc 0 (nat (to_i32 (uint (list_len (reg_devices st))))))"

text \<open>Displays.\<close>

definition display_register :: "dev_registry \<Rightarrow> addr \<Rightarrow> (int \<times> dev_registry) res" where
  "display_register st desc = (if desc = NULL then Inr (-1, st) else add_device st desc)"

definition display_unregister :: "dev_registry \<Rightarrow> addr \<Rightarrow> (int \<times> dev_registry) res" where
  "display_unregister st desc = (if desc = NULL then Inr (-1, st) else drop_device st desc)"

text \<open>
  \<open>load\<close> is \<open>module_load\<close>; a display driver may register while it is loaded.
\<close>

definition coredisplay_postinit :: "(string \<Rightarrow> dev_registry \<Rightarrow> (int \<times> dev_registry) res) \<Rightarrow> dev_registry \<Rightarrow> (int \<times> dev_registry) res" where
  "coredisplay_postinit load st =
     bindE (dev_acquire st) (\<lambda>st.
       let len = list_len (reg_devices st); st = dev_release st in
       if len = 0 then bindE (load ''./lfb.celf'' st) (\<lambda>(err, st). if err \<noteq> 0 then Inl (Panic ''[CoreDisplay] No framebuffer available!'') else Inr (0, st))
       else Inr (0, st))"

definition display_module_init :: "dev_registry \<Rightarrow> (int \<times> dev_registry) res" where
  "display_module_init st =
     bindE (dev_acquire st) (\<lambda>st.
       let (err, l) = list_init (reg_devices st); st = st\<lparr>reg_devices := l\<rparr> in
       if err \<noteq> 0 then Inr (-1, st) else Inr (0, dev_release st))"

section \<open>Input devices\<close>

record input_device_desc_t =
  has_pending :: addr
  read_handler :: addr
  drv_state :: addr

text \<open>An event is what the driver writes into the structure; the queue holds the addresses of events.\<close>

record 'e coreinput = dev_registry +
  in_descs :: "input_device_desc_t heap"
  event_queue :: "queue_t option"
  event_lock :: bool
  event_heap :: "'e heap"

definition input_device_register :: "'e coreinput \<Rightarrow> addr \<Rightarrow> (int \<times> 'e coreinput) res" where
  "input_device_register st desc =
     (if desc = NULL then Inr (-1, st)
      else bindE (hget (in_descs st) desc) (\<lambda>d.
        if has_pending d = NULL then Inr (-1, st)
        else if read_handler d = NULL then Inr (-1, st)
        else add_device st desc))"

definition input_device_unregister :: "'e coreinput \<Rightarrow> addr \<Rightarrow> (int \<times> 'e coreinput) res" where
  "input_device_unregister st desc = (if desc = NULL then Inr (-1, st) else drop_device st desc)"

text \<open>
  Drivers: \<open>pending f s d\<close> runs the function at \<open>f\<close> with the argument \<open>s\<close> in the driver state \<open>d\<close>, \<open>fetch\<close> the one that
  fills in an event. The result of \<open>malloc\<close> is passed on unchecked.
\<close>

partial_function (option) drain ::
  "(addr \<Rightarrow> addr \<Rightarrow> 'd \<Rightarrow> bool \<times> 'd) \<Rightarrow> (addr \<Rightarrow> addr \<Rightarrow> 'd \<Rightarrow> 'e \<times> 'd) \<Rightarrow> input_device_desc_t \<Rightarrow> 'd \<Rightarrow> 'e coreinput
   \<Rightarrow> ('d \<times> 'e coreinput) res option" where
  "drain pending fetch desc d st =
     (let (p, d) = pending (has_pending desc) (drv_state desc) d in
      if p then
        if queue_full (event_queue st) then Some (Inr (d, st))
        else let (event, h) = halloc (event_heap st); (e, d) = fetch (read_handler desc) (drv_state desc) d in
        case hset h event (\<lambda>_. e) of
          Inl f \<Rightarrow> Some (Inl f)
        | Inr h \<Rightarrow> (case queue_tryenqueue (event_queue st) event of
            Inl f \<Rightarrow> Some (Inl f)
          | Inr (ok, q) \<Rightarrow>
              if ok then drain pending fetch desc d (st\<lparr>event_heap := h, event_queue := q\<rparr>)
              else Some (bindE (hfree h event) (\<lambda>h. Inr (d, st\<lparr>event_heap := h, event_queue := q\<rparr>))))
      else Some (Inr (d, st)))"

fun read_loop ::
  "(addr \<Rightarrow> addr \<Rightarrow> 'd \<Rightarrow> bool \<times> 'd) \<Rightarrow> (addr \<Rightarrow> addr \<Rightarrow> 'd \<Rightarrow> 'e \<times> 'd) \<Rightarrow> nat \<Rightarrow> nat \<Rightarrow> 'd \<Rightarrow> 'e coreinput
   \<Rightarrow> ('d \<times> 'e coreinput) res option" where
  "read_loop pending fetch i 0 d st = Some (Inr (d, st))"
| "read_loop pending fetch i (Suc n) d st =
     (case bindE (list_at (dev_nodes st) (reg_devices st) (of_nat i)) (\<lambda>(p, l).
             bindE (hget (in_descs st) p) (\<lambda>desc. Inr (desc, st\<lparr>reg_devices := l\<rparr>))) of
        Inl f \<Rightarrow> Some (Inl f)
      | Inr (desc, st) \<Rightarrow>
          (case drain pending fetch desc d st of
             None \<Rightarrow> None
           | Some (Inl f) \<Rightarrow> Some (Inl f)
           | Some (Inr (d, st)) \<Rightarrow> read_loop pending fetch (Suc i) n d st))"

text \<open>One turn of the endless loop of the task.\<close>

definition read_devices ::
  "(addr \<Rightarrow> addr \<Rightarrow> 'd \<Rightarrow> bool \<times> 'd) \<Rightarrow> (addr \<Rightarrow> addr \<Rightarrow> 'd \<Rightarrow> 'e \<times> 'd) \<Rightarrow> 'd \<Rightarrow> 'e coreinput \<Rightarrow> ('d \<times> 'e coreinput) res option" where
  "read_devices pending fetch d st =
     (case dev_acquire st of
        Inl f \<Rightarrow> Some (Inl f)
      | Inr st \<Rightarrow>
          (case read_loop pending fetch 0 (nat (to_i32 (uint (list_len (reg_devices st))))) d st of
             None \<Rightarrow> None
           | Some r \<Rightarrow> Some (bindE r (\<lambda>(d, st). Inr (d, dev_release st)))))"

definition INPUT_EVENT_BUFFER_CNT :: int where
  "INPUT_EVENT_BUFFER_CNT = 16 * 1024"

text \<open>
  \<open>arr\<close> is the memory \<open>malloc\<close> gives to the queue, \<open>spawn\<close> starts the task. The second lock is not released when the
  queue cannot be allocated.
\<close>

definition input_module_init :: "u64 list option \<Rightarrow> ('e coreinput \<Rightarrow> 'e coreinput) \<Rightarrow> 'e coreinput \<Rightarrow> (int \<times> 'e coreinput) res" where
  "input_module_init arr spawn st =
     bindE (dev_acquire st) (\<lambda>st.
       let (err, l) = list_init (reg_devices st); st = st\<lparr>reg_devices := l\<rparr> in
       if err \<noteq> 0 then Inr (-1, st)
       else let st = dev_release st in
         if event_lock st then Inl Deadlock
         else let st = st\<lparr>event_lock := True\<rparr>;
                  (err, q) = queue_init arr (event_queue st) INPUT_EVENT_BUFFER_CNT;
                  st = st\<lparr>event_queue := q\<rparr> in
           if err \<noteq> 0 then Inr (-1, st) else Inr (0, spawn (st\<lparr>event_lock := False\<rparr>)))"

section \<open>Power management\<close>

record corepower =
  pwr_devices :: "queue_t option"
  devices_lock :: bool

definition pwr_register :: "corepower \<Rightarrow> addr \<Rightarrow> (int \<times> corepower) res" where
  "pwr_register st device =
     (if devices_lock st then Inl Deadlock
      else bindE (queue_tryenqueue (pwr_devices st) device) (\<lambda>(ok, q).
        Inr (if ok then 0 else -1, st\<lparr>pwr_devices := q\<rparr>)))"

text \<open>
  The loop of both events. The dequeued value is stored through \<open>device\<close>, which is still null; when there is
  nothing to dequeue nothing is stored. The class and the state are used only behind that store.
\<close>

fun send_loop :: "nat \<Rightarrow> corepower \<Rightarrow> (int \<times> corepower) res" where
  "send_loop 0 st = Inr (0, st)"
| "send_loop (Suc n) st =
     bindE (queue_trydequeue (pwr_devices st)) (\<lambda>(v, q).
       case v of
         Some _ \<Rightarrow> Inl NullDeref
       | None \<Rightarrow> send_loop n (st\<lparr>pwr_devices := q\<rparr>))"

definition pwr_sendevent_g :: "u32 \<Rightarrow> u32 \<Rightarrow> int \<Rightarrow> corepower \<Rightarrow> (int \<times> corepower) res" where
  "pwr_sendevent_g pwr_class state p_state st = (if devices_lock st then Inl Deadlock else send_loop (nat (queue_entcnt (pwr_devices st))) st)"

definition pwr_sendevent_d :: "u32 \<Rightarrow> u32 \<Rightarrow> corepower \<Rightarrow> (int \<times> corepower) res" where
  "pwr_sendevent_d pwr_class state st = (if devices_lock st then Inl Deadlock else send_loop (nat (queue_entcnt (pwr_devices st))) st)"

definition power_module_init :: "u64 list option \<Rightarrow> corepower \<Rightarrow> (int \<times> corepower) res" where
  "power_module_init arr st =
     (if devices_lock st then Inl Deadlock else Inr (0, st\<lparr>pwr_devices := snd (queue_init arr (pwr_devices st) 1024)\<rparr>))"

section \<open>What a registry of devices promises\<close>

text \<open>
  \<open>devs s ds\<close>: the devices \<open>ds\<close> are registered, in order. Registration of a valid device appends it as long as there is
  memory for a node; removal takes out the first entry of the device.
\<close>

locale device_registry =
  fixes devs :: "'s \<Rightarrow> addr list \<Rightarrow> bool" and register unregister :: "'s \<Rightarrow> addr \<Rightarrow> (int \<times> 's) res"
    and valid :: "'s \<Rightarrow> addr \<Rightarrow> bool" and memory :: "'s \<Rightarrow> bool"
  assumes register_ok: "devs s ds \<Longrightarrow> valid s d \<Longrightarrow> length ds < 2 ^ 31 - 1 \<Longrightarrow>
      \<exists>s'. register s d = Inr (if memory s then 0 else -2, s') \<and> devs s' (if memory s then ds @ [d] else ds)"
    and unregister_ok: "devs s ds \<Longrightarrow> d \<noteq> NULL \<Longrightarrow>
      \<exists>s'. unregister s d = Inr (if d \<in> set ds then 0 else 1, s') \<and> devs s' (remove1 d ds)"
    and valid_non_null: "valid s d \<Longrightarrow> d \<noteq> NULL"
begin

lemma register_then_unregister:
  assumes "devs s ds" "valid s d" "memory s" "length ds < 2 ^ 31 - 1" "d \<notin> set ds"
  shows "\<exists>s1 s2. register s d = Inr (0, s1) \<and> devs s1 (ds @ [d]) \<and> unregister s1 d = Inr (0, s2) \<and> devs s2 ds"
proof -
  obtain s1 where 1: "register s d = Inr (0, s1)" "devs s1 (ds @ [d])" using register_ok[OF assms(1,2,4)] assms(3) by auto
  obtain s2 where "unregister s1 d = Inr (0, s2)" "devs s2 (remove1 d (ds @ [d]))"
    using unregister_ok[OF 1(2) valid_non_null[OF assms(2)]] by auto
  with 1 assms(5) show ?thesis by (auto simp: remove1_append)
qed

text \<open>A device registered twice stays registered after one removal.\<close>

lemma registered_twice:
  assumes "devs s (as @ d # bs)" "d \<in> set bs" "d \<notin> set as" "d \<noteq> NULL"
  shows "\<exists>s'. unregister s d = Inr (0, s') \<and> devs s' (as @ bs)"
  using unregister_ok[OF assms(1,4)] assms(3) by (auto simp: remove1_append)

end

definition registered :: "('a dev_registry_scheme) \<Rightarrow> addr list \<Rightarrow> bool" where
  "registered st ds \<longleftrightarrow> \<not> dev_lock st \<and> length ds < 2 ^ 31 \<and> (\<exists>ns. list_rep (dev_nodes st) (reg_devices st) ns ds)"

lemma unlocked: "\<not> dev_lock st \<Longrightarrow> st\<lparr>dev_lock := False\<rparr> = st"
  by (cases st) simp

lemma add_device_ok:
  assumes "registered st ds" "length ds < 2 ^ 31 - 1"
  shows "\<exists>h l. add_device st d = Inr (if avail (dev_nodes st) \<noteq> [] then 0 else -2, st\<lparr>dev_nodes := h, reg_devices := l\<rparr>) \<and>
    registered (st\<lparr>dev_nodes := h, reg_devices := l\<rparr>) (if avail (dev_nodes st) \<noteq> [] then ds @ [d] else ds)"
proof -
  from assms(1) obtain ns where r: "\<not> dev_lock st" "list_rep (dev_nodes st) (reg_devices st) ns ds" by (auto simp: registered_def)
  have n: "Suc (length ns) < 2 ^ 64" using list_repD(4)[OF r(2)] assms(2) by simp
  show ?thesis
  proof (cases "avail (dev_nodes st)")
    case Nil
    then show ?thesis using r assms by (intro exI[of _ "dev_nodes st"] exI[of _ "reg_devices st"])
      (auto simp: add_device_def dev_acquire_def dev_release_def list_append_fails registered_def Let_def unlocked)
  next
    case (Cons x rest)
    obtain p g where x: "x = (p, g)" by (cases x)
    from list_append_rep[OF r(2) Cons[unfolded x] n, of d] obtain h l where
      "list_append (dev_nodes st) (reg_devices st) d = Inr (list_error_none, h, l)" "list_rep h l (ns @ [p]) (ds @ [d])" by blast
    then show ?thesis using r(1) Cons assms(2)
      by (intro exI[of _ h] exI[of _ l]) (auto simp: add_device_def dev_acquire_def dev_release_def registered_def Let_def)
  qed
qed

lemma unregister_loop_ok:
  assumes "list_rep (dev_nodes st) (reg_devices st) ns ds" "i + n = length ds" "d \<notin> set (take i ds)" "length ds < 2 ^ 31"
  shows "\<exists>h l ns'. unregister_loop st d i n = Inr (if d \<in> set ds then 0 else 1, st\<lparr>dev_nodes := h, reg_devices := l, dev_lock := False\<rparr>) \<and>
    list_rep h l ns' (remove1 d ds)"
  using assms
proof (induction n arbitrary: i st)
  case 0
  then have "d \<notin> set ds" by simp
  then show ?case using 0(1) by (intro exI[of _ "dev_nodes st"] exI[of _ "reg_devices st"] exI[of _ ns]) (simp add: dev_release_def remove1_idem)
next
  case (Suc n)
  have l: "length ns = length ds" using list_repD(4)[OF Suc.prems(1)] by simp
  have i: "i < length ds" "unat (of_nat i :: u64) = i" using Suc.prems by (simp_all add: unat_of_nat_64)
  let ?a = "(reg_devices st)\<lparr>last_accessed_node := ns ! i, last_accessed_index := of_nat i\<rparr>"
  have at: "list_at (dev_nodes st) (reg_devices st) (of_nat i) = Inr (ds ! i, ?a)"
    using list_at_nth(1)[OF Suc.prems(1), of "of_nat i"] i l by simp
  have rep: "list_rep (dev_nodes st) ?a ns ds" using list_rep_move[OF Suc.prems(1), of "of_nat i"] i l by simp
  have split: "ds = take i ds @ ds ! i # drop (Suc i) ds" using i(1) by (simp add: id_take_nth_drop)
  show ?case
  proof (cases "ds ! i = d")
    case True
    from list_remove_rep[OF rep, of "of_nat i"] i l obtain h l' ns' where
      rm: "list_remove (dev_nodes st) ?a (of_nat i) = Inr (h, l')" "list_rep h l' ns' (take i ds @ drop (Suc i) ds)" by auto
    have "remove1 d ds = take i ds @ drop (Suc i) ds"
      by (subst split) (simp add: remove1_append Suc.prems(3) True)
    moreover have "d \<in> set ds" using True i(1) by auto
    ultimately show ?thesis using at rm True
      by (intro exI[of _ h] exI[of _ l'] exI[of _ ns']) (simp add: dev_release_def Let_def)
  next
    case False
    have "d \<notin> set (take (Suc i) ds)" using False Suc.prems(3) i(1) by (simp add: take_Suc_conv_app_nth)
    then have "\<exists>h l ns'. unregister_loop (st\<lparr>reg_devices := ?a\<rparr>) d (Suc i) n
        = Inr (if d \<in> set ds then 0 else 1, (st\<lparr>reg_devices := ?a\<rparr>)\<lparr>dev_nodes := h, reg_devices := l, dev_lock := False\<rparr>) \<and>
        list_rep h l ns' (remove1 d ds)"
      by (intro Suc.IH) (use rep Suc.prems in simp_all)
    then show ?thesis using at False by (simp add: Let_def)
  qed
qed

lemma drop_device_ok:
  assumes "registered st ds"
  shows "\<exists>h l. drop_device st d = Inr (if d \<in> set ds then 0 else 1, st\<lparr>dev_nodes := h, reg_devices := l\<rparr>) \<and>
    registered (st\<lparr>dev_nodes := h, reg_devices := l\<rparr>) (remove1 d ds)"
proof -
  from assms obtain ns where r: "\<not> dev_lock st" "list_rep (dev_nodes st) (reg_devices st) ns ds" "length ds < 2 ^ 31" by (auto simp: registered_def)
  have "uint (list_len (reg_devices st)) = int (length ds)"
    using list_repD(4,5)[OF r(2)] by (simp add: list_len_def unat_iff_uint)
  then have n: "nat (to_i32 (uint (list_len (reg_devices st)))) = length ds" using r(3) by (simp add: to_i32_id)
  have "\<exists>h l ns'. unregister_loop (st\<lparr>dev_lock := True\<rparr>) d 0 (length ds)
      = Inr (if d \<in> set ds then 0 else 1, (st\<lparr>dev_lock := True\<rparr>)\<lparr>dev_nodes := h, reg_devices := l, dev_lock := False\<rparr>) \<and>
      list_rep h l ns' (remove1 d ds)"
    by (rule unregister_loop_ok) (use r in simp_all)
  then obtain h l ns' where "unregister_loop (st\<lparr>dev_lock := True\<rparr>) d 0 (length ds)
      = Inr (if d \<in> set ds then 0 else 1, st\<lparr>dev_nodes := h, reg_devices := l, dev_lock := False\<rparr>)" "list_rep h l ns' (remove1 d ds)" by auto
  moreover have "st\<lparr>dev_nodes := h, reg_devices := l, dev_lock := False\<rparr> = st\<lparr>dev_nodes := h, reg_devices := l\<rparr>" using r(1) by (cases st) simp
  ultimately show ?thesis using r n length_remove1[of d ds]
    by (intro exI[of _ h] exI[of _ l]) (auto simp: drop_device_def dev_acquire_def registered_def)
qed

interpretation displays: device_registry registered display_register display_unregister "\<lambda>_ d. d \<noteq> NULL" "\<lambda>st. avail (dev_nodes st) \<noteq> []"
proof
  show "registered st ds \<Longrightarrow> d \<noteq> NULL \<Longrightarrow> length ds < 2 ^ 31 - 1 \<Longrightarrow>
      \<exists>s'. display_register st d = Inr (if avail (dev_nodes st) \<noteq> [] then 0 else -2, s') \<and>
        registered s' (if avail (dev_nodes st) \<noteq> [] then ds @ [d] else ds)" for st :: dev_registry and ds d
    using add_device_ok[of st ds d] unfolding display_register_def by fastforce
  show "registered st ds \<Longrightarrow> d \<noteq> NULL \<Longrightarrow> \<exists>s'. display_unregister st d = Inr (if d \<in> set ds then 0 else 1, s') \<and> registered s' (remove1 d ds)"
    for st :: dev_registry and ds d
    using drop_device_ok[of st ds d] unfolding display_unregister_def by fastforce
qed simp

definition input_valid :: "'e coreinput \<Rightarrow> addr \<Rightarrow> bool" where
  "input_valid st d \<longleftrightarrow> d \<noteq> NULL \<and> (\<exists>x. hmap (in_descs st) d = Some x \<and> has_pending x \<noteq> NULL \<and> read_handler x \<noteq> NULL)"

interpretation inputs: device_registry registered input_device_register input_device_unregister input_valid "\<lambda>st. avail (dev_nodes st) \<noteq> []"
proof
  show "registered st ds \<Longrightarrow> input_valid st d \<Longrightarrow> length ds < 2 ^ 31 - 1 \<Longrightarrow>
      \<exists>s'. input_device_register st d = Inr (if avail (dev_nodes st) \<noteq> [] then 0 else -2, s') \<and>
        registered s' (if avail (dev_nodes st) \<noteq> [] then ds @ [d] else ds)" for st :: "'e coreinput" and ds d
    using add_device_ok[of st ds d] unfolding input_device_register_def input_valid_def by fastforce
  show "registered st ds \<Longrightarrow> d \<noteq> NULL \<Longrightarrow> \<exists>s'. input_device_unregister st d = Inr (if d \<in> set ds then 0 else 1, s') \<and> registered s' (remove1 d ds)"
    for st :: "'e coreinput" and ds d
    using drop_device_ok[of st ds d] unfolding input_device_unregister_def by fastforce
  show "input_valid st d \<Longrightarrow> d \<noteq> NULL" for st :: "'e coreinput" and d by (simp add: input_valid_def)
qed

text \<open>
  C37. Both registries refine a list of devices: registering a display or an input device appends it (or answers -2 when no
  memory is left), and removing it afterwards gives the list back as it was; the locks are free again.
\<close>

theorem device_registries_refine_lists:
  assumes "registered ds vs" "registered ins ws" "length vs < 2 ^ 31 - 1" "length ws < 2 ^ 31 - 1"
    and "v \<noteq> NULL" "v \<notin> set vs" "input_valid ins w" "w \<notin> set ws" "avail (dev_nodes ds) \<noteq> []" "avail (dev_nodes ins) \<noteq> []"
  shows "(\<exists>s1 s2. display_register ds v = Inr (0, s1) \<and> registered s1 (vs @ [v]) \<and> display_unregister s1 v = Inr (0, s2) \<and> registered s2 vs) \<and>
    (\<exists>s1 s2. input_device_register ins w = Inr (0, s1) \<and> registered s1 (ws @ [w]) \<and> input_device_unregister s1 w = Inr (0, s2) \<and> registered s2 ws)"
  using displays.register_then_unregister[OF assms(1,5,9,3,6)] inputs.register_then_unregister[OF assms(2,7,10,4,8)] by blast

section \<open>Reading a device\<close>

lemma queue_never_full: "qinv q \<Longrightarrow> \<not> queue_full (Some q)"
  by (simp add: queue_full_def queue_entcnt_def queue_size_def qinv_def) (metis mod_less_divisor order_less_irrefl pos_mod_bound)

text \<open>A driver that buffers events: \<open>buf\<close> are those it still has to deliver.\<close>

definition buffers ::
  "(addr \<Rightarrow> addr \<Rightarrow> 'd \<Rightarrow> bool \<times> 'd) \<Rightarrow> (addr \<Rightarrow> addr \<Rightarrow> 'd \<Rightarrow> 'e \<times> 'd) \<Rightarrow> input_device_desc_t \<Rightarrow> ('d \<Rightarrow> 'e list) \<Rightarrow> bool" where
  "buffers pending fetch desc buf \<longleftrightarrow>
     (\<forall>d. fst (pending (has_pending desc) (drv_state desc) d) = (buf d \<noteq> []) \<and>
          buf (snd (pending (has_pending desc) (drv_state desc) d)) = buf d) \<and>
     (\<forall>d. buf d \<noteq> [] \<longrightarrow> fst (fetch (read_handler desc) (drv_state desc) d) = hd (buf d) \<and>
          buf (snd (fetch (read_handler desc) (drv_state desc) d)) = tl (buf d))"

text \<open>Storing a fresh event.\<close>

lemma fresh_event:
  assumes "heap_wf h" "avail h = (p, g) # rest"
  obtains h' where "halloc h = (p, h')" "p \<noteq> NULL" "hset h' p (\<lambda>_. e) = Inr (hput h' p e)" "heap_wf (hput h' p e)" "hmap h p = None"
    "hmap (hput h' p e) = (hmap h)(p \<mapsto> e)" "avail (hput h' p e) = rest"
proof -
  let ?h = "h\<lparr>cells := AList.update p g (cells h), avail := rest\<rparr>"
  note f = heap_wf_halloc[OF assms]
  have "hmap ?h p = Some g" using f(3) by simp
  then show thesis using f assms(2) by (intro that[of ?h]) (auto simp: halloc_Some intro: heap_wf_hput)
qed

lemma drain_delivers:
  assumes "buffers pending fetch desc buf" "event_queue st = Some q" "qinv q" "heap_wf (event_heap st)"
    "length (buf d) \<le> length (avail (event_heap st))"
  shows "\<exists>d' st' q' as. drain pending fetch desc d st = Some (Inr (d', st')) \<and> event_queue st' = Some q' \<and> qinv q' \<and> qcap q' = qcap q \<and>
    qlist q' = qlist q @ as \<and> map (hmap (event_heap st')) as = map Some (take (qcap q - length (qlist q)) (buf d)) \<and>
    (\<forall>a \<in> dom (hmap (event_heap st)). hmap (event_heap st') a = hmap (event_heap st) a) \<and>
    buf d' = drop (Suc (qcap q - length (qlist q))) (buf d)"
  using assms(2-5)
proof (induction "length (buf d)" arbitrary: d st q)
  case 0
  then show ?case using assms(1) queue_never_full[OF 0(3)]
    by (subst drain.simps) (auto simp: buffers_def case_prod_beta Let_def)
next
  case (Suc n)
  let ?d1 = "snd (pending (has_pending desc) (drv_state desc) d)"
  let ?d2 = "snd (fetch (read_handler desc) (drv_state desc) ?d1)"
  have p: "fst (pending (has_pending desc) (drv_state desc) d)" "buf ?d1 = buf d" "fst (fetch (read_handler desc) (drv_state desc) ?d1) = hd (buf d)"
    "buf ?d2 = tl (buf d)" using assms(1) Suc(2) unfolding buffers_def by (metis list.size(3) nat.distinct(1))+
  obtain e es where b: "buf d = e # es" using Suc(2) by (cases "buf d") auto
  obtain a g rest where av: "avail (event_heap st) = (a, g) # rest" using Suc.prems(4) Suc(2) by (cases "avail (event_heap st)") auto
  from fresh_event[OF Suc.prems(3) av, of e] obtain h' where h: "halloc (event_heap st) = (a, h')" "a \<noteq> NULL"
    "hset h' a (\<lambda>_. e) = Inr (hput h' a e)" "heap_wf (hput h' a e)" "hmap (event_heap st) a = None"
    "hmap (hput h' a e) = (hmap (event_heap st))(a \<mapsto> e)" "avail (hput h' a e) = rest" by metis
  show ?case
  proof (cases "length (qlist q) < qcap q")
    case True
    then obtain q1 where q1: "queue_tryenqueue (Some q) a = Inr (True, Some q1)" "qinv q1" "qlist q1 = qlist q @ [a]" "qcap q1 = qcap q"
      using ring.enq_room[OF Suc.prems(2)] by blast
    let ?st = "st\<lparr>event_heap := hput h' a e, event_queue := Some q1\<rparr>"
    have step: "drain pending fetch desc d st = drain pending fetch desc ?d2 ?st"
      using p b h q1 Suc.prems(1) queue_never_full[OF Suc.prems(2)] by (subst drain.simps) (simp add: case_prod_beta Let_def)
    have "n = length (buf ?d2)" "event_queue ?st = Some q1" "heap_wf (event_heap ?st)" "length (buf ?d2) \<le> length (avail (event_heap ?st))"
      using Suc(2) Suc.prems(4) b p(4) h av by simp_all
    from Suc.hyps(1)[OF this(1,2) q1(2) this(3,4)] obtain d' st' q' as where r:
      "drain pending fetch desc ?d2 ?st = Some (Inr (d', st'))" "event_queue st' = Some q'" "qinv q'" "qcap q' = qcap q1" "qlist q' = qlist q1 @ as"
      "map (hmap (event_heap st')) as = map Some (take (qcap q1 - length (qlist q1)) (buf ?d2))"
      "\<forall>x \<in> dom (hmap (hput h' a e)). hmap (event_heap st') x = hmap (hput h' a e) x"
      "buf d' = drop (Suc (qcap q1 - length (qlist q1))) (buf ?d2)" by auto
    have k: "qcap q - length (qlist q) = Suc (qcap q1 - length (qlist q1))" using True q1 by simp
    have "hmap (event_heap st') a = Some e" "\<forall>x \<in> dom (hmap (event_heap st)). hmap (event_heap st') x = hmap (event_heap st) x"
      using r(7) h(5) unfolding h(6) by (auto simp: dom_def)
    then show ?thesis using r(1-6,8) q1 p(4) b step unfolding k
      by (intro exI[of _ d'] exI[of _ st'] exI[of _ q'] exI[of _ "a # as"]) simp
  next
    case False
    then have z: "qcap q - length (qlist q) = 0" "length (qlist q) = qcap q" using ring.within_cap[OF Suc.prems(2)] by simp_all
    have "hmap (hput h' a e) a = Some e" using h(6) by simp
    from hfree_ok[OF this h(2)] obtain h2 where f: "hfree (hput h' a e) a = Inr h2" by blast
    note hf = heap_wf_hfree[OF h(4) f]
    have "drain pending fetch desc d st = Some (Inr (?d2, st\<lparr>event_heap := h2, event_queue := Some q\<rparr>))"
      using p b h f Suc.prems(1) queue_never_full[OF Suc.prems(2)] ring.enq_noroom[OF Suc.prems(2) z(2)]
      by (subst drain.simps) (simp add: case_prod_beta Let_def)
    moreover have "\<forall>x \<in> dom (hmap (event_heap st)). hmap h2 x = hmap (event_heap st) x" using h(5) unfolding hf(2) h(6) by auto
    ultimately show ?thesis using z Suc.prems(1,2) p(4) b
      by (intro exI[of _ ?d2] exI[of _ "st\<lparr>event_heap := h2, event_queue := Some q\<rparr>"] exI[of _ q] exI[of _ "[]"]) simp
  qed
qed

text \<open>
  C38. Reading a device ends and keeps the order of its events: the task appends to the queue the oldest events the
  device has, as many as the queue has room for, and the events that were queued before stay as they were. One more
  event than fits is taken from the device and thrown away, since \<open>queue_full\<close> never holds.
\<close>

theorem input_events_in_order:
  assumes "buffers pending fetch desc buf" "event_queue st = Some q" "qinv q" "heap_wf (event_heap st)"
    "length (buf d) \<le> length (avail (event_heap st))"
  shows "\<exists>d' st' q' as. drain pending fetch desc d st = Some (Inr (d', st')) \<and> event_queue st' = Some q' \<and> qinv q' \<and>
    qlist q' = qlist q @ as \<and> map (hmap (event_heap st')) as = map Some (take (qcap q - length (qlist q)) (buf d)) \<and>
    (\<forall>a \<in> dom (hmap (event_heap st)). hmap (event_heap st') a = hmap (event_heap st) a) \<and>
    buf d' = drop (Suc (qcap q - length (qlist q))) (buf d)"
  using drain_delivers[OF assms] by blast

definition ex_input :: "nat coreinput" where
  "ex_input = \<lparr>dev_lock = False, dev_nodes = ex_list_heap, reg_devices = ex_list,
     in_descs = \<lparr>cells = [(5, \<lparr>has_pending = 1, read_handler = 2, drv_state = 3\<rparr>)], avail = []\<rparr>,
     event_queue = Some \<lparr>queue = [0, 0], q_size = 2, ent_cnt = 0, head = 0, tail = 0\<rparr>, event_lock = False,
     event_heap = \<lparr>cells = [], avail = [(96, 0), (128, 0), (160, 0)]\<rparr>\<rparr>"

theorem input_events_in_order_witness:
  "\<exists>d' st' q'. drain (\<lambda>_ _ d. (d \<noteq> [], d)) (\<lambda>_ _ d. (hd d, tl d)) \<lparr>has_pending = 1, read_handler = 2, drv_state = 3\<rparr> [7, 8, 9] ex_input
     = Some (Inr (d', st')) \<and> event_queue st' = Some q' \<and> map (hmap (event_heap st')) (qlist q') = [Some 7] \<and> d' = [9]"
proof -
  let ?q = "\<lparr>queue = [0, 0], q_size = 2, ent_cnt = 0, head = 0, tail = 0\<rparr>"
  have b: "buffers (\<lambda>_ _ d. (d \<noteq> [], d)) (\<lambda>_ _ d. (hd d, tl d)) \<lparr>has_pending = 1, read_handler = 2, drv_state = 3\<rparr> (\<lambda>d. d :: nat list)"
    by (simp add: buffers_def)
  have q: "event_queue ex_input = Some ?q" "qinv ?q" "heap_wf (event_heap ex_input)" "length [7 :: nat, 8, 9] \<le> length (avail (event_heap ex_input))"
    by (simp_all add: ex_input_def qinv_def heap_wf_def)
  have l: "qlist ?q = []" "qcap ?q = 1" by (simp_all add: qlist_def qcap_def)
  show ?thesis using input_events_in_order[OF b q] unfolding l by auto
qed

theorem device_registries_refine_lists_witness:
  "\<exists>s1 s2 t1 t2. display_register \<lparr>dev_lock = False, dev_nodes = ex_list_heap, reg_devices = ex_list\<rparr> 5 = Inr (0, s1) \<and> registered s1 [7, 9, 5] \<and>
     display_unregister s1 5 = Inr (0, s2) \<and> registered s2 [7, 9] \<and>
     input_device_register ex_input 5 = Inr (0, t1) \<and> registered t1 [7, 9, 5] \<and> input_device_unregister t1 5 = Inr (0, t2) \<and> registered t2 [7, 9]"
proof -
  let ?d = "\<lparr>dev_lock = False, dev_nodes = ex_list_heap, reg_devices = ex_list\<rparr>"
  have "registered ?d [7, 9]" "registered ex_input [7, 9]" using ex_list_rep by (auto simp: registered_def ex_input_def)
  moreover have "input_valid ex_input 5" by (simp add: input_valid_def ex_input_def)
  ultimately show ?thesis using device_registries_refine_lists[of ?d "[7, 9]" ex_input "[7, 9]" 5 5]
    by (simp add: ex_input_def ex_list_heap_def)
qed

text \<open>Sending a power event to registered devices stores through a null pointer.\<close>

lemma power_events_fault:
  assumes "\<not> devices_lock st" "pwr_devices st = Some q" "qinv q" "qlist q = d # ds"
  shows "pwr_sendevent_g c s p st = Inl NullDeref" "pwr_sendevent_d c s st = Inl NullDeref"
proof -
  obtain q' where q: "queue_trydequeue (Some q) = Inr (Some d, Some q')" using ring.deq_some[OF assms(3,4)] by blast
  have "nat (queue_entcnt (pwr_devices st)) = length (qlist q)" using assms(2) by (simp add: queue_entcnt_def qlist_def)
  then obtain n where "nat (queue_entcnt (pwr_devices st)) = Suc n" using assms(4) by auto
  then show "pwr_sendevent_g c s p st = Inl NullDeref" "pwr_sendevent_d c s st = Inl NullDeref"
    using assms(1,2) q by (simp_all add: pwr_sendevent_g_def pwr_sendevent_d_def)
qed

end
