(* ===== verification/Timer.thy ===== *)
theory Timer
  imports IoApic
begin

unbundle bit_operations_syntax

text \<open>
  The timer module: the table of timers, waiting and requests (\<^verbatim>\<open>modules/SysTimer/src/main.c\<close>), and the real-time clock
  (\<^verbatim>\<open>modules/SysTimer/src/platform/x86_64/pc/rtc.c\<close>). The functions of a timer's driver are called through pointers; a
  call is an entry of the log. The interrupts that arrive during a wait and the values a counter delivers are parameters.
\<close>

section \<open>The table of timers\<close>

record timer_handlers_t =
  t_read :: addr
  t_write :: addr
  t_set_mode :: addr
  t_set_enable :: addr
  t_set_handler :: addr
  t_rate :: u64

record timer_defs_t =
  in_use :: bool
  t_features :: u32
  t_handlers :: timer_handlers_t

text \<open>A call of a driver's function: the function, the index of the timer it is for, and the argument.\<close>

datatype timer_call = WriteTimer addr int u64 | SetMode addr int u32 | SetEnable addr int bool | SetHandler addr int addr

record systimer =
  timer_defs :: "timer_defs_t list"
  timer_idx :: int
  timer_wait_pending :: u64
  timer_wait_count :: u64
  timer_wait_target :: u64
  timer_wait_d :: "int option"
  calls :: "timer_call list"

definition timer_features_periodic :: u32 where "timer_features_periodic = 0x2"
definition timer_features_read :: u32 where "timer_features_read = 0x4"
definition timer_features_persistent :: u32 where "timer_features_persistent = 0x8"
definition timer_features_write :: u32 where "timer_features_write = 0x40"
definition timer_features_counter :: u32 where "timer_features_counter = 0x400"

definition call_driver :: "timer_call \<Rightarrow> systimer \<Rightarrow> systimer" where
  "call_driver c st = st\<lparr>calls := calls st @ [c]\<rparr>"

definition timer_register :: "systimer \<Rightarrow> u32 \<Rightarrow> timer_handlers_t \<Rightarrow> (int \<times> systimer) res" where
  "timer_register st features hs =
     bindE (aget (timer_defs st) (timer_idx st)) (\<lambda>t.
     bindE (aset (timer_defs st) (timer_idx st) (t\<lparr>t_handlers := hs, t_features := features\<rparr>)) (\<lambda>ts.
       Inr (timer_idx st, st\<lparr>timer_defs := ts, timer_idx := timer_idx st + 1\<rparr>)))"

definition timer_wait_handler :: "systimer \<Rightarrow> systimer" where
  "timer_wait_handler st =
     (let st = st\<lparr>timer_wait_count := timer_wait_count st + 1\<rparr> in
      if timer_wait_count st \<ge> timer_wait_target st \<and> timer_wait_pending st \<noteq> 0 then st\<lparr>timer_wait_pending := 0\<rparr> else st)"

text \<open>The search of \<open>timer_wait\<close>, at index \<open>i\<close> with \<open>n\<close> turns left; the second component is the kind of wait, 0 for none.\<close>

definition wait_kind :: "timer_defs_t \<Rightarrow> nat" where
  "wait_kind t =
     (if in_use t then 0
      else if t_features t AND timer_features_periodic \<noteq> 0 then
        if t_set_handler (t_handlers t) \<noteq> NULL \<and> t_set_enable (t_handlers t) \<noteq> NULL then 1 else 0
      else if t_features t AND (timer_features_counter OR timer_features_read) \<noteq> 0 then
        if t_read (t_handlers t) \<noteq> NULL then 2 else 0
      else 0)"

fun wait_select :: "timer_defs_t list \<Rightarrow> int \<Rightarrow> nat \<Rightarrow> (int \<times> nat) res" where
  "wait_select ts i 0 = Inr (i, 0)"
| "wait_select ts i (Suc n) =
     bindE (aget ts i) (\<lambda>t. if wait_kind t \<noteq> 0 then Inr (i, wait_kind t) else wait_select ts (i + 1) n)"

text \<open>The loop that halts while the wait is pending; \<open>n\<close> interrupts arrive. \<open>None\<close>: the processor is still halted.\<close>

fun halt_loop :: "nat \<Rightarrow> systimer \<Rightarrow> systimer option" where
  "halt_loop n st =
     (if timer_wait_pending st = 0 then Some st
      else case n of 0 \<Rightarrow> None | Suc n \<Rightarrow> halt_loop n (timer_wait_handler st))"

declare halt_loop.simps [simp del]

text \<open>The loop that polls a counter, on the values it delivers.\<close>

fun poll_loop :: "u64 \<Rightarrow> u64 list \<Rightarrow> bool" where
  "poll_loop target [] = False"
| "poll_loop target (v # vs) = (if target > v then poll_loop target vs else True)"

definition timer_ticks :: "u64 \<Rightarrow> u64 \<Rightarrow> u64" where
  "timer_ticks ns rate = (ns * rate) div 1000000000"

definition set_in_use :: "systimer \<Rightarrow> int \<Rightarrow> bool \<Rightarrow> systimer res" where
  "set_in_use st i b =
     bindE (aget (timer_defs st) i) (\<lambda>t. bindE (aset (timer_defs st) i (t\<lparr>in_use := b\<rparr>)) (\<lambda>ts. Inr (st\<lparr>timer_defs := ts\<rparr>)))"

text \<open>\<open>wh\<close> is the address of \<open>timer_wait_handler\<close>; \<open>n\<close> interrupts arrive in a wait on a timer; \<open>v\<close> is the first value of a counter and \<open>vs\<close> are the next ones.\<close>

definition timer_wait :: "addr \<Rightarrow> u64 \<Rightarrow> nat \<Rightarrow> u64 \<Rightarrow> u64 list \<Rightarrow> systimer \<Rightarrow> systimer res option" where
  "timer_wait wh ns n v vs st =
     (case wait_select (timer_defs st) 0 (nat (timer_idx st)) of
        Inl f \<Rightarrow> Some (Inl f)
      | Inr (idx, waitType) \<Rightarrow>
          if idx = timer_idx st then Some (Inl (Panic ''[SysTimer] Failed to select timer.''))
          else if waitType = 1 then
            (let st = st\<lparr>timer_wait_count := 0, timer_wait_pending := 1, timer_wait_d := Some idx\<rparr> in
             case bindE (aget (timer_defs st) idx) (\<lambda>t. bindE (set_in_use st idx True) (\<lambda>st. Inr (t, st))) of
               Inl f \<Rightarrow> Some (Inl f)
             | Inr (t, st) \<Rightarrow>
                 (let target = timer_ticks ns (t_rate (t_handlers t));
                      st = st\<lparr>timer_wait_target := if target = 0 then 1 else target\<rparr>;
                      st = call_driver (SetHandler (t_set_handler (t_handlers t)) idx wh) st;
                      st = call_driver (SetEnable (t_set_enable (t_handlers t)) idx True) st in
                  case halt_loop n st of
                    None \<Rightarrow> None
                  | Some st \<Rightarrow>
                      (let st = call_driver (SetEnable (t_set_enable (t_handlers t)) idx False) st in
                       Some (set_in_use (st\<lparr>timer_wait_d := None\<rparr>) idx False))))
          else
            (case aget (timer_defs st) idx of
               Inl f \<Rightarrow> Some (Inl f)
             | Inr t \<Rightarrow> if poll_loop (timer_ticks ns (t_rate (t_handlers t)) + v) vs then Some (Inr st) else None))"

text \<open>The search of \<open>timer_request\<close>.\<close>

definition request_fits :: "u32 \<Rightarrow> timer_defs_t \<Rightarrow> bool" where
  "request_fits features t \<longleftrightarrow>
     \<not> in_use t \<and> t_features t AND features = features \<and>
     t_set_mode (t_handlers t) \<noteq> NULL \<and> t_set_handler (t_handlers t) \<noteq> NULL \<and> t_set_enable (t_handlers t) \<noteq> NULL \<and>
     (if features AND timer_features_write \<noteq> 0 \<and> t_write (t_handlers t) \<noteq> NULL then True else features AND timer_features_write = 0)"

fun request_select :: "u32 \<Rightarrow> timer_defs_t list \<Rightarrow> int \<Rightarrow> nat \<Rightarrow> int res" where
  "request_select features ts i 0 = Inr i"
| "request_select features ts i (Suc n) =
     bindE (aget ts i) (\<lambda>t. if request_fits features t then Inr i else request_select features ts (i + 1) n)"

definition timer_request :: "systimer \<Rightarrow> u32 \<Rightarrow> u64 \<Rightarrow> addr \<Rightarrow> (int \<times> systimer) res" where
  "timer_request st features ns handler =
     bindE (request_select features (timer_defs st) 0 (nat (timer_idx st))) (\<lambda>idx.
       if idx = timer_idx st then Inr (-1, st)
       else bindE (aget (timer_defs st) idx) (\<lambda>t.
         bindE (set_in_use (st\<lparr>timer_wait_d := Some idx\<rparr>) idx True) (\<lambda>st.
           let h = t_handlers t;
               st = call_driver (SetMode (t_set_mode h) idx features) st;
               st = (if features AND timer_features_write \<noteq> 0 then call_driver (WriteTimer (t_write h) idx (timer_ticks ns (t_rate h))) st else st);
               st = call_driver (SetHandler (t_set_handler h) idx handler) st;
               st = call_driver (SetEnable (t_set_enable h) idx True) st in
           Inr (0, st))))"

text \<open>\<open>read\<close> is what the driver of a timer answers.\<close>

fun timestamp_loop :: "(addr \<Rightarrow> int \<Rightarrow> u64) \<Rightarrow> timer_defs_t list \<Rightarrow> int \<Rightarrow> nat \<Rightarrow> u64 res" where
  "timestamp_loop read ts i 0 = Inr (-1)"
| "timestamp_loop read ts i (Suc n) =
     bindE (aget ts i) (\<lambda>t.
       let m = timer_features_read OR timer_features_persistent OR timer_features_counter in
       if t_features t AND m = m \<and> t_read (t_handlers t) \<noteq> NULL then Inr (read (t_read (t_handlers t)) i)
       else timestamp_loop read ts (i + 1) n)"

definition timer_timestamp :: "(addr \<Rightarrow> int \<Rightarrow> u64) \<Rightarrow> systimer \<Rightarrow> u64 res" where
  "timer_timestamp read st = timestamp_loop read (timer_defs st) 0 (nat (timer_idx st))"

text \<open>\<open>fresh\<close> is the memory for the table, cleared; \<open>plat\<close> the initialisation of the platform's timers.\<close>

definition timer_module_init :: "int \<Rightarrow> timer_defs_t list option \<Rightarrow> (systimer \<Rightarrow> (int \<times> systimer) res) \<Rightarrow> systimer \<Rightarrow> (int \<times> systimer) res" where
  "timer_module_init cnt fresh plat st =
     (case fresh of
        None \<Rightarrow> Inl NullDeref
      | Some ts \<Rightarrow> bindE (plat (st\<lparr>timer_defs := ts\<rparr>)) (\<lambda>(err, st). if err \<noteq> 0 then Inr (err, st) else Inr (0, st)))"

section \<open>The real-time clock\<close>

record rtc =
  century :: u8
  year :: u8
  month :: u8
  dayofmonth :: u8
  weekday :: u8
  hours :: u8
  minutes :: u8
  seconds :: u8
  ms_100000000x :: u64
  ms_sinceboot :: u64

definition rtc_read :: "device \<Rightarrow> access list \<Rightarrow> u8 \<Rightarrow> u8 \<times> access list" where
  "rtc_read dev log off = inb dev (outb log 0x70 (0x80 OR off)) 0x71"

definition rtc_write :: "access list \<Rightarrow> u8 \<Rightarrow> u8 \<Rightarrow> access list" where
  "rtc_write log off v = outb (outb log 0x70 (0x80 OR off)) 0x71 v"

definition BIN_FROM_BCD :: "u8 \<Rightarrow> u8" where
  "BIN_FROM_BCD bcd = (bcd div 16) * 10 + (bcd AND 0xf)"

text \<open>The two loops that wait for an update of the clock to begin and to end; the fuel bounds the polls.\<close>

fun rtc_poll :: "nat \<Rightarrow> bool \<Rightarrow> device \<Rightarrow> access list \<Rightarrow> access list option" where
  "rtc_poll 0 b dev log = None"
| "rtc_poll (Suc n) b dev log =
     (let (v, log) = rtc_read dev log 0x0A in if (v AND 0x80 = 0x80) = b then Some log else rtc_poll n b dev log)"

fun rtc_read_all :: "device \<Rightarrow> nat list \<Rightarrow> access list \<Rightarrow> u8 list \<times> access list" where
  "rtc_read_all dev [] log = ([], log)"
| "rtc_read_all dev (i # is) log =
     (let (v, log) = rtc_read dev log (of_nat i); (vs, log) = rtc_read_all dev is log in (v # vs, log))"

definition rtc_fields :: "nat list" where
  "rtc_fields = [0x00, 0x02, 0x04, 0x06, 0x07, 0x08, 0x09, 0x32]"

text \<open>What the registers mean: the twelve hour bit is taken off first, the conversion from decimal digits comes second.\<close>

definition rtc_decode :: "u8 list \<Rightarrow> u8 list" where
  "rtc_decode d =
     (let h24 = d ! 0x0B AND 2 \<noteq> 0; isBinary = d ! 0x0B AND 4 \<noteq> 0;
          pm = (\<not> h24 \<and> d ! 4 AND 0x80 \<noteq> 0);
          d = (if h24 then d else d[4 := d ! 4 AND NOT 0x80]);
          d = (if isBinary then d else foldl (\<lambda>d i. d[i := BIN_FROM_BCD (d ! i)]) d rtc_fields) in
      if \<not> h24 \<and> pm then d[4 := d ! 4 + 12] else d)"

definition rtc_gettime :: "nat \<Rightarrow> device \<Rightarrow> access list \<Rightarrow> rtc \<Rightarrow> (rtc \<times> access list) option" where
  "rtc_gettime fuel dev log r =
     (case rtc_poll fuel True dev log of
        None \<Rightarrow> None
      | Some log \<Rightarrow>
          (case rtc_poll fuel False dev log of
             None \<Rightarrow> None
           | Some log \<Rightarrow>
               (let (d, log) = rtc_read_all dev [0..<64] log; d = rtc_decode d in
                Some (r\<lparr>century := d ! 0x32, year := d ! 9, month := d ! 8, dayofmonth := d ! 7, weekday := d ! 6,
                        hours := d ! 4, minutes := d ! 2, seconds := d ! 0\<rparr>, log))))"

text \<open>The interrupt, with the value of the cause register: the period is added, and the carries go through the fields.\<close>

definition add_period :: "u8 \<Rightarrow> rtc \<Rightarrow> rtc" where
  "add_period int_mask r = (if int_mask AND 0x40 \<noteq> 0 then r\<lparr>ms_100000000x := ms_100000000x r + 9765625\<rparr> else r)"

definition carry_ms :: "rtc \<Rightarrow> rtc" where
  "carry_ms r =
     (if ms_100000000x r \<ge> 100000000
      then r\<lparr>seconds := seconds r + 1, ms_100000000x := ms_100000000x r - 100000000, ms_sinceboot := ms_sinceboot r + 1\<rparr> else r)"

definition carry_seconds :: "rtc \<Rightarrow> rtc" where
  "carry_seconds r = (if seconds r \<ge> 60 then r\<lparr>seconds := seconds r - 60, minutes := minutes r + 1\<rparr> else r)"

definition carry_minutes :: "rtc \<Rightarrow> rtc" where
  "carry_minutes r = (if minutes r \<ge> 60 then r\<lparr>minutes := minutes r - 60, hours := hours r + 1\<rparr> else r)"

definition carry_hours :: "rtc \<Rightarrow> rtc" where
  "carry_hours r =
     (if hours r \<ge> 24 then r\<lparr>hours := hours r - 24, weekday := (weekday r + 1) mod 7, dayofmonth := dayofmonth r + 1\<rparr> else r)"

definition carry_days :: "rtc \<Rightarrow> rtc" where
  "carry_days r = (if dayofmonth r \<ge> 31 then r\<lparr>dayofmonth := dayofmonth r - 31, month := month r + 1\<rparr> else r)"

definition carry_months :: "rtc \<Rightarrow> rtc" where
  "carry_months r = (if month r \<ge> 12 then r\<lparr>month := month r - 12, year := year r + 1\<rparr> else r)"

definition carry_years :: "rtc \<Rightarrow> rtc" where
  "carry_years r = (if year r \<ge> 100 then r\<lparr>year := year r - 100, century := century r + 1\<rparr> else r)"

definition rtc_tick :: "u8 \<Rightarrow> rtc \<Rightarrow> rtc" where
  "rtc_tick int_mask r =
     carry_years (carry_months (carry_days (carry_hours (carry_minutes (carry_seconds (carry_ms (add_period int_mask r)))))))"

definition rtc_interrupt :: "device \<Rightarrow> access list \<Rightarrow> rtc \<Rightarrow> rtc \<times> access list" where
  "rtc_interrupt dev log r = (let (v, log) = rtc_read dev log 0x0C in (rtc_tick v r, log))"

definition rtc_readtime :: "rtc \<Rightarrow> u64" where
  "rtc_readtime r = ms_sinceboot r"

text \<open>
  The start of the clock: \<open>yr\<close> is the century of the build, \<open>ri\<close> and \<open>rt\<close> are the addresses of \<open>rtc_interrupt\<close> and
  \<open>rtc_readtime\<close>. The state is that of the clock, of the interrupt module, of its controllers and of the timers.
\<close>

definition rtc_init ::
  "nat \<Rightarrow> device \<Rightarrow> u8 \<Rightarrow> addr \<Rightarrow> addr \<Rightarrow> rtc \<times> intr \<times> ioapics \<times> systimer \<times> access list
   \<Rightarrow> (int \<times> rtc \<times> intr \<times> ioapics \<times> systimer \<times> access list) res option" where
  "rtc_init fuel dev yr ri rt = (\<lambda>(r, it, ios, ts, log).
     case rtc_gettime fuel dev log r of
       None \<Rightarrow> None
     | Some (r, log) \<Rightarrow>
         (let r = r\<lparr>century := yr\<rparr>; irq = 40 in
          Some (bindE (interrupt_allocate it 1 (interrupt_flags_fixed OR interrupt_flags_exclusive) irq) (\<lambda>(err, irq, it).
            if err = 0 then
              bindE (interrupt_registerhandler it irq ri) (\<lambda>it.
              bindE (interrupt_setmask dev ios log (of_int irq) False) (\<lambda>log.
                let (v, log) = rtc_read dev log 0x0B; log = rtc_write log 0x0B (v OR 0x40) in
                bindE (timer_register ts (timer_features_persistent OR timer_features_counter OR timer_features_read)
                         \<lparr>t_read = rt, t_write = NULL, t_set_mode = NULL, t_set_enable = NULL, t_set_handler = NULL, t_rate = 1000\<rparr>) (\<lambda>(_, ts).
                  Inr (0, r, it, ios, ts, log))))
            else Inr (-1, r, it, ios, ts, log)))))"

section \<open>The clock\<close>

text \<open>Every field of the clock stays in its range.\<close>

definition rtc_ok :: "rtc \<Rightarrow> bool" where
  "rtc_ok r \<longleftrightarrow> seconds r < 60 \<and> minutes r < 60 \<and> hours r < 24 \<and> weekday r < 7 \<and> dayofmonth r < 31 \<and> month r < 12 \<and> year r < 100 \<and>
     ms_100000000x r < 100000000"

lemma u8_inc: "a < k \<Longrightarrow> a + 1 \<le> k" for a k :: u8
  by (simp add: inc_le)

text \<open>One carry: a field that has just reached its limit goes back to zero.\<close>

lemma carry_zero: "a \<le> k \<Longrightarrow> k \<le> a \<Longrightarrow> a - k = 0" for a k :: u8
  by simp

lemmas carries = carry_seconds_def carry_minutes_def carry_hours_def carry_days_def carry_months_def carry_years_def

lemma period_added:
  fixes x :: u64 assumes "x < 100000000"
  shows "unat (x + 9765625) = unat x + 9765625" "100000000 \<le> x + 9765625 \<Longrightarrow> unat (x + 9765625 - 100000000) = unat x + 9765625 - 100000000"
proof -
  have "unat x < 100000000" using assms by (simp add: word_less_nat_alt)
  then show u: "unat (x + 9765625) = unat x + 9765625" by (subst unat_add_lem[THEN iffD1]) simp_all
  show "100000000 \<le> x + 9765625 \<Longrightarrow> unat (x + 9765625 - 100000000) = unat x + 9765625 - 100000000" by (subst unat_sub) (simp_all only: u, simp)
qed

lemma carry_ms_ok: "rtc_ok r \<Longrightarrow> ms_100000000x (carry_ms (add_period m r)) < 100000000"
proof -
  assume r: "rtc_ok r"
  let ?x = "ms_100000000x r"
  have x: "?x < 100000000" "unat ?x < 100000000" using r by (simp_all add: rtc_ok_def word_less_nat_alt)
  have "?x + 9765625 - 100000000 < 100000000" if "100000000 \<le> ?x + 9765625"
  proof -
    have "unat (?x + 9765625 - 100000000) < 100000000" unfolding period_added(2)[OF x(1) that] using x(2) by linarith
    then show ?thesis by (simp only: word_less_nat_alt) simp
  qed
  then show ?thesis using x(1) by (auto simp: carry_ms_def add_period_def not_le)
qed

lemma rtc_tick_ok:
  assumes "rtc_ok r" shows "rtc_ok (rtc_tick m r)"
proof -
  let ?r1 = "carry_ms (add_period m r)" let ?r2 = "carry_seconds ?r1" let ?r3 = "carry_minutes ?r2"
  let ?r4 = "carry_hours ?r3" let ?r5 = "carry_days ?r4" let ?r6 = "carry_months ?r5"
  have 1: "seconds ?r1 \<le> 60" "minutes ?r1 < 60" "hours ?r1 < 24" "weekday ?r1 < 7" "dayofmonth ?r1 < 31" "month ?r1 < 12" "year ?r1 < 100"
    "ms_100000000x ?r1 < 100000000"
    using assms carry_ms_ok[OF assms, of m] by (auto simp: rtc_ok_def carry_ms_def add_period_def intro: u8_inc order.strict_implies_order)
  have 2: "seconds ?r2 < 60" "minutes ?r2 \<le> 60" "hours ?r2 < 24" "weekday ?r2 < 7" "dayofmonth ?r2 < 31" "month ?r2 < 12" "year ?r2 < 100"
    "ms_100000000x ?r2 < 100000000"
    using 1 by (auto simp: carries carry_zero not_le intro: u8_inc order.strict_implies_order)
  have 3: "seconds ?r3 < 60" "minutes ?r3 < 60" "hours ?r3 \<le> 24" "weekday ?r3 < 7" "dayofmonth ?r3 < 31" "month ?r3 < 12" "year ?r3 < 100"
    "ms_100000000x ?r3 < 100000000"
    using 2 unfolding carry_minutes_def[of ?r2] by (auto simp: carry_zero not_le intro: u8_inc order.strict_implies_order)
  have w: "x mod 7 < 7" for x :: u8 by (simp add: word_mod_less_divisor)
  have 4: "seconds ?r4 < 60" "minutes ?r4 < 60" "hours ?r4 < 24" "weekday ?r4 < 7" "dayofmonth ?r4 \<le> 31" "month ?r4 < 12" "year ?r4 < 100"
    "ms_100000000x ?r4 < 100000000"
    using 3 unfolding carry_hours_def[of ?r3] by (auto simp: carry_zero not_le w intro: u8_inc order.strict_implies_order)
  have 5: "seconds ?r5 < 60" "minutes ?r5 < 60" "hours ?r5 < 24" "weekday ?r5 < 7" "dayofmonth ?r5 < 31" "month ?r5 \<le> 12" "year ?r5 < 100"
    "ms_100000000x ?r5 < 100000000"
    using 4 unfolding carry_days_def[of ?r4] by (auto simp: carry_zero not_le intro: u8_inc order.strict_implies_order)
  have 6: "seconds ?r6 < 60" "minutes ?r6 < 60" "hours ?r6 < 24" "weekday ?r6 < 7" "dayofmonth ?r6 < 31" "month ?r6 < 12" "year ?r6 \<le> 100"
    "ms_100000000x ?r6 < 100000000"
    using 5 unfolding carry_months_def[of ?r5] by (auto simp: carry_zero not_le intro: u8_inc order.strict_implies_order)
  show ?thesis using 6 unfolding rtc_ok_def rtc_tick_def carry_years_def[of ?r6] by (auto simp: carry_zero not_le)
qed

text \<open>The carries beyond the seconds do not touch the counters of time since boot.\<close>

lemma tick_counters:
  "ms_100000000x (rtc_tick m r) = ms_100000000x (carry_ms (add_period m r))" "ms_sinceboot (rtc_tick m r) = ms_sinceboot (carry_ms (add_period m r))"
  by (simp_all add: rtc_tick_def carries)

lemma tick_once:
  assumes "rtc_ok r" "unat (ms_sinceboot r) < 2 ^ 63"
  shows "unat (ms_100000000x (rtc_tick 0x40 r)) = (unat (ms_100000000x r) + 9765625) mod 100000000 \<and>
    unat (ms_sinceboot (rtc_tick 0x40 r)) = unat (ms_sinceboot r) + (unat (ms_100000000x r) + 9765625) div 100000000"
proof -
  let ?x = "ms_100000000x r"
  have x: "?x < 100000000" "unat ?x < 100000000" using assms(1) by (simp_all add: rtc_ok_def word_less_nat_alt)
  note u = period_added[OF x(1)]
  have le: "100000000 \<le> ?x + 9765625 \<longleftrightarrow> 100000000 \<le> unat ?x + 9765625" by (simp only: word_le_nat_alt u) simp
  show ?thesis
  proof (cases "100000000 \<le> unat ?x + 9765625")
    case True
    have "unat (ms_sinceboot r + 1) = Suc (unat (ms_sinceboot r))" using assms(2) by (simp add: unat_word_ariths)
    moreover have "(unat ?x + 9765625) mod 100000000 = unat ?x + 9765625 - 100000000" "(unat ?x + 9765625) div 100000000 = 1"
      using True x(2) by (simp_all add: mod_if div_if)
    ultimately show ?thesis using True le u(2) unfolding tick_counters by (simp add: carry_ms_def add_period_def)
  next
    case False
    then show ?thesis using le u(1) unfolding tick_counters by (simp add: carry_ms_def add_period_def)
  qed
qed


text \<open>Decimal digits: a field below one hundred that the clock holds in decimal digits is read back.\<close>

lemma bcd_round_trip: "n < 100 \<Longrightarrow> BIN_FROM_BCD (of_nat (16 * (n div 10) + n mod 10)) = of_nat n"
proof -
  assume n: "n < 100"
  have m: "n div 10 < 10" "n mod 10 < 10" using n by simp_all
  let ?b = "of_nat (16 * (n div 10) + n mod 10) :: u8"
  have "16 * (n div 10) + n mod 10 < 2 ^ 8" using m by simp
  then have u: "unat ?b = 16 * (n div 10) + n mod 10" by (simp only: unat_of_nat) (simp add: take_bit_nat_eq_self)
  have lo: "unat (?b AND 0xf) = n mod 10"
  proof -
    have "?b AND 0xf = take_bit 4 ?b" by (simp add: take_bit_eq_mask mask_eq_exp_minus_1)
    then have "unat (?b AND 0xf) = unat ?b mod 16" by (simp only: unsigned_take_bit_eq) (simp add: take_bit_eq_mod)
    then show ?thesis using u m by simp
  qed
  have hi: "unat (?b div 16) = n div 10" using u m by (simp add: unat_div)
  have "unat (BIN_FROM_BCD ?b) = (unat (?b div 16) * 10 + unat (?b AND 0xf)) mod 256"
    unfolding BIN_FROM_BCD_def by (simp only: unat_word_ariths) (simp add: mod_add_left_eq)
  then have "unat (BIN_FROM_BCD ?b) = n" unfolding hi lo using n by simp
  then show ?thesis by (metis of_nat_unat ucast_id)
qed

text \<open>Twelve o'clock of a twelve hour clock: midnight is read as 12 and noon as 24.\<close>

lemma twelve_hour_clock:
  assumes "length d = 64" "d ! 0x0B = 0" "d ! 4 = 0x12"
  shows "rtc_decode d ! 4 = 12" "rtc_decode (d[4 := 0x92]) ! 4 = 24"
  using assms by (simp_all add: rtc_decode_def Let_def rtc_fields_def BIN_FROM_BCD_def)

section \<open>Waiting and requests\<close>

lemma halt_loop_returns:
  assumes "timer_wait_pending st = 1" "unat (timer_wait_count st) < unat (timer_wait_target st)"
  shows "halt_loop n st \<noteq> None \<longleftrightarrow> unat (timer_wait_target st) - unat (timer_wait_count st) \<le> n"
    and "halt_loop n st = Some st' \<Longrightarrow> timer_defs st' = timer_defs st \<and> calls st' = calls st \<and> timer_wait_pending st' = 0"
proof -
  have "(halt_loop n st \<noteq> None \<longleftrightarrow> unat (timer_wait_target st) - unat (timer_wait_count st) \<le> n) \<and>
     (\<forall>st'. halt_loop n st = Some st' \<longrightarrow> timer_defs st' = timer_defs st \<and> calls st' = calls st \<and> timer_wait_pending st' = 0)"
    using assms
  proof (induction n arbitrary: st)
    case 0
    then show ?case by (simp add: halt_loop.simps)
  next
    case (Suc n)
    let ?s = "timer_wait_handler st"
    have c: "unat (timer_wait_count st + 1) = Suc (unat (timer_wait_count st))"
      using Suc.prems(2) unat_inc[of "timer_wait_count st" "timer_wait_target st"] by (simp add: word_less_nat_alt)
    have h: "halt_loop (Suc n) st = halt_loop n ?s" using Suc.prems(1) by (subst halt_loop.simps) simp
    show ?case
    proof (cases "timer_wait_count st + 1 \<ge> timer_wait_target st")
      case True
      then have "?s = st\<lparr>timer_wait_count := timer_wait_count st + 1, timer_wait_pending := 0\<rparr>"
        using Suc.prems(1) by (simp add: timer_wait_handler_def)
      moreover have "unat (timer_wait_target st) - unat (timer_wait_count st) \<le> 1" using True c by (simp add: word_le_nat_alt)
      moreover have "halt_loop n s = Some s" if "timer_wait_pending s = 0" for s using that by (simp add: halt_loop.simps)
      ultimately show ?thesis using h by auto
    next
      case False
      then have s: "?s = st\<lparr>timer_wait_count := timer_wait_count st + 1\<rparr>" by (simp add: timer_wait_handler_def)
      have "unat (timer_wait_count ?s) < unat (timer_wait_target ?s)" using False c s by (simp add: word_le_nat_alt)
      moreover have "timer_wait_pending ?s = 1" using s Suc.prems(1) by simp
      ultimately have ih: "(halt_loop n ?s \<noteq> None \<longleftrightarrow> unat (timer_wait_target ?s) - unat (timer_wait_count ?s) \<le> n) \<and>
        (\<forall>st'. halt_loop n ?s = Some st' \<longrightarrow> timer_defs st' = timer_defs ?s \<and> calls st' = calls ?s \<and> timer_wait_pending st' = 0)"
        using Suc.IH by blast
      have "unat (timer_wait_target ?s) - unat (timer_wait_count ?s) \<le> n \<longleftrightarrow> unat (timer_wait_target st) - unat (timer_wait_count st) \<le> Suc n"
        using s c by simp linarith
      moreover have "timer_defs ?s = timer_defs st" "calls ?s = calls st" using s by simp_all
      ultimately show ?thesis using ih unfolding h by metis
    qed
  qed
  then show "halt_loop n st \<noteq> None \<longleftrightarrow> unat (timer_wait_target st) - unat (timer_wait_count st) \<le> n"
    "halt_loop n st = Some st' \<Longrightarrow> timer_defs st' = timer_defs st \<and> calls st' = calls st \<and> timer_wait_pending st' = 0" by blast+
qed

lemma wait_select_found:
  assumes "wait_select ts (int i) n = Inr (j, k)" "k \<noteq> 0"
  shows "\<exists>m. j = int m \<and> i \<le> m \<and> m < i + n \<and> m < length ts \<and> wait_kind (ts ! m) = k \<and> (\<forall>l. i \<le> l \<and> l < m \<longrightarrow> wait_kind (ts ! l) = 0)"
  using assms
proof (induction n arbitrary: i)
  case (Suc n)
  have l: "i < length ts" using Suc.prems(1) by (auto simp: aget_def split: if_splits)
  show ?case
  proof (cases "wait_kind (ts ! i) = 0")
    case True
    then have "wait_select ts (int (Suc i)) n = Inr (j, k)" using Suc.prems(1) l by (simp add: add.commute)
    from Suc.IH[OF this Suc.prems(2)] obtain m where "j = int m" "Suc i \<le> m" "m < Suc i + n" "m < length ts" "wait_kind (ts ! m) = k"
      "\<forall>l. Suc i \<le> l \<and> l < m \<longrightarrow> wait_kind (ts ! l) = 0" by blast
    moreover have "wait_kind (ts ! l) = 0" if "i \<le> l" "l < m" for l using that True calculation(6) by (cases "l = i") simp_all
    ultimately show ?thesis by (intro exI[of _ m]) auto
  next
    case False
    then show ?thesis using Suc.prems(1) l by (intro exI[of _ i]) auto
  qed
qed simp

lemma timer_ticks_exact: "unat ns * unat rate < 2 ^ 64 \<Longrightarrow> unat (timer_ticks ns rate) = unat ns * unat rate div 1000000000"
  by (simp add: timer_ticks_def unat_div unat_mult_lem[THEN iffD1])

lemma set_in_use_nth: "m < length (timer_defs st) \<Longrightarrow> set_in_use st (int m) b = Inr (st\<lparr>timer_defs := (timer_defs st)[m := (timer_defs st ! m)\<lparr>in_use := b\<rparr>]\<rparr>)"
  by (simp add: set_in_use_def)

text \<open>
  C14. A wait ends: when the search has found a periodic timer and the product of duration and rate fits into 64 bits, the
  wait returns once that many periods of the timer (at least one) have passed, and not before; the driver has
  been told to install the handler, to start and to stop, and the table is as it was.
\<close>

theorem timer_wait_returns:
  assumes "wait_select (timer_defs st) 0 (nat (timer_idx st)) = Inr (idx, 1)"
    and "unat ns * unat (t_rate (t_handlers (timer_defs st ! nat idx))) < 2 ^ 64"
  shows "(timer_wait wh ns n v vs st = None \<longleftrightarrow> n < max 1 (unat ns * unat (t_rate (t_handlers (timer_defs st ! nat idx))) div 1000000000)) \<and>
    (max 1 (unat ns * unat (t_rate (t_handlers (timer_defs st ! nat idx))) div 1000000000) \<le> n \<longrightarrow>
       (\<exists>st'. timer_wait wh ns n v vs st = Some (Inr st') \<and> timer_defs st' = timer_defs st \<and>
          calls st' = calls st @ [SetHandler (t_set_handler (t_handlers (timer_defs st ! nat idx))) idx wh,
            SetEnable (t_set_enable (t_handlers (timer_defs st ! nat idx))) idx True,
            SetEnable (t_set_enable (t_handlers (timer_defs st ! nat idx))) idx False]))"
proof -
  from wait_select_found[of "timer_defs st" 0 "nat (timer_idx st)" idx 1] assms(1) obtain m where
    m: "idx = int m" "m < nat (timer_idx st)" "m < length (timer_defs st)" "wait_kind (timer_defs st ! m) = 1" by auto
  let ?t = "timer_defs st ! m" let ?k = "unat ns * unat (t_rate (t_handlers ?t)) div 1000000000"
  have u: "\<not> in_use ?t" using m(4) by (auto simp: wait_kind_def split: if_splits)
  have i: "idx \<noteq> timer_idx st" using m by simp
  define target where "target = timer_ticks ns (t_rate (t_handlers ?t))"
  have k: "unat (if target = 0 then 1 else target) = max 1 ?k"
  proof -
    have "unat target = ?k" using timer_ticks_exact[of ns "t_rate (t_handlers ?t)"] assms(2) m(1) by (simp add: target_def)
    moreover have "target = 0 \<longleftrightarrow> unat target = 0" by (simp add: unat_eq_0)
    ultimately show ?thesis by (cases "?k = 0") (simp_all add: max_def)
  qed
  define s1 where "s1 = st\<lparr>timer_wait_count := 0, timer_wait_pending := 1, timer_wait_d := Some idx,
    timer_defs := (timer_defs st)[m := ?t\<lparr>in_use := True\<rparr>], timer_wait_target := if target = 0 then 1 else target,
    calls := calls st @ [SetHandler (t_set_handler (t_handlers ?t)) idx wh, SetEnable (t_set_enable (t_handlers ?t)) idx True]\<rparr>"
  have w: "timer_wait wh ns n v vs st = (case halt_loop n s1 of None \<Rightarrow> None
      | Some s \<Rightarrow> Some (set_in_use ((call_driver (SetEnable (t_set_enable (t_handlers ?t)) idx False) s)\<lparr>timer_wait_d := None\<rparr>) idx False))"
    using assms(1) i m(1,3) by (simp add: timer_wait_def Let_def set_in_use_nth call_driver_def s1_def target_def cong: option.case_cong)
  have h: "halt_loop n s1 \<noteq> None \<longleftrightarrow> max 1 ?k \<le> n" "halt_loop n s1 = Some s \<Longrightarrow> timer_defs s = timer_defs s1 \<and> calls s = calls s1" for s
  proof -
    have p: "timer_wait_pending s1 = 1" "unat (timer_wait_count s1) = 0" "unat (timer_wait_target s1) = max 1 ?k" using k by (simp_all add: s1_def)
    then have "unat (timer_wait_count s1) < unat (timer_wait_target s1)" by simp
    note r = halt_loop_returns[OF p(1) this]
    show "halt_loop n s1 \<noteq> None \<longleftrightarrow> max 1 ?k \<le> n" using r(1)[of n] unfolding p(2,3) by (simp only: diff_zero)
    show "halt_loop n s1 = Some s \<Longrightarrow> timer_defs s = timer_defs s1 \<and> calls s = calls s1" using r(2) by blast
  qed
  have "\<exists>st'. timer_wait wh ns n v vs st = Some (Inr st') \<and> timer_defs st' = timer_defs st \<and>
      calls st' = calls s1 @ [SetEnable (t_set_enable (t_handlers ?t)) idx False]" if "halt_loop n s1 = Some s" for s
  proof -
    have s: "timer_defs s = (timer_defs st)[m := ?t\<lparr>in_use := True\<rparr>]" "calls s = calls s1" using h(2)[OF that] by (simp_all add: s1_def)
    have "?t\<lparr>in_use := False\<rparr> = ?t" using u by (cases ?t) simp
    then have "(timer_defs st)[m := ?t\<lparr>in_use := False\<rparr>] = timer_defs st" by simp
    then show ?thesis using that s m(1,3) u unfolding w by (simp add: set_in_use_nth call_driver_def)
  qed
  then show ?thesis using h(1) m(1) w by (cases "halt_loop n s1") (auto simp: s1_def)
qed

lemma request_select_first:
  assumes "request_select f ts (int i) n = Inr j"
  shows "j = int (i + n) \<or> (\<exists>m. j = int m \<and> i \<le> m \<and> m < i + n \<and> m < length ts \<and> request_fits f (ts ! m) \<and>
    (\<forall>l. i \<le> l \<and> l < m \<longrightarrow> \<not> request_fits f (ts ! l)))"
  using assms
proof (induction n arbitrary: i)
  case (Suc n)
  have l: "i < length ts" using Suc.prems by (auto simp: aget_def split: if_splits)
  show ?case
  proof (cases "request_fits f (ts ! i)")
    case True
    then show ?thesis using Suc.prems l by (intro disjI2 exI[of _ i]) auto
  next
    case False
    then have "request_select f ts (int (Suc i)) n = Inr j" using Suc.prems l by (simp add: add.commute)
    from Suc.IH[OF this] show ?thesis
    proof (elim disjE exE conjE)
      fix m assume m: "j = int m" "Suc i \<le> m" "m < Suc i + n" "m < length ts" "request_fits f (ts ! m)" "\<forall>l. Suc i \<le> l \<and> l < m \<longrightarrow> \<not> request_fits f (ts ! l)"
      then have "\<not> request_fits f (ts ! l)" if "i \<le> l" "l < m" for l using that False by (cases "l = i") simp_all
      with m show ?thesis by (intro disjI2 exI[of _ m]) auto
    qed simp
  qed
qed simp

lemma timer_request_found:
  assumes "timer_request st f ns h = Inr (0, st')" "0 \<le> timer_idx st"
  obtains m where "m < length (timer_defs st)" "request_fits f (timer_defs st ! m)" "\<forall>l < m. \<not> request_fits f (timer_defs st ! l)"
    "timer_defs st' = (timer_defs st)[m := (timer_defs st ! m)\<lparr>in_use := True\<rparr>]" "timer_idx st' = timer_idx st"
proof -
  from assms(1) obtain idx where i: "request_select f (timer_defs st) (int 0) (nat (timer_idx st)) = Inr idx" "idx \<noteq> timer_idx st"
    by (auto simp: timer_request_def res_iff split: if_splits)
  from request_select_first[OF i(1)] i(2) assms(2) obtain m where m: "idx = int m" "m < length (timer_defs st)" "request_fits f (timer_defs st ! m)"
    "\<forall>l < m. \<not> request_fits f (timer_defs st ! l)" by auto
  with assms(1) i show thesis
    by (intro that[of m]) (auto simp: timer_request_def set_in_use_nth call_driver_def Let_def split: if_splits)
qed

text \<open>
  C39. A timer is given out once: two requests that both succeed get different timers, each the first in the table that is free,
  has the features asked for and the functions needed to use them; both are marked as in use.
\<close>

theorem timer_requests_distinct:
  assumes "0 \<le> timer_idx st" "timer_request st f ns h = Inr (0, st1)" "timer_request st1 g ms k = Inr (0, st2)"
  shows "\<exists>i j. i \<noteq> j \<and> i < length (timer_defs st) \<and> j < length (timer_defs st) \<and>
    request_fits f (timer_defs st ! i) \<and> (\<forall>l < i. \<not> request_fits f (timer_defs st ! l)) \<and>
    request_fits g (timer_defs st ! j) \<and> (\<forall>l < j. l \<noteq> i \<longrightarrow> \<not> request_fits g (timer_defs st ! l)) \<and>
    timer_defs st2 = (timer_defs st)[i := (timer_defs st ! i)\<lparr>in_use := True\<rparr>, j := (timer_defs st ! j)\<lparr>in_use := True\<rparr>]"
proof -
  from timer_request_found[OF assms(2,1)] obtain i where i: "i < length (timer_defs st)" "request_fits f (timer_defs st ! i)"
    "\<forall>l < i. \<not> request_fits f (timer_defs st ! l)" "timer_defs st1 = (timer_defs st)[i := (timer_defs st ! i)\<lparr>in_use := True\<rparr>]"
    "timer_idx st1 = timer_idx st" by blast
  have "0 \<le> timer_idx st1" using i(5) assms(1) by simp
  from timer_request_found[OF assms(3) this] obtain j where j: "j < length (timer_defs st1)" "request_fits g (timer_defs st1 ! j)"
    "\<forall>l < j. \<not> request_fits g (timer_defs st1 ! l)" "timer_defs st2 = (timer_defs st1)[j := (timer_defs st1 ! j)\<lparr>in_use := True\<rparr>]" by blast
  have ne: "i \<noteq> j"
  proof
    assume "i = j"
    then have "in_use (timer_defs st1 ! j)" using i(1,4) by simp
    then show False using j(2) by (simp add: request_fits_def)
  qed
  then show ?thesis using i j by (intro exI[of _ i] exI[of _ j]) (auto simp: nth_list_update)
qed

definition ex_timer :: timer_defs_t where
  "ex_timer = \<lparr>in_use = False, t_features = 0x42, t_handlers = \<lparr>t_read = 0, t_write = 16, t_set_mode = 32, t_set_enable = 48, t_set_handler = 64, t_rate = 2000\<rparr>\<rparr>"

definition ex_systimer :: systimer where
  "ex_systimer = \<lparr>timer_defs = [ex_timer, ex_timer], timer_idx = 2, timer_wait_pending = 0, timer_wait_count = 0, timer_wait_target = 0,
     timer_wait_d = None, calls = []\<rparr>"

definition ex_rtc :: rtc where
  "ex_rtc = \<lparr>century = 20, year = 24, month = 3, dayofmonth = 9, weekday = 2, hours = 23, minutes = 59, seconds = 59, ms_100000000x = 0, ms_sinceboot = 0\<rparr>"


lemma ex_two: "nat (timer_idx ex_systimer) = Suc (Suc 0)"
  by (simp add: ex_systimer_def)

theorem timer_wait_returns_witness:
  "timer_wait 7 1000000 1 0 [] ex_systimer = None \<and> (\<exists>st'. timer_wait 7 1000000 2 0 [] ex_systimer = Some (Inr st'))"
proof -
  have s: "wait_select (timer_defs ex_systimer) 0 (nat (timer_idx ex_systimer)) = Inr (0, 1)"
    unfolding ex_two by (simp add: ex_systimer_def ex_timer_def wait_kind_def timer_features_periodic_def)
  have r: "t_rate (t_handlers (timer_defs ex_systimer ! nat 0)) = 2000" by (simp add: ex_systimer_def ex_timer_def)
  have f: "unat (1000000 :: u64) * unat (t_rate (t_handlers (timer_defs ex_systimer ! nat 0))) < 2 ^ 64" unfolding r by simp
  show ?thesis using timer_wait_returns[OF s f, of 7 1 0 "[]"] timer_wait_returns[OF s f, of 7 2 0 "[]"] unfolding r by (simp add: max_def) blast
qed

theorem timer_requests_distinct_witness:
  "\<exists>st1 st2. timer_request ex_systimer 2 0 5 = Inr (0, st1) \<and> timer_request st1 2 0 5 = Inr (0, st2) \<and>
     map in_use (timer_defs st2) = [True, True]"
proof -
  have e: "\<exists>st1 st2. timer_request ex_systimer 2 0 5 = Inr (0, st1) \<and> timer_request st1 2 0 5 = Inr (0, st2)"
  proof -
    let ?s = "ex_systimer\<lparr>timer_defs := [ex_timer\<lparr>in_use := True\<rparr>, ex_timer], timer_wait_d := Some 0,
      calls := [SetMode 32 0 2, SetHandler 64 0 5, SetEnable 48 0 True]\<rparr>"
    have n: "nat (timer_idx ?s) = Suc (Suc 0)" using ex_two by simp
    have "timer_request ex_systimer 2 0 5 = Inr (0, ?s)" unfolding timer_request_def ex_two
      by (simp add: ex_systimer_def ex_timer_def request_fits_def timer_features_write_def set_in_use_def call_driver_def Let_def)
    moreover have "\<exists>st2. timer_request ?s 2 0 5 = Inr (0, st2)" unfolding timer_request_def n
      by (simp add: ex_systimer_def ex_timer_def request_fits_def timer_features_write_def set_in_use_def call_driver_def Let_def)
    ultimately show ?thesis by blast
  qed
  then obtain st1 st2 where r: "timer_request ex_systimer 2 0 5 = Inr (0, st1)" "timer_request st1 2 0 5 = Inr (0, st2)" by blast
  have l: "length (timer_defs ex_systimer) = 2" "0 \<le> timer_idx ex_systimer" by (simp_all add: ex_systimer_def)
  from timer_requests_distinct[OF l(2) r] obtain i j where "i \<noteq> j" "i < 2" "j < 2"
    "timer_defs st2 = (timer_defs ex_systimer)[i := (timer_defs ex_systimer ! i)\<lparr>in_use := True\<rparr>, j := (timer_defs ex_systimer ! j)\<lparr>in_use := True\<rparr>]"
    using l by metis
  then have "map in_use (timer_defs st2) = [True, True]" by (auto simp: ex_systimer_def less_2_cases_iff)
  with r show ?thesis by (intro exI[of _ st1] exI[of _ st2]) simp
qed

end
