(* ===== verification/Spec2Isabelle.thy ===== *)
theory Spec2Isabelle
  imports StdQueue StdList CMem StdLib BootAlloc Malloc Kvs Registry RegTree BootInfo ObjStore PageAlloc PhysInit AddressSpace
    KernelHeap Scheduler ByteMem Sha256 ModuleSign Aes SymbolDb Initrd Elf LoadScript
    Multiboot BootPages Bus Apic Interrupts IdtEntry IoApic Network Edid Devices Timer
begin

text \<open>
  A verification library for the Cardinal microkernel.

  \<^bold>\<open>The program.\<close> Cardinal is a microkernel for x86-64 written in C. A small kernel (\<^verbatim>\<open>kernel/\<close>) loads modules
  (\<^verbatim>\<open>modules/\<close>) that provide memory, a registry, objects, interrupts, timers and tasks; they share the routines in
  \<^verbatim>\<open>common/\<close> and \<^verbatim>\<open>libs/\<close>. The parts modelled here build on each other: the page allocator keeps its free pages in a
  ring buffer and fills it at start-up from the memory map in the registry; the heap takes pages from it and reaches them through the kernel's map of physical memory; the page table
  manager takes the frames of its tables from it; the registry and the object store are trees of key value lists; the
  scheduler activates address spaces and moves saved contexts. The kernel finds modules in a tar archive, links them with
  the help of its symbol table and runs them in the order of a script; a signature over SHA-256 guards a module file.
  Before all that it reads the tags of the boot loader. The interrupt module hands out vectors, saves the interrupted context in
  a frame where the scheduler exchanges it, and programs the local and I/O interrupt controllers with what the registry says.
  A server passes received packets up to UDP.

  \<^bold>\<open>The model.\<close> A C function is a function on an explicit state. A result is an error (\<open>Inl\<close>) or a value (\<open>Inr\<close>): \<^verbatim>\<open>fault\<close>
  in \<^verbatim>\<open>Prelude\<close> has a constructor for a null pointer, a bad pointer, an index out of bounds, a division by zero, a loop
  that does not end, a lock that is never released, and a panic. Machine integers are words of their width; \<^verbatim>\<open>int\<close>
  variables whose overflow the code does not reach are integers cut by \<^verbatim>\<open>to_i32\<close> where the code cuts them. Objects of one
  C type live in a heap of cells with an allocator (\<^verbatim>\<open>halloc\<close> answers null when nothing is left), so use after free,
  double free and null pointers are results of the model. Locks are flags; taking a lock that is held is a deadlock,
  since one core is modelled at a time.

  \<^bold>\<open>Theories.\<close>
  \<^item> \<^verbatim>\<open>Prelude\<close>: results and their sequencing, arrays, word arithmetic, heaps, paths through linked structures.
  \<^item> \<^verbatim>\<open>StdQueue\<close> (\<^verbatim>\<open>common/src/queue.c\<close>): the ring buffer as a bounded list.
  \<^item> \<^verbatim>\<open>StdList\<close> (\<^verbatim>\<open>common/src/list.c\<close>): the doubly linked list with its cursor, as a list of values.
  \<^item> \<^verbatim>\<open>CMem\<close> (\<^verbatim>\<open>common/src/memory.c\<close>), \<^verbatim>\<open>StdLib\<close> (\<^verbatim>\<open>common/src/stdlib.c\<close>): memory and string routines, number conversion.
  \<^item> \<^verbatim>\<open>Alloc\<close>: what an allocator promises (locales \<open>allocator\<close>, \<open>total_allocator\<close>, \<open>heap_allocator\<close>). \<^verbatim>\<open>BootAlloc\<close>
    (\<^verbatim>\<open>kernel/src/bootstrap_alloc.c\<close>) interprets it; \<^verbatim>\<open>Malloc\<close> (\<^verbatim>\<open>modules/SysMemory\<close>) proves it from the contract
    \<open>page_provider\<close> of a source of pages; \<^verbatim>\<open>KernelHeap\<close> interprets that contract with the page allocator.
  \<^item> \<^verbatim>\<open>PageAlloc\<close> (\<^verbatim>\<open>modules/SysPhysicalMemory\<close>): entries, in-place quicksort, compaction, allocation and release of pages.
    \<^verbatim>\<open>PhysInit\<close>: its initialisation.
  \<^item> \<^verbatim>\<open>Kvs\<close> (\<^verbatim>\<open>libs/kvs\<close>), \<^verbatim>\<open>Store\<close>, \<^verbatim>\<open>Registry\<close> (\<^verbatim>\<open>modules/SysReg\<close>), \<^verbatim>\<open>ObjStore\<close> (\<^verbatim>\<open>modules/SysObj\<close>): the key value lists, the
    tree of them with path lookup and its lock, and the two modules over it; the locale \<open>typed_key\<close> carries the accessors.
    \<^verbatim>\<open>RegTree\<close>: the tree of directories the registry stands for, with its operations as the specification. \<^verbatim>\<open>BootInfo\<close>
    (\<^verbatim>\<open>modules/SysReg/src/bootinfo.c\<close>): the boot information written into it.
  \<^item> \<^verbatim>\<open>VMem\<close> (\<^verbatim>\<open>modules/SysVirtualMemory\<close>): the page table manager. \<^verbatim>\<open>PageTables\<close> treats the tables as a forest,
    \<^verbatim>\<open>AddressSpace\<close> the operations on address spaces.
  \<^item> \<^verbatim>\<open>TaskMgr\<close> (\<^verbatim>\<open>modules/SysTaskMgr\<close> and the save areas of \<^verbatim>\<open>SysMP\<close>, \<^verbatim>\<open>SysFP\<close>, \<^verbatim>\<open>SysUser\<close>): tasks. \<^verbatim>\<open>Scheduler\<close>: what a
    switch does, the states a core reaches (\<open>core_steps\<close>), descriptors, and removal of tasks.
  \<^item> \<^verbatim>\<open>ByteMem\<close>: blocks of bytes, the addresses they span and little-endian fields, for the theories that follow.
  \<^item> \<^verbatim>\<open>Sha256\<close> (\<^verbatim>\<open>libs/crypto/sha256.c\<close>): the hash, against FIPS 180-4; the locale \<open>streaming_hash\<close> says what a hash fed in pieces
    computes. \<^verbatim>\<open>ModuleSign\<close> (\<^verbatim>\<open>libs/crypto/hmac.c\<close>, \<^verbatim>\<open>libs/module_lib\<close>): keyed hash, module headers, signing and checking.
  \<^item> \<^verbatim>\<open>Aes\<close> (\<^verbatim>\<open>libs/crypto/aes.c\<close>): the cipher and its modes; the locale \<open>block_cipher\<close> carries the chaining.
  \<^item> \<^verbatim>\<open>SymbolDb\<close>, \<^verbatim>\<open>Initrd\<close>, \<^verbatim>\<open>Elf\<close>, \<^verbatim>\<open>LoadScript\<close> (\<^verbatim>\<open>kernel/src\<close>): the symbol table as a map, the archive, the loader over both,
    and the interpreter of the scripts that drives it. The code of modules and the allocator they share are parameters.
  \<^item> \<^verbatim>\<open>Multiboot\<close> (\<^verbatim>\<open>kernel/src/platform/x86_64/pc/multiboot2.c\<close>): the tags of the boot loader. \<^verbatim>\<open>BootPages\<close> joins it with
    \<^verbatim>\<open>BootInfo\<close> and \<^verbatim>\<open>PhysInit\<close>.
  \<^item> \<^verbatim>\<open>Bus\<close>: device registers as a log of accesses and a function that answers reads. \<^verbatim>\<open>Apic\<close>, \<^verbatim>\<open>Interrupts\<close>, \<^verbatim>\<open>IdtEntry\<close>,
    \<^verbatim>\<open>IoApic\<close> (\<^verbatim>\<open>modules/SysInterrupts\<close>): the local controller; vectors, handlers and the main handler; the entry code
    executed instruction by instruction; the I/O controller, segments and the start of the module.
  \<^item> \<^verbatim>\<open>Timer\<close> (\<^verbatim>\<open>modules/SysTimer/src/main.c\<close> and \<^verbatim>\<open>rtc.c\<close>): the table of timers, waiting, requests and the real-time clock.
  \<^item> \<^verbatim>\<open>Network\<close> (\<^verbatim>\<open>servers/CoreNetwork\<close>): interfaces and the receive path. \<^verbatim>\<open>Devices\<close> (\<^verbatim>\<open>servers/CoreDisplay\<close>, \<^verbatim>\<open>CoreInput\<close>,
    \<^verbatim>\<open>CorePower\<close>): registries of devices, with the locale \<open>device_registry\<close> interpreted for displays and for input devices, and the queue
    of events. \<^verbatim>\<open>Edid\<close> (\<^verbatim>\<open>servers/CoreDisplay/src/edid.c\<close>): display identification.

  \<^bold>\<open>What is shown.\<close> Containers refine lists. Blocks of both allocators are disjoint. The sort terminates, sorts and permutes.
  Pages are conserved by allocation and release. What is added to the registry is read back and locks are released on
  every path. A mapping makes exactly its range translate and leaves every other translation alone; activating an
  address space makes the processor translate as it does. A timer interrupt switches round robin, contexts survive a
  switch and back, and the invariant of the process list holds in every reachable state. The registry refines a tree of
  directories, and after start-up the page allocator holds exactly the pages of the free regions the boot loader reported.
  The hash is SHA-256 whatever the pieces; the cipher's modes invert each other; a signed header is checked by what it was
  signed with. The symbol table refines a map, a file is found in the archive, relocations store what the ABI asks,
  exported functions resolve, and the script runs line by line. From the boot loader's tags on, no page that is handed out
  lies in the kernel image. Exclusive vectors are disjoint; an interrupt returns to where it came from with all registers, or to
  the context a handler installed. A controller's entry is what was asked for. The IP check is the sum of RFC 1071 and drops a
  header in which a byte has changed. A wait on a timer ends after its number of periods, and a timer is given out once. Events
  of a device are queued in order, and reading a display's data stays inside its arrays. Several theorems state what
  the code does where it is not what it means to do: compaction that loses pages, flushing that drops mappings, a
  cleanup that deadlocks, a descriptor table that cannot grow, a signature check no named module passes, a mode that
  encrypts one block only.

  \<^bold>\<open>Loops.\<close> Loops over data are structural recursion or functions with a measure. Loops through linked structures take the
  number of cells of the heap as fuel: a path without repetition visits each cell at most once (\<open>path_length\<close> in
  \<^verbatim>\<open>Prelude\<close>), and the theorems show that the fuel is enough. The loops of the page tables end at the end of a table of
  512 entries; the string loops that may run through all of memory are partial functions and shown to return.
  The loops of the ELF loader are bounded by the width of their counters, the script interpreter by the bytes of the script;
  both bounds are discussed and shown to suffice in their theories. The loop over the boot loader's tags need not end; it is a
  partial function, shown to return for tags that follow the format. So is the loop that reads an input device, which ends with the
  events or with the room in the queue. A wait takes the number of interrupts that arrive, the polls of the clock a number of tries.

  \<^bold>\<open>Not modelled.\<close> The start-up code around the scripts; the hardware drivers of the timers, the conversion of time stamps in
  floating point, and debugging output; the start of other cores and their interleaving; the loading of segment registers; the translation
  cache; the registry's ACPI and PCI sources; drivers, and the servers for USB, sound, storage and the start of drivers; the vendored
  \<^verbatim>\<open>miniz\<close>. Hardware enters as parameters: the answers of device registers, interrupts that arrive, the clock, the memory that
  tasks watch, processor features from the registry.
\<close>

end
